(* ===== verification/Pb_Prelude.thy ===== *)
theory Pb_Prelude
  imports Main "HOL-Library.Word"
begin

unbundle bit_operations_syntax

text \<open>
  Shared vocabulary of the development: the machine types of the target (a 64-bit little-endian
  platform, the build of nanopb in this repository has \<open>PB_FIELD_32BIT\<close> and
  \<open>PB_ENABLE_MALLOC\<close>), the outcome of a C function that returns \<open>bool\<close> and works
  on a stream, and the facts on words, bytes and lists that the components share.
\<close>

section \<open>Machine types\<close>

type_synonym u8 = "8 word"
type_synonym u16 = "16 word"
type_synonym u32 = "32 word"
type_synonym u64 = "64 word"

section \<open>Outcomes\<close>

text \<open>
  Almost every function of nanopb returns \<open>bool\<close>, takes a stream by pointer and stores
  its results through out-parameters. Such a call has three outcomes: it returns true with its
  out-parameters \<open>'a\<close> and the updated state \<open>'s\<close>; it returns false with the
  updated state; or it does not return at all in the C sense, because it reads or writes outside
  the objects it was given (undefined behaviour), because a user-supplied function breaks its
  contract, or because the recursion does not end within the fuel. The third outcome is
  \<open>Stuck\<close>: a theorem that excludes it is a theorem of memory safety and termination.
\<close>

datatype ('a, 's) outcome = Ok 'a 's | Fail 's | Stuck

text \<open>
  \<open>c_then r k\<close> is the C idiom \<open>if (!f(...)) return false;\<close> followed by \<open>k\<close>.
\<close>

primrec c_then :: "('a, 's) outcome \<Rightarrow> ('a \<Rightarrow> 's \<Rightarrow> ('b, 's) outcome) \<Rightarrow> ('b, 's) outcome" where
  "c_then (Ok a s) k = k a s"
| "c_then (Fail s) k = Fail s"
| "c_then Stuck k = Stuck"

text \<open>The state part of an outcome seen through a function (a larger or a smaller state).\<close>

primrec on_state :: "('s \<Rightarrow> 't) \<Rightarrow> ('a, 's) outcome \<Rightarrow> ('a, 't) outcome" where
  "on_state f (Ok a s) = Ok a (f s)"
| "on_state f (Fail s) = Fail (f s)"
| "on_state f Stuck = Stuck"

text \<open>A memory access that may be out of bounds.\<close>

definition access :: "'a option \<Rightarrow> ('a \<Rightarrow> ('b, 's) outcome) \<Rightarrow> ('b, 's) outcome" where
  "access x k = (case x of None \<Rightarrow> Stuck | Some a \<Rightarrow> k a)"

named_theorems outcome_simps "evaluation of outcomes"

lemma access_simps [simp, outcome_simps]:
  "access None k = Stuck" "access (Some a) k = k a"
  by (simp_all add: access_def)

lemma c_then_assoc: "c_then (c_then r f) g = c_then r (\<lambda>a s. c_then (f a s) g)"
  by (cases r) simp_all

lemma c_then_eq_Ok_iff:
  "c_then r k = Ok b t \<longleftrightarrow> (\<exists>a s. r = Ok a s \<and> k a s = Ok b t)"
  by (cases r) auto

lemma c_then_eq_Fail_iff:
  "c_then r k = Fail t \<longleftrightarrow> r = Fail t \<or> (\<exists>a s. r = Ok a s \<and> k a s = Fail t)"
  by (cases r) auto

lemma c_then_eq_Stuck_iff:
  "c_then r k = Stuck \<longleftrightarrow> r = Stuck \<or> (\<exists>a s. r = Ok a s \<and> k a s = Stuck)"
  by (cases r) auto

lemmas c_then_iffs = c_then_eq_Ok_iff c_then_eq_Fail_iff c_then_eq_Stuck_iff

lemma on_state_eq_Ok_iff: "on_state f r = Ok a t \<longleftrightarrow> (\<exists>s. r = Ok a s \<and> t = f s)"
  by (cases r) auto

lemma on_state_eq_Fail_iff: "on_state f r = Fail t \<longleftrightarrow> (\<exists>s. r = Fail s \<and> t = f s)"
  by (cases r) auto

lemma on_state_eq_Stuck_iff: "on_state f r = Stuck \<longleftrightarrow> r = Stuck"
  by (cases r) auto

lemmas on_state_iffs = on_state_eq_Ok_iff on_state_eq_Fail_iff on_state_eq_Stuck_iff

lemma access_eq_Ok_iff: "access x k = Ok b t \<longleftrightarrow> (\<exists>a. x = Some a \<and> k a = Ok b t)"
  by (cases x) auto

lemma access_eq_Fail_iff: "access x k = Fail t \<longleftrightarrow> (\<exists>a. x = Some a \<and> k a = Fail t)"
  by (cases x) auto

lemma access_eq_Stuck_iff: "access x k = Stuck \<longleftrightarrow> x = None \<or> (\<exists>a. x = Some a \<and> k a = Stuck)"
  by (cases x) auto

lemmas access_iffs = access_eq_Ok_iff access_eq_Fail_iff access_eq_Stuck_iff

lemmas outcome_iffs = c_then_iffs on_state_iffs access_iffs

text \<open>\<open>wp r Q R\<close>: the call does not get stuck, \<open>Q\<close> holds when it returns true and
  \<open>R\<close> when it returns false.\<close>

primrec wp :: "('a, 's) outcome \<Rightarrow> ('a \<Rightarrow> 's \<Rightarrow> bool) \<Rightarrow> ('s \<Rightarrow> bool) \<Rightarrow> bool" where
  "wp (Ok a s) Q R = Q a s"
| "wp (Fail s) Q R = R s"
| "wp Stuck Q R = False"

lemma wp_c_then: "wp (c_then r k) Q R \<longleftrightarrow> wp r (\<lambda>a s. wp (k a s) Q R) R"
  by (cases r) simp_all

lemma wp_on_state: "wp (on_state f r) Q R \<longleftrightarrow> wp r (\<lambda>a s. Q a (f s)) (\<lambda>s. R (f s))"
  by (cases r) simp_all

lemma wp_mono:
  "wp r Q R \<Longrightarrow> (\<And>a s. Q a s \<Longrightarrow> Q' a s) \<Longrightarrow> (\<And>s. R s \<Longrightarrow> R' s) \<Longrightarrow> wp r Q' R'"
  by (cases r) simp_all

lemma wp_conj:
  "wp r Q R \<Longrightarrow> wp r Q' R' \<Longrightarrow> wp r (\<lambda>a s. Q a s \<and> Q' a s) (\<lambda>s. R s \<and> R' s)"
  by (cases r) simp_all

lemma wp_not_Stuck: "wp r Q R \<Longrightarrow> r \<noteq> Stuck"
  by (cases r) simp_all

lemma wp_OkD: "wp r Q R \<Longrightarrow> r = Ok a s \<Longrightarrow> Q a s"
  by simp

lemma wp_FailD: "wp r Q R \<Longrightarrow> r = Fail s \<Longrightarrow> R s"
  by simp

section \<open>Assertions\<close>

text \<open>\<open>assert(c)\<close> followed by \<open>r\<close>; \<open>None\<close> is a
  failed assertion.\<close>

definition asserting :: "bool \<Rightarrow> 'a option \<Rightarrow> 'a option" where
  "asserting c r = (if c then r else None)"

lemma asserting_cong [fundef_cong]:
  "c = d \<Longrightarrow> (d \<Longrightarrow> r = s) \<Longrightarrow> asserting c r = asserting d s"
  by (simp add: asserting_def)

lemma asserting_simps [simp]: "asserting True r = r" "asserting False r = None"
  by (simp_all add: asserting_def)

section \<open>Lists that were cut off\<close>

text \<open>A cut through a concatenation goes through its first part or behind it.\<close>

lemma append_eq_cut:
  assumes "c @ d = D @ X"
  obtains (inside) Y where "c = D @ Y" "Y \<noteq> []" | (behind) D' where "D = c @ D'" "d = D' @ X"
  using assms by (auto simp: append_eq_append_conv2) (metis append.right_neutral self_append_conv)

section \<open>Words and bytes\<close>

lemma uint64_small [simp]: "n < 2 ^ 64 \<Longrightarrow> unat (of_nat n :: u64) = n"
  by (simp add: unat_of_nat take_bit_eq_mod)

lemma uint32_small [simp]: "n < 2 ^ 32 \<Longrightarrow> unat (of_nat n :: u32) = n"
  by (simp add: unat_of_nat take_bit_eq_mod)

lemma unat_drop_bit_div: "unat (drop_bit n (v :: 'a::len word)) = unat v div 2 ^ n"
  by (simp only: unat_drop_bit_eq) (simp add: drop_bit_eq_div)

lemma unat_take_bit_mod: "unat (take_bit n (v :: 'a::len word)) = unat v mod 2 ^ n"
  by (simp only: unsigned_take_bit_eq) (simp add: take_bit_eq_mod)

lemma unat_minus_le: "(b::'a::len word) \<le> a \<Longrightarrow> unat (a - b) = unat a - unat b"
  by (simp add: unat_sub_if' word_le_nat_alt)

lemma unat_dec: "(a::'a::len word) \<noteq> 0 \<Longrightarrow> unat (a - 1) = unat a - 1"
  by (simp add: unat_minus_one)

lemma unat_pos_iff: "0 < unat (a::'a::len word) \<longleftrightarrow> a \<noteq> 0"
  by (simp add: unat_gt_0)

lemma unat_u64_less [simp]: "unat (w :: u64) < 2 ^ 64"
  using unsigned_less [of w] by simp

lemma unat_u32_less [simp]: "unat (w :: u32) < 2 ^ 32"
  using unsigned_less [of w] by simp

lemma unat_u8_less [simp]: "unat (w :: u8) < 256"
  using unsigned_less [of w] by simp

lemma unat_less_numeral [simp]:
  "unat (w :: u64) < 18446744073709551616" "unat (v :: u32) < 4294967296"
  using unat_u64_less [of w] unat_u32_less [of v] by simp_all

lemma unat_of_nat_u8: "n < 256 \<Longrightarrow> unat (of_nat n :: u8) = n"
  by (simp add: unat_of_nat take_bit_eq_mod)

lemma unat_ucast_u32_u64 [simp]: "unat (ucast (w :: u32) :: u64) = unat w"
proof -
  have "unat w < 2 ^ 32" by (rule unat_u32_less)
  also have "(2::nat) ^ 32 < 2 ^ 64" by simp
  finally have "unat w < 2 ^ 64" .
  then show ?thesis by (simp add: unsigned_ucast_eq take_bit_nat_eq_self)
qed

lemma byte_and_7F: "unat (b AND 0x7F :: u8) = unat b mod 128"
proof -
  have "b AND 0x7F = take_bit 7 b" by (simp add: take_bit_eq_mask mask_eq_exp_minus_1)
  then have "unat (b AND 0x7F) = take_bit 7 (unat b)" by (simp only: unsigned_take_bit_eq)
  then show ?thesis by (simp add: take_bit_eq_mod)
qed

lemma byte_and_80: "(b AND 0x80 :: u8) = 0 \<longleftrightarrow> unat b < 128"
proof -
  have "(b AND 0x80 = 0) \<longleftrightarrow> \<not> bit b 7"
    using and_exp_eq_0_iff_not_bit [of b 7] by simp
  also have "bit b 7 \<longleftrightarrow> bit (unat b) 7" by (simp add: bit_unsigned_iff)
  also have "\<dots> \<longleftrightarrow> odd (unat b div 128)" by (simp add: bit_iff_odd)
  also have "\<not> odd (unat b div 128) \<longleftrightarrow> unat b < 128"
  proof -
    have "unat b div 128 = 0 \<or> unat b div 128 = 1" using unat_u8_less [of b] by linarith
    then show ?thesis by auto
  qed
  finally show ?thesis .
qed

lemma nat_bit_bound: "bit (r :: nat) i \<Longrightarrow> r < 2 ^ n \<Longrightarrow> i < n"
proof (rule ccontr)
  assume b: "bit r i" and r: "r < 2 ^ n" and "\<not> i < n"
  then have "(2::nat) ^ n \<le> 2 ^ i" by (intro power_increasing) auto
  with r have "r div 2 ^ i = 0" by (intro div_less) linarith
  with b show False by (simp add: bit_iff_odd)
qed

lemma nat_or_push_bit: "r < 2 ^ n \<Longrightarrow> (r :: nat) OR push_bit n v = r + v * 2 ^ n"
proof -
  assume "r < 2 ^ n"
  then have "r AND push_bit n v = 0"
    by (intro bit_eqI) (auto simp: bit_simps dest: nat_bit_bound)
  then show ?thesis by (simp add: push_bit_eq_mult flip: disjunctive_add_eq_or)
qed

lemma of_nat_or_push_bit:
  "r < 2 ^ n \<Longrightarrow>
     (of_nat r OR push_bit n (of_nat v) :: 'a::len word) = of_nat (r + v * 2 ^ n)"
  by (simp only: nat_or_push_bit [symmetric] of_nat_or_eq of_nat_push_bit)

end
