(* ===== verification/Base64.thy ===== *)
theory Base64
  imports Pb_Prelude
begin

unbundle bit_operations_syntax

text \<open>
  The base-64 coder of the websocket handshake (\<open>fbase64.c\<close>): \<open>f_b64_ntop\<close>
  and \<open>f_b64_pton\<close>. The source pointer is the list of bytes from the pointer to the end
  of its object, the target is the list of the bytes of the target object (\<open>None\<close> for a NULL
  target); an access outside an object makes the whole call \<open>None\<close>. The result is the
  returned \<open>int\<close> with the final contents of the target. \<open>isspace\<close> is that of the
  C locale, which has no white space above 127. \<open>u_int\<close> has 32 bits and \<open>size_t\<close>
  64.
\<close>

section \<open>The code\<close>

definition Base64_chars :: "u8 list" where
  "Base64_chars = map (of_nat \<circ> of_char)
     ''ABCDEFGHIJKLMNOPQRSTUVWXYZabcdefghijklmnopqrstuvwxyz0123456789+/''"

definition Pad64 :: u8 where "Pad64 = 61"

definition isspace :: "u8 \<Rightarrow> bool" where
  "isspace ch \<longleftrightarrow> ch \<in> {9, 10, 11, 12, 13, 32}"

text \<open>\<open>strchr(Base64, ch) - Base64\<close> for a character other than NUL.\<close>

primrec strchr :: "u8 list \<Rightarrow> u8 \<Rightarrow> nat option" where
  "strchr [] ch = None"
| "strchr (c # cs) ch = (if c = ch then Some 0 else map_option Suc (strchr cs ch))"

text \<open>Array accesses.\<close>

definition c_get :: "'a list \<Rightarrow> nat \<Rightarrow> 'a option" where
  "c_get a i = (if i < length a then Some (a ! i) else None)"

definition c_put :: "'a list \<Rightarrow> nat \<Rightarrow> 'a \<Rightarrow> 'a list option" where
  "c_put a i v = (if i < length a then Some (a[i := v]) else None)"

text \<open>\<open>target[datalength++] = ...\<close> for the characters of a group.\<close>

primrec put_chars :: "u8 list \<Rightarrow> u64 \<Rightarrow> u8 list \<Rightarrow> u8 list option" where
  "put_chars target dl [] = Some target"
| "put_chars target dl (c # cs) =
     (case c_put target (unat dl) c of None \<Rightarrow> None | Some t \<Rightarrow> put_chars t (dl + 1) cs)"

text \<open>The characters \<open>Base64[output[0]]\<close> to \<open>Base64[output[3]]\<close> of a group.\<close>

definition ntop_output :: "u8 \<Rightarrow> u8 \<Rightarrow> u8 \<Rightarrow> u8 list" where
  "ntop_output i0 i1 i2 =
     [drop_bit 2 i0,
      push_bit 4 (i0 AND 0x03) + drop_bit 4 i1,
      push_bit 2 (i1 AND 0x0f) + drop_bit 6 i2,
      i2 AND 0x3f]"

definition b64_char :: "u8 \<Rightarrow> u8 option" where
  "b64_char d = c_get Base64_chars (unat d)"

text \<open>The \<open>while (2 < srclength)\<close> loop: \<open>Inl\<close> is an early return.\<close>

function ntop_loop :: "u8 list \<Rightarrow> u64 \<Rightarrow> u8 list \<Rightarrow> u64 \<Rightarrow> u64 \<Rightarrow>
    ((int \<times> u8 list) + (u8 list \<times> u64 \<times> u8 list \<times> u64)) option" where
  "ntop_loop src srclength target datalength targsize =
     (if 2 < srclength
      then (case src of
              i0 # i1 # i2 # src' \<Rightarrow>
                if datalength + 4 > targsize then Some (Inl (- 1, target))
                else (case those (map b64_char (ntop_output i0 i1 i2)) of
                        None \<Rightarrow> None
                      | Some cs \<Rightarrow>
                          (case put_chars target datalength cs of
                             None \<Rightarrow> None
                           | Some t \<Rightarrow> ntop_loop src' (srclength - 3) t (datalength + 4) targsize))
            | _ \<Rightarrow> None)
      else Some (Inr (src, srclength, target, datalength)))"
  by pat_completeness auto
termination
  by (relation "measure (\<lambda>(src, n, t, d, m). length src)") auto

declare ntop_loop.simps [simp del]

text \<open>The rest of \<open>f_b64_ntop\<close>: padding and the terminating NUL.\<close>

definition ntop_padding :: "u8 list \<Rightarrow> u64 \<Rightarrow> u8 list \<Rightarrow> u64 \<Rightarrow> u64 \<Rightarrow>
    ((int \<times> u8 list) + (u8 list \<times> u64)) option" where
  "ntop_padding src srclength target datalength targsize =
     (if 0 \<noteq> srclength
      then if length src < unat srclength then None
           else let i0 = src ! 0; i1 = (if srclength = 1 then 0 else src ! 1);
                    out = ntop_output i0 i1 0 in
                if datalength + 4 > targsize then Some (Inl (- 1, target))
                else (case those (map b64_char (take 3 out)) of
                        None \<Rightarrow> None
                      | Some cs \<Rightarrow>
                          (case put_chars target datalength
                                  [cs ! 0, cs ! 1, if srclength = 1 then Pad64 else cs ! 2, Pad64] of
                             None \<Rightarrow> None
                           | Some t \<Rightarrow> Some (Inr (t, datalength + 4))))
      else Some (Inr (target, datalength)))"

definition ntop_finish :: "u8 list \<Rightarrow> u64 \<Rightarrow> u8 list \<Rightarrow> u64 \<Rightarrow> u64 \<Rightarrow> (int \<times> u8 list) option" where
  "ntop_finish src srclength target datalength targsize =
     (case ntop_padding src srclength target datalength targsize of
        None \<Rightarrow> None
      | Some (Inl r) \<Rightarrow> Some r
      | Some (Inr (t, dl)) \<Rightarrow>
          if dl \<ge> targsize then Some (- 1, t)
          else (case c_put t (unat dl) 0 of
                  None \<Rightarrow> None
                | Some t' \<Rightarrow> Some (sint (ucast dl :: u32), t')))"

definition f_b64_ntop :: "u8 list \<Rightarrow> u64 \<Rightarrow> u8 list \<Rightarrow> u64 \<Rightarrow> (int \<times> u8 list) option" where
  "f_b64_ntop src srclength target targsize =
     (case ntop_loop src srclength target 0 targsize of
        None \<Rightarrow> None
      | Some (Inl r) \<Rightarrow> Some r
      | Some (Inr (src', n, t, dl)) \<Rightarrow> ntop_finish src' n t dl targsize)"

text \<open>
  The \<open>switch (state)\<close> of \<open>f_b64_pton\<close> for the digit \<open>d\<close>
  (\<open>pos - Base64\<close>): \<open>Inl\<close> is \<open>return (-1)\<close>, \<open>Inr\<close> the new target,
  \<open>tarindex\<close> and \<open>state\<close>.
\<close>

definition pton_step :: "u8 list option \<Rightarrow> u64 \<Rightarrow> u32 \<Rightarrow> nat \<Rightarrow> u8 \<Rightarrow>
    ((int \<times> u8 list option) + (u8 list option \<times> u32 \<times> nat)) option" where
  "pton_step target targsize ti state d =
     (let store = (\<lambda>i f t. case c_get t (unat (i :: u32)) of
                             None \<Rightarrow> None | Some v \<Rightarrow> c_put t (unat i) (f v)) in
      case target of
        None \<Rightarrow>
          Some (Inr (if state = 0 then (None, ti, 1)
                     else if state = 1 then (None, ti + 1, 2)
                     else if state = 2 then (None, ti + 1, 3)
                     else (None, ti + 1, 0)))
      | Some t \<Rightarrow>
          if state = 0
          then if ucast ti \<ge> targsize then Some (Inl (- 1, target))
               else map_option (\<lambda>t. Inr (Some t, ti, 1)) (c_put t (unat ti) (push_bit 2 d))
          else if state = 1
          then if ucast (ti + 1) \<ge> targsize then Some (Inl (- 1, target))
               else map_option (\<lambda>t. Inr (Some t, ti + 1, 2))
                      (Option.bind (store ti (\<lambda>v. v OR drop_bit 4 d) t)
                        (\<lambda>t. c_put t (unat (ti + 1)) (push_bit 4 (d AND 0x0f))))
          else if state = 2
          then if ucast (ti + 1) \<ge> targsize then Some (Inl (- 1, target))
               else map_option (\<lambda>t. Inr (Some t, ti + 1, 3))
                      (Option.bind (store ti (\<lambda>v. v OR drop_bit 2 d) t)
                        (\<lambda>t. c_put t (unat (ti + 1)) (push_bit 6 (d AND 0x03))))
          else if ucast ti \<ge> targsize then Some (Inl (- 1, target))
               else map_option (\<lambda>t. Inr (Some t, ti + 1, 0)) (store ti (\<lambda>v. v OR d) t))"

text \<open>The main loop: it ends with the character that stopped it and the rest of the source.\<close>

fun pton_loop :: "u8 list \<Rightarrow> u8 list option \<Rightarrow> u64 \<Rightarrow> u32 \<Rightarrow> nat \<Rightarrow>
    ((int \<times> u8 list option) + (u8 \<times> u8 list \<times> u8 list option \<times> u32 \<times> nat)) option" where
  "pton_loop [] target targsize ti state = None"
| "pton_loop (ch # src) target targsize ti state =
     (if ch = 0 then Some (Inr (ch, src, target, ti, state))
      else if isspace ch then pton_loop src target targsize ti state
      else if ch = Pad64 then Some (Inr (ch, src, target, ti, state))
      else (case strchr Base64_chars ch of
              None \<Rightarrow> Some (Inl (- 1, target))
            | Some pos \<Rightarrow>
                (case pton_step target targsize ti state (of_nat pos) of
                   None \<Rightarrow> None
                 | Some (Inl r) \<Rightarrow> Some (Inl r)
                 | Some (Inr (t, ti', state')) \<Rightarrow> pton_loop src t targsize ti' state')))"

text \<open>\<open>for (; ch != NUL; ch = *src++) if (!isspace(ch)) ...\<close>: the first character that is
  not white space.\<close>

fun next_nonspace :: "u8 \<Rightarrow> u8 list \<Rightarrow> (u8 \<times> u8 list) option" where
  "next_nonspace ch [] = (if isspace ch then None else Some (ch, []))"
| "next_nonspace ch (c # src) = (if isspace ch then next_nonspace c src else Some (ch, c # src))"

text \<open>After a pad character: \<open>case 2\<close> looks for the second one and falls through to
  \<open>case 3\<close>.\<close>

definition pton_pad3 :: "u8 \<Rightarrow> u8 list \<Rightarrow> u8 list option \<Rightarrow> u32 \<Rightarrow> (int \<times> u8 list option) option" where
  "pton_pad3 ch src target ti =
     (case next_nonspace ch src of
        None \<Rightarrow> None
      | Some (ch, src) \<Rightarrow>
          if ch \<noteq> 0 then Some (- 1, target)
          else (case target of
                  None \<Rightarrow> Some (sint ti, target)
                | Some t \<Rightarrow>
                    (case c_get t (unat ti) of
                       None \<Rightarrow> None
                     | Some v \<Rightarrow> if v \<noteq> 0 then Some (- 1, target) else Some (sint ti, target))))"

definition pton_pad :: "u8 list \<Rightarrow> u8 list option \<Rightarrow> u32 \<Rightarrow> nat \<Rightarrow> (int \<times> u8 list option) option" where
  "pton_pad src target ti state =
     (case src of
        [] \<Rightarrow> None
      | ch # src \<Rightarrow>
          if state = 0 \<or> state = 1 then Some (- 1, target)
          else if state = 2
          then (case next_nonspace ch src of
                  None \<Rightarrow> None
                | Some (ch, src) \<Rightarrow>
                    if ch \<noteq> Pad64 then Some (- 1, target)
                    else (case src of [] \<Rightarrow> None | ch # src \<Rightarrow> pton_pad3 ch src target ti))
          else pton_pad3 ch src target ti)"

definition f_b64_pton :: "u8 list \<Rightarrow> u8 list option \<Rightarrow> u64 \<Rightarrow> (int \<times> u8 list option) option" where
  "f_b64_pton src target targsize =
     (case pton_loop src target targsize 0 0 of
        None \<Rightarrow> None
      | Some (Inl r) \<Rightarrow> Some r
      | Some (Inr (ch, src, t, ti, state)) \<Rightarrow>
          if ch = Pad64 then pton_pad src t ti state
          else if state \<noteq> 0 then Some (- 1, t)
          else Some (sint ti, t))"

section \<open>The format\<close>

text \<open>RFC 1521: a group of 24 bits as four digits to the base 64.\<close>

definition b64_digit :: "nat \<Rightarrow> u8" where
  "b64_digit d = Base64_chars ! d"

fun b64_encode :: "u8 list \<Rightarrow> u8 list" where
  "b64_encode (a # b # c # r) =
     (let n = unat a * 65536 + unat b * 256 + unat c in
      [b64_digit (n div 262144), b64_digit (n div 4096 mod 64), b64_digit (n div 64 mod 64),
       b64_digit (n mod 64)] @ b64_encode r)"
| "b64_encode [a, b] =
     (let n = unat a * 65536 + unat b * 256 in
      [b64_digit (n div 262144), b64_digit (n div 4096 mod 64), b64_digit (n div 64 mod 64), Pad64])"
| "b64_encode [a] =
     (let n = unat a * 65536 in
      [b64_digit (n div 262144), b64_digit (n div 4096 mod 64), Pad64, Pad64])"
| "b64_encode [] = []"

section \<open>The encoder\<close>

lemma length_Base64_chars [simp]: "length Base64_chars = 64"
  by (simp add: Base64_chars_def)

lemma b64_char_digit: "unat d < 64 \<Longrightarrow> b64_char d = Some (b64_digit (unat d))"
  by (simp add: b64_char_def c_get_def b64_digit_def)

lemma u8_and_mask: "unat (b AND of_nat (2 ^ k - 1) :: u8) = unat b mod 2 ^ k"
proof -
  have "b AND of_nat (2 ^ k - 1) = take_bit k b"
    by (simp add: take_bit_eq_mask mask_eq_exp_minus_1 of_nat_diff)
  then show ?thesis by (simp only: unsigned_take_bit_eq) (simp add: take_bit_eq_mod)
qed

lemmas u8_masks = u8_and_mask [of _ 2, simplified] u8_and_mask [of _ 4, simplified]
  u8_and_mask [of _ 6, simplified]

lemma u8_shift_right: "unat (drop_bit k (b :: u8)) = unat b div 2 ^ k"
  by (simp only: unat_drop_bit_eq) (simp add: drop_bit_eq_div)

lemma u8_shift_left: "unat (push_bit k (b :: u8)) = unat b * 2 ^ k mod 256"
  by (simp only: unsigned_push_bit_eq) (simp add: take_bit_eq_mod push_bit_eq_mult)

lemma group_digits:
  fixes a b c :: nat
  assumes "a < 256" "b < 256" "c < 256" "n = a * 65536 + b * 256 + c"
  shows "n div 262144 = a div 4" "n div 4096 mod 64 = a mod 4 * 16 + b div 16"
    "n div 64 mod 64 = b mod 16 * 4 + c div 64" "n mod 64 = c mod 64"
proof -
  define q r s t u v where d: "q = a div 4" "r = a mod 4" "s = b div 16" "t = b mod 16"
    "u = c div 64" "v = c mod 64"
  have b: "r < 4" "s < 16" "t < 16" "u < 4" "v < 64" using assms(1-3) by (auto simp: d)
  have e: "a = 4 * q + r" "b = 16 * s + t" "c = 64 * u + v" by (simp_all add: d)
  have "n div 4096 = 64 * q + (16 * r + s)" "n div 64 = 64 * (64 * q + (16 * r + s)) + (4 * t + u)"
    "n div 262144 = q"
    using b unfolding assms(4) e by (auto intro!: div_nat_eqI)
  moreover from this have "n div 64 mod 64 = (4 * t + u) mod 64"
    by (simp only: mod_mult_self4)
  ultimately show "n div 262144 = a div 4" "n div 4096 mod 64 = a mod 4 * 16 + b div 16"
    "n div 64 mod 64 = b mod 16 * 4 + c div 64"
    unfolding d(1) using b by (simp_all flip: d)
  have "n = c + 64 * (a * 1024 + b * 4)" using assms(4) by simp
  then show "n mod 64 = c mod 64" by (simp only: mod_mult_self2)
qed

lemma ntop_output_digits:
  "map unat (ntop_output a b c) =
     (let n = unat a * 65536 + unat b * 256 + unat c in
      [n div 262144, n div 4096 mod 64, n div 64 mod 64, n mod 64])"
proof -
  have l: "unat a < 256" "unat b < 256" "unat c < 256" by simp_all
  have 0: "unat a mod 4 * 16 + unat b div 16 < 256" "unat b mod 16 * 4 + unat c div 64 < 256"
    using l by linarith+
  have 1: "unat (push_bit 4 (a AND 3) + drop_bit 4 b) = unat a mod 4 * 16 + unat b div 16"
    using 0 by (simp only: unat_word_ariths u8_shift_left u8_shift_right u8_masks) simp
  have 2: "unat (push_bit 2 (b AND 15) + drop_bit 6 c) = unat b mod 16 * 4 + unat c div 64"
    using 0 by (simp only: unat_word_ariths u8_shift_left u8_shift_right u8_masks) simp
  show ?thesis unfolding ntop_output_def Let_def list.map 1 2
      group_digits [OF l refl] by (simp only: u8_shift_right u8_masks) simp
qed

lemma digit_bounds:
  "n < 16777216 \<Longrightarrow> n div 262144 < (64::nat)" "n div 4096 mod 64 < (64::nat)" "n div 64 mod 64 < (64::nat)"
  "n mod 64 < (64::nat)"
  by simp_all

text \<open>The four characters of a full group.\<close>

definition enc3 :: "u8 \<Rightarrow> u8 \<Rightarrow> u8 \<Rightarrow> u8 list" where
  "enc3 a b c = map b64_digit (map unat (ntop_output a b c))"

lemma enc3_eq:
  "enc3 a b c =
     (let n = unat a * 65536 + unat b * 256 + unat c in
      [b64_digit (n div 262144), b64_digit (n div 4096 mod 64), b64_digit (n div 64 mod 64),
       b64_digit (n mod 64)])"
  unfolding enc3_def ntop_output_digits by (simp add: Let_def)

lemma length_enc3 [simp]: "length (enc3 a b c) = 4"
  by (simp add: enc3_def ntop_output_def)

lemma ntop_output_less: "d \<in> set (ntop_output a b c) \<Longrightarrow> unat d < 64"
proof -
  assume "d \<in> set (ntop_output a b c)"
  then have "unat d \<in> set (map unat (ntop_output a b c))" by simp
  moreover have "unat a * 65536 + unat b * 256 + unat c < 16777216"
    using unat_u8_less [of a] unat_u8_less [of b] unat_u8_less [of c] by linarith
  ultimately show ?thesis unfolding ntop_output_digits
    using digit_bounds [of "unat a * 65536 + unat b * 256 + unat c"] by (auto simp: Let_def)
qed

lemma those_map: "(\<And>x. x \<in> set xs \<Longrightarrow> f x = Some (g x)) \<Longrightarrow> those (map f xs) = Some (map g xs)"
  by (induction xs) auto

lemma those_b64: "those (map b64_char (ntop_output a b c)) = Some (enc3 a b c)"
  unfolding enc3_def map_map o_def using ntop_output_less [of _ a b c]
  by (intro those_map) (auto simp: b64_char_digit)

lemma those_b64_take:
  "those (map b64_char (take k (ntop_output a b c))) = Some (take k (enc3 a b c))"
  unfolding enc3_def map_map o_def take_map using ntop_output_less [of _ a b c]
  by (intro those_map) (auto simp: b64_char_digit dest: in_set_takeD)

lemma put_chars_append:
  "length pre + length cs < 2 ^ 64 \<Longrightarrow> length cs \<le> length x \<Longrightarrow>
     put_chars (pre @ x) (of_nat (length pre)) cs = Some (pre @ cs @ drop (length cs) x)"
proof (induction cs arbitrary: pre x)
  case (Cons c cs)
  then obtain y x' where x: "x = y # x'" by (cases x) auto
  with Cons.prems Cons.IH [of "pre @ [c]" x'] show ?case
    by (simp add: c_put_def add.commute)
qed simp

lemma of_nat_gt_iff: "k + 4 < 2 ^ 64 \<Longrightarrow> (of_nat k + 4 > (ts :: u64)) \<longleftrightarrow> unat ts < k + 4"
proof -
  assume k: "k + 4 < 2 ^ 64"
  have "of_nat k + 4 = (of_nat (k + 4) :: u64)" by simp
  then show ?thesis using k by (simp only: word_less_nat_alt uint64_small)
qed

lemma ntop_loop_group:
  assumes "2 < n" "length pre + 4 < 2 ^ 64" "unat ts \<le> length (pre @ x)"
  shows "ntop_loop (a # b # c # src) n (pre @ x) (of_nat (length pre)) ts =
     (if unat ts < length pre + 4 then Some (Inl (- 1, pre @ x))
      else ntop_loop src (n - 3) ((pre @ enc3 a b c) @ drop 4 x) (of_nat (length (pre @ enc3 a b c))) ts)"
proof (cases "unat ts < length pre + 4")
  case True
  then show ?thesis using assms of_nat_gt_iff [OF assms(2)]
    by (subst ntop_loop.simps) simp
next
  case False
  then have "put_chars (pre @ x) (of_nat (length pre)) (enc3 a b c) = Some (pre @ enc3 a b c @ drop 4 x)"
    using assms put_chars_append [of pre "enc3 a b c" x] by simp
  then show ?thesis using False assms of_nat_gt_iff [OF assms(2)]
    by (subst ntop_loop.simps) (simp add: those_b64 add.commute)
qed

text \<open>What the function returns from the middle of the loop on: \<open>pre\<close> has been written.\<close>

definition ntop_from :: "u8 list \<Rightarrow> u64 \<Rightarrow> u8 list \<Rightarrow> u64 \<Rightarrow> u64 \<Rightarrow> (int \<times> u8 list) option" where
  "ntop_from src n t dl ts =
     (case ntop_loop src n t dl ts of
        None \<Rightarrow> None
      | Some (Inl r) \<Rightarrow> Some r
      | Some (Inr (src', n, t, dl)) \<Rightarrow> ntop_finish src' n t dl ts)"

definition ntop_spec :: "u8 list \<Rightarrow> u8 list \<Rightarrow> u8 list \<Rightarrow> nat \<Rightarrow> (int \<times> u8 list) option \<Rightarrow> bool" where
  "ntop_spec pre xs x ts r \<longleftrightarrow>
     (let out = pre @ b64_encode xs in
      if length out < ts
      then r = Some (int (length out), out @ 0 # drop (Suc (length (b64_encode xs))) x)
      else \<exists>t. r = Some (- 1, t) \<and> length t = length (pre @ x) \<and> drop ts t = drop ts (pre @ x))"

lemma b64_encode_enc3:
  "b64_encode (a # b # c # r) = enc3 a b c @ b64_encode r"
  "b64_encode [a, b] = take 3 (enc3 a b 0) @ [Pad64]"
  "b64_encode [a] = take 2 (enc3 a 0 0) @ [Pad64, Pad64]"
  by (simp_all add: enc3_eq Let_def)

lemma length_b64_encode: "length (b64_encode xs) = 4 * ((length xs + 2) div 3)"
proof (induction xs rule: b64_encode.induct)
  case (1 a b c r)
  have "(length r + 5) div 3 = (length r + 2) div 3 + 1" by simp
  with 1 show ?case by (simp add: Let_def add.commute)
qed (simp_all add: Let_def)

lemma sint_small: "n < 2 ^ 31 \<Longrightarrow> sint (of_nat n :: u32) = int n"
  by (simp add: signed_of_nat signed_take_bit_eq_if_positive bit_iff_odd take_bit_eq_mod)

lemma ntop_finish_end:
  assumes p: "ntop_padding src n t dl ts = Some (Inr (out @ y, of_nat (length out)))"
    and "length out < 2 ^ 31" "unat ts \<le> length (out @ y)"
  shows "ntop_finish src n t dl ts =
     (if length out < unat ts then Some (int (length out), out @ 0 # drop 1 y) else Some (- 1, out @ y))"
proof -
  have "(ucast (of_nat (length out) :: u64) :: u32) = of_nat (length out)"
    using assms(2) by (simp add: unsigned_of_nat take_bit_nat_eq_self)
  then have "sint (ucast (of_nat (length out) :: u64) :: u32) = int (length out)"
    using sint_small [OF assms(2)] by simp
  moreover have "(ts \<le> of_nat (length out)) \<longleftrightarrow> \<not> length out < unat ts"
    using assms(2) by (simp add: word_le_nat_alt not_less)
  ultimately show ?thesis using assms
    by (cases y) (auto simp: ntop_finish_def p c_put_def)
qed

lemma ntop_spec_early:
  "unat ts < length pre + 4 \<Longrightarrow> xs \<noteq> [] \<Longrightarrow> ntop_spec pre xs x (unat ts) (Some (- 1, pre @ x))"
  by (cases xs rule: b64_encode.cases) (auto simp: ntop_spec_def Let_def)

lemma ntop_padding_chars:
  assumes "xs = [a] \<or> xs = [a, b]" "\<not> of_nat k + 4 > ts"
  shows "ntop_padding (xs @ junk) (of_nat (length xs)) t (of_nat k) ts =
     map_option (\<lambda>t. Inr (t, of_nat k + 4)) (put_chars t (of_nat k) (b64_encode xs))"
  using assms(1)
proof
  assume "xs = [a]"
  then show ?thesis using assms(2)
    by (simp add: ntop_padding_def Let_def those_b64_take b64_encode_enc3 enc3_eq
        map_option_case del: put_chars.simps b64_encode.simps)
next
  assume "xs = [a, b]"
  then show ?thesis using assms(2)
    by (simp add: ntop_padding_def Let_def those_b64_take b64_encode_enc3 enc3_eq
        map_option_case del: put_chars.simps b64_encode.simps)
qed

lemma ntop_from_short:
  assumes xs: "xs = [a] \<or> xs = [a, b]" and "length pre + 4 < 2 ^ 31" "unat ts \<le> length (pre @ x)"
  shows "ntop_spec pre xs x (unat ts)
           (ntop_from (xs @ junk) (of_nat (length xs)) (pre @ x) (of_nat (length pre)) ts)"
proof -
  let ?n = "of_nat (length xs) :: u64" and ?cs = "b64_encode xs"
  have n: "?n \<noteq> 0" "unat ?n = length xs" "\<not> 2 < ?n" "?n = 1 \<longleftrightarrow> length xs = 1" using xs by auto
  have loop: "ntop_from (xs @ junk) ?n (pre @ x) (of_nat (length pre)) ts =
      ntop_finish (xs @ junk) ?n (pre @ x) (of_nat (length pre)) ts"
    using n by (simp add: ntop_from_def ntop_loop.simps)
  have g: "(of_nat (length pre) + 4 > ts) \<longleftrightarrow> unat ts < length pre + 4"
    using assms(2) by (intro of_nat_gt_iff) simp
  show ?thesis
  proof (cases "unat ts < length pre + 4")
    case True
    then have "ntop_padding (xs @ junk) ?n (pre @ x) (of_nat (length pre)) ts = Some (Inl (- 1, pre @ x))"
      using n g by (simp add: ntop_padding_def Let_def)
    then have "ntop_from (xs @ junk) ?n (pre @ x) (of_nat (length pre)) ts = Some (- 1, pre @ x)"
      unfolding loop by (simp add: ntop_finish_def)
    with True xs show ?thesis by (auto intro: ntop_spec_early)
  next
    case False
    have len: "length ?cs = 4" using xs by (auto simp: length_b64_encode)
    have "put_chars (pre @ x) (of_nat (length pre)) ?cs = Some (pre @ ?cs @ drop 4 x)"
      using put_chars_append [of pre ?cs x] False assms len by simp
    then have "ntop_padding (xs @ junk) ?n (pre @ x) (of_nat (length pre)) ts =
        Some (Inr ((pre @ ?cs) @ drop 4 x, of_nat (length (pre @ ?cs))))"
      using ntop_padding_chars [of xs a b ts "length pre" junk "pre @ x"] xs False g
      by (simp add: len)
    note fin = ntop_finish_end [OF this]
    moreover have "unat ts - length pre = 4" if "length pre + 4 = unat ts" using that by simp
    ultimately show ?thesis
      using False assms(2,3) len unfolding loop ntop_spec_def by (simp add: drop_Suc)
  qed
qed

lemma ntop_from_spec:
  "length pre + length (b64_encode xs) < 2 ^ 31 \<Longrightarrow> unat ts \<le> length (pre @ x) \<Longrightarrow>
     ntop_spec pre xs x (unat ts)
       (ntop_from (xs @ junk) (of_nat (length xs)) (pre @ x) (of_nat (length pre)) ts)"
proof (induction xs arbitrary: pre x rule: b64_encode.induct)
  case (1 a b c r)
  let ?n = "of_nat (length (a # b # c # r)) :: u64" and ?e = "enc3 a b c"
  have "length r \<le> length (b64_encode r)" by (simp add: length_b64_encode)
  then have r: "Suc (Suc (Suc (length r))) < 2 ^ 64" "length pre + 4 < 2 ^ 64"
    using 1(2) by (simp_all add: b64_encode_enc3 del: b64_encode.simps)
  then have n: "2 < ?n" "?n - 3 = of_nat (length r)"
    by (simp_all add: word_less_nat_alt del: of_nat_Suc) simp
  show ?case
  proof (cases "unat ts < length pre + 4")
    case True
    then show ?thesis using ntop_loop_group [OF n(1) r(2) 1(3)] ntop_spec_early [OF True]
      by (simp add: ntop_from_def del: of_nat_Suc)
  next
    case False
    with 1(3) have x: "4 \<le> length x" by simp
    have "ntop_from ((a # b # c # r) @ junk) ?n (pre @ x) (of_nat (length pre)) ts =
        ntop_from (r @ junk) (of_nat (length r)) ((pre @ ?e) @ drop 4 x) (of_nat (length (pre @ ?e))) ts"
      using ntop_loop_group [OF n(1) r(2) 1(3), of a b c "r @ junk"] False n(2)
      by (simp add: ntop_from_def del: of_nat_Suc of_nat_add length_append)
    moreover have "ntop_spec (pre @ ?e) r (drop 4 x) (unat ts)
        (ntop_from (r @ junk) (of_nat (length r)) ((pre @ ?e) @ drop 4 x) (of_nat (length (pre @ ?e))) ts)"
      using 1(2,3) x by (intro 1(1)) (simp_all add: b64_encode_enc3 del: b64_encode.simps)
    ultimately show ?thesis using x False
      by (auto simp: ntop_spec_def Let_def b64_encode_enc3 drop_append split: if_splits simp del: b64_encode.simps)
  qed
next
  case (2 a b)
  then show ?case using ntop_from_short [of "[a, b]" a b pre ts x junk] by (simp add: Let_def)
next
  case (3 a)
  then show ?case using ntop_from_short [of "[a]" a 0 pre ts x junk] by simp
next
  case 4
  have "ntop_padding junk 0 (pre @ x) (of_nat (length pre)) ts = Some (Inr (pre @ x, of_nat (length pre)))"
    by (simp add: ntop_padding_def)
  from ntop_finish_end [OF this] 4 show ?case
    by (auto simp: ntop_spec_def ntop_from_def ntop_loop.simps drop_Suc)
qed

text \<open>C39: \<open>f_b64_ntop\<close> on any input: when the target has room for the base-64 text of
  RFC 1521 and a NUL, it writes exactly these, leaves the rest of the target alone and returns
  the length of the text; otherwise it returns -1. In both cases it touches no byte of the target
  beyond \<open>targsize\<close>.\<close>

theorem f_b64_ntop_correct:
  assumes "unat targsize \<le> length target" "length (b64_encode xs) < 2 ^ 31"
  shows "if length (b64_encode xs) < unat targsize
     then f_b64_ntop (xs @ junk) (of_nat (length xs)) target targsize =
            Some (int (length (b64_encode xs)),
                  b64_encode xs @ 0 # drop (Suc (length (b64_encode xs))) target)
     else \<exists>t. f_b64_ntop (xs @ junk) (of_nat (length xs)) target targsize = Some (- 1, t) \<and>
            length t = length target \<and> drop (unat targsize) t = drop (unat targsize) target"
  using ntop_from_spec [of "[]" xs targsize target junk] assms
  by (auto simp: ntop_spec_def ntop_from_def f_b64_ntop_def Let_def split: if_splits)

theorem f_b64_ntop_correct_witness:
  "f_b64_ntop ([0x4D, 0x61] @ [9]) (of_nat (length [0x4D, 0x61 :: u8])) [7, 7, 7, 7, 7, 7] 6 =
     Some (4, [0x54, 0x57, 0x45, 0x3D, 0, 7])"
proof -
  have "b64_encode [0x4D, 0x61] = [0x54, 0x57, 0x45, 0x3D]"
    by (simp add: b64_digit_def Base64_chars_def Pad64_def)
  with f_b64_ntop_correct [of 6 "[7, 7, 7, 7, 7, 7]" "[0x4D, 0x61]" "[9]"] show ?thesis
    by simp
qed

section \<open>The decoder\<close>

lemma distinct_Base64: "distinct Base64_chars"
  by (simp add: Base64_chars_def)

lemma Base64_plain: "c \<in> set Base64_chars \<Longrightarrow> c \<noteq> 0 \<and> c \<noteq> Pad64 \<and> \<not> isspace c"
  by (simp add: Base64_chars_def Pad64_def isspace_def) (elim disjE; simp)

lemma strchr_nth: "distinct cs \<Longrightarrow> i < length cs \<Longrightarrow> strchr cs (cs ! i) = Some i"
proof (induction cs arbitrary: i)
  case (Cons c cs)
  then show ?case by (cases i) (auto simp: nth_mem)
qed simp

lemma strchr_None: "strchr cs c = None \<longleftrightarrow> c \<notin> set cs"
  by (induction cs) auto

lemma b64_digit_in: "d < 64 \<Longrightarrow> b64_digit d \<in> set Base64_chars"
  by (simp add: b64_digit_def)

lemma b64_digit_cases: "c \<in> set Base64_chars \<Longrightarrow> \<exists>d < 64. c = b64_digit d"
  by (auto simp: b64_digit_def in_set_conv_nth)

lemma strchr_digit: "d < 64 \<Longrightarrow> strchr Base64_chars (b64_digit d) = Some d"
  by (simp add: b64_digit_def strchr_nth distinct_Base64)

lemma b64_digit_inj: "d < 64 \<Longrightarrow> d' < 64 \<Longrightarrow> b64_digit d = b64_digit d' \<longleftrightarrow> d = d'"
  by (metis option.inject strchr_digit)

lemma Pad64_not_in: "Pad64 \<notin> set Base64_chars"
  using Base64_plain by blast

declare pton_loop.simps [simp del]

text \<open>One digit in each of the four states; \<open>pre\<close> holds the finished bytes.\<close>

lemma pton_loop_digit:
  "d < 64 \<Longrightarrow>
     pton_loop (b64_digit d # src) t ts ti st =
       (case pton_step t ts ti st (of_nat d) of
          None \<Rightarrow> None
        | Some (Inl r) \<Rightarrow> Some (Inl r)
        | Some (Inr (t, ti', st')) \<Rightarrow> pton_loop src t ts ti' st')"
  using Base64_plain [OF b64_digit_in [of d]] by (simp add: strchr_digit pton_loop.simps)

lemma ti_words:
  assumes "k + 2 < 2 ^ 32"
  shows "unat (of_nat k :: u32) = k" "unat (of_nat k + 1 :: u32) = k + 1"
    "(ts :: u64) \<le> ucast (of_nat k :: u32) \<longleftrightarrow> unat ts \<le> k"
    "(ts :: u64) \<le> ucast (of_nat k + 1 :: u32) \<longleftrightarrow> unat ts \<le> k + 1"
proof -
  show 1: "unat (of_nat k :: u32) = k" using assms by (simp add: unat_of_nat take_bit_nat_eq_self)
  have "unat (of_nat (k + 1) :: u32) = k + 1" using assms
    by (simp only: unat_of_nat) (simp add: take_bit_nat_eq_self)
  then show 2: "unat (of_nat k + 1 :: u32) = k + 1" by (simp add: add.commute)
  show "(ts :: u64) \<le> ucast (of_nat k :: u32) \<longleftrightarrow> unat ts \<le> k"
    using 1 by (simp add: word_le_nat_alt)
  show "(ts :: u64) \<le> ucast (of_nat k + 1 :: u32) \<longleftrightarrow> unat ts \<le> k + 1"
    using 2 by (simp add: word_le_nat_alt)
qed

lemma digit_bits:
  assumes "d < 64"
  shows "push_bit 2 (of_nat d :: u8) = of_nat (4 * d)"
    "drop_bit 4 (of_nat d :: u8) = of_nat (d div 16)"
    "push_bit 4 (of_nat d AND 15 :: u8) = of_nat (16 * (d mod 16))"
    "drop_bit 2 (of_nat d :: u8) = of_nat (d div 4)"
    "push_bit 6 (of_nat d AND 3 :: u8) = of_nat (64 * (d mod 4))"
proof -
  have d: "unat (of_nat d :: u8) = d" using assms by (simp add: unat_of_nat_u8)
  have a: "(of_nat d AND 15 :: u8) = of_nat (d mod 16)" "(of_nat d AND 3 :: u8) = of_nat (d mod 4)"
    using u8_masks(1,2) [of "of_nat d"] d by (metis of_nat_unat ucast_id)+
  show "push_bit 2 (of_nat d :: u8) = of_nat (4 * d)" by (simp add: push_bit_eq_mult)
  show "drop_bit 4 (of_nat d :: u8) = of_nat (d div 16)" "drop_bit 2 (of_nat d :: u8) = of_nat (d div 4)"
    using assms unat_of_nat_u8 [of "d div 16"] unat_of_nat_u8 [of "d div 4"]
    by (simp_all add: word_unat_eq_iff u8_shift_right d)
  show "push_bit 4 (of_nat d AND 15 :: u8) = of_nat (16 * (d mod 16))"
    "push_bit 6 (of_nat d AND 3 :: u8) = of_nat (64 * (d mod 4))"
    unfolding a by (simp_all add: push_bit_eq_mult)
qed

lemma or_of_nat: "x < 2 ^ n \<Longrightarrow> (of_nat (2 ^ n * v) OR of_nat x :: u8) = of_nat (2 ^ n * v + x)"
  using of_nat_or_push_bit [of x n v, where 'a = 8]
  by (simp add: or.commute push_bit_eq_mult algebra_simps)

text \<open>The call from a state of the loop on.\<close>

definition pton_from :: "u8 list \<Rightarrow> u8 list option \<Rightarrow> u64 \<Rightarrow> u32 \<Rightarrow> nat \<Rightarrow> (int \<times> u8 list option) option" where
  "pton_from src t ts ti st =
     (case pton_loop src t ts ti st of
        None \<Rightarrow> None
      | Some (Inl r) \<Rightarrow> Some r
      | Some (Inr (ch, src, t, ti, state)) \<Rightarrow>
          if ch = Pad64 then pton_pad src t ti state
          else if state \<noteq> 0 then Some (- 1, t)
          else Some (sint ti, t))"

lemma pton_state0:
  assumes "d < 64" "length pre + 2 < 2 ^ 32" "unat ts \<le> length (pre @ y)"
  shows "pton_from (b64_digit d # src) (Some (pre @ y)) ts (of_nat (length pre)) 0 =
     (if length pre < unat ts
      then pton_from src (Some (pre @ of_nat (4 * d) # tl y)) ts (of_nat (length pre)) 1
      else Some (- 1, Some (pre @ y)))"
  unfolding pton_from_def pton_loop_digit [OF assms(1)] pton_step_def digit_bits [OF assms(1)]
  using assms by (cases y) (auto simp: ti_words c_put_def not_less)

lemma pton_state1:
  assumes "d < 64" "length pre + 2 < 2 ^ 32" "unat ts \<le> length (pre @ v # y)"
  shows "pton_from (b64_digit d # src) (Some (pre @ v # y)) ts (of_nat (length pre)) 1 =
     (if length pre + 1 < unat ts
      then pton_from src (Some ((pre @ [v OR of_nat (d div 16)]) @ of_nat (16 * (d mod 16)) # tl y)) ts
             (of_nat (length pre) + 1) 2
      else Some (- 1, Some (pre @ v # y)))"
  unfolding pton_from_def pton_loop_digit [OF assms(1)] pton_step_def digit_bits [OF assms(1)]
  using assms by (cases y) (auto simp: ti_words c_put_def c_get_def nth_append list_update_append not_less Let_def)

lemma pton_state2:
  assumes "d < 64" "length pre + 2 < 2 ^ 32" "unat ts \<le> length (pre @ v # y)"
  shows "pton_from (b64_digit d # src) (Some (pre @ v # y)) ts (of_nat (length pre)) 2 =
     (if length pre + 1 < unat ts
      then pton_from src (Some ((pre @ [v OR of_nat (d div 4)]) @ of_nat (64 * (d mod 4)) # tl y)) ts
             (of_nat (length pre) + 1) 3
      else Some (- 1, Some (pre @ v # y)))"
  unfolding pton_from_def pton_loop_digit [OF assms(1)] pton_step_def digit_bits [OF assms(1)]
  using assms by (cases y) (auto simp: ti_words c_put_def c_get_def nth_append list_update_append not_less Let_def)

lemma pton_state3:
  assumes "d < 64" "length pre + 2 < 2 ^ 32" "unat ts \<le> length (pre @ v # y)"
  shows "pton_from (b64_digit d # src) (Some (pre @ v # y)) ts (of_nat (length pre)) 3 =
     (if length pre < unat ts
      then pton_from src (Some ((pre @ [v OR of_nat d]) @ y)) ts (of_nat (length pre) + 1) 0
      else Some (- 1, Some (pre @ v # y)))"
  unfolding pton_from_def pton_loop_digit [OF assms(1)] pton_step_def
  using assms by (auto simp: ti_words c_put_def c_get_def nth_append list_update_append not_less Let_def)

text \<open>The call returns -1, and the target is as before from index \<open>ts\<close> on.\<close>

definition rejects :: "u8 list \<Rightarrow> nat \<Rightarrow> (int \<times> u8 list option) option \<Rightarrow> bool" where
  "rejects t ts r \<longleftrightarrow> (\<exists>t'. r = Some (- 1, Some t') \<and> length t' = length t \<and> drop ts t' = drop ts t)"

definition dec3 :: "nat \<Rightarrow> nat \<Rightarrow> nat \<Rightarrow> nat \<Rightarrow> u8 list" where
  "dec3 d0 d1 d2 d3 = [of_nat (4 * d0 + d1 div 16), of_nat (16 * (d1 mod 16) + d2 div 4),
                       of_nat (64 * (d2 mod 4) + d3)]"

lemma enc3_bytes:
  "enc3 a b c = map b64_digit [unat a div 4, unat a mod 4 * 16 + unat b div 16,
                               unat b mod 16 * 4 + unat c div 64, unat c mod 64]"
  unfolding enc3_eq Let_def group_digits [OF unat_u8_less unat_u8_less unat_u8_less refl] by simp

lemma unat_dec3:
  assumes "d0 < 64" "d1 < 64" "d2 < 64" "d3 < 64"
  shows "map unat (dec3 d0 d1 d2 d3) = [4 * d0 + d1 div 16, 16 * (d1 mod 16) + d2 div 4, 64 * (d2 mod 4) + d3]"
proof -
  have "4 * d0 + d1 div 16 < 256" "16 * (d1 mod 16) + d2 div 4 < 256" "64 * (d2 mod 4) + d3 < 256"
    using assms by linarith+
  then show ?thesis unfolding dec3_def list.map by (simp only: unat_of_nat_u8)
qed

lemma radix_unique:
  "(q :: nat) < m \<Longrightarrow> q' < m \<Longrightarrow> m * p + q = m * p' + q' \<longleftrightarrow> p = p' \<and> q = q'"
  by (metis add_cancel_right_right div_mult_self4 less_nat_zero_code mod_less mod_mult_self4 div_less)

lemma repack:
  fixes a b c d0 d1 d2 d3 :: nat
  assumes "a < 256" "b < 256" "c < 256" "d1 < 64" "d2 < 64" "d3 < 64"
  shows "(a div 4 = d0 \<and> a mod 4 * 16 + b div 16 = d1 \<and> b mod 16 * 4 + c div 64 = d2 \<and> c mod 64 = d3) \<longleftrightarrow>
     (a = 4 * d0 + d1 div 16 \<and> b = 16 * (d1 mod 16) + d2 div 4 \<and> c = 64 * (d2 mod 4) + d3)"
proof -
  define p q r s t u w z m n where d: "p = a div 4" "q = a mod 4" "r = b div 16" "s = b mod 16"
    "t = c div 64" "u = c mod 64" "w = d1 div 16" "z = d1 mod 16" "m = d2 div 4" "n = d2 mod 4"
  have b: "q < 4" "r < 16" "s < 16" "t < 4" "u < 64" "w < 4" "z < 16" "m < 16" "n < 4" "d3 < 64"
    using assms by (auto simp: d)
  have e: "a = 4 * p + q" "b = 16 * r + s" "c = 64 * t + u" "d1 = 16 * w + z" "d2 = 4 * m + n"
    by (simp_all add: d)
  have "(p = d0 \<and> 16 * q + r = 16 * w + z \<and> 4 * s + t = 4 * m + n \<and> u = d3) \<longleftrightarrow>
     (4 * p + q = 4 * d0 + w \<and> 16 * r + s = 16 * z + m \<and> 64 * t + u = 64 * n + d3)"
    using b by (auto simp: radix_unique)
  then show ?thesis unfolding d [symmetric] by (simp add: e mult.commute)
qed

lemma enc3_dec3:
  assumes "d0 < 64" "d1 < 64" "d2 < 64" "d3 < 64"
  shows "enc3 a b c = map b64_digit [d0, d1, d2, d3] \<longleftrightarrow> [a, b, c] = dec3 d0 d1 d2 d3"
proof -
  have l: "unat a < 256" "unat b < 256" "unat c < 256" by simp_all
  have b: "unat a div 4 < 64" "unat a mod 4 * 16 + unat b div 16 < 64"
    "unat b mod 16 * 4 + unat c div 64 < 64" "unat c mod 64 < 64" using l by linarith+
  have "enc3 a b c = map b64_digit [d0, d1, d2, d3] \<longleftrightarrow>
      unat a div 4 = d0 \<and> unat a mod 4 * 16 + unat b div 16 = d1 \<and>
      unat b mod 16 * 4 + unat c div 64 = d2 \<and> unat c mod 64 = d3"
    unfolding enc3_bytes using b assms by (simp add: b64_digit_inj)
  also have "\<dots> \<longleftrightarrow> [unat a, unat b, unat c] =
      [4 * d0 + d1 div 16, 16 * (d1 mod 16) + d2 div 4, 64 * (d2 mod 4) + d3]"
    using repack [OF l assms(2-4), of d0] by simp
  also have "\<dots> \<longleftrightarrow> map unat [a, b, c] = map unat (dec3 d0 d1 d2 d3)"
    unfolding unat_dec3 [OF assms] by simp
  also have "\<dots> \<longleftrightarrow> [a, b, c] = dec3 d0 d1 d2 d3"
    by (subst inj_map_eq_map) (auto intro: injI simp: word_unat_eq_iff)
  finally show ?thesis .
qed

text \<open>Runs over the first two, three and four digits of a group.\<close>

lemma pton_two:
  assumes "d0 < 64" "d1 < 64" "length pre + 4 < 2 ^ 32" "unat ts \<le> length (pre @ y)"
  shows "pton_from (b64_digit d0 # b64_digit d1 # src) (Some (pre @ y)) ts (of_nat (length pre)) 0 =
     (if length pre + 1 < unat ts
      then pton_from src (Some ((pre @ [of_nat (4 * d0 + d1 div 16)]) @ of_nat (16 * (d1 mod 16)) # tl (tl y)))
            ts (of_nat (length (pre @ [of_nat (4 * d0 + d1 div 16) :: u8]))) 2
      else if length pre < unat ts then Some (- 1, Some (pre @ of_nat (4 * d0) # tl y))
      else Some (- 1, Some (pre @ y)))"
proof -
  have "(of_nat (4 * d0) OR of_nat (d1 div 16) :: u8) = of_nat (4 * d0 + d1 div 16)"
    using or_of_nat [of "d1 div 16" 2 d0] assms by simp
  moreover have "unat ts \<le> length (pre @ of_nat (4 * d0) # tl y)" if "length pre < unat ts"
    using that assms by simp
  moreover note pton_state0 [of d0 pre ts y "b64_digit d1 # src"]
    pton_state1 [of d1 pre ts "of_nat (4 * d0)" "tl y" src]
  ultimately show ?thesis using assms by (simp add: add.commute)
qed

lemma pton_three:
  assumes "d0 < 64" "d1 < 64" "d2 < 64" "length pre + 4 < 2 ^ 32" "unat ts \<le> length (pre @ y)"
    "length pre + 2 < unat ts"
  shows "pton_from (b64_digit d0 # b64_digit d1 # b64_digit d2 # src) (Some (pre @ y)) ts (of_nat (length pre)) 0 =
      pton_from src (Some ((pre @ take 2 (dec3 d0 d1 d2 0)) @ of_nat (64 * (d2 mod 4)) # tl (tl (tl y))))
            ts (of_nat (length (pre @ take 2 (dec3 d0 d1 d2 0)))) 3"
proof -
  let ?p = "pre @ [of_nat (4 * d0 + d1 div 16)]" and ?v = "of_nat (16 * (d1 mod 16)) :: u8"
  have "(?v OR of_nat (d2 div 4)) = of_nat (16 * (d1 mod 16) + d2 div 4)"
    using or_of_nat [of "d2 div 4" 4 "d1 mod 16"] assms by simp
  moreover have "unat ts \<le> length (?p @ ?v # tl (tl y))" using assms by simp
  moreover note pton_two [of d0 d1 pre ts y "b64_digit d2 # src"]
    pton_state2 [of d2 ?p ts ?v "tl (tl y)" src]
  ultimately show ?thesis using assms by (simp add: dec3_def add.commute)
qed

lemma pton_four:
  assumes "d0 < 64" "d1 < 64" "d2 < 64" "d3 < 64" "length pre + 4 < 2 ^ 32" "unat ts \<le> length (pre @ y)"
    "length pre + 2 < unat ts"
  shows "pton_from (b64_digit d0 # b64_digit d1 # b64_digit d2 # b64_digit d3 # src) (Some (pre @ y)) ts
        (of_nat (length pre)) 0 =
      pton_from src (Some ((pre @ dec3 d0 d1 d2 d3) @ drop 3 y)) ts (of_nat (length (pre @ dec3 d0 d1 d2 d3))) 0"
proof -
  let ?p = "pre @ take 2 (dec3 d0 d1 d2 0)" and ?v = "of_nat (64 * (d2 mod 4)) :: u8"
  have "(?v OR of_nat d3) = of_nat (64 * (d2 mod 4) + d3)"
    using or_of_nat [of d3 6 "d2 mod 4"] assms by simp
  moreover have "unat ts \<le> length (?p @ ?v # tl (tl (tl y)))" using assms by (simp add: dec3_def)
  moreover have "drop 3 y = tl (tl (tl y))" by (simp add: numeral_3_eq_3 drop_Suc)
  moreover note pton_three [of d0 d1 d2 pre ts y "b64_digit d3 # src"]
    pton_state3 [of d3 ?p ts ?v "tl (tl (tl y))" src]
  ultimately show ?thesis using assms by (simp add: dec3_def add.commute)
qed

lemma rejects_now: "rejects t n (Some (- 1, Some t))"
  by (simp add: rejects_def)

lemma rejects_prefix:
  "length pre + length zs \<le> n \<Longrightarrow> n \<le> length (pre @ y) \<Longrightarrow>
     rejects (pre @ y) n (Some (- 1, Some (pre @ zs @ drop (length zs) y)))"
  by (auto simp: rejects_def drop_drop)

lemma pton_two_full:
  assumes "d0 < 64" "d1 < 64" "length pre + 4 < 2 ^ 32" "unat ts \<le> length (pre @ y)"
    "\<not> length pre + 1 < unat ts"
  shows "rejects (pre @ y) (unat ts)
     (pton_from (b64_digit d0 # b64_digit d1 # src) (Some (pre @ y)) ts (of_nat (length pre)) 0)"
proof (cases "length pre < unat ts")
  case True
  with assms have "length pre + length [of_nat (4 * d0) :: u8] \<le> unat ts" by simp
  from rejects_prefix [OF this assms(4)] show ?thesis
    using assms True pton_two [OF assms(1-4), of src] by (simp add: drop_Suc)
next
  case False
  then show ?thesis using assms pton_two [OF assms(1-4), of src] by (simp add: rejects_now)
qed

lemma pton_three_full:
  assumes "d0 < 64" "d1 < 64" "d2 < 64" "length pre + 4 < 2 ^ 32" "unat ts \<le> length (pre @ y)"
    "\<not> length pre + 2 < unat ts"
  shows "rejects (pre @ y) (unat ts)
     (pton_from (b64_digit d0 # b64_digit d1 # b64_digit d2 # src) (Some (pre @ y)) ts (of_nat (length pre)) 0)"
proof (cases "length pre + 1 < unat ts")
  case False
  then show ?thesis using assms by (intro pton_two_full)
next
  case True
  let ?p = "pre @ [of_nat (4 * d0 + d1 div 16)]" and ?v = "of_nat (16 * (d1 mod 16)) :: u8"
  have "length pre + length [of_nat (4 * d0 + d1 div 16), ?v] \<le> unat ts" using assms(6) True by simp
  from rejects_prefix [OF this assms(5)] True assms pton_two [of d0 d1 pre ts y "b64_digit d2 # src"]
    pton_state2 [of d2 ?p ts ?v "tl (tl y)" src]
  show ?thesis by (simp add: drop_Suc)
qed

text \<open>The characters that end the loop.\<close>

lemma pton_from_NUL:
  "pton_from (0 # src) t ts ti st = (if st \<noteq> 0 then Some (- 1, t) else Some (sint ti, t))"
  by (simp add: pton_from_def pton_loop.simps Pad64_def)

lemma pton_from_other:
  "c \<notin> set Base64_chars \<Longrightarrow> c \<noteq> 0 \<Longrightarrow> \<not> isspace c \<Longrightarrow> c \<noteq> Pad64 \<Longrightarrow>
     pton_from (c # src) t ts ti st = Some (- 1, t)"
  by (simp add: pton_from_def pton_loop.simps strchr_None [THEN iffD2])

lemma pton_from_Pad64: "pton_from (Pad64 # src) t ts ti st = pton_pad src t ti st"
  by (simp add: pton_from_def pton_loop.simps) (simp add: Pad64_def isspace_def)

text \<open>Text without NUL and white space.\<close>

definition plain :: "u8 list \<Rightarrow> bool" where
  "plain f \<longleftrightarrow> (\<forall>c \<in> set f. c \<noteq> 0 \<and> \<not> isspace c)"

lemma next_nonspace_plain: "\<not> isspace c \<Longrightarrow> next_nonspace c src = Some (c, src)"
  by (cases src) simp_all

lemma isspace_0 [simp]: "\<not> isspace 0" "\<not> isspace Pad64"
  by (simp_all add: isspace_def Pad64_def)

lemma pton_pad3_plain:
  assumes "plain f" "length pre + 2 < 2 ^ 31"
  shows "f @ 0 # junk = c # src \<Longrightarrow> pton_pad3 c src (Some (pre @ v # y)) (of_nat (length pre)) =
     (if f = [] \<and> v = 0 then Some (int (length pre), Some (pre @ v # y)) else Some (- 1, Some (pre @ v # y)))"
  using assms sint_small [of "length pre"]
  by (cases f) (auto simp: pton_pad3_def plain_def next_nonspace_plain c_get_def ti_words)

lemma pton_pad_early: "st = 0 \<or> st = 1 \<Longrightarrow> pton_pad (f @ 0 # junk) t ti st = Some (- 1, t)"
  by (cases f) (auto simp: pton_pad_def)

lemma pton_pad_state3:
  assumes "plain f" "length pre + 2 < 2 ^ 31"
  shows "pton_pad (f @ 0 # junk) (Some (pre @ v # y)) (of_nat (length pre)) 3 =
     (if f = [] \<and> v = 0 then Some (int (length pre), Some (pre @ v # y)) else Some (- 1, Some (pre @ v # y)))"
  using pton_pad3_plain [OF assms] by (cases f) (simp_all add: pton_pad_def)

lemma pton_pad_state2:
  assumes "plain f" "length pre + 2 < 2 ^ 31"
  shows "pton_pad (f @ 0 # junk) (Some (pre @ v # y)) (of_nat (length pre)) 2 =
     (if f = [Pad64] \<and> v = 0 then Some (int (length pre), Some (pre @ v # y)) else Some (- 1, Some (pre @ v # y)))"
proof (cases f)
  case Nil
  then show ?thesis by (simp add: pton_pad_def next_nonspace_plain) (simp add: Pad64_def)
next
  case (Cons c g)
  with assms have c: "\<not> isspace c" and g: "plain g" by (auto simp: plain_def)
  show ?thesis
  proof (cases "c = Pad64")
    case False
    with Cons c show ?thesis by (simp add: pton_pad_def next_nonspace_plain)
  next
    case True
    obtain c' g' where "g @ 0 # junk = c' # g'" by (cases "g @ 0 # junk") auto
    with True Cons pton_pad3_plain [OF g assms(2) this, of v y] show ?thesis
      by (simp add: pton_pad_def next_nonspace_plain)
  qed
qed

section \<open>Which texts are encodings\<close>

lemma b64_encode_digits:
  "xs \<noteq> [] \<Longrightarrow> \<exists>c0 c1 c2 c3 r. b64_encode xs = c0 # c1 # c2 # c3 # r \<and> {c0, c1} \<subseteq> set Base64_chars \<and>
     (c2 \<in> set Base64_chars \<and> c3 \<in> set Base64_chars \<or>
      c2 \<in> set Base64_chars \<and> c3 = Pad64 \<and> r = [] \<or> c2 = Pad64 \<and> c3 = Pad64 \<and> r = [])"
proof (cases xs rule: b64_encode.cases)
  case (1 a b c r)
  have "set (enc3 a b c) \<subseteq> set Base64_chars"
    unfolding enc3_def using ntop_output_less by (auto intro!: b64_digit_in)
  then show ?thesis unfolding 1 b64_encode_enc3 by (auto simp: enc3_eq Let_def)
next
  case (2 a b)
  have "set (enc3 a b 0) \<subseteq> set Base64_chars"
    unfolding enc3_def using ntop_output_less by (auto intro!: b64_digit_in)
  then show ?thesis unfolding 2 b64_encode_enc3 by (auto simp: enc3_eq Let_def)
next
  case (3 a)
  have "set (enc3 a 0 0) \<subseteq> set Base64_chars"
    unfolding enc3_def using ntop_output_less by (auto intro!: b64_digit_in)
  then show ?thesis unfolding 3 b64_encode_enc3 by (auto simp: enc3_eq Let_def)
qed simp

lemma digit_not_Pad: "d < 64 \<Longrightarrow> b64_digit d \<noteq> Pad64"
  using Pad64_not_in b64_digit_in by metis

lemma encode_full:
  assumes "d0 < 64" "d1 < 64" "d2 < 64" "d3 < 64"
  shows "map b64_digit [d0, d1, d2, d3] @ r = b64_encode xs \<longleftrightarrow>
     (\<exists>ys. xs = dec3 d0 d1 d2 d3 @ ys \<and> r = b64_encode ys)"
proof (cases xs rule: b64_encode.cases)
  case (1 a b c ys)
  have "map b64_digit [d0, d1, d2, d3] @ r = b64_encode xs \<longleftrightarrow>
      map b64_digit [d0, d1, d2, d3] = enc3 a b c \<and> r = b64_encode ys"
    unfolding 1 b64_encode_enc3 by (intro append_eq_append_conv) simp
  also have "\<dots> \<longleftrightarrow> [a, b, c] = dec3 d0 d1 d2 d3 \<and> r = b64_encode ys"
    using enc3_dec3 [OF assms, of a b c] by metis
  finally show ?thesis unfolding 1 by (auto simp: dec3_def)
next
  case (2 a b)
  then show ?thesis using assms digit_not_Pad [of d3] by (auto simp: Let_def dec3_def)
next
  case (3 a)
  then show ?thesis using assms digit_not_Pad [of d3] by (auto simp: Let_def dec3_def)
qed (auto simp: dec3_def)

lemma enc3_zero_tail:
  "enc3 a b 0 = take 3 (enc3 a b 0) @ [b64_digit 0]" "enc3 a 0 0 = take 2 (enc3 a 0 0) @ [b64_digit 0, b64_digit 0]"
  unfolding enc3_bytes by simp_all

lemma of_nat_u8_0: "n < 256 \<Longrightarrow> (of_nat n :: u8) = 0 \<longleftrightarrow> n = 0"
  by (metis unat_of_nat_u8 unat_eq_zero)

lemma encode_two:
  assumes "d0 < 64" "d1 < 64" "d2 < 64"
  shows "map b64_digit [d0, d1, d2] @ Pad64 # r = b64_encode xs \<longleftrightarrow>
     r = [] \<and> (of_nat (64 * (d2 mod 4)) :: u8) = 0 \<and> xs = take 2 (dec3 d0 d1 d2 0)"
proof (cases xs rule: b64_encode.cases)
  case (1 a b c ys)
  have "b64_digit (unat c mod 64) \<noteq> Pad64" by (intro digit_not_Pad) simp
  then show ?thesis unfolding 1 b64_encode_enc3 enc3_bytes by (auto simp: dec3_def)
next
  case (2 a b)
  have "map b64_digit [d0, d1, d2] @ Pad64 # r = b64_encode xs \<longleftrightarrow>
      r = [] \<and> map b64_digit [d0, d1, d2] = take 3 (enc3 a b 0)"
    unfolding 2 b64_encode_enc3 by (subst append_eq_append_conv) auto
  also have "map b64_digit [d0, d1, d2] = take 3 (enc3 a b 0) \<longleftrightarrow> enc3 a b 0 = map b64_digit [d0, d1, d2, 0]"
    by (subst (2) enc3_zero_tail) auto
  also have "\<dots> \<longleftrightarrow> [a, b, 0] = dec3 d0 d1 d2 0" using assms by (intro enc3_dec3) auto
  finally show ?thesis unfolding 2 by (auto simp: dec3_def)
next
  case (3 a)
  then show ?thesis using assms digit_not_Pad [of d2] by (auto simp: Let_def dec3_def)
qed (auto simp: dec3_def)

lemma encode_one:
  assumes "d0 < 64" "d1 < 64"
  shows "map b64_digit [d0, d1] @ Pad64 # r = b64_encode xs \<longleftrightarrow>
     r = [Pad64] \<and> (of_nat (16 * (d1 mod 16)) :: u8) = 0 \<and> xs = [of_nat (4 * d0 + d1 div 16)]"
proof (cases xs rule: b64_encode.cases)
  case (1 a b c ys)
  have "b64_digit (unat b mod 16 * 4 + unat c div 64) \<noteq> Pad64"
    using unat_u8_less [of c] by (intro digit_not_Pad) linarith
  then show ?thesis unfolding 1 b64_encode_enc3 enc3_bytes by auto
next
  case (2 a b)
  have "b64_digit (unat b mod 16 * 4 + unat (0 :: u8) div 64) \<noteq> Pad64"
    by (intro digit_not_Pad) simp
  then show ?thesis unfolding 2 b64_encode_enc3 enc3_bytes by auto
next
  case (3 a)
  have "map b64_digit [d0, d1] @ Pad64 # r = b64_encode xs \<longleftrightarrow>
      r = [Pad64] \<and> map b64_digit [d0, d1] = take 2 (enc3 a 0 0)"
    unfolding 3 b64_encode_enc3 by (subst append_eq_append_conv) auto
  also have "map b64_digit [d0, d1] = take 2 (enc3 a 0 0) \<longleftrightarrow> enc3 a 0 0 = map b64_digit [d0, d1, 0, 0]"
    by (subst (2) enc3_zero_tail) auto
  also have "\<dots> \<longleftrightarrow> [a, 0, 0] = dec3 d0 d1 0 0" using assms by (intro enc3_dec3) auto
  finally show ?thesis unfolding 3 by (auto simp: dec3_def)
qed auto

text \<open>The bytes of target that a text needs: one more than it decodes to when it is padded.\<close>

definition b64_need :: "u8 list \<Rightarrow> nat" where
  "b64_need xs = length xs + (if length xs mod 3 = 0 then 0 else 1)"

definition pton_spec :: "u8 list \<Rightarrow> u8 list \<Rightarrow> u8 list \<Rightarrow> nat \<Rightarrow> (int \<times> u8 list option) option \<Rightarrow> bool" where
  "pton_spec pre f y ts r \<longleftrightarrow>
     (\<exists>xs. f = b64_encode xs \<and> length pre + b64_need xs \<le> ts \<and>
        r = Some (int (length pre + length xs),
                  Some (pre @ xs @ (if length xs mod 3 = 0 then [] else [0]) @ drop (b64_need xs) y))) \<or>
     ((\<nexists>xs. f = b64_encode xs \<and> length pre + b64_need xs \<le> ts) \<and> rejects (pre @ y) ts r)"

section \<open>The decoder on every text\<close>

text \<open>A rest of the text at which the loop stops without a pad character.\<close>

definition stops :: "u8 list \<Rightarrow> bool" where
  "stops g \<longleftrightarrow> (case g of [] \<Rightarrow> True | c # _ \<Rightarrow> c \<notin> set Base64_chars \<and> c \<noteq> Pad64)"

lemma text_cases:
  obtains (stops) "stops g" | (pad) h where "g = Pad64 # h" | (digit) d h where "d < 64" "g = b64_digit d # h"
  by (cases g) (auto simp: stops_def dest: b64_digit_cases)

lemma pton_stops:
  "stops g \<Longrightarrow> plain g \<Longrightarrow> st \<noteq> 0 \<or> g \<noteq> [] \<Longrightarrow> pton_from (g @ 0 # junk) t ts ti st = Some (- 1, t)"
  by (cases g) (auto simp: stops_def plain_def pton_from_NUL pton_from_other)

lemma pton_spec_reject:
  "(\<And>xs. f \<noteq> b64_encode xs) \<Longrightarrow> rejects (pre @ y) ts r \<Longrightarrow> pton_spec pre f y ts r"
  by (simp add: pton_spec_def)

lemma encode_shape:
  assumes "f = b64_encode xs"
  shows "f \<noteq> [] \<Longrightarrow> \<not> stops f" "\<nexists>h. f = Pad64 # h" "f = c0 # g \<Longrightarrow> \<not> stops g \<and> (\<nexists>h. g = Pad64 # h)"
    "f = c0 # c1 # g \<Longrightarrow> \<not> stops g" "f = c0 # c1 # c2 # g \<Longrightarrow> \<not> stops g"
  using assms b64_encode_digits [of xs] Pad64_not_in
  by (cases "xs = []"; auto simp: stops_def)+

text \<open>One group from the start: each way in which it can end.\<close>

lemma pton_group_one:
  assumes "d0 < 64" "plain g" "length pre + 4 < 2 ^ 31" "unat ts \<le> length (pre @ y)"
    "stops g \<or> (\<exists>h. g = Pad64 # h)"
  shows "pton_spec pre (b64_digit d0 # g) y (unat ts)
     (pton_from (b64_digit d0 # g @ 0 # junk) (Some (pre @ y)) ts (of_nat (length pre)) 0)"
proof (rule pton_spec_reject)
  show "b64_digit d0 # g \<noteq> b64_encode xs" for xs
    using encode_shape(3) [of "b64_digit d0 # g" xs "b64_digit d0" g] assms(5) by blast
  have "pton_from (g @ 0 # junk) t ts ti 1 = Some (- 1, t)" for t ti
    using assms(2,5) pton_stops [of g 1] pton_pad_early [of 1] by (auto simp: pton_from_Pad64)
  then have r: "pton_from (b64_digit d0 # g @ 0 # junk) (Some (pre @ y)) ts (of_nat (length pre)) 0 =
      (if length pre < unat ts then Some (- 1, Some (pre @ of_nat (4 * d0) # tl y)) else Some (- 1, Some (pre @ y)))"
    using assms pton_state0 [of d0 pre ts y "g @ 0 # junk"] by simp
  show "rejects (pre @ y) (unat ts)
     (pton_from (b64_digit d0 # g @ 0 # junk) (Some (pre @ y)) ts (of_nat (length pre)) 0)"
  proof (cases "length pre < unat ts")
    case True
    then show ?thesis unfolding r using rejects_prefix [of pre "[of_nat (4 * d0)]" "unat ts" y] assms(4)
      by (simp add: drop_Suc)
  qed (simp add: r rejects_now)
qed

lemma rejects_two:
  assumes "length pre + 1 < ts" "ts \<le> length (pre @ y)"
  shows "rejects (pre @ y) ts (Some (- 1, Some ((pre @ [x]) @ v # tl (tl y))))"
  using rejects_prefix [of pre "[x, v]" ts y] assms by (simp add: drop_Suc)

lemma rejects_three:
  assumes "length pre + 2 < ts" "ts \<le> length (pre @ y)"
  shows "rejects (pre @ y) ts (Some (- 1, Some ((pre @ [x, x']) @ v # tl (tl (tl y)))))"
  using rejects_prefix [of pre "[x, x', v]" ts y] assms by (simp add: drop_Suc)

lemma pton_group_two:
  assumes "d0 < 64" "d1 < 64" "plain g" "length pre + 4 < 2 ^ 31" "unat ts \<le> length (pre @ y)" "stops g"
  shows "pton_spec pre (b64_digit d0 # b64_digit d1 # g) y (unat ts)
     (pton_from (b64_digit d0 # b64_digit d1 # g @ 0 # junk) (Some (pre @ y)) ts (of_nat (length pre)) 0)"
proof (rule pton_spec_reject)
  show "b64_digit d0 # b64_digit d1 # g \<noteq> b64_encode xs" for xs
    using encode_shape(4) [of "b64_digit d0 # b64_digit d1 # g" xs] assms(6) by blast
  show "rejects (pre @ y) (unat ts)
     (pton_from (b64_digit d0 # b64_digit d1 # g @ 0 # junk) (Some (pre @ y)) ts (of_nat (length pre)) 0)"
  proof (cases "length pre + 1 < unat ts")
    case True
    then show ?thesis
      using assms pton_two [of d0 d1 pre ts y "g @ 0 # junk"] pton_stops [OF assms(6,3), of 2]
        rejects_two [of pre "unat ts" y] by simp
  next
    case False
    then show ?thesis using assms by (intro pton_two_full) auto
  qed
qed

lemma pton_group_three:
  assumes "d0 < 64" "d1 < 64" "d2 < 64" "plain g" "length pre + 4 < 2 ^ 31" "unat ts \<le> length (pre @ y)"
    "stops g"
  shows "pton_spec pre (b64_digit d0 # b64_digit d1 # b64_digit d2 # g) y (unat ts)
     (pton_from (b64_digit d0 # b64_digit d1 # b64_digit d2 # g @ 0 # junk) (Some (pre @ y)) ts (of_nat (length pre)) 0)"
proof (rule pton_spec_reject)
  show "b64_digit d0 # b64_digit d1 # b64_digit d2 # g \<noteq> b64_encode xs" for xs
    using encode_shape(5) [of "b64_digit d0 # b64_digit d1 # b64_digit d2 # g" xs] assms(7) by blast
  show "rejects (pre @ y) (unat ts)
     (pton_from (b64_digit d0 # b64_digit d1 # b64_digit d2 # g @ 0 # junk) (Some (pre @ y)) ts (of_nat (length pre)) 0)"
  proof (cases "length pre + 2 < unat ts")
    case True
    then show ?thesis
      using assms pton_three [of d0 d1 d2 pre ts y "g @ 0 # junk"] pton_stops [OF assms(7,4), of 3]
        rejects_three [of pre "unat ts" y] by (simp add: dec3_def)
  next
    case False
    then show ?thesis using assms by (intro pton_three_full) auto
  qed
qed

lemma pton_group_pad2:
  assumes "d0 < 64" "d1 < 64" "plain g" "length pre + 4 < 2 ^ 31" "unat ts \<le> length (pre @ y)"
  shows "pton_spec pre (b64_digit d0 # b64_digit d1 # Pad64 # g) y (unat ts)
     (pton_from (b64_digit d0 # b64_digit d1 # Pad64 # g @ 0 # junk) (Some (pre @ y)) ts (of_nat (length pre)) 0)"
  (is "pton_spec _ ?f _ _ ?r")
proof -
  let ?x = "of_nat (4 * d0 + d1 div 16) :: u8" and ?v = "of_nat (16 * (d1 mod 16)) :: u8"
  have enc: "?f = b64_encode xs \<longleftrightarrow> g = [Pad64] \<and> ?v = 0 \<and> xs = [?x]" for xs
    using encode_one [OF assms(1,2), of g xs] by simp
  show ?thesis
  proof (cases "length pre + 1 < unat ts")
    case False
    then have "rejects (pre @ y) (unat ts) ?r" using assms by (intro pton_two_full) auto
    moreover have "\<nexists>xs. ?f = b64_encode xs \<and> length pre + b64_need xs \<le> unat ts"
      using False by (auto simp: enc b64_need_def)
    ultimately show ?thesis unfolding pton_spec_def by blast
  next
    case True
    have r: "?r = (if g = [Pad64] \<and> ?v = 0
        then Some (int (length (pre @ [?x])), Some ((pre @ [?x]) @ ?v # tl (tl y)))
        else Some (- 1, Some ((pre @ [?x]) @ ?v # tl (tl y))))"
      using assms True pton_two [of d0 d1 pre ts y "Pad64 # g @ 0 # junk"]
        pton_pad_state2 [OF assms(3), of "pre @ [?x]" junk ?v "tl (tl y)"]
      by (simp add: pton_from_Pad64)
    show ?thesis
    proof (cases "g = [Pad64] \<and> ?v = 0")
      case acc: True
      with r have "?r = Some (int (length pre + length [?x]),
          Some (pre @ [?x] @ (if length [?x] mod 3 = 0 then [] else [0]) @ drop (b64_need [?x]) y))"
        by (simp add: b64_need_def drop_Suc numeral_2_eq_2)
      moreover have "?f = b64_encode [?x]" using acc enc by blast
      moreover have "length pre + b64_need [?x] \<le> unat ts" using True by (simp add: b64_need_def)
      ultimately show ?thesis unfolding pton_spec_def by blast
    next
      case False
      with r have "?r = Some (- 1, Some ((pre @ [?x]) @ ?v # tl (tl y)))" by (simp only: if_False)
      with rejects_two [OF True assms(5)] have "rejects (pre @ y) (unat ts) ?r" by metis
      with False enc show ?thesis by (intro pton_spec_reject) auto
    qed
  qed
qed

lemma pton_group_pad1:
  assumes "d0 < 64" "d1 < 64" "d2 < 64" "plain g" "length pre + 4 < 2 ^ 31" "unat ts \<le> length (pre @ y)"
  shows "pton_spec pre (b64_digit d0 # b64_digit d1 # b64_digit d2 # Pad64 # g) y (unat ts)
     (pton_from (b64_digit d0 # b64_digit d1 # b64_digit d2 # Pad64 # g @ 0 # junk) (Some (pre @ y)) ts
        (of_nat (length pre)) 0)"
  (is "pton_spec _ ?f _ _ ?r")
proof -
  let ?xs = "take 2 (dec3 d0 d1 d2 0)" and ?v = "of_nat (64 * (d2 mod 4)) :: u8"
  have enc: "?f = b64_encode xs \<longleftrightarrow> g = [] \<and> ?v = 0 \<and> xs = ?xs" for xs
    using encode_two [OF assms(1-3), of g xs] by simp
  have len: "length ?xs = 2" by (simp add: dec3_def)
  have drop3: "drop 3 y = tl (tl (tl y))" by (simp add: numeral_3_eq_3 drop_Suc)
  show ?thesis
  proof (cases "length pre + 2 < unat ts")
    case False
    then have "rejects (pre @ y) (unat ts) ?r" using assms by (intro pton_three_full) auto
    moreover have "\<nexists>xs. ?f = b64_encode xs \<and> length pre + b64_need xs \<le> unat ts"
      using False len by (auto simp: enc b64_need_def)
    ultimately show ?thesis unfolding pton_spec_def by blast
  next
    case True
    have r: "?r = (if g = [] \<and> ?v = 0
        then Some (int (length (pre @ ?xs)), Some ((pre @ ?xs) @ ?v # tl (tl (tl y))))
        else Some (- 1, Some ((pre @ ?xs) @ ?v # tl (tl (tl y)))))"
      using assms True len pton_three [of d0 d1 d2 pre ts y "Pad64 # g @ 0 # junk"]
        pton_pad_state3 [OF assms(4), of "pre @ ?xs" junk ?v "tl (tl (tl y))"]
      by (simp add: pton_from_Pad64)
    show ?thesis
    proof (cases "g = [] \<and> ?v = 0")
      case acc: True
      with r have "?r = Some (int (length pre + length ?xs),
          Some (pre @ ?xs @ (if length ?xs mod 3 = 0 then [] else [0]) @ drop (b64_need ?xs) y))"
        using len drop3 by (simp add: b64_need_def del: take_Cons_numeral)
      moreover have "?f = b64_encode ?xs" using acc enc by blast
      moreover have "length pre + b64_need ?xs \<le> unat ts" using True len by (simp add: b64_need_def)
      ultimately show ?thesis unfolding pton_spec_def by blast
    next
      case False
      with r have "?r = Some (- 1, Some ((pre @ ?xs) @ ?v # tl (tl (tl y))))" by (simp only: if_False)
      with rejects_three [OF True assms(6)] have "rejects (pre @ y) (unat ts) ?r"
        by (simp add: dec3_def)
      with False enc show ?thesis by (intro pton_spec_reject) auto
    qed
  qed
qed

lemma pton_spec_group:
  assumes "d0 < 64" "d1 < 64" "d2 < 64" "d3 < 64" "length pre + 2 < ts" "ts \<le> length (pre @ y)"
    "pton_spec (pre @ dec3 d0 d1 d2 d3) g (drop 3 y) ts r"
  shows "pton_spec pre (b64_digit d0 # b64_digit d1 # b64_digit d2 # b64_digit d3 # g) y ts r"
proof -
  let ?ds = "dec3 d0 d1 d2 d3" and ?f = "b64_digit d0 # b64_digit d1 # b64_digit d2 # b64_digit d3 # g"
  have enc: "?f = b64_encode xs \<longleftrightarrow> (\<exists>ys. xs = ?ds @ ys \<and> g = b64_encode ys)" for xs
    using encode_full [OF assms(1-4), of g xs] by simp
  have len: "length ?ds = 3" "b64_need (?ds @ ys) = 3 + b64_need ys" "length (?ds @ ys) mod 3 = length ys mod 3" for ys
    by (simp_all add: dec3_def b64_need_def)
  have "rejects (pre @ y) ts r" if "rejects ((pre @ ?ds) @ drop 3 y) ts r"
  proof -
    have "drop ts (pre @ ?ds @ drop 3 y) = drop ts (pre @ y)" using assms(5,6) len(1) by (simp add: drop_drop)
    moreover have "length (pre @ ?ds @ drop 3 y) = length (pre @ y)" using assms(5,6) len(1) by simp
    ultimately show ?thesis using that by (simp add: rejects_def)
  qed
  moreover have "(\<exists>xs. ?f = b64_encode xs \<and> length pre + b64_need xs \<le> ts) \<longleftrightarrow>
      (\<exists>ys. g = b64_encode ys \<and> length (pre @ ?ds) + b64_need ys \<le> ts)"
    using len by (auto simp: enc)
  moreover have "?f = b64_encode (?ds @ ys)" if "g = b64_encode ys" for ys using that enc by blast
  moreover have "drop (b64_need ys) (drop 3 y) = drop (b64_need (?ds @ ys)) y" for ys
    by (simp add: len add.commute)
  ultimately show ?thesis using assms(7) unfolding pton_spec_def
  proof (elim disjE exE conjE, goal_cases)
    case (1 ys)
    show ?case
    proof (intro disjI1 exI conjI)
      show "?f = b64_encode (?ds @ ys)" using 1 by blast
      show "length pre + b64_need (?ds @ ys) \<le> ts" using 1 len by simp
      show "r = Some (int (length pre + length (?ds @ ys)), Some (pre @ (?ds @ ys) @
          (if length (?ds @ ys) mod 3 = 0 then [] else [0]) @ drop (b64_need (?ds @ ys)) y))"
        unfolding len(3) using 1 by (simp only: length_append append.assoc add.assoc)
    qed
  next
    case 2
    then show ?case by blast
  qed
qed

lemma pton_group_full:
  assumes "d0 < 64" "d1 < 64" "d2 < 64" "d3 < 64" "length pre + 4 < 2 ^ 31" "unat ts \<le> length (pre @ y)"
    "\<not> length pre + 2 < unat ts"
  shows "pton_spec pre (b64_digit d0 # b64_digit d1 # b64_digit d2 # b64_digit d3 # g) y (unat ts)
     (pton_from (b64_digit d0 # b64_digit d1 # b64_digit d2 # src) (Some (pre @ y)) ts (of_nat (length pre)) 0)"
proof -
  have "\<not> length pre + b64_need (dec3 d0 d1 d2 d3 @ ys) \<le> unat ts" for ys
    using assms(7) by (simp add: b64_need_def dec3_def)
  then have "\<nexists>xs. map b64_digit [d0, d1, d2, d3] @ g = b64_encode xs \<and> length pre + b64_need xs \<le> unat ts"
    unfolding encode_full [OF assms(1-4)] by blast
  moreover have "rejects (pre @ y) (unat ts)
      (pton_from (b64_digit d0 # b64_digit d1 # b64_digit d2 # src) (Some (pre @ y)) ts (of_nat (length pre)) 0)"
    using assms by (intro pton_three_full) auto
  ultimately show ?thesis unfolding pton_spec_def by auto
qed

lemma pton_from_spec:
  "plain f \<Longrightarrow> length pre + length f + 4 < 2 ^ 31 \<Longrightarrow> unat ts \<le> length (pre @ y) \<Longrightarrow>
     length pre \<le> unat ts \<Longrightarrow>
     pton_spec pre f y (unat ts) (pton_from (f @ 0 # junk) (Some (pre @ y)) ts (of_nat (length pre)) 0)"
proof (induction f arbitrary: pre y rule: length_induct)
  case (1 f)
  note prems = "1.prems"
  show ?case
  proof (cases f rule: text_cases)
    case stops
    show ?thesis
    proof (cases "f = []")
      case True
      then have "f = b64_encode []" "b64_need [] = 0" by (simp_all add: b64_need_def)
      moreover have "pton_from (0 # junk) (Some (pre @ y)) ts (of_nat (length pre)) 0 =
          Some (int (length pre), Some (pre @ y))"
        using prems sint_small [of "length pre"] by (simp add: pton_from_NUL)
      ultimately show ?thesis using True prems by (auto simp: pton_spec_def rejects_def intro!: exI [of _ "[]"])
    next
      case False
      then show ?thesis using stops prems encode_shape(1) [of f]
        by (intro pton_spec_reject) (auto simp: pton_stops rejects_now)
    qed
  next
    case (pad h)
    then have "f \<noteq> b64_encode xs" for xs using encode_shape(2) [of f xs] by blast
    then show ?thesis unfolding pad
      by (intro pton_spec_reject) (auto simp: pton_from_Pad64 pton_pad_early rejects_now)
  next
    case (digit d0 f1)
    note d0 = digit
    with prems have f1: "plain f1" "length pre + 4 < 2 ^ 31" by (auto simp: plain_def)
    show ?thesis
    proof (cases f1 rule: text_cases)
      case stops
      then show ?thesis unfolding d0(2) using pton_group_one [of d0 f1] d0 f1 prems by simp
    next
      case (pad h)
      then show ?thesis unfolding d0(2) using pton_group_one [of d0 f1] d0 f1 prems by simp
    next
      case (digit d1 f2)
      note d1 = digit
      with f1 have f2: "plain f2" by (auto simp: plain_def)
      show ?thesis
      proof (cases f2 rule: text_cases)
        case stops
        then show ?thesis unfolding d0(2) d1(2) using pton_group_two [of d0 d1 f2] d0 d1 f1 f2 prems by simp
      next
        case (pad h)
        with f2 have "plain h" by (auto simp: plain_def)
        with pad show ?thesis unfolding d0(2) d1(2) pad using pton_group_pad2 [of d0 d1 h] d0 d1 f1 prems by simp
      next
        case (digit d2 f3)
        note d2 = digit
        with f2 have f3: "plain f3" by (auto simp: plain_def)
        show ?thesis
        proof (cases f3 rule: text_cases)
          case stops
          then show ?thesis unfolding d0(2) d1(2) d2(2)
            using pton_group_three [of d0 d1 d2 f3] d0 d1 d2 f1 f3 prems by simp
        next
          case (pad h)
          with f3 have "plain h" by (auto simp: plain_def)
          with pad show ?thesis unfolding d0(2) d1(2) d2(2) pad
            using pton_group_pad1 [of d0 d1 d2 h] d0 d1 d2 f1 prems by simp
        next
          case (digit d3 g)
          note d = d0(2) d1(2) d2(2) digit(2) and l = d0(1) d1(1) d2(1) digit(1)
          have g: "plain g" "length g < length f" using f3 d by (auto simp: plain_def)
          show ?thesis
          proof (cases "length pre + 2 < unat ts")
            case False
            then show ?thesis unfolding d using pton_group_full [OF l f1(2) prems(3) False, of g] by simp
          next
            case True
            have "pton_spec (pre @ dec3 d0 d1 d2 d3) g (drop 3 y) (unat ts)
                (pton_from (g @ 0 # junk) (Some ((pre @ dec3 d0 d1 d2 d3) @ drop 3 y)) ts
                   (of_nat (length (pre @ dec3 d0 d1 d2 d3))) 0)"
              using "1.IH" [rule_format, OF g(2,1), of "pre @ dec3 d0 d1 d2 d3" "drop 3 y"] prems True d
              by (simp add: dec3_def)
            from pton_spec_group [OF l True prems(3) this] show ?thesis unfolding d
              using pton_four [OF l _ prems(3) True, of "g @ 0 # junk"] f1 by simp
          qed
        qed
      qed
    qed
  qed
qed

section \<open>White space\<close>

definition strip :: "u8 list \<Rightarrow> u8 list" where
  "strip f = filter (\<lambda>c. \<not> isspace c) f"

lemma strip_simps [simp]:
  "strip [] = []" "strip (c # f) = (if isspace c then strip f else c # strip f)" "strip (f @ g) = strip f @ strip g"
  by (simp_all add: strip_def)

lemma next_nonspace_strip:
  "0 \<in> set (c # src) \<Longrightarrow> \<exists>c' src'. next_nonspace c src = Some (c', src') \<and> strip (c # src) = c' # strip src' \<and>
     0 \<in> set (c' # src') \<and> \<not> isspace c'"
  by (induction c src rule: next_nonspace.induct) auto

lemma strip_plain_head: "0 \<in> set (c # src) \<Longrightarrow> \<exists>c' g. strip (c # src) = c' # g \<and> \<not> isspace c' \<and> 0 \<in> set (c' # g)"
  using next_nonspace_strip [of c src] by (auto simp: strip_def)

lemma pton_pad3_strip:
  assumes "0 \<in> set (c # src)" "strip (c # src) = c' # g"
  shows "pton_pad3 c src t ti = pton_pad3 c' g t ti"
  using next_nonspace_strip [OF assms(1)] assms(2)
  by (auto simp: pton_pad3_def next_nonspace_plain)

lemma pton_pad_strip:
  assumes "0 \<in> set src"
  shows "pton_pad src t ti st = pton_pad (strip src) t ti st"
proof -
  obtain c s where src: "src = c # s" using assms by (cases src) auto
  obtain c' s' where n: "next_nonspace c s = Some (c', s')" "strip (c # s) = c' # strip s'"
    "0 \<in> set (c' # s')" "\<not> isspace c'"
    using next_nonspace_strip [of c s] assms src by auto
  have pad3: "pton_pad3 c s t ti = pton_pad3 c' (strip s') t ti"
    using assms src n(2) by (intro pton_pad3_strip) auto
  show ?thesis
  proof (cases "st = 2 \<and> c' = Pad64")
    case True
    with n(3) have "0 \<in> set s'" by (auto simp: Pad64_def)
    then obtain c2 s2 where s': "s' = c2 # s2" by (cases s') auto
    from strip_plain_head [of c2 s2] \<open>0 \<in> set s'\<close> s' obtain c3 g where "strip (c2 # s2) = c3 # g" by auto
    with True n src s' \<open>0 \<in> set s'\<close> show ?thesis
      using pton_pad3_strip [of c2 s2 c3 g t ti] by (simp add: pton_pad_def next_nonspace_plain)
  next
    case False
    then show ?thesis using n src pad3 by (auto simp: pton_pad_def next_nonspace_plain)
  qed
qed

lemma pton_from_space: "isspace c \<Longrightarrow> pton_from (c # src) t ts ti st = pton_from src t ts ti st"
  by (auto simp: pton_from_def pton_loop.simps isspace_def)

lemma pton_from_char:
  assumes "c \<noteq> 0" "\<not> isspace c" "c \<noteq> Pad64"
  shows "pton_from (c # src) t ts ti st =
     (case strchr Base64_chars c of
        None \<Rightarrow> Some (- 1, t)
      | Some pos \<Rightarrow>
          (case pton_step t ts ti st (of_nat pos) of
             None \<Rightarrow> None
           | Some (Inl r) \<Rightarrow> Some r
           | Some (Inr (t, ti', st')) \<Rightarrow> pton_from src t ts ti' st'))"
  using assms by (simp add: pton_from_def pton_loop.simps split: option.split sum.split)

lemma pton_from_strip:
  "0 \<in> set src \<Longrightarrow> pton_from src t ts ti st = pton_from (strip src) t ts ti st"
proof (induction src arbitrary: t ti st)
  case (Cons c src)
  show ?case
  proof (cases "c = 0 \<or> c = Pad64")
    case True
    then show ?thesis using Cons.prems pton_pad_strip [of src]
      by (auto simp: pton_from_NUL pton_from_Pad64 Pad64_def [symmetric])
  next
    case False
    with Cons have "pton_from src t ts ti st = pton_from (strip src) t ts ti st" for t ti st by auto
    with False show ?thesis by (cases "isspace c") (simp_all add: pton_from_space pton_from_char split: option.split sum.split)
  qed
qed simp

text \<open>\<open>f_b64_pton\<close> skips white space anywhere in the text, as its comment says.\<close>

theorem f_b64_pton_whitespace:
  assumes "0 \<in> set src"
  shows "f_b64_pton src t ts = f_b64_pton (filter (\<lambda>c. \<not> isspace c) src) t ts"
  using pton_from_strip [OF assms, of t ts 0 0] by (simp add: f_b64_pton_def pton_from_def strip_def)

theorem f_b64_pton_whitespace_witness:
  "f_b64_pton [0x20, 0x54, 0x57, 0x0A, 0x45, 0x3D, 0] (Some [9, 9, 9]) 3 =
     f_b64_pton [0x54, 0x57, 0x45, 0x3D, 0] (Some [9, 9, 9]) 3"
  using f_b64_pton_whitespace [of "[0x20, 0x54, 0x57, 0x0A, 0x45, 0x3D, 0]" "Some [9, 9, 9]" 3]
  by (simp add: isspace_def)

lemma f_b64_pton_spec:
  assumes "0 \<notin> set f" "length f + 4 < 2 ^ 31" "unat ts \<le> length t"
  shows "pton_spec [] (strip f) t (unat ts) (f_b64_pton (f @ 0 # junk) (Some t) ts)"
proof -
  have "plain (strip f)" using assms(1) by (auto simp: plain_def strip_def)
  moreover have "length (strip f) + 4 < 2 ^ 31"
    using order.strict_trans1 [OF add_right_mono [OF length_filter_le] assms(2)] unfolding strip_def .
  ultimately have "pton_spec [] (strip f) t (unat ts) (pton_from (strip f @ 0 # strip junk) (Some t) ts 0 0)"
    using pton_from_spec [of "strip f" "[]" ts t "strip junk"] assms(3) by simp
  moreover have "f_b64_pton (f @ 0 # junk) (Some t) ts = pton_from (strip f @ 0 # strip junk) (Some t) ts 0 0"
    using pton_from_strip [of "f @ 0 # junk"] by (simp add: f_b64_pton_def pton_from_def)
  ultimately show ?thesis by simp
qed

text \<open>C40: \<open>f_b64_pton\<close> decides its input: a NUL-terminated text is accepted exactly when
  it is, white space aside, the RFC 1521 encoding of some bytes \<open>xs\<close>, padding and zero
  extra bits included, and the target has room for them, plus one scratch byte when the text is
  padded. It then stores \<open>xs\<close> and returns their number. Every other text gives -1, and the
  target is never written beyond \<open>targsize\<close>.\<close>

theorem f_b64_pton_decides:
  assumes "0 \<notin> set f" "length f + 4 < 2 ^ 31" "unat ts \<le> length t"
  shows "if \<exists>xs. filter (\<lambda>c. \<not> isspace c) f = b64_encode xs \<and> b64_need xs \<le> unat ts
     then \<exists>xs. filter (\<lambda>c. \<not> isspace c) f = b64_encode xs \<and>
            f_b64_pton (f @ 0 # junk) (Some t) ts =
              Some (int (length xs),
                    Some (xs @ (if length xs mod 3 = 0 then [] else [0]) @ drop (b64_need xs) t))
     else \<exists>t'. f_b64_pton (f @ 0 # junk) (Some t) ts = Some (- 1, Some t') \<and>
            length t' = length t \<and> drop (unat ts) t' = drop (unat ts) t"
  using f_b64_pton_spec [OF assms, of junk]
  by (auto simp: pton_spec_def rejects_def strip_def)

theorem f_b64_pton_decides_witness:
  "\<exists>t'. f_b64_pton ([0x54, 0x57, 0x46, 0x3D] @ 0 # []) (Some [9, 9, 9]) 3 = Some (- 1, Some t') \<and>
     length t' = length [9, 9, 9 :: u8] \<and> drop (unat (3 :: u64)) t' = drop (unat (3 :: u64)) [9, 9, 9]"
proof -
  have f: "filter (\<lambda>c. \<not> isspace c) [0x54, 0x57, 0x46, 0x3D] = map b64_digit [19, 22, 5] @ Pad64 # []"
    by (simp add: isspace_def b64_digit_def Base64_chars_def Pad64_def)
  have "\<not> (\<exists>xs. map b64_digit [19, 22, 5] @ Pad64 # [] = b64_encode xs \<and> b64_need xs \<le> unat (3 :: u64))"
    by (subst encode_two) (simp_all add: dec3_def)
  moreover have "0 \<notin> set [0x54, 0x57, 0x46, 0x3D :: u8]" by simp
  ultimately show ?thesis
    using f_b64_pton_decides [of "[0x54, 0x57, 0x46, 0x3D]" 3 "[9, 9, 9]" "[]"]
    unfolding f by (simp only: if_False) simp
qed

section \<open>Round trip\<close>

lemma enc3_digits:
  obtains d0 d1 d2 d3 where "d0 < 64" "d1 < 64" "d2 < 64" "d3 < 64" "enc3 a b c = map b64_digit [d0, d1, d2, d3]"
proof -
  have "unat a div 4 < 64" "unat a mod 4 * 16 + unat b div 16 < 64"
    "unat b mod 16 * 4 + unat c div 64 < 64" "unat c mod 64 < 64"
    using unat_u8_less [of a] unat_u8_less [of b] unat_u8_less [of c] by linarith+
  then show thesis using that enc3_bytes by blast
qed

lemma b64_encode_inj: "b64_encode xs = b64_encode ys \<Longrightarrow> xs = ys"
proof (induction xs arbitrary: ys rule: b64_encode.induct)
  case (1 a b c r)
  obtain d0 d1 d2 d3 where d: "d0 < 64" "d1 < 64" "d2 < 64" "d3 < 64"
    "enc3 a b c = map b64_digit [d0, d1, d2, d3]" by (rule enc3_digits)
  then have abc: "[a, b, c] = dec3 d0 d1 d2 d3" using enc3_dec3 by blast
  have "map b64_digit [d0, d1, d2, d3] @ b64_encode r = b64_encode ys"
    using 1(2) d(5) by (simp only: b64_encode_enc3)
  then obtain ys' where "ys = dec3 d0 d1 d2 d3 @ ys'" "b64_encode r = b64_encode ys'"
    using encode_full [OF d(1-4)] by blast
  with 1(1) show ?case by (simp flip: abc)
next
  case (2 a b)
  obtain d0 d1 d2 d3 where d: "d0 < 64" "d1 < 64" "d2 < 64" "d3 < 64"
    "enc3 a b 0 = map b64_digit [d0, d1, d2, d3]" by (rule enc3_digits)
  then have "b64_encode [a, b] = map b64_digit [d0, d1, d2] @ Pad64 # []"
    unfolding b64_encode_enc3 d(5) by simp
  with 2 encode_two [OF d(1-3), of "[]"] show ?case by metis
next
  case (3 a)
  obtain d0 d1 d2 d3 where d: "d0 < 64" "d1 < 64" "d2 < 64" "d3 < 64"
    "enc3 a 0 0 = map b64_digit [d0, d1, d2, d3]" by (rule enc3_digits)
  then have "b64_encode [a] = map b64_digit [d0, d1] @ Pad64 # [Pad64]"
    unfolding b64_encode_enc3 d(5) by simp
  with 3 encode_one [OF d(1,2), of "[Pad64]"] show ?case by metis
next
  case 4
  then show ?case by (cases ys rule: b64_encode.cases) (simp_all add: Let_def)
qed

lemma b64_encode_plain: "c \<in> set (b64_encode xs) \<Longrightarrow> c \<noteq> 0 \<and> \<not> isspace c"
proof (induction xs rule: b64_encode.induct)
  case (1 a b c r)
  have "set (enc3 a b c) \<subseteq> set Base64_chars"
    unfolding enc3_def using ntop_output_less by (auto intro!: b64_digit_in)
  then show ?case using 1 Base64_plain by (auto simp: b64_encode_enc3 simp del: b64_encode.simps)
next
  case (2 a b)
  have "set (enc3 a b 0) \<subseteq> set Base64_chars"
    unfolding enc3_def using ntop_output_less by (auto intro!: b64_digit_in)
  then show ?case using 2 Base64_plain isspace_0
    by (auto simp: b64_encode_enc3 Pad64_def simp del: b64_encode.simps dest: in_set_takeD)
next
  case (3 a)
  have "set (enc3 a 0 0) \<subseteq> set Base64_chars"
    unfolding enc3_def using ntop_output_less by (auto intro!: b64_digit_in)
  then show ?case using 3 Base64_plain isspace_0
    by (auto simp: b64_encode_enc3 Pad64_def simp del: b64_encode.simps dest: in_set_takeD)
qed simp

text \<open>What \<open>f_b64_ntop\<close> writes for the bytes \<open>xs\<close>, \<open>f_b64_pton\<close> turns
  back into \<open>xs\<close> in any target with \<open>length xs + 1\<close> bytes.\<close>

theorem b64_roundtrip:
  assumes "unat n1 \<le> length t1" "length (b64_encode xs) + 4 < 2 ^ 31" "length (b64_encode xs) < unat n1"
    and "unat n2 \<le> length t2" "length xs < unat n2"
  shows "\<exists>text t. f_b64_ntop xs (of_nat (length xs)) t1 n1 = Some (int (length (b64_encode xs)), text) \<and>
     f_b64_pton text (Some t2) n2 = Some (int (length xs), Some t) \<and> take (length xs) t = xs"
proof -
  let ?e = "b64_encode xs" and ?junk = "drop (Suc (length (b64_encode xs))) t1"
  have ntop: "f_b64_ntop xs (of_nat (length xs)) t1 n1 = Some (int (length ?e), ?e @ 0 # ?junk)"
    using ntop_from_spec [of "[]" xs n1 t1 "[]"] assms(1,2,3)
    by (simp add: ntop_spec_def ntop_from_def f_b64_ntop_def Let_def)
  have e: "0 \<notin> set ?e" "strip ?e = ?e" using b64_encode_plain [of _ xs]
    by (auto simp: strip_def filter_id_conv)
  have "pton_spec [] ?e t2 (unat n2) (f_b64_pton (?e @ 0 # ?junk) (Some t2) n2)"
    using f_b64_pton_spec [OF e(1) assms(2,4), of ?junk] e(2) by simp
  moreover have "b64_need xs \<le> unat n2" using assms(5) by (simp add: b64_need_def)
  ultimately obtain ys where "?e = b64_encode ys" and
    r: "f_b64_pton (?e @ 0 # ?junk) (Some t2) n2 =
      Some (int (length ys), Some (ys @ (if length ys mod 3 = 0 then [] else [0]) @ drop (b64_need ys) t2))"
    by (auto simp: pton_spec_def)
  then have "ys = xs" using b64_encode_inj by metis
  with ntop r show ?thesis by auto
qed

theorem b64_roundtrip_witness:
  "\<exists>text t. f_b64_ntop [0x4D, 0x61] (of_nat (length [0x4D, 0x61 :: u8])) (replicate 8 0) 8 =
       Some (int (length (b64_encode [0x4D, 0x61])), text) \<and>
     f_b64_pton text (Some [7, 7, 7]) 3 = Some (int (length [0x4D, 0x61 :: u8]), Some t) \<and>
     take (length [0x4D, 0x61 :: u8]) t = [0x4D, 0x61]"
  by (rule b64_roundtrip) (simp_all add: length_b64_encode del: b64_encode.simps)

end
