(* ===== verification/Pb_Types.thy ===== *)
theory Pb_Types
  imports Pb_Prelude
begin

unbundle bit_operations_syntax

text \<open>
  The declarations of \<open>nanopb/pb.h\<close>: the bits of \<open>pb_type_t\<close>, the field
  descriptor \<open>pb_field_t\<close>, the wire types, and the macros that the generated
  \<open>*.nanopb.c\<close> files use to write descriptors. A C struct member is its offset, its
  size and, for an array or a pointer, the size of one element (\<open>c_member\<close>); the macros
  compute the descriptor from those as \<open>offsetof\<close> and \<open>sizeof\<close> do.
\<close>

section \<open>Field types\<close>

type_synonym pb_type_t = u8
type_synonym pb_size_t = u32
type_synonym pb_byte_t = u8
type_synonym addr = int

abbreviation (input) NULL :: addr where "NULL \<equiv> 0"

definition PB_LTYPE_VARINT :: u8 where "PB_LTYPE_VARINT = 0x00"
definition PB_LTYPE_UVARINT :: u8 where "PB_LTYPE_UVARINT = 0x01"
definition PB_LTYPE_SVARINT :: u8 where "PB_LTYPE_SVARINT = 0x02"
definition PB_LTYPE_FIXED32 :: u8 where "PB_LTYPE_FIXED32 = 0x03"
definition PB_LTYPE_FIXED64 :: u8 where "PB_LTYPE_FIXED64 = 0x04"
definition PB_LTYPE_LAST_PACKABLE :: u8 where "PB_LTYPE_LAST_PACKABLE = 0x04"
definition PB_LTYPE_BYTES :: u8 where "PB_LTYPE_BYTES = 0x05"
definition PB_LTYPE_STRING :: u8 where "PB_LTYPE_STRING = 0x06"
definition PB_LTYPE_SUBMESSAGE :: u8 where "PB_LTYPE_SUBMESSAGE = 0x07"
definition PB_LTYPE_EXTENSION :: u8 where "PB_LTYPE_EXTENSION = 0x08"
definition PB_LTYPE_FIXED_LENGTH_BYTES :: u8 where "PB_LTYPE_FIXED_LENGTH_BYTES = 0x09"
definition PB_LTYPES_COUNT :: u8 where "PB_LTYPES_COUNT = 0x0A"
definition PB_LTYPE_MASK :: u8 where "PB_LTYPE_MASK = 0x0F"

definition PB_HTYPE_REQUIRED :: u8 where "PB_HTYPE_REQUIRED = 0x00"
definition PB_HTYPE_OPTIONAL :: u8 where "PB_HTYPE_OPTIONAL = 0x10"
definition PB_HTYPE_REPEATED :: u8 where "PB_HTYPE_REPEATED = 0x20"
definition PB_HTYPE_ONEOF :: u8 where "PB_HTYPE_ONEOF = 0x30"
definition PB_HTYPE_MASK :: u8 where "PB_HTYPE_MASK = 0x30"

definition PB_ATYPE_STATIC :: u8 where "PB_ATYPE_STATIC = 0x00"
definition PB_ATYPE_POINTER :: u8 where "PB_ATYPE_POINTER = 0x80"
definition PB_ATYPE_CALLBACK :: u8 where "PB_ATYPE_CALLBACK = 0x40"
definition PB_ATYPE_MASK :: u8 where "PB_ATYPE_MASK = 0xC0"

definition PB_ATYPE :: "pb_type_t \<Rightarrow> u8" where "PB_ATYPE x = x AND PB_ATYPE_MASK"
definition PB_HTYPE :: "pb_type_t \<Rightarrow> u8" where "PB_HTYPE x = x AND PB_HTYPE_MASK"
definition PB_LTYPE :: "pb_type_t \<Rightarrow> u8" where "PB_LTYPE x = x AND PB_LTYPE_MASK"

named_theorems pb_type_defs "the constants and masks of the field types"

lemmas pb_ltype_defs [pb_type_defs] =
  PB_LTYPE_VARINT_def PB_LTYPE_UVARINT_def PB_LTYPE_SVARINT_def PB_LTYPE_FIXED32_def
  PB_LTYPE_FIXED64_def PB_LTYPE_LAST_PACKABLE_def PB_LTYPE_BYTES_def PB_LTYPE_STRING_def
  PB_LTYPE_SUBMESSAGE_def PB_LTYPE_EXTENSION_def PB_LTYPE_FIXED_LENGTH_BYTES_def
  PB_LTYPES_COUNT_def PB_LTYPE_MASK_def PB_LTYPE_def

lemmas pb_htype_defs [pb_type_defs] =
  PB_HTYPE_REQUIRED_def PB_HTYPE_OPTIONAL_def PB_HTYPE_REPEATED_def PB_HTYPE_ONEOF_def
  PB_HTYPE_MASK_def PB_HTYPE_def

lemmas pb_atype_defs [pb_type_defs] =
  PB_ATYPE_STATIC_def PB_ATYPE_POINTER_def PB_ATYPE_CALLBACK_def PB_ATYPE_MASK_def PB_ATYPE_def

definition PB_SIZE_MAX :: pb_size_t where "PB_SIZE_MAX = - 1"

definition PB_MAX_REQUIRED_FIELDS :: nat where "PB_MAX_REQUIRED_FIELDS = 64"

section \<open>Field descriptors\<close>

text \<open>
  \<open>size_offset\<close> is a signed 32-bit number (\<open>pb_ssize_t\<close>), read with \<open>sint\<close>.
  \<open>ptr\<close> is the address of the default value or of the submessage's descriptor array.
\<close>

record pb_field_t =
  tag :: pb_size_t
  type :: pb_type_t
  data_offset :: pb_size_t
  size_offset :: pb_size_t
  data_size :: pb_size_t
  array_size :: pb_size_t
  ptr :: addr

definition PB_LAST_FIELD :: pb_field_t where
  "PB_LAST_FIELD = \<lparr>tag = 0, type = 0, data_offset = 0, size_offset = 0, data_size = 0,
     array_size = 0, ptr = NULL\<rparr>"

text \<open>The size of a \<open>pb_bytes_array_t\<close> for \<open>n\<close> bytes: \<open>offsetof(bytes)\<close> is
  the size of the 32-bit \<open>size\<close> member.\<close>

definition PB_BYTES_ARRAY_T_ALLOCSIZE :: "u64 \<Rightarrow> u64" where
  "PB_BYTES_ARRAY_T_ALLOCSIZE n = n + 4"

section \<open>Wire types\<close>

type_synonym pb_wire_type_t = u32

definition PB_WT_VARINT :: pb_wire_type_t where "PB_WT_VARINT = 0"
definition PB_WT_64BIT :: pb_wire_type_t where "PB_WT_64BIT = 1"
definition PB_WT_STRING :: pb_wire_type_t where "PB_WT_STRING = 2"
definition PB_WT_32BIT :: pb_wire_type_t where "PB_WT_32BIT = 5"

lemmas pb_wt_defs [pb_type_defs] =
  PB_WT_VARINT_def PB_WT_64BIT_def PB_WT_STRING_def PB_WT_32BIT_def

section \<open>The descriptor macros\<close>

record c_member =
  c_offsetof :: int
  c_sizeof :: int
  c_elemsize :: int

definition pb_membersize :: "c_member \<Rightarrow> int" where
  "pb_membersize m = c_sizeof m"

definition pb_arraysize :: "c_member \<Rightarrow> int" where
  "pb_arraysize m = c_sizeof m div c_elemsize m"

definition pb_delta :: "c_member \<Rightarrow> c_member \<Rightarrow> int" where
  "pb_delta m1 m2 = c_offsetof m1 - c_offsetof m2"

datatype pb_placement = FIRST | OTHER | UNION

fun PB_DATAOFFSET :: "pb_placement \<Rightarrow> c_member \<Rightarrow> c_member \<Rightarrow> pb_size_t" where
  "PB_DATAOFFSET FIRST m1 m2 = of_int (c_offsetof m1)"
| "PB_DATAOFFSET OTHER m1 m2 = of_int (c_offsetof m1 - c_offsetof m2 - pb_membersize m2)"
| "PB_DATAOFFSET UNION m1 m2 = PB_SIZE_MAX"

definition PB_REQUIRED_STATIC :: "pb_size_t \<Rightarrow> c_member \<Rightarrow> pb_size_t \<Rightarrow> u8 \<Rightarrow> addr \<Rightarrow> pb_field_t" where
  "PB_REQUIRED_STATIC tg m fd ltype p =
     \<lparr>tag = tg, type = PB_ATYPE_STATIC OR PB_HTYPE_REQUIRED OR ltype, data_offset = fd,
      size_offset = 0, data_size = of_int (pb_membersize m), array_size = 0, ptr = p\<rparr>"

definition PB_OPTIONAL_STATIC ::
  "pb_size_t \<Rightarrow> c_member \<Rightarrow> c_member \<Rightarrow> pb_size_t \<Rightarrow> u8 \<Rightarrow> addr \<Rightarrow> pb_field_t" where
  "PB_OPTIONAL_STATIC tg m has_m fd ltype p =
     \<lparr>tag = tg, type = PB_ATYPE_STATIC OR PB_HTYPE_OPTIONAL OR ltype, data_offset = fd,
      size_offset = of_int (pb_delta has_m m), data_size = of_int (pb_membersize m),
      array_size = 0, ptr = p\<rparr>"

definition PB_SINGULAR_STATIC :: "pb_size_t \<Rightarrow> c_member \<Rightarrow> pb_size_t \<Rightarrow> u8 \<Rightarrow> addr \<Rightarrow> pb_field_t" where
  "PB_SINGULAR_STATIC tg m fd ltype p =
     \<lparr>tag = tg, type = PB_ATYPE_STATIC OR PB_HTYPE_OPTIONAL OR ltype, data_offset = fd,
      size_offset = 0, data_size = of_int (pb_membersize m), array_size = 0, ptr = p\<rparr>"

definition PB_REPEATED_STATIC ::
  "pb_size_t \<Rightarrow> c_member \<Rightarrow> c_member \<Rightarrow> pb_size_t \<Rightarrow> u8 \<Rightarrow> addr \<Rightarrow> pb_field_t" where
  "PB_REPEATED_STATIC tg m m_count fd ltype p =
     \<lparr>tag = tg, type = PB_ATYPE_STATIC OR PB_HTYPE_REPEATED OR ltype, data_offset = fd,
      size_offset = of_int (pb_delta m_count m), data_size = of_int (c_elemsize m),
      array_size = of_int (pb_arraysize m), ptr = p\<rparr>"

definition PB_REQUIRED_POINTER :: "pb_size_t \<Rightarrow> c_member \<Rightarrow> pb_size_t \<Rightarrow> u8 \<Rightarrow> addr \<Rightarrow> pb_field_t" where
  "PB_REQUIRED_POINTER tg m fd ltype p =
     \<lparr>tag = tg, type = PB_ATYPE_POINTER OR PB_HTYPE_REQUIRED OR ltype, data_offset = fd,
      size_offset = 0, data_size = of_int (c_elemsize m), array_size = 0, ptr = p\<rparr>"

definition PB_OPTIONAL_POINTER :: "pb_size_t \<Rightarrow> c_member \<Rightarrow> pb_size_t \<Rightarrow> u8 \<Rightarrow> addr \<Rightarrow> pb_field_t" where
  "PB_OPTIONAL_POINTER tg m fd ltype p =
     \<lparr>tag = tg, type = PB_ATYPE_POINTER OR PB_HTYPE_OPTIONAL OR ltype, data_offset = fd,
      size_offset = 0, data_size = of_int (c_elemsize m), array_size = 0, ptr = p\<rparr>"

definition PB_SINGULAR_POINTER :: "pb_size_t \<Rightarrow> c_member \<Rightarrow> pb_size_t \<Rightarrow> u8 \<Rightarrow> addr \<Rightarrow> pb_field_t" where
  "PB_SINGULAR_POINTER tg m fd ltype p =
     \<lparr>tag = tg, type = PB_ATYPE_POINTER OR PB_HTYPE_OPTIONAL OR ltype, data_offset = fd,
      size_offset = 0, data_size = of_int (c_elemsize m), array_size = 0, ptr = p\<rparr>"

definition PB_REPEATED_POINTER ::
  "pb_size_t \<Rightarrow> c_member \<Rightarrow> c_member \<Rightarrow> pb_size_t \<Rightarrow> u8 \<Rightarrow> addr \<Rightarrow> pb_field_t" where
  "PB_REPEATED_POINTER tg m m_count fd ltype p =
     \<lparr>tag = tg, type = PB_ATYPE_POINTER OR PB_HTYPE_REPEATED OR ltype, data_offset = fd,
      size_offset = of_int (pb_delta m_count m), data_size = of_int (c_elemsize m),
      array_size = 0, ptr = p\<rparr>"

definition PB_REQUIRED_CALLBACK :: "pb_size_t \<Rightarrow> c_member \<Rightarrow> pb_size_t \<Rightarrow> u8 \<Rightarrow> addr \<Rightarrow> pb_field_t" where
  "PB_REQUIRED_CALLBACK tg m fd ltype p =
     \<lparr>tag = tg, type = PB_ATYPE_CALLBACK OR PB_HTYPE_REQUIRED OR ltype, data_offset = fd,
      size_offset = 0, data_size = of_int (pb_membersize m), array_size = 0, ptr = p\<rparr>"

definition PB_OPTIONAL_CALLBACK :: "pb_size_t \<Rightarrow> c_member \<Rightarrow> pb_size_t \<Rightarrow> u8 \<Rightarrow> addr \<Rightarrow> pb_field_t" where
  "PB_OPTIONAL_CALLBACK tg m fd ltype p =
     \<lparr>tag = tg, type = PB_ATYPE_CALLBACK OR PB_HTYPE_OPTIONAL OR ltype, data_offset = fd,
      size_offset = 0, data_size = of_int (pb_membersize m), array_size = 0, ptr = p\<rparr>"

definition PB_SINGULAR_CALLBACK :: "pb_size_t \<Rightarrow> c_member \<Rightarrow> pb_size_t \<Rightarrow> u8 \<Rightarrow> addr \<Rightarrow> pb_field_t" where
  "PB_SINGULAR_CALLBACK tg m fd ltype p =
     \<lparr>tag = tg, type = PB_ATYPE_CALLBACK OR PB_HTYPE_OPTIONAL OR ltype, data_offset = fd,
      size_offset = 0, data_size = of_int (pb_membersize m), array_size = 0, ptr = p\<rparr>"

definition PB_REPEATED_CALLBACK :: "pb_size_t \<Rightarrow> c_member \<Rightarrow> pb_size_t \<Rightarrow> u8 \<Rightarrow> addr \<Rightarrow> pb_field_t" where
  "PB_REPEATED_CALLBACK tg m fd ltype p =
     \<lparr>tag = tg, type = PB_ATYPE_CALLBACK OR PB_HTYPE_REPEATED OR ltype, data_offset = fd,
      size_offset = 0, data_size = of_int (pb_membersize m), array_size = 0, ptr = p\<rparr>"

definition PB_OPTEXT_STATIC :: "pb_size_t \<Rightarrow> c_member \<Rightarrow> pb_size_t \<Rightarrow> u8 \<Rightarrow> addr \<Rightarrow> pb_field_t" where
  "PB_OPTEXT_STATIC tg m fd ltype p =
     \<lparr>tag = tg, type = PB_ATYPE_STATIC OR PB_HTYPE_REQUIRED OR ltype, data_offset = 0,
      size_offset = 0, data_size = of_int (pb_membersize m), array_size = 0, ptr = p\<rparr>"

definition PB_OPTEXT_POINTER :: "pb_size_t \<Rightarrow> c_member \<Rightarrow> pb_size_t \<Rightarrow> u8 \<Rightarrow> addr \<Rightarrow> pb_field_t" where
  "PB_OPTEXT_POINTER = PB_OPTIONAL_POINTER"

definition PB_OPTEXT_CALLBACK :: "pb_size_t \<Rightarrow> c_member \<Rightarrow> pb_size_t \<Rightarrow> u8 \<Rightarrow> addr \<Rightarrow> pb_field_t" where
  "PB_OPTEXT_CALLBACK = PB_OPTIONAL_CALLBACK"

datatype pb_proto_type =
  BOOL | BYTES | DOUBLE | ENUM | UENUM | FIXED32 | FIXED64 | FLOAT | INT32 | INT64 | MESSAGE
| SFIXED32 | SFIXED64 | SINT32 | SINT64 | STRING | UINT32 | UINT64 | EXTENSION
| FIXED_LENGTH_BYTES

fun PB_LTYPE_MAP :: "pb_proto_type \<Rightarrow> u8" where
  "PB_LTYPE_MAP BOOL = PB_LTYPE_VARINT"
| "PB_LTYPE_MAP BYTES = PB_LTYPE_BYTES"
| "PB_LTYPE_MAP DOUBLE = PB_LTYPE_FIXED64"
| "PB_LTYPE_MAP ENUM = PB_LTYPE_VARINT"
| "PB_LTYPE_MAP UENUM = PB_LTYPE_UVARINT"
| "PB_LTYPE_MAP FIXED32 = PB_LTYPE_FIXED32"
| "PB_LTYPE_MAP FIXED64 = PB_LTYPE_FIXED64"
| "PB_LTYPE_MAP FLOAT = PB_LTYPE_FIXED32"
| "PB_LTYPE_MAP INT32 = PB_LTYPE_VARINT"
| "PB_LTYPE_MAP INT64 = PB_LTYPE_VARINT"
| "PB_LTYPE_MAP MESSAGE = PB_LTYPE_SUBMESSAGE"
| "PB_LTYPE_MAP SFIXED32 = PB_LTYPE_FIXED32"
| "PB_LTYPE_MAP SFIXED64 = PB_LTYPE_FIXED64"
| "PB_LTYPE_MAP SINT32 = PB_LTYPE_SVARINT"
| "PB_LTYPE_MAP SINT64 = PB_LTYPE_SVARINT"
| "PB_LTYPE_MAP STRING = PB_LTYPE_STRING"
| "PB_LTYPE_MAP UINT32 = PB_LTYPE_UVARINT"
| "PB_LTYPE_MAP UINT64 = PB_LTYPE_UVARINT"
| "PB_LTYPE_MAP EXTENSION = PB_LTYPE_EXTENSION"
| "PB_LTYPE_MAP FIXED_LENGTH_BYTES = PB_LTYPE_FIXED_LENGTH_BYTES"

datatype pb_rules = REQUIRED | OPTIONAL | SINGULAR | REPEATED | OPTEXT
datatype pb_alloc = STATIC | POINTER | CALLBACK

text \<open>
  \<open>PB_FIELD\<close> pastes \<open>PB_ ## rules ## _ ## allocation\<close>. The member
  \<open>msz\<close> is \<open>has_m\<close> or \<open>m_count\<close>; the macros without such a member do
  not look at it.
\<close>

fun PB_FIELD :: "pb_size_t \<Rightarrow> pb_proto_type \<Rightarrow> pb_rules \<Rightarrow> pb_alloc \<Rightarrow> pb_placement \<Rightarrow>
    c_member \<Rightarrow> c_member \<Rightarrow> c_member \<Rightarrow> addr \<Rightarrow> pb_field_t" where
  "PB_FIELD tg ty rules al pl m msz prev p =
     (let fd = PB_DATAOFFSET pl m prev; lt = PB_LTYPE_MAP ty in
      case (rules, al) of
        (REQUIRED, STATIC) \<Rightarrow> PB_REQUIRED_STATIC tg m fd lt p
      | (OPTIONAL, STATIC) \<Rightarrow> PB_OPTIONAL_STATIC tg m msz fd lt p
      | (SINGULAR, STATIC) \<Rightarrow> PB_SINGULAR_STATIC tg m fd lt p
      | (REPEATED, STATIC) \<Rightarrow> PB_REPEATED_STATIC tg m msz fd lt p
      | (OPTEXT, STATIC) \<Rightarrow> PB_OPTEXT_STATIC tg m fd lt p
      | (REQUIRED, POINTER) \<Rightarrow> PB_REQUIRED_POINTER tg m fd lt p
      | (OPTIONAL, POINTER) \<Rightarrow> PB_OPTIONAL_POINTER tg m fd lt p
      | (SINGULAR, POINTER) \<Rightarrow> PB_SINGULAR_POINTER tg m fd lt p
      | (REPEATED, POINTER) \<Rightarrow> PB_REPEATED_POINTER tg m msz fd lt p
      | (OPTEXT, POINTER) \<Rightarrow> PB_OPTEXT_POINTER tg m fd lt p
      | (REQUIRED, CALLBACK) \<Rightarrow> PB_REQUIRED_CALLBACK tg m fd lt p
      | (OPTIONAL, CALLBACK) \<Rightarrow> PB_OPTIONAL_CALLBACK tg m fd lt p
      | (SINGULAR, CALLBACK) \<Rightarrow> PB_SINGULAR_CALLBACK tg m fd lt p
      | (REPEATED, CALLBACK) \<Rightarrow> PB_REPEATED_CALLBACK tg m fd lt p
      | (OPTEXT, CALLBACK) \<Rightarrow> PB_OPTEXT_CALLBACK tg m fd lt p)"

definition PB_REPEATED_FIXED_COUNT ::
  "pb_size_t \<Rightarrow> pb_proto_type \<Rightarrow> pb_placement \<Rightarrow> c_member \<Rightarrow> c_member \<Rightarrow> addr \<Rightarrow> pb_field_t" where
  "PB_REPEATED_FIXED_COUNT tg ty pl m prev p =
     \<lparr>tag = tg, type = PB_ATYPE_STATIC OR PB_HTYPE_REPEATED OR PB_LTYPE_MAP ty,
      data_offset = PB_DATAOFFSET pl m prev, size_offset = 0,
      data_size = of_int (c_elemsize m), array_size = of_int (pb_arraysize m), ptr = p\<rparr>"

definition PB_ONEOF_STATIC ::
  "c_member \<Rightarrow> pb_size_t \<Rightarrow> c_member \<Rightarrow> pb_size_t \<Rightarrow> u8 \<Rightarrow> addr \<Rightarrow> pb_field_t" where
  "PB_ONEOF_STATIC which tg m fd ltype p =
     \<lparr>tag = tg, type = PB_ATYPE_STATIC OR PB_HTYPE_ONEOF OR ltype, data_offset = fd,
      size_offset = of_int (pb_delta which m), data_size = of_int (pb_membersize m),
      array_size = 0, ptr = p\<rparr>"

definition PB_ONEOF_POINTER ::
  "c_member \<Rightarrow> pb_size_t \<Rightarrow> c_member \<Rightarrow> pb_size_t \<Rightarrow> u8 \<Rightarrow> addr \<Rightarrow> pb_field_t" where
  "PB_ONEOF_POINTER which tg m fd ltype p =
     \<lparr>tag = tg, type = PB_ATYPE_POINTER OR PB_HTYPE_ONEOF OR ltype, data_offset = fd,
      size_offset = of_int (pb_delta which m), data_size = of_int (c_elemsize m),
      array_size = 0, ptr = p\<rparr>"

text \<open>Oneofs have no callback allocation: \<open>PB_ONEOF_CALLBACK\<close> is not defined.\<close>

fun PB_ONEOF_FIELD :: "c_member \<Rightarrow> pb_size_t \<Rightarrow> pb_proto_type \<Rightarrow> pb_alloc \<Rightarrow> pb_placement \<Rightarrow>
    c_member \<Rightarrow> c_member \<Rightarrow> addr \<Rightarrow> pb_field_t option" where
  "PB_ONEOF_FIELD which tg ty STATIC pl m prev p =
     Some (PB_ONEOF_STATIC which tg m (PB_DATAOFFSET pl m prev) (PB_LTYPE_MAP ty) p)"
| "PB_ONEOF_FIELD which tg ty POINTER pl m prev p =
     Some (PB_ONEOF_POINTER which tg m (PB_DATAOFFSET pl m prev) (PB_LTYPE_MAP ty) p)"
| "PB_ONEOF_FIELD which tg ty CALLBACK pl m prev p = None"

lemmas pb_macro_defs =
  PB_REQUIRED_STATIC_def PB_OPTIONAL_STATIC_def PB_SINGULAR_STATIC_def PB_REPEATED_STATIC_def
  PB_REQUIRED_POINTER_def PB_OPTIONAL_POINTER_def PB_SINGULAR_POINTER_def PB_REPEATED_POINTER_def
  PB_REQUIRED_CALLBACK_def PB_OPTIONAL_CALLBACK_def PB_SINGULAR_CALLBACK_def
  PB_REPEATED_CALLBACK_def PB_OPTEXT_STATIC_def PB_OPTEXT_POINTER_def PB_OPTEXT_CALLBACK_def

section \<open>Reading a type word back\<close>

text \<open>The repetition and allocation bits that the macros ask for.\<close>

fun rules_htype :: "pb_rules \<Rightarrow> pb_alloc \<Rightarrow> u8" where
  "rules_htype REQUIRED al = PB_HTYPE_REQUIRED"
| "rules_htype OPTIONAL al = PB_HTYPE_OPTIONAL"
| "rules_htype SINGULAR al = PB_HTYPE_OPTIONAL"
| "rules_htype REPEATED al = PB_HTYPE_REPEATED"
| "rules_htype OPTEXT al = (if al = STATIC then PB_HTYPE_REQUIRED else PB_HTYPE_OPTIONAL)"

fun alloc_atype :: "pb_alloc \<Rightarrow> u8" where
  "alloc_atype STATIC = PB_ATYPE_STATIC"
| "alloc_atype POINTER = PB_ATYPE_POINTER"
| "alloc_atype CALLBACK = PB_ATYPE_CALLBACK"

lemma PB_FIELD_type:
  "type (PB_FIELD tg ty rules al pl m msz prev p) =
     alloc_atype al OR rules_htype rules al OR PB_LTYPE_MAP ty"
  by (cases rules; cases al) (simp_all add: Let_def pb_macro_defs)

lemma PB_FIELD_tag: "tag (PB_FIELD tg ty rules al pl m msz prev p) = tg"
  by (cases rules; cases al) (simp_all add: Let_def pb_macro_defs)

lemma PB_FIELD_ptr: "ptr (PB_FIELD tg ty rules al pl m msz prev p) = p"
  by (cases rules; cases al) (simp_all add: Let_def pb_macro_defs)

lemma type_word_split:
  "PB_ATYPE (alloc_atype al OR rules_htype rules al OR PB_LTYPE_MAP ty) = alloc_atype al"
  "PB_HTYPE (alloc_atype al OR rules_htype rules al OR PB_LTYPE_MAP ty) = rules_htype rules al"
  "PB_LTYPE (alloc_atype al OR rules_htype rules al OR PB_LTYPE_MAP ty) = PB_LTYPE_MAP ty"
  by (cases al; cases rules; cases ty; simp add: pb_type_defs)+

text \<open>The two bits of \<open>PB_HTYPE_MASK\<close> have four values, all of them used.\<close>

lemma PB_HTYPE_cases:
  "PB_HTYPE ty = PB_HTYPE_REQUIRED \<or> PB_HTYPE ty = PB_HTYPE_OPTIONAL \<or>
   PB_HTYPE ty = PB_HTYPE_REPEATED \<or> PB_HTYPE ty = PB_HTYPE_ONEOF"
proof -
  have "ty AND 0x30 = push_bit 4 (take_bit 2 (drop_bit 4 ty))"
  proof -
    have m: "(0x30 :: u8) = push_bit 4 (mask 2)" by (simp add: mask_eq_exp_minus_1)
    show ?thesis unfolding m by (intro bit_word_eqI) (auto simp: bit_simps)
  qed
  then have "PB_HTYPE ty = push_bit 4 (take_bit 2 (drop_bit 4 ty))" by (simp add: pb_type_defs)
  moreover have "unat (take_bit 2 (drop_bit 4 ty)) < 4"
    by (simp only: unsigned_take_bit_eq) (simp add: take_bit_eq_mod)
  then have "unat (take_bit 2 (drop_bit 4 ty)) \<in> {0, 1, 2, 3}" by auto
  then have "take_bit 2 (drop_bit 4 ty) \<in> {0, 1, 2, 3 :: u8}"
    by (auto simp: word_unat_eq_iff)
  ultimately show ?thesis by (auto simp: pb_type_defs)
qed

end
