(* ===== verification/Pb_Istream.thy ===== *)
theory Pb_Istream
  imports Pb_Types
begin

unbundle bit_operations_syntax

text \<open>
  Input streams: \<open>pb_istream_t\<close> of \<open>pb_decode.h\<close> and the first part of
  \<open>pb_decode.c\<close> (\<open>buf_read\<close>, \<open>pb_read\<close>, \<open>pb_readbyte\<close>,
  \<open>pb_istream_from_buffer\<close>).

  The \<open>state\<close> pointer of a memory stream is the part of the input buffer from the
  pointer to the end of the buffer object, so reading past the object is visible
  (\<open>Stuck\<close>) whatever \<open>bytes_left\<close> says. The bytes that a read stores through its
  \<open>buf\<close> argument are returned; the argument \<open>buf\<close> of the model says whether the C
  argument is non-NULL. A custom stream's callback is the parameter \<open>rd\<close>: it returns true
  with exactly \<open>count\<close> bytes (\<open>Read_ok\<close>), returns false (\<open>Read_err\<close>), or
  returns false after setting \<open>bytes_left\<close> to 0 to signal the end of the input
  (\<open>Read_eof\<close>).
\<close>

section \<open>Data\<close>

datatype istream_callback = Buf_read | User_read

datatype 'u istream_state = Buf_state "pb_byte_t list" | User_state 'u

record 'u pb_istream_t =
  is_callback :: istream_callback
  is_state :: "'u istream_state"
  bytes_left :: u64
  is_errmsg :: "string option"

datatype 'u read_result = Read_ok "pb_byte_t list" 'u | Read_err 'u | Read_eof 'u

type_synonym 'u read_callback = "'u \<Rightarrow> u64 \<Rightarrow> 'u read_result"

text \<open>\<open>PB_SET_ERROR\<close> keeps the first message; \<open>PB_RETURN_ERROR\<close> returns false.\<close>

definition PB_SET_ERROR :: "'u pb_istream_t \<Rightarrow> string \<Rightarrow> 'u pb_istream_t" where
  "PB_SET_ERROR s msg =
     s\<lparr>is_errmsg := (case is_errmsg s of None \<Rightarrow> Some msg | Some e \<Rightarrow> Some e)\<rparr>"

definition PB_RETURN_ERROR :: "'u pb_istream_t \<Rightarrow> string \<Rightarrow> ('a, 'u pb_istream_t) outcome" where
  "PB_RETURN_ERROR s msg = Fail (PB_SET_ERROR s msg)"

definition PB_GET_ERROR :: "'u pb_istream_t \<Rightarrow> string" where
  "PB_GET_ERROR s = (case is_errmsg s of None \<Rightarrow> ''(none)'' | Some e \<Rightarrow> e)"

section \<open>Reading\<close>

definition buf_read :: "'u pb_istream_t \<Rightarrow> bool \<Rightarrow> u64 \<Rightarrow> (pb_byte_t list, 'u pb_istream_t) outcome" where
  "buf_read s buf count =
     (case is_state s of
        Buf_state source \<Rightarrow>
          if unat count \<le> length source
          then Ok (if buf then take (unat count) source else [])
                  (s\<lparr>is_state := Buf_state (drop (unat count) source)\<rparr>)
          else Stuck
      | User_state u \<Rightarrow> Stuck)"

text \<open>The call \<open>stream->callback(stream, buf, count)\<close>.\<close>

definition call_read ::
  "'u read_callback \<Rightarrow> 'u pb_istream_t \<Rightarrow> bool \<Rightarrow> u64 \<Rightarrow> (pb_byte_t list, 'u pb_istream_t) outcome" where
  "call_read rd s buf count =
     (case is_callback s of
        Buf_read \<Rightarrow> buf_read s buf count
      | User_read \<Rightarrow>
          (case is_state s of
             Buf_state d \<Rightarrow> Stuck
           | User_state u \<Rightarrow>
               (case rd u count of
                  Read_ok bs u' \<Rightarrow>
                    if length bs = unat count then Ok bs (s\<lparr>is_state := User_state u'\<rparr>) else Stuck
                | Read_err u' \<Rightarrow> Fail (s\<lparr>is_state := User_state u'\<rparr>)
                | Read_eof u' \<Rightarrow> Fail (s\<lparr>is_state := User_state u', bytes_left := 0\<rparr>))))"

text \<open>Lines 119 to 131: the read proper.\<close>

definition pb_read_raw ::
  "'u read_callback \<Rightarrow> 'u pb_istream_t \<Rightarrow> bool \<Rightarrow> u64 \<Rightarrow> (pb_byte_t list, 'u pb_istream_t) outcome" where
  "pb_read_raw rd s buf count =
     (if bytes_left s < count then PB_RETURN_ERROR s ''end-of-stream''
      else (case call_read rd s buf count of
              Fail s' \<Rightarrow> PB_RETURN_ERROR s' ''io error''
            | Ok bs s' \<Rightarrow> Ok bs (s'\<lparr>bytes_left := bytes_left s' - count\<rparr>)
            | Stuck \<Rightarrow> Stuck))"

text \<open>Lines 103 to 116: a custom stream skips through a 16-byte buffer.\<close>

function pb_skip_bytes ::
  "'u read_callback \<Rightarrow> 'u pb_istream_t \<Rightarrow> u64 \<Rightarrow> (pb_byte_t list, 'u pb_istream_t) outcome" where
  "pb_skip_bytes rd s count =
     (if 16 < count
      then c_then (pb_read_raw rd s True 16) (\<lambda>tmp s. pb_skip_bytes rd s (count - 16))
      else c_then (pb_read_raw rd s True count) (\<lambda>tmp s. Ok [] s))"
  by pat_completeness auto
termination
  by (relation "measure (\<lambda>(rd, s, count). unat count)")
    (auto simp: word_less_nat_alt unat_sub_if')

declare pb_skip_bytes.simps [simp del]

definition pb_read ::
  "'u read_callback \<Rightarrow> 'u pb_istream_t \<Rightarrow> bool \<Rightarrow> u64 \<Rightarrow> (pb_byte_t list, 'u pb_istream_t) outcome" where
  "pb_read rd s buf count =
     (if \<not> buf \<and> is_callback s \<noteq> Buf_read then pb_skip_bytes rd s count
      else pb_read_raw rd s buf count)"

definition pb_readbyte :: "'u read_callback \<Rightarrow> 'u pb_istream_t \<Rightarrow> (pb_byte_t, 'u pb_istream_t) outcome" where
  "pb_readbyte rd s =
     (if bytes_left s = 0 then PB_RETURN_ERROR s ''end-of-stream''
      else (case call_read rd s True 1 of
              Fail s' \<Rightarrow> PB_RETURN_ERROR s' ''io error''
            | Ok bs s' \<Rightarrow> (case bs of
                             [b] \<Rightarrow> Ok b (s'\<lparr>bytes_left := bytes_left s' - 1\<rparr>)
                           | _ \<Rightarrow> Stuck)
            | Stuck \<Rightarrow> Stuck))"

definition pb_istream_from_buffer :: "pb_byte_t list \<Rightarrow> u64 \<Rightarrow> 'u pb_istream_t" where
  "pb_istream_from_buffer buf bufsize =
     \<lparr>is_callback = Buf_read, is_state = Buf_state buf, bytes_left = bufsize, is_errmsg = None\<rparr>"

section \<open>Consumption: every stream only shrinks\<close>

text \<open>
  These facts hold for every callback, custom ones included: they make the loops of the
  decoder end.
\<close>

lemma PB_SET_ERROR_simps [simp]:
  "is_callback (PB_SET_ERROR s msg) = is_callback s"
  "is_state (PB_SET_ERROR s msg) = is_state s"
  "bytes_left (PB_SET_ERROR s msg) = bytes_left s"
  by (simp_all add: PB_SET_ERROR_def)

lemma call_read_Ok:
  "call_read rd s buf count = Ok bs s' \<Longrightarrow>
     bytes_left s' = bytes_left s \<and> is_callback s' = is_callback s \<and> is_errmsg s' = is_errmsg s \<and>
     (buf \<longrightarrow> length bs = unat count)"
  by (auto simp: call_read_def buf_read_def
      split: istream_callback.splits istream_state.splits read_result.splits if_splits)

lemma call_read_Fail:
  "call_read rd s buf count = Fail s' \<Longrightarrow>
     bytes_left s' \<le> bytes_left s \<and> is_callback s' = is_callback s"
  by (auto simp: call_read_def buf_read_def
      split: istream_callback.splits istream_state.splits read_result.splits if_splits)

lemma pb_read_raw_Ok:
  "pb_read_raw rd s buf count = Ok bs s' \<Longrightarrow>
     count \<le> bytes_left s \<and> bytes_left s' = bytes_left s - count \<and>
     is_callback s' = is_callback s \<and> (buf \<longrightarrow> length bs = unat count)"
  by (auto simp: pb_read_raw_def PB_RETURN_ERROR_def not_less
      split: if_splits outcome.splits dest!: call_read_Ok)

lemma pb_read_raw_Fail:
  "pb_read_raw rd s buf count = Fail s' \<Longrightarrow>
     bytes_left s' \<le> bytes_left s \<and> is_callback s' = is_callback s"
  by (auto simp: pb_read_raw_def PB_RETURN_ERROR_def split: if_splits outcome.splits
      dest!: call_read_Fail)

lemma pb_readbyte_Ok:
  "pb_readbyte rd s = Ok b s' \<Longrightarrow>
     bytes_left s \<noteq> 0 \<and> bytes_left s' = bytes_left s - 1 \<and> is_callback s' = is_callback s"
  by (auto simp: pb_readbyte_def PB_RETURN_ERROR_def split: if_splits outcome.splits list.splits
      dest!: call_read_Ok)

lemma pb_readbyte_Fail:
  "pb_readbyte rd s = Fail s' \<Longrightarrow>
     bytes_left s' \<le> bytes_left s \<and> is_callback s' = is_callback s"
  by (auto simp: pb_readbyte_def PB_RETURN_ERROR_def split: if_splits outcome.splits list.splits
      dest!: call_read_Fail)

lemma pb_readbyte_decreases:
  "pb_readbyte rd s = Ok b s' \<Longrightarrow> unat (bytes_left s') < unat (bytes_left s)"
  by (auto dest!: pb_readbyte_Ok simp: unat_minus_one unat_gt_0)

lemma pb_skip_bytes_Ok:
  "pb_skip_bytes rd s count = Ok bs s' \<Longrightarrow>
     count \<le> bytes_left s \<and> bytes_left s' = bytes_left s - count \<and> is_callback s' = is_callback s"
proof (induction rd s count arbitrary: bs s' rule: pb_skip_bytes.induct)
  case (1 rd s count)
  show ?case
  proof (cases "16 < count")
    case False
    with "1.prems" show ?thesis
      by (subst (asm) pb_skip_bytes.simps) (auto simp: outcome_iffs dest!: pb_read_raw_Ok)
  next
    case True
    with "1.prems" obtain tmp t where
      t: "pb_read_raw rd s True 16 = Ok tmp t" and r: "pb_skip_bytes rd t (count - 16) = Ok bs s'"
      by (subst (asm) pb_skip_bytes.simps) (auto simp: outcome_iffs)
    note IH = "1.IH" [OF True r] and T = pb_read_raw_Ok [OF t]
    from IH T True have "count \<le> bytes_left s"
      by (auto simp: word_le_nat_alt word_less_nat_alt unat_sub_if')
    with IH T show ?thesis by simp
  qed
qed

lemma pb_skip_bytes_Fail:
  "pb_skip_bytes rd s count = Fail s' \<Longrightarrow>
     bytes_left s' \<le> bytes_left s \<and> is_callback s' = is_callback s"
proof (induction rd s count arbitrary: s' rule: pb_skip_bytes.induct)
  case (1 rd s count)
  show ?case
  proof (cases "16 < count")
    case False
    with "1.prems" show ?thesis
      by (subst (asm) pb_skip_bytes.simps) (auto simp: outcome_iffs dest!: pb_read_raw_Fail)
  next
    case True
    with "1.prems" consider (rd) "pb_read_raw rd s True 16 = Fail s'"
      | (rec) tmp t where "pb_read_raw rd s True 16 = Ok tmp t"
          "pb_skip_bytes rd t (count - 16) = Fail s'"
      by (subst (asm) pb_skip_bytes.simps) (auto simp: outcome_iffs)
    then show ?thesis
    proof cases
      case rd
      then show ?thesis by (rule pb_read_raw_Fail)
    next
      case rec
      note IH = "1.IH" [OF True rec(2)] and T = pb_read_raw_Ok [OF rec(1)]
      then show ?thesis
        by (auto simp: word_le_nat_alt unat_sub_if' split: if_splits)
    qed
  qed
qed

lemma pb_read_Ok:
  "pb_read rd s buf count = Ok bs s' \<Longrightarrow>
     count \<le> bytes_left s \<and> bytes_left s' = bytes_left s - count \<and>
     is_callback s' = is_callback s \<and> (buf \<longrightarrow> length bs = unat count)"
  by (auto simp: pb_read_def split: if_splits dest!: pb_read_raw_Ok pb_skip_bytes_Ok)

lemma pb_read_Fail:
  "pb_read rd s buf count = Fail s' \<Longrightarrow>
     bytes_left s' \<le> bytes_left s \<and> is_callback s' = is_callback s"
  by (auto simp: pb_read_def split: if_splits dest!: pb_read_raw_Fail pb_skip_bytes_Fail)

section \<open>Memory streams\<close>

text \<open>
  \<open>buf_istream d k e\<close>: a memory stream that points at the bytes \<open>d\<close>, with
  \<open>k\<close> of them left to read and the error message \<open>e\<close>. It is well formed when the
  buffer object really holds \<open>k\<close> bytes.
\<close>

definition buf_istream :: "pb_byte_t list \<Rightarrow> nat \<Rightarrow> string option \<Rightarrow> 'u pb_istream_t" where
  "buf_istream d k e =
     \<lparr>is_callback = Buf_read, is_state = Buf_state d, bytes_left = of_nat k, is_errmsg = e\<rparr>"

definition first_error :: "string option \<Rightarrow> string \<Rightarrow> string option" where
  "first_error e msg = (case e of None \<Rightarrow> Some msg | Some m \<Rightarrow> Some m)"

lemma first_error_simps [simp]:
  "first_error None msg = Some msg" "first_error (Some e) msg = Some e"
  by (simp_all add: first_error_def)

lemma pb_istream_from_buffer_eq:
  "pb_istream_from_buffer d n = buf_istream d (unat n) None"
  by (simp add: pb_istream_from_buffer_def buf_istream_def)

lemma buf_istream_sel [simp]:
  "bytes_left (buf_istream d k e) = of_nat k"
  "is_callback (buf_istream d k e) = Buf_read"
  "is_state (buf_istream d k e) = Buf_state d"
  "is_errmsg (buf_istream d k e) = e"
  by (simp_all add: buf_istream_def)

lemma buf_istream_update [simp]:
  "(buf_istream d k e)\<lparr>is_state := Buf_state d'\<rparr> = buf_istream d' k e"
  "(buf_istream d k e)\<lparr>is_errmsg := e'\<rparr> = buf_istream d k e'"
  "(buf_istream d k e)\<lparr>bytes_left := of_nat k'\<rparr> = buf_istream d k' e"
  by (simp_all add: buf_istream_def)

lemma PB_SET_ERROR_buf [simp]:
  "PB_SET_ERROR (buf_istream d k e) msg = buf_istream d k (first_error e msg)"
  by (simp add: PB_SET_ERROR_def first_error_def)

lemma buf_istream_inj:
  "k < 2 ^ 64 \<Longrightarrow> k' < 2 ^ 64 \<Longrightarrow>
     buf_istream d k e = buf_istream d' k' e' \<longleftrightarrow> d = d' \<and> k = k' \<and> e = e'"
  by (auto simp: buf_istream_def dest: arg_cong [where f = unat])

lemma of_nat_64_eq_0: "k < 2 ^ 64 \<Longrightarrow> (of_nat k :: u64) = 0 \<longleftrightarrow> k = 0"
  by (metis uint64_small unat_eq_zero)

lemma pb_readbyte_buf:
  assumes "k < 2 ^ 64"
  shows "pb_readbyte rd (buf_istream d k e) =
     (if k = 0 then Fail (buf_istream d k (first_error e ''end-of-stream''))
      else case d of [] \<Rightarrow> Stuck | b # d' \<Rightarrow> Ok b (buf_istream d' (k - 1) e))"
proof (cases "k = 0")
  case True
  then show ?thesis by (simp add: pb_readbyte_def PB_RETURN_ERROR_def)
next
  case False
  then have "(of_nat k :: u64) - 1 = of_nat (k - 1)" by simp
  then show ?thesis using assms False
    by (cases d) (auto simp: pb_readbyte_def call_read_def buf_read_def of_nat_64_eq_0)
qed

lemma pb_read_buf:
  assumes "k < 2 ^ 64" "n < 2 ^ 64"
  shows "pb_read rd (buf_istream d k e) buf (of_nat n) =
     (if k < n then Fail (buf_istream d k (first_error e ''end-of-stream''))
      else if n \<le> length d
      then Ok (if buf then take n d else []) (buf_istream (drop n d) (k - n) e)
      else Stuck)"
proof -
  have "(of_nat k :: u64) < of_nat n \<longleftrightarrow> k < n"
    using assms by (simp add: word_less_nat_alt)
  moreover have "n \<le> k \<Longrightarrow> (of_nat k :: u64) - of_nat n = of_nat (k - n)" by simp
  ultimately show ?thesis using assms
    by (auto simp: pb_read_def pb_read_raw_def PB_RETURN_ERROR_def call_read_def buf_read_def)
qed

lemma pb_read_buf_word:
  assumes "k < 2 ^ 64"
  shows "pb_read rd (buf_istream d k e) buf n =
     (if k < unat n then Fail (buf_istream d k (first_error e ''end-of-stream''))
      else if unat n \<le> length d
      then Ok (if buf then take (unat n) d else []) (buf_istream (drop (unat n) d) (k - unat n) e)
      else Stuck)"
  using pb_read_buf [OF assms unat_u64_less [of n], of rd d e buf] by simp

section \<open>The interface of a byte source\<close>

text \<open>
  What the varint and tag readers rely on. A byte supplier hands out the bytes of
  \<open>content s\<close> one by one or in blocks; a byte source also fails cleanly when they run
  out. The readers' functional correctness is proved from these laws; the memory streams
  satisfy them.
\<close>

locale byte_supplier =
  fixes rd :: "'u read_callback"
    and good :: "'u pb_istream_t \<Rightarrow> bool"
    and content :: "'u pb_istream_t \<Rightarrow> pb_byte_t list"
  assumes readbyte_Cons:
      "good s \<Longrightarrow> content s = b # bs \<Longrightarrow>
         \<exists>s'. pb_readbyte rd s = Ok b s' \<and> good s' \<and> content s' = bs \<and> is_errmsg s' = is_errmsg s"
    and read_prefix:
      "good s \<Longrightarrow> unat n \<le> length (content s) \<Longrightarrow>
         \<exists>s'. pb_read rd s True n = Ok (take (unat n) (content s)) s' \<and> good s' \<and>
              content s' = drop (unat n) (content s) \<and> is_errmsg s' = is_errmsg s"

locale byte_source = byte_supplier +
  assumes readbyte_Nil:
      "good s \<Longrightarrow> content s = [] \<Longrightarrow> \<exists>s'. pb_readbyte rd s = Fail s' \<and> bytes_left s' = 0"
    and read_short:
      "good s \<Longrightarrow> length (content s) < unat n \<Longrightarrow> \<exists>s'. pb_read rd s True n = Fail s'"

definition buf_good :: "'u pb_istream_t \<Rightarrow> bool" where
  "buf_good s \<longleftrightarrow> is_callback s = Buf_read \<and>
     (case is_state s of Buf_state d \<Rightarrow> unat (bytes_left s) \<le> length d | User_state u \<Rightarrow> False)"

definition buf_content :: "'u pb_istream_t \<Rightarrow> pb_byte_t list" where
  "buf_content s =
     (case is_state s of Buf_state d \<Rightarrow> take (unat (bytes_left s)) d | User_state u \<Rightarrow> [])"

lemma buf_good_iff:
  "buf_good s \<longleftrightarrow> (\<exists>d k. s = buf_istream d k (is_errmsg s) \<and> k \<le> length d \<and> k < 2 ^ 64)"
proof
  assume "buf_good s"
  then obtain d where "is_callback s = Buf_read" "is_state s = Buf_state d"
    "unat (bytes_left s) \<le> length d"
    by (auto simp: buf_good_def split: istream_state.splits)
  then have "s = buf_istream d (unat (bytes_left s)) (is_errmsg s)"
    by (simp add: buf_istream_def)
  moreover have "unat (bytes_left s) < 2 ^ 64" by (rule unat_u64_less)
  ultimately show "\<exists>d k. s = buf_istream d k (is_errmsg s) \<and> k \<le> length d \<and> k < 2 ^ 64"
    using \<open>unat (bytes_left s) \<le> length d\<close> by blast
next
  assume "\<exists>d k. s = buf_istream d k (is_errmsg s) \<and> k \<le> length d \<and> k < 2 ^ 64"
  then obtain d k where "s = buf_istream d k (is_errmsg s)" "k \<le> length d" "k < 2 ^ 64" by blast
  then show "buf_good s"
    by (metis buf_good_def buf_istream_sel(1,2,3) istream_state.simps(5) uint64_small)
qed

lemma buf_good_buf_istream [simp]:
  "k < 2 ^ 64 \<Longrightarrow> buf_good (buf_istream d k e) \<longleftrightarrow> k \<le> length d"
  by (simp add: buf_good_def)

lemma buf_content_buf_istream [simp]:
  "k < 2 ^ 64 \<Longrightarrow> buf_content (buf_istream d k e) = take k d"
  by (simp add: buf_content_def)

lemma buf_goodE:
  assumes "buf_good s"
  obtains d k e where "s = buf_istream d k e" "k \<le> length d" "k < 2 ^ 64"
  using assms by (auto simp: buf_good_iff)

interpretation buf_source: byte_source rd buf_good buf_content
proof (unfold_locales, goal_cases)
  case (1 s b bs)
  then obtain d k e where s: "s = buf_istream d k e" "k \<le> length d" "k < 2 ^ 64"
    by (auto elim: buf_goodE)
  with 1 have "take k d = b # bs" by simp
  then obtain d' where "d = b # d'" "k \<noteq> 0" "take (k - 1) d' = bs"
    by (cases d; cases k) auto
  with s show ?case by (auto simp: pb_readbyte_buf)
next
  case (2 s n)
  then show ?case by (auto elim!: buf_goodE simp: pb_read_buf_word take_drop split: if_splits)
next
  case (3 s)
  then show ?case by (auto elim!: buf_goodE simp: pb_readbyte_buf)
next
  case (4 s n)
  then show ?case by (auto elim!: buf_goodE simp: pb_read_buf_word)
qed

text \<open>
  The same supplier with the position made exact: the bytes up to the fixed rest \<open>D\<close> of
  the buffer, of which \<open>K\<close> bytes may still be read.
\<close>

definition exact_good :: "pb_byte_t list \<Rightarrow> nat \<Rightarrow> string option \<Rightarrow> 'u pb_istream_t \<Rightarrow> bool" where
  "exact_good D K e s \<longleftrightarrow> (\<exists>d. s = buf_istream (d @ D) (length d + K) e \<and> length d + K < 2 ^ 64)"

definition exact_content :: "pb_byte_t list \<Rightarrow> 'u pb_istream_t \<Rightarrow> pb_byte_t list" where
  "exact_content D s =
     (case is_state s of Buf_state d \<Rightarrow> take (length d - length D) d | User_state u \<Rightarrow> [])"

lemma exact_content_buf [simp]: "exact_content D (buf_istream (d @ D) k e) = d"
  by (simp add: exact_content_def)

lemma exact_goodI: "length d + K < 2 ^ 64 \<Longrightarrow> exact_good D K e (buf_istream (d @ D) (length d + K) e)"
  by (auto simp: exact_good_def)

lemma exact_end: "exact_good D K e s \<Longrightarrow> exact_content D s = [] \<Longrightarrow> s = buf_istream D K e"
  by (auto simp: exact_good_def)

interpretation exact: byte_supplier rd "exact_good D K e" "exact_content D" for rd D K e
proof (unfold_locales, goal_cases)
  case (1 s b bs)
  then have s: "s = buf_istream (b # bs @ D) (Suc (length bs) + K) e" "Suc (length bs) + K < 2 ^ 64"
    by (auto simp: exact_good_def)
  have "Suc (length bs) + K - 1 = length bs + K" by simp
  with s show ?case using exact_goodI [of bs K D e]
    by (auto simp: pb_readbyte_buf)
next
  case (2 s n)
  then obtain d where s: "s = buf_istream (d @ D) (length d + K) e" "length d + K < 2 ^ 64"
    and n: "unat n \<le> length d" by (auto simp: exact_good_def)
  then have l: "length d + K - unat n = length (drop (unat n) d) + K" by simp
  from s n have "exact_good D K e (buf_istream (drop (unat n) d @ D) (length d + K - unat n) e)"
    unfolding l by (intro exact_goodI) simp
  with s n show ?case by (auto simp: pb_read_buf_word)
qed

end
