(* ===== verification/Pb_Varint.thy ===== *)
theory Pb_Varint
  imports Pb_Prelude
begin

unbundle bit_operations_syntax

text \<open>
  The wire format of integers, as the specification the coders of \<open>pb_encode.c\<close> and
  \<open>pb_decode.c\<close> are measured against: base-128 varints with the continuation bit,
  zigzag numbers, and little-endian fixed-width numbers.
\<close>

section \<open>Varints\<close>

fun varint_bytes :: "nat \<Rightarrow> u8 list" where
  "varint_bytes n =
     (if n < 128 then [of_nat n] else of_nat (n mod 128 + 128) # varint_bytes (n div 128))"

declare varint_bytes.simps [simp del]

primrec varint_value :: "u8 list \<Rightarrow> nat" where
  "varint_value [] = 0"
| "varint_value (b # bs) = unat b mod 128 + 128 * varint_value bs"

text \<open>A varint: the continuation bit is set on every byte but the last.\<close>

fun varint_form :: "u8 list \<Rightarrow> bool" where
  "varint_form [] = False"
| "varint_form (b # bs) = (if unat b < 128 then bs = [] else varint_form bs)"

lemma unat_cont_byte [simp]: "unat (of_nat (n mod 128) + 128 :: u8) = n mod 128 + 128"
proof -
  have "n mod 128 + 128 < 256" using mod_less_divisor [of 128 n] by linarith
  then have "unat (of_nat (n mod 128 + 128) :: u8) = n mod 128 + 128" by (rule unat_of_nat_u8)
  then show ?thesis by simp
qed

lemma varint_bytes_small: "n < 128 \<Longrightarrow> varint_bytes n = [of_nat n]"
  by (simp add: varint_bytes.simps)

lemma varint_bytes_large:
  "128 \<le> n \<Longrightarrow> varint_bytes n = of_nat (n mod 128 + 128) # varint_bytes (n div 128)"
  by (subst varint_bytes.simps) simp

lemma varint_form_bytes [simp]: "varint_form (varint_bytes n)"
proof (induction n rule: varint_bytes.induct)
  case (1 n)
  show ?case
  proof (cases "n < 128")
    case True
    then show ?thesis by (simp add: varint_bytes_small unat_of_nat_u8)
  next
    case False
    with 1 show ?thesis by (simp add: varint_bytes_large)
  qed
qed

lemma varint_value_bytes [simp]: "varint_value (varint_bytes n) = n"
proof (induction n rule: varint_bytes.induct)
  case (1 n)
  show ?case
  proof (cases "n < 128")
    case True
    then show ?thesis by (simp add: varint_bytes_small unat_of_nat_u8)
  next
    case False
    with 1 show ?thesis by (simp add: varint_bytes_large)
  qed
qed

lemma varint_bytes_length: "n < 128 ^ k \<Longrightarrow> 0 < k \<Longrightarrow> length (varint_bytes n) \<le> k"
proof (induction n arbitrary: k rule: varint_bytes.induct)
  case (1 n)
  show ?case
  proof (cases "n < 128")
    case True
    with 1(3) show ?thesis by (simp add: varint_bytes_small)
  next
    case False
    with 1(2,3) obtain j where k: "k = Suc j" "0 < j"
      by (cases k; cases "k - 1") auto
    with 1(2) have "n div 128 < 128 ^ j" by (simp add: div_less_iff_less_mult mult.commute)
    from 1(1) [OF False this k(2)] False k(1) show ?thesis by (simp add: varint_bytes_large)
  qed
qed

lemma varint_bytes_nonempty [simp]: "varint_bytes n \<noteq> []"
  by (subst varint_bytes.simps) simp

lemma varint_bytes_length_64: "n < 2 ^ 64 \<Longrightarrow> length (varint_bytes n) \<le> 10"
  by (rule varint_bytes_length) (simp_all add: power_strict_increasing)

lemma varint_bytes_length_32: "n < 2 ^ 32 \<Longrightarrow> length (varint_bytes n) \<le> 5"
  by (rule varint_bytes_length) simp_all

lemma varint_value_bound: "varint_value bs < 128 ^ length bs"
proof (induction bs)
  case (Cons b bs)
  have "unat b mod 128 < 128" by simp
  with Cons show ?case by simp
qed simp

text \<open>Distinct numbers have distinct varints, and no varint is a prefix of another.\<close>

lemma varint_form_append:
  "varint_form xs \<Longrightarrow> varint_form ys \<Longrightarrow> xs @ us = ys @ vs \<Longrightarrow> xs = ys \<and> us = vs"
proof (induction xs arbitrary: ys)
  case Nil
  then show ?case by simp
next
  case (Cons x xs)
  then obtain y ys' where "ys = y # ys'" by (cases ys) auto
  with Cons show ?case by (auto split: if_splits)
qed

lemma ucast_and_7F: "(ucast (b AND 0x7F :: u8) :: 'a::len word) = of_nat (unat b mod 128)"
  by (metis byte_and_7F of_nat_unat)

lemma varint_accumulate:
  assumes "r < 2 ^ (7 * i)"
  shows "(of_nat r OR push_bit (7 * i) (of_nat (unat (b::u8) mod 128)) :: 'a::len word) =
           of_nat (r + unat b mod 128 * 2 ^ (7 * i))"
    and "r + unat b mod 128 * 2 ^ (7 * i) < 2 ^ (7 * Suc i)"
proof -
  show "(of_nat r OR push_bit (7 * i) (of_nat (unat b mod 128)) :: 'a word) =
      of_nat (r + unat b mod 128 * 2 ^ (7 * i))"
    by (rule of_nat_or_push_bit [OF assms])
  have "unat b mod 128 \<le> 127" using mod_less_divisor [of 128 "unat b"] by linarith
  then have "unat b mod 128 * 2 ^ (7 * i) \<le> 127 * 2 ^ (7 * i)" by (rule mult_right_mono) simp
  with assms have "r + unat b mod 128 * 2 ^ (7 * i) < 128 * 2 ^ (7 * i)" by linarith
  then show "r + unat b mod 128 * 2 ^ (7 * i) < 2 ^ (7 * Suc i)" by (simp add: power_add)
qed

lemma varint_split:
  "(\<exists>bs rest. xs = bs @ rest \<and> varint_form bs) \<or> (\<forall>b \<in> set xs. 128 \<le> unat b)"
proof (induction xs)
  case Nil
  then show ?case by simp
next
  case (Cons x xs)
  show ?case
  proof (cases "unat x < 128")
    case True
    then have "x # xs = [x] @ xs \<and> varint_form [x]" by simp
    then show ?thesis by blast
  next
    case False
    from Cons show ?thesis
    proof
      assume "\<exists>bs rest. xs = bs @ rest \<and> varint_form bs"
      then obtain bs rest where "x # xs = (x # bs) @ rest" "varint_form bs" by auto
      moreover from this False have "varint_form (x # bs)" by simp
      ultimately show ?thesis by blast
    next
      assume "\<forall>b \<in> set xs. 128 \<le> unat b"
      with False show ?thesis by simp
    qed
  qed
qed

section \<open>Zigzag\<close>

text \<open>The mathematical zigzag map between integers and naturals.\<close>

definition zigzag :: "int \<Rightarrow> nat" where
  "zigzag i = nat (if i < 0 then - 2 * i - 1 else 2 * i)"

definition unzigzag :: "nat \<Rightarrow> int" where
  "unzigzag n = (if odd n then - int (n div 2) - 1 else int (n div 2))"

lemma unzigzag_zigzag [simp]: "unzigzag (zigzag i) = i"
proof (cases "i < 0")
  case True
  then have j: "i = - int (nat (- i - 1)) - 1" by simp
  define j where "j = nat (- i - 1)"
  from j have j: "i = - int j - 1" by (simp add: j_def)
  then have "zigzag i = 2 * j + 1" by (simp add: zigzag_def)
  then show ?thesis using j by (simp add: unzigzag_def)
next
  case False
  then show ?thesis by (auto simp: zigzag_def unzigzag_def nat_mult_distrib)
qed

lemma zigzag_bound: "- (2 ^ 63) \<le> i \<Longrightarrow> i < 2 ^ 63 \<Longrightarrow> zigzag i < 2 ^ 64"
  by (auto simp: zigzag_def)

lemma zigzag_bound_7:
  assumes "0 < k" "- (2 ^ (7 * k - 1)) \<le> i" "i < 2 ^ (7 * k - 1)"
  shows "zigzag i < 128 ^ k"
proof -
  have "(128 :: int) ^ k = 2 ^ (7 * k)" by (simp add: power_mult)
  also have "\<dots> = 2 * 2 ^ (7 * k - 1)" using assms(1) by (simp flip: power_Suc)
  finally have "int (zigzag i) < int (128 ^ k)" using assms(2,3) by (auto simp: zigzag_def)
  then show ?thesis by (simp only: of_nat_less_iff)
qed

section \<open>Little-endian numbers\<close>

primrec le_bytes :: "nat \<Rightarrow> nat \<Rightarrow> u8 list" where
  "le_bytes 0 v = []"
| "le_bytes (Suc n) v = of_nat v # le_bytes n (v div 256)"

primrec le_value :: "u8 list \<Rightarrow> nat" where
  "le_value [] = 0"
| "le_value (b # bs) = unat b + 256 * le_value bs"

lemma length_le_bytes [simp]: "length (le_bytes n v) = n"
  by (induction n arbitrary: v) simp_all

lemma unat_of_nat_mod_256: "unat (of_nat v :: u8) = v mod 256"
  by (simp add: unat_of_nat take_bit_eq_mod)

lemma le_value_bytes: "le_value (le_bytes n v) = v mod 256 ^ n"
proof (induction n arbitrary: v)
  case (Suc n)
  have "v mod 256 + 256 * (v div 256 mod 256 ^ n) = v mod (256 * 256 ^ n)"
    by (simp add: mod_mult2_eq)
  with Suc show ?case by (simp add: unat_of_nat_mod_256)
qed simp

lemma le_value_bound: "le_value bs < 256 ^ length bs"
proof (induction bs)
  case (Cons b bs)
  have "unat b < 256" by (rule unat_u8_less)
  with Cons have "unat b + 256 * le_value bs < 256 + 256 * (256 ^ length bs - 1)"
    by (intro add_less_le_mono) auto
  also have "\<dots> = 256 ^ length (b # bs)" by (simp add: algebra_simps)
  finally show ?case by simp
qed simp

lemma le_bytes_value: "le_bytes (length bs) (le_value bs) = bs"
proof (induction bs)
  case (Cons b bs)
  have "(unat b + 256 * le_value bs) div 256 = le_value bs"
    using unat_u8_less [of b] by simp
  moreover have "(of_nat (unat b + 256 * le_value bs) :: u8) = b"
  proof -
    have "(of_nat 256 :: u8) = 0" by (subst of_nat_numeral) simp
    then have "(of_nat (256 * le_value bs) :: u8) = 0" by (simp only: of_nat_mult mult_zero_left)
    then show ?thesis by (simp only: of_nat_add) simp
  qed
  ultimately show ?case using Cons by simp
qed simp

end
