(* ===== verification/Pb_Decode_Wire.thy ===== *)
theory Pb_Decode_Wire
  imports Pb_Istream Pb_Varint
begin

unbundle bit_operations_syntax

text \<open>
  The helper functions of \<open>pb_decode.c\<close>: varints of 32 and 64 bits, skipping, tags,
  raw values, length-limited substreams, zigzag and fixed-width numbers. An out-parameter is
  the value of the outcome \<open>Ok\<close>. \<open>uint_fast8_t\<close> has 8 bits on the target.
\<close>

section \<open>Varints\<close>

text \<open>
  The \<open>do ... while (byte & 0x80)\<close> loop of \<open>pb_decode_varint32_eof\<close>
  (lines 211 to 231); it returns \<open>result\<close>, the final \<open>bitpos\<close> and the last byte.
\<close>

function varint32_loop ::
  "'u read_callback \<Rightarrow> 'u pb_istream_t \<Rightarrow> u8 \<Rightarrow> u32 \<Rightarrow> (u32 \<times> u8 \<times> pb_byte_t, 'u pb_istream_t) outcome" where
  "varint32_loop rd s bitpos result =
     (case pb_readbyte rd s of
        Fail s' \<Rightarrow> Fail s'
      | Stuck \<Rightarrow> Stuck
      | Ok byte s' \<Rightarrow>
          if bitpos \<ge> 32 \<and> (byte AND 0x7F) \<noteq> 0 \<and>
             (drop_bit 31 result = 0 \<or> byte \<noteq> (if bitpos < 63 then 0xFF else 0x01))
          then PB_RETURN_ERROR s' ''varint overflow''
          else
            let result' = (if bitpos \<ge> 32 then result
                           else result OR push_bit (unat bitpos) (ucast (byte AND 0x7F)));
                bitpos' = bitpos + 7
            in if (byte AND 0x80) \<noteq> 0 then varint32_loop rd s' bitpos' result'
               else Ok (result', bitpos', byte) s')"
  by pat_completeness auto
termination
  by (relation "measure (\<lambda>(rd, s, bitpos, result). unat (bytes_left s))")
    (auto dest: pb_readbyte_decreases)

declare varint32_loop.simps [simp del]

text \<open>The state of \<open>pb_decode_varint32_eof\<close> is the stream and the variable \<open>*eof\<close>.\<close>

definition pb_decode_varint32_eof ::
  "'u read_callback \<Rightarrow> 'u pb_istream_t \<Rightarrow> bool \<Rightarrow> (u32, 'u pb_istream_t \<times> bool) outcome" where
  "pb_decode_varint32_eof rd s eof =
     (case pb_readbyte rd s of
        Fail s' \<Rightarrow> Fail (s', if bytes_left s' = 0 then True else eof)
      | Stuck \<Rightarrow> Stuck
      | Ok byte s' \<Rightarrow>
          if (byte AND 0x80) = 0 then Ok (ucast byte) (s', eof)
          else on_state (\<lambda>s. (s, eof))
            (c_then (varint32_loop rd s' 7 (ucast (byte AND 0x7F)))
               (\<lambda>(result, bitpos, byte) s''.
                  if bitpos = 35 \<and> (byte AND 0x70) \<noteq> 0
                  then PB_RETURN_ERROR s'' ''varint overflow''
                  else Ok result s'')))"

definition pb_decode_varint32 :: "'u read_callback \<Rightarrow> 'u pb_istream_t \<Rightarrow> (u32, 'u pb_istream_t) outcome" where
  "pb_decode_varint32 rd s = on_state fst (pb_decode_varint32_eof rd s False)"

function varint_loop ::
  "'u read_callback \<Rightarrow> 'u pb_istream_t \<Rightarrow> u8 \<Rightarrow> u64 \<Rightarrow> (u64, 'u pb_istream_t) outcome" where
  "varint_loop rd s bitpos result =
     (if bitpos \<ge> 64 then PB_RETURN_ERROR s ''varint overflow''
      else case pb_readbyte rd s of
        Fail s' \<Rightarrow> Fail s'
      | Stuck \<Rightarrow> Stuck
      | Ok byte s' \<Rightarrow>
          let result' = result OR push_bit (unat bitpos) (ucast (byte AND 0x7F))
          in if (byte AND 0x80) \<noteq> 0 then varint_loop rd s' (bitpos + 7) result'
             else Ok result' s')"
  by pat_completeness auto
termination
  by (relation "measure (\<lambda>(rd, s, bitpos, result). unat (bytes_left s))")
    (auto dest: pb_readbyte_decreases)

declare varint_loop.simps [simp del]

definition pb_decode_varint :: "'u read_callback \<Rightarrow> 'u pb_istream_t \<Rightarrow> (u64, 'u pb_istream_t) outcome" where
  "pb_decode_varint rd s = varint_loop rd s 0 0"

section \<open>Skipping and tags\<close>

function pb_skip_varint :: "'u read_callback \<Rightarrow> 'u pb_istream_t \<Rightarrow> (unit, 'u pb_istream_t) outcome" where
  "pb_skip_varint rd s =
     (case pb_read rd s True 1 of
        Fail s' \<Rightarrow> Fail s'
      | Stuck \<Rightarrow> Stuck
      | Ok bs s' \<Rightarrow> (case bs of
            [byte] \<Rightarrow> if (byte AND 0x80) \<noteq> 0 then pb_skip_varint rd s' else Ok () s'
          | _ \<Rightarrow> Stuck))"
  by pat_completeness auto
termination
  by (relation "measure (\<lambda>(rd, s). unat (bytes_left s))")
    (auto dest!: pb_read_Ok simp: unat_minus_one unat_gt_0 unat_sub_if' word_le_nat_alt)

declare pb_skip_varint.simps [simp del]

definition pb_skip_string :: "'u read_callback \<Rightarrow> 'u pb_istream_t \<Rightarrow> (unit, 'u pb_istream_t) outcome" where
  "pb_skip_string rd s =
     c_then (pb_decode_varint32 rd s) (\<lambda>len s.
     c_then (pb_read rd s False (ucast len)) (\<lambda>_ s. Ok () s))"

text \<open>The state of \<open>pb_decode_tag\<close> is the stream and \<open>*eof\<close>; its results are
  \<open>*wire_type\<close> and \<open>*tag\<close>.\<close>

definition pb_decode_tag ::
  "'u read_callback \<Rightarrow> 'u pb_istream_t \<Rightarrow> (pb_wire_type_t \<times> u32, 'u pb_istream_t \<times> bool) outcome" where
  "pb_decode_tag rd s =
     c_then (pb_decode_varint32_eof rd s False) (\<lambda>temp (s, eof).
       if temp = 0 then Fail (s, True)
       else Ok (temp AND 7, drop_bit 3 temp) (s, eof))"

definition pb_skip_field ::
  "'u read_callback \<Rightarrow> 'u pb_istream_t \<Rightarrow> pb_wire_type_t \<Rightarrow> (unit, 'u pb_istream_t) outcome" where
  "pb_skip_field rd s wire_type =
     (if wire_type = PB_WT_VARINT then pb_skip_varint rd s
      else if wire_type = PB_WT_64BIT then c_then (pb_read rd s False 8) (\<lambda>_ s. Ok () s)
      else if wire_type = PB_WT_STRING then pb_skip_string rd s
      else if wire_type = PB_WT_32BIT then c_then (pb_read rd s False 4) (\<lambda>_ s. Ok () s)
      else PB_RETURN_ERROR s ''invalid wire_type'')"

text \<open>
  \<open>read_raw_value\<close> copies a scalar value to a buffer of \<open>max_size\<close> bytes; the
  result is the part of the buffer it filled, whose length is \<open>*size\<close>.
\<close>

function raw_varint_loop ::
  "'u read_callback \<Rightarrow> 'u pb_istream_t \<Rightarrow> u64 \<Rightarrow> u64 \<Rightarrow> (pb_byte_t list, 'u pb_istream_t) outcome" where
  "raw_varint_loop rd s sz max_size =
     (let sz' = sz + 1 in
      if sz' > max_size then Fail s
      else case pb_read rd s True 1 of
        Fail s' \<Rightarrow> Fail s'
      | Stuck \<Rightarrow> Stuck
      | Ok bs s' \<Rightarrow> (case bs of
            [byte] \<Rightarrow> if (byte AND 0x80) \<noteq> 0
                      then c_then (raw_varint_loop rd s' sz' max_size) (\<lambda>r s. Ok (byte # r) s)
                      else Ok [byte] s'
          | _ \<Rightarrow> Stuck))"
  by pat_completeness auto
termination
  by (relation "measure (\<lambda>(rd, s, sz, max_size). unat (bytes_left s))")
    (auto dest!: pb_read_Ok simp: unat_minus_one unat_gt_0 unat_sub_if' word_le_nat_alt)

declare raw_varint_loop.simps [simp del]

definition read_raw_value ::
  "'u read_callback \<Rightarrow> 'u pb_istream_t \<Rightarrow> pb_wire_type_t \<Rightarrow> u64 \<Rightarrow> (pb_byte_t list, 'u pb_istream_t) outcome" where
  "read_raw_value rd s wire_type max_size =
     (if wire_type = PB_WT_VARINT then raw_varint_loop rd s 0 max_size
      else if wire_type = PB_WT_64BIT then (if max_size < 8 then Stuck else pb_read rd s True 8)
      else if wire_type = PB_WT_32BIT then (if max_size < 4 then Stuck else pb_read rd s True 4)
      else PB_RETURN_ERROR s ''invalid wire_type'')"

section \<open>Substreams\<close>

definition pb_make_string_substream ::
  "'u read_callback \<Rightarrow> 'u pb_istream_t \<Rightarrow> ('u pb_istream_t, 'u pb_istream_t) outcome" where
  "pb_make_string_substream rd s =
     c_then (pb_decode_varint32 rd s) (\<lambda>size s.
       let substream = s in
       if bytes_left substream < ucast size
       then PB_RETURN_ERROR s ''parent stream too short''
       else Ok (substream\<lparr>bytes_left := ucast size\<rparr>)
               (s\<lparr>bytes_left := bytes_left s - ucast size\<rparr>))"

text \<open>
  Closing: the rest of the substream is skipped, and the parent takes over its position and
  message. When the skip fails the parent is left as it was.
\<close>

definition pb_close_string_substream ::
  "'u read_callback \<Rightarrow> 'u pb_istream_t \<Rightarrow> 'u pb_istream_t \<Rightarrow> (unit, 'u pb_istream_t) outcome" where
  "pb_close_string_substream rd s sub =
     (case (if bytes_left sub \<noteq> 0 then pb_read rd sub False (bytes_left sub) else Ok [] sub) of
        Fail sub' \<Rightarrow> Fail s
      | Stuck \<Rightarrow> Stuck
      | Ok _ sub' \<Rightarrow> Ok () (s\<lparr>is_state := is_state sub', is_errmsg := is_errmsg sub'\<rparr>))"

section \<open>Signed and fixed-width numbers\<close>

definition pb_decode_svarint :: "'u read_callback \<Rightarrow> 'u pb_istream_t \<Rightarrow> (u64, 'u pb_istream_t) outcome" where
  "pb_decode_svarint rd s =
     c_then (pb_decode_varint rd s) (\<lambda>val s.
       if val AND 1 \<noteq> 0 then Ok (NOT (drop_bit 1 val)) s else Ok (drop_bit 1 val) s)"

definition pb_decode_fixed32 :: "'u read_callback \<Rightarrow> 'u pb_istream_t \<Rightarrow> (u32, 'u pb_istream_t) outcome" where
  "pb_decode_fixed32 rd s =
     c_then (pb_read rd s True 4) (\<lambda>b s.
       Ok (push_bit 0 (ucast (b ! 0)) OR push_bit 8 (ucast (b ! 1)) OR
           push_bit 16 (ucast (b ! 2)) OR push_bit 24 (ucast (b ! 3))) s)"

definition pb_decode_fixed64 :: "'u read_callback \<Rightarrow> 'u pb_istream_t \<Rightarrow> (u64, 'u pb_istream_t) outcome" where
  "pb_decode_fixed64 rd s =
     c_then (pb_read rd s True 8) (\<lambda>b s.
       Ok (push_bit 0 (ucast (b ! 0)) OR push_bit 8 (ucast (b ! 1)) OR
           push_bit 16 (ucast (b ! 2)) OR push_bit 24 (ucast (b ! 3)) OR
           push_bit 32 (ucast (b ! 4)) OR push_bit 40 (ucast (b ! 5)) OR
           push_bit 48 (ucast (b ! 6)) OR push_bit 56 (ucast (b ! 7))) s)"

end
