(* ===== verification/Pb_Decode_Wire_Correct.thy ===== *)
theory Pb_Decode_Wire_Correct
  imports Pb_Decode_Wire
begin

unbundle bit_operations_syntax

text \<open>
  Functional correctness of the wire-level readers against the format of
  \<open>Pb_Varint\<close>. The varint readers are proved over the byte-source interface and then
  carried to memory streams by its interpretation.
\<close>

section \<open>Steps of the varint loops\<close>

lemma of_nat_u8_7: "i \<le> 36 \<Longrightarrow> unat (of_nat (7 * i) :: u8) = 7 * i"
  by (rule unat_of_nat_u8) simp

lemma of_nat_u8_7_ge:
  "i \<le> 36 \<Longrightarrow> n < 256 \<Longrightarrow> (of_nat n :: u8) \<le> of_nat (7 * i) \<longleftrightarrow> n \<le> 7 * i"
  by (simp only: word_le_nat_alt of_nat_u8_7 unat_of_nat_u8)

lemma bitpos_step: "(of_nat (7 * i) :: u8) + 7 = of_nat (7 * Suc i)"
  by simp

context byte_supplier
begin

lemma varint_loop_step:
  assumes "good s" "content s = b # bs" "i \<le> 9" "r < 2 ^ (7 * i)"
  obtains s' where "good s'" "content s' = bs" "is_errmsg s' = is_errmsg s"
    "varint_loop rd s (of_nat (7 * i)) (of_nat r) =
       (if unat b < 128 then Ok (of_nat (r + unat b mod 128 * 2 ^ (7 * i))) s'
        else varint_loop rd s' (of_nat (7 * Suc i)) (of_nat (r + unat b mod 128 * 2 ^ (7 * i))))"
proof -
  from readbyte_Cons [OF assms(1,2)] obtain s' where s':
    "pb_readbyte rd s = Ok b s'" "good s'" "content s' = bs" "is_errmsg s' = is_errmsg s" by blast
  define B B' where "B = (of_nat (7 * i) :: u8)" and "B' = (of_nat (7 * Suc i) :: u8)"
  have B: "\<not> 64 \<le> B" "unat B = 7 * i" "B + 7 = B'"
    using of_nat_u8_7_ge [of i 64] of_nat_u8_7 [of i] assms(3)
    by (simp_all add: B_def B'_def del: of_nat_mult)
  define R where "R = (of_nat r :: u64)"
  define R' where "R' = (of_nat (r + unat b mod 128 * 2 ^ (7 * i)) :: u64)"
  have "R OR push_bit (7 * i) (ucast (b AND 0x7F)) = R'"
    unfolding R_def R'_def ucast_and_7F by (rule varint_accumulate(1) [OF assms(4)])
  with B s'(1) have
    "varint_loop rd s B R = (if unat b < 128 then Ok R' s' else varint_loop rd s' B' R')"
    unfolding varint_loop.simps [of rd s B R] by (simp add: byte_and_80)
  then have
    "varint_loop rd s (of_nat (7 * i)) (of_nat r) =
       (if unat b < 128 then Ok (of_nat (r + unat b mod 128 * 2 ^ (7 * i))) s'
        else varint_loop rd s' (of_nat (7 * Suc i)) (of_nat (r + unat b mod 128 * 2 ^ (7 * i))))"
    by (simp only: B_def B'_def R_def R'_def)
  with s' that show thesis by blast
qed

lemma varint_loop_form:
  assumes "good s" "content s = bs @ rest" "varint_form bs" "i + length bs \<le> 10" "r < 2 ^ (7 * i)"
  shows "\<exists>s'. varint_loop rd s (of_nat (7 * i)) (of_nat r) =
                Ok (of_nat (r + varint_value bs * 2 ^ (7 * i))) s' \<and>
              good s' \<and> content s' = rest \<and> is_errmsg s' = is_errmsg s"
  using assms
proof (induction bs arbitrary: s i r)
  case Nil
  then show ?case by simp
next
  case (Cons b bs)
  then have i: "i \<le> 9" and c: "content s = b # bs @ rest" by simp_all
  from varint_loop_step [OF Cons.prems(1) c i Cons.prems(5)] obtain s' where s':
    "good s'" "content s' = bs @ rest" "is_errmsg s' = is_errmsg s" and
    step: "varint_loop rd s (of_nat (7 * i)) (of_nat r) =
       (if unat b < 128 then Ok (of_nat (r + unat b mod 128 * 2 ^ (7 * i))) s'
        else varint_loop rd s' (of_nat (7 * Suc i)) (of_nat (r + unat b mod 128 * 2 ^ (7 * i))))" by blast
  show ?case
  proof (cases "unat b < 128")
    case True
    with Cons.prems(3) s' show ?thesis unfolding step by auto
  next
    case False
    with Cons.prems have "varint_form bs" "Suc i + length bs \<le> 10" by simp_all
    from Cons.IH [OF s'(1,2) this varint_accumulate(2) [OF Cons.prems(5), of b]] s'(3) False
    show ?thesis unfolding step by (auto simp: power_add algebra_simps)
  qed
qed

end

text \<open>Bytes with the continuation bit only move the loop on.\<close>

context byte_supplier
begin

lemma varint_loop_continued:
  assumes "good s" "content s = bs @ rest" "\<forall>b \<in> set bs. 128 \<le> unat b"
    "i + length bs \<le> 10" "r < 2 ^ (7 * i)"
  shows "\<exists>s' r'. varint_loop rd s (of_nat (7 * i)) (of_nat r) =
                   varint_loop rd s' (of_nat (7 * (i + length bs))) (of_nat r') \<and>
                 good s' \<and> content s' = rest \<and> r' < 2 ^ (7 * (i + length bs)) \<and>
                 is_errmsg s' = is_errmsg s"
  using assms
proof (induction bs arbitrary: s i r)
  case Nil
  then show ?case by auto
next
  case (Cons b bs)
  then have i: "i \<le> 9" and c: "content s = b # bs @ rest" and b: "\<not> unat b < 128" by auto
  from varint_loop_step [OF Cons.prems(1) c i Cons.prems(5)] b obtain s' where s':
    "good s'" "content s' = bs @ rest" "is_errmsg s' = is_errmsg s" and
    step: "varint_loop rd s (of_nat (7 * i)) (of_nat r) =
       varint_loop rd s' (of_nat (7 * Suc i)) (of_nat (r + unat b mod 128 * 2 ^ (7 * i)))" by auto
  from Cons.prems have "\<forall>b \<in> set bs. 128 \<le> unat b" "Suc i + length bs \<le> 10" by simp_all
  from Cons.IH [OF s'(1,2) this varint_accumulate(2) [OF Cons.prems(5), of b]] s'(3)
  show ?case unfolding step by simp
qed

lemma varint_loop_overflow:
  assumes "good s" "content s = bs @ rest" "\<forall>b \<in> set bs. 128 \<le> unat b" "length bs = 10"
  shows "\<exists>s'. pb_decode_varint rd s = Fail s'"
proof -
  from varint_loop_continued [OF assms(1-3), of 0 0] assms(4) obtain s' r' where
    "varint_loop rd s 0 0 = varint_loop rd s' 70 (of_nat r')" by auto
  then show ?thesis
    by (simp add: pb_decode_varint_def varint_loop.simps [of rd s' 70] PB_RETURN_ERROR_def)
qed

lemma pb_decode_varint_form:
  assumes "good s" "content s = bs @ rest" "varint_form bs" "length bs \<le> 10"
  shows "\<exists>s'. pb_decode_varint rd s = Ok (of_nat (varint_value bs)) s' \<and>
              good s' \<and> content s' = rest \<and> is_errmsg s' = is_errmsg s"
  using varint_loop_form [OF assms(1-3), of 0 0] assms(4) by (simp add: pb_decode_varint_def)

end

context byte_source
begin

lemma pb_decode_varint_eos:
  assumes "good s" "\<forall>b \<in> set (content s). 128 \<le> unat b" "length (content s) < 10"
  shows "\<exists>s'. pb_decode_varint rd s = Fail s'"
proof -
  from varint_loop_continued [OF assms(1), of "content s" "[]" 0 0] assms(2,3) obtain s' r' where
    v: "varint_loop rd s 0 0 = varint_loop rd s' (of_nat (7 * length (content s))) (of_nat r')"
    and s': "good s'" "content s' = []" by auto
  define B where "B = (of_nat (7 * length (content s)) :: u8)"
  have "\<not> 64 \<le> B"
    using of_nat_u8_7_ge [of "length (content s)" 64] assms(3) by (simp add: B_def del: of_nat_mult)
  moreover from readbyte_Nil [OF s'] obtain t where "pb_readbyte rd s' = Fail t" by blast
  ultimately show ?thesis
    unfolding pb_decode_varint_def v B_def [symmetric] by (simp add: varint_loop.simps [of rd s' B])
qed

text \<open>The 64-bit varint reader accepts exactly the varints of at most ten bytes.\<close>

lemma pb_decode_varint_total:
  assumes "good s"
  shows "(\<exists>bs rest s'. content s = bs @ rest \<and> varint_form bs \<and> length bs \<le> 10 \<and>
            pb_decode_varint rd s = Ok (of_nat (varint_value bs)) s' \<and> good s' \<and> content s' = rest) \<or>
         ((\<nexists>bs rest. content s = bs @ rest \<and> varint_form bs \<and> length bs \<le> 10) \<and>
          (\<exists>s'. pb_decode_varint rd s = Fail s'))"
proof (cases "\<exists>bs rest. content s = bs @ rest \<and> varint_form bs \<and> length bs \<le> 10")
  case True
  with pb_decode_varint_form [OF assms] show ?thesis by metis
next
  case none: False
  have "\<nexists>bs rest. take 10 (content s) = bs @ rest \<and> varint_form bs"
  proof (clarify)
    fix bs rest assume t: "take 10 (content s) = bs @ rest" and f: "varint_form bs"
    have "length (take 10 (content s)) \<le> 10" by simp
    then have "length bs \<le> 10" unfolding t by simp
    moreover have "content s = bs @ rest @ drop 10 (content s)"
      using append_take_drop_id [of 10 "content s"] t by simp
    ultimately show False using none f by blast
  qed
  with varint_split [of "take 10 (content s)"]
  have "\<forall>b \<in> set (take 10 (content s)). 128 \<le> unat b" by blast
  then have "\<exists>s'. pb_decode_varint rd s = Fail s'"
  proof (cases "length (content s) < 10")
    case True
    with \<open>\<forall>b \<in> set (take 10 (content s)). 128 \<le> unat b\<close> show ?thesis
      by (intro pb_decode_varint_eos [OF assms]) simp_all
  next
    case False
    then show ?thesis
      using \<open>\<forall>b \<in> set (take 10 (content s)). 128 \<le> unat b\<close>
      by (intro varint_loop_overflow [OF assms, of "take 10 (content s)" "drop 10 (content s)"])
        simp_all
  qed
  with none show ?thesis by blast
qed

end

section \<open>32-bit varints\<close>

lemma byte_and_70: "unat (b :: u8) < 128 \<Longrightarrow> (b AND 0x70) = 0 \<longleftrightarrow> unat b < 16"
proof -
  assume "unat b < 128"
  moreover have "\<forall>n \<in> set [0..<128]. ((of_nat n :: u8) AND 0x70 = 0) = (n < 16)" by code_simp
  ultimately show ?thesis by (metis atLeastLessThan_iff set_upt of_nat_unat ucast_id zero_le)
qed

lemma varint_value_snoc:
  "varint_value (bs @ [b]) = varint_value bs + 128 ^ length bs * (unat b mod 128)"
  by (induction bs) (simp_all add: algebra_simps)

lemma varint_form_last: "varint_form bs \<Longrightarrow> unat (last bs) < 128"
  by (induction bs) (auto split: if_splits)

lemma varint_form_not_Nil: "varint_form bs \<Longrightarrow> bs \<noteq> []"
  by auto

lemma varint32_last:
  assumes "varint_form bs" "length bs = 5"
  shows "(last bs AND 0x70) = 0 \<longleftrightarrow> varint_value bs < 2 ^ 32"
proof -
  have bs: "bs = butlast bs @ [last bs]" using varint_form_not_Nil [OF assms(1)] by simp
  have l: "unat (last bs) < 128" by (rule varint_form_last [OF assms(1)])
  have "varint_value (butlast bs) < 128 ^ 4"
    using varint_value_bound [of "butlast bs"] assms(2) by simp
  moreover have "varint_value bs = varint_value (butlast bs) + 128 ^ 4 * unat (last bs)"
    using varint_value_snoc [of "butlast bs" "last bs"] l assms(2) bs by simp
  ultimately have "varint_value bs < 2 ^ 32 \<longleftrightarrow> unat (last bs) < 16" by auto
  with byte_and_70 [OF l] show ?thesis by simp
qed

context byte_supplier
begin

lemma varint32_loop_step:
  assumes "good s" "content s = b # bs" "i \<le> 4" "r < 2 ^ (7 * i)"
  obtains s' where "good s'" "content s' = bs" "is_errmsg s' = is_errmsg s"
    "varint32_loop rd s (of_nat (7 * i)) (of_nat r) =
       (if unat b < 128
        then Ok (of_nat (r + unat b mod 128 * 2 ^ (7 * i)), of_nat (7 * Suc i), b) s'
        else varint32_loop rd s' (of_nat (7 * Suc i)) (of_nat (r + unat b mod 128 * 2 ^ (7 * i))))"
proof -
  from readbyte_Cons [OF assms(1,2)] obtain s' where s':
    "pb_readbyte rd s = Ok b s'" "good s'" "content s' = bs" "is_errmsg s' = is_errmsg s" by blast
  define B B' where "B = (of_nat (7 * i) :: u8)" and "B' = (of_nat (7 * Suc i) :: u8)"
  have B: "\<not> 32 \<le> B" "unat B = 7 * i" "B + 7 = B'"
    using of_nat_u8_7_ge [of i 32] of_nat_u8_7 [of i] assms(3)
    by (simp_all add: B_def B'_def del: of_nat_mult)
  define R where "R = (of_nat r :: u32)"
  define R' where "R' = (of_nat (r + unat b mod 128 * 2 ^ (7 * i)) :: u32)"
  have "R OR push_bit (7 * i) (ucast (b AND 0x7F)) = R'"
    unfolding R_def R'_def ucast_and_7F by (rule varint_accumulate(1) [OF assms(4)])
  with B s'(1) have
    "varint32_loop rd s B R = (if unat b < 128 then Ok (R', B', b) s' else varint32_loop rd s' B' R')"
    unfolding varint32_loop.simps [of rd s B R] by (simp add: byte_and_80)
  then have
    "varint32_loop rd s (of_nat (7 * i)) (of_nat r) =
       (if unat b < 128
        then Ok (of_nat (r + unat b mod 128 * 2 ^ (7 * i)), of_nat (7 * Suc i), b) s'
        else varint32_loop rd s' (of_nat (7 * Suc i)) (of_nat (r + unat b mod 128 * 2 ^ (7 * i))))"
    by (simp only: B_def B'_def R_def R'_def)
  with s' that show thesis by blast
qed

lemma varint32_loop_form:
  assumes "good s" "content s = bs @ rest" "varint_form bs" "i + length bs \<le> 5" "r < 2 ^ (7 * i)"
  shows "\<exists>s'. varint32_loop rd s (of_nat (7 * i)) (of_nat r) =
                Ok (of_nat (r + varint_value bs * 2 ^ (7 * i)), of_nat (7 * (i + length bs)), last bs) s' \<and>
              good s' \<and> content s' = rest \<and> is_errmsg s' = is_errmsg s"
  using assms
proof (induction bs arbitrary: s i r)
  case Nil
  then show ?case by simp
next
  case (Cons b bs)
  then have i: "i \<le> 4" and c: "content s = b # bs @ rest" by simp_all
  from varint32_loop_step [OF Cons.prems(1) c i Cons.prems(5)] obtain s' where s':
    "good s'" "content s' = bs @ rest" "is_errmsg s' = is_errmsg s" and
    step: "varint32_loop rd s (of_nat (7 * i)) (of_nat r) =
       (if unat b < 128
        then Ok (of_nat (r + unat b mod 128 * 2 ^ (7 * i)), of_nat (7 * Suc i), b) s'
        else varint32_loop rd s' (of_nat (7 * Suc i)) (of_nat (r + unat b mod 128 * 2 ^ (7 * i))))" by blast
  show ?case
  proof (cases "unat b < 128")
    case True
    with Cons.prems(3) s' show ?thesis unfolding step by auto
  next
    case False
    with Cons.prems have bs: "varint_form bs" "Suc i + length bs \<le> 5" by simp_all
    from Cons.IH [OF s'(1,2) this varint_accumulate(2) [OF Cons.prems(5), of b]] s'(3) False
      varint_form_not_Nil [OF bs(1)]
    show ?thesis unfolding step by (auto simp: power_add algebra_simps)
  qed
qed

text \<open>The reader on a varint of at most five bytes, and its overflow check.\<close>

lemma pb_decode_varint32_eof_form:
  assumes "good s" "content s = bs @ rest" "varint_form bs" "length bs \<le> 5" "varint_value bs < 2 ^ 32"
  shows "\<exists>s'. pb_decode_varint32_eof rd s eof = Ok (of_nat (varint_value bs)) (s', eof) \<and>
              good s' \<and> content s' = rest \<and> is_errmsg s' = is_errmsg s"
proof (cases bs)
  case Nil
  with assms(3) show ?thesis by simp
next
  case (Cons b cs)
  with assms(2) have c: "content s = b # cs @ rest" by simp
  from readbyte_Cons [OF assms(1) c] obtain s' where s':
    "pb_readbyte rd s = Ok b s'" "good s'" "content s' = cs @ rest" "is_errmsg s' = is_errmsg s" by blast
  show ?thesis
  proof (cases "unat b < 128")
    case True
    with assms(3) Cons s' show ?thesis
      by (auto simp: pb_decode_varint32_eof_def byte_and_80)
  next
    case False
    with assms(3,4) Cons have cs: "varint_form cs" "1 + length cs \<le> 5" by simp_all
    have "unat b mod 128 < 2 ^ (7 * 1)" by simp
    from varint32_loop_form [OF s'(2,3) cs this] s'(4) obtain t where
      t: "varint32_loop rd s' 7 (of_nat (unat b mod 128)) =
            Ok (of_nat (unat b mod 128 + varint_value cs * 128), of_nat (7 * length bs), last cs) t"
      "good t" "content t = rest" "is_errmsg t = is_errmsg s"
      using Cons by auto
    have last: "last bs = last cs" using Cons varint_form_not_Nil [OF cs(1)] by simp
    have "\<not> (of_nat (7 * length bs) = (35 :: u8) \<and> (last cs AND 0x70) \<noteq> 0)"
    proof
      assume a: "of_nat (7 * length bs) = (35 :: u8) \<and> (last cs AND 0x70) \<noteq> 0"
      then have "unat (of_nat (7 * length bs) :: u8) = unat (35 :: u8)" by (simp only:)
      then have "length bs = 5" using of_nat_u8_7 [of "length bs"] assms(4) by simp
      with varint32_last [OF assms(3)] assms(5) a last show False by simp
    qed
    with t s'(1) False Cons show ?thesis
      by (auto simp: pb_decode_varint32_eof_def byte_and_80 ucast_and_7F mult.commute)
  qed
qed

lemma pb_decode_varint32_form:
  assumes "good s" "content s = bs @ rest" "varint_form bs" "length bs \<le> 5" "varint_value bs < 2 ^ 32"
  shows "\<exists>s'. pb_decode_varint32 rd s = Ok (of_nat (varint_value bs)) s' \<and>
              good s' \<and> content s' = rest \<and> is_errmsg s' = is_errmsg s"
  using pb_decode_varint32_eof_form [OF assms, of False] by (auto simp: pb_decode_varint32_def)

end

text \<open>
  Negative 32-bit numbers are sent sign-extended to 64 bits, in ten bytes: five bytes with the
  low 35 bits, four bytes \<open>0xFF\<close> and a final \<open>0x01\<close>.
\<close>

primrec varint_low :: "nat \<Rightarrow> nat \<Rightarrow> u8 list" where
  "varint_low 0 n = []"
| "varint_low (Suc j) n = (of_nat (n mod 128) + 128) # varint_low j (n div 128)"

lemma varint_bytes_low:
  "0 < n div 128 ^ j \<Longrightarrow> varint_bytes n = varint_low j n @ varint_bytes (n div 128 ^ j)"
proof (induction j arbitrary: n)
  case (Suc j)
  have d: "n div 128 ^ Suc j = n div 128 div 128 ^ j" by (simp add: div_mult2_eq)
  with Suc.prems have "128 \<le> n"
    by (metis One_nat_def Suc_leI div_0 div_less less_nat_zero_code not_less)
  with Suc.IH [of "n div 128"] Suc.prems d show ?case by (simp add: varint_bytes_large)
qed simp

lemma varint_low_length [simp]: "length (varint_low j n) = j"
  by (induction j arbitrary: n) simp_all

lemma varint_low_value: "varint_value (varint_low j n) = n mod 128 ^ j"
  by (induction j arbitrary: n) (simp_all add: mod_mult2_eq)

lemma varint_low_cont: "\<forall>b \<in> set (varint_low j n). 128 \<le> unat b"
  by (induction j arbitrary: n) simp_all

context byte_supplier
begin

lemma varint32_loop_continued:
  assumes "good s" "content s = bs @ rest" "\<forall>b \<in> set bs. 128 \<le> unat b"
    "i + length bs \<le> 5" "r < 2 ^ (7 * i)"
  shows "\<exists>s'. varint32_loop rd s (of_nat (7 * i)) (of_nat r) =
                varint32_loop rd s' (of_nat (7 * (i + length bs)))
                  (of_nat (r + varint_value bs * 2 ^ (7 * i))) \<and>
              good s' \<and> content s' = rest \<and> is_errmsg s' = is_errmsg s"
  using assms
proof (induction bs arbitrary: s i r)
  case Nil
  then show ?case by auto
next
  case (Cons b bs)
  then have i: "i \<le> 4" and c: "content s = b # bs @ rest" and b: "\<not> unat b < 128" by auto
  from varint32_loop_step [OF Cons.prems(1) c i Cons.prems(5)] b obtain s' where s':
    "good s'" "content s' = bs @ rest" "is_errmsg s' = is_errmsg s" and
    step: "varint32_loop rd s (of_nat (7 * i)) (of_nat r) =
       varint32_loop rd s' (of_nat (7 * Suc i)) (of_nat (r + unat b mod 128 * 2 ^ (7 * i)))" by auto
  from Cons.prems have "\<forall>b \<in> set bs. 128 \<le> unat b" "Suc i + length bs \<le> 5" by simp_all
  from Cons.IH [OF s'(1,2) this varint_accumulate(2) [OF Cons.prems(5), of b]] s'(3)
  show ?case unfolding step by (auto simp: power_add algebra_simps)
qed

lemma varint32_loop_ext_step:
  assumes "good s" "content s = b # bs" "32 \<le> B" "drop_bit 31 R \<noteq> 0"
    "b = (if B < 63 then 0xFF else 0x01)"
  obtains s' where "good s'" "content s' = bs" "is_errmsg s' = is_errmsg s"
    "varint32_loop rd s B R = (if B < 63 then varint32_loop rd s' (B + 7) R else Ok (R, B + 7, b) s')"
proof -
  from readbyte_Cons [OF assms(1,2)] obtain s' where s':
    "pb_readbyte rd s = Ok b s'" "good s'" "content s' = bs" "is_errmsg s' = is_errmsg s" by blast
  moreover from s'(1) assms(3-5) have
    "varint32_loop rd s B R = (if B < 63 then varint32_loop rd s' (B + 7) R else Ok (R, B + 7, b) s')"
    by (simp add: varint32_loop.simps [of rd s B R])
  ultimately show thesis using that by blast
qed

lemma varint32_loop_sign:
  assumes "good s" "content s = [0xFF, 0xFF, 0xFF, 0xFF, 0x01] @ rest" "drop_bit 31 R \<noteq> 0"
  shows "\<exists>s'. varint32_loop rd s 35 R = Ok (R, 70, 1) s' \<and>
              good s' \<and> content s' = rest \<and> is_errmsg s' = is_errmsg s"
proof -
  from assms(2) have c0: "content s = 0xFF # [0xFF, 0xFF, 0xFF, 0x01] @ rest" by simp
  obtain s1 where s1: "good s1" "content s1 = 0xFF # [0xFF, 0xFF, 0x01] @ rest"
    "is_errmsg s1 = is_errmsg s" "varint32_loop rd s 35 R = varint32_loop rd s1 42 R"
    by (rule varint32_loop_ext_step [OF assms(1) c0 _ assms(3), of 35]) simp_all
  obtain s2 where s2: "good s2" "content s2 = 0xFF # [0xFF, 0x01] @ rest"
    "is_errmsg s2 = is_errmsg s1" "varint32_loop rd s1 42 R = varint32_loop rd s2 49 R"
    by (rule varint32_loop_ext_step [OF s1(1,2) _ assms(3), of 42]) simp_all
  obtain s3 where s3: "good s3" "content s3 = 0xFF # [0x01] @ rest"
    "is_errmsg s3 = is_errmsg s2" "varint32_loop rd s2 49 R = varint32_loop rd s3 56 R"
    by (rule varint32_loop_ext_step [OF s2(1,2) _ assms(3), of 49]) simp_all
  obtain s4 where s4: "good s4" "content s4 = 0x01 # rest"
    "is_errmsg s4 = is_errmsg s3" "varint32_loop rd s3 56 R = varint32_loop rd s4 63 R"
    by (rule varint32_loop_ext_step [OF s3(1,2) _ assms(3), of 56]) simp_all
  obtain s5 where s5: "good s5" "content s5 = rest"
    "is_errmsg s5 = is_errmsg s4" "varint32_loop rd s4 63 R = Ok (R, 70, 1) s5"
    by (rule varint32_loop_ext_step [OF s4(1,2) _ assms(3), of 63]) simp_all
  from s1 s2 s3 s4 s5 show ?thesis by auto
qed

lemma pb_decode_varint32_negative:
  assumes "good s" "content s = varint_bytes (2 ^ 64 - k) @ rest" "1 \<le> k" "k \<le> 2 ^ 31"
  shows "\<exists>s'. pb_decode_varint32 rd s = Ok (- of_nat k) s' \<and>
              good s' \<and> content s' = rest \<and> is_errmsg s' = is_errmsg s"
proof -
  define n :: nat where "n = 2 ^ 64 - k"
  have n5: "n div 128 ^ 5 = 2 ^ 29 - 1" and n5m: "n mod 128 ^ 5 = 2 ^ 35 - k"
  proof -
    have "n = (2 ^ 35 - k) + 2 ^ 35 * (2 ^ 29 - 1)" using assms(4) by (simp add: n_def)
    moreover have "(2 ^ 35 - k) < (2 ^ 35 :: nat)" using assms(3) by simp
    moreover have "(128 :: nat) ^ 5 = 2 ^ 35" by simp
    ultimately show "n div 128 ^ 5 = 2 ^ 29 - 1" "n mod 128 ^ 5 = 2 ^ 35 - k"
      by (simp_all only: div_mult_self2 mod_mult_self2 div_less mod_less)
  qed
  have "varint_bytes (2 ^ 29 - 1) = [0xFF, 0xFF, 0xFF, 0xFF, 0x01]"
    by (simp add: varint_bytes_large varint_bytes_small)
  then have bytes: "varint_bytes n = varint_low 5 n @ [0xFF, 0xFF, 0xFF, 0xFF, 0x01]"
    using varint_bytes_low [of n 5] n5 by simp
  define b where "b = (of_nat (n mod 128) + 128 :: u8)"
  define cs where "cs = varint_low 4 (n div 128)"
  have low: "varint_low 5 n = b # cs"
    using varint_low.simps(2) [of 4 n] by (simp add: b_def cs_def)
  with bytes assms(2) have c: "content s = b # cs @ [0xFF, 0xFF, 0xFF, 0xFF, 0x01] @ rest"
    by (simp add: n_def)
  from readbyte_Cons [OF assms(1) c] obtain s' where s': "pb_readbyte rd s = Ok b s'" "good s'"
    "content s' = cs @ [0xFF, 0xFF, 0xFF, 0xFF, 0x01] @ rest" "is_errmsg s' = is_errmsg s" by blast
  have b: "\<not> unat b < 128" "unat b mod 128 < 2 ^ (7 * 1)" by (simp_all add: b_def)
  have cs: "\<forall>b \<in> set cs. 128 \<le> unat b" "length cs = 4"
    by (simp_all add: cs_def varint_low_cont)
  have v: "unat b mod 128 + varint_value cs * 128 = 2 ^ 35 - k"
    using varint_low_value [of 5 n] n5m low by simp
  from varint32_loop_continued [OF s'(2,3) cs(1) _ b(2)] cs(2) v obtain s1 where s1:
    "varint32_loop rd s' 7 (of_nat (unat b mod 128)) = varint32_loop rd s1 35 (of_nat (2 ^ 35 - k))"
    "good s1" "content s1 = [0xFF, 0xFF, 0xFF, 0xFF, 0x01] @ rest" "is_errmsg s1 = is_errmsg s'"
    by (auto simp del: of_nat_add of_nat_mult)
  have R: "(of_nat (2 ^ 35 - k) :: u32) = - of_nat k"
  proof -
    have "(of_nat (2 ^ 35 - k) :: u32) = of_nat (2 ^ 35) - of_nat k" using assms(4) by simp
    also have "(of_nat (2 ^ 35) :: u32) = 0" by simp
    finally show ?thesis by simp
  qed
  have "drop_bit 31 (- of_nat k :: u32) \<noteq> 0"
  proof -
    have "(- of_nat k :: u32) = of_nat (2 ^ 32 - k)" using assms(4) by simp
    moreover have "unat (of_nat (2 ^ 32 - k) :: u32) = 2 ^ 32 - k"
      using assms(3) by (simp add: unat_of_nat take_bit_eq_mod)
    ultimately have u: "unat (- of_nat k :: u32) = 2 ^ 32 - k" by (simp only:)
    have "1 \<le> (2 ^ 32 - k) div (2 ^ 31 :: nat)" using assms(4)
      by (simp add: Suc_leI div_greater_zero_iff)
    then have "unat (drop_bit 31 (- of_nat k :: u32)) \<noteq> 0"
      unfolding unat_drop_bit_eq u by (simp only: drop_bit_eq_div)
    then show ?thesis by (metis unat_0)
  qed
  from s1(1) have l: "varint32_loop rd s' 7 (of_nat (unat b mod 128)) = varint32_loop rd s1 35 (- of_nat k)"
    by (simp only: R)
  from varint32_loop_sign [OF s1(2,3) \<open>drop_bit 31 (- of_nat k :: u32) \<noteq> 0\<close>] l s1(4) s' b(1)
  show ?thesis
    by (auto simp: pb_decode_varint32_def pb_decode_varint32_eof_def byte_and_80 ucast_and_7F)
qed

end

section \<open>The readers on memory streams, exactly\<close>

named_theorems wire_reads "a wire-level reader on a memory stream that starts with its encoding"

lemma pb_decode_varint_bytes:
  assumes "varint_form bs" "length bs \<le> 10" "length bs + K < 2 ^ 64"
  shows "pb_decode_varint rd (buf_istream (bs @ D) (length bs + K) e) =
           Ok (of_nat (varint_value bs)) (buf_istream D K e)"
  using exact.pb_decode_varint_form [OF exact_goodI [OF assms(3), of D e], of bs "[]" rd] assms(1,2)
  by (auto dest!: exact_end)

lemma pb_decode_varint_bytes_value [wire_reads]:
  assumes "n < 2 ^ 64" "length (varint_bytes n) + K < 2 ^ 64"
  shows "pb_decode_varint rd (buf_istream (varint_bytes n @ D) (length (varint_bytes n) + K) e) =
           Ok (of_nat n) (buf_istream D K e)"
  using pb_decode_varint_bytes [OF varint_form_bytes varint_bytes_length_64 [OF assms(1)] assms(2)]
  by simp

lemma pb_decode_varint32_eof_bytes_value [wire_reads]:
  assumes "n < 2 ^ 32" "length (varint_bytes n) + K < 2 ^ 64"
  shows "pb_decode_varint32_eof rd
           (buf_istream (varint_bytes n @ D) (length (varint_bytes n) + K) e) eof =
           Ok (of_nat n) (buf_istream D K e, eof)"
  using exact.pb_decode_varint32_eof_form
      [OF exact_goodI [OF assms(2), of D e], of "varint_bytes n" "[]" rd eof]
    varint_bytes_length_32 [OF assms(1)] assms(1)
  by (auto dest!: exact_end)

lemma pb_decode_varint32_bytes_value [wire_reads]:
  assumes "n < 2 ^ 32" "length (varint_bytes n) + K < 2 ^ 64"
  shows "pb_decode_varint32 rd (buf_istream (varint_bytes n @ D) (length (varint_bytes n) + K) e) =
           Ok (of_nat n) (buf_istream D K e)"
  by (simp add: pb_decode_varint32_def pb_decode_varint32_eof_bytes_value [OF assms])

lemma pb_decode_varint32_bytes_negative:
  assumes "1 \<le> k" "k \<le> 2 ^ 31" "length (varint_bytes (2 ^ 64 - k)) + K < 2 ^ 64"
  shows "pb_decode_varint32 rd
           (buf_istream (varint_bytes (2 ^ 64 - k) @ D) (length (varint_bytes (2 ^ 64 - k)) + K) e) =
           Ok (- of_nat k) (buf_istream D K e)"
  using exact.pb_decode_varint32_negative [OF exact_goodI [OF assms(3), of D e], of k "[]" rd] assms(1,2)
  by (auto dest!: exact_end)

lemma pb_read_exact [wire_reads]:
  assumes "length bs + K < 2 ^ 64" "unat n = length bs"
  shows "pb_read rd (buf_istream (bs @ D) (length bs + K) e) buf n =
           Ok (if buf then bs else []) (buf_istream D K e)"
  using assms by (simp add: pb_read_buf_word)

subsection \<open>Zigzag\<close>

lemma NOT_drop_bit_1: "NOT (of_nat n :: u64) = of_int (- int n - 1)"
  by (simp add: not_eq_complement)

lemma pb_decode_svarint_bytes [wire_reads]:
  assumes "zigzag i < 2 ^ 64" "length (varint_bytes (zigzag i)) + K < 2 ^ 64"
  shows "pb_decode_svarint rd
           (buf_istream (varint_bytes (zigzag i) @ D) (length (varint_bytes (zigzag i)) + K) e) =
           Ok (of_int i) (buf_istream D K e)"
proof -
  define n where "n = zigzag i"
  have i: "i = unzigzag n" by (simp add: n_def)
  have d: "drop_bit 1 (of_nat n :: u64) = of_nat (n div 2)"
  proof (rule word_unat_eq_iff [THEN iffD2])
    have "n div 2 < 2 ^ 64" using assms(1) by (simp add: n_def)
    with assms(1) show "unat (drop_bit 1 (of_nat n :: u64)) = unat (of_nat (n div 2) :: u64)"
      by (simp only: unat_drop_bit_eq uint64_small n_def) (simp add: drop_bit_eq_div)
  qed
  have o: "(of_nat n :: u64) AND 1 \<noteq> 0 \<longleftrightarrow> odd n"
    by (simp add: and_one_eq mod_2_eq_odd)
  have "of_int (unzigzag n) =
      (if odd n then NOT (of_nat (n div 2)) else of_nat (n div 2) :: u64)"
    by (simp add: unzigzag_def NOT_drop_bit_1)
  then show ?thesis
    using pb_decode_varint_bytes_value [OF assms, of rd D e] o d
    by (simp add: pb_decode_svarint_def i [symmetric] n_def [symmetric] del: drop_bit_of_nat)
qed

subsection \<open>Fixed-width numbers\<close>

lemma ucast_u8: "(ucast (b :: u8) :: 'a::len word) = of_nat (unat b)"
  by simp

lemma le_or4:
  "(push_bit 0 (ucast b0) OR push_bit 8 (ucast b1) OR push_bit 16 (ucast b2) OR push_bit 24 (ucast b3)
     :: 'a::len word) = of_nat (le_value [b0, b1, b2, b3 :: u8])"
proof -
  have b: "unat b0 < 256" "unat b1 < 256" "unat b2 < 256" by (rule unat_u8_less)+
  have 0: "unat b0 < 2 ^ 8" using b by simp
  have 1: "unat b0 + unat b1 * 2 ^ 8 < 2 ^ 16" using b by (simp del: unat_u8_less)
  have 2: "unat b0 + unat b1 * 2 ^ 8 + unat b2 * 2 ^ 16 < 2 ^ 24" using b by (simp del: unat_u8_less)
  show ?thesis
    unfolding ucast_u8 push_bit_0_id id_apply
    by (simp only: or.assoc [symmetric] of_nat_or_push_bit [OF 0] of_nat_or_push_bit [OF 1]
        of_nat_or_push_bit [OF 2]) simp
qed

lemma pb_decode_fixed32_bytes [wire_reads]:
  assumes "length bs = 4" "4 + K < 2 ^ 64"
  shows "pb_decode_fixed32 rd (buf_istream (bs @ D) (4 + K) e) =
           Ok (of_nat (le_value bs)) (buf_istream D K e)"
proof -
  from assms(1) obtain b0 b1 b2 b3 where "bs = [b0, b1, b2, b3]"
    by (auto simp: numeral_eq_Suc length_Suc_conv)
  then have "push_bit 0 (ucast (bs ! 0)) OR push_bit 8 (ucast (bs ! 1)) OR
      push_bit 16 (ucast (bs ! 2)) OR push_bit 24 (ucast (bs ! 3)) = (of_nat (le_value bs) :: u32)"
    using le_or4 [of b0 b1 b2 b3, where 'a = 32] by simp
  moreover have "pb_read rd (buf_istream (bs @ D) (4 + K) e) True 4 = Ok bs (buf_istream D K e)"
    using pb_read_exact [of bs K 4 rd D e True] assms by simp
  ultimately show ?thesis by (simp only: pb_decode_fixed32_def c_then.simps)
qed

lemma le_or8:
  "(push_bit 0 (ucast b0) OR push_bit 8 (ucast b1) OR push_bit 16 (ucast b2) OR push_bit 24 (ucast b3) OR
    push_bit 32 (ucast b4) OR push_bit 40 (ucast b5) OR push_bit 48 (ucast b6) OR push_bit 56 (ucast b7)
     :: 'a::len word) = of_nat (le_value [b0, b1, b2, b3, b4, b5, b6, b7 :: u8])"
proof -
  have b: "unat b0 < 256" "unat b1 < 256" "unat b2 < 256" "unat b3 < 256" "unat b4 < 256"
    "unat b5 < 256" "unat b6 < 256" by (rule unat_u8_less)+
  define v where "v k = le_value (take k [b0, b1, b2, b3, b4, b5, b6, b7])" for k
  have v: "v 1 = unat b0" "v 2 = v 1 + unat b1 * 2 ^ 8" "v 3 = v 2 + unat b2 * 2 ^ 16"
    "v 4 = v 3 + unat b3 * 2 ^ 24" "v 5 = v 4 + unat b4 * 2 ^ 32" "v 6 = v 5 + unat b5 * 2 ^ 40"
    "v 7 = v 6 + unat b6 * 2 ^ 48" "v 8 = v 7 + unat b7 * 2 ^ 56"
    by (simp_all add: v_def)
  have l: "v k < 2 ^ (8 * k)" if "k \<le> 8" for k
    using le_value_bound [of "take k [b0, b1, b2, b3, b4, b5, b6, b7]"] that
    by (simp add: v_def power_mult)
  have s: "(of_nat (v k) OR push_bit n (of_nat (unat (b :: u8))) :: 'a word) = of_nat (v k + unat b * 2 ^ n)"
    if "n = 8 * k" "k \<le> 8" for k n b
    unfolding that(1) by (rule of_nat_or_push_bit [OF l [OF that(2)]])
  have "le_value [b0, b1, b2, b3, b4, b5, b6, b7] = v 8" by (simp add: v_def)
  then show ?thesis
    unfolding ucast_u8 push_bit_0_id id_apply
    by (simp only: or.assoc [symmetric] v(1) [symmetric] s [of 8 1] s [of 16 2] s [of 24 3]
        s [of 32 4] s [of 40 5] s [of 48 6] s [of 56 7] v(2-8) [symmetric])
qed

lemma pb_decode_fixed64_bytes [wire_reads]:
  assumes "length bs = 8" "8 + K < 2 ^ 64"
  shows "pb_decode_fixed64 rd (buf_istream (bs @ D) (8 + K) e) =
           Ok (of_nat (le_value bs)) (buf_istream D K e)"
proof -
  from assms(1) obtain b0 b1 b2 b3 b4 b5 b6 b7 where "bs = [b0, b1, b2, b3, b4, b5, b6, b7]"
    by (auto simp: numeral_eq_Suc length_Suc_conv)
  then have "push_bit 0 (ucast (bs ! 0)) OR push_bit 8 (ucast (bs ! 1)) OR
      push_bit 16 (ucast (bs ! 2)) OR push_bit 24 (ucast (bs ! 3)) OR
      push_bit 32 (ucast (bs ! 4)) OR push_bit 40 (ucast (bs ! 5)) OR
      push_bit 48 (ucast (bs ! 6)) OR push_bit 56 (ucast (bs ! 7)) = (of_nat (le_value bs) :: u64)"
    using le_or8 [of b0 b1 b2 b3 b4 b5 b6 b7, where 'a = 64] by simp
  moreover have "pb_read rd (buf_istream (bs @ D) (8 + K) e) True 8 = Ok bs (buf_istream D K e)"
    using pb_read_exact [of bs K 8 rd D e True] assms by simp
  ultimately show ?thesis by (simp only: pb_decode_fixed64_def c_then.simps)
qed

section \<open>Tags, skipping and substreams\<close>

lemma pb_decode_tag_bytes [wire_reads]:
  assumes "0 < n" "n < 2 ^ 32" "length (varint_bytes n) + K < 2 ^ 64"
  shows "pb_decode_tag rd (buf_istream (varint_bytes n @ D) (length (varint_bytes n) + K) e) =
           Ok (of_nat (n mod 8), of_nat (n div 8)) (buf_istream D K e, False)"
proof -
  have u: "unat (of_nat n :: u32) = n" using assms(2) by (simp add: unat_of_nat take_bit_eq_mod)
  then have nz: "(of_nat n :: u32) \<noteq> 0" using assms(1) by (metis unat_0 less_irrefl)
  have "unat ((of_nat n :: u32) AND 7) = n mod 8"
  proof -
    have "(of_nat n :: u32) AND 7 = take_bit 3 (of_nat n)"
      by (simp add: take_bit_eq_mask mask_eq_exp_minus_1)
    then have "unat ((of_nat n :: u32) AND 7) = take_bit 3 n"
      by (simp only: unsigned_take_bit_eq u)
    then show ?thesis by (simp add: take_bit_eq_mod)
  qed
  then have a: "(of_nat n :: u32) AND 7 = of_nat (n mod 8)" by (metis of_nat_unat ucast_id)
  have "unat (drop_bit 3 (of_nat n :: u32)) = n div 8"
    by (simp only: unat_drop_bit_eq u) (simp add: drop_bit_eq_div)
  then have d: "drop_bit 3 (of_nat n :: u32) = of_nat (n div 8)" by (metis of_nat_unat ucast_id)
  show ?thesis
    unfolding pb_decode_tag_def pb_decode_varint32_eof_bytes_value [OF assms(2,3)] c_then.simps split
    using nz a d by (simp only: if_False)
qed

lemma pb_decode_tag_end:
  "pb_decode_tag rd (buf_istream d 0 e) = Fail (buf_istream d 0 (first_error e ''end-of-stream''), True)"
  by (simp add: pb_decode_tag_def pb_decode_varint32_eof_def pb_readbyte_buf)

lemma pb_decode_tag_zero:
  "Suc K < 2 ^ 64 \<Longrightarrow>
     pb_decode_tag rd (buf_istream (0 # D) (Suc K) e) = Fail (buf_istream D K e, True)"
  by (simp add: pb_decode_tag_def pb_decode_varint32_eof_def pb_readbyte_buf)

lemma pb_skip_varint_bytes [wire_reads]:
  "varint_form bs \<Longrightarrow> length bs + K < 2 ^ 64 \<Longrightarrow>
     pb_skip_varint rd (buf_istream (bs @ D) (length bs + K) e) = Ok () (buf_istream D K e)"
proof (induction bs)
  case (Cons b bs)
  have "pb_read rd (buf_istream ((b # bs) @ D) (length (b # bs) + K) e) True 1 =
      Ok [b] (buf_istream (bs @ D) (length bs + K) e)"
    using pb_read_exact [of "[b]" "length bs + K" 1 rd "bs @ D" e True] Cons.prems(2) by simp
  with Cons show ?case
    by (subst pb_skip_varint.simps) (auto simp: byte_and_80 split: if_splits)
qed simp

lemma pb_make_string_substream_bytes [wire_reads]:
  assumes "n < 2 ^ 32" "n \<le> K" "length (varint_bytes n) + K < 2 ^ 64"
  shows "pb_make_string_substream rd
           (buf_istream (varint_bytes n @ D) (length (varint_bytes n) + K) e) =
           Ok (buf_istream D n e) (buf_istream D (K - n) e)"
proof -
  have c: "(ucast (of_nat n :: u32) :: u64) = of_nat n"
    using assms(1) by (simp add: word_unat_eq_iff unat_of_nat take_bit_eq_mod unsigned_ucast_eq)
  have "\<not> (of_nat K :: u64) < of_nat n" using assms by (simp add: word_less_nat_alt)
  moreover have "(of_nat K :: u64) - of_nat n = of_nat (K - n)" using assms(2) by simp
  ultimately show ?thesis
    by (simp only: pb_make_string_substream_def pb_decode_varint32_bytes_value [OF assms(1,3)]
        c_then.simps Let_def c buf_istream_sel if_False buf_istream_update)
qed

lemma pb_close_string_substream_buf [wire_reads]:
  assumes "k \<le> length d" "k < 2 ^ 64"
  shows "pb_close_string_substream rd (buf_istream d' K e') (buf_istream d k e) =
           Ok () (buf_istream (drop k d) K e)"
proof (cases "k = 0")
  case True
  then show ?thesis by (simp add: pb_close_string_substream_def)
next
  case False
  then show ?thesis using assms
    by (simp add: pb_close_string_substream_def of_nat_64_eq_0 pb_read_buf)
qed

lemma pb_skip_string_bytes [wire_reads]:
  assumes "n < 2 ^ 32" "n \<le> K" "n \<le> length D" "length (varint_bytes n) + K < 2 ^ 64"
  shows "pb_skip_string rd (buf_istream (varint_bytes n @ D) (length (varint_bytes n) + K) e) =
           Ok () (buf_istream (drop n D) (K - n) e)"
proof -
  have c: "unat (ucast (of_nat n :: u32) :: u64) = n"
    using assms(1) by (simp add: unat_of_nat take_bit_eq_mod unsigned_ucast_eq)
  show ?thesis using assms
    by (simp add: pb_skip_string_def pb_decode_varint32_bytes_value [OF assms(1,4)] pb_read_buf_word c)
qed

end
