(* ===== verification/Pb_Ostream.thy ===== *)
theory Pb_Ostream
  imports Pb_Types Pb_Varint
begin

unbundle bit_operations_syntax

text \<open>
  Output streams: \<open>pb_ostream_t\<close> of \<open>pb_encode.h\<close>, \<open>buf_write\<close>,
  \<open>pb_write\<close> and the helper functions of \<open>pb_encode.c\<close> that write varints,
  tags, fixed-width numbers and strings.

  The \<open>state\<close> pointer of a memory stream is the list of the bytes written so far and the
  size of the buffer object; a write past the object is \<open>Stuck\<close>. A sizing stream has the
  callback NULL and only counts. A custom stream's callback is the parameter \<open>wr\<close>.
\<close>

section \<open>Data\<close>

datatype ostream_callback = Null_write | Buf_write | User_write

datatype 'u ostream_state = Null_state | Out_state "pb_byte_t list" nat | User_out 'u

record 'u pb_ostream_t =
  os_callback :: ostream_callback
  os_state :: "'u ostream_state"
  max_size :: u64
  bytes_written :: u64
  os_errmsg :: "string option"

type_synonym 'u write_callback = "'u \<Rightarrow> pb_byte_t list \<Rightarrow> bool \<times> 'u"

definition PB_SET_OERROR :: "'u pb_ostream_t \<Rightarrow> string \<Rightarrow> 'u pb_ostream_t" where
  "PB_SET_OERROR s msg =
     s\<lparr>os_errmsg := (case os_errmsg s of None \<Rightarrow> Some msg | Some e \<Rightarrow> Some e)\<rparr>"

definition PB_RETURN_OERROR :: "'u pb_ostream_t \<Rightarrow> string \<Rightarrow> ('a, 'u pb_ostream_t) outcome" where
  "PB_RETURN_OERROR s msg = Fail (PB_SET_OERROR s msg)"

definition PB_OSTREAM_SIZING :: "'u pb_ostream_t" where
  "PB_OSTREAM_SIZING =
     \<lparr>os_callback = Null_write, os_state = Null_state, max_size = 0, bytes_written = 0,
      os_errmsg = None\<rparr>"

section \<open>Writing\<close>

definition buf_write :: "'u pb_ostream_t \<Rightarrow> pb_byte_t list \<Rightarrow> u64 \<Rightarrow> (unit, 'u pb_ostream_t) outcome" where
  "buf_write s buf count =
     (case os_state s of
        Out_state dest room \<Rightarrow>
          if unat count \<le> length buf \<and> length dest + unat count \<le> room
          then Ok () (s\<lparr>os_state := Out_state (dest @ take (unat count) buf) room\<rparr>)
          else Stuck
      | _ \<Rightarrow> Stuck)"

text \<open>The buffer argument is the object \<open>buf\<close> of \<open>bufsize\<close> or more bytes.\<close>

definition pb_ostream_from_buffer :: "nat \<Rightarrow> u64 \<Rightarrow> 'u pb_ostream_t" where
  "pb_ostream_from_buffer objsize bufsize =
     \<lparr>os_callback = Buf_write, os_state = Out_state [] objsize, max_size = bufsize,
      bytes_written = 0, os_errmsg = None\<rparr>"

text \<open>The call \<open>stream->callback(stream, buf, count)\<close> for a non-NULL callback.\<close>

definition call_write ::
  "'u write_callback \<Rightarrow> 'u pb_ostream_t \<Rightarrow> pb_byte_t list \<Rightarrow> u64 \<Rightarrow> (unit, 'u pb_ostream_t) outcome" where
  "call_write wr s buf count =
     (case os_callback s of
        Null_write \<Rightarrow> Stuck
      | Buf_write \<Rightarrow> buf_write s buf count
      | User_write \<Rightarrow>
          (case os_state s of
             User_out u \<Rightarrow>
               if unat count \<le> length buf
               then (case wr u (take (unat count) buf) of
                       (True, u') \<Rightarrow> Ok () (s\<lparr>os_state := User_out u'\<rparr>)
                     | (False, u') \<Rightarrow> Fail (s\<lparr>os_state := User_out u'\<rparr>))
               else Stuck
           | _ \<Rightarrow> Stuck))"

definition pb_write ::
  "'u write_callback \<Rightarrow> 'u pb_ostream_t \<Rightarrow> pb_byte_t list \<Rightarrow> u64 \<Rightarrow> (unit, 'u pb_ostream_t) outcome" where
  "pb_write wr s buf count =
     (if os_callback s \<noteq> Null_write
      then if bytes_written s + count > max_size s then PB_RETURN_OERROR s ''stream full''
           else (case call_write wr s buf count of
                   Fail s' \<Rightarrow> PB_RETURN_OERROR s' ''io error''
                 | Stuck \<Rightarrow> Stuck
                 | Ok _ s' \<Rightarrow> Ok () (s'\<lparr>bytes_written := bytes_written s' + count\<rparr>))
      else Ok () (s\<lparr>bytes_written := bytes_written s + count\<rparr>))"

section \<open>Numbers\<close>

text \<open>The \<open>while (value)\<close> loop of \<open>pb_encode_varint\<close>: the bytes it puts in
  \<open>buffer\<close>.\<close>

function varint_buffer :: "u64 \<Rightarrow> pb_byte_t list" where
  "varint_buffer val =
     (if val = 0 then [] else ucast ((val AND 0x7F) OR 0x80) # varint_buffer (drop_bit 7 val))"
  by pat_completeness auto
termination
proof (relation "measure unat")
  fix val :: u64
  assume "val \<noteq> 0"
  then have "0 < unat val" by (simp add: unat_gt_0)
  moreover have "unat (drop_bit 7 val) = unat val div 128"
    by (simp only: unat_drop_bit_eq) (simp add: drop_bit_eq_div)
  ultimately show "(drop_bit 7 val, val) \<in> measure unat" by simp
qed simp

declare varint_buffer.simps [simp del]

definition pb_encode_varint ::
  "'u write_callback \<Rightarrow> 'u pb_ostream_t \<Rightarrow> u64 \<Rightarrow> (unit, 'u pb_ostream_t) outcome" where
  "pb_encode_varint wr s val =
     (if val \<le> 0x7F then pb_write wr s [ucast val] 1
      else let buffer = varint_buffer val; i = length buffer in
           if i > 10 then Stuck
           else pb_write wr s (buffer[i - 1 := (buffer ! (i - 1)) AND 0x7F]) (of_nat i))"

definition pb_encode_svarint ::
  "'u write_callback \<Rightarrow> 'u pb_ostream_t \<Rightarrow> u64 \<Rightarrow> (unit, 'u pb_ostream_t) outcome" where
  "pb_encode_svarint wr s val =
     (let zigzagged = (if sint val < 0 then NOT (push_bit 1 val) else push_bit 1 val)
      in pb_encode_varint wr s zigzagged)"

definition pb_encode_fixed32 ::
  "'u write_callback \<Rightarrow> 'u pb_ostream_t \<Rightarrow> u32 \<Rightarrow> (unit, 'u pb_ostream_t) outcome" where
  "pb_encode_fixed32 wr s val =
     pb_write wr s
       [ucast (val AND 0xFF), ucast (drop_bit 8 val AND 0xFF),
        ucast (drop_bit 16 val AND 0xFF), ucast (drop_bit 24 val AND 0xFF)] 4"

definition pb_encode_fixed64 ::
  "'u write_callback \<Rightarrow> 'u pb_ostream_t \<Rightarrow> u64 \<Rightarrow> (unit, 'u pb_ostream_t) outcome" where
  "pb_encode_fixed64 wr s val =
     pb_write wr s
       [ucast (val AND 0xFF), ucast (drop_bit 8 val AND 0xFF),
        ucast (drop_bit 16 val AND 0xFF), ucast (drop_bit 24 val AND 0xFF),
        ucast (drop_bit 32 val AND 0xFF), ucast (drop_bit 40 val AND 0xFF),
        ucast (drop_bit 48 val AND 0xFF), ucast (drop_bit 56 val AND 0xFF)] 8"

section \<open>Tags and strings\<close>

definition pb_encode_tag ::
  "'u write_callback \<Rightarrow> 'u pb_ostream_t \<Rightarrow> pb_wire_type_t \<Rightarrow> u32 \<Rightarrow> (unit, 'u pb_ostream_t) outcome" where
  "pb_encode_tag wr s wiretype field_number =
     pb_encode_varint wr s (push_bit 3 (ucast field_number) OR ucast wiretype)"

definition pb_encode_tag_for_field ::
  "'u write_callback \<Rightarrow> 'u pb_ostream_t \<Rightarrow> pb_field_t \<Rightarrow> (unit, 'u pb_ostream_t) outcome" where
  "pb_encode_tag_for_field wr s field =
     (let lt = PB_LTYPE (type field) in
      if lt = PB_LTYPE_VARINT \<or> lt = PB_LTYPE_UVARINT \<or> lt = PB_LTYPE_SVARINT
      then pb_encode_tag wr s PB_WT_VARINT (tag field)
      else if lt = PB_LTYPE_FIXED32 then pb_encode_tag wr s PB_WT_32BIT (tag field)
      else if lt = PB_LTYPE_FIXED64 then pb_encode_tag wr s PB_WT_64BIT (tag field)
      else if lt = PB_LTYPE_BYTES \<or> lt = PB_LTYPE_STRING \<or> lt = PB_LTYPE_SUBMESSAGE \<or>
              lt = PB_LTYPE_FIXED_LENGTH_BYTES
      then pb_encode_tag wr s PB_WT_STRING (tag field)
      else PB_RETURN_OERROR s ''invalid field type'')"

definition pb_encode_string ::
  "'u write_callback \<Rightarrow> 'u pb_ostream_t \<Rightarrow> pb_byte_t list \<Rightarrow> u64 \<Rightarrow> (unit, 'u pb_ostream_t) outcome" where
  "pb_encode_string wr s buffer sz =
     c_then (pb_encode_varint wr s sz) (\<lambda>_ s. pb_write wr s buffer sz)"

section \<open>Memory streams and sizing streams\<close>

definition buf_ostream :: "pb_byte_t list \<Rightarrow> nat \<Rightarrow> nat \<Rightarrow> nat \<Rightarrow> string option \<Rightarrow> 'u pb_ostream_t" where
  "buf_ostream out room M w e =
     \<lparr>os_callback = Buf_write, os_state = Out_state out room, max_size = of_nat M,
      bytes_written = of_nat w, os_errmsg = e\<rparr>"

definition sizing_ostream :: "nat \<Rightarrow> string option \<Rightarrow> 'u pb_ostream_t" where
  "sizing_ostream w e =
     \<lparr>os_callback = Null_write, os_state = Null_state, max_size = 0, bytes_written = of_nat w,
      os_errmsg = e\<rparr>"

lemma pb_ostream_from_buffer_eq:
  "pb_ostream_from_buffer n m = buf_ostream [] n (unat m) 0 None"
  by (simp add: pb_ostream_from_buffer_def buf_ostream_def)

lemma PB_OSTREAM_SIZING_eq: "PB_OSTREAM_SIZING = sizing_ostream 0 None"
  by (simp add: PB_OSTREAM_SIZING_def sizing_ostream_def)

lemma ostream_sel [simp]:
  "os_callback (buf_ostream out room M w e) = Buf_write"
  "os_state (buf_ostream out room M w e) = Out_state out room"
  "max_size (buf_ostream out room M w e) = of_nat M"
  "bytes_written (buf_ostream out room M w e) = of_nat w"
  "os_errmsg (buf_ostream out room M w e) = e"
  "os_callback (sizing_ostream w e) = Null_write"
  "bytes_written (sizing_ostream w e) = of_nat w"
  "os_errmsg (sizing_ostream w e) = e"
  by (simp_all add: buf_ostream_def sizing_ostream_def)

lemma pb_write_sizing:
  "pb_write wr (sizing_ostream w e) buf n = Ok () (sizing_ostream (w + unat n) e)"
  by (simp add: pb_write_def sizing_ostream_def)

text \<open>A memory stream whose buffer object has the room that \<open>max_size\<close> promises.\<close>

definition os_room :: "pb_byte_t list \<Rightarrow> nat \<Rightarrow> nat \<Rightarrow> nat \<Rightarrow> bool" where
  "os_room out room M w \<longleftrightarrow> w \<le> M \<and> M < 2 ^ 64 \<and> length out + M \<le> room + w"

lemma pb_write_buf:
  assumes "os_room out room M w" "w + length bs < 2 ^ 64" "unat n = length bs"
  shows "pb_write wr (buf_ostream out room M w e) bs n =
     (if w + length bs \<le> M then Ok () (buf_ostream (out @ bs) room M (w + length bs) e)
      else Fail (buf_ostream out room M w (case e of None \<Rightarrow> Some ''stream full'' | Some m \<Rightarrow> Some m)))"
proof -
  have "of_nat w + n = (of_nat (w + length bs) :: u64)" using assms(3) by (metis of_nat_add of_nat_unat ucast_id)
  moreover have "(of_nat M :: u64) < of_nat (w + length bs) \<longleftrightarrow> \<not> w + length bs \<le> M"
    using assms by (auto simp: word_less_nat_alt os_room_def simp del: of_nat_add)
  moreover have "w + length bs \<le> M \<Longrightarrow> length out + length bs \<le> room"
    using assms by (simp add: os_room_def)
  ultimately show ?thesis using assms
    by (auto simp: pb_write_def PB_RETURN_OERROR_def PB_SET_OERROR_def call_write_def buf_write_def
        buf_ostream_def os_room_def split: option.split simp del: of_nat_add)
qed

end
