(* ===== verification/Pb_Encode_Wire_Correct.thy ===== *)
theory Pb_Encode_Wire_Correct
  imports Pb_Ostream
begin

unbundle bit_operations_syntax

text \<open>
  Functional correctness of the wire-level writers. They are proved once over the interface of
  a byte sink, which memory streams and sizing streams implement: what a writer puts out does
  not depend on the kind of stream, so the size that a sizing stream counts is the size of the
  output.
\<close>

section \<open>The interface of a byte sink\<close>

text \<open>
  \<open>put s bs\<close> is the stream after the bytes \<open>bs\<close>; \<open>fits s n\<close> says that
  \<open>n\<close> more bytes fit. A block of less than \<open>2 ^ 63\<close> bytes that does not fit makes
  the write fail with a message.
\<close>

locale byte_sink =
  fixes wr :: "'u write_callback"
    and good :: "'u pb_ostream_t \<Rightarrow> bool"
    and put :: "'u pb_ostream_t \<Rightarrow> pb_byte_t list \<Rightarrow> 'u pb_ostream_t"
    and fits :: "'u pb_ostream_t \<Rightarrow> nat \<Rightarrow> bool"
  assumes write_fits:
      "good s \<Longrightarrow> unat n = length bs \<Longrightarrow> fits s (length bs) \<Longrightarrow>
         pb_write wr s bs n = Ok () (put s bs) \<and> good (put s bs)"
    and write_full:
      "good s \<Longrightarrow> unat n = length bs \<Longrightarrow> length bs < 2 ^ 63 \<Longrightarrow> \<not> fits s (length bs) \<Longrightarrow>
         \<exists>s'. pb_write wr s bs n = Fail s' \<and> os_errmsg s' \<noteq> None"
    and put_append: "put (put s a) b = put s (a @ b)"
    and fits_append: "good s \<Longrightarrow> fits s (length a + k) \<longleftrightarrow> fits s (length a) \<and> fits (put s a) k"
begin

definition emits :: "'u pb_ostream_t \<Rightarrow> pb_byte_t list \<Rightarrow> (unit, 'u pb_ostream_t) outcome \<Rightarrow> bool" where
  "emits s bs r \<longleftrightarrow>
     (if fits s (length bs) then r = Ok () (put s bs) \<and> good (put s bs)
      else \<exists>s'. r = Fail s' \<and> os_errmsg s' \<noteq> None)"

lemma emits_write:
  "good s \<Longrightarrow> unat n = length bs \<Longrightarrow> length bs < 2 ^ 63 \<Longrightarrow> emits s bs (pb_write wr s bs n)"
  unfolding emits_def using write_fits [of s n bs] write_full [of s n bs] by auto

lemma emits_then:
  assumes "good s" "emits s a r" "good (put s a) \<Longrightarrow> emits (put s a) b (k () (put s a))"
  shows "emits s (a @ b) (c_then r k)"
  using assms fits_append [of s a "length b"] put_append [of s a b]
  by (cases r) (auto simp: emits_def split: if_splits)

lemma emits_Ok: "emits s bs r \<Longrightarrow> fits s (length bs) \<Longrightarrow> r = Ok () (put s bs)"
  by (simp add: emits_def)

lemma emits_good: "emits s bs r \<Longrightarrow> r = Ok a s' \<Longrightarrow> s' = put s bs \<and> good s' \<and> fits s (length bs)"
  by (auto simp: emits_def split: if_splits)

lemma emits_not_Stuck: "emits s bs r \<Longrightarrow> r \<noteq> Stuck"
  by (auto simp: emits_def split: if_splits)

end

section \<open>The bytes of the writers\<close>

lemma u64_drop_bit_7: "unat (drop_bit 7 v :: u64) = unat v div 128"
  by (simp only: unat_drop_bit_eq) (simp add: drop_bit_eq_div)

lemma u64_and_7F: "v AND 0x7F = (of_nat (unat v mod 128) :: u64)"
proof -
  have "v AND 0x7F = take_bit 7 v" by (simp add: take_bit_eq_mask mask_eq_exp_minus_1)
  then have "unat (v AND 0x7F) = unat v mod 128"
    by (simp only: unsigned_take_bit_eq) (simp add: take_bit_eq_mod)
  then show ?thesis by (metis of_nat_unat ucast_id)
qed

lemma u64_cont_byte: "(ucast ((v AND 0x7F) OR 0x80 :: u64) :: u8) = of_nat (unat v mod 128) + 128"
proof -
  have "(of_nat (unat v mod 128) OR push_bit 7 (of_nat 1) :: u64) =
          of_nat (unat v mod 128 + 1 * 2 ^ 7)"
    by (rule of_nat_or_push_bit) simp
  then have "(v AND 0x7F) OR 0x80 = of_nat (unat v mod 128 + 128)"
    by (simp add: u64_and_7F)
  then have "(ucast ((v AND 0x7F) OR 0x80) :: u8) = of_nat (unat v mod 128 + 128)"
    by (simp add: unsigned_of_nat of_nat_take_bit take_bit_word_eq_self del: of_nat_add)
  then show ?thesis by simp
qed

lemma u8_stop_byte: "n < 128 \<Longrightarrow> (of_nat n + 128 :: u8) AND 0x7F = of_nat n"
proof -
  assume "n < 128"
  then have "n mod 128 = n" by simp
  then have "unat ((of_nat n + 128 :: u8) AND 0x7F) = n"
    using byte_and_7F [of "of_nat n + 128"] unat_cont_byte [of n] by simp
  then show ?thesis by (metis of_nat_unat ucast_id)
qed

lemma u64_drop_bit_7_eq_0: "drop_bit 7 v = (0 :: u64) \<longleftrightarrow> unat v < 128"
  using u64_drop_bit_7 [of v] unat_eq_zero [of "drop_bit 7 v"] by (auto simp: div_eq_0_iff)

lemma varint_buffer_0 [simp]: "varint_buffer 0 = []"
  by (simp add: varint_buffer.simps)

lemma varint_buffer_bytes:
  "v \<noteq> 0 \<Longrightarrow>
     (varint_buffer v)[length (varint_buffer v) - 1 :=
        varint_buffer v ! (length (varint_buffer v) - 1) AND 0x7F] = varint_bytes (unat v)"
proof (induction v rule: varint_buffer.induct)
  case (1 v)
  note step = varint_buffer.simps [of v] u64_cont_byte [of v]
  show ?case
  proof (cases "unat v < 128")
    case True
    then have "drop_bit 7 v = 0" by (simp add: u64_drop_bit_7_eq_0)
    with True "1.prems" show ?thesis
      using u8_stop_byte [OF True] by (simp add: step varint_bytes_small)
  next
    case False
    then have nz: "drop_bit 7 v \<noteq> 0" by (simp add: u64_drop_bit_7_eq_0)
    then have ne: "varint_buffer (drop_bit 7 v) \<noteq> []" by (subst varint_buffer.simps) simp
    then obtain m where m: "length (varint_buffer (drop_bit 7 v)) = Suc m"
      by (cases "varint_buffer (drop_bit 7 v)") auto
    show ?thesis using False "1.prems" "1.IH" [OF "1.prems" nz] m
      by (simp add: step varint_bytes_large u64_drop_bit_7)
  qed
qed

lemma varint_buffer_length: "v \<noteq> 0 \<Longrightarrow> length (varint_buffer v) = length (varint_bytes (unat v))"
  by (simp flip: varint_buffer_bytes)

text \<open>The 10-byte array of \<open>pb_encode_varint\<close> is never overrun.\<close>

lemma varint_buffer_fits: "length (varint_buffer v) \<le> 10"
  using varint_bytes_length_64 [OF unat_u64_less [of v]]
  by (cases "v = 0") (simp_all add: varint_buffer_length)

lemma pb_encode_varint_write:
  "pb_encode_varint wr s v =
     pb_write wr s (varint_bytes (unat v)) (of_nat (length (varint_bytes (unat v))))"
proof (cases "v \<le> 0x7F")
  case True
  then have "unat v < 128" by (simp add: word_le_nat_alt)
  then show ?thesis using True by (simp add: pb_encode_varint_def varint_bytes_small)
next
  case False
  then have "v \<noteq> 0" by auto
  with False varint_buffer_fits [of v] varint_buffer_bytes [of v] varint_buffer_length [of v]
  show ?thesis by (simp add: pb_encode_varint_def Let_def)
qed

lemma zigzag_word:
  "(if sint (v :: u64) < 0 then NOT (push_bit 1 v) else push_bit 1 v) = of_nat (zigzag (sint v))"
proof -
  have p: "push_bit 1 v = of_int (2 * sint v)" by (simp add: push_bit_eq_mult)
  have n: "NOT (push_bit 1 v) = of_int (- 2 * sint v - 1)"
    unfolding p by (simp add: not_eq_complement)
  show ?thesis
  proof (cases "sint v < 0")
    case True
    then have "int (zigzag (sint v)) = - 2 * sint v - 1" by (simp add: zigzag_def)
    then show ?thesis using True n by (metis of_int_of_nat_eq)
  next
    case False
    then have "int (zigzag (sint v)) = 2 * sint v" by (simp add: zigzag_def)
    then show ?thesis using False p by (metis of_int_of_nat_eq)
  qed
qed

lemma zigzag_sint_bound: "zigzag (sint (v :: u64)) < 2 ^ 64"
  using sint_ge [of v] sint_lt [of v] by (intro zigzag_bound) simp_all

lemma pb_encode_svarint_write:
  "pb_encode_svarint wr s v =
     pb_write wr s (varint_bytes (zigzag (sint v))) (of_nat (length (varint_bytes (zigzag (sint v)))))"
  unfolding pb_encode_svarint_def zigzag_word Let_def pb_encode_varint_write
  using zigzag_sint_bound [of v] by simp

lemma byte_of_word: "(ucast (drop_bit n v AND 0xFF :: 'a::len word) :: u8) = of_nat (unat v div 2 ^ n)"
proof -
  have "drop_bit n v AND 0xFF = take_bit 8 (drop_bit n v)"
    by (simp add: take_bit_eq_mask mask_eq_exp_minus_1)
  moreover have "unat (take_bit 8 (drop_bit n v)) = take_bit 8 (unat v div 2 ^ n)"
    by (simp only: unsigned_take_bit_eq unat_drop_bit_eq) (simp only: drop_bit_eq_div)
  ultimately have "(ucast (drop_bit n v AND 0xFF) :: u8) = of_nat (take_bit 8 (unat v div 2 ^ n))"
    by (metis of_nat_unat)
  then show ?thesis by (simp add: of_nat_take_bit take_bit_word_eq_self)
qed

lemma le_bytes_map: "le_bytes n v = map (\<lambda>i. of_nat (v div 256 ^ i)) [0..<n]"
proof (induction n arbitrary: v)
  case (Suc n)
  have "[0..<Suc n] = 0 # map Suc [0..<n]" by (simp add: map_Suc_upt upt_conv_Cons)
  with Suc show ?case by (simp add: div_mult2_eq o_def)
qed simp

lemma pb_encode_fixed32_write: "pb_encode_fixed32 wr s v = pb_write wr s (le_bytes 4 (unat v)) 4"
  using byte_of_word [of 0 v]
  by (simp add: pb_encode_fixed32_def byte_of_word le_bytes_map upt_conv_Cons)

lemma pb_encode_fixed64_write: "pb_encode_fixed64 wr s v = pb_write wr s (le_bytes 8 (unat v)) 8"
  using byte_of_word [of 0 v]
  by (simp add: pb_encode_fixed64_def byte_of_word le_bytes_map upt_conv_Cons)

section \<open>What the writers emit\<close>

lemma tag_word:
  assumes "unat (wt :: u32) < 8"
  shows "unat (push_bit 3 (ucast (fn :: u32)) OR ucast wt :: u64) = 8 * unat fn + unat wt"
proof -
  have f: "unat wt + unat fn * 8 < 18446744073709551616"
    using assms unat_less_numeral(2) [of fn] by linarith
  have "(of_nat (unat wt) OR push_bit 3 (of_nat (unat fn)) :: u64) = of_nat (unat wt + unat fn * 2 ^ 3)"
    using assms by (intro of_nat_or_push_bit) simp
  then have "push_bit 3 (ucast fn) OR ucast wt = (of_nat (unat wt + unat fn * 2 ^ 3) :: u64)"
    by (simp add: or.commute)
  then show ?thesis using assms f by (simp del: of_nat_add)
qed

context byte_sink
begin

lemma emits_varint: "good s \<Longrightarrow> emits s (varint_bytes (unat v)) (pb_encode_varint wr s v)"
  unfolding pb_encode_varint_write using varint_bytes_length_64 [OF unat_u64_less [of v]]
  by (intro emits_write) simp_all

lemma emits_svarint: "good s \<Longrightarrow> emits s (varint_bytes (zigzag (sint v))) (pb_encode_svarint wr s v)"
  unfolding pb_encode_svarint_write using varint_bytes_length_64 [OF zigzag_sint_bound [of v]]
  by (intro emits_write) simp_all

lemma emits_fixed32: "good s \<Longrightarrow> emits s (le_bytes 4 (unat v)) (pb_encode_fixed32 wr s v)"
  unfolding pb_encode_fixed32_write by (intro emits_write) simp_all

lemma emits_fixed64: "good s \<Longrightarrow> emits s (le_bytes 8 (unat v)) (pb_encode_fixed64 wr s v)"
  unfolding pb_encode_fixed64_write by (intro emits_write) simp_all

lemma emits_tag:
  "good s \<Longrightarrow> unat wt < 8 \<Longrightarrow> emits s (varint_bytes (8 * unat fn + unat wt)) (pb_encode_tag wr s wt fn)"
  unfolding pb_encode_tag_def by (simp flip: tag_word) (rule emits_varint)

lemma emits_string:
  "good s \<Longrightarrow> length bs < 2 ^ 63 \<Longrightarrow> unat n = length bs \<Longrightarrow>
     emits s (varint_bytes (length bs) @ bs) (pb_encode_string wr s bs n)"
  unfolding pb_encode_string_def
  using emits_varint [of s n] by (intro emits_then) (auto intro: emits_write)

end

text \<open>The wire type that the data type of a field has.\<close>

definition ltype_wire_type :: "u8 \<Rightarrow> pb_wire_type_t option" where
  "ltype_wire_type lt =
     (if lt \<le> PB_LTYPE_SVARINT then Some PB_WT_VARINT
      else if lt = PB_LTYPE_FIXED32 then Some PB_WT_32BIT
      else if lt = PB_LTYPE_FIXED64 then Some PB_WT_64BIT
      else if lt \<le> PB_LTYPE_SUBMESSAGE \<or> lt = PB_LTYPE_FIXED_LENGTH_BYTES then Some PB_WT_STRING
      else None)"

lemma u8_le_2: "(x :: u8) \<le> 2 \<longleftrightarrow> x = 0 \<or> x = 1 \<or> x = 2"
proof -
  have "unat x \<le> 2 \<longleftrightarrow> unat x = 0 \<or> unat x = 1 \<or> unat x = 2" by auto
  then show ?thesis by (simp add: word_le_nat_alt word_unat_eq_iff)
qed

lemma u8_le_7: "(x :: u8) \<le> 7 \<longleftrightarrow> x \<le> 2 \<or> x = 3 \<or> x = 4 \<or> x = 5 \<or> x = 6 \<or> x = 7"
proof -
  have "unat x \<le> 7 \<longleftrightarrow> unat x \<le> 2 \<or> unat x = 3 \<or> unat x = 4 \<or> unat x = 5 \<or> unat x = 6 \<or> unat x = 7"
    by auto
  then show ?thesis by (simp add: word_le_nat_alt word_unat_eq_iff)
qed

lemma pb_encode_tag_for_field_eq:
  "pb_encode_tag_for_field wr s f =
     (case ltype_wire_type (PB_LTYPE (type f)) of
        Some wt \<Rightarrow> pb_encode_tag wr s wt (tag f)
      | None \<Rightarrow> PB_RETURN_OERROR s ''invalid field type'')"
  by (auto simp: pb_encode_tag_for_field_def ltype_wire_type_def Let_def pb_type_defs u8_le_2 u8_le_7)

lemma ltype_wire_type_less: "ltype_wire_type lt = Some wt \<Longrightarrow> unat wt < 8"
  by (auto simp: ltype_wire_type_def pb_type_defs split: if_splits)

section \<open>Memory streams and sizing streams are sinks\<close>

definition mem_good :: "'u pb_ostream_t \<Rightarrow> bool" where
  "mem_good s \<longleftrightarrow> (\<exists>out room M w e. s = buf_ostream out room M w e \<and> os_room out room M w \<and> M \<le> 2 ^ 63)"

definition mem_put :: "'u pb_ostream_t \<Rightarrow> pb_byte_t list \<Rightarrow> 'u pb_ostream_t" where
  "mem_put s bs = s\<lparr>os_state := (case os_state s of Out_state out room \<Rightarrow> Out_state (out @ bs) room | x \<Rightarrow> x),
                    bytes_written := bytes_written s + of_nat (length bs)\<rparr>"

definition mem_fits :: "'u pb_ostream_t \<Rightarrow> nat \<Rightarrow> bool" where
  "mem_fits s n \<longleftrightarrow> unat (bytes_written s) + n \<le> unat (max_size s)"

lemma mem_put_buf [simp]:
  "mem_put (buf_ostream out room M w e) bs = buf_ostream (out @ bs) room M (w + length bs) e"
  by (simp add: mem_put_def buf_ostream_def)

lemma mem_fits_buf:
  "os_room out room M w \<Longrightarrow> mem_fits (buf_ostream out room M w e) n \<longleftrightarrow> w + n \<le> M"
  by (simp add: mem_fits_def os_room_def)

lemma mem_goodE:
  assumes "mem_good s"
  obtains out room M w e where "s = buf_ostream out room M w e" "os_room out room M w" "M \<le> 2 ^ 63"
  using assms by (auto simp: mem_good_def)

lemma mem_good_buf: "os_room out room M w \<Longrightarrow> M \<le> 2 ^ 63 \<Longrightarrow> mem_good (buf_ostream out room M w e)"
  unfolding mem_good_def by blast

lemma os_room_append:
  "os_room out room M w \<Longrightarrow> w + length bs \<le> M \<Longrightarrow> os_room (out @ bs) room M (w + length bs)"
  by (simp add: os_room_def)

interpretation mem_sink: byte_sink wr mem_good mem_put mem_fits
proof (unfold_locales, goal_cases)
  case (1 s n bs)
  then obtain out room M w e where s: "s = buf_ostream out room M w e" "os_room out room M w" "M \<le> 2 ^ 63"
    by (auto elim: mem_goodE)
  with 1 have "w + length bs \<le> M" by (simp add: mem_fits_buf)
  moreover from this s have "w + length bs < 2 ^ 64" by simp
  ultimately show ?case using s 1
    by (auto simp: pb_write_buf intro!: mem_good_buf os_room_append)
next
  case (2 s n bs)
  then obtain out room M w e where s: "s = buf_ostream out room M w e" "os_room out room M w" "M \<le> 2 ^ 63"
    by (auto elim: mem_goodE)
  with 2 have "\<not> w + length bs \<le> M" by (simp add: mem_fits_buf)
  moreover from 2 s have "w + length bs < 2 ^ 64" by (simp add: os_room_def)
  ultimately show ?case using s 2 by (auto simp: pb_write_buf split: option.split)
next
  case (3 s a b)
  then show ?case by (simp add: mem_put_def split: ostream_state.split)
next
  case (4 s a k)
  then obtain out room M w e where s: "s = buf_ostream out room M w e" "os_room out room M w" "M \<le> 2 ^ 63"
    by (auto elim: mem_goodE)
  show ?case
  proof (cases "w + length a \<le> M")
    case True
    then show ?thesis using s os_room_append [of out room M w a] by (simp add: mem_fits_buf add.assoc)
  next
    case False
    then show ?thesis using s by (simp add: mem_fits_buf)
  qed
qed

definition sizing_good :: "'u pb_ostream_t \<Rightarrow> bool" where
  "sizing_good s \<longleftrightarrow> os_callback s = Null_write"

definition sizing_put :: "'u pb_ostream_t \<Rightarrow> pb_byte_t list \<Rightarrow> 'u pb_ostream_t" where
  "sizing_put s bs = s\<lparr>bytes_written := bytes_written s + of_nat (length bs)\<rparr>"

interpretation sizing_sink: byte_sink wr sizing_good sizing_put "\<lambda>_ _. True"
  by unfold_locales
    (auto simp: sizing_good_def sizing_put_def pb_write_def, metis of_nat_unat ucast_id)

lemma sizing_put_sizing [simp]: "sizing_put (sizing_ostream w e) bs = sizing_ostream (w + length bs) e"
  by (simp add: sizing_put_def sizing_ostream_def)

lemma sizing_good_sizing [simp]: "sizing_good (sizing_ostream w e)"
  by (simp add: sizing_good_def)

end
