(* ===== verification/Pb_Wire.thy ===== *)
theory Pb_Wire
  imports Pb_Decode_Wire_Correct Pb_Encode_Wire_Correct
begin

unbundle bit_operations_syntax

text \<open>
  The wire level end to end: what \<open>pb_encode.c\<close> writes, \<open>pb_decode.c\<close> reads
  back, and what the readers do on every input, malformed ones included.
\<close>

section \<open>From an output stream to an input stream\<close>

text \<open>The bytes that a memory stream has received.\<close>

definition written :: "'u pb_ostream_t \<Rightarrow> pb_byte_t list" where
  "written s = (case os_state s of Out_state out room \<Rightarrow> out | _ \<Rightarrow> [])"

lemma written_buf [simp]: "written (buf_ostream out room M w e) = out"
  by (simp add: written_def)

lemma from_buffer_good:
  "m \<le> n \<Longrightarrow> m \<le> 2 ^ 63 \<Longrightarrow> mem_good (pb_ostream_from_buffer n (of_nat m))"
  unfolding pb_ostream_from_buffer_eq by (intro mem_good_buf) (simp_all add: os_room_def)

lemma mem_emits_written:
  assumes "mem_sink.emits (pb_ostream_from_buffer n (of_nat m)) bs r" "r = Ok u os"
    and "m \<le> n" "m \<le> 2 ^ 63"
  shows "written os = bs" "length bs \<le> m" "os = mem_put (pb_ostream_from_buffer n (of_nat m)) bs"
proof -
  from assms show os: "os = mem_put (pb_ostream_from_buffer n (of_nat m)) bs"
    by (auto dest: mem_sink.emits_good)
  then show "written os = bs" by (simp add: pb_ostream_from_buffer_eq)
  show "length bs \<le> m" using mem_sink.emits_good [OF assms(1,2)] assms(3,4)
    by (simp add: pb_ostream_from_buffer_eq mem_fits_buf os_room_def)
qed

text \<open>An input stream over the buffer \<open>bs @ D\<close> with a limit of \<open>K\<close> bytes beyond
  \<open>bs\<close>.\<close>

lemma istream_of_bytes:
  "length bs + K < 2 ^ 64 \<Longrightarrow>
     pb_istream_from_buffer (bs @ D) (of_nat (length bs + K)) = buf_istream (bs @ D) (length bs + K) None"
  by (simp add: pb_istream_from_buffer_eq del: of_nat_add)

lemma istream_rest: "K < 2 ^ 64 \<Longrightarrow> pb_istream_from_buffer D (of_nat K) = buf_istream D K None"
  by (simp add: pb_istream_from_buffer_eq)

section \<open>Round trips\<close>

text \<open>C9: \<open>pb_encode_varint\<close> into a memory buffer writes at most 10 bytes, and
  \<open>pb_decode_varint\<close> on what it wrote, whatever follows in the buffer, gives the value
  back and stands right behind it.\<close>

theorem varint_roundtrip:
  assumes "pb_encode_varint wr (pb_ostream_from_buffer n (of_nat m)) v = Ok () os"
    and "m \<le> n" "m \<le> 2 ^ 63" "length (written os) + K < 2 ^ 64"
  shows "pb_decode_varint rd (pb_istream_from_buffer (written os @ D) (of_nat (length (written os) + K))) =
           Ok v (pb_istream_from_buffer D (of_nat K)) \<and>
         length (written os) \<le> 10 \<and> length (written os) \<le> m"
proof -
  have "mem_sink.emits (pb_ostream_from_buffer n (of_nat m)) (varint_bytes (unat v))
             (pb_encode_varint wr (pb_ostream_from_buffer n (of_nat m)) v)"
    using assms by (intro mem_sink.emits_varint from_buffer_good)
  note mem_emits_written [OF this assms(1-3)]
  moreover have "length (varint_bytes (unat v)) \<le> 10"
    by (intro varint_bytes_length_64 unat_u64_less)
  ultimately show ?thesis using assms
    by (simp add: istream_of_bytes istream_rest pb_decode_varint_bytes_value del: of_nat_add)
qed

theorem varint_roundtrip_witness:
  "pb_decode_varint (\<lambda>u n. Read_err ())
     (pb_istream_from_buffer ([0xAC, 0x02] @ [7]) (of_nat (2 + 1))) =
     Ok 300 (pb_istream_from_buffer [7] (of_nat 1) :: unit pb_istream_t)"
proof -
  let ?os = "buf_ostream [0xAC, 0x02] 16 16 2 None :: unit pb_ostream_t"
  have "pb_encode_varint (\<lambda>u b. (True, ())) (pb_ostream_from_buffer 16 (of_nat 16)) 300 = Ok () ?os"
    by (simp add: pb_encode_varint_def varint_buffer.simps pb_write_def call_write_def buf_write_def
        pb_ostream_from_buffer_def buf_ostream_def)
  from varint_roundtrip [OF this, of 1 "\<lambda>u n. Read_err ()" "[7]"] show ?thesis by simp
qed

text \<open>Signed numbers: the zigzag encoding of \<open>pb_encode_svarint\<close> is read back by
  \<open>pb_decode_svarint\<close> for every 64-bit value, and a number of magnitude below
  \<open>2 ^ (7 * k - 1)\<close> takes at most \<open>k\<close> bytes, negative ones too.\<close>

theorem svarint_roundtrip:
  assumes "pb_encode_svarint wr (pb_ostream_from_buffer n (of_nat m)) v = Ok () os"
    and "m \<le> n" "m \<le> 2 ^ 63" "length (written os) + K < 2 ^ 64"
  shows "pb_decode_svarint rd (pb_istream_from_buffer (written os @ D) (of_nat (length (written os) + K))) =
           Ok v (pb_istream_from_buffer D (of_nat K)) \<and>
         (0 < k \<and> - (2 ^ (7 * k - 1)) \<le> sint v \<and> sint v < 2 ^ (7 * k - 1) \<longrightarrow>
            length (written os) \<le> k)"
proof -
  have "mem_sink.emits (pb_ostream_from_buffer n (of_nat m)) (varint_bytes (zigzag (sint v)))
             (pb_encode_svarint wr (pb_ostream_from_buffer n (of_nat m)) v)"
    using assms by (intro mem_sink.emits_svarint from_buffer_good)
  note w = mem_emits_written [OF this assms(1-3)]
  have "length (varint_bytes (zigzag (sint v))) \<le> k"
    if "0 < k" "- (2 ^ (7 * k - 1)) \<le> sint v" "sint v < 2 ^ (7 * k - 1)"
    using that by (intro varint_bytes_length zigzag_bound_7) auto
  with w assms zigzag_sint_bound [of v] show ?thesis
    by (simp add: istream_of_bytes istream_rest pb_decode_svarint_bytes del: of_nat_add)
qed

theorem svarint_roundtrip_witness:
  "pb_decode_svarint (\<lambda>u n. Read_err ())
     (pb_istream_from_buffer ([0x03] @ [7]) (of_nat (1 + 1))) =
     Ok (- 2) (pb_istream_from_buffer [7] (of_nat 1) :: unit pb_istream_t)"
proof -
  let ?os = "buf_ostream [0x03] 16 16 1 None :: unit pb_ostream_t"
  have "pb_encode_svarint (\<lambda>u b. (True, ())) (pb_ostream_from_buffer 16 (of_nat 16)) (- 2) = Ok () ?os"
    by (simp add: pb_encode_svarint_def pb_encode_varint_def varint_buffer.simps pb_write_def
        call_write_def buf_write_def pb_ostream_from_buffer_def buf_ostream_def)
  from svarint_roundtrip [OF this, of 1 "\<lambda>u n. Read_err ()" "[7]" 1] show ?thesis by simp
qed

text \<open>Fixed-width numbers: \<open>pb_encode_fixed32\<close> and \<open>pb_encode_fixed64\<close> write
  exactly 4 and 8 little-endian bytes, which the decoders read back.\<close>

theorem fixed_roundtrip:
  assumes "pb_encode_fixed32 wr (pb_ostream_from_buffer n (of_nat m)) v = Ok () os"
    and "pb_encode_fixed64 wr (pb_ostream_from_buffer n (of_nat m)) v' = Ok () os'"
    and "m \<le> n" "m \<le> 2 ^ 63" "8 + K < 2 ^ 64"
  shows "pb_decode_fixed32 rd (pb_istream_from_buffer (written os @ D) (of_nat (4 + K))) =
           Ok v (pb_istream_from_buffer D (of_nat K)) \<and>
         pb_decode_fixed64 rd (pb_istream_from_buffer (written os' @ D) (of_nat (8 + K))) =
           Ok v' (pb_istream_from_buffer D (of_nat K)) \<and>
         length (written os) = 4 \<and> length (written os') = 8"
proof -
  have "mem_sink.emits (pb_ostream_from_buffer n (of_nat m)) (le_bytes 4 (unat v))
             (pb_encode_fixed32 wr (pb_ostream_from_buffer n (of_nat m)) v)"
    using assms by (intro mem_sink.emits_fixed32 from_buffer_good)
  note w = mem_emits_written [OF this assms(1,3,4)]
  have "mem_sink.emits (pb_ostream_from_buffer n (of_nat m)) (le_bytes 8 (unat v'))
             (pb_encode_fixed64 wr (pb_ostream_from_buffer n (of_nat m)) v')"
    using assms by (intro mem_sink.emits_fixed64 from_buffer_good)
  note w' = mem_emits_written [OF this assms(2,3,4)]
  have "le_value (le_bytes 4 (unat v)) = unat v" "le_value (le_bytes 8 (unat v')) = unat v'"
    using unat_u32_less [of v] unat_u64_less [of v'] by (simp_all add: le_value_bytes)
  with w w' assms show ?thesis
    using istream_of_bytes [of "written os" K D] istream_of_bytes [of "written os'" K D]
    by (simp add: istream_rest pb_decode_fixed32_bytes pb_decode_fixed64_bytes del: of_nat_add)
qed

theorem fixed_roundtrip_witness:
  "pb_decode_fixed32 (\<lambda>u n. Read_err ())
     (pb_istream_from_buffer ([0x78, 0x56, 0x34, 0x12] @ [7]) (of_nat (4 + 1))) =
     Ok 0x12345678 (pb_istream_from_buffer [7] (of_nat 1) :: unit pb_istream_t)"
proof -
  let ?os = "buf_ostream [0x78, 0x56, 0x34, 0x12] 16 16 4 None :: unit pb_ostream_t"
  let ?os' = "buf_ostream [1, 0, 0, 0, 0, 0, 0, 2] 16 16 8 None :: unit pb_ostream_t"
  have 1: "pb_encode_fixed32 (\<lambda>u b. (True, ())) (pb_ostream_from_buffer 16 (of_nat 16)) 0x12345678 = Ok () ?os"
    by (simp add: pb_encode_fixed32_def pb_write_def
        call_write_def buf_write_def pb_ostream_from_buffer_def buf_ostream_def)
  have 2: "pb_encode_fixed64 (\<lambda>u b. (True, ())) (pb_ostream_from_buffer 16 (of_nat 16)) 0x200000000000001
      = Ok () ?os'"
    by (simp add: pb_encode_fixed64_def pb_write_def
        call_write_def buf_write_def pb_ostream_from_buffer_def buf_ostream_def)
  from fixed_roundtrip [OF 1 2, of 1 "\<lambda>u n. Read_err ()" "[7]"] show ?thesis by simp
qed

text \<open>Tags: the tag that \<open>pb_encode_tag_for_field\<close> writes for a field number
  below \<open>2 ^ 29\<close> is split by \<open>pb_decode_tag\<close> into that number and the wire type of the
  field's data type, without an end-of-stream signal.\<close>

theorem tag_roundtrip:
  assumes "pb_encode_tag_for_field wr (pb_ostream_from_buffer n (of_nat m)) f = Ok () os"
    and "0 < tag f" "tag f < 2 ^ 29" "m \<le> n" "m \<le> 2 ^ 63" "length (written os) + K < 2 ^ 64"
  shows "\<exists>wt. ltype_wire_type (PB_LTYPE (type f)) = Some wt \<and>
           pb_decode_tag rd (pb_istream_from_buffer (written os @ D) (of_nat (length (written os) + K))) =
             Ok (wt, tag f) (pb_istream_from_buffer D (of_nat K), False)"
proof -
  obtain wt where wt: "ltype_wire_type (PB_LTYPE (type f)) = Some wt"
    and enc: "pb_encode_tag wr (pb_ostream_from_buffer n (of_nat m)) wt (tag f) = Ok () os"
    using assms(1) by (auto simp: pb_encode_tag_for_field_eq PB_RETURN_OERROR_def split: option.splits)
  have lt: "unat wt < 8" using wt by (rule ltype_wire_type_less)
  have "mem_sink.emits (pb_ostream_from_buffer n (of_nat m)) (varint_bytes (8 * unat (tag f) + unat wt))
             (pb_encode_tag wr (pb_ostream_from_buffer n (of_nat m)) wt (tag f))"
    using assms lt by (intro mem_sink.emits_tag from_buffer_good)
  note w = mem_emits_written [OF this enc assms(4,5)]
  have b: "0 < unat (tag f)" "unat (tag f) < 2 ^ 29"
    using assms(2,3) by (simp_all add: word_less_nat_alt)
  then have "pb_decode_tag rd (pb_istream_from_buffer (written os @ D) (of_nat (length (written os) + K))) =
      Ok (of_nat ((8 * unat (tag f) + unat wt) mod 8), of_nat ((8 * unat (tag f) + unat wt) div 8))
         (pb_istream_from_buffer D (of_nat K), False)"
    using w lt assms(6) by (simp add: istream_of_bytes istream_rest pb_decode_tag_bytes del: of_nat_add)
  with lt wt show ?thesis by simp
qed

theorem tag_roundtrip_witness:
  "\<exists>wt. ltype_wire_type PB_LTYPE_STRING = Some wt \<and>
     pb_decode_tag (\<lambda>u n. Read_err ()) (pb_istream_from_buffer ([0x82, 0x01] @ [7]) (of_nat (2 + 1))) =
     Ok (wt, 16) (pb_istream_from_buffer [7] (of_nat 1) :: unit pb_istream_t, False)"
proof -
  let ?os = "buf_ostream [0x82, 0x01] 16 16 2 None :: unit pb_ostream_t"
  let ?f = "PB_LAST_FIELD\<lparr>tag := 16, type := PB_LTYPE_STRING\<rparr>"
  have "pb_encode_tag_for_field (\<lambda>u b. (True, ())) (pb_ostream_from_buffer 16 (of_nat 16)) ?f = Ok () ?os"
    by (simp add: pb_encode_tag_for_field_def pb_encode_tag_def pb_encode_varint_def varint_buffer.simps
        pb_write_def call_write_def buf_write_def pb_ostream_from_buffer_def buf_ostream_def
        PB_LAST_FIELD_def pb_type_defs)
  from tag_roundtrip [OF this, of 1 "\<lambda>u n. Read_err ()" "[7]"] show ?thesis
    by (simp add: PB_LAST_FIELD_def pb_type_defs)
qed

text \<open>Length-delimited values: what \<open>pb_encode_string\<close> writes is opened by
  \<open>pb_make_string_substream\<close> as a substream of exactly those bytes, and closing the substream
  after any part of it has been read leaves the parent stream right behind the value.\<close>

theorem string_substream_roundtrip:
  assumes "pb_encode_string wr (pb_ostream_from_buffer n (of_nat m)) bs (of_nat (length bs)) = Ok () os"
    and "m \<le> n" "m \<le> 2 ^ 63" "length bs < 2 ^ 32" "length (written os) + K < 2 ^ 64"
    and "j \<le> length bs"
  shows "pb_make_string_substream rd
           (pb_istream_from_buffer (written os @ D) (of_nat (length (written os) + K))) =
           Ok (pb_istream_from_buffer (bs @ D) (of_nat (length bs))) (pb_istream_from_buffer (bs @ D) (of_nat K)) \<and>
         (\<exists>sub. pb_read rd (pb_istream_from_buffer (bs @ D) (of_nat (length bs))) True (of_nat j) =
            Ok (take j bs) sub \<and>
          pb_close_string_substream rd (pb_istream_from_buffer (bs @ D) (of_nat K)) sub =
            Ok () (pb_istream_from_buffer D (of_nat K)))"
proof -
  have l: "unat (of_nat (length bs) :: u64) = length bs" "unat (of_nat j :: u64) = j"
    using assms(4,6) by simp_all
  then have "mem_sink.emits (pb_ostream_from_buffer n (of_nat m)) (varint_bytes (length bs) @ bs)
             (pb_encode_string wr (pb_ostream_from_buffer n (of_nat m)) bs (of_nat (length bs)))"
    using assms by (intro mem_sink.emits_string from_buffer_good) simp_all
  note w = mem_emits_written [OF this assms(1-3)]
  from w assms have "pb_make_string_substream rd
           (pb_istream_from_buffer (written os @ D) (of_nat (length (written os) + K))) =
           Ok (pb_istream_from_buffer (bs @ D) (of_nat (length bs))) (pb_istream_from_buffer (bs @ D) (of_nat K))"
    using pb_make_string_substream_bytes [of "length bs" "length bs + K" rd "bs @ D" None]
    by (simp add: pb_istream_from_buffer_eq add.assoc del: of_nat_add)
  moreover have "pb_read rd (pb_istream_from_buffer (bs @ D) (of_nat (length bs))) True (of_nat j) =
          Ok (take j bs) (buf_istream (drop j bs @ D) (length bs - j) None)"
    using assms(4,6) l by (simp add: pb_istream_from_buffer_eq pb_read_buf)
  moreover have "pb_close_string_substream rd (pb_istream_from_buffer (bs @ D) (of_nat K))
      (buf_istream (drop j bs @ D) (length bs - j) None) = Ok () (pb_istream_from_buffer D (of_nat K))"
    using assms(4,5) by (simp add: istream_rest pb_close_string_substream_buf)
  ultimately show ?thesis by blast
qed

theorem string_substream_roundtrip_witness:
  "pb_make_string_substream (\<lambda>u n. Read_err ())
     (pb_istream_from_buffer ([2, 65, 66] @ [7]) (of_nat (3 + 1))) =
     Ok (pb_istream_from_buffer ([65, 66] @ [7]) (of_nat 2))
        (pb_istream_from_buffer ([65, 66] @ [7]) (of_nat 1) :: unit pb_istream_t)"
proof -
  let ?os = "buf_ostream [2, 65, 66] 16 16 3 None :: unit pb_ostream_t"
  have "pb_encode_string (\<lambda>u b. (True, ())) (pb_ostream_from_buffer 16 (of_nat 16)) [65, 66]
          (of_nat (length [65, 66 :: u8])) = Ok () ?os"
    by (simp add: pb_encode_string_def pb_encode_varint_def
        pb_write_def call_write_def buf_write_def pb_ostream_from_buffer_def buf_ostream_def)
  from string_substream_roundtrip [OF this, of 1 0 "\<lambda>u n. Read_err ()" "[7]"] show ?thesis by simp
qed

section \<open>Every input\<close>

text \<open>C10: \<open>pb_decode_varint\<close> on any memory stream: it accepts exactly the inputs that
  start with a varint of at most ten bytes, returns that varint's value modulo
  \<open>2 ^ 64\<close> and consumes just the varint; every other input makes it return false. It
  never reads outside the buffer.\<close>

theorem pb_decode_varint_accepts:
  assumes "unat n \<le> length d"
  shows "(\<exists>bs rest s'. take (unat n) d = bs @ rest \<and> varint_form bs \<and> length bs \<le> 10 \<and>
            pb_decode_varint rd (pb_istream_from_buffer d n) = Ok (of_nat (varint_value bs)) s' \<and>
            buf_good s' \<and> buf_content s' = rest) \<or>
         ((\<nexists>bs rest. take (unat n) d = bs @ rest \<and> varint_form bs \<and> length bs \<le> 10) \<and>
          (\<exists>s'. pb_decode_varint rd (pb_istream_from_buffer d n) = Fail s'))"
  using buf_source.pb_decode_varint_total [of "pb_istream_from_buffer d n" rd] assms
  by (simp add: pb_istream_from_buffer_eq)

theorem pb_decode_varint_accepts_witness:
  "\<exists>s'. pb_decode_varint (\<lambda>u n. Read_err ()) (pb_istream_from_buffer [0x80, 0x80] 2) =
     Fail (s' :: unit pb_istream_t)"
proof -
  have "\<not> (\<exists>bs rest. [0x80, 0x80 :: u8] = bs @ rest \<and> varint_form bs)"
    by (auto simp: Cons_eq_append_conv)
  with pb_decode_varint_accepts [of 2 "[0x80, 0x80]" "\<lambda>u n. Read_err ()"]
  show ?thesis by auto
qed

text \<open>\<open>pb_decode_varint32\<close> reads every canonical unsigned 32-bit varint, and every
  negative number that was sent sign-extended to 64 bits, as the protocol sends a negative
  \<open>int32\<close> or enum.\<close>

theorem varint32_signed_read:
  fixes i :: int
  assumes "- (2 ^ 31) \<le> i" "i < 2 ^ 32"
    and "bs = varint_bytes (nat (i mod 2 ^ 64))" "length bs + K < 2 ^ 64"
  shows "pb_decode_varint32 rd (pb_istream_from_buffer (bs @ D) (of_nat (length bs + K))) =
           Ok (of_int i) (pb_istream_from_buffer D (of_nat K))"
proof (cases "i < 0")
  case True
  define k where "k = nat (- i)"
  have k: "1 \<le> k" "k \<le> 2 ^ 31" "i = - int k" using True assms(1) by (auto simp: k_def)
  have "i mod 2 ^ 64 = 2 ^ 64 - int k" using k minus_mod_int_eq [of "2 ^ 64" "int k"]
    by (simp add: mod_pos_pos_trivial)
  then have n: "nat (i mod 2 ^ 64) = 2 ^ 64 - k" by (simp add: nat_diff_distrib)
  have bs: "bs = varint_bytes (2 ^ 64 - k)" unfolding assms(3) n ..
  have K: "K < 2 ^ 64" using assms(4) by simp
  show ?thesis
    unfolding istream_of_bytes [OF assms(4)] istream_rest [OF K]
    using pb_decode_varint32_bytes_negative [OF k(1,2), of K rd D None] assms(4)
    unfolding bs k(3) by simp
next
  case False
  then have n: "nat (i mod 2 ^ 64) = nat i" using assms(2) by (simp add: mod_pos_pos_trivial)
  have "nat i < 2 ^ 32" using assms(2) by (simp add: nat_less_iff)
  with assms(3,4) n False show ?thesis
    by (simp add: istream_of_bytes istream_rest pb_decode_varint32_bytes_value del: of_nat_add)
qed

theorem varint32_signed_read_witness:
  "pb_decode_varint32 (\<lambda>u n. Read_err ())
     (pb_istream_from_buffer ([0xFF, 0xFF, 0xFF, 0xFF, 0xFF, 0xFF, 0xFF, 0xFF, 0xFF, 0x01] @ [7])
        (of_nat (10 + 1))) =
     Ok (- 1) (pb_istream_from_buffer [7] (of_nat 1) :: unit pb_istream_t)"
proof -
  have "[0xFF, 0xFF, 0xFF, 0xFF, 0xFF, 0xFF, 0xFF, 0xFF, 0xFF, 0x01] =
      varint_bytes (nat ((- 1) mod 2 ^ 64))"
    by (simp add: varint_bytes.simps)
  from varint32_signed_read [OF _ _ this, of 1 "\<lambda>u n. Read_err ()" "[7]"] show ?thesis by simp
qed

text \<open>An encoded value of a wire type, tag excluded.\<close>

definition wire_value :: "pb_wire_type_t \<Rightarrow> pb_byte_t list \<Rightarrow> bool" where
  "wire_value wt bs \<longleftrightarrow>
     (wt = PB_WT_VARINT \<and> varint_form bs) \<or>
     (wt = PB_WT_64BIT \<and> length bs = 8) \<or>
     (wt = PB_WT_32BIT \<and> length bs = 4) \<or>
     (wt = PB_WT_STRING \<and>
        (\<exists>p \<in> set (map (\<lambda>i. drop i bs) [0..<Suc (length bs)]).
           length p < 2 ^ 32 \<and> bs = varint_bytes (length p) @ p))"

text \<open>\<open>pb_skip_field\<close> skips exactly one value of its wire type, whatever follows it,
  and rejects the wire types 3, 4, 6 and 7 with a message and without reading.\<close>

theorem pb_skip_field_exact:
  assumes "length bs + K < 2 ^ 64"
  shows "(wire_value wt bs \<longrightarrow>
            pb_skip_field rd (buf_istream (bs @ D) (length bs + K) e) wt = Ok () (buf_istream D K e)) \<and>
         (wt \<notin> {PB_WT_VARINT, PB_WT_64BIT, PB_WT_STRING, PB_WT_32BIT} \<longrightarrow>
            pb_skip_field rd s wt = Fail (PB_SET_ERROR s ''invalid wire_type''))"
proof -
  have "pb_skip_field rd (buf_istream (bs @ D) (length bs + K) e) wt = Ok () (buf_istream D K e)"
    if v: "wire_value wt bs"
    using v [unfolded wire_value_def]
  proof (elim disjE conjE bexE)
    assume "wt = PB_WT_VARINT" "varint_form bs"
    then show ?thesis using assms by (simp add: pb_skip_field_def pb_skip_varint_bytes)
  next
    assume "wt = PB_WT_64BIT" "length bs = 8"
    then show ?thesis using assms pb_read_exact [of bs K 8 rd D e False]
      by (simp add: pb_skip_field_def pb_type_defs)
  next
    assume "wt = PB_WT_32BIT" "length bs = 4"
    then show ?thesis using assms pb_read_exact [of bs K 4 rd D e False]
      by (simp add: pb_skip_field_def pb_type_defs)
  next
    fix p assume p: "wt = PB_WT_STRING" "length p < 2 ^ 32" "bs = varint_bytes (length p) @ p"
    with assms pb_skip_string_bytes [of "length p" "length p + K" "p @ D" rd e]
    show ?thesis by (simp add: pb_skip_field_def pb_type_defs add.assoc)
  qed
  then show ?thesis by (simp add: pb_skip_field_def PB_RETURN_ERROR_def)
qed

theorem pb_skip_field_exact_witness:
  "pb_skip_field (\<lambda>u n. Read_err ()) (buf_istream ([2, 65, 66] @ [7]) (length [2, 65, 66 :: u8] + 1) None)
     PB_WT_STRING = Ok () (buf_istream [7] 1 None :: unit pb_istream_t)"
proof -
  have "wire_value PB_WT_STRING [2, 65, 66]"
    by (simp add: wire_value_def pb_type_defs varint_bytes.simps upt_conv_Cons)
  with pb_skip_field_exact [of "[2, 65, 66]" 1 PB_WT_STRING] show ?thesis by simp
qed

section \<open>Two inputs that the 32-bit reader takes and should refuse\<close>

lemma varint32_loop_80:
  "n + k < 2 ^ 64 \<Longrightarrow>
     varint32_loop rd (buf_istream (replicate n 0x80 @ d) (n + k) e) B R =
     varint32_loop rd (buf_istream d k e) (B + 7 * of_nat n) R"
proof (induction n arbitrary: B)
  case (Suc n)
  have "varint32_loop rd (buf_istream (0x80 # (replicate n 0x80 @ d)) (Suc (n + k)) e) B R =
        varint32_loop rd (buf_istream (replicate n 0x80 @ d) (n + k) e) (B + 7) R"
    using Suc.prems by (subst varint32_loop.simps) (simp add: pb_readbyte_buf Let_def)
  with Suc show ?case by (simp add: algebra_simps)
qed simp

lemma varint_loop_80:
  "n + k < 2 ^ 64 \<Longrightarrow> i + n \<le> 10 \<Longrightarrow>
     varint_loop rd (buf_istream (replicate n 0x80 @ d) (n + k) e) (of_nat (7 * i)) R =
     varint_loop rd (buf_istream d k e) (of_nat (7 * (i + n))) R"
proof (induction n arbitrary: i)
  case (Suc n)
  have "\<not> (64 :: u8) \<le> of_nat (7 * i)"
    using Suc.prems of_nat_u8_7 [of i] by (simp add: word_le_nat_alt)
  then have "varint_loop rd (buf_istream (0x80 # (replicate n 0x80 @ d)) (Suc (n + k)) e) (of_nat (7 * i)) R =
        varint_loop rd (buf_istream (replicate n 0x80 @ d) (n + k) e) (of_nat (7 * i) + 7) R"
    using Suc.prems by (subst varint_loop.simps) (simp add: pb_readbyte_buf Let_def)
  also have "(of_nat (7 * i) + 7 :: u8) = of_nat (7 * Suc i)" by simp
  finally show ?case using Suc.IH [of "Suc i"] Suc.prems by (simp del: of_nat_mult)
qed simp

text \<open>In \<open>pb_decode_varint32_eof\<close> the variable \<open>bitpos\<close> has 8 bits and grows by
  7 for every byte, so it wraps around after 36 bytes: a 38-byte varint is accepted, where the
  64-bit reader reports an overflow, and its last byte lands at bit 3.\<close>

theorem varint32_bitpos_wraps:
  "pb_decode_varint32 rd (pb_istream_from_buffer (replicate 37 0x80 @ [0x01]) 38) =
     Ok 8 (pb_istream_from_buffer [] 0) \<and>
   (\<exists>s. pb_decode_varint rd (pb_istream_from_buffer (replicate 37 0x80 @ [0x01]) 38) = Fail s \<and>
      is_errmsg s = Some ''varint overflow'')"
proof
  have s: "(pb_istream_from_buffer (replicate 37 0x80 @ [0x01]) 38 :: 'a pb_istream_t) =
      buf_istream (replicate 37 0x80 @ [0x01]) (37 + 1) None" by (simp add: pb_istream_from_buffer_eq)
  have "varint32_loop rd (buf_istream (replicate 36 0x80 @ [0x01]) (36 + 1) None) 7 0 =
        varint32_loop rd (buf_istream [0x01] 1 None) 3 0"
  proof -
    have w: "(7 + 7 * of_nat 36 :: u8) = 3" by simp
    show ?thesis using varint32_loop_80 [of 36 1 rd "[0x01]" None 7 0] unfolding w by simp
  qed
  moreover have "varint32_loop rd (buf_istream [0x01] 1 None) 3 0 = Ok (8, 10, 1) (buf_istream [] 0 None)"
    by (subst varint32_loop.simps) (simp add: pb_readbyte_buf)
  moreover have "pb_readbyte rd (buf_istream (replicate 37 0x80 @ [0x01]) (37 + 1) None) =
      Ok 0x80 (buf_istream (replicate 36 0x80 @ [0x01]) (36 + 1) None)"
    using replicate_Suc [of 36 "0x80 :: u8"] by (simp add: pb_readbyte_buf)
  ultimately show "pb_decode_varint32 rd (pb_istream_from_buffer (replicate 37 0x80 @ [0x01]) 38) =
     Ok 8 (pb_istream_from_buffer [] 0)"
    unfolding s by (simp add: pb_decode_varint32_def pb_decode_varint32_eof_def pb_istream_from_buffer_eq)
  have "replicate 37 (0x80 :: u8) = replicate 10 0x80 @ replicate 27 0x80"
    by (simp flip: replicate_add)
  then have "pb_decode_varint rd (pb_istream_from_buffer (replicate 37 0x80 @ [0x01]) 38) =
      varint_loop rd (buf_istream (replicate 27 0x80 @ [0x01]) 28 None) 70 0"
    using varint_loop_80 [of 10 28 0 rd "replicate 27 0x80 @ [0x01]" None 0]
    by (simp add: pb_decode_varint_def pb_istream_from_buffer_eq)
  then show "\<exists>s. pb_decode_varint rd (pb_istream_from_buffer (replicate 37 0x80 @ [0x01]) 38) = Fail s \<and>
      is_errmsg s = Some ''varint overflow''"
    by (subst (asm) varint_loop.simps) (simp add: PB_RETURN_ERROR_def)
qed

text \<open>When a fifth byte carries the continuation bit, its bits 4 to 6 (bits 32 to 34 of
  the value) are shifted out of the 32-bit result unnoticed: the six bytes below encode
  \<open>7 * 2 ^ 32\<close>, which the 64-bit reader returns, and the 32-bit reader returns 0 instead
  of an overflow.\<close>

theorem varint32_drops_bits:
  "pb_decode_varint32 rd (pb_istream_from_buffer [0x80, 0x80, 0x80, 0x80, 0xF0, 0x00] 6) =
     Ok 0 (pb_istream_from_buffer [] 0) \<and>
   pb_decode_varint rd (pb_istream_from_buffer [0x80, 0x80, 0x80, 0x80, 0xF0, 0x00] 6) =
     Ok (7 * 2 ^ 32) (pb_istream_from_buffer [] 0)"
  by (simp add: pb_decode_varint32_def pb_decode_varint32_eof_def varint32_loop.simps
      pb_decode_varint_def varint_loop.simps pb_readbyte_def call_read_def buf_read_def
      pb_istream_from_buffer_def)

end
