(* ===== verification/Pb_Common.thy ===== *)
theory Pb_Common
  imports Pb_Types
begin

unbundle bit_operations_syntax

text \<open>
  The field iterator of \<open>pb_common.c\<close>, with which both the encoder and the decoder walk
  over a message. The pointer \<open>start\<close> is the descriptor array it points to and
  \<open>pos\<close> an index into it; reading a descriptor beyond the array is \<open>None\<close>.
  Message addresses are computed exactly as in the code.
\<close>

section \<open>The code\<close>

record pb_field_iter_t =
  it_start :: "pb_field_t list"
  it_pos :: nat
  required_field_index :: u32
  dest_struct :: addr
  pData :: addr
  pSize :: addr

definition it_field :: "pb_field_iter_t \<Rightarrow> pb_field_t option" where
  "it_field it = (if it_pos it < length (it_start it) then Some (it_start it ! it_pos it) else None)"

definition pb_field_iter_begin :: "pb_field_t list \<Rightarrow> addr \<Rightarrow> (bool \<times> pb_field_iter_t) option" where
  "pb_field_iter_begin flds dest =
     (case flds of
        [] \<Rightarrow> None
      | f # _ \<Rightarrow>
          let pd = dest + uint (data_offset f) in
          Some (tag f \<noteq> 0,
                \<lparr>it_start = flds, it_pos = 0, required_field_index = 0, dest_struct = dest,
                 pData = pd, pSize = pd + sint (size_offset f)\<rparr>))"

text \<open>\<open>prev_size\<close>: the bytes that a field takes in the struct.\<close>

definition prev_size :: "pb_field_t \<Rightarrow> u64" where
  "prev_size prev =
     (if PB_ATYPE (type prev) = PB_ATYPE_STATIC \<and> PB_HTYPE (type prev) = PB_HTYPE_REPEATED
      then ucast (data_size prev) * ucast (array_size prev)
      else if PB_ATYPE (type prev) = PB_ATYPE_POINTER then 8
      else ucast (data_size prev))"

definition pb_field_iter_next :: "pb_field_iter_t \<Rightarrow> (bool \<times> pb_field_iter_t) option" where
  "pb_field_iter_next it =
     (case it_field it of
        None \<Rightarrow> None
      | Some prev \<Rightarrow>
          if tag prev = 0 then Some (False, it)
          else let it' = it\<lparr>it_pos := Suc (it_pos it)\<rparr> in
               (case it_field it' of
                  None \<Rightarrow> None
                | Some f \<Rightarrow>
                    if tag f = 0
                    then map_option (\<lambda>(_, b). (False, b)) (pb_field_iter_begin (it_start it) (dest_struct it))
                    else if PB_HTYPE (type prev) = PB_HTYPE_ONEOF \<and> PB_HTYPE (type f) = PB_HTYPE_ONEOF \<and>
                            data_offset f = PB_SIZE_MAX
                    then Some (True, it')
                    else let pd = pData it + uint (prev_size prev) + uint (data_offset f) in
                         Some (True,
                           it'\<lparr>required_field_index :=
                                 (if PB_HTYPE (type prev) = PB_HTYPE_REQUIRED
                                  then required_field_index it + 1 else required_field_index it),
                               pData := pd, pSize := pd + sint (size_offset f)\<rparr>)))"

text \<open>
  The \<open>do ... while (iter->pos != start)\<close> loop of \<open>pb_field_iter_find\<close>. A loop
  that does not end is \<open>None\<close>, like one that leaves the array.
\<close>

partial_function (option) find_loop :: "u32 \<Rightarrow> nat \<Rightarrow> pb_field_iter_t \<Rightarrow> (bool \<times> pb_field_iter_t) option" where
  "find_loop tg start it =
     (case it_field it of
        None \<Rightarrow> None
      | Some f \<Rightarrow>
          if tag f = tg \<and> PB_LTYPE (type f) \<noteq> PB_LTYPE_EXTENSION then Some (True, it)
          else (case pb_field_iter_next it of
                  None \<Rightarrow> None
                | Some (_, it') \<Rightarrow>
                    if it_pos it' \<noteq> start then find_loop tg start it' else Some (False, it')))"

declare find_loop.simps [code]

definition pb_field_iter_find :: "pb_field_iter_t \<Rightarrow> u32 \<Rightarrow> (bool \<times> pb_field_iter_t) option" where
  "pb_field_iter_find it tg = find_loop tg (it_pos it) it"

text \<open>The loops that walk over a message end: the iterator only moves forward.\<close>

lemma iter_next_True:
  "pb_field_iter_next it = Some (True, it') \<Longrightarrow>
     it_start it' = it_start it \<and> it_pos it' = Suc (it_pos it) \<and> it_pos it < length (it_start it)"
  by (auto simp: pb_field_iter_next_def it_field_def Let_def pb_field_iter_begin_def
      split: option.splits if_splits list.splits)

section \<open>Descriptor arrays and the positions of their fields\<close>

text \<open>
  A descriptor array: fields with a tag other than 0, then the terminator. \<open>iter_at\<close> is
  the iterator that stands at field \<open>i\<close>, computed from the front by the layout rule:
  the address, and the count of required fields before it.
\<close>

definition pb_fields :: "pb_field_t list \<Rightarrow> bool" where
  "pb_fields fs \<longleftrightarrow> fs \<noteq> [] \<and> tag (last fs) = 0 \<and> (\<forall>f \<in> set (butlast fs). tag f \<noteq> 0)"

definition msg_fields :: "pb_field_t list \<Rightarrow> pb_field_t list" where
  "msg_fields fs = butlast fs"

text \<open>A later member of the same union keeps the address.\<close>

definition union_step :: "pb_field_t \<Rightarrow> pb_field_t \<Rightarrow> bool" where
  "union_step prev f \<longleftrightarrow> PB_HTYPE (type prev) = PB_HTYPE_ONEOF \<and> PB_HTYPE (type f) = PB_HTYPE_ONEOF \<and>
     data_offset f = PB_SIZE_MAX"

primrec iter_at :: "pb_field_t list \<Rightarrow> addr \<Rightarrow> nat \<Rightarrow> pb_field_iter_t" where
  "iter_at fs dest 0 =
     (let pd = dest + uint (data_offset (fs ! 0)) in
      \<lparr>it_start = fs, it_pos = 0, required_field_index = 0, dest_struct = dest,
       pData = pd, pSize = pd + sint (size_offset (fs ! 0))\<rparr>)"
| "iter_at fs dest (Suc i) =
     (let it = iter_at fs dest i; prev = fs ! i; f = fs ! Suc i in
      if union_step prev f then it\<lparr>it_pos := Suc i\<rparr>
      else let pd = pData it + uint (prev_size prev) + uint (data_offset f) in
           it\<lparr>it_pos := Suc i,
              required_field_index :=
                (if PB_HTYPE (type prev) = PB_HTYPE_REQUIRED
                 then required_field_index it + 1 else required_field_index it),
              pData := pd, pSize := pd + sint (size_offset f)\<rparr>)"

lemma iter_at_sel [simp]:
  "it_start (iter_at fs dest i) = fs" "it_pos (iter_at fs dest i) = i" "dest_struct (iter_at fs dest i) = dest"
  by (induction i) (simp_all add: Let_def)

lemma pb_fields_length: "pb_fields fs \<Longrightarrow> length fs = Suc (length (msg_fields fs))"
  by (cases fs) (auto simp: pb_fields_def msg_fields_def)

lemma pb_fields_nth:
  assumes "pb_fields fs"
  shows "i < length (msg_fields fs) \<Longrightarrow> fs ! i = msg_fields fs ! i \<and> tag (fs ! i) \<noteq> 0"
    "tag (fs ! length (msg_fields fs)) = 0"
proof -
  assume "i < length (msg_fields fs)"
  moreover from this have "butlast fs ! i = fs ! i" by (simp add: msg_fields_def nth_butlast)
  ultimately show "fs ! i = msg_fields fs ! i \<and> tag (fs ! i) \<noteq> 0"
    using assms nth_mem [of i "butlast fs"] by (auto simp: pb_fields_def msg_fields_def)
next
  show "tag (fs ! length (msg_fields fs)) = 0"
    using assms by (auto simp: pb_fields_def msg_fields_def last_conv_nth)
qed

lemma it_field_at:
  "i < length fs \<Longrightarrow> it_field (iter_at fs dest i) = Some (fs ! i)"
  by (simp add: it_field_def)

lemma iter_begin_at:
  "pb_fields fs \<Longrightarrow> pb_field_iter_begin fs dest = Some (msg_fields fs \<noteq> [], iter_at fs dest 0)"
proof -
  assume fs: "pb_fields fs"
  then obtain f fs' where f: "fs = f # fs'" by (cases fs) (auto simp: pb_fields_def)
  have "tag f \<noteq> 0 \<longleftrightarrow> msg_fields fs \<noteq> []"
    using pb_fields_nth(1) [OF fs, of 0] pb_fields_nth(2) [OF fs] f by (cases "msg_fields fs") auto
  then show ?thesis by (simp add: f pb_field_iter_begin_def Let_def)
qed

text \<open>One step: the iterator moves to the next field, and from the last field back to the
  first.\<close>

lemma iter_next_at:
  assumes "pb_fields fs" "i < length (msg_fields fs)"
  shows "pb_field_iter_next (iter_at fs dest i) =
     (if Suc i < length (msg_fields fs) then Some (True, iter_at fs dest (Suc i))
      else Some (False, iter_at fs dest 0))"
proof -
  have len: "length fs = Suc (length (msg_fields fs))" using assms(1) by (rule pb_fields_length)
  have prev: "it_field (iter_at fs dest i) = Some (fs ! i)" "tag (fs ! i) \<noteq> 0"
    using assms len pb_fields_nth(1) [OF assms(1), of i] by (auto simp: it_field_at)
  have cur: "it_field (iter_at fs dest i\<lparr>it_pos := Suc i\<rparr>) = Some (fs ! Suc i)"
    using assms len by (simp add: it_field_def)
  show ?thesis
  proof (cases "Suc i < length (msg_fields fs)")
    case True
    then have "tag (fs ! Suc i) \<noteq> 0" using pb_fields_nth(1) [OF assms(1)] by blast
    with True prev cur show ?thesis
      by (simp add: pb_field_iter_next_def Let_def union_step_def)
  next
    case False
    with assms(2) have "Suc i = length (msg_fields fs)" by simp
    then have "tag (fs ! Suc i) = 0" using pb_fields_nth(2) [OF assms(1)] by simp
    with False prev cur show ?thesis
      by (simp add: pb_field_iter_next_def Let_def iter_begin_at [OF assms(1)])
  qed
qed

text \<open>An empty message: the first descriptor is the terminator and the iterator does not move.\<close>

lemma iter_next_empty:
  "pb_fields fs \<Longrightarrow> msg_fields fs = [] \<Longrightarrow>
     pb_field_iter_next (iter_at fs dest 0) = Some (False, iter_at fs dest 0)"
  using pb_fields_nth(2) [of fs] pb_fields_length [of fs]
  by (simp add: pb_field_iter_next_def it_field_at del: iter_at.simps)

section \<open>Searching\<close>

definition matches :: "u32 \<Rightarrow> pb_field_t \<Rightarrow> bool" where
  "matches tg f \<longleftrightarrow> tag f = tg \<and> PB_LTYPE (type f) \<noteq> PB_LTYPE_EXTENSION"

lemma find_loop_at:
  assumes "pb_fields fs" "n = length (msg_fields fs)" "i < n" "k < n"
    "\<forall>k' < k. \<not> matches tg (fs ! ((i + k') mod n))"
  shows "if \<exists>m < n. matches tg (fs ! ((i + m) mod n))
     then \<exists>m < n. matches tg (fs ! ((i + m) mod n)) \<and> (\<forall>k' < m. \<not> matches tg (fs ! ((i + k') mod n))) \<and>
            find_loop tg i (iter_at fs dest ((i + k) mod n)) = Some (True, iter_at fs dest ((i + m) mod n))
     else find_loop tg i (iter_at fs dest ((i + k) mod n)) = Some (False, iter_at fs dest i)"
  using assms(4,5)
proof (induction "n - k" arbitrary: k)
  case (Suc d)
  let ?p = "(i + k) mod n"
  have p: "?p < n" using assms(3) by simp
  then have f: "it_field (iter_at fs dest ?p) = Some (fs ! ?p)"
    using assms(1,2) pb_fields_length [of fs] by (simp add: it_field_at)
  show ?case
  proof (cases "matches tg (fs ! ?p)")
    case True
    then have "find_loop tg i (iter_at fs dest ?p) = Some (True, iter_at fs dest ?p)"
      using f by (subst find_loop.simps) (auto simp: matches_def)
    with True Suc.prems show ?thesis by auto
  next
    case False
    have nxt: "pb_field_iter_next (iter_at fs dest ?p) =
        Some (Suc ?p < n, iter_at fs dest ((i + Suc k) mod n))"
      using iter_next_at [OF assms(1), of ?p dest] p assms(2) by (simp add: mod_Suc)
    have less: "\<forall>k' < Suc k. \<not> matches tg (fs ! ((i + k') mod n))"
      using Suc.prems False by (auto simp: less_Suc_eq)
    show ?thesis
    proof (cases "Suc k < n")
      case True
      have "(i + Suc k) mod n \<noteq> i"
      proof (cases "i + Suc k < n")
        case ge: False
        then have "(i + Suc k) mod n = i + Suc k - n" using assms(3) True by (simp add: mod_if)
        then show ?thesis using True ge by simp
      qed simp
      then have step: "find_loop tg i (iter_at fs dest ?p) = find_loop tg i (iter_at fs dest ((i + Suc k) mod n))"
        using f nxt False by (subst find_loop.simps) (auto simp: matches_def)
      have d: "d = n - Suc k" using Suc.hyps(2) by simp
      show ?thesis unfolding step by (rule Suc.hyps(1) [OF d True less])
    next
      case last: False
      then have k: "Suc k = n" using Suc.prems by simp
      then have wrap: "(i + Suc k) mod n = i" using assms(3) by simp
      have "find_loop tg i (iter_at fs dest ?p) = Some (False, iter_at fs dest i)"
        using f nxt False wrap by (subst find_loop.simps) (auto simp: matches_def)
      with less k show ?thesis by auto
    qed
  qed
qed simp

lemma pb_field_iter_find_at:
  assumes "pb_fields fs" "n = length (msg_fields fs)" "i < n"
  shows "if \<exists>k < n. matches tg (fs ! ((i + k) mod n))
     then \<exists>k < n. matches tg (fs ! ((i + k) mod n)) \<and> (\<forall>k' < k. \<not> matches tg (fs ! ((i + k') mod n))) \<and>
            pb_field_iter_find (iter_at fs dest i) tg = Some (True, iter_at fs dest ((i + k) mod n))
     else pb_field_iter_find (iter_at fs dest i) tg = Some (False, iter_at fs dest i)"
  using find_loop_at [OF assms, of 0 tg dest] assms(3) unfolding pb_field_iter_find_def iter_at_sel
  by (simp only: add_0_right mod_less not_less_zero simp_thms) auto

lemma rotate_ex: "(i :: nat) < n \<Longrightarrow> (\<exists>k < n. P ((i + k) mod n)) \<longleftrightarrow> (\<exists>j < n. P j)"
proof
  assume i: "i < n" and "\<exists>j < n. P j"
  then obtain j where j: "j < n" "P j" by blast
  let ?k = "(j + n - i) mod n"
  have "(i + ?k) mod n = (i + (j + n - i)) mod n" by (simp add: mod_add_right_eq)
  also have "i + (j + n - i) = j + n" using i by simp
  finally have "(i + ?k) mod n = j" using j(1) by simp
  moreover have "?k < n" using i by simp
  ultimately show "\<exists>k < n. P ((i + k) mod n)" using j(2) by metis
next
  assume "i < n" "\<exists>k < n. P ((i + k) mod n)"
  then show "\<exists>j < n. P j" by (metis mod_less_divisor gr_zeroI not_less_zero)
qed

text \<open>The number of required fields before a position; unions hold no required field.\<close>

lemma required_index_count:
  assumes "pb_fields fs" "i < length (msg_fields fs)" "length fs < 2 ^ 32"
  shows "unat (required_field_index (iter_at fs dest i)) =
     length (filter (\<lambda>f. PB_HTYPE (type f) = PB_HTYPE_REQUIRED) (take i (msg_fields fs)))"
  using assms(2)
proof (induction i)
  case (Suc i)
  let ?req = "\<lambda>f. PB_HTYPE (type f) = PB_HTYPE_REQUIRED"
  have fi: "fs ! i = msg_fields fs ! i" using Suc.prems pb_fields_nth(1) [OF assms(1), of i] by simp
  have t: "take (Suc i) (msg_fields fs) = take i (msg_fields fs) @ [fs ! i]"
    using Suc.prems fi by (simp add: take_Suc_conv_app_nth)
  have "length (filter ?req (take i (msg_fields fs))) \<le> i"
    using length_filter_le [of ?req "take i (msg_fields fs)"] Suc.prems by simp
  then have b: "length (filter ?req (take i (msg_fields fs))) + 1 < 2 ^ 32"
    using Suc.prems assms(3) pb_fields_length [OF assms(1)] by simp
  have IH: "unat (required_field_index (iter_at fs dest i)) = length (filter ?req (take i (msg_fields fs)))"
    using Suc by simp
  have "unat (required_field_index (iter_at fs dest i) + 1) =
      unat (required_field_index (iter_at fs dest i)) + 1"
    using b IH by (simp add: unat_word_ariths)
  moreover have "\<not> (union_step (fs ! i) (fs ! Suc i) \<and> ?req (fs ! i))"
    by (simp add: union_step_def pb_type_defs)
  ultimately show ?case using IH by (auto simp: t Let_def)
qed (simp add: Let_def)

section \<open>Properties of the iterator\<close>

text \<open>C7: \<open>pb_field_iter_find\<close> from any position of a non-empty message returns, and
  succeeds exactly when the message has a field with the wanted tag that is not an extension
  placeholder. It stops at the first such field in cyclic order from where it stood, with the
  address of that field, and when there is none it stands where it started.\<close>

theorem pb_field_iter_find_correct:
  assumes "pb_fields fs" "i < length (msg_fields fs)"
  shows "if \<exists>f \<in> set (msg_fields fs). tag f = tg \<and> PB_LTYPE (type f) \<noteq> PB_LTYPE_EXTENSION
     then \<exists>j < length (msg_fields fs). tag (fs ! j) = tg \<and> PB_LTYPE (type (fs ! j)) \<noteq> PB_LTYPE_EXTENSION \<and>
            pb_field_iter_find (iter_at fs dest i) tg = Some (True, iter_at fs dest j)
     else pb_field_iter_find (iter_at fs dest i) tg = Some (False, iter_at fs dest i)"
proof -
  let ?n = "length (msg_fields fs)"
  have "(\<exists>f \<in> set (msg_fields fs). matches tg f) \<longleftrightarrow> (\<exists>j < ?n. matches tg (fs ! j))"
    using pb_fields_nth(1) [OF assms(1)] by (metis in_set_conv_nth)
  also have "\<dots> \<longleftrightarrow> (\<exists>k < ?n. matches tg (fs ! ((i + k) mod ?n)))"
    using rotate_ex [OF assms(2), of "\<lambda>j. matches tg (fs ! j)"] by simp
  finally have ex: "(\<exists>f \<in> set (msg_fields fs). matches tg f) \<longleftrightarrow> (\<exists>k < ?n. matches tg (fs ! ((i + k) mod ?n)))" .
  have "(i + k) mod ?n < ?n" for k by (rule mod_less_divisor) (use assms(2) in linarith)
  then show ?thesis
    using pb_field_iter_find_at [OF assms(1) refl assms(2), of tg dest] ex
    unfolding matches_def by (auto split: if_splits)
qed

theorem pb_field_iter_find_correct_witness:
  "pb_field_iter_find (iter_at [PB_LAST_FIELD\<lparr>tag := 1\<rparr>, PB_LAST_FIELD\<lparr>tag := 2\<rparr>, PB_LAST_FIELD] 100 1) 7 =
     Some (False, iter_at [PB_LAST_FIELD\<lparr>tag := 1\<rparr>, PB_LAST_FIELD\<lparr>tag := 2\<rparr>, PB_LAST_FIELD] 100 1)"
  using pb_field_iter_find_correct
    [of "[PB_LAST_FIELD\<lparr>tag := 1\<rparr>, PB_LAST_FIELD\<lparr>tag := 2\<rparr>, PB_LAST_FIELD]" 1 7 100]
  by (simp add: pb_fields_def msg_fields_def PB_LAST_FIELD_def)

text \<open>The walk of the encoder and the decoder: \<open>pb_field_iter_begin\<close>, then
  \<open>pb_field_iter_next\<close> until it returns false.\<close>

primrec iter_walk :: "nat \<Rightarrow> pb_field_iter_t \<Rightarrow> pb_field_iter_t list option" where
  "iter_walk 0 it = None"
| "iter_walk (Suc n) it =
     (case pb_field_iter_next it of
        None \<Rightarrow> None
      | Some (True, it') \<Rightarrow> map_option (Cons it) (iter_walk n it')
      | Some (False, it') \<Rightarrow> Some [it])"

text \<open>C8: the loop \<open>do ... while (pb_field_iter_next(&iter))\<close> visits every field of the
  message once, in order, ends at the terminator without reading beyond it, and the required-field
  index at each stop is the number of required fields before it.\<close>

theorem iter_walk_visits_all:
  assumes "pb_fields fs" "msg_fields fs \<noteq> []" "length fs < 2 ^ 32"
  shows "pb_field_iter_begin fs dest = Some (True, iter_at fs dest 0) \<and>
    iter_walk (length (msg_fields fs)) (iter_at fs dest 0) =
      Some (map (iter_at fs dest) [0..<length (msg_fields fs)]) \<and>
    (\<forall>i < length (msg_fields fs).
       it_field (iter_at fs dest i) = Some (msg_fields fs ! i) \<and>
       unat (required_field_index (iter_at fs dest i)) =
         length (filter (\<lambda>f. PB_HTYPE (type f) = PB_HTYPE_REQUIRED) (take i (msg_fields fs))))"
proof -
  let ?n = "length (msg_fields fs)"
  have "iter_walk k (iter_at fs dest i) = Some (map (iter_at fs dest) [i..<?n])"
    if "i + k = ?n" "k \<noteq> 0" for i k
    using that
  proof (induction k arbitrary: i)
    case (Suc k)
    then have i: "i < ?n" by simp
    then have u: "[i..<?n] = i # [Suc i..<?n]" by (rule upt_conv_Cons)
    show ?case
    proof (cases "k = 0")
      case True
      with Suc.prems have "\<not> Suc i < ?n" "[Suc i..<?n] = []" by simp_all
      then show ?thesis using iter_next_at [OF assms(1) i, of dest] u by simp
    next
      case False
      with Suc.prems have "Suc i < ?n" by simp
      then show ?thesis using iter_next_at [OF assms(1) i, of dest] u Suc.IH [of "Suc i"] Suc.prems(1) False
        by (simp del: iter_at.simps)
    qed
  qed simp
  from this [of 0 ?n] have "iter_walk ?n (iter_at fs dest 0) = Some (map (iter_at fs dest) [0..<?n])"
    using assms(2) by simp
  moreover have "it_field (iter_at fs dest i) = Some (msg_fields fs ! i)" if "i < ?n" for i
    using that pb_fields_nth(1) [OF assms(1) that] pb_fields_length [OF assms(1)] by (simp add: it_field_at)
  ultimately show ?thesis
    using iter_begin_at [OF assms(1), of dest] assms(2) required_index_count [OF assms(1) _ assms(3)]
    by simp
qed

theorem iter_walk_visits_all_witness:
  "iter_walk 2 (iter_at [PB_LAST_FIELD\<lparr>tag := 1\<rparr>, PB_LAST_FIELD\<lparr>tag := 2\<rparr>, PB_LAST_FIELD] 100 0) =
     Some (map (iter_at [PB_LAST_FIELD\<lparr>tag := 1\<rparr>, PB_LAST_FIELD\<lparr>tag := 2\<rparr>, PB_LAST_FIELD] 100) [0..<2])"
proof -
  let ?fs = "[PB_LAST_FIELD\<lparr>tag := 1\<rparr>, PB_LAST_FIELD\<lparr>tag := 2\<rparr>, PB_LAST_FIELD]"
  have "pb_fields ?fs" "msg_fields ?fs \<noteq> []" "length ?fs < 2 ^ 32" "length (msg_fields ?fs) = 2"
    by (simp_all add: pb_fields_def msg_fields_def PB_LAST_FIELD_def)
  then show ?thesis using iter_walk_visits_all [of ?fs 100] by metis
qed

end
