(* ===== verification/C_Memory.thy ===== *)
theory C_Memory
  imports Pb_Types Pb_Varint
begin

unbundle bit_operations_syntax

text \<open>
  The memory in which message structs, allocated arrays, callback and extension records live: a
  byte for every address of a live object and nothing elsewhere, and the sizes of the heap
  blocks. Addresses are integers, NULL is 0. Every load or store of an address without an object
  is an error (\<open>None\<close>). Numbers are little-endian; a pointer is a 64-bit number.
\<close>

section \<open>Loads and stores\<close>

record c_mem =
  cells :: "addr \<Rightarrow> u8 option"
  blocks :: "addr \<Rightarrow> nat option"

primrec load_bytes :: "c_mem \<Rightarrow> addr \<Rightarrow> nat \<Rightarrow> u8 list option" where
  "load_bytes m a 0 = Some []"
| "load_bytes m a (Suc n) =
     (case cells m a of
        None \<Rightarrow> None
      | Some b \<Rightarrow> map_option (Cons b) (load_bytes m (a + 1) n))"

primrec store_bytes :: "c_mem \<Rightarrow> addr \<Rightarrow> u8 list \<Rightarrow> c_mem option" where
  "store_bytes m a [] = Some m"
| "store_bytes m a (b # bs) =
     (if cells m a = None then None
      else store_bytes (m\<lparr>cells := (cells m)(a := Some b)\<rparr>) (a + 1) bs)"

definition load_nat :: "c_mem \<Rightarrow> addr \<Rightarrow> nat \<Rightarrow> nat option" where
  "load_nat m a n = map_option le_value (load_bytes m a n)"

definition load8 :: "c_mem \<Rightarrow> addr \<Rightarrow> u8 option" where
  "load8 m a = cells m a"

definition load16 :: "c_mem \<Rightarrow> addr \<Rightarrow> u16 option" where
  "load16 m a = map_option of_nat (load_nat m a 2)"

definition load32 :: "c_mem \<Rightarrow> addr \<Rightarrow> u32 option" where
  "load32 m a = map_option of_nat (load_nat m a 4)"

definition load64 :: "c_mem \<Rightarrow> addr \<Rightarrow> u64 option" where
  "load64 m a = map_option of_nat (load_nat m a 8)"

definition load_ptr :: "c_mem \<Rightarrow> addr \<Rightarrow> addr option" where
  "load_ptr m a = map_option int (load_nat m a 8)"

definition store_word :: "c_mem \<Rightarrow> addr \<Rightarrow> nat \<Rightarrow> 'a::len word \<Rightarrow> c_mem option" where
  "store_word m a n v = store_bytes m a (le_bytes n (unat v))"

definition store_ptr :: "c_mem \<Rightarrow> addr \<Rightarrow> addr \<Rightarrow> c_mem option" where
  "store_ptr m a p = store_bytes m a (le_bytes 8 (nat p))"

text \<open>\<open>memset(p, 0, n)\<close> and \<open>memcpy(d, s, n)\<close>.\<close>

definition mem_zero :: "c_mem \<Rightarrow> addr \<Rightarrow> nat \<Rightarrow> c_mem option" where
  "mem_zero m a n = store_bytes m a (replicate n 0)"

definition mem_copy :: "c_mem \<Rightarrow> addr \<Rightarrow> addr \<Rightarrow> nat \<Rightarrow> c_mem option" where
  "mem_copy m d s n = Option.bind (load_bytes m s n) (store_bytes m d)"

section \<open>Laws\<close>

definition mapped :: "c_mem \<Rightarrow> addr \<Rightarrow> nat \<Rightarrow> bool" where
  "mapped m a n \<longleftrightarrow> (\<forall>i < n. cells m (a + int i) \<noteq> None)"

lemma mapped_0 [simp]: "mapped m a 0"
  by (simp add: mapped_def)

lemma mapped_Suc: "mapped m a (Suc n) \<longleftrightarrow> cells m a \<noteq> None \<and> mapped m (a + 1) n"
proof -
  have "(\<forall>i < Suc n. cells m (a + int i) \<noteq> None) \<longleftrightarrow>
      cells m a \<noteq> None \<and> (\<forall>i < n. cells m (a + int (Suc i)) \<noteq> None)"
    by (simp add: All_less_Suc2)
  then show ?thesis by (simp add: mapped_def add.assoc)
qed

lemma load_bytes_defined: "(\<exists>bs. load_bytes m a n = Some bs) \<longleftrightarrow> mapped m a n"
  by (induction n arbitrary: a) (auto simp: mapped_Suc split: option.splits)

lemma load_bytes_length: "load_bytes m a n = Some bs \<Longrightarrow> length bs = n"
  by (induction n arbitrary: a bs) (auto split: option.splits)

lemma load_bytes_nth:
  "load_bytes m a n = Some bs \<longleftrightarrow> length bs = n \<and> (\<forall>i < n. cells m (a + int i) = Some (bs ! i))"
proof (induction n arbitrary: a bs)
  case (Suc n)
  show ?case
  proof (cases bs)
    case (Cons b bs')
    have "load_bytes m a (Suc n) = Some bs \<longleftrightarrow> cells m a = Some b \<and> load_bytes m (a + 1) n = Some bs'"
      using Cons by (auto split: option.splits)
    also have "\<dots> \<longleftrightarrow> length bs = Suc n \<and> (\<forall>i < Suc n. cells m (a + int i) = Some (bs ! i))"
      unfolding Suc.IH by (auto simp: Cons All_less_Suc2 add.assoc)
    finally show ?thesis .
  qed (auto split: option.splits)
qed auto

text \<open>What a successful store does to each cell.\<close>

lemma store_bytes_cells:
  "store_bytes m a bs = Some m' \<Longrightarrow>
     cells m' x = (if a \<le> x \<and> x < a + int (length bs) then Some (bs ! nat (x - a)) else cells m x) \<and>
     blocks m' = blocks m"
proof (induction bs arbitrary: m a)
  case (Cons b bs)
  let ?m = "m\<lparr>cells := (cells m)(a := Some b)\<rparr>"
  from Cons.prems have s: "store_bytes ?m (a + 1) bs = Some m'" by (simp split: if_splits)
  have n: "a < x \<Longrightarrow> nat (x - a) = Suc (nat (x - (a + 1)))" by simp
  show ?case using Cons.IH [OF s] by (auto simp: n)
qed auto

lemma store_bytes_defined: "(\<exists>m'. store_bytes m a bs = Some m') \<longleftrightarrow> mapped m a (length bs)"
proof (induction bs arbitrary: m a)
  case (Cons b bs)
  have "mapped (m\<lparr>cells := (cells m)(a := Some b)\<rparr>) (a + 1) (length bs) \<longleftrightarrow> mapped m (a + 1) (length bs)"
    by (auto simp: mapped_def)
  with Cons show ?case by (auto simp: mapped_Suc)
qed simp

lemma store_bytes_domain:
  assumes "store_bytes m a bs = Some m'"
  shows "cells m' x = None \<longleftrightarrow> cells m x = None"
proof -
  have "mapped m a (length bs)" using assms store_bytes_defined by blast
  then have "nat (x - a) < length bs \<Longrightarrow> cells m (a + int (nat (x - a))) \<noteq> None"
    unfolding mapped_def by blast
  then have "a \<le> x \<Longrightarrow> x < a + int (length bs) \<Longrightarrow> cells m x \<noteq> None" by auto
  then show ?thesis using store_bytes_cells [OF assms, of x] by auto
qed

text \<open>The interface that the field coders rely on: a store is read back, and it leaves every
  disjoint range alone.\<close>

locale byte_store =
  fixes load :: "'m \<Rightarrow> addr \<Rightarrow> nat \<Rightarrow> u8 list option"
    and store :: "'m \<Rightarrow> addr \<Rightarrow> u8 list \<Rightarrow> 'm option"
  assumes load_length: "load m a n = Some bs \<Longrightarrow> length bs = n"
    and load_store_same: "store m a bs = Some m' \<Longrightarrow> load m' a (length bs) = Some bs"
    and load_store_other:
      "store m a bs = Some m' \<Longrightarrow> x + int n \<le> a \<or> a + int (length bs) \<le> x \<Longrightarrow> load m' x n = load m x n"
    and store_total: "load m a (length bs) \<noteq> None \<Longrightarrow> \<exists>m'. store m a bs = Some m'"
begin

lemma store_twice:
  assumes "store m a bs = Some m1" "store m1 b cs = Some m2"
    "b + int (length cs) \<le> a \<or> a + int (length bs) \<le> b"
  shows "load m2 a (length bs) = Some bs" "load m2 b (length cs) = Some cs"
  using load_store_same [OF assms(2)] load_store_same [OF assms(1)] load_store_other [OF assms(2), of a "length bs"]
    assms(3) by auto

lemma store_again:
  assumes "store m a bs = Some m1" "length cs = length bs"
  shows "\<exists>m2. store m1 a cs = Some m2 \<and> load m2 a (length bs) = Some cs"
proof -
  have "load m1 a (length cs) \<noteq> None" using load_store_same [OF assms(1)] assms(2) by simp
  then obtain m2 where "store m1 a cs = Some m2" using store_total by blast
  with load_store_same [OF this] assms(2) show ?thesis by auto
qed

end

interpretation c_mem: byte_store load_bytes store_bytes
proof (unfold_locales, goal_cases)
  case (1 m a n bs)
  then show ?case by (rule load_bytes_length)
next
  case (2 m a bs m')
  then show ?case using store_bytes_cells [OF 2] by (auto simp: load_bytes_nth)
next
  case (3 m a bs m' x n)
  have "cells m' (x + int i) = cells m (x + int i)" if "i < n" for i
    using store_bytes_cells [OF 3(1), of "x + int i"] 3(2) that by auto
  then have "load_bytes m' x n = Some v \<longleftrightarrow> load_bytes m x n = Some v" for v
    by (auto simp: load_bytes_nth)
  then show ?case by (metis option.exhaust)
next
  case (4 m a bs)
  then show ?case using store_bytes_defined load_bytes_defined by blast
qed

end
