(* ===== verification/Pb_Encode.thy ===== *)
theory Pb_Encode
  imports Pb_Common Pb_Ostream C_Memory
begin

unbundle bit_operations_syntax

text \<open>
  The message encoder of \<open>pb_encode.c\<close>: the field encoders, arrays, the proto3 default
  check, basic, callback and extension fields, \<open>pb_encode\<close> and submessages.

  The message struct is read from the memory \<open>e_mem\<close>; a descriptor array is found at its
  address by \<open>e_fields\<close>. The user's encode callbacks and extension encoders are
  functions of the environment, called through the pointers that the struct holds.
  \<open>pb_encode\<close> calls itself through \<open>pb_enc_submessage\<close>: the functions between
  take the recursive call as a parameter, and the knot is tied over the nesting depth
  \<open>d\<close> (\<open>Stuck\<close> when a message is nested deeper). \<open>e_chain\<close> bounds the
  length of an extension chain in the same way.
\<close>

section \<open>The environment\<close>

record 'u enc_env =
  e_wr :: "'u write_callback"
  e_mem :: c_mem
  e_fields :: "addr \<Rightarrow> pb_field_t list option"
  e_encode_cb :: "addr \<Rightarrow> 'u pb_ostream_t \<Rightarrow> pb_field_t \<Rightarrow> addr \<Rightarrow> (unit, 'u pb_ostream_t) outcome"
  e_ext_encode :: "addr \<Rightarrow> 'u pb_ostream_t \<Rightarrow> addr \<Rightarrow> (unit, 'u pb_ostream_t) outcome"
  e_chain :: nat

type_synonym 'u pb_encoder_t =
  "'u pb_ostream_t \<Rightarrow> pb_field_t \<Rightarrow> addr \<Rightarrow> (unit, 'u pb_ostream_t) outcome"

type_synonym 'u msg_encoder =
  "'u pb_ostream_t \<Rightarrow> pb_field_t list \<Rightarrow> addr \<Rightarrow> (unit, 'u pb_ostream_t) outcome"

text \<open>The bytes that a pointer passed to \<open>pb_write\<close> gives access to; the write itself
  finds out when they are too few.\<close>

definition mem_buffer :: "c_mem \<Rightarrow> addr \<Rightarrow> u64 \<Rightarrow> pb_byte_t list" where
  "mem_buffer m p n = (case load_bytes m p (unat n) of Some bs \<Rightarrow> bs | None \<Rightarrow> [])"

section \<open>Field encoders\<close>

definition pb_enc_varint :: "'u enc_env \<Rightarrow> 'u pb_encoder_t" where
  "pb_enc_varint env s field src =
     (let m = e_mem env in
      if data_size field = 1 then access (load8 m src) (\<lambda>v. pb_encode_varint (e_wr env) s (scast v))
      else if data_size field = 2 then access (load16 m src) (\<lambda>v. pb_encode_varint (e_wr env) s (scast v))
      else if data_size field = 4 then access (load32 m src) (\<lambda>v. pb_encode_varint (e_wr env) s (scast v))
      else if data_size field = 8 then access (load64 m src) (\<lambda>v. pb_encode_varint (e_wr env) s v)
      else PB_RETURN_OERROR s ''invalid data_size'')"

definition pb_enc_uvarint :: "'u enc_env \<Rightarrow> 'u pb_encoder_t" where
  "pb_enc_uvarint env s field src =
     (let m = e_mem env in
      if data_size field = 1 then access (load8 m src) (\<lambda>v. pb_encode_varint (e_wr env) s (ucast v))
      else if data_size field = 2 then access (load16 m src) (\<lambda>v. pb_encode_varint (e_wr env) s (ucast v))
      else if data_size field = 4 then access (load32 m src) (\<lambda>v. pb_encode_varint (e_wr env) s (ucast v))
      else if data_size field = 8 then access (load64 m src) (\<lambda>v. pb_encode_varint (e_wr env) s v)
      else PB_RETURN_OERROR s ''invalid data_size'')"

definition pb_enc_svarint :: "'u enc_env \<Rightarrow> 'u pb_encoder_t" where
  "pb_enc_svarint env s field src =
     (let m = e_mem env in
      if data_size field = 1 then access (load8 m src) (\<lambda>v. pb_encode_svarint (e_wr env) s (scast v))
      else if data_size field = 2 then access (load16 m src) (\<lambda>v. pb_encode_svarint (e_wr env) s (scast v))
      else if data_size field = 4 then access (load32 m src) (\<lambda>v. pb_encode_svarint (e_wr env) s (scast v))
      else if data_size field = 8 then access (load64 m src) (\<lambda>v. pb_encode_svarint (e_wr env) s v)
      else PB_RETURN_OERROR s ''invalid data_size'')"

definition pb_enc_fixed64 :: "'u enc_env \<Rightarrow> 'u pb_encoder_t" where
  "pb_enc_fixed64 env s field src =
     access (load64 (e_mem env) src) (\<lambda>v. pb_encode_fixed64 (e_wr env) s v)"

definition pb_enc_fixed32 :: "'u enc_env \<Rightarrow> 'u pb_encoder_t" where
  "pb_enc_fixed32 env s field src =
     access (load32 (e_mem env) src) (\<lambda>v. pb_encode_fixed32 (e_wr env) s v)"

definition pb_enc_bytes :: "'u enc_env \<Rightarrow> 'u pb_encoder_t" where
  "pb_enc_bytes env s field src =
     (if src = NULL then pb_encode_string (e_wr env) s [] 0
      else access (load32 (e_mem env) src) (\<lambda>sz.
        if PB_ATYPE (type field) = PB_ATYPE_STATIC \<and>
           PB_BYTES_ARRAY_T_ALLOCSIZE (ucast sz) > ucast (data_size field)
        then PB_RETURN_OERROR s ''bytes size exceeded''
        else pb_encode_string (e_wr env) s (mem_buffer (e_mem env) (src + 4) (ucast sz)) (ucast sz)))"

text \<open>The \<open>strnlen\<close> loop of \<open>pb_enc_string\<close>.\<close>

function strn_loop :: "c_mem \<Rightarrow> addr \<Rightarrow> u64 \<Rightarrow> u64 \<Rightarrow> u64 option" where
  "strn_loop m p sz mx =
     (if sz < mx
      then (case load8 m p of
              None \<Rightarrow> None
            | Some c \<Rightarrow> if c \<noteq> 0 then strn_loop m (p + 1) (sz + 1) mx else Some sz)
      else Some sz)"
  by pat_completeness auto
termination
proof (relation "measure (\<lambda>(m, p, sz, mx). unat mx - unat sz)")
  fix m p and sz mx :: u64 and c :: u8
  assume "sz < mx"
  then have "unat sz < unat mx" by (simp add: word_less_nat_alt)
  moreover from this have "Suc (unat sz) < 18446744073709551616"
    using unat_less_numeral(1) [of mx] by linarith
  then have "unat (sz + 1) = unat sz + 1" by (simp add: unat_word_ariths)
  ultimately show "((m, p + 1, sz + 1, mx), m, p, sz, mx)
      \<in> measure (\<lambda>(m, p, sz, mx). unat mx - unat sz)" by simp
qed simp

declare strn_loop.simps [simp del]

definition pb_enc_string :: "'u enc_env \<Rightarrow> 'u pb_encoder_t" where
  "pb_enc_string env s field src =
     (let mx = (if PB_ATYPE (type field) = PB_ATYPE_POINTER then - 1 else ucast (data_size field)) in
      access (if src = NULL then Some 0 else strn_loop (e_mem env) src 0 mx) (\<lambda>sz.
        pb_encode_string (e_wr env) s (mem_buffer (e_mem env) src sz) sz))"

definition pb_enc_fixed_length_bytes :: "'u enc_env \<Rightarrow> 'u pb_encoder_t" where
  "pb_enc_fixed_length_bytes env s field src =
     pb_encode_string (e_wr env) s (mem_buffer (e_mem env) src (ucast (data_size field)))
       (ucast (data_size field))"

section \<open>Submessages\<close>

definition pb_encode_submessage :: "'u enc_env \<Rightarrow> 'u msg_encoder \<Rightarrow> 'u msg_encoder" where
  "pb_encode_submessage env enc s flds src =
     (case enc PB_OSTREAM_SIZING flds src of
        Stuck \<Rightarrow> Stuck
      | Fail substream \<Rightarrow> Fail (s\<lparr>os_errmsg := os_errmsg substream\<rparr>)
      | Ok _ substream \<Rightarrow>
          let sz = bytes_written substream in
          c_then (pb_encode_varint (e_wr env) s sz) (\<lambda>_ s.
            if os_callback s = Null_write then pb_write (e_wr env) s [] sz
            else if bytes_written s + sz > max_size s then PB_RETURN_OERROR s ''stream full''
            else
              let close = (\<lambda>status sub.
                    let s' = s\<lparr>bytes_written := bytes_written s + bytes_written sub,
                               os_state := os_state sub, os_errmsg := os_errmsg sub\<rparr> in
                    if bytes_written sub \<noteq> sz then PB_RETURN_OERROR s' ''submsg size changed''
                    else if status then Ok () s' else Fail s')
              in (case enc (substream\<lparr>os_callback := os_callback s, os_state := os_state s,
                                      max_size := sz, bytes_written := 0, os_errmsg := None\<rparr>) flds src of
                    Stuck \<Rightarrow> Stuck
                  | Ok _ sub \<Rightarrow> close True sub
                  | Fail sub \<Rightarrow> close False sub)))"

definition pb_enc_submessage :: "'u enc_env \<Rightarrow> 'u msg_encoder \<Rightarrow> 'u pb_encoder_t" where
  "pb_enc_submessage env enc s field src =
     (if ptr field = NULL then PB_RETURN_OERROR s ''invalid field descriptor''
      else access (e_fields env (ptr field)) (\<lambda>flds. pb_encode_submessage env enc s flds src))"

text \<open>The table of field encoders. The entry of extensions is NULL, so calling it is an error;
  reading beyond the table is \<open>None\<close>.\<close>

definition PB_ENCODERS :: "'u enc_env \<Rightarrow> 'u msg_encoder \<Rightarrow> u8 \<Rightarrow> 'u pb_encoder_t option" where
  "PB_ENCODERS env enc lt =
     (if lt = PB_LTYPE_VARINT then Some (pb_enc_varint env)
      else if lt = PB_LTYPE_UVARINT then Some (pb_enc_uvarint env)
      else if lt = PB_LTYPE_SVARINT then Some (pb_enc_svarint env)
      else if lt = PB_LTYPE_FIXED32 then Some (pb_enc_fixed32 env)
      else if lt = PB_LTYPE_FIXED64 then Some (pb_enc_fixed64 env)
      else if lt = PB_LTYPE_BYTES then Some (pb_enc_bytes env)
      else if lt = PB_LTYPE_STRING then Some (pb_enc_string env)
      else if lt = PB_LTYPE_SUBMESSAGE then Some (pb_enc_submessage env enc)
      else if lt = PB_LTYPE_EXTENSION then Some (\<lambda>s field src. Stuck)
      else if lt = PB_LTYPE_FIXED_LENGTH_BYTES then Some (pb_enc_fixed_length_bytes env)
      else None)"

section \<open>Arrays\<close>

text \<open>\<open>for (i = 0; i < count; i++)\<close> over the array at \<open>p\<close>.\<close>

primrec array_loop ::
  "nat \<Rightarrow> (addr \<Rightarrow> 's \<Rightarrow> (unit, 's) outcome) \<Rightarrow> int \<Rightarrow> addr \<Rightarrow> 's \<Rightarrow> (unit, 's) outcome" where
  "array_loop 0 f step p s = Ok () s"
| "array_loop (Suc n) f step p s = c_then (f p s) (\<lambda>_ s. array_loop n f step (p + step) s)"

definition encode_array ::
  "'u enc_env \<Rightarrow> 'u pb_ostream_t \<Rightarrow> pb_field_t \<Rightarrow> addr \<Rightarrow> u64 \<Rightarrow> 'u pb_encoder_t \<Rightarrow> (unit, 'u pb_ostream_t) outcome" where
  "encode_array env s field pd count func =
     (let lt = PB_LTYPE (type field); step = uint (data_size field) in
      if count = 0 then Ok () s
      else if PB_ATYPE (type field) \<noteq> PB_ATYPE_POINTER \<and> count > ucast (array_size field)
      then PB_RETURN_OERROR s ''array max size exceeded''
      else if lt \<le> PB_LTYPE_LAST_PACKABLE
      then c_then (pb_encode_tag (e_wr env) s PB_WT_STRING (tag field)) (\<lambda>_ s.
           let packed = (\<lambda>sz.
                 c_then (pb_encode_varint (e_wr env) s sz) (\<lambda>_ s.
                   if os_callback s = Null_write then pb_write (e_wr env) s [] sz
                   else array_loop (unat count) (\<lambda>p s. func s field p) step pd s))
           in if lt = PB_LTYPE_FIXED32 then packed (4 * count)
              else if lt = PB_LTYPE_FIXED64 then packed (8 * count)
              else (case array_loop (unat count) (\<lambda>p s. func s field p) step pd PB_OSTREAM_SIZING of
                      Stuck \<Rightarrow> Stuck
                    | Fail sizestream \<Rightarrow> Fail s
                    | Ok _ sizestream \<Rightarrow> packed (bytes_written sizestream)))
      else array_loop (unat count) (\<lambda>p s.
             c_then (pb_encode_tag_for_field (e_wr env) s field) (\<lambda>_ s.
               if PB_ATYPE (type field) = PB_ATYPE_POINTER \<and> (lt = PB_LTYPE_STRING \<or> lt = PB_LTYPE_BYTES)
               then access (load_ptr (e_mem env) p) (\<lambda>q. func s field q)
               else func s field p)) step pd s)"

section \<open>The proto3 default check\<close>

function check_loop :: "(pb_field_t \<Rightarrow> addr \<Rightarrow> bool option) \<Rightarrow> pb_field_iter_t \<Rightarrow> bool option" where
  "check_loop chk it =
     (case it_field it of
        None \<Rightarrow> None
      | Some f \<Rightarrow>
          (case chk f (pData it) of
             None \<Rightarrow> None
           | Some False \<Rightarrow> Some False
           | Some True \<Rightarrow>
               (case pb_field_iter_next it of
                  None \<Rightarrow> None
                | Some (True, it') \<Rightarrow> check_loop chk it'
                | Some (False, it') \<Rightarrow> Some True)))"
  by pat_completeness auto
termination
  by (relation "measure (\<lambda>(chk, it). length (it_start it) - it_pos it)") (auto dest!: iter_next_True)

declare check_loop.simps [simp del]

primrec zero_loop :: "nat \<Rightarrow> c_mem \<Rightarrow> addr \<Rightarrow> bool option" where
  "zero_loop 0 m p = Some True"
| "zero_loop (Suc n) m p =
     (case load8 m p of
        None \<Rightarrow> None
      | Some b \<Rightarrow> if b \<noteq> 0 then Some False else zero_loop n m (p + 1))"

definition proto3_default_value ::
  "'u enc_env \<Rightarrow> (pb_field_t \<Rightarrow> addr \<Rightarrow> bool option) \<Rightarrow> pb_field_t \<Rightarrow> addr \<Rightarrow> bool option" where
  "proto3_default_value env chk field pd =
     (let ty = type field; ps = pd + sint (size_offset field); m = e_mem env in
      if PB_HTYPE ty = PB_HTYPE_REQUIRED then Some False
      else if PB_HTYPE ty = PB_HTYPE_REPEATED then map_option (\<lambda>n. n = 0) (load32 m ps)
      else if PB_HTYPE ty = PB_HTYPE_ONEOF then map_option (\<lambda>n. n = 0) (load32 m ps)
      else if PB_HTYPE ty = PB_HTYPE_OPTIONAL \<and> size_offset field \<noteq> 0
      then map_option (\<lambda>b. b = 0) (load8 m ps)
      else if PB_ATYPE ty = PB_ATYPE_STATIC \<and> PB_LTYPE ty = PB_LTYPE_BYTES
      then map_option (\<lambda>n. n = 0) (load32 m pd)
      else if PB_ATYPE ty = PB_ATYPE_STATIC \<and> PB_LTYPE ty = PB_LTYPE_STRING
      then map_option (\<lambda>c. c = 0) (load8 m pd)
      else if PB_ATYPE ty = PB_ATYPE_STATIC \<and> PB_LTYPE ty = PB_LTYPE_FIXED_LENGTH_BYTES
      then Some (data_size field = 0)
      else if PB_ATYPE ty = PB_ATYPE_STATIC \<and> PB_LTYPE ty = PB_LTYPE_SUBMESSAGE
      then (case e_fields env (ptr field) of
              None \<Rightarrow> None
            | Some flds \<Rightarrow>
                (case pb_field_iter_begin flds pd of
                   None \<Rightarrow> None
                 | Some (True, it) \<Rightarrow> check_loop chk it
                 | Some (False, it) \<Rightarrow> Some True))
      else zero_loop (unat (data_size field)) m pd)"

text \<open>The recursion into submessages, over the nesting depth.\<close>

primrec pb_check_proto3_default_value :: "nat \<Rightarrow> 'u enc_env \<Rightarrow> pb_field_t \<Rightarrow> addr \<Rightarrow> bool option" where
  "pb_check_proto3_default_value 0 env = (\<lambda>field pd. None)"
| "pb_check_proto3_default_value (Suc d) env =
     proto3_default_value env (pb_check_proto3_default_value d env)"

section \<open>Fields\<close>

text \<open>
  \<open>pSize\<close> points to the local variable \<open>implicit_has\<close> or into the struct: its value
  as a \<open>bool\<close> and as a \<open>pb_size_t\<close>. The local variable has one byte, so reading a
  \<open>pb_size_t\<close> from it is an error.
\<close>

definition encode_basic_field ::
  "'u enc_env \<Rightarrow> (pb_field_t \<Rightarrow> addr \<Rightarrow> bool option) \<Rightarrow> 'u msg_encoder \<Rightarrow> 'u pb_encoder_t" where
  "encode_basic_field env chk enc s field pd =
     (let m = e_mem env; ty = type field; ps = pd + sint (size_offset field);
          explicit = (size_offset field \<noteq> 0) in
      access (PB_ENCODERS env enc (PB_LTYPE ty)) (\<lambda>func.
      access (if explicit then Some True
              else if PB_HTYPE ty = PB_HTYPE_OPTIONAL then map_option Not (chk field pd)
              else Some True) (\<lambda>has0.
      access (if PB_ATYPE ty = PB_ATYPE_POINTER then load_ptr m pd else Some pd) (\<lambda>data.
      let implicit_has = (if PB_ATYPE ty = PB_ATYPE_POINTER then data \<noteq> NULL else has0);
          present = (\<lambda>s. c_then (pb_encode_tag_for_field (e_wr env) s field) (\<lambda>_ s. func s field data))
      in if PB_HTYPE ty = PB_HTYPE_REQUIRED
         then if data = NULL then PB_RETURN_OERROR s ''missing required field'' else present s
         else if PB_HTYPE ty = PB_HTYPE_OPTIONAL
         then access (if explicit then map_option (\<lambda>b. b \<noteq> 0) (load8 m ps) else Some implicit_has) (\<lambda>has.
                if has then present s else Ok () s)
         else if PB_HTYPE ty = PB_HTYPE_REPEATED
         then access (if explicit then load32 m ps else Some (array_size field)) (\<lambda>count.
                encode_array env s field data (ucast count) func)
         else if PB_HTYPE ty = PB_HTYPE_ONEOF
         then access (if explicit then load32 m ps else None) (\<lambda>which.
                if which = tag field then present s else Ok () s)
         else PB_RETURN_OERROR s ''invalid field type''))))"

definition encode_callback_field :: "'u enc_env \<Rightarrow> 'u pb_encoder_t" where
  "encode_callback_field env s field pd =
     access (load_ptr (e_mem env) pd) (\<lambda>encode.
       if encode \<noteq> NULL
       then (case e_encode_cb env encode s field (pd + 8) of
               Fail s' \<Rightarrow> PB_RETURN_OERROR s' ''callback error''
             | r \<Rightarrow> r)
       else Ok () s)"

definition encode_field ::
  "'u enc_env \<Rightarrow> (pb_field_t \<Rightarrow> addr \<Rightarrow> bool option) \<Rightarrow> 'u msg_encoder \<Rightarrow> 'u pb_encoder_t" where
  "encode_field env chk enc s field pd =
     (if PB_ATYPE (type field) = PB_ATYPE_STATIC \<or> PB_ATYPE (type field) = PB_ATYPE_POINTER
      then encode_basic_field env chk enc s field pd
      else if PB_ATYPE (type field) = PB_ATYPE_CALLBACK then encode_callback_field env s field pd
      else PB_RETURN_OERROR s ''invalid field type'')"

text \<open>
  Extensions. A \<open>pb_extension_t\<close> has \<open>type\<close> at offset 0, \<open>dest\<close> at 8 and
  \<open>next\<close> at 16; a \<open>pb_extension_type_t\<close> has \<open>encode\<close> at offset 8 and
  \<open>arg\<close> at 16.
\<close>

definition default_extension_encoder ::
  "'u enc_env \<Rightarrow> (pb_field_t \<Rightarrow> addr \<Rightarrow> bool option) \<Rightarrow> 'u msg_encoder \<Rightarrow> 'u pb_ostream_t \<Rightarrow> addr \<Rightarrow>
   (unit, 'u pb_ostream_t) outcome" where
  "default_extension_encoder env chk enc s extension =
     access (load_ptr (e_mem env) extension) (\<lambda>etype.
     access (load_ptr (e_mem env) (etype + 16)) (\<lambda>arg.
     access (e_fields env arg) (\<lambda>flds.
       (case flds of
          [] \<Rightarrow> Stuck
        | field # _ \<Rightarrow>
            if PB_ATYPE (type field) = PB_ATYPE_POINTER
            then encode_field env chk enc s field (extension + 8)
            else access (load_ptr (e_mem env) (extension + 8)) (\<lambda>dest. encode_field env chk enc s field dest)))))"

primrec extension_loop ::
  "nat \<Rightarrow> 'u enc_env \<Rightarrow> (pb_field_t \<Rightarrow> addr \<Rightarrow> bool option) \<Rightarrow> 'u msg_encoder \<Rightarrow> 'u pb_ostream_t \<Rightarrow> addr \<Rightarrow>
   (unit, 'u pb_ostream_t) outcome" where
  "extension_loop 0 env chk enc s extension = (if extension = NULL then Ok () s else Stuck)"
| "extension_loop (Suc n) env chk enc s extension =
     (if extension = NULL then Ok () s
      else access (load_ptr (e_mem env) extension) (\<lambda>etype.
           access (load_ptr (e_mem env) (etype + 8)) (\<lambda>encode.
           c_then (if encode \<noteq> NULL then e_ext_encode env encode s extension
                   else default_extension_encoder env chk enc s extension) (\<lambda>_ s.
           access (load_ptr (e_mem env) (extension + 16)) (\<lambda>next_ext.
             extension_loop n env chk enc s next_ext)))))"

definition encode_extension_field ::
  "'u enc_env \<Rightarrow> (pb_field_t \<Rightarrow> addr \<Rightarrow> bool option) \<Rightarrow> 'u msg_encoder \<Rightarrow> 'u pb_encoder_t" where
  "encode_extension_field env chk enc s field pd =
     access (load_ptr (e_mem env) pd) (\<lambda>extension. extension_loop (e_chain env) env chk enc s extension)"

section \<open>Messages\<close>

text \<open>The \<open>do ... while (pb_field_iter_next(&iter))\<close> loop of \<open>pb_encode\<close>.\<close>

function encode_loop ::
  "'u enc_env \<Rightarrow> (pb_field_t \<Rightarrow> addr \<Rightarrow> bool option) \<Rightarrow> 'u msg_encoder \<Rightarrow> pb_field_iter_t \<Rightarrow> 'u pb_ostream_t \<Rightarrow>
   (unit, 'u pb_ostream_t) outcome" where
  "encode_loop env chk enc it s =
     (case it_field it of
        None \<Rightarrow> Stuck
      | Some f \<Rightarrow>
          c_then (if PB_LTYPE (type f) = PB_LTYPE_EXTENSION
                  then encode_extension_field env chk enc s f (pData it)
                  else encode_field env chk enc s f (pData it)) (\<lambda>_ s.
            (case pb_field_iter_next it of
               None \<Rightarrow> Stuck
             | Some (True, it') \<Rightarrow> encode_loop env chk enc it' s
             | Some (False, it') \<Rightarrow> Ok () s)))"
  by pat_completeness auto
termination
  by (relation "measure (\<lambda>(env, chk, enc, it, s). length (it_start it) - it_pos it)")
    (auto dest!: iter_next_True)

declare encode_loop.simps [simp del]

definition encode_message ::
  "'u enc_env \<Rightarrow> (pb_field_t \<Rightarrow> addr \<Rightarrow> bool option) \<Rightarrow> 'u msg_encoder \<Rightarrow> 'u msg_encoder" where
  "encode_message env chk enc s flds src =
     (case pb_field_iter_begin flds src of
        None \<Rightarrow> Stuck
      | Some (False, it) \<Rightarrow> Ok () s
      | Some (True, it) \<Rightarrow> encode_loop env chk enc it s)"

primrec pb_encode :: "nat \<Rightarrow> 'u enc_env \<Rightarrow> 'u msg_encoder" where
  "pb_encode 0 env = (\<lambda>s flds src. Stuck)"
| "pb_encode (Suc d) env =
     encode_message env (pb_check_proto3_default_value d env) (pb_encode d env)"

definition pb_encode_delimited :: "nat \<Rightarrow> 'u enc_env \<Rightarrow> 'u msg_encoder" where
  "pb_encode_delimited d env s flds src = pb_encode_submessage env (pb_encode d env) s flds src"

definition pb_encode_nullterminated :: "nat \<Rightarrow> 'u enc_env \<Rightarrow> 'u msg_encoder" where
  "pb_encode_nullterminated d env s flds src =
     c_then (pb_encode d env s flds src) (\<lambda>_ s. pb_write (e_wr env) s [0] 1)"

definition pb_get_encoded_size ::
  "nat \<Rightarrow> 'u enc_env \<Rightarrow> pb_field_t list \<Rightarrow> addr \<Rightarrow> (u64, 'u pb_ostream_t) outcome" where
  "pb_get_encoded_size d env flds src =
     c_then (pb_encode d env PB_OSTREAM_SIZING flds src) (\<lambda>_ s. Ok (bytes_written s) s)"

end
