(* ===== verification/Pb_Encode_Spec.thy ===== *)
theory Pb_Encode_Spec
  imports Pb_Encode Pb_Encode_Wire_Correct
begin

unbundle bit_operations_syntax

text \<open>
  The specification of the message encoder: the bytes of a message as a function of the
  descriptors and the memory, with no stream in sight. \<open>Fail\<close> is a message that cannot be
  encoded, \<open>Stuck\<close> one whose encoding reads outside an object or has \<open>2 ^ 63\<close> bytes
  or more.
\<close>

section \<open>Byte strings\<close>

type_synonym bytes_res = "(pb_byte_t list, unit) outcome"

definition out :: "pb_byte_t list \<Rightarrow> bytes_res" where
  "out bs = (if length bs < 2 ^ 63 then Ok bs () else Stuck)"

definition bcat :: "bytes_res \<Rightarrow> bytes_res \<Rightarrow> bytes_res" where
  "bcat a b = c_then a (\<lambda>x _. c_then b (\<lambda>y _. out (x @ y)))"

definition delimited :: "bytes_res \<Rightarrow> bytes_res" where
  "delimited a = c_then a (\<lambda>x _. out (varint_bytes (length x) @ x))"

section \<open>Values\<close>

definition load_int :: "c_mem \<Rightarrow> addr \<Rightarrow> u32 \<Rightarrow> int option option" where
  "load_int m a n =
     (if n = 1 then Some (map_option sint (load8 m a))
      else if n = 2 then Some (map_option sint (load16 m a))
      else if n = 4 then Some (map_option sint (load32 m a))
      else if n = 8 then Some (map_option sint (load64 m a))
      else None)"

definition load_uint :: "c_mem \<Rightarrow> addr \<Rightarrow> u32 \<Rightarrow> nat option option" where
  "load_uint m a n =
     (if n = 1 \<or> n = 2 \<or> n = 4 \<or> n = 8 then Some (load_nat m a (unat n)) else None)"

text \<open>A size that is none of 1, 2, 4, 8 is an error of the descriptor.\<close>

definition sized :: "'a option option \<Rightarrow> ('a \<Rightarrow> bytes_res) \<Rightarrow> bytes_res" where
  "sized r f = (case r of None \<Rightarrow> Fail () | Some x \<Rightarrow> access x f)"

definition value_bytes ::
  "'u enc_env \<Rightarrow> (pb_field_t list \<Rightarrow> addr \<Rightarrow> bytes_res) \<Rightarrow> pb_field_t \<Rightarrow> addr \<Rightarrow> bytes_res" where
  "value_bytes env msg field src =
     (let m = e_mem env; lt = PB_LTYPE (type field); n = data_size field in
      if lt = PB_LTYPE_VARINT then sized (load_int m src n) (\<lambda>v. out (varint_bytes (nat (v mod 2 ^ 64))))
      else if lt = PB_LTYPE_UVARINT then sized (load_uint m src n) (\<lambda>v. out (varint_bytes v))
      else if lt = PB_LTYPE_SVARINT then sized (load_int m src n) (\<lambda>v. out (varint_bytes (zigzag v)))
      else if lt = PB_LTYPE_FIXED32 then access (load_bytes m src 4) out
      else if lt = PB_LTYPE_FIXED64 then access (load_bytes m src 8) out
      else if lt = PB_LTYPE_BYTES
      then if src = NULL then delimited (out [])
           else access (load32 m src) (\<lambda>sz.
                if PB_ATYPE (type field) = PB_ATYPE_STATIC \<and> unat (data_size field) < unat sz + 4
                then Fail ()
                else delimited (access (load_bytes m (src + 4) (unat sz)) out))
      else if lt = PB_LTYPE_STRING
      then if src = NULL then delimited (out [])
           else access (strn_loop m src 0 (if PB_ATYPE (type field) = PB_ATYPE_POINTER then - 1
                                           else ucast n)) (\<lambda>sz.
                delimited (access (load_bytes m src (unat sz)) out))
      else if lt = PB_LTYPE_SUBMESSAGE
      then if ptr field = NULL then Fail ()
           else access (e_fields env (ptr field)) (\<lambda>flds. delimited (msg flds src))
      else if lt = PB_LTYPE_FIXED_LENGTH_BYTES
      then delimited (access (load_bytes m src (unat n)) out)
      else Stuck)"

section \<open>Fields and messages\<close>

definition key_bytes :: "pb_field_t \<Rightarrow> pb_wire_type_t \<Rightarrow> bytes_res" where
  "key_bytes field wt = out (varint_bytes (8 * unat (tag field) + unat wt))"

definition field_key :: "pb_field_t \<Rightarrow> bytes_res" where
  "field_key field =
     (case ltype_wire_type (PB_LTYPE (type field)) of Some wt \<Rightarrow> key_bytes field wt | None \<Rightarrow> Fail ())"

primrec array_bytes :: "nat \<Rightarrow> (addr \<Rightarrow> bytes_res) \<Rightarrow> int \<Rightarrow> addr \<Rightarrow> bytes_res" where
  "array_bytes 0 f step p = out []"
| "array_bytes (Suc n) f step p = bcat (f p) (array_bytes n f step (p + step))"

definition repeated_bytes ::
  "'u enc_env \<Rightarrow> (pb_field_t \<Rightarrow> addr \<Rightarrow> bytes_res) \<Rightarrow> pb_field_t \<Rightarrow> addr \<Rightarrow> nat \<Rightarrow> bytes_res" where
  "repeated_bytes env val field pd count =
     (let lt = PB_LTYPE (type field); step = uint (data_size field) in
      if count = 0 then out []
      else if PB_ATYPE (type field) \<noteq> PB_ATYPE_POINTER \<and> unat (array_size field) < count then Fail ()
      else if lt \<le> PB_LTYPE_LAST_PACKABLE
      then bcat (key_bytes field PB_WT_STRING) (delimited (array_bytes count (val field) step pd))
      else array_bytes count (\<lambda>p. bcat (field_key field)
             (if PB_ATYPE (type field) = PB_ATYPE_POINTER \<and> (lt = PB_LTYPE_STRING \<or> lt = PB_LTYPE_BYTES)
              then access (load_ptr (e_mem env) p) (val field) else val field p)) step pd)"

definition basic_field_bytes ::
  "'u enc_env \<Rightarrow> (pb_field_t \<Rightarrow> addr \<Rightarrow> bool option) \<Rightarrow> (pb_field_t list \<Rightarrow> addr \<Rightarrow> bytes_res) \<Rightarrow>
   pb_field_t \<Rightarrow> addr \<Rightarrow> bytes_res" where
  "basic_field_bytes env chk msg field pd =
     (let m = e_mem env; ht = PB_HTYPE (type field); ps = pd + sint (size_offset field);
          explicit = (size_offset field \<noteq> 0); pointer = (PB_ATYPE (type field) = PB_ATYPE_POINTER);
          val = value_bytes env msg;
          present = (\<lambda>data. bcat (field_key field) (val field data)) in
      if PB_LTYPE (type field) \<ge> PB_LTYPES_COUNT then Stuck
      else access (if explicit then Some True
                   else if ht = PB_HTYPE_OPTIONAL then map_option Not (chk field pd)
                   else Some True) (\<lambda>nonzero.
      access (if pointer then load_ptr m pd else Some pd) (\<lambda>data.
      if ht = PB_HTYPE_REQUIRED then if data = NULL then Fail () else present data
      else if ht = PB_HTYPE_OPTIONAL
      then access (if explicit then map_option (\<lambda>b. b \<noteq> 0) (load8 m ps)
                   else Some (if pointer then data \<noteq> NULL else nonzero)) (\<lambda>has.
             if has then present data else out [])
      else if ht = PB_HTYPE_REPEATED
      then access (if explicit then load32 m ps else Some (array_size field)) (\<lambda>count.
             repeated_bytes env val field data (unat count))
      else access (if explicit then load32 m ps else None) (\<lambda>which.
             if which = tag field then present data else out []))))"

text \<open>What the user's callbacks contribute is a parameter of the specification.\<close>

record cb_spec =
  cb_bytes :: "addr \<Rightarrow> pb_field_t \<Rightarrow> addr \<Rightarrow> bytes_res"
  ext_bytes :: "addr \<Rightarrow> addr \<Rightarrow> bytes_res"

definition field_bytes ::
  "cb_spec \<Rightarrow> 'u enc_env \<Rightarrow> (pb_field_t \<Rightarrow> addr \<Rightarrow> bool option) \<Rightarrow> (pb_field_t list \<Rightarrow> addr \<Rightarrow> bytes_res) \<Rightarrow>
   pb_field_t \<Rightarrow> addr \<Rightarrow> bytes_res" where
  "field_bytes cb env chk msg field pd =
     (if PB_ATYPE (type field) = PB_ATYPE_STATIC \<or> PB_ATYPE (type field) = PB_ATYPE_POINTER
      then basic_field_bytes env chk msg field pd
      else if PB_ATYPE (type field) = PB_ATYPE_CALLBACK
      then access (load_ptr (e_mem env) pd) (\<lambda>encode.
             if encode \<noteq> NULL then cb_bytes cb encode field (pd + 8) else out [])
      else Fail ())"

definition extension_bytes ::
  "cb_spec \<Rightarrow> 'u enc_env \<Rightarrow> (pb_field_t \<Rightarrow> addr \<Rightarrow> bool option) \<Rightarrow> (pb_field_t list \<Rightarrow> addr \<Rightarrow> bytes_res) \<Rightarrow>
   addr \<Rightarrow> bytes_res" where
  "extension_bytes cb env chk msg ext =
     access (load_ptr (e_mem env) ext) (\<lambda>etype.
     access (load_ptr (e_mem env) (etype + 16)) (\<lambda>arg.
     access (e_fields env arg) (\<lambda>flds.
       (case flds of
          [] \<Rightarrow> Stuck
        | field # _ \<Rightarrow>
            if PB_ATYPE (type field) = PB_ATYPE_POINTER then field_bytes cb env chk msg field (ext + 8)
            else access (load_ptr (e_mem env) (ext + 8)) (field_bytes cb env chk msg field)))))"

primrec chain_bytes ::
  "nat \<Rightarrow> cb_spec \<Rightarrow> 'u enc_env \<Rightarrow> (pb_field_t \<Rightarrow> addr \<Rightarrow> bool option) \<Rightarrow> (pb_field_t list \<Rightarrow> addr \<Rightarrow> bytes_res) \<Rightarrow>
   addr \<Rightarrow> bytes_res" where
  "chain_bytes 0 cb env chk msg ext = (if ext = NULL then out [] else Stuck)"
| "chain_bytes (Suc n) cb env chk msg ext =
     (if ext = NULL then out []
      else access (load_ptr (e_mem env) ext) (\<lambda>etype.
           access (load_ptr (e_mem env) (etype + 8)) (\<lambda>encode.
           bcat (if encode \<noteq> NULL then ext_bytes cb encode ext else extension_bytes cb env chk msg ext)
             (access (load_ptr (e_mem env) (ext + 16)) (chain_bytes n cb env chk msg)))))"

definition slot_bytes ::
  "cb_spec \<Rightarrow> 'u enc_env \<Rightarrow> (pb_field_t \<Rightarrow> addr \<Rightarrow> bool option) \<Rightarrow> (pb_field_t list \<Rightarrow> addr \<Rightarrow> bytes_res) \<Rightarrow>
   pb_field_t \<Rightarrow> addr \<Rightarrow> bytes_res" where
  "slot_bytes cb env chk msg field pd =
     (if PB_LTYPE (type field) = PB_LTYPE_EXTENSION
      then access (load_ptr (e_mem env) pd) (chain_bytes (e_chain env) cb env chk msg)
      else field_bytes cb env chk msg field pd)"

text \<open>A message is the concatenation of its fields, in the order of the descriptor.\<close>

primrec slots_bytes :: "(pb_field_t \<Rightarrow> addr \<Rightarrow> bytes_res) \<Rightarrow> (pb_field_t \<times> addr) list \<Rightarrow> bytes_res" where
  "slots_bytes f [] = out []"
| "slots_bytes f (x # xs) = bcat (f (fst x) (snd x)) (slots_bytes f xs)"

definition slots :: "pb_field_t list \<Rightarrow> addr \<Rightarrow> (pb_field_t \<times> addr) list" where
  "slots fs src = map (\<lambda>i. (fs ! i, pData (iter_at fs src i))) [0..<length (msg_fields fs)]"

primrec msg_bytes :: "nat \<Rightarrow> cb_spec \<Rightarrow> 'u enc_env \<Rightarrow> pb_field_t list \<Rightarrow> addr \<Rightarrow> bytes_res" where
  "msg_bytes 0 cb env = (\<lambda>fs src. Stuck)"
| "msg_bytes (Suc d) cb env = (\<lambda>fs src.
     if pb_fields fs
     then slots_bytes (slot_bytes cb env (pb_check_proto3_default_value d env) (msg_bytes d cb env))
            (slots fs src)
     else Stuck)"

end
