(* ===== verification/Pb_Encode_Correct.thy ===== *)
theory Pb_Encode_Correct
  imports Pb_Encode_Spec
begin

unbundle bit_operations_syntax

text \<open>
  The encoder implements its specification, on every stream that is a sink: memory streams and
  sizing streams. The proofs are done once, over the sink interface; the recursion through
  submessages is the interface \<open>message_coder\<close>, which \<open>pb_encode\<close> of every
  nesting depth satisfies.
\<close>

section \<open>Streams that can be split for a submessage\<close>

text \<open>The stream that \<open>pb_encode_submessage\<close> makes for the second pass, and how it is closed.\<close>

definition sub_stream :: "'u pb_ostream_t \<Rightarrow> nat \<Rightarrow> 'u pb_ostream_t" where
  "sub_stream s n =
     \<lparr>os_callback = os_callback s, os_state = os_state s, max_size = of_nat n, bytes_written = 0,
      os_errmsg = None\<rparr>"

definition close_sub :: "'u pb_ostream_t \<Rightarrow> 'u pb_ostream_t \<Rightarrow> 'u pb_ostream_t" where
  "close_sub s sub = s\<lparr>bytes_written := bytes_written s + bytes_written sub,
                       os_state := os_state sub, os_errmsg := os_errmsg sub\<rparr>"

locale stream_sink = byte_sink wr good put fits
  for wr :: "'u write_callback" and good put fits +
  assumes put_Nil: "good s \<Longrightarrow> put s [] = s \<and> fits s 0"
    and null_put:
      "good s \<Longrightarrow> os_callback s = Null_write \<Longrightarrow> unat n = length bs \<Longrightarrow>
         pb_write wr s [] n = Ok () (put s bs) \<and> good (put s bs) \<and> fits s (length bs)"
    and room_check:
      "good s \<Longrightarrow> os_callback s \<noteq> Null_write \<Longrightarrow> unat n < 2 ^ 63 \<Longrightarrow>
         bytes_written s + n > max_size s \<longleftrightarrow> \<not> fits s (unat n)"
    and sub_good:
      "good s \<Longrightarrow> os_callback s \<noteq> Null_write \<Longrightarrow> k < 2 ^ 63 \<Longrightarrow> fits s k \<Longrightarrow>
         good (sub_stream s k) \<and> fits (sub_stream s k) k"
    and sub_close:
      "good s \<Longrightarrow> os_callback s \<noteq> Null_write \<Longrightarrow> length bs < 2 ^ 63 \<Longrightarrow> fits s (length bs) \<Longrightarrow>
         bytes_written (put (sub_stream s (length bs)) bs) = of_nat (length bs) \<and>
         close_sub s (put (sub_stream s (length bs)) bs) = put s bs"
begin

text \<open>The outcome \<open>r\<close> on the stream \<open>s\<close> is what the specification says: the bytes are
  put out when they fit, and the call fails when they do not or when there are none.\<close>

definition realizes :: "'u pb_ostream_t \<Rightarrow> (unit, 'u pb_ostream_t) outcome \<Rightarrow> bytes_res \<Rightarrow> bool" where
  "realizes s r spec \<longleftrightarrow>
     (case spec of
        Ok bs u \<Rightarrow> length bs < 2 ^ 63 \<and> emits s bs r
      | Fail u \<Rightarrow> \<exists>s'. r = Fail s'
      | Stuck \<Rightarrow> True)"

lemma realizes_Stuck [simp]: "realizes s r Stuck"
  by (simp add: realizes_def)

lemma realizes_Fail [simp]: "realizes s (Fail s') (Fail u)"
  by (simp add: realizes_def)

lemma realizes_error [simp]: "realizes s (PB_RETURN_OERROR s' msg) (Fail u)"
  by (simp add: realizes_def PB_RETURN_OERROR_def)

lemma realizes_out: "(length bs < 2 ^ 63 \<Longrightarrow> emits s bs r) \<Longrightarrow> realizes s r (out bs)"
  by (simp add: realizes_def out_def)

lemma realizes_access:
  "(\<And>a. x = Some a \<Longrightarrow> realizes s (f a) (g a)) \<Longrightarrow> realizes s (access x f) (access x g)"
  by (cases x) simp_all

lemma realizes_then:
  assumes "good s" "realizes s r a" "\<And>s'. good s' \<Longrightarrow> realizes s' (k () s') b"
  shows "realizes s (c_then r k) (bcat a b)"
proof (cases a)
  case (Ok x u)
  then have x: "emits s x r" "length x < 2 ^ 63" using assms(2) by (simp_all add: realizes_def)
  show ?thesis
  proof (cases b)
    case b: (Ok y v)
    have "emits s (x @ y) (c_then r k)"
      using assms(1) x(1)
    proof (rule emits_then)
      assume "good (put s x)"
      then show "emits (put s x) y (k () (put s x))" using assms(3) b by (simp add: realizes_def)
    qed
    then show ?thesis using Ok b by (simp add: bcat_def realizes_def out_def)
  next
    case b: (Fail v)
    have "\<exists>s'. c_then r k = Fail s'"
    proof (cases "fits s (length x)")
      case True
      then have "r = Ok () (put s x)" "good (put s x)" using x(1) by (auto simp: emits_def)
      then show ?thesis using assms(3) [of "put s x"] b by (auto simp: realizes_def)
    qed (use x(1) in \<open>auto simp: emits_def\<close>)
    then show ?thesis using Ok b by (simp add: bcat_def realizes_def)
  qed (simp add: Ok bcat_def)
next
  case (Fail u)
  then show ?thesis using assms(2) by (auto simp: realizes_def bcat_def)
qed (simp add: bcat_def)

lemma realizes_nil: "good s \<Longrightarrow> realizes s (Ok () s) (out [])"
  using put_Nil [of s] by (intro realizes_out) (simp add: emits_def)

lemma realizes_delimited:
  assumes "realizes s r (out (varint_bytes (length bs) @ bs))"
  shows "realizes s r (delimited (out bs))"
  using assms by (auto simp: delimited_def out_def)

text \<open>The writers of the wire level.\<close>

lemma realizes_varint: "good s \<Longrightarrow> realizes s (pb_encode_varint wr s v) (out (varint_bytes (unat v)))"
  by (intro realizes_out emits_varint)

lemma realizes_string:
  assumes "good s" "unat n = length bs"
  shows "realizes s (pb_encode_string wr s bs n) (delimited (out bs))"
proof (rule realizes_delimited, rule realizes_out)
  assume "length (varint_bytes (length bs) @ bs) < 2 ^ 63"
  then show "emits s (varint_bytes (length bs) @ bs) (pb_encode_string wr s bs n)"
    using assms by (intro emits_string) simp_all
qed

lemma realizes_tag:
  "good s \<Longrightarrow> unat wt < 8 \<Longrightarrow>
     realizes s (pb_encode_tag wr s wt (tag field)) (key_bytes field wt)"
  unfolding key_bytes_def by (intro realizes_out emits_tag)

lemma realizes_field_key: "good s \<Longrightarrow> realizes s (pb_encode_tag_for_field wr s field) (field_key field)"
  unfolding pb_encode_tag_for_field_eq field_key_def
  by (auto split: option.split intro: realizes_tag ltype_wire_type_less)

text \<open>A string read from memory. A sizing stream does not look at the bytes.\<close>

lemma realizes_mem_string:
  assumes "good s"
  shows "realizes s (pb_encode_string wr s (mem_buffer m p n) n)
           (delimited (access (load_bytes m p (unat n)) out))"
proof (cases "load_bytes m p (unat n)")
  case None
  then show ?thesis by (simp add: delimited_def)
next
  case (Some bs)
  then show ?thesis using realizes_string [OF assms, of n bs] load_bytes_length [OF Some]
    by (simp add: mem_buffer_def)
qed

end

section \<open>The field encoders\<close>

lemma u64_of_sint:
  "unat (scast (v :: u8) :: u64) = nat (sint v mod 2 ^ 64)"
  "unat (scast (w :: u16) :: u64) = nat (sint w mod 2 ^ 64)"
  "unat (scast (x :: u32) :: u64) = nat (sint x mod 2 ^ 64)"
  "unat (y :: u64) = nat (sint y mod 2 ^ 64)"
proof -
  have *: "unat (of_int i :: u64) = nat (i mod 2 ^ 64)" for i
    by (simp add: unat_eq_nat_uint uint_word_of_int)
  show "unat (scast v :: u64) = nat (sint v mod 2 ^ 64)" "unat (scast w :: u64) = nat (sint w mod 2 ^ 64)"
    "unat (scast x :: u64) = nat (sint x mod 2 ^ 64)"
    using * [of "sint v"] * [of "sint w"] * [of "sint x"] by simp_all
  show "unat y = nat (sint y mod 2 ^ 64)" using * [of "sint y"] by simp
qed

lemma sint_up:
  "sint (scast (v :: u8) :: u64) = sint v"
  "sint (scast (w :: u16) :: u64) = sint w"
  "sint (scast (x :: u32) :: u64) = sint x"
  by (simp_all add: sint_up_scast is_up)

lemma uint_up_u64: "unat (ucast (v :: u8) :: u64) = unat v" "unat (ucast (w :: u16) :: u64) = unat w"
proof -
  have "unat v < 256" by (rule unat_u8_less)
  also have "(256 :: nat) < 2 ^ 64" by simp
  finally have "unat v < 2 ^ 64" .
  moreover have "unat w < 2 ^ LENGTH(16)" by (rule unsigned_less)
  then have "unat w < 2 ^ 64" by simp
  ultimately show "unat (ucast v :: u64) = unat v" "unat (ucast w :: u64) = unat w"
    by (simp_all add: unsigned_ucast_eq take_bit_nat_eq_self)
qed

lemma load_nat_cases:
  "load_nat m a 1 = map_option unat (load8 m a)"
  "load_nat m a 2 = map_option unat (load16 m a)"
  "load_nat m a 4 = map_option unat (load32 m a)"
  "load_nat m a 8 = map_option unat (load64 m a)"
proof -
  have b: "load_bytes m a n = Some bs \<Longrightarrow> le_value bs < 256 ^ n" for n bs
    using le_value_bound [of bs] load_bytes_length [of m a n bs] by simp
  show "load_nat m a 1 = map_option unat (load8 m a)"
    by (simp add: load_nat_def load8_def split: option.split)
  show "load_nat m a 2 = map_option unat (load16 m a)"
    using b [of 2] by (cases "load_bytes m a 2") (auto simp: load_nat_def load16_def unat_of_nat take_bit_eq_mod)
  show "load_nat m a 4 = map_option unat (load32 m a)"
    using b [of 4] by (cases "load_bytes m a 4") (auto simp: load_nat_def load32_def)
  show "load_nat m a 8 = map_option unat (load64 m a)"
    using b [of 8] by (cases "load_bytes m a 8") (auto simp: load_nat_def load64_def)
qed

section \<open>Memory streams and sizing streams\<close>

text \<open>Streams without an error message so far.\<close>

definition mem_clean :: "'u pb_ostream_t \<Rightarrow> bool" where
  "mem_clean s \<longleftrightarrow> mem_good s \<and> os_errmsg s = None"

definition sizing_clean :: "'u pb_ostream_t \<Rightarrow> bool" where
  "sizing_clean s \<longleftrightarrow> sizing_good s \<and> os_errmsg s = None"

lemma mem_put_errmsg [simp]: "os_errmsg (mem_put s bs) = os_errmsg s"
  by (simp add: mem_put_def)

lemma sizing_put_errmsg [simp]: "os_errmsg (sizing_put s bs) = os_errmsg s"
  by (simp add: sizing_put_def)

lemma mem_cleanE:
  assumes "mem_clean s"
  obtains ob room M w where "s = buf_ostream ob room M w None" "os_room ob room M w" "M \<le> 2 ^ 63"
  using assms by (auto simp: mem_clean_def elim!: mem_goodE)

lemma sub_stream_buf: "sub_stream (buf_ostream ob room M w e) n = buf_ostream ob room n 0 None"
  by (simp add: sub_stream_def buf_ostream_def)

interpretation mem_stream: stream_sink wr mem_clean mem_put mem_fits
proof (unfold_locales, goal_cases)
  case (1 s n bs)
  then show ?case using mem_sink.write_fits [of s n bs] by (simp add: mem_clean_def)
next
  case (2 s n bs)
  then show ?case using mem_sink.write_full [of s n bs] by (simp add: mem_clean_def)
next
  case (3 s a b)
  then show ?case by (rule mem_sink.put_append)
next
  case (4 s a k)
  then show ?case using mem_sink.fits_append [of s a k] by (simp add: mem_clean_def)
next
  case (5 s)
  then show ?case by (auto elim!: mem_cleanE simp: mem_fits_buf) (simp add: os_room_def)
next
  case (6 s n bs)
  then show ?case by (auto elim!: mem_cleanE)
next
  case (7 s n)
  then obtain ob room M w where s: "s = buf_ostream ob room M w None" "os_room ob room M w" "M \<le> 2 ^ 63"
    by (auto elim: mem_cleanE)
  then have "of_nat w + n = (of_nat (w + unat n) :: u64)" "w + unat n < 2 ^ 64" using 7(3)
    by (simp_all add: os_room_def)
  with s show ?case by (auto simp: mem_fits_buf word_less_nat_alt os_room_def simp del: of_nat_add)
next
  case (8 s k)
  then obtain ob room M w where s: "s = buf_ostream ob room M w None" "os_room ob room M w" "M \<le> 2 ^ 63"
    by (auto elim: mem_cleanE)
  then have "os_room ob room k 0" using 8(3,4) by (simp add: mem_fits_buf) (simp add: os_room_def)
  then show ?case using 8(3) unfolding s sub_stream_buf
    by (simp add: mem_clean_def mem_good_buf mem_fits_buf)
next
  case (9 s bs)
  then obtain ob room M w where s: "s = buf_ostream ob room M w None" by (auto elim: mem_cleanE)
  show ?case unfolding s sub_stream_buf by (simp add: close_sub_def)
qed

interpretation sizing_stream: stream_sink wr sizing_clean sizing_put "\<lambda>_ _. True"
proof (unfold_locales, goal_cases)
  case (1 s n bs)
  then show ?case using sizing_sink.write_fits [of s n bs wr] by (simp add: sizing_clean_def)
next
  case (6 s n bs)
  then have "n = of_nat (length bs)" by (metis of_nat_unat ucast_id)
  with 6 show ?case by (simp add: sizing_clean_def sizing_good_def sizing_put_def pb_write_def)
qed (auto simp: sizing_clean_def sizing_good_def sizing_put_def)

lemma sizing_clean_start: "sizing_clean PB_OSTREAM_SIZING"
  by (simp add: sizing_clean_def sizing_good_def PB_OSTREAM_SIZING_def)

lemma sizing_realizes:
  assumes "sizing_stream.realizes PB_OSTREAM_SIZING r spec"
  shows "(\<And>bs u. spec = Ok bs u \<Longrightarrow> \<exists>s. r = Ok () s \<and> s = sizing_ostream (length bs) None \<and> length bs < 2 ^ 63)"
    and "(\<And>u. spec = Fail u \<Longrightarrow> \<exists>s'. r = Fail s')"
  using assms by (auto simp: sizing_stream.realizes_def sizing_stream.emits_def PB_OSTREAM_SIZING_eq)

section \<open>Values\<close>

lemma u8_less_10: "(x :: u8) < 10 \<longleftrightarrow> x \<le> 7 \<or> x = 8 \<or> x = 9"
proof -
  have "unat x < 10 \<longleftrightarrow> unat x \<le> 7 \<or> unat x = 8 \<or> unat x = 9" by auto
  then show ?thesis by (simp add: word_le_nat_alt word_less_nat_alt word_unat_eq_iff)
qed

lemma PB_ENCODERS_Some: "\<not> PB_LTYPES_COUNT \<le> lt \<Longrightarrow> \<exists>func. PB_ENCODERS env enc lt = Some func"
  by (auto simp: PB_ENCODERS_def pb_type_defs not_le u8_less_10 u8_le_7 u8_le_2)

lemma le_bytes_load:
  "load32 m a = Some v \<Longrightarrow> load_bytes m a 4 = Some (le_bytes 4 (unat v))"
  "load64 m a = Some w \<Longrightarrow> load_bytes m a 8 = Some (le_bytes 8 (unat w))"
proof -
  assume "load32 m a = Some v"
  then obtain bs where bs: "load_bytes m a 4 = Some bs" "v = of_nat (le_value bs)"
    by (auto simp: load32_def load_nat_def)
  then have "length bs = 4" by (auto dest: load_bytes_length)
  then have "unat v = le_value bs" "le_bytes 4 (le_value bs) = bs"
    using bs(2) le_value_bound [of bs] le_bytes_value [of bs] by simp_all
  with bs show "load_bytes m a 4 = Some (le_bytes 4 (unat v))" by simp
next
  assume "load64 m a = Some w"
  then obtain bs where bs: "load_bytes m a 8 = Some bs" "w = of_nat (le_value bs)"
    by (auto simp: load64_def load_nat_def)
  then have "length bs = 8" by (auto dest: load_bytes_length)
  then have "unat w = le_value bs" "le_bytes 8 (le_value bs) = bs"
    using bs(2) le_value_bound [of bs] le_bytes_value [of bs] by simp_all
  with bs show "load_bytes m a 8 = Some (le_bytes 8 (unat w))" by simp
qed

lemma load_None:
  "load32 m a = None \<longleftrightarrow> load_bytes m a 4 = None" "load64 m a = None \<longleftrightarrow> load_bytes m a 8 = None"
  by (simp_all add: load32_def load64_def load_nat_def)

lemma load_uint_eq:
  "load_uint m a n =
     (if n = 1 then Some (map_option unat (load8 m a))
      else if n = 2 then Some (map_option unat (load16 m a))
      else if n = 4 then Some (map_option unat (load32 m a))
      else if n = 8 then Some (map_option unat (load64 m a))
      else None)"
  using load_nat_cases [of m a] by (auto simp: load_uint_def)

context stream_sink
begin

lemma realizes_svarint: "good s \<Longrightarrow> realizes s (pb_encode_svarint wr s v) (out (varint_bytes (zigzag (sint v))))"
  by (intro realizes_out emits_svarint)

lemma realizes_enc_varint:
  assumes "good s" "e_wr env = wr"
  shows "realizes s (pb_enc_varint env s field src)
           (sized (load_int (e_mem env) src (data_size field)) (\<lambda>v. out (varint_bytes (nat (v mod 2 ^ 64)))))"
proof -
  have "realizes s (pb_encode_varint wr s (scast (v :: u8))) (out (varint_bytes (nat (sint v mod 2 ^ 64))))"
    "realizes s (pb_encode_varint wr s (scast (w :: u16))) (out (varint_bytes (nat (sint w mod 2 ^ 64))))"
    "realizes s (pb_encode_varint wr s (scast (x :: u32))) (out (varint_bytes (nat (sint x mod 2 ^ 64))))"
    "realizes s (pb_encode_varint wr s y) (out (varint_bytes (nat (sint y mod 2 ^ 64))))" for v w x y
    unfolding u64_of_sint [symmetric] by (rule realizes_varint [OF assms(1)])+
  then show ?thesis unfolding pb_enc_varint_def Let_def load_int_def sized_def assms(2)
    by (auto simp: access_def split: option.split)
qed

lemma realizes_enc_svarint:
  assumes "good s" "e_wr env = wr"
  shows "realizes s (pb_enc_svarint env s field src)
           (sized (load_int (e_mem env) src (data_size field)) (\<lambda>v. out (varint_bytes (zigzag v))))"
proof -
  have "realizes s (pb_encode_svarint wr s (scast (v :: u8))) (out (varint_bytes (zigzag (sint v))))"
    "realizes s (pb_encode_svarint wr s (scast (w :: u16))) (out (varint_bytes (zigzag (sint w))))"
    "realizes s (pb_encode_svarint wr s (scast (x :: u32))) (out (varint_bytes (zigzag (sint x))))" for v w x
    unfolding sint_up [symmetric] by (rule realizes_svarint [OF assms(1)])+
  then show ?thesis unfolding pb_enc_svarint_def Let_def load_int_def sized_def assms(2)
    using realizes_svarint [OF assms(1)] by (auto simp: access_def split: option.split)
qed

lemma realizes_enc_uvarint:
  assumes "good s" "e_wr env = wr"
  shows "realizes s (pb_enc_uvarint env s field src)
           (sized (load_uint (e_mem env) src (data_size field)) (\<lambda>v. out (varint_bytes v)))"
proof -
  have "realizes s (pb_encode_varint wr s (ucast (v :: u8))) (out (varint_bytes (unat v)))"
    "realizes s (pb_encode_varint wr s (ucast (w :: u16))) (out (varint_bytes (unat w)))"
    "realizes s (pb_encode_varint wr s (ucast (x :: u32))) (out (varint_bytes (unat x)))" for v w x
    using realizes_varint [OF assms(1), of "ucast v"] realizes_varint [OF assms(1), of "ucast w"]
      realizes_varint [OF assms(1), of "ucast x"] by (simp_all add: uint_up_u64)
  then show ?thesis
    unfolding pb_enc_uvarint_def Let_def load_uint_eq sized_def assms(2)
    using realizes_varint [OF assms(1)] by (auto simp: access_def split: option.split)
qed

lemma realizes_enc_fixed:
  assumes "good s" "e_wr env = wr"
  shows "realizes s (pb_enc_fixed32 env s field src) (access (load_bytes (e_mem env) src 4) out)"
    "realizes s (pb_enc_fixed64 env s field src) (access (load_bytes (e_mem env) src 8) out)"
proof -
  show "realizes s (pb_enc_fixed32 env s field src) (access (load_bytes (e_mem env) src 4) out)"
  proof (cases "load32 (e_mem env) src")
    case (Some v)
    then show ?thesis using assms le_bytes_load(1) [OF Some]
      by (simp add: pb_enc_fixed32_def realizes_out emits_fixed32)
  qed (simp add: load_None)
  show "realizes s (pb_enc_fixed64 env s field src) (access (load_bytes (e_mem env) src 8) out)"
  proof (cases "load64 (e_mem env) src")
    case (Some v)
    then show ?thesis using assms le_bytes_load(2) [OF Some]
      by (simp add: pb_enc_fixed64_def realizes_out emits_fixed64)
  qed (simp add: load_None)
qed

end

context stream_sink
begin

lemma realizes_enc_bytes:
  assumes "good s" "e_wr env = wr" "PB_LTYPE (type field) = PB_LTYPE_BYTES"
  shows "realizes s (pb_enc_bytes env s field src) (value_bytes env msg field src)"
proof -
  have a: "PB_BYTES_ARRAY_T_ALLOCSIZE (ucast sz) > ucast (data_size field) \<longleftrightarrow>
      unat (data_size field) < unat sz + 4" for sz :: u32
  proof -
    have "unat sz + 4 < 18446744073709551616" using unat_less_numeral(2) [of sz] by linarith
    then have "unat (ucast sz + 4 :: u64) = unat sz + 4" by (simp add: unat_word_ariths)
    then show ?thesis by (simp add: PB_BYTES_ARRAY_T_ALLOCSIZE_def word_less_nat_alt)
  qed
  have "realizes s (pb_encode_string wr s (mem_buffer m p (ucast sz)) (ucast sz))
      (delimited (access (load_bytes m p (unat sz)) out))" for m p and sz :: u32
    using realizes_mem_string [OF assms(1), of m p "ucast sz"] by simp
  moreover have "value_bytes env msg field src =
      (if src = NULL then delimited (out [])
       else access (load32 (e_mem env) src) (\<lambda>sz.
            if PB_ATYPE (type field) = PB_ATYPE_STATIC \<and> unat (data_size field) < unat sz + 4 then Fail ()
            else delimited (access (load_bytes (e_mem env) (src + 4) (unat sz)) out)))"
    unfolding value_bytes_def Let_def assms(3) by (simp add: pb_type_defs)
  ultimately show ?thesis using realizes_string [OF assms(1), of 0 "[]"]
    unfolding pb_enc_bytes_def a assms(2) by (simp add: realizes_access)
qed

lemma realizes_enc_string:
  assumes "good s" "e_wr env = wr" "PB_LTYPE (type field) = PB_LTYPE_STRING"
  shows "realizes s (pb_enc_string env s field src) (value_bytes env msg field src)"
proof -
  have "value_bytes env msg field src =
      (if src = NULL then delimited (out [])
       else access (strn_loop (e_mem env) src 0
              (if PB_ATYPE (type field) = PB_ATYPE_POINTER then - 1 else ucast (data_size field))) (\<lambda>sz.
            delimited (access (load_bytes (e_mem env) src (unat sz)) out)))"
    unfolding value_bytes_def Let_def assms(3) by (simp add: pb_type_defs)
  moreover have "realizes s (pb_encode_string wr s (mem_buffer (e_mem env) src 0) 0) (delimited (out []))"
    using realizes_string [OF assms(1), of 0 "[]"] by (simp add: mem_buffer_def)
  ultimately show ?thesis using realizes_mem_string [OF assms(1)]
    unfolding pb_enc_string_def Let_def assms(2) by (auto intro: realizes_access)
qed

lemma realizes_enc_fixed_length_bytes:
  assumes "good s" "e_wr env = wr" "PB_LTYPE (type field) = PB_LTYPE_FIXED_LENGTH_BYTES"
  shows "realizes s (pb_enc_fixed_length_bytes env s field src) (value_bytes env msg field src)"
proof -
  have "value_bytes env msg field src = delimited (access (load_bytes (e_mem env) src (unat (data_size field))) out)"
    unfolding value_bytes_def Let_def assms(3) by (simp add: pb_type_defs)
  then show ?thesis unfolding pb_enc_fixed_length_bytes_def assms(2)
    using realizes_mem_string [OF assms(1), of "e_mem env" src "ucast (data_size field)"] by simp
qed

text \<open>A submessage: the first pass counts, the second writes exactly that many bytes.\<close>

lemma realizes_submessage:
  assumes "good s" "e_wr env = wr"
    and size: "sizing_stream.realizes PB_OSTREAM_SIZING (enc PB_OSTREAM_SIZING flds src) spec"
    and data: "\<And>s. good s \<Longrightarrow> realizes s (enc s flds src) spec"
  shows "realizes s (pb_encode_submessage env enc s flds src) (delimited spec)"
proof (cases spec)
  case (Ok bs u)
  from sizing_realizes(1) [OF size Ok] have
    sz: "enc PB_OSTREAM_SIZING flds src = Ok () (sizing_ostream (length bs) None)" "length bs < 2 ^ 63" by auto
  let ?n = "of_nat (length bs) :: u64"
  have n: "unat ?n = length bs" using sz(2) by simp
  have body: "realizes s' (if os_callback s' = Null_write then pb_write wr s' [] ?n
      else if bytes_written s' + ?n > max_size s' then PB_RETURN_OERROR s' ''stream full''
      else case enc (sub_stream s' (length bs)) flds src of
             Stuck \<Rightarrow> Stuck
           | Ok _ sub \<Rightarrow> if bytes_written sub \<noteq> ?n then PB_RETURN_OERROR (close_sub s' sub) ''submsg size changed''
                         else Ok () (close_sub s' sub)
           | Fail sub \<Rightarrow> if bytes_written sub \<noteq> ?n then PB_RETURN_OERROR (close_sub s' sub) ''submsg size changed''
                         else Fail (close_sub s' sub)) (out bs)"
    (is "realizes s' ?r _") if s': "good s'" for s'
  proof (rule realizes_out)
    show "emits s' bs ?r"
    proof (cases "os_callback s' = Null_write")
      case True
      then show ?thesis using null_put [OF s' True n] by (simp add: emits_def)
    next
      case False
      note room = room_check [OF s' False, of ?n]
      show ?thesis
      proof (cases "fits s' (length bs)")
        case True
        note sub = sub_good [OF s' False sz(2) True] and cl = sub_close [OF s' False sz(2) True]
        have "enc (sub_stream s' (length bs)) flds src = Ok () (put (sub_stream s' (length bs)) bs)"
          using data [of "sub_stream s' (length bs)"] sub Ok by (simp add: realizes_def emits_def)
        moreover have "good (put s' bs)" using write_fits [OF s' n True] by simp
        ultimately show ?thesis using False True room n sz(2) cl by (simp add: emits_def)
      next
        case nofit: False
        then show ?thesis using False room n sz(2)
          by (simp add: emits_def PB_RETURN_OERROR_def PB_SET_OERROR_def split: option.split)
      qed
    qed
  qed
  have "realizes s (c_then (pb_encode_varint wr s ?n) (\<lambda>_ s'.
      if os_callback s' = Null_write then pb_write wr s' [] ?n
      else if bytes_written s' + ?n > max_size s' then PB_RETURN_OERROR s' ''stream full''
      else case enc (sub_stream s' (length bs)) flds src of
             Stuck \<Rightarrow> Stuck
           | Ok _ sub \<Rightarrow> if bytes_written sub \<noteq> ?n then PB_RETURN_OERROR (close_sub s' sub) ''submsg size changed''
                         else Ok () (close_sub s' sub)
           | Fail sub \<Rightarrow> if bytes_written sub \<noteq> ?n then PB_RETURN_OERROR (close_sub s' sub) ''submsg size changed''
                         else Fail (close_sub s' sub)))
      (bcat (out (varint_bytes (length bs))) (out bs))"
    using realizes_varint [OF assms(1), of ?n] n body by (intro realizes_then [OF assms(1)]) simp_all
  moreover have "bcat (out (varint_bytes (length bs))) (out bs) = delimited spec"
    using Ok sz(2) varint_bytes_length_64 [of "length bs"] by (simp add: bcat_def delimited_def out_def)
  moreover have "(sizing_ostream (length bs) None)\<lparr>os_callback := os_callback s', os_state := os_state s',
      max_size := ?n, bytes_written := 0, os_errmsg := None\<rparr> = sub_stream s' (length bs)" for s' :: "'u pb_ostream_t"
    by (simp add: sizing_ostream_def sub_stream_def)
  ultimately show ?thesis
    unfolding pb_encode_submessage_def assms(2)
    by (simp add: sz(1) Let_def close_sub_def cong: if_cong outcome.case_cong)
next
  case (Fail u)
  then show ?thesis using sizing_realizes(2) [OF size]
    by (auto simp: delimited_def realizes_def pb_encode_submessage_def)
qed (simp add: delimited_def)

end

section \<open>Values of every type, and arrays\<close>

lemma array_bytes_length:
  assumes "\<And>p bs u. g p = Ok bs u \<Longrightarrow> length bs = k"
  shows "array_bytes n g step p = Ok bs u \<Longrightarrow> length bs = n * k"
proof (induction n arbitrary: p bs u)
  case (Suc n)
  then show ?case by (auto simp: bcat_def c_then_iffs out_def assms split: if_splits)
qed (simp add: out_def)

lemma array_bytes_no_Fail:
  assumes "\<And>p u. g p \<noteq> Fail u"
  shows "array_bytes n g step p \<noteq> Fail u"
  by (induction n arbitrary: p) (auto simp: bcat_def c_then_iffs out_def assms)

lemma array_bytes_short: "array_bytes n g step p = Ok bs u \<Longrightarrow> length bs < 2 ^ 63"
  by (cases n) (auto simp: bcat_def c_then_iffs out_def split: if_splits)

lemma delimited_Ok: "length bs < 2 ^ 63 \<Longrightarrow> delimited (Ok bs u) = bcat (out (varint_bytes (length bs))) (out bs)"
  using varint_bytes_length_64 [of "length bs"] by (simp add: delimited_def bcat_def out_def)

context stream_sink
begin

lemma realizes_value:
  assumes "good s" "e_wr env = wr" "PB_ENCODERS env enc (PB_LTYPE (type field)) = Some func"
    and sub: "\<And>s flds src. good s \<Longrightarrow>
      realizes s (pb_encode_submessage env enc s flds src) (delimited (msg flds src))"
  shows "realizes s (func s field src) (value_bytes env msg field src)"
proof -
  let ?lt = "PB_LTYPE (type field)"
  note enc = assms(3) [unfolded PB_ENCODERS_def] and defs = value_bytes_def Let_def
  consider "?lt = PB_LTYPE_VARINT" | "?lt = PB_LTYPE_UVARINT" | "?lt = PB_LTYPE_SVARINT"
    | "?lt = PB_LTYPE_FIXED32" | "?lt = PB_LTYPE_FIXED64" | "?lt = PB_LTYPE_BYTES"
    | "?lt = PB_LTYPE_STRING" | "?lt = PB_LTYPE_SUBMESSAGE" | "?lt = PB_LTYPE_EXTENSION"
    | "?lt = PB_LTYPE_FIXED_LENGTH_BYTES"
    using enc by (auto split: if_splits)
  then show ?thesis
  proof cases
    case 1
    then show ?thesis using enc realizes_enc_varint [OF assms(1,2), of field src] by (simp add: defs)
  next
    case 2
    then show ?thesis using enc realizes_enc_uvarint [OF assms(1,2), of field src]
      by (simp add: defs pb_type_defs)
  next
    case 3
    then show ?thesis using enc realizes_enc_svarint [OF assms(1,2), of field src]
      by (simp add: defs pb_type_defs)
  next
    case 4
    then show ?thesis using enc realizes_enc_fixed(1) [OF assms(1,2), of field src]
      by (simp add: defs pb_type_defs)
  next
    case 5
    then show ?thesis using enc realizes_enc_fixed(2) [OF assms(1,2), of field src]
      by (simp add: defs pb_type_defs)
  next
    case 6
    then show ?thesis using enc realizes_enc_bytes [OF assms(1,2) 6] by (simp add: pb_type_defs)
  next
    case 7
    then show ?thesis using enc realizes_enc_string [OF assms(1,2) 7] by (simp add: pb_type_defs)
  next
    case 8
    then have "func = pb_enc_submessage env enc" using enc by (simp add: pb_type_defs)
    then show ?thesis using 8 sub [OF assms(1)]
      by (simp add: defs pb_enc_submessage_def realizes_access pb_type_defs)
  next
    case 9
    then show ?thesis by (simp add: defs pb_type_defs)
  next
    case 10
    then show ?thesis using enc realizes_enc_fixed_length_bytes [OF assms(1,2) 10] by (simp add: pb_type_defs)
  qed
qed

lemma realizes_array:
  assumes "\<And>s p. good s \<Longrightarrow> realizes s (f p s) (g p)"
  shows "good s \<Longrightarrow> realizes s (array_loop n f step p s) (array_bytes n g step p)"
proof (induction n arbitrary: s p)
  case 0
  then show ?case by (simp add: realizes_nil)
next
  case (Suc n)
  then show ?case using assms by (auto intro: realizes_then)
qed

lemma realizes_packed:
  assumes "good s" "\<And>s p. good s \<Longrightarrow> realizes s (func s field p) (g p)"
    and "array_bytes n g step pd = Ok bs u" "unat sz = length bs"
  shows "realizes s (c_then (pb_encode_varint wr s sz) (\<lambda>_ s.
           if os_callback s = Null_write then pb_write wr s [] sz
           else array_loop n (\<lambda>p s. func s field p) step pd s)) (delimited (Ok bs u))"
proof -
  note short = array_bytes_short [OF assms(3)]
  have "realizes s' (if os_callback s' = Null_write then pb_write wr s' [] sz
      else array_loop n (\<lambda>p s. func s field p) step pd s') (out bs)" if s': "good s'" for s'
  proof (cases "os_callback s' = Null_write")
    case True
    then show ?thesis using null_put [OF s' True assms(4)] by (auto intro!: realizes_out simp: emits_def)
  next
    case False
    have "realizes s' (array_loop n (\<lambda>p s. func s field p) step pd s') (array_bytes n g step pd)"
      using assms(2) s' by (intro realizes_array) auto
    then show ?thesis using False assms(3) short by (simp add: out_def)
  qed
  moreover have "realizes s (pb_encode_varint wr s sz) (out (varint_bytes (length bs)))"
    using realizes_varint [OF assms(1), of sz] assms(4) by simp
  ultimately show ?thesis unfolding delimited_Ok [OF short] by (intro realizes_then [OF assms(1)]) auto
qed

end

lemma fixed_value_bytes:
  "PB_LTYPE (type field) = PB_LTYPE_FIXED32 \<Longrightarrow> value_bytes env msg field p = access (load_bytes (e_mem env) p 4) out"
  "PB_LTYPE (type field) = PB_LTYPE_FIXED64 \<Longrightarrow> value_bytes env msg field p = access (load_bytes (e_mem env) p 8) out"
  by (simp_all add: value_bytes_def Let_def pb_type_defs)

lemma load_out:
  "access (load_bytes m p k) out \<noteq> Fail u"
  "access (load_bytes m p k) out = Ok bs u \<Longrightarrow> length bs = k"
  by (cases "load_bytes m p k"; auto simp: out_def load_bytes_length split: if_splits)+

lemma u64_small_mult:
  "unat (count :: u64) < 2 ^ 32 \<Longrightarrow> unat (4 * count) = 4 * unat count"
  "unat (count :: u64) < 2 ^ 32 \<Longrightarrow> unat (8 * count) = 8 * unat count"
  by (simp_all add: unat_word_ariths)

lemma PB_WT_STRING_less: "unat PB_WT_STRING < 8"
  by (simp add: pb_type_defs)

context stream_sink
begin

lemma realizes_encode_array:
  assumes "good s" "e_wr env = wr" "unat count < 2 ^ 32"
    and val: "\<And>s p. good s \<Longrightarrow> realizes s (func s field p) (value_bytes env msg field p)"
    and vsize: "\<And>s p. sizing_clean s \<Longrightarrow> sizing_stream.realizes s (func s field p) (value_bytes env msg field p)"
  shows "realizes s (encode_array env s field pd count func)
           (repeated_bytes env (value_bytes env msg) field pd (unat count))"
proof -
  let ?lt = "PB_LTYPE (type field)" and ?step = "uint (data_size field)" and ?n = "unat count"
  let ?g = "value_bytes env msg field"
  let ?packed = "\<lambda>s sz. c_then (pb_encode_varint wr s sz) (\<lambda>_ s.
      if os_callback s = Null_write then pb_write wr s [] sz
      else array_loop ?n (\<lambda>p s. func s field p) ?step pd s)"
  have c0: "count = 0 \<longleftrightarrow> ?n = 0" by (simp add: unat_eq_zero)
  have big: "count > ucast (array_size field) \<longleftrightarrow> unat (array_size field) < ?n"
    by (simp add: word_less_nat_alt)
  have pk: "realizes s' (?packed s' sz) (delimited (array_bytes ?n ?g ?step pd))"
    if "good s'" "\<And>bs u. array_bytes ?n ?g ?step pd = Ok bs u \<Longrightarrow> unat sz = length bs"
      "\<And>u. array_bytes ?n ?g ?step pd \<noteq> Fail u" for s' sz
    using that realizes_packed [where g = ?g and func = func and field = field, OF that(1) val]
    by (cases "array_bytes ?n ?g ?step pd") (auto simp: delimited_def)
  have fixed32: "realizes s' (?packed s' (4 * count)) (delimited (array_bytes ?n ?g ?step pd))"
    if "?lt = PB_LTYPE_FIXED32" "good s'" for s'
    using array_bytes_length [of ?g 4 ?n ?step pd] array_bytes_no_Fail [of ?g ?n ?step pd] that
      u64_small_mult [OF assms(3)] load_out(2) [of "e_mem env" _ 4]
    by (intro pk) (auto simp: fixed_value_bytes load_out)
  have fixed64: "realizes s' (?packed s' (8 * count)) (delimited (array_bytes ?n ?g ?step pd))"
    if "?lt = PB_LTYPE_FIXED64" "good s'" for s'
    using array_bytes_length [of ?g 8 ?n ?step pd] array_bytes_no_Fail [of ?g ?n ?step pd] that
      u64_small_mult [OF assms(3)] load_out(2) [of "e_mem env" _ 8]
    by (intro pk) (auto simp: fixed_value_bytes load_out)
  have "sizing_stream.realizes PB_OSTREAM_SIZING
      (array_loop ?n (\<lambda>p s. func s field p) ?step pd PB_OSTREAM_SIZING) (array_bytes ?n ?g ?step pd)"
    using vsize sizing_clean_start by (intro sizing_stream.realizes_array) auto
  note sz = sizing_realizes [OF this]
  have other: "realizes s' (case array_loop ?n (\<lambda>p s. func s field p) ?step pd PB_OSTREAM_SIZING of
        Stuck \<Rightarrow> Stuck | Fail sizestream \<Rightarrow> Fail s' | Ok _ sizestream \<Rightarrow> ?packed s' (bytes_written sizestream))
      (delimited (array_bytes ?n ?g ?step pd))" if "good s'" for s'
  proof (cases "array_bytes ?n ?g ?step pd")
    case (Ok bs u)
    then show ?thesis using sz(1) [OF Ok] pk [OF that, of "of_nat (length bs)"] by (auto cong: if_cong)
  next
    case (Fail u)
    then show ?thesis using sz(2) [OF Fail] by (auto simp: delimited_def)
  qed (simp add: delimited_def)
  have tag: "realizes s' (pb_encode_tag wr s' PB_WT_STRING (tag field)) (key_bytes field PB_WT_STRING)"
    if "good s'" for s' using that PB_WT_STRING_less by (rule realizes_tag)
  have item: "realizes s' (c_then (pb_encode_tag_for_field wr s' field) (\<lambda>_ s.
        if PB_ATYPE (type field) = PB_ATYPE_POINTER \<and> (?lt = PB_LTYPE_STRING \<or> ?lt = PB_LTYPE_BYTES)
        then access (load_ptr (e_mem env) p) (\<lambda>q. func s field q) else func s field p))
      (bcat (field_key field)
        (if PB_ATYPE (type field) = PB_ATYPE_POINTER \<and> (?lt = PB_LTYPE_STRING \<or> ?lt = PB_LTYPE_BYTES)
         then access (load_ptr (e_mem env) p) ?g else ?g p))" if "good s'" for s' p
    using that realizes_field_key val by (intro realizes_then) (auto intro: realizes_access)
  show ?thesis
  proof (cases "count = 0 \<or> PB_ATYPE (type field) \<noteq> PB_ATYPE_POINTER \<and> unat (array_size field) < ?n")
    case True
    then show ?thesis using realizes_nil [OF assms(1)]
      by (auto simp: encode_array_def repeated_bytes_def Let_def c0 big)
  next
    case False
    then have n: "count \<noteq> 0" "?n \<noteq> 0" "\<not> (PB_ATYPE (type field) \<noteq> PB_ATYPE_POINTER \<and> count > ucast (array_size field))"
      "\<not> (PB_ATYPE (type field) \<noteq> PB_ATYPE_POINTER \<and> unat (array_size field) < ?n)"
      using c0 big by auto
    show ?thesis
    proof (cases "?lt \<le> PB_LTYPE_LAST_PACKABLE")
      case True
      have "realizes s (encode_array env s field pd count func)
          (bcat (key_bytes field PB_WT_STRING) (delimited (array_bytes ?n ?g ?step pd)))"
        unfolding encode_array_def Let_def assms(2) if_not_P [OF n(1)] if_not_P [OF n(3)] if_P [OF True]
        using fixed32 fixed64 other tag [OF assms(1)] by (intro realizes_then [OF assms(1)]) auto
      then show ?thesis unfolding repeated_bytes_def Let_def if_not_P [OF n(2)] if_not_P [OF n(4)] if_P [OF True] .
    next
      case unpacked: False
      show ?thesis
        unfolding encode_array_def repeated_bytes_def Let_def assms(2) if_not_P [OF n(1)] if_not_P [OF n(3)]
          if_not_P [OF n(2)] if_not_P [OF n(4)] if_not_P [OF unpacked]
        using item by (intro realizes_array [OF _ assms(1)]) auto
    qed
  qed
qed

end

section \<open>The interface of a message encoder\<close>

text \<open>
  What the functions between \<open>pb_encode\<close> and its recursive call rely on: the recursive
  call realizes its specification, on the stream at hand and when counting, and the user's
  callbacks realize theirs.
\<close>

locale message_coder = stream_sink "e_wr env" good put fits
  for env :: "'u enc_env" and good put fits +
  fixes enc :: "'u msg_encoder"
    and msg :: "pb_field_t list \<Rightarrow> addr \<Rightarrow> bytes_res"
    and cb :: cb_spec
  assumes enc_counts:
      "sizing_clean s \<Longrightarrow> sizing_stream.realizes s (enc s flds src) (msg flds src)"
    and enc_writes: "good s \<Longrightarrow> realizes s (enc s flds src) (msg flds src)"
    and cb_writes: "good s \<Longrightarrow> realizes s (e_encode_cb env p s field arg) (cb_bytes cb p field arg)"
    and ext_writes: "good s \<Longrightarrow> realizes s (e_ext_encode env p s ext) (ext_bytes cb p ext)"
begin

lemma value_writes:
  assumes "good s" "PB_ENCODERS env enc (PB_LTYPE (type field)) = Some func"
  shows "realizes s (func s field src) (value_bytes env msg field src)"
  using assms enc_counts [OF sizing_clean_start] enc_writes
  by (intro realizes_value realizes_submessage) auto

lemma value_counts:
  assumes "sizing_clean s" "PB_ENCODERS env enc (PB_LTYPE (type field)) = Some func"
  shows "sizing_stream.realizes s (func s field src) (value_bytes env msg field src)"
  using assms enc_counts sizing_clean_start
  by (intro sizing_stream.realizes_value [where wr = "e_wr env"]
      sizing_stream.realizes_submessage [where wr = "e_wr env"]) auto

lemma present_writes:
  assumes "good s" "PB_ENCODERS env enc (PB_LTYPE (type field)) = Some func"
  shows "realizes s (c_then (pb_encode_tag_for_field (e_wr env) s field) (\<lambda>_ s. func s field data))
           (bcat (field_key field) (value_bytes env msg field data))"
  using assms realizes_field_key value_writes by (intro realizes_then) auto

lemma basic_field_writes:
  assumes "good s"
  shows "realizes s (encode_basic_field env chk enc s field pd) (basic_field_bytes env chk msg field pd)"
proof (cases "PB_LTYPES_COUNT \<le> PB_LTYPE (type field)")
  case True
  then show ?thesis by (simp add: basic_field_bytes_def Let_def)
next
  case False
  then obtain func where f: "PB_ENCODERS env enc (PB_LTYPE (type field)) = Some func"
    using PB_ENCODERS_Some by blast
  have arr: "realizes s (encode_array env s field data (ucast count) func)
      (repeated_bytes env (value_bytes env msg) field data (unat count))" for data and count :: u32
    using realizes_encode_array [where count = "ucast count" and func = func and field = field and env = env
        and msg = msg, OF assms refl] value_writes [OF _ f] value_counts [OF _ f] by simp
  show ?thesis
    unfolding encode_basic_field_def basic_field_bytes_def Let_def f if_not_P [OF False] access_simps(2)
    using present_writes [OF assms f] arr realizes_nil [OF assms] PB_HTYPE_cases [of "type field"]
    by (intro realizes_access) (auto intro: realizes_access)
qed

lemma field_writes:
  assumes "good s"
  shows "realizes s (encode_field env chk enc s field pd) (field_bytes cb env chk msg field pd)"
proof -
  have "realizes s (case e_encode_cb env p s field arg of Fail s' \<Rightarrow> PB_RETURN_OERROR s' ''callback error'' | r \<Rightarrow> r)
      (cb_bytes cb p field arg)" for p arg
    using cb_writes [OF assms, of p field arg]
    by (auto simp: realizes_def emits_def PB_RETURN_OERROR_def PB_SET_OERROR_def
        split: outcome.splits if_splits option.splits)
  then show ?thesis using basic_field_writes [OF assms] realizes_nil [OF assms]
    by (auto simp: encode_field_def field_bytes_def encode_callback_field_def intro: realizes_access)
qed

lemma extension_writes:
  assumes "good s"
  shows "realizes s (default_extension_encoder env chk enc s ext) (extension_bytes cb env chk msg ext)"
  unfolding default_extension_encoder_def extension_bytes_def using field_writes [OF assms]
  by (intro realizes_access) (auto split: list.split intro: realizes_access)

lemma chain_writes:
  "good s \<Longrightarrow> realizes s (extension_loop n env chk enc s ext) (chain_bytes n cb env chk msg ext)"
proof (induction n arbitrary: s ext)
  case 0
  then show ?case by (simp add: realizes_nil)
next
  case (Suc n)
  show ?case
  proof (cases "ext = NULL")
    case True
    then show ?thesis using realizes_nil [OF Suc.prems] by simp
  next
    case False
    then show ?thesis
      unfolding extension_loop.simps chain_bytes.simps if_not_P [OF False]
      using ext_writes extension_writes Suc
      by (intro realizes_access realizes_then [OF Suc.prems]) auto
  qed
qed

lemma slot_writes:
  assumes "good s"
  shows "realizes s
     (if PB_LTYPE (type f) = PB_LTYPE_EXTENSION then encode_extension_field env chk enc s f pd
      else encode_field env chk enc s f pd) (slot_bytes cb env chk msg f pd)"
  using field_writes [OF assms] chain_writes [OF assms]
  by (auto simp: slot_bytes_def encode_extension_field_def intro: realizes_access)

lemma loop_writes:
  assumes "pb_fields fs" "i + k = length (msg_fields fs)" "k \<noteq> 0"
  shows "good s \<Longrightarrow> realizes s (encode_loop env chk enc (iter_at fs src i) s)
     (slots_bytes (slot_bytes cb env chk msg) (map (\<lambda>i. (fs ! i, pData (iter_at fs src i))) [i..<length (msg_fields fs)]))"
  using assms(2,3)
proof (induction k arbitrary: i s)
  case (Suc k)
  let ?n = "length (msg_fields fs)" and ?slot = "slot_bytes cb env chk msg"
  have i: "i < ?n" using Suc.prems by simp
  then have u: "[i..<?n] = i # [Suc i..<?n]" by (rule upt_conv_Cons)
  have f: "it_field (iter_at fs src i) = Some (fs ! i)"
    using i pb_fields_length [OF assms(1)] by (simp add: it_field_at)
  have rest: "realizes s' (case pb_field_iter_next (iter_at fs src i) of
        None \<Rightarrow> Stuck | Some (True, it') \<Rightarrow> encode_loop env chk enc it' s' | Some (False, it') \<Rightarrow> Ok () s')
      (slots_bytes ?slot (map (\<lambda>i. (fs ! i, pData (iter_at fs src i))) [Suc i..<?n]))" if "good s'" for s'
  proof (cases "k = 0")
    case True
    then have "\<not> Suc i < ?n" "[Suc i..<?n] = []" using Suc.prems by simp_all
    then show ?thesis using iter_next_at [OF assms(1) i, of src] realizes_nil [OF that]
      by (simp del: iter_at.simps)
  next
    case False
    then have "Suc i < ?n" using Suc.prems by simp
    then show ?thesis using iter_next_at [OF assms(1) i, of src] Suc.IH [OF that, of "Suc i"] Suc.prems False
      by (simp del: iter_at.simps)
  qed
  show ?case
    unfolding u list.map slots_bytes.simps fst_conv snd_conv encode_loop.simps [of env chk enc _ s] f option.case
    using Suc.prems(1) slot_writes [OF Suc.prems(1)] rest by (rule realizes_then)
qed simp

lemma message_writes:
  assumes "good s" "pb_fields flds"
  shows "realizes s (encode_message env chk enc s flds src)
           (slots_bytes (slot_bytes cb env chk msg) (slots flds src))"
proof (cases "msg_fields flds = []")
  case True
  then show ?thesis using realizes_nil [OF assms(1)]
    by (simp add: encode_message_def iter_begin_at [OF assms(2)] slots_def)
next
  case False
  then show ?thesis using loop_writes [OF assms(2), of 0 "length (msg_fields flds)"] assms(1)
    by (simp add: encode_message_def iter_begin_at [OF assms(2)] slots_def del: iter_at.simps)
qed

end

section \<open>Tying the knot\<close>

text \<open>
  The documented contract of the user's encode callbacks: on every kind of stream they write
  their field (the bytes \<open>cb\<close> says), and they report a failure.
\<close>

definition callbacks_ok :: "'u enc_env \<Rightarrow> cb_spec \<Rightarrow> bool" where
  "callbacks_ok env cb \<longleftrightarrow>
     (\<forall>s p field arg. mem_clean s \<longrightarrow> mem_stream.realizes s (e_encode_cb env p s field arg) (cb_bytes cb p field arg)) \<and>
     (\<forall>s p field arg. sizing_clean s \<longrightarrow> sizing_stream.realizes s (e_encode_cb env p s field arg) (cb_bytes cb p field arg)) \<and>
     (\<forall>s p ext. mem_clean s \<longrightarrow> mem_stream.realizes s (e_ext_encode env p s ext) (ext_bytes cb p ext)) \<and>
     (\<forall>s p ext. sizing_clean s \<longrightarrow> sizing_stream.realizes s (e_ext_encode env p s ext) (ext_bytes cb p ext))"

text \<open>The specification that says nothing about messages with a callback.\<close>

definition no_callbacks :: cb_spec where
  "no_callbacks = \<lparr>cb_bytes = \<lambda>p field arg. Stuck, ext_bytes = \<lambda>p ext. Stuck\<rparr>"

lemma callbacks_ok_none: "callbacks_ok env no_callbacks"
  by (simp add: callbacks_ok_def no_callbacks_def)

lemma encode_counts:
  assumes "callbacks_ok env cb"
  shows "sizing_clean s \<Longrightarrow> sizing_stream.realizes s (pb_encode d env s flds src) (msg_bytes d cb env flds src)"
proof (induction d arbitrary: s flds src)
  case (Suc d)
  have "message_coder env sizing_clean sizing_put (\<lambda>_ _. True) (pb_encode d env) (msg_bytes d cb env) cb"
    using assms Suc.IH by unfold_locales (auto simp: callbacks_ok_def)
  from message_coder.message_writes [OF this Suc.prems] show ?case by simp
qed simp

lemma encode_coder:
  assumes "callbacks_ok env cb"
  shows "message_coder env mem_clean mem_put mem_fits (pb_encode d env) (msg_bytes d cb env) cb"
proof -
  have "mem_clean s \<Longrightarrow> mem_stream.realizes s (pb_encode d env s flds src) (msg_bytes d cb env flds src)"
    for s flds src
  proof (induction d arbitrary: s flds src)
    case (Suc d)
    have "message_coder env mem_clean mem_put mem_fits (pb_encode d env) (msg_bytes d cb env) cb"
      using assms Suc.IH encode_counts [OF assms] by unfold_locales (auto simp: callbacks_ok_def)
    from message_coder.message_writes [OF this Suc.prems] show ?case by simp
  qed simp
  then show ?thesis using assms encode_counts [OF assms] by unfold_locales (auto simp: callbacks_ok_def)
qed

interpretation plain_coder:
  message_coder env mem_clean mem_put mem_fits "pb_encode d env" "msg_bytes d no_callbacks env" no_callbacks
  for env d
  by (rule encode_coder [OF callbacks_ok_none])

lemma encode_writes:
  "callbacks_ok env cb \<Longrightarrow> mem_clean s \<Longrightarrow>
     mem_stream.realizes s (pb_encode d env s flds src) (msg_bytes d cb env flds src)"
  by (rule message_coder.enc_writes [OF encode_coder])

lemma submessage_writes:
  assumes "callbacks_ok env cb" "mem_clean s"
  shows "mem_stream.realizes s (pb_encode_submessage env (pb_encode d env) s flds src)
           (delimited (msg_bytes d cb env flds src))"
  using encode_counts [OF assms(1) sizing_clean_start] encode_writes [OF assms(1)] assms(2)
  by (intro mem_stream.realizes_submessage [where wr = "e_wr env"]) auto

end
