(* ===== verification/Pb_Encode_Props.thy ===== *)
theory Pb_Encode_Props
  imports Pb_Encode_Correct Pb_Wire
begin

unbundle bit_operations_syntax

text \<open>
  What the encoder promises: the bytes of a message do not depend on the stream, the counted
  size is the written size, and every failure is reported.
\<close>

section \<open>A small message\<close>

text \<open>
  A struct of two members at address 1000, \<open>int32_t a; uint32_t b;\<close>, with the fields
  \<open>required int32 a = 1\<close> and \<open>required fixed32 b = 2\<close>.
\<close>

definition sample_a :: c_member where "sample_a = \<lparr>c_offsetof = 0, c_sizeof = 4, c_elemsize = 4\<rparr>"
definition sample_b :: c_member where "sample_b = \<lparr>c_offsetof = 4, c_sizeof = 4, c_elemsize = 4\<rparr>"

definition sample_fields :: "pb_field_t list" where
  "sample_fields =
     [PB_FIELD 1 INT32 REQUIRED STATIC FIRST sample_a sample_a sample_a NULL,
      PB_FIELD 2 FIXED32 REQUIRED STATIC OTHER sample_b sample_b sample_a NULL,
      PB_LAST_FIELD]"

definition sample_mem :: c_mem where
  "sample_mem = \<lparr>cells = map_of (zip [1000, 1001, 1002, 1003, 1004, 1005, 1006, 1007]
                                     [0x2C, 0x01, 0, 0, 0x78, 0x56, 0x34, 0x12]),
                 blocks = \<lambda>_. None\<rparr>"

definition sample_env :: "unit enc_env" where
  "sample_env = \<lparr>e_wr = \<lambda>u bs. (True, u), e_mem = sample_mem, e_fields = \<lambda>_. None,
     e_encode_cb = \<lambda>p s field arg. Fail s, e_ext_encode = \<lambda>p s ext. Fail s, e_chain = 0\<rparr>"

lemma sample_fields_eq:
  "sample_fields =
     [\<lparr>tag = 1, type = 0, data_offset = 0, size_offset = 0, data_size = 4, array_size = 0, ptr = 0\<rparr>,
      \<lparr>tag = 2, type = 3, data_offset = 0, size_offset = 0, data_size = 4, array_size = 0, ptr = 0\<rparr>,
      PB_LAST_FIELD]"
  by (simp add: sample_fields_def sample_a_def sample_b_def Let_def pb_macro_defs pb_type_defs pb_membersize_def)

lemma sample_pb_fields: "pb_fields sample_fields"
  by (simp add: pb_fields_def sample_fields_eq PB_LAST_FIELD_def)

lemma sample_slots: "slots sample_fields 1000 = [(sample_fields ! 0, 1000), (sample_fields ! 1, 1004)]"
  by (simp add: slots_def sample_fields_eq msg_fields_def upt_conv_Cons Let_def union_step_def prev_size_def
      pb_type_defs)

lemma sample_loads:
  "load_bytes sample_mem 1000 4 = Some [0x2C, 0x01, 0, 0]"
  "load_bytes sample_mem 1004 4 = Some [0x78, 0x56, 0x34, 0x12]"
  by (simp_all add: numeral_eq_Suc sample_mem_def)

lemma sample_int: "load_int sample_mem 1000 4 = Some (Some 300)"
  by (simp add: load_int_def load32_def load_nat_def sample_loads)

lemma sample_varint: "varint_bytes 300 = [0xAC, 0x02]"
  by (simp add: varint_bytes.simps)

lemma sample_bytes:
  "msg_bytes (Suc d) no_callbacks sample_env sample_fields 1000 =
     Ok [0x08, 0xAC, 0x02, 0x15, 0x78, 0x56, 0x34, 0x12] ()"
proof -
  have e: "e_mem sample_env = sample_mem" by (simp add: sample_env_def)
  have "slot_bytes no_callbacks sample_env chk msg (sample_fields ! 0) 1000 = Ok [0x08, 0xAC, 0x02] ()" for chk msg
    by (simp add: sample_fields_eq slot_bytes_def field_bytes_def basic_field_bytes_def value_bytes_def e
      Let_def pb_type_defs field_key_def key_bytes_def ltype_wire_type_def varint_bytes_small
      sample_int sample_varint sized_def bcat_def out_def)
  moreover have "slot_bytes no_callbacks sample_env chk msg (sample_fields ! 1) 1004 =
      Ok [0x15, 0x78, 0x56, 0x34, 0x12] ()" for chk msg
    by (simp add: sample_fields_eq slot_bytes_def field_bytes_def basic_field_bytes_def value_bytes_def e
      Let_def pb_type_defs field_key_def key_bytes_def ltype_wire_type_def varint_bytes_small
      sample_loads bcat_def out_def)
  ultimately show ?thesis by (simp add: sample_pb_fields sample_slots bcat_def out_def)
qed

section \<open>The promises\<close>

lemma mem_clean_from_buffer:
  "m \<le> n \<Longrightarrow> m \<le> 2 ^ 63 \<Longrightarrow> mem_clean (pb_ostream_from_buffer n (of_nat m))"
  by (simp add: mem_clean_def from_buffer_good) (simp add: pb_ostream_from_buffer_def)

lemma from_buffer_realizes:
  assumes "mem_stream.realizes (pb_ostream_from_buffer n (of_nat m)) r spec" "m \<le> n" "m \<le> 2 ^ 63"
  shows "case spec of
      Ok bs u \<Rightarrow> if length bs \<le> m then \<exists>os. r = Ok () os \<and> written os = bs \<and> bytes_written os = of_nat (length bs)
                 else \<exists>os. r = Fail os \<and> os_errmsg os \<noteq> None
    | Fail u \<Rightarrow> \<exists>os. r = Fail os
    | Stuck \<Rightarrow> True"
proof -
  have "mem_fits (pb_ostream_from_buffer n (of_nat m) :: 'a pb_ostream_t) k \<longleftrightarrow> k \<le> m" for k
    using assms(2,3) by (simp add: pb_ostream_from_buffer_eq mem_fits_buf os_room_def)
  moreover have "mem_put (pb_ostream_from_buffer n (of_nat m)) bs = (buf_ostream bs n m (length bs) None :: 'a pb_ostream_t)"
    for bs using assms(3) by (simp add: pb_ostream_from_buffer_eq)
  ultimately show ?thesis using assms(1)
    by (auto simp: mem_stream.realizes_def mem_stream.emits_def split: outcome.splits if_splits)
qed

text \<open>C4: \<open>pb_encode\<close> implements its specification: for every message that can be encoded it
  writes exactly the bytes of the message when they fit the buffer and fails with a message when
  they do not; a message that cannot be encoded makes it fail. The user's callbacks are assumed to
  write the same bytes on every pass.\<close>

theorem pb_encode_refines:
  assumes "callbacks_ok env cb" "m \<le> n" "m \<le> 2 ^ 63"
  shows "case msg_bytes d cb env flds src of
      Ok bs u \<Rightarrow>
        if length bs \<le> m
        then \<exists>os. pb_encode d env (pb_ostream_from_buffer n (of_nat m)) flds src = Ok () os \<and>
               written os = bs \<and> bytes_written os = of_nat (length bs)
        else \<exists>os. pb_encode d env (pb_ostream_from_buffer n (of_nat m)) flds src = Fail os \<and>
               os_errmsg os \<noteq> None
    | Fail u \<Rightarrow> \<exists>os. pb_encode d env (pb_ostream_from_buffer n (of_nat m)) flds src = Fail os
    | Stuck \<Rightarrow> True"
  using encode_writes [OF assms(1) mem_clean_from_buffer [OF assms(2,3)]] assms(2,3)
  by (rule from_buffer_realizes)

theorem pb_encode_refines_witness:
  "\<exists>os. pb_encode 1 sample_env (pb_ostream_from_buffer 8 (of_nat 8)) sample_fields 1000 = Ok () os \<and>
     written os = [0x08, 0xAC, 0x02, 0x15, 0x78, 0x56, 0x34, 0x12] \<and> bytes_written os = of_nat 8"
  using pb_encode_refines [OF callbacks_ok_none, of 8 8 "Suc 0" sample_env sample_fields 1000]
  by (simp only: sample_bytes) simp

text \<open>C5: \<open>pb_get_encoded_size\<close> gives the exact size: it succeeds for every message that
  can be encoded, with the number of bytes that \<open>pb_encode\<close> writes, and a buffer of that
  size is enough while a smaller one is not.\<close>

theorem pb_get_encoded_size_exact:
  assumes "callbacks_ok env cb" "msg_bytes d cb env flds src = Ok bs u" "m \<le> 2 ^ 63"
  shows "(\<exists>s. pb_get_encoded_size d env flds src = Ok (of_nat (length bs)) s) \<and> length bs < 2 ^ 63 \<and>
    ((\<exists>os. pb_encode d env (pb_ostream_from_buffer m (of_nat m)) flds src = Ok () os) \<longleftrightarrow> length bs \<le> m)"
proof -
  have "sizing_stream.realizes PB_OSTREAM_SIZING (pb_encode d env PB_OSTREAM_SIZING flds src) (msg_bytes d cb env flds src)"
    using assms(1) sizing_clean_start by (rule encode_counts)
  from sizing_realizes(1) [OF this assms(2)] show ?thesis
    using from_buffer_realizes [OF encode_writes [OF assms(1) mem_clean_from_buffer [OF order.refl assms(3)]], of d flds src]
      assms(2,3) by (auto simp: pb_get_encoded_size_def split: if_splits)
qed

theorem pb_get_encoded_size_exact_witness:
  "\<exists>s. pb_get_encoded_size 1 sample_env sample_fields 1000 = Ok 8 s"
  using pb_get_encoded_size_exact [OF callbacks_ok_none, of "Suc 0" sample_env sample_fields 1000 _ "()" 8]
  by (simp only: sample_bytes) auto

text \<open>C6: \<open>pb_encode_delimited\<close> writes the length of the message as a varint and then the
  message, although it encodes the message twice; the error \<open>submsg size changed\<close> does not
  happen. \<open>pb_encode_nullterminated\<close> writes the message and a zero byte.\<close>

theorem pb_encode_framing:
  assumes "callbacks_ok env cb" "msg_bytes d cb env flds src = Ok bs u" "m \<le> n" "m \<le> 2 ^ 63"
    and "length bs < 2 ^ 62"
  shows "(if length (varint_bytes (length bs) @ bs) \<le> m
      then \<exists>os. pb_encode_delimited d env (pb_ostream_from_buffer n (of_nat m)) flds src = Ok () os \<and>
             written os = varint_bytes (length bs) @ bs
      else \<exists>os. pb_encode_delimited d env (pb_ostream_from_buffer n (of_nat m)) flds src = Fail os) \<and>
    (if length (bs @ [0]) \<le> m
      then \<exists>os. pb_encode_nullterminated d env (pb_ostream_from_buffer n (of_nat m)) flds src = Ok () os \<and>
             written os = bs @ [0]
      else \<exists>os. pb_encode_nullterminated d env (pb_ostream_from_buffer n (of_nat m)) flds src = Fail os)"
proof -
  let ?s = "pb_ostream_from_buffer n (of_nat m)"
  have clean: "mem_clean ?s" using assms(3,4) by (rule mem_clean_from_buffer)
  have del: "mem_stream.realizes ?s (pb_encode_delimited d env ?s flds src) (delimited (Ok bs u))"
    using submessage_writes [OF assms(1) clean, of d flds src] assms(2) by (simp add: pb_encode_delimited_def)
  have nul: "mem_stream.realizes ?s (pb_encode_nullterminated d env ?s flds src) (bcat (Ok bs u) (out [0]))"
    unfolding pb_encode_nullterminated_def
  proof (rule mem_stream.realizes_then [OF clean])
    show "mem_stream.realizes ?s (pb_encode d env ?s flds src) (Ok bs u)"
      using encode_writes [OF assms(1) clean, of d flds src] assms(2) by simp
    show "mem_stream.realizes s (pb_write (e_wr env) s [0] 1) (out [0])" if "mem_clean s" for s
      using that by (intro mem_stream.realizes_out mem_stream.emits_write) simp_all
  qed
  have "length (varint_bytes (length bs)) \<le> 10" using assms(5) by (intro varint_bytes_length_64) simp
  then have "delimited (Ok bs u) = Ok (varint_bytes (length bs) @ bs) ()" "bcat (Ok bs u) (out [0]) = Ok (bs @ [0]) ()"
    using assms(5) by (simp_all add: delimited_def bcat_def out_def)
  then show ?thesis
    using from_buffer_realizes [OF del assms(3,4)] from_buffer_realizes [OF nul assms(3,4)]
    by (auto split: if_splits)
qed

theorem pb_encode_framing_witness:
  "\<exists>os. pb_encode_delimited 1 sample_env (pb_ostream_from_buffer 16 (of_nat 16)) sample_fields 1000 = Ok () os \<and>
     written os = [8, 0x08, 0xAC, 0x02, 0x15, 0x78, 0x56, 0x34, 0x12]"
proof -
  let ?bs = "[0x08, 0xAC, 0x02, 0x15, 0x78, 0x56, 0x34, 0x12 :: u8]"
  have "msg_bytes 1 no_callbacks sample_env sample_fields 1000 = Ok ?bs ()"
    using sample_bytes [of 0] by simp
  from pb_encode_framing [OF callbacks_ok_none this, of 16 16] show ?thesis
    by (simp add: varint_bytes_small)
qed

section \<open>A read beyond the struct\<close>

lemma zero_loop_None:
  assumes "load_bytes m p k = Some (replicate k 0)" "cells m (p + int k) = None" "k < n"
  shows "zero_loop n m p = None"
  using assms
proof (induction n arbitrary: k p)
  case (Suc n)
  show ?case
  proof (cases k)
    case 0
    then show ?thesis using Suc.prems by (simp add: load8_def)
  next
    case (Suc j)
    then have "cells m p = Some 0" "load_bytes m (p + 1) j = Some (replicate j 0)"
      using Suc.prems by (auto split: option.splits)
    then show ?thesis using Suc.IH [of "p + 1" j] Suc.prems Suc by (simp add: load8_def add.assoc)
  qed
qed simp

text \<open>For an optional field with pointer allocation, \<open>encode_basic_field\<close> runs
  \<open>pb_check_proto3_default_value\<close> on the pointer itself. The catch-all loop of that function
  compares \<open>data_size\<close> bytes, the size of the object pointed to, so when the pointer is NULL
  and the object is larger than a pointer it reads beyond the pointer member; if the struct ends there, it
  reads outside the struct. The result is not used: for a pointer, \<open>implicit_has\<close> is
  overwritten.\<close>

theorem proto3_check_overreads_null_pointer:
  assumes "PB_ATYPE (type field) = PB_ATYPE_POINTER" "PB_HTYPE (type field) = PB_HTYPE_OPTIONAL"
    and "size_offset field = 0" "8 < data_size field" "PB_LTYPE (type field) < PB_LTYPES_COUNT"
    and "load_bytes (e_mem env) pd 8 = Some (replicate 8 0)" "cells (e_mem env) (pd + 8) = None"
  shows "pb_check_proto3_default_value (Suc d) env field pd = None \<and>
    encode_field env (pb_check_proto3_default_value (Suc d) env) enc s field pd = Stuck"
proof -
  have "8 < unat (data_size field)" using assms(4) by (simp add: word_less_nat_alt)
  then have z: "zero_loop (unat (data_size field)) (e_mem env) pd = None"
    using assms(6,7) by (intro zero_loop_None [of _ _ 8]) simp_all
  have "PB_HTYPE (type field) \<noteq> PB_HTYPE_REQUIRED" "PB_HTYPE (type field) \<noteq> PB_HTYPE_REPEATED"
    "PB_HTYPE (type field) \<noteq> PB_HTYPE_ONEOF" "PB_ATYPE (type field) \<noteq> PB_ATYPE_STATIC"
    using assms(1,2) by (simp_all add: pb_type_defs)
  then have n: "pb_check_proto3_default_value (Suc d) env field pd = None"
    using assms(3) z by (simp add: proto3_default_value_def Let_def)
  then show ?thesis using assms(1,2,3)
    by (simp add: encode_field_def encode_basic_field_def Let_def access_def split: option.split)
qed

theorem proto3_check_overreads_null_pointer_witness:
  "pb_check_proto3_default_value (Suc 0)
     (sample_env\<lparr>e_mem := \<lparr>cells = map_of (zip [2000, 2001, 2002, 2003, 2004, 2005, 2006, 2007] (replicate 8 0)),
                           blocks = \<lambda>_. None\<rparr>\<rparr>)
     (PB_FIELD 1 MESSAGE OPTIONAL POINTER FIRST \<lparr>c_offsetof = 0, c_sizeof = 8, c_elemsize = 16\<rparr>
        sample_a sample_a 3000) 2000 = None"
proof (rule conjunct1 [OF proto3_check_overreads_null_pointer])
  let ?f = "PB_FIELD 1 MESSAGE OPTIONAL POINTER FIRST \<lparr>c_offsetof = 0, c_sizeof = 8, c_elemsize = 16\<rparr>
        sample_a sample_a 3000"
  show "PB_ATYPE (type ?f) = PB_ATYPE_POINTER" "PB_HTYPE (type ?f) = PB_HTYPE_OPTIONAL"
    "size_offset ?f = 0" "8 < data_size ?f" "PB_LTYPE (type ?f) < PB_LTYPES_COUNT"
    by (simp_all add: pb_macro_defs pb_type_defs Let_def)
qed (simp_all add: numeral_eq_Suc)

end
