(* ===== verification/Pb_Decode.thy ===== *)
theory Pb_Decode
  imports Pb_Common Pb_Decode_Wire C_Memory
begin

unbundle bit_operations_syntax

text \<open>
  The message decoder of \<open>pb_decode.c\<close>: defaults, release, the field decoders, static,
  pointer and callback fields, extensions, \<open>pb_decode_noinit\<close> and the functions around it.

  The state of a call is the stream, the memory and the local variable \<open>fixed_count_size\<close>
  of the running \<open>pb_decode_noinit\<close> (\<open>dec_state\<close>). The functions that only work on
  memory map a memory to a memory, \<open>None\<close> standing for an access outside every object or
  an invalid \<open>free\<close>. Recursion into submessages is bounded by the nesting depth \<open>d\<close>,
  the length of an extension chain and the number of calls of a decode callback for one field by
  \<open>d_fuel\<close>; running out is \<open>Stuck\<close>.
\<close>

section \<open>State and environment\<close>

record 'u dec_state =
  d_stream :: "'u pb_istream_t"
  d_mem :: c_mem
  d_count :: pb_size_t

record 'u dec_env =
  d_rd :: "'u read_callback"
  d_fields :: "addr \<Rightarrow> pb_field_t list option"
  d_malloc :: "c_mem \<Rightarrow> u64 \<Rightarrow> addr option"
  d_garbage :: "addr \<Rightarrow> u8"
  d_decode_cb :: "addr \<Rightarrow> 'u pb_istream_t \<times> c_mem \<Rightarrow> pb_field_t \<Rightarrow> addr \<Rightarrow> (unit, 'u pb_istream_t \<times> c_mem) outcome"
  d_ext_decode :: "addr \<Rightarrow> 'u pb_istream_t \<times> c_mem \<Rightarrow> addr \<Rightarrow> u32 \<Rightarrow> pb_wire_type_t \<Rightarrow>
     (unit, 'u pb_istream_t \<times> c_mem) outcome"
  d_fuel :: nat

text \<open>A call that works on the stream only, and a store to memory.\<close>

definition on_stream ::
  "('u pb_istream_t \<Rightarrow> ('a, 'u pb_istream_t) outcome) \<Rightarrow> 'u dec_state \<Rightarrow> ('a, 'u dec_state) outcome" where
  "on_stream f st = on_state (\<lambda>s. st\<lparr>d_stream := s\<rparr>) (f (d_stream st))"

definition on_mem ::
  "(c_mem \<Rightarrow> c_mem option) \<Rightarrow> 'u dec_state \<Rightarrow> ('u dec_state \<Rightarrow> ('a, 'u dec_state) outcome) \<Rightarrow> ('a, 'u dec_state) outcome" where
  "on_mem f st k = access (f (d_mem st)) (\<lambda>m. k (st\<lparr>d_mem := m\<rparr>))"

abbreviation dec_error :: "'u dec_state \<Rightarrow> string \<Rightarrow> ('a, 'u dec_state) outcome" where
  "dec_error st msg \<equiv> on_stream (\<lambda>s. PB_RETURN_ERROR s msg) st"

text \<open>\<open>pb_read(stream, dest, count)\<close> into memory; a NULL destination skips.\<close>

definition pb_read_mem :: "'u dec_env \<Rightarrow> 'u dec_state \<Rightarrow> addr \<Rightarrow> u64 \<Rightarrow> (unit, 'u dec_state) outcome" where
  "pb_read_mem env st dest count =
     c_then (on_stream (\<lambda>s. pb_read (d_rd env) s (dest \<noteq> NULL) count) st) (\<lambda>bs st.
       on_mem (\<lambda>m. store_bytes m dest bs) st (Ok ()))"

section \<open>The heap\<close>

text \<open>
  \<open>pb_realloc\<close> and \<open>pb_free\<close> are the \<open>realloc\<close> and \<open>free\<close> of the C library.
  The allocator's choice of an address is a parameter (\<open>d_malloc\<close>, \<open>None\<close> when it
  has no memory); the new part of a block has arbitrary contents (\<open>d_garbage\<close>). Freeing
  what is not a block, and an allocator that hands out a live address, are errors.
\<close>

definition unmap :: "c_mem \<Rightarrow> addr \<Rightarrow> nat \<Rightarrow> c_mem" where
  "unmap m p n = m\<lparr>cells := (\<lambda>x. if p \<le> x \<and> x < p + int n then None else cells m x)\<rparr>"

definition pb_free :: "c_mem \<Rightarrow> addr \<Rightarrow> c_mem option" where
  "pb_free m p =
     (if p = NULL then Some m
      else (case blocks m p of
              None \<Rightarrow> None
            | Some n \<Rightarrow> Some ((unmap m p n)\<lparr>blocks := (blocks m)(p := None)\<rparr>)))"

definition vacant :: "c_mem \<Rightarrow> addr \<Rightarrow> nat \<Rightarrow> bool" where
  "vacant m p n \<longleftrightarrow> 0 < p \<and> p + int n \<le> 2 ^ 64 \<and> blocks m p = None \<and>
     list_all (\<lambda>i. cells m (p + int i) = None) [0..<n]"

definition map_block :: "c_mem \<Rightarrow> addr \<Rightarrow> nat \<Rightarrow> (addr \<Rightarrow> u8) \<Rightarrow> c_mem" where
  "map_block m p n f =
     m\<lparr>cells := (\<lambda>x. if p \<le> x \<and> x < p + int n then Some (f x) else cells m x),
       blocks := (blocks m)(p := Some n)\<rparr>"

text \<open>\<open>Some (NULL, m)\<close> is the failure of \<open>realloc\<close>: the old block stays.\<close>

definition pb_realloc :: "'u dec_env \<Rightarrow> c_mem \<Rightarrow> addr \<Rightarrow> u64 \<Rightarrow> (addr \<times> c_mem) option" where
  "pb_realloc env m p n =
     (case pb_free m p of
        None \<Rightarrow> None
      | Some freed \<Rightarrow>
          (case d_malloc env m n of
             None \<Rightarrow> Some (NULL, m)
           | Some q \<Rightarrow>
               if vacant freed q (unat n)
               then let old = (if p = NULL then 0 else the (blocks m p)) in
                    Some (q, map_block freed q (unat n) (\<lambda>x.
                      if x - q < int old then the (cells m (p + (x - q))) else d_garbage env x))
               else None))"

definition allocate_field ::
  "'u dec_env \<Rightarrow> 'u dec_state \<Rightarrow> addr \<Rightarrow> u64 \<Rightarrow> u64 \<Rightarrow> (unit, 'u dec_state) outcome" where
  "allocate_field env st pd dsize asize =
     access (load_ptr (d_mem st) pd) (\<lambda>p.
       if dsize = 0 \<or> asize = 0 then dec_error st ''invalid size''
       else let check_limit = push_bit 32 1 in
       if (dsize \<ge> check_limit \<or> asize \<ge> check_limit) \<and> - 1 div asize < dsize
       then dec_error st ''size too large''
       else access (pb_realloc env (d_mem st) p (asize * dsize)) (\<lambda>(q, m).
         if q = NULL then dec_error (st\<lparr>d_mem := m\<rparr>) ''realloc failed''
         else on_mem (\<lambda>m. store_ptr m pd q) (st\<lparr>d_mem := m\<rparr>) (Ok ())))"

section \<open>Defaults\<close>

text \<open>
  A \<open>pb_extension_t\<close> has \<open>type\<close> at offset 0, \<open>dest\<close> at 8, \<open>next\<close> at 16
  and \<open>found\<close> at 24; a \<open>pb_extension_type_t\<close> has \<open>decode\<close> at offset 0,
  \<open>encode\<close> at 8 and \<open>arg\<close> at 16.
\<close>

definition iter_from_extension :: "'u dec_env \<Rightarrow> c_mem \<Rightarrow> addr \<Rightarrow> pb_field_iter_t option" where
  "iter_from_extension env m extension =
     Option.bind (load_ptr m extension) (\<lambda>etype.
     Option.bind (load_ptr m (etype + 16)) (\<lambda>arg.
     Option.bind (d_fields env arg) (\<lambda>flds.
     Option.bind (load_ptr m (extension + 8)) (\<lambda>dest.
     Option.bind (pb_field_iter_begin flds dest) (\<lambda>(_, it).
     Option.bind (it_field it) (\<lambda>field.
       Some (it\<lparr>pData := (if PB_ATYPE (type field) = PB_ATYPE_POINTER then extension + 8 else dest),
                pSize := extension + 24\<rparr>)))))))"

text \<open>\<open>while (ext != NULL) { ... ext = ext->next; }\<close>.\<close>

primrec chain_loop :: "nat \<Rightarrow> (addr \<Rightarrow> c_mem \<Rightarrow> c_mem option) \<Rightarrow> addr \<Rightarrow> c_mem \<Rightarrow> c_mem option" where
  "chain_loop 0 f ext m = (if ext = NULL then Some m else None)"
| "chain_loop (Suc n) f ext m =
     (if ext = NULL then Some m
      else Option.bind (f ext m) (\<lambda>m. Option.bind (load_ptr m (ext + 16)) (\<lambda>nxt. chain_loop n f nxt m)))"

text \<open>\<open>do { f(&iter); } while (pb_field_iter_next(&iter));\<close>.\<close>

function field_walk ::
  "(pb_field_iter_t \<Rightarrow> c_mem \<Rightarrow> c_mem option) \<Rightarrow> pb_field_iter_t \<Rightarrow> c_mem \<Rightarrow> c_mem option" where
  "field_walk f it m =
     (case f it m of
        None \<Rightarrow> None
      | Some m' \<Rightarrow>
          (case pb_field_iter_next it of
             None \<Rightarrow> None
           | Some (True, it') \<Rightarrow> field_walk f it' m'
           | Some (False, it') \<Rightarrow> Some m'))"
  by pat_completeness auto
termination
  by (relation "measure (\<lambda>(f, it, m). length (it_start it) - it_pos it)") (auto dest!: iter_next_True)

declare field_walk.simps [simp del]

text \<open>The walk over the message at \<open>p\<close>; an empty message type has nothing to walk
  over.\<close>

definition message_walk ::
  "(pb_field_iter_t \<Rightarrow> c_mem \<Rightarrow> c_mem option) \<Rightarrow> pb_field_t list \<Rightarrow> addr \<Rightarrow> c_mem \<Rightarrow> c_mem option" where
  "message_walk f flds p m =
     (case pb_field_iter_begin flds p of
        None \<Rightarrow> None
      | Some (False, it) \<Rightarrow> Some m
      | Some (True, it) \<Rightarrow> field_walk f it m)"

definition set_static_default ::
  "'u dec_env \<Rightarrow> (pb_field_iter_t \<Rightarrow> c_mem \<Rightarrow> c_mem option) \<Rightarrow> pb_field_iter_t \<Rightarrow> pb_field_t \<Rightarrow> c_mem \<Rightarrow> c_mem option" where
  "set_static_default env setf it f m =
     (let ty = type f;
          init = (\<lambda>m.
            if PB_LTYPE ty = PB_LTYPE_SUBMESSAGE
            then Option.bind (d_fields env (ptr f)) (\<lambda>flds. message_walk setf flds (pData it) m)
            else if ptr f \<noteq> NULL then mem_copy m (pData it) (ptr f) (unat (data_size f))
            else mem_zero m (pData it) (unat (data_size f)))
      in if PB_HTYPE ty = PB_HTYPE_OPTIONAL \<and> pSize it \<noteq> pData it
         then Option.bind (store_word m (pSize it) 1 (0 :: u8)) init
         else if PB_HTYPE ty = PB_HTYPE_REPEATED \<or> PB_HTYPE ty = PB_HTYPE_ONEOF
         then store_word m (pSize it) 4 (0 :: u32)
         else init m)"

definition field_set_to_default ::
  "'u dec_env \<Rightarrow> (pb_field_iter_t \<Rightarrow> c_mem \<Rightarrow> c_mem option) \<Rightarrow> pb_field_iter_t \<Rightarrow> c_mem \<Rightarrow> c_mem option" where
  "field_set_to_default env setf it m =
     Option.bind (it_field it) (\<lambda>f.
       let ty = type f in
       if PB_LTYPE ty = PB_LTYPE_EXTENSION
       then Option.bind (load_ptr m (pData it)) (\<lambda>ext.
              chain_loop (d_fuel env) (\<lambda>ext m.
                Option.bind (store_word m (ext + 24) 1 (0 :: u8)) (\<lambda>m.
                Option.bind (iter_from_extension env m ext) (\<lambda>ext_iter. setf ext_iter m))) ext m)
       else if PB_ATYPE ty = PB_ATYPE_STATIC then set_static_default env setf it f m
       else if PB_ATYPE ty = PB_ATYPE_POINTER
       then Option.bind (store_ptr m (pData it) NULL) (\<lambda>m.
              if PB_HTYPE ty = PB_HTYPE_REPEATED \<or> PB_HTYPE ty = PB_HTYPE_ONEOF
              then store_word m (pSize it) 4 (0 :: u32) else Some m)
       else Some m)"

primrec pb_field_set_to_default :: "nat \<Rightarrow> 'u dec_env \<Rightarrow> pb_field_iter_t \<Rightarrow> c_mem \<Rightarrow> c_mem option" where
  "pb_field_set_to_default 0 env = (\<lambda>it m. None)"
| "pb_field_set_to_default (Suc d) env = field_set_to_default env (pb_field_set_to_default d env)"

definition pb_message_set_to_defaults ::
  "nat \<Rightarrow> 'u dec_env \<Rightarrow> pb_field_t list \<Rightarrow> addr \<Rightarrow> c_mem \<Rightarrow> c_mem option" where
  "pb_message_set_to_defaults d env flds p m = message_walk (pb_field_set_to_default d env) flds p m"

section \<open>Release\<close>

text \<open>The two \<open>while (count--)\<close> loops: over the items of a submessage array, and over the
  entries of an array of strings or bytes.\<close>

primrec release_items :: "nat \<Rightarrow> (addr \<Rightarrow> c_mem \<Rightarrow> c_mem option) \<Rightarrow> int \<Rightarrow> addr \<Rightarrow> c_mem \<Rightarrow> c_mem option" where
  "release_items 0 f step p m = Some m"
| "release_items (Suc n) f step p m = Option.bind (f p m) (\<lambda>m. release_items n f step (p + step) m)"

definition release_entry :: "addr \<Rightarrow> c_mem \<Rightarrow> c_mem option" where
  "release_entry p m =
     Option.bind (load_ptr m p) (\<lambda>q. Option.bind (pb_free m q) (\<lambda>m. store_ptr m p NULL))"

text \<open>\<open>pb_release\<close> with its recursive call open; a NULL message is ignored.\<close>

definition release_message ::
  "(pb_field_iter_t \<Rightarrow> c_mem \<Rightarrow> c_mem option) \<Rightarrow> pb_field_t list \<Rightarrow> addr \<Rightarrow> c_mem \<Rightarrow> c_mem option" where
  "release_message relf flds p m = (if p = NULL then Some m else message_walk relf flds p m)"

text \<open>Lines 1156 to 1191: what a submessage field holds.\<close>

definition release_submessages ::
  "'u dec_env \<Rightarrow> (pb_field_iter_t \<Rightarrow> c_mem \<Rightarrow> c_mem option) \<Rightarrow> pb_field_iter_t \<Rightarrow> pb_field_t \<Rightarrow> c_mem \<Rightarrow> c_mem option" where
  "release_submessages env relf it f m =
     (let ty = type f; static = (PB_ATYPE ty = PB_ATYPE_STATIC) in
      Option.bind (if PB_ATYPE ty = PB_ATYPE_POINTER then load_ptr m (pData it) else Some (pData it)) (\<lambda>pItem.
      Option.bind (if PB_HTYPE ty = PB_HTYPE_REPEATED
                   then Option.bind (if static \<and> pSize it = pData it then Some (array_size f)
                                     else load32 m (pSize it)) (\<lambda>count.
                          Some (if static \<and> count > array_size f then array_size f else count))
                   else Some 1) (\<lambda>count.
        if pItem \<noteq> NULL \<and> count \<noteq> 0
        then Option.bind (d_fields env (ptr f)) (\<lambda>flds.
               release_items (unat count) (release_message relf flds) (uint (data_size f)) pItem m)
        else Some m)))"

text \<open>Lines 1193 to 1218: the allocation of a pointer field.\<close>

definition release_pointer :: "pb_field_iter_t \<Rightarrow> pb_field_t \<Rightarrow> c_mem \<Rightarrow> c_mem option" where
  "release_pointer it f m =
     (let ty = type f in
      Option.bind
        (if PB_HTYPE ty = PB_HTYPE_REPEATED \<and> (PB_LTYPE ty = PB_LTYPE_STRING \<or> PB_LTYPE ty = PB_LTYPE_BYTES)
         then Option.bind (load_ptr m (pData it)) (\<lambda>pItem.
              Option.bind (load32 m (pSize it)) (\<lambda>count.
                release_items (unat count) release_entry 8 pItem m))
         else Some m) (\<lambda>m.
      Option.bind
        (if PB_HTYPE ty = PB_HTYPE_REPEATED then store_word m (pSize it) 4 (0 :: u32) else Some m) (\<lambda>m.
      Option.bind (load_ptr m (pData it)) (\<lambda>p.
      Option.bind (pb_free m p) (\<lambda>m. store_ptr m (pData it) NULL)))))"

definition release_single_field ::
  "'u dec_env \<Rightarrow> (pb_field_iter_t \<Rightarrow> c_mem \<Rightarrow> c_mem option) \<Rightarrow> pb_field_iter_t \<Rightarrow> c_mem \<Rightarrow> c_mem option" where
  "release_single_field env relf it m =
     Option.bind (it_field it) (\<lambda>f.
       let ty = type f in
       Option.bind (if PB_HTYPE ty = PB_HTYPE_ONEOF
                    then map_option (\<lambda>which. which = tag f) (load32 m (pSize it)) else Some True) (\<lambda>current.
         if \<not> current then Some m
         else Option.bind
           (if PB_LTYPE ty = PB_LTYPE_EXTENSION
            then Option.bind (load_ptr m (pData it)) (\<lambda>ext.
                   chain_loop (d_fuel env) (\<lambda>ext m.
                     Option.bind (iter_from_extension env m ext) (\<lambda>ext_iter. relf ext_iter m)) ext m)
            else if PB_LTYPE ty = PB_LTYPE_SUBMESSAGE then release_submessages env relf it f m
            else Some m) (\<lambda>m.
         if PB_ATYPE ty = PB_ATYPE_POINTER then release_pointer it f m else Some m)))"

primrec pb_release_single_field :: "nat \<Rightarrow> 'u dec_env \<Rightarrow> pb_field_iter_t \<Rightarrow> c_mem \<Rightarrow> c_mem option" where
  "pb_release_single_field 0 env = (\<lambda>it m. None)"
| "pb_release_single_field (Suc d) env = release_single_field env (pb_release_single_field d env)"

definition pb_release :: "nat \<Rightarrow> 'u dec_env \<Rightarrow> pb_field_t list \<Rightarrow> addr \<Rightarrow> c_mem \<Rightarrow> c_mem option" where
  "pb_release d env flds p m = release_message (pb_release_single_field d env) flds p m"

text \<open>The iterator may move, so it is returned.\<close>

definition pb_release_union_field ::
  "nat \<Rightarrow> 'u dec_env \<Rightarrow> 'u dec_state \<Rightarrow> pb_field_iter_t \<Rightarrow> (pb_field_iter_t, 'u dec_state) outcome" where
  "pb_release_union_field d env st it =
     access (it_field it) (\<lambda>f.
     access (load32 (d_mem st) (pSize it)) (\<lambda>old_tag.
       let new_tag = tag f in
       if old_tag = 0 \<or> old_tag = new_tag then Ok it st
       else access (pb_field_iter_find it old_tag) (\<lambda>(found, it).
         if \<not> found then dec_error st ''invalid union tag''
         else on_mem (pb_release_single_field d env it) st (\<lambda>st.
           access (pb_field_iter_find it new_tag) (\<lambda>(found, it).
             if \<not> found then dec_error st ''iterator error'' else Ok it st)))))"

section \<open>Field decoders\<close>

type_synonym 'u pb_decoder_t = "'u dec_state \<Rightarrow> pb_field_t \<Rightarrow> addr \<Rightarrow> (unit, 'u dec_state) outcome"

type_synonym 'u msg_decoder = "'u dec_state \<Rightarrow> pb_field_t list \<Rightarrow> addr \<Rightarrow> (unit, 'u dec_state) outcome"

text \<open>\<open>clamped = *(T*)dest = (T)value; if (clamped != value) ...\<close> for a type of
  \<open>n\<close> bytes: \<open>stored\<close> is the value cast to it, \<open>clamped\<close> the stored value
  widened again.\<close>

definition store_clamped ::
  "'u dec_state \<Rightarrow> addr \<Rightarrow> nat \<Rightarrow> 'a::len word \<Rightarrow> u64 \<Rightarrow> u64 \<Rightarrow> (unit, 'u dec_state) outcome" where
  "store_clamped st dest n stored clamped val =
     on_mem (\<lambda>m. store_word m dest n stored) st (\<lambda>st.
       if clamped \<noteq> val then dec_error st ''integer too large'' else Ok () st)"

text \<open>The signed case chain, shared by \<open>pb_dec_varint\<close> and \<open>pb_dec_svarint\<close>.\<close>

definition store_signed :: "'u dec_state \<Rightarrow> pb_field_t \<Rightarrow> addr \<Rightarrow> u64 \<Rightarrow> (unit, 'u dec_state) outcome" where
  "store_signed st field dest val =
     (if data_size field = 8 then store_clamped st dest 8 val val val
      else if data_size field = 4 then store_clamped st dest 4 (ucast val :: u32) (scast (ucast val :: u32)) val
      else if data_size field = 2 then store_clamped st dest 2 (ucast val :: u16) (scast (ucast val :: u16)) val
      else if data_size field = 1 then store_clamped st dest 1 (ucast val :: u8) (scast (ucast val :: u8)) val
      else dec_error st ''invalid data_size'')"

definition pb_dec_varint :: "'u dec_env \<Rightarrow> 'u pb_decoder_t" where
  "pb_dec_varint env st field dest =
     c_then (on_stream (pb_decode_varint (d_rd env)) st) (\<lambda>val st.
       let svalue = (if data_size field = 8 then val else scast (ucast val :: u32)) in
       store_signed st field dest svalue)"

definition pb_dec_uvarint :: "'u dec_env \<Rightarrow> 'u pb_decoder_t" where
  "pb_dec_uvarint env st field dest =
     c_then (on_stream (pb_decode_varint (d_rd env)) st) (\<lambda>val st.
       if data_size field = 8 then store_clamped st dest 8 val val val
       else if data_size field = 4 then store_clamped st dest 4 (ucast val :: u32) (ucast (ucast val :: u32)) val
       else if data_size field = 2 then store_clamped st dest 2 (ucast val :: u16) (ucast (ucast val :: u16)) val
       else if data_size field = 1 then store_clamped st dest 1 (ucast val :: u8) (ucast (ucast val :: u8)) val
       else dec_error st ''invalid data_size'')"

definition pb_dec_svarint :: "'u dec_env \<Rightarrow> 'u pb_decoder_t" where
  "pb_dec_svarint env st field dest =
     c_then (on_stream (pb_decode_svarint (d_rd env)) st) (\<lambda>val st. store_signed st field dest val)"

definition pb_dec_fixed32 :: "'u dec_env \<Rightarrow> 'u pb_decoder_t" where
  "pb_dec_fixed32 env st field dest =
     c_then (on_stream (pb_decode_fixed32 (d_rd env)) st) (\<lambda>val st.
       on_mem (\<lambda>m. store_word m dest 4 val) st (Ok ()))"

definition pb_dec_fixed64 :: "'u dec_env \<Rightarrow> 'u pb_decoder_t" where
  "pb_dec_fixed64 env st field dest =
     c_then (on_stream (pb_decode_fixed64 (d_rd env)) st) (\<lambda>val st.
       on_mem (\<lambda>m. store_word m dest 8 val) st (Ok ()))"

text \<open>\<open>size > PB_SIZE_MAX\<close> is never true: both are 32-bit.\<close>

definition pb_dec_bytes :: "'u dec_env \<Rightarrow> 'u pb_decoder_t" where
  "pb_dec_bytes env st field dest =
     c_then (on_stream (pb_decode_varint32 (d_rd env)) st) (\<lambda>sz st.
       if sz > PB_SIZE_MAX then dec_error st ''bytes overflow''
       else let alloc_size = PB_BYTES_ARRAY_T_ALLOCSIZE (ucast sz) in
       if ucast sz > alloc_size then dec_error st ''size too large''
       else
         let finish = (\<lambda>bdest st.
               on_mem (\<lambda>m. store_word m bdest 4 sz) st (\<lambda>st. pb_read_mem env st (bdest + 4) (ucast sz)))
         in if PB_ATYPE (type field) = PB_ATYPE_POINTER
            then c_then (allocate_field env st dest alloc_size 1) (\<lambda>_ st.
                   access (load_ptr (d_mem st) dest) (\<lambda>bdest. finish bdest st))
            else if alloc_size > ucast (data_size field) then dec_error st ''bytes overflow''
            else finish dest st)"

text \<open>\<open>size + 1\<close> is computed in 32 bits. The terminator is stored also when the read fails.\<close>

definition pb_dec_string :: "'u dec_env \<Rightarrow> 'u pb_decoder_t" where
  "pb_dec_string env st field dest =
     c_then (on_stream (pb_decode_varint32 (d_rd env)) st) (\<lambda>sz st.
       let alloc_size = ucast (sz + 1) :: u64 in
       if alloc_size < ucast sz then dec_error st ''size too large''
       else
         let finish = (\<lambda>dest st.
               (case pb_read_mem env st dest (ucast sz) of
                  Stuck \<Rightarrow> Stuck
                | Ok _ st \<Rightarrow> on_mem (\<lambda>m. store_word m (dest + uint sz) 1 (0 :: u8)) st (Ok ())
                | Fail st \<Rightarrow> on_mem (\<lambda>m. store_word m (dest + uint sz) 1 (0 :: u8)) st Fail))
         in if PB_ATYPE (type field) = PB_ATYPE_POINTER
            then c_then (allocate_field env st dest alloc_size 1) (\<lambda>_ st.
                   access (load_ptr (d_mem st) dest) (\<lambda>dest. finish dest st))
            else if alloc_size > ucast (data_size field) then dec_error st ''string overflow''
            else finish dest st)"

definition pb_dec_fixed_length_bytes :: "'u dec_env \<Rightarrow> 'u pb_decoder_t" where
  "pb_dec_fixed_length_bytes env st field dest =
     c_then (on_stream (pb_decode_varint32 (d_rd env)) st) (\<lambda>sz st.
       if sz > PB_SIZE_MAX then dec_error st ''bytes overflow''
       else if sz = 0 then on_mem (\<lambda>m. mem_zero m dest (unat (data_size field))) st (Ok ())
       else if sz \<noteq> data_size field then dec_error st ''incorrect fixed length bytes size''
       else pb_read_mem env st dest (ucast (data_size field)))"

section \<open>Submessages\<close>

text \<open>The call \<open>pb_close_string_substream(stream, &substream)\<close> and \<open>return status\<close>:
  \<open>st\<close> holds the substream, \<open>parent\<close> is the stream.\<close>

definition close_substream ::
  "'u dec_env \<Rightarrow> 'u pb_istream_t \<Rightarrow> bool \<Rightarrow> 'u dec_state \<Rightarrow> (unit, 'u dec_state) outcome" where
  "close_substream env parent status st =
     c_then (on_stream (\<lambda>sub. pb_close_string_substream (d_rd env) parent sub) st) (\<lambda>_ st.
       if status then Ok () st else Fail st)"

definition closing ::
  "'u dec_env \<Rightarrow> 'u pb_istream_t \<Rightarrow> (unit, 'u dec_state) outcome \<Rightarrow> (unit, 'u dec_state) outcome" where
  "closing env parent r =
     (case r of
        Stuck \<Rightarrow> Stuck
      | Ok _ st \<Rightarrow> close_substream env parent True st
      | Fail st \<Rightarrow> close_substream env parent False st)"

text \<open>\<open>pb_decode\<close> around a given \<open>pb_decode_noinit\<close>.\<close>

definition decode_init :: "nat \<Rightarrow> 'u dec_env \<Rightarrow> 'u msg_decoder \<Rightarrow> 'u msg_decoder" where
  "decode_init d env noinit st flds dest =
     on_mem (pb_message_set_to_defaults d env flds dest) st (\<lambda>st.
       (case noinit st flds dest of
          Stuck \<Rightarrow> Stuck
        | Ok _ st \<Rightarrow> Ok () st
        | Fail st \<Rightarrow> on_mem (pb_release d env flds dest) st Fail))"

definition pb_dec_submessage :: "nat \<Rightarrow> 'u dec_env \<Rightarrow> 'u msg_decoder \<Rightarrow> 'u pb_decoder_t" where
  "pb_dec_submessage d env noinit st field dest =
     c_then (on_stream (pb_make_string_substream (d_rd env)) st) (\<lambda>substream st.
       if ptr field = NULL then dec_error st ''invalid field descriptor''
       else access (d_fields env (ptr field)) (\<lambda>flds.
         closing env (d_stream st)
           ((if PB_HTYPE (type field) = PB_HTYPE_REPEATED then decode_init d env noinit else noinit)
              (st\<lparr>d_stream := substream\<rparr>) flds dest)))"

text \<open>The table of field decoders; the entry of extensions is NULL.\<close>

definition PB_DECODERS :: "nat \<Rightarrow> 'u dec_env \<Rightarrow> 'u msg_decoder \<Rightarrow> u8 \<Rightarrow> 'u pb_decoder_t option" where
  "PB_DECODERS d env noinit lt =
     (if lt = PB_LTYPE_VARINT then Some (pb_dec_varint env)
      else if lt = PB_LTYPE_UVARINT then Some (pb_dec_uvarint env)
      else if lt = PB_LTYPE_SVARINT then Some (pb_dec_svarint env)
      else if lt = PB_LTYPE_FIXED32 then Some (pb_dec_fixed32 env)
      else if lt = PB_LTYPE_FIXED64 then Some (pb_dec_fixed64 env)
      else if lt = PB_LTYPE_BYTES then Some (pb_dec_bytes env)
      else if lt = PB_LTYPE_STRING then Some (pb_dec_string env)
      else if lt = PB_LTYPE_SUBMESSAGE then Some (pb_dec_submessage d env noinit)
      else if lt = PB_LTYPE_EXTENSION then Some (\<lambda>st field dest. Stuck)
      else if lt = PB_LTYPE_FIXED_LENGTH_BYTES then Some (pb_dec_fixed_length_bytes env)
      else None)"

section \<open>Static fields\<close>

text \<open>
  \<open>pb_decode_noinit\<close> makes \<open>iter.pSize\<close> point to its local variable
  \<open>fixed_count_size\<close> for a fixed count array. That variable has the address
  \<open>FIXED_COUNT\<close>, where no object lives, and is \<open>d_count\<close> of the state.
\<close>

definition FIXED_COUNT :: addr where
  "FIXED_COUNT = - 1"

definition load_count :: "'u dec_state \<Rightarrow> addr \<Rightarrow> pb_size_t option" where
  "load_count st p = (if p = FIXED_COUNT then Some (d_count st) else load32 (d_mem st) p)"

definition store_count ::
  "'u dec_state \<Rightarrow> addr \<Rightarrow> pb_size_t \<Rightarrow> ('u dec_state \<Rightarrow> ('a, 'u dec_state) outcome) \<Rightarrow> ('a, 'u dec_state) outcome" where
  "store_count st p n k =
     (if p = FIXED_COUNT then k (st\<lparr>d_count := n\<rparr>) else on_mem (\<lambda>m. store_word m p 4 n) st k)"

text \<open>The address of array item \<open>n\<close>: \<open>data_size * n\<close> is a 32-bit product.\<close>

definition item_addr :: "addr \<Rightarrow> pb_field_t \<Rightarrow> pb_size_t \<Rightarrow> addr" where
  "item_addr base f n = base + uint (data_size f * n)"

text \<open>
  The packed loop of \<open>decode_static_field\<close>; \<open>st\<close> holds the substream. It returns
  \<open>status\<close>. Every successful call of \<open>func\<close> takes at least one byte, so the bytes
  of the substream are enough fuel.
\<close>

primrec packed_loop ::
  "nat \<Rightarrow> 'u pb_decoder_t \<Rightarrow> pb_field_iter_t \<Rightarrow> pb_field_t \<Rightarrow> 'u dec_state \<Rightarrow> (bool, 'u dec_state) outcome" where
  "packed_loop 0 func it f st = Stuck"
| "packed_loop (Suc n) func it f st =
     access (load_count st (pSize it)) (\<lambda>sz.
       if bytes_left (d_stream st) > 0 \<and> sz < array_size f
       then (case func st f (item_addr (pData it) f sz) of
               Stuck \<Rightarrow> Stuck
             | Fail st \<Rightarrow> Ok False st
             | Ok _ st \<Rightarrow>
                 access (load_count st (pSize it)) (\<lambda>sz.
                   store_count st (pSize it) (sz + 1) (\<lambda>st. packed_loop n func it f st)))
       else Ok True st)"

definition decode_static_field ::
  "nat \<Rightarrow> 'u dec_env \<Rightarrow> 'u msg_decoder \<Rightarrow> 'u dec_state \<Rightarrow> pb_wire_type_t \<Rightarrow> pb_field_iter_t \<Rightarrow>
   (unit, 'u dec_state) outcome" where
  "decode_static_field d env noinit st wire_type it =
     access (it_field it) (\<lambda>f.
     let ty = type f in
     access (PB_DECODERS d env noinit (PB_LTYPE ty)) (\<lambda>func.
       if PB_HTYPE ty = PB_HTYPE_REQUIRED then func st f (pData it)
       else if PB_HTYPE ty = PB_HTYPE_OPTIONAL
       then (if pSize it \<noteq> pData it
             then on_mem (\<lambda>m. store_word m (pSize it) 1 (1 :: u8)) st (\<lambda>st. func st f (pData it))
             else func st f (pData it))
       else if PB_HTYPE ty = PB_HTYPE_REPEATED
       then (if wire_type = PB_WT_STRING \<and> PB_LTYPE ty \<le> PB_LTYPE_LAST_PACKABLE
             then c_then (on_stream (pb_make_string_substream (d_rd env)) st) (\<lambda>substream st.
                    let parent = d_stream st in
                    c_then (packed_loop (Suc (unat (bytes_left substream))) func it f
                              (st\<lparr>d_stream := substream\<rparr>)) (\<lambda>status st.
                      if bytes_left (d_stream st) \<noteq> 0
                      then dec_error (st\<lparr>d_stream := parent\<rparr>) ''array overflow''
                      else close_substream env parent status st))
             else access (load_count st (pSize it)) (\<lambda>sz.
                    store_count st (pSize it) (sz + 1) (\<lambda>st.
                      if sz \<ge> array_size f then dec_error st ''array overflow''
                      else func st f (item_addr (pData it) f sz))))
       else if PB_HTYPE ty = PB_HTYPE_ONEOF
       then on_mem (\<lambda>m. store_word m (pSize it) 4 (tag f)) st (\<lambda>st.
              if PB_LTYPE ty = PB_LTYPE_SUBMESSAGE
              then on_mem (\<lambda>m. mem_zero m (pData it) (unat (data_size f))) st (\<lambda>st.
                   access (d_fields env (ptr f)) (\<lambda>flds.
                   on_mem (pb_message_set_to_defaults d env flds (pData it)) st (\<lambda>st.
                     func st f (pData it))))
              else func st f (pData it))
       else dec_error st ''invalid field type''))"

section \<open>Pointer fields\<close>

definition initialize_pointer_field ::
  "nat \<Rightarrow> 'u dec_env \<Rightarrow> addr \<Rightarrow> pb_field_t \<Rightarrow> c_mem \<Rightarrow> c_mem option" where
  "initialize_pointer_field d env pItem f m =
     (if PB_LTYPE (type f) = PB_LTYPE_STRING \<or> PB_LTYPE (type f) = PB_LTYPE_BYTES
      then store_ptr m pItem NULL
      else if PB_LTYPE (type f) = PB_LTYPE_SUBMESSAGE
      then Option.bind (mem_zero m pItem (unat (data_size f))) (\<lambda>m.
           Option.bind (d_fields env (ptr f)) (\<lambda>flds. pb_message_set_to_defaults d env flds pItem m))
      else Some m)"

text \<open>
  The packed loop of \<open>decode_pointer_field\<close>. \<open>parent\<close> is \<open>stream\<close>, whose message
  the loop may set; it returns \<open>status\<close> and \<open>parent\<close>. A division by a \<open>data_size\<close>
  of 0 is an error.
\<close>

primrec pointer_packed_loop ::
  "nat \<Rightarrow> nat \<Rightarrow> 'u dec_env \<Rightarrow> 'u pb_decoder_t \<Rightarrow> pb_field_iter_t \<Rightarrow> pb_field_t \<Rightarrow> u64 \<Rightarrow>
   'u pb_istream_t \<Rightarrow> 'u dec_state \<Rightarrow> (bool \<times> 'u pb_istream_t, 'u dec_state) outcome" where
  "pointer_packed_loop 0 d env func it f allocated parent st = Stuck"
| "pointer_packed_loop (Suc n) d env func it f allocated parent st =
     (if bytes_left (d_stream st) = 0 then Ok (True, parent) st
      else access (load_count st (pSize it)) (\<lambda>sz.
        let grow = (ucast sz + 1 > allocated);
            allocated' = (if grow
              then allocated + ((bytes_left (d_stream st) - 1) div ucast (data_size f) + 1) else allocated) in
        if grow \<and> data_size f = 0 then Stuck
        else (case (if grow then allocate_field env st (pData it) (ucast (data_size f)) allocated' else Ok () st) of
                Stuck \<Rightarrow> Stuck
              | Fail st \<Rightarrow> Ok (False, parent) st
              | Ok _ st \<Rightarrow>
                  access (load_ptr (d_mem st) (pData it)) (\<lambda>base.
                  access (load_count st (pSize it)) (\<lambda>sz.
                  let pItem = item_addr base f sz in
                  on_mem (initialize_pointer_field d env pItem f) st (\<lambda>st.
                    (case func st f pItem of
                       Stuck \<Rightarrow> Stuck
                     | Fail st \<Rightarrow> Ok (False, parent) st
                     | Ok _ st \<Rightarrow>
                         access (load_count st (pSize it)) (\<lambda>sz.
                           if sz = PB_SIZE_MAX
                           then Ok (False, parent\<lparr>is_errmsg := Some ''too many array entries''\<rparr>) st
                           else store_count st (pSize it) (sz + 1) (\<lambda>st.
                             pointer_packed_loop n d env func it f allocated' parent st)))))))))"

definition decode_pointer_field ::
  "nat \<Rightarrow> 'u dec_env \<Rightarrow> 'u msg_decoder \<Rightarrow> 'u dec_state \<Rightarrow> pb_wire_type_t \<Rightarrow> pb_field_iter_t \<Rightarrow>
   (unit, 'u dec_state) outcome" where
  "decode_pointer_field d env noinit st wire_type it =
     access (it_field it) (\<lambda>f.
     let ty = type f in
     access (PB_DECODERS d env noinit (PB_LTYPE ty)) (\<lambda>func.
       if PB_HTYPE ty = PB_HTYPE_REQUIRED \<or> PB_HTYPE ty = PB_HTYPE_OPTIONAL \<or> PB_HTYPE ty = PB_HTYPE_ONEOF
       then access (if PB_LTYPE ty = PB_LTYPE_SUBMESSAGE then load_ptr (d_mem st) (pData it) else Some NULL) (\<lambda>old.
            on_mem (\<lambda>m. if old \<noteq> NULL then pb_release_single_field d env it m else Some m) st (\<lambda>st.
            on_mem (\<lambda>m. if PB_HTYPE ty = PB_HTYPE_ONEOF
                         then store_word m (pSize it) 4 (tag f) else Some m) st (\<lambda>st.
              if PB_LTYPE ty = PB_LTYPE_STRING \<or> PB_LTYPE ty = PB_LTYPE_BYTES then func st f (pData it)
              else c_then (allocate_field env st (pData it) (ucast (data_size f)) 1) (\<lambda>_ st.
                   access (load_ptr (d_mem st) (pData it)) (\<lambda>p.
                   on_mem (initialize_pointer_field d env p f) st (\<lambda>st.
                   access (load_ptr (d_mem st) (pData it)) (\<lambda>p. func st f p)))))))
       else if PB_HTYPE ty = PB_HTYPE_REPEATED
       then (if wire_type = PB_WT_STRING \<and> PB_LTYPE ty \<le> PB_LTYPE_LAST_PACKABLE
             then access (load_count st (pSize it)) (\<lambda>sz.
                  c_then (on_stream (pb_make_string_substream (d_rd env)) st) (\<lambda>substream st.
                  c_then (pointer_packed_loop (Suc (unat (bytes_left substream))) d env func it f (ucast sz)
                            (d_stream st) (st\<lparr>d_stream := substream\<rparr>)) (\<lambda>(status, parent) st.
                    close_substream env parent status st)))
             else access (load_count st (pSize it)) (\<lambda>sz.
                    if sz = PB_SIZE_MAX then dec_error st ''too many array entries''
                    else store_count st (pSize it) (sz + 1) (\<lambda>st.
                      access (load_count st (pSize it)) (\<lambda>sz.
                      c_then (allocate_field env st (pData it) (ucast (data_size f)) (ucast sz)) (\<lambda>_ st.
                      access (load_ptr (d_mem st) (pData it)) (\<lambda>base.
                      access (load_count st (pSize it)) (\<lambda>sz.
                      let pItem = item_addr base f (sz - 1) in
                      on_mem (initialize_pointer_field d env pItem f) st (\<lambda>st. func st f pItem))))))))
       else dec_error st ''invalid field type''))"

section \<open>Callback fields and extensions\<close>

text \<open>\<open>pCallback->funcs.decode(&substream, iter->pos, arg)\<close> with the given substream; the
  callback also works on memory.\<close>

definition call_decode ::
  "'u dec_env \<Rightarrow> addr \<Rightarrow> 'u dec_state \<Rightarrow> pb_field_t \<Rightarrow> addr \<Rightarrow> (unit, 'u dec_state) outcome" where
  "call_decode env decode st f arg =
     on_state (\<lambda>(s, m). st\<lparr>d_stream := s, d_mem := m\<rparr>)
       (d_decode_cb env decode (d_stream st, d_mem st) f arg)"

text \<open>The \<open>do ... while (substream.bytes_left)\<close> loop; a callback that fails ends the call with
  the parent stream.\<close>

primrec callback_loop ::
  "nat \<Rightarrow> 'u dec_env \<Rightarrow> addr \<Rightarrow> 'u pb_istream_t \<Rightarrow> 'u dec_state \<Rightarrow> pb_field_t \<Rightarrow> addr \<Rightarrow> (unit, 'u dec_state) outcome" where
  "callback_loop 0 env pCallback parent st f arg = Stuck"
| "callback_loop (Suc n) env pCallback parent st f arg =
     access (load_ptr (d_mem st) pCallback) (\<lambda>decode.
       (case call_decode env decode st f arg of
          Stuck \<Rightarrow> Stuck
        | Fail st \<Rightarrow> dec_error (st\<lparr>d_stream := parent\<rparr>) ''callback failed''
        | Ok _ st \<Rightarrow>
            if bytes_left (d_stream st) \<noteq> 0 then callback_loop n env pCallback parent st f arg
            else Ok () st))"

definition decode_callback_field ::
  "'u dec_env \<Rightarrow> 'u dec_state \<Rightarrow> pb_wire_type_t \<Rightarrow> pb_field_iter_t \<Rightarrow> (unit, 'u dec_state) outcome" where
  "decode_callback_field env st wire_type it =
     access (it_field it) (\<lambda>f.
     let pCallback = pData it; arg = pCallback + 8 in
     access (if pCallback = NULL then Some NULL else load_ptr (d_mem st) pCallback) (\<lambda>decode.
       if decode = NULL then on_stream (\<lambda>s. pb_skip_field (d_rd env) s wire_type) st
       else if wire_type = PB_WT_STRING
       then c_then (on_stream (pb_make_string_substream (d_rd env)) st) (\<lambda>substream st.
              let parent = d_stream st in
              c_then (callback_loop (d_fuel env) env pCallback parent (st\<lparr>d_stream := substream\<rparr>) f arg) (\<lambda>_ st.
                close_substream env parent True st))
       else c_then (on_stream (\<lambda>s. read_raw_value (d_rd env) s wire_type 10) st) (\<lambda>buffer st.
              on_state (\<lambda>st'. st'\<lparr>d_stream := d_stream st\<rparr>)
                (call_decode env decode
                  (st\<lparr>d_stream := pb_istream_from_buffer buffer (of_nat (length buffer))\<rparr>) f arg))))"

text \<open>\<open>iter\<close> is the caller's iterator, so it is returned.\<close>

definition decode_field ::
  "nat \<Rightarrow> 'u dec_env \<Rightarrow> 'u msg_decoder \<Rightarrow> 'u dec_state \<Rightarrow> pb_wire_type_t \<Rightarrow> pb_field_iter_t \<Rightarrow>
   (pb_field_iter_t, 'u dec_state) outcome" where
  "decode_field d env noinit st wire_type it =
     access (it_field it) (\<lambda>f.
     c_then (if PB_HTYPE (type f) = PB_HTYPE_ONEOF then pb_release_union_field d env st it else Ok it st) (\<lambda>it st.
     access (it_field it) (\<lambda>f.
     c_then (if PB_ATYPE (type f) = PB_ATYPE_STATIC then decode_static_field d env noinit st wire_type it
             else if PB_ATYPE (type f) = PB_ATYPE_POINTER then decode_pointer_field d env noinit st wire_type it
             else if PB_ATYPE (type f) = PB_ATYPE_CALLBACK then decode_callback_field env st wire_type it
             else dec_error st ''invalid field type'') (\<lambda>_ st. Ok it st))))"

definition default_extension_decoder ::
  "nat \<Rightarrow> 'u dec_env \<Rightarrow> 'u msg_decoder \<Rightarrow> 'u dec_state \<Rightarrow> addr \<Rightarrow> u32 \<Rightarrow> pb_wire_type_t \<Rightarrow>
   (unit, 'u dec_state) outcome" where
  "default_extension_decoder d env noinit st extension tg wire_type =
     access (load_ptr (d_mem st) extension) (\<lambda>etype.
     access (load_ptr (d_mem st) (etype + 16)) (\<lambda>arg.
     access (d_fields env arg) (\<lambda>flds.
       (case flds of
          [] \<Rightarrow> Stuck
        | field # _ \<Rightarrow>
            if tag field \<noteq> tg then Ok () st
            else access (iter_from_extension env (d_mem st) extension) (\<lambda>it.
                 on_mem (\<lambda>m. store_word m (extension + 24) 1 (1 :: u8)) st (\<lambda>st.
                 c_then (decode_field d env noinit st wire_type it) (\<lambda>_ st. Ok () st)))))))"

text \<open>The \<open>while (extension != NULL && pos == stream->bytes_left)\<close> loop.\<close>

primrec decode_extension_loop ::
  "nat \<Rightarrow> nat \<Rightarrow> 'u dec_env \<Rightarrow> 'u msg_decoder \<Rightarrow> 'u dec_state \<Rightarrow> u64 \<Rightarrow> addr \<Rightarrow> u32 \<Rightarrow> pb_wire_type_t \<Rightarrow>
   (unit, 'u dec_state) outcome" where
  "decode_extension_loop 0 d env noinit st pos extension tg wire_type =
     (if extension \<noteq> NULL \<and> pos = bytes_left (d_stream st) then Stuck else Ok () st)"
| "decode_extension_loop (Suc n) d env noinit st pos extension tg wire_type =
     (if extension \<noteq> NULL \<and> pos = bytes_left (d_stream st)
      then access (load_ptr (d_mem st) extension) (\<lambda>etype.
           access (load_ptr (d_mem st) etype) (\<lambda>decode.
           c_then (if decode \<noteq> NULL
                   then on_state (\<lambda>(s, m). st\<lparr>d_stream := s, d_mem := m\<rparr>)
                          (d_ext_decode env decode (d_stream st, d_mem st) extension tg wire_type)
                   else default_extension_decoder d env noinit st extension tg wire_type) (\<lambda>_ st.
           access (load_ptr (d_mem st) (extension + 16)) (\<lambda>nxt.
             decode_extension_loop n d env noinit st pos nxt tg wire_type))))
      else Ok () st)"

definition decode_extension ::
  "nat \<Rightarrow> 'u dec_env \<Rightarrow> 'u msg_decoder \<Rightarrow> 'u dec_state \<Rightarrow> u32 \<Rightarrow> pb_wire_type_t \<Rightarrow> pb_field_iter_t \<Rightarrow>
   (unit, 'u dec_state) outcome" where
  "decode_extension d env noinit st tg wire_type it =
     access (load_ptr (d_mem st) (pData it)) (\<lambda>extension.
       decode_extension_loop (d_fuel env) d env noinit st (bytes_left (d_stream st)) extension tg wire_type)"

partial_function (option) ext_find_loop :: "nat \<Rightarrow> pb_field_iter_t \<Rightarrow> (bool \<times> pb_field_iter_t) option" where
  "ext_find_loop start it =
     (case it_field it of
        None \<Rightarrow> None
      | Some f \<Rightarrow>
          if PB_LTYPE (type f) = PB_LTYPE_EXTENSION then Some (True, it)
          else (case pb_field_iter_next it of
                  None \<Rightarrow> None
                | Some (_, it') \<Rightarrow>
                    if it_pos it' \<noteq> start then ext_find_loop start it' else Some (False, it')))"

declare ext_find_loop.simps [code]

definition find_extension_field :: "pb_field_iter_t \<Rightarrow> (bool \<times> pb_field_iter_t) option" where
  "find_extension_field it = ext_find_loop (it_pos it) it"

section \<open>Messages\<close>

text \<open>The local variables of \<open>pb_decode_noinit\<close>, beside \<open>fixed_count_size\<close>. The
  pointer \<open>fixed_count_field\<close> is an index into the descriptor array.\<close>

record noinit_vars =
  fields_seen :: "u32 list"
  extension_range_start :: u32
  v_iter :: pb_field_iter_t
  fixed_count_field :: "nat option"

text \<open>Lines 975 to 976 and 1000 to 1001: the last fixed count array is complete.\<close>

definition fixed_count_done :: "noinit_vars \<Rightarrow> 'u dec_state \<Rightarrow> bool" where
  "fixed_count_done v st =
     (case fixed_count_field v of
        None \<Rightarrow> True
      | Some i \<Rightarrow> d_count st = array_size (it_start (v_iter v) ! i))"

text \<open>Lines 933 to 962: no field of the message has the tag.\<close>

definition decode_unknown ::
  "nat \<Rightarrow> 'u dec_env \<Rightarrow> 'u msg_decoder \<Rightarrow> noinit_vars \<Rightarrow> 'u dec_state \<Rightarrow> u32 \<Rightarrow> pb_wire_type_t \<Rightarrow>
   (noinit_vars, 'u dec_state) outcome" where
  "decode_unknown d env noinit v st tg wire_type =
     (let skip = (\<lambda>v st. c_then (on_stream (\<lambda>s. pb_skip_field (d_rd env) s wire_type) st) (\<lambda>_ st. Ok v st)) in
      if tg \<ge> extension_range_start v
      then access (find_extension_field (v_iter v)) (\<lambda>(found, it).
           access (if found then map_option tag (it_field it) else Some (- 1)) (\<lambda>start.
             let v = v\<lparr>v_iter := it, extension_range_start := start\<rparr> in
             if tg \<ge> start
             then let pos = bytes_left (d_stream st) in
                  c_then (decode_extension d env noinit st tg wire_type it) (\<lambda>_ st.
                    if pos \<noteq> bytes_left (d_stream st) then Ok v st else skip v st)
             else skip v st))
      else skip v st)"

text \<open>Lines 964 to 996: the iterator stands on the field with the tag.\<close>

definition decode_known ::
  "nat \<Rightarrow> 'u dec_env \<Rightarrow> 'u msg_decoder \<Rightarrow> noinit_vars \<Rightarrow> 'u dec_state \<Rightarrow> pb_wire_type_t \<Rightarrow>
   (noinit_vars, 'u dec_state) outcome" where
  "decode_known d env noinit v st wire_type =
     access (it_field (v_iter v)) (\<lambda>f.
     let it = v_iter v;
         fixed = (PB_HTYPE (type f) = PB_HTYPE_REPEATED \<and> pSize it = pData it);
         change = (fixed \<and> fixed_count_field v \<noteq> Some (it_pos it)) in
     if change \<and> \<not> fixed_count_done v st then dec_error st ''wrong size for fixed count field''
     else
       let st = (if change then st\<lparr>d_count := 0\<rparr> else st);
           v = (if change then v\<lparr>fixed_count_field := Some (it_pos it)\<rparr> else v);
           it = (if fixed then it\<lparr>pSize := FIXED_COUNT\<rparr> else it);
           i = unat (required_field_index it);
           v = (if PB_HTYPE (type f) = PB_HTYPE_REQUIRED \<and> i < PB_MAX_REQUIRED_FIELDS
                then v\<lparr>fields_seen := (fields_seen v)[i div 32 := fields_seen v ! (i div 32) OR push_bit (i mod 32) 1]\<rparr>
                else v)
       in c_then (decode_field d env noinit st wire_type it) (\<lambda>it st. Ok (v\<lparr>v_iter := it\<rparr>) st))"

text \<open>The \<open>while (stream->bytes_left)\<close> loop. Every round reads a tag, so the bytes of the
  stream are enough fuel.\<close>

primrec noinit_loop ::
  "nat \<Rightarrow> nat \<Rightarrow> 'u dec_env \<Rightarrow> 'u msg_decoder \<Rightarrow> noinit_vars \<Rightarrow> 'u dec_state \<Rightarrow> (noinit_vars, 'u dec_state) outcome" where
  "noinit_loop 0 d env noinit v st = (if bytes_left (d_stream st) = 0 then Ok v st else Stuck)"
| "noinit_loop (Suc n) d env noinit v st =
     (if bytes_left (d_stream st) = 0 then Ok v st
      else (case pb_decode_tag (d_rd env) (d_stream st) of
              Stuck \<Rightarrow> Stuck
            | Fail (s, eof) \<Rightarrow> if eof then Ok v (st\<lparr>d_stream := s\<rparr>) else Fail (st\<lparr>d_stream := s\<rparr>)
            | Ok (wire_type, tg) (s, eof) \<Rightarrow>
                let st = st\<lparr>d_stream := s\<rparr> in
                access (pb_field_iter_find (v_iter v) tg) (\<lambda>(found, it).
                  let v = v\<lparr>v_iter := it\<rparr> in
                  c_then (if found then decode_known d env noinit v st wire_type
                          else decode_unknown d env noinit v st tg wire_type)
                    (\<lambda>v st. noinit_loop n d env noinit v st))))"

text \<open>Lines 1015 to 1018: the number of required fields, found by walking to the end.\<close>

function seek_end :: "pb_field_iter_t \<Rightarrow> (u32 \<times> pb_type_t \<times> pb_field_iter_t) option" where
  "seek_end it =
     (case it_field it of
        None \<Rightarrow> None
      | Some f \<Rightarrow>
          (case pb_field_iter_next it of
             None \<Rightarrow> None
           | Some (True, it') \<Rightarrow> seek_end it'
           | Some (False, it') \<Rightarrow> Some (required_field_index it, type f, it')))"
  by pat_completeness auto
termination
  by (relation "measure (\<lambda>it. length (it_start it) - it_pos it)") (auto dest!: iter_next_True)

declare seek_end.simps [simp del]

text \<open>Lines 1020 to 1046: every required field was seen.\<close>

definition req_field_count :: "pb_field_iter_t \<Rightarrow> nat option" where
  "req_field_count it =
     Option.bind (seek_end it) (\<lambda>(req, last_type, it).
     Option.bind (it_field it) (\<lambda>f.
       let req = (if PB_HTYPE last_type = PB_HTYPE_REQUIRED \<and> tag f \<noteq> 0 then req + 1 else req) in
       Some (if unat req > PB_MAX_REQUIRED_FIELDS then PB_MAX_REQUIRED_FIELDS else unat req)))"

definition required_seen :: "u32 list \<Rightarrow> nat \<Rightarrow> bool" where
  "required_seen seen req \<longleftrightarrow>
     list_all (\<lambda>i. seen ! i = - 1) [0..<req div 32] \<and>
     (req mod 32 \<noteq> 0 \<longrightarrow> seen ! (req div 32) = drop_bit (32 - req mod 32) (- 1))"

definition decode_noinit :: "nat \<Rightarrow> 'u dec_env \<Rightarrow> 'u msg_decoder \<Rightarrow> 'u msg_decoder" where
  "decode_noinit d env noinit st flds dest =
     on_state (\<lambda>st'. st'\<lparr>d_count := d_count st\<rparr>)
       (access (pb_field_iter_begin flds dest) (\<lambda>(_, it).
        c_then (noinit_loop (unat (bytes_left (d_stream st))) d env noinit
                  \<lparr>fields_seen = [0, 0], extension_range_start = 0, v_iter = it, fixed_count_field = None\<rparr>
                  (st\<lparr>d_count := 0\<rparr>)) (\<lambda>v st.
          if \<not> fixed_count_done v st then dec_error st ''wrong size for fixed count field''
          else access (req_field_count (v_iter v)) (\<lambda>req.
            if \<not> required_seen (fields_seen v) req then dec_error st ''missing required field''
            else Ok () st))))"

primrec pb_decode_noinit :: "nat \<Rightarrow> 'u dec_env \<Rightarrow> 'u msg_decoder" where
  "pb_decode_noinit 0 env = (\<lambda>st flds dest. Stuck)"
| "pb_decode_noinit (Suc d) env = decode_noinit (Suc d) env (pb_decode_noinit d env)"

definition pb_decode :: "nat \<Rightarrow> 'u dec_env \<Rightarrow> 'u msg_decoder" where
  "pb_decode d env st flds dest = decode_init d env (pb_decode_noinit d env) st flds dest"

definition pb_decode_delimited_noinit :: "nat \<Rightarrow> 'u dec_env \<Rightarrow> 'u msg_decoder" where
  "pb_decode_delimited_noinit d env st flds dest =
     c_then (on_stream (pb_make_string_substream (d_rd env)) st) (\<lambda>substream st.
       closing env (d_stream st) (pb_decode_noinit d env (st\<lparr>d_stream := substream\<rparr>) flds dest))"

definition pb_decode_delimited :: "nat \<Rightarrow> 'u dec_env \<Rightarrow> 'u msg_decoder" where
  "pb_decode_delimited d env st flds dest =
     c_then (on_stream (pb_make_string_substream (d_rd env)) st) (\<lambda>substream st.
       closing env (d_stream st) (pb_decode d env (st\<lparr>d_stream := substream\<rparr>) flds dest))"

definition pb_decode_nullterminated :: "nat \<Rightarrow> 'u dec_env \<Rightarrow> 'u msg_decoder" where
  "pb_decode_nullterminated d env st flds dest = pb_decode d env st flds dest"

end
