(* ===== verification/Pb_Safe_Reader.thy ===== *)
theory Pb_Safe_Reader
  imports Pb_Decode_Wire
begin

unbundle bit_operations_syntax

text \<open>
  What the message decoder needs of the wire level to be safe on every input: the functions of
  \<open>pb_decode.c\<close> that read from a stream never get stuck, whatever the bytes are, and they
  only shrink the stream. The interface is the locale \<open>safe_reader\<close>; memory buffers and
  custom streams that keep their contract are its instances.
\<close>

section \<open>Reading with room to spare\<close>

text \<open>
  \<open>room L s\<close>: the stream \<open>s\<close> is sound, and behind its \<open>bytes_left\<close> there are at
  least \<open>L\<close> further bytes of the enclosing streams. \<open>eats\<close>: a call that returns true
  took at least one byte; \<open>keeps\<close>: a call that never makes the stream longer.
\<close>

definition eats ::
  "(nat \<Rightarrow> 'u pb_istream_t \<Rightarrow> bool) \<Rightarrow> nat \<Rightarrow> 'u pb_istream_t \<Rightarrow> ('a, 'u pb_istream_t) outcome \<Rightarrow> bool" where
  "eats room L s r \<longleftrightarrow>
     wp r (\<lambda>_ s'. room L s' \<and> bytes_left s' < bytes_left s) (\<lambda>s'. room L s' \<and> bytes_left s' \<le> bytes_left s)"

definition keeps ::
  "(nat \<Rightarrow> 'u pb_istream_t \<Rightarrow> bool) \<Rightarrow> nat \<Rightarrow> 'u pb_istream_t \<Rightarrow> ('a, 'u pb_istream_t) outcome \<Rightarrow> bool" where
  "keeps room L s r \<longleftrightarrow>
     wp r (\<lambda>_ s'. room L s' \<and> bytes_left s' \<le> bytes_left s) (\<lambda>s'. room L s' \<and> bytes_left s' \<le> bytes_left s)"

lemma eats_keeps: "eats room L s r \<Longrightarrow> keeps room L s r"
  by (cases r) (auto simp: eats_def keeps_def)

lemma eats_simps [simp]:
  "eats room L s (Ok a s') \<longleftrightarrow> room L s' \<and> bytes_left s' < bytes_left s"
  "eats room L s (Fail s') \<longleftrightarrow> room L s' \<and> bytes_left s' \<le> bytes_left s"
  "\<not> eats room L s Stuck"
  by (simp_all add: eats_def)

lemma keeps_simps [simp]:
  "keeps room L s (Ok a s') \<longleftrightarrow> room L s' \<and> bytes_left s' \<le> bytes_left s"
  "keeps room L s (Fail s') \<longleftrightarrow> room L s' \<and> bytes_left s' \<le> bytes_left s"
  "\<not> keeps room L s Stuck"
  by (simp_all add: keeps_def)

text \<open>The first call takes a byte, the rest keeps what is left.\<close>

lemma eats_then:
  assumes "eats room L s r" "\<And>a s'. r = Ok a s' \<Longrightarrow> room L s' \<Longrightarrow> bytes_left s' < bytes_left s \<Longrightarrow> keeps room L s' (k a s')"
  shows "eats room L s (c_then r k)"
proof (cases r)
  case (Ok a s')
  then have "keeps room L s' (k a s')" "bytes_left s' < bytes_left s" using assms by auto
  then show ?thesis using Ok by (cases "k a s'") auto
qed (use assms in auto)

lemma keeps_then:
  assumes "keeps room L s r" "\<And>a s'. r = Ok a s' \<Longrightarrow> room L s' \<Longrightarrow> bytes_left s' \<le> bytes_left s \<Longrightarrow> keeps room L s' (k a s')"
  shows "keeps room L s (c_then r k)"
proof (cases r)
  case (Ok a s')
  then have "keeps room L s' (k a s')" "bytes_left s' \<le> bytes_left s" using assms by auto
  then show ?thesis using Ok by (cases "k a s'") auto
qed (use assms in auto)

locale safe_reader =
  fixes rd :: "'u read_callback"
    and room :: "nat \<Rightarrow> 'u pb_istream_t \<Rightarrow> bool"
  assumes readbyte_room: "room L s \<Longrightarrow> wp (pb_readbyte rd s) (\<lambda>_. room L) (room L)"
    and read_room: "room L s \<Longrightarrow> wp (pb_read rd s buf n) (\<lambda>_. room L) (room L)"
    and error_room: "room L s \<Longrightarrow> room L (s\<lparr>is_errmsg := e\<rparr>)"
    and sub_room:
      "room L s \<Longrightarrow> n \<le> bytes_left s \<Longrightarrow>
         room (L + unat (bytes_left s - n)) (s\<lparr>bytes_left := n\<rparr>) \<and> room L (s\<lparr>bytes_left := bytes_left s - n\<rparr>)"
    and close_room:
      "room L s \<Longrightarrow> room (L + unat (bytes_left s)) t \<Longrightarrow> room L (s\<lparr>is_state := is_state t\<rparr>)"
begin

lemma set_error_room: "room L s \<Longrightarrow> room L (PB_SET_ERROR s msg)"
  by (simp add: PB_SET_ERROR_def error_room)

lemma return_error_keeps: "room L s \<Longrightarrow> keeps room L s (PB_RETURN_ERROR s msg)"
  by (simp add: PB_RETURN_ERROR_def set_error_room)

lemma readbyte_eats:
  assumes "room L s"
  shows "eats room L s (pb_readbyte rd s)"
proof (cases "pb_readbyte rd s")
  case (Ok b s')
  then show ?thesis using readbyte_room [OF assms] pb_readbyte_decreases [OF Ok]
    by (simp add: word_less_nat_alt)
next
  case (Fail s')
  then show ?thesis using readbyte_room [OF assms] pb_readbyte_Fail [OF Fail] by simp
qed (use readbyte_room [OF assms] in simp)

lemma read_keeps:
  assumes "room L s"
  shows "keeps room L s (pb_read rd s buf n)"
proof (cases "pb_read rd s buf n")
  case (Ok bs s')
  from pb_read_Ok [OF Ok] have "bytes_left s' \<le> bytes_left s"
    by (simp add: word_le_nat_alt unat_sub_if')
  then show ?thesis using read_room [OF assms, of buf n] Ok by simp
next
  case (Fail s')
  then show ?thesis using read_room [OF assms, of buf n] pb_read_Fail [OF Fail] by simp
qed (use read_room [OF assms, of buf n] in simp)

lemma read_eats:
  assumes "room L s" "n \<noteq> 0"
  shows "eats room L s (pb_read rd s buf n)"
proof (cases "pb_read rd s buf n")
  case (Ok bs s')
  have "0 < unat n" using assms(2) by (simp add: unat_gt_0)
  with pb_read_Ok [OF Ok] have "bytes_left s' < bytes_left s"
    by (simp add: word_le_nat_alt word_less_nat_alt unat_sub_if')
  then show ?thesis using read_keeps [OF assms(1), of buf n] Ok by simp
qed (use read_keeps [OF assms(1), of buf n] in auto)

text \<open>Varints. The loops fail on the overflow before or after a byte.\<close>

lemma varint_loop_keeps: "room L s \<Longrightarrow> keeps room L s (varint_loop rd s bitpos result)"
proof (induction "unat (bytes_left s)" arbitrary: s bitpos result rule: less_induct)
  case less
  note R = readbyte_eats [OF less.prems]
  show ?case
  proof (cases "bitpos < 64")
    case False
    then show ?thesis using less.prems by (subst varint_loop.simps) (simp add: return_error_keeps not_less)
  next
    case True
    show ?thesis
    proof (cases "pb_readbyte rd s")
      case (Ok byte s')
      let ?r = "result OR push_bit (unat bitpos) (ucast (byte AND 0x7F))"
      from R Ok have s': "room L s'" "bytes_left s' < bytes_left s" by auto
      then have "keeps room L s' (varint_loop rd s' (bitpos + 7) ?r)"
        by (intro less.hyps) (simp_all add: word_less_nat_alt)
      then show ?thesis using Ok s' True
        by (subst varint_loop.simps) (cases "varint_loop rd s' (bitpos + 7) ?r"; auto simp: Let_def)
    qed (use R True in \<open>subst varint_loop.simps; auto simp: keeps_simps\<close>)+
  qed
qed

lemma decode_varint_eats:
  assumes "room L s"
  shows "eats room L s (pb_decode_varint rd s)"
proof (cases "pb_readbyte rd s")
  case (Ok byte s')
  let ?r = "ucast (byte AND 0x7F) :: u64"
  from readbyte_eats [OF assms] Ok have s': "room L s'" "bytes_left s' < bytes_left s" by auto
  then show ?thesis using Ok varint_loop_keeps [OF s'(1), of 7 ?r]
    by (simp add: pb_decode_varint_def, subst varint_loop.simps)
      (cases "varint_loop rd s' 7 ?r"; auto simp: Let_def)
qed (use readbyte_eats [OF assms] in \<open>simp add: pb_decode_varint_def, subst varint_loop.simps, auto\<close>)+

lemma decode_svarint_eats: "room L s \<Longrightarrow> eats room L s (pb_decode_svarint rd s)"
  unfolding pb_decode_svarint_def
  by (rule eats_then [OF decode_varint_eats]) auto

lemma varint32_loop_eats: "room L s \<Longrightarrow> eats room L s (varint32_loop rd s bitpos result)"
proof (induction "unat (bytes_left s)" arbitrary: s bitpos result rule: less_induct)
  case less
  note R = readbyte_eats [OF less.prems]
  show ?case
  proof (cases "pb_readbyte rd s")
    case (Ok byte s')
    from R Ok have s': "room L s'" "bytes_left s' < bytes_left s" by auto
    then have IH: "eats room L s' (varint32_loop rd s' b r)" for b r
      by (intro less.hyps) (simp_all add: word_less_nat_alt)
    have "eats room L s (varint32_loop rd s' b r)" for b r
      using IH [of b r] s' by (cases "varint32_loop rd s' b r") auto
    then show ?thesis using Ok s'
      by (subst varint32_loop.simps) (auto simp: Let_def PB_RETURN_ERROR_def set_error_room)
  qed (use R in \<open>subst varint32_loop.simps; auto simp: eats_simps\<close>)+
qed

text \<open>\<open>pb_decode_varint32_eof\<close> and \<open>pb_decode_tag\<close> have the stream and the flag as
  their state.\<close>

lemma varint32_eof_eats:
  assumes "room L s"
  shows "eats room L s (on_state fst (pb_decode_varint32_eof rd s eof))"
proof (cases "pb_readbyte rd s")
  case (Ok byte s')
  from readbyte_eats [OF assms] Ok have s': "room L s'" "bytes_left s' < bytes_left s" by auto
  let ?l = "varint32_loop rd s' 7 (ucast (byte AND 0x7F))"
  show ?thesis using Ok s' varint32_loop_eats [OF s'(1), of 7 "ucast (byte AND 0x7F)"]
    by (cases ?l) (auto simp: pb_decode_varint32_eof_def PB_RETURN_ERROR_def set_error_room)
qed (use readbyte_eats [OF assms] in \<open>auto simp: pb_decode_varint32_eof_def\<close>)

lemma decode_varint32_eats: "room L s \<Longrightarrow> eats room L s (pb_decode_varint32 rd s)"
  unfolding pb_decode_varint32_def by (rule varint32_eof_eats)

lemma decode_tag_eats: "room L s \<Longrightarrow> eats room L s (on_state fst (pb_decode_tag rd s))"
  using varint32_eof_eats [of L s False]
  by (cases "pb_decode_varint32_eof rd s False") (auto simp: pb_decode_tag_def split: prod.splits)

lemma decode_fixed_eats:
  "room L s \<Longrightarrow> eats room L s (pb_decode_fixed32 rd s)"
  "room L s \<Longrightarrow> eats room L s (pb_decode_fixed64 rd s)"
  unfolding pb_decode_fixed32_def pb_decode_fixed64_def
  by (rule eats_then [OF read_eats]; simp)+

lemma skip_varint_keeps: "room L s \<Longrightarrow> keeps room L s (pb_skip_varint rd s)"
proof (induction "unat (bytes_left s)" arbitrary: s rule: less_induct)
  case less
  note R = read_eats [OF less.prems, of 1 True]
  show ?case
  proof (cases "pb_read rd s True 1")
    case (Ok bs s')
    from pb_read_Ok [OF Ok] obtain byte where bs: "bs = [byte]" by (cases bs) auto
    from R Ok have s': "room L s'" "bytes_left s' < bytes_left s" by auto
    then have "keeps room L s' (pb_skip_varint rd s')"
      by (intro less.hyps) (simp_all add: word_less_nat_alt)
    then show ?thesis using Ok s' bs
      by (subst pb_skip_varint.simps) (cases "pb_skip_varint rd s'"; auto)
  qed (use R in \<open>subst pb_skip_varint.simps; auto\<close>)+
qed

lemma skip_string_keeps: "room L s \<Longrightarrow> keeps room L s (pb_skip_string rd s)"
  unfolding pb_skip_string_def
  by (rule keeps_then [OF eats_keeps [OF decode_varint32_eats]], assumption)
    (rule keeps_then [OF read_keeps], auto)

lemma skip_field_keeps:
  assumes "room L s"
  shows "keeps room L s (pb_skip_field rd s wire_type)"
proof -
  have "keeps room L s (c_then (pb_read rd s False n) (\<lambda>_ s. Ok () s))" for n
    by (rule keeps_then [OF read_keeps [OF assms]]) simp
  then show ?thesis
    using assms by (simp add: pb_skip_field_def skip_varint_keeps skip_string_keeps return_error_keeps)
qed

lemma raw_varint_keeps: "room L s \<Longrightarrow> keeps room L s (raw_varint_loop rd s sz mx)"
proof (induction "unat (bytes_left s)" arbitrary: s sz rule: less_induct)
  case less
  note R = read_eats [OF less.prems, of 1 True]
  show ?case
  proof (cases "pb_read rd s True 1")
    case (Ok bs s')
    from pb_read_Ok [OF Ok] obtain byte where bs: "bs = [byte]" by (cases bs) auto
    from R Ok have s': "room L s'" "bytes_left s' < bytes_left s" by auto
    then have "keeps room L s' (raw_varint_loop rd s' (sz + 1) mx)"
      by (intro less.hyps) (simp_all add: word_less_nat_alt)
    then show ?thesis using Ok s' bs less.prems
      by (subst raw_varint_loop.simps) (cases "raw_varint_loop rd s' (sz + 1) mx"; auto simp: Let_def)
  qed (use R less.prems in \<open>subst raw_varint_loop.simps; auto simp: Let_def\<close>)+
qed

lemma read_raw_value_keeps: "room L s \<Longrightarrow> keeps room L s (read_raw_value rd s wire_type 10)"
  by (simp add: read_raw_value_def raw_varint_keeps read_keeps return_error_keeps)

text \<open>Substreams: the parent keeps its room while the substream is open, and gets the position of
  the substream back when it is closed.\<close>

lemma make_substream_room:
  assumes "room L s"
  shows "wp (pb_make_string_substream rd s)
    (\<lambda>sub s'. room L s' \<and> room (L + unat (bytes_left s')) sub \<and>
       unat (bytes_left sub) + unat (bytes_left s') < unat (bytes_left s))
    (\<lambda>s'. room L s' \<and> bytes_left s' \<le> bytes_left s)"
proof (cases "pb_decode_varint32 rd s")
  case (Ok n s1)
  from decode_varint32_eats [OF assms] Ok have s1: "room L s1" "bytes_left s1 < bytes_left s" by auto
  have "ucast n \<le> bytes_left s1 \<Longrightarrow>
      unat n + unat (bytes_left s1 - ucast n) = unat (bytes_left s1)"
    by (simp add: unat_minus_le word_le_nat_alt)
  with s1 sub_room [OF s1(1), of "ucast n"] Ok show ?thesis
    by (auto simp: pb_make_string_substream_def PB_RETURN_ERROR_def set_error_room Let_def not_less
        word_less_nat_alt word_le_nat_alt)
qed (use decode_varint32_eats [OF assms] in \<open>auto simp: pb_make_string_substream_def\<close>)

lemma close_substream_room:
  assumes "room L s" "room (L + unat (bytes_left s)) sub"
  shows "keeps room L s (pb_close_string_substream rd s sub)"
proof -
  let ?r = "if bytes_left sub \<noteq> 0 then pb_read rd sub False (bytes_left sub) else Ok [] sub"
  have "keeps room (L + unat (bytes_left s)) sub ?r" using read_keeps [OF assms(2)] assms(2) by simp
  then show ?thesis using assms(1)
    by (cases ?r) (auto simp: pb_close_string_substream_def close_room
        intro: error_room [OF close_room, simplified])
qed

end

section \<open>The streams that are safe\<close>

text \<open>A memory stream whose buffer holds the bytes it promises.\<close>

definition buf_room :: "nat \<Rightarrow> 'u pb_istream_t \<Rightarrow> bool" where
  "buf_room L s \<longleftrightarrow> is_callback s = Buf_read \<and>
     (case is_state s of Buf_state d \<Rightarrow> unat (bytes_left s) + L \<le> length d | User_state u \<Rightarrow> False)"

lemma buf_room_buf [simp]: "k < 2 ^ 64 \<Longrightarrow> buf_room L (buf_istream d k e) \<longleftrightarrow> k + L \<le> length d"
  by (simp add: buf_room_def)

lemma buf_room_iff:
  "buf_room L s \<longleftrightarrow> (\<exists>d k. s = buf_istream d k (is_errmsg s) \<and> k + L \<le> length d \<and> k < 2 ^ 64)"
proof
  assume "buf_room L s"
  then obtain d where "is_callback s = Buf_read" "is_state s = Buf_state d"
    "unat (bytes_left s) + L \<le> length d"
    by (auto simp: buf_room_def split: istream_state.splits)
  moreover from this have "s = buf_istream d (unat (bytes_left s)) (is_errmsg s)"
    by (simp add: buf_istream_def)
  moreover have "unat (bytes_left s) < 2 ^ 64" by (rule unat_u64_less)
  ultimately show "\<exists>d k. s = buf_istream d k (is_errmsg s) \<and> k + L \<le> length d \<and> k < 2 ^ 64" by blast
next
  assume "\<exists>d k. s = buf_istream d k (is_errmsg s) \<and> k + L \<le> length d \<and> k < 2 ^ 64"
  then obtain d k where s: "s = buf_istream d k (is_errmsg s)" and k: "k + L \<le> length d" "k < 2 ^ 64"
    by blast
  from k show "buf_room L s" by (subst s) (simp add: buf_room_def)
qed

interpretation buf_safe: safe_reader rd buf_room
proof (unfold_locales, goal_cases)
  case (1 L s)
  then obtain d k where s: "s = buf_istream d k (is_errmsg s)" and k: "k + L \<le> length d" "k < 2 ^ 64"
    by (auto simp: buf_room_iff)
  show ?case by (subst s, cases d) (use k in \<open>auto simp: pb_readbyte_buf\<close>)
next
  case (2 L s buf n)
  then obtain d k where s: "s = buf_istream d k (is_errmsg s)" and k: "k + L \<le> length d" "k < 2 ^ 64"
    by (auto simp: buf_room_iff)
  show ?case by (subst s) (use k in \<open>auto simp: pb_read_buf_word\<close>)
next
  case (4 L s n)
  then show ?case
    by (auto simp: buf_room_def unat_minus_le word_le_nat_alt split: istream_state.splits)
next
  case (5 L s t)
  then show ?case by (auto simp: buf_room_def split: istream_state.splits)
qed (auto simp: buf_room_def split: istream_state.splits)

text \<open>A custom stream whose callback keeps its contract: when it returns true it has stored as many
  bytes as it was asked for.\<close>

definition reads_exactly :: "'u read_callback \<Rightarrow> bool" where
  "reads_exactly rd \<longleftrightarrow> (\<forall>u n bs u'. rd u n = Read_ok bs u' \<longrightarrow> length bs = unat n)"

definition user_room :: "nat \<Rightarrow> 'u pb_istream_t \<Rightarrow> bool" where
  "user_room L s \<longleftrightarrow> is_callback s = User_read \<and> (\<exists>u. is_state s = User_state u)"

lemma call_read_user:
  "reads_exactly rd \<Longrightarrow> user_room L s \<Longrightarrow>
     wp (call_read rd s buf n) (\<lambda>bs s'. user_room L s' \<and> length bs = unat n) (user_room L)"
  by (auto simp: call_read_def user_room_def reads_exactly_def split: read_result.splits) metis

lemma pb_read_raw_user:
  assumes "reads_exactly rd" "user_room L s"
  shows "wp (pb_read_raw rd s buf n) (\<lambda>_. user_room L) (user_room L)"
  using call_read_user [OF assms, of buf n] assms(2)
  by (cases "call_read rd s buf n") (auto simp: pb_read_raw_def PB_RETURN_ERROR_def user_room_def)

lemma pb_skip_bytes_user:
  assumes "reads_exactly rd"
  shows "user_room L s \<Longrightarrow> wp (pb_skip_bytes rd s n) (\<lambda>_. user_room L) (user_room L)"
proof (induction "unat n" arbitrary: s n rule: less_induct)
  case less
  have "16 < n \<Longrightarrow> unat (n - 16) < unat n" by (simp add: word_less_nat_alt unat_sub_if')
  then show ?case
    using pb_read_raw_user [OF assms less.prems, of True 16] less.hyps
      pb_read_raw_user [OF assms less.prems, of True n]
    by (subst pb_skip_bytes.simps) (auto simp: wp_c_then elim!: wp_mono)
qed

lemma safe_user: "reads_exactly rd \<Longrightarrow> safe_reader rd user_room"
proof (unfold_locales, goal_cases)
  case (1 L s)
  then show ?case using call_read_user [OF 1, of True 1]
    by (cases "call_read rd s True 1")
      (auto simp: pb_readbyte_def PB_RETURN_ERROR_def user_room_def split: list.splits)
next
  case (2 L s buf n)
  then show ?case by (simp add: pb_read_def pb_skip_bytes_user pb_read_raw_user)
qed (auto simp: user_room_def)

end
