(* ===== verification/Pb_Decode_Safe.thy ===== *)
theory Pb_Decode_Safe
  imports Pb_Decode Pb_Safe_Reader
begin

unbundle bit_operations_syntax

text \<open>
  Memory safety and termination of \<open>pb_decode\<close> on every input. For a message type whose
  fields are all statically allocated, decoding any byte sequence whatsoever returns, and touches
  nothing outside the message struct; errors are returned as errors.
\<close>

section \<open>What a call may change in memory\<close>

text \<open>\<open>frame lo n m m'\<close>: the same addresses are alive, and only the \<open>n\<close> bytes from
  \<open>lo\<close> on may differ.\<close>

definition frame :: "addr \<Rightarrow> int \<Rightarrow> c_mem \<Rightarrow> c_mem \<Rightarrow> bool" where
  "frame lo n m m' \<longleftrightarrow> blocks m' = blocks m \<and>
     (\<forall>x. cells m' x = None \<longleftrightarrow> cells m x = None) \<and>
     (\<forall>x. x < lo \<or> lo + n \<le> x \<longrightarrow> cells m' x = cells m x)"

lemma frame_refl [simp]: "frame lo n m m"
  by (simp add: frame_def)

lemma frame_trans: "frame lo n m1 m2 \<Longrightarrow> frame lo n m2 m3 \<Longrightarrow> frame lo n m1 m3"
  by (simp add: frame_def)

lemma frame_mono: "frame lo n m m' \<Longrightarrow> lo' \<le> lo \<Longrightarrow> lo + n \<le> lo' + n' \<Longrightarrow> frame lo' n' m m'"
  by (auto simp: frame_def)

lemma frame_mapped: "frame lo n m m' \<Longrightarrow> mapped m' a k \<longleftrightarrow> mapped m a k"
  by (simp add: frame_def mapped_def)

lemma mapped_sub: "mapped m a n \<Longrightarrow> a \<le> b \<Longrightarrow> b + int k \<le> a + int n \<Longrightarrow> mapped m b k"
proof -
  assume m: "mapped m a n" and le: "a \<le> b" "b + int k \<le> a + int n"
  have "cells m (b + int i) \<noteq> None" if "i < k" for i
  proof -
    have "nat (b - a) + i < n" "b + int i = a + int (nat (b - a) + i)" using le that by auto
    then show ?thesis using m unfolding mapped_def by metis
  qed
  then show ?thesis by (simp add: mapped_def)
qed

lemma store_frame:
  assumes "mapped m a (length bs)"
  obtains m' where "store_bytes m a bs = Some m'" "frame a (int (length bs)) m m'"
proof -
  from assms obtain m' where m': "store_bytes m a bs = Some m'" using store_bytes_defined by blast
  have "frame a (int (length bs)) m m'"
    using store_bytes_cells [OF m'] store_bytes_domain [OF m'] by (simp add: frame_def)
  with m' show ?thesis using that by blast
qed

text \<open>The memory functions are total on live addresses.\<close>

definition mem_safe :: "addr \<Rightarrow> int \<Rightarrow> c_mem \<Rightarrow> c_mem option \<Rightarrow> bool" where
  "mem_safe lo n m r \<longleftrightarrow> (\<exists>m'. r = Some m' \<and> frame lo n m m')"

lemma mem_safe_Some [simp]: "mem_safe lo n m (Some m') \<longleftrightarrow> frame lo n m m'"
  by (simp add: mem_safe_def)

lemma mem_safe_bind:
  assumes "mem_safe lo n m r" "\<And>m'. frame lo n m m' \<Longrightarrow> mem_safe lo n m' (k m')"
  shows "mem_safe lo n m (Option.bind r k)"
proof -
  from assms(1) obtain m' where m': "r = Some m'" "frame lo n m m'" by (auto simp: mem_safe_def)
  with assms(2) [OF m'(2)] show ?thesis by (auto simp: mem_safe_def intro: frame_trans)
qed

lemma mem_safe_mono: "mem_safe lo n m r \<Longrightarrow> lo' \<le> lo \<Longrightarrow> lo + n \<le> lo' + n' \<Longrightarrow> mem_safe lo' n' m r"
  by (auto simp: mem_safe_def intro: frame_mono)

lemma store_safe:
  "mapped m a (length bs) \<Longrightarrow> lo \<le> a \<Longrightarrow> a + int (length bs) \<le> lo + n \<Longrightarrow>
     mem_safe lo n m (store_bytes m a bs)"
  by (metis store_frame mem_safe_Some frame_mono)

lemma store_word_safe:
  "mapped m a k \<Longrightarrow> lo \<le> a \<Longrightarrow> a + int k \<le> lo + n \<Longrightarrow> mem_safe lo n m (store_word m a k w)"
  by (simp add: store_word_def store_safe)

lemma mem_zero_safe:
  "mapped m a k \<Longrightarrow> lo \<le> a \<Longrightarrow> a + int k \<le> lo + n \<Longrightarrow> mem_safe lo n m (mem_zero m a k)"
  by (simp add: mem_zero_def store_safe)

lemma mem_copy_safe:
  "mapped m a k \<Longrightarrow> mapped m src k \<Longrightarrow> lo \<le> a \<Longrightarrow> a + int k \<le> lo + n \<Longrightarrow>
     mem_safe lo n m (mem_copy m a src k)"
  using load_bytes_defined [of m src k] load_bytes_length [of m src k]
  by (auto simp: mem_copy_def store_safe)

lemma load_mapped:
  "mapped m a 4 \<Longrightarrow> \<exists>v. load32 m a = Some v"
  "mapped m a 8 \<Longrightarrow> \<exists>p. load_ptr m a = Some p"
  using load_bytes_defined [of m a 4] load_bytes_defined [of m a 8]
  by (auto simp: load32_def load_ptr_def load_nat_def)

text \<open>\<open>live lo n m\<close>: the struct of \<open>n\<close> bytes at \<open>lo\<close> exists.\<close>

definition live :: "addr \<Rightarrow> int \<Rightarrow> c_mem \<Rightarrow> bool" where
  "live lo n m \<longleftrightarrow> 0 < lo \<and> 0 \<le> n \<and> mapped m lo (nat n)"

lemma live_frame: "frame a k m m' \<Longrightarrow> live lo n m' \<longleftrightarrow> live lo n m"
  by (simp add: live_def frame_mapped)

lemma live_sub: "live lo n m \<Longrightarrow> lo \<le> a \<Longrightarrow> 0 \<le> k \<Longrightarrow> a + k \<le> lo + n \<Longrightarrow> live a k m"
  by (auto simp: live_def intro: mapped_sub)

lemma live_mapped: "live lo n m \<Longrightarrow> lo \<le> a \<Longrightarrow> a + int k \<le> lo + n \<Longrightarrow> mapped m a k"
  by (auto simp: live_def intro: mapped_sub)

lemma live_stores:
  assumes "live lo n m" "lo \<le> a"
  shows "a + int (length bs) \<le> lo + n \<Longrightarrow> mem_safe lo n m (store_bytes m a bs)"
    "a + int k \<le> lo + n \<Longrightarrow> mem_safe lo n m (store_word m a k w)"
    "a + int k \<le> lo + n \<Longrightarrow> mem_safe lo n m (mem_zero m a k)"
    "a + int k \<le> lo + n \<Longrightarrow> mapped m src k \<Longrightarrow> mem_safe lo n m (mem_copy m a src k)"
  using live_mapped [OF assms] assms(2)
  by (simp_all add: store_safe store_word_safe mem_zero_safe mem_copy_safe)

lemma live_load32: "live lo n m \<Longrightarrow> lo \<le> a \<Longrightarrow> a + 4 \<le> lo + n \<Longrightarrow> \<exists>v. load32 m a = Some v"
  using live_mapped [of lo n m a 4] load_mapped(1) by simp

section \<open>Static message types\<close>

text \<open>
  \<open>static_field\<close>: a well-formed statically allocated field, whose data is at offset
  \<open>pd\<close> and whose size member is at offset \<open>ps\<close> of a struct of \<open>sz\<close> bytes;
  \<open>sub\<close> says which submessage types are well formed. \<open>static_msg\<close>: a message type of
  such fields, nested at most \<open>d\<close> deep.
\<close>

definition extent :: "pb_field_t \<Rightarrow> int" where
  "extent f = uint (data_size f) * (if PB_HTYPE (type f) = PB_HTYPE_REPEATED then uint (array_size f) else 1)"

definition static_field ::
  "'u dec_env \<Rightarrow> c_mem \<Rightarrow> (pb_field_t list \<Rightarrow> int \<Rightarrow> bool) \<Rightarrow> pb_field_t \<Rightarrow> int \<Rightarrow> int \<Rightarrow> int \<Rightarrow> bool" where
  "static_field env m sub f pd ps sz \<longleftrightarrow>
     PB_ATYPE (type f) = PB_ATYPE_STATIC \<and> PB_LTYPE (type f) < PB_LTYPES_COUNT \<and>
     PB_LTYPE (type f) \<noteq> PB_LTYPE_EXTENSION \<and>
     0 \<le> pd \<and> pd + extent f \<le> sz \<and> extent f < 2 ^ 32 \<and>
     (PB_HTYPE (type f) = PB_HTYPE_OPTIONAL \<and> ps \<noteq> pd \<longrightarrow> 0 \<le> ps \<and> ps + 1 \<le> sz) \<and>
     (PB_HTYPE (type f) = PB_HTYPE_REPEATED \<or> PB_HTYPE (type f) = PB_HTYPE_ONEOF \<longrightarrow> 0 \<le> ps \<and> ps + 4 \<le> sz) \<and>
     (PB_LTYPE (type f) = PB_LTYPE_FIXED32 \<longrightarrow> 4 \<le> uint (data_size f)) \<and>
     (PB_LTYPE (type f) = PB_LTYPE_FIXED64 \<longrightarrow> 8 \<le> uint (data_size f)) \<and>
     (PB_LTYPE (type f) = PB_LTYPE_SUBMESSAGE \<longrightarrow> ptr f \<noteq> NULL \<and>
        (case d_fields env (ptr f) of None \<Rightarrow> False | Some flds \<Rightarrow> sub flds (uint (data_size f)))) \<and>
     (PB_LTYPE (type f) \<noteq> PB_LTYPE_SUBMESSAGE \<and> ptr f \<noteq> NULL \<longrightarrow> mapped m (ptr f) (unat (data_size f)))"

text \<open>The positions where an iterator can stand; an empty message type has its terminator.\<close>

definition iter_stops :: "pb_field_t list \<Rightarrow> nat" where
  "iter_stops fs = max 1 (length (msg_fields fs))"

primrec static_msg :: "nat \<Rightarrow> 'u dec_env \<Rightarrow> c_mem \<Rightarrow> pb_field_t list \<Rightarrow> int \<Rightarrow> bool" where
  "static_msg 0 env m fs sz \<longleftrightarrow> False"
| "static_msg (Suc d) env m fs sz \<longleftrightarrow> pb_fields fs \<and> last fs = PB_LAST_FIELD \<and> 0 \<le> sz \<and>
     (\<forall>i < iter_stops fs. static_field env m (static_msg d env m) (fs ! i)
        (pData (iter_at fs 0 i)) (pSize (iter_at fs 0 i)) sz)"

lemma static_field_frame:
  "frame a k m m' \<Longrightarrow> static_field env m' sub f pd ps sz \<longleftrightarrow> static_field env m sub f pd ps sz"
  by (simp add: static_field_def frame_mapped)

lemma static_msg_frame: "frame a k m m' \<Longrightarrow> static_msg d env m' = static_msg d env m"
proof (induction d)
  case (Suc d)
  then show ?case by (intro ext) (simp add: static_field_frame)
qed (simp add: fun_eq_iff)

lemma iter_at_shift:
  "pData (iter_at fs dest i) = dest + pData (iter_at fs 0 i)"
  "pSize (iter_at fs dest i) = dest + pSize (iter_at fs 0 i)"
  "required_field_index (iter_at fs dest i) = required_field_index (iter_at fs 0 i)"
proof (induction i)
  case (Suc i)
  { case 1 show ?case using Suc by (simp add: Let_def) }
  { case 2 show ?case using Suc by (simp add: Let_def) }
  { case 3 show ?case using Suc by (simp add: Let_def) }
qed (simp_all add: Let_def)

lemma iter_stops_field: "pb_fields fs \<Longrightarrow> i < iter_stops fs \<Longrightarrow> i < length fs"
  using pb_fields_length [of fs] by (auto simp: iter_stops_def)

lemma it_field_stop: "pb_fields fs \<Longrightarrow> i < iter_stops fs \<Longrightarrow> it_field (iter_at fs dest i) = Some (fs ! i)"
  by (simp add: it_field_at iter_stops_field)

section \<open>Walks over a static message\<close>

lemma field_walk_safe:
  assumes "pb_fields fs" "msg_fields fs \<noteq> []"
    "\<And>i m'. i < length (msg_fields fs) \<Longrightarrow> frame lo n m m' \<Longrightarrow> mem_safe lo n m' (f (iter_at fs dest i) m')"
  shows "mem_safe lo n m (field_walk f (iter_at fs dest 0) m)"
proof -
  let ?n = "length (msg_fields fs)"
  have "mem_safe lo n m' (field_walk f (iter_at fs dest i) m')" if "i < ?n" "frame lo n m m'" for i m'
    using that
  proof (induction "?n - i" arbitrary: i m')
    case (Suc k)
    from assms(3) [OF Suc.prems] obtain m'' where m'': "f (iter_at fs dest i) m' = Some m''" "frame lo n m' m''"
      by (auto simp: mem_safe_def)
    have next_at: "pb_field_iter_next (iter_at fs dest i) =
        (if Suc i < ?n then Some (True, iter_at fs dest (Suc i)) else Some (False, iter_at fs dest 0))"
      by (rule iter_next_at [OF assms(1) Suc.prems(1)])
    have "Suc i < ?n \<Longrightarrow> mem_safe lo n m'' (field_walk f (iter_at fs dest (Suc i)) m'')"
      using Suc.hyps(1) [of "Suc i" m''] Suc.hyps(2) Suc.prems(2) frame_trans m''(2) by simp
    then show ?case using m'' next_at
      by (subst field_walk.simps) (auto simp: mem_safe_def simp del: iter_at.simps intro: frame_trans)
  qed simp
  from this [of 0 m] assms(2) show ?thesis by simp
qed

lemma message_walk_safe:
  assumes "pb_fields fs"
    "\<And>i m'. i < length (msg_fields fs) \<Longrightarrow> frame lo n m m' \<Longrightarrow> mem_safe lo n m' (f (iter_at fs dest i) m')"
  shows "mem_safe lo n m (message_walk f fs dest m)"
proof (cases "msg_fields fs = []")
  case False
  then show ?thesis using field_walk_safe [where f = f, OF assms(1) False assms(2)] iter_begin_at [OF assms(1), of dest]
    by (simp add: message_walk_def del: iter_at.simps)
qed (simp add: message_walk_def iter_begin_at [OF assms(1)] del: iter_at.simps)

text \<open>\<open>at_field\<close>: the iterator stands on field \<open>i\<close> of a struct of \<open>sz\<close> bytes at
  \<open>dest\<close>, with its own size pointer or the one to the local counter.\<close>

definition at_field :: "pb_field_t list \<Rightarrow> addr \<Rightarrow> pb_field_iter_t \<Rightarrow> nat \<Rightarrow> bool" where
  "at_field fs dest it i \<longleftrightarrow> i < iter_stops fs \<and> it = (iter_at fs dest i)\<lparr>pSize := pSize it\<rparr> \<and>
     (pSize it = pSize (iter_at fs dest i) \<or>
      PB_HTYPE (type (fs ! i)) = PB_HTYPE_REPEATED \<and> pSize it = FIXED_COUNT)"

lemma at_field_iter_at: "i < iter_stops fs \<Longrightarrow> at_field fs dest (iter_at fs dest i) i"
  by (simp add: at_field_def)

lemma at_field_it_field: "pb_fields fs \<Longrightarrow> at_field fs dest it i \<Longrightarrow> it_field it = Some (fs ! i)"
  using it_field_stop [of fs i dest] unfolding at_field_def it_field_def
  by (metis iter_at_sel(1,2) pb_field_iter_t.select_convs(1,2) pb_field_iter_t.surjective
      pb_field_iter_t.update_convs(6))

lemma at_field_pData: "at_field fs dest it i \<Longrightarrow> pData it = dest + pData (iter_at fs 0 i)"
  unfolding at_field_def
  by (metis iter_at_shift(1) pb_field_iter_t.select_convs(5) pb_field_iter_t.surjective
      pb_field_iter_t.update_convs(6))

lemma at_field_pos: "at_field fs dest it i \<Longrightarrow> it_pos it = i \<and> it_start it = fs \<and> dest_struct it = dest"
  unfolding at_field_def
  by (metis iter_at_sel pb_field_iter_t.select_convs(1,2,4) pb_field_iter_t.surjective
      pb_field_iter_t.update_convs(6))

text \<open>The facts that the safety of one field rests on.\<close>

lemma static_msg_at:
  assumes "static_msg (Suc d) env m fs sz" "at_field fs dest it i"
  shows "it_field it = Some (fs ! i)"
    "static_field env m (static_msg d env m) (fs ! i) (pData it - dest) (pSize (iter_at fs dest i) - dest) sz"
proof -
  have i: "i < iter_stops fs" using assms(2) by (simp add: at_field_def)
  have fs: "pb_fields fs" using assms(1) by simp
  show "it_field it = Some (fs ! i)" by (rule at_field_it_field [OF fs assms(2)])
  show "static_field env m (static_msg d env m) (fs ! i) (pData it - dest) (pSize (iter_at fs dest i) - dest) sz"
    using assms(1) i by (simp add: at_field_pData [OF assms(2)] iter_at_shift(2) [of fs dest])
qed

section \<open>Defaults and release\<close>

lemma extent_data: "static_field env m sub f pd ps sz \<Longrightarrow> PB_HTYPE (type f) \<noteq> PB_HTYPE_REPEATED \<Longrightarrow>
    0 \<le> pd \<and> pd + uint (data_size f) \<le> sz"
  by (simp add: static_field_def extent_def)

lemma set_static_default_safe:
  assumes sf: "static_field env m sub f pd ps sz" and lv: "live dest sz m"
    and it: "pData it = dest + pd" "pSize it = dest + ps"
    and sub: "\<And>flds m'. frame dest sz m m' \<Longrightarrow> sub flds (uint (data_size f)) \<Longrightarrow> live (dest + pd) (uint (data_size f)) m' \<Longrightarrow>
       mem_safe (dest + pd) (uint (data_size f)) m' (message_walk setf flds (dest + pd) m')"
  shows "mem_safe dest sz m (set_static_default env setf it f m)"
proof (cases "PB_HTYPE (type f) = PB_HTYPE_REPEATED \<or> PB_HTYPE (type f) = PB_HTYPE_ONEOF")
  case True
  then have "mem_safe dest sz m (store_word m (pSize it) 4 (0 :: u32))"
    using sf lv it by (intro live_stores) (auto simp: static_field_def)
  then show ?thesis using True by (auto simp: set_static_default_def Let_def pb_type_defs)
next
  case False
  let ?init = "\<lambda>m. if PB_LTYPE (type f) = PB_LTYPE_SUBMESSAGE
            then Option.bind (d_fields env (ptr f)) (\<lambda>flds. message_walk setf flds (pData it) m)
            else if ptr f \<noteq> NULL then mem_copy m (pData it) (ptr f) (unat (data_size f))
            else mem_zero m (pData it) (unat (data_size f))"
  note ex = extent_data [OF sf]
  have init: "mem_safe dest sz m' (?init m')" if m': "frame dest sz m m'" for m'
  proof -
    have lv': "live dest sz m'" using lv live_frame [OF m'] by simp
    have sub': "mem_safe dest sz m' (Option.bind (d_fields env (ptr f)) (\<lambda>flds. message_walk setf flds (pData it) m'))"
      if "PB_LTYPE (type f) = PB_LTYPE_SUBMESSAGE"
    proof -
      from sf that obtain flds where flds: "d_fields env (ptr f) = Some flds" "sub flds (uint (data_size f))"
        by (auto simp: static_field_def split: option.splits)
      have "live (dest + pd) (uint (data_size f)) m'"
        using live_sub [OF lv', of "dest + pd" "uint (data_size f)"] ex False by simp
      from mem_safe_mono [OF sub [OF m' flds(2) this], of dest sz] show ?thesis
        using ex False by (simp add: flds(1) it(1))
    qed
    have "ptr f \<noteq> NULL \<Longrightarrow> PB_LTYPE (type f) \<noteq> PB_LTYPE_SUBMESSAGE \<Longrightarrow> mapped m' (ptr f) (unat (data_size f))"
      using sf frame_mapped [OF m'] by (simp add: static_field_def)
    then show ?thesis using sub' live_stores [OF lv', of "pData it"] it ex False by simp
  qed
  have "mem_safe dest sz m (store_word m (pSize it) 1 (0 :: u8))"
    if "PB_HTYPE (type f) = PB_HTYPE_OPTIONAL" "pSize it \<noteq> pData it"
    using sf lv it that by (intro live_stores) (auto simp: static_field_def)
  then have "mem_safe dest sz m (Option.bind (store_word m (pSize it) 1 (0 :: u8)) ?init)"
    if "PB_HTYPE (type f) = PB_HTYPE_OPTIONAL" "pSize it \<noteq> pData it"
    using that init by (intro mem_safe_bind) simp_all
  then show ?thesis using False init [OF frame_refl]
    by (simp add: set_static_default_def Let_def)
qed

lemma pb_message_set_to_defaults_safe:
  "static_msg d env m fs sz \<Longrightarrow> d \<le> D \<Longrightarrow> live dest sz m \<Longrightarrow>
     mem_safe dest sz m (pb_message_set_to_defaults D env fs dest m)"
  unfolding pb_message_set_to_defaults_def
proof (induction d arbitrary: D m fs sz dest)
  case (Suc d)
  from Suc.prems(2) obtain D' where D: "D = Suc D'" "d \<le> D'" by (cases D) auto
  have fs: "pb_fields fs" using Suc.prems(1) by simp
  show ?case
  proof (rule message_walk_safe [OF fs])
    fix i m' assume i: "i < length (msg_fields fs)" and m': "frame dest sz m m'"
    let ?it = "iter_at fs dest i"
    have stop: "i < iter_stops fs" using i by (simp add: iter_stops_def)
    have "static_msg (Suc d) env m' fs sz" using Suc.prems(1) static_msg_frame [OF m'] by metis
    then have sf: "static_field env m' (static_msg d env m') (fs ! i) (pData (iter_at fs 0 i)) (pSize (iter_at fs 0 i)) sz"
      using stop by simp
    have lv: "live dest sz m'" using Suc.prems(3) live_frame [OF m'] by simp
    have "mem_safe dest sz m' (set_static_default env (pb_field_set_to_default D' env) ?it (fs ! i) m')"
    proof (rule set_static_default_safe [OF sf lv iter_at_shift(1,2)])
      fix flds m'' assume "frame dest sz m' m''" "static_msg d env m' flds (uint (data_size (fs ! i)))"
        and l: "live (dest + pData (iter_at fs 0 i)) (uint (data_size (fs ! i))) m''"
      then have "static_msg d env m'' flds (uint (data_size (fs ! i)))" using static_msg_frame by metis
      from Suc.IH [OF this D(2) l] show "mem_safe (dest + pData (iter_at fs 0 i)) (uint (data_size (fs ! i))) m''
          (message_walk (pb_field_set_to_default D' env) flds (dest + pData (iter_at fs 0 i)) m'')" .
    qed
    then show "mem_safe dest sz m' (pb_field_set_to_default D env ?it m')"
      using sf it_field_stop [OF fs stop, of dest]
      by (simp add: D field_set_to_default_def Let_def static_field_def)
  qed
qed simp

text \<open>Releasing a static message has nothing to free and changes nothing.\<close>

lemma release_items_id: "(\<And>i. i < n \<Longrightarrow> f (p + int i * step) m = Some m) \<Longrightarrow> release_items n f step p m = Some m"
proof (induction n arbitrary: p)
  case (Suc n)
  have "f p m = Some m" using Suc.prems [of 0] by simp
  moreover have "f (p + step + int i * step) m = Some m" if "i < n" for i
    using Suc.prems [of "Suc i"] that by (simp add: algebra_simps)
  then have "release_items n f step (p + step) m = Some m" by (rule Suc.IH)
  ultimately show ?case by simp
qed simp

lemma message_walk_id:
  assumes "pb_fields fs" "\<And>i. i < length (msg_fields fs) \<Longrightarrow> f (iter_at fs dest i) m = Some m"
  shows "message_walk f fs dest m = Some m"
proof -
  let ?n = "length (msg_fields fs)"
  have "field_walk f (iter_at fs dest i) m = Some m" if "i < ?n" for i
    using that
  proof (induction "?n - i" arbitrary: i)
    case (Suc k)
    then show ?case using assms(2) [of i] iter_next_at [OF assms(1) Suc.prems, of dest]
      by (subst field_walk.simps) (simp del: iter_at.simps)
  qed simp
  then show ?thesis using iter_begin_at [OF assms(1), of dest]
    by (cases "msg_fields fs = []") (simp_all add: message_walk_def del: iter_at.simps)
qed

lemma item_in_extent:
  assumes "static_field env m sub f pd ps sz" "PB_HTYPE (type f) = PB_HTYPE_REPEATED" "i < unat (array_size f)"
  shows "pd + int i * uint (data_size f) + uint (data_size f) \<le> sz"
proof -
  have "int (Suc i) \<le> int (unat (array_size f))" using assms(3) by linarith
  then have "(int i + 1) * uint (data_size f) \<le> uint (array_size f) * uint (data_size f)"
    by (intro mult_right_mono) simp_all
  also have "\<dots> = extent f" using assms(2) by (simp add: extent_def)
  finally show ?thesis using assms(1) by (auto simp: static_field_def algebra_simps)
qed

lemma release_submessages_id:
  assumes sf: "static_field env m sub f pd ps sz" and lv: "live dest sz m"
    and lt: "PB_LTYPE (type f) = PB_LTYPE_SUBMESSAGE"
    and it: "pData it = dest + pd" "pSize it = dest + ps"
    and rel: "\<And>flds q. sub flds (uint (data_size f)) \<Longrightarrow> live q (uint (data_size f)) m \<Longrightarrow>
       message_walk relf flds q m = Some m"
  shows "release_submessages env relf it f m = Some m"
proof -
  from sf lt obtain flds where flds: "d_fields env (ptr f) = Some flds" "sub flds (uint (data_size f))"
    by (auto simp: static_field_def split: option.splits)
  have st: "PB_ATYPE (type f) = PB_ATYPE_STATIC" "0 \<le> pd" using sf by (simp_all add: static_field_def)
  have item: "release_message relf flds (dest + pd + int i * uint (data_size f)) m = Some m"
    if "pd + int i * uint (data_size f) + uint (data_size f) \<le> sz" for i
    using rel [OF flds(2)] live_sub [OF lv, of "dest + pd + int i * uint (data_size f)" "uint (data_size f)"] that st(2)
    by (simp add: release_message_def)
  have ptr: "PB_ATYPE (type f) \<noteq> PB_ATYPE_POINTER" using st by (simp add: pb_type_defs)
  show ?thesis
  proof (cases "PB_HTYPE (type f) = PB_HTYPE_REPEATED")
    case True
    obtain c where c: "load32 m (pSize it) = Some c"
      using live_load32 [OF lv, of "pSize it"] sf True it by (auto simp: static_field_def)
    define k where "k = (if pSize it = pData it then array_size f
      else if c > array_size f then array_size f else c)"
    have "unat k \<le> unat (array_size f)" by (auto simp: k_def word_le_nat_alt word_less_nat_alt)
    then have "release_items (unat k) (release_message relf flds) (uint (data_size f)) (dest + pd) m = Some m"
      by (intro release_items_id item item_in_extent [OF sf True]) simp
    then show ?thesis using True c st flds ptr
      by (auto simp: release_submessages_def k_def it(1) Let_def split: if_splits)
  next
    case False
    have "release_items 1 (release_message relf flds) (uint (data_size f)) (dest + pd) m = Some m"
      using item [of 0] extent_data [OF sf False] by simp
    then show ?thesis using False st flds ptr by (simp add: release_submessages_def it(1) Let_def)
  qed
qed

lemma release_field_id:
  assumes sf: "static_field env m sub f pd ps sz" and lv: "live dest sz m"
    and it: "it_field it = Some f" "pData it = dest + pd" "pSize it = dest + ps"
    and rel: "\<And>flds q. sub flds (uint (data_size f)) \<Longrightarrow> live q (uint (data_size f)) m \<Longrightarrow>
       message_walk relf flds q m = Some m"
  shows "release_single_field env relf it m = Some m"
proof -
  obtain c where c: "PB_HTYPE (type f) = PB_HTYPE_ONEOF \<Longrightarrow> load32 m (pSize it) = Some c"
    using live_load32 [OF lv, of "pSize it"] sf it(3) by (auto simp: static_field_def)
  have "PB_ATYPE (type f) \<noteq> PB_ATYPE_POINTER" "PB_LTYPE (type f) \<noteq> PB_LTYPE_EXTENSION"
    using sf by (simp_all add: static_field_def pb_type_defs)
  then show ?thesis using c it(1) release_submessages_id [OF sf lv _ it(2,3) rel]
    by (auto simp: release_single_field_def Let_def)
qed

lemma message_release_id:
  "static_msg d env m fs sz \<Longrightarrow> d \<le> D \<Longrightarrow> live dest sz m \<Longrightarrow>
     message_walk (pb_release_single_field D env) fs dest m = Some m"
proof (induction d arbitrary: D fs sz dest)
  case (Suc d)
  from Suc.prems(2) obtain D' where D: "D = Suc D'" "d \<le> D'" by (cases D) auto
  have fs: "pb_fields fs" using Suc.prems(1) by simp
  show ?case
  proof (rule message_walk_id [OF fs])
    fix i assume i: "i < length (msg_fields fs)"
    then have stop: "i < iter_stops fs" by (simp add: iter_stops_def)
    then have sf: "static_field env m (static_msg d env m) (fs ! i) (pData (iter_at fs 0 i)) (pSize (iter_at fs 0 i)) sz"
      using Suc.prems(1) by simp
    from release_field_id [OF sf Suc.prems(3) it_field_stop [OF fs stop] iter_at_shift(1,2) Suc.IH [OF _ D(2)]]
    show "pb_release_single_field D env (iter_at fs dest i) m = Some m" by (simp add: D)
  qed
qed simp

lemma pb_release_id:
  "static_msg d env m fs sz \<Longrightarrow> d \<le> D \<Longrightarrow> live dest sz m \<Longrightarrow> pb_release D env fs dest m = Some m"
  using message_release_id by (auto simp: pb_release_def release_message_def)

text \<open>The release of the field that the decoder's iterator stands on.\<close>

lemma pb_release_single_field_id:
  assumes "static_msg (Suc d) env m fs sz" "Suc d \<le> D" "live dest sz m" "i < iter_stops fs"
  shows "pb_release_single_field D env (iter_at fs dest i) m = Some m"
proof -
  from assms(2) obtain D' where D: "D = Suc D'" "d \<le> D'" by (cases D) auto
  have fs: "pb_fields fs" using assms(1) by simp
  have sf: "static_field env m (static_msg d env m) (fs ! i) (pData (iter_at fs 0 i)) (pSize (iter_at fs 0 i)) sz"
    using assms(1,4) by simp
  from release_field_id [OF sf assms(3) it_field_stop [OF fs assms(4)] iter_at_shift(1,2)
      message_release_id [OF _ D(2)]]
  show ?thesis by (simp add: D)
qed

section \<open>Safe calls of the decoder\<close>

definition dec_rel ::
  "(nat \<Rightarrow> 'u pb_istream_t \<Rightarrow> bool) \<Rightarrow> nat \<Rightarrow> addr \<Rightarrow> int \<Rightarrow> 'u dec_state \<Rightarrow> 'u dec_state \<Rightarrow> bool" where
  "dec_rel room L lo n st st' \<longleftrightarrow> room L (d_stream st') \<and>
     bytes_left (d_stream st') \<le> bytes_left (d_stream st) \<and> frame lo n (d_mem st) (d_mem st')"

definition dec_safe ::
  "(nat \<Rightarrow> 'u pb_istream_t \<Rightarrow> bool) \<Rightarrow> nat \<Rightarrow> addr \<Rightarrow> int \<Rightarrow> 'u dec_state \<Rightarrow> ('a, 'u dec_state) outcome \<Rightarrow> bool" where
  "dec_safe room L lo n st r \<longleftrightarrow> wp r (\<lambda>_. dec_rel room L lo n st) (dec_rel room L lo n st)"

definition dec_eats ::
  "(nat \<Rightarrow> 'u pb_istream_t \<Rightarrow> bool) \<Rightarrow> nat \<Rightarrow> addr \<Rightarrow> int \<Rightarrow> 'u dec_state \<Rightarrow> ('a, 'u dec_state) outcome \<Rightarrow> bool" where
  "dec_eats room L lo n st r \<longleftrightarrow>
     wp r (\<lambda>_ st'. dec_rel room L lo n st st' \<and> bytes_left (d_stream st') < bytes_left (d_stream st))
       (dec_rel room L lo n st)"

lemma dec_simps [simp]:
  "dec_safe room L lo n st (Ok a st') \<longleftrightarrow> dec_rel room L lo n st st'"
  "dec_safe room L lo n st (Fail st') \<longleftrightarrow> dec_rel room L lo n st st'"
  "\<not> dec_safe room L lo n st Stuck"
  "dec_eats room L lo n st (Ok a st') \<longleftrightarrow>
     dec_rel room L lo n st st' \<and> bytes_left (d_stream st') < bytes_left (d_stream st)"
  "dec_eats room L lo n st (Fail st') \<longleftrightarrow> dec_rel room L lo n st st'"
  "\<not> dec_eats room L lo n st Stuck"
  by (simp_all add: dec_safe_def dec_eats_def)

lemma dec_eats_safe: "dec_eats room L lo n st r \<Longrightarrow> dec_safe room L lo n st r"
  by (cases r) auto

lemma dec_rel_trans: "dec_rel room L lo n s1 s2 \<Longrightarrow> dec_rel room L lo n s2 s3 \<Longrightarrow> dec_rel room L lo n s1 s3"
  by (auto simp: dec_rel_def intro: frame_trans)

lemma dec_rel_live: "dec_rel room L lo n st st' \<Longrightarrow> live a k (d_mem st') \<longleftrightarrow> live a k (d_mem st)"
  by (auto simp: dec_rel_def live_frame)

lemma dec_rel_static: "dec_rel room L lo n st st' \<Longrightarrow> static_msg d env (d_mem st') = static_msg d env (d_mem st)"
  by (auto simp: dec_rel_def static_msg_frame)

lemma dec_safe_mono:
  "dec_safe room L lo n st r \<Longrightarrow> lo' \<le> lo \<Longrightarrow> lo + n \<le> lo' + n' \<Longrightarrow> dec_safe room L lo' n' st r"
  by (cases r) (auto simp: dec_rel_def intro: frame_mono)

lemma dec_eats_mono:
  "dec_eats room L lo n st r \<Longrightarrow> lo' \<le> lo \<Longrightarrow> lo + n \<le> lo' + n' \<Longrightarrow> dec_eats room L lo' n' st r"
  by (cases r) (auto simp: dec_rel_def intro: frame_mono)

lemma dec_safe_trans: "dec_rel room L lo n st st' \<Longrightarrow> dec_safe room L lo n st' r \<Longrightarrow> dec_safe room L lo n st r"
  by (cases r) (auto intro: dec_rel_trans)

lemma dec_safe_then:
  assumes "dec_safe room L lo n st r" "\<And>a st'. r = Ok a st' \<Longrightarrow> dec_rel room L lo n st st' \<Longrightarrow> dec_safe room L lo n st' (k a st')"
  shows "dec_safe room L lo n st (c_then r k)"
  using assms by (cases r) (auto intro: dec_safe_trans)

lemma dec_eats_then:
  assumes "dec_eats room L lo n st r" "\<And>a st'. r = Ok a st' \<Longrightarrow> dec_rel room L lo n st st' \<Longrightarrow> dec_safe room L lo n st' (k a st')"
  shows "dec_eats room L lo n st (c_then r k)"
proof (cases r)
  case (Ok a st')
  then have r: "dec_rel room L lo n st st'" "bytes_left (d_stream st') < bytes_left (d_stream st)"
    "dec_safe room L lo n st' (k a st')" using assms by auto
  then show ?thesis using Ok
    by (cases "k a st'") (auto intro: dec_rel_trans simp: dec_rel_def [of _ _ _ _ st'])
qed (use assms in auto)

lemma on_stream_safe:
  "keeps room L (d_stream st) (f (d_stream st)) \<Longrightarrow> dec_safe room L lo n st (on_stream f st)"
  by (cases "f (d_stream st)") (auto simp: on_stream_def dec_rel_def)

lemma on_stream_eats:
  "eats room L (d_stream st) (f (d_stream st)) \<Longrightarrow> dec_eats room L lo n st (on_stream f st)"
  by (cases "f (d_stream st)") (auto simp: on_stream_def dec_rel_def)

lemma on_mem_safe:
  assumes "mem_safe lo n (d_mem st) (f (d_mem st))" "room L (d_stream st)"
    "\<And>m'. frame lo n (d_mem st) m' \<Longrightarrow> dec_rel room L lo n st (st\<lparr>d_mem := m'\<rparr>) \<Longrightarrow>
       dec_safe room L lo n (st\<lparr>d_mem := m'\<rparr>) (k (st\<lparr>d_mem := m'\<rparr>))"
  shows "dec_safe room L lo n st (on_mem f st k)"
proof -
  from assms(1) obtain m' where m': "f (d_mem st) = Some m'" "frame lo n (d_mem st) m'"
    by (auto simp: mem_safe_def)
  then have "dec_rel room L lo n st (st\<lparr>d_mem := m'\<rparr>)" using assms(2) by (simp add: dec_rel_def)
  with assms(3) m' show ?thesis by (auto simp: on_mem_def intro: dec_safe_trans)
qed

section \<open>Field decoders\<close>

locale static_decoder = safe_reader "d_rd env" room
  for env :: "'u dec_env" and room :: "nat \<Rightarrow> 'u pb_istream_t \<Rightarrow> bool"
begin

lemma dec_error_safe: "room L (d_stream st) \<Longrightarrow> dec_safe room L lo n st (dec_error st msg)"
  by (rule on_stream_safe) (rule return_error_keeps)

lemma store_ok_safe:
  assumes "room L (d_stream st)" "mem_safe lo n (d_mem st) (f (d_mem st))"
  shows "dec_safe room L lo n st (on_mem f st (Ok ()))" "dec_safe room L lo n st (on_mem f st Fail)"
  using assms by (auto intro!: on_mem_safe simp: dec_rel_def)

lemma store_clamped_safe:
  assumes "room L (d_stream st)" "live lo n (d_mem st)" "lo \<le> dest" "dest + int k \<le> lo + n"
  shows "dec_safe room L lo n st (store_clamped st dest k stored clamped v)"
  unfolding store_clamped_def using assms
  by (intro on_mem_safe) (auto intro: live_stores dec_error_safe simp: dec_rel_def)

text \<open>The readers of the wire level, on the state of the decoder.\<close>

lemma wire_eats:
  assumes "room L (d_stream st)"
  shows "dec_eats room L lo n st (on_stream (pb_decode_varint (d_rd env)) st)"
    "dec_eats room L lo n st (on_stream (pb_decode_svarint (d_rd env)) st)"
    "dec_eats room L lo n st (on_stream (pb_decode_fixed32 (d_rd env)) st)"
    "dec_eats room L lo n st (on_stream (pb_decode_fixed64 (d_rd env)) st)"
  by (rule on_stream_eats; rule decode_varint_eats decode_svarint_eats decode_fixed_eats; rule assms)+

lemma wire_safe:
  assumes "room L (d_stream st)"
  shows "dec_safe room L lo n st (on_stream (pb_decode_varint32 (d_rd env)) st)"
    "dec_safe room L lo n st (on_stream (\<lambda>s. pb_read (d_rd env) s buf count) st)"
    "dec_safe room L lo n st (on_stream (\<lambda>s. pb_skip_field (d_rd env) s wire_type) st)"
  by (rule on_stream_safe; rule eats_keeps [OF decode_varint32_eats] read_keeps skip_field_keeps; rule assms)+

lemma store_signed_safe:
  assumes "room L (d_stream st)" "live lo n (d_mem st)" "lo \<le> dest" "dest + uint (data_size f) \<le> lo + n"
  shows "dec_safe room L lo n st (store_signed st f dest v)"
  using assms by (auto simp: store_signed_def intro!: store_clamped_safe dec_error_safe)

lemma dec_numbers_eat:
  assumes "room L (d_stream st)" "live lo n (d_mem st)" "lo \<le> dest" "dest + uint (data_size f) \<le> lo + n"
  shows "dec_eats room L lo n st (pb_dec_varint env st f dest)"
    "dec_eats room L lo n st (pb_dec_uvarint env st f dest)"
    "dec_eats room L lo n st (pb_dec_svarint env st f dest)"
    "4 \<le> uint (data_size f) \<Longrightarrow> dec_eats room L lo n st (pb_dec_fixed32 env st f dest)"
    "8 \<le> uint (data_size f) \<Longrightarrow> dec_eats room L lo n st (pb_dec_fixed64 env st f dest)"
proof -
  have after: "room L (d_stream st') \<and> live lo n (d_mem st')" if "dec_rel room L lo n st st'" for st'
    using that assms(2) dec_rel_live [OF that] by (simp add: dec_rel_def)
  note v = wire_eats [OF assms(1)]
  show "dec_eats room L lo n st (pb_dec_varint env st f dest)"
    unfolding pb_dec_varint_def by (rule dec_eats_then [OF v(1)]) (simp add: Let_def store_signed_safe after assms)
  show "dec_eats room L lo n st (pb_dec_uvarint env st f dest)"
    unfolding pb_dec_uvarint_def
    by (rule dec_eats_then [OF v(1)]) (use assms in \<open>auto intro!: store_clamped_safe dec_error_safe simp: after\<close>)
  show "dec_eats room L lo n st (pb_dec_svarint env st f dest)"
    unfolding pb_dec_svarint_def
    by (rule dec_eats_then [OF v(2)])
      (simp add: store_signed_safe after assms)
  show "dec_eats room L lo n st (pb_dec_fixed32 env st f dest)" if "4 \<le> uint (data_size f)"
    unfolding pb_dec_fixed32_def
    by (rule dec_eats_then [OF v(3)])
      (use that assms in \<open>auto intro!: store_ok_safe live_stores simp: after\<close>)
  show "dec_eats room L lo n st (pb_dec_fixed64 env st f dest)" if "8 \<le> uint (data_size f)"
    unfolding pb_dec_fixed64_def
    by (rule dec_eats_then [OF v(4)])
      (use that assms in \<open>auto intro!: store_ok_safe live_stores simp: after\<close>)
qed

lemma pb_read_mem_safe:
  assumes "room L (d_stream st)" "live lo n (d_mem st)" "lo \<le> dest" "dest + int (unat count) \<le> lo + n"
  shows "dec_safe room L lo n st (pb_read_mem env st dest count)"
  unfolding pb_read_mem_def
proof (rule dec_safe_then [OF wire_safe(2) [OF assms(1)]])
  fix bs st' assume r: "on_stream (\<lambda>s. pb_read (d_rd env) s (dest \<noteq> NULL) count) st = Ok bs st'"
    and rel: "dec_rel room L lo n st st'"
  have "dest \<noteq> NULL" using assms(2,3) by (auto simp: live_def)
  then have "length bs = unat count" using r pb_read_Ok [of "d_rd env" "d_stream st" True count bs]
    by (auto simp: on_stream_def on_state_iffs)
  then show "dec_safe room L lo n st' (on_mem (\<lambda>m. store_bytes m dest bs) st' (Ok ()))"
    using rel assms dec_rel_live [OF rel, of lo n]
    by (intro store_ok_safe live_stores) (auto simp: dec_rel_def)
qed

lemma dec_bytes_safe:
  assumes "room L (d_stream st)" "live lo n (d_mem st)" "lo \<le> dest" "dest + uint (data_size f) \<le> lo + n"
    "PB_ATYPE (type f) = PB_ATYPE_STATIC"
  shows "dec_safe room L lo n st (pb_dec_bytes env st f dest)"
  unfolding pb_dec_bytes_def
proof (rule dec_safe_then [OF wire_safe(1) [OF assms(1)]], goal_cases)
  case (1 sz st')
  have st': "room L (d_stream st')" "live lo n (d_mem st')"
    using 1(2) assms(2) dec_rel_live [OF 1(2)] by (auto simp: dec_rel_def)
  have ptr: "PB_ATYPE (type f) \<noteq> PB_ATYPE_POINTER" using assms(5) by (simp add: pb_type_defs)
  have al: "unat (PB_BYTES_ARRAY_T_ALLOCSIZE (ucast sz)) = unat sz + 4"
  proof -
    have "unat sz + 4 < 18446744073709551616" using unat_less_numeral(2) [of sz] by linarith
    then show ?thesis by (simp add: PB_BYTES_ARRAY_T_ALLOCSIZE_def unat_word_ariths)
  qed
  have "dec_safe room L lo n st' (on_mem (\<lambda>m. store_word m dest 4 sz) st' (\<lambda>st. pb_read_mem env st (dest + 4) (ucast sz)))"
    if "unat sz + 4 \<le> unat (data_size f)"
  proof -
    from of_nat_mono [where 'a = int, OF that] have "dest + 4 + uint sz \<le> lo + n"
      using assms(4) by simp
    moreover from this have "dest + 4 \<le> lo + n" using uint_ge_0 [of sz] by linarith
    ultimately show ?thesis using st' assms(3)
      by (intro on_mem_safe live_stores pb_read_mem_safe) (auto simp: live_frame dec_rel_def)
  qed
  then show ?case using ptr al st'
    by (auto simp: Let_def dec_error_safe word_less_nat_alt not_less)
qed

lemma dec_string_safe:
  assumes "room L (d_stream st)" "live lo n (d_mem st)" "lo \<le> dest" "dest + uint (data_size f) \<le> lo + n"
    "PB_ATYPE (type f) = PB_ATYPE_STATIC"
  shows "dec_safe room L lo n st (pb_dec_string env st f dest)"
  unfolding pb_dec_string_def
proof (rule dec_safe_then [OF wire_safe(1) [OF assms(1)]], goal_cases)
  case (1 sz st')
  have st': "room L (d_stream st')" "live lo n (d_mem st')"
    using 1(2) assms(2) dec_rel_live [OF 1(2)] by (auto simp: dec_rel_def)
  have ptr: "PB_ATYPE (type f) \<noteq> PB_ATYPE_POINTER" using assms(5) by (simp add: pb_type_defs)
  let ?r = "pb_read_mem env st' dest (ucast sz)"
  have "dec_safe room L lo n st' (case ?r of Stuck \<Rightarrow> Stuck
        | Ok _ st \<Rightarrow> on_mem (\<lambda>m. store_word m (dest + uint sz) 1 (0 :: u8)) st (Ok ())
        | Fail st \<Rightarrow> on_mem (\<lambda>m. store_word m (dest + uint sz) 1 (0 :: u8)) st Fail)"
    if "\<not> (ucast (sz + 1) :: u64) < ucast sz" "\<not> (ucast (data_size f) :: u64) < ucast (sz + 1)"
  proof -
    have "unat (sz + 1) = unat sz + 1"
      using that(1) by (auto simp: word_less_nat_alt unat_word_ariths mod_Suc split: if_splits)
    then have "unat sz + 1 \<le> unat (data_size f)" using that(2) by (simp add: word_less_nat_alt)
    from of_nat_mono [where 'a = int, OF this] have le: "dest + uint sz + 1 \<le> lo + n"
      using assms(4) by simp
    have r: "dec_safe room L lo n st' ?r" using st' assms(3) le by (intro pb_read_mem_safe) auto
    have fin: "dec_safe room L lo n st2 (on_mem (\<lambda>m. store_word m (dest + uint sz) 1 (0 :: u8)) st2 (Ok ()))"
      "dec_safe room L lo n st2 (on_mem (\<lambda>m. store_word m (dest + uint sz) 1 (0 :: u8)) st2 Fail)"
      if "dec_rel room L lo n st' st2" for st2
      using that st' assms(3) le dec_rel_live [OF that, of lo n] add_increasing2 [OF uint_ge_0 [of sz] assms(3)]
      by (auto intro!: store_ok_safe live_stores simp: dec_rel_def)
    show ?thesis using r fin by (cases ?r) (auto intro: dec_safe_trans)
  qed
  then show ?case using ptr st' by (auto simp: Let_def dec_error_safe)
qed

lemma dec_fixed_length_bytes_safe:
  assumes "room L (d_stream st)" "live lo n (d_mem st)" "lo \<le> dest" "dest + uint (data_size f) \<le> lo + n"
  shows "dec_safe room L lo n st (pb_dec_fixed_length_bytes env st f dest)"
  unfolding pb_dec_fixed_length_bytes_def
proof (rule dec_safe_then [OF wire_safe(1) [OF assms(1)]], goal_cases)
  case (1 sz st')
  have st': "room L (d_stream st')" "live lo n (d_mem st')"
    using 1(2) assms(2) dec_rel_live [OF 1(2)] by (auto simp: dec_rel_def)
  show ?case using st' assms(3,4)
    by (auto intro!: dec_error_safe store_ok_safe live_stores pb_read_mem_safe)
qed

end

section \<open>Static fields\<close>

text \<open>What the recursive call promises for the submessages of depth \<open>d\<close>.\<close>

definition noinit_safe :: "nat \<Rightarrow> 'u dec_env \<Rightarrow> (nat \<Rightarrow> 'u pb_istream_t \<Rightarrow> bool) \<Rightarrow> 'u msg_decoder \<Rightarrow> bool" where
  "noinit_safe d env room noinit \<longleftrightarrow>
     (\<forall>L st fs sz dest. static_msg d env (d_mem st) fs sz \<longrightarrow> live dest sz (d_mem st) \<longrightarrow> room L (d_stream st) \<longrightarrow>
        dec_safe room L dest sz st (noinit st fs dest))"

lemma noinit_safeD:
  "noinit_safe d env room noinit \<Longrightarrow> static_msg d env (d_mem st) fs sz \<Longrightarrow> live dest sz (d_mem st) \<Longrightarrow>
     room L (d_stream st) \<Longrightarrow> dec_safe room L dest sz st (noinit st fs dest)"
  by (simp add: noinit_safe_def)

context static_decoder
begin

lemma decode_init_safe:
  assumes "noinit_safe d env room noinit" "static_msg d env (d_mem st) fs sz" "d \<le> D"
    "live dest sz (d_mem st)" "room L (d_stream st)"
  shows "dec_safe room L dest sz st (decode_init D env noinit st fs dest)"
  unfolding decode_init_def
proof (rule on_mem_safe, rule pb_message_set_to_defaults_safe [OF assms(2,3,4)], rule assms(5))
  fix m' assume m': "frame dest sz (d_mem st) m'"
  let ?st = "st\<lparr>d_mem := m'\<rparr>"
  have lv: "live dest sz m'" "static_msg d env m' fs sz"
    using assms(2,4) live_frame [OF m'] static_msg_frame [OF m'] by metis+
  then have n: "dec_safe room L dest sz ?st (noinit ?st fs dest)"
    using noinit_safeD [OF assms(1), of ?st] assms(5) by simp
  show "dec_safe room L dest sz ?st (case noinit ?st fs dest of Stuck \<Rightarrow> Stuck | Ok _ st \<Rightarrow> Ok () st
      | Fail st \<Rightarrow> on_mem (pb_release D env fs dest) st Fail)"
  proof (cases "noinit ?st fs dest")
    case (Fail st')
    with n have r: "dec_rel room L dest sz ?st st'" by simp
    have "pb_release D env fs dest (d_mem st') = Some (d_mem st')"
    proof (rule pb_release_id [OF _ assms(3)])
      show "static_msg d env (d_mem st') fs sz" "live dest sz (d_mem st')"
        using lv dec_rel_live [OF r, of dest sz] dec_rel_static [OF r, of d env] by simp_all
    qed
    then show ?thesis using Fail r by (simp add: on_mem_def)
  qed (use n in auto)
qed

text \<open>Closing a substream after a safe call on it.\<close>

lemma close_substream_safe:
  assumes "room L parent" "room (L + unat (bytes_left parent)) (d_stream st)"
    "bytes_left parent \<le> bytes_left (d_stream st0)" "frame lo n (d_mem st0) (d_mem st)"
  shows "dec_safe room L lo n st0 (close_substream env parent status st)"
  using close_substream_room [OF assms(1,2)] assms(3,4)
  by (cases "pb_close_string_substream (d_rd env) parent (d_stream st)")
    (auto simp: close_substream_def on_stream_def dec_rel_def)

lemma closing_safe:
  assumes "room L parent" "dec_safe room (L + unat (bytes_left parent)) lo n (st0\<lparr>d_stream := sub\<rparr>) r"
    "bytes_left parent \<le> bytes_left (d_stream st0)"
  shows "dec_safe room L lo n st0 (closing env parent r)"
  using assms by (cases r) (auto simp: closing_def dec_rel_def intro!: close_substream_safe)

text \<open>Opening one: the stream is the parent, the value the substream.\<close>

lemma open_substream_safe:
  assumes "room L (d_stream st)"
    "\<And>sub st'. room L (d_stream st') \<Longrightarrow> room (L + unat (bytes_left (d_stream st'))) sub \<Longrightarrow>
       d_mem st' = d_mem st \<Longrightarrow> d_count st' = d_count st \<Longrightarrow> dec_rel room L lo n st st' \<Longrightarrow>
       dec_safe room L lo n st' (k sub st')"
  shows "dec_safe room L lo n st (c_then (on_stream (pb_make_string_substream (d_rd env)) st) k)"
proof (cases "pb_make_string_substream (d_rd env) (d_stream st)")
  case (Ok sub s')
  let ?st' = "st\<lparr>d_stream := s'\<rparr>"
  from make_substream_room [OF assms(1)] Ok have s': "room L s'" "room (L + unat (bytes_left s')) sub"
    "bytes_left s' \<le> bytes_left (d_stream st)" by (auto simp: word_le_nat_alt)
  then have r: "dec_rel room L lo n st ?st'" by (simp add: dec_rel_def)
  from dec_safe_trans [OF r assms(2) [of ?st' sub]] s' r show ?thesis using Ok by (simp add: on_stream_def)
qed (use make_substream_room [OF assms(1)] in \<open>auto simp: on_stream_def dec_rel_def\<close>)

lemma dec_submessage_safe:
  assumes "noinit_safe d env room noinit" "d \<le> D" "static_field env (d_mem st) (static_msg d env (d_mem st)) f pd ps sz"
    "PB_LTYPE (type f) = PB_LTYPE_SUBMESSAGE" "live dest (uint (data_size f)) (d_mem st)" "room L (d_stream st)"
  shows "dec_safe room L dest (uint (data_size f)) st (pb_dec_submessage D env noinit st f dest)"
  unfolding pb_dec_submessage_def
proof (rule open_substream_safe [OF assms(6)])
  fix sub and st' :: "'u dec_state"
  assume p: "room L (d_stream st')" and s: "room (L + unat (bytes_left (d_stream st'))) sub"
    and m: "d_mem st' = d_mem st"
  from assms(3,4) obtain flds where flds: "ptr f \<noteq> NULL" "d_fields env (ptr f) = Some flds"
    "static_msg d env (d_mem st) flds (uint (data_size f))"
    by (auto simp: static_field_def split: option.splits)
  let ?st = "st'\<lparr>d_stream := sub\<rparr>"
  have "dec_safe room (L + unat (bytes_left (d_stream st'))) dest (uint (data_size f)) ?st
      ((if PB_HTYPE (type f) = PB_HTYPE_REPEATED then decode_init D env noinit else noinit) ?st flds dest)"
    using decode_init_safe [OF assms(1) _ assms(2), of ?st flds "uint (data_size f)" dest]
      noinit_safeD [OF assms(1), of ?st flds "uint (data_size f)" dest] flds assms(5) s m by simp
  from closing_safe [OF p this] show "dec_safe room L dest (uint (data_size f)) st'
      (if ptr f = NULL then dec_error st' ''invalid field descriptor''
       else access (d_fields env (ptr f)) (\<lambda>flds. closing env (d_stream st')
         ((if PB_HTYPE (type f) = PB_HTYPE_REPEATED then decode_init D env noinit else noinit) ?st flds dest)))"
    using flds by simp
qed

end

text \<open>The counter of a repeated field: a member of the struct or the local variable.\<close>

definition count_ok :: "addr \<Rightarrow> int \<Rightarrow> addr \<Rightarrow> bool" where
  "count_ok dest sz p \<longleftrightarrow> p = FIXED_COUNT \<or> dest \<le> p \<and> p + 4 \<le> dest + sz"

lemma load_count_ok:
  "count_ok dest sz p \<Longrightarrow> live dest sz (d_mem st) \<Longrightarrow> \<exists>c. load_count st p = Some c"
  by (auto simp: count_ok_def load_count_def live_load32)

lemma store_count_safe:
  assumes "count_ok dest sz p" "live dest sz (d_mem st)" "room L (d_stream st)"
    "\<And>st'. dec_rel room L dest sz st st' \<Longrightarrow> d_stream st' = d_stream st \<Longrightarrow> dec_safe room L dest sz st' (k st')"
  shows "dec_safe room L dest sz st (store_count st p c k)"
proof (cases "p = FIXED_COUNT")
  case True
  have "dec_rel room L dest sz st (st\<lparr>d_count := c\<rparr>)" using assms(3) by (simp add: dec_rel_def)
  from dec_safe_trans [OF this assms(4) [OF this]] True show ?thesis by (simp add: store_count_def)
next
  case False
  then have "mem_safe dest sz (d_mem st) (store_word (d_mem st) p 4 c)"
    using assms(1,2) by (intro live_stores) (auto simp: count_ok_def)
  then have "dec_safe room L dest sz st (on_mem (\<lambda>m. store_word m p 4 c) st k)"
    using assms(3,4) by (intro on_mem_safe) simp_all
  with False show ?thesis by (simp add: store_count_def)
qed

lemma packed_loop_safe:
  assumes "\<And>st i. live dest sz (d_mem st) \<Longrightarrow> room L (d_stream st) \<Longrightarrow> i < array_size f \<Longrightarrow>
      dec_eats room L dest sz st (func st f (item_addr (pData it) f i))"
    and "count_ok dest sz (pSize it)"
  shows "live dest sz (d_mem st) \<Longrightarrow> room L (d_stream st) \<Longrightarrow> unat (bytes_left (d_stream st)) < n \<Longrightarrow>
    dec_safe room L dest sz st (packed_loop n func it f st)"
proof (induction n arbitrary: st)
  case (Suc n)
  obtain c where c: "load_count st (pSize it) = Some c" using load_count_ok [OF assms(2) Suc.prems(1)] by blast
  show ?case
  proof (cases "bytes_left (d_stream st) > 0 \<and> c < array_size f")
    case True
    let ?r = "func st f (item_addr (pData it) f c)"
    have r: "dec_eats room L dest sz st ?r" using assms(1) Suc.prems True by blast
    show ?thesis
    proof (cases ?r)
      case (Ok u st')
      with r have r': "dec_rel room L dest sz st st'" and b: "bytes_left (d_stream st') < bytes_left (d_stream st)"
        by auto
      have lv: "live dest sz (d_mem st')" "room L (d_stream st')"
        using Suc.prems dec_rel_live [OF r', of dest sz] r' by (auto simp: dec_rel_def)
      obtain c' where c': "load_count st' (pSize it) = Some c'" using load_count_ok [OF assms(2) lv(1)] by blast
      have "dec_safe room L dest sz st' (store_count st' (pSize it) (c' + 1) (\<lambda>st. packed_loop n func it f st))"
      proof (rule store_count_safe [where room = room and L = L, OF assms(2) lv])
        fix st'' assume r'': "dec_rel room L dest sz st' st''" and s: "d_stream st'' = d_stream st'"
        have "unat (bytes_left (d_stream st'')) < n" using b Suc.prems(3) by (simp add: s word_less_nat_alt)
        then show "dec_safe room L dest sz st'' (packed_loop n func it f st'')"
          using lv dec_rel_live [OF r'', of dest sz] s by (intro Suc.IH) simp_all
      qed
      from dec_safe_trans [OF r' this] show ?thesis using c c' Ok True by simp
    qed (use r c True in auto)
  next
    case False
    then show ?thesis using c Suc.prems by (auto simp: dec_rel_def)
  qed
qed simp

text \<open>A field decoder that is safe on every destination of the field's size.\<close>

definition decoder_safe ::
  "(nat \<Rightarrow> 'u pb_istream_t \<Rightarrow> bool) \<Rightarrow> (c_mem \<Rightarrow> bool) \<Rightarrow> pb_field_t \<Rightarrow> 'u pb_decoder_t \<Rightarrow> bool" where
  "decoder_safe room M f func \<longleftrightarrow>
     (\<forall>st L p. live p (uint (data_size f)) (d_mem st) \<longrightarrow> room L (d_stream st) \<longrightarrow> M (d_mem st) \<longrightarrow>
        dec_safe room L p (uint (data_size f)) st (func st f p))"

definition decoder_eats :: "(nat \<Rightarrow> 'u pb_istream_t \<Rightarrow> bool) \<Rightarrow> pb_field_t \<Rightarrow> 'u pb_decoder_t \<Rightarrow> bool" where
  "decoder_eats room f func \<longleftrightarrow>
     (\<forall>st L p. live p (uint (data_size f)) (d_mem st) \<longrightarrow> room L (d_stream st) \<longrightarrow>
        dec_eats room L p (uint (data_size f)) st (func st f p))"

context static_decoder
begin

text \<open>Every entry of the table that a static field can select.\<close>

lemma PB_DECODERS_safe:
  assumes "noinit_safe d env room noinit" "d \<le> D" "static_field env m0 (static_msg d env m0) f pd ps sz"
  shows "\<exists>func. PB_DECODERS D env noinit (PB_LTYPE (type f)) = Some func \<and>
    decoder_safe room (\<lambda>m. \<exists>lo n. frame lo n m0 m) f func \<and>
    (PB_LTYPE (type f) \<le> PB_LTYPE_LAST_PACKABLE \<longrightarrow> decoder_eats room f func)"
proof -
  let ?lt = "PB_LTYPE (type f)"
  have st: "PB_ATYPE (type f) = PB_ATYPE_STATIC" "?lt < PB_LTYPES_COUNT" "?lt \<noteq> PB_LTYPE_EXTENSION"
    "?lt = PB_LTYPE_FIXED32 \<Longrightarrow> 4 \<le> uint (data_size f)" "?lt = PB_LTYPE_FIXED64 \<Longrightarrow> 8 \<le> uint (data_size f)"
    using assms(3) by (simp_all add: static_field_def)
  have sub: "dec_safe room L p (uint (data_size f)) st (pb_dec_submessage D env noinit st f p)"
    if "?lt = PB_LTYPE_SUBMESSAGE" "live p (uint (data_size f)) (d_mem st)" "room L (d_stream st)"
      "frame lo n m0 (d_mem st)" for st L p lo n
  proof (rule dec_submessage_safe [OF assms(1,2) _ that(1-3)])
    show "static_field env (d_mem st) (static_msg d env (d_mem st)) f pd ps sz"
      using assms(3) static_field_frame [OF that(4)] static_msg_frame [OF that(4)] by metis
  qed
  have lt: "unat ?lt < 10" using st(2) by (simp add: PB_LTYPES_COUNT_def word_less_nat_alt)
  have cases10: "?lt \<in> {PB_LTYPE_VARINT, PB_LTYPE_UVARINT, PB_LTYPE_SVARINT, PB_LTYPE_FIXED32, PB_LTYPE_FIXED64,
      PB_LTYPE_BYTES, PB_LTYPE_STRING, PB_LTYPE_SUBMESSAGE, PB_LTYPE_FIXED_LENGTH_BYTES}"
  proof -
    have "unat ?lt \<in> {0, 1, 2, 3, 4, 5, 6, 7, 8, 9}" using lt by auto
    then have "?lt \<in> {0, 1, 2, 3, 4, 5, 6, 7, 8, 9}" by (auto simp: word_unat_eq_iff)
    then show ?thesis using st(3)
      by (auto simp: PB_LTYPE_VARINT_def PB_LTYPE_UVARINT_def PB_LTYPE_SVARINT_def PB_LTYPE_FIXED32_def
          PB_LTYPE_FIXED64_def PB_LTYPE_BYTES_def PB_LTYPE_STRING_def PB_LTYPE_SUBMESSAGE_def
          PB_LTYPE_EXTENSION_def PB_LTYPE_FIXED_LENGTH_BYTES_def)
  qed
  note num = dec_numbers_eat [OF _ _ order_refl order_refl]
  from cases10 show ?thesis
    apply (elim insertE emptyE)
    subgoal by (auto simp: PB_DECODERS_def decoder_safe_def decoder_eats_def intro: num dec_eats_safe)
    subgoal by (auto simp: PB_DECODERS_def pb_ltype_defs decoder_safe_def decoder_eats_def intro: num dec_eats_safe)
    subgoal by (auto simp: PB_DECODERS_def pb_ltype_defs decoder_safe_def decoder_eats_def intro: num dec_eats_safe)
    subgoal using st(4) by (auto simp: PB_DECODERS_def pb_ltype_defs decoder_safe_def decoder_eats_def intro: num dec_eats_safe)
    subgoal using st(5) by (auto simp: PB_DECODERS_def pb_ltype_defs decoder_safe_def decoder_eats_def intro: num dec_eats_safe)
    subgoal using st(1) by (auto simp: PB_DECODERS_def pb_ltype_defs decoder_safe_def intro: dec_bytes_safe)
    subgoal using st(1) by (auto simp: PB_DECODERS_def pb_ltype_defs decoder_safe_def intro: dec_string_safe)
    subgoal using sub by (auto simp: PB_DECODERS_def pb_ltype_defs decoder_safe_def)
    subgoal by (auto simp: PB_DECODERS_def pb_ltype_defs decoder_safe_def intro: dec_fixed_length_bytes_safe)
    done
qed

end

end
