(* ===== verification/Pb_Decode_Total.thy ===== *)
theory Pb_Decode_Total
  imports Pb_Decode_Safe
begin

unbundle bit_operations_syntax

text \<open>
  The second half of the safety of the decoder: static fields with their arrays and unions, the
  iterator, the loop of \<open>pb_decode_noinit\<close> and its final checks, and the theorem for
  \<open>pb_decode\<close> on every input.
\<close>

section \<open>Static fields\<close>

lemma item_addr_eq:
  assumes "static_field env m sub f pd ps sz" "PB_HTYPE (type f) = PB_HTYPE_REPEATED" "c < array_size f"
  shows "item_addr base f c = base + uint c * uint (data_size f)"
proof -
  have "uint (data_size f) * uint c \<le> uint (data_size f) * uint (array_size f)"
    using assms(3) by (intro mult_left_mono) (simp_all add: word_less_def)
  also have "\<dots> < 2 ^ 32" using assms(1,2) by (simp add: static_field_def extent_def)
  finally have "uint (data_size f) * uint c < 2 ^ LENGTH(32)" by simp
  then have "uint (data_size f * c) = uint (data_size f) * uint c" by (simp only: uint_mult_lem)
  then show ?thesis by (simp add: item_addr_def mult.commute)
qed

lemma item_inside:
  assumes "static_field env m sub f pd ps sz" "PB_HTYPE (type f) = PB_HTYPE_REPEATED" "c < array_size f"
  shows "dest \<le> item_addr (dest + pd) f c" "item_addr (dest + pd) f c + uint (data_size f) \<le> dest + sz"
proof -
  have "unat c < unat (array_size f)" using assms(3) by (simp add: word_less_nat_alt)
  from item_in_extent [OF assms(1,2) this]
  have "pd + uint c * uint (data_size f) + uint (data_size f) \<le> sz" by simp
  moreover have "0 \<le> pd" using assms(1) by (simp add: static_field_def)
  moreover have "0 \<le> uint c * uint (data_size f)" by simp
  ultimately show "dest \<le> item_addr (dest + pd) f c" "item_addr (dest + pd) f c + uint (data_size f) \<le> dest + sz"
    unfolding item_addr_eq [OF assms] by linarith+
qed

lemma at_field_count:
  assumes "static_msg (Suc d) env m fs sz" "at_field fs dest it i" "PB_HTYPE (type (fs ! i)) = PB_HTYPE_REPEATED"
  shows "count_ok dest sz (pSize it)"
proof -
  have i: "i < iter_stops fs" "pSize it = pSize (iter_at fs dest i) \<or> pSize it = FIXED_COUNT"
    using assms(2) by (auto simp: at_field_def)
  with assms(1,3) have "0 \<le> pSize (iter_at fs 0 i)" "pSize (iter_at fs 0 i) + 4 \<le> sz"
    by (auto simp: static_field_def)
  with i(2) show ?thesis by (auto simp: count_ok_def iter_at_shift(2) [of fs dest])
qed

text \<open>The packed loop reports a failed item in its value.\<close>

lemma packed_loop_returns: "packed_loop n func it f st \<noteq> Fail st'"
proof (induction n arbitrary: st)
  case (Suc n)
  then show ?case
    by (auto simp: access_def store_count_def on_mem_def split: option.splits outcome.splits)
qed simp

context static_decoder
begin

lemma packed_close_safe:
  assumes "room L (d_stream st')" "dec_safe room (L + unat (bytes_left (d_stream st'))) lo n (st'\<lparr>d_stream := sub\<rparr>) l"
    "\<And>s. l \<noteq> Fail s"
  shows "dec_safe room L lo n st' (c_then l (\<lambda>status st.
      if bytes_left (d_stream st) \<noteq> 0 then dec_error (st\<lparr>d_stream := d_stream st'\<rparr>) msg
      else close_substream env (d_stream st') status st))"
proof (cases l)
  case (Ok status st2)
  then have r: "room (L + unat (bytes_left (d_stream st'))) (d_stream st2)" "frame lo n (d_mem st') (d_mem st2)"
    using assms(2) by (auto simp: dec_rel_def)
  then have "dec_rel room L lo n st' (st2\<lparr>d_stream := d_stream st'\<rparr>)" using assms(1) by (simp add: dec_rel_def)
  from dec_safe_trans [OF this dec_error_safe]
  have "dec_safe room L lo n st' (dec_error (st2\<lparr>d_stream := d_stream st'\<rparr>) msg :: (unit, 'u dec_state) outcome)"
    using assms(1) by simp
  then show ?thesis using Ok close_substream_safe [OF assms(1) r(1) _ r(2), of status] by simp
qed (use assms in auto)

lemma decode_static_field_safe:
  assumes ns: "noinit_safe d env room noinit" "d \<le> D" and sm: "static_msg (Suc d) env (d_mem st) fs sz"
    and at: "at_field fs dest it i" and lv: "live dest sz (d_mem st)" and rm: "room L (d_stream st)"
  shows "dec_safe room L dest sz st (decode_static_field D env noinit st wire_type it)"
proof -
  let ?f = "fs ! i" and ?pd = "pData it - dest" and ?ps = "pSize (iter_at fs dest i) - dest"
  let ?ht = "PB_HTYPE (type (fs ! i))"
  note itf = static_msg_at(1) [OF sm at] and sf = static_msg_at(2) [OF sm at]
  from PB_DECODERS_safe [OF ns sf] obtain func
    where func: "PB_DECODERS D env noinit (PB_LTYPE (type ?f)) = Some func"
      and safe: "decoder_safe room (\<lambda>m. \<exists>lo n. frame lo n (d_mem st) m) ?f func"
      and eats: "PB_LTYPE (type ?f) \<le> PB_LTYPE_LAST_PACKABLE \<Longrightarrow> decoder_eats room ?f func"
    by blast
  have inside: "dec_safe room L dest sz st' (func st' ?f p)"
    if "dest \<le> p" "p + uint (data_size ?f) \<le> dest + sz" "dec_rel room L dest sz st st'" for p st'
  proof -
    have "live p (uint (data_size ?f)) (d_mem st')"
      using live_sub [of dest sz "d_mem st'" p "uint (data_size ?f)"] that lv dec_rel_live [OF that(3), of dest sz] by simp
    then have "dec_safe room L p (uint (data_size ?f)) st' (func st' ?f p)"
      using safe that(3) unfolding decoder_safe_def dec_rel_def by blast
    then show ?thesis using that(1,2) by (rule dec_safe_mono)
  qed
  have single: "dec_safe room L dest sz st' (func st' ?f (pData it))"
    if "?ht \<noteq> PB_HTYPE_REPEATED" "dec_rel room L dest sz st st'" for st'
    using extent_data [OF sf that(1)] that(2) by (intro inside) simp_all
  have refl: "dec_rel room L dest sz st st" using rm by (simp add: dec_rel_def)
  consider (req) "?ht = PB_HTYPE_REQUIRED" | (opt) "?ht = PB_HTYPE_OPTIONAL"
    | (rep) "?ht = PB_HTYPE_REPEATED" | (one) "?ht = PB_HTYPE_ONEOF" using PB_HTYPE_cases by blast
  then show ?thesis
  proof cases
    case req
    then show ?thesis using single [OF _ refl] func itf by (simp add: decode_static_field_def pb_htype_defs)
  next
    case opt
    have p: "pSize it = pSize (iter_at fs dest i)" using at opt by (auto simp: at_field_def pb_htype_defs)
    have "dec_safe room L dest sz st (on_mem (\<lambda>m. store_word m (pSize it) 1 (1 :: u8)) st (\<lambda>st. func st ?f (pData it)))"
      if "pSize it \<noteq> pData it"
    proof (rule on_mem_safe)
      show "mem_safe dest sz (d_mem st) (store_word (d_mem st) (pSize it) 1 (1 :: u8))"
        using sf opt p that lv by (intro live_stores) (auto simp: static_field_def)
    qed (use single opt rm in \<open>auto simp: pb_htype_defs\<close>)
    then show ?thesis using single [OF _ refl] func itf opt
      by (auto simp: decode_static_field_def pb_htype_defs Let_def)
  next
    case one
    have p: "pSize it = pSize (iter_at fs dest i)" using at one by (auto simp: at_field_def pb_htype_defs)
    have nr: "?ht \<noteq> PB_HTYPE_REPEATED" using one by (simp add: pb_htype_defs)
    note ex = extent_data [OF sf nr]
    have "dec_safe room L dest sz st (on_mem (\<lambda>m. store_word m (pSize it) 4 (tag ?f)) st (\<lambda>st.
              if PB_LTYPE (type ?f) = PB_LTYPE_SUBMESSAGE
              then on_mem (\<lambda>m. mem_zero m (pData it) (unat (data_size ?f))) st (\<lambda>st.
                   access (d_fields env (ptr ?f)) (\<lambda>flds.
                   on_mem (pb_message_set_to_defaults D env flds (pData it)) st (\<lambda>st.
                     func st ?f (pData it))))
              else func st ?f (pData it)))"
    proof (rule on_mem_safe, goal_cases)
      case 1
      then show ?case using sf one p lv by (intro live_stores) (auto simp: static_field_def)
    next
      case (3 m1)
      note 2 = 3
      let ?st1 = "st\<lparr>d_mem := m1\<rparr>"
      show ?case
      proof (cases "PB_LTYPE (type ?f) = PB_LTYPE_SUBMESSAGE")
        case True
        from sf True obtain flds where flds: "d_fields env (ptr ?f) = Some flds"
          "static_msg d env (d_mem st) flds (uint (data_size ?f))"
          by (auto simp: static_field_def split: option.splits)
        have "dec_safe room L dest sz ?st1 (on_mem (\<lambda>m. mem_zero m (pData it) (unat (data_size ?f))) ?st1 (\<lambda>st.
            on_mem (pb_message_set_to_defaults D env flds (pData it)) st (\<lambda>st. func st ?f (pData it))))"
        proof (rule on_mem_safe, goal_cases)
          case 1
          then show ?case using lv live_frame [OF 2(1)] ex by (intro live_stores) auto
        next
          case (3 m2)
          have fr: "frame dest sz (d_mem st) m2" using 2(1) 3(1) by (auto intro: frame_trans)
          have "live (pData it) (uint (data_size ?f)) m2"
            using live_sub [of dest sz m2 "pData it" "uint (data_size ?f)"] lv live_frame [OF fr, of dest sz] ex by simp
          moreover have "static_msg d env m2 flds (uint (data_size ?f))" using flds(2) static_msg_frame [OF fr] by metis
          ultimately have df: "mem_safe (pData it) (uint (data_size ?f)) m2
              (pb_message_set_to_defaults D env flds (pData it) m2)"
            using pb_message_set_to_defaults_safe ns(2) by blast
          show ?case
          proof (rule on_mem_safe, goal_cases)
            case 1
            then show ?case using mem_safe_mono [OF df, of dest sz] ex by simp
          next
            case (3 m3)
            then show ?case using rm fr by (intro single [OF nr]) (auto simp: dec_rel_def intro: frame_trans)
          qed (use rm in simp)
        qed (use rm in simp)
        then show ?thesis using True flds(1) by simp
      next
        case False
        then show ?thesis using single [OF nr 2(2)] by simp
      qed
    qed (rule rm)
    then show ?thesis using func itf one by (simp add: decode_static_field_def pb_htype_defs Let_def)
  next
    case rep
    note cnt = at_field_count [OF sm at rep]
    obtain c where c: "load_count st (pSize it) = Some c" using load_count_ok [OF cnt lv] by blast
    have item: "dest \<le> item_addr (pData it) ?f k" "item_addr (pData it) ?f k + uint (data_size ?f) \<le> dest + sz"
      if "k < array_size ?f" for k using item_inside [OF sf rep that, of dest] by simp_all
    have one: "dec_safe room L dest sz st (store_count st (pSize it) (c + 1) (\<lambda>st.
        if array_size ?f \<le> c then dec_error st ''array overflow'' else func st ?f (item_addr (pData it) ?f c)))"
    proof (rule store_count_safe [where room = room and L = L, OF cnt lv rm])
      fix st' assume r: "dec_rel room L dest sz st st'"
      then show "dec_safe room L dest sz st' (if array_size ?f \<le> c then dec_error st' ''array overflow''
          else func st' ?f (item_addr (pData it) ?f c))"
        using item inside [OF _ _ r] by (auto simp: dec_rel_def intro: dec_error_safe)
    qed
    have packed: "dec_safe room L dest sz st
       (c_then (on_stream (pb_make_string_substream (d_rd env)) st) (\<lambda>substream st.
          let parent = d_stream st in
          c_then (packed_loop (Suc (unat (bytes_left substream))) func it ?f (st\<lparr>d_stream := substream\<rparr>)) (\<lambda>status st.
            if bytes_left (d_stream st) \<noteq> 0 then dec_error (st\<lparr>d_stream := parent\<rparr>) ''array overflow''
            else close_substream env parent status st)))"
      if lt: "PB_LTYPE (type ?f) \<le> PB_LTYPE_LAST_PACKABLE"
    proof (rule open_substream_safe [OF rm])
      fix sub and st' :: "'u dec_state"
      assume p: "room L (d_stream st')" "room (L + unat (bytes_left (d_stream st'))) sub" and m: "d_mem st' = d_mem st"
      let ?l = "packed_loop (Suc (unat (bytes_left sub))) func it ?f (st'\<lparr>d_stream := sub\<rparr>)"
      have "dec_safe room (L + unat (bytes_left (d_stream st'))) dest sz (st'\<lparr>d_stream := sub\<rparr>) ?l"
      proof (rule packed_loop_safe [OF _ cnt])
        fix st2 :: "'u dec_state" and k
        let ?p = "item_addr (pData it) ?f k"
        assume a: "live dest sz (d_mem st2)" "room (L + unat (bytes_left (d_stream st'))) (d_stream st2)" "k < array_size ?f"
        have "live ?p (uint (data_size ?f)) (d_mem st2)"
          using live_sub [OF a(1) item(1) [OF a(3)] _ item(2) [OF a(3)]] by simp
        then have "dec_eats room (L + unat (bytes_left (d_stream st'))) ?p (uint (data_size ?f)) st2 (func st2 ?f ?p)"
          using eats [OF lt] a(2) by (simp add: decoder_eats_def)
        then show "dec_eats room (L + unat (bytes_left (d_stream st'))) dest sz st2 (func st2 ?f ?p)"
          using item [OF a(3)] by (rule dec_eats_mono)
      qed (use p lv m in simp_all)
      from packed_close_safe [OF p(1) this packed_loop_returns]
      show "dec_safe room L dest sz st' (let parent = d_stream st' in c_then ?l (\<lambda>status st.
            if bytes_left (d_stream st) \<noteq> 0 then dec_error (st\<lparr>d_stream := parent\<rparr>) ''array overflow''
            else close_substream env parent status st))" unfolding Let_def .
    qed
    show ?thesis using one packed c func itf rep
      by (simp add: decode_static_field_def pb_htype_defs Let_def)
  qed
qed

end

section \<open>The iterator of the decoder\<close>

lemma at_field_cases:
  assumes "at_field fs dest it i"
  shows "it = iter_at fs dest i \<or>
    PB_HTYPE (type (fs ! i)) = PB_HTYPE_REPEATED \<and> it = (iter_at fs dest i)\<lparr>pSize := FIXED_COUNT\<rparr>"
proof -
  have "(iter_at fs dest i)\<lparr>pSize := pSize (iter_at fs dest i)\<rparr> = iter_at fs dest i" by simp
  then show ?thesis using assms unfolding at_field_def by metis
qed

text \<open>Moving on forgets the size pointer of the old position.\<close>

lemma at_field_next:
  assumes "pb_fields fs" "at_field fs dest it i" "msg_fields fs \<noteq> []"
  shows "pb_field_iter_next it = pb_field_iter_next (iter_at fs dest i)"
  using at_field_cases [OF assms(2)]
proof
  assume r: "PB_HTYPE (type (fs ! i)) = PB_HTYPE_REPEATED \<and> it = (iter_at fs dest i)\<lparr>pSize := FIXED_COUNT\<rparr>"
  have i: "i < length (msg_fields fs)" using assms(2,3) by (cases "msg_fields fs") (auto simp: at_field_def iter_stops_def)
  have f: "it_field (iter_at fs dest i) = Some (fs ! i)" "it_field it = Some (fs ! i)"
    using i pb_fields_length [OF assms(1)] at_field_it_field [OF assms(1,2)] by (simp_all add: it_field_at)
  have t: "tag (fs ! i) \<noteq> 0" "PB_HTYPE (type (fs ! i)) \<noteq> PB_HTYPE_ONEOF"
    using pb_fields_nth(1) [OF assms(1) i] conjunct1 [OF r] by (auto simp: pb_htype_defs)
  show ?thesis using r f t
    by (auto simp: pb_field_iter_next_def Let_def it_field_def split: option.splits)
qed simp

lemma find_loop_step:
  assumes "it_field it = it_field it'" "pb_field_iter_next it = pb_field_iter_next it'"
    "\<And>f. it_field it = Some f \<Longrightarrow> \<not> matches tg f"
  shows "find_loop tg start it = find_loop tg start it'"
  using assms by (subst (1 2) find_loop.simps) (auto simp: matches_def split: option.splits)

lemma find_at_field:
  assumes "pb_fields fs" "at_field fs dest it i"
  shows "\<exists>b it' j. pb_field_iter_find it tg = Some (b, it') \<and> at_field fs dest it' j \<and>
    (it' = it \<or> it' = iter_at fs dest j)"
proof -
  have itf: "it_field it = Some (fs ! i)" by (rule at_field_it_field [OF assms])
  have pos: "it_pos it = i" using at_field_pos [OF assms(2)] by simp
  consider "matches tg (fs ! i)" | "\<not> matches tg (fs ! i)" "msg_fields fs = []"
    | (go) "\<not> matches tg (fs ! i)" "msg_fields fs \<noteq> []" by blast
  then show ?thesis
  proof cases
    case 1
    then have "pb_field_iter_find it tg = Some (True, it)"
      using itf unfolding pb_field_iter_find_def by (subst find_loop.simps) (simp add: matches_def)
    then show ?thesis using assms(2) by blast
  next
    case 2
    then have i: "i = 0" using assms(2) by (simp add: at_field_def iter_stops_def)
    have "tag (fs ! 0) = 0" using 2 pb_fields_nth(2) [OF assms(1)] by simp
    then have "pb_field_iter_next it = Some (False, it)" using itf i by (simp add: pb_field_iter_next_def)
    then have "pb_field_iter_find it tg = Some (False, it)"
      using itf 2 unfolding pb_field_iter_find_def by (subst find_loop.simps) (auto simp: matches_def)
    then show ?thesis using assms(2) by blast
  next
    case go
    then have i: "i < length (msg_fields fs)"
      using assms(2) by (cases "msg_fields fs") (auto simp: at_field_def iter_stops_def)
    have "it_field (iter_at fs dest i) = it_field it"
      using itf i pb_fields_length [OF assms(1)] by (simp add: it_field_at)
    then have "pb_field_iter_find it tg = pb_field_iter_find (iter_at fs dest i) tg"
      unfolding pb_field_iter_find_def pos iter_at_sel using at_field_next [OF assms go(2)] itf go(1)
      by (intro find_loop_step) simp_all
    moreover have "j mod length (msg_fields fs) < iter_stops fs" for j
    proof -
      have "j mod length (msg_fields fs) < length (msg_fields fs)" by (rule mod_less_divisor) (use i in linarith)
      then show ?thesis by (simp add: iter_stops_def)
    qed
    then have "at_field fs dest (iter_at fs dest (j mod length (msg_fields fs))) (j mod length (msg_fields fs))" for j
      by (rule at_field_iter_at)
    moreover have "at_field fs dest (iter_at fs dest i) i" using assms(2) by (simp add: at_field_def)
    ultimately show ?thesis
      using pb_field_iter_find_at [OF assms(1) refl i, of tg dest] by (auto split: if_splits)
  qed
qed

text \<open>A message type without an extension field: the search returns where it started.\<close>

lemma ext_find_at:
  assumes "pb_fields fs" "n = length (msg_fields fs)" "i < n" "k < n"
    "\<And>j. j < n \<Longrightarrow> PB_LTYPE (type (fs ! j)) \<noteq> PB_LTYPE_EXTENSION"
  shows "ext_find_loop i (iter_at fs dest ((i + k) mod n)) = Some (False, iter_at fs dest i)"
  using assms(4)
proof (induction "n - k" arbitrary: k)
  case (Suc d)
  let ?p = "(i + k) mod n"
  have p: "?p < n" using assms(3) by simp
  then have f: "it_field (iter_at fs dest ?p) = Some (fs ! ?p)"
    using assms(1,2) pb_fields_length [of fs] by (simp add: it_field_at)
  have nxt: "pb_field_iter_next (iter_at fs dest ?p) = Some (Suc ?p < n, iter_at fs dest ((i + Suc k) mod n))"
    using iter_next_at [OF assms(1), of ?p dest] p assms(2) by (simp add: mod_Suc)
  show ?case
  proof (cases "Suc k < n")
    case True
    have "(i + Suc k) mod n \<noteq> i"
    proof (cases "i + Suc k < n")
      case ge: False
      then have "(i + Suc k) mod n = i + Suc k - n" using assms(3) True by (simp add: mod_if)
      then show ?thesis using True ge by simp
    qed simp
    then show ?thesis using f nxt assms(5) [OF p] Suc.hyps(1) [of "Suc k"] Suc.hyps(2) True
      by (subst ext_find_loop.simps) (simp del: iter_at.simps)
  next
    case False
    then have "Suc k = n" using Suc.prems by simp
    then have "(i + Suc k) mod n = i" using assms(3) by simp
    then show ?thesis using f nxt assms(5) [OF p] by (subst ext_find_loop.simps) (simp del: iter_at.simps)
  qed
qed simp

lemma find_extension_at_field:
  assumes "static_msg (Suc d) env m fs sz" "at_field fs dest it i"
  shows "\<exists>it'. find_extension_field it = Some (False, it') \<and> at_field fs dest it' i"
proof -
  have fs: "pb_fields fs" using assms(1) by simp
  have ne: "PB_LTYPE (type (fs ! j)) \<noteq> PB_LTYPE_EXTENSION" if "j < iter_stops fs" for j
    using assms(1) that by (simp add: static_field_def)
  have i: "i < iter_stops fs" using assms(2) by (simp add: at_field_def)
  have itf: "it_field it = Some (fs ! i)" by (rule at_field_it_field [OF fs assms(2)])
  have pos: "it_pos it = i" using at_field_pos [OF assms(2)] by simp
  show ?thesis
  proof (cases "msg_fields fs = []")
    case True
    then have "i = 0" using i by (simp add: iter_stops_def)
    moreover have "tag (fs ! 0) = 0" using True pb_fields_nth(2) [OF fs] by simp
    ultimately have "pb_field_iter_next it = Some (False, it)" using itf by (simp add: pb_field_iter_next_def)
    then have "find_extension_field it = Some (False, it)"
      using itf ne [OF i] unfolding find_extension_field_def by (subst ext_find_loop.simps) simp
    then show ?thesis using assms(2) by blast
  next
    case False
    then have n: "i < length (msg_fields fs)" using i by (cases "msg_fields fs") (auto simp: iter_stops_def)
    have "it_field (iter_at fs dest i) = it_field it"
      using itf n pb_fields_length [OF fs] by (simp add: it_field_at)
    then have "find_extension_field it = find_extension_field (iter_at fs dest i)"
      unfolding find_extension_field_def pos iter_at_sel using at_field_next [OF fs assms(2) False] itf ne [OF i]
      by (subst (1 2) ext_find_loop.simps) simp
    also have "\<dots> = Some (False, iter_at fs dest i)"
      using ext_find_at [OF fs refl n, of 0 dest] n ne False
      by (simp add: find_extension_field_def iter_stops_def del: iter_at.simps)
    finally show ?thesis using at_field_iter_at [OF i] by blast
  qed
qed

section \<open>Fields, the message loop and the final checks\<close>

context static_decoder
begin

lemma release_union_safe:
  assumes sm: "static_msg (Suc d) env (d_mem st) fs sz" and "Suc d \<le> D"
    and at: "at_field fs dest it i" and lv: "live dest sz (d_mem st)" and rm: "room L (d_stream st)"
    and one: "PB_HTYPE (type (fs ! i)) = PB_HTYPE_ONEOF"
  shows "wp (pb_release_union_field D env st it)
    (\<lambda>it' st'. (\<exists>j. at_field fs dest it' j) \<and> st' = st) (dec_rel room L dest sz st)"
proof -
  have fs: "pb_fields fs" using sm by simp
  have i: "i < iter_stops fs" "it = iter_at fs dest i"
    using at at_field_cases [OF at] one by (auto simp: at_field_def pb_htype_defs)
  have sf: "static_field env (d_mem st) (static_msg d env (d_mem st)) (fs ! i) (pData it - dest)
      (pSize (iter_at fs dest i) - dest) sz" by (rule static_msg_at(2) [OF sm at])
  obtain old where old: "load32 (d_mem st) (pSize it) = Some old"
    using live_load32 [OF lv, of "pSize it"] sf one i(2) by (auto simp: static_field_def)
  have err: "wp (dec_error st msg :: (pb_field_iter_t, 'u dec_state) outcome) Q (dec_rel room L dest sz st)" for msg Q
    using rm by (simp add: on_stream_def PB_RETURN_ERROR_def dec_rel_def set_error_room)
  show ?thesis
  proof (cases "old = 0 \<or> old = tag (fs ! i)")
    case True
    then show ?thesis using old static_msg_at(1) [OF sm at] at
      by (auto simp: pb_release_union_field_def Let_def)
  next
    case False
    obtain b it1 j where f1: "pb_field_iter_find it old = Some (b, it1)" "at_field fs dest it1 j"
      "it1 = it \<or> it1 = iter_at fs dest j" using find_at_field [OF fs at] by blast
    obtain b2 it2 j2 where f2: "pb_field_iter_find it1 (tag (fs ! i)) = Some (b2, it2)" "at_field fs dest it2 j2"
      using find_at_field [OF fs f1(2)] by blast
    have "\<exists>k < iter_stops fs. it1 = iter_at fs dest k" using f1(2,3) i by (auto simp: at_field_def)
    then have rel: "pb_release_single_field D env it1 (d_mem st) = Some (d_mem st)"
      using pb_release_single_field_id [OF sm assms(2) lv] by blast
    show ?thesis using False old f1(1) f2 static_msg_at(1) [OF sm at] rel err
      by (auto simp: pb_release_union_field_def Let_def on_mem_def)
  qed
qed

end

text \<open>A call that also leaves an iterator on a field of the message.\<close>

definition iter_safe ::
  "(nat \<Rightarrow> 'u pb_istream_t \<Rightarrow> bool) \<Rightarrow> nat \<Rightarrow> pb_field_t list \<Rightarrow> addr \<Rightarrow> int \<Rightarrow> ('a \<Rightarrow> pb_field_iter_t) \<Rightarrow>
   'u dec_state \<Rightarrow> ('a, 'u dec_state) outcome \<Rightarrow> bool" where
  "iter_safe room L fs dest sz iter st r \<longleftrightarrow>
     wp r (\<lambda>a st'. (\<exists>j. at_field fs dest (iter a) j) \<and> dec_rel room L dest sz st st') (dec_rel room L dest sz st)"

lemma iter_safe_simps [simp]:
  "iter_safe room L fs dest sz iter st (Ok a st') \<longleftrightarrow>
     (\<exists>j. at_field fs dest (iter a) j) \<and> dec_rel room L dest sz st st'"
  "iter_safe room L fs dest sz iter st (Fail st') \<longleftrightarrow> dec_rel room L dest sz st st'"
  "\<not> iter_safe room L fs dest sz iter st Stuck"
  by (simp_all add: iter_safe_def)

lemma iter_safe_trans:
  "dec_rel room L dest sz st st' \<Longrightarrow> iter_safe room L fs dest sz iter st' r \<Longrightarrow> iter_safe room L fs dest sz iter st r"
  by (cases r) (auto intro: dec_rel_trans)

lemma dec_safe_iter:
  "dec_safe room L dest sz st r \<Longrightarrow> (\<And>a st'. at_field fs dest (iter (g a st')) j) \<Longrightarrow>
     iter_safe room L fs dest sz iter st (c_then r (\<lambda>a st. Ok (g a st) st))"
  by (cases r) auto

context static_decoder
begin

lemma decode_field_safe:
  assumes ns: "noinit_safe d env room noinit" and sm: "static_msg (Suc d) env (d_mem st) fs sz"
    and at: "at_field fs dest it i" and lv: "live dest sz (d_mem st)" and rm: "room L (d_stream st)"
  shows "iter_safe room L fs dest sz (\<lambda>it. it) st (decode_field (Suc d) env noinit st wire_type it)"
proof -
  let ?u = "if PB_HTYPE (type (fs ! i)) = PB_HTYPE_ONEOF then pb_release_union_field (Suc d) env st it else Ok it st"
  have "wp ?u (\<lambda>it' st'. (\<exists>j. at_field fs dest it' j) \<and> st' = st) (dec_rel room L dest sz st)"
    using release_union_safe [OF sm order_refl at lv rm] at by auto
  then consider (ok) it' j where "?u = Ok it' st" "at_field fs dest it' j"
    | (err) st' where "?u = Fail st'" "dec_rel room L dest sz st st'" by (cases ?u) auto
  then show ?thesis
  proof cases
    case (ok it' j)
    have itf: "it_field it' = Some (fs ! j)" and st: "PB_ATYPE (type (fs ! j)) = PB_ATYPE_STATIC"
      using static_msg_at [OF sm ok(2)] by (simp_all add: static_field_def)
    have "dec_safe room L dest sz st (decode_static_field (Suc d) env noinit st wire_type it')"
      using decode_static_field_safe [OF ns _ sm ok(2) lv rm] by simp
    from dec_safe_iter [OF this, of fs "\<lambda>it. it" "\<lambda>_ _. it'" j] ok(2)
    show ?thesis unfolding decode_field_def using static_msg_at(1) [OF sm at] ok(1) itf st by simp
  next
    case err
    then show ?thesis unfolding decode_field_def using static_msg_at(1) [OF sm at] by simp
  qed
qed

lemma decode_known_safe:
  assumes ns: "noinit_safe d env room noinit" and sm: "static_msg (Suc d) env (d_mem st) fs sz"
    and at: "at_field fs dest (v_iter v) i" and lv: "live dest sz (d_mem st)" and rm: "room L (d_stream st)"
  shows "iter_safe room L fs dest sz v_iter st (decode_known (Suc d) env noinit v st wire_type)"
proof -
  define fixed where "fixed = (PB_HTYPE (type (fs ! i)) = PB_HTYPE_REPEATED \<and> pSize (v_iter v) = pData (v_iter v))"
  define it where "it = (if fixed then (v_iter v)\<lparr>pSize := FIXED_COUNT\<rparr> else v_iter v)"
  have at': "at_field fs dest it i"
  proof (cases fixed)
    case True
    have "(v_iter v)\<lparr>pSize := FIXED_COUNT\<rparr> = (iter_at fs dest i)\<lparr>pSize := FIXED_COUNT\<rparr>"
      using at_field_cases [OF at] by auto
    then show ?thesis using True at by (simp add: it_def fixed_def at_field_def)
  qed (use at in \<open>simp add: it_def\<close>)
  have step: "iter_safe room L fs dest sz v_iter st
      (c_then (decode_field (Suc d) env noinit st' wire_type it) (\<lambda>it st. Ok (v'\<lparr>v_iter := it\<rparr>) st))"
    if "st' = st \<or> st' = st\<lparr>d_count := 0\<rparr>" for st' v'
  proof -
    have "dec_rel room L dest sz st st'" using that rm by (auto simp: dec_rel_def)
    moreover have "iter_safe room L fs dest sz (\<lambda>it. it) st' (decode_field (Suc d) env noinit st' wire_type it)"
      using that sm lv rm by (intro decode_field_safe [OF ns _ at']) auto
    then have "iter_safe room L fs dest sz v_iter st'
      (c_then (decode_field (Suc d) env noinit st' wire_type it) (\<lambda>it st. Ok (v'\<lparr>v_iter := it\<rparr>) st))"
      by (cases "decode_field (Suc d) env noinit st' wire_type it") auto
    ultimately show ?thesis by (rule iter_safe_trans)
  qed
  have err: "iter_safe room L fs dest sz v_iter st (dec_error st msg)" for msg
    using rm by (simp add: on_stream_def PB_RETURN_ERROR_def dec_rel_def set_error_room)
  show ?thesis unfolding decode_known_def static_msg_at(1) [OF sm at] access_simps Let_def
    fixed_def [symmetric] it_def [symmetric]
    using step err by (auto split: if_split)
qed

lemma decode_unknown_safe:
  assumes sm: "static_msg (Suc d) env (d_mem st) fs sz"
    and at: "at_field fs dest (v_iter v) i" and rm: "room L (d_stream st)" and tg: "tg < - 1"
  shows "iter_safe room L fs dest sz v_iter st (decode_unknown D env noinit v st tg wire_type)"
proof -
  obtain it' where it': "find_extension_field (v_iter v) = Some (False, it')" "at_field fs dest it' i"
    using find_extension_at_field [OF sm at] by blast
  have "dec_safe room L dest sz st (on_stream (\<lambda>s. pb_skip_field (d_rd env) s wire_type) st)"
    by (rule wire_safe(3) [OF rm])
  then have skip: "iter_safe room L fs dest sz v_iter st
      (c_then (on_stream (\<lambda>s. pb_skip_field (d_rd env) s wire_type) st) (\<lambda>_ st. Ok v' st))"
    if "at_field fs dest (v_iter v') i" for v' using that by (intro dec_safe_iter)
  show ?thesis using skip it' at tg by (auto simp: decode_unknown_def Let_def)
qed

end

lemma decoded_tag_small:
  assumes "pb_decode_tag rd s = Ok (wt, tg) s'"
  shows "tg < - 1"
proof -
  obtain t where t: "tg = drop_bit 3 (t :: u32)"
    using assms by (auto simp: pb_decode_tag_def outcome_iffs split: prod.splits if_splits)
  have "unat (drop_bit 3 t) = unat t div 8" by (simp add: drop_bit_eq_div unat_div)
  also have "\<dots> < 4294967295" using unat_less_numeral(2) [of t] by linarith
  finally show ?thesis unfolding t word_less_nat_alt by (simp add: unsigned_minus_1_eq_mask mask_eq_exp_minus_1)
qed

context static_decoder
begin

lemma noinit_loop_safe:
  assumes ns: "noinit_safe d env room noinit"
  shows "static_msg (Suc d) env (d_mem st) fs sz \<Longrightarrow> at_field fs dest (v_iter v) i \<Longrightarrow> live dest sz (d_mem st) \<Longrightarrow>
    room L (d_stream st) \<Longrightarrow> unat (bytes_left (d_stream st)) \<le> n \<Longrightarrow>
    iter_safe room L fs dest sz v_iter st (noinit_loop n (Suc d) env noinit v st)"
proof (induction n arbitrary: st v i)
  case 0
  then have "bytes_left (d_stream st) = 0" by (simp add: unat_eq_zero)
  then show ?case using 0 by (auto simp: dec_rel_def)
next
  case (Suc n)
  note eats = decode_tag_eats [OF Suc.prems(4)]
  have fs: "pb_fields fs" using Suc.prems(1) by simp
  show ?case
  proof (cases "pb_decode_tag (d_rd env) (d_stream st)")
    case (Ok wt_tg se)
    obtain wt tg where wt: "wt_tg = (wt, tg)" by (cases wt_tg)
    obtain s eof where se: "se = (s, eof)" by (cases se)
    let ?st = "st\<lparr>d_stream := s\<rparr>"
    have s: "room L s" "bytes_left s < bytes_left (d_stream st)" using eats Ok by (simp_all add: se)
    then have r0: "dec_rel room L dest sz st ?st" by (simp add: dec_rel_def)
    have small: "tg < - 1" using decoded_tag_small Ok wt by metis
    obtain b it' j where it': "pb_field_iter_find (v_iter v) tg = Some (b, it')" "at_field fs dest it' j"
      using find_at_field [OF fs Suc.prems(2)] by blast
    let ?v = "v\<lparr>v_iter := it'\<rparr>"
    let ?k = "if b then decode_known (Suc d) env noinit ?v ?st wt else decode_unknown (Suc d) env noinit ?v ?st tg wt"
    have k: "iter_safe room L fs dest sz v_iter ?st ?k"
      using decode_known_safe [OF ns, of ?st fs sz dest ?v j L wt] decode_unknown_safe [of d ?st fs sz dest ?v j L tg "Suc d" noinit wt]
        Suc.prems s(1) it'(2) small by simp
    have "iter_safe room L fs dest sz v_iter ?st (c_then ?k (\<lambda>v st. noinit_loop n (Suc d) env noinit v st))"
    proof (cases ?k)
      case (Ok v' st')
      with k obtain j' where r: "at_field fs dest (v_iter v') j'" "dec_rel room L dest sz ?st st'" by auto
      have "bytes_left (d_stream st') \<le> bytes_left s" using r(2) by (simp add: dec_rel_def)
      then have "unat (bytes_left (d_stream st')) \<le> n" using s(2) Suc.prems(5) by (simp add: word_le_nat_alt word_less_nat_alt)
      moreover have "static_msg (Suc d) env (d_mem st') fs sz" "live dest sz (d_mem st')"
        using dec_rel_static [OF r(2), of "Suc d" env] dec_rel_live [OF r(2), of dest sz] Suc.prems(1,3)
        by (simp_all del: static_msg.simps)
      moreover have "room L (d_stream st')" using r(2) by (simp add: dec_rel_def)
      ultimately have "iter_safe room L fs dest sz v_iter st' (noinit_loop n (Suc d) env noinit v' st')"
        using Suc.IH r(1) by blast
      from iter_safe_trans [OF r(2) this] show ?thesis using Ok by simp
    qed (use k in auto)
    from iter_safe_trans [OF r0 this] show ?thesis using Ok it'(1) wt se s(2)
      by (auto simp: dec_rel_def Let_def)
  qed (use eats Suc.prems in \<open>auto simp: dec_rel_def split: prod.splits\<close>)
qed

end

text \<open>The walk to the end that counts the required fields.\<close>

lemma seek_end_at:
  assumes "pb_fields fs" "at_field fs dest it i"
  shows "\<exists>req ty it' j. seek_end it = Some (req, ty, it') \<and> at_field fs dest it' j"
proof (cases "msg_fields fs = []")
  case True
  then have i: "i = 0" using assms(2) by (simp add: at_field_def iter_stops_def)
  have t: "tag (fs ! 0) = 0" using True pb_fields_nth(2) [OF assms(1)] by simp
  then have "pb_field_iter_next it = Some (False, it)"
    using at_field_it_field [OF assms] i by (simp add: pb_field_iter_next_def)
  then show ?thesis using at_field_it_field [OF assms] assms(2) by (subst seek_end.simps) auto
next
  case False
  let ?n = "length (msg_fields fs)"
  have walk: "\<exists>req ty. seek_end (iter_at fs dest k) = Some (req, ty, iter_at fs dest 0)" if "k < ?n" for k
    using that
  proof (induction "?n - k" arbitrary: k)
    case (Suc m)
    have "it_field (iter_at fs dest k) = Some (fs ! k)"
      using Suc.prems pb_fields_length [OF assms(1)] by (simp add: it_field_at)
    then show ?case using iter_next_at [OF assms(1) Suc.prems, of dest] Suc.hyps(1) [of "Suc k"] Suc.hyps(2)
      by (subst seek_end.simps) (auto simp del: iter_at.simps)
  qed simp
  have i: "i < ?n" using assms(2) False by (cases "msg_fields fs") (auto simp: at_field_def iter_stops_def)
  have "at_field fs dest (iter_at fs dest 0) 0" by (rule at_field_iter_at) (simp add: iter_stops_def)
  then show ?thesis
    using at_field_it_field [OF assms] at_field_next [OF assms False] iter_next_at [OF assms(1) i, of dest] walk [of "Suc i"]
    by (subst seek_end.simps) (auto simp del: iter_at.simps split: if_splits)
qed

lemma req_field_count_total:
  assumes "pb_fields fs" "at_field fs dest it i"
  shows "\<exists>req. req_field_count it = Some req"
  using seek_end_at [OF assms] at_field_it_field [OF assms(1)]
  by (fastforce simp: req_field_count_def Let_def)

context static_decoder
begin

lemma decode_noinit_safe:
  assumes ns: "noinit_safe d env room noinit" and sm: "static_msg (Suc d) env (d_mem st) fs sz"
    and lv: "live dest sz (d_mem st)" and rm: "room L (d_stream st)"
  shows "dec_safe room L dest sz st (decode_noinit (Suc d) env noinit st fs dest)"
proof -
  have fs: "pb_fields fs" using sm by simp
  have at: "at_field fs dest (iter_at fs dest 0) 0" by (rule at_field_iter_at) (simp add: iter_stops_def)
  let ?st = "st\<lparr>d_count := 0\<rparr>"
  let ?v = "\<lparr>fields_seen = [0, 0], extension_range_start = 0, v_iter = iter_at fs dest 0, fixed_count_field = None\<rparr>"
  let ?l = "noinit_loop (unat (bytes_left (d_stream st))) (Suc d) env noinit ?v ?st"
  have l: "iter_safe room L fs dest sz v_iter ?st ?l"
    using noinit_loop_safe [OF ns, of ?st fs sz dest ?v 0 L] sm lv rm at by (simp del: static_msg.simps)
  let ?k = "\<lambda>v st. if \<not> fixed_count_done v st then dec_error st ''wrong size for fixed count field''
          else access (req_field_count (v_iter v)) (\<lambda>req.
            if \<not> required_seen (fields_seen v) req then dec_error st ''missing required field'' else Ok () st)"
  have "dec_safe room L dest sz ?st (c_then ?l ?k)"
  proof (cases ?l)
    case (Ok v st')
    with l obtain j where r: "at_field fs dest (v_iter v) j" "dec_rel room L dest sz ?st st'" by auto
    obtain req where "req_field_count (v_iter v) = Some req" using req_field_count_total [OF fs r(1)] by blast
    moreover have rm': "room L (d_stream st')" using r(2) by (simp add: dec_rel_def)
    then have "dec_safe room L dest sz st' (dec_error st' msg :: (unit, 'u dec_state) outcome)" for msg
      by (rule dec_error_safe)
    ultimately have "dec_safe room L dest sz st' (?k v st')" using rm' by (simp add: dec_rel_def)
    from dec_safe_trans [OF r(2) this] show ?thesis using Ok by simp
  qed (use l in auto)
  then have "dec_safe room L dest sz st (on_state (\<lambda>st'. st'\<lparr>d_count := d_count st\<rparr>) (c_then ?l ?k))"
    by (cases "c_then ?l ?k") (auto simp: dec_rel_def)
  then show ?thesis using iter_begin_at [OF fs, of dest] by (simp add: decode_noinit_def del: iter_at.simps)
qed

lemma pb_decode_noinit_safe: "noinit_safe d env room (pb_decode_noinit d env)"
proof (induction d)
  case (Suc d)
  from decode_noinit_safe [OF this] show ?case
    by (subst noinit_safe_def) (simp del: static_msg.simps)
qed (simp add: noinit_safe_def)

lemma pb_decode_safe:
  assumes "static_msg d env (d_mem st) fs sz" "live dest sz (d_mem st)" "room L (d_stream st)"
  shows "dec_safe room L dest sz st (pb_decode d env st fs dest)"
    "dec_safe room L dest sz st (pb_decode_noinit d env st fs dest)"
    "dec_safe room L dest sz st (pb_decode_delimited d env st fs dest)"
proof -
  show "dec_safe room L dest sz st (pb_decode d env st fs dest)"
    unfolding pb_decode_def by (rule decode_init_safe [OF pb_decode_noinit_safe assms(1) order_refl assms(2,3)])
  show "dec_safe room L dest sz st (pb_decode_noinit d env st fs dest)"
    using noinit_safeD [OF pb_decode_noinit_safe assms] .
  show "dec_safe room L dest sz st (pb_decode_delimited d env st fs dest)"
    unfolding pb_decode_delimited_def
  proof (rule open_substream_safe [OF assms(3)])
    fix sub and st' :: "'u dec_state"
    assume p: "room L (d_stream st')" and s: "room (L + unat (bytes_left (d_stream st'))) sub" and m: "d_mem st' = d_mem st"
    have "dec_safe room (L + unat (bytes_left (d_stream st'))) dest sz (st'\<lparr>d_stream := sub\<rparr>)
        (pb_decode d env (st'\<lparr>d_stream := sub\<rparr>) fs dest)"
      unfolding pb_decode_def
      by (rule decode_init_safe [OF pb_decode_noinit_safe _ order_refl]) (use assms s m in simp_all)
    from closing_safe [OF p this] show "dec_safe room L dest sz st'
        (closing env (d_stream st') (pb_decode d env (st'\<lparr>d_stream := sub\<rparr>) fs dest))" by simp
  qed
qed

end

interpretation buf_static: static_decoder env buf_room
  by unfold_locales

lemma user_static: "reads_exactly (d_rd env) \<Longrightarrow> static_decoder env user_room"
  unfolding static_decoder_def by (rule safe_user)

end
