(* ===== verification/Pb_Decode_Props.thy ===== *)
theory Pb_Decode_Props
  imports Pb_Decode_Total Pb_Wire
begin

unbundle bit_operations_syntax

text \<open>
  The properties of the message decoder: safety on every input, the range checks of the integer
  decoders, the size checks of the allocating decoders, the required-field check and the release
  of callback fields.
\<close>

section \<open>Safety on every input\<close>

text \<open>A small message type for the examples: a required \<open>uint32\<close>, an optional
  \<open>sint32\<close> with its \<open>has_\<close> member and a static array of at most two
  \<open>uint32\<close>.\<close>

definition ex_fields :: "pb_field_t list" where
  "ex_fields =
     [\<lparr>tag = 1, type = 0x01, data_offset = 0, size_offset = 0, data_size = 4, array_size = 0, ptr = NULL\<rparr>,
      \<lparr>tag = 2, type = 0x12, data_offset = 4, size_offset = - 4, data_size = 4, array_size = 0, ptr = NULL\<rparr>,
      \<lparr>tag = 3, type = 0x21, data_offset = 4, size_offset = - 4, data_size = 4, array_size = 2, ptr = NULL\<rparr>,
      PB_LAST_FIELD]"

definition ex_mem :: c_mem where
  "ex_mem = \<lparr>cells = (\<lambda>x. if 100 \<le> x \<and> x < 124 then Some 0xAA else None), blocks = Map.empty\<rparr>"

definition ex_env :: "unit dec_env" where
  "ex_env = \<lparr>d_rd = (\<lambda>u n. Read_err u), d_fields = (\<lambda>p. None), d_malloc = (\<lambda>m n. None),
     d_garbage = (\<lambda>x. 0), d_decode_cb = (\<lambda>p sm f a. Stuck), d_ext_decode = (\<lambda>p sm e t w. Stuck), d_fuel = 0\<rparr>"

definition ex_state :: "u8 list \<Rightarrow> unit dec_state" where
  "ex_state bs = \<lparr>d_stream = pb_istream_from_buffer bs (of_nat (length bs)), d_mem = ex_mem, d_count = 0\<rparr>"

text \<open>C3: memory safety and termination of the decoder on every input. Take any message type of
  statically allocated fields nested at most \<open>d\<close> deep, any destination struct that exists,
  and any input at all: an arbitrary memory buffer, or a custom stream whose callback delivers as
  many bytes as it is asked for whenever it returns true. Then \<open>pb_decode\<close> returns true or
  false; it never reads past the input, never touches a byte outside the struct, keeps every object
  of memory alive, and never moves the stream backwards.\<close>

theorem pb_decode_memory_safe:
  assumes "static_msg d env (d_mem st) fs sz" "live dest sz (d_mem st)"
    and "buf_room 0 (d_stream st) \<or> user_room 0 (d_stream st) \<and> reads_exactly (d_rd env)"
  shows "\<exists>st'. (pb_decode d env st fs dest = Ok () st' \<or> pb_decode d env st fs dest = Fail st') \<and>
    frame dest sz (d_mem st) (d_mem st') \<and> bytes_left (d_stream st') \<le> bytes_left (d_stream st)"
proof -
  have "\<exists>room. dec_safe room 0 dest sz st (pb_decode d env st fs dest)"
    using assms(3) buf_static.pb_decode_safe(1) [OF assms(1,2)]
      static_decoder.pb_decode_safe(1) [OF user_static assms(1,2)] by blast
  then obtain room where "dec_safe room 0 dest sz st (pb_decode d env st fs dest)" ..
  then show ?thesis by (cases "pb_decode d env st fs dest") (auto simp: dec_rel_def)
qed

lemma ex_static: "static_msg 1 ex_env ex_mem ex_fields 24"
proof -
  have i: "i < iter_stops ex_fields \<Longrightarrow> i = 0 \<or> i = Suc 0 \<or> i = Suc (Suc 0)" for i
    by (auto simp: iter_stops_def msg_fields_def ex_fields_def)
  have s: "sint (- 4 :: u32) = - 4" "sint (0 :: u32) = 0" by simp_all
  have "static_field ex_env ex_mem sub (ex_fields ! i) (pData (iter_at ex_fields 0 i)) (pSize (iter_at ex_fields 0 i)) 24"
    if "i < iter_stops ex_fields" for sub i
    using i [OF that]
    by (elim disjE) (simp_all add: ex_fields_def static_field_def extent_def pb_type_defs
      union_step_def prev_size_def s Let_def)
  moreover have "pb_fields ex_fields" "last ex_fields = PB_LAST_FIELD"
    by (simp_all add: pb_fields_def ex_fields_def PB_LAST_FIELD_def)
  ultimately show ?thesis by (simp only: One_nat_def static_msg.simps) simp
qed

lemma ex_live: "live 100 24 ex_mem"
  by (auto simp: live_def mapped_def ex_mem_def)

theorem pb_decode_memory_safe_witness:
  "\<exists>st'. (pb_decode 1 ex_env (ex_state [8, 150, 1, 26, 3, 255]) ex_fields 100 = Ok () st' \<or>
      pb_decode 1 ex_env (ex_state [8, 150, 1, 26, 3, 255]) ex_fields 100 = Fail st') \<and>
    frame 100 24 ex_mem (d_mem st') \<and> bytes_left (d_stream st') \<le> 6"
proof -
  have "buf_room 0 (d_stream (ex_state [8, 150, 1, 26, 3, 255]))"
    by (simp add: ex_state_def buf_room_def pb_istream_from_buffer_def)
  with pb_decode_memory_safe [of 1 ex_env "ex_state [8, 150, 1, 26, 3, 255]" ex_fields 24 100] ex_static ex_live
  show ?thesis by (simp add: ex_state_def pb_istream_from_buffer_def del: static_msg.simps One_nat_def)
qed

section \<open>Range checks of the integer decoders\<close>

lemma le_bytes_mod: "le_bytes k (v mod 256 ^ k) = le_bytes k v"
  using le_bytes_value [of "le_bytes k v"] by (simp add: le_value_bytes)

lemma ucast_clamped:
  assumes "LENGTH('a::len) \<le> 64"
  shows "(ucast (ucast (v :: u64) :: 'a word) :: u64) = v \<longleftrightarrow> unat v < 2 ^ LENGTH('a)"
    "unat (ucast v :: 'a word) = unat v mod 2 ^ LENGTH('a)"
proof -
  show u: "unat (ucast v :: 'a word) = unat v mod 2 ^ LENGTH('a)"
    by (simp add: unsigned_ucast_eq take_bit_eq_mod)
  have "unat (ucast (ucast v :: 'a word) :: u64) = unat v mod 2 ^ LENGTH('a)"
  proof -
    have "unat v mod 2 ^ LENGTH('a) < 2 ^ LENGTH('a)" by simp
    also have "(2::nat) ^ LENGTH('a) \<le> 2 ^ 64" using assms by (intro power_increasing) simp_all
    finally have "unat (ucast v :: 'a word) < 2 ^ 64" unfolding u .
    then have "take_bit LENGTH(64) (unat (ucast v :: 'a word)) = unat (ucast v :: 'a word)"
      by (intro take_bit_nat_eq_self) simp
    then show ?thesis unfolding u [symmetric] unsigned_ucast_eq [where 'c = 64] .
  qed
  then show "(ucast (ucast v :: 'a word) :: u64) = v \<longleftrightarrow> unat v < 2 ^ LENGTH('a)"
    unfolding word_unat_eq_iff [of "ucast _"] by (metis mod_less mod_less_divisor zero_less_numeral zero_less_power)
qed

lemma scast_clamped:
  assumes "LENGTH('a::len) \<le> 64"
  shows "(scast (ucast (v :: u64) :: 'a word) :: u64) = v \<longleftrightarrow>
    - (2 ^ (LENGTH('a) - 1)) \<le> sint v \<and> sint v < 2 ^ (LENGTH('a) - 1)"
proof -
  let ?n = "LENGTH('a) - Suc 0"
  have n: "?n < 64" using assms len_gt_0 [where 'a = 'a] by linarith
  have "uint v = take_bit 64 (sint v)" using uint_sint [of v] by simp
  then have "sint (ucast v :: 'a word) = signed_take_bit ?n (sint v)"
    unfolding signed_ucast_eq using n by (simp only: signed_take_bit_take_bit) simp
  then have "sint (scast (ucast v :: 'a word) :: u64) = signed_take_bit (min 63 ?n) (sint v)"
    unfolding signed_scast_eq by simp
  also have "min 63 ?n = ?n" using n by simp
  finally have "(scast (ucast v :: 'a word) :: u64) = v \<longleftrightarrow> signed_take_bit ?n (sint v) = sint v"
    by (metis signed_word_eqI)
  then show ?thesis by (simp add: signed_take_bit_int_eq_self_iff)
qed

text \<open>Storing a clamped number on memory that exists.\<close>

lemma store_clamped_eq:
  assumes "mapped (d_mem st) dest k" "unat stored = w mod 2 ^ (8 * k)"
  shows "\<exists>m'. store_bytes (d_mem st) dest (le_bytes k w) = Some m' \<and>
    store_clamped st dest k stored clamped v =
      (if clamped = v then Ok () (st\<lparr>d_mem := m'\<rparr>)
       else Fail (st\<lparr>d_mem := m', d_stream := PB_SET_ERROR (d_stream st) ''integer too large''\<rparr>))"
proof -
  have "(256 :: nat) ^ k = 2 ^ (8 * k)" by (simp add: power_mult)
  then have "le_bytes k (unat stored) = le_bytes k w" using le_bytes_mod [of k w] assms(2) by simp
  moreover obtain m' where "store_bytes (d_mem st) dest (le_bytes k w) = Some m'"
    using store_bytes_defined [of "d_mem st" dest "le_bytes k w"] assms(1) by auto
  ultimately show ?thesis
    by (auto simp: store_clamped_def on_mem_def store_word_def on_stream_def PB_RETURN_ERROR_def)
qed

lemma store_uint_eq:
  assumes "data_size f = of_nat k" "k \<in> {1, 2, 4, 8}" "mapped (d_mem st) dest k"
  shows "\<exists>m'. store_bytes (d_mem st) dest (le_bytes k (unat v)) = Some m' \<and>
    (if data_size f = 8 then store_clamped st dest 8 v v v
     else if data_size f = 4 then store_clamped st dest 4 (ucast v :: u32) (ucast (ucast v :: u32)) v
     else if data_size f = 2 then store_clamped st dest 2 (ucast v :: u16) (ucast (ucast v :: u16)) v
     else if data_size f = 1 then store_clamped st dest 1 (ucast v :: u8) (ucast (ucast v :: u8)) v
     else dec_error st ''invalid data_size'') =
      (if unat v < 2 ^ (8 * k) then Ok () (st\<lparr>d_mem := m'\<rparr>)
       else Fail (st\<lparr>d_mem := m', d_stream := PB_SET_ERROR (d_stream st) ''integer too large''\<rparr>))"
proof -
  have v: "unat v = unat v mod 2 ^ (8 * 8)" by simp
  have c: "(ucast (ucast v :: u32) :: u64) = v \<longleftrightarrow> unat v < 2 ^ (8 * 4)"
    "(ucast (ucast v :: u16) :: u64) = v \<longleftrightarrow> unat v < 2 ^ (8 * 2)"
    "(ucast (ucast v :: u8) :: u64) = v \<longleftrightarrow> unat v < 2 ^ (8 * 1)"
    "unat (ucast v :: u32) = unat v mod 2 ^ (8 * 4)" "unat (ucast v :: u16) = unat v mod 2 ^ (8 * 2)"
    "unat (ucast v :: u8) = unat v mod 2 ^ (8 * 1)"
    using ucast_clamped(1) [where 'a = 32, of v] ucast_clamped(1) [where 'a = 16, of v] ucast_clamped(1) [where 'a = 8, of v]
      ucast_clamped(2) [where 'a = 32, of v] ucast_clamped(2) [where 'a = 16, of v] ucast_clamped(2) [where 'a = 8, of v]
    by simp_all
  consider "k = 8" | "k = 4" | "k = 2" | "k = 1" using assms(2) by auto
  then show ?thesis
  proof cases
    case 1
    show ?thesis using store_clamped_eq [OF _ v, of st dest v v] assms(1,3) by (simp add: 1)
  next
    case 2
    show ?thesis using store_clamped_eq [OF _ c(4), of st dest "ucast (ucast v :: u32)" v] assms(1,3) c(1)
      by (simp add: 2)
  next
    case 3
    show ?thesis using store_clamped_eq [OF _ c(5), of st dest "ucast (ucast v :: u16)" v] assms(1,3) c(2)
      by (simp add: 3)
  next
    case 4
    show ?thesis using store_clamped_eq [OF _ c(6), of st dest "ucast (ucast v :: u8)" v] assms(1,3) c(3)
      by (simp add: 4)
  qed
qed

lemma store_signed_eq:
  assumes "data_size f = of_nat k" "k \<in> {1, 2, 4, 8}" "mapped (d_mem st) dest k"
  shows "\<exists>m'. store_bytes (d_mem st) dest (le_bytes k (unat v)) = Some m' \<and>
    store_signed st f dest v =
      (if - (2 ^ (8 * k - 1)) \<le> sint v \<and> sint v < 2 ^ (8 * k - 1) then Ok () (st\<lparr>d_mem := m'\<rparr>)
       else Fail (st\<lparr>d_mem := m', d_stream := PB_SET_ERROR (d_stream st) ''integer too large''\<rparr>))"
proof -
  have v: "unat v = unat v mod 2 ^ (8 * 8)" by simp
  have full: "- (2 ^ 63) \<le> sint v \<and> sint v < 2 ^ 63" using sint_ge [of v] sint_lt [of v] by simp
  have c: "(scast (ucast v :: u32) :: u64) = v \<longleftrightarrow> - (2 ^ (8 * 4 - 1)) \<le> sint v \<and> sint v < 2 ^ (8 * 4 - 1)"
    "(scast (ucast v :: u16) :: u64) = v \<longleftrightarrow> - (2 ^ (8 * 2 - 1)) \<le> sint v \<and> sint v < 2 ^ (8 * 2 - 1)"
    "(scast (ucast v :: u8) :: u64) = v \<longleftrightarrow> - (2 ^ (8 * 1 - 1)) \<le> sint v \<and> sint v < 2 ^ (8 * 1 - 1)"
    "unat (ucast v :: u32) = unat v mod 2 ^ (8 * 4)" "unat (ucast v :: u16) = unat v mod 2 ^ (8 * 2)"
    "unat (ucast v :: u8) = unat v mod 2 ^ (8 * 1)"
    using scast_clamped [where 'a = 32, of v] scast_clamped [where 'a = 16, of v] scast_clamped [where 'a = 8, of v]
      ucast_clamped(2) [where 'a = 32, of v] ucast_clamped(2) [where 'a = 16, of v] ucast_clamped(2) [where 'a = 8, of v]
    by simp_all
  consider "k = 8" | "k = 4" | "k = 2" | "k = 1" using assms(2) by auto
  then show ?thesis
  proof cases
    case 1
    show ?thesis using store_clamped_eq [OF _ v, of st dest v v] assms(1,3) full by (simp add: 1 store_signed_def)
  next
    case 2
    show ?thesis using store_clamped_eq [OF _ c(4), of st dest "scast (ucast v :: u32)" v] assms(1,3) c(1)
      by (simp add: 2 store_signed_def)
  next
    case 3
    show ?thesis using store_clamped_eq [OF _ c(5), of st dest "scast (ucast v :: u16)" v] assms(1,3) c(2)
      by (simp add: 3 store_signed_def)
  next
    case 4
    show ?thesis using store_clamped_eq [OF _ c(6), of st dest "scast (ucast v :: u8)" v] assms(1,3) c(3)
      by (simp add: 4 store_signed_def)
  qed
qed

text \<open>The unsigned integer decoder accepts a number exactly when it fits the member. Reading the
  varint of \<open>n\<close> for a member of 1, 2, 4 or 8 bytes stores the low bytes of \<open>n\<close> in the
  member and leaves the stream right behind the varint; the call returns true if \<open>n\<close> fits
  and fails with \<open>integer too large\<close> otherwise.\<close>

theorem dec_uvarint_checks_range:
  assumes "data_size f = of_nat k" "k \<in> {1, 2, 4, 8}" "mapped (d_mem st) dest k" "n < 2 ^ 64"
    and "d_stream st = buf_istream (varint_bytes n @ D) (length (varint_bytes n) + K) None"
    and "length (varint_bytes n) + K < 2 ^ 64"
  shows "\<exists>m'. store_bytes (d_mem st) dest (le_bytes k n) = Some m' \<and>
       pb_dec_uvarint env st f dest =
         (if n < 2 ^ (8 * k) then Ok () (st\<lparr>d_mem := m', d_stream := buf_istream D K None\<rparr>)
          else Fail (st\<lparr>d_mem := m', d_stream := buf_istream D K (Some ''integer too large'')\<rparr>))"
proof -
  let ?st = "st\<lparr>d_stream := buf_istream D K None\<rparr>"
  have r: "on_stream (pb_decode_varint (d_rd env)) st = Ok (of_nat n) ?st"
    by (simp add: on_stream_def assms(5) pb_decode_varint_bytes_value [OF assms(4,6)])
  have u: "unat (of_nat n :: u64) = n" using assms(4) by (rule uint64_small)
  from store_uint_eq [OF assms(1,2), of ?st dest "of_nat n"] assms(3) obtain m' where
    m': "store_bytes (d_mem st) dest (le_bytes k n) = Some m'" and
    e: "pb_dec_uvarint env st f dest = (if n < 2 ^ (8 * k) then Ok () (?st\<lparr>d_mem := m'\<rparr>)
       else Fail (?st\<lparr>d_mem := m', d_stream := PB_SET_ERROR (d_stream ?st) ''integer too large''\<rparr>))"
    unfolding pb_dec_uvarint_def r c_then.simps u by auto
  from m' show ?thesis unfolding e by simp
qed

theorem dec_uvarint_checks_range_witness:
  "\<exists>m'. store_bytes ex_mem 100 (le_bytes 1 300) = Some m' \<and>
     pb_dec_uvarint ex_env ((ex_state [])\<lparr>d_stream := buf_istream (varint_bytes 300 @ []) (length (varint_bytes 300) + 0) None\<rparr>)
       (PB_LAST_FIELD\<lparr>data_size := 1\<rparr>) 100 =
       Fail ((ex_state [])\<lparr>d_mem := m', d_stream := buf_istream [] 0 (Some ''integer too large'')\<rparr>)"
  using dec_uvarint_checks_range [of "PB_LAST_FIELD\<lparr>data_size := 1\<rparr>" 1
      "(ex_state [])\<lparr>d_stream := buf_istream (varint_bytes 300 @ []) (length (varint_bytes 300) + 0) None\<rparr>" 100 300 "[]" 0 ex_env]
    varint_bytes_length_64 [of 300]
  by (simp add: ex_state_def ex_mem_def mapped_def)

text \<open>The zigzag integer decoder accepts a signed number exactly when it fits the member, and
  stores its two's complement bytes.\<close>

theorem dec_svarint_checks_range:
  assumes "data_size f = of_nat k" "k \<in> {1, 2, 4, 8}" "mapped (d_mem st) dest k" "- (2 ^ 63) \<le> i" "i < 2 ^ 63"
    and "d_stream st = buf_istream (varint_bytes (zigzag i) @ D) (length (varint_bytes (zigzag i)) + K) None"
    and "length (varint_bytes (zigzag i)) + K < 2 ^ 64"
  shows "\<exists>m'. store_bytes (d_mem st) dest (le_bytes k (nat (i mod 2 ^ 64))) = Some m' \<and>
       pb_dec_svarint env st f dest =
         (if - (2 ^ (8 * k - 1)) \<le> i \<and> i < 2 ^ (8 * k - 1)
          then Ok () (st\<lparr>d_mem := m', d_stream := buf_istream D K None\<rparr>)
          else Fail (st\<lparr>d_mem := m', d_stream := buf_istream D K (Some ''integer too large'')\<rparr>))"
proof -
  let ?st = "st\<lparr>d_stream := buf_istream D K None\<rparr>"
  have r: "on_stream (pb_decode_svarint (d_rd env)) st = Ok (of_int i) ?st"
    by (simp add: on_stream_def assms(6) pb_decode_svarint_bytes [OF zigzag_bound [OF assms(4,5)] assms(7)])
  have u: "unat (of_int i :: u64) = nat (i mod 2 ^ 64)"
    by (simp add: unat_eq_nat_uint uint_word_of_int_eq take_bit_eq_mod)
  have s: "sint (of_int i :: u64) = i"
    using assms(4,5) by (simp add: signed_of_int signed_take_bit_int_eq_self)
  from store_signed_eq [OF assms(1,2), of ?st dest "of_int i"] assms(3) obtain m' where
    m': "store_bytes (d_mem st) dest (le_bytes k (nat (i mod 2 ^ 64))) = Some m'" and
    e: "pb_dec_svarint env st f dest = (if - (2 ^ (8 * k - 1)) \<le> i \<and> i < 2 ^ (8 * k - 1)
       then Ok () (?st\<lparr>d_mem := m'\<rparr>)
       else Fail (?st\<lparr>d_mem := m', d_stream := PB_SET_ERROR (d_stream ?st) ''integer too large''\<rparr>))"
    unfolding pb_dec_svarint_def r c_then.simps u s by auto
  from m' show ?thesis unfolding e by simp
qed

theorem dec_svarint_checks_range_witness:
  "\<exists>m'. store_bytes ex_mem 100 (le_bytes 1 (nat (- 128 mod 2 ^ 64))) = Some m' \<and>
     pb_dec_svarint ex_env ((ex_state [])\<lparr>d_stream :=
         buf_istream (varint_bytes (zigzag (- 128)) @ []) (length (varint_bytes (zigzag (- 128))) + 0) None\<rparr>)
       (PB_LAST_FIELD\<lparr>data_size := 1\<rparr>) 100 =
       Ok () ((ex_state [])\<lparr>d_mem := m', d_stream := buf_istream [] 0 None\<rparr>)"
  using dec_svarint_checks_range [of "PB_LAST_FIELD\<lparr>data_size := 1\<rparr>" 1
      "(ex_state [])\<lparr>d_stream := buf_istream (varint_bytes (zigzag (- 128)) @ []) (length (varint_bytes (zigzag (- 128))) + 0) None\<rparr>"
      100 "- 128" "[]" 0 ex_env]
    varint_bytes_length_64 [of "zigzag (- 128)"] zigzag_bound [of "- 128"]
  by (simp add: ex_state_def ex_mem_def mapped_def)

section \<open>Allocation\<close>

text \<open>C37: the size check of \<open>allocate_field\<close> is exact. With a pointer member that can be
  read, the call asks the allocator for \<open>array_size * data_size\<close> bytes, a product that has
  not wrapped, or it fails before it calls the allocator: for a zero size, and exactly when the
  product does not fit in a \<open>size_t\<close>.\<close>

theorem allocate_field_no_overflow:
  assumes "load_ptr (d_mem st) pd = Some p"
  shows "allocate_field env st pd dsize asize =
    (if dsize = 0 \<or> asize = 0 then dec_error st ''invalid size''
     else if 2 ^ 64 \<le> unat dsize * unat asize then dec_error st ''size too large''
     else access (pb_realloc env (d_mem st) p (of_nat (unat dsize * unat asize))) (\<lambda>(q, m).
       if q = NULL then dec_error (st\<lparr>d_mem := m\<rparr>) ''realloc failed''
       else on_mem (\<lambda>m. store_ptr m pd q) (st\<lparr>d_mem := m\<rparr>) (Ok ())))"
proof (cases "dsize = 0 \<or> asize = 0")
  case False
  then have pos: "0 < unat asize" by (simp add: unat_gt_0)
  have quot: "- 1 div asize < dsize \<longleftrightarrow> 2 ^ 64 \<le> unat dsize * unat asize"
  proof -
    have "unat (- 1 div asize) = (2 ^ 64 - 1) div unat asize"
      by (simp add: unat_div unsigned_minus_1_eq_mask mask_eq_exp_minus_1)
    then have "- 1 div asize < dsize \<longleftrightarrow> (2 ^ 64 - 1) div unat asize < unat dsize"
      by (simp add: word_less_nat_alt)
    also have "\<dots> \<longleftrightarrow> 2 ^ 64 - 1 < unat dsize * unat asize" by (rule div_less_iff_less_mult [OF pos])
    finally show ?thesis by auto
  qed
  have small: "unat dsize * unat asize < 2 ^ 64" if "\<not> (push_bit 32 1 \<le> dsize \<or> push_bit 32 1 \<le> asize)"
  proof -
    have "unat dsize < 2 ^ 32" "unat asize < 2 ^ 32" using that by (simp_all add: word_le_nat_alt)
    then have "unat dsize * unat asize < 2 ^ 32 * 2 ^ 32" by (intro mult_strict_mono) simp_all
    then show ?thesis by simp
  qed
  have "asize * dsize = of_nat (unat dsize * unat asize)" by (simp add: mult.commute)
  then show ?thesis using assms False quot small
    by (auto simp: allocate_field_def Let_def not_le mult.commute [of asize])
qed (use assms in \<open>simp add: allocate_field_def\<close>)

theorem allocate_field_no_overflow_witness:
  "allocate_field ex_env (ex_state []) 100 (2 ^ 33) (2 ^ 31) =
     (dec_error (ex_state []) ''size too large'' :: (unit, unit dec_state) outcome)"
proof -
  have "mapped ex_mem 100 8" by (simp add: mapped_def ex_mem_def)
  then obtain p where "load_ptr (d_mem (ex_state [])) 100 = Some p"
    using load_mapped(2) by (auto simp: ex_state_def)
  from allocate_field_no_overflow [OF this, of ex_env "2 ^ 33" "2 ^ 31"] show ?thesis by simp
qed

section \<open>The required-field check\<close>

text \<open>The check at the end of \<open>pb_decode_noinit\<close> is exact. For at most 64 required
  fields, and bits set for no other field, the word-wise comparison succeeds exactly when the bit of
  every required field is set.\<close>

theorem required_seen_iff:
  assumes "length seen = 2" "req \<le> PB_MAX_REQUIRED_FIELDS"
    and "\<forall>i. req \<le> i \<and> i < 64 \<longrightarrow> \<not> bit (seen ! (i div 32)) (i mod 32)"
  shows "required_seen seen req \<longleftrightarrow> (\<forall>i < req. bit (seen ! (i div 32)) (i mod 32))"
proof
  assume r: "required_seen seen req"
  show "\<forall>i < req. bit (seen ! (i div 32)) (i mod 32)"
  proof (intro allI impI)
    fix i assume i: "i < req"
    show "bit (seen ! (i div 32)) (i mod 32)"
    proof (cases "i div 32 < req div 32")
      case True
      then have "seen ! (i div 32) = - 1" using r by (simp add: required_seen_def list_all_iff)
      then show ?thesis by (simp add: bit_minus_1_iff)
    next
      case False
      with i have d: "i div 32 = req div 32" "i mod 32 < req mod 32"
        using div_le_mono [of i req 32] by (simp_all add: not_less) (metis div_mult_mod_eq nat_add_left_cancel_less)
      then have "seen ! (i div 32) = drop_bit (32 - req mod 32) (- 1)" using r by (auto simp: required_seen_def)
      then show ?thesis using d(2) by (simp add: bit_mask_iff)
    qed
  qed
next
  assume a: "\<forall>i < req. bit (seen ! (i div 32)) (i mod 32)"
  have "seen ! j = - 1" if "j < req div 32" for j
  proof (rule bit_word_eqI)
    fix k assume "k < LENGTH(32)"
    then have k: "k < 32" by simp
    with that have "j * 32 + k < req" by linarith
    from a [rule_format, OF this] k show "bit (seen ! j) k \<longleftrightarrow> bit (- 1 :: u32) k" by (simp add: bit_minus_1_iff)
  qed
  moreover have "seen ! (req div 32) = drop_bit (32 - req mod 32) (- 1)" if "req mod 32 \<noteq> 0"
  proof (rule bit_word_eqI)
    fix k assume "k < LENGTH(32)"
    then have k: "k < 32" by simp
    let ?i = "req div 32 * 32 + k"
    have i: "?i div 32 = req div 32" "?i mod 32 = k" using k by simp_all
    have lt: "?i < req \<longleftrightarrow> k < req mod 32" using div_mult_mod_eq [of req 32] by linarith
    have "req < 64" using assms(2) that by (cases "req = 64") (auto simp: PB_MAX_REQUIRED_FIELDS_def)
    then have "req div 32 \<le> 1" by linarith
    then have "?i < 64" using k by linarith
    then have "bit (seen ! (req div 32)) k \<longleftrightarrow> ?i < req"
      using a [rule_format, of ?i] assms(3) [rule_format, of ?i] i by (metis not_le)
    then show "bit (seen ! (req div 32)) k \<longleftrightarrow> bit (drop_bit (32 - req mod 32) (- 1 :: u32)) k"
      using lt k by (simp add: bit_mask_iff)
  qed
  ultimately show "required_seen seen req" by (simp add: required_seen_def list_all_iff)
qed

theorem required_seen_iff_witness: "required_seen [7, 0] 3 \<longleftrightarrow> (\<forall>i < 3. bit ([7, 0 :: u32] ! (i div 32)) (i mod 32))"
proof (rule required_seen_iff)
  have m: "(7 :: u32) = mask 3" by (simp add: mask_eq_exp_minus_1)
  have "\<not> bit ([7, 0 :: u32] ! (i div 32)) (i mod 32)" if "3 \<le> i" "i < 64" for i
  proof (cases "i < 32")
    case False
    then have "i div 32 = 1" using that by simp
    then show ?thesis by simp
  qed (use that in \<open>simp add: m bit_mask_iff\<close>)
  then show "\<forall>i. 3 \<le> i \<and> i < 64 \<longrightarrow> \<not> bit ([7, 0 :: u32] ! (i div 32)) (i mod 32)" by blast
qed (simp_all add: PB_MAX_REQUIRED_FIELDS_def)

section \<open>Release of callback fields\<close>

text \<open>\<open>pb_release_single_field\<close> does not look at the allocation type before it releases
  the contents of a submessage. For a singular submessage field with callback allocation it walks over
  the \<open>pb_callback_t\<close> member as if it were the submessage struct, and releases whatever the
  descriptors of the submessage find there: \<open>pb_decode\<close> does this to every such field when it
  fails.\<close>

theorem release_callback_as_submessage:
  assumes "it_field it = Some f" "PB_ATYPE (type f) = PB_ATYPE_CALLBACK" "PB_LTYPE (type f) = PB_LTYPE_SUBMESSAGE"
    and "PB_HTYPE (type f) = PB_HTYPE_REQUIRED \<or> PB_HTYPE (type f) = PB_HTYPE_OPTIONAL"
    and "d_fields env (ptr f) = Some flds" "pData it \<noteq> NULL"
  shows "pb_release_single_field (Suc d) env it m = pb_release d env flds (pData it) m"
proof -
  have "PB_HTYPE (type f) \<noteq> PB_HTYPE_ONEOF" "PB_HTYPE (type f) \<noteq> PB_HTYPE_REPEATED"
    "PB_ATYPE (type f) \<noteq> PB_ATYPE_POINTER" "PB_LTYPE (type f) \<noteq> PB_LTYPE_EXTENSION"
    using assms(2-4) by (auto simp: pb_type_defs)
  then show ?thesis using assms(1,3,5,6)
    by (cases "release_message (pb_release_single_field d env) flds (pData it) m")
      (simp_all add: release_single_field_def release_submessages_def Let_def pb_release_def)
qed

text \<open>The witness: a callback submessage whose second member is a string pointer. The release frees
  the user's \<open>arg\<close> pointer, which is no heap block.\<close>

definition cb_sub_fields :: "pb_field_t list" where
  "cb_sub_fields =
     [\<lparr>tag = 1, type = 0x96, data_offset = 8, size_offset = 0, data_size = 1, array_size = 0, ptr = NULL\<rparr>, PB_LAST_FIELD]"

definition cb_field :: pb_field_t where
  "cb_field = \<lparr>tag = 1, type = 0x57, data_offset = 0, size_offset = 0, data_size = 16, array_size = 0, ptr = 500\<rparr>"

definition cb_iter :: pb_field_iter_t where
  "cb_iter = \<lparr>it_start = [cb_field, PB_LAST_FIELD], it_pos = 0, required_field_index = 0, dest_struct = 100,
     pData = 100, pSize = 100\<rparr>"

definition cb_env :: "unit dec_env" where
  "cb_env = ex_env\<lparr>d_fields := (\<lambda>p. if p = 500 then Some cb_sub_fields else None)\<rparr>"

theorem release_callback_as_submessage_witness:
  "pb_release_single_field 2 cb_env cb_iter ex_mem = pb_release 1 cb_env cb_sub_fields 100 ex_mem \<and>
   pb_release 1 cb_env cb_sub_fields 100 ex_mem = None"
proof
  show "pb_release_single_field 2 cb_env cb_iter ex_mem = pb_release 1 cb_env cb_sub_fields 100 ex_mem"
    using release_callback_as_submessage [of cb_iter cb_field cb_env cb_sub_fields 1 ex_mem]
    by (simp add: cb_iter_def cb_field_def cb_env_def it_field_def pb_type_defs numeral_2_eq_2)
  have "load_bytes ex_mem 108 8 = Some (replicate 8 0xAA)" by (simp add: load_bytes_nth ex_mem_def)
  moreover have "replicate 8 (0xAA :: u8) = 0xAA # replicate 7 0xAA" by (simp add: eval_nat_numeral)
  ultimately obtain p where p: "load_ptr ex_mem 108 = Some p" "0 < p" by (simp add: load_ptr_def load_nat_def)
  have none: "release_pointer \<lparr>it_start = cb_sub_fields, it_pos = 0, required_field_index = 0, dest_struct = 100,
      pData = 108, pSize = 108\<rparr> (cb_sub_fields ! 0) ex_mem = None"
    using p by (simp add: release_pointer_def cb_sub_fields_def pb_type_defs Let_def pb_free_def) (simp add: ex_mem_def)
  then show "pb_release 1 cb_env cb_sub_fields 100 ex_mem = None"
    by (simp add: pb_release_def release_message_def message_walk_def pb_field_iter_begin_def cb_sub_fields_def
        field_walk.simps release_single_field_def it_field_def pb_type_defs Let_def)
qed

end
