(* ===== verification/Ldb_Random.thy ===== *)
theory Ldb_Random
  imports Pb_Prelude
begin

unbundle bit_operations_syntax

text \<open>
  The pseudo-random numbers of leveldb, \<open>util/random.h\<close>: a Lehmer generator whose remainder is
  computed with a shift, a mask and one subtraction. The skip list takes its node heights from it.
\<close>

section \<open>The generator\<close>

type_synonym random = u32

definition Random_new :: "u32 \<Rightarrow> random" where
  "Random_new s = (let seed = s AND 0x7fffffff in if seed = 0 \<or> seed = 2147483647 then 1 else seed)"

definition Random_M :: u32 where
  "Random_M = 2147483647"

definition Random_A :: u64 where
  "Random_A = 16807"

text \<open>\<open>Next\<close> returns the new seed, which is also the number.\<close>

definition Random_Next :: "random \<Rightarrow> random" where
  "Random_Next seed =
     (let product = ucast seed * Random_A;
          seed = ucast (drop_bit 31 product + (product AND ucast Random_M))
      in if seed > Random_M then seed - Random_M else seed)"

text \<open>The bounds are converted from \<open>int\<close> to an unsigned number; a bound of 0 is a division by zero.\<close>

definition Random_Uniform :: "random \<Rightarrow> u32 \<Rightarrow> (u32 \<times> random) option" where
  "Random_Uniform r n = (let r = Random_Next r in asserting (n \<noteq> 0) (Some (r mod n, r)))"

definition Random_OneIn :: "random \<Rightarrow> u32 \<Rightarrow> (bool \<times> random) option" where
  "Random_OneIn r n = (let r = Random_Next r in asserting (n \<noteq> 0) (Some (r mod n = 0, r)))"

definition Random_Skewed :: "random \<Rightarrow> u32 \<Rightarrow> (u32 \<times> random) option" where
  "Random_Skewed r max_log =
     (case Random_Uniform r (max_log + 1) of
        None \<Rightarrow> None
      | Some (shift, r) \<Rightarrow> asserting (shift < 31) (Random_Uniform r (push_bit (unat shift) 1)))"

section \<open>It is the Lehmer generator\<close>

text \<open>The seeds that the comment of the constructor calls good.\<close>

definition good_seed :: "random \<Rightarrow> bool" where
  "good_seed seed \<longleftrightarrow> 0 < unat seed \<and> unat seed < 2147483647"

lemma good_seed_new [simp]: "good_seed (Random_new s)"
proof -
  have "s AND 0x7fffffff = take_bit 31 s"
    by (simp add: take_bit_eq_mask mask_eq_exp_minus_1)
  then have "unat (s AND 0x7fffffff) < 2147483648"
    by (simp add: unat_take_bit_mod)
  moreover have "unat (s AND 0x7fffffff) \<noteq> 2147483647" if "s AND 0x7fffffff \<noteq> 2147483647"
  proof
    assume "unat (s AND 0x7fffffff) = 2147483647"
    then have "unat (s AND 0x7fffffff) = unat (2147483647 :: u32)" by simp
    with that show False by (metis unsigned_word_eqI)
  qed
  moreover have "0 < unat (s AND 0x7fffffff)" if "s AND 0x7fffffff \<noteq> 0"
    using that by (metis unat_pos_iff)
  moreover have "good_seed 1" by (simp add: good_seed_def)
  ultimately show ?thesis by (fastforce simp: Random_new_def Let_def good_seed_def)
qed

text \<open>The two partial sums are congruent to the product.\<close>

lemma mersenne_fold: "(n div 2 ^ 31 + n mod 2 ^ 31) mod 2147483647 = n mod (2147483647 :: nat)"
proof -
  have "n = (n div 2 ^ 31 + n mod 2 ^ 31) + (n div 2 ^ 31) * 2147483647"
    using div_mult_mod_eq [of n "2 ^ 31"] by simp
  then have "n mod 2147483647 = ((n div 2 ^ 31 + n mod 2 ^ 31) + (n div 2 ^ 31) * 2147483647) mod 2147483647"
    by (rule arg_cong)
  then show ?thesis by (simp only: mod_mult_self1)
qed

lemma lehmer_nonzero:
  assumes "0 < n" "n < 2147483647"
  shows "n * 16807 mod 2147483647 \<noteq> (0 :: nat)"
proof
  assume "n * 16807 mod 2147483647 = 0"
  then have "2147483647 dvd n * 16807" by (simp only: dvd_eq_mod_eq_0)
  moreover have "coprime (2147483647 :: nat) 16807"
    by (simp add: coprime_iff_gcd_eq_1 gcd_non_0_nat)
  ultimately have "2147483647 dvd n" by (simp add: coprime_dvd_mult_left_iff)
  with assms show False by (auto dest: dvd_imp_le)
qed

lemma Random_Next_unat:
  assumes "good_seed seed"
  shows "unat (Random_Next seed) = unat seed * 16807 mod 2147483647"
proof -
  define n where "n = unat seed * 16807"
  have n: "n < 2147483647 * 16807" using assms by (simp add: n_def good_seed_def)
  have product: "ucast seed * Random_A = (of_nat n :: u64)"
    by (simp add: n_def Random_A_def)
  have mask: "of_nat n AND ucast Random_M = take_bit 31 (of_nat n :: u64)"
    by (simp add: Random_M_def take_bit_eq_mask mask_eq_exp_minus_1)
  define s where "s = n div 2 ^ 31 + n mod 2 ^ 31"
  have "n div 2 ^ 31 < 16807" "n mod 2 ^ 31 < 2 ^ 31"
    using n by (simp_all add: div_less_iff_less_mult)
  then have s: "s \<le> 16806 + 2147483647" by (simp add: s_def)
  then have s_unat64: "unat (of_nat s :: u64) = s" by simp
  have "unat (of_nat n :: u64) = n" using n by simp
  then have "drop_bit 31 (of_nat n :: u64) = of_nat (n div 2 ^ 31)" "take_bit 31 (of_nat n :: u64) = of_nat (n mod 2 ^ 31)"
    by (metis unat_drop_bit_div of_nat_unat ucast_id, metis unat_take_bit_mod of_nat_unat ucast_id)
  then have "ucast (drop_bit 31 (of_nat n :: u64) + (of_nat n AND ucast Random_M)) = (ucast (of_nat s :: u64) :: u32)"
    by (simp only: mask s_def flip: of_nat_add)
  also have "\<dots> = of_nat s" by (metis of_nat_unat s_unat64)
  finally have "ucast (drop_bit 31 (of_nat n :: u64) + (of_nat n AND ucast Random_M)) = (of_nat s :: u32)" .
  then have step: "Random_Next seed =
      (if of_nat s > Random_M then of_nat s - Random_M else of_nat s)"
    by (simp only: Random_Next_def Let_def product)
  have s_mod: "s mod 2147483647 = n mod 2147483647" unfolding s_def by (rule mersenne_fold)
  have s_unat: "unat (of_nat s :: u32) = s" using s by simp
  have s_ne: "s \<noteq> 2147483647"
    using lehmer_nonzero [of "unat seed"] assms s_mod by (auto simp: n_def good_seed_def)
  show ?thesis
  proof (cases "s > 2147483647")
    case True
    then have "of_nat s > Random_M" using s_unat by (simp add: word_less_nat_alt Random_M_def)
    then have "unat (Random_Next seed) = s - 2147483647"
      using unat_minus_le [of Random_M "of_nat s"] s_unat by (simp add: step Random_M_def)
    moreover have "s mod 2147483647 = s - 2147483647"
      using True s by (simp add: le_mod_geq)
    ultimately show ?thesis using s_mod by (simp add: n_def)
  next
    case False
    then have "\<not> of_nat s > Random_M" using s_unat by (simp add: word_less_nat_alt Random_M_def)
    then show ?thesis using False s_ne s_mod s_unat by (simp add: step n_def)
  qed
qed

lemma good_seed_Next: "good_seed seed \<Longrightarrow> good_seed (Random_Next seed)"
  using Random_Next_unat [of seed] lehmer_nonzero [of "unat seed"]
  by (simp add: good_seed_def)

text \<open>Random numbers: \<open>Next\<close> computes \<open>seed * 16807 mod (2^31 - 1)\<close> without a division, so
  the generator, from whatever seed the constructor is given, never reaches the two seeds 0 and
  \<open>2^31 - 1\<close> at which it would stay for ever.\<close>

theorem Random_Next_lehmer:
  "let seed = (Random_Next ^^ n) (Random_new s) in
     0 < unat seed \<and> unat seed < 2147483647 \<and> unat (Random_Next seed) = unat seed * 16807 mod 2147483647"
proof -
  have "good_seed ((Random_Next ^^ n) (Random_new s))"
    by (induction n) (simp_all add: good_seed_Next)
  then show ?thesis by (simp add: Let_def Random_Next_unat) (simp add: good_seed_def)
qed

end
