(* ===== verification/Ldb_Skiplist.thy ===== *)
theory Ldb_Skiplist
  imports Ldb_Random "HOL-Library.Monad_Syntax"
begin

text \<open>
  The skip list of \<open>db/skiplist.h\<close> as a heap of nodes. A pointer is the index of a node in the
  order of allocation (nodes are never freed), and the null pointer is \<open>None\<close>. \<open>None\<close> as the
  result of an operation is a failed assertion, an access to a link that the node does not have, or
  the use of a link that was never set.

  The writer's stores are values of their own, so that \<open>Ldb_Skiplist_Readers\<close> can interleave
  them with readers.
\<close>

section \<open>Nodes\<close>

datatype link = Uninit | Link "nat option"

text \<open>\<open>next_[height]\<close>; the list has as many entries as the node has levels.\<close>

record 'k node =
  node_key :: 'k
  node_next :: "link list"

record 'k skiplist =
  sl_nodes :: "'k node list"
  sl_max_height :: nat
  sl_rnd :: random

definition kMaxHeight :: nat where
  "kMaxHeight = 12"

definition sl_head :: nat where
  "sl_head = 0"

definition Key_at :: "'k skiplist \<Rightarrow> nat \<Rightarrow> 'k option" where
  "Key_at sl x = (if x < length (sl_nodes sl) then Some (node_key (sl_nodes sl ! x)) else None)"

definition Next :: "'k skiplist \<Rightarrow> nat \<Rightarrow> nat \<Rightarrow> nat option option" where
  "Next sl x n =
     (if x < length (sl_nodes sl) \<and> n < length (node_next (sl_nodes sl ! x))
      then case node_next (sl_nodes sl ! x) ! n of Link p \<Rightarrow> Some p | Uninit \<Rightarrow> None
      else None)"

definition SetNext :: "'k skiplist \<Rightarrow> nat \<Rightarrow> nat \<Rightarrow> nat option \<Rightarrow> 'k skiplist option" where
  "SetNext sl x n p =
     (if x < length (sl_nodes sl) \<and> n < length (node_next (sl_nodes sl ! x))
      then Some (sl\<lparr>sl_nodes := (sl_nodes sl)[x := (sl_nodes sl ! x)
        \<lparr>node_next := (node_next (sl_nodes sl ! x))[n := Link p]\<rparr>]\<rparr>)
      else None)"

definition NewNode :: "'k skiplist \<Rightarrow> 'k \<Rightarrow> nat \<Rightarrow> 'k skiplist" where
  "NewNode sl key height =
     sl\<lparr>sl_nodes := sl_nodes sl @ [\<lparr>node_key = key, node_next = replicate height Uninit\<rparr>]\<rparr>"

section \<open>The constructor\<close>

primrec null_links :: "nat \<Rightarrow> 'k skiplist \<Rightarrow> 'k skiplist option" where
  "null_links 0 sl = Some sl"
| "null_links (Suc i) sl = do {
     sl \<leftarrow> null_links i sl;
     SetNext sl sl_head i None }"

definition SkipList_new :: "'k \<Rightarrow> 'k skiplist option" where
  "SkipList_new any_key =
     null_links kMaxHeight
       (NewNode \<lparr>sl_nodes = [], sl_max_height = 1, sl_rnd = Random_new 0xdeadbeef\<rparr> any_key kMaxHeight)"

section \<open>Searching\<close>

text \<open>The variables of a search: the node \<open>x\<close> and \<open>level\<close>. One round of each loop either goes on
  or returns; the loop repeats it.\<close>

type_synonym position = "nat \<times> nat"

partial_function (option) search_loop :: "('s \<Rightarrow> ('s + 'r) option) \<Rightarrow> 's \<Rightarrow> 'r option" where
  "search_loop round s =
     (case round s of
        None \<Rightarrow> None
      | Some (Inl s) \<Rightarrow> search_loop round s
      | Some (Inr r) \<Rightarrow> Some r)"

definition KeyIsAfterNode :: "('k \<Rightarrow> 'k \<Rightarrow> int) \<Rightarrow> 'k skiplist \<Rightarrow> 'k \<Rightarrow> nat option \<Rightarrow> bool option" where
  "KeyIsAfterNode compare sl key n =
     (case n of None \<Rightarrow> Some False | Some n \<Rightarrow> map_option (\<lambda>k. compare k key < 0) (Key_at sl n))"

text \<open>\<open>FindGreaterOrEqual\<close>; \<open>prev\<close> is the array to fill, if there is one, with \<open>None\<close> for an
  entry that was not assigned.\<close>

definition FindGreaterOrEqual_round ::
  "('k \<Rightarrow> 'k \<Rightarrow> int) \<Rightarrow> 'k skiplist \<Rightarrow> 'k \<Rightarrow> position \<times> nat option list option \<Rightarrow>
     (position \<times> nat option list option + nat option \<times> nat option list option) option" where
  "FindGreaterOrEqual_round compare sl key = (\<lambda>((x, level), prev). do {
     next \<leftarrow> Next sl x level;
     after \<leftarrow> KeyIsAfterNode compare sl key next;
     if after then Some (Inl ((the next, level), prev))
     else
       let prev = map_option (\<lambda>p. p[level := Some x]) prev in
       if level = 0 then Some (Inr (next, prev))
       else Some (Inl ((x, level - 1), prev)) })"

definition FindGreaterOrEqual ::
  "('k \<Rightarrow> 'k \<Rightarrow> int) \<Rightarrow> 'k skiplist \<Rightarrow> 'k \<Rightarrow> nat option list option \<Rightarrow> (nat option \<times> nat option list option) option" where
  "FindGreaterOrEqual compare sl key prev =
     search_loop (FindGreaterOrEqual_round compare sl key) ((sl_head, sl_max_height sl - 1), prev)"

definition FindLessThan_round ::
  "('k \<Rightarrow> 'k \<Rightarrow> int) \<Rightarrow> 'k skiplist \<Rightarrow> 'k \<Rightarrow> position \<Rightarrow> (position + nat) option" where
  "FindLessThan_round compare sl key = (\<lambda>(x, level). do {
     kx \<leftarrow> Key_at sl x;
     asserting (x = sl_head \<or> compare kx key < 0) (do {
       next \<leftarrow> Next sl x level;
       case next of
         None \<Rightarrow> Some (if level = 0 then Inr x else Inl (x, level - 1))
       | Some n \<Rightarrow> do {
           kn \<leftarrow> Key_at sl n;
           if compare kn key \<ge> 0 then Some (if level = 0 then Inr x else Inl (x, level - 1))
           else Some (Inl (n, level)) } }) })"

definition FindLessThan :: "('k \<Rightarrow> 'k \<Rightarrow> int) \<Rightarrow> 'k skiplist \<Rightarrow> 'k \<Rightarrow> nat option" where
  "FindLessThan compare sl key =
     search_loop (FindLessThan_round compare sl key) (sl_head, sl_max_height sl - 1)"

definition FindLast_round :: "'k skiplist \<Rightarrow> position \<Rightarrow> (position + nat) option" where
  "FindLast_round sl = (\<lambda>(x, level). do {
     next \<leftarrow> Next sl x level;
     case next of
       None \<Rightarrow> Some (if level = 0 then Inr x else Inl (x, level - 1))
     | Some n \<Rightarrow> Some (Inl (n, level)) })"

definition FindLast :: "'k skiplist \<Rightarrow> nat option" where
  "FindLast sl = search_loop (FindLast_round sl) (sl_head, sl_max_height sl - 1)"

section \<open>Inserting\<close>

function RandomHeight_loop :: "nat \<Rightarrow> random \<Rightarrow> nat \<times> random" where
  "RandomHeight_loop height rnd =
     (if height < kMaxHeight then
        (let rnd = Random_Next rnd in
         if rnd mod 4 = 0 then RandomHeight_loop (height + 1) rnd else (height, rnd))
      else (height, rnd))"
  by pat_completeness auto
termination
  by (relation "measure (\<lambda>(height, rnd). kMaxHeight - height)") auto

declare RandomHeight_loop.simps [simp del]

definition RandomHeight :: "'k skiplist \<Rightarrow> (nat \<times> 'k skiplist) option" where
  "RandomHeight sl =
     (case RandomHeight_loop 1 (sl_rnd sl) of
        (height, rnd) \<Rightarrow> asserting (height > 0 \<and> height \<le> kMaxHeight) (Some (height, sl\<lparr>sl_rnd := rnd\<rparr>)))"

text \<open>The stores of \<open>Insert\<close>, in the order of the program: the new maximal height, the new node,
  and for every level the link of the new node and the link that publishes it. \<open>x\<close> is the
  new node, \<open>p\<close> its predecessor on the level.\<close>

datatype 'k wstore =
    StoreMaxHeight nat
  | StoreNewNode 'k nat
  | CopyLink nat nat nat
  | PublishLink nat nat nat

primrec run_store :: "'k wstore \<Rightarrow> 'k skiplist \<Rightarrow> 'k skiplist option" where
  "run_store (StoreMaxHeight height) sl = Some (sl\<lparr>sl_max_height := height\<rparr>)"
| "run_store (StoreNewNode key height) sl = Some (NewNode sl key height)"
| "run_store (CopyLink x i p) sl = do {
     next \<leftarrow> Next sl p i;
     SetNext sl x i next }"
| "run_store (PublishLink x i p) sl = SetNext sl p i (Some x)"

primrec run_stores :: "'k wstore list \<Rightarrow> 'k skiplist \<Rightarrow> 'k skiplist option" where
  "run_stores [] sl = Some sl"
| "run_stores (w # ws) sl = do {
     sl \<leftarrow> run_store w sl;
     run_stores ws sl }"

text \<open>The first part of \<open>Insert\<close>, which reads and draws the height but stores nothing that a reader
  sees, gives the stores of the second part; these use the first \<open>height\<close> entries of \<open>prev\<close>.\<close>

definition insert_stores :: "'k skiplist \<Rightarrow> 'k \<Rightarrow> nat \<Rightarrow> nat list \<Rightarrow> 'k wstore list" where
  "insert_stores sl key height prev =
     (if height > sl_max_height sl then [StoreMaxHeight height] else []) @
     StoreNewNode key height #
     concat (map (\<lambda>i. [CopyLink (length (sl_nodes sl)) i (prev ! i), PublishLink (length (sl_nodes sl)) i (prev ! i)])
       [0..<height])"

definition Insert_plan ::
  "('k \<Rightarrow> 'k \<Rightarrow> int) \<Rightarrow> 'k skiplist \<Rightarrow> 'k \<Rightarrow> ('k wstore list \<times> 'k skiplist) option" where
  "Insert_plan compare sl key = do {
     (x, prev) \<leftarrow> FindGreaterOrEqual compare sl key (Some (replicate kMaxHeight None));
     duplicate \<leftarrow> (case x of None \<Rightarrow> Some False | Some x \<Rightarrow> map_option (\<lambda>k. compare key k = 0) (Key_at sl x));
     asserting (\<not> duplicate) (do {
       (height, sl) \<leftarrow> RandomHeight sl;
       let prev = map (\<lambda>i. if sl_max_height sl \<le> i \<and> i < height then Some sl_head else the prev ! i) [0..<kMaxHeight];
       ps \<leftarrow> those (take height prev);
       Some (insert_stores sl key height ps, sl) }) }"

definition Insert :: "('k \<Rightarrow> 'k \<Rightarrow> int) \<Rightarrow> 'k \<Rightarrow> 'k skiplist \<Rightarrow> 'k skiplist option" where
  "Insert compare key sl = do {
     (ws, sl) \<leftarrow> Insert_plan compare sl key;
     run_stores ws sl }"

definition Contains :: "('k \<Rightarrow> 'k \<Rightarrow> int) \<Rightarrow> 'k skiplist \<Rightarrow> 'k \<Rightarrow> bool option" where
  "Contains compare sl key = do {
     (x, _) \<leftarrow> FindGreaterOrEqual compare sl key None;
     case x of None \<Rightarrow> Some False | Some x \<Rightarrow> map_option (\<lambda>k. compare key k = 0) (Key_at sl x) }"

section \<open>The iterator\<close>

text \<open>An iterator is its \<open>node_\<close>.\<close>

type_synonym sl_iterator = "nat option"

definition Iter_new :: sl_iterator where
  "Iter_new = None"

definition Iter_Valid :: "sl_iterator \<Rightarrow> bool" where
  "Iter_Valid it \<longleftrightarrow> it \<noteq> None"

definition Iter_key :: "'k skiplist \<Rightarrow> sl_iterator \<Rightarrow> 'k option" where
  "Iter_key sl it = Option.bind it (Key_at sl)"

definition Iter_Next :: "'k skiplist \<Rightarrow> sl_iterator \<Rightarrow> sl_iterator option" where
  "Iter_Next sl it = do {
     n \<leftarrow> it;
     Next sl n 0 }"

definition Iter_Prev :: "('k \<Rightarrow> 'k \<Rightarrow> int) \<Rightarrow> 'k skiplist \<Rightarrow> sl_iterator \<Rightarrow> sl_iterator option" where
  "Iter_Prev compare sl it = do {
     n \<leftarrow> it;
     key \<leftarrow> Key_at sl n;
     n \<leftarrow> FindLessThan compare sl key;
     Some (if n = sl_head then None else Some n) }"

definition Iter_Seek :: "('k \<Rightarrow> 'k \<Rightarrow> int) \<Rightarrow> 'k skiplist \<Rightarrow> 'k \<Rightarrow> sl_iterator option" where
  "Iter_Seek compare sl target = map_option fst (FindGreaterOrEqual compare sl target None)"

definition Iter_SeekToFirst :: "'k skiplist \<Rightarrow> sl_iterator option" where
  "Iter_SeekToFirst sl = Next sl sl_head 0"

definition Iter_SeekToLast :: "'k skiplist \<Rightarrow> sl_iterator option" where
  "Iter_SeekToLast sl = do {
     n \<leftarrow> FindLast sl;
     Some (if n = sl_head then None else Some n) }"

end
