(* ===== verification/Ldb_Skiplist_Correct.thy ===== *)
theory Ldb_Skiplist_Correct
  imports Ldb_Skiplist
begin

text \<open>
  What the operations of the skip list do. The representation relates the heap to one list of nodes
  for every level; the searches are proved once for any cut of the levels, and every store of
  \<open>Insert\<close> is shown to keep the representation by itself.
\<close>

section \<open>The order on keys\<close>

text \<open>The contract of the comparator that the skip list is instantiated with: a total preorder on the
  valid keys.\<close>

locale key_order =
  fixes compare :: "'k \<Rightarrow> 'k \<Rightarrow> int"
    and valid :: "'k \<Rightarrow> bool"
  assumes compare_swap: "valid a \<Longrightarrow> valid b \<Longrightarrow> compare a b > 0 \<longleftrightarrow> compare b a < 0"
    and compare_trans: "valid a \<Longrightarrow> valid b \<Longrightarrow> valid c \<Longrightarrow>
      compare a b \<le> 0 \<Longrightarrow> compare b c \<le> 0 \<Longrightarrow> compare a c \<le> 0"
begin

lemma less_le_trans:
  assumes "valid a" "valid b" "valid c" "compare a b < 0" "compare b c \<le> 0"
  shows "compare a c < 0"
proof (rule ccontr)
  assume "\<not> compare a c < 0"
  then have "compare c a \<le> 0" using compare_swap [of c a] assms by linarith
  then have "compare b a \<le> 0" using compare_trans [of b c a] assms by simp
  then show False using compare_swap [of b a] assms by linarith
qed

lemma less_trans:
  "valid a \<Longrightarrow> valid b \<Longrightarrow> valid c \<Longrightarrow> compare a b < 0 \<Longrightarrow> compare b c < 0 \<Longrightarrow> compare a c < 0"
  using less_le_trans [of a b c] by linarith

lemma not_less_self: "valid a \<Longrightarrow> \<not> compare a a < 0"
  using compare_swap [of a a] by linarith

end

section \<open>The representation\<close>

definition nkey :: "'k skiplist \<Rightarrow> nat \<Rightarrow> 'k" where
  "nkey sl x = node_key (sl_nodes sl ! x)"

text \<open>The links of a level lead from a node through a list of nodes to the null pointer.\<close>

primrec linked :: "'k skiplist \<Rightarrow> nat \<Rightarrow> nat \<Rightarrow> nat list \<Rightarrow> bool" where
  "linked sl l x [] \<longleftrightarrow> Next sl x l = Some None"
| "linked sl l x (y # ys) \<longleftrightarrow> Next sl x l = Some (Some y) \<and> linked sl l y ys"

text \<open>\<open>lv l\<close> is the list of level \<open>l\<close>.\<close>

definition sl_repr :: "('k \<Rightarrow> 'k \<Rightarrow> int) \<Rightarrow> ('k \<Rightarrow> bool) \<Rightarrow> 'k skiplist \<Rightarrow> (nat \<Rightarrow> nat list) \<Rightarrow> bool" where
  "sl_repr compare valid sl lv \<longleftrightarrow>
     sl_nodes sl \<noteq> [] \<and> 1 \<le> sl_max_height sl \<and> sl_max_height sl \<le> kMaxHeight \<and>
     (\<forall>l < kMaxHeight. linked sl l sl_head (lv l) \<and>
        (\<forall>x \<in> set (lv l). x \<noteq> sl_head \<and> x < length (sl_nodes sl) \<and> valid (nkey sl x)) \<and>
        sorted_wrt (\<lambda>x y. compare (nkey sl x) (nkey sl y) < 0) (lv l) \<and>
        (sl_max_height sl \<le> l \<longrightarrow> lv l = []) \<and>
        set (lv (Suc l)) \<subseteq> set (lv l)) \<and>
     lv kMaxHeight = []"

lemma sl_reprD:
  assumes "sl_repr compare valid sl lv"
  shows "sl_nodes sl \<noteq> []" "1 \<le> sl_max_height sl" "sl_max_height sl \<le> kMaxHeight"
    "l < kMaxHeight \<Longrightarrow> linked sl l sl_head (lv l)"
    "l < kMaxHeight \<Longrightarrow> x \<in> set (lv l) \<Longrightarrow> x \<noteq> sl_head \<and> x < length (sl_nodes sl) \<and> valid (nkey sl x)"
    "l < kMaxHeight \<Longrightarrow> sorted_wrt (\<lambda>x y. compare (nkey sl x) (nkey sl y) < 0) (lv l)"
    "l < kMaxHeight \<Longrightarrow> sl_max_height sl \<le> l \<Longrightarrow> lv l = []"
    "l < kMaxHeight \<Longrightarrow> set (lv (Suc l)) \<subseteq> set (lv l)"
  using assms by (auto simp: sl_repr_def)

lemma linked_nth:
  "linked sl l x xs \<Longrightarrow> i \<le> length xs \<Longrightarrow>
     Next sl ((x # xs) ! i) l = Some (if i < length xs then Some (xs ! i) else None)"
proof (induction xs arbitrary: x i)
  case (Cons y ys)
  show ?case
  proof (cases i)
    case (Suc j)
    then show ?thesis using Cons.IH [of y j] Cons.prems by simp
  qed (use Cons.prems in simp)
qed simp

lemma linked_cong:
  "(\<And>y. y \<in> set (x # xs) \<Longrightarrow> Next sl' y l = Next sl y l) \<Longrightarrow> linked sl' l x xs = linked sl l x xs"
  by (induction xs arbitrary: x) auto

text \<open>Setting one link puts a node into a level when its own link is set already.\<close>

lemma linked_splice:
  assumes "linked sl l h (bs @ rs)" "distinct (h # bs @ rs)" "x \<notin> set (h # bs @ rs)"
    and "Next sl' x l = Next sl (last (h # bs)) l"
    and "\<And>y. y \<in> set (h # bs @ rs) \<Longrightarrow> Next sl' y l = (if y = last (h # bs) then Some (Some x) else Next sl y l)"
  shows "linked sl' l h (bs @ x # rs)"
  using assms
proof (induction bs arbitrary: h)
  case Nil
  then have "linked sl' l x rs \<longleftrightarrow> linked sl l h rs"
  proof (cases rs)
    case (Cons r rs')
    with Nil have "linked sl' l r rs' = linked sl l r rs'" by (intro linked_cong) auto
    with Nil Cons show ?thesis by simp
  qed simp
  with Nil show ?case by simp
next
  case (Cons b bs)
  have "linked sl' l b (bs @ x # rs)"
    using Cons.prems by (intro Cons.IH) (auto split: if_splits)
  moreover have "h \<noteq> last (b # bs)" using Cons.prems(2) by auto
  ultimately show ?case using Cons.prems by simp
qed

section \<open>Searching\<close>

text \<open>A search for the end of the nodes with property \<open>P\<close>, which holds for a first part of every
  level. On a level it walks to the last such node, \<open>stop_at\<close>.\<close>

definition stop_at :: "(nat \<Rightarrow> bool) \<Rightarrow> nat list \<Rightarrow> nat" where
  "stop_at P xs = last (sl_head # takeWhile P xs)"

definition after_stop :: "(nat \<Rightarrow> bool) \<Rightarrow> nat list \<Rightarrow> nat option" where
  "after_stop P xs = (case dropWhile P xs of [] \<Rightarrow> None | y # _ \<Rightarrow> Some y)"

lemma stop_at_nth: "stop_at P xs = (sl_head # xs) ! length (takeWhile P xs)"
  by (auto simp: stop_at_def last_conv_nth takeWhile_nth nth_Cons split: nat.splits)

lemma after_stop_nth:
  "after_stop P xs = (if length (takeWhile P xs) < length xs then Some (xs ! length (takeWhile P xs)) else None)"
proof (cases "dropWhile P xs")
  case Nil
  then have "takeWhile P xs = xs" by (metis append_Nil2 takeWhile_dropWhile_id)
  then show ?thesis by (simp only: after_stop_def Nil) simp
next
  case (Cons y ys)
  then have xs: "xs = takeWhile P xs @ y # ys" by (metis takeWhile_dropWhile_id)
  then have "length (takeWhile P xs) < length xs" "xs ! length (takeWhile P xs) = y"
    by (metis length_append less_add_same_cancel1 length_greater_0_conv list.distinct(1), metis nth_append_length)
  with Cons show ?thesis by (simp add: after_stop_def)
qed

text \<open>The descent: what a loop does at every position determines what it returns. \<open>upd\<close> is
  what it records when it leaves a level.\<close>

primrec descend :: "(nat \<Rightarrow> 's \<Rightarrow> 's) \<Rightarrow> nat \<Rightarrow> 's \<Rightarrow> 's" where
  "descend upd 0 s = upd 0 s"
| "descend upd (Suc l) s = descend upd l (upd (Suc l) s)"

lemma search_loop_descends:
  assumes go: "\<And>l i s. l < h \<Longrightarrow> i < length (takeWhile P (lv l)) \<Longrightarrow>
      round (mk ((sl_head # lv l) ! i) l s) = Some (Inl (mk ((sl_head # lv l) ! Suc i) l s))"
    and down: "\<And>l s. Suc l < h \<Longrightarrow>
      round (mk (stop_at P (lv (Suc l))) (Suc l) s) = Some (Inl (mk (stop_at P (lv (Suc l))) l (upd (Suc l) s)))"
    and stop: "\<And>s. round (mk (stop_at P (lv 0)) 0 s) = Some (Inr (fin (upd 0 s)))"
    and nested: "\<And>l. Suc l < h \<Longrightarrow> \<exists>j \<le> length (takeWhile P (lv l)). stop_at P (lv (Suc l)) = (sl_head # lv l) ! j"
    and "l < h" "i \<le> length (takeWhile P (lv l))"
  shows "search_loop round (mk ((sl_head # lv l) ! i) l s) = Some (fin (descend upd l s))"
  using assms(5,6)
proof (induction l arbitrary: i s)
  case 0
  then show ?case
  proof (induction "length (takeWhile P (lv 0)) - i" arbitrary: i)
    case 0
    then show ?case using stop by (subst search_loop.simps) (simp add: stop_at_nth)
  next
    case (Suc d)
    have "search_loop round (mk ((sl_head # lv 0) ! i) 0 s) = search_loop round (mk ((sl_head # lv 0) ! Suc i) 0 s)"
      using go [of 0 i s] Suc(2,3) by (subst search_loop.simps) simp
    also have "\<dots> = Some (fin (descend upd 0 s))" using Suc(2-4) by (intro Suc(1)) simp_all
    finally show ?case .
  qed
next
  case (Suc l)
  from Suc.prems show ?case
  proof (induction "length (takeWhile P (lv (Suc l))) - i" arbitrary: i)
    case 0
    from nested [of l] Suc.prems obtain j where j: "j \<le> length (takeWhile P (lv l))"
      "stop_at P (lv (Suc l)) = (sl_head # lv l) ! j" by auto
    have "search_loop round (mk ((sl_head # lv l) ! j) l (upd (Suc l) s)) = Some (fin (descend upd l (upd (Suc l) s)))"
      using Suc.IH j(1) Suc.prems by simp
    then show ?case using 0 down [of l s] j(2) by (subst search_loop.simps) (simp add: stop_at_nth)
  next
    case (Suc d)
    have "search_loop round (mk ((sl_head # lv (Suc l)) ! i) (Suc l) s) =
        search_loop round (mk ((sl_head # lv (Suc l)) ! Suc i) (Suc l) s)"
      using go [of "Suc l" i s] Suc(2-4) by (subst search_loop.simps) simp
    also have "\<dots> = Some (fin (descend upd (Suc l) s))" using Suc(2-4) by (intro Suc(1)) simp_all
    finally show ?case .
  qed
qed

text \<open>A property that holds below a node of the list whenever it holds at the node.\<close>

definition cuts :: "('k \<Rightarrow> 'k \<Rightarrow> int) \<Rightarrow> 'k skiplist \<Rightarrow> (nat \<Rightarrow> nat list) \<Rightarrow> (nat \<Rightarrow> bool) \<Rightarrow> bool" where
  "cuts compare sl lv P \<longleftrightarrow>
     (\<forall>x \<in> set (lv 0). \<forall>y \<in> set (lv 0). compare (nkey sl x) (nkey sl y) < 0 \<longrightarrow> P y \<longrightarrow> P x)"

lemma level_subset:
  assumes "sl_repr compare valid sl lv" "m \<le> l" "l \<le> kMaxHeight"
  shows "set (lv l) \<subseteq> set (lv m)"
  using assms(2,3)
proof (induction l rule: dec_induct)
  case (step l)
  then have "set (lv (Suc l)) \<subseteq> set (lv l)" using sl_reprD(8) [OF assms(1), of l] by simp
  with step show ?case by auto
qed simp

lemma cut_mem:
  assumes "sl_repr compare valid sl lv" "cuts compare sl lv P" "l < kMaxHeight" "x \<in> set (lv l)" "P x"
  shows "x \<in> set (takeWhile P (lv l))"
proof -
  obtain as bs where lv: "lv l = as @ x # bs" using assms(4) by (meson split_list)
  have "P a" if "a \<in> set as" for a
  proof -
    have "a \<in> set (lv 0)" "x \<in> set (lv 0)"
      using level_subset [OF assms(1), of 0 l] assms(3) lv that by auto
    moreover have "compare (nkey sl a) (nkey sl x) < 0"
      using sl_reprD(6) [OF assms(1,3)] lv that by (simp add: sorted_wrt_append)
    ultimately show ?thesis using assms(2,5) by (auto simp: cuts_def)
  qed
  then have "takeWhile P (lv l) = as @ x # takeWhile P bs"
    using assms(5) by (simp add: lv)
  then show ?thesis by simp
qed

lemma stop_nested:
  assumes "sl_repr compare valid sl lv" "cuts compare sl lv P" "Suc l < kMaxHeight"
  shows "\<exists>j \<le> length (takeWhile P (lv l)). stop_at P (lv (Suc l)) = (sl_head # lv l) ! j"
proof (cases "takeWhile P (lv (Suc l)) = []")
  case True
  then show ?thesis by (intro exI [of _ 0]) (simp add: stop_at_def)
next
  case False
  define x where "x = last (takeWhile P (lv (Suc l)))"
  have "x \<in> set (takeWhile P (lv (Suc l)))" using False by (simp add: x_def)
  then have "x \<in> set (lv l)" "P x"
    using sl_reprD(8) [OF assms(1), of l] assms(3) by (auto dest: set_takeWhileD)
  with cut_mem [OF assms(1,2), of l x] assms(3) have "x \<in> set (takeWhile P (lv l))" by simp
  then obtain j where "j < length (takeWhile P (lv l))" "takeWhile P (lv l) ! j = x"
    by (auto simp: in_set_conv_nth)
  then show ?thesis
    using False by (intro exI [of _ "Suc j"]) (simp add: stop_at_def x_def takeWhile_nth)
qed

text \<open>What a loop reads on its way: the link of every node up to the stop.\<close>

lemma Next_before:
  assumes "sl_repr compare valid sl lv" "l < kMaxHeight" "i < length (takeWhile P (lv l))"
  shows "Next sl ((sl_head # lv l) ! i) l = Some (Some ((sl_head # lv l) ! Suc i))"
    "P ((sl_head # lv l) ! Suc i)" "(sl_head # lv l) ! Suc i \<in> set (lv l)"
proof -
  have i: "i < length (lv l)" using assms(3) length_takeWhile_le [of P "lv l"] by linarith
  then show "Next sl ((sl_head # lv l) ! i) l = Some (Some ((sl_head # lv l) ! Suc i))"
    using linked_nth [OF sl_reprD(4) [OF assms(1,2)], of i] by simp
  show "P ((sl_head # lv l) ! Suc i)"
    using nth_mem [OF assms(3)] assms(3) by (auto simp: takeWhile_nth dest: set_takeWhileD)
  show "(sl_head # lv l) ! Suc i \<in> set (lv l)" using i by simp
qed

lemma Next_stop:
  assumes "sl_repr compare valid sl lv" "l < kMaxHeight"
  shows "Next sl (stop_at P (lv l)) l = Some (after_stop P (lv l))"
  using linked_nth [OF sl_reprD(4) [OF assms], of "length (takeWhile P (lv l))"] length_takeWhile_le [of P "lv l"]
  by (simp add: stop_at_nth after_stop_nth)

lemma after_stop_mem:
  "after_stop P xs = Some y \<Longrightarrow> y \<in> set xs \<and> \<not> P y"
  by (auto simp: after_stop_def split: list.splits dest: hd_dropWhile [of P xs] set_dropWhileD [of y P xs])
     (metis list.set_intros(1) set_dropWhileD, metis hd_dropWhile list.sel(1) list.distinct(1))

lemma stop_at_mem: "stop_at P xs = sl_head \<or> stop_at P xs \<in> set xs \<and> P (stop_at P xs)"
proof (cases "takeWhile P xs = []")
  case False
  then have "last (takeWhile P xs) \<in> set (takeWhile P xs)" by simp
  from set_takeWhileD [OF this] False show ?thesis by (simp add: stop_at_def)
qed (simp add: stop_at_def)

lemma Key_at_node:
  "sl_repr compare valid sl lv \<Longrightarrow> l < kMaxHeight \<Longrightarrow> x \<in> set (lv l) \<Longrightarrow> Key_at sl x = Some (nkey sl x)"
  using sl_reprD(5) by (fastforce simp: Key_at_def nkey_def)

lemma Key_at_head: "sl_repr compare valid sl lv \<Longrightarrow> Key_at sl sl_head = Some (nkey sl sl_head)"
  using sl_reprD(1) by (simp add: Key_at_def nkey_def sl_head_def)

text \<open>The nodes before a key.\<close>

definition before :: "('k \<Rightarrow> 'k \<Rightarrow> int) \<Rightarrow> 'k skiplist \<Rightarrow> 'k \<Rightarrow> nat \<Rightarrow> bool" where
  "before compare sl key x \<longleftrightarrow> compare (nkey sl x) key < 0"

text \<open>\<open>search_repr\<close>: from the initial position a loop returns what it does at the stops.\<close>

lemma search_repr:
  assumes repr: "sl_repr compare valid sl lv" and cuts: "cuts compare sl lv P"
    and go: "\<And>l i s. l < kMaxHeight \<Longrightarrow> i < length (takeWhile P (lv l)) \<Longrightarrow>
      round (mk ((sl_head # lv l) ! i) l s) = Some (Inl (mk ((sl_head # lv l) ! Suc i) l s))"
    and down: "\<And>l s. Suc l < kMaxHeight \<Longrightarrow>
      round (mk (stop_at P (lv (Suc l))) (Suc l) s) = Some (Inl (mk (stop_at P (lv (Suc l))) l (upd (Suc l) s)))"
    and stop: "\<And>s. round (mk (stop_at P (lv 0)) 0 s) = Some (Inr (fin (upd 0 s)))"
  shows "search_loop round (mk sl_head (sl_max_height sl - 1) s) = Some (fin (descend upd (sl_max_height sl - 1) s))"
proof -
  have "sl_max_height sl - 1 < kMaxHeight" using sl_reprD(2,3) [OF repr] by linarith
  from search_loop_descends [where i = 0 and lv = lv and P = P and h = kMaxHeight and round = round
        and mk = mk and upd = upd and fin = fin and s = s, OF go down stop stop_nested [OF repr cuts] this]
  show ?thesis by simp
qed

context key_order
begin

lemma before_cuts:
  assumes "sl_repr compare valid sl lv" "valid key"
  shows "cuts compare sl lv (before compare sl key)"
proof -
  have "valid (nkey sl x)" if "x \<in> set (lv 0)" for x
    using sl_reprD(5) [OF assms(1), of 0] that by (simp add: kMaxHeight_def)
  then show ?thesis using less_trans assms(2) unfolding cuts_def before_def by blast
qed

text \<open>One round of each loop, before the stop of the level and at it.\<close>

lemma ge_round_go:
  assumes "sl_repr compare valid sl lv" "l < kMaxHeight" "i < length (takeWhile (before compare sl key) (lv l))"
  shows "FindGreaterOrEqual_round compare sl key (((sl_head # lv l) ! i, l), s) =
    Some (Inl (((sl_head # lv l) ! Suc i, l), s))"
  using Next_before [OF assms] Key_at_node [OF assms(1,2)]
  by (simp add: FindGreaterOrEqual_round_def KeyIsAfterNode_def before_def)

lemma ge_round_stop:
  assumes "sl_repr compare valid sl lv" "l < kMaxHeight"
  shows "FindGreaterOrEqual_round compare sl key ((stop_at (before compare sl key) (lv l), l), s) =
    Some (let s = map_option (\<lambda>p. p[l := Some (stop_at (before compare sl key) (lv l))]) s
          in if l = 0 then Inr (after_stop (before compare sl key) (lv l), s)
             else Inl ((stop_at (before compare sl key) (lv l), l - 1), s))"
proof -
  let ?P = "before compare sl key"
  have "KeyIsAfterNode compare sl key (after_stop ?P (lv l)) = Some False"
    using after_stop_mem [of ?P "lv l"] Key_at_node [OF assms]
    by (cases "after_stop ?P (lv l)") (auto simp: KeyIsAfterNode_def before_def)
  then show ?thesis
    using Next_stop [OF assms, of ?P] by (simp add: FindGreaterOrEqual_round_def Let_def)
qed

lemma lt_round_go:
  assumes "sl_repr compare valid sl lv" "l < kMaxHeight" "i < length (takeWhile (before compare sl key) (lv l))"
  shows "FindLessThan_round compare sl key ((sl_head # lv l) ! i, l) = Some (Inl ((sl_head # lv l) ! Suc i, l))"
proof -
  let ?P = "before compare sl key" and ?x = "(sl_head # lv l) ! i"
  have "?x = sl_head \<or> ?x \<in> set (lv l) \<and> before compare sl key ?x"
    using Next_before [OF assms(1,2), of "i - 1" ?P] assms(3) by (cases i) auto
  then obtain kx where "Key_at sl ?x = Some kx" "?x = sl_head \<or> compare kx key < 0"
    using Key_at_head [OF assms(1)] Key_at_node [OF assms(1,2), of ?x] by (auto simp: before_def)
  with Next_before [OF assms] Key_at_node [OF assms(1,2)] show ?thesis
    by (simp add: FindLessThan_round_def before_def)
qed

lemma lt_round_stop:
  assumes "sl_repr compare valid sl lv" "l < kMaxHeight"
  shows "FindLessThan_round compare sl key (stop_at (before compare sl key) (lv l), l) =
    Some (if l = 0 then Inr (stop_at (before compare sl key) (lv l))
          else Inl (stop_at (before compare sl key) (lv l), l - 1))"
proof -
  let ?P = "before compare sl key"
  obtain kx where "Key_at sl (stop_at ?P (lv l)) = Some kx" "stop_at ?P (lv l) = sl_head \<or> compare kx key < 0"
    using stop_at_mem [of ?P "lv l"] Key_at_head [OF assms(1)] Key_at_node [OF assms] by (auto simp: before_def)
  then show ?thesis
    using Next_stop [OF assms] after_stop_mem [of ?P "lv l"] Key_at_node [OF assms]
    by (cases "after_stop ?P (lv l)") (auto simp: FindLessThan_round_def before_def)
qed

lemma last_round_go:
  assumes "sl_repr compare valid sl lv" "l < kMaxHeight" "i < length (takeWhile (\<lambda>_. True) (lv l))"
  shows "FindLast_round sl ((sl_head # lv l) ! i, l) = Some (Inl ((sl_head # lv l) ! Suc i, l))"
  using Next_before(1) [OF assms] by (simp add: FindLast_round_def)

lemma last_round_stop:
  assumes "sl_repr compare valid sl lv" "l < kMaxHeight"
  shows "FindLast_round sl (stop_at (\<lambda>_. True) (lv l), l) =
    Some (if l = 0 then Inr (stop_at (\<lambda>_. True) (lv l)) else Inl (stop_at (\<lambda>_. True) (lv l), l - 1))"
  using Next_stop [OF assms, of "\<lambda>_. True"] after_stop_mem [of "\<lambda>_. True" "lv l"]
  by (cases "after_stop (\<lambda>_. True) (lv l)") (auto simp: FindLast_round_def)

text \<open>What the three searches return.\<close>

lemma FindGreaterOrEqual_repr:
  assumes repr: "sl_repr compare valid sl lv" and key: "valid key"
  shows "FindGreaterOrEqual compare sl key prev =
    Some (after_stop (before compare sl key) (lv 0),
          descend (\<lambda>l. map_option (\<lambda>p. p[l := Some (stop_at (before compare sl key) (lv l))])) (sl_max_height sl - 1) prev)"
  unfolding FindGreaterOrEqual_def
proof (rule search_repr [where mk = "\<lambda>x l s. ((x, l), s)", OF repr before_cuts [OF repr key] ge_round_go [OF repr]])
qed (use ge_round_stop [OF repr] in \<open>simp_all add: Let_def kMaxHeight_def\<close>)

lemma FindLessThan_repr:
  assumes repr: "sl_repr compare valid sl lv" and key: "valid key"
  shows "FindLessThan compare sl key = Some (stop_at (before compare sl key) (lv 0))"
  unfolding FindLessThan_def
proof (rule search_repr [where mk = "\<lambda>x l (s :: unit). (x, l)" and upd = "\<lambda>_ s. s", OF repr before_cuts [OF repr key] lt_round_go [OF repr]])
qed (use lt_round_stop [OF repr] in \<open>simp_all add: kMaxHeight_def\<close>)

lemma True_cuts: "cuts compare sl lv (\<lambda>_. True)"
  by (simp add: cuts_def)

lemma FindLast_repr:
  assumes repr: "sl_repr compare valid sl lv"
  shows "FindLast sl = Some (last (sl_head # lv 0))"
proof -
  have "FindLast sl = Some (stop_at (\<lambda>_. True) (lv 0))"
    unfolding FindLast_def
  proof (rule search_repr [where mk = "\<lambda>x l (s :: unit). (x, l)" and upd = "\<lambda>_ s. s", OF repr True_cuts last_round_go [OF repr]])
  qed (use last_round_stop [OF repr] in \<open>simp_all add: kMaxHeight_def\<close>)
  then show ?thesis by (simp add: stop_at_def takeWhile_eq_all_conv [THEN iffD2])
qed

end

section \<open>Stores\<close>

lemma Next_SetNext:
  assumes "SetNext sl x n p = Some sl'"
  shows "Next sl' y l = (if y = x \<and> l = n then Some p else Next sl y l)"
    "nkey sl' y = nkey sl y" "length (sl_nodes sl') = length (sl_nodes sl)"
    "length (node_next (sl_nodes sl' ! y)) = length (node_next (sl_nodes sl ! y))"
    "sl_max_height sl' = sl_max_height sl"
  using assms by (auto simp: SetNext_def Next_def nkey_def nth_list_update split: if_splits)

lemma SetNext_defined: "Next sl x n = Some q \<Longrightarrow> \<exists>sl'. SetNext sl x n p = Some sl'"
  by (auto simp: SetNext_def Next_def split: if_splits)

lemma Next_NewNode:
  "y < length (sl_nodes sl) \<Longrightarrow> Next (NewNode sl key h) y l = Next sl y l"
  "y < length (sl_nodes sl) \<Longrightarrow> nkey (NewNode sl key h) y = nkey sl y"
  "nkey (NewNode sl key h) (length (sl_nodes sl)) = key"
  "length (sl_nodes (NewNode sl key h)) = Suc (length (sl_nodes sl))"
  "length (node_next (sl_nodes (NewNode sl key h) ! length (sl_nodes sl))) = h"
  "sl_max_height (NewNode sl key h) = sl_max_height sl"
  by (simp_all add: NewNode_def Next_def nkey_def nth_append)

text \<open>A list that has only grown: the nodes and keys are there still, and every level may have
  more nodes.\<close>

definition grows :: "'k skiplist \<Rightarrow> (nat \<Rightarrow> nat list) \<Rightarrow> 'k skiplist \<Rightarrow> (nat \<Rightarrow> nat list) \<Rightarrow> bool" where
  "grows sl lv sl' lv' \<longleftrightarrow>
     length (sl_nodes sl) \<le> length (sl_nodes sl') \<and>
     (\<forall>y < length (sl_nodes sl). nkey sl' y = nkey sl y) \<and>
     (\<forall>l < kMaxHeight. set (lv l) \<subseteq> set (lv' l)) \<and>
     sl_max_height sl \<le> sl_max_height sl'"

lemma grows_refl [simp]: "grows sl lv sl lv"
  by (simp add: grows_def)

lemma grows_trans: "grows sl lv sl' lv' \<Longrightarrow> grows sl' lv' sl'' lv'' \<Longrightarrow> grows sl lv sl'' lv''"
  by (auto simp: grows_def) blast

text \<open>Every store of a sequence succeeds and keeps a representation that only grows; \<open>Q\<close>
  holds at the end.\<close>

primrec stores_keep ::
  "('k \<Rightarrow> 'k \<Rightarrow> int) \<Rightarrow> ('k \<Rightarrow> bool) \<Rightarrow> 'k wstore list \<Rightarrow> 'k skiplist \<Rightarrow> (nat \<Rightarrow> nat list) \<Rightarrow>
     ('k skiplist \<Rightarrow> (nat \<Rightarrow> nat list) \<Rightarrow> bool) \<Rightarrow> bool" where
  "stores_keep compare valid [] sl lv Q \<longleftrightarrow> Q sl lv"
| "stores_keep compare valid (w # ws) sl lv Q \<longleftrightarrow>
     (\<exists>sl' lv'. run_store w sl = Some sl' \<and> sl_repr compare valid sl' lv' \<and> grows sl lv sl' lv' \<and>
        stores_keep compare valid ws sl' lv' Q)"

lemma stores_keep_run:
  assumes "stores_keep compare valid ws sl lv Q" "sl_repr compare valid sl lv"
  shows "\<exists>sl' lv'. run_stores ws sl = Some sl' \<and> sl_repr compare valid sl' lv' \<and> grows sl lv sl' lv' \<and> Q sl' lv'"
  using assms
proof (induction ws arbitrary: sl lv)
  case (Cons w ws)
  then obtain sl1 lv1 where 1: "run_store w sl = Some sl1" "sl_repr compare valid sl1 lv1" "grows sl lv sl1 lv1"
    "stores_keep compare valid ws sl1 lv1 Q" by auto
  with Cons.IH [of sl1 lv1] show ?case by (auto intro: grows_trans)
qed auto

lemma sl_repr_cong:
  assumes "sl_repr compare valid sl lv"
    and "\<And>l y. l < kMaxHeight \<Longrightarrow> y = sl_head \<or> y \<in> set (lv l) \<Longrightarrow> Next sl' y l = Next sl y l"
    and "\<And>y. y < length (sl_nodes sl) \<Longrightarrow> nkey sl' y = nkey sl y"
    and "length (sl_nodes sl) \<le> length (sl_nodes sl')"
    and "sl_max_height sl \<le> sl_max_height sl'" "sl_max_height sl' \<le> kMaxHeight"
  shows "sl_repr compare valid sl' lv"
proof -
  have "linked sl' l sl_head (lv l)" if "l < kMaxHeight" for l
  proof -
    have "linked sl' l sl_head (lv l) = linked sl l sl_head (lv l)"
      using assms(2) [OF that] by (intro linked_cong) auto
    with sl_reprD(4) [OF assms(1) that] show ?thesis by simp
  qed
  moreover have "x < length (sl_nodes sl') \<and> nkey sl' x = nkey sl x \<and> x \<noteq> sl_head \<and> valid (nkey sl x)"
    if "l < kMaxHeight" "x \<in> set (lv l)" for l x
    using sl_reprD(5) [OF assms(1) that] assms(3,4) by auto
  moreover have "sorted_wrt (\<lambda>x y. compare (nkey sl' x) (nkey sl' y) < 0) (lv l)" if "l < kMaxHeight" for l
    using sl_reprD(6) [OF assms(1) that] by (rule sorted_wrt_mono_rel [rotated]) (use calculation(2) that in force)
  ultimately show ?thesis using assms(1,4-6) by (auto simp: sl_repr_def)
qed

section \<open>Linking a node\<close>

lemma sorted_irrefl_distinct: "sorted_wrt R xs \<Longrightarrow> \<forall>y \<in> set xs. \<not> R y y \<Longrightarrow> distinct xs"
  by (induction xs) auto

text \<open>The levels while a node is linked: it is in the levels below \<open>i\<close>, behind the nodes with
  property \<open>P\<close>.\<close>

definition ins_levels :: "(nat \<Rightarrow> bool) \<Rightarrow> nat \<Rightarrow> (nat \<Rightarrow> nat list) \<Rightarrow> nat \<Rightarrow> nat \<Rightarrow> nat list" where
  "ins_levels P x lv i l = (if l < i then takeWhile P (lv l) @ x # dropWhile P (lv l) else lv l)"

lemma set_ins_levels [simp]: "set (ins_levels P x lv i l) = (if l < i then insert x (set (lv l)) else set (lv l))"
proof -
  have "set (takeWhile P (lv l)) \<union> set (dropWhile P (lv l)) = set (lv l)"
    by (metis set_append takeWhile_dropWhile_id)
  then show ?thesis by (auto simp: ins_levels_def)
qed

lemma ins_levels_0 [simp]: "ins_levels P x lv 0 = lv"
  by (simp add: ins_levels_def fun_eq_iff)

text \<open>The node \<open>x\<close> with its key and height, which is linked into the first \<open>i\<close> levels.\<close>

definition linking ::
  "('k \<Rightarrow> 'k \<Rightarrow> int) \<Rightarrow> ('k \<Rightarrow> bool) \<Rightarrow> 'k skiplist \<Rightarrow> (nat \<Rightarrow> nat list) \<Rightarrow> (nat \<Rightarrow> bool) \<Rightarrow> nat \<Rightarrow> nat \<Rightarrow> nat \<Rightarrow> bool" where
  "linking compare valid sl lv P x height i \<longleftrightarrow>
     sl_repr compare valid sl (ins_levels P x lv i) \<and> i \<le> height \<and> height \<le> sl_max_height sl \<and>
     x < length (sl_nodes sl) \<and> x \<noteq> sl_head \<and> x \<notin> set (lv 0) \<and>
     length (node_next (sl_nodes sl ! x)) = height \<and> valid (nkey sl x) \<and>
     (\<forall>y \<in> set (lv 0). if P y then compare (nkey sl y) (nkey sl x) < 0 else compare (nkey sl x) (nkey sl y) < 0) \<and>
     (\<forall>l < kMaxHeight. set (lv l) \<subseteq> set (lv 0))"

lemma linking_levels:
  assumes "linking compare valid sl lv P x height i" "i < height"
  shows "i < kMaxHeight" "sl_repr compare valid sl (ins_levels P x lv i)" "ins_levels P x lv i i = lv i"
    "x \<notin> set (lv i)" "x \<noteq> sl_head"
proof -
  show *: "sl_repr compare valid sl (ins_levels P x lv i)" using assms by (simp add: linking_def)
  show i: "i < kMaxHeight" using sl_reprD(3) [OF *] assms by (simp add: linking_def)
  show "x \<notin> set (lv i)" "x \<noteq> sl_head" using assms i by (auto simp: linking_def)
qed (simp add: ins_levels_def)

lemma CopyLink_keeps:
  assumes "linking compare valid sl lv P x height i" "i < height"
  shows "\<exists>sl'. run_store (CopyLink x i (stop_at P (lv i))) sl = Some sl' \<and>
    linking compare valid sl' lv P x height i \<and> Next sl' x i = Some (after_stop P (lv i)) \<and>
    grows sl (ins_levels P x lv i) sl' (ins_levels P x lv i)"
proof -
  note lk = linking_levels [OF assms]
  have stop: "Next sl (stop_at P (lv i)) i = Some (after_stop P (lv i))"
    using Next_stop [OF lk(2,1), of P] lk(3) by simp
  obtain sl' where set: "SetNext sl x i (after_stop P (lv i)) = Some sl'"
    using assms by (auto simp: linking_def SetNext_def)
  note frame = Next_SetNext [OF set]
  have "sl_repr compare valid sl' (ins_levels P x lv i)"
  proof (rule sl_repr_cong [OF lk(2)])
    show "Next sl' y l = Next sl y l" if "y = sl_head \<or> y \<in> set (ins_levels P x lv i l)" for l y
      using that lk(4,5) by (auto simp: frame(1) split: if_splits)
  qed (use frame sl_reprD(3) [OF lk(2)] in simp_all)
  then have "linking compare valid sl' lv P x height i"
    using assms(1) by (simp add: linking_def frame)
  with set stop frame show ?thesis by (auto simp: grows_def)
qed

lemma ins_levels_Suc: "ins_levels P x lv (Suc i) l = (if l = i then takeWhile P (lv i) @ x # dropWhile P (lv i) else ins_levels P x lv i l)"
  by (auto simp: ins_levels_def)

context key_order
begin

lemma sorted_insert:
  assumes "sorted_wrt (\<lambda>x y. compare (k x) (k y) < 0) xs" "valid (k x)" "\<forall>y \<in> set xs. valid (k y)"
    and "\<forall>y \<in> set xs. if P y then compare (k y) (k x) < 0 else compare (k x) (k y) < 0"
  shows "sorted_wrt (\<lambda>x y. compare (k x) (k y) < 0) (takeWhile P xs @ x # dropWhile P xs)"
proof -
  let ?R = "\<lambda>x y. compare (k x) (k y) < 0"
  have sorted: "sorted_wrt ?R (takeWhile P xs)" "sorted_wrt ?R (dropWhile P xs)"
    "\<forall>y \<in> set (takeWhile P xs). \<forall>z \<in> set (dropWhile P xs). ?R y z"
    using assms(1) sorted_wrt_append [of ?R "takeWhile P xs" "dropWhile P xs"]
    by (simp_all only: takeWhile_dropWhile_id simp_thms) blast
  have "compare (k y) (k x) < 0" if "y \<in> set (takeWhile P xs)" for y
    using assms(4) set_takeWhileD [OF that] by auto
  moreover have "compare (k x) (k y) < 0" if "y \<in> set (dropWhile P xs)" for y
  proof (cases "dropWhile P xs")
    case (Cons d ds)
    have mem: "d \<in> set xs" "y \<in> set xs" using Cons that by (metis list.set_intros(1) set_dropWhileD)+
    have "\<not> P d" using Cons hd_dropWhile [of P xs] by simp
    with assms(4) mem(1) have d: "compare (k x) (k d) < 0" by auto
    show ?thesis
    proof (cases "y = d")
      case False
      then have "compare (k d) (k y) < 0" using sorted(2) Cons that by auto
      with d show ?thesis using less_trans assms(2,3) mem by blast
    qed (simp add: d)
  next
    case Nil
    then show ?thesis using that by (simp only: list.set) simp
  qed
  moreover have "compare (k y) (k z) < 0" if "y \<in> set (takeWhile P xs)" "z \<in> set (dropWhile P xs)" for y z
    using sorted(3) that by blast
  ultimately show ?thesis using sorted by (simp add: sorted_wrt_append)
qed

lemma PublishLink_keeps:
  assumes lk: "linking compare valid sl lv P x height i" "i < height"
    and copied: "Next sl x i = Some (after_stop P (lv i))"
  shows "\<exists>sl'. run_store (PublishLink x i (stop_at P (lv i))) sl = Some sl' \<and>
    linking compare valid sl' lv P x height (Suc i) \<and>
    grows sl (ins_levels P x lv i) sl' (ins_levels P x lv (Suc i))"
proof -
  note lv = linking_levels [OF lk]
  have stop: "Next sl (stop_at P (lv i)) i = Some (after_stop P (lv i))"
    using Next_stop [OF lv(2,1), of P] lv(3) by simp
  from SetNext_defined [OF stop] obtain sl' where set: "SetNext sl (stop_at P (lv i)) i (Some x) = Some sl'" by auto
  note frame = Next_SetNext [OF set]
  have sorted_i: "sorted_wrt (\<lambda>x y. compare (nkey sl x) (nkey sl y) < 0) (lv i)"
    using sl_reprD(6) [OF lv(2,1)] lv(3) by simp
  have valid_i: "\<forall>y \<in> set (lv i). valid (nkey sl y)"
    using sl_reprD(5) [OF lv(2,1)] lv(3) by simp
  have facts: "set (lv i) \<subseteq> set (lv 0)" "valid (nkey sl x)" "x < length (sl_nodes sl)" "height \<le> sl_max_height sl"
    "\<forall>y \<in> set (lv 0). if P y then compare (nkey sl y) (nkey sl x) < 0 else compare (nkey sl x) (nkey sl y) < 0"
    using lk(1) lv(1) by (simp_all add: linking_def)
  have sorted_x: "sorted_wrt (\<lambda>x y. compare (nkey sl x) (nkey sl y) < 0) (takeWhile P (lv i) @ x # dropWhile P (lv i))"
    using facts by (intro sorted_insert sorted_i valid_i) auto
  have dist: "distinct (sl_head # lv i)"
  proof -
    have "distinct (lv i)"
      using valid_i not_less_self by (intro sorted_irrefl_distinct [OF sorted_i]) auto
    then show ?thesis using sl_reprD(5) [OF lv(2,1)] lv(3) by auto
  qed
  have linked_i: "linked sl' i sl_head (takeWhile P (lv i) @ x # dropWhile P (lv i))"
  proof (rule linked_splice)
    show "linked sl i sl_head (takeWhile P (lv i) @ dropWhile P (lv i))"
      using sl_reprD(4) [OF lv(2,1)] lv(3) by simp
    show "Next sl' x i = Next sl (last (sl_head # takeWhile P (lv i))) i"
      using copied stop lv(4,5) stop_at_mem [of P "lv i"] by (auto simp: frame(1) stop_at_def)
    show "Next sl' y i = (if y = last (sl_head # takeWhile P (lv i)) then Some (Some x) else Next sl y i)" for y
      by (simp add: frame(1) stop_at_def)
  qed (use dist lv(4,5) in \<open>simp_all only: takeWhile_dropWhile_id list.set\<close>, simp)
  have linked_l: "linked sl' l sl_head (ins_levels P x lv i l)" if "l \<noteq> i" "l < kMaxHeight" for l
  proof -
    have "linked sl' l sl_head (ins_levels P x lv i l) = linked sl l sl_head (ins_levels P x lv i l)"
      using that by (intro linked_cong) (simp add: frame(1))
    with sl_reprD(4) [OF lv(2) that(2)] show ?thesis by simp
  qed
  have "sl_repr compare valid sl' (ins_levels P x lv (Suc i))"
    unfolding sl_repr_def
  proof (intro conjI allI impI)
    fix l assume l: "l < kMaxHeight"
    show "linked sl' l sl_head (ins_levels P x lv (Suc i) l)"
      using linked_i linked_l [OF _ l] by (simp add: ins_levels_Suc)
    show "sorted_wrt (\<lambda>x y. compare (nkey sl' x) (nkey sl' y) < 0) (ins_levels P x lv (Suc i) l)"
      using sorted_x sl_reprD(6) [OF lv(2) l] by (simp add: ins_levels_Suc frame(2))
    show "\<forall>y \<in> set (ins_levels P x lv (Suc i) l). y \<noteq> sl_head \<and> y < length (sl_nodes sl') \<and> valid (nkey sl' y)"
      using sl_reprD(5) [OF lv(2) l] facts(2,3) lv(5) by (auto simp: frame split: if_splits)
    show "ins_levels P x lv (Suc i) l = []" if "sl_max_height sl' \<le> l"
      using sl_reprD(7) [OF lv(2) l] that facts(4) lk(2) by (simp add: frame ins_levels_Suc)
    show "set (ins_levels P x lv (Suc i) (Suc l)) \<subseteq> set (ins_levels P x lv (Suc i) l)"
      using sl_reprD(8) [OF lv(2) l] by (auto split: if_splits)
  next
    show "sl_nodes sl' \<noteq> []" "1 \<le> sl_max_height sl'" "sl_max_height sl' \<le> kMaxHeight"
      using sl_reprD(1-3) [OF lv(2)] frame(3,5) by auto
    show "ins_levels P x lv (Suc i) kMaxHeight = []"
      using lv(1,2) by (simp add: ins_levels_Suc sl_repr_def)
  qed
  with set frame show ?thesis
    using lk by (auto simp: linking_def grows_def)
qed

end

section \<open>\<open>Insert\<close>\<close>

lemma RandomHeight_loop_bounds:
  "0 < height \<Longrightarrow> height \<le> kMaxHeight \<Longrightarrow> RandomHeight_loop height rnd = (h, rnd') \<Longrightarrow> 0 < h \<and> h \<le> kMaxHeight"
proof (induction height rnd rule: RandomHeight_loop.induct)
  case (1 height rnd)
  then show ?case by (auto simp: RandomHeight_loop.simps [of height rnd] Let_def split: if_splits)
qed

lemma RandomHeight_bounds:
  obtains h rnd where "RandomHeight sl = Some (h, sl\<lparr>sl_rnd := rnd\<rparr>)" "0 < h" "h \<le> kMaxHeight"
proof -
  obtain h rnd where h: "RandomHeight_loop 1 (sl_rnd sl) = (h, rnd)" by fastforce
  with RandomHeight_loop_bounds [OF _ _ h] have "0 < h" "h \<le> kMaxHeight" by (simp_all add: kMaxHeight_def)
  with h that show thesis by (simp add: RandomHeight_def)
qed

lemma descend_array:
  "\<exists>q. descend (\<lambda>l. map_option (\<lambda>p. p[l := Some (f l)])) h (Some p) = Some q \<and> length q = length p \<and>
     (\<forall>l < length p. q ! l = (if l \<le> h then Some (f l) else p ! l))"
proof (induction h arbitrary: p)
  case (Suc h)
  from Suc [of "p[Suc h := Some (f (Suc h))]"] show ?case by (auto simp: nth_list_update le_Suc_eq)
qed (auto simp: nth_list_update)

lemma those_map_Some: "those (map (\<lambda>i. Some (f i)) xs) = Some (map f xs)"
  by (induction xs) simp_all

lemma max_height_repr:
  assumes "sl_repr compare valid sl lv" "sl_max_height sl \<le> h" "h \<le> kMaxHeight"
  shows "sl_repr compare valid (sl\<lparr>sl_max_height := h\<rparr>) lv"
  using assms(2,3) by (intro sl_repr_cong [OF assms(1)]) (simp_all add: Next_def nkey_def)

lemma NewNode_repr:
  assumes "sl_repr compare valid sl lv"
  shows "sl_repr compare valid (NewNode sl key h) lv"
proof (rule sl_repr_cong [OF assms])
  show "Next (NewNode sl key h) y l = Next sl y l" if "l < kMaxHeight" "y = sl_head \<or> y \<in> set (lv l)" for l y
    using that sl_reprD(1) [OF assms] sl_reprD(5) [OF assms that(1)]
    by (intro Next_NewNode(1)) (auto simp: sl_head_def)
qed (use sl_reprD(2,3) [OF assms] in \<open>simp_all add: Next_NewNode\<close>)

lemma rnd_repr: "sl_repr compare valid (sl\<lparr>sl_rnd := rnd\<rparr>) lv \<longleftrightarrow> sl_repr compare valid sl lv"
proof -
  have "Next (sl\<lparr>sl_rnd := rnd\<rparr>) y l = Next sl y l" "nkey (sl\<lparr>sl_rnd := rnd\<rparr>) y = nkey sl y" for y l
    by (simp_all add: Next_def nkey_def)
  moreover from this have "linked (sl\<lparr>sl_rnd := rnd\<rparr>) l x xs = linked sl l x xs" for l x xs
    by (intro linked_cong) simp
  ultimately show ?thesis by (simp add: sl_repr_def)
qed

context key_order
begin

lemma links_keep:
  assumes "linking compare valid sl lv P x height i" "\<forall>j < height. ps ! j = stop_at P (lv j)"
    and "nkey sl x = key" "length (sl_nodes sl) = n"
  shows "stores_keep compare valid (concat (map (\<lambda>i. [CopyLink x i (ps ! i), PublishLink x i (ps ! i)]) [i..<height]))
    sl (ins_levels P x lv i)
    (\<lambda>sl' lv'. lv' = ins_levels P x lv height \<and> nkey sl' x = key \<and> length (sl_nodes sl') = n)"
  using assms
proof (induction "height - i" arbitrary: i sl)
  case 0
  then have "i = height" by (simp add: linking_def)
  with 0 show ?case by simp
next
  case (Suc d)
  then have i: "i < height" by simp
  from CopyLink_keeps [OF Suc.prems(1) i] obtain sl1 where 1:
    "run_store (CopyLink x i (ps ! i)) sl = Some sl1" "linking compare valid sl1 lv P x height i"
    "Next sl1 x i = Some (after_stop P (lv i))" "grows sl (ins_levels P x lv i) sl1 (ins_levels P x lv i)"
    using Suc.prems(2) i by auto
  from PublishLink_keeps [OF 1(2) i 1(3)] obtain sl2 where 2:
    "run_store (PublishLink x i (ps ! i)) sl1 = Some sl2" "linking compare valid sl2 lv P x height (Suc i)"
    "grows sl1 (ins_levels P x lv i) sl2 (ins_levels P x lv (Suc i))"
    using Suc.prems(2) i by auto
  have "x < length (sl_nodes sl)" "x < length (sl_nodes sl1)" using Suc.prems(1) 1(2) by (simp_all add: linking_def)
  then have "nkey sl2 x = key" using 1(4) 2(3) Suc.prems(3) by (simp add: grows_def)
  moreover have "length (sl_nodes sl2) = n"
    using 1(1) 2(1) Suc.prems(4) by (auto simp: Next_SetNext(3) bind_eq_Some_conv)
  ultimately have "stores_keep compare valid (concat (map (\<lambda>i. [CopyLink x i (ps ! i), PublishLink x i (ps ! i)]) [Suc i..<height]))
      sl2 (ins_levels P x lv (Suc i))
      (\<lambda>sl' lv'. lv' = ins_levels P x lv height \<and> nkey sl' x = key \<and> length (sl_nodes sl') = n)"
    using Suc(2) Suc.prems(2) 2(2) by (intro Suc(1)) simp_all
  moreover have "sl_repr compare valid sl1 (ins_levels P x lv i)" "sl_repr compare valid sl2 (ins_levels P x lv (Suc i))"
    using 1(2) 2(2) by (simp_all add: linking_def)
  ultimately show ?case
    using 1(1,4) 2(1,3) by (subst upt_conv_Cons [OF i]) (simp only: list.map concat.simps append_Cons append_Nil stores_keep.simps, blast)
qed

end

text \<open>The part of \<open>Insert\<close> before the stores: what it computes, and when it fails its assertion.\<close>

context key_order
begin

lemma no_duplicate:
  assumes repr: "sl_repr compare valid sl lv" and key: "valid key"
    and "\<forall>d. after_stop (before compare sl key) (lv 0) = Some d \<longrightarrow> compare key (nkey sl d) \<noteq> 0"
    and y: "y \<in> set (lv 0)" "\<not> before compare sl key y"
  shows "compare key (nkey sl y) < 0"
proof -
  let ?P = "before compare sl key"
  note repr0 = sl_reprD(5) [OF repr, of 0, unfolded kMaxHeight_def, simplified]
  have "y \<in> set (dropWhile ?P (lv 0))"
    using y by (metis Un_iff set_append set_takeWhileD takeWhile_dropWhile_id)
  then obtain d ds where drop: "dropWhile ?P (lv 0) = d # ds" by (cases "dropWhile ?P (lv 0)") auto
  then have d: "after_stop ?P (lv 0) = Some d" by (simp add: after_stop_def)
  with after_stop_mem [OF d] assms(3) have d: "d \<in> set (lv 0)" "\<not> ?P d" "compare key (nkey sl d) \<noteq> 0" by auto
  with compare_swap [of key "nkey sl d"] repr0 [OF d(1)] key have less: "compare key (nkey sl d) < 0"
    by (simp add: before_def)
  show ?thesis
  proof (cases "y = d")
    case False
    have "sorted_wrt (\<lambda>x y. compare (nkey sl x) (nkey sl y) < 0) (takeWhile ?P (lv 0) @ d # ds)"
      using sl_reprD(6) [OF repr, of 0] drop by (metis kMaxHeight_def takeWhile_dropWhile_id zero_less_numeral)
    with False have "compare (nkey sl d) (nkey sl y) < 0"
      using \<open>y \<in> set (dropWhile ?P (lv 0))\<close> drop by (auto simp: sorted_wrt_append)
    with less show ?thesis using less_trans key repr0 [OF d(1)] repr0 [OF y(1)] by blast
  qed (simp add: less)
qed

lemma Insert_plan_eq:
  assumes repr: "sl_repr compare valid sl lv" and key: "valid key"
  obtains height rnd where "0 < height" "height \<le> kMaxHeight"
    "Insert_plan compare sl key =
       asserting (\<forall>d. after_stop (before compare sl key) (lv 0) = Some d \<longrightarrow> compare key (nkey sl d) \<noteq> 0)
         (Some (insert_stores sl key height (map (\<lambda>i. stop_at (before compare sl key) (lv i)) [0..<height]),
                sl\<lparr>sl_rnd := rnd\<rparr>))"
proof -
  let ?P = "before compare sl key"
  obtain height rnd where h: "RandomHeight sl = Some (height, sl\<lparr>sl_rnd := rnd\<rparr>)" "0 < height" "height \<le> kMaxHeight"
    by (rule RandomHeight_bounds)
  obtain q where q: "descend (\<lambda>l. map_option (\<lambda>p. p[l := Some (stop_at ?P (lv l))])) (sl_max_height sl - 1)
      (Some (replicate kMaxHeight None)) = Some q"
    "\<forall>l < kMaxHeight. q ! l = (if l \<le> sl_max_height sl - 1 then Some (stop_at ?P (lv l)) else None)"
    using descend_array [of "\<lambda>l. stop_at ?P (lv l)" "sl_max_height sl - 1" "replicate kMaxHeight None"] by auto
  have find: "FindGreaterOrEqual compare sl key (Some (replicate kMaxHeight None)) = Some (after_stop ?P (lv 0), Some q)"
    using FindGreaterOrEqual_repr [OF repr key] q(1) by simp
  have "(if sl_max_height sl \<le> i \<and> i < height then Some sl_head else q ! i) = Some (stop_at ?P (lv i))"
    if "i < height" for i
    using q(2) that h(3) sl_reprD(7) [OF repr, of i] sl_reprD(2) [OF repr] by (auto simp: stop_at_def)
  then have map_eq: "map (\<lambda>i. if sl_max_height sl \<le> i \<and> i < height then Some sl_head else q ! i) [0..<height] =
      map (\<lambda>i. Some (stop_at ?P (lv i))) [0..<height]"
    by simp
  then have ps: "those (take height (map (\<lambda>i. if sl_max_height sl \<le> i \<and> i < height then Some sl_head else the (Some q) ! i) [0..<kMaxHeight])) =
      Some (map (\<lambda>i. stop_at ?P (lv i)) [0..<height])"
  proof -
    have "take height [0..<kMaxHeight] = [0..<height]" using h(3) by (simp add: take_upt)
    then show ?thesis by (simp only: take_map option.sel map_eq those_map_Some)
  qed
  have stores: "insert_stores (sl\<lparr>sl_rnd := rnd\<rparr>) = insert_stores sl"
    by (simp add: fun_eq_iff insert_stores_def)
  have "Key_at sl d = Some (nkey sl d)" if "after_stop ?P (lv 0) = Some d" for d
    using after_stop_mem [OF that] Key_at_node [OF repr, of 0 d] by (simp add: kMaxHeight_def)
  then have "Insert_plan compare sl key =
       asserting (\<forall>d. after_stop ?P (lv 0) = Some d \<longrightarrow> compare key (nkey sl d) \<noteq> 0)
         (Some (insert_stores sl key height (map (\<lambda>i. stop_at ?P (lv i)) [0..<height]), sl\<lparr>sl_rnd := rnd\<rparr>))"
    by (cases "after_stop ?P (lv 0)") (auto simp: Insert_plan_def find h(1) ps stores asserting_def)
  with that h(2,3) show thesis by blast
qed

end

text \<open>The stores, one by one.\<close>

context key_order
begin

lemma insert_stores_keep:
  assumes repr: "sl_repr compare valid sl lv" and key: "valid key" and height: "0 < height" "height \<le> kMaxHeight"
    and nodup: "\<forall>d. after_stop (before compare sl key) (lv 0) = Some d \<longrightarrow> compare key (nkey sl d) \<noteq> 0"
  shows "stores_keep compare valid
    (insert_stores sl key height (map (\<lambda>i. stop_at (before compare sl key) (lv i)) [0..<height])) sl lv
    (\<lambda>sl' lv'. lv' = ins_levels (before compare sl key) (length (sl_nodes sl)) lv height \<and>
       nkey sl' (length (sl_nodes sl)) = key \<and> length (sl_nodes sl') = Suc (length (sl_nodes sl)))"
proof -
  let ?P = "before compare sl key" and ?x = "length (sl_nodes sl)"
  let ?ps = "map (\<lambda>i. stop_at ?P (lv i)) [0..<height]"
  let ?Q = "\<lambda>sl' lv'. lv' = ins_levels ?P ?x lv height \<and> nkey sl' ?x = key \<and> length (sl_nodes sl') = Suc ?x"
  let ?links = "concat (map (\<lambda>i. [CopyLink ?x i (?ps ! i), PublishLink ?x i (?ps ! i)]) [0..<height])"
  have rest: "stores_keep compare valid (StoreNewNode key height # ?links) sl1 lv ?Q"
    if sl1: "sl_repr compare valid sl1 lv" "sl_nodes sl1 = sl_nodes sl" "height \<le> sl_max_height sl1" for sl1
  proof -
    let ?sl = "NewNode sl1 key height"
    note repr' = NewNode_repr [OF sl1(1), of key height]
    have nkey: "nkey ?sl y = nkey sl y" if "y < ?x" for y
      using that sl1(2) Next_NewNode(2) [of y sl1] by (simp add: nkey_def)
    have mem: "y < ?x \<and> valid (nkey sl y)" if "y \<in> set (lv 0)" for y
      using sl_reprD(5) [OF repr, of 0] that by (simp add: kMaxHeight_def)
    have "linking compare valid ?sl lv ?P ?x height 0"
      unfolding linking_def
    proof (intro conjI ballI allI impI)
      show "sl_repr compare valid ?sl (ins_levels ?P ?x lv 0)" using repr' by simp
      show "?x \<noteq> sl_head" using sl_reprD(1) [OF repr] by (simp add: sl_head_def)
      show "?x \<notin> set (lv 0)" using mem by blast
      show "valid (nkey ?sl ?x)" using key Next_NewNode(3) [of sl1 key height] sl1(2) by simp
      show "if ?P y then compare (nkey ?sl y) (nkey ?sl ?x) < 0 else compare (nkey ?sl ?x) (nkey ?sl y) < 0"
        if "y \<in> set (lv 0)" for y
        using no_duplicate [OF repr key nodup that] mem [OF that] nkey [of y] Next_NewNode(3) [of sl1 key height] sl1(2)
        by (simp add: before_def)
      show "set (lv l) \<subseteq> set (lv 0)" if "l < kMaxHeight" for l
        using level_subset [OF repr, of 0 l] that by simp
      show "length (node_next (sl_nodes ?sl ! ?x)) = height"
        using Next_NewNode(5) [of sl1 key height] sl1(2) by simp
    qed (use sl1 in \<open>simp_all add: Next_NewNode\<close>)
    from links_keep [OF this, of ?ps key "Suc ?x"] Next_NewNode(3,4) [of sl1 key height] sl1(2)
    have "stores_keep compare valid ?links ?sl lv ?Q" by simp
    moreover have "grows sl1 lv ?sl lv" using Next_NewNode(2) by (simp add: grows_def NewNode_def nkey_def nth_append)
    ultimately show ?thesis using repr' by auto
  qed
  show ?thesis
  proof (cases "height > sl_max_height sl")
    case True
    let ?sl1 = "sl\<lparr>sl_max_height := height\<rparr>"
    have "sl_repr compare valid ?sl1 lv" using max_height_repr [OF repr] True height(2) by simp
    moreover from rest [OF this] have "stores_keep compare valid (StoreNewNode key height # ?links) ?sl1 lv ?Q" by simp
    moreover have "grows sl lv ?sl1 lv" using True by (simp add: grows_def nkey_def)
    ultimately show ?thesis using True
      by (simp only: insert_stores_def if_True append_Cons append_Nil stores_keep.simps(2) run_store.simps) blast
  next
    case False
    then show ?thesis using rest [OF repr] by (simp only: insert_stores_def if_False append_Nil)
  qed
qed

end

section \<open>The skip list as a sorted list of keys\<close>

definition holds_keys :: "('k \<Rightarrow> 'k \<Rightarrow> int) \<Rightarrow> ('k \<Rightarrow> bool) \<Rightarrow> 'k skiplist \<Rightarrow> 'k list \<Rightarrow> bool" where
  "holds_keys compare valid sl ks \<longleftrightarrow> (\<exists>lv. sl_repr compare valid sl lv \<and> ks = map (nkey sl) (lv 0))"

text \<open>An iterator at the \<open>i\<close>-th key, or behind the last one.\<close>

definition sl_iter_at :: "'k skiplist \<Rightarrow> nat list \<Rightarrow> sl_iterator \<Rightarrow> nat \<Rightarrow> bool" where
  "sl_iter_at sl xs it i \<longleftrightarrow> it = (if i < length xs then Some (xs ! i) else None)"

lemma null_links_SetNext:
  assumes "null_links n sl = Some sl'"
  shows "(\<forall>l < n. Next sl' sl_head l = Some None) \<and> sl_max_height sl' = sl_max_height sl \<and>
    length (sl_nodes sl') = length (sl_nodes sl)"
  using assms by (induction n arbitrary: sl') (auto simp: bind_eq_Some_conv Next_SetNext less_Suc_eq)

lemma null_links_defined:
  assumes "0 < length (sl_nodes sl)" "n \<le> length (node_next (sl_nodes sl ! 0))"
  shows "\<exists>sl'. null_links n sl = Some sl' \<and> length (sl_nodes sl') = length (sl_nodes sl) \<and>
    length (node_next (sl_nodes sl' ! 0)) = length (node_next (sl_nodes sl ! 0))"
  using assms(2)
proof (induction n)
  case (Suc n)
  then obtain sl' where sl': "null_links n sl = Some sl'" "length (sl_nodes sl') = length (sl_nodes sl)"
    "length (node_next (sl_nodes sl' ! 0)) = length (node_next (sl_nodes sl ! 0))" by auto
  moreover obtain sl'' where "SetNext sl' sl_head n None = Some sl''"
    using sl' Suc.prems assms(1) by (auto simp: SetNext_def sl_head_def)
  ultimately show ?case by (auto simp: Next_SetNext)
qed simp

lemma SkipList_new_repr: "\<exists>sl. SkipList_new key = Some sl \<and> sl_repr compare valid sl (\<lambda>_. [])"
proof -
  let ?sl = "NewNode \<lparr>sl_nodes = [], sl_max_height = 1, sl_rnd = Random_new 0xdeadbeef\<rparr> key kMaxHeight"
  obtain sl where sl: "null_links kMaxHeight ?sl = Some sl"
    using null_links_defined [of ?sl kMaxHeight] by (auto simp: NewNode_def)
  from null_links_SetNext [OF sl] have "sl_repr compare valid sl (\<lambda>_. [])"
    by (cases "sl_nodes sl") (simp_all add: sl_repr_def NewNode_def kMaxHeight_def)
  with sl show ?thesis by (simp add: SkipList_new_def)
qed

context key_order
begin

lemma Insert_repr:
  assumes repr: "sl_repr compare valid sl lv" and key: "valid key"
  shows "if \<exists>d. after_stop (before compare sl key) (lv 0) = Some d \<and> compare key (nkey sl d) = 0
    then Insert compare key sl = None
    else \<exists>sl' lv'. Insert compare key sl = Some sl' \<and> sl_repr compare valid sl' lv' \<and>
      map (nkey sl') (lv' 0) = takeWhile (\<lambda>k. compare k key < 0) (map (nkey sl) (lv 0)) @
        key # dropWhile (\<lambda>k. compare k key < 0) (map (nkey sl) (lv 0))"
proof -
  let ?P = "before compare sl key" and ?x = "length (sl_nodes sl)"
  obtain height rnd where plan: "0 < height" "height \<le> kMaxHeight" "Insert_plan compare sl key =
     asserting (\<forall>d. after_stop ?P (lv 0) = Some d \<longrightarrow> compare key (nkey sl d) \<noteq> 0)
       (Some (insert_stores sl key height (map (\<lambda>i. stop_at ?P (lv i)) [0..<height]), sl\<lparr>sl_rnd := rnd\<rparr>))"
    by (rule Insert_plan_eq [OF repr key])
  show ?thesis
  proof (cases "\<exists>d. after_stop ?P (lv 0) = Some d \<and> compare key (nkey sl d) = 0")
    case True
    then have "\<not> (\<forall>d. after_stop ?P (lv 0) = Some d \<longrightarrow> compare key (nkey sl d) \<noteq> 0)" by blast
    with True plan(3) show ?thesis by (simp add: Insert_def)
  next
    case False
    let ?sl = "sl\<lparr>sl_rnd := rnd\<rparr>"
    have sl: "before compare ?sl key = ?P" "nkey ?sl = nkey sl" "insert_stores ?sl = insert_stores sl"
      by (simp_all add: fun_eq_iff before_def nkey_def insert_stores_def)
    from False have nodup: "\<forall>d. after_stop ?P (lv 0) = Some d \<longrightarrow> compare key (nkey sl d) \<noteq> 0" by blast
    have "sl_repr compare valid ?sl lv" using repr by (simp add: rnd_repr)
    from stores_keep_run [OF insert_stores_keep [OF this key plan(1,2)] this, unfolded sl, OF nodup]
    obtain sl' lv' where sl': "run_stores (insert_stores sl key height (map (\<lambda>i. stop_at ?P (lv i)) [0..<height])) ?sl = Some sl'"
      "sl_repr compare valid sl' lv'" "grows ?sl lv sl' lv'" "lv' = ins_levels ?P ?x lv height" "nkey sl' ?x = key"
      by (simp only: select_convs update_convs) auto
    have ins: "Insert compare key sl = Some sl'" using plan(3) nodup sl'(1) by (simp add: Insert_def)
    have old: "nkey sl' y = nkey sl y" if "y \<in> set (lv 0)" for y
      using sl'(3) sl_reprD(5) [OF repr, of 0 y] that by (simp add: grows_def sl(2) kMaxHeight_def)
    have "map (nkey sl') (takeWhile ?P (lv 0)) = map (nkey sl) (takeWhile ?P (lv 0))"
      "map (nkey sl') (dropWhile ?P (lv 0)) = map (nkey sl) (dropWhile ?P (lv 0))"
      using old by (auto dest: set_takeWhileD set_dropWhileD)
    then have "map (nkey sl') (lv' 0) = map (nkey sl) (takeWhile ?P (lv 0)) @ key # map (nkey sl) (dropWhile ?P (lv 0))"
      using sl'(4,5) plan(1) by (simp add: ins_levels_def)
    also have "\<dots> = takeWhile (\<lambda>k. compare k key < 0) (map (nkey sl) (lv 0)) @
        key # dropWhile (\<lambda>k. compare k key < 0) (map (nkey sl) (lv 0))"
      by (simp add: takeWhile_map dropWhile_map comp_def before_def [abs_def])
    finally show ?thesis using False ins sl'(2) by auto
  qed
qed

end

section \<open>Positions of the iterator\<close>

context key_order
begin

lemma after_stop_position:
  assumes "sl_repr compare valid sl lv"
  shows "sl_iter_at sl (lv 0) (after_stop (before compare sl key) (lv 0))
    (length (takeWhile (\<lambda>k. compare k key < 0) (map (nkey sl) (lv 0))))"
  by (simp add: sl_iter_at_def after_stop_nth takeWhile_map comp_def before_def [abs_def])

lemma iter_key:
  assumes "sl_repr compare valid sl lv" "sl_iter_at sl (lv 0) it i"
  shows "Iter_Valid it \<longleftrightarrow> i < length (lv 0)" "i < length (lv 0) \<Longrightarrow> Iter_key sl it = Some (map (nkey sl) (lv 0) ! i)"
  using assms Key_at_node [OF assms(1), of 0] by (auto simp: sl_iter_at_def Iter_Valid_def Iter_key_def kMaxHeight_def)

lemma iter_next:
  assumes "sl_repr compare valid sl lv" "sl_iter_at sl (lv 0) it i" "i < length (lv 0)"
  shows "\<exists>it'. Iter_Next sl it = Some it' \<and> sl_iter_at sl (lv 0) it' (Suc i)"
  using assms linked_nth [OF sl_reprD(4) [OF assms(1), of 0], of "Suc i"]
  by (auto simp: sl_iter_at_def Iter_Next_def kMaxHeight_def)

lemma before_own_key:
  assumes "sl_repr compare valid sl lv" "i < length (lv 0)"
  shows "takeWhile (before compare sl (nkey sl (lv 0 ! i))) (lv 0) = take i (lv 0)"
proof (rule takeWhile_eq_take_P_nth)
  have valid: "valid (nkey sl (lv 0 ! j))" if "j < length (lv 0)" for j
    using sl_reprD(5) [OF assms(1), of 0 "lv 0 ! j"] that by (simp add: kMaxHeight_def)
  show "before compare sl (nkey sl (lv 0 ! i)) (lv 0 ! j)" if "j < i" "j < length (lv 0)" for j
    using sl_reprD(6) [OF assms(1), of 0] that assms(2)
    by (simp add: before_def kMaxHeight_def sorted_wrt_iff_nth_less)
  show "\<not> before compare sl (nkey sl (lv 0 ! i)) (lv 0 ! i)" if "i < length (lv 0)"
    using not_less_self [OF valid [OF that]] by (simp add: before_def)
qed

lemma iter_prev:
  assumes "sl_repr compare valid sl lv" "sl_iter_at sl (lv 0) it i" "i < length (lv 0)"
  shows "\<exists>it'. Iter_Prev compare sl it = Some it' \<and> sl_iter_at sl (lv 0) it' (if i = 0 then length (lv 0) else i - 1)"
proof -
  let ?n = "lv 0 ! i"
  have n: "valid (nkey sl ?n)" using sl_reprD(5) [OF assms(1), of 0 ?n] assms(3) by (simp add: kMaxHeight_def)
  have key: "Key_at sl ?n = Some (nkey sl ?n)" using Key_at_node [OF assms(1), of 0 ?n] assms(3) by (simp add: kMaxHeight_def)
  have "stop_at (before compare sl (nkey sl ?n)) (lv 0) = (sl_head # lv 0) ! i"
    using before_own_key [OF assms(1,3)] assms(3) by (simp add: stop_at_nth)
  moreover have "lv 0 ! (i - 1) \<noteq> sl_head" if "0 < i"
    using sl_reprD(5) [OF assms(1), of 0 "lv 0 ! (i - 1)"] assms(3) by (simp add: kMaxHeight_def)
  ultimately show ?thesis
    using FindLessThan_repr [OF assms(1) n] key assms(2,3)
    by (cases i) (auto simp: Iter_Prev_def sl_iter_at_def)
qed

lemma iter_seek:
  assumes "sl_repr compare valid sl lv" "valid key"
  shows "\<exists>it. Iter_Seek compare sl key = Some it \<and>
    sl_iter_at sl (lv 0) it (length (takeWhile (\<lambda>k. compare k key < 0) (map (nkey sl) (lv 0))))"
  using FindGreaterOrEqual_repr [OF assms] after_stop_position [OF assms(1)] by (simp add: Iter_Seek_def)

lemma iter_first:
  assumes "sl_repr compare valid sl lv"
  shows "\<exists>it. Iter_SeekToFirst sl = Some it \<and> sl_iter_at sl (lv 0) it 0"
  using linked_nth [OF sl_reprD(4) [OF assms, of 0], of 0] by (auto simp: sl_iter_at_def Iter_SeekToFirst_def kMaxHeight_def)

lemma iter_last:
  assumes "sl_repr compare valid sl lv"
  shows "\<exists>it. Iter_SeekToLast sl = Some it \<and> sl_iter_at sl (lv 0) it (length (lv 0) - 1)"
proof (cases "lv 0 = []")
  case False
  then have "last (lv 0) \<noteq> sl_head" using sl_reprD(5) [OF assms, of 0 "last (lv 0)"] by (simp add: kMaxHeight_def)
  with False FindLast_repr [OF assms] show ?thesis
    by (auto simp: Iter_SeekToLast_def sl_iter_at_def last_conv_nth)
qed (use FindLast_repr [OF assms] in \<open>simp add: Iter_SeekToLast_def sl_iter_at_def\<close>)

lemma duplicate_iff:
  assumes repr: "sl_repr compare valid sl lv" and key: "valid key"
  shows "(\<exists>d. after_stop (before compare sl key) (lv 0) = Some d \<and> compare key (nkey sl d) = 0) \<longleftrightarrow>
    (\<exists>k \<in> set (map (nkey sl) (lv 0)). compare key k = 0)"
proof -
  let ?P = "before compare sl key"
  have "\<exists>d. after_stop ?P (lv 0) = Some d \<and> compare key (nkey sl d) = 0"
    if y: "y \<in> set (lv 0)" "compare key (nkey sl y) = 0" for y
  proof (rule ccontr)
    assume "\<not> ?thesis"
    then have "\<forall>d. after_stop ?P (lv 0) = Some d \<longrightarrow> compare key (nkey sl d) \<noteq> 0" by blast
    moreover have "\<not> ?P y"
      using y compare_swap [of key "nkey sl y"] key sl_reprD(5) [OF repr, of 0 y] by (simp add: before_def kMaxHeight_def)
    ultimately show False using no_duplicate [OF repr key _ y(1)] y(2) by force
  qed
  moreover have "d \<in> set (lv 0)" if "after_stop ?P (lv 0) = Some d" for d
    using after_stop_mem [OF that] by simp
  ultimately show ?thesis by auto
qed

lemma Contains_repr:
  assumes repr: "sl_repr compare valid sl lv" and key: "valid key"
  shows "Contains compare sl key = Some (\<exists>k \<in> set (map (nkey sl) (lv 0)). compare key k = 0)"
proof -
  let ?P = "before compare sl key"
  have "Key_at sl d = Some (nkey sl d)" if "after_stop ?P (lv 0) = Some d" for d
    using after_stop_mem [OF that] Key_at_node [OF repr, of 0 d] by (simp add: kMaxHeight_def)
  then have "Contains compare sl key = Some (\<exists>d. after_stop ?P (lv 0) = Some d \<and> compare key (nkey sl d) = 0)"
    using FindGreaterOrEqual_repr [OF repr key, of None]
    by (cases "after_stop ?P (lv 0)") (auto simp: Contains_def)
  then show ?thesis by (simp only: duplicate_iff [OF repr key])
qed

lemma sorted_keys:
  assumes "sl_repr compare valid sl lv"
  shows "sorted_wrt (\<lambda>a b. compare a b < 0) (map (nkey sl) (lv 0))"
  using sl_reprD(6) [OF assms, of 0] by (simp add: sorted_wrt_map kMaxHeight_def)

text \<open>The node that an insertion makes is not higher than \<open>kMaxHeight\<close>.\<close>

lemma Insert_height:
  assumes "holds_keys compare valid sl ks" "valid key" "Insert compare key sl = Some sl'"
  shows "length (node_next (last (sl_nodes sl'))) \<le> kMaxHeight"
proof -
  let ?heights = "\<lambda>sl. map (\<lambda>n. length (node_next n)) (sl_nodes sl)"
  obtain lv where lv: "sl_repr compare valid sl lv" using assms(1) by (auto simp: holds_keys_def)
  obtain height rnd where plan: "height \<le> kMaxHeight" "Insert_plan compare sl key =
     asserting (\<forall>d. after_stop (before compare sl key) (lv 0) = Some d \<longrightarrow> compare key (nkey sl d) \<noteq> 0)
       (Some (insert_stores sl key height (map (\<lambda>i. stop_at (before compare sl key) (lv i)) [0..<height]), sl\<lparr>sl_rnd := rnd\<rparr>))"
    by (rule Insert_plan_eq [OF lv assms(2)])
  have links: "?heights sl2 = ?heights sl1"
    if "run_stores (concat (map (\<lambda>i. [CopyLink x i (p i), PublishLink x i (p i)]) is)) sl1 = Some sl2" for x p "is" sl1 sl2
    using that by (induction "is" arbitrary: sl1)
      (auto simp: bind_eq_Some_conv SetNext_def list_eq_iff_nth_eq nth_list_update split: if_splits)
  have heights: "?heights sl' = ?heights sl @ [height]"
    using assms(3) unfolding Insert_def plan(2) insert_stores_def
    by (auto simp: asserting_def bind_eq_Some_conv NewNode_def split: if_splits dest!: links)
  then have "last (?heights sl') = height" by simp
  moreover have "sl_nodes sl' \<noteq> []" using heights by auto
  ultimately show ?thesis using plan(1) by (simp add: last_map)
qed

lemma Insert_keys:
  assumes "holds_keys compare valid sl ks" "valid key" "\<forall>k \<in> set ks. compare key k \<noteq> 0"
  shows "\<exists>sl'. Insert compare key sl = Some sl' \<and>
    holds_keys compare valid sl' (takeWhile (\<lambda>k. compare k key < 0) ks @ key # dropWhile (\<lambda>k. compare k key < 0) ks)"
proof -
  obtain lv where lv: "sl_repr compare valid sl lv" "ks = map (nkey sl) (lv 0)"
    using assms(1) by (auto simp: holds_keys_def)
  then have "\<not> (\<exists>d. after_stop (before compare sl key) (lv 0) = Some d \<and> compare key (nkey sl d) = 0)"
    using duplicate_iff [OF lv(1) assms(2)] assms(3) by auto
  with Insert_repr [OF lv(1) assms(2)] show ?thesis
    by (simp only: if_False holds_keys_def lv(2)) metis
qed

end

section \<open>Properties\<close>

text \<open>C18: the skip list is a sorted list of keys: for a comparator that is a total preorder,
  \<open>Contains\<close> decides membership, \<open>Insert\<close> puts a key at its place and fails its assertion
  exactly for a duplicate, and the constructor makes the empty list. No operation touches a link
  that a node does not have or that was never set, and every search returns.\<close>

theorem skiplist_is_sorted_list:
  assumes "key_order compare valid" "holds_keys compare valid sl ks" "valid key"
  shows "sorted_wrt (\<lambda>a b. compare a b < 0) ks \<and>
    Contains compare sl key = Some (\<exists>k \<in> set ks. compare key k = 0) \<and>
    (if \<exists>k \<in> set ks. compare key k = 0 then Insert compare key sl = None
     else \<exists>sl'. Insert compare key sl = Some sl' \<and>
       holds_keys compare valid sl'
         (takeWhile (\<lambda>k. compare k key < 0) ks @ key # dropWhile (\<lambda>k. compare k key < 0) ks)) \<and>
    (\<exists>sl. SkipList_new any_key = Some sl \<and> holds_keys compare valid sl [])"
proof -
  obtain lv where lv: "sl_repr compare valid sl lv" "ks = map (nkey sl) (lv 0)"
    using assms(2) by (auto simp: holds_keys_def)
  have "Insert compare key sl = None" if "\<exists>k \<in> set ks. compare key k = 0"
    using key_order.Insert_repr [OF assms(1) lv(1) assms(3)] that
      key_order.duplicate_iff [OF assms(1) lv(1) assms(3)] by (simp only: lv(2) if_True)
  moreover have "\<exists>sl. SkipList_new any_key = Some sl \<and> holds_keys compare valid sl []"
    using SkipList_new_repr by (fastforce simp: holds_keys_def)
  ultimately show ?thesis
    using key_order.sorted_keys [OF assms(1) lv(1)] key_order.Contains_repr [OF assms(1) lv(1) assms(3)]
      key_order.Insert_keys [OF assms] lv(2) by auto
qed

lemma nat_key_order: "key_order (\<lambda>a b. int a - int b) (\<lambda>_. True)"
  by unfold_locales auto

theorem skiplist_is_sorted_list_witness:
  "\<exists>sl sl'. SkipList_new 0 = Some sl \<and> Insert (\<lambda>a b. int a - int b) 7 sl = Some sl' \<and>
     Insert (\<lambda>a b. int a - int b) 7 sl' = None \<and> Contains (\<lambda>a b. int a - int b) sl' 7 = Some True"
proof -
  let ?c = "\<lambda>a b. int a - int b" and ?v = "\<lambda>_ :: nat. True"
  obtain sl where sl: "SkipList_new 0 = Some sl" "holds_keys ?c ?v sl []"
    using SkipList_new_repr [of 0 ?c ?v] by (fastforce simp: holds_keys_def)
  from skiplist_is_sorted_list [OF nat_key_order sl(2), of 7] obtain sl' where sl':
    "Insert ?c 7 sl = Some sl'" "holds_keys ?c ?v sl' [7]" by auto
  from skiplist_is_sorted_list [OF nat_key_order sl'(2), of 7] sl sl'(1) show ?thesis by auto
qed

text \<open>C19: iteration over a skip list: the positions of an iterator are the indices of the sorted list
  of keys and one invalid position behind them; \<open>SeekToFirst\<close>, \<open>SeekToLast\<close>, \<open>Seek\<close>,
  \<open>Next\<close> and \<open>Prev\<close> move to the first, the last, the first not smaller, the next and the
  previous key, and \<open>Prev\<close> at the first key makes the iterator invalid.\<close>

theorem skiplist_iterator:
  assumes "key_order compare valid" "holds_keys compare valid sl ks"
  shows "\<exists>it :: nat \<Rightarrow> sl_iterator.
    Iter_SeekToFirst sl = Some (it 0) \<and> Iter_SeekToLast sl = Some (it (length ks - 1)) \<and>
    (\<forall>target. valid target \<longrightarrow>
       Iter_Seek compare sl target = Some (it (length (takeWhile (\<lambda>k. compare k target < 0) ks)))) \<and>
    (\<forall>i. Iter_Valid (it i) \<longleftrightarrow> i < length ks) \<and>
    (\<forall>i < length ks. Iter_key sl (it i) = Some (ks ! i) \<and> Iter_Next sl (it i) = Some (it (i + 1)) \<and>
       Iter_Prev compare sl (it i) = Some (it (if i = 0 then length ks else i - 1)))"
proof -
  obtain lv where lv: "sl_repr compare valid sl lv" "ks = map (nkey sl) (lv 0)"
    using assms(2) by (auto simp: holds_keys_def)
  define it where "it i = (if i < length (lv 0) then Some (lv 0 ! i) else None)" for i
  have at: "sl_iter_at sl (lv 0) j i \<longleftrightarrow> j = it i" for i j by (simp add: sl_iter_at_def it_def)
  note k = key_order.iter_first [OF assms(1) lv(1)] key_order.iter_last [OF assms(1) lv(1)]
    key_order.iter_seek [OF assms(1) lv(1)] key_order.iter_key [OF assms(1) lv(1)]
    key_order.iter_next [OF assms(1) lv(1)] key_order.iter_prev [OF assms(1) lv(1)]
  show ?thesis
  proof (intro exI [of _ it] conjI allI impI)
    show "Iter_Valid (it i) \<longleftrightarrow> i < length ks" for i using k(4) [of "it i" i] by (simp add: at lv(2))
    fix i assume "i < length ks"
    then show "Iter_key sl (it i) = Some (ks ! i)" "Iter_Next sl (it i) = Some (it (i + 1))"
      "Iter_Prev compare sl (it i) = Some (it (if i = 0 then length ks else i - 1))"
      using k(5-7) [of "it i" i] by (simp_all add: at lv(2))
  qed (use k(1-3) in \<open>simp_all add: at lv(2)\<close>)
qed

theorem skiplist_iterator_witness:
  "\<exists>sl sl' it. SkipList_new 0 = Some sl \<and> Insert (\<lambda>a b. int a - int b) 7 sl = Some sl' \<and>
     Iter_Seek (\<lambda>a b. int a - int b) sl' 5 = Some it \<and> Iter_key sl' it = Some 7 \<and>
     Iter_Next sl' it = Some None"
proof -
  let ?c = "\<lambda>a b. int a - int b" and ?v = "\<lambda>_ :: nat. True"
  obtain sl where sl: "SkipList_new 0 = Some sl" "holds_keys ?c ?v sl []"
    using SkipList_new_repr [of 0 ?c ?v] by (fastforce simp: holds_keys_def)
  from key_order.Insert_keys [OF nat_key_order sl(2), of 7] obtain sl' where sl':
    "Insert ?c 7 sl = Some sl'" "holds_keys ?c ?v sl' [7]" by auto
  from skiplist_iterator [OF nat_key_order sl'(2)] obtain it :: "nat \<Rightarrow> sl_iterator" where
    "Iter_Seek ?c sl' 5 = Some (it 0)" "Iter_key sl' (it 0) = Some 7" "Iter_Next sl' (it 0) = Some (it 1)"
    "\<not> Iter_Valid (it 1)" by auto
  with sl(1) sl'(1) show ?thesis by (simp add: Iter_Valid_def)
qed

end
