(* ===== verification/Ldb_Skiplist_Readers.thy ===== *)
theory Ldb_Skiplist_Readers
  imports Ldb_Skiplist_Correct
begin

text \<open>
  One writer and any number of readers of a skip list. The header of \<open>db/skiplist.h\<close> promises that
  readers need no lock: here the stores of \<open>Insert\<close> are interleaved, one at a time and in the order
  of the program, with the rounds of the readers' searches. The loads and stores of a link are atomic,
  and a reader that loads a link sees the stores before the one that published it; both are what the
  release stores and acquire loads of the source provide.
\<close>

section \<open>The steps\<close>

text \<open>The three searches of a reader, and one round of each.\<close>

datatype 'k query = Seek_ge 'k | Seek_lt 'k | Seek_last

datatype 'k reader =
    Idle
  | Searching "'k query" position
  | Found "'k query" "nat option"

primrec query_round ::
  "('k \<Rightarrow> 'k \<Rightarrow> int) \<Rightarrow> 'k query \<Rightarrow> 'k skiplist \<Rightarrow> position \<Rightarrow> (position + nat option) option" where
  "query_round compare (Seek_ge key) sl pos =
     map_option (map_sum fst fst) (FindGreaterOrEqual_round compare sl key (pos, None))"
| "query_round compare (Seek_lt key) sl pos = map_option (map_sum id Some) (FindLessThan_round compare sl key pos)"
| "query_round compare Seek_last sl pos = map_option (map_sum id Some) (FindLast_round sl pos)"

record 'k shared =
  sh_list :: "'k skiplist"
  sh_pending :: "'k wstore list"
  sh_readers :: "nat \<Rightarrow> 'k reader"

text \<open>The writer plans an insertion when the last one is complete and then performs its stores; a
  reader loads the height, and then goes round by round.\<close>

inductive shared_step :: "('k \<Rightarrow> 'k \<Rightarrow> int) \<Rightarrow> ('k \<Rightarrow> bool) \<Rightarrow> 'k shared \<Rightarrow> 'k shared \<Rightarrow> bool"
  for compare valid where
  plan: "sh_pending s = [] \<Longrightarrow> valid key \<Longrightarrow> Insert_plan compare (sh_list s) key = Some (ws, sl) \<Longrightarrow>
    shared_step compare valid s (s\<lparr>sh_list := sl, sh_pending := ws\<rparr>)"
| store: "sh_pending s = w # ws \<Longrightarrow> run_store w (sh_list s) = Some sl \<Longrightarrow>
    shared_step compare valid s (s\<lparr>sh_list := sl, sh_pending := ws\<rparr>)"
| start: "(\<forall>key. q = Seek_ge key \<or> q = Seek_lt key \<longrightarrow> valid key) \<Longrightarrow>
    shared_step compare valid s
      (s\<lparr>sh_readers := (sh_readers s)(r := Searching q (sl_head, sl_max_height (sh_list s) - 1))\<rparr>)"
| go_on: "sh_readers s r = Searching q pos \<Longrightarrow> query_round compare q (sh_list s) pos = Some (Inl pos') \<Longrightarrow>
    shared_step compare valid s (s\<lparr>sh_readers := (sh_readers s)(r := Searching q pos')\<rparr>)"
| finish: "sh_readers s r = Searching q pos \<Longrightarrow> query_round compare q (sh_list s) pos = Some (Inr x) \<Longrightarrow>
    shared_step compare valid s (s\<lparr>sh_readers := (sh_readers s)(r := Found q x)\<rparr>)"

inductive_cases shared_stepE: "shared_step compare valid s s'"

section \<open>The invariant\<close>

text \<open>What a query looks for: the nodes it passes.\<close>

primrec passes :: "('k \<Rightarrow> 'k \<Rightarrow> int) \<Rightarrow> 'k skiplist \<Rightarrow> 'k query \<Rightarrow> nat \<Rightarrow> bool" where
  "passes compare sl (Seek_ge key) = before compare sl key"
| "passes compare sl (Seek_lt key) = before compare sl key"
| "passes compare sl Seek_last = (\<lambda>_. True)"

primrec query_valid :: "('k \<Rightarrow> bool) \<Rightarrow> 'k query \<Rightarrow> bool" where
  "query_valid valid (Seek_ge key) \<longleftrightarrow> valid key"
| "query_valid valid (Seek_lt key) \<longleftrightarrow> valid key"
| "query_valid valid Seek_last \<longleftrightarrow> True"

text \<open>What a query has to answer on the level-0 list \<open>xs\<close>.\<close>

primrec answer :: "('k \<Rightarrow> 'k \<Rightarrow> int) \<Rightarrow> 'k skiplist \<Rightarrow> nat list \<Rightarrow> 'k query \<Rightarrow> nat option" where
  "answer compare sl xs (Seek_ge key) = after_stop (before compare sl key) xs"
| "answer compare sl xs (Seek_lt key) = Some (stop_at (before compare sl key) xs)"
| "answer compare sl xs Seek_last = Some (last (sl_head # xs))"

text \<open>A reader stands at the head or at a node of its level that it may pass.\<close>

definition reader_ok :: "('k \<Rightarrow> 'k \<Rightarrow> int) \<Rightarrow> ('k \<Rightarrow> bool) \<Rightarrow> 'k skiplist \<Rightarrow> (nat \<Rightarrow> nat list) \<Rightarrow> 'k reader \<Rightarrow> bool" where
  "reader_ok compare valid sl lv rd \<longleftrightarrow>
     (case rd of
        Searching q (x, l) \<Rightarrow> query_valid valid q \<and> l < kMaxHeight \<and>
          (x = sl_head \<or> x \<in> set (lv l) \<and> passes compare sl q x)
      | _ \<Rightarrow> True)"

text \<open>\<open>K\<close> are keys that the list holds when the pending stores are done.\<close>

definition shared_inv :: "('k \<Rightarrow> 'k \<Rightarrow> int) \<Rightarrow> ('k \<Rightarrow> bool) \<Rightarrow> 'k set \<Rightarrow> 'k shared \<Rightarrow> (nat \<Rightarrow> nat list) \<Rightarrow> bool" where
  "shared_inv compare valid K s lv \<longleftrightarrow>
     sl_repr compare valid (sh_list s) lv \<and>
     stores_keep compare valid (sh_pending s) (sh_list s) lv (\<lambda>sl' lv'. K \<subseteq> nkey sl' ` set (lv' 0)) \<and>
     (\<forall>r. reader_ok compare valid (sh_list s) lv (sh_readers s r))"

lemma passes_grows:
  assumes "grows sl lv sl' lv'" "x < length (sl_nodes sl)"
  shows "passes compare sl' q x = passes compare sl q x"
  using assms by (cases q) (simp_all add: grows_def before_def)

lemma reader_ok_grows:
  assumes "sl_repr compare valid sl lv" "grows sl lv sl' lv'" "reader_ok compare valid sl lv rd"
  shows "reader_ok compare valid sl' lv' rd"
proof (cases rd)
  case (Searching q pos)
  obtain x l where pos: "pos = (x, l)" by (cases pos)
  show ?thesis
  proof (cases "x = sl_head")
    case False
    with assms(3) have "l < kMaxHeight" "x \<in> set (lv l)" by (simp_all add: reader_ok_def Searching pos)
    moreover from this have "x < length (sl_nodes sl)" "x \<in> set (lv' l)"
      using sl_reprD(5) [OF assms(1)] assms(2) by (auto simp: grows_def)
    ultimately show ?thesis
      using False assms(3) passes_grows [OF assms(2)] by (simp add: reader_ok_def Searching pos)
  qed (use assms(3) in \<open>simp add: reader_ok_def Searching pos\<close>)
qed (simp_all add: reader_ok_def)

text \<open>A list on which only the random seed has changed.\<close>

lemma rnd_same [simp]:
  "grows sl lv (sl\<lparr>sl_rnd := rnd\<rparr>) lv"
  "passes compare (sl\<lparr>sl_rnd := rnd\<rparr>) q = passes compare sl q"
  by (cases q; simp add: grows_def nkey_def fun_eq_iff before_def)+

context key_order
begin

lemma passes_cuts:
  assumes "sl_repr compare valid sl lv" "query_valid valid q"
  shows "cuts compare sl lv (passes compare sl q)"
  using assms before_cuts [OF assms(1)] True_cuts by (cases q) simp_all

text \<open>One round of a reader: it does not get stuck, keeps the invariant, and answers for the list
  as it is at this moment.\<close>

lemma query_round_ok:
  assumes repr: "sl_repr compare valid sl lv" and rd: "reader_ok compare valid sl lv (Searching q pos)"
  shows "(\<exists>pos'. query_round compare q sl pos = Some (Inl pos') \<and> reader_ok compare valid sl lv (Searching q pos')) \<or>
    query_round compare q sl pos = Some (Inr (answer compare sl (lv 0) q))"
proof -
  let ?P = "passes compare sl q"
  obtain x l where pos: "pos = (x, l)" by (cases pos)
  have q: "query_valid valid q" and l: "l < kMaxHeight"
    and x: "x = sl_head \<or> x \<in> set (lv l) \<and> ?P x"
    using rd by (simp_all add: reader_ok_def pos)
  have "\<exists>i \<le> length (takeWhile ?P (lv l)). x = (sl_head # lv l) ! i"
  proof (cases "x = sl_head")
    case False
    then have "x \<in> set (takeWhile ?P (lv l))" using cut_mem [OF repr passes_cuts [OF repr q] l] x by blast
    then obtain j where "j < length (takeWhile ?P (lv l))" "takeWhile ?P (lv l) ! j = x" by (auto simp: in_set_conv_nth)
    then show ?thesis by (intro exI [of _ "Suc j"]) (simp add: takeWhile_nth)
  qed auto
  then obtain i where i: "i \<le> length (takeWhile ?P (lv l))" "x = (sl_head # lv l) ! i" by blast
  show ?thesis
  proof (cases "i < length (takeWhile ?P (lv l))")
    case True
    then have "query_round compare q sl pos = Some (Inl ((sl_head # lv l) ! Suc i, l))"
      using ge_round_go [OF repr l] lt_round_go [OF repr l] last_round_go [OF repr l]
      by (cases q) (simp_all add: pos i(2))
    moreover have "reader_ok compare valid sl lv (Searching q ((sl_head # lv l) ! Suc i, l))"
      using Next_before(2,3) [OF repr l True] q l by (simp add: reader_ok_def)
    ultimately show ?thesis by blast
  next
    case False
    then have stop: "x = stop_at ?P (lv l)" using i by (simp add: stop_at_nth)
    have round: "query_round compare q sl pos =
        Some (if l = 0 then Inr (answer compare sl (lv l) q) else Inl (stop_at ?P (lv l), l - 1))"
      using ge_round_stop [OF repr l] lt_round_stop [OF repr l] last_round_stop [OF repr l]
      by (cases q) (simp_all add: pos stop Let_def, simp_all add: stop_at_def takeWhile_eq_all_conv [THEN iffD2])
    have "reader_ok compare valid sl lv (Searching q (x, l - 1))" if "0 < l"
      using x l q level_subset [OF repr, of "l - 1" l] by (auto simp: reader_ok_def)
    with round stop show ?thesis by auto
  qed
qed

end

lemma stores_keep_mono:
  assumes "stores_keep compare valid ws sl lv Q"
    and "\<And>sl' lv'. grows sl lv sl' lv' \<Longrightarrow> Q sl' lv' \<Longrightarrow> Q' sl' lv'"
  shows "stores_keep compare valid ws sl lv Q'"
  using assms
proof (induction ws arbitrary: sl lv)
  case (Cons w ws)
  then obtain sl1 lv1 where 1: "run_store w sl = Some sl1" "sl_repr compare valid sl1 lv1" "grows sl lv sl1 lv1"
    "stores_keep compare valid ws sl1 lv1 Q" by auto
  moreover have "stores_keep compare valid ws sl1 lv1 Q'"
    using Cons.prems(2) grows_trans [OF 1(3)] by (intro Cons.IH [OF 1(4)]) blast
  ultimately show ?case by auto
qed simp

lemma grows_keys:
  assumes "sl_repr compare valid sl lv" "grows sl lv sl' lv'"
  shows "nkey sl ` set (lv 0) \<subseteq> nkey sl' ` set (lv' 0)"
proof
  fix k assume "k \<in> nkey sl ` set (lv 0)"
  then obtain x where x: "k = nkey sl x" "x \<in> set (lv 0)" by blast
  then have "x < length (sl_nodes sl)" using sl_reprD(5) [OF assms(1), of 0 x] by (simp add: kMaxHeight_def)
  with assms(2) x show "k \<in> nkey sl' ` set (lv' 0)" by (force simp: grows_def kMaxHeight_def)
qed

context key_order
begin

lemma plan_keeps:
  assumes repr: "sl_repr compare valid sl lv" and key: "valid key" and plan: "Insert_plan compare sl key = Some (ws, sl')"
  shows "sl_repr compare valid sl' lv \<and> grows sl lv sl' lv \<and>
    stores_keep compare valid ws sl' lv (\<lambda>sl' lv'. key \<in> nkey sl' ` set (lv' 0))"
proof -
  let ?P = "before compare sl key"
  obtain height rnd where p: "0 < height" "height \<le> kMaxHeight" "Insert_plan compare sl key =
     asserting (\<forall>d. after_stop ?P (lv 0) = Some d \<longrightarrow> compare key (nkey sl d) \<noteq> 0)
       (Some (insert_stores sl key height (map (\<lambda>i. stop_at ?P (lv i)) [0..<height]), sl\<lparr>sl_rnd := rnd\<rparr>))"
    by (rule Insert_plan_eq [OF repr key])
  let ?sl = "sl\<lparr>sl_rnd := rnd\<rparr>"
  have sl: "before compare ?sl key = ?P" "nkey ?sl = nkey sl" "insert_stores ?sl = insert_stores sl"
    by (simp_all add: fun_eq_iff before_def nkey_def insert_stores_def)
  from p(3) plan have nodup: "\<forall>d. after_stop ?P (lv 0) = Some d \<longrightarrow> compare key (nkey sl d) \<noteq> 0" and
    ws: "ws = insert_stores sl key height (map (\<lambda>i. stop_at ?P (lv i)) [0..<height])" "sl' = ?sl"
    by (simp_all add: asserting_def split: if_splits)
  have repr': "sl_repr compare valid ?sl lv" using repr by (simp add: rnd_repr)
  from insert_stores_keep [OF this key p(1,2), unfolded sl, OF nodup]
  have "stores_keep compare valid ws ?sl lv (\<lambda>sl' lv'. key \<in> nkey sl' ` set (lv' 0))"
    unfolding ws(1) by (rule stores_keep_mono) (use p(1) in auto)
  with repr' show ?thesis by (simp add: ws(2))
qed

lemma shared_inv_step:
  assumes "shared_inv compare valid K s lv" "shared_step compare valid s s'"
  shows "\<exists>lv'. shared_inv compare valid K s' lv' \<and> grows (sh_list s) lv (sh_list s') lv'"
proof -
  have repr: "sl_repr compare valid (sh_list s) lv"
    and stores: "stores_keep compare valid (sh_pending s) (sh_list s) lv (\<lambda>sl' lv'. K \<subseteq> nkey sl' ` set (lv' 0))"
    and rd: "\<And>r. reader_ok compare valid (sh_list s) lv (sh_readers s r)"
    using assms(1) by (simp_all add: shared_inv_def)
  from assms(2) show ?thesis
  proof (cases rule: shared_step.cases)
    case (plan key ws sl)
    from plan_keeps [OF repr plan(3,4)] have p: "sl_repr compare valid sl lv" "grows (sh_list s) lv sl lv"
      "stores_keep compare valid ws sl lv (\<lambda>sl' lv'. key \<in> nkey sl' ` set (lv' 0))" by auto
    have K: "K \<subseteq> nkey sl ` set (lv 0)" using stores plan(2) grows_keys [OF repr p(2)] by auto
    have "stores_keep compare valid ws sl lv (\<lambda>sl' lv'. K \<subseteq> nkey sl' ` set (lv' 0))"
    proof (rule stores_keep_mono [OF p(3)])
      show "K \<subseteq> nkey sl' ` set (lv' 0)" if "grows sl lv sl' lv'" for sl' lv'
        using K grows_keys [OF p(1) that] by (rule subset_trans)
    qed
    with p(1,2) reader_ok_grows [OF repr p(2) rd] show ?thesis
      by (intro exI [of _ lv]) (simp add: plan(1) shared_inv_def)
  next
    case (store w ws sl)
    with stores obtain lv' where p: "sl_repr compare valid sl lv'" "grows (sh_list s) lv sl lv'"
      "stores_keep compare valid ws sl lv' (\<lambda>sl' lv'. K \<subseteq> nkey sl' ` set (lv' 0))" by auto
    with reader_ok_grows [OF repr p(2) rd] show ?thesis
      by (intro exI [of _ lv']) (simp add: store(1) shared_inv_def)
  next
    case (start q r)
    have "query_valid valid q" using start(2) by (cases q) auto
    moreover have "sl_max_height (sh_list s) - 1 < kMaxHeight" using sl_reprD(2,3) [OF repr] by linarith
    ultimately have "reader_ok compare valid (sh_list s) lv (Searching q (sl_head, sl_max_height (sh_list s) - 1))"
      by (simp add: reader_ok_def)
    with repr stores rd show ?thesis by (intro exI [of _ lv]) (simp add: start(1) shared_inv_def)
  next
    case (go_on r q pos pos')
    from rd [of r] go_on(2) have "reader_ok compare valid (sh_list s) lv (Searching q pos)" by simp
    from query_round_ok [OF repr this] go_on(3)
    have "reader_ok compare valid (sh_list s) lv (Searching q pos')" by auto
    with repr stores rd show ?thesis by (intro exI [of _ lv]) (simp add: go_on(1) shared_inv_def)
  next
    case (finish r q pos x)
    have "reader_ok compare valid (sh_list s) lv (Found q x)" by (simp add: reader_ok_def)
    with repr stores rd show ?thesis by (intro exI [of _ lv]) (simp add: finish(1) shared_inv_def)
  qed
qed

lemma shared_inv_steps:
  assumes "(shared_step compare valid)\<^sup>*\<^sup>* s s'" "shared_inv compare valid K s lv"
  shows "\<exists>lv'. shared_inv compare valid K s' lv' \<and> grows (sh_list s) lv (sh_list s') lv'"
  using assms(1)
proof (induction rule: rtranclp_induct)
  case base
  then show ?case using assms(2) by auto
next
  case (step s1 s2)
  then obtain lv1 where 1: "shared_inv compare valid K s1 lv1" "grows (sh_list s) lv (sh_list s1) lv1" by blast
  from shared_inv_step [OF 1(1) step(2)] 1(2) show ?case using grows_trans by blast
qed

end

definition shared_start :: "'k skiplist \<Rightarrow> 'k shared" where
  "shared_start sl = \<lparr>sh_list = sl, sh_pending = [], sh_readers = \<lambda>_. Idle\<rparr>"

lemma shared_inv_start:
  assumes "SkipList_new any_key = Some sl"
  shows "shared_inv compare valid {} (shared_start sl) (\<lambda>_. [])"
  using SkipList_new_repr [of any_key compare valid] assms
  by (auto simp: shared_inv_def shared_start_def reader_ok_def)

section \<open>Properties\<close>

text \<open>C20: readers of a skip list need no lock: in every state that the writer and the readers can
  reach, whatever the interleaving of the single stores and rounds, the nodes of level 0 are sorted
  strictly, no reader gets stuck at a link that is not there, a search that returns gives the answer
  for the list as it is at that moment, the writer's next store succeeds, and keys that are in the
  list stay in it.\<close>

theorem readers_need_no_lock:
  assumes "key_order compare valid" "SkipList_new any_key = Some sl0"
    and "(shared_step compare valid)\<^sup>*\<^sup>* (shared_start sl0) s"
  shows "\<exists>xs. linked (sh_list s) 0 sl_head xs \<and>
    sorted_wrt (\<lambda>x y. compare (nkey (sh_list s) x) (nkey (sh_list s) y) < 0) xs \<and>
    (\<forall>r q pos. sh_readers s r = Searching q pos \<longrightarrow>
       (\<exists>pos'. query_round compare q (sh_list s) pos = Some (Inl pos')) \<or>
       query_round compare q (sh_list s) pos = Some (Inr (answer compare (sh_list s) xs q))) \<and>
    (\<forall>w ws. sh_pending s = w # ws \<longrightarrow> run_store w (sh_list s) \<noteq> None) \<and>
    (\<forall>s'. (shared_step compare valid)\<^sup>*\<^sup>* s s' \<longrightarrow>
       (\<exists>xs'. linked (sh_list s') 0 sl_head xs' \<and> nkey (sh_list s) ` set xs \<subseteq> nkey (sh_list s') ` set xs'))"
proof -
  note steps = key_order.shared_inv_steps [OF assms(1)]
  from steps [OF assms(3) shared_inv_start [OF assms(2)]] obtain lv where
    inv: "shared_inv compare valid {} s lv" by blast
  then have repr: "sl_repr compare valid (sh_list s) lv" by (simp add: shared_inv_def)
  show ?thesis
  proof (rule exI [of _ "lv 0"], intro conjI allI impI)
    show "linked (sh_list s) 0 sl_head (lv 0)"
      "sorted_wrt (\<lambda>x y. compare (nkey (sh_list s) x) (nkey (sh_list s) y) < 0) (lv 0)"
      using sl_reprD(4,6) [OF repr, of 0] by (simp_all add: kMaxHeight_def)
    fix r q pos assume "sh_readers s r = Searching q pos"
    with inv have "reader_ok compare valid (sh_list s) lv (Searching q pos)" by (metis shared_inv_def)
    from key_order.query_round_ok [OF assms(1) repr this]
    show "(\<exists>pos'. query_round compare q (sh_list s) pos = Some (Inl pos')) \<or>
      query_round compare q (sh_list s) pos = Some (Inr (answer compare (sh_list s) (lv 0) q))" by blast
  next
    show "run_store w (sh_list s) \<noteq> None" if "sh_pending s = w # ws" for w ws
      using inv that by (auto simp: shared_inv_def)
  next
    fix s' assume "(shared_step compare valid)\<^sup>*\<^sup>* s s'"
    from steps [OF this inv] obtain lv' where lv': "sl_repr compare valid (sh_list s') lv'"
      "grows (sh_list s) lv (sh_list s') lv'" by (auto simp: shared_inv_def)
    with sl_reprD(4) [OF lv'(1), of 0] grows_keys [OF repr lv'(2)]
    show "\<exists>xs'. linked (sh_list s') 0 sl_head xs' \<and> nkey (sh_list s) ` set (lv 0) \<subseteq> nkey (sh_list s') ` set xs'"
      by (auto simp: kMaxHeight_def)
  qed
qed

theorem readers_need_no_lock_witness:
  "\<exists>sl. SkipList_new (0 :: nat) = Some sl \<and>
     query_round (\<lambda>a b. int a - int b) (Seek_ge 3) sl (sl_head, 0) = Some (Inr None)"
proof -
  let ?c = "\<lambda>a b. int a - int b" and ?v = "\<lambda>_ :: nat. True"
  obtain sl where sl: "SkipList_new (0 :: nat) = Some sl" "sl_repr ?c ?v sl (\<lambda>_. [])"
    using SkipList_new_repr [of 0 ?c ?v] by blast
  define s where "s = (shared_start sl)\<lparr>sh_readers := (sh_readers (shared_start sl))
    (0 := Searching (Seek_ge 3) (sl_head, sl_max_height sl - 1))\<rparr>"
  have "shared_step ?c ?v (shared_start sl) s"
    using shared_step.start [where q = "Seek_ge 3" and s = "shared_start sl" and r = 0]
    by (simp add: s_def shared_start_def)
  then have reach: "(shared_step ?c ?v)\<^sup>*\<^sup>* (shared_start sl) s" by (rule r_into_rtranclp)
  have new: "Next sl sl_head 0 = Some None" "sl_max_height sl = 1"
    using null_links_SetNext [OF sl(1) [unfolded SkipList_new_def]] by (simp_all add: NewNode_def kMaxHeight_def)
  from readers_need_no_lock [OF nat_key_order sl(1) reach] obtain xs where xs:
    "linked (sh_list s) 0 sl_head xs"
    "\<forall>r q pos. sh_readers s r = Searching q pos \<longrightarrow>
       (\<exists>pos'. query_round ?c q (sh_list s) pos = Some (Inl pos')) \<or>
       query_round ?c q (sh_list s) pos = Some (Inr (answer ?c (sh_list s) xs q))"
    by blast
  have rd: "sh_readers s 0 = Searching (Seek_ge 3) (sl_head, 0)" "sh_list s = sl"
    by (simp_all add: s_def shared_start_def new(2))
  have "xs = []" using xs(1) new(1) by (cases xs) (simp_all add: rd(2))
  moreover have "query_round ?c (Seek_ge 3) sl (sl_head, 0) \<noteq> Some (Inl pos')" for pos'
    by (simp add: FindGreaterOrEqual_round_def new(1) KeyIsAfterNode_def)
  ultimately have "query_round ?c (Seek_ge 3) sl (sl_head, 0) = Some (Inr None)"
    using xs(2) [rule_format, OF rd(1)] by (simp only: rd(2) answer.simps) (auto simp: after_stop_def)
  with sl(1) show ?thesis by blast
qed

text \<open>C21: a reader finds what was inserted: once the writer has done the stores of an insertion that it
  planned, then in every state that is reached later, whatever the readers do and the writer inserts
  further, a search for the key from the start finds it (\<open>Contains\<close> is true), and every search for it that a
  reader has under way, wherever it stands and whenever it started, either has to go on or returns a node
  with this key.\<close>

theorem insertion_takes_effect:
  assumes "key_order compare valid" "SkipList_new any_key = Some sl0"
    and "(shared_step compare valid)\<^sup>*\<^sup>* (shared_start sl0) s"
    and "Insert_plan compare (sh_list s) key = Some (ws, sl)" "valid key" "sh_pending s = []"
    and "(shared_step compare valid)\<^sup>*\<^sup>* (s\<lparr>sh_list := sl, sh_pending := ws\<rparr>) s'" "sh_pending s' = []"
    and "(shared_step compare valid)\<^sup>*\<^sup>* s' s''"
  shows "Contains compare (sh_list s'') key = Some True \<and>
    (\<forall>r pos. sh_readers s'' r = Searching (Seek_ge key) pos \<longrightarrow>
       (\<exists>pos'. query_round compare (Seek_ge key) (sh_list s'') pos = Some (Inl pos')) \<or>
       (\<exists>x. query_round compare (Seek_ge key) (sh_list s'') pos = Some (Inr (Some x)) \<and>
         compare key (nkey (sh_list s'') x) = 0))"
proof -
  from key_order.shared_inv_steps [OF assms(1,3) shared_inv_start [OF assms(2)]] obtain lv where
    inv: "shared_inv compare valid {} s lv" by blast
  then have repr: "sl_repr compare valid (sh_list s) lv" by (simp add: shared_inv_def)
  from key_order.plan_keeps [OF assms(1) repr assms(5,4)] inv reader_ok_grows [OF repr]
  have "shared_inv compare valid {key} (s\<lparr>sh_list := sl, sh_pending := ws\<rparr>) lv"
    by (auto simp: shared_inv_def)
  from key_order.shared_inv_steps [OF assms(1,7) this] obtain lv1 where
    1: "shared_inv compare valid {key} s' lv1" "sl_repr compare valid (sh_list s') lv1"
      "key \<in> nkey (sh_list s') ` set (lv1 0)"
    using assms(8) by (auto simp: shared_inv_def)
  from key_order.shared_inv_steps [OF assms(1,9) 1(1)] obtain lv2 where
    2: "shared_inv compare valid {key} s'' lv2" "grows (sh_list s') lv1 (sh_list s'') lv2" by blast
  then have repr2: "sl_repr compare valid (sh_list s'') lv2" by (simp add: shared_inv_def)
  have "compare key key = 0"
    using key_order.not_less_self [OF assms(1,5)] key_order.compare_swap [OF assms(1,5,5)] by linarith
  moreover have "key \<in> set (map (nkey (sh_list s'')) (lv2 0))" using 1(3) grows_keys [OF 1(2) 2(2)] by auto
  ultimately have found: "\<exists>k \<in> set (map (nkey (sh_list s'')) (lv2 0)). compare key k = 0" by blast
  then obtain x where x: "after_stop (before compare (sh_list s'') key) (lv2 0) = Some x" "compare key (nkey (sh_list s'') x) = 0"
    using key_order.duplicate_iff [OF assms(1) repr2 assms(5)] by blast
  show ?thesis
  proof (intro conjI allI impI)
    show "Contains compare (sh_list s'') key = Some True"
      using key_order.Contains_repr [OF assms(1) repr2 assms(5)] found by simp
    fix r pos assume "sh_readers s'' r = Searching (Seek_ge key) pos"
    with 2(1) have "reader_ok compare valid (sh_list s'') lv2 (Searching (Seek_ge key) pos)" by (metis shared_inv_def)
    from key_order.query_round_ok [OF assms(1) repr2 this] x
    show "(\<exists>pos'. query_round compare (Seek_ge key) (sh_list s'') pos = Some (Inl pos')) \<or>
       (\<exists>x. query_round compare (Seek_ge key) (sh_list s'') pos = Some (Inr (Some x)) \<and>
         compare key (nkey (sh_list s'') x) = 0)" by auto
  qed
qed

theorem insertion_takes_effect_witness:
  "\<exists>sl ws sl' s'. SkipList_new (0 :: nat) = Some sl \<and> Insert_plan (\<lambda>a b. int a - int b) sl 7 = Some (ws, sl') \<and>
     run_stores ws sl' = Some s' \<and> Contains (\<lambda>a b. int a - int b) s' 7 = Some True"
proof -
  let ?c = "\<lambda>a b. int a - int b" and ?v = "\<lambda>_ :: nat. True"
  obtain sl where sl: "SkipList_new (0 :: nat) = Some sl" "sl_repr ?c ?v sl (\<lambda>_. [])"
    using SkipList_new_repr [of 0 ?c ?v] by blast
  obtain ws sl' s' where plan: "Insert_plan ?c sl 7 = Some (ws, sl')" "run_stores ws sl' = Some s'"
    using key_order.Insert_repr [OF nat_key_order sl(2), of 7]
    by (auto simp: after_stop_def Insert_def bind_eq_Some_conv)
  let ?s = "\<lambda>l w. \<lparr>sh_list = l, sh_pending = w, sh_readers = \<lambda>_. Idle\<rparr>"
  have run: "(shared_step ?c ?v)\<^sup>*\<^sup>* (?s l w) (?s l' [])" if "run_stores w l = Some l'" for l w l'
    using that
  proof (induction w arbitrary: l)
    case (Cons v w)
    then obtain l1 where 1: "run_store v l = Some l1" "run_stores w l1 = Some l'" by (auto simp: bind_eq_Some_conv)
    have "shared_step ?c ?v (?s l (v # w)) (?s l1 w)"
      using shared_step.store [of "?s l (v # w)" v w l1 ?c ?v] 1(1) by simp
    from converse_rtranclp_into_rtranclp [OF this Cons.IH [OF 1(2)]] show ?case .
  qed simp
  have start: "(shared_step ?c ?v)\<^sup>*\<^sup>* (shared_start sl) (?s sl [])" by (simp add: shared_start_def)
  from insertion_takes_effect [OF nat_key_order sl(1) start, where key = 7 and ws = ws and sl = sl'
      and s' = "?s s' []" and s'' = "?s s' []"] plan run [OF plan(2)]
  have "Contains ?c s' 7 = Some True" by simp
  with sl(1) plan show ?thesis by blast
qed

end
