(* ===== verification/Ldb_Arena.thy ===== *)
theory Ldb_Arena
  imports Pb_Prelude "HOL-Library.Monad_Syntax"
begin

text \<open>
  The arena of \<open>util/arena.h\<close> and \<open>util/arena.cc\<close>, from which the memory table takes its entries
  and nodes. Memory from \<open>new char[]\<close> is a fresh block; a pointer is a block with an offset, and
  blocks start at addresses that are aligned for every type, as \<open>new\<close> guarantees. Sizes are
  natural numbers below \<open>2^64\<close>, and the sums of \<open>size_t\<close> that the code forms wrap around. \<open>None\<close> is a
  failed assertion.
\<close>

section \<open>The arena\<close>

type_synonym pointer = "(nat \<times> nat) option"

text \<open>\<open>blocks_\<close> with the size of every block, and \<open>memory_usage_\<close>.\<close>

record arena =
  ar_alloc_ptr :: pointer
  ar_alloc_bytes_remaining :: nat
  ar_blocks :: "nat list"
  ar_memory_usage :: nat

definition kArenaBlockSize :: nat where
  "kArenaBlockSize = 4096"

definition Arena_new :: arena where
  "Arena_new = \<lparr>ar_alloc_ptr = None, ar_alloc_bytes_remaining = 0, ar_blocks = [], ar_memory_usage = 0\<rparr>"

definition pointer_add :: "pointer \<Rightarrow> nat \<Rightarrow> pointer" where
  "pointer_add p n = map_option (\<lambda>(b, off). (b, off + n)) p"

text \<open>The address modulo the alignment.\<close>

definition pointer_mod :: "pointer \<Rightarrow> nat \<Rightarrow> nat" where
  "pointer_mod p n = (case p of None \<Rightarrow> 0 | Some (_, off) \<Rightarrow> off mod n)"

text \<open>The sum of two values of type \<open>size_t\<close>.\<close>

definition size_add :: "nat \<Rightarrow> nat \<Rightarrow> nat" where
  "size_add m n = (m + n) mod 2 ^ 64"

definition AllocateNewBlock :: "nat \<Rightarrow> arena \<Rightarrow> pointer \<times> arena" where
  "AllocateNewBlock block_bytes a =
     (Some (length (ar_blocks a), 0),
      a\<lparr>ar_blocks := ar_blocks a @ [block_bytes], ar_memory_usage := size_add (ar_memory_usage a) (size_add block_bytes 8)\<rparr>)"

definition AllocateFallback :: "nat \<Rightarrow> arena \<Rightarrow> pointer \<times> arena" where
  "AllocateFallback bytes a =
     (if bytes > kArenaBlockSize div 4 then AllocateNewBlock bytes a
      else
        case AllocateNewBlock kArenaBlockSize a of
          (result, a) \<Rightarrow>
            (result, a\<lparr>ar_alloc_ptr := pointer_add result bytes,
                       ar_alloc_bytes_remaining := kArenaBlockSize - bytes\<rparr>))"

definition Allocate :: "nat \<Rightarrow> arena \<Rightarrow> (pointer \<times> arena) option" where
  "Allocate bytes a =
     asserting (bytes > 0)
       (Some (if bytes \<le> ar_alloc_bytes_remaining a then
          (ar_alloc_ptr a, a\<lparr>ar_alloc_ptr := pointer_add (ar_alloc_ptr a) bytes,
                            ar_alloc_bytes_remaining := ar_alloc_bytes_remaining a - bytes\<rparr>)
        else AllocateFallback bytes a))"

definition AllocateAligned :: "nat \<Rightarrow> arena \<Rightarrow> (pointer \<times> arena) option" where
  "AllocateAligned bytes a =
     (let align = 8;
          current_mod = pointer_mod (ar_alloc_ptr a) align;
          slop = (if current_mod = 0 then 0 else align - current_mod);
          needed = size_add bytes slop;
          (result, a) =
            (if needed \<le> ar_alloc_bytes_remaining a then
               (pointer_add (ar_alloc_ptr a) slop,
                a\<lparr>ar_alloc_ptr := pointer_add (ar_alloc_ptr a) needed,
                  ar_alloc_bytes_remaining := ar_alloc_bytes_remaining a - needed\<rparr>)
             else AllocateFallback bytes a)
      in asserting (pointer_mod result align = 0) (Some (result, a)))"

definition MemoryUsage :: "arena \<Rightarrow> nat" where
  "MemoryUsage a = ar_memory_usage a"

section \<open>Regions\<close>

text \<open>A region that was handed out: its block, offset and size.\<close>

type_synonym region = "nat \<times> nat \<times> nat"

fun disjoint_regions :: "region \<Rightarrow> region \<Rightarrow> bool" where
  "disjoint_regions (b, off, n) (b', off', n') \<longleftrightarrow> b \<noteq> b' \<or> off + n \<le> off' \<or> off' + n' \<le> off"

text \<open>A region inside a block, and before the free part of the current one.\<close>

fun region_ok :: "arena \<Rightarrow> region \<Rightarrow> bool" where
  "region_ok a (b, off, n) \<longleftrightarrow>
     b < length (ar_blocks a) \<and> off + n \<le> ar_blocks a ! b \<and>
     (case ar_alloc_ptr a of None \<Rightarrow> True | Some (b', off') \<Rightarrow> b = b' \<longrightarrow> off + n \<le> off')"

definition arena_ok :: "arena \<Rightarrow> region list \<Rightarrow> bool" where
  "arena_ok a rs \<longleftrightarrow>
     (case ar_alloc_ptr a of
        None \<Rightarrow> ar_alloc_bytes_remaining a = 0
      | Some (b, off) \<Rightarrow> b < length (ar_blocks a) \<and> off + ar_alloc_bytes_remaining a = ar_blocks a ! b) \<and>
     (\<forall>r \<in> set rs. region_ok a r) \<and> sorted_wrt disjoint_regions rs \<and>
     ar_memory_usage a = (\<Sum>n \<leftarrow> ar_blocks a. n + 8) mod 2 ^ 64"

lemma arena_ok_new: "arena_ok Arena_new []"
  by (simp add: arena_ok_def Arena_new_def)

text \<open>Cutting a piece off the free part, and opening a block.\<close>

lemma arena_ok_bump:
  assumes "arena_ok a rs" "skip + n \<le> ar_alloc_bytes_remaining a" "0 < n"
  shows "\<exists>b off. pointer_add (ar_alloc_ptr a) skip = Some (b, off) \<and>
    arena_ok (a\<lparr>ar_alloc_ptr := pointer_add (ar_alloc_ptr a) (skip + n),
      ar_alloc_bytes_remaining := ar_alloc_bytes_remaining a - (skip + n)\<rparr>) (rs @ [(b, off, n)])"
proof -
  obtain b off where p: "ar_alloc_ptr a = Some (b, off)"
    using assms by (cases "ar_alloc_ptr a") (auto simp: arena_ok_def)
  have "region_ok (a\<lparr>ar_alloc_ptr := Some (b, off + (skip + n)),
      ar_alloc_bytes_remaining := ar_alloc_bytes_remaining a - (skip + n)\<rparr>) r \<and> disjoint_regions r (b, off + skip, n)"
    if "r \<in> set rs" for r
  proof -
    obtain b' off' n' where r: "r = (b', off', n')" by (cases r)
    have "region_ok a r" using assms(1) that by (simp add: arena_ok_def)
    then show ?thesis by (auto simp: r p)
  qed
  with assms show ?thesis
    by (auto simp: p pointer_add_def arena_ok_def sorted_wrt_append)
qed

lemma arena_ok_block:
  assumes "arena_ok a rs" "n \<le> bsize" "0 < n"
  shows "case AllocateNewBlock bsize a of (result, a') \<Rightarrow>
    result = Some (length (ar_blocks a), 0) \<and>
    arena_ok (a'\<lparr>ar_alloc_ptr := pointer_add result n, ar_alloc_bytes_remaining := bsize - n\<rparr>)
      (rs @ [(length (ar_blocks a), 0, n)]) \<and>
    (n = bsize \<longrightarrow> arena_ok a' (rs @ [(length (ar_blocks a), 0, n)]))"
proof -
  let ?blocks = "ar_blocks a @ [bsize]" and ?new = "(length (ar_blocks a), 0, n)"
  have old: "region_ok (a\<lparr>ar_blocks := ?blocks, ar_memory_usage := u\<rparr>) r \<and>
      region_ok (a\<lparr>ar_blocks := ?blocks, ar_memory_usage := u, ar_alloc_ptr := Some (length (ar_blocks a), n),
        ar_alloc_bytes_remaining := k\<rparr>) r \<and> disjoint_regions r ?new"
    if "r \<in> set rs" for r u k
  proof -
    obtain b' off' n' where r: "r = (b', off', n')" by (cases r)
    have "region_ok a r" using assms(1) that by (simp add: arena_ok_def)
    then show ?thesis by (auto simp: r nth_append)
  qed
  have "\<forall>r \<in> set rs. disjoint_regions r ?new" using old by blast
  then have disjoint: "sorted_wrt disjoint_regions (rs @ [?new])"
    using assms(1) by (simp add: sorted_wrt_append arena_ok_def)
  have "region_ok (a\<lparr>ar_blocks := ?blocks, ar_memory_usage := u\<rparr>) ?new" if "bsize = n" for u
    using assms(1) that by (auto simp: arena_ok_def split: option.splits)
  with old disjoint assms show ?thesis
    by (auto simp: AllocateNewBlock_def arena_ok_def pointer_add_def nth_append size_add_def mod_simps add.assoc split: option.splits)
qed

lemma AllocateFallback_ok:
  assumes "arena_ok a rs" "0 < n"
  shows "case AllocateFallback n a of (result, a') \<Rightarrow>
    \<exists>b. result = Some (b, 0) \<and> arena_ok a' (rs @ [(b, 0, n)])"
proof (cases "n > kArenaBlockSize div 4")
  case True
  with arena_ok_block [OF assms(1), of n n] assms(2) show ?thesis
    by (auto simp: AllocateFallback_def split: prod.splits)
next
  case False
  then have "n \<le> kArenaBlockSize" by (simp add: kArenaBlockSize_def)
  from arena_ok_block [OF assms(1) this assms(2)] False show ?thesis
    by (auto simp: AllocateFallback_def split: prod.splits)
qed

lemma Allocate_ok:
  assumes "arena_ok a rs" "0 < n"
  shows "\<exists>b off a'. Allocate n a = Some (Some (b, off), a') \<and> arena_ok a' (rs @ [(b, off, n)])"
proof (cases "n \<le> ar_alloc_bytes_remaining a")
  case True
  with arena_ok_bump [OF assms(1), of 0 n] assms(2) show ?thesis
    by (auto simp: Allocate_def pointer_add_def)
next
  case False
  with AllocateFallback_ok [OF assms] assms(2) show ?thesis
    by (auto simp: Allocate_def split: prod.splits)
qed

text \<open>An object is smaller than half of the address space, so that its size and the slop do not wrap around.\<close>

lemma AllocateAligned_ok:
  assumes "arena_ok a rs" "0 < n" "n < 2 ^ 63"
  shows "\<exists>b off a'. AllocateAligned n a = Some (Some (b, off), a') \<and> off mod 8 = 0 \<and> arena_ok a' (rs @ [(b, off, n)])"
proof -
  define m where "m = pointer_mod (ar_alloc_ptr a) 8"
  define slop where "slop = (if m = 0 then 0 else 8 - m)"
  have eq: "AllocateAligned n a =
      (case (if n + slop \<le> ar_alloc_bytes_remaining a
        then (pointer_add (ar_alloc_ptr a) slop, a\<lparr>ar_alloc_ptr := pointer_add (ar_alloc_ptr a) (n + slop),
          ar_alloc_bytes_remaining := ar_alloc_bytes_remaining a - (n + slop)\<rparr>)
        else AllocateFallback n a) of
       (result, a) \<Rightarrow> asserting (pointer_mod result 8 = 0) (Some (result, a)))"
    using assms(3) by (simp add: AllocateAligned_def Let_def m_def slop_def size_add_def)
  show ?thesis
  proof (cases "n + slop \<le> ar_alloc_bytes_remaining a")
    case True
    then obtain b off where p: "pointer_add (ar_alloc_ptr a) slop = Some (b, off)"
      "arena_ok (a\<lparr>ar_alloc_ptr := pointer_add (ar_alloc_ptr a) (slop + n),
        ar_alloc_bytes_remaining := ar_alloc_bytes_remaining a - (slop + n)\<rparr>) (rs @ [(b, off, n)])"
      using arena_ok_bump [OF assms(1) _ assms(2), of slop] by (auto simp: add.commute)
    then obtain off0 where o: "ar_alloc_ptr a = Some (b, off0)" "off = off0 + slop" by (auto simp: pointer_add_def)
    then have "off mod 8 = (off0 mod 8 + slop) mod 8" by (simp add: mod_add_left_eq)
    also have "off0 mod 8 = m" by (simp add: m_def pointer_mod_def o(1))
    finally have off: "off mod 8 = 0"
      using mod_less_divisor [of 8 off0] \<open>off0 mod 8 = m\<close> by (auto simp: slop_def)
    have "AllocateAligned n a = Some (Some (b, off), a\<lparr>ar_alloc_ptr := pointer_add (ar_alloc_ptr a) (slop + n),
        ar_alloc_bytes_remaining := ar_alloc_bytes_remaining a - (slop + n)\<rparr>)"
      using True p(1) off by (simp add: eq pointer_mod_def add.commute)
    then show ?thesis using off p(2) by (intro exI conjI)
  next
    case False
    with AllocateFallback_ok [OF assms(1,2)] show ?thesis
      by (auto simp: eq pointer_mod_def split: prod.splits)
  qed
qed

section \<open>Properties\<close>

text \<open>A sequence of allocations, with the regions that it hands out.\<close>

datatype alloc_op = Plain nat | Aligned nat

primrec alloc_size :: "alloc_op \<Rightarrow> nat" where
  "alloc_size (Plain n) = n"
| "alloc_size (Aligned n) = n"

primrec run_alloc :: "alloc_op \<Rightarrow> arena \<Rightarrow> (pointer \<times> arena) option" where
  "run_alloc (Plain n) a = Allocate n a"
| "run_alloc (Aligned n) a = AllocateAligned n a"

primrec run_allocs :: "alloc_op list \<Rightarrow> arena \<Rightarrow> (pointer list \<times> arena) option" where
  "run_allocs [] a = Some ([], a)"
| "run_allocs (c # cs) a = do {
     (p, a) \<leftarrow> run_alloc c a;
     (ps, a) \<leftarrow> run_allocs cs a;
     Some (p # ps, a) }"

fun regions_of :: "(nat \<times> nat) list \<Rightarrow> alloc_op list \<Rightarrow> region list" where
  "regions_of (p # ps) (c # cs) = (fst p, snd p, alloc_size c) # regions_of ps cs"
| "regions_of ps cs = []"

lemma length_regions_of [simp]: "length ps = length cs \<Longrightarrow> length (regions_of ps cs) = length cs"
  by (induction ps cs rule: list_induct2) simp_all

lemma regions_of_nth:
  "length ps = length cs \<Longrightarrow> i < length cs \<Longrightarrow> regions_of ps cs ! i = (fst (ps ! i), snd (ps ! i), alloc_size (cs ! i))"
  by (induction ps cs arbitrary: i rule: list_induct2) (simp_all add: nth_Cons split: nat.splits)

lemma run_alloc_ok:
  assumes "arena_ok a rs" "0 < alloc_size c" "alloc_size c < 2 ^ 63"
  shows "\<exists>b off a'. run_alloc c a = Some (Some (b, off), a') \<and> arena_ok a' (rs @ [(b, off, alloc_size c)]) \<and>
    (\<forall>n. c = Aligned n \<longrightarrow> off mod 8 = 0)"
proof (cases c)
  case (Plain n)
  with Allocate_ok [OF assms(1), of n] assms(2) show ?thesis by simp
next
  case (Aligned n)
  with AllocateAligned_ok [OF assms(1), of n] assms(2,3) show ?thesis by simp metis
qed

lemma run_allocs_ok:
  assumes "\<forall>c \<in> set cs. 0 < alloc_size c \<and> alloc_size c < 2 ^ 63" "arena_ok a rs0"
  shows "\<exists>ps a'. run_allocs cs a = Some (map Some ps, a') \<and> length ps = length cs \<and>
    arena_ok a' (rs0 @ regions_of ps cs) \<and>
    (\<forall>i < length cs. \<forall>n. cs ! i = Aligned n \<longrightarrow> snd (ps ! i) mod 8 = 0)"
  using assms
proof (induction cs arbitrary: a rs0)
  case (Cons c cs)
  obtain b off a1 where 1: "run_alloc c a = Some (Some (b, off), a1)" "arena_ok a1 (rs0 @ [(b, off, alloc_size c)])"
    "\<forall>n. c = Aligned n \<longrightarrow> off mod 8 = 0"
    using run_alloc_ok [OF Cons.prems(2), of c] Cons.prems(1) by auto
  from Cons.IH [OF _ 1(2)] Cons.prems(1) obtain ps a' where 2: "run_allocs cs a1 = Some (map Some ps, a')"
    "length ps = length cs" "arena_ok a' (rs0 @ (b, off, alloc_size c) # regions_of ps cs)"
    "\<forall>i < length cs. \<forall>n. cs ! i = Aligned n \<longrightarrow> snd (ps ! i) mod 8 = 0" by auto
  show ?case
  proof (intro exI [of _ "(b, off) # ps"] exI [of _ a'] conjI allI impI)
    fix i n assume "i < length (c # cs)" "(c # cs) ! i = Aligned n"
    then show "snd (((b, off) # ps) ! i) mod 8 = 0" using 1(3) 2(4) by (cases i) simp_all
  qed (use 1 2 in simp_all)
qed simp

text \<open>C27: what an arena hands out: any sequence of allocations, each of at least one byte and of less than
  \<open>2 ^ 63\<close> (no object is larger), succeeds, every result lies inside a block that the arena owns, no two
  results overlap, the results of \<open>AllocateAligned\<close> are aligned, and \<open>MemoryUsage\<close> is the size of the
  blocks and of the pointers to them, modulo the range of \<open>size_t\<close>.\<close>

theorem arena_regions_disjoint:
  assumes "\<forall>c \<in> set cs. 0 < alloc_size c \<and> alloc_size c < 2 ^ 63"
  shows "\<exists>ps a. run_allocs cs Arena_new = Some (map Some ps, a) \<and> length ps = length cs \<and>
    (\<forall>i < length cs. fst (ps ! i) < length (ar_blocks a) \<and>
       snd (ps ! i) + alloc_size (cs ! i) \<le> ar_blocks a ! fst (ps ! i) \<and>
       (\<forall>n. cs ! i = Aligned n \<longrightarrow> snd (ps ! i) mod 8 = 0) \<and>
       (\<forall>j < i. fst (ps ! j) \<noteq> fst (ps ! i) \<or> snd (ps ! j) + alloc_size (cs ! j) \<le> snd (ps ! i) \<or>
         snd (ps ! i) + alloc_size (cs ! i) \<le> snd (ps ! j))) \<and>
    MemoryUsage a = (\<Sum>n \<leftarrow> ar_blocks a. n + 8) mod 2 ^ 64"
proof -
  let ?rs = "\<lambda>ps. regions_of ps cs"
  from run_allocs_ok [OF assms arena_ok_new] obtain ps a where
    run: "run_allocs cs Arena_new = Some (map Some ps, a)" "length ps = length cs" and ok: "arena_ok a (?rs ps)" and
    aligned: "\<forall>i < length cs. \<forall>n. cs ! i = Aligned n \<longrightarrow> snd (ps ! i) mod 8 = 0" by auto
  have nth: "?rs ps ! i = (fst (ps ! i), snd (ps ! i), alloc_size (cs ! i))" if "i < length cs" for i
    using that run(2) by (rule regions_of_nth [rotated])
  have "region_ok a (?rs ps ! i)" if "i < length cs" for i
    using ok that run(2) nth_mem [of i "?rs ps"] by (simp add: arena_ok_def)
  moreover have "disjoint_regions (?rs ps ! j) (?rs ps ! i)" if "j < i" "i < length cs" for i j
    using ok that run(2) by (simp add: arena_ok_def sorted_wrt_iff_nth_less)
  ultimately have regions: "region_ok a (?rs ps ! i)" "j < i \<Longrightarrow> disjoint_regions (?rs ps ! j) (?rs ps ! i)"
    if "i < length cs" for i j using that by blast+
  show ?thesis
  proof (intro exI [of _ ps] exI [of _ a] conjI allI impI)
    show "MemoryUsage a = (\<Sum>n \<leftarrow> ar_blocks a. n + 8) mod 2 ^ 64" using ok by (simp add: arena_ok_def MemoryUsage_def)
    fix i assume i: "i < length cs"
    with regions(1) [OF i]
    show "fst (ps ! i) < length (ar_blocks a)" "snd (ps ! i) + alloc_size (cs ! i) \<le> ar_blocks a ! fst (ps ! i)"
      by (simp_all only: nth region_ok.simps)
    show "snd (ps ! i) mod 8 = 0" if "cs ! i = Aligned n" for n using aligned i that by blast
    fix j assume j: "j < i"
    with regions(2) [OF i j] i
    show "fst (ps ! j) \<noteq> fst (ps ! i) \<or> snd (ps ! j) + alloc_size (cs ! j) \<le> snd (ps ! i) \<or>
        snd (ps ! i) + alloc_size (cs ! i) \<le> snd (ps ! j)"
      by (simp only: nth [OF i] nth [OF less_trans [OF j i]] disjoint_regions.simps)
  qed (use run in simp_all)
qed

theorem arena_regions_disjoint_witness:
  "\<exists>ps a. run_allocs [Plain 3, Aligned 24, Plain 5000, Plain 1] Arena_new = Some (map Some ps, a) \<and>
     snd (ps ! 1) mod 8 = 0 \<and> MemoryUsage a = (\<Sum>n \<leftarrow> ar_blocks a. n + 8) mod 2 ^ 64"
proof -
  have "\<forall>c \<in> set [Plain 3, Aligned 24, Plain 5000, Plain 1]. 0 < alloc_size c \<and> alloc_size c < 2 ^ 63" by simp
  from arena_regions_disjoint [OF this] obtain ps a where
    "run_allocs [Plain 3, Aligned 24, Plain 5000, Plain 1] Arena_new = Some (map Some ps, a)"
    "\<forall>i < 4. \<forall>n. [Plain 3, Aligned 24, Plain 5000, Plain 1] ! i = Aligned n \<longrightarrow> snd (ps ! i) mod 8 = 0"
    "MemoryUsage a = (\<Sum>n \<leftarrow> ar_blocks a. n + 8) mod 2 ^ 64" by auto
  moreover from this(2) [rule_format, of 1 24] have "snd (ps ! 1) mod 8 = 0" by simp
  ultimately show ?thesis by (intro exI conjI)
qed

end
