(* ===== verification/Ldb_Coding.thy ===== *)
theory Ldb_Coding
  imports Pb_Varint
begin

unbundle bit_operations_syntax

text \<open>
  The number and string coding of leveldb: \<open>util/coding.h\<close> and \<open>util/coding.cc\<close>, with
  the class \<open>Slice\<close> of \<open>include/leveldb/slice.h\<close>.

  A \<open>Slice\<close> is a pointer and a length into bytes that the callee does not change; it is the
  list of those bytes. A routine that parses at the front of a slice, or between two pointers
  \<open>p\<close> and \<open>limit\<close>, takes the list of the bytes from there and returns \<open>None\<close>
  where the code returns \<open>nullptr\<close> or \<open>false\<close>, and otherwise the value with the bytes
  behind it. A \<open>Put\<close> routine returns the string it appends to. An \<open>Encode\<close> routine
  returns the bytes it writes at its destination.
\<close>

section \<open>Slices\<close>

type_synonym slice = "u8 list"

text \<open>The assertion of \<open>remove_prefix\<close>, \<open>n <= size()\<close>, is not part of the model: each caller tests the length
  right before the call.\<close>

definition slice_remove_prefix :: "slice \<Rightarrow> nat \<Rightarrow> slice" where
  "slice_remove_prefix s n = drop n s"

text \<open>\<open>memcmp\<close> of the C library, on two blocks of equal length: the sign of the difference
  of the first bytes that differ.\<close>

fun memcmp :: "u8 list \<Rightarrow> u8 list \<Rightarrow> int" where
  "memcmp (a # as) (b # bs) = (if a < b then -1 else if b < a then 1 else memcmp as bs)"
| "memcmp _ _ = 0"

definition slice_compare :: "slice \<Rightarrow> slice \<Rightarrow> int" where
  "slice_compare a b =
     (let min_len = (if length a < length b then length a else length b);
          r = memcmp (take min_len a) (take min_len b)
      in if r = 0 then if length a < length b then -1 else if length a > length b then 1 else r
         else r)"

definition slice_starts_with :: "slice \<Rightarrow> slice \<Rightarrow> bool" where
  "slice_starts_with s x \<longleftrightarrow> length s \<ge> length x \<and> memcmp (take (length x) s) x = 0"

definition slice_eq :: "slice \<Rightarrow> slice \<Rightarrow> bool" where
  "slice_eq x y \<longleftrightarrow> length x = length y \<and> memcmp x y = 0"

section \<open>Fixed-width numbers\<close>

text \<open>\<open>port::kLittleEndian\<close>: the target is little-endian.\<close>

definition kLittleEndian :: bool where
  "kLittleEndian = True"

text \<open>\<open>memcpy\<close> from a number: its bytes in memory, least significant first.\<close>

definition EncodeFixed32 :: "u32 \<Rightarrow> u8 list" where
  "EncodeFixed32 val =
     (if kLittleEndian then le_bytes 4 (unat val)
      else [ucast (val AND 0xff), ucast (drop_bit 8 val AND 0xff),
            ucast (drop_bit 16 val AND 0xff), ucast (drop_bit 24 val AND 0xff)])"

definition EncodeFixed64 :: "u64 \<Rightarrow> u8 list" where
  "EncodeFixed64 val =
     (if kLittleEndian then le_bytes 8 (unat val)
      else [ucast (val AND 0xff), ucast (drop_bit 8 val AND 0xff),
            ucast (drop_bit 16 val AND 0xff), ucast (drop_bit 24 val AND 0xff),
            ucast (drop_bit 32 val AND 0xff), ucast (drop_bit 40 val AND 0xff),
            ucast (drop_bit 48 val AND 0xff), ucast (drop_bit 56 val AND 0xff)])"

definition PutFixed32 :: "u8 list \<Rightarrow> u32 \<Rightarrow> u8 list" where
  "PutFixed32 dst val = dst @ EncodeFixed32 val"

definition PutFixed64 :: "u8 list \<Rightarrow> u64 \<Rightarrow> u8 list" where
  "PutFixed64 dst val = dst @ EncodeFixed64 val"

text \<open>The reader at \<open>ptr\<close> does no bounds check: \<open>None\<close> is a read outside the bytes
  that are there.\<close>

definition DecodeFixed32 :: "u8 list \<Rightarrow> u32 option" where
  "DecodeFixed32 ptr =
     (if length ptr < 4 then None
      else if kLittleEndian then Some (of_nat (le_value (take 4 ptr)))
      else Some (ucast (ptr ! 0) OR push_bit 8 (ucast (ptr ! 1)) OR
                 push_bit 16 (ucast (ptr ! 2)) OR push_bit 24 (ucast (ptr ! 3))))"

definition DecodeFixed64 :: "u8 list \<Rightarrow> u64 option" where
  "DecodeFixed64 ptr =
     (if length ptr < 8 then None
      else if kLittleEndian then Some (of_nat (le_value (take 8 ptr)))
      else case (DecodeFixed32 ptr, DecodeFixed32 (drop 4 ptr)) of
             (Some lo, Some hi) \<Rightarrow> Some (push_bit 32 (ucast hi) OR ucast lo)
           | _ \<Rightarrow> None)"

section \<open>Varints\<close>

definition EncodeVarint32 :: "u32 \<Rightarrow> u8 list" where
  "EncodeVarint32 v =
     (let B = 128 in
      if v < 2 ^ 7 then [ucast v]
      else if v < 2 ^ 14 then [ucast (v OR B), ucast (drop_bit 7 v)]
      else if v < 2 ^ 21 then [ucast (v OR B), ucast (drop_bit 7 v OR B), ucast (drop_bit 14 v)]
      else if v < 2 ^ 28 then
        [ucast (v OR B), ucast (drop_bit 7 v OR B), ucast (drop_bit 14 v OR B),
         ucast (drop_bit 21 v)]
      else
        [ucast (v OR B), ucast (drop_bit 7 v OR B), ucast (drop_bit 14 v OR B),
         ucast (drop_bit 21 v OR B), ucast (drop_bit 28 v)])"

definition PutVarint32 :: "u8 list \<Rightarrow> u32 \<Rightarrow> u8 list" where
  "PutVarint32 dst v = dst @ EncodeVarint32 v"

lemma drop_bit_7_less: "128 \<le> (v :: u64) \<Longrightarrow> unat (drop_bit 7 v) < unat v"
  by (simp only: unat_drop_bit_div) (simp add: word_le_nat_alt)

function EncodeVarint64 :: "u64 \<Rightarrow> u8 list" where
  "EncodeVarint64 v =
     (if v \<ge> 128 then ucast (v OR 128) # EncodeVarint64 (drop_bit 7 v) else [ucast v])"
  by pat_completeness auto
termination
  by (relation "measure unat") (simp_all add: drop_bit_7_less)

declare EncodeVarint64.simps [simp del]

definition PutVarint64 :: "u8 list \<Rightarrow> u64 \<Rightarrow> u8 list" where
  "PutVarint64 dst v = dst @ EncodeVarint64 v"

definition PutLengthPrefixedSlice :: "u8 list \<Rightarrow> slice \<Rightarrow> u8 list" where
  "PutLengthPrefixedSlice dst val = PutVarint32 dst (of_nat (length val)) @ val"

function varint_length_loop :: "u64 \<Rightarrow> nat \<Rightarrow> nat" where
  "varint_length_loop v len =
     (if v \<ge> 128 then varint_length_loop (drop_bit 7 v) (len + 1) else len)"
  by pat_completeness auto
termination
  by (relation "measure (\<lambda>(v, len). unat v)") (simp_all add: drop_bit_7_less)

declare varint_length_loop.simps [simp del]

definition VarintLength :: "u64 \<Rightarrow> nat" where
  "VarintLength v = varint_length_loop v 1"

text \<open>
  The loop of \<open>GetVarint32PtrFallback\<close> and of \<open>GetVarint64Ptr\<close>: the same text at two
  widths of \<open>result\<close> and with two bounds on \<open>shift\<close>.
\<close>

fun varint_ptr_loop :: "u32 \<Rightarrow> u32 \<Rightarrow> 'a::len word \<Rightarrow> u8 list \<Rightarrow> ('a word \<times> u8 list) option" where
  "varint_ptr_loop max_shift shift result [] = None"
| "varint_ptr_loop max_shift shift result (p # ps) =
     (if shift \<le> max_shift then
        let byte = ucast p :: 'a word in
        if byte AND 128 \<noteq> 0
        then varint_ptr_loop max_shift (shift + 7) (result OR push_bit (unat shift) (byte AND 127)) ps
        else Some (result OR push_bit (unat shift) byte, ps)
      else None)"

definition GetVarint32PtrFallback :: "u8 list \<Rightarrow> (u32 \<times> u8 list) option" where
  "GetVarint32PtrFallback p = varint_ptr_loop 28 0 0 p"

definition GetVarint32Ptr :: "u8 list \<Rightarrow> (u32 \<times> u8 list) option" where
  "GetVarint32Ptr p =
     (case p of
        [] \<Rightarrow> GetVarint32PtrFallback p
      | b # p' \<Rightarrow>
          let result = ucast b :: u32 in
          if result AND 128 = 0 then Some (result, p') else GetVarint32PtrFallback p)"

definition GetVarint32 :: "slice \<Rightarrow> (u32 \<times> slice) option" where
  "GetVarint32 input = GetVarint32Ptr input"

definition GetVarint64Ptr :: "u8 list \<Rightarrow> (u64 \<times> u8 list) option" where
  "GetVarint64Ptr p = varint_ptr_loop 63 0 0 p"

definition GetVarint64 :: "slice \<Rightarrow> (u64 \<times> slice) option" where
  "GetVarint64 input = GetVarint64Ptr input"

text \<open>The pointer variant of \<open>GetLengthPrefixedSlice\<close>: the slice and the bytes at the
  pointer it returns.\<close>

definition GetLengthPrefixedSlicePtr :: "u8 list \<Rightarrow> (slice \<times> u8 list) option" where
  "GetLengthPrefixedSlicePtr p =
     (case GetVarint32Ptr p of
        None \<Rightarrow> None
      | Some (len, p) \<Rightarrow>
          if unat len > length p then None
          else Some (take (unat len) p, drop (unat len) p))"

definition GetLengthPrefixedSlice :: "slice \<Rightarrow> (slice \<times> slice) option" where
  "GetLengthPrefixedSlice input =
     (case GetVarint32 input of
        None \<Rightarrow> None
      | Some (len, input) \<Rightarrow>
          if length input \<ge> unat len
          then Some (take (unat len) input, slice_remove_prefix input (unat len))
          else None)"

section \<open>Slices are compared lexicographically\<close>

text \<open>The order that \<open>Slice::compare\<close> decides: lexicographic on unsigned bytes, a prefix
  first.\<close>

fun bytes_less :: "u8 list \<Rightarrow> u8 list \<Rightarrow> bool" where
  "bytes_less _ [] = False"
| "bytes_less [] (b # bs) = True"
| "bytes_less (a # as) (b # bs) = (a < b \<or> a = b \<and> bytes_less as bs)"

lemma bytes_less_irrefl [simp]: "\<not> bytes_less a a"
  by (induction a) simp_all

lemma bytes_less_trans: "bytes_less a b \<Longrightarrow> bytes_less b c \<Longrightarrow> bytes_less a c"
proof (induction a b arbitrary: c rule: bytes_less.induct)
  case (3 a as b bs)
  then show ?case by (cases c) auto
next
  case (2 b bs)
  then show ?case by (cases c) auto
qed simp

lemma bytes_less_linear: "bytes_less a b \<or> a = b \<or> bytes_less b a"
proof (induction a b rule: bytes_less.induct)
  case (1 a)
  then show ?case by (cases a) simp_all
qed auto

lemma bytes_less_asym: "bytes_less a b \<Longrightarrow> \<not> bytes_less b a"
  using bytes_less_trans bytes_less_irrefl by blast

lemma slice_compare_Cons:
  "slice_compare (a # as) (b # bs) =
     (if a < b then -1 else if b < a then 1 else slice_compare as bs)"
  by (simp add: slice_compare_def Let_def)

lemma slice_compare_Nil [simp]:
  "slice_compare [] [] = 0" "slice_compare (a # as) [] = 1" "slice_compare [] (a # as) = -1"
  by (simp_all add: slice_compare_def)

lemma slice_compare_cases:
  "slice_compare a b = (if bytes_less a b then -1 else if a = b then 0 else 1)"
proof (induction a b rule: bytes_less.induct)
  case (1 a)
  then show ?case by (cases a) simp_all
qed (auto simp: slice_compare_Cons)

lemma slice_compare_iffs [simp]:
  "slice_compare a b < 0 \<longleftrightarrow> bytes_less a b"
  "slice_compare a b = 0 \<longleftrightarrow> a = b"
  "slice_compare a b > 0 \<longleftrightarrow> bytes_less b a"
  using bytes_less_linear [of a b] bytes_less_asym [of a b]
  by (auto simp: slice_compare_cases)

lemma memcmp_eq_0_iff: "length x = length y \<Longrightarrow> memcmp x y = 0 \<longleftrightarrow> x = y"
  by (induction x y rule: memcmp.induct) auto

lemma slice_eq_iff [simp]: "slice_eq x y \<longleftrightarrow> x = y"
  by (auto simp: slice_eq_def memcmp_eq_0_iff)

lemma slice_starts_with_iff [simp]: "slice_starts_with s x \<longleftrightarrow> (\<exists>t. s = x @ t)"
proof
  assume "slice_starts_with s x"
  then have "take (length x) s = x"
    using memcmp_eq_0_iff [of "take (length x) s" x] by (simp add: slice_starts_with_def)
  then show "\<exists>t. s = x @ t" by (metis append_take_drop_id)
qed (auto simp: slice_starts_with_def memcmp_eq_0_iff)

section \<open>Round trips\<close>

lemma EncodeFixed_LE:
  "EncodeFixed32 v = le_bytes 4 (unat v)" "EncodeFixed64 w = le_bytes 8 (unat w)"
  by (simp_all add: EncodeFixed32_def EncodeFixed64_def kLittleEndian_def)

lemma length_EncodeFixed [simp]: "length (EncodeFixed32 v) = 4" "length (EncodeFixed64 w) = 8"
  by (simp_all add: EncodeFixed_LE)

lemma DecodeFixed32_Encode [simp]: "DecodeFixed32 (EncodeFixed32 v @ rest) = Some v"
  by (simp add: DecodeFixed32_def kLittleEndian_def EncodeFixed_LE le_value_bytes)

lemma DecodeFixed64_Encode [simp]: "DecodeFixed64 (EncodeFixed64 v @ rest) = Some v"
  by (simp add: DecodeFixed64_def kLittleEndian_def EncodeFixed_LE le_value_bytes)

lemma EncodeFixed_Decode:
  "length bs = 4 \<Longrightarrow> DecodeFixed32 bs = Some v \<Longrightarrow> EncodeFixed32 v = bs"
  "length bs = 8 \<Longrightarrow> DecodeFixed64 bs = Some w \<Longrightarrow> EncodeFixed64 w = bs"
  using le_value_bound [of bs] le_bytes_value [of bs]
  by (auto simp: DecodeFixed32_def DecodeFixed64_def kLittleEndian_def EncodeFixed_LE)

text \<open>A byte with the continuation bit, and the last byte.\<close>

lemma ucast_of_unat: "ucast w = of_nat (unat w)"
  by simp

lemma bit_128_iff: "bit (128 :: nat) n \<longleftrightarrow> n = 7"
proof -
  have "(128 :: nat) = 2 ^ 7" by simp
  then show ?thesis by (simp only: bit_exp_iff) auto
qed

lemma bit_128_word_iff: "7 < LENGTH('a) \<Longrightarrow> bit (128 :: 'a::len word) n \<longleftrightarrow> n = 7"
proof -
  assume "7 < LENGTH('a)"
  moreover have "(128 :: 'a word) = 2 ^ 7" by simp
  ultimately show ?thesis by (simp only: bit_exp_iff) auto
qed

lemma cont_byte:
  assumes "7 < LENGTH('a::len)"
  shows "(ucast (v OR 128 :: 'a word) :: u8) = of_nat (unat v mod 128 + 128)"
proof -
  have "unat v mod 128 + 128 = take_bit 7 (unat v) OR 128"
    using nat_or_push_bit [of "unat v mod 128" 7 1] by (simp add: take_bit_eq_mod)
  moreover have "(ucast (v OR 128) :: u8) = of_nat (take_bit 7 (unat v) OR 128)"
  proof (rule bit_word_eqI)
    fix n assume n: "n < LENGTH(8)"
    then have "n = 7 \<or> n < 7" by auto
    then show "bit (ucast (v OR 128) :: u8) n \<longleftrightarrow> bit (of_nat (take_bit 7 (unat v) OR 128) :: u8) n"
      using assms n unfolding bit_unsigned_iff bit_of_nat_iff bit_or_iff bit_take_bit_iff
        bit_128_iff bit_128_word_iff [OF assms]
      by (auto simp: bit_simps)
  qed
  ultimately show ?thesis by simp
qed

lemma EncodeVarint64_bytes: "EncodeVarint64 v = varint_bytes (unat v)"
proof (induction v rule: EncodeVarint64.induct)
  case (1 v)
  show ?case
  proof (cases "128 \<le> v")
    case True
    then have "128 \<le> unat v" by (simp add: word_le_nat_alt)
    moreover have "unat (drop_bit 7 v) = unat v div 128" by (simp only: unat_drop_bit_div) simp
    ultimately show ?thesis using True 1
      by (simp add: EncodeVarint64.simps [of v] varint_bytes_large cont_byte)
  next
    case False
    then have "unat v < 128" by (simp add: word_le_nat_alt)
    with False show ?thesis
      by (simp add: EncodeVarint64.simps [of v] varint_bytes_small)
  qed
qed

lemma EncodeVarint32_bytes: "EncodeVarint32 v = varint_bytes (unat v)"
proof -
  define n where "n = unat v"
  have n: "n < 2 ^ 32" by (simp add: n_def)
  have less: "v < 2 ^ 7 \<longleftrightarrow> n < 128" "v < 2 ^ 14 \<longleftrightarrow> n < 128 * 128"
    "v < 2 ^ 21 \<longleftrightarrow> n < 128 * (128 * 128)" "v < 2 ^ 28 \<longleftrightarrow> n < 128 * (128 * (128 * 128))"
    by (simp_all add: n_def word_less_nat_alt)
  have cont: "ucast (drop_bit k v OR 128) = (of_nat (n div 2 ^ k mod 128 + 128) :: u8)"
    "ucast (v OR 128) = (of_nat (n mod 128 + 128) :: u8)" for k
    by (simp_all add: cont_byte unat_drop_bit_div n_def)
  have last: "ucast (drop_bit k v) = (of_nat (n div 2 ^ k) :: u8)" "ucast v = (of_nat n :: u8)" for k
    by (simp_all only: ucast_of_unat [of v] ucast_of_unat [of "drop_bit k v"] unat_drop_bit_div n_def)
  have divs: "n div 128 div 128 = n div 16384" "n div 16384 div 128 = n div 2097152"
    "n div 2097152 div 128 = n div 268435456"
    by (simp_all flip: div_mult2_eq)
  have "n div 268435456 < 128" using n by simp
  then show ?thesis
    unfolding EncodeVarint32_def Let_def less cont last n_def [symmetric]
    by (auto simp: varint_bytes.simps [of n] varint_bytes.simps [of "n div 128"] divs
        varint_bytes.simps [of "n div 16384"] varint_bytes.simps [of "n div 2097152"]
        varint_bytes_small)
qed

lemma VarintLength_bytes: "VarintLength v = length (EncodeVarint64 v)"
proof -
  have "varint_length_loop v len + 1 = len + length (EncodeVarint64 v)" for len
  proof (induction v len rule: varint_length_loop.induct)
    case (1 v len)
    then show ?case
      by (cases "128 \<le> v") (simp_all add: varint_length_loop.simps [of v] EncodeVarint64.simps [of v])
  qed
  from this [of 1] show ?thesis by (simp add: VarintLength_def)
qed

section \<open>Parsing varints\<close>

text \<open>One round of the loop: \<open>i\<close> bytes have been read, \<open>k\<close> are allowed.\<close>

lemma ucast_and_128: "7 < LENGTH('a) \<Longrightarrow> (ucast (p :: u8) AND 128 :: 'a::len word) = 0 \<longleftrightarrow> unat p < 128"
proof -
  assume "7 < LENGTH('a)"
  then have "(ucast p AND 128 :: 'a word) = 0 \<longleftrightarrow> \<not> bit (ucast p :: 'a word) 7"
    using and_exp_eq_0_iff_not_bit [of "ucast p :: 'a word" 7] by simp
  also have "\<dots> \<longleftrightarrow> \<not> bit p 7" using \<open>7 < LENGTH('a)\<close> by (auto simp: bit_simps)
  also have "\<dots> \<longleftrightarrow> unat p < 128"
    using and_exp_eq_0_iff_not_bit [of p 7] byte_and_80 [of p] by simp
  finally show ?thesis .
qed

lemma ucast_and_127:
  "7 < LENGTH('a) \<Longrightarrow> (ucast (p :: u8) AND 127 :: 'a::len word) = of_nat (unat p mod 128)"
proof -
  assume "7 < LENGTH('a)"
  have "(127 :: 'a word) = mask 7" by (simp add: mask_eq_exp_minus_1)
  then have "ucast p AND (127 :: 'a word) = take_bit 7 (ucast p)" by (simp only: take_bit_eq_mask)
  also have "\<dots> = of_nat (take_bit 7 (unat p))" by (simp add: of_nat_take_bit)
  finally show ?thesis by (simp add: take_bit_eq_mod)
qed

lemma shift_7:
  assumes "i < k" "k \<le> 10"
  shows "(of_nat (7 * i) :: u32) \<le> of_nat (7 * (k - 1))" "unat (of_nat (7 * i) :: u32) = 7 * i"
proof -
  have u: "unat (of_nat (7 * j) :: u32) = 7 * j" if "j \<le> 10" for j
    by (rule uint32_small) (use that in simp)
  from u [of i] u [of "k - 1"] assms
  show "(of_nat (7 * i) :: u32) \<le> of_nat (7 * (k - 1))" "unat (of_nat (7 * i) :: u32) = 7 * i"
    by (simp_all add: word_le_nat_alt del: of_nat_mult)
qed

lemma varint_ptr_loop_step:
  assumes "7 < LENGTH('a::len)" "i < k" "k \<le> 10" "r < 2 ^ (7 * i)"
  shows "varint_ptr_loop (of_nat (7 * (k - 1))) (of_nat (7 * i)) (of_nat r :: 'a word) (p # ps) =
    (if unat p < 128 then Some (of_nat (r + unat p mod 128 * 2 ^ (7 * i)), ps)
     else varint_ptr_loop (of_nat (7 * (k - 1))) (of_nat (7 * Suc i))
            (of_nat (r + unat p mod 128 * 2 ^ (7 * i))) ps)"
proof -
  have acc: "of_nat r OR push_bit (7 * i) (of_nat (unat p mod 128)) =
      (of_nat (r + unat p mod 128 * 2 ^ (7 * i)) :: 'a word)"
    by (rule varint_accumulate(1) [OF assms(4)])
  have next_shift: "(of_nat (7 * i) :: u32) + 7 = of_nat (7 * Suc i)" by simp
  show ?thesis
  proof (cases "unat p < 128")
    case True
    then have "ucast p = (of_nat (unat p mod 128) :: 'a word)" by simp
    with acc have "of_nat r OR push_bit (7 * i) (ucast p) =
      (of_nat (r + unat p mod 128 * 2 ^ (7 * i)) :: 'a word)" by (simp only:)
    with True show ?thesis
      using shift_7 [OF assms(2,3)]
      by (simp only: varint_ptr_loop.simps Let_def if_True ucast_and_128 [OF assms(1)]
          not_True_eq_False if_False)
  next
    case False
    then show ?thesis
      using shift_7 [OF assms(2,3)]
      by (simp only: varint_ptr_loop.simps Let_def if_True ucast_and_128 [OF assms(1)]
          not_False_eq_True if_False ucast_and_127 [OF assms(1)] acc next_shift)
  qed
qed

lemma varint_ptr_loop_form:
  assumes "7 < LENGTH('a::len)" "k \<le> 10"
  shows "varint_form bs \<Longrightarrow> i + length bs \<le> k \<Longrightarrow> r < 2 ^ (7 * i) \<Longrightarrow>
    varint_ptr_loop (of_nat (7 * (k - 1))) (of_nat (7 * i)) (of_nat r :: 'a word) (bs @ rest) =
      Some (of_nat (r + varint_value bs * 2 ^ (7 * i)), rest)"
proof (induction bs arbitrary: i r)
  case (Cons b bs)
  then have i: "i < k" by simp
  note step = varint_ptr_loop_step [OF assms(1) i assms(2) Cons.prems(3), of b "bs @ rest"]
  show ?case
  proof (cases "unat b < 128")
    case True
    with Cons.prems(1) show ?thesis unfolding append_Cons step by simp
  next
    case False
    with Cons.prems have "varint_form bs" "Suc i + length bs \<le> k" by simp_all
    from Cons.IH [OF this varint_accumulate(2) [OF Cons.prems(3), of b]] False
    show ?thesis unfolding append_Cons step by (simp add: power_add algebra_simps)
  qed
qed simp

lemma varint_ptr_loop_continued:
  assumes "7 < LENGTH('a::len)" "0 < k" "k \<le> 10"
  shows "\<forall>b \<in> set (take (k - i) bs). 128 \<le> unat b \<Longrightarrow> i \<le> k \<Longrightarrow> r < 2 ^ (7 * i) \<Longrightarrow>
    varint_ptr_loop (of_nat (7 * (k - 1))) (of_nat (7 * i)) (of_nat r :: 'a word) bs = None"
proof (induction bs arbitrary: i r)
  case (Cons b bs)
  show ?case
  proof (cases "i = k")
    case True
    have "\<not> (of_nat (7 * k) :: u32) \<le> of_nat (7 * (k - 1))"
      using uint32_small [of "7 * k"] uint32_small [of "7 * (k - 1)"] assms(2,3)
      by (simp add: word_le_nat_alt del: of_nat_mult uint32_small)
    with True show ?thesis by (simp only: varint_ptr_loop.simps if_False)
  next
    case False
    with Cons.prems(2) have i: "i < k" by simp
    then have "k - i = Suc (k - Suc i)" by simp
    with Cons.prems(1) have "128 \<le> unat b" "\<forall>b \<in> set (take (k - Suc i) bs). 128 \<le> unat b" by simp_all
    with Cons.IH [OF this(2) _ varint_accumulate(2) [OF Cons.prems(3), of b]] i show ?thesis
      unfolding varint_ptr_loop_step [OF assms(1) i assms(3) Cons.prems(3)] by simp
  qed
qed simp

text \<open>The language of the two parsers: a varint of at most \<open>k\<close> bytes.\<close>

lemma varint_ptr_loop_iff:
  assumes "7 < LENGTH('a::len)" "0 < k" "k \<le> 10"
  shows "varint_ptr_loop (of_nat (7 * (k - 1))) 0 (0 :: 'a word) input = Some (v, rest) \<longleftrightarrow>
    (\<exists>bs. input = bs @ rest \<and> varint_form bs \<and> length bs \<le> k \<and> v = of_nat (varint_value bs))"
    (is "?l \<longleftrightarrow> ?r")
proof
  note form = varint_ptr_loop_form [OF assms(1,3), of _ 0 0, simplified]
  from form assms(3) show "?r \<Longrightarrow> ?l" by auto
  assume ?l
  from varint_split [of "take k input"] show ?r
  proof (elim disjE exE conjE)
    fix bs t assume t: "take k input = bs @ t" and bs: "varint_form bs"
    then have "length bs \<le> k" by (metis length_append length_take min.bounded_iff nle_le trans_le_add1)
    moreover have "input = bs @ t @ drop k input"
      using t by (metis append.assoc append_take_drop_id)
    moreover from this form [OF bs \<open>length bs \<le> k\<close>, of "t @ drop k input"] \<open>?l\<close>
    have "rest = t @ drop k input" "v = of_nat (varint_value bs)" by simp_all
    ultimately show ?r using bs by auto
  next
    assume "\<forall>b \<in> set (take k input). 128 \<le> unat b"
    with varint_ptr_loop_continued [OF assms, of 0 input 0] \<open>?l\<close> show ?r by simp
  qed
qed

lemma varint_form_nonempty: "varint_form bs \<Longrightarrow> bs \<noteq> []"
  by auto

lemma GetVarint64_iff:
  "GetVarint64 input = Some (v, rest) \<longleftrightarrow>
     (\<exists>bs. input = bs @ rest \<and> varint_form bs \<and> length bs \<le> 10 \<and> v = of_nat (varint_value bs))"
  using varint_ptr_loop_iff [where 'a = 64, of 10 input v rest]
  by (simp add: GetVarint64_def GetVarint64Ptr_def)

text \<open>The inlined test of the first byte is a shortcut for the loop.\<close>

lemma GetVarint32Ptr_fallback: "GetVarint32Ptr p = GetVarint32PtrFallback p"
  by (cases p) (simp_all add: GetVarint32Ptr_def GetVarint32PtrFallback_def Let_def)

lemma GetVarint32_iff:
  "GetVarint32 input = Some (v, rest) \<longleftrightarrow>
     (\<exists>bs. input = bs @ rest \<and> varint_form bs \<and> length bs \<le> 5 \<and> v = of_nat (varint_value bs))"
  using varint_ptr_loop_iff [where 'a = 32, of 5 input v rest]
  by (simp add: GetVarint32_def GetVarint32Ptr_fallback GetVarint32PtrFallback_def)

lemma GetVarint32_Encode [simp]: "GetVarint32 (EncodeVarint32 v @ rest) = Some (v, rest)"
  using varint_bytes_length_32 [OF unat_u32_less [of v]]
  by (auto simp: GetVarint32_iff EncodeVarint32_bytes intro!: exI [of _ "varint_bytes (unat v)"])

lemma GetVarint64_Encode [simp]: "GetVarint64 (EncodeVarint64 v @ rest) = Some (v, rest)"
  using varint_bytes_length_64 [OF unat_u64_less [of v]]
  by (auto simp: GetVarint64_iff EncodeVarint64_bytes intro!: exI [of _ "varint_bytes (unat v)"])

lemma GetVarint_shorter:
  "GetVarint32 input = Some (v, rest) \<Longrightarrow> length rest < length input"
  "GetVarint64 input = Some (w, rest) \<Longrightarrow> length rest < length input"
  by (auto simp: GetVarint32_iff GetVarint64_iff neq_Nil_conv dest: varint_form_nonempty)

lemma GetLengthPrefixedSlice_Ptr: "GetLengthPrefixedSlicePtr p = GetLengthPrefixedSlice p"
  by (auto simp: GetLengthPrefixedSlicePtr_def GetLengthPrefixedSlice_def GetVarint32_def
      slice_remove_prefix_def split: option.splits)

lemma GetLengthPrefixedSlice_shorter:
  "GetLengthPrefixedSlice input = Some (s, rest) \<Longrightarrow> length rest < length input"
  by (auto simp: GetLengthPrefixedSlice_def slice_remove_prefix_def
      dest!: GetVarint_shorter(1) split: option.splits prod.splits if_splits)

lemma GetLengthPrefixedSlice_Put [simp]:
  "length s < 2 ^ 32 \<Longrightarrow>
     GetLengthPrefixedSlice (PutLengthPrefixedSlice [] s @ rest) = Some (s, rest)"
  by (simp add: GetLengthPrefixedSlice_def PutLengthPrefixedSlice_def PutVarint32_def
      slice_remove_prefix_def)

lemma Put_append:
  "PutFixed32 dst v = dst @ PutFixed32 [] v" "PutFixed64 dst w = dst @ PutFixed64 [] w"
  "PutVarint32 dst v = dst @ PutVarint32 [] v" "PutVarint64 dst w = dst @ PutVarint64 [] w"
  "PutLengthPrefixedSlice dst s = dst @ PutLengthPrefixedSlice [] s"
  by (simp_all add: PutFixed32_def PutFixed64_def PutVarint32_def PutVarint64_def
      PutLengthPrefixedSlice_def)

lemma Get_Put_varint [simp]:
  "GetVarint32 (PutVarint32 [] v @ rest) = Some (v, rest)"
  "GetVarint64 (PutVarint64 [] w @ rest) = Some (w, rest)"
  by (simp_all add: PutVarint32_def PutVarint64_def)

section \<open>Properties\<close>

text \<open>\<open>GetVarint32\<close> and \<open>GetVarint64\<close> accept exactly the slices that start with
  a varint of at most five and ten bytes, return its value (modulo the width of the result) and
  leave the slice right behind it; every other slice is refused. The parsers never read beyond
  the slice, and the fast path for one byte agrees with the general loop.\<close>

theorem GetVarint_accepts:
  "(GetVarint32 input = Some (v, rest) \<longleftrightarrow>
     (\<exists>bs. input = bs @ rest \<and> varint_form bs \<and> length bs \<le> 5 \<and> v = of_nat (varint_value bs))) \<and>
   (GetVarint64 input = Some (w, rest) \<longleftrightarrow>
     (\<exists>bs. input = bs @ rest \<and> varint_form bs \<and> length bs \<le> 10 \<and> w = of_nat (varint_value bs))) \<and>
   GetVarint32Ptr input = GetVarint32PtrFallback input"
  by (intro conjI GetVarint32_iff GetVarint64_iff GetVarint32Ptr_fallback)

text \<open>C35: whatever is appended to a string is read back from it: both fixed widths, both
  varints, and length-prefixed slices below 4 GiB, by both variants of the slice reader, each
  leaving the input right behind the value; \<open>VarintLength\<close> predicts the number of bytes.\<close>

theorem coding_roundtrip:
  assumes "length s < 2 ^ 32"
  shows "DecodeFixed32 (drop (length dst) (PutFixed32 dst v @ rest)) = Some v \<and>
    DecodeFixed64 (drop (length dst) (PutFixed64 dst w @ rest)) = Some w \<and>
    GetVarint32 (drop (length dst) (PutVarint32 dst v @ rest)) = Some (v, rest) \<and>
    GetVarint64 (drop (length dst) (PutVarint64 dst w @ rest)) = Some (w, rest) \<and>
    GetLengthPrefixedSlice (drop (length dst) (PutLengthPrefixedSlice dst s @ rest)) = Some (s, rest) \<and>
    GetLengthPrefixedSlicePtr (drop (length dst) (PutLengthPrefixedSlice dst s @ rest)) = Some (s, rest) \<and>
    length (PutVarint64 dst w) = length dst + VarintLength w"
  using assms
  by (simp add: Put_append [of dst] GetLengthPrefixedSlice_Ptr VarintLength_bytes)
    (simp add: PutFixed32_def PutFixed64_def PutVarint64_def)

theorem coding_roundtrip_witness:
  "GetLengthPrefixedSlice (drop 1 (PutLengthPrefixedSlice [9] [1, 2, 3] @ [7])) = Some ([1, 2, 3], [7])"
  using coding_roundtrip [of "[1, 2, 3]" "[9]" 0 "[7]"] by simp

end
