(* ===== verification/Ldb_Comparator.thy ===== *)
theory Ldb_Comparator
  imports Ldb_Coding
begin

text \<open>
  Key comparators: the interface \<open>Comparator\<close> of \<open>include/leveldb/comparator.h\<close>
  with its contract as a locale, and the bytewise comparator of \<open>util/comparator.cc\<close>.
\<close>

section \<open>The interface\<close>

text \<open>The two shortening operations return the new string; \<open>None\<close> is a failed
  assertion.\<close>

record comparator =
  cmp_Name :: string
  cmp_Compare :: "slice \<Rightarrow> slice \<Rightarrow> int"
  cmp_FindShortestSeparator :: "slice \<Rightarrow> slice \<Rightarrow> slice option"
  cmp_FindShortSuccessor :: "slice \<Rightarrow> slice option"

text \<open>What \<open>comparator.h\<close> asks of an implementation, on the keys it is meant for: a strict
  linear order that \<open>Compare\<close> decides, a separator in \<open>[start, limit)\<close> when the range is
  not empty and no change otherwise, a successor that is not smaller.\<close>

locale comparator_ok =
  fixes c :: comparator
    and valid :: "slice \<Rightarrow> bool"
    and less :: "slice \<Rightarrow> slice \<Rightarrow> bool"
  assumes compare_less: "valid a \<Longrightarrow> valid b \<Longrightarrow> cmp_Compare c a b < 0 \<longleftrightarrow> less a b"
    and compare_eq: "valid a \<Longrightarrow> valid b \<Longrightarrow> cmp_Compare c a b = 0 \<longleftrightarrow> a = b"
    and compare_greater: "valid a \<Longrightarrow> valid b \<Longrightarrow> cmp_Compare c a b > 0 \<longleftrightarrow> less b a"
    and less_trans: "less a b \<Longrightarrow> less b d \<Longrightarrow> less a d"
    and separator: "valid start \<Longrightarrow> valid limit \<Longrightarrow> less start limit \<Longrightarrow>
      \<exists>r. cmp_FindShortestSeparator c start limit = Some r \<and> valid r \<and> (r = start \<or> less start r) \<and>
        less r limit \<and> length r \<le> length start"
    and separator_unchanged: "valid start \<Longrightarrow> valid limit \<Longrightarrow> \<not> less start limit \<Longrightarrow>
      cmp_FindShortestSeparator c start limit = Some start"
    and successor: "valid key \<Longrightarrow>
      \<exists>r. cmp_FindShortSuccessor c key = Some r \<and> valid r \<and> (r = key \<or> less key r) \<and> length r \<le> length key"
begin

lemma less_irrefl: "valid a \<Longrightarrow> \<not> less a a"
  using compare_less [of a a] compare_eq [of a a] by auto

lemma less_linear: "valid a \<Longrightarrow> valid b \<Longrightarrow> less a b \<or> a = b \<or> less b a"
  using compare_less [of a b] compare_eq [of a b] compare_greater [of a b] by linarith

lemma less_asym: "valid a \<Longrightarrow> less a b \<Longrightarrow> \<not> less b a"
  using less_trans less_irrefl by blast

end

section \<open>The bytewise comparator\<close>

function diff_index_loop :: "slice \<Rightarrow> slice \<Rightarrow> nat \<Rightarrow> nat" where
  "diff_index_loop start limit diff_index =
     (if diff_index < min (length start) (length limit) \<and> start ! diff_index = limit ! diff_index
      then diff_index_loop start limit (diff_index + 1) else diff_index)"
  by pat_completeness auto
termination
  by (relation "measure (\<lambda>(start, limit, diff_index). length start - diff_index)") auto

declare diff_index_loop.simps [simp del]

definition bytewise_Compare :: "slice \<Rightarrow> slice \<Rightarrow> int" where
  "bytewise_Compare a b = slice_compare a b"

definition bytewise_FindShortestSeparator :: "slice \<Rightarrow> slice \<Rightarrow> slice option" where
  "bytewise_FindShortestSeparator start limit =
     (let min_length = min (length start) (length limit);
          diff_index = diff_index_loop start limit 0
      in if diff_index \<ge> min_length then Some start
         else
           let diff_byte = start ! diff_index in
           if diff_byte < 0xff \<and> unat diff_byte + 1 < unat (limit ! diff_index) then
             let start = take (diff_index + 1) (start[diff_index := start ! diff_index + 1])
             in asserting (bytewise_Compare start limit < 0) (Some start)
           else Some start)"

function successor_loop :: "slice \<Rightarrow> nat \<Rightarrow> slice" where
  "successor_loop key i =
     (if i < length key then
        if key ! i \<noteq> 0xff then take (i + 1) (key[i := key ! i + 1]) else successor_loop key (i + 1)
      else key)"
  by pat_completeness auto
termination
  by (relation "measure (\<lambda>(key, i). length key - i)") auto

declare successor_loop.simps [simp del]

definition bytewise_FindShortSuccessor :: "slice \<Rightarrow> slice option" where
  "bytewise_FindShortSuccessor key = Some (successor_loop key 0)"

definition BytewiseComparator :: comparator where
  "BytewiseComparator =
     \<lparr>cmp_Name = ''leveldb.BytewiseComparator'', cmp_Compare = bytewise_Compare,
      cmp_FindShortestSeparator = bytewise_FindShortestSeparator,
      cmp_FindShortSuccessor = bytewise_FindShortSuccessor\<rparr>"

section \<open>It keeps the contract\<close>

lemma bytes_less_append [simp]: "bytes_less (p @ a) (p @ b) \<longleftrightarrow> bytes_less a b"
  by (induction p) simp_all

text \<open>The loop finds the length of the common prefix.\<close>

lemma diff_index_prefix:
  assumes "take i start = take i limit" "i \<le> length start" "i \<le> length limit"
  shows "let d = diff_index_loop start limit i in
    take d start = take d limit \<and> d \<le> length start \<and> d \<le> length limit \<and>
    (d < min (length start) (length limit) \<longrightarrow> start ! d \<noteq> limit ! d)"
  using assms
proof (induction start limit i rule: diff_index_loop.induct)
  case (1 start limit i)
  show ?case
  proof (cases "i < min (length start) (length limit) \<and> start ! i = limit ! i")
    case True
    with 1 show ?thesis
      by (simp add: diff_index_loop.simps [of _ _ i] take_Suc_conv_app_nth)
  next
    case False
    then show ?thesis using 1(2-)
      by (auto simp: diff_index_loop.simps [of _ _ i] Let_def)
  qed
qed

text \<open>Two strings that differ first at byte \<open>a\<close> against byte \<open>b\<close>.\<close>

lemma diff_split:
  assumes "d < length s" "d < length t" "take d s = take d t"
  shows "s = take d s @ s ! d # drop (Suc d) s" "t = take d s @ t ! d # drop (Suc d) t"
  using assms id_take_nth_drop [of d s] id_take_nth_drop [of d t] by simp_all

lemma byte_succ: "(b :: u8) \<noteq> 0xff \<Longrightarrow> unat (b + 1) = unat b + 1"
proof -
  assume "b \<noteq> 0xff"
  then have "unat b \<noteq> unat (0xff :: u8)" by (metis unsigned_word_eqI)
  moreover have "unat (0xff :: u8) = 255" "unat b < 256" using unat_u8_less by simp_all
  ultimately have "unat b + 1 < 256" by linarith
  then have "unat (of_nat (unat b + 1) :: u8) = unat b + 1" by (rule unat_of_nat_u8)
  then show ?thesis by (simp add: add.commute)
qed

lemma byte_less_succ: "(b :: u8) \<noteq> 0xff \<Longrightarrow> b < b + 1"
  by (simp add: word_less_nat_alt byte_succ)

text \<open>The separator is the start itself, or the common prefix with one larger byte.\<close>

lemma separator_cases:
  obtains (same) "bytewise_FindShortestSeparator start limit = Some start"
  | (shorter) p x y s t where "start = p @ x # s" "limit = p @ y # t" "x < x + 1" "x + 1 < y"
      "bytewise_FindShortestSeparator start limit = Some (p @ [x + 1])"
proof -
  define d where "d = diff_index_loop start limit 0"
  have d: "take d start = take d limit" "d \<le> length start" "d \<le> length limit"
    using diff_index_prefix [of 0 start limit] by (simp_all add: d_def Let_def)
  define p x y where "p = take d start" and "x = start ! d" and "y = limit ! d"
  note unfolded = bytewise_FindShortestSeparator_def [of start limit, folded d_def, unfolded Let_def]
  show thesis
  proof (cases "d < min (length start) (length limit) \<and> x < 0xff \<and> unat x + 1 < unat y")
    case True
    then have split: "start = p @ x # drop (Suc d) start" "limit = p @ y # drop (Suc d) limit"
      using diff_split [of d start limit] d(1) by (simp_all add: p_def x_def y_def)
    from True have "x \<noteq> 0xff" by auto
    with True have x: "x < x + 1" "x + 1 < y"
      using byte_less_succ [of x] byte_succ [of x] by (auto simp: word_less_nat_alt dest: less_imp_neq)
    have len: "length p = d" using d(2) by (simp add: p_def)
    have "take (d + 1) (start[d := x + 1]) = p @ [x + 1]"
      by (subst split(1)) (simp add: list_update_append len)
    moreover have "bytewise_Compare (p @ [x + 1]) limit < 0"
      by (subst split(2)) (simp add: bytewise_Compare_def x(2))
    ultimately have "bytewise_FindShortestSeparator start limit = Some (p @ [x + 1])"
      using True unfolding unfolded by (auto simp: min_le_iff_disj x_def [symmetric] y_def [symmetric])
    with shorter split x show thesis by blast
  next
    case False
    then have "bytewise_FindShortestSeparator start limit = Some start"
      unfolding unfolded by (auto simp: x_def y_def)
    then show thesis by (rule same)
  qed
qed

lemma successor_loop_cases:
  assumes "i \<le> length key"
  shows "successor_loop key i = key \<or>
    (\<exists>p x s. key = p @ x # s \<and> x < x + 1 \<and> successor_loop key i = p @ [x + 1])"
  using assms
proof (induction key i rule: successor_loop.induct)
  case (1 key i)
  show ?case
  proof (cases "i < length key \<and> key ! i \<noteq> 0xff")
    case True
    then have split: "key = take i key @ key ! i # drop (Suc i) key" by (simp add: id_take_nth_drop)
    have "take (i + 1) (key[i := key ! i + 1]) = take i key @ [key ! i + 1]"
      using True by (simp add: take_Suc_conv_app_nth)
    with True split byte_less_succ [of "key ! i"] show ?thesis
      by (simp add: successor_loop.simps [of key i]) metis
  next
    case False
    with 1 show ?thesis by (auto simp: successor_loop.simps [of key i])
  qed
qed

interpretation bytewise: comparator_ok BytewiseComparator "\<lambda>k. True" bytes_less
proof
  fix start limit :: slice
  show "\<exists>r. cmp_FindShortestSeparator BytewiseComparator start limit = Some r \<and> True \<and>
      (r = start \<or> bytes_less start r) \<and> bytes_less r limit \<and> length r \<le> length start"
    if "bytes_less start limit"
    using that by (cases rule: separator_cases [of start limit]) (auto simp: BytewiseComparator_def)
  show "cmp_FindShortestSeparator BytewiseComparator start limit = Some start" if "\<not> bytes_less start limit"
    using that by (cases rule: separator_cases [of start limit]) (auto simp: BytewiseComparator_def)
next
  fix key :: slice
  show "\<exists>r. cmp_FindShortSuccessor BytewiseComparator key = Some r \<and> True \<and>
      (r = key \<or> bytes_less key r) \<and> length r \<le> length key"
    using successor_loop_cases [of 0 key]
    by (auto simp: BytewiseComparator_def bytewise_FindShortSuccessor_def)
qed (auto simp: BytewiseComparator_def bytewise_Compare_def intro: bytes_less_trans)

end
