(* ===== verification/Ldb_Dbformat.thy ===== *)
theory Ldb_Dbformat
  imports Ldb_Comparator "HOL-Library.Monad_Syntax"
begin

unbundle bit_operations_syntax

text \<open>
  Internal keys of leveldb, \<open>db/dbformat.h\<close> and \<open>db/dbformat.cc\<close>: a user key with a
  sequence number and a value type packed into eight bytes, the order on them, and lookup keys.
  \<open>None\<close> is a failed assertion.
\<close>

section \<open>Keys\<close>

datatype ValueType = kTypeDeletion | kTypeValue

primrec vtype_num :: "ValueType \<Rightarrow> nat" where
  "vtype_num kTypeDeletion = 0"
| "vtype_num kTypeValue = 1"

definition kValueTypeForSeek :: ValueType where
  "kValueTypeForSeek = kTypeValue"

type_synonym SequenceNumber = u64

definition kMaxSequenceNumber :: SequenceNumber where
  "kMaxSequenceNumber = push_bit 56 1 - 1"

record ParsedInternalKey =
  pk_user_key :: slice
  pk_sequence :: SequenceNumber
  pk_type :: ValueType

definition InternalKeyEncodingLength :: "ParsedInternalKey \<Rightarrow> nat" where
  "InternalKeyEncodingLength key = length (pk_user_key key) + 8"

definition PackSequenceAndType :: "u64 \<Rightarrow> ValueType \<Rightarrow> u64 option" where
  "PackSequenceAndType seq t =
     asserting (seq \<le> kMaxSequenceNumber)
     (asserting (vtype_num t \<le> vtype_num kValueTypeForSeek)
     (Some (push_bit 8 seq OR of_nat (vtype_num t))))"

definition AppendInternalKey :: "u8 list \<Rightarrow> ParsedInternalKey \<Rightarrow> u8 list option" where
  "AppendInternalKey result key = do {
     packed \<leftarrow> PackSequenceAndType (pk_sequence key) (pk_type key);
     Some (PutFixed64 (result @ pk_user_key key) packed) }"

text \<open>\<open>ParseInternalKey\<close>: \<open>None\<close> is the result false.\<close>

definition ParseInternalKey :: "slice \<Rightarrow> ParsedInternalKey option" where
  "ParseInternalKey internal_key =
     (let n = length internal_key in
      if n < 8 then None
      else case DecodeFixed64 (drop (n - 8) internal_key) of
        None \<Rightarrow> None
      | Some num \<Rightarrow>
          let c = ucast (num AND 0xff) :: u8 in
          if c \<le> of_nat (vtype_num kTypeValue)
          then Some \<lparr>pk_user_key = take (n - 8) internal_key, pk_sequence = drop_bit 8 num,
                 pk_type = (if c = 0 then kTypeDeletion else kTypeValue)\<rparr>
          else None)"

definition ExtractUserKey :: "slice \<Rightarrow> slice option" where
  "ExtractUserKey internal_key =
     asserting (length internal_key \<ge> 8) (Some (take (length internal_key - 8) internal_key))"

section \<open>The comparator of internal keys\<close>

text \<open>\<open>Compare\<close> on keys of at least eight bytes; the assertion of \<open>ExtractUserKey\<close> is
  the only way to fail.\<close>

definition internal_compare :: "comparator \<Rightarrow> slice \<Rightarrow> slice \<Rightarrow> int option" where
  "internal_compare user akey bkey = do {
     ua \<leftarrow> ExtractUserKey akey;
     ub \<leftarrow> ExtractUserKey bkey;
     let r = cmp_Compare user ua ub;
     if r = 0 then do {
       anum \<leftarrow> DecodeFixed64 (drop (length akey - 8) akey);
       bnum \<leftarrow> DecodeFixed64 (drop (length bkey - 8) bkey);
       Some (if anum > bnum then -1 else if anum < bnum then 1 else r) }
     else Some r }"

definition internal_FindShortestSeparator :: "comparator \<Rightarrow> slice \<Rightarrow> slice \<Rightarrow> slice option" where
  "internal_FindShortestSeparator user start limit = do {
     user_start \<leftarrow> ExtractUserKey start;
     user_limit \<leftarrow> ExtractUserKey limit;
     tmp \<leftarrow> cmp_FindShortestSeparator user user_start user_limit;
     if length tmp < length user_start \<and> cmp_Compare user user_start tmp < 0 then do {
       packed \<leftarrow> PackSequenceAndType kMaxSequenceNumber kValueTypeForSeek;
       let tmp = PutFixed64 tmp packed;
       r1 \<leftarrow> internal_compare user start tmp;
       r2 \<leftarrow> internal_compare user tmp limit;
       asserting (r1 < 0) (asserting (r2 < 0) (Some tmp)) }
     else Some start }"

definition internal_FindShortSuccessor :: "comparator \<Rightarrow> slice \<Rightarrow> slice option" where
  "internal_FindShortSuccessor user key = do {
     user_key \<leftarrow> ExtractUserKey key;
     tmp \<leftarrow> cmp_FindShortSuccessor user user_key;
     if length tmp < length user_key \<and> cmp_Compare user user_key tmp < 0 then do {
       packed \<leftarrow> PackSequenceAndType kMaxSequenceNumber kValueTypeForSeek;
       let tmp = PutFixed64 tmp packed;
       r1 \<leftarrow> internal_compare user key tmp;
       asserting (r1 < 0) (Some tmp) }
     else Some key }"

text \<open>On a string of less than eight bytes \<open>Compare\<close> fails in the assertion of \<open>ExtractUserKey\<close>; the value 0 of the
  model stands for that and means nothing. The contract of a comparator is proved for internal keys only.\<close>

definition InternalKeyComparator :: "comparator \<Rightarrow> comparator" where
  "InternalKeyComparator user =
     \<lparr>cmp_Name = ''leveldb.InternalKeyComparator'',
      cmp_Compare = (\<lambda>a b. case internal_compare user a b of Some r \<Rightarrow> r | None \<Rightarrow> 0),
      cmp_FindShortestSeparator = internal_FindShortestSeparator user,
      cmp_FindShortSuccessor = internal_FindShortSuccessor user\<rparr>"

section \<open>Lookup keys\<close>

text \<open>The array that the constructor fills, and the positions of \<open>kstart_\<close> and
  \<open>end_\<close> in it. \<open>needed\<close> bytes are there.\<close>

record LookupKey =
  lk_data :: "u8 list"
  lk_kstart :: nat

definition LookupKey_new :: "slice \<Rightarrow> SequenceNumber \<Rightarrow> LookupKey option" where
  "LookupKey_new user_key s =
     (let usize = length user_key;
          needed = usize + 13;
          prefix = EncodeVarint32 (of_nat (usize + 8))
      in do {
        packed \<leftarrow> PackSequenceAndType s kValueTypeForSeek;
        let bytes = prefix @ user_key @ EncodeFixed64 packed;
        asserting (length bytes \<le> needed) (Some \<lparr>lk_data = bytes, lk_kstart = length prefix\<rparr>) })"

definition memtable_key :: "LookupKey \<Rightarrow> slice" where
  "memtable_key k = lk_data k"

definition lookup_internal_key :: "LookupKey \<Rightarrow> slice" where
  "lookup_internal_key k = drop (lk_kstart k) (lk_data k)"

definition lookup_user_key :: "LookupKey \<Rightarrow> slice" where
  "lookup_user_key k = take (length (lk_data k) - lk_kstart k - 8) (drop (lk_kstart k) (lk_data k))"

section \<open>Packing\<close>

text \<open>The packed number of a sequence number and a type.\<close>

definition packed :: "SequenceNumber \<Rightarrow> ValueType \<Rightarrow> u64" where
  "packed seq t = push_bit 8 seq OR of_nat (vtype_num t)"

lemma PackSequenceAndType_eq: "seq \<le> kMaxSequenceNumber \<Longrightarrow> PackSequenceAndType seq t = Some (packed seq t)"
  by (cases t) (simp_all add: PackSequenceAndType_def packed_def kValueTypeForSeek_def)

lemma kMax_unat: "unat kMaxSequenceNumber = 2 ^ 56 - 1"
  by (simp add: kMaxSequenceNumber_def push_bit_eq_mult)

lemma packed_unat: "seq \<le> kMaxSequenceNumber \<Longrightarrow> unat (packed seq t) = unat seq * 256 + vtype_num t"
proof -
  assume "seq \<le> kMaxSequenceNumber"
  then have "unat seq < 2 ^ 56" using kMax_unat by (simp add: word_le_nat_alt)
  have v: "vtype_num t < 2" by (cases t) simp_all
  have "packed seq t = of_nat (vtype_num t) OR push_bit 8 (of_nat (unat seq))"
    by (simp add: packed_def ac_simps)
  also have "\<dots> = of_nat (vtype_num t + unat seq * 2 ^ 8)"
    using v by (intro of_nat_or_push_bit) simp
  finally have "unat (packed seq t) = unat (of_nat (vtype_num t + unat seq * 2 ^ 8) :: u64)"
    by (rule arg_cong)
  also have "\<dots> = vtype_num t + unat seq * 2 ^ 8"
    using \<open>unat seq < 2 ^ 56\<close> v by (intro uint64_small) simp
  finally show ?thesis by simp
qed

lemma packed_fields:
  assumes "seq \<le> kMaxSequenceNumber"
  shows "drop_bit 8 (packed seq t) = seq" "ucast (packed seq t AND 0xff) = (of_nat (vtype_num t) :: u8)"
proof -
  have v: "vtype_num t < 256" by (cases t) simp_all
  have "unat (drop_bit 8 (packed seq t)) = unat seq"
    using packed_unat [OF assms, of t] v by (simp add: unat_drop_bit_div)
  then show "drop_bit 8 (packed seq t) = seq" by (rule unsigned_word_eqI)
  have "(0xff :: u64) = mask 8" by (simp add: mask_eq_exp_minus_1)
  then have "packed seq t AND 0xff = take_bit 8 (packed seq t)" by (simp only: take_bit_eq_mask)
  moreover have "unat (take_bit 8 (packed seq t)) = vtype_num t"
    unfolding unsigned_take_bit_eq packed_unat [OF assms] using v by (simp add: take_bit_eq_mod)
  ultimately have "unat (packed seq t AND 0xff) = vtype_num t" by (simp only:)
  then show "ucast (packed seq t AND 0xff) = (of_nat (vtype_num t) :: u8)"
    by (metis of_nat_unat)
qed

text \<open>An internal key: a user key and the eight bytes of its tag.\<close>

definition ikey :: "slice \<Rightarrow> u64 \<Rightarrow> slice" where
  "ikey u num = u @ EncodeFixed64 num"

lemma ikey_simps [simp]:
  "length (ikey u num) = length u + 8" "ExtractUserKey (ikey u num) = Some u"
  "DecodeFixed64 (drop (length u) (ikey u num)) = Some num"
  "ikey u num = ikey v m \<longleftrightarrow> u = v \<and> num = m"
proof -
  show "ikey u num = ikey v m \<longleftrightarrow> u = v \<and> num = m"
  proof
    assume "ikey u num = ikey v m"
    then have "u = v \<and> EncodeFixed64 num = EncodeFixed64 m"
      using append_eq_append_conv [of u v "EncodeFixed64 num" "EncodeFixed64 m"] by (simp add: ikey_def)
    then show "u = v \<and> num = m" by (metis DecodeFixed64_Encode option.inject)
  qed simp
qed (use DecodeFixed64_Encode [of num "[]"] in \<open>simp_all add: ikey_def ExtractUserKey_def\<close>)

lemma ikey_cases:
  assumes "8 \<le> length k"
  obtains u num where "k = ikey u num"
proof -
  have l: "length (drop (length k - 8) k) = 8" using assms by simp
  then obtain num where "DecodeFixed64 (drop (length k - 8) k) = Some num"
    by (auto simp: DecodeFixed64_def kLittleEndian_def)
  with EncodeFixed_Decode(2) [OF l] have "k = ikey (take (length k - 8) k) num"
    by (simp add: ikey_def)
  with that show thesis by blast
qed

lemma AppendInternalKey_eq:
  "seq \<le> kMaxSequenceNumber \<Longrightarrow>
     AppendInternalKey result \<lparr>pk_user_key = u, pk_sequence = seq, pk_type = t\<rparr> =
       Some (result @ ikey u (packed seq t))"
  by (simp add: AppendInternalKey_def PackSequenceAndType_eq PutFixed64_def ikey_def)

lemma ParseInternalKey_ikey:
  "seq \<le> kMaxSequenceNumber \<Longrightarrow>
     ParseInternalKey (ikey u (packed seq t)) = Some \<lparr>pk_user_key = u, pk_sequence = seq, pk_type = t\<rparr>"
  by (cases t) (simp_all add: ParseInternalKey_def packed_fields, simp_all add: ikey_def)

section \<open>The order of internal keys\<close>

lemma internal_compare_ikey:
  "internal_compare user (ikey u n) (ikey v m) =
     Some (let r = cmp_Compare user u v in
           if r = 0 then if n > m then -1 else if n < m then 1 else 0 else r)"
  by (simp add: internal_compare_def Let_def)

context comparator_ok
begin

text \<open>Ascending user keys, and descending tags for one user key.\<close>

definition internal_less :: "slice \<Rightarrow> slice \<Rightarrow> bool" where
  "internal_less a b \<longleftrightarrow> (\<exists>u n v m. a = ikey u n \<and> b = ikey v m \<and> valid u \<and> valid v \<and> (less u v \<or> u = v \<and> m < n))"

definition internal_valid :: "slice \<Rightarrow> bool" where
  "internal_valid k \<longleftrightarrow> (\<exists>u n. k = ikey u n \<and> valid u)"

lemma internal_less_ikey [simp]:
  "internal_less (ikey u n) (ikey v m) \<longleftrightarrow> valid u \<and> valid v \<and> (less u v \<or> u = v \<and> m < n)"
  by (auto simp: internal_less_def)

lemma internal_valid_ikey [simp]: "internal_valid (ikey u n) \<longleftrightarrow> valid u"
  by (auto simp: internal_valid_def)

lemma internal_compare_sign:
  assumes "valid u" "valid v"
  shows "cmp_Compare (InternalKeyComparator c) (ikey u n) (ikey v m) < 0 \<longleftrightarrow> internal_less (ikey u n) (ikey v m)"
    "cmp_Compare (InternalKeyComparator c) (ikey u n) (ikey v m) = 0 \<longleftrightarrow> ikey u n = ikey v m"
    "cmp_Compare (InternalKeyComparator c) (ikey u n) (ikey v m) > 0 \<longleftrightarrow> internal_less (ikey v m) (ikey u n)"
  using compare_less [OF assms] compare_eq [OF assms] compare_greater [OF assms] less_irrefl assms
  by (auto simp: InternalKeyComparator_def internal_compare_ikey Let_def)

lemma internal_separator:
  assumes "valid u" "valid v" "internal_less (ikey u n) (ikey v m)"
  shows "\<exists>r. internal_FindShortestSeparator c (ikey u n) (ikey v m) = Some r \<and> internal_valid r \<and>
    (r = ikey u n \<or> internal_less (ikey u n) r) \<and> internal_less r (ikey v m) \<and> length r \<le> length (ikey u n)"
proof -
  obtain tmp where tmp: "cmp_FindShortestSeparator c u v = Some tmp" "valid tmp" "tmp = u \<or> less u tmp"
    "less u v \<Longrightarrow> less tmp v" "\<not> less u v \<Longrightarrow> tmp = u" "length tmp \<le> length u"
    using separator [OF assms(1,2)] separator_unchanged [OF assms(1,2)] assms(1) by (metis order_refl)
  show ?thesis
  proof (cases "length tmp < length u \<and> less u tmp")
    case True
    with tmp(5) have uv: "less u v" by auto
    let ?r = "ikey tmp (packed kMaxSequenceNumber kTypeValue)"
    have "internal_FindShortestSeparator c (ikey u n) (ikey v m) = Some ?r"
      using True uv tmp(1,2,4) assms(1,2) compare_less [of u tmp] compare_less [of tmp v]
      by (auto simp: internal_FindShortestSeparator_def PackSequenceAndType_eq kValueTypeForSeek_def
          PutFixed64_def internal_compare_ikey Let_def simp flip: ikey_def)
    with True uv tmp assms show ?thesis by auto
  next
    case False
    then have "internal_FindShortestSeparator c (ikey u n) (ikey v m) = Some (ikey u n)"
      using tmp(1,2) assms(1) compare_less [of u tmp] by (auto simp: internal_FindShortestSeparator_def)
    with assms show ?thesis by auto
  qed
qed

lemma internal_separator_unchanged:
  assumes "valid u" "valid v" "\<not> internal_less (ikey u n) (ikey v m)"
  shows "internal_FindShortestSeparator c (ikey u n) (ikey v m) = Some (ikey u n)"
proof -
  have "\<not> less u v" using assms by auto
  from separator_unchanged [OF assms(1,2) this] show ?thesis
    by (simp add: internal_FindShortestSeparator_def)
qed

lemma internal_successor:
  assumes "valid u"
  shows "\<exists>r. internal_FindShortSuccessor c (ikey u n) = Some r \<and> internal_valid r \<and>
    (r = ikey u n \<or> internal_less (ikey u n) r) \<and> length r \<le> length (ikey u n)"
proof -
  obtain tmp where tmp: "cmp_FindShortSuccessor c u = Some tmp" "valid tmp" "length tmp \<le> length u"
    using successor [OF assms] by blast
  show ?thesis
  proof (cases "length tmp < length u \<and> less u tmp")
    case True
    let ?r = "ikey tmp (packed kMaxSequenceNumber kTypeValue)"
    have "internal_FindShortSuccessor c (ikey u n) = Some ?r"
      using True tmp(1,2) assms compare_less [of u tmp]
      by (auto simp: internal_FindShortSuccessor_def PackSequenceAndType_eq kValueTypeForSeek_def
          PutFixed64_def internal_compare_ikey Let_def simp flip: ikey_def)
    with True tmp assms show ?thesis by auto
  next
    case False
    then have "internal_FindShortSuccessor c (ikey u n) = Some (ikey u n)"
      using tmp(1,2) assms compare_less [of u tmp] by (auto simp: internal_FindShortSuccessor_def)
    with assms show ?thesis by auto
  qed
qed

text \<open>The comparator of internal keys keeps the contract when the user's comparator does.\<close>

lemma InternalKeyComparator_ok: "comparator_ok (InternalKeyComparator c) internal_valid internal_less"
proof
  fix a b :: slice
  assume "internal_valid a" "internal_valid b"
  then obtain u n v m where ab: "a = ikey u n" "b = ikey v m" "valid u" "valid v"
    by (auto simp: internal_valid_def)
  show "cmp_Compare (InternalKeyComparator c) a b < 0 \<longleftrightarrow> internal_less a b"
    "cmp_Compare (InternalKeyComparator c) a b = 0 \<longleftrightarrow> a = b"
    "cmp_Compare (InternalKeyComparator c) a b > 0 \<longleftrightarrow> internal_less b a"
    unfolding ab(1,2) by (rule internal_compare_sign [OF ab(3,4)])+
  show "\<exists>r. cmp_FindShortestSeparator (InternalKeyComparator c) a b = Some r \<and> internal_valid r \<and>
      (r = a \<or> internal_less a r) \<and> internal_less r b \<and> length r \<le> length a" if "internal_less a b"
    using internal_separator [OF ab(3,4)] that unfolding ab(1,2) by (simp add: InternalKeyComparator_def)
  show "cmp_FindShortestSeparator (InternalKeyComparator c) a b = Some a" if "\<not> internal_less a b"
    using internal_separator_unchanged [OF ab(3,4)] that unfolding ab(1,2) by (simp add: InternalKeyComparator_def)
  show "\<exists>r. cmp_FindShortSuccessor (InternalKeyComparator c) a = Some r \<and> internal_valid r \<and>
      (r = a \<or> internal_less a r) \<and> length r \<le> length a"
    using internal_successor [OF ab(3)] unfolding ab(1) by (simp add: InternalKeyComparator_def)
next
  fix a b d :: slice
  assume "internal_less a b" "internal_less b d"
  then show "internal_less a d" by (auto simp: internal_less_def intro: less_trans)
qed

end

interpretation internal_bytewise: comparator_ok "InternalKeyComparator BytewiseComparator"
    bytewise.internal_valid bytewise.internal_less
  by (rule bytewise.InternalKeyComparator_ok)

section \<open>The parts of a lookup key\<close>

text \<open>The 13 bytes of slack are enough, and the three views are the memtable key with its length,
  the internal key to seek with and the user key.\<close>

lemma LookupKey_parts:
  assumes "seq \<le> kMaxSequenceNumber"
  shows "\<exists>k. LookupKey_new u seq = Some k \<and> lookup_user_key k = u \<and>
    lookup_internal_key k = ikey u (packed seq kTypeValue) \<and>
    memtable_key k = PutLengthPrefixedSlice [] (ikey u (packed seq kTypeValue))"
proof -
  have "length (EncodeVarint32 v) \<le> 5" for v
    using varint_bytes_length_32 [OF unat_u32_less [of v]] by (simp add: EncodeVarint32_bytes)
  then have "length (EncodeVarint32 (8 + of_nat (length u))) + (length u + 8) \<le> length u + 13"
    by (simp add: add.commute)
  then show ?thesis
    by (simp add: LookupKey_new_def Let_def PackSequenceAndType_eq [OF assms] kValueTypeForSeek_def
        lookup_user_key_def lookup_internal_key_def memtable_key_def PutLengthPrefixedSlice_def
        PutVarint32_def ikey_def add.commute)
qed

section \<open>Properties\<close>

lemma packed_less:
  assumes "s \<le> kMaxSequenceNumber" "s' \<le> kMaxSequenceNumber"
  shows "packed s t < packed s' t' \<longleftrightarrow> s < s' \<or> s = s' \<and> vtype_num t < vtype_num t'"
proof -
  have lt: "n * 256 + i < m * 256 + j \<longleftrightarrow> n < m \<or> n = m \<and> i < j" if "i < 2" "j < 2" for n m i j :: nat
    using that by arith
  have "vtype_num t < 2" "vtype_num t' < 2" by (cases t; simp) (cases t'; simp)
  from lt [OF this, of "unat s" "unat s'"] show ?thesis
    unfolding word_less_nat_alt packed_unat [OF assms(1)] packed_unat [OF assms(2)]
    by (metis unsigned_word_eqI)
qed

text \<open>C33: internal keys: what \<open>AppendInternalKey\<close> appends is parsed back, and
  \<open>InternalKeyComparator\<close> orders such keys by ascending user key (in the order of the user's
  comparator, which may be any that keeps its contract), then by descending sequence number, then
  by descending type; it finds two keys equal only when all three parts are.\<close>

theorem internal_key_order:
  assumes "comparator_ok user valid lt" "valid (pk_user_key p)" "valid (pk_user_key q)"
    and "AppendInternalKey [] p = Some a" "AppendInternalKey [] q = Some b"
  shows "ParseInternalKey a = Some p \<and>
    (cmp_Compare (InternalKeyComparator user) a b < 0 \<longleftrightarrow>
       lt (pk_user_key p) (pk_user_key q) \<or>
       pk_user_key p = pk_user_key q \<and>
         (pk_sequence q < pk_sequence p \<or>
          pk_sequence q = pk_sequence p \<and> vtype_num (pk_type q) < vtype_num (pk_type p))) \<and>
    (cmp_Compare (InternalKeyComparator user) a b = 0 \<longleftrightarrow> p = q)"
proof -
  obtain u s t where p: "p = \<lparr>pk_user_key = u, pk_sequence = s, pk_type = t\<rparr>" by (cases p)
  obtain u' s' t' where q: "q = \<lparr>pk_user_key = u', pk_sequence = s', pk_type = t'\<rparr>" by (cases q)
  from assms(4,5) have s: "s \<le> kMaxSequenceNumber" "s' \<le> kMaxSequenceNumber"
    by (auto simp: p q AppendInternalKey_def PackSequenceAndType_def asserting_def split: if_splits)
  with assms(4,5) have ab: "a = ikey u (packed s t)" "b = ikey u' (packed s' t')"
    by (simp_all add: p q AppendInternalKey_eq)
  have v: "valid u" "valid u'" using assms(2,3) by (simp_all add: p q)
  have "b = ikey u' (packed s' t')" "ParseInternalKey b = Some q" "ParseInternalKey a = Some p"
    using s by (simp_all add: ab p q ParseInternalKey_ikey)
  then have eq: "a = b \<longleftrightarrow> p = q" using assms(4,5) by (metis option.inject)
  show ?thesis
    using comparator_ok.internal_compare_sign(1,2) [OF assms(1) v, folded ab]
      comparator_ok.internal_less_ikey [OF assms(1)] packed_less [OF s(2,1)] v eq \<open>ParseInternalKey a = Some p\<close>
    by (simp add: ab(1) ab(2)) (auto simp: p q)
qed

theorem internal_key_order_witness:
  "cmp_Compare (InternalKeyComparator BytewiseComparator)
     (ikey [1, 2] (packed 7 kTypeValue)) (ikey [1, 2] (packed 6 kTypeValue)) < 0"
proof -
  let ?k = "\<lambda>s. \<lparr>pk_user_key = [1, 2], pk_sequence = s, pk_type = kTypeValue\<rparr>"
  have "(7 :: u64) \<le> kMaxSequenceNumber" "(6 :: u64) \<le> kMaxSequenceNumber"
    by (simp_all add: kMaxSequenceNumber_def push_bit_eq_mult)
  then have "AppendInternalKey [] (?k 7) = Some (ikey [1, 2] (packed 7 kTypeValue))"
    "AppendInternalKey [] (?k 6) = Some (ikey [1, 2] (packed 6 kTypeValue))"
    by (simp_all add: AppendInternalKey_eq)
  from internal_key_order [OF bytewise.comparator_ok_axioms _ _ this] show ?thesis by simp
qed

text \<open>C34: shortening keys for the index: for internal keys \<open>a < b\<close>,
  \<open>FindShortestSeparator\<close> fails no assertion and returns a key in \<open>[a, b)\<close> that is no
  longer than \<open>a\<close>; \<open>FindShortSuccessor\<close> returns a key that is not smaller and no longer.
  This holds over any user comparator that keeps its contract.\<close>

theorem internal_separator_between:
  assumes "comparator_ok user valid lt"
    and "a = ikey u n" "b = ikey v m" "valid u" "valid v"
    and "cmp_Compare (InternalKeyComparator user) a b < 0"
  shows "(\<exists>r. internal_FindShortestSeparator user a b = Some r \<and>
      cmp_Compare (InternalKeyComparator user) a r \<le> 0 \<and>
      cmp_Compare (InternalKeyComparator user) r b < 0 \<and> length r \<le> length a) \<and>
    (\<exists>r. internal_FindShortSuccessor user a = Some r \<and>
      cmp_Compare (InternalKeyComparator user) a r \<le> 0 \<and> length r \<le> length a)"
proof -
  note int = comparator_ok.InternalKeyComparator_ok [OF assms(1)]
  note valid_ikey = comparator_ok.internal_valid_ikey [OF assms(1)]
  have va: "comparator_ok.internal_valid valid a" "comparator_ok.internal_valid valid b"
    using assms(2-5) valid_ikey by simp_all
  have "comparator_ok.internal_less valid lt a b"
    using comparator_ok.compare_less [OF int va] assms(6) by simp
  from comparator_ok.separator [OF int va this] obtain r where r:
    "internal_FindShortestSeparator user a b = Some r" "comparator_ok.internal_valid valid r"
    "r = a \<or> comparator_ok.internal_less valid lt a r" "comparator_ok.internal_less valid lt r b"
    "length r \<le> length a" by (auto simp: InternalKeyComparator_def)
  from comparator_ok.successor [OF int va(1)] obtain r' where r':
    "internal_FindShortSuccessor user a = Some r'" "comparator_ok.internal_valid valid r'"
    "r' = a \<or> comparator_ok.internal_less valid lt a r'" "length r' \<le> length a"
    by (auto simp: InternalKeyComparator_def)
  have le: "cmp_Compare (InternalKeyComparator user) a x \<le> 0"
    if "comparator_ok.internal_valid valid x" "x = a \<or> comparator_ok.internal_less valid lt a x" for x
    using that comparator_ok.compare_less [OF int va(1) that(1)] comparator_ok.compare_eq [OF int va(1) that(1)] by auto
  show ?thesis
    using r r' le comparator_ok.compare_less [OF int r(2) va(2)] by blast
qed

theorem internal_separator_between_witness:
  "\<exists>r. internal_FindShortestSeparator BytewiseComparator (ikey [1, 2, 3] 0) (ikey [5] 0) = Some r \<and>
     cmp_Compare (InternalKeyComparator BytewiseComparator) r (ikey [5] 0) < 0"
  using internal_separator_between [OF bytewise.comparator_ok_axioms refl refl, where u = "[1, 2, 3]" and v = "[5]" and n = 0 and m = 0]
  by (auto simp: InternalKeyComparator_def internal_compare_ikey BytewiseComparator_def bytewise_Compare_def
      slice_compare_cases)

end
