(* ===== verification/Ldb_Status.thy ===== *)
theory Ldb_Status
  imports Ldb_Coding
begin

text \<open>
  The result type of leveldb, \<open>include/leveldb/status.h\<close> and \<open>util/status.cc\<close>, with
  its heap representation: \<open>state_\<close> is null for success and otherwise an array that holds
  the length of the message in four bytes, the code, and the message.
\<close>

section \<open>Text\<close>

definition bytes_of :: "string \<Rightarrow> u8 list" where
  "bytes_of s = map of_char s"

text \<open>The conversions \<open>%u\<close> and \<open>%d\<close> of \<open>snprintf\<close>.\<close>

fun show_nat :: "nat \<Rightarrow> string" where
  "show_nat n = (if n < 10 then [char_of (48 + n)] else show_nat (n div 10) @ [char_of (48 + n mod 10)])"

declare show_nat.simps [simp del]

definition show_int :: "int \<Rightarrow> string" where
  "show_int i = (if i < 0 then CHR ''-'' # show_nat (nat (- i)) else show_nat (nat i))"

section \<open>Status\<close>

datatype Code = kOk | kNotFound | kCorruption | kNotSupported | kInvalidArgument | kIOError

primrec code_num :: "Code \<Rightarrow> nat" where
  "code_num kOk = 0"
| "code_num kNotFound = 1"
| "code_num kCorruption = 2"
| "code_num kNotSupported = 3"
| "code_num kInvalidArgument = 4"
| "code_num kIOError = 5"

type_synonym status = "u8 list option"

definition Status_OK :: status where
  "Status_OK = None"

text \<open>The private constructor; the assertion refuses \<open>kOk\<close>.\<close>

definition Status_new :: "Code \<Rightarrow> slice \<Rightarrow> slice \<Rightarrow> status option" where
  "Status_new code msg msg2 =
     asserting (code \<noteq> kOk)
     (let len1 = of_nat (length msg) :: u32;
          len2 = of_nat (length msg2) :: u32;
          sz = len1 + (if len2 \<noteq> 0 then 2 + len2 else 0)
      in Some (Some (le_bytes 4 (unat sz) @ [of_nat (code_num code)] @ take (unat len1) msg @
               (if len2 \<noteq> 0 then bytes_of '': '' @ take (unat len2) msg2 else []))))"

text \<open>The public constructors pass a fixed code, with which the assertion holds.\<close>

definition NotFound :: "slice \<Rightarrow> slice \<Rightarrow> status" where
  "NotFound msg msg2 = the (Status_new kNotFound msg msg2)"

definition Corruption :: "slice \<Rightarrow> slice \<Rightarrow> status" where
  "Corruption msg msg2 = the (Status_new kCorruption msg msg2)"

definition NotSupported :: "slice \<Rightarrow> slice \<Rightarrow> status" where
  "NotSupported msg msg2 = the (Status_new kNotSupported msg msg2)"

definition InvalidArgument :: "slice \<Rightarrow> slice \<Rightarrow> status" where
  "InvalidArgument msg msg2 = the (Status_new kInvalidArgument msg msg2)"

definition IOError :: "slice \<Rightarrow> slice \<Rightarrow> status" where
  "IOError msg msg2 = the (Status_new kIOError msg msg2)"

definition ok :: "status \<Rightarrow> bool" where
  "ok s \<longleftrightarrow> s = None"

text \<open>\<open>static_cast<Code>(state_[4])\<close> of a signed \<open>char\<close>.\<close>

definition status_code :: "status \<Rightarrow> int" where
  "status_code s = (case s of None \<Rightarrow> 0 | Some state \<Rightarrow> sint (state ! 4))"

definition IsNotFound :: "status \<Rightarrow> bool" where
  "IsNotFound s \<longleftrightarrow> status_code s = int (code_num kNotFound)"

definition IsCorruption :: "status \<Rightarrow> bool" where
  "IsCorruption s \<longleftrightarrow> status_code s = int (code_num kCorruption)"

definition IsIOError :: "status \<Rightarrow> bool" where
  "IsIOError s \<longleftrightarrow> status_code s = int (code_num kIOError)"

definition IsNotSupportedError :: "status \<Rightarrow> bool" where
  "IsNotSupportedError s \<longleftrightarrow> status_code s = int (code_num kNotSupported)"

definition IsInvalidArgument :: "status \<Rightarrow> bool" where
  "IsInvalidArgument s \<longleftrightarrow> status_code s = int (code_num kInvalidArgument)"

text \<open>\<open>CopyState\<close>: \<open>None\<close> where the copy would read outside the array.\<close>

definition CopyState :: "u8 list \<Rightarrow> u8 list option" where
  "CopyState state =
     (case DecodeFixed32 state of
        None \<Rightarrow> None
      | Some sz \<Rightarrow>
          if length state < unat (sz + 5) then None else Some (take (unat (sz + 5)) state))"

definition status_copy :: "status \<Rightarrow> status option" where
  "status_copy rhs = (case rhs of None \<Rightarrow> Some None | Some state \<Rightarrow> map_option Some (CopyState state))"

definition ToString :: "status \<Rightarrow> u8 list option" where
  "ToString s =
     (case s of
        None \<Rightarrow> Some (bytes_of ''OK'')
      | Some state \<Rightarrow>
          let c = status_code s;
              type = (if c = 0 then ''OK'' else if c = 1 then ''NotFound: ''
                      else if c = 2 then ''Corruption: '' else if c = 3 then ''Not implemented: ''
                      else if c = 4 then ''Invalid argument: '' else if c = 5 then ''IO error: ''
                      else ''Unknown code('' @ show_int c @ ''): '')
          in (case DecodeFixed32 state of
                None \<Rightarrow> None
              | Some len \<Rightarrow>
                  if length state < 5 + unat len then None
                  else Some (bytes_of type @ take (unat len) (drop 5 state))))"

section \<open>Well-formed statuses\<close>

text \<open>The message of a status: its two parts joined by a colon.\<close>

definition joined :: "slice \<Rightarrow> slice \<Rightarrow> slice" where
  "joined msg msg2 = msg @ (if msg2 = [] then [] else bytes_of '': '' @ msg2)"

text \<open>A status that some constructor made: success, or a code other than \<open>kOk\<close> with a
  message whose length is recorded.\<close>

definition status_wf :: "status \<Rightarrow> bool" where
  "status_wf s = (case s of
     None \<Rightarrow> True
   | Some state \<Rightarrow> 5 \<le> length state \<and> length state < 2 ^ 32 \<and>
       take 4 state = le_bytes 4 (length state - 5) \<and> 1 \<le> sint (state ! 4) \<and> sint (state ! 4) \<le> 5)"

lemma bytes_of_length [simp]: "length (bytes_of s) = length s"
  by (simp add: bytes_of_def)

lemma length_joined: "length (joined msg msg2) = length msg + (if msg2 = [] then 0 else 2 + length msg2)"
  by (simp add: joined_def)

lemma ok_OK [simp]: "ok Status_OK" "ok None" "\<not> ok (Some st)"
  by (simp_all add: ok_def Status_OK_def)

lemma Status_new_eq:
  assumes "length (joined msg msg2) + 5 < 2 ^ 32"
  shows "Status_new code msg msg2 = (if code = kOk then None
    else Some (Some (le_bytes 4 (length (joined msg msg2)) @ [of_nat (code_num code)] @ joined msg msg2)))"
proof -
  have len: "length msg < 2 ^ 32" "length msg2 < 2 ^ 32"
    "msg2 \<noteq> [] \<Longrightarrow> length msg + (2 + length msg2) < 2 ^ 32"
    using assms by (auto simp: length_joined split: if_splits)
  have zero: "(of_nat (length msg2) :: u32) = 0 \<longleftrightarrow> msg2 = []"
    using uint32_small [OF len(2)] unat_pos_iff [of "of_nat (length msg2) :: u32"] by auto
  have sz: "unat ((of_nat (length msg) :: u32) + (2 + of_nat (length msg2))) = length msg + (2 + length msg2)"
    if "msg2 \<noteq> []"
    using uint32_small [OF len(3) [OF that]] by (simp add: ac_simps)
  show ?thesis
    unfolding Status_new_def Let_def
    using len sz zero by (simp add: joined_def asserting_def)
qed

text \<open>What a status of some code is.\<close>

definition status_of :: "Code \<Rightarrow> slice \<Rightarrow> status \<Rightarrow> bool" where
  "status_of code text s \<longleftrightarrow> s = Some (le_bytes 4 (length text) @ [of_nat (code_num code)] @ text)"

lemma status_of_new:
  assumes "length (joined msg msg2) + 5 < 2 ^ 32"
  shows "Status_new code msg msg2 = Some s \<longleftrightarrow> code \<noteq> kOk \<and> status_of code (joined msg msg2) s"
  by (auto simp: Status_new_eq [OF assms] status_of_def)

lemma status_of_constructors:
  assumes "length (joined msg msg2) + 5 < 2 ^ 32"
  shows "status_of kNotFound (joined msg msg2) (NotFound msg msg2)"
    "status_of kCorruption (joined msg msg2) (Corruption msg msg2)"
    "status_of kNotSupported (joined msg msg2) (NotSupported msg msg2)"
    "status_of kInvalidArgument (joined msg msg2) (InvalidArgument msg msg2)"
    "status_of kIOError (joined msg msg2) (IOError msg msg2)"
  using assms
  by (simp_all add: status_of_def Status_new_eq NotFound_def Corruption_def NotSupported_def InvalidArgument_def IOError_def)

lemma status_of_code: "status_of code text s \<Longrightarrow> status_code s = int (code_num code)"
  by (cases code) (simp_all add: status_of_def status_code_def nth_append)

lemma DecodeFixed32_le: "n < 2 ^ 32 \<Longrightarrow> DecodeFixed32 (le_bytes 4 n @ rest) = Some (of_nat n)"
  using DecodeFixed32_Encode [of "of_nat n" rest] by (simp add: EncodeFixed_LE)

lemma status_of_wf: "status_of code text s \<Longrightarrow> length text + 5 < 2 ^ 32 \<Longrightarrow> code \<noteq> kOk \<Longrightarrow> status_wf s"
  by (cases code) (simp_all add: status_of_def status_wf_def nth_append)

lemma status_wf_split:
  assumes "status_wf (Some state)"
  obtains msg where "state = le_bytes 4 (length msg) @ [state ! 4] @ msg" "length msg + 5 < 2 ^ 32"
proof
  from assms have l: "5 \<le> length state" "length state < 2 ^ 32" "take 4 state = le_bytes 4 (length state - 5)"
    by (simp_all add: status_wf_def)
  from l(1) have "drop 4 state = state ! 4 # drop 5 state"
    using Cons_nth_drop_Suc [of 4 state] by simp
  then show "state = le_bytes 4 (length (drop 5 state)) @ [state ! 4] @ drop 5 state"
    using l(3) append_take_drop_id [of 4 state] by simp
  show "length (drop 5 state) + 5 < 2 ^ 32" using l by simp
qed

lemma CopyState_id: "status_wf (Some state) \<Longrightarrow> CopyState state = Some state"
proof -
  assume "status_wf (Some state)"
  then obtain msg where s: "state = le_bytes 4 (length msg) @ [state ! 4] @ msg" "length msg + 5 < 2 ^ 32"
    by (rule status_wf_split)
  then have d: "DecodeFixed32 state = Some (of_nat (length msg))"
    by (metis DecodeFixed32_le add_lessD1)
  have u: "unat (of_nat (length msg) + 5 :: u32) = length msg + 5"
    using uint32_small [OF s(2)] by simp
  have "length state = length msg + 5" by (subst s(1)) simp
  with d u show ?thesis by (simp add: CopyState_def)
qed

lemma status_copy_id: "status_wf s \<Longrightarrow> status_copy s = Some s"
  by (cases s) (simp_all add: status_copy_def CopyState_id)

text \<open>The name of a code in a message.\<close>

primrec code_name :: "Code \<Rightarrow> string" where
  "code_name kOk = ''OK''"
| "code_name kNotFound = ''NotFound: ''"
| "code_name kCorruption = ''Corruption: ''"
| "code_name kNotSupported = ''Not implemented: ''"
| "code_name kInvalidArgument = ''Invalid argument: ''"
| "code_name kIOError = ''IO error: ''"

lemma status_of_ToString:
  assumes "status_of code text s" "length text + 5 < 2 ^ 32"
  shows "ToString s = Some (bytes_of (code_name code) @ text)"
  using status_of_code [OF assms(1)] assms unfolding ToString_def status_of_def
  by (cases code) (simp_all add: DecodeFixed32_le Let_def)

section \<open>Properties\<close>

text \<open>C38: the private constructor refuses \<open>kOk\<close> and no other code; each public constructor makes the
  status of its own code with both parts of the message: it is well-formed and not \<open>ok\<close>, exactly the
  \<open>Is...\<close> test of its code recognises it, copying it copies all of it, and \<open>ToString\<close> prints the name of the
  code followed by the whole message.\<close>

theorem status_constructors:
  assumes "length (joined msg msg2) + 5 < 2 ^ 32"
  shows "(\<forall>code. Status_new code msg msg2 = None \<longleftrightarrow> code = kOk) \<and>
    (\<forall>(s, code) \<in> {(NotFound msg msg2, kNotFound), (Corruption msg msg2, kCorruption), (NotSupported msg msg2, kNotSupported),
        (InvalidArgument msg msg2, kInvalidArgument), (IOError msg msg2, kIOError)}.
      status_wf s \<and> \<not> ok s \<and> status_code s = int (code_num code) \<and> status_copy s = Some s \<and>
      ToString s = Some (bytes_of (code_name code) @ joined msg msg2) \<and>
      (IsNotFound s \<longleftrightarrow> code = kNotFound) \<and> (IsCorruption s \<longleftrightarrow> code = kCorruption) \<and>
      (IsNotSupportedError s \<longleftrightarrow> code = kNotSupported) \<and> (IsInvalidArgument s \<longleftrightarrow> code = kInvalidArgument) \<and>
      (IsIOError s \<longleftrightarrow> code = kIOError))"
proof -
  let ?good = "\<lambda>s code. status_wf s \<and> \<not> ok s \<and> status_code s = int (code_num code) \<and> status_copy s = Some s \<and>
      ToString s = Some (bytes_of (code_name code) @ joined msg msg2) \<and>
      (IsNotFound s \<longleftrightarrow> code = kNotFound) \<and> (IsCorruption s \<longleftrightarrow> code = kCorruption) \<and>
      (IsNotSupportedError s \<longleftrightarrow> code = kNotSupported) \<and> (IsInvalidArgument s \<longleftrightarrow> code = kInvalidArgument) \<and>
      (IsIOError s \<longleftrightarrow> code = kIOError)"
  have good: "?good s code" if s: "status_of code (joined msg msg2) s" and code: "code \<noteq> kOk" for s code
  proof -
    have "code_num c = code_num d \<longleftrightarrow> c = d" for c d by (cases c; cases d) simp_all
    moreover have "\<not> ok s" using s by (auto simp: status_of_def)
    moreover note wf = status_of_wf [OF s assms code]
    ultimately show ?thesis
      using status_of_code [OF s] status_of_ToString [OF s assms] status_copy_id [OF wf] wf
      by (simp add: IsNotFound_def IsCorruption_def IsIOError_def IsNotSupportedError_def IsInvalidArgument_def del: code_num.simps)
  qed
  have "Status_new code msg msg2 = None \<longleftrightarrow> code = kOk" for code by (simp add: Status_new_eq [OF assms])
  with status_of_constructors [OF assms, THEN good] show ?thesis by simp
qed

theorem status_constructors_witness:
  "IsCorruption (Corruption (bytes_of ''bad'') (bytes_of ''x'')) \<and> \<not> IsIOError (Corruption (bytes_of ''bad'') (bytes_of ''x'')) \<and>
   ToString (Corruption (bytes_of ''bad'') (bytes_of ''x'')) = Some (bytes_of ''Corruption: '' @ bytes_of ''bad: x'')"
  using status_constructors [of "bytes_of ''bad''" "bytes_of ''x''"] by (simp add: length_joined joined_def bytes_of_def)

end
