(* ===== verification/Ldb_Write_Batch.thy ===== *)
theory Ldb_Write_Batch
  imports Ldb_Dbformat Ldb_Status
begin

text \<open>
  Write batches of leveldb, \<open>db/write_batch.cc\<close>: a string with the sequence number, the
  number of entries and the entries, which is also the record that is written to the log.
  \<open>None\<close> is a read outside the string or a failed assertion.
\<close>

section \<open>The representation\<close>

definition kHeader :: nat where
  "kHeader = 12"

type_synonym write_batch = "u8 list"

definition WriteBatch_Clear :: write_batch where
  "WriteBatch_Clear = replicate kHeader 0"

definition ApproximateSize :: "write_batch \<Rightarrow> nat" where
  "ApproximateSize b = length b"

text \<open>The count is an \<open>int\<close>: the 32 bits are converted back and forth.\<close>

definition Batch_Count :: "write_batch \<Rightarrow> int option" where
  "Batch_Count b = map_option sint (DecodeFixed32 (drop 8 b))"

definition poke :: "u8 list \<Rightarrow> nat \<Rightarrow> u8 list \<Rightarrow> u8 list option" where
  "poke b i bs = (if i + length bs \<le> length b then Some (take i b @ bs @ drop (i + length bs) b) else None)"

definition SetCount :: "write_batch \<Rightarrow> int \<Rightarrow> write_batch option" where
  "SetCount b n = poke b 8 (EncodeFixed32 (word_of_int n))"

definition Batch_Sequence :: "write_batch \<Rightarrow> SequenceNumber option" where
  "Batch_Sequence b = DecodeFixed64 b"

definition SetSequence :: "write_batch \<Rightarrow> SequenceNumber \<Rightarrow> write_batch option" where
  "SetSequence b seq = poke b 0 (EncodeFixed64 seq)"

definition Batch_Put :: "write_batch \<Rightarrow> slice \<Rightarrow> slice \<Rightarrow> write_batch option" where
  "Batch_Put b key val = do {
     n \<leftarrow> Batch_Count b;
     rep \<leftarrow> SetCount b (n + 1);
     let rep = rep @ [of_nat (vtype_num kTypeValue)];
     let rep = PutLengthPrefixedSlice rep key;
     Some (PutLengthPrefixedSlice rep val) }"

definition Batch_Delete :: "write_batch \<Rightarrow> slice \<Rightarrow> write_batch option" where
  "Batch_Delete b key = do {
     n \<leftarrow> Batch_Count b;
     rep \<leftarrow> SetCount b (n + 1);
     let rep = rep @ [of_nat (vtype_num kTypeDeletion)];
     Some (PutLengthPrefixedSlice rep key) }"

definition Batch_SetContents :: "slice \<Rightarrow> write_batch option" where
  "Batch_SetContents contents = asserting (length contents \<ge> kHeader) (Some contents)"

definition Batch_Append :: "write_batch \<Rightarrow> write_batch \<Rightarrow> write_batch option" where
  "Batch_Append dst src = do {
     n \<leftarrow> Batch_Count dst;
     m \<leftarrow> Batch_Count src;
     rep \<leftarrow> SetCount dst (n + m);
     asserting (length src \<ge> kHeader) (Some (rep @ drop kHeader src)) }"

section \<open>Iteration\<close>

text \<open>A handler with its state.\<close>

record 'h batch_handler =
  h_Put :: "slice \<Rightarrow> slice \<Rightarrow> 'h \<Rightarrow> 'h"
  h_Delete :: "slice \<Rightarrow> 'h \<Rightarrow> 'h"

text \<open>The loop of \<open>Iterate\<close>: \<open>Inl\<close> is a return from its middle, \<open>Inr\<close> the
  value of \<open>found\<close> behind it.\<close>

function iterate_loop :: "'h batch_handler \<Rightarrow> slice \<Rightarrow> int \<Rightarrow> 'h \<Rightarrow> (status + int) \<times> 'h" where
  "iterate_loop hl input found h =
     (case input of
        [] \<Rightarrow> (Inr found, h)
      | tag # input \<Rightarrow>
          let found = found + 1 in
          if tag = of_nat (vtype_num kTypeValue) then
            (case GetLengthPrefixedSlice input of
               None \<Rightarrow> (Inl (Corruption (bytes_of ''bad WriteBatch Put'') []), h)
             | Some (key, input) \<Rightarrow>
                 (case GetLengthPrefixedSlice input of
                    None \<Rightarrow> (Inl (Corruption (bytes_of ''bad WriteBatch Put'') []), h)
                  | Some (val, input) \<Rightarrow> iterate_loop hl input found (h_Put hl key val h)))
          else if tag = of_nat (vtype_num kTypeDeletion) then
            (case GetLengthPrefixedSlice input of
               None \<Rightarrow> (Inl (Corruption (bytes_of ''bad WriteBatch Delete'') []), h)
             | Some (key, input) \<Rightarrow> iterate_loop hl input found (h_Delete hl key h))
          else (Inl (Corruption (bytes_of ''unknown WriteBatch tag'') []), h))"
  by pat_completeness auto
termination
  by (relation "measure (\<lambda>(hl, input, found, h). length input)")
    (auto dest!: GetLengthPrefixedSlice_shorter)

declare iterate_loop.simps [simp del]

definition Iterate :: "'h batch_handler \<Rightarrow> write_batch \<Rightarrow> 'h \<Rightarrow> (status \<times> 'h) option" where
  "Iterate hl b h =
     (if length b < kHeader then Some (Corruption (bytes_of ''malformed WriteBatch (too small)'') [], h)
      else case iterate_loop hl (slice_remove_prefix b kHeader) 0 h of
        (Inl s, h) \<Rightarrow> Some (s, h)
      | (Inr found, h) \<Rightarrow>
          (case Batch_Count b of
             None \<Rightarrow> None
           | Some n \<Rightarrow>
               if found \<noteq> n then Some (Corruption (bytes_of ''WriteBatch has wrong count'') [], h)
               else Some (Status_OK, h)))"

text \<open>\<open>MemTableInserter\<close> over the memory table \<open>'m\<close> with its operation \<open>Add\<close>; the
  sequence number is counted up.\<close>

definition MemTableInserter ::
  "(SequenceNumber \<Rightarrow> ValueType \<Rightarrow> slice \<Rightarrow> slice \<Rightarrow> 'm \<Rightarrow> 'm) \<Rightarrow> (SequenceNumber \<times> 'm) batch_handler" where
  "MemTableInserter Add =
     \<lparr>h_Put = (\<lambda>key val (seq, mem). (seq + 1, Add seq kTypeValue key val mem)),
      h_Delete = (\<lambda>key (seq, mem). (seq + 1, Add seq kTypeDeletion key [] mem))\<rparr>"

definition InsertInto ::
  "(SequenceNumber \<Rightarrow> ValueType \<Rightarrow> slice \<Rightarrow> slice \<Rightarrow> 'm \<Rightarrow> 'm) \<Rightarrow> write_batch \<Rightarrow> 'm \<Rightarrow> (status \<times> 'm) option" where
  "InsertInto Add b memtable = do {
     seq \<leftarrow> Batch_Sequence b;
     (s, (_, mem)) \<leftarrow> Iterate (MemTableInserter Add) b (seq, memtable);
     Some (s, mem) }"

section \<open>The abstract batch\<close>

datatype batch_op = Put_op slice slice | Delete_op slice

primrec op_bytes :: "batch_op \<Rightarrow> u8 list" where
  "op_bytes (Put_op key val) =
     1 # PutLengthPrefixedSlice [] key @ PutLengthPrefixedSlice [] val"
| "op_bytes (Delete_op key) = 0 # PutLengthPrefixedSlice [] key"

primrec op_ok :: "batch_op \<Rightarrow> bool" where
  "op_ok (Put_op key val) \<longleftrightarrow> length key < 2 ^ 32 \<and> length val < 2 ^ 32"
| "op_ok (Delete_op key) \<longleftrightarrow> length key < 2 ^ 32"

primrec run_op :: "'h batch_handler \<Rightarrow> batch_op \<Rightarrow> 'h \<Rightarrow> 'h" where
  "run_op hl (Put_op key val) h = h_Put hl key val h"
| "run_op hl (Delete_op key) h = h_Delete hl key h"

text \<open>\<open>represents b seq ops\<close>: the string is the batch of these operations.\<close>

definition represents :: "write_batch \<Rightarrow> SequenceNumber \<Rightarrow> batch_op list \<Rightarrow> bool" where
  "represents b seq ops \<longleftrightarrow> list_all op_ok ops \<and> length ops < 2 ^ 31 \<and>
     b = EncodeFixed64 seq @ EncodeFixed32 (of_nat (length ops)) @ concat (map op_bytes ops)"

lemma sint_int_small: "n < 2 ^ 31 \<Longrightarrow> sint (of_nat n :: u32) = int n"
  by (simp add: sint_uint unsigned_of_nat signed_take_bit_int_eq_self take_bit_nat_eq_self)

lemma DecodeFixed32_whole [simp]: "DecodeFixed32 (EncodeFixed32 v) = Some v"
  using DecodeFixed32_Encode [of v "[]"] by simp

lemma represents_header:
  assumes "represents b seq ops"
  shows "Batch_Count b = Some (int (length ops))" "Batch_Sequence b = Some seq" "kHeader \<le> length b"
    "drop kHeader b = concat (map op_bytes ops)"
    "SetCount b (int n) = Some (EncodeFixed64 seq @ EncodeFixed32 (of_nat n) @ concat (map op_bytes ops))"
    "SetSequence b seq' = Some (EncodeFixed64 seq' @ EncodeFixed32 (of_nat (length ops)) @ concat (map op_bytes ops))"
  using assms
  by (simp_all add: represents_def Batch_Count_def Batch_Sequence_def kHeader_def sint_int_small SetCount_def
      SetSequence_def poke_def)

lemma le_bytes_0: "le_bytes n 0 = replicate n 0"
  by (induction n) simp_all

lemma Clear_represents: "represents WriteBatch_Clear 0 []"
proof -
  have "EncodeFixed64 0 @ EncodeFixed32 0 = replicate (8 + 4) 0"
    unfolding EncodeFixed_LE using replicate_add [of 8 4 "0 :: u8"] by (simp add: le_bytes_0)
  then show ?thesis by (simp add: represents_def WriteBatch_Clear_def kHeader_def)
qed

text \<open>The three operations that add entries.\<close>

lemma Put_represents:
  assumes "represents b seq ops" "op_ok (Put_op key val)" "length ops + 1 < 2 ^ 31"
  shows "\<exists>b'. Batch_Put b key val = Some b' \<and> represents b' seq (ops @ [Put_op key val])"
proof -
  note h = represents_header [OF assms(1)]
  have "Batch_Put b key val = Some (EncodeFixed64 seq @ EncodeFixed32 (of_nat (length ops + 1)) @
      concat (map op_bytes (ops @ [Put_op key val])))"
    using h(1) h(5) [of "length ops + 1"]
    by (simp add: Batch_Put_def Let_def add.commute)
      (simp add: Put_append(5) [of "_ @ _"] Put_append(5) [of "_ # _"])
  with assms show ?thesis by (simp add: represents_def)
qed

lemma Delete_represents:
  assumes "represents b seq ops" "op_ok (Delete_op key)" "length ops + 1 < 2 ^ 31"
  shows "\<exists>b'. Batch_Delete b key = Some b' \<and> represents b' seq (ops @ [Delete_op key])"
proof -
  note h = represents_header [OF assms(1)]
  have "Batch_Delete b key = Some (EncodeFixed64 seq @ EncodeFixed32 (of_nat (length ops + 1)) @
      concat (map op_bytes (ops @ [Delete_op key])))"
    using h(1) h(5) [of "length ops + 1"]
    by (simp add: Batch_Delete_def Let_def add.commute) (simp add: Put_append(5) [of "_ @ _"])
  with assms show ?thesis by (simp add: represents_def)
qed

lemma Append_represents:
  assumes "represents dst seq ops" "represents src seq' ops'" "length ops + length ops' < 2 ^ 31"
  shows "\<exists>b'. Batch_Append dst src = Some b' \<and> represents b' seq (ops @ ops')"
proof -
  note h = represents_header [OF assms(1)] and h' = represents_header [OF assms(2)]
  have "Batch_Append dst src = Some (EncodeFixed64 seq @ EncodeFixed32 (of_nat (length ops + length ops')) @
      concat (map op_bytes (ops @ ops')))"
    using h(1) h(5) [of "length ops + length ops'"] h'(1,3,4) by (simp add: Batch_Append_def)
  with assms show ?thesis by (simp add: represents_def)
qed

section \<open>Iteration replays the operations\<close>

lemma iterate_op:
  assumes "op_ok op"
  shows "iterate_loop hl (op_bytes op @ rest) found h = iterate_loop hl rest (found + 1) (run_op hl op h)"
  using assms by (cases op) (simp_all add: iterate_loop.simps [of hl "_ # _"] Let_def)

lemma iterate_ops:
  "list_all op_ok ops \<Longrightarrow> iterate_loop hl (concat (map op_bytes ops) @ rest) found h =
     iterate_loop hl rest (found + int (length ops)) (fold (run_op hl) ops h)"
  by (induction ops arbitrary: found h) (simp_all add: iterate_op algebra_simps)

lemma iterate_end [simp]: "iterate_loop hl [] found h = (Inr found, h)"
  by (simp add: iterate_loop.simps)

lemma Iterate_represents:
  assumes "represents b seq ops"
  shows "Iterate hl b h = Some (Status_OK, fold (run_op hl) ops h)"
proof -
  have "list_all op_ok ops" using assms by (simp add: represents_def)
  from iterate_ops [OF this, of hl "[]" 0 h] show ?thesis
    using represents_header(1,3,4) [OF assms] by (simp add: Iterate_def slice_remove_prefix_def)
qed

section \<open>Truncated batches\<close>

text \<open>A parser that succeeds on a slice does the same when more bytes follow.\<close>

lemma GetVarint32_more:
  "GetVarint32 D = Some (v, rest) \<Longrightarrow> GetVarint32 (D @ X) = Some (v, rest @ X)"
  by (auto simp: GetVarint32_iff)

lemma GetLengthPrefixedSlice_more:
  "GetLengthPrefixedSlice D = Some (s, rest) \<Longrightarrow> GetLengthPrefixedSlice (D @ X) = Some (s, rest @ X)"
  by (auto simp: GetLengthPrefixedSlice_def slice_remove_prefix_def split: option.splits if_splits prod.splits
      dest: GetVarint32_more [where X = X])

lemma GetLengthPrefixedSlice_cut:
  assumes "PutLengthPrefixedSlice [] s @ T = D @ X" "length s < 2 ^ 32"
    and "length D < length (PutLengthPrefixedSlice [] s)"
  shows "GetLengthPrefixedSlice D = None"
proof (cases "GetLengthPrefixedSlice D")
  case (Some r)
  obtain v rest where "r = (v, rest)" by (cases r)
  with Some have "GetLengthPrefixedSlice (D @ X) = Some (v, rest @ X)"
    by (simp add: GetLengthPrefixedSlice_more)
  moreover have "GetLengthPrefixedSlice (D @ X) = Some (s, T)"
    using assms(2) by (simp flip: assms(1))
  ultimately have "length T = length rest + length X" by auto
  moreover have "length (PutLengthPrefixedSlice [] s) + length T = length D + length X"
    using assms(1) by (metis length_append)
  ultimately show ?thesis using assms(3) by linarith
qed simp

lemma iterate_cut_op:
  assumes "op_ok op" "op_bytes op = D @ X" "D \<noteq> []" "X \<noteq> []"
  shows "\<exists>msg h'. iterate_loop hl D found h = (Inl (Corruption msg []), h')"
proof (cases op)
  case (Delete_op key)
  with assms obtain D' where D: "D = 0 # D'" "PutLengthPrefixedSlice [] key = D' @ X" by (cases D) auto
  then have "length (PutLengthPrefixedSlice [] key) = length D' + length X" by simp
  then have "length D' < length (PutLengthPrefixedSlice [] key)" using assms(4) by (cases X) simp_all
  with GetLengthPrefixedSlice_cut [of key "[]" D' X] D Delete_op assms(1)
  have "GetLengthPrefixedSlice D' = None" by simp
  then show ?thesis by (auto simp: D(1) iterate_loop.simps [of hl "_ # _"])
next
  case (Put_op key val)
  with assms obtain D' where D: "D = 1 # D'"
    "PutLengthPrefixedSlice [] key @ PutLengthPrefixedSlice [] val = D' @ X" by (cases D) auto
  have small: "length key < 2 ^ 32" "length val < 2 ^ 32" using assms(1) Put_op by simp_all
  from D(2) have "GetLengthPrefixedSlice D' = None \<or>
      (\<exists>D''. GetLengthPrefixedSlice D' = Some (key, D'') \<and> GetLengthPrefixedSlice D'' = None)"
  proof (cases rule: append_eq_cut)
    case (inside Y)
    then have "length D' < length (PutLengthPrefixedSlice [] key)" by (cases Y) simp_all
    from GetLengthPrefixedSlice_cut [OF D(2) small(1) this] show ?thesis ..
  next
    case (behind D'')
    then have "length D'' < length (PutLengthPrefixedSlice [] val)" using assms(4) by (cases X) simp_all
    with GetLengthPrefixedSlice_cut [of val "[]" D'' X] behind(2) small(2)
    have "GetLengthPrefixedSlice D'' = None" by simp
    with behind(1) small(1) show ?thesis by simp
  qed
  then show ?thesis by (auto simp: D(1) iterate_loop.simps [of hl "_ # _"])
qed

lemma iterate_cut:
  assumes "list_all op_ok ops" "concat (map op_bytes ops) = D @ X" "X \<noteq> []"
  shows "(\<exists>msg h'. iterate_loop hl D found h = (Inl (Corruption msg []), h')) \<or>
    (\<exists>k h'. k < length ops \<and> iterate_loop hl D found h = (Inr (found + int k), h'))"
  using assms
proof (induction ops arbitrary: D found h)
  case (Cons op ops)
  from Cons.prems(2) have "op_bytes op @ concat (map op_bytes ops) = D @ X" by simp
  then show ?case
  proof (cases rule: append_eq_cut)
    case (inside Y)
    then show ?thesis using iterate_cut_op [of op D Y hl found h] Cons.prems(1)
      by (cases "D = []") auto
  next
    case (behind D')
    from Cons.IH [OF _ behind(2) Cons.prems(3), of "found + 1" "run_op hl op h"] Cons.prems(1)
    show ?thesis
      by (auto simp: behind(1) iterate_op intro: exI [of _ "Suc _"])
  qed
qed simp

section \<open>Properties\<close>

text \<open>C31: write batches implement lists of operations: \<open>Clear\<close> makes the empty list,
  \<open>Put\<close>, \<open>Delete\<close> and \<open>Append\<close> add to its end and keep the stored count and the
  sequence number right, none of them reads or writes outside the string, and \<open>Iterate\<close>
  replays the operations on any handler in order and reports success.\<close>

theorem write_batch_refines:
  assumes "represents b seq ops" "represents b' seq' ops'" "length ops + length ops' + 1 < 2 ^ 31"
    and "length key < 2 ^ 32" "length val < 2 ^ 32"
  shows "represents WriteBatch_Clear 0 [] \<and>
    (\<exists>r. Batch_Put b key val = Some r \<and> represents r seq (ops @ [Put_op key val])) \<and>
    (\<exists>r. Batch_Delete b key = Some r \<and> represents r seq (ops @ [Delete_op key])) \<and>
    (\<exists>r. Batch_Append b b' = Some r \<and> represents r seq (ops @ ops')) \<and>
    (\<exists>r. SetSequence b seq' = Some r \<and> represents r seq' ops) \<and>
    Batch_Count b = Some (int (length ops)) \<and> Batch_Sequence b = Some seq \<and>
    Iterate hl b h = Some (Status_OK, fold (run_op hl) ops h)"
proof -
  have "represents (EncodeFixed64 seq' @ EncodeFixed32 (of_nat (length ops)) @ concat (map op_bytes ops)) seq' ops"
    using assms(1) by (simp add: represents_def)
  with assms show ?thesis
    using Clear_represents Put_represents [OF assms(1), of key val] Delete_represents [OF assms(1), of key]
      Append_represents [OF assms(1,2)] Iterate_represents [OF assms(1)] represents_header [OF assms(1)]
    by simp
qed

theorem write_batch_refines_witness:
  "\<exists>r. Batch_Put WriteBatch_Clear [1] [2, 3] = Some r \<and> represents r 0 [Put_op [1] [2, 3]]"
  using write_batch_refines [OF Clear_represents Clear_represents, where key = "[1]" and val = "[2, 3]" and h = "()"]
  by simp

text \<open>C32: a batch that was cut off at any byte is refused: \<open>Iterate\<close> returns a corruption
  status, whatever entry or header the cut goes through, also when it falls between two entries.\<close>

theorem truncated_batch_refused:
  assumes "represents b seq ops" "n < length b"
  shows "\<exists>msg h'. Iterate hl (take n b) h = Some (Corruption msg [], h')"
proof (cases "n < kHeader")
  case True
  then show ?thesis using assms(2) by (auto simp: Iterate_def)
next
  case False
  let ?D = "drop kHeader (take n b)"
  note h = represents_header [OF assms(1)]
  have "concat (map op_bytes ops) = ?D @ drop n b"
    using False by (simp only: h(4) [symmetric]) (metis append_take_drop_id drop_append drop_drop drop_take le_add_diff_inverse2 linorder_not_less)
  moreover have "list_all op_ok ops" using assms(1) by (simp add: represents_def)
  moreover have "drop n b \<noteq> []" using assms(2) by simp
  ultimately have cut: "(\<exists>msg h'. iterate_loop hl ?D 0 h = (Inl (Corruption msg []), h')) \<or>
      (\<exists>k h'. k < length ops \<and> iterate_loop hl ?D 0 h = (Inr (int k), h'))"
    using iterate_cut [of ops ?D "drop n b" hl 0 h] by simp
  have tk: "take n b = EncodeFixed64 seq @ EncodeFixed32 (of_nat (length ops)) @
      take (n - 12) (concat (map op_bytes ops))"
    using False assms(1) by (simp add: represents_def kHeader_def)
  have "Batch_Count (take n b) = Some (int (length ops))"
    unfolding Batch_Count_def tk using assms(1) by (simp add: represents_def sint_int_small)
  with cut False assms(2) show ?thesis
    by (auto simp: Iterate_def slice_remove_prefix_def)
qed

theorem truncated_batch_refused_witness:
  "\<exists>msg h'. Iterate (MemTableInserter (\<lambda>s t k v m. (k, v) # m))
     (take 14 (EncodeFixed64 5 @ EncodeFixed32 1 @ op_bytes (Put_op [1, 2] [3]))) (0, []) =
     Some (Corruption msg [], h')"
proof -
  let ?b = "EncodeFixed64 5 @ EncodeFixed32 1 @ op_bytes (Put_op [1, 2] [3])"
  have "represents ?b 5 [Put_op [1, 2] [3]]" by (simp add: represents_def)
  moreover have "14 < length ?b"
    by (simp add: PutLengthPrefixedSlice_def PutVarint32_def EncodeVarint32_def)
  ultimately show ?thesis by (rule truncated_batch_refused)
qed

end
