(* ===== verification/Ldb_Memtable.thy ===== *)
theory Ldb_Memtable
  imports Ldb_Arena Ldb_Skiplist_Correct Ldb_Write_Batch
begin

unbundle bit_operations_syntax

text \<open>
  The memory table of \<open>db/memtable.h\<close> and \<open>db/memtable.cc\<close>. A key of its skip list is a pointer to
  an entry in the arena; the model has the bytes of the entry, which nothing changes once they are
  written (\<open>Ldb_Arena\<close>: the regions of an arena do not overlap), and keeps the arena for its memory
  usage. \<open>None\<close> is a failed assertion or a read outside an entry.
\<close>

section \<open>Entries\<close>

text \<open>\<open>GetLengthPrefixedSlice\<close> of \<open>memtable.cc\<close>, which looks for the length in the first five
  bytes and trusts it; the second result is the memory behind the slice.\<close>

definition varint_at :: "u8 list \<Rightarrow> (nat \<times> u8 list) option" where
  "varint_at p =
     (case GetVarint32Ptr (take 5 p) of
        None \<Rightarrow> None
      | Some (len, rest) \<Rightarrow> Some (unat len, drop (length (take 5 p) - length rest) p))"

definition slice_at :: "u8 list \<Rightarrow> (slice \<times> u8 list) option" where
  "slice_at data = do {
     (len, p) \<leftarrow> varint_at data;
     asserting (len \<le> length p) (Some (take len p, drop len p)) }"

definition MemTable_KeyComparator :: "comparator \<Rightarrow> u8 list \<Rightarrow> u8 list \<Rightarrow> int" where
  "MemTable_KeyComparator user aptr bptr =
     (case (slice_at aptr, slice_at bptr) of
        (Some (a, _), Some (b, _)) \<Rightarrow> cmp_Compare (InternalKeyComparator user) a b
      | _ \<Rightarrow> 0)"

definition EncodeKey :: "slice \<Rightarrow> u8 list" where
  "EncodeKey target = PutVarint32 [] (of_nat (length target)) @ target"

section \<open>The table\<close>

record memtable =
  mt_user :: comparator
  mt_refs :: int
  mt_arena :: arena
  mt_table :: "u8 list skiplist"

text \<open>The size of a node: the key pointer and one link for every level.\<close>

definition node_size :: "nat \<Rightarrow> nat" where
  "node_size height = 16 + 8 * (height - 1)"

definition MemTable_new :: "comparator \<Rightarrow> memtable option" where
  "MemTable_new user = do {
     (_, a) \<leftarrow> AllocateAligned (node_size kMaxHeight) Arena_new;
     table \<leftarrow> SkipList_new [];
     Some \<lparr>mt_user = user, mt_refs = 0, mt_arena = a, mt_table = table\<rparr> }"

definition MemTable_Ref :: "memtable \<Rightarrow> memtable" where
  "MemTable_Ref m = m\<lparr>mt_refs := mt_refs m + 1\<rparr>"

text \<open>\<open>Unref\<close>; the result \<open>Some None\<close> is a table that was deleted.\<close>

definition MemTable_Unref :: "memtable \<Rightarrow> memtable option option" where
  "MemTable_Unref m =
     (let m = m\<lparr>mt_refs := mt_refs m - 1\<rparr> in
      asserting (mt_refs m \<ge> 0)
        (if mt_refs m \<le> 0 then asserting (mt_refs m = 0) (Some None) else Some (Some m)))"

definition ApproximateMemoryUsage :: "memtable \<Rightarrow> nat" where
  "ApproximateMemoryUsage m = MemoryUsage (mt_arena m)"

definition MemTable_Add :: "SequenceNumber \<Rightarrow> ValueType \<Rightarrow> slice \<Rightarrow> slice \<Rightarrow> memtable \<Rightarrow> memtable option" where
  "MemTable_Add s type key val m =
     (let key_size = length key;
          val_size = length val;
          internal_key_size = key_size + 8;
          encoded_len = VarintLength (of_nat internal_key_size) + internal_key_size +
            VarintLength (of_nat val_size) + val_size;
          buf = EncodeVarint32 (of_nat internal_key_size) @ key @
            EncodeFixed64 (push_bit 8 s OR of_nat (vtype_num type)) @
            EncodeVarint32 (of_nat val_size) @ val
      in do {
        (_, a) \<leftarrow> Allocate encoded_len (mt_arena m);
        asserting (length buf = encoded_len) (do {
          table \<leftarrow> Insert (MemTable_KeyComparator (mt_user m)) buf (mt_table m);
          (_, a) \<leftarrow> AllocateAligned (node_size (length (node_next (last (sl_nodes table))))) a;
          Some (m\<lparr>mt_arena := a, mt_table := table\<rparr>) }) })"

text \<open>\<open>Get\<close> with its result and the two variables that it may assign.\<close>

definition MemTable_Get :: "memtable \<Rightarrow> LookupKey \<Rightarrow> slice \<times> status \<Rightarrow> (bool \<times> slice \<times> status) option" where
  "MemTable_Get m key out = do {
     it \<leftarrow> Iter_Seek (MemTable_KeyComparator (mt_user m)) (mt_table m) (memtable_key key);
     if \<not> Iter_Valid it then Some (False, out)
     else do {
       entry \<leftarrow> Iter_key (mt_table m) it;
       (key_length, key_ptr) \<leftarrow> varint_at entry;
       asserting (8 \<le> key_length \<and> key_length \<le> length key_ptr)
         (if cmp_Compare (mt_user m) (take (key_length - 8) key_ptr) (lookup_user_key key) = 0 then do {
            tag \<leftarrow> DecodeFixed64 (drop (key_length - 8) key_ptr);
            let type = (ucast (tag AND 0xff) :: u8);
            if type = of_nat (vtype_num kTypeValue) then do {
              (v, _) \<leftarrow> slice_at (drop key_length key_ptr);
              Some (True, v, snd out) }
            else if type = of_nat (vtype_num kTypeDeletion) then Some (True, fst out, NotFound [] [])
            else Some (False, out) }
          else Some (False, out)) } }"

section \<open>The iterator\<close>

definition MemTableIterator_Seek :: "memtable \<Rightarrow> slice \<Rightarrow> sl_iterator option" where
  "MemTableIterator_Seek m k = Iter_Seek (MemTable_KeyComparator (mt_user m)) (mt_table m) (EncodeKey k)"

definition MemTableIterator_key :: "memtable \<Rightarrow> sl_iterator \<Rightarrow> slice option" where
  "MemTableIterator_key m it = do {
     entry \<leftarrow> Iter_key (mt_table m) it;
     map_option fst (slice_at entry) }"

definition MemTableIterator_value :: "memtable \<Rightarrow> sl_iterator \<Rightarrow> slice option" where
  "MemTableIterator_value m it = do {
     entry \<leftarrow> Iter_key (mt_table m) it;
     (_, rest) \<leftarrow> slice_at entry;
     map_option fst (slice_at rest) }"

section \<open>Entries are compared by their internal keys\<close>

lemma varint_at_Encode: "varint_at (EncodeVarint32 v @ rest) = Some (unat v, rest)"
proof -
  let ?e = "EncodeVarint32 v"
  have "length ?e \<le> 5"
    using varint_bytes_length_32 [OF unat_u32_less [of v]] by (simp add: EncodeVarint32_bytes)
  then have t: "take 5 ?e = ?e" by simp
  have "GetVarint32Ptr (?e @ take (5 - length ?e) rest) = Some (v, take (5 - length ?e) rest)"
    using GetVarint32_Encode [of v] by (simp add: GetVarint32_def)
  then show ?thesis by (simp add: varint_at_def t)
qed

lemma slice_at_Put:
  "length s < 2 ^ 32 \<Longrightarrow> slice_at (PutLengthPrefixedSlice [] s @ rest) = Some (s, rest)"
  by (simp add: slice_at_def PutLengthPrefixedSlice_def PutVarint32_def varint_at_Encode)

text \<open>A pointer to an internal key with its length, and anything behind it.\<close>

definition entry_valid :: "(slice \<Rightarrow> bool) \<Rightarrow> u8 list \<Rightarrow> bool" where
  "entry_valid valid b \<longleftrightarrow>
     (\<exists>u n rest. b = PutLengthPrefixedSlice [] (ikey u n) @ rest \<and> length u + 8 < 2 ^ 32 \<and> valid u)"

lemma KeyComparator_entries:
  assumes "length u + 8 < 2 ^ 32" "length v + 8 < 2 ^ 32"
  shows "MemTable_KeyComparator user (PutLengthPrefixedSlice [] (ikey u n) @ x) (PutLengthPrefixedSlice [] (ikey v m) @ y) =
    cmp_Compare (InternalKeyComparator user) (ikey u n) (ikey v m)"
  using assms by (simp add: MemTable_KeyComparator_def slice_at_Put)

context comparator_ok
begin

lemma entry_compare:
  assumes "length u + 8 < 2 ^ 32" "length v + 8 < 2 ^ 32" "valid u" "valid v"
  shows "MemTable_KeyComparator c (PutLengthPrefixedSlice [] (ikey u n) @ x) (PutLengthPrefixedSlice [] (ikey v m) @ y) < 0 \<longleftrightarrow>
      less u v \<or> u = v \<and> m < n"
    "MemTable_KeyComparator c (PutLengthPrefixedSlice [] (ikey u n) @ x) (PutLengthPrefixedSlice [] (ikey v m) @ y) = 0 \<longleftrightarrow>
      u = v \<and> n = m"
    "MemTable_KeyComparator c (PutLengthPrefixedSlice [] (ikey u n) @ x) (PutLengthPrefixedSlice [] (ikey v m) @ y) > 0 \<longleftrightarrow>
      less v u \<or> u = v \<and> n < m"
  unfolding KeyComparator_entries [OF assms(1,2)] internal_compare_sign [OF assms(3,4)]
  using assms(3,4) by auto

text \<open>The skip list's contract, for every user comparator that keeps its own.\<close>

lemma entry_order: "key_order (MemTable_KeyComparator c) (entry_valid valid)"
proof
  fix a b d assume "entry_valid valid a" "entry_valid valid b"
  then obtain u n x v m y where ab: "a = PutLengthPrefixedSlice [] (ikey u n) @ x" "length u + 8 < 2 ^ 32" "valid u"
    "b = PutLengthPrefixedSlice [] (ikey v m) @ y" "length v + 8 < 2 ^ 32" "valid v"
    by (auto simp: entry_valid_def)
  show "MemTable_KeyComparator c a b > 0 \<longleftrightarrow> MemTable_KeyComparator c b a < 0"
    unfolding ab(1,4) entry_compare [OF ab(2,5,3,6)] entry_compare [OF ab(5,2,6,3)] by auto
  assume "entry_valid valid d" "MemTable_KeyComparator c a b \<le> 0" "MemTable_KeyComparator c b d \<le> 0"
  then obtain w k z where d: "d = PutLengthPrefixedSlice [] (ikey w k) @ z" "length w + 8 < 2 ^ 32" "valid w"
    by (auto simp: entry_valid_def)
  from \<open>MemTable_KeyComparator c a b \<le> 0\<close> have "\<not> MemTable_KeyComparator c a b > 0" by simp
  then have "\<not> (less v u \<or> u = v \<and> n < m)"
    unfolding ab(1,4) entry_compare(3) [OF ab(2,5,3,6)] .
  moreover from \<open>MemTable_KeyComparator c b d \<le> 0\<close> have "\<not> MemTable_KeyComparator c b d > 0" by simp
  then have "\<not> (less w v \<or> v = w \<and> m < k)"
    unfolding ab(4) d(1) entry_compare(3) [OF ab(5) d(2) ab(6) d(3)] .
  ultimately have "\<not> (less w u \<or> u = w \<and> n < k)"
    using less_linear [OF ab(3,6)] less_linear [OF ab(6) d(3)] less_trans [of w u v] less_trans [of w v u]
      less_trans [of v w u] less_asym [of w u] less_asym [of u v] less_asym [of v w] less_irrefl [of u] ab(3,6) d(3)
    by (auto dest: order_less_le_trans)
  then have "\<not> MemTable_KeyComparator c a d > 0"
    unfolding ab(1) d(1) entry_compare(3) [OF ab(2) d(2) ab(3) d(3)] .
  then show "MemTable_KeyComparator c a d \<le> 0" by simp
qed

end

interpretation bytewise_entries: key_order "MemTable_KeyComparator BytewiseComparator" "entry_valid (\<lambda>_. True)"
  by (rule bytewise.entry_order)

section \<open>The table as a history of additions\<close>

text \<open>An addition: sequence number, type, user key and value.\<close>

type_synonym addition = "SequenceNumber \<times> ValueType \<times> slice \<times> slice"

fun entry_of :: "addition \<Rightarrow> u8 list" where
  "entry_of (s, t, k, v) = PutLengthPrefixedSlice [] (ikey k (packed s t)) @ PutLengthPrefixedSlice [] v"

fun add_ok :: "(slice \<Rightarrow> bool) \<Rightarrow> addition \<Rightarrow> bool" where
  "add_ok valid (s, t, k, v) \<longleftrightarrow> s \<le> kMaxSequenceNumber \<and> length k + 8 < 2 ^ 32 \<and> length v < 2 ^ 32 \<and> valid k"

fun visible :: "slice \<Rightarrow> SequenceNumber \<Rightarrow> addition \<Rightarrow> bool" where
  "visible u snapshot (s, t, k, v) \<longleftrightarrow> k = u \<and> s \<le> snapshot"

text \<open>The specification of a lookup: the latest addition for the key up to the snapshot.\<close>

definition mem_lookup :: "slice \<Rightarrow> SequenceNumber \<Rightarrow> addition list \<Rightarrow> addition option" where
  "mem_lookup u snapshot adds =
     (let vs = filter (visible u snapshot) adds in if vs = [] then None else Some (last vs))"

text \<open>The table holds the entries of the additions, which came in the order of their sequence numbers.\<close>

definition mem_repr :: "comparator \<Rightarrow> (slice \<Rightarrow> bool) \<Rightarrow> memtable \<Rightarrow> addition list \<Rightarrow> bool" where
  "mem_repr user valid m adds \<longleftrightarrow>
     mt_user m = user \<and> list_all (add_ok valid) adds \<and> sorted_wrt (\<lambda>a b. fst a < fst b) adds \<and>
     (\<exists>ks. holds_keys (MemTable_KeyComparator user) (entry_valid valid) (mt_table m) ks \<and>
        set ks = entry_of ` set adds) \<and>
     (\<exists>rs. arena_ok (mt_arena m) rs)"

lemma mem_repr_new: "\<exists>m. MemTable_new user = Some m \<and> mem_repr user valid m []"
proof -
  obtain a b off rs where a: "AllocateAligned (node_size kMaxHeight) Arena_new = Some (Some (b, off), a)" "arena_ok a rs"
    using AllocateAligned_ok [OF arena_ok_new, of "node_size kMaxHeight"] by (auto simp: node_size_def kMaxHeight_def)
  obtain sl where sl: "SkipList_new [] = Some sl" "sl_repr (MemTable_KeyComparator user) (entry_valid valid) sl (\<lambda>_. [])"
    using SkipList_new_repr [of "[]" "MemTable_KeyComparator user" "entry_valid valid"] by blast
  then have "holds_keys (MemTable_KeyComparator user) (entry_valid valid) sl []" by (force simp: holds_keys_def)
  with a sl show ?thesis by (auto simp: MemTable_new_def mem_repr_def)
qed

lemma add_entry_length:
  assumes "length k + 8 < 2 ^ 32" "length v < 2 ^ 32"
  shows "length (EncodeVarint32 (of_nat (length k + 8)) @ k @ EncodeFixed64 n @ EncodeVarint32 (of_nat (length v)) @ v) =
    VarintLength (of_nat (length k + 8)) + (length k + 8) + VarintLength (of_nat (length v)) + length v"
proof -
  have "length (EncodeVarint32 (of_nat m)) = VarintLength (of_nat m)" if "m < 2 ^ 32" for m
    using that by (simp add: VarintLength_bytes EncodeVarint32_bytes EncodeVarint64_bytes)
  from this [OF assms(1)] this [OF assms(2)] show ?thesis by simp
qed

lemma set_insert_between: "set (takeWhile P xs @ x # dropWhile P xs) = insert x (set xs)"
proof -
  have "set (takeWhile P xs) \<union> set (dropWhile P xs) = set xs"
    by (metis set_append takeWhile_dropWhile_id)
  then show ?thesis by auto
qed

lemma fst_sorted_inj:
  "sorted_wrt (\<lambda>a b. fst a < fst b) xs \<Longrightarrow> a \<in> set xs \<Longrightarrow> b \<in> set xs \<Longrightarrow> fst a = fst b \<Longrightarrow> a = (b :: addition)"
  by (induction xs) auto

lemma fst_sorted_last:
  "sorted_wrt (\<lambda>a b. fst a < fst b) xs \<Longrightarrow> a \<in> set xs \<Longrightarrow> fst (a :: addition) \<le> fst (last xs)"
  by (induction xs) (auto simp: less_imp_le)

context comparator_ok
begin

lemma entry_of_valid: "add_ok valid a \<Longrightarrow> entry_valid valid (entry_of a)"
  by (cases a) (auto simp: entry_valid_def)

lemma MemTable_Add_repr:
  assumes "mem_repr c valid m adds" "add_ok valid (s, t, k, v)" "\<forall>a \<in> set adds. fst a < s"
  shows "\<exists>m'. MemTable_Add s t k v m = Some m' \<and> mem_repr c valid m' (adds @ [(s, t, k, v)])"
proof -
  let ?e = "entry_of (s, t, k, v)" and ?cmp = "MemTable_KeyComparator c"
  have ok: "s \<le> kMaxSequenceNumber" "length k + 8 < 2 ^ 32" "length v < 2 ^ 32" "valid k" using assms(2) by simp_all
  let ?len = "VarintLength (of_nat (length k + 8)) + (length k + 8) + VarintLength (of_nat (length v)) + length v"
  have buf: "EncodeVarint32 (of_nat (length k + 8)) @ k @ EncodeFixed64 (push_bit 8 s OR of_nat (vtype_num t)) @
      EncodeVarint32 (of_nat (length v)) @ v = ?e"
    by (simp add: PutLengthPrefixedSlice_def PutVarint32_def ikey_def packed_def)
  have len: "length ?e = ?len" unfolding buf [symmetric] by (rule add_entry_length [OF ok(2,3)])
  obtain ks rs where ks: "holds_keys ?cmp (entry_valid valid) (mt_table m) ks" "set ks = entry_of ` set adds"
    and rs: "arena_ok (mt_arena m) rs" and user: "mt_user m = c"
    using assms(1) by (auto simp: mem_repr_def)
  have "?cmp ?e e \<noteq> 0" if e: "e \<in> set ks" for e
  proof -
    obtain a where "e = entry_of a" "a \<in> set adds" using e unfolding ks(2) by (rule imageE)
    moreover obtain s' t' k' v' where "a = (s', t', k', v')" by (cases a)
    ultimately have a: "(s', t', k', v') \<in> set adds" "e = entry_of (s', t', k', v')" by (simp_all only:)
    with assms(1) have ok': "add_ok valid (s', t', k', v')" unfolding mem_repr_def list_all_iff by blast
    have "s' < s" using assms(3) a(1) by fastforce
    moreover have "s' \<le> kMaxSequenceNumber" using ok' by simp
    ultimately have "packed s t \<noteq> packed s' t'"
      using packed_fields(1) [OF ok(1), of t] packed_fields(1) [of s' t'] by auto
    then show ?thesis
      using entry_compare(2) [OF ok(2) _ ok(4), of k'] ok' by (simp add: a(2))
  qed
  then obtain table where table: "Insert ?cmp ?e (mt_table m) = Some table"
    "holds_keys ?cmp (entry_valid valid) table
       (takeWhile (\<lambda>e. ?cmp e ?e < 0) ks @ ?e # dropWhile (\<lambda>e. ?cmp e ?e < 0) ks)"
    using key_order.Insert_keys [OF entry_order ks(1) entry_of_valid [OF assms(2)]] by blast
  have set: "set (takeWhile (\<lambda>e. ?cmp e ?e < 0) ks @ ?e # dropWhile (\<lambda>e. ?cmp e ?e < 0) ks) =
      entry_of ` set (adds @ [(s, t, k, v)])"
    unfolding set_insert_between ks(2) by (simp del: entry_of.simps)
  obtain b off a1 where a1: "Allocate ?len (mt_arena m) = Some (Some (b, off), a1)" "arena_ok a1 (rs @ [(b, off, ?len)])"
    using Allocate_ok [OF rs, of ?len] by auto
  obtain b' off' a2 n where a2: "AllocateAligned (node_size (length (node_next (last (sl_nodes table))))) a1 = Some (Some (b', off'), a2)"
    "arena_ok a2 (rs @ [(b, off, ?len)] @ [(b', off', n)])"
    using AllocateAligned_ok [OF a1(2), of "node_size (length (node_next (last (sl_nodes table))))"]
      key_order.Insert_height [OF entry_order ks(1) entry_of_valid [OF assms(2)] table(1)]
    by (fastforce simp: node_size_def kMaxHeight_def)
  have "MemTable_Add s t k v m = Some (m\<lparr>mt_arena := a2, mt_table := table\<rparr>)"
    unfolding MemTable_Add_def Let_def buf using a1(1) a2(1) table(1) len user by simp
  moreover have "mem_repr c valid (m\<lparr>mt_arena := a2, mt_table := table\<rparr>) (adds @ [(s, t, k, v)])"
    unfolding mem_repr_def
  proof (intro conjI)
    show "\<exists>ks. holds_keys ?cmp (entry_valid valid) (mt_table (m\<lparr>mt_arena := a2, mt_table := table\<rparr>)) ks \<and>
        set ks = entry_of ` set (adds @ [(s, t, k, v)])"
    proof -
      have "mt_table (m\<lparr>mt_arena := a2, mt_table := table\<rparr>) = table" by simp
      with table(2) set show ?thesis by (intro exI conjI) (simp_all only:)
    qed
  qed (use assms a2(2) user in \<open>auto simp: mem_repr_def sorted_wrt_append\<close>)
  ultimately show ?thesis by blast
qed

end

text \<open>The last visible addition is the one with the greatest sequence number.\<close>

lemma mem_lookup_Some:
  assumes "sorted_wrt (\<lambda>a b. fst a < fst b) adds" "mem_lookup u s adds = Some a"
  shows "a \<in> set adds" "visible u s a" "\<And>b. b \<in> set adds \<Longrightarrow> visible u s b \<Longrightarrow> fst b \<le> fst a"
proof -
  let ?vs = "filter (visible u s) adds"
  have vs: "?vs \<noteq> []" "a = last ?vs" using assms(2) by (auto simp: mem_lookup_def Let_def split: if_splits)
  have "a \<in> set ?vs" unfolding vs(2) by (rule last_in_set [OF vs(1)])
  then show "a \<in> set adds" "visible u s a" by auto
  have "sorted_wrt (\<lambda>a b. fst a < fst b) ?vs" using assms(1) by (rule sorted_wrt_filter)
  then show "fst b \<le> fst a" if "b \<in> set adds" "visible u s b" for b
    using fst_sorted_last [of ?vs b] that vs by simp
qed

lemma mem_lookup_None: "mem_lookup u s adds = None \<longleftrightarrow> (\<forall>a \<in> set adds. \<not> visible u s a)"
  by (auto simp: mem_lookup_def Let_def filter_empty_conv)

context comparator_ok
begin

lemma seek_first:
  assumes "mem_repr c valid m adds" "valid u" "length u + 8 < 2 ^ 32" "s \<le> kMaxSequenceNumber"
    and memkey: "memkey = PutLengthPrefixedSlice [] (ikey u (packed s kTypeValue))"
  shows "\<exists>it. Iter_Seek (MemTable_KeyComparator c) (mt_table m) memkey = Some it \<and>
    (\<not> Iter_Valid it \<longrightarrow> mem_lookup u s adds = None) \<and>
    (Iter_Valid it \<longrightarrow> (\<exists>a. a \<in> set adds \<and> Iter_key (mt_table m) it = Some (entry_of a) \<and>
      (mem_lookup u s adds = Some a \<or> mem_lookup u s adds = None \<and> fst (snd (snd a)) \<noteq> u)))"
proof -
  let ?cmp = "MemTable_KeyComparator c"
  obtain ks where ks: "holds_keys ?cmp (entry_valid valid) (mt_table m) ks" "set ks = entry_of ` set adds"
    and adds: "list_all (add_ok valid) adds" "sorted_wrt (\<lambda>a b. fst a < fst b) adds"
    using assms(1) by (auto simp: mem_repr_def)
  obtain lv where lv: "sl_repr ?cmp (entry_valid valid) (mt_table m) lv" "ks = map (nkey (mt_table m)) (lv 0)"
    using ks(1) by (auto simp: holds_keys_def)
  have len: "length ks = length (lv 0)" by (simp add: lv(2))
  have valid_mk: "entry_valid valid memkey"
    using assms(2,3) unfolding memkey entry_valid_def by (metis append_Nil2)
  define i where "i = length (takeWhile (\<lambda>k. ?cmp k memkey < 0) ks)"
  from key_order.iter_seek [OF entry_order lv(1) valid_mk] obtain it where it:
    "Iter_Seek ?cmp (mt_table m) memkey = Some it" "sl_iter_at (mt_table m) (lv 0) it i"
    unfolding i_def lv(2) by blast
  note at = key_order.iter_key [OF entry_order lv(1) it(2), folded lv(2) len]
  have below: "?cmp (entry_of (s', t, k, v)) memkey < 0 \<longleftrightarrow> less k u \<or> k = u \<and> packed s kTypeValue < packed s' t"
    if "add_ok valid (s', t, k, v)" for s' t k v
    using that entry_compare(1) [OF _ assms(3) _ assms(2), of k "packed s' t" _ "packed s kTypeValue" "[]"]
    by (simp add: memkey)
  have not_less: "\<not> packed s kTypeValue < packed s' t" if "s' \<le> s" for s' t
    using that packed_less [OF assms(4), of s' kTypeValue t] assms(4) by (cases t) auto
  have max: "visible u s a" if "a \<in> set adds" "\<not> ?cmp (entry_of a) memkey < 0" "fst (snd (snd a)) = u" for a
  proof -
    obtain s' t k v where a: "a = (s', t, k, v)" by (cases a)
    have ok: "add_ok valid a" using adds(1) that(1) by (simp add: list_all_iff)
    then have "s' \<le> kMaxSequenceNumber" by (simp add: a)
    then show ?thesis
      using that(2,3) below [of s' t k v] ok packed_less [OF assms(4), of s' kTypeValue t]
      by (auto simp: a simp del: entry_of.simps)
  qed
  have found: "a \<in> set adds \<Longrightarrow> visible u s a \<Longrightarrow> \<not> ?cmp (entry_of a) memkey < 0" for a
  proof -
    assume mem: "a \<in> set adds" and vis: "visible u s a"
    obtain s' t k v where a: "a = (s', t, k, v)" by (cases a)
    have ok: "add_ok valid (s', t, k, v)" using adds(1) mem by (simp add: list_all_iff a del: add_ok.simps)
    show ?thesis
      using vis not_less [of s' t] less_irrefl [OF assms(2)] unfolding a below [OF ok] by auto
  qed
  have entry: "\<exists>a \<in> set adds. e = entry_of a" if "e \<in> set ks" for e using that ks(2) by auto
  have first: "?cmp (entry_of a0) (entry_of a) < 0 \<Longrightarrow> False"
    if a0: "a0 \<in> set adds" "\<not> ?cmp (entry_of a0) memkey < 0" and a: "mem_lookup u s adds = Some a" for a0 a
  proof -
    assume lt: "?cmp (entry_of a0) (entry_of a) < 0"
    obtain s0 t0 k0 v0 where a0_eq: "a0 = (s0, t0, k0, v0)" by (cases a0)
    obtain s1 t1 k1 v1 where a_eq: "a = (s1, t1, k1, v1)" by (cases a)
    note look = mem_lookup_Some [OF adds(2) a]
    have ok: "add_ok valid (s0, t0, k0, v0)" "add_ok valid (s1, t1, k1, v1)"
      using adds(1) a0(1) look(1) by (simp_all add: list_all_iff a0_eq a_eq del: add_ok.simps)
    have k1: "k1 = u" using look(2) by (simp add: a_eq)
    from lt have "less k0 u \<or> k0 = u \<and> packed s1 t1 < packed s0 t0"
      using ok assms(2,3) entry_compare(1) [of k0 u "packed s0 t0" _ "packed s1 t1"] by (simp add: a0_eq a_eq k1)
    moreover have "\<not> less k0 u" using a0(2) below [OF ok(1)] by (simp add: a0_eq del: entry_of.simps)
    ultimately have eq: "k0 = u" "packed s1 t1 < packed s0 t0" by auto
    then have "s0 \<le> s1" using look(3) [OF a0(1) max [OF a0]] by (simp add: a0_eq a_eq)
    with eq(2) have "s0 = s1" using packed_less [of s1 s0 t1 t0] ok by auto
    with fst_sorted_inj [OF adds(2) a0(1) look(1)] eq(2) show False by (simp add: a0_eq a_eq)
  qed
  show ?thesis
  proof (rule exI [of _ it], intro conjI impI)
    assume "\<not> Iter_Valid it"
    then have "takeWhile (\<lambda>k. ?cmp k memkey < 0) ks = ks"
      using at(1) by (metis i_def length_takeWhile_le linorder_not_less nle_le take_all takeWhile_eq_take)
    then have "\<forall>k \<in> set ks. ?cmp k memkey < 0" by (metis set_takeWhileD)
    then show "mem_lookup u s adds = None"
      using found ks(2) by (fastforce simp: mem_lookup_None simp del: entry_of.simps)
  next
    assume "Iter_Valid it"
    then have i: "i < length ks" and key: "Iter_key (mt_table m) it = Some (ks ! i)" using at by simp_all
    obtain a0 where a0: "a0 \<in> set adds" "ks ! i = entry_of a0" using entry [of "ks ! i"] i by auto
    have ge: "\<not> ?cmp (entry_of a0) memkey < 0"
      using nth_length_takeWhile [of "\<lambda>k. ?cmp k memkey < 0" ks] i a0(2) by (simp add: i_def)
    show "\<exists>a. a \<in> set adds \<and> Iter_key (mt_table m) it = Some (entry_of a) \<and>
      (mem_lookup u s adds = Some a \<or> mem_lookup u s adds = None \<and> fst (snd (snd a)) \<noteq> u)"
    proof (cases "mem_lookup u s adds")
      case None
      then have "fst (snd (snd a0)) \<noteq> u" using max [OF a0(1) ge] a0(1) unfolding mem_lookup_None by blast
      with None a0 key show ?thesis by (intro exI [of _ a0]) simp
    next
      case (Some a)
      note look = mem_lookup_Some [OF adds(2) Some]
      obtain p where p: "p < length ks" "ks ! p = entry_of a" using look(1) ks(2) by (metis imageI in_set_conv_nth)
      have "\<not> p < i"
        using found [OF look(1,2)] p set_takeWhileD [OF nth_mem, of p "\<lambda>k. ?cmp k memkey < 0" ks]
        by (auto simp: i_def takeWhile_nth)
      moreover have "\<not> i < p"
      proof
        assume "i < p"
        then have "?cmp (ks ! i) (ks ! p) < 0"
          using key_order.sorted_keys [OF entry_order lv(1), folded lv(2)] p(1) by (simp add: sorted_wrt_iff_nth_less)
        then show False using first [OF a0(1) ge Some] unfolding a0(2) p(2) by blast
      qed
      ultimately have "i = p" by simp
      with p key look(1) Some show ?thesis by (intro exI [of _ a]) simp
    qed
  qed (rule it(1))
qed

end

context comparator_ok
begin

lemma MemTable_Get_repr:
  assumes "mem_repr c valid m adds" "valid u" "length u + 8 < 2 ^ 32" "s \<le> kMaxSequenceNumber"
    and "LookupKey_new u s = Some lk"
  shows "MemTable_Get m lk (val, st) = Some
    (case mem_lookup u s adds of
       None \<Rightarrow> (False, val, st)
     | Some (_, kTypeValue, _, v) \<Rightarrow> (True, v, st)
     | Some (_, kTypeDeletion, _, _) \<Rightarrow> (True, val, NotFound [] []))"
proof -
  have lk: "lookup_user_key lk = u" "memtable_key lk = PutLengthPrefixedSlice [] (ikey u (packed s kTypeValue))"
    using LookupKey_parts [OF assms(4), of u] assms(5) by auto
  have user: "mt_user m = c" and adds: "list_all (add_ok valid) adds" "sorted_wrt (\<lambda>a b. fst a < fst b) adds"
    using assms(1) by (simp_all add: mem_repr_def)
  obtain it where it: "Iter_Seek (MemTable_KeyComparator c) (mt_table m) (memtable_key lk) = Some it"
    "\<not> Iter_Valid it \<longrightarrow> mem_lookup u s adds = None"
    "Iter_Valid it \<longrightarrow> (\<exists>a. a \<in> set adds \<and> Iter_key (mt_table m) it = Some (entry_of a) \<and>
      (mem_lookup u s adds = Some a \<or> mem_lookup u s adds = None \<and> fst (snd (snd a)) \<noteq> u))"
    using seek_first [OF assms(1-4) lk(2)] by blast
  show ?thesis
  proof (cases "Iter_Valid it")
    case True
    from it(3) True obtain s' t k v where a: "(s', t, k, v) \<in> set adds"
      "Iter_key (mt_table m) it = Some (entry_of (s', t, k, v))"
      "mem_lookup u s adds = Some (s', t, k, v) \<or> mem_lookup u s adds = None \<and> k \<noteq> u" by auto
    from adds(1) a(1) have ok: "s' \<le> kMaxSequenceNumber" "length k + 8 < 2 ^ 32" "length v < 2 ^ 32" "valid k"
      by (force simp: list_all_iff)+
    have "varint_at (entry_of (s', t, k, v)) = Some (length k + 8, ikey k (packed s' t) @ PutLengthPrefixedSlice [] v)"
      using ok(2) by (simp add: PutLengthPrefixedSlice_def PutVarint32_def varint_at_Encode flip: of_nat_add)
    moreover have "take (length x) (ikey x n) = x" "drop (length x) (ikey x n) = EncodeFixed64 n"
      "drop (length x + 8) (ikey x n) = []" for x n by (simp_all add: ikey_def)
    ultimately have get: "MemTable_Get m lk (val, st) = Some
        (if k = u then (case t of kTypeValue \<Rightarrow> (True, v, st) | kTypeDeletion \<Rightarrow> (True, val, NotFound [] []))
         else (False, val, st))"
      using True it(1) a(2) user lk(1) compare_eq [OF ok(4) assms(2)] ok(3) slice_at_Put [of v "[]"]
        packed_fields(2) [OF ok(1), of t]
      by (cases t) (simp_all add: MemTable_Get_def Let_def del: entry_of.simps)
    have "k = u" if "mem_lookup u s adds = Some (s', t, k, v)"
      using mem_lookup_Some(2) [OF adds(2) that] by simp
    with get a(3) show ?thesis by (cases t) auto
  next
    case False
    with it(1,2) user show ?thesis by (simp add: MemTable_Get_def)
  qed
qed

end

section \<open>Properties\<close>

text \<open>C17: the memory table answers a lookup from its history: a new table is empty, an addition with
  a larger sequence number than all before extends the history, and \<open>Get\<close> at a snapshot finds the
  latest addition for the user key that is not younger than the snapshot, with its value, or
  \<open>NotFound\<close> if it is a deletion, and reports that it knows nothing of the key otherwise. This
  holds for every user comparator that keeps its contract.\<close>

theorem memtable_refines_history:
  assumes "comparator_ok user valid lt" "mem_repr user valid m adds"
    and "s \<le> kMaxSequenceNumber" "length k + 8 < 2 ^ 32" "length v < 2 ^ 32" "valid k"
  shows "(\<exists>m0. MemTable_new user = Some m0 \<and> mem_repr user valid m0 []) \<and>
    ((\<forall>a \<in> set adds. fst a < s) \<longrightarrow>
       (\<exists>m'. MemTable_Add s t k v m = Some m' \<and> mem_repr user valid m' (adds @ [(s, t, k, v)]))) \<and>
    (\<exists>lk. LookupKey_new k s = Some lk \<and>
       MemTable_Get m lk (val, st) = Some
         (case mem_lookup k s adds of
            None \<Rightarrow> (False, val, st)
          | Some (_, kTypeValue, _, v) \<Rightarrow> (True, v, st)
          | Some (_, kTypeDeletion, _, _) \<Rightarrow> (True, val, NotFound [] [])))"
proof -
  obtain lk where lk: "LookupKey_new k s = Some lk" using LookupKey_parts [OF assms(3), of k] by blast
  show ?thesis
    using mem_repr_new [of user valid] comparator_ok.MemTable_Add_repr [OF assms(1,2), of s t k v]
      comparator_ok.MemTable_Get_repr [OF assms(1,2,6,4,3) lk, of val st] lk assms(3-6)
    by auto
qed

theorem memtable_refines_history_witness:
  "\<exists>m0 m1 lk. MemTable_new BytewiseComparator = Some m0 \<and>
     MemTable_Add 7 kTypeValue [1] [2, 3] m0 = Some m1 \<and> LookupKey_new [1] 9 = Some lk \<and>
     MemTable_Get m1 lk ([], Status_OK) = Some (True, [2, 3], Status_OK)"
proof -
  have seq: "(7 :: u64) \<le> kMaxSequenceNumber" "(9 :: u64) \<le> kMaxSequenceNumber"
    by (simp_all add: kMaxSequenceNumber_def push_bit_eq_mult)
  obtain m0 where m0: "MemTable_new BytewiseComparator = Some m0" "mem_repr BytewiseComparator (\<lambda>_. True) m0 []"
    using mem_repr_new [of BytewiseComparator "\<lambda>_. True"] by blast
  from memtable_refines_history [OF bytewise.comparator_ok_axioms m0(2) seq(1), of "[1]" "[2, 3]" kTypeValue,
      THEN conjunct2, THEN conjunct1]
  obtain m1 where m1: "MemTable_Add 7 kTypeValue [1] [2, 3] m0 = Some m1"
    "mem_repr BytewiseComparator (\<lambda>_. True) m1 [(7, kTypeValue, [1], [2, 3])]" by auto
  from memtable_refines_history [OF bytewise.comparator_ok_axioms m1(2) seq(2), of "[1]" "[]" kTypeValue "[]" Status_OK,
      THEN conjunct2, THEN conjunct2]
  obtain lk where "LookupKey_new [1] 9 = Some lk" "MemTable_Get m1 lk ([], Status_OK) = Some (True, [2, 3], Status_OK)"
    by (auto simp: mem_lookup_def Let_def)
  with m0(1) m1(1) show ?thesis by blast
qed

end
