(* ===== verification/Ldb_Env.thy ===== *)
theory Ldb_Env
  imports Ldb_Status "HOL-Library.Monad_Syntax"
begin

text \<open>
  The files of leveldb: the interfaces \<open>SequentialFile\<close> and \<open>WritableFile\<close> of
  \<open>include/leveldb/env.h\<close>, and their POSIX implementations \<open>PosixSequentialFile\<close> and
  \<open>PosixWritableFile\<close> of \<open>util/env_posix.cc\<close>.

  The system calls are parameters, the fields of a record \<open>posix_sys\<close>: each takes the state
  \<open>'k\<close> of the kernel and returns \<open>Inl errno\<close> or its result. An operation that may not
  return (the retry loops) has the result \<open>None\<close> then.
\<close>

section \<open>Interfaces\<close>

text \<open>A file object with its state \<open>'f\<close>; the virtual functions of the two classes.\<close>

record 'f writable_file =
  wf_Append :: "slice \<Rightarrow> 'f \<Rightarrow> (status \<times> 'f) option"
  wf_Flush :: "'f \<Rightarrow> (status \<times> 'f) option"

record 'f sequential_file =
  sf_Read :: "nat \<Rightarrow> 'f \<Rightarrow> (status \<times> slice \<times> 'f) option"
  sf_Skip :: "u64 \<Rightarrow> 'f \<Rightarrow> status \<times> 'f"

section \<open>POSIX files\<close>

record 'k posix_sys =
  sys_read :: "int \<Rightarrow> nat \<Rightarrow> 'k \<Rightarrow> (int + u8 list) \<times> 'k"
  sys_write :: "int \<Rightarrow> u8 list \<Rightarrow> 'k \<Rightarrow> (int + nat) \<times> 'k"
  sys_pread :: "int \<Rightarrow> nat \<Rightarrow> u64 \<Rightarrow> 'k \<Rightarrow> (int + u8 list) \<times> 'k"
  sys_lseek :: "int \<Rightarrow> u64 \<Rightarrow> 'k \<Rightarrow> (int + u64) \<times> 'k"
  sys_open :: "string \<Rightarrow> 'k \<Rightarrow> (int + int) \<times> 'k"
  sys_close :: "int \<Rightarrow> 'k \<Rightarrow> (int + unit) \<times> 'k"
  sys_fullfsync :: "int \<Rightarrow> 'k \<Rightarrow> bool \<times> 'k"
  sys_fsync :: "int \<Rightarrow> 'k \<Rightarrow> (int + unit) \<times> 'k"
  sys_strerror :: "int \<Rightarrow> string"

definition ENOENT :: int where "ENOENT = 2"
definition EINTR :: int where "EINTR = 4"

definition kWritableFileBufferSize :: nat where
  "kWritableFileBufferSize = 65536"

definition PosixError :: "'k posix_sys \<Rightarrow> string \<Rightarrow> int \<Rightarrow> status" where
  "PosixError sys context error_number =
     (if error_number = ENOENT
      then NotFound (bytes_of context) (bytes_of (sys_strerror sys error_number))
      else IOError (bytes_of context) (bytes_of (sys_strerror sys error_number)))"

subsection \<open>Sequential reading\<close>

record posix_sequential =
  ps_fd :: int
  ps_filename :: string

text \<open>On an error \<open>*result\<close> keeps the value the caller gave it, the parameter
  \<open>result\<close>.\<close>

partial_function (option) sequential_Read ::
  "'k posix_sys \<Rightarrow> posix_sequential \<Rightarrow> slice \<Rightarrow> nat \<Rightarrow> 'k \<Rightarrow> (status \<times> slice \<times> 'k) option" where
  "sequential_Read sys f result n k =
     (case sys_read sys (ps_fd f) n k of
        (Inl errno, k) \<Rightarrow>
          if errno = EINTR then sequential_Read sys f result n k
          else Some (PosixError sys (ps_filename f) errno, result, k)
      | (Inr data, k) \<Rightarrow> Some (Status_OK, data, k))"

definition sequential_Skip :: "'k posix_sys \<Rightarrow> posix_sequential \<Rightarrow> u64 \<Rightarrow> 'k \<Rightarrow> status \<times> 'k" where
  "sequential_Skip sys f n k =
     (case sys_lseek sys (ps_fd f) n k of
        (Inl errno, k) \<Rightarrow> (PosixError sys (ps_filename f) errno, k)
      | (Inr _, k) \<Rightarrow> (Status_OK, k))"

subsection \<open>Buffered writing\<close>

text \<open>The array \<open>buf_\<close> has \<open>kWritableFileBufferSize\<close> bytes, of which the first
  \<open>pos_\<close> wait to be written.\<close>

record posix_writable =
  pw_buf :: "u8 list"
  pw_pos :: nat
  pw_fd :: int
  pw_is_manifest :: bool
  pw_filename :: string
  pw_dirname :: string

text \<open>The part of a path before and behind its last separator; \<open>None\<close> is
  \<open>std::string::npos\<close>.\<close>

definition rfind_slash :: "string \<Rightarrow> nat option" where
  "rfind_slash filename =
     (if CHR ''/'' \<in> set filename
      then Some (length filename - 1 - length (takeWhile (\<lambda>c. c \<noteq> CHR ''/'') (rev filename)))
      else None)"

definition Dirname :: "string \<Rightarrow> string" where
  "Dirname filename =
     (case rfind_slash filename of None \<Rightarrow> ''.'' | Some separator_pos \<Rightarrow> take separator_pos filename)"

definition Basename :: "string \<Rightarrow> string" where
  "Basename filename =
     (case rfind_slash filename of
        None \<Rightarrow> filename
      | Some separator_pos \<Rightarrow> drop (separator_pos + 1) filename)"

definition IsManifest :: "string \<Rightarrow> bool" where
  "IsManifest filename = slice_starts_with (bytes_of (Basename filename)) (bytes_of ''MANIFEST'')"

definition PosixWritableFile :: "string \<Rightarrow> int \<Rightarrow> posix_writable" where
  "PosixWritableFile filename fd =
     \<lparr>pw_buf = replicate kWritableFileBufferSize 0, pw_pos = 0, pw_fd = fd,
      pw_is_manifest = IsManifest filename, pw_filename = filename, pw_dirname = Dirname filename\<rparr>"

partial_function (option) WriteUnbuffered ::
  "'k posix_sys \<Rightarrow> posix_writable \<Rightarrow> u8 list \<Rightarrow> 'k \<Rightarrow> (status \<times> 'k) option" where
  "WriteUnbuffered sys f data k =
     (if data = [] then Some (Status_OK, k)
      else case sys_write sys (pw_fd f) data k of
        (Inl errno, k) \<Rightarrow>
          if errno = EINTR then WriteUnbuffered sys f data k
          else Some (PosixError sys (pw_filename f) errno, k)
      | (Inr write_result, k) \<Rightarrow> WriteUnbuffered sys f (drop write_result data) k)"

definition FlushBuffer ::
  "'k posix_sys \<Rightarrow> posix_writable \<times> 'k \<Rightarrow> (status \<times> posix_writable \<times> 'k) option" where
  "FlushBuffer sys = (\<lambda>(f, k). do {
     (s, k) \<leftarrow> WriteUnbuffered sys f (take (pw_pos f) (pw_buf f)) k;
     Some (s, f\<lparr>pw_pos := 0\<rparr>, k) })"

text \<open>\<open>memcpy(pw_buf + pos, data, n)\<close>.\<close>

definition buf_copy :: "u8 list \<Rightarrow> nat \<Rightarrow> u8 list \<Rightarrow> u8 list" where
  "buf_copy buf pos data = take pos buf @ data @ drop (pos + length data) buf"

definition writable_Append ::
  "'k posix_sys \<Rightarrow> slice \<Rightarrow> posix_writable \<times> 'k \<Rightarrow> (status \<times> posix_writable \<times> 'k) option" where
  "writable_Append sys data = (\<lambda>(f, k).
     let write_size = length data;
         copy_size = min write_size (kWritableFileBufferSize - pw_pos f);
         f = f\<lparr>pw_buf := buf_copy (pw_buf f) (pw_pos f) (take copy_size data), pw_pos := pw_pos f + copy_size\<rparr>;
         write_data = drop copy_size data;
         write_size = write_size - copy_size
     in if write_size = 0 then Some (Status_OK, f, k)
        else do {
          (status, f, k) \<leftarrow> FlushBuffer sys (f, k);
          if \<not> ok status then Some (status, f, k)
          else if write_size < kWritableFileBufferSize
          then Some (Status_OK, f\<lparr>pw_buf := buf_copy (pw_buf f) 0 write_data, pw_pos := write_size\<rparr>, k)
          else do {
            (status, k) \<leftarrow> WriteUnbuffered sys f write_data k;
            Some (status, f, k) } })"

definition writable_Flush ::
  "'k posix_sys \<Rightarrow> posix_writable \<times> 'k \<Rightarrow> (status \<times> posix_writable \<times> 'k) option" where
  "writable_Flush sys fk = FlushBuffer sys fk"

definition writable_Close ::
  "'k posix_sys \<Rightarrow> posix_writable \<times> 'k \<Rightarrow> (status \<times> posix_writable \<times> 'k) option" where
  "writable_Close sys fk = do {
     (status, f, k) \<leftarrow> FlushBuffer sys fk;
     (case sys_close sys (pw_fd f) k of
        (Inl errno, k) \<Rightarrow>
          Some (if ok status then PosixError sys (pw_filename f) errno else status, f\<lparr>pw_fd := -1\<rparr>, k)
      | (Inr _, k) \<Rightarrow> Some (status, f\<lparr>pw_fd := -1\<rparr>, k)) }"

text \<open>\<open>SyncFd\<close>: the build has \<open>HAVE_FULLFSYNC\<close> and not
  \<open>HAVE_FDATASYNC\<close>; \<open>sys_fullfsync\<close> tells whether
  \<open>fcntl(fd, F_FULLFSYNC)\<close> returned 0.\<close>

definition SyncFd :: "'k posix_sys \<Rightarrow> int \<Rightarrow> string \<Rightarrow> 'k \<Rightarrow> status \<times> 'k" where
  "SyncFd sys fd fd_path k =
     (let (full, k) = sys_fullfsync sys fd k in
      if full then (Status_OK, k)
      else case sys_fsync sys fd k of
        (Inr _, k) \<Rightarrow> (Status_OK, k)
      | (Inl errno, k) \<Rightarrow> (PosixError sys fd_path errno, k))"

definition SyncDirIfManifest :: "'k posix_sys \<Rightarrow> posix_writable \<Rightarrow> 'k \<Rightarrow> status \<times> 'k" where
  "SyncDirIfManifest sys f k =
     (if \<not> pw_is_manifest f then (Status_OK, k)
      else case sys_open sys (pw_dirname f) k of
        (Inl errno, k) \<Rightarrow> (PosixError sys (pw_dirname f) errno, k)
      | (Inr fd, k) \<Rightarrow>
          let (status, k) = SyncFd sys fd (pw_dirname f) k;
              (_, k) = sys_close sys fd k
          in (status, k))"

definition writable_Sync ::
  "'k posix_sys \<Rightarrow> posix_writable \<times> 'k \<Rightarrow> (status \<times> posix_writable \<times> 'k) option" where
  "writable_Sync sys = (\<lambda>(f, k).
     let (status, k) = SyncDirIfManifest sys f k in
     if \<not> ok status then Some (status, f, k)
     else do {
       (status, f, k) \<leftarrow> FlushBuffer sys (f, k);
       if \<not> ok status then Some (status, f, k)
       else let (status, k) = SyncFd sys (pw_fd f) (pw_filename f) k in Some (status, f, k) })"

text \<open>The POSIX classes as implementations of the interfaces. The reader clears
  \<open>*result\<close> before it calls \<open>Read\<close>.\<close>

definition posix_writable_file :: "'k posix_sys \<Rightarrow> (posix_writable \<times> 'k) writable_file" where
  "posix_writable_file sys = \<lparr>wf_Append = writable_Append sys, wf_Flush = writable_Flush sys\<rparr>"

definition posix_sequential_file :: "'k posix_sys \<Rightarrow> posix_sequential \<Rightarrow> 'k sequential_file" where
  "posix_sequential_file sys f =
     \<lparr>sf_Read = sequential_Read sys f [], sf_Skip = sequential_Skip sys f\<rparr>"

section \<open>Contracts\<close>

text \<open>What a client may rely on when no error occurs: a file that is appended to, and a file
  that is read from front to back.\<close>

locale append_file =
  fixes wf :: "'f writable_file"
    and contents :: "'f \<Rightarrow> u8 list"
    and good :: "'f \<Rightarrow> bool"
  assumes append: "good f \<Longrightarrow>
      \<exists>f'. wf_Append wf data f = Some (Status_OK, f') \<and> good f' \<and> contents f' = contents f @ data"
    and flush: "good f \<Longrightarrow>
      \<exists>f'. wf_Flush wf f = Some (Status_OK, f') \<and> good f' \<and> contents f' = contents f"

locale read_file =
  fixes sf :: "'f sequential_file"
    and remaining :: "'f \<Rightarrow> u8 list"
  assumes read: "\<exists>f'. sf_Read sf n f = Some (Status_OK, take n (remaining f), f') \<and>
      remaining f' = drop n (remaining f)"

text \<open>The documented behaviour of \<open>write(2)\<close> on a file descriptor that is appended to and
  does not fail: it writes a non-empty prefix of the data, or is interrupted; a call is not
  interrupted for ever. \<open>read(2)\<close> of a regular file returns as many bytes as are asked for
  and left.\<close>

locale posix_write =
  fixes sys :: "'k posix_sys"
    and fd :: int
    and disk :: "'k \<Rightarrow> u8 list"
    and patience :: "'k \<Rightarrow> nat"
  assumes write_call: "data \<noteq> [] \<Longrightarrow>
      (\<exists>n k'. sys_write sys fd data k = (Inr n, k') \<and> 0 < n \<and> n \<le> length data \<and>
         disk k' = disk k @ take n data) \<or>
      (\<exists>k'. sys_write sys fd data k = (Inl EINTR, k') \<and> disk k' = disk k \<and> patience k' < patience k)"

locale posix_read =
  fixes sys :: "'k posix_sys"
    and f :: posix_sequential
    and rest :: "'k \<Rightarrow> u8 list"
    and patience :: "'k \<Rightarrow> nat"
  assumes read_call: "
      (\<exists>k'. sys_read sys (ps_fd f) n k = (Inr (take n (rest k)), k') \<and> rest k' = drop n (rest k)) \<or>
      (\<exists>k'. sys_read sys (ps_fd f) n k = (Inl EINTR, k') \<and> rest k' = rest k \<and> patience k' < patience k)"

subsection \<open>The POSIX writer keeps the contract\<close>

definition writable_inv :: "posix_writable \<Rightarrow> bool" where
  "writable_inv f \<longleftrightarrow> length (pw_buf f) = kWritableFileBufferSize \<and> pw_pos f \<le> kWritableFileBufferSize"

lemma length_buf_copy [simp]: "pos + length data \<le> length buf \<Longrightarrow> length (buf_copy buf pos data) = length buf"
  by (simp add: buf_copy_def)

lemma take_buf_copy [simp]:
  "pos \<le> length buf \<Longrightarrow> take (pos + length data) (buf_copy buf pos data) = take pos buf @ data"
  by (simp add: buf_copy_def)

lemma Append_fits:
  assumes "writable_inv f" "pw_pos f + length data \<le> kWritableFileBufferSize"
  shows "writable_Append sys data (f, k) =
    Some (Status_OK, f\<lparr>pw_buf := buf_copy (pw_buf f) (pw_pos f) data, pw_pos := pw_pos f + length data\<rparr>, k)"
proof -
  have m: "min (length data) (kWritableFileBufferSize - pw_pos f) = length data" using assms(2) by linarith
  show ?thesis unfolding writable_Append_def Let_def prod.case m by simp
qed

context posix_write
begin

lemma WriteUnbuffered_writes:
  assumes "pw_fd f = fd"
  shows "\<exists>k'. WriteUnbuffered sys f data k = Some (Status_OK, k') \<and> disk k' = disk k @ data"
proof (induction "(length data, patience k)" arbitrary: data k rule: wf_induct [OF wf_lex_prod [OF wf_less_than wf_less_than]])
  case 1
  show ?case
  proof (cases "data = []")
    case True
    then show ?thesis by (simp add: WriteUnbuffered.simps)
  next
    case False
    from write_call [OF this, of k] show ?thesis
    proof (elim disjE exE conjE)
      fix n k' assume w: "sys_write sys fd data k = (Inr n, k')" "0 < n" "n \<le> length data"
        and d: "disk k' = disk k @ take n data"
      from w(2,3) have "((length (drop n data), patience k'), length data, patience k) \<in> less_than <*lex*> less_than"
        by (simp only: in_lex_prod less_than_iff length_drop) linarith
      with 1 obtain k'' where "WriteUnbuffered sys f (drop n data) k' = Some (Status_OK, k'')"
        "disk k'' = disk k' @ drop n data" by blast
      with w(1) d False assms show ?thesis by (simp add: WriteUnbuffered.simps [of _ _ data])
    next
      fix k' assume w: "sys_write sys fd data k = (Inl EINTR, k')"
        and d: "disk k' = disk k" "patience k' < patience k"
      then have "((length data, patience k'), length data, patience k) \<in> less_than <*lex*> less_than" by simp
      with 1 obtain k'' where "WriteUnbuffered sys f data k' = Some (Status_OK, k'')"
        "disk k'' = disk k' @ data" by blast
      with w d False assms show ?thesis by (simp add: WriteUnbuffered.simps [of _ _ data k])
    qed
  qed
qed

definition written_data :: "posix_writable \<times> 'k \<Rightarrow> u8 list" where
  "written_data = (\<lambda>(f, k). disk k @ take (pw_pos f) (pw_buf f))"

definition usable :: "posix_writable \<times> 'k \<Rightarrow> bool" where
  "usable = (\<lambda>(f, k). writable_inv f \<and> pw_fd f = fd)"

lemma FlushBuffer_writes:
  assumes "usable (f, k)"
  shows "\<exists>k'. FlushBuffer sys (f, k) = Some (Status_OK, f\<lparr>pw_pos := 0\<rparr>, k') \<and>
    disk k' = written_data (f, k)"
  using WriteUnbuffered_writes [of f "take (pw_pos f) (pw_buf f)" k] assms
  by (auto simp: FlushBuffer_def usable_def written_data_def)

lemma Append_writes:
  assumes "usable (f, k)"
  shows "\<exists>fk. writable_Append sys data (f, k) = Some (Status_OK, fk) \<and> usable fk \<and>
    written_data fk = written_data (f, k) @ data"
proof (cases "pw_pos f + length data \<le> kWritableFileBufferSize")
  case True
  with assms show ?thesis
    by (simp add: Append_fits usable_def) (simp add: usable_def writable_inv_def written_data_def)
next
  case False
  let ?n = "kWritableFileBufferSize - pw_pos f"
  define f1 where "f1 = f\<lparr>pw_buf := buf_copy (pw_buf f) (pw_pos f) (take ?n data), pw_pos := pw_pos f + ?n\<rparr>"
  have inv: "length (pw_buf f) = kWritableFileBufferSize" "pw_pos f \<le> kWritableFileBufferSize" "pw_fd f = fd"
    using assms by (simp_all add: usable_def writable_inv_def)
  have n: "min (length data) ?n = ?n" "length (take ?n data) = ?n" "length data - ?n \<noteq> 0"
    using False inv(2) by (simp_all only: length_take; linarith)+
  have u1: "usable (f1, k)" "written_data (f1, k) = written_data (f, k) @ take ?n data"
    using inv n take_buf_copy [of "pw_pos f" "pw_buf f" "take ?n data"]
    by (simp_all add: f1_def usable_def writable_inv_def written_data_def)
  from FlushBuffer_writes [OF u1(1)] obtain k1 where k1:
    "FlushBuffer sys (f1, k) = Some (Status_OK, f1\<lparr>pw_pos := 0\<rparr>, k1)" "disk k1 = written_data (f1, k)" by blast
  show ?thesis
  proof (cases "length data - ?n < kWritableFileBufferSize")
    case True
    let ?f = "f1\<lparr>pw_buf := buf_copy (pw_buf f1) 0 (drop ?n data), pw_pos := length data - ?n\<rparr>"
    have "writable_Append sys data (f, k) = Some (Status_OK, ?f, k1)"
      using n True k1(1) by (simp add: writable_Append_def Let_def f1_def)
    moreover have "usable (?f, k1)" "written_data (?f, k1) = written_data (f, k) @ data"
      using u1 True k1(2) take_buf_copy [of 0 "pw_buf f1" "drop ?n data"]
      by (simp_all add: usable_def writable_inv_def written_data_def)
    ultimately show ?thesis by blast
  next
    case large: False
    have "pw_fd (f1\<lparr>pw_pos := 0\<rparr>) = fd" using inv by (simp add: f1_def)
    from WriteUnbuffered_writes [OF this, of "drop ?n data" k1] obtain k2 where k2:
      "WriteUnbuffered sys (f1\<lparr>pw_pos := 0\<rparr>) (drop ?n data) k1 = Some (Status_OK, k2)"
      "disk k2 = disk k1 @ drop ?n data" by blast
    have "writable_Append sys data (f, k) = Some (Status_OK, f1\<lparr>pw_pos := 0\<rparr>, k2)"
      using n large k1(1) k2(1) by (simp add: writable_Append_def Let_def f1_def)
    moreover have "usable (f1\<lparr>pw_pos := 0\<rparr>, k2)" "written_data (f1\<lparr>pw_pos := 0\<rparr>, k2) = written_data (f, k) @ data"
      using u1 k1(2) k2(2) by (simp_all add: usable_def writable_inv_def written_data_def)
    ultimately show ?thesis by blast
  qed
qed

end

sublocale posix_write \<subseteq> writer: append_file "posix_writable_file sys" written_data usable
proof
  fix fk :: "posix_writable \<times> 'k" and data
  assume fk: "usable fk"
  from fk Append_writes [of "fst fk" "snd fk" data]
  show "\<exists>f'. wf_Append (posix_writable_file sys) data fk = Some (Status_OK, f') \<and> usable f' \<and>
      written_data f' = written_data fk @ data"
    by (simp add: posix_writable_file_def)
  from fk FlushBuffer_writes [of "fst fk" "snd fk"]
  show "\<exists>f'. wf_Flush (posix_writable_file sys) fk = Some (Status_OK, f') \<and> usable f' \<and>
      written_data f' = written_data fk"
    by (cases fk) (auto simp: posix_writable_file_def writable_Flush_def usable_def writable_inv_def written_data_def)
qed

context posix_read
begin

lemma sequential_Read_reads:
  "\<exists>k'. sequential_Read sys f result n k = Some (Status_OK, take n (rest k), k') \<and> rest k' = drop n (rest k)"
proof (induction "patience k" arbitrary: k rule: less_induct)
  case less
  from read_call [of n k] show ?case
  proof (elim disjE exE conjE)
    fix k' assume "sys_read sys (ps_fd f) n k = (Inr (take n (rest k)), k')" "rest k' = drop n (rest k)"
    then show ?thesis by (simp add: sequential_Read.simps [of _ _ _ _ k])
  next
    fix k' assume k': "sys_read sys (ps_fd f) n k = (Inl EINTR, k')" "rest k' = rest k" "patience k' < patience k"
    from less [OF k'(3)] k'(1,2) show ?thesis by (simp add: sequential_Read.simps [of _ _ _ _ k])
  qed
qed

end

sublocale posix_read \<subseteq> reader: read_file "posix_sequential_file sys f" rest
  by unfold_locales (simp add: posix_sequential_file_def sequential_Read_reads)

subsection \<open>A kernel that keeps the contracts\<close>

text \<open>A kernel for one regular file: the bytes on disk, the read position and a number of
  interruptions to come. A call of \<open>write\<close> takes at most 4096 bytes at a time.\<close>

record ram_kernel =
  rk_disk :: "u8 list"
  rk_pos :: nat
  rk_interrupts :: nat

definition ram_sys :: "ram_kernel posix_sys" where
  "ram_sys =
     \<lparr>sys_read = (\<lambda>fd n k.
        if rk_interrupts k > 0 then (Inl EINTR, k\<lparr>rk_interrupts := rk_interrupts k - 1\<rparr>)
        else (Inr (take n (drop (rk_pos k) (rk_disk k))), k\<lparr>rk_pos := rk_pos k + n\<rparr>)),
      sys_write = (\<lambda>fd data k.
        if rk_interrupts k > 0 then (Inl EINTR, k\<lparr>rk_interrupts := rk_interrupts k - 1\<rparr>)
        else (Inr (min 4096 (length data)), k\<lparr>rk_disk := rk_disk k @ take 4096 data\<rparr>)),
      sys_pread = (\<lambda>fd n off k. (Inr (take n (drop (unat off) (rk_disk k))), k)),
      sys_lseek = (\<lambda>fd n k. (Inr (of_nat (rk_pos k) + n), k\<lparr>rk_pos := rk_pos k + unat n\<rparr>)),
      sys_open = (\<lambda>path k. (Inr 3, k)), sys_close = (\<lambda>fd k. (Inr (), k)),
      sys_fullfsync = (\<lambda>fd k. (True, k)), sys_fsync = (\<lambda>fd k. (Inr (), k)),
      sys_strerror = (\<lambda>e. ''error'')\<rparr>"

interpretation ram_write: posix_write ram_sys fd rk_disk rk_interrupts for fd
  by unfold_locales (auto simp: ram_sys_def min_def)

interpretation ram_read: posix_read ram_sys f "\<lambda>k. drop (rk_pos k) (rk_disk k)" rk_interrupts for f
  by unfold_locales (auto simp: ram_sys_def add.commute)

section \<open>Properties\<close>

text \<open>C36: \<open>PosixWritableFile\<close>: when \<open>write\<close> does not fail (it may be interrupted
  and may write less than it was given), \<open>Append\<close> of data of any size returns, succeeds,
  keeps the buffer's bounds, and the bytes on disk followed by the bytes in the buffer grow by
  exactly the data; after \<open>Flush\<close> all of them are on disk and the buffer is empty.\<close>

theorem PosixWritableFile_appends:
  assumes "posix_write sys (pw_fd f) disk patience" "writable_inv f"
  shows "\<exists>f' k'. writable_Append sys data (f, k) = Some (Status_OK, f', k') \<and> writable_inv f' \<and>
      disk k' @ take (pw_pos f') (pw_buf f') = disk k @ take (pw_pos f) (pw_buf f) @ data \<and>
    (\<exists>k''. writable_Flush sys (f', k') = Some (Status_OK, f'\<lparr>pw_pos := 0\<rparr>, k'') \<and>
       disk k'' = disk k @ take (pw_pos f) (pw_buf f) @ data)"
proof -
  note w = posix_write.usable_def [OF assms(1)] posix_write.written_data_def [OF assms(1)]
  from posix_write.Append_writes [OF assms(1), of f k data] assms(2) obtain f' k' where
    a: "writable_Append sys data (f, k) = Some (Status_OK, f', k')" "writable_inv f'" "pw_fd f' = pw_fd f"
      "disk k' @ take (pw_pos f') (pw_buf f') = disk k @ take (pw_pos f) (pw_buf f) @ data"
    by (auto simp: w)
  from posix_write.FlushBuffer_writes [OF assms(1), of f' k'] a show ?thesis
    by (auto simp: w writable_Flush_def)
qed

theorem PosixWritableFile_appends_witness:
  "\<exists>f' k'. writable_Append ram_sys [1, 2, 3] (PosixWritableFile ''a/MANIFEST-1'' 3, \<lparr>rk_disk = [9], rk_pos = 0, rk_interrupts = 2\<rparr>)
       = Some (Status_OK, f', k') \<and> rk_disk k' @ take (pw_pos f') (pw_buf f') = [9, 1, 2, 3]"
  using PosixWritableFile_appends [of ram_sys "PosixWritableFile ''a/MANIFEST-1'' 3" rk_disk rk_interrupts
      "[1, 2, 3]" "\<lparr>rk_disk = [9], rk_pos = 0, rk_interrupts = 2\<rparr>"]
    ram_write.posix_write_axioms
  by (auto simp: PosixWritableFile_def writable_inv_def)

end
