(* ===== verification/Ldb_Log.thy ===== *)
theory Ldb_Log
  imports Ldb_Env Ldb_Crc32c
begin

unbundle bit_operations_syntax

text \<open>
  The write-ahead log of leveldb: \<open>db/log_format.h\<close>, \<open>db/log_writer.cc\<close> and
  \<open>db/log_reader.cc\<close>. A log is a sequence of blocks of 32768 bytes; a record is cut into
  fragments that do not cross block boundaries, each with a checksum, its length and its type.

  The file objects are parameters (\<open>writable_file\<close>, \<open>sequential_file\<close>). A
  failing \<open>assert\<close> of the writer and a file operation that does not return are the
  result \<open>None\<close>. The reporter of the reader is the list of the calls it received, or
  \<open>None\<close> for a null pointer.
\<close>

section \<open>Format\<close>

datatype RecordType = kZeroType | kFullType | kFirstType | kMiddleType | kLastType

primrec type_num :: "RecordType \<Rightarrow> nat" where
  "type_num kZeroType = 0"
| "type_num kFullType = 1"
| "type_num kFirstType = 2"
| "type_num kMiddleType = 3"
| "type_num kLastType = 4"

definition kMaxRecordType :: nat where "kMaxRecordType = 4"
definition kBlockSize :: int where "kBlockSize = 32768"
definition kHeaderSize :: int where "kHeaderSize = 7"

section \<open>Writer\<close>

record 'f log_writer =
  lw_dest :: 'f
  lw_block_offset :: int
  lw_type_crc :: "u32 list"

definition InitTypeCrc :: "u32 list" where
  "InitTypeCrc = map (\<lambda>i. crc32c_Value [of_nat i]) [0..<kMaxRecordType + 1]"

definition Writer :: "'f \<Rightarrow> 'f log_writer" where
  "Writer dest = \<lparr>lw_dest = dest, lw_block_offset = 0, lw_type_crc = InitTypeCrc\<rparr>"

definition Writer_at :: "'f \<Rightarrow> u64 \<Rightarrow> 'f log_writer" where
  "Writer_at dest dest_length =
     \<lparr>lw_dest = dest, lw_block_offset = uint (dest_length mod 32768), lw_type_crc = InitTypeCrc\<rparr>"

definition EmitPhysicalRecord ::
  "'f writable_file \<Rightarrow> 'f log_writer \<Rightarrow> RecordType \<Rightarrow> slice \<Rightarrow> (status \<times> 'f log_writer) option" where
  "EmitPhysicalRecord ops w t ptr =
     (let len = length ptr in
      asserting (len \<le> 0xffff)
      (asserting (lw_block_offset w + kHeaderSize + int len \<le> kBlockSize)
      (let crc = crc32c_Extend (lw_type_crc w ! type_num t) ptr;
           crc = Mask crc;
           buf = EncodeFixed32 crc @ [of_nat (len AND 0xff), of_nat (drop_bit 8 len), of_nat (type_num t)]
       in do {
         (s, d) \<leftarrow> wf_Append ops buf (lw_dest w);
         (s, d) \<leftarrow> (if ok s then do {
                      (s, d) \<leftarrow> wf_Append ops ptr d;
                      if ok s then wf_Flush ops d else Some (s, d) }
                    else Some (s, d));
         Some (s, w\<lparr>lw_dest := d, lw_block_offset := lw_block_offset w + (kHeaderSize + int len)\<rparr>) })))"

text \<open>The first part of the loop body of \<open>AddRecord\<close>: switch to a new block when the
  header would not fit. The status of the trailer's \<open>Append\<close> is dropped.\<close>

definition switch_block :: "'f writable_file \<Rightarrow> 'f log_writer \<Rightarrow> 'f log_writer option" where
  "switch_block ops w =
     (let leftover = kBlockSize - lw_block_offset w in
      asserting (leftover \<ge> 0)
      (if leftover < kHeaderSize then
         (if leftover > 0 then do {
            (_, d) \<leftarrow> wf_Append ops (take (nat leftover) [0, 0, 0, 0, 0, 0]) (lw_dest w);
            Some (w\<lparr>lw_dest := d, lw_block_offset := 0\<rparr>) }
          else Some (w\<lparr>lw_block_offset := 0\<rparr>))
       else Some w))"

definition fragment_type :: "bool \<Rightarrow> bool \<Rightarrow> RecordType" where
  "fragment_type begn end =
     (if begn \<and> end then kFullType else if begn then kFirstType else if end then kLastType
      else kMiddleType)"

lemma switch_block_offset:
  "switch_block ops w = Some w' \<Longrightarrow>
     lw_block_offset w' = (if kBlockSize - lw_block_offset w < kHeaderSize then 0 else lw_block_offset w) \<and>
     lw_block_offset w \<le> kBlockSize"
  by (auto simp: switch_block_def asserting_def Let_def bind_eq_Some_conv split: if_splits)

lemma EmitPhysicalRecord_offset:
  "EmitPhysicalRecord ops w t ptr = Some (s, w') \<Longrightarrow>
     lw_block_offset w' = lw_block_offset w + (kHeaderSize + int (length ptr))"
  by (auto simp: EmitPhysicalRecord_def asserting_def Let_def bind_eq_Some_conv split: if_splits)

text \<open>The loop of \<open>AddRecord\<close>. It ends for every file: an iteration that emits nothing of
  the record fills the block, and the next one starts a new block.\<close>

function add_loop ::
  "'f writable_file \<Rightarrow> 'f log_writer \<Rightarrow> slice \<Rightarrow> bool \<Rightarrow> (status \<times> 'f log_writer) option" where
  "add_loop ops w ptr begn =
     (case switch_block ops w of
        None \<Rightarrow> None
      | Some w1 \<Rightarrow>
          if kBlockSize - lw_block_offset w1 - kHeaderSize \<ge> 0 then
            let avail = nat (kBlockSize - lw_block_offset w1 - kHeaderSize);
                left = length ptr;
                fragment_length = (if left < avail then left else avail);
                end = (left = fragment_length)
            in (case EmitPhysicalRecord ops w1 (fragment_type begn end) (take fragment_length ptr) of
                  None \<Rightarrow> None
                | Some (s, w2) \<Rightarrow>
                    if ok s \<and> left - fragment_length > 0
                    then add_loop ops w2 (drop fragment_length ptr) False
                    else Some (s, w2))
          else None)"
  by pat_completeness auto
termination
  by (relation "measure (\<lambda>(ops, w, ptr, begn).
        2 * length ptr + (if lw_block_offset w = kBlockSize - kHeaderSize then 1 else 0))")
    (auto dest!: switch_block_offset EmitPhysicalRecord_offset
      simp: kBlockSize_def kHeaderSize_def split: if_splits)

declare add_loop.simps [simp del]

definition AddRecord :: "'f writable_file \<Rightarrow> 'f log_writer \<Rightarrow> slice \<Rightarrow> (status \<times> 'f log_writer) option" where
  "AddRecord ops w data = add_loop ops w data True"

section \<open>Reader\<close>

text \<open>The values \<open>ReadPhysicalRecord\<close> returns: a record type, which is the type byte of
  the file as a signed \<open>char\<close> converted to \<open>unsigned int\<close>, or one of two more.\<close>

definition kEof :: u32 where "kEof = of_nat kMaxRecordType + 1"
definition kBadRecord :: u32 where "kBadRecord = of_nat kMaxRecordType + 2"

record 'f log_reader =
  lr_file :: 'f
  lr_reporter :: "(u64 \<times> status) list option"
  lr_checksum :: bool
  lr_buffer :: slice
  lr_eof :: bool
  lr_last_record_offset :: u64
  lr_end_of_buffer_offset :: u64
  lr_initial_offset :: u64
  lr_resyncing :: bool

definition Reader :: "'f \<Rightarrow> (u64 \<times> status) list option \<Rightarrow> bool \<Rightarrow> u64 \<Rightarrow> 'f log_reader" where
  "Reader file reporter checksum initial_offset =
     \<lparr>lr_file = file, lr_reporter = reporter, lr_checksum = checksum, lr_buffer = [], lr_eof = False,
      lr_last_record_offset = 0, lr_end_of_buffer_offset = 0, lr_initial_offset = initial_offset,
      lr_resyncing = initial_offset > 0\<rparr>"

abbreviation buffer_size :: "'f log_reader \<Rightarrow> u64" where
  "buffer_size r \<equiv> of_nat (length (lr_buffer r))"

definition ReportDrop :: "'f log_reader \<Rightarrow> u64 \<Rightarrow> status \<Rightarrow> 'f log_reader" where
  "ReportDrop r bytes reason =
     (case lr_reporter r of
        Some calls \<Rightarrow>
          if lr_end_of_buffer_offset r - buffer_size r - bytes \<ge> lr_initial_offset r
          then r\<lparr>lr_reporter := Some (calls @ [(bytes, reason)])\<rparr> else r
      | None \<Rightarrow> r)"

definition ReportCorruption :: "'f log_reader \<Rightarrow> u64 \<Rightarrow> string \<Rightarrow> 'f log_reader" where
  "ReportCorruption r bytes reason = ReportDrop r bytes (Corruption (bytes_of reason) [])"

definition SkipToInitialBlock :: "'f sequential_file \<Rightarrow> 'f log_reader \<Rightarrow> bool \<times> 'f log_reader" where
  "SkipToInitialBlock sf r =
     (let offset_in_block = lr_initial_offset r mod 32768;
          block_start_location = lr_initial_offset r - offset_in_block;
          block_start_location =
            (if offset_in_block > 32768 - 6 then block_start_location + 32768 else block_start_location);
          r = r\<lparr>lr_end_of_buffer_offset := block_start_location\<rparr>
      in if block_start_location > 0 then
           let (skip_status, file) = sf_Skip sf block_start_location (lr_file r);
               r = r\<lparr>lr_file := file\<rparr>
           in if \<not> ok skip_status then (False, ReportDrop r block_start_location skip_status)
              else (True, r)
         else (True, r))"

text \<open>The part of \<open>ReadPhysicalRecord\<close> behind the refill: parse the record at the front of
  the buffer, which holds at least a header. The result is the value returned and \<open>*result\<close>,
  which some branches leave as it was (the parameter \<open>result\<close>).\<close>

definition parse_physical_record :: "'f log_reader \<Rightarrow> slice \<Rightarrow> u32 \<times> slice \<times> 'f log_reader" where
  "parse_physical_record r result =
     (let header = lr_buffer r;
          a = ucast (header ! 4) AND 0xff :: u32;
          b = ucast (header ! 5) AND 0xff :: u32;
          type = scast (header ! 6) :: u32;
          len = a OR push_bit 8 b
      in if 7 + unat len > length header then
           let drop_size = of_nat (length header);
               r = r\<lparr>lr_buffer := []\<rparr>
           in if \<not> lr_eof r then (kBadRecord, result, ReportCorruption r drop_size ''bad record length'')
              else (kEof, result, r)
         else if type = 0 \<and> len = 0 then (kBadRecord, result, r\<lparr>lr_buffer := []\<rparr>)
         else if lr_checksum r \<and>
           (let expected_crc = (case DecodeFixed32 header of Some c \<Rightarrow> Unmask c | None \<Rightarrow> 0);
                actual_crc = crc32c_Value (take (1 + unat len) (drop 6 header))
            in actual_crc \<noteq> expected_crc) then
           let drop_size = of_nat (length header);
               r = r\<lparr>lr_buffer := []\<rparr>
           in (kBadRecord, result, ReportCorruption r drop_size ''checksum mismatch'')
         else
           let r = r\<lparr>lr_buffer := slice_remove_prefix header (7 + unat len)\<rparr>
           in if lr_end_of_buffer_offset r - buffer_size r - 7 - ucast len < lr_initial_offset r
              then (kBadRecord, [], r)
              else (type, take (unat len) (drop 7 header), r))"

text \<open>The loop of \<open>ReadPhysicalRecord\<close>: it goes round at most once, after a refill.\<close>

function ReadPhysicalRecord ::
  "'f sequential_file \<Rightarrow> 'f log_reader \<Rightarrow> slice \<Rightarrow> (u32 \<times> slice \<times> 'f log_reader) option" where
  "ReadPhysicalRecord sf r result =
     (if length (lr_buffer r) < 7 then
        if \<not> lr_eof r then
          (case sf_Read sf 32768 (lr_file r) of
             None \<Rightarrow> None
           | Some (status, buffer, file) \<Rightarrow>
               let r' = r\<lparr>lr_buffer := buffer, lr_file := file,
                         lr_end_of_buffer_offset := lr_end_of_buffer_offset r + of_nat (length buffer)\<rparr>
               in if \<not> ok status then
                    Some (kEof, result, (ReportDrop (r'\<lparr>lr_buffer := []\<rparr>) 32768 status)\<lparr>lr_eof := True\<rparr>)
                  else if length buffer < 32768 then ReadPhysicalRecord sf (r'\<lparr>lr_eof := True\<rparr>) result
                  else ReadPhysicalRecord sf r' result)
        else Some (kEof, result, r\<lparr>lr_buffer := []\<rparr>)
      else Some (parse_physical_record r result))"
  by pat_completeness auto
termination
  by (relation "measure (\<lambda>(sf, r, result).
      if length (lr_buffer r) < 7 then if lr_eof r then 1 else 2 else 0)") auto

declare ReadPhysicalRecord.simps [simp del]

text \<open>The loop of \<open>ReadRecord\<close>. Its state is the reader, \<open>*record\<close>,
  \<open>*scratch\<close>, \<open>in_fragmented_record\<close>, \<open>prospective_record_offset\<close> and
  \<open>fragment\<close>. \<open>handle_record\<close> is the body behind the call of
  \<open>ReadPhysicalRecord\<close>: \<open>Inl\<close> goes round with the new values of the reader,
  \<open>*scratch\<close>, \<open>in_fragmented_record\<close> and \<open>prospective_record_offset\<close>;
  \<open>Inr\<close> returns, with \<open>*record\<close>, \<open>*scratch\<close> and the reader.\<close>

definition handle_record ::
  "u32 \<Rightarrow> slice \<Rightarrow> 'f log_reader \<Rightarrow> slice \<Rightarrow> u8 list \<Rightarrow> bool \<Rightarrow> u64 \<Rightarrow>
     ('f log_reader \<times> u8 list \<times> bool \<times> u64) + (bool \<times> slice \<times> u8 list \<times> 'f log_reader)" where
  "handle_record record_type fragment r record scratch in_frag prospective =
     (let physical = lr_end_of_buffer_offset r - buffer_size r - 7 - of_nat (length fragment)
      in if lr_resyncing r \<and> record_type = 3 then Inl (r, scratch, in_frag, prospective)
         else if lr_resyncing r \<and> record_type = 4
         then Inl (r\<lparr>lr_resyncing := False\<rparr>, scratch, in_frag, prospective)
         else
           let r = r\<lparr>lr_resyncing := False\<rparr> in
           if record_type = 1 then
             let r = (if in_frag \<and> scratch \<noteq> []
                      then ReportCorruption r (of_nat (length scratch)) ''partial record without end(1)''
                      else r)
             in Inr (True, fragment, [], r\<lparr>lr_last_record_offset := physical\<rparr>)
           else if record_type = 2 then
             let r = (if in_frag \<and> scratch \<noteq> []
                      then ReportCorruption r (of_nat (length scratch)) ''partial record without end(2)''
                      else r)
             in Inl (r, fragment, True, physical)
           else if record_type = 3 then
             if \<not> in_frag
             then Inl (ReportCorruption r (of_nat (length fragment))
                    ''missing start of fragmented record(1)'', scratch, in_frag, prospective)
             else Inl (r, scratch @ fragment, in_frag, prospective)
           else if record_type = 4 then
             if \<not> in_frag
             then Inl (ReportCorruption r (of_nat (length fragment))
                    ''missing start of fragmented record(2)'', scratch, in_frag, prospective)
             else Inr (True, scratch @ fragment, scratch @ fragment, r\<lparr>lr_last_record_offset := prospective\<rparr>)
           else if record_type = kEof then
             Inr (False, record, if in_frag then [] else scratch, r)
           else if record_type = kBadRecord then
             if in_frag
             then Inl (ReportCorruption r (of_nat (length scratch)) ''error in middle of record'',
                    [], False, prospective)
             else Inl (r, scratch, in_frag, prospective)
           else
             Inl (ReportCorruption r
                    (of_nat (length fragment + (if in_frag then length scratch else 0)))
                    (''unknown record type '' @ show_nat (unat record_type)), [], False, prospective))"

text \<open>A file that never ends can keep the loop going for ever.\<close>

partial_function (option) read_loop ::
  "'f sequential_file \<Rightarrow> 'f log_reader \<Rightarrow> slice \<Rightarrow> u8 list \<Rightarrow> bool \<Rightarrow> u64 \<Rightarrow> slice \<Rightarrow>
     (bool \<times> slice \<times> u8 list \<times> 'f log_reader) option" where
  "read_loop sf r record scratch in_frag prospective fragment =
     (case ReadPhysicalRecord sf r fragment of
        None \<Rightarrow> None
      | Some (record_type, fragment, r) \<Rightarrow>
          (case handle_record record_type fragment r record scratch in_frag prospective of
             Inl (r, scratch, in_frag, prospective) \<Rightarrow>
               read_loop sf r record scratch in_frag prospective fragment
           | Inr res \<Rightarrow> Some res))"

definition ReadRecord ::
  "'f sequential_file \<Rightarrow> 'f log_reader \<Rightarrow> slice \<Rightarrow> u8 list \<Rightarrow>
     (bool \<times> slice \<times> u8 list \<times> 'f log_reader) option" where
  "ReadRecord sf r record scratch =
     (if lr_last_record_offset r < lr_initial_offset r then
        case SkipToInitialBlock sf r of
          (False, r) \<Rightarrow> Some (False, record, scratch, r)
        | (True, r) \<Rightarrow> read_loop sf r [] [] False 0 []
      else read_loop sf r [] [] False 0 [])"

definition LastRecordOffset :: "'f log_reader \<Rightarrow> u64" where
  "LastRecordOffset r = lr_last_record_offset r"

end
