(* ===== verification/Ldb_Log_Correct.thy ===== *)
theory Ldb_Log_Correct
  imports Ldb_Log
begin

unbundle bit_operations_syntax

text \<open>
  The log format as a specification, and the proofs that the writer produces it on every file
  that keeps the contract \<open>append_file\<close>, that the reader parses it on every file that keeps
  \<open>read_file\<close>, and what the reader makes of a log that was cut off at any byte.
\<close>

section \<open>The format\<close>

definition frag_bytes :: "RecordType \<Rightarrow> slice \<Rightarrow> u8 list" where
  "frag_bytes t p =
     EncodeFixed32 (Mask (crc32c 0 (of_nat (type_num t) # p))) @
     [of_nat (length p mod 256), of_nat (length p div 256), of_nat (type_num t)] @ p"

text \<open>The bytes left in the current block: a trailer that is too short for a header is filled
  with zeros and the next block begins.\<close>

definition trailer :: "nat \<Rightarrow> u8 list" where
  "trailer a = (if a < 7 then replicate a 0 else [])"

definition room :: "nat \<Rightarrow> nat" where
  "room a = (if a < 7 then 32768 else a)"

text \<open>The layout of a record in a block with \<open>a\<close> bytes left, and the bytes left then.\<close>

function layout :: "nat \<Rightarrow> bool \<Rightarrow> slice \<Rightarrow> u8 list \<times> nat" where
  "layout a begn data =
     (let n = room a - 7;
          out = trailer a @ frag_bytes (fragment_type begn (drop n data = [])) (take n data);
          a' = room a - 7 - length (take n data)
      in if drop n data = [] then (out, a')
         else case layout a' False (drop n data) of (rest, b) \<Rightarrow> (out @ rest, b))"
  by pat_completeness auto
termination
  by (relation "measure (\<lambda>(a, begn, data). 2 * length data + (if a = 7 then 1 else 0))")
    (auto simp: room_def split: if_splits)

declare layout.simps [simp del]

fun log_layout :: "nat \<Rightarrow> slice list \<Rightarrow> u8 list \<times> nat" where
  "log_layout a [] = ([], a)"
| "log_layout a (d # ds) =
     (case layout a True d of (out, a') \<Rightarrow> (case log_layout a' ds of (rest, b) \<Rightarrow> (out @ rest, b)))"

lemma length_frag_bytes [simp]: "length (frag_bytes t p) = 7 + length p"
  by (simp add: frag_bytes_def)

lemma length_trailer: "length (trailer a) = (if a < 7 then a else 0)"
  by (simp add: trailer_def)

lemma room_bounds: "a \<le> 32768 \<Longrightarrow> 7 \<le> room a \<and> room a \<le> 32768"
  by (simp add: room_def)

lemma layout_room: "a \<le> 32768 \<Longrightarrow> snd (layout a begn data) \<le> 32768"
proof (induction a begn data rule: layout.induct)
  case (1 a begn data)
  have r: "room a - 7 - length (take (room a - 7) data) \<le> 32768"
    using room_bounds [OF 1(2)] by linarith
  show ?case
  proof (cases "drop (room a - 7) data = []")
    case True
    then show ?thesis using r by (simp add: layout.simps [of a] Let_def)
  next
    case False
    with 1(1) [OF refl refl refl False r] show ?thesis
      by (auto simp: layout.simps [of a] Let_def case_prod_beta)
  qed
qed

section \<open>The writer\<close>

text \<open>The invariant of the writer between two calls, and the bytes left in its block.\<close>

definition writer_inv :: "'f log_writer \<Rightarrow> bool" where
  "writer_inv w \<longleftrightarrow> 0 \<le> lw_block_offset w \<and> lw_block_offset w \<le> kBlockSize \<and> lw_type_crc w = InitTypeCrc"

definition writer_room :: "'f log_writer \<Rightarrow> nat" where
  "writer_room w = nat (kBlockSize - lw_block_offset w)"

lemma type_crc: "crc32c_Extend (InitTypeCrc ! type_num t) p = crc32c 0 (of_nat (type_num t) # p)"
proof -
  have "InitTypeCrc ! type_num t = crc32c 0 [of_nat (type_num t)]"
    by (cases t) (simp_all add: InitTypeCrc_def kMaxRecordType_def crc32c_Value_def crc32c_Extend_eq
        del: upt_Suc)
  then show ?thesis
    using crc32c_append [of 0 "[of_nat (type_num t)]" p] by (simp add: crc32c_Extend_eq)
qed

lemma nat_and_255: "(n :: nat) AND 255 = n mod 256"
proof -
  have "(255 :: nat) = mask 8" by (simp add: mask_eq_exp_minus_1)
  then show ?thesis by (simp only: take_bit_eq_mask [symmetric]) (simp add: take_bit_eq_mod)
qed

context append_file
begin

lemma EmitPhysicalRecord_writes:
  assumes "good (lw_dest w)" "writer_inv w" "7 + length p \<le> writer_room w"
  shows "\<exists>w'. EmitPhysicalRecord wf w t p = Some (Status_OK, w') \<and> good (lw_dest w') \<and> writer_inv w' \<and>
    contents (lw_dest w') = contents (lw_dest w) @ frag_bytes t p \<and>
    writer_room w' = writer_room w - 7 - length p"
proof -
  let ?buf = "EncodeFixed32 (Mask (crc32c 0 (of_nat (type_num t) # p))) @
     [of_nat (length p mod 256), of_nat (length p div 256), of_nat (type_num t)]"
  have fits: "lw_block_offset w + 7 + int (length p) \<le> 32768" "length p \<le> 65535"
    using assms(2,3) by (auto simp: writer_room_def writer_inv_def kBlockSize_def)
  from append [OF assms(1), of ?buf] obtain f1 where f1:
    "wf_Append wf ?buf (lw_dest w) = Some (Status_OK, f1)" "good f1" "contents f1 = contents (lw_dest w) @ ?buf" by blast
  from append [OF f1(2), of p] obtain f2 where f2:
    "wf_Append wf p f1 = Some (Status_OK, f2)" "good f2" "contents f2 = contents f1 @ p" by blast
  from flush [OF f2(2)] obtain f3 where f3:
    "wf_Flush wf f2 = Some (Status_OK, f3)" "good f3" "contents f3 = contents f2" by blast
  define w' where "w' = w\<lparr>lw_dest := f3, lw_block_offset := lw_block_offset w + (kHeaderSize + int (length p))\<rparr>"
  have buf: "EncodeFixed32 (Mask (crc32c_Extend (lw_type_crc w ! type_num t) p)) @
      [of_nat (length p AND 0xff), of_nat (drop_bit 8 (length p)), of_nat (type_num t)] = ?buf"
    using assms(2) by (simp add: writer_inv_def type_crc nat_and_255 drop_bit_eq_div)
  have "EmitPhysicalRecord wf w t p = Some (Status_OK, w')"
    unfolding EmitPhysicalRecord_def Let_def buf
    using fits f1(1) f2(1) f3(1)
    by (simp add: asserting_def kHeaderSize_def kBlockSize_def w'_def)
  moreover have "writer_inv w'" "writer_room w' = writer_room w - 7 - length p"
    using assms(2) fits
    by (auto simp: w'_def writer_inv_def writer_room_def kHeaderSize_def kBlockSize_def)
  moreover have "contents (lw_dest w') = contents (lw_dest w) @ frag_bytes t p"
    using f1(3) f2(3) f3(3) by (simp add: w'_def frag_bytes_def)
  ultimately show ?thesis using f3(2) by (auto simp: w'_def)
qed

lemma switch_block_writes:
  assumes "good (lw_dest w)" "writer_inv w"
  shows "\<exists>w'. switch_block wf w = Some w' \<and> good (lw_dest w') \<and> writer_inv w' \<and>
    contents (lw_dest w') = contents (lw_dest w) @ trailer (writer_room w) \<and>
    writer_room w' = room (writer_room w)"
proof -
  define a where "a = writer_room w"
  have left: "kBlockSize - lw_block_offset w = int a" "a \<le> 32768"
    using assms(2) by (auto simp: a_def writer_room_def writer_inv_def kBlockSize_def)
  have zeros: "take a [0, 0, 0, 0, 0, 0] = replicate a (0 :: u8)" if "a < 7"
  proof -
    have "[0, 0, 0, 0, 0, 0] = replicate 6 (0 :: u8)" by (simp add: numeral_eq_Suc)
    with that show ?thesis by (simp add: min_def)
  qed
  consider "7 \<le> a" | "0 < a" "a < 7" | "a = 0" by linarith
  then show ?thesis
  proof cases
    case 1
    then have "switch_block wf w = Some w"
      by (simp add: switch_block_def Let_def left asserting_def kHeaderSize_def)
    with 1 assms show ?thesis by (simp add: trailer_def room_def flip: a_def)
  next
    case 2
    from append [OF assms(1), of "trailer a"] obtain f where f:
      "wf_Append wf (trailer a) (lw_dest w) = Some (Status_OK, f)" "good f"
      "contents f = contents (lw_dest w) @ trailer a" by blast
    let ?w = "w\<lparr>lw_dest := f, lw_block_offset := 0\<rparr>"
    have "switch_block wf w = Some ?w"
      using 2 f(1) zeros by (simp add: switch_block_def Let_def left asserting_def kHeaderSize_def trailer_def)
    moreover have "writer_inv ?w" "writer_room ?w = room a"
      using assms(2) 2 by (simp_all add: writer_inv_def writer_room_def kBlockSize_def room_def)
    ultimately show ?thesis using f by (simp flip: a_def)
  next
    case 3
    let ?w = "w\<lparr>lw_block_offset := 0\<rparr>"
    have "switch_block wf w = Some ?w"
      using 3 by (simp add: switch_block_def Let_def left asserting_def kHeaderSize_def)
    moreover have "writer_inv ?w" "writer_room ?w = room a"
      using assms(2) 3 by (simp_all add: writer_inv_def writer_room_def kBlockSize_def room_def)
    ultimately show ?thesis using assms(1) 3 by (simp add: trailer_def flip: a_def)
  qed
qed

lemma add_loop_writes:
  assumes "good (lw_dest w)" "writer_inv w"
  shows "\<exists>w'. add_loop wf w data begn = Some (Status_OK, w') \<and> good (lw_dest w') \<and> writer_inv w' \<and>
    contents (lw_dest w') = contents (lw_dest w) @ fst (layout (writer_room w) begn data) \<and>
    writer_room w' = snd (layout (writer_room w) begn data)"
  using assms
proof (induction "writer_room w" begn data arbitrary: w rule: layout.induct)
  case (1 begn data w)
  define n where "n = room (writer_room w) - 7"
  from switch_block_writes [OF 1(2,3)] obtain w1 where w1:
    "switch_block wf w = Some w1" "good (lw_dest w1)" "writer_inv w1"
    "contents (lw_dest w1) = contents (lw_dest w) @ trailer (writer_room w)"
    "writer_room w1 = room (writer_room w)" by blast
  have "writer_room w \<le> 32768" using 1(3) by (auto simp: writer_room_def writer_inv_def kBlockSize_def)
  from room_bounds [OF this] have fits: "7 + length (take n data) \<le> writer_room w1"
    unfolding w1(5) n_def length_take by linarith
  have room1: "0 \<le> kBlockSize - lw_block_offset w1 - kHeaderSize"
    "nat (kBlockSize - lw_block_offset w1 - kHeaderSize) = n"
    using fits w1(3,5) by (auto simp: writer_room_def writer_inv_def kHeaderSize_def kBlockSize_def n_def)
  have frag: "(if length data < n then length data else n) = length (take n data)"
    "length data = length (take n data) \<longleftrightarrow> drop n data = []"
    "0 < length data - length (take n data) \<longleftrightarrow> drop n data \<noteq> []"
    "take (length (take n data)) data = take n data"
    "drop (length (take n data)) data = drop n data"
    by (auto simp: min_def)
  let ?t = "fragment_type begn (drop n data = [])"
  from EmitPhysicalRecord_writes [OF w1(2,3) fits, of ?t] obtain w2 where w2:
    "EmitPhysicalRecord wf w1 ?t (take n data) = Some (Status_OK, w2)" "good (lw_dest w2)" "writer_inv w2"
    "contents (lw_dest w2) = contents (lw_dest w1) @ frag_bytes ?t (take n data)"
    "writer_room w2 = writer_room w1 - 7 - length (take n data)" by blast
  have loop: "add_loop wf w data begn =
      (if drop n data \<noteq> [] then add_loop wf w2 (drop n data) False else Some (Status_OK, w2))"
    unfolding add_loop.simps [of wf w] w1(1) option.case Let_def room1(2) frag w2(1) prod.case
    using room1(1) by simp
  show ?case
  proof (cases "drop n data = []")
    case True
    then show ?thesis
      using w1(4,5) w2 loop by (simp add: layout.simps [of "writer_room w"] Let_def flip: n_def)
  next
    case False
    have "writer_room w2 = room (writer_room w) - 7 - length (take n data)" using w2(5) w1(5) by simp
    from 1(1) [OF n_def refl this _ w2(2,3)] False obtain w' where
      "add_loop wf w2 (drop n data) False = Some (Status_OK, w')" "good (lw_dest w')" "writer_inv w'"
      "contents (lw_dest w') = contents (lw_dest w2) @ fst (layout (writer_room w2) False (drop n data))"
      "writer_room w' = snd (layout (writer_room w2) False (drop n data))" by auto
    with False w1(4,5) w2(4,5) loop show ?thesis
      by (simp add: layout.simps [of "writer_room w"] Let_def case_prod_beta flip: n_def)
  qed
qed

lemma AddRecord_writes:
  assumes "good (lw_dest w)" "writer_inv w"
  shows "\<exists>w'. AddRecord wf w data = Some (Status_OK, w') \<and> good (lw_dest w') \<and> writer_inv w' \<and>
    contents (lw_dest w') = contents (lw_dest w) @ fst (layout (writer_room w) True data) \<and>
    writer_room w' = snd (layout (writer_room w) True data)"
  unfolding AddRecord_def by (rule add_loop_writes [OF assms])

end

section \<open>The reader\<close>

text \<open>\<open>same r r'\<close>: nothing was reported in between, and the options are the same.\<close>

definition same :: "'f log_reader \<Rightarrow> 'f log_reader \<Rightarrow> bool" where
  "same r r' \<longleftrightarrow> lr_reporter r' = lr_reporter r \<and> lr_checksum r' = lr_checksum r"

lemma same_trans [trans]: "same r r' \<Longrightarrow> same r' r'' \<Longrightarrow> same r r''"
  by (simp add: same_def)

lemma header_length: "n < 65536 \<Longrightarrow>
    unat (((ucast (of_nat (n mod 256) :: u8) AND 0xff) OR push_bit 8 (ucast (of_nat (n div 256) :: u8) AND 0xff)) :: u32) = n"
proof -
  assume n: "n < 65536"
  have byte: "(ucast (of_nat m :: u8) AND 0xff :: u32) = of_nat m" if "m < 256" for m
  proof -
    have "ucast (of_nat m :: u8) = (of_nat m :: u32)"
      using that by (simp only: ucast_of_unat unat_of_nat_u8)
    moreover have "take_bit 8 (of_nat m :: u32) = of_nat (take_bit 8 m)" by (rule of_nat_take_bit [symmetric])
    moreover have "take_bit 8 m = m" using that by (simp add: take_bit_nat_eq_self)
    ultimately show ?thesis by (simp only: and_ff)
  qed
  have "n div 256 < 256" "n mod 256 < 2 ^ 8" using n by auto
  then have "((ucast (of_nat (n mod 256) :: u8) AND 0xff) OR push_bit 8 (ucast (of_nat (n div 256) :: u8) AND 0xff)) =
      (of_nat (n mod 256 + n div 256 * 2 ^ 8) :: u32)"
    using of_nat_or_push_bit [of "n mod 256" 8 "n div 256", where 'a = 32] by (simp only: byte)
  also have "n mod 256 + n div 256 * 2 ^ 8 = n" by simp
  finally show ?thesis using n by simp
qed

lemma scast_type: "scast (of_nat (type_num t) :: u8) = (of_nat (type_num t) :: u32)"
  by (cases t) simp_all

lemma frag_header:
  "frag_bytes t p ! 4 = of_nat (length p mod 256)" "frag_bytes t p ! 5 = of_nat (length p div 256)"
  "frag_bytes t p ! 6 = of_nat (type_num t)" "drop 7 (frag_bytes t p) = p"
  "drop 6 (frag_bytes t p) = of_nat (type_num t) # p"
  "DecodeFixed32 (frag_bytes t p @ D) = Some (Mask (crc32c 0 (of_nat (type_num t) # p)))"
  by (simp_all add: frag_bytes_def nth_append)

context read_file
begin

text \<open>\<open>view r a D\<close>: the reader has \<open>D\<close> ahead of it, of which the first \<open>a\<close>
  bytes belong to the current block. It reads from the start of the file.\<close>

definition view :: "'f log_reader \<Rightarrow> nat \<Rightarrow> u8 list \<Rightarrow> bool" where
  "view r a D \<longleftrightarrow> lr_buffer r = take a D \<and> remaining (lr_file r) = drop a D \<and>
     (lr_eof r \<longleftrightarrow> length D < a) \<and> lr_initial_offset r = 0 \<and> \<not> lr_resyncing r"

lemma view_update [simp]:
  "view r a D \<Longrightarrow> view (r\<lparr>lr_resyncing := False\<rparr>) a D"
  "view (r\<lparr>lr_last_record_offset := x\<rparr>) a D = view r a D"
  by (auto simp: view_def)

lemma parse_fragment:
  assumes "view r a (frag_bytes t p @ D)" "7 + length p \<le> a" "a \<le> 32768" "t \<noteq> kZeroType"
  shows "\<exists>r'. ReadPhysicalRecord sf r result = Some (of_nat (type_num t), p, r') \<and>
    view r' (a - 7 - length p) D \<and> same r r'"
proof -
  define rest where "rest = take (a - 7 - length p) D"
  have buf: "lr_buffer r = frag_bytes t p @ rest"
    using assms(1,2) by (simp add: view_def rest_def)
  have len: "unat (((ucast (frag_bytes t p ! 4) AND 0xff) OR push_bit 8 (ucast (frag_bytes t p ! 5) AND 0xff)) :: u32) = length p"
    unfolding frag_header using assms(2,3) by (intro header_length) simp
  define l :: u32 where "l = (ucast (frag_bytes t p ! 4) AND 0xff) OR push_bit 8 (ucast (frag_bytes t p ! 5) AND 0xff)"
  have l: "unat l = length p" unfolding l_def by (rule len)
  have nth: "(frag_bytes t p @ rest) ! 4 = frag_bytes t p ! 4" "(frag_bytes t p @ rest) ! 5 = frag_bytes t p ! 5"
    "(frag_bytes t p @ rest) ! 6 = of_nat (type_num t)"
    by (simp_all add: nth_append frag_header)
  have parts: "take (1 + length p) (drop 6 (frag_bytes t p @ rest)) = of_nat (type_num t) # p"
    "take (length p) (drop 7 (frag_bytes t p @ rest)) = p"
    by (simp_all add: frag_header)
  have type: "(of_nat (type_num t) :: u32) \<noteq> 0" using assms(4) by (cases t) simp_all
  have crc: "crc32c_Value (of_nat (type_num t) # p) = Unmask (Mask (crc32c 0 (of_nat (type_num t) # p)))"
    using Unmask_Mask_inverse by (simp add: crc32c_Value_def crc32c_Extend_eq)
  have "parse_physical_record r result = (of_nat (type_num t), p, r\<lparr>lr_buffer := rest\<rparr>)"
    unfolding parse_physical_record_def Let_def buf nth l_def [symmetric] l scast_type frag_header(6)
      option.case parts
    using type assms(1) crc by (simp add: slice_remove_prefix_def view_def)
  then have "ReadPhysicalRecord sf r result = Some (of_nat (type_num t), p, r\<lparr>lr_buffer := rest\<rparr>)"
    by (simp add: ReadPhysicalRecord.simps [of sf r] buf)
  moreover have "view (r\<lparr>lr_buffer := rest\<rparr>) (a - 7 - length p) D"
    using assms(1,2) by (auto simp: view_def rest_def)
  ultimately show ?thesis by (auto simp: same_def)
qed

end

text \<open>Fields that only the bookkeeping of the loop changes.\<close>

lemma same_update [simp]:
  "same r (r'\<lparr>lr_resyncing := b\<rparr>) = same r r'" "same r (r'\<lparr>lr_last_record_offset := x\<rparr>) = same r r'"
  "same r (r'\<lparr>lr_buffer := bs\<rparr>) = same r r'"
  by (simp_all add: same_def)

context read_file
begin

lemma cut_fragment:
  assumes "view r a D" "frag_bytes t p = D @ X" "X \<noteq> []" "7 + length p \<le> a" "a \<le> 32768"
  shows "\<exists>r'. ReadPhysicalRecord sf r result = Some (kEof, result, r') \<and> same r r' \<and> lr_resyncing r' = lr_resyncing r"
proof -
  have "length (frag_bytes t p) = length D + length X" unfolding assms(2) by simp
  with assms(3) have short: "length D < 7 + length p" by (cases X) simp_all
  with assms(1,4) have eof: "lr_eof r" and buf: "lr_buffer r = D" by (simp_all add: view_def)
  show ?thesis
  proof (cases "length D < 7")
    case True
    with eof buf show ?thesis by (simp add: ReadPhysicalRecord.simps [of sf r] same_def)
  next
    case False
    have nth: "D ! i = frag_bytes t p ! i" if "i < 7" for i
      using False that by (simp add: assms(2) nth_append)
    have len: "unat (((ucast (D ! 4) AND 0xff) OR push_bit 8 (ucast (D ! 5) AND 0xff)) :: u32) = length p"
      using nth [of 4] nth [of 5] header_length [of "length p"] assms(4,5) by (simp add: frag_header)
    have "parse_physical_record r result = (kEof, result, r\<lparr>lr_buffer := []\<rparr>)"
      unfolding parse_physical_record_def Let_def buf len using short eof by simp
    with False buf show ?thesis by (simp add: ReadPhysicalRecord.simps [of sf r] same_def)
  qed
qed

text \<open>When the trailer of a block has been reached, the next block is read.\<close>

lemma refill:
  assumes "view r a D" "a < 7" "a \<le> length D"
  shows "\<exists>r'. ReadPhysicalRecord sf r result = ReadPhysicalRecord sf r' result \<and>
    view r' 32768 (drop a D) \<and> same r r'"
proof -
  from assms have b: "length (lr_buffer r) < 7" "\<not> lr_eof r" "remaining (lr_file r) = drop a D"
    by (auto simp: view_def)
  from read [of 32768 "lr_file r"] obtain f where f:
    "sf_Read sf 32768 (lr_file r) = Some (Status_OK, take 32768 (drop a D), f)"
    "remaining f = drop 32768 (drop a D)" unfolding b(3) by blast
  define r1 where "r1 = r\<lparr>lr_buffer := take 32768 (drop a D), lr_file := f,
    lr_end_of_buffer_offset := lr_end_of_buffer_offset r + of_nat (length (take 32768 (drop a D)))\<rparr>"
  define r' where "r' = (if length (drop a D) < 32768 then r1\<lparr>lr_eof := True\<rparr> else r1)"
  have "ReadPhysicalRecord sf r result = ReadPhysicalRecord sf r' result"
    using b(1,2) f(1) by (simp add: ReadPhysicalRecord.simps [of sf r] Let_def r'_def r1_def)
  moreover have "view r' 32768 (drop a D)" "same r r'"
    using assms(1,3) f(2) b(2) by (auto simp: view_def r'_def r1_def same_def)
  ultimately show ?thesis by blast
qed

lemma read_fragment:
  assumes "view r a (trailer a @ frag_bytes t p @ D)" "7 + length p \<le> room a" "a \<le> 32768" "t \<noteq> kZeroType"
  shows "\<exists>r'. ReadPhysicalRecord sf r result = Some (of_nat (type_num t), p, r') \<and>
    view r' (room a - 7 - length p) D \<and> same r r'"
proof (cases "a < 7")
  case True
  then have "drop a (trailer a @ frag_bytes t p @ D) = frag_bytes t p @ D" by (simp add: trailer_def)
  with refill [OF assms(1) True, of result] True obtain r1 where r1:
    "ReadPhysicalRecord sf r result = ReadPhysicalRecord sf r1 result"
    "view r1 32768 (frag_bytes t p @ D)" "same r r1" by (auto simp: length_trailer)
  from parse_fragment [OF r1(2) _ _ assms(4), of result] assms(2) True obtain r' where
    "ReadPhysicalRecord sf r1 result = Some (of_nat (type_num t), p, r')"
    "view r' (room a - 7 - length p) D" "same r1 r'" by (auto simp: room_def)
  with r1 show ?thesis by (auto intro: same_trans)
next
  case False
  with parse_fragment [of r a t p D result] assms show ?thesis by (simp add: trailer_def room_def)
qed

lemma read_cut:
  assumes "view r a D" "trailer a @ frag_bytes t p = D @ X" "X \<noteq> []" "7 + length p \<le> room a" "a \<le> 32768"
  shows "\<exists>r'. ReadPhysicalRecord sf r result = Some (kEof, result, r') \<and> same r r' \<and> \<not> lr_resyncing r'"
proof (cases "a < 7 \<and> a \<le> length D")
  case True
  then have "drop a (trailer a @ frag_bytes t p) = drop a D @ X" unfolding assms(2) by simp
  then have cut: "frag_bytes t p = drop a D @ X" using True by (simp add: trailer_def)
  from refill [OF assms(1), of result] True obtain r1 where r1:
    "ReadPhysicalRecord sf r result = ReadPhysicalRecord sf r1 result"
    "view r1 32768 (drop a D)" "same r r1" by blast
  from cut_fragment [OF r1(2) cut assms(3), of result] assms(4) True r1 show ?thesis
    by (auto simp: room_def view_def intro: same_trans)
next
  case False
  show ?thesis
  proof (cases "a < 7")
    case True
    with False have "length D < 7" "length D < a" by simp_all
    with assms(1) show ?thesis by (simp add: ReadPhysicalRecord.simps [of sf r] view_def same_def)
  next
    case False
    with cut_fragment [OF assms(1) _ assms(3), of t p result] assms show ?thesis
      by (auto simp: trailer_def room_def view_def)
  qed
qed

end

lemma layout_fst:
  "n = room a - 7 \<Longrightarrow> fst (layout a begn data) =
     trailer a @ frag_bytes (fragment_type begn (drop n data = [])) (take n data) @
     (if drop n data = [] then [] else fst (layout (room a - 7 - length (take n data)) False (drop n data)))"
  by (simp add: layout.simps [of a] Let_def case_prod_beta)

lemma layout_snd:
  "n = room a - 7 \<Longrightarrow> snd (layout a begn data) =
     (if drop n data = [] then room a - 7 - length (take n data)
      else snd (layout (room a - 7 - length (take n data)) False (drop n data)))"
  by (simp add: layout.simps [of a] Let_def case_prod_beta)

lemma fragment_type_num:
  "of_nat (type_num (fragment_type begn end)) =
     (if begn then if end then 1 else 2 else if end then 4 else 3 :: u32)"
  "fragment_type begn end \<noteq> kZeroType"
  by (simp_all add: fragment_type_def)

context read_file
begin

lemma read_loop_layout:
  assumes "view r a (fst (layout a begn data) @ D)" "a \<le> 32768"
  shows "\<exists>s r'. read_loop sf r rcd scratch (\<not> begn) prospective fragment =
      Some (True, (if begn then [] else scratch) @ data, s, r') \<and>
    view r' (snd (layout a begn data)) D \<and> same r r'"
  using assms
proof (induction a begn data arbitrary: r scratch prospective fragment rule: layout.induct)
  case (1 a begn data)
  define n where "n = room a - 7"
  define t where "t = fragment_type begn (drop n data = [])"
  define a' where "a' = room a - 7 - length (take n data)"
  define D1 where "D1 = (if drop n data = [] then D else fst (layout a' False (drop n data)) @ D)"
  have fits: "7 + length (take n data) \<le> room a" and a': "a' \<le> 32768"
    using room_bounds [OF 1(3)] by (auto simp: n_def a'_def)
  have "view r a (trailer a @ frag_bytes t (take n data) @ D1)"
    using 1(2) by (cases "drop n data = []") (simp_all add: layout_fst [OF n_def] t_def a'_def D1_def)
  from read_fragment [OF this fits 1(3), of fragment] obtain r1 where r1:
    "ReadPhysicalRecord sf r fragment = Some (of_nat (type_num t), take n data, r1)"
    "view r1 a' D1" "same r r1" by (auto simp: t_def fragment_type_num(2) a'_def)
  have resync: "\<not> lr_resyncing r1" using r1(2) by (simp add: view_def)
  note step = read_loop.simps [of sf r rcd scratch "\<not> begn" prospective fragment]
  show ?case
  proof (cases "drop n data = []")
    case True
    then have "view r1 (snd (layout a begn data)) D" "take n data = data"
      using r1(2) by (simp_all add: D1_def layout_snd [OF n_def] a'_def)
    then show ?thesis
      using r1 True resync unfolding step r1(1)
      by (cases begn) (simp_all add: handle_record_def fragment_type_num t_def)
  next
    case False
    let ?r = "r1\<lparr>lr_resyncing := False\<rparr>" and ?s = "(if begn then [] else scratch) @ take n data"
    have "view ?r a' (fst (layout a' False (drop n data)) @ D)"
      using r1(2) False by (simp add: D1_def)
    note IH = 1(1) [OF n_def refl refl False [folded n_def], folded a'_def, OF this a']
    obtain pro where "handle_record (of_nat (type_num t)) (take n data) r1 rcd scratch (\<not> begn) prospective =
        Inl (?r, ?s, True, pro)"
      using False resync by (cases begn) (simp_all add: handle_record_def fragment_type_num t_def Let_def)
    with r1(1) have "read_loop sf r rcd scratch (\<not> begn) prospective fragment =
        read_loop sf ?r rcd ?s True pro (take n data)"
      unfolding step by simp
    with IH [of ?s pro "take n data"] r1(3) False show ?thesis
      unfolding layout_snd [OF n_def] a'_def [symmetric] by (auto simp: same_def)
  qed
qed

end

context read_file
begin

lemma read_loop_cut:
  assumes "view r a D" "fst (layout a begn data) = D @ X" "X \<noteq> []" "a \<le> 32768"
  shows "\<exists>s r'. read_loop sf r rcd scratch (\<not> begn) prospective fragment = Some (False, rcd, s, r') \<and> same r r'"
  using assms
proof (induction a begn data arbitrary: r D scratch prospective fragment rule: layout.induct)
  case (1 a begn data)
  define n where "n = room a - 7"
  define t where "t = fragment_type begn (drop n data = [])"
  define a' where "a' = room a - 7 - length (take n data)"
  define L where "L = (if drop n data = [] then [] else fst (layout a' False (drop n data)))"
  have fits: "7 + length (take n data) \<le> room a" and a': "a' \<le> 32768"
    using room_bounds [OF 1(5)] by (auto simp: n_def a'_def)
  note step = read_loop.simps [of sf r rcd scratch "\<not> begn" prospective fragment]
  have "(trailer a @ frag_bytes t (take n data)) @ L = D @ X"
    using 1(3) by (cases "drop n data = []") (simp_all add: layout_fst [OF n_def] t_def a'_def L_def)
  then show ?case
  proof (cases rule: append_eq_cut)
    case (inside Y)
    from read_cut [OF 1(2) inside fits 1(5), of fragment] obtain r1 where r1:
      "ReadPhysicalRecord sf r fragment = Some (kEof, fragment, r1)" "same r r1" "\<not> lr_resyncing r1" by blast
    then show ?thesis unfolding step r1(1)
      by (simp add: handle_record_def kEof_def kMaxRecordType_def)
  next
    case (behind D')
    with 1(4) have False: "drop n data \<noteq> []" by (auto simp: L_def)
    from behind(1) 1(2) have "view r a (trailer a @ frag_bytes t (take n data) @ D')" by simp
    from read_fragment [OF this fits 1(5), of fragment] obtain r1 where r1:
      "ReadPhysicalRecord sf r fragment = Some (of_nat (type_num t), take n data, r1)"
      "view r1 a' D'" "same r r1" by (auto simp: t_def fragment_type_num(2) a'_def)
    let ?r = "r1\<lparr>lr_resyncing := False\<rparr>" and ?s = "(if begn then [] else scratch) @ take n data"
    have resync: "\<not> lr_resyncing r1" and v: "view ?r a' D'" using r1(2) by (simp_all add: view_def)
    have cut: "fst (layout a' False (drop n data)) = D' @ X" using behind(2) False by (simp add: L_def)
    obtain pro where "handle_record (of_nat (type_num t)) (take n data) r1 rcd scratch (\<not> begn) prospective =
        Inl (?r, ?s, True, pro)"
      using False resync by (cases begn) (simp_all add: handle_record_def fragment_type_num t_def Let_def)
    with r1(1) have "read_loop sf r rcd scratch (\<not> begn) prospective fragment =
        read_loop sf ?r rcd ?s True pro (take n data)"
      unfolding step by simp
    with 1(1) [OF n_def refl refl False [folded n_def], folded a'_def, OF v cut 1(4) a', of ?s pro "take n data"] r1(3)
    show ?thesis by (auto simp: same_def)
  qed
qed

text \<open>A call of \<open>ReadRecord\<close> on a complete record, on a cut one, and at the end.\<close>

lemma ReadRecord_loop:
  "view r a D \<Longrightarrow> ReadRecord sf r rcd scratch = read_loop sf r [] [] False 0 []"
  by (simp add: ReadRecord_def view_def)

lemma ReadRecord_complete:
  assumes "view r a (fst (layout a True data) @ D)" "a \<le> 32768"
  shows "\<exists>s r'. ReadRecord sf r rcd scratch = Some (True, data, s, r') \<and>
    view r' (snd (layout a True data)) D \<and> same r r'"
  using read_loop_layout [OF assms, of "[]" "[]" 0 "[]"] ReadRecord_loop [OF assms(1)] by simp

lemma ReadRecord_cut:
  assumes "view r a D" "fst (layout a True data) = D @ X" "X \<noteq> []" "a \<le> 32768"
  shows "\<exists>s r'. ReadRecord sf r rcd scratch = Some (False, [], s, r') \<and> same r r'"
  using read_loop_cut [OF assms, of "[]" "[]" 0 "[]"] ReadRecord_loop [OF assms(1)] by simp

lemma ReadRecord_end:
  assumes "view r a []" "a \<le> 32768"
  shows "\<exists>s r'. ReadRecord sf r rcd scratch = Some (False, [], s, r') \<and> same r r'"
proof -
  have "fst (layout a True []) \<noteq> []" by (simp add: layout_fst [OF refl] frag_bytes_def)
  with ReadRecord_cut [OF assms(1) _ _ assms(2), of "[]"] show ?thesis by simp
qed

end

section \<open>Whole logs\<close>

text \<open>Adding records until one fails, and reading records until there are no more, the way the
  clients of the two classes do.\<close>

fun AddRecords :: "'f writable_file \<Rightarrow> 'f log_writer \<Rightarrow> slice list \<Rightarrow> (status \<times> 'f log_writer) option" where
  "AddRecords ops w [] = Some (Status_OK, w)"
| "AddRecords ops w (d # ds) =
     (case AddRecord ops w d of
        None \<Rightarrow> None
      | Some (s, w) \<Rightarrow> if ok s then AddRecords ops w ds else Some (s, w))"

partial_function (option) ReadRecords ::
  "'f sequential_file \<Rightarrow> 'f log_reader \<Rightarrow> (slice list \<times> 'f log_reader) option" where
  "ReadRecords sf r =
     (case ReadRecord sf r [] [] of
        None \<Rightarrow> None
      | Some (found, rcd, scratch, r) \<Rightarrow>
          if found then Option.bind (ReadRecords sf r) (\<lambda>(ds, r). Some (rcd # ds, r))
          else Some ([], r))"

lemma log_layout_simps:
  "fst (log_layout a (d # ds)) = fst (layout a True d) @ fst (log_layout (snd (layout a True d)) ds)"
  "snd (log_layout a (d # ds)) = snd (log_layout (snd (layout a True d)) ds)"
  by (simp_all add: case_prod_beta)

declare log_layout.simps(2) [simp del]
declare log_layout_simps [simp]

lemma log_layout_append:
  "fst (log_layout a (ds @ es)) = fst (log_layout a ds) @ fst (log_layout (snd (log_layout a ds)) es)"
  by (induction ds arbitrary: a) simp_all

lemma log_layout_room: "a \<le> 32768 \<Longrightarrow> snd (log_layout a ds) \<le> 32768"
  by (induction ds arbitrary: a) (simp_all add: layout_room)

text \<open>A block that is used up is as good as a new one.\<close>

lemma layout_new_block: "layout 0 begn data = layout 32768 begn data"
  by (simp add: layout.simps [of 0] layout.simps [of 32768] room_def trailer_def)

lemma log_layout_new_block: "fst (log_layout 0 ds) = fst (log_layout 32768 ds)"
  by (cases ds) (simp_all add: layout_new_block)

text \<open>The bytes left in the block follow from the length of the log.\<close>

lemma layout_aligned:
  "(length (fst (layout a begn data)) + snd (layout a begn data)) mod 32768 = a mod 32768"
proof (induction a begn data rule: layout.induct)
  case (1 a begn data)
  define n where "n = room a - 7"
  define a' where "a' = room a - 7 - length (take n data)"
  have sum: "length (trailer a) + (7 + length (take n data)) + a' = (if a < 7 then a + 32768 else a)"
    by (auto simp: a'_def n_def room_def trailer_def)
  have chunk: "length (trailer a @ frag_bytes t (take n data)) = length (trailer a) + (7 + length (take n data))" for t
    by simp
  show ?case
  proof (cases "drop n data = []")
    case True
    then show ?thesis
      using sum unfolding layout_fst [OF n_def] layout_snd [OF n_def] a'_def [symmetric] by simp
  next
    case False
    from 1 [OF n_def refl refl False [folded n_def], folded a'_def]
    have "(length (trailer a) + (7 + length (take n data)) +
        (length (fst (layout a' False (drop n data))) + snd (layout a' False (drop n data)))) mod 32768 =
        (length (trailer a) + (7 + length (take n data)) + a') mod 32768"
      by (rule mod_add_cong [OF refl])
    with False sum show ?thesis
      unfolding layout_fst [OF n_def] layout_snd [OF n_def] a'_def [symmetric]
      by (simp add: ac_simps del: length_take)
  qed
qed

lemma log_layout_aligned:
  "(length (fst (log_layout a ds)) + snd (log_layout a ds)) mod 32768 = a mod 32768"
proof (induction ds arbitrary: a)
  case (Cons d ds)
  have "(length (fst (layout a True d)) + (length (fst (log_layout (snd (layout a True d)) ds)) +
      snd (log_layout (snd (layout a True d)) ds))) mod 32768 =
      (length (fst (layout a True d)) + snd (layout a True d)) mod 32768"
    by (rule mod_add_cong [OF refl Cons.IH])
  then show ?case using layout_aligned [of a True d] by (simp add: ac_simps)
qed simp

lemma log_layout_reopen:
  "fst (log_layout (snd (log_layout 32768 ds)) es) =
     fst (log_layout (32768 - length (fst (log_layout 32768 ds)) mod 32768) es)"
proof -
  let ?l = "length (fst (log_layout 32768 ds))" and ?b = "snd (log_layout 32768 ds)"
  have b: "(?l + ?b) mod 32768 = 0" "?b \<le> 32768"
    using log_layout_aligned [of 32768 ds] log_layout_room [of 32768 ds] by simp_all
  define m where "m = ?l mod 32768"
  have m: "m < 32768" by (simp add: m_def)
  from b(1) have "(m + ?b) mod 32768 = 0" by (simp add: m_def mod_add_left_eq)
  moreover have "(m + ?b) mod 32768 = (if m + ?b < 32768 then m + ?b else m + ?b - 32768)"
    using m b(2) by (auto simp: mod_if)
  ultimately have "?b = 32768 - ?l mod 32768 \<or> ?b = 0 \<and> ?l mod 32768 = 0"
    unfolding m_def [symmetric] using m b(2) by (auto split: if_splits)
  then show ?thesis by (auto simp: log_layout_new_block)
qed

context append_file
begin

lemma AddRecords_writes:
  assumes "good (lw_dest w)" "writer_inv w"
  shows "\<exists>w'. AddRecords wf w ds = Some (Status_OK, w') \<and> good (lw_dest w') \<and> writer_inv w' \<and>
    contents (lw_dest w') = contents (lw_dest w) @ fst (log_layout (writer_room w) ds)"
  using assms
proof (induction ds arbitrary: w)
  case (Cons d ds)
  from AddRecord_writes [OF Cons.prems, of d] obtain w1 where w1:
    "AddRecord wf w d = Some (Status_OK, w1)" "good (lw_dest w1)" "writer_inv w1"
    "contents (lw_dest w1) = contents (lw_dest w) @ fst (layout (writer_room w) True d)"
    "writer_room w1 = snd (layout (writer_room w) True d)" by blast
  with Cons.IH [OF w1(2,3)] show ?case by auto
qed simp

end

context read_file
begin

lemma ReadRecords_cut:
  assumes "view r a D" "fst (log_layout a ds) = D @ X" "a \<le> 32768"
  shows "\<exists>k r'. k \<le> length ds \<and> ReadRecords sf r = Some (take k ds, r') \<and> same r r' \<and>
    length (fst (log_layout a (take k ds))) \<le> length D \<and>
    (k < length ds \<longrightarrow> length D < length (fst (log_layout a (take (Suc k) ds))))"
  using assms
proof (induction ds arbitrary: r a D)
  case Nil
  then have "view r a []" by simp
  from ReadRecord_end [OF this Nil(3), of "[]" "[]"] show ?case by (auto simp: ReadRecords.simps [of sf r])
next
  case (Cons d ds)
  from Cons.prems(2) have "fst (layout a True d) @ fst (log_layout (snd (layout a True d)) ds) = D @ X" by simp
  then show ?case
  proof (cases rule: append_eq_cut)
    case (inside Y)
    from ReadRecord_cut [OF Cons.prems(1) inside Cons.prems(3), of "[]" "[]"] inside show ?thesis
      by (intro exI [of _ 0]) (auto simp: ReadRecords.simps [of sf r])
  next
    case (behind D')
    with Cons.prems(1) have "view r a (fst (layout a True d) @ D')" by simp
    from ReadRecord_complete [OF this Cons.prems(3)] obtain s r1 where r1:
      "ReadRecord sf r [] [] = Some (True, d, s, r1)" "view r1 (snd (layout a True d)) D'" "same r r1" by blast
    from Cons.IH [OF r1(2) behind(2) layout_room [OF Cons.prems(3)]] obtain k r2 where k: "k \<le> length ds"
      "ReadRecords sf r1 = Some (take k ds, r2)" "same r1 r2"
      "length (fst (log_layout (snd (layout a True d)) (take k ds))) \<le> length D'"
      "k < length ds \<longrightarrow> length D' < length (fst (log_layout (snd (layout a True d)) (take (Suc k) ds)))" by blast
    with r1 behind(1) show ?thesis
      by (intro exI [of _ "Suc k"] exI [of _ r2])
        (auto simp: ReadRecords.simps [of sf r] intro: same_trans)
  qed
qed

lemma view_start: "remaining f = D \<Longrightarrow> view (Reader f reporter checksum 0) 0 D"
  by (simp add: view_def Reader_def)

end

end
