(* ===== verification/Ldb_Log_Props.thy ===== *)
theory Ldb_Log_Props
  imports Ldb_Log_Correct
begin

text \<open>
  The properties of the log: the assertions of the writer hold whatever the file does, what was
  written is read back, and a log that was cut off at any byte yields the records that are
  complete, without a report.
\<close>

section \<open>Assertions of the writer\<close>

text \<open>Every operation of the file returns, with success or an error.\<close>

definition returns :: "'f writable_file \<Rightarrow> bool" where
  "returns ops \<longleftrightarrow> (\<forall>d f. wf_Append ops d f \<noteq> None) \<and> (\<forall>f. wf_Flush ops f \<noteq> None)"

lemma returnsD:
  assumes "returns ops"
  obtains s f' where "wf_Append ops d f = Some (s, f')"
    and "returns ops \<Longrightarrow> \<exists>s f'. wf_Flush ops g = Some (s, f')"
  using assms unfolding returns_def by (metis option.exhaust surj_pair)

lemma switch_block_total:
  assumes "returns ops" "writer_inv w"
  shows "\<exists>w'. switch_block ops w = Some w' \<and> writer_inv w' \<and> lw_block_offset w' \<le> kBlockSize - kHeaderSize"
proof -
  obtain s f where "wf_Append ops (take (nat (kBlockSize - lw_block_offset w)) [0, 0, 0, 0, 0, 0]) (lw_dest w) = Some (s, f)"
    using assms(1) by (rule returnsD)
  with assms(2) show ?thesis
    by (auto simp: switch_block_def asserting_def Let_def writer_inv_def kBlockSize_def kHeaderSize_def)
qed

lemma EmitPhysicalRecord_total:
  assumes "returns ops" "writer_inv w"
    "lw_block_offset w + kHeaderSize + int (length p) \<le> kBlockSize"
  shows "\<exists>s w'. EmitPhysicalRecord ops w t p = Some (s, w') \<and> writer_inv w'"
proof -
  define buf where "buf = EncodeFixed32 (Mask (crc32c_Extend (lw_type_crc w ! type_num t) p)) @
      [of_nat (and (length p) 0xff), of_nat (drop_bit 8 (length p)), of_nat (type_num t)]"
  obtain s1 f1 where 1: "wf_Append ops buf (lw_dest w) = Some (s1, f1)" using assms(1) by (rule returnsD)
  obtain s2 f2 where 2: "wf_Append ops p f1 = Some (s2, f2)" using assms(1) by (rule returnsD)
  obtain s3 f3 where 3: "wf_Flush ops f2 = Some (s3, f3)" using assms(1) by (metis returnsD)
  have "length p \<le> 0xffff" using assms(2,3) by (simp add: writer_inv_def kBlockSize_def kHeaderSize_def)
  with 1 2 3 assms(2,3) show ?thesis
    unfolding EmitPhysicalRecord_def Let_def buf_def [symmetric]
    by (auto simp: asserting_def writer_inv_def kHeaderSize_def)
qed

lemma add_loop_total:
  "returns ops \<Longrightarrow> writer_inv w \<Longrightarrow> \<exists>s w'. add_loop ops w data begn = Some (s, w') \<and> writer_inv w'"
proof (induction ops w data begn rule: add_loop.induct [case_names step])
  case (step ops w data begn)
  from switch_block_total [OF step.prems] obtain w1 where w1: "switch_block ops w = Some w1" "writer_inv w1"
    "lw_block_offset w1 \<le> kBlockSize - kHeaderSize" by blast
  then have guard: "0 \<le> kBlockSize - lw_block_offset w1 - kHeaderSize" by simp
  define avail where "avail = nat (kBlockSize - lw_block_offset w1 - kHeaderSize)"
  define len where "len = (if length data < avail then length data else avail)"
  have "lw_block_offset w1 + kHeaderSize + int (length (take len data)) \<le> kBlockSize"
    using guard by (auto simp: len_def avail_def)
  from EmitPhysicalRecord_total [OF step.prems(1) w1(2) this, of "fragment_type begn (length data = len)"]
  obtain s w2 where w2: "EmitPhysicalRecord ops w1 (fragment_type begn (length data = len)) (take len data) = Some (s, w2)"
    "writer_inv w2" by blast
  have unfolded: "add_loop ops w data begn =
      (if ok s \<and> 0 < length data - len then add_loop ops w2 (drop len data) False else Some (s, w2))"
    unfolding add_loop.simps [of ops w] w1(1) option.case Let_def avail_def [symmetric] len_def [symmetric] w2(1) prod.case
    using guard by simp
  show ?case
  proof (cases "ok s \<and> 0 < length data - len")
    case True
    from step.IH [OF w1(1) guard avail_def refl len_def refl w2(1) refl True step.prems(1) w2(2)]
    show ?thesis using unfolded True by simp
  next
    case False
    with unfolded w2(2) show ?thesis by auto
  qed
qed

section \<open>Files in memory\<close>

definition mem_writable :: "u8 list writable_file" where
  "mem_writable = \<lparr>wf_Append = (\<lambda>d f. Some (Status_OK, f @ d)), wf_Flush = (\<lambda>f. Some (Status_OK, f))\<rparr>"

definition mem_sequential :: "u8 list sequential_file" where
  "mem_sequential = \<lparr>sf_Read = (\<lambda>n f. Some (Status_OK, take n f, drop n f)), sf_Skip = (\<lambda>n f. (Status_OK, drop (unat n) f))\<rparr>"

interpretation mem_append: append_file mem_writable "\<lambda>f. f" "\<lambda>f. True"
  by unfold_locales (simp_all add: mem_writable_def)

interpretation mem_read: read_file mem_sequential "\<lambda>f. f"
  by unfold_locales (simp add: mem_sequential_def)

lemma writer_start [simp]: "writer_inv (Writer f)" "writer_room (Writer f) = 32768" "lw_dest (Writer f) = f"
  by (simp_all add: writer_inv_def writer_room_def Writer_def kBlockSize_def)

lemma writer_at:
  assumes "n < 2 ^ 64"
  shows "writer_inv (Writer_at f (of_nat n)) \<and> writer_room (Writer_at f (of_nat n)) = 32768 - n mod 32768 \<and>
    lw_dest (Writer_at f (of_nat n)) = f"
proof -
  have "unat (of_nat n mod 32768 :: u64) = n mod 32768"
    using assms by (simp add: unat_mod_distrib)
  then have "uint (of_nat n mod 32768 :: u64) = int (n mod 32768)" by (metis uint_nat)
  then show ?thesis
    by (auto simp: writer_inv_def writer_room_def Writer_at_def kBlockSize_def nat_diff_distrib)
qed

lemma log_layout_take_less:
  "k < length ds \<Longrightarrow> length (fst (log_layout a (take (Suc k) ds))) \<le> length (fst (log_layout a ds))"
  using log_layout_append [of a "take (Suc k) ds" "drop (Suc k) ds"] by simp

lemma read_cut_log:
  assumes "read_file sf remaining" "n \<le> length (fst (log_layout 32768 ds))"
    "remaining g = take n (fst (log_layout 32768 ds))"
  shows "\<exists>k r. ReadRecords sf (Reader g reporter checksum 0) = Some (take k ds, r) \<and>
         lr_reporter r = reporter \<and> k \<le> length ds \<and>
         length (fst (log_layout 32768 (take k ds))) \<le> n \<and>
         (k < length ds \<longrightarrow> n < length (fst (log_layout 32768 (take (Suc k) ds))))"
proof -
  let ?L = "fst (log_layout 0 ds)" and ?r = "Reader g reporter checksum 0"
  have n: "length (take n ?L) = n" using assms(2) by (simp add: log_layout_new_block)
  have "read_file.view remaining ?r 0 (take n ?L)"
    using read_file.view_start [OF assms(1)] assms(3) by (simp add: log_layout_new_block)
  from read_file.ReadRecords_cut [OF assms(1) this, of ds "drop n ?L"] obtain k r where
    "k \<le> length ds" "ReadRecords sf ?r = Some (take k ds, r)" "same ?r r"
    "length (fst (log_layout 0 (take k ds))) \<le> n"
    "k < length ds \<longrightarrow> n < length (fst (log_layout 0 (take (Suc k) ds)))"
    unfolding n by auto
  then show ?thesis unfolding log_layout_new_block
    by (intro exI [of _ k] exI [of _ r]) (simp add: same_def Reader_def)
qed

section \<open>Properties\<close>

text \<open>The invariant of the log writer: on every file whose operations return, with whatever
  status, \<open>AddRecord\<close> of a record of any size returns, none of its assertions fails (the
  offset stays inside the block, a header always fits, a fragment length fits its two bytes), and
  the block offset is valid again afterwards.\<close>

theorem AddRecord_invariant:
  assumes "returns ops" "writer_inv w"
  shows "\<exists>s w'. AddRecord ops w data = Some (s, w') \<and> writer_inv w'"
  unfolding AddRecord_def by (rule add_loop_total [OF assms])

theorem AddRecord_invariant_witness:
  "\<exists>s w'. AddRecord mem_writable (Writer []) (replicate 100000 7) = Some (s, w') \<and> writer_inv w'"
  using AddRecord_invariant [of mem_writable "Writer []" "replicate 100000 7"]
  by (simp add: returns_def mem_writable_def)

text \<open>C2: a cut-off log: records are written to a file that was empty, and the file is later read
  up to any byte position, as after a crash. Then the reader returns, from the first on and
  unchanged, exactly the records all of whose bytes are there, stops without a report of
  corruption, and never makes up a record, with or without checksums.\<close>

theorem log_cut_anywhere:
  assumes "append_file ops contents good" "read_file sf remaining" "good f" "contents f = []"
  shows "\<exists>w. AddRecords ops (Writer f) ds = Some (Status_OK, w) \<and>
    (\<forall>n g reporter checksum.
      n \<le> length (contents (lw_dest w)) \<and> remaining g = take n (contents (lw_dest w)) \<longrightarrow>
      (\<exists>k r. ReadRecords sf (Reader g reporter checksum 0) = Some (take k ds, r) \<and>
         lr_reporter r = reporter \<and> k \<le> length ds \<and>
         length (fst (log_layout 32768 (take k ds))) \<le> n \<and>
         (k < length ds \<longrightarrow> n < length (fst (log_layout 32768 (take (Suc k) ds))))))"
proof -
  from append_file.AddRecords_writes [OF assms(1), of "Writer f" ds] assms(3,4) obtain w where w:
    "AddRecords ops (Writer f) ds = Some (Status_OK, w)" "contents (lw_dest w) = fst (log_layout 32768 ds)" by auto
  have "\<exists>k r. ReadRecords sf (Reader g reporter checksum 0) = Some (take k ds, r) \<and>
         lr_reporter r = reporter \<and> k \<le> length ds \<and>
         length (fst (log_layout 32768 (take k ds))) \<le> n \<and>
         (k < length ds \<longrightarrow> n < length (fst (log_layout 32768 (take (Suc k) ds))))"
    if "n \<le> length (contents (lw_dest w))" "remaining g = take n (contents (lw_dest w))" for n g reporter checksum
    using read_cut_log [OF assms(2), of n ds g reporter checksum] that unfolding w(2) by blast
  with w(1) show ?thesis by blast
qed

theorem log_cut_anywhere_witness:
  "\<exists>w. AddRecords mem_writable (Writer []) [[1, 2], [3]] = Some (Status_OK, w) \<and>
    (\<exists>k r. ReadRecords mem_sequential (Reader (take 0 (lw_dest w)) (Some []) True 0) = Some (take k [[1, 2], [3]], r) \<and>
       lr_reporter r = Some [])"
  using log_cut_anywhere [OF mem_append.append_file_axioms mem_read.read_file_axioms, of "[]" "[[1, 2], [3]]"]
  by fastforce

text \<open>C11: round trip, with a restart in between: records are added to an empty file, a second
  writer is opened at the end of that file (the constructor that takes the length of the file) and
  adds more records. All calls succeed, and a reader from the start of the file returns all records
  of both writers, in order, and reports nothing.\<close>

theorem log_roundtrip:
  assumes "append_file ops contents good" "read_file sf remaining" "good f" "contents f = []"
    and "length (fst (log_layout 32768 ds)) < 2 ^ 64"
  shows "\<exists>w w'. AddRecords ops (Writer f) ds = Some (Status_OK, w) \<and>
    AddRecords ops (Writer_at (lw_dest w) (of_nat (length (contents (lw_dest w))))) es = Some (Status_OK, w') \<and>
    (\<forall>g reporter checksum. remaining g = contents (lw_dest w') \<longrightarrow>
      (\<exists>r. ReadRecords sf (Reader g reporter checksum 0) = Some (ds @ es, r) \<and> lr_reporter r = reporter))"
proof -
  from append_file.AddRecords_writes [OF assms(1), of "Writer f" ds] assms(3,4) obtain w where w:
    "AddRecords ops (Writer f) ds = Some (Status_OK, w)" "good (lw_dest w)"
    "contents (lw_dest w) = fst (log_layout 32768 ds)" by auto
  define n where "n = length (contents (lw_dest w))"
  have "n < 2 ^ 64" using assms(5) w(3) by (simp add: n_def)
  note at = writer_at [OF this, of "lw_dest w"]
  from append_file.AddRecords_writes [OF assms(1), of "Writer_at (lw_dest w) (of_nat n)" es] w(2) at
  obtain w' where w': "AddRecords ops (Writer_at (lw_dest w) (of_nat n)) es = Some (Status_OK, w')"
    "contents (lw_dest w') = contents (lw_dest w) @ fst (log_layout (32768 - n mod 32768) es)" by auto
  have all: "contents (lw_dest w') = fst (log_layout 32768 (ds @ es))"
    using w'(2) w(3) by (simp add: log_layout_append log_layout_reopen n_def)
  have "\<exists>r. ReadRecords sf (Reader g reporter checksum 0) = Some (ds @ es, r) \<and> lr_reporter r = reporter"
    if "remaining g = contents (lw_dest w')" for g reporter checksum
    using read_cut_log [OF assms(2), of "length (contents (lw_dest w'))" "ds @ es" g reporter checksum] that
      log_layout_take_less [of _ "ds @ es" 32768]
    unfolding all by (metis le_neq_implies_less linorder_not_less order_refl take_all)
  with w(1) w'(1) show ?thesis unfolding n_def by blast
qed

theorem log_roundtrip_witness:
  "\<exists>w w'. AddRecords mem_writable (Writer []) [[1, 2], []] = Some (Status_OK, w) \<and>
    AddRecords mem_writable (Writer_at (lw_dest w) (of_nat (length (lw_dest w)))) [[3]] = Some (Status_OK, w') \<and>
    (\<exists>r. ReadRecords mem_sequential (Reader (lw_dest w') (Some []) True 0) = Some ([[1, 2], [], [3]], r) \<and>
       lr_reporter r = Some [])"
proof -
  have "length (fst (log_layout 32768 [[1, 2], []])) < 2 ^ 64"
    by (simp add: layout.simps Let_def room_def trailer_def)
  from log_roundtrip [OF mem_append.append_file_axioms mem_read.read_file_axioms _ _ this, of "[]" "[[3]]"]
  show ?thesis by fastforce
qed

end
