(* ===== verification/Ldb_Db.thy ===== *)
theory Ldb_Db
  imports Ldb_Memtable Ldb_Log_Props
begin

text \<open>
  How the database of \<open>db/db_impl.cc\<close> writes: writers queue up, the first one merges the batches
  behind it into one group (\<open>BuildBatchGroup\<close>), and \<open>Write\<close> gives the group its sequence
  numbers, adds it to the log and then applies it to the memory table. \<open>None\<close> is a failed
  assertion or a call that does not return.
\<close>

section \<open>Applying a batch\<close>

text \<open>\<open>WriteBatchInternal::InsertInto\<close> on the memory table.\<close>

abbreviation mem_inserter :: "(SequenceNumber \<times> memtable option) batch_handler" where
  "mem_inserter \<equiv> MemTableInserter (\<lambda>seq t key val mem. Option.bind mem (MemTable_Add seq t key val))"

definition InsertIntoMem :: "write_batch \<Rightarrow> memtable \<Rightarrow> (status \<times> memtable) option" where
  "InsertIntoMem b mem = do {
     (s, mem) \<leftarrow> InsertInto (\<lambda>seq t key val mem. Option.bind mem (MemTable_Add seq t key val)) b (Some mem);
     mem \<leftarrow> mem;
     Some (s, mem) }"

section \<open>Merging batches\<close>

record db_writer =
  dw_batch :: "write_batch option"
  dw_sync :: bool

text \<open>The loop of \<open>BuildBatchGroup\<close>. \<open>tmp\<close> is \<open>tmp_batch_\<close> once \<open>result\<close> points to it,
  and \<open>lastw\<close> is the position of \<open>*last_writer\<close> in the queue.\<close>

fun group_loop ::
  "bool \<Rightarrow> nat \<Rightarrow> write_batch \<Rightarrow> write_batch \<Rightarrow> nat \<Rightarrow> write_batch option \<Rightarrow> nat \<Rightarrow> db_writer list \<Rightarrow>
     (write_batch \<times> nat) option" where
  "group_loop first_sync max_size tmp_batch first_batch sz tmp lastw [] =
     Some (case tmp of None \<Rightarrow> first_batch | Some result \<Rightarrow> result, lastw)"
| "group_loop first_sync max_size tmp_batch first_batch sz tmp lastw (w # ws) =
     (if dw_sync w \<and> \<not> first_sync then Some (case tmp of None \<Rightarrow> first_batch | Some result \<Rightarrow> result, lastw)
      else
        case dw_batch w of
          None \<Rightarrow> group_loop first_sync max_size tmp_batch first_batch sz tmp (lastw + 1) ws
        | Some batch \<Rightarrow>
            let sz = sz + ApproximateSize batch in
            if sz > max_size then Some (case tmp of None \<Rightarrow> first_batch | Some result \<Rightarrow> result, lastw)
            else do {
              result \<leftarrow> (case tmp of
                 None \<Rightarrow> do {
                   n \<leftarrow> Batch_Count tmp_batch;
                   asserting (n = 0) (Batch_Append tmp_batch first_batch) }
               | Some result \<Rightarrow> Some result);
              result \<leftarrow> Batch_Append result batch;
              group_loop first_sync max_size tmp_batch first_batch sz (Some result) (lastw + 1) ws })"

definition BuildBatchGroup :: "write_batch \<Rightarrow> db_writer list \<Rightarrow> (write_batch \<times> nat) option" where
  "BuildBatchGroup tmp_batch writers =
     (case writers of
        [] \<Rightarrow> None
      | first # rest \<Rightarrow> do {
          batch \<leftarrow> dw_batch first;
          let sz = ApproximateSize batch;
          let max_size = (if sz \<le> 131072 then sz + 131072 else 1048576);
          group_loop (dw_sync first) max_size tmp_batch batch sz None 0 rest })"

section \<open>Writing a group\<close>

text \<open>The part of the state that \<open>Write\<close> changes: the log, the memory table, the last sequence
  number of the version set and the background error.\<close>

record 'f db_core =
  dc_log :: "'f log_writer"
  dc_mem :: memtable
  dc_last_sequence :: u64
  dc_bg_error :: status

definition RecordBackgroundError :: "status \<Rightarrow> 'f db_core \<Rightarrow> 'f db_core" where
  "RecordBackgroundError s db = (if ok (dc_bg_error db) then db\<lparr>dc_bg_error := s\<rparr> else db)"

text \<open>\<open>Write\<close> from the assignment of the sequence numbers to the new last one. \<open>ops\<close> and \<open>Sync\<close>
  are the operations of the log file.\<close>

definition write_group ::
  "'f writable_file \<Rightarrow> ('f \<Rightarrow> (status \<times> 'f) option) \<Rightarrow> bool \<Rightarrow> write_batch \<Rightarrow> 'f db_core \<Rightarrow>
     (status \<times> 'f db_core) option" where
  "write_group ops Sync sync updates db = do {
     updates \<leftarrow> SetSequence updates (dc_last_sequence db + 1);
     n \<leftarrow> Batch_Count updates;
     let last_sequence = dc_last_sequence db + word_of_int n;
     (status, log) \<leftarrow> AddRecord ops (dc_log db) updates;
     (status, sync_error, dest) \<leftarrow>
       (if ok status \<and> sync then do {
          (status, dest) \<leftarrow> Sync (lw_dest log);
          Some (status, \<not> ok status, dest) }
        else Some (status, False, lw_dest log));
     (status, mem) \<leftarrow>
       (if ok status then InsertIntoMem updates (dc_mem db) else Some (status, dc_mem db));
     let db = db\<lparr>dc_log := log\<lparr>lw_dest := dest\<rparr>, dc_mem := mem\<rparr>;
     let db = (if sync_error then RecordBackgroundError status db else db);
     Some (status, db\<lparr>dc_last_sequence := last_sequence\<rparr>) }"

text \<open>Groups one after the other, until one fails.\<close>

fun write_groups ::
  "'f writable_file \<Rightarrow> ('f \<Rightarrow> (status \<times> 'f) option) \<Rightarrow> (bool \<times> write_batch) list \<Rightarrow> 'f db_core \<Rightarrow>
     (status \<times> 'f db_core) option" where
  "write_groups ops Sync [] db = Some (Status_OK, db)"
| "write_groups ops Sync ((sync, updates) # gs) db = do {
     (status, db) \<leftarrow> write_group ops Sync sync updates db;
     if ok status then write_groups ops Sync gs db else Some (status, db) }"

section \<open>A group is a prefix of the queue\<close>

text \<open>The operations of a queue of writers.\<close>

definition writer_ops :: "(write_batch \<Rightarrow> batch_op list) \<Rightarrow> db_writer list \<Rightarrow> batch_op list" where
  "writer_ops ops_of ws = concat (map (\<lambda>w. case dw_batch w of None \<Rightarrow> [] | Some b \<Rightarrow> ops_of b) ws)"

lemma writer_ops_simps [simp]:
  "writer_ops ops_of [] = []"
  "writer_ops ops_of (w # ws) = (case dw_batch w of None \<Rightarrow> [] | Some b \<Rightarrow> ops_of b) @ writer_ops ops_of ws"
  by (simp_all add: writer_ops_def)

definition queue_ok :: "(write_batch \<Rightarrow> batch_op list) \<Rightarrow> db_writer list \<Rightarrow> bool" where
  "queue_ok ops_of ws \<longleftrightarrow> (\<forall>w \<in> set ws. \<forall>b. dw_batch w = Some b \<longrightarrow> (\<exists>seq. represents b seq (ops_of b)))"

lemma writer_ops_take_le: "length (writer_ops ops_of (take n ws)) \<le> length (writer_ops ops_of ws)"
  by (induction ws arbitrary: n) (auto simp: take_Cons split: nat.splits)

lemma group_loop_ok:
  assumes "queue_ok ops_of ws" "represents tmp_batch 0 []"
    and "represents (case tmp of None \<Rightarrow> first_batch | Some r \<Rightarrow> r) seq ops0"
    and "length ops0 + length (writer_ops ops_of ws) < 2 ^ 31"
  shows "\<exists>r n seq'. group_loop fs max_size tmp_batch first_batch sz tmp lastw ws = Some (r, lastw + n) \<and>
    n \<le> length ws \<and> represents r seq' (ops0 @ writer_ops ops_of (take n ws)) \<and>
    (\<forall>w \<in> set (take n ws). dw_sync w \<longrightarrow> fs)"
  using assms
proof (induction ws arbitrary: sz tmp lastw seq ops0)
  case Nil
  then show ?case by auto
next
  case (Cons w ws)
  have stop: ?case
    if "group_loop fs max_size tmp_batch first_batch sz tmp lastw (w # ws) =
      Some (case tmp of None \<Rightarrow> first_batch | Some result \<Rightarrow> result, lastw)"
    using that Cons.prems(3) by (intro exI [of _ "case tmp of None \<Rightarrow> first_batch | Some r \<Rightarrow> r"] exI [of _ 0] exI [of _ seq]) (auto simp del: group_loop.simps)
  have ws: "queue_ok ops_of ws" using Cons.prems(1) by (simp add: queue_ok_def)
  show ?case
  proof (cases "dw_sync w \<and> \<not> fs")
    case False
    show ?thesis
    proof (cases "dw_batch w")
      case None
      with Cons.prems(4) have "length ops0 + length (writer_ops ops_of ws) < 2 ^ 31" by simp
      from Cons.IH [OF ws Cons.prems(2,3) this, of sz "lastw + 1"] obtain r n seq' where
        "group_loop fs max_size tmp_batch first_batch sz tmp (lastw + 1) ws = Some (r, lastw + 1 + n)"
        "n \<le> length ws" "represents r seq' (ops0 @ writer_ops ops_of (take n ws))"
        "\<forall>w \<in> set (take n ws). dw_sync w \<longrightarrow> fs" by blast
      with False None show ?thesis by (intro exI [of _ r] exI [of _ "Suc n"] exI [of _ seq']) auto
    next
      case (Some b)
      show ?thesis
      proof (cases "sz + ApproximateSize b > max_size")
        case True
        with False Some show ?thesis by (intro stop) (simp add: Let_def)
      next
        case fits: False
        obtain sb where b: "represents b sb (ops_of b)"
          using Cons.prems(1) Some by (auto simp: queue_ok_def)
        obtain r1 s1 where r1: "(case tmp of None \<Rightarrow> do { n \<leftarrow> Batch_Count tmp_batch; asserting (n = 0) (Batch_Append tmp_batch first_batch) }
            | Some result \<Rightarrow> Some result) = Some r1" "represents r1 s1 ops0"
        proof (cases tmp)
          case None
          have "length ops0 < 2 ^ 31" using Cons.prems(4) by simp
          with Append_represents [OF Cons.prems(2), of first_batch seq ops0] Cons.prems(3) None
          obtain r where "Batch_Append tmp_batch first_batch = Some r" "represents r 0 ops0" by auto
          with None represents_header(1) [OF Cons.prems(2)] that [of r 0] show ?thesis by simp
        qed (use Cons.prems(3) in simp)
        have small: "length ops0 + length (ops_of b) < 2 ^ 31"
          "length (ops0 @ ops_of b) + length (writer_ops ops_of ws) < 2 ^ 31" using Cons.prems(4) Some by simp_all
        from Append_represents [OF r1(2) b small(1)] obtain r2 where
          r2: "Batch_Append r1 b = Some r2" "represents r2 s1 (ops0 @ ops_of b)" by blast
        have "represents (case Some r2 of None \<Rightarrow> first_batch | Some r \<Rightarrow> r) s1 (ops0 @ ops_of b)" using r2(2) by simp
        from Cons.IH [OF ws Cons.prems(2) this small(2), of "sz + ApproximateSize b" "lastw + 1"] obtain r n seq' where
          "group_loop fs max_size tmp_batch first_batch (sz + ApproximateSize b) (Some r2) (lastw + 1) ws = Some (r, lastw + 1 + n)"
          "n \<le> length ws" "represents r seq' ((ops0 @ ops_of b) @ writer_ops ops_of (take n ws))"
          "\<forall>w \<in> set (take n ws). dw_sync w \<longrightarrow> fs" by blast
        with False Some fits r1(1) r2(1) show ?thesis
          by (intro exI [of _ r] exI [of _ "Suc n"] exI [of _ seq']) (auto simp: Let_def)
      qed
    qed
  qed (intro stop, simp)
qed

section \<open>A batch extends the history\<close>

primrec op_addition :: "SequenceNumber \<Rightarrow> batch_op \<Rightarrow> addition" where
  "op_addition seq (Put_op key val) = (seq, kTypeValue, key, val)"
| "op_addition seq (Delete_op key) = (seq, kTypeDeletion, key, [])"

text \<open>The additions of operations that are numbered from \<open>n\<close> on.\<close>

fun additions :: "nat \<Rightarrow> batch_op list \<Rightarrow> addition list" where
  "additions n [] = []"
| "additions n (op # ops) = op_addition (of_nat n) op # additions (n + 1) ops"

lemma additions_append [simp]: "additions n (ops @ ops') = additions n ops @ additions (n + length ops) ops'"
  by (induction ops arbitrary: n) simp_all

lemma length_additions [simp]: "length (additions n ops) = length ops"
  by (induction ops arbitrary: n) simp_all

primrec op_fits :: "(slice \<Rightarrow> bool) \<Rightarrow> batch_op \<Rightarrow> bool" where
  "op_fits valid (Put_op key val) \<longleftrightarrow> length key + 8 < 2 ^ 32 \<and> length val < 2 ^ 32 \<and> valid key"
| "op_fits valid (Delete_op key) \<longleftrightarrow> length key + 8 < 2 ^ 32 \<and> valid key"

lemma fst_op_addition [simp]: "fst (op_addition s op) = s"
  by (cases op) simp_all

lemma of_nat_le_kMax: "n < 2 ^ 56 \<Longrightarrow> (of_nat n :: u64) \<le> kMaxSequenceNumber"
  using kMax_unat by (simp add: word_le_nat_alt)

text \<open>The inserter of a memory table on the operations of a batch.\<close>

context comparator_ok
begin

lemma insert_op:
  assumes "mem_repr c valid m adds" "op_fits valid op" "n < 2 ^ 56" "\<forall>a \<in> set adds. unat (fst a) < n"
  shows "\<exists>m'. run_op mem_inserter op (of_nat n, Some m) =
      (of_nat (n + 1), Some m') \<and> mem_repr c valid m' (adds @ [op_addition (of_nat n) op])"
proof -
  have less: "\<forall>a \<in> set adds. fst a < of_nat n" using assms(3,4) by (simp add: word_less_nat_alt)
  note kmax = of_nat_le_kMax [OF assms(3)]
  show ?thesis
  proof (cases op)
    case (Put_op key val)
    then have "add_ok valid (of_nat n, kTypeValue, key, val)" using assms(2) kmax by simp
    from MemTable_Add_repr [OF assms(1) this less] show ?thesis by (auto simp: Put_op MemTableInserter_def add.commute)
  next
    case (Delete_op key)
    then have "add_ok valid (of_nat n, kTypeDeletion, key, [])" using assms(2) kmax by simp
    from MemTable_Add_repr [OF assms(1) this less] show ?thesis by (auto simp: Delete_op MemTableInserter_def add.commute)
  qed
qed

lemma insert_ops:
  assumes "mem_repr c valid m adds" "list_all (op_fits valid) ops" "n + length ops \<le> 2 ^ 56"
    "\<forall>a \<in> set adds. unat (fst a) < n"
  shows "\<exists>m'. fold (run_op mem_inserter) ops (of_nat n, Some m) =
      (of_nat (n + length ops), Some m') \<and> mem_repr c valid m' (adds @ additions n ops)"
  using assms
proof (induction ops arbitrary: m adds n)
  case (Cons op ops)
  have n: "n < 2 ^ 56" using Cons.prems(3) by simp
  from insert_op [OF Cons.prems(1) _ n Cons.prems(4), of op] Cons.prems(2) obtain m1 where m1:
    "run_op mem_inserter op (of_nat n, Some m) =
       (of_nat (n + 1), Some m1)" "mem_repr c valid m1 (adds @ [op_addition (of_nat n) op])" by auto
  have "\<forall>a \<in> set (adds @ [op_addition (of_nat n) op]). unat (fst a) < n + 1"
    using Cons.prems(4) n by (auto simp: less_Suc_eq)
  from Cons.IH [OF m1(2) _ _ this] Cons.prems(2,3) m1(1) show ?case by (simp del: of_nat_add)
qed simp

lemma InsertIntoMem_repr:
  assumes "mem_repr c valid m adds" "represents b (of_nat n) ops" "list_all (op_fits valid) ops"
    "n + length ops \<le> 2 ^ 56" "\<forall>a \<in> set adds. unat (fst a) < n"
  shows "\<exists>m'. InsertIntoMem b m = Some (Status_OK, m') \<and> mem_repr c valid m' (adds @ additions n ops)"
proof -
  from insert_ops [OF assms(1,3-5)] obtain m' where m':
    "fold (run_op mem_inserter) ops (of_nat n, Some m) =
       (of_nat (n + length ops), Some m')" "mem_repr c valid m' (adds @ additions n ops)" by blast
  then have "InsertIntoMem b m = Some (Status_OK, m')"
    using represents_header(2) [OF assms(2)]
    by (simp add: InsertIntoMem_def InsertInto_def Iterate_represents [OF assms(2)])
  with m'(2) show ?thesis by blast
qed

end

lemma unat_additions: "a \<in> set (additions n ops) \<Longrightarrow> n + length ops \<le> 2 ^ 64 \<Longrightarrow> n \<le> unat (fst a) \<and> unat (fst a) < n + length ops"
  by (induction ops arbitrary: n) (auto, fastforce+)

section \<open>Writing groups\<close>

lemma log_layout_append_snd: "snd (log_layout a (ds @ es)) = snd (log_layout (snd (log_layout a ds)) es)"
  by (induction ds arbitrary: a) simp_all

text \<open>The database after the operations \<open>ops\<close>: they are numbered from 1 on in the memory table, and
  the log is the layout of the records \<open>recs\<close>.\<close>

definition db_at ::
  "comparator \<Rightarrow> (slice \<Rightarrow> bool) \<Rightarrow> ('f \<Rightarrow> u8 list) \<Rightarrow> ('f \<Rightarrow> bool) \<Rightarrow> 'f db_core \<Rightarrow> batch_op list \<Rightarrow> slice list \<Rightarrow> bool" where
  "db_at user valid contents good db ops recs \<longleftrightarrow>
     mem_repr user valid (dc_mem db) (additions 1 ops) \<and> dc_last_sequence db = of_nat (length ops) \<and>
     good (lw_dest (dc_log db)) \<and> writer_inv (dc_log db) \<and>
     contents (lw_dest (dc_log db)) = fst (log_layout 32768 recs) \<and>
     writer_room (dc_log db) = snd (log_layout 32768 recs) \<and> ok (dc_bg_error db)"

text \<open>A \<open>Sync\<close> that succeeds and leaves the contents of the file alone.\<close>

definition syncs :: "('f \<Rightarrow> u8 list) \<Rightarrow> ('f \<Rightarrow> bool) \<Rightarrow> ('f \<Rightarrow> (status \<times> 'f) option) \<Rightarrow> bool" where
  "syncs contents good Sync \<longleftrightarrow>
     (\<forall>f. good f \<longrightarrow> (\<exists>f'. Sync f = Some (Status_OK, f') \<and> good f' \<and> contents f' = contents f))"

lemma write_group_ok:
  assumes "comparator_ok user valid lt" "append_file file contents good" "syncs contents good Sync"
    and db: "db_at user valid contents good db ops recs"
    and b: "represents b seq new" "list_all (op_fits valid) new" "length ops + length new < 2 ^ 56"
  shows "\<exists>b' db'. represents b' (of_nat (length ops + 1)) new \<and>
    write_group file Sync sync b db = Some (Status_OK, db') \<and>
    db_at user valid contents good db' (ops @ new) (recs @ [b'])"
proof -
  define b' where "b' = EncodeFixed64 (of_nat (length ops + 1)) @ EncodeFixed32 (of_nat (length new)) @ concat (map op_bytes new)"
  have set: "SetSequence b (dc_last_sequence db + 1) = Some b'"
    using represents_header(6) [OF b(1)] db by (simp add: db_at_def b'_def add.commute)
  have b': "represents b' (of_nat (length ops + 1)) new" using b(1) by (simp add: represents_def b'_def)
  have "good (lw_dest (dc_log db))" "writer_inv (dc_log db)" using db by (simp_all add: db_at_def)
  from append_file.AddRecord_writes [OF assms(2) this, of b'] db obtain log where
    log: "AddRecord file (dc_log db) b' = Some (Status_OK, log)" "good (lw_dest log)" "writer_inv log"
    "contents (lw_dest log) = fst (log_layout 32768 (recs @ [b']))"
    "writer_room log = snd (log_layout 32768 (recs @ [b']))"
    by (auto simp: db_at_def log_layout_append log_layout_append_snd)
  obtain dest where dest: "(if sync then do { (status, dest) \<leftarrow> Sync (lw_dest log); Some (status, \<not> ok status, dest) }
      else Some (Status_OK, False, lw_dest log)) = Some (Status_OK, False, dest)" "good dest"
    "contents dest = contents (lw_dest log)"
    using assms(3) log(2) by (cases sync) (fastforce simp: syncs_def)+
  have seq: "\<forall>a \<in> set (additions 1 ops). unat (fst a) < length ops + 1"
    using unat_additions [of _ 1 ops] b(3) by fastforce
  have "mem_repr user valid (dc_mem db) (additions 1 ops)" using db by (simp add: db_at_def)
  from comparator_ok.InsertIntoMem_repr [OF assms(1) this b' b(2) _ seq] b(3) obtain mem where
    mem: "InsertIntoMem b' (dc_mem db) = Some (Status_OK, mem)" "mem_repr user valid mem (additions 1 (ops @ new))"
    by (auto simp: add.commute)
  have "word_of_int (int (length new)) = (of_nat (length new) :: u64)" by simp
  then have "write_group file Sync sync b db = Some (Status_OK, db\<lparr>dc_log := log\<lparr>lw_dest := dest\<rparr>, dc_mem := mem,
      dc_last_sequence := dc_last_sequence db + of_nat (length new)\<rparr>)"
    using set represents_header(1) [OF b'] log(1) dest(1) mem(1)
    by (simp add: write_group_def Let_def del: of_nat_add)
  moreover have "db_at user valid contents good (db\<lparr>dc_log := log\<lparr>lw_dest := dest\<rparr>, dc_mem := mem,
      dc_last_sequence := dc_last_sequence db + of_nat (length new)\<rparr>) (ops @ new) (recs @ [b'])"
    using log dest mem(2) db by (simp add: db_at_def writer_inv_def writer_room_def)
  ultimately show ?thesis using b' by blast
qed

text \<open>Records whose batches are numbered through from \<open>n\<close> on.\<close>

fun numbered :: "nat \<Rightarrow> slice list \<Rightarrow> batch_op list list \<Rightarrow> bool" where
  "numbered n [] [] \<longleftrightarrow> True"
| "numbered n (b # bs) (ops # opss) \<longleftrightarrow> represents b (of_nat n) ops \<and> numbered (n + length ops) bs opss"
| "numbered n _ _ \<longleftrightarrow> False"

lemma numbered_length: "numbered n bs opss \<Longrightarrow> length bs = length opss"
  by (induction n bs opss rule: numbered.induct) simp_all

lemma numbered_take: "numbered n bs opss \<Longrightarrow> numbered n (take k bs) (take k opss)"
  by (induction n bs opss arbitrary: k rule: numbered.induct) (auto simp: take_Cons split: nat.splits)

lemma write_groups_ok:
  assumes "comparator_ok user valid lt" "append_file file contents good" "syncs contents good Sync"
    and "db_at user valid contents good db ops recs"
    and "list_all2 (\<lambda>g new. \<exists>seq. represents (snd g) seq new) gs opss" "list_all (list_all (op_fits valid)) opss"
    and "length ops + length (concat opss) < 2 ^ 56"
  shows "\<exists>bs db'. write_groups file Sync gs db = Some (Status_OK, db') \<and>
    db_at user valid contents good db' (ops @ concat opss) (recs @ bs) \<and> numbered (length ops + 1) bs opss"
  using assms(4-)
proof (induction gs arbitrary: db ops recs opss)
  case Nil
  then show ?case by (intro exI [of _ "[]"]) auto
next
  case (Cons g gs)
  obtain sync b where g: "g = (sync, b)" by (cases g)
  from Cons.prems(2) obtain new opss' seq where new: "opss = new # opss'" "represents b seq new"
    "list_all2 (\<lambda>g new. \<exists>seq. represents (snd g) seq new) gs opss'" by (auto simp: list_all2_Cons1 g)
  from Cons.prems(3,4) new(1) have fits: "list_all (op_fits valid) new" "list_all (list_all (op_fits valid)) opss'"
    "length ops + length new < 2 ^ 56" "length (ops @ new) + length (concat opss') < 2 ^ 56" by simp_all
  from write_group_ok [OF assms(1-3) Cons.prems(1) new(2) fits(1,3), of sync] obtain b' db1 where
    1: "represents b' (of_nat (length ops + 1)) new" "write_group file Sync sync b db = Some (Status_OK, db1)"
      "db_at user valid contents good db1 (ops @ new) (recs @ [b'])" by blast
  from Cons.IH [OF 1(3) new(3) fits(2,4)] obtain bs db2 where 2: "write_groups file Sync gs db1 = Some (Status_OK, db2)"
    "db_at user valid contents good db2 ((ops @ new) @ concat opss') ((recs @ [b']) @ bs)"
    "numbered (length (ops @ new) + 1) bs opss'" by blast
  show ?case
    using 1 2 by (intro exI [of _ "b' # bs"] exI [of _ db2]) (simp add: g new(1) add.commute add.left_commute)
qed

section \<open>Properties\<close>

text \<open>C16: group commit: \<open>BuildBatchGroup\<close> merges the batches of a first part of the queue of writers,
  which includes the first writer, into one batch with all their operations in the order of the
  queue; the writer that it reports as the last one is the last of this part, and a group of a
  writer that does not ask for a sync contains none that does.\<close>

theorem build_group_is_prefix:
  assumes "queue_ok ops_of (first # rest)" "dw_batch first = Some b" "represents tmp_batch 0 []"
    and "length (writer_ops ops_of (first # rest)) < 2 ^ 31"
  shows "\<exists>group lastw seq. BuildBatchGroup tmp_batch (first # rest) = Some (group, lastw) \<and>
    lastw \<le> length rest \<and> represents group seq (writer_ops ops_of (take (lastw + 1) (first # rest))) \<and>
    (\<forall>w \<in> set (take (lastw + 1) (first # rest)). dw_sync w \<longrightarrow> dw_sync first)"
proof -
  obtain seq where b: "represents b seq (ops_of b)" using assms(1,2) by (auto simp: queue_ok_def)
  have "queue_ok ops_of rest" using assms(1) by (simp add: queue_ok_def)
  moreover have "represents (case None of None \<Rightarrow> b | Some r \<Rightarrow> r) seq (ops_of b)" using b by simp
  moreover have "length (ops_of b) + length (writer_ops ops_of rest) < 2 ^ 31" using assms(2,4) by simp
  ultimately obtain r n seq' where
    "group_loop (dw_sync first) (if ApproximateSize b \<le> 131072 then ApproximateSize b + 131072 else 1048576)
       tmp_batch b (ApproximateSize b) None 0 rest = Some (r, 0 + n)"
    "n \<le> length rest" "represents r seq' (ops_of b @ writer_ops ops_of (take n rest))"
    "\<forall>w \<in> set (take n rest). dw_sync w \<longrightarrow> dw_sync first"
    using group_loop_ok [OF _ assms(3)] by blast
  with assms(2) show ?thesis
    by (intro exI [of _ r] exI [of _ n] exI [of _ seq']) (simp add: BuildBatchGroup_def Let_def)
qed

theorem build_group_is_prefix_witness:
  "\<exists>b group lastw seq. Batch_Put WriteBatch_Clear [1] [2] = Some b \<and>
     BuildBatchGroup WriteBatch_Clear [\<lparr>dw_batch = Some b, dw_sync = False\<rparr>, \<lparr>dw_batch = Some b, dw_sync = False\<rparr>] =
       Some (group, lastw) \<and> lastw \<le> 1 \<and>
     represents group seq (concat (replicate (lastw + 1) [Put_op [1] [2]]))"
proof -
  obtain b where b: "Batch_Put WriteBatch_Clear [1] [2] = Some b" "represents b 0 [Put_op [1] [2]]"
    using Put_represents [OF Clear_represents, of "[1]" "[2]"] by auto
  let ?w = "\<lparr>dw_batch = Some b, dw_sync = False\<rparr>"
  have q: "queue_ok (\<lambda>_. [Put_op [1] [2]]) [?w, ?w]" using b(2) by (auto simp: queue_ok_def)
  from build_group_is_prefix [OF q _ Clear_represents, of b] obtain group lastw seq where
    g: "BuildBatchGroup WriteBatch_Clear [?w, ?w] = Some (group, lastw)" "lastw \<le> 1"
    "represents group seq (writer_ops (\<lambda>_. [Put_op [1] [2]]) (take (lastw + 1) [?w, ?w]))" by auto
  moreover have "writer_ops (\<lambda>_. [Put_op [1] [2]]) (take (lastw + 1) [?w, ?w]) = concat (replicate (lastw + 1) [Put_op [1] [2]])"
    using g(2) by (cases lastw) auto
  ultimately show ?thesis using b(1) by auto
qed

end
