(* ===== verification/Ldb_Db_Read.thy ===== *)
theory Ldb_Db_Read
  imports Ldb_Db
begin

text \<open>
  How the database of \<open>db/db_impl.cc\<close> reads: \<open>Get\<close> asks the memory table, then the memory
  table that is being compacted, then the current version, which is a parameter here. The
  specification of the database is a finite map from keys to values, on which a write acts.
\<close>

section \<open>Get and the start of an empty database\<close>

text \<open>\<open>options_snapshot\<close> is the sequence number of \<open>options.snapshot\<close>, if there is one, and \<open>last_sequence\<close> that
  of the version set; \<open>current_Get\<close> is \<open>current->Get\<close>. The statistics and the reference counts are
  left out. The result is the status and \<open>*value\<close>.\<close>

definition DBImpl_Get ::
  "(LookupKey \<Rightarrow> slice \<Rightarrow> (status \<times> slice) option) \<Rightarrow> memtable \<Rightarrow> memtable option \<Rightarrow> SequenceNumber \<Rightarrow>
     SequenceNumber option \<Rightarrow> slice \<Rightarrow> slice \<Rightarrow> (status \<times> slice) option" where
  "DBImpl_Get current_Get mem imm last_sequence options_snapshot key val =
     (let snapshot = (case options_snapshot of Some sequence_number \<Rightarrow> sequence_number | None \<Rightarrow> last_sequence) in do {
       lkey \<leftarrow> LookupKey_new key snapshot;
       (found, val, s) \<leftarrow> MemTable_Get mem lkey (val, Status_OK);
       if found then Some (s, val)
       else do {
         (found, val, s) \<leftarrow> (case imm of
             None \<Rightarrow> Some (False, val, s)
           | Some imm \<Rightarrow> MemTable_Get imm lkey (val, s));
         if found then Some (s, val) else current_Get lkey val } })"

text \<open>The part of \<open>Open\<close> that gives a new database its log and its memory table.\<close>

definition open_new :: "comparator \<Rightarrow> 'f \<Rightarrow> 'f db_core option" where
  "open_new user lfile = do {
     mem \<leftarrow> MemTable_new user;
     Some \<lparr>dc_log = Writer lfile, dc_mem = MemTable_Ref mem, dc_last_sequence = 0, dc_bg_error = Status_OK\<rparr> }"

section \<open>The specification\<close>

primrec apply_op :: "batch_op \<Rightarrow> (slice \<Rightarrow> slice option) \<Rightarrow> slice \<Rightarrow> slice option" where
  "apply_op (Put_op key val) db = db(key \<mapsto> val)"
| "apply_op (Delete_op key) db = db(key := None)"

abbreviation apply_ops :: "batch_op list \<Rightarrow> (slice \<Rightarrow> slice option) \<Rightarrow> slice \<Rightarrow> slice option" where
  "apply_ops ops db \<equiv> fold apply_op ops db"

text \<open>What an addition that was found means on top of what lies below.\<close>

definition addition_value :: "addition option \<Rightarrow> slice option \<Rightarrow> slice option" where
  "addition_value a below =
     (case a of
        None \<Rightarrow> below
      | Some (_, kTypeValue, _, v) \<Rightarrow> Some v
      | Some (_, kTypeDeletion, _, _) \<Rightarrow> None)"

text \<open>What \<open>Get\<close> answers for the value of a key.\<close>

primrec get_answer :: "slice option \<Rightarrow> slice \<Rightarrow> status \<times> slice" where
  "get_answer None val = (NotFound [] [], val)"
| "get_answer (Some v) val = (Status_OK, v)"

text \<open>A version holds entries with their sequence numbers, as the tables do; at a snapshot it stands for the map of
  the latest visible entries.\<close>

definition version_map :: "addition list \<Rightarrow> SequenceNumber \<Rightarrow> slice \<Rightarrow> slice option" where
  "version_map entries snapshot u = addition_value (mem_lookup u snapshot entries) None"

text \<open>What \<open>Version::Get\<close> promises when its files can be read: the value of the latest entry for the user key that
  is not newer than the snapshot of the lookup key, or \<open>NotFound\<close>, and then the output is left alone.\<close>

definition version_holds ::
  "(slice \<Rightarrow> bool) \<Rightarrow> (LookupKey \<Rightarrow> slice \<Rightarrow> (status \<times> slice) option) \<Rightarrow> addition list \<Rightarrow> bool" where
  "version_holds valid current_Get entries \<longleftrightarrow>
     (\<forall>u s lkey val. valid u \<and> length u + 8 < 2 ^ 32 \<and> s \<le> kMaxSequenceNumber \<and> LookupKey_new u s = Some lkey \<longrightarrow>
       current_Get lkey val = Some (get_answer (version_map entries s u) val))"

text \<open>A version whose entries are a list.\<close>

definition list_version_Get :: "addition list \<Rightarrow> LookupKey \<Rightarrow> slice \<Rightarrow> (status \<times> slice) option" where
  "list_version_Get entries lkey val =
     map_option (\<lambda>p. get_answer (version_map entries (pk_sequence p) (pk_user_key p)) val) (ParseInternalKey (lookup_internal_key lkey))"

lemma version_holds_list: "version_holds valid (list_version_Get entries) entries"
  unfolding version_holds_def
proof (intro allI impI)
  fix u s lkey val
  assume l: "valid u \<and> length u + 8 < 2 ^ 32 \<and> s \<le> kMaxSequenceNumber \<and> LookupKey_new u s = Some lkey"
  then have "lookup_internal_key lkey = ikey u (packed s kTypeValue)" using LookupKey_parts [of s u] by auto
  with l show "list_version_Get entries lkey val = Some (get_answer (version_map entries s u) val)"
    by (simp add: list_version_Get_def ParseInternalKey_ikey)
qed

lemma mem_lookup_append:
  "mem_lookup u s (as @ bs) = (case mem_lookup u s bs of None \<Rightarrow> mem_lookup u s as | Some a \<Rightarrow> Some a)"
  by (simp add: mem_lookup_def Let_def)

lemma mem_lookup_single: "mem_lookup u s [a] = (if visible u s a then Some a else None)"
  by (simp add: mem_lookup_def)

text \<open>A lookup in the numbered operations is a lookup in the map that the first of them built.\<close>

lemma lookup_additions:
  assumes "n + length ops \<le> 2 ^ 64" "j < 2 ^ 64"
  shows "addition_value (mem_lookup u (of_nat j) (additions n ops)) (base u) = apply_ops (take (Suc j - n) ops) base u"
  using assms(1)
proof (induction ops rule: rev_induct)
  case Nil
  then show ?case by (simp add: mem_lookup_def addition_value_def)
next
  case (snoc op ops)
  let ?m = "n + length ops"
  have m: "?m < 2 ^ 64" using snoc.prems by simp
  then have le: "(of_nat ?m :: u64) \<le> of_nat j \<longleftrightarrow> ?m \<le> j"
    using assms(2) by (simp add: word_le_nat_alt take_bit_nat_eq_self del: of_nat_add)
  have IH: "addition_value (mem_lookup u (of_nat j) (additions n ops)) (base u) = apply_ops (take (Suc j - n) ops) base u"
    using snoc by simp
  show ?case
  proof (cases "?m \<le> j")
    case True
    then have "take (Suc j - n) ops = ops" "take (Suc j - n) (ops @ [op]) = ops @ [op]" by simp_all
    with True IH le show ?thesis
      by (cases op) (auto simp: mem_lookup_append mem_lookup_single addition_value_def simp del: of_nat_add)
  next
    case False
    then have "take (Suc j - n) (ops @ [op]) = take (Suc j - n) ops" by simp
    with False IH le show ?thesis
      by (cases op) (simp_all add: mem_lookup_append mem_lookup_single del: of_nat_add)
  qed
qed

lemma MemTable_Get_answer:
  assumes "comparator_ok user valid lt" "mem_repr user valid m adds" "valid u" "length u + 8 < 2 ^ 32"
    "s \<le> kMaxSequenceNumber" "LookupKey_new u s = Some lk"
  shows "MemTable_Get m lk (val, Status_OK) = Some
    (case mem_lookup u s adds of
       None \<Rightarrow> (False, val, Status_OK)
     | Some a \<Rightarrow> let (st, v) = get_answer (addition_value (Some a) below) val in (True, v, st))"
  using comparator_ok.MemTable_Get_repr [OF assms, of val Status_OK]
  by (auto simp: addition_value_def split: option.splits ValueType.splits prod.splits)

lemma open_new_db_at:
  assumes "good f" "contents f = []"
  shows "\<exists>db. open_new user f = Some db \<and> db_at user valid contents good db [] []"
proof -
  obtain m where "MemTable_new user = Some m" "mem_repr user valid m []" using mem_repr_new by blast
  with assms show ?thesis
    by (simp add: open_new_def db_at_def MemTable_Ref_def mem_repr_def ok_def Status_OK_def)
qed

section \<open>Properties\<close>

text \<open>C12: reads see a snapshot: let the version hold any entries, the table under compaction the
  operations \<open>ops1\<close> numbered from \<open>n + 1\<close> on and the memory table the operations \<open>ops2\<close> that came after
  them, and let \<open>j\<close> be the sequence number of the snapshot, or the last one without a snapshot. Then
  \<open>Get\<close> answers from the map that the version stands for at \<open>j\<close>, changed by exactly the operations
  with numbers up to \<open>j\<close>: the value of the key, or \<open>NotFound\<close> and the output left as it was.\<close>

theorem get_reads_snapshot:
  assumes "comparator_ok user valid lt" "version_holds valid current_Get entries"
    and "mem_repr user valid imm (additions (n + 1) ops1)"
    and "mem_repr user valid mem (additions (n + 1 + length ops1) ops2)"
    and "valid key" "length key + 8 < 2 ^ 32" "j < 2 ^ 56" "n + length (ops1 @ ops2) < 2 ^ 56"
    and "(case options_snapshot of Some s \<Rightarrow> s | None \<Rightarrow> last_sequence) = of_nat j"
  shows "DBImpl_Get current_Get mem (Some imm) last_sequence options_snapshot key val =
    Some (get_answer (apply_ops (take (j - n) (ops1 @ ops2)) (version_map entries (of_nat j)) key) val)"
proof -
  note max = of_nat_le_kMax [OF assms(7)]
  let ?base = "version_map entries (of_nat j)"
  obtain lk where lk: "LookupKey_new key (of_nat j) = Some lk" using LookupKey_parts [OF max, of key] by blast
  have spec: "apply_ops (take (j - n) (ops1 @ ops2)) ?base key =
      addition_value (mem_lookup key (of_nat j) (additions (n + 1) (ops1 @ ops2))) (?base key)"
    using lookup_additions [of "n + 1" "ops1 @ ops2" j key ?base] assms(7,8) by simp
  define newer where "newer = mem_lookup key (of_nat j) (additions (n + 1 + length ops1) ops2)"
  define older where "older = mem_lookup key (of_nat j) (additions (n + 1) ops1)"
  have look: "mem_lookup key (of_nat j) (additions (n + 1) (ops1 @ ops2)) = (case newer of None \<Rightarrow> older | Some a \<Rightarrow> Some a)"
    unfolding newer_def older_def by (simp only: additions_append mem_lookup_append)
  note get = MemTable_Get_answer [OF assms(1) _ assms(5,6) max lk, of _ _ val "?base key"]
  note get_mem = get [OF assms(4), folded newer_def] and get_imm = get [OF assms(3), folded older_def]
  have version: "current_Get lk val = Some (get_answer (?base key) val)" for val
    using assms(2,5,6) max lk unfolding version_holds_def by blast
  show ?thesis
    unfolding spec look DBImpl_Get_def assms(9) Let_def lk Option.bind.bind_lunit get_mem get_imm
    by (cases newer; cases older) (simp_all add: get_imm version addition_value_def split_beta)
qed

text \<open>The version has a value for the key, the tables overwrite another key and then delete this one.\<close>

theorem get_reads_snapshot_witness:
  "\<exists>m0 imm mem. MemTable_new BytewiseComparator = Some m0 \<and>
     MemTable_Add 2 kTypeValue [6] [4] m0 = Some imm \<and> MemTable_Add 3 kTypeDeletion [5] [] m0 = Some mem \<and>
     (let get = DBImpl_Get (list_version_Get [(1, kTypeValue, [5], [2, 3])]) mem (Some imm) 3
      in get (Some 0) [5] [] = Some (NotFound [] [], []) \<and> get (Some 1) [5] [] = Some (Status_OK, [2, 3]) \<and>
        get None [6] [] = Some (Status_OK, [4]) \<and> get None [5] [] = Some (NotFound [] [], []))"
proof -
  have seq: "(2 :: u64) \<le> kMaxSequenceNumber" "(3 :: u64) \<le> kMaxSequenceNumber"
    by (simp_all add: kMaxSequenceNumber_def push_bit_eq_mult)
  obtain m0 where m0: "MemTable_new BytewiseComparator = Some m0" "mem_repr BytewiseComparator (\<lambda>_. True) m0 []"
    using mem_repr_new [of BytewiseComparator "\<lambda>_. True"] by blast
  from bytewise.MemTable_Add_repr [OF m0(2), of 2 kTypeValue "[6]" "[4]"] seq obtain imm where
    imm: "MemTable_Add 2 kTypeValue [6] [4] m0 = Some imm"
    "mem_repr BytewiseComparator (\<lambda>_. True) imm [(2, kTypeValue, [6], [4])]" by auto
  from bytewise.MemTable_Add_repr [OF m0(2), of 3 kTypeDeletion "[5]" "[]"] seq obtain mem where
    mem: "MemTable_Add 3 kTypeDeletion [5] [] m0 = Some mem"
    "mem_repr BytewiseComparator (\<lambda>_. True) mem [(3, kTypeDeletion, [5], [])]" by auto
  let ?vers = "[(1, kTypeValue, [5], [2, 3])] :: addition list"
  have tables: "mem_repr BytewiseComparator (\<lambda>_. True) imm (additions (1 + 1) [Put_op [6] [4]])"
    "mem_repr BytewiseComparator (\<lambda>_. True) mem (additions (1 + 1 + length [Put_op [6] [4]]) [Delete_op [5]])"
    using imm(2) mem(2) by simp_all
  have get: "DBImpl_Get (list_version_Get ?vers) mem (Some imm) 3 snapshot key [] =
      Some (get_answer (apply_ops (take (j - 1) ([Put_op [6] [4]] @ [Delete_op [5]])) (version_map ?vers (of_nat j)) key) [])"
    if "j < 2 ^ 56" "length key + 8 < 2 ^ 32" "(case snapshot of Some s \<Rightarrow> s | None \<Rightarrow> 3) = of_nat j" for j snapshot key
    by (rule get_reads_snapshot [OF bytewise.comparator_ok_axioms version_holds_list tables TrueI that(2,1) _ that(3)]) simp
  have "(0 :: u64) = of_nat 0" "(1 :: u64) = of_nat 1" "(3 :: u64) = of_nat 3" by simp_all
  then show ?thesis
    using m0(1) imm(1) mem(1) get [of 0 "[5]" "Some 0"] get [of 1 "[5]" "Some 1"] get [of 3 "[6]" None] get [of 3 "[5]" None]
    by (simp add: version_map_def mem_lookup_def addition_value_def)
qed

end
