(* ===== verification/Ldb_Recovery.thy ===== *)
theory Ldb_Recovery
  imports Ldb_Db_Read
begin

text \<open>
  Recovery of a log, \<open>DBImpl::RecoverLogFile\<close> in \<open>db/db_impl.cc\<close>: the records that the reader finds
  are applied to a memory table, which is written to a level-0 table whenever it grows too large.
  Together with \<open>Ldb_Db\<close> and \<open>Ldb_Log_Props\<close> this gives what a crash leaves of the writes.
\<close>

section \<open>The loop over the records\<close>

text \<open>The options that the loop reads.\<close>

record recovery_options =
  ro_user_comparator :: comparator
  ro_paranoid_checks :: bool
  ro_write_buffer_size :: nat

text \<open>The variables of the function; \<open>rv_tables\<close> are the memory tables that were given to
  \<open>WriteLevel0Table\<close>, of which there are \<open>compactions\<close> many.\<close>

record 'f recovery =
  rv_reader :: "'f log_reader"
  rv_record :: slice
  rv_scratch :: "u8 list"
  rv_status :: status
  rv_mem :: "memtable option"
  rv_tables :: "memtable list"
  rv_max_sequence :: u64

definition MaybeIgnoreError :: "recovery_options \<Rightarrow> status \<Rightarrow> status" where
  "MaybeIgnoreError opt s = (if ok s \<or> ro_paranoid_checks opt then s else Status_OK)"

text \<open>\<open>LogReporter::Corruption\<close>: with \<open>paranoid_checks\<close> the first report becomes the status.\<close>

definition LogReporter_Corruption :: "recovery_options \<Rightarrow> status \<Rightarrow> status \<Rightarrow> status" where
  "LogReporter_Corruption opt s status = (if ro_paranoid_checks opt \<and> ok status then s else status)"

text \<open>\<open>ReadRecord\<close> with the reports that it makes.\<close>

definition read_reporting ::
  "recovery_options \<Rightarrow> 'f sequential_file \<Rightarrow> 'f recovery \<Rightarrow> (bool \<times> 'f recovery) option" where
  "read_reporting opt sf v =
     (case ReadRecord sf ((rv_reader v)\<lparr>lr_reporter := Some []\<rparr>) (rv_record v) (rv_scratch v) of
        None \<Rightarrow> None
      | Some (found, rcd, scratch, reader) \<Rightarrow>
          Some (found, v\<lparr>rv_reader := reader, rv_record := rcd, rv_scratch := scratch,
            rv_status := fold (\<lambda>(_, s). LogReporter_Corruption opt s)
              (case lr_reporter reader of None \<Rightarrow> [] | Some calls \<Rightarrow> calls) (rv_status v)\<rparr>))"

text \<open>What the loop does with a record: \<open>Inl\<close> goes on, \<open>Inr\<close> is a break.\<close>

definition recover_record ::
  "recovery_options \<Rightarrow> (memtable list \<Rightarrow> memtable \<Rightarrow> status) \<Rightarrow> 'f recovery \<Rightarrow> ('f recovery + 'f recovery) option" where
  "recover_record opt WriteLevel0Table v =
     (if length (rv_record v) < 12 then
        Some (Inl (v\<lparr>rv_status := LogReporter_Corruption opt (Corruption (bytes_of ''log record too small'') []) (rv_status v)\<rparr>))
      else do {
        batch \<leftarrow> Batch_SetContents (rv_record v);
        mem \<leftarrow> (case rv_mem v of
          None \<Rightarrow> map_option MemTable_Ref (MemTable_new (ro_user_comparator opt))
        | Some mem \<Rightarrow> Some mem);
        (status, mem) \<leftarrow> InsertIntoMem batch mem;
        let status = MaybeIgnoreError opt status;
        let v = v\<lparr>rv_status := status, rv_mem := Some mem\<rparr>;
        if \<not> ok status then Some (Inr v)
        else do {
          seq \<leftarrow> Batch_Sequence batch;
          n \<leftarrow> Batch_Count batch;
          let last_seq = seq + word_of_int n - 1;
          let v = (if last_seq > rv_max_sequence v then v\<lparr>rv_max_sequence := last_seq\<rparr> else v);
          if ApproximateMemoryUsage mem > ro_write_buffer_size opt then do {
            let status = WriteLevel0Table (rv_tables v) mem;
            _ \<leftarrow> MemTable_Unref mem;
            let v = v\<lparr>rv_tables := rv_tables v @ [mem], rv_mem := None, rv_status := status\<rparr>;
            Some (if \<not> ok status then Inr v else Inl v) }
          else Some (Inl v) } })"

partial_function (option) recover_loop ::
  "recovery_options \<Rightarrow> 'f sequential_file \<Rightarrow> (memtable list \<Rightarrow> memtable \<Rightarrow> status) \<Rightarrow> 'f recovery \<Rightarrow> 'f recovery option" where
  "recover_loop opt sf WriteLevel0Table v =
     (case read_reporting opt sf v of
        None \<Rightarrow> None
      | Some (found, v) \<Rightarrow>
          if found \<and> ok (rv_status v) then
            (case recover_record opt WriteLevel0Table v of
               None \<Rightarrow> None
             | Some (Inl v) \<Rightarrow> recover_loop opt sf WriteLevel0Table v
             | Some (Inr v) \<Rightarrow> Some v)
          else Some v)"

text \<open>The state before the loop, on an opened file.\<close>

definition recovery_start :: "'f \<Rightarrow> u64 \<Rightarrow> 'f recovery" where
  "recovery_start file max_sequence =
     \<lparr>rv_reader = Reader file (Some []) True 0, rv_record = [], rv_scratch = [], rv_status = Status_OK,
      rv_mem = None, rv_tables = [], rv_max_sequence = max_sequence\<rparr>"

text \<open>The end of the function when the log is not reused: what is left goes to a level-0 table.\<close>

definition recovery_finish ::
  "(memtable list \<Rightarrow> memtable \<Rightarrow> status) \<Rightarrow> 'f recovery \<Rightarrow> 'f recovery option" where
  "recovery_finish WriteLevel0Table v =
     (case rv_mem v of
        None \<Rightarrow> Some v
      | Some mem \<Rightarrow>
          let v = (if ok (rv_status v)
                   then v\<lparr>rv_tables := rv_tables v @ [mem], rv_status := WriteLevel0Table (rv_tables v) mem\<rparr> else v)
          in do {
            _ \<leftarrow> MemTable_Unref mem;
            Some (v\<lparr>rv_mem := None\<rparr>) })"

definition RecoverLogFile ::
  "recovery_options \<Rightarrow> 'f sequential_file \<Rightarrow> (memtable list \<Rightarrow> memtable \<Rightarrow> status) \<Rightarrow> 'f \<Rightarrow> u64 \<Rightarrow> 'f recovery option" where
  "RecoverLogFile opt sf WriteLevel0Table file max_sequence = do {
     v \<leftarrow> recover_loop opt sf WriteLevel0Table (recovery_start file max_sequence);
     recovery_finish WriteLevel0Table v }"

section \<open>A record extends what was recovered\<close>

lemma mem_repr_Ref [simp]: "mem_repr user valid (m\<lparr>mt_refs := n\<rparr>) adds \<longleftrightarrow> mem_repr user valid m adds"
  by (simp add: mem_repr_def)

lemma MemTable_Add_refs: "MemTable_Add s t k v m = Some m' \<Longrightarrow> mt_refs m' = mt_refs m"
  by (auto simp: MemTable_Add_def Let_def asserting_def bind_eq_Some_conv split: if_splits)

lemma run_op_refs:
  "run_op mem_inserter op (n, Some m) = (n', Some m') \<Longrightarrow>
     mt_refs m' = mt_refs m"
  by (cases op) (auto simp: MemTableInserter_def MemTable_Add_refs)

lemma run_op_None:
  "snd (run_op mem_inserter op (n, None)) = None"
  by (cases op) (auto simp: MemTableInserter_def)

lemma run_ops_None:
  "snd x = None \<Longrightarrow>
     snd (fold (run_op mem_inserter) ops x) = None"
proof (induction ops arbitrary: x)
  case (Cons op ops)
  from Cons.prems have "x = (fst x, None)" by (cases x) simp
  then have "snd (run_op mem_inserter op x) = None"
    using run_op_None by metis
  from Cons.IH [OF this] show ?case by simp
qed simp

lemma run_ops_refs:
  "fold (run_op mem_inserter) ops (n, Some m) = (n', Some m') \<Longrightarrow>
     mt_refs m' = mt_refs m"
proof (induction ops arbitrary: n m)
  case (Cons op ops)
  obtain n1 mo where 1: "run_op mem_inserter op (n, Some m) = (n1, mo)"
    by fastforce
  with Cons.prems run_ops_None [of "(n1, mo)" ops] obtain m1 where "mo = Some m1" by (cases mo) auto
  with 1 Cons.prems Cons.IH [of n1 m1] run_op_refs [of op n m n1 m1] show ?case by simp
qed simp

lemma InsertIntoMem_refs:
  assumes "InsertIntoMem b m = Some (s, m')" "represents b seq ops"
  shows "mt_refs m' = mt_refs m"
proof -
  obtain n' mo where run: "fold (run_op mem_inserter) ops (seq, Some m) = (n', mo)" by fastforce
  with assms(1) have "mo = Some m'"
    by (simp add: InsertIntoMem_def InsertInto_def represents_header(2) [OF assms(2)] Iterate_represents [OF assms(2)]
        bind_eq_Some_conv)
  with run run_ops_refs [of ops seq m] show ?thesis by simp
qed

text \<open>What was recovered so far: no error, and the tables and the memory table hold the additions.\<close>

definition rec_repr ::
  "comparator \<Rightarrow> (slice \<Rightarrow> bool) \<Rightarrow> 'f recovery \<Rightarrow> addition list \<Rightarrow> u64 \<Rightarrow> bool" where
  "rec_repr user valid v adds max_seq \<longleftrightarrow>
     rv_status v = Status_OK \<and> rv_max_sequence v = max_seq \<and>
     (\<exists>chunks rest. list_all2 (mem_repr user valid) (rv_tables v) chunks \<and> concat chunks @ rest = adds \<and>
        (case rv_mem v of None \<Rightarrow> rest = [] | Some m \<Rightarrow> mem_repr user valid m rest \<and> mt_refs m = 1))"

lemma rv_max_if:
  "(if x > rv_max_sequence v then v\<lparr>rv_max_sequence := x\<rparr> else v) =
     v\<lparr>rv_max_sequence := (if x > rv_max_sequence v then x else rv_max_sequence v)\<rparr>"
  by (cases v) simp

lemma rec_repr_read [simp]:
  "rec_repr user valid (v\<lparr>rv_reader := r, rv_record := x, rv_scratch := s\<rparr>) = rec_repr user valid v"
  by (simp add: rec_repr_def fun_eq_iff)

lemma ok_Status_OK [simp]: "ok Status_OK"
  by (simp add: ok_def Status_OK_def)

lemma recover_record_ok:
  assumes "comparator_ok (ro_user_comparator opt) valid lt" "\<forall>tables m. WriteLevel0Table tables m = Status_OK"
    and v: "rec_repr (ro_user_comparator opt) valid v (additions 1 ops) (of_nat (length ops))"
    and b: "represents (rv_record v) (of_nat (length ops + 1)) new" "list_all (op_fits valid) new"
    and "length ops + length new < 2 ^ 56"
  shows "\<exists>v'. recover_record opt WriteLevel0Table v = Some (Inl v') \<and> rv_reader v' = rv_reader v \<and>
    rec_repr (ro_user_comparator opt) valid v' (additions 1 (ops @ new)) (of_nat (length (ops @ new)))"
proof -
  let ?user = "ro_user_comparator opt"
  obtain chunks rest where c: "list_all2 (mem_repr ?user valid) (rv_tables v) chunks" "concat chunks @ rest = additions 1 ops"
    "case rv_mem v of None \<Rightarrow> rest = [] | Some m \<Rightarrow> mem_repr ?user valid m rest \<and> mt_refs m = 1"
    using v by (auto simp: rec_repr_def)
  obtain m0 where m0: "(case rv_mem v of None \<Rightarrow> map_option MemTable_Ref (MemTable_new ?user) | Some m \<Rightarrow> Some m) = Some m0"
    "mem_repr ?user valid m0 rest" "mt_refs m0 = 1"
  proof (cases "rv_mem v")
    case None
    obtain m where m: "MemTable_new ?user = Some m" "mem_repr ?user valid m []" using mem_repr_new by blast
    then have "mt_refs m = 0" by (auto simp: MemTable_new_def bind_eq_Some_conv)
    with None m c(3) that show thesis by (simp add: MemTable_Ref_def)
  qed (use c(3) that in simp)
  have "unat (fst a) < length ops + 1" if "a \<in> set rest" for a
  proof -
    have "a \<in> set (additions 1 ops)" using that c(2) by (metis Un_iff set_append)
    with unat_additions [of a 1 ops] assms(6) show ?thesis by simp
  qed
  with comparator_ok.InsertIntoMem_repr [OF assms(1) m0(2) b] assms(6) obtain m1 where
    m1: "InsertIntoMem (rv_record v) m0 = Some (Status_OK, m1)" "mem_repr ?user valid m1 (rest @ additions (length ops + 1) new)"
    by auto
  have refs: "mt_refs m1 = 1" using InsertIntoMem_refs [OF m1(1) b(1)] m0(3) by simp
  note h = represents_header [OF b(1)]
  have contents: "Batch_SetContents (rv_record v) = Some (rv_record v)" "\<not> length (rv_record v) < 12"
    using h(3) by (simp_all add: Batch_SetContents_def kHeader_def)
  have last_seq: "of_nat (length ops + 1) + word_of_int (int (length new)) - 1 = (of_nat (length (ops @ new)) :: u64)"
    by simp
  have max: "(if (of_nat (length (ops @ new)) :: u64) > rv_max_sequence v then of_nat (length (ops @ new)) else rv_max_sequence v) =
      of_nat (length (ops @ new))"
  proof -
    have "unat (of_nat (length ops) :: u64) = length ops" by (rule uint64_small) (use assms(6) in simp)
    moreover have "unat (of_nat (length (ops @ new)) :: u64) = length (ops @ new)"
      by (rule uint64_small) (use assms(6) in simp)
    moreover have "new = [] \<or> length ops < length (ops @ new)" by simp
    ultimately show ?thesis using v by (elim disjE) (simp_all add: rec_repr_def word_less_nat_alt del: of_nat_add length_append)
  qed
  have adds: "additions 1 (ops @ new) = concat chunks @ rest @ additions (length ops + 1) new"
    using c(2) by (simp add: append_assoc [symmetric] del: append_assoc)
  let ?v = "v\<lparr>rv_status := Status_OK, rv_mem := Some m1, rv_max_sequence := of_nat (length (ops @ new))\<rparr>"
  have step: "recover_record opt WriteLevel0Table v =
      (if ApproximateMemoryUsage m1 > ro_write_buffer_size opt
       then Some (Inl (?v\<lparr>rv_tables := rv_tables v @ [m1], rv_mem := None, rv_status := Status_OK\<rparr>)) else Some (Inl ?v))"
  proof -
    have max': "(if (of_nat (length (ops @ new)) :: u64) > rv_max_sequence (v\<lparr>rv_status := Status_OK, rv_mem := Some m1\<rparr>)
        then of_nat (length (ops @ new)) else rv_max_sequence (v\<lparr>rv_status := Status_OK, rv_mem := Some m1\<rparr>)) =
        of_nat (length (ops @ new))"
    proof -
      have "rv_max_sequence (v\<lparr>rv_status := Status_OK, rv_mem := Some m1\<rparr>) = rv_max_sequence v" by simp
      with max show ?thesis by (simp only:)
    qed
    show ?thesis
      using refs assms(2)
      by (simp only: recover_record_def contents m0(1) m1(1) h(1,2) Option.bind.bind_lunit prod.case Let_def
          MaybeIgnoreError_def ok_Status_OK if_False if_True last_seq rv_max_if max' simp_thms)
        (simp add: MemTable_Unref_def Let_def)
  qed
  show ?thesis
  proof (cases "ApproximateMemoryUsage m1 > ro_write_buffer_size opt")
    case True
    let ?v = "v\<lparr>rv_status := Status_OK, rv_max_sequence := of_nat (length (ops @ new)),
      rv_tables := rv_tables v @ [m1], rv_mem := None\<rparr>"
    have "recover_record opt WriteLevel0Table v = Some (Inl ?v)"
      using True by (simp add: step)
    moreover have "rec_repr ?user valid ?v (additions 1 (ops @ new)) (of_nat (length (ops @ new)))"
      unfolding rec_repr_def
      by (rule conjI, simp, rule conjI, simp, rule exI [of _ "chunks @ [rest @ additions (length ops + 1) new]"], rule exI [of _ "[]"])
        (use c(1) m1(2) adds in \<open>simp add: list_all2_appendI\<close>)
    ultimately show ?thesis by auto
  next
    case False
    let ?v = "v\<lparr>rv_status := Status_OK, rv_mem := Some m1, rv_max_sequence := of_nat (length (ops @ new))\<rparr>"
    have "recover_record opt WriteLevel0Table v = Some (Inl ?v)"
      using False by (simp add: step)
    moreover have "rec_repr ?user valid ?v (additions 1 (ops @ new)) (of_nat (length (ops @ new)))"
      unfolding rec_repr_def
      by (rule conjI, simp, rule conjI, simp, rule exI [of _ chunks], rule exI [of _ "rest @ additions (length ops + 1) new"])
        (use c(1) m1(2) refs adds in simp)
    ultimately show ?thesis by auto
  qed
qed

section \<open>Recovery of a log that was cut off\<close>

context read_file
begin

lemma read_reporting_complete:
  assumes "view (rv_reader v) a (fst (layout a True data) @ D)" "a \<le> 32768"
  shows "\<exists>s r'. read_reporting opt sf v = Some (True, v\<lparr>rv_reader := r', rv_record := data, rv_scratch := s\<rparr>) \<and>
    view r' (snd (layout a True data)) D"
proof -
  have "view ((rv_reader v)\<lparr>lr_reporter := Some []\<rparr>) a (fst (layout a True data) @ D)"
    using assms(1) by (simp add: view_def)
  from ReadRecord_complete [OF this assms(2), of "rv_record v" "rv_scratch v"] obtain s r' where
    "ReadRecord sf ((rv_reader v)\<lparr>lr_reporter := Some []\<rparr>) (rv_record v) (rv_scratch v) = Some (True, data, s, r')"
    "view r' (snd (layout a True data)) D" "lr_reporter r' = Some []" by (auto simp: same_def)
  then show ?thesis by (intro exI [of _ s] exI [of _ r']) (simp add: read_reporting_def)
qed

lemma read_reporting_cut:
  assumes "view (rv_reader v) a D" "fst (layout a True data) = D @ X" "X \<noteq> []" "a \<le> 32768"
  shows "\<exists>s r'. read_reporting opt sf v = Some (False, v\<lparr>rv_reader := r', rv_record := [], rv_scratch := s\<rparr>)"
proof -
  have "view ((rv_reader v)\<lparr>lr_reporter := Some []\<rparr>) a D" using assms(1) by (simp add: view_def)
  from ReadRecord_cut [OF this assms(2-4), of "rv_record v" "rv_scratch v"] obtain s r' where
    "ReadRecord sf ((rv_reader v)\<lparr>lr_reporter := Some []\<rparr>) (rv_record v) (rv_scratch v) = Some (False, [], s, r')"
    "lr_reporter r' = Some []" by (auto simp: same_def)
  then show ?thesis by (intro exI [of _ s] exI [of _ r']) (simp add: read_reporting_def)
qed

lemma read_reporting_end:
  assumes "view (rv_reader v) a []" "a \<le> 32768"
  shows "\<exists>s r'. read_reporting opt sf v = Some (False, v\<lparr>rv_reader := r', rv_record := [], rv_scratch := s\<rparr>)"
proof -
  have "view ((rv_reader v)\<lparr>lr_reporter := Some []\<rparr>) a []" using assms(1) by (simp add: view_def)
  from ReadRecord_end [OF this assms(2), of "rv_record v" "rv_scratch v"] obtain s r' where
    "ReadRecord sf ((rv_reader v)\<lparr>lr_reporter := Some []\<rparr>) (rv_record v) (rv_scratch v) = Some (False, [], s, r')"
    "lr_reporter r' = Some []" by (auto simp: same_def)
  then show ?thesis by (intro exI [of _ s] exI [of _ r']) (simp add: read_reporting_def)
qed

lemma recover_loop_cut:
  assumes "comparator_ok (ro_user_comparator opt) valid lt" "\<forall>tables m. WriteLevel0Table tables m = Status_OK"
    and "view (rv_reader v) a D" "fst (log_layout a bs) = D @ X" "a \<le> 32768"
    and "rec_repr (ro_user_comparator opt) valid v (additions 1 ops) (of_nat (length ops))"
    and "numbered (length ops + 1) bs opss" "list_all (list_all (op_fits valid)) opss"
    and "length ops + length (concat opss) < 2 ^ 56"
  shows "\<exists>k v'. k \<le> length bs \<and> recover_loop opt sf WriteLevel0Table v = Some v' \<and>
    rec_repr (ro_user_comparator opt) valid v' (additions 1 (ops @ concat (take k opss)))
      (of_nat (length (ops @ concat (take k opss)))) \<and>
    length (fst (log_layout a (take k bs))) \<le> length D \<and>
    (k < length bs \<longrightarrow> length D < length (fst (log_layout a (take (Suc k) bs))))"
  using assms(3-)
proof (induction bs arbitrary: v a D ops opss)
  case Nil
  then have "view (rv_reader v) a []" by simp
  from read_reporting_end [OF this Nil(3), of opt] obtain s r' where
    "read_reporting opt sf v = Some (False, v\<lparr>rv_reader := r', rv_record := [], rv_scratch := s\<rparr>)" by blast
  then have "recover_loop opt sf WriteLevel0Table v = Some (v\<lparr>rv_reader := r', rv_record := [], rv_scratch := s\<rparr>)"
    by (simp add: recover_loop.simps [of opt sf _ v])
  with Nil.prems(4) show ?case by auto
next
  case (Cons b bs)
  obtain new opss' where opss: "opss = new # opss'" "represents b (of_nat (length ops + 1)) new"
    "numbered (length (ops @ new) + 1) bs opss'"
    using Cons.prems(5) by (cases opss) (auto simp: add.commute add.left_commute)
  from Cons.prems(2) have "fst (layout a True b) @ fst (log_layout (snd (layout a True b)) bs) = D @ X" by simp
  then show ?case
  proof (cases rule: append_eq_cut)
    case (inside Y)
    from read_reporting_cut [OF Cons.prems(1) inside Cons.prems(3), of opt] obtain s r' where
      "read_reporting opt sf v = Some (False, v\<lparr>rv_reader := r', rv_record := [], rv_scratch := s\<rparr>)" by blast
    then have "recover_loop opt sf WriteLevel0Table v = Some (v\<lparr>rv_reader := r', rv_record := [], rv_scratch := s\<rparr>)"
      by (simp add: recover_loop.simps [of opt sf _ v])
    with inside Cons.prems(4) show ?thesis by (intro exI [of _ 0]) auto
  next
    case (behind D')
    with Cons.prems(1) have "view (rv_reader v) a (fst (layout a True b) @ D')" by simp
    from read_reporting_complete [OF this Cons.prems(3), of opt] obtain s r1 where r1:
      "read_reporting opt sf v = Some (True, v\<lparr>rv_reader := r1, rv_record := b, rv_scratch := s\<rparr>)"
      "view r1 (snd (layout a True b)) D'" by blast
    let ?v = "v\<lparr>rv_reader := r1, rv_record := b, rv_scratch := s\<rparr>"
    have v: "rec_repr (ro_user_comparator opt) valid ?v (additions 1 ops) (of_nat (length ops))" "ok (rv_status ?v)"
      using Cons.prems(4) by (simp, simp add: rec_repr_def)
    have fits: "list_all (op_fits valid) new" "list_all (list_all (op_fits valid)) opss'"
      "length ops + length new < 2 ^ 56" "length (ops @ new) + length (concat opss') < 2 ^ 56"
      using Cons.prems(6,7) opss(1) by simp_all
    have "represents (rv_record ?v) (of_nat (length ops + 1)) new" using opss(2) by simp
    from recover_record_ok [OF assms(1,2) v(1) this fits(1,3)] obtain v1 where v1:
      "recover_record opt WriteLevel0Table ?v = Some (Inl v1)" "rv_reader v1 = r1"
      "rec_repr (ro_user_comparator opt) valid v1 (additions 1 (ops @ new)) (of_nat (length (ops @ new)))" by auto
    have "view (rv_reader v1) (snd (layout a True b)) D'" using r1(2) v1(2) by simp
    from Cons.IH [OF this behind(2) layout_room [OF Cons.prems(3)] v1(3) opss(3) fits(2,4)] obtain k v2 where k:
      "k \<le> length bs" "recover_loop opt sf WriteLevel0Table v1 = Some v2"
      "rec_repr (ro_user_comparator opt) valid v2 (additions 1 ((ops @ new) @ concat (take k opss')))
        (of_nat (length ((ops @ new) @ concat (take k opss'))))"
      "length (fst (log_layout (snd (layout a True b)) (take k bs))) \<le> length D'"
      "k < length bs \<longrightarrow> length D' < length (fst (log_layout (snd (layout a True b)) (take (Suc k) bs)))" by blast
    have "recover_loop opt sf WriteLevel0Table v = Some v2"
      using r1(1) v(2) v1(1) k(2) by (simp add: recover_loop.simps [of opt sf _ v])
    with k behind(1) show ?thesis
      by (intro exI [of _ "Suc k"] exI [of _ v2]) (simp add: opss(1))
  qed
qed

end

section \<open>Writing, a crash, recovery\<close>

lemma numbered_unique: "numbered n bs opss \<Longrightarrow> numbered n bs' opss \<Longrightarrow> bs = bs'"
proof (induction n bs opss arbitrary: bs' rule: numbered.induct)
  case (2 n b bs ops opss)
  then show ?case by (cases bs') (auto simp: represents_def)
qed (auto elim: numbered.elims)

lemma log_layout_mono:
  assumes "i \<le> k"
  shows "length (fst (log_layout a (take i ds))) \<le> length (fst (log_layout a (take k ds)))"
proof -
  have "take k ds = take i ds @ take (k - i) (drop i ds)" using assms by (metis le_add_diff_inverse take_add)
  then show ?thesis by (simp add: log_layout_append)
qed

text \<open>The records in the log after some of the groups are the first of its records.\<close>

lemma write_groups_log:
  assumes "comparator_ok user valid lt" "append_file file contents good" "syncs contents good Sync"
    and "db_at user valid contents good db [] []"
    and "list_all2 (\<lambda>g new. \<exists>seq. represents (snd g) seq new) gs opss" "list_all (list_all (op_fits valid)) opss"
    and "length (concat opss) < 2 ^ 56" "numbered 1 bs opss"
    and "write_groups file Sync (take i gs) db = Some (s, dbi)"
  shows "s = Status_OK \<and> contents (lw_dest (dc_log dbi)) = fst (log_layout 32768 (take i bs))"
proof -
  have gs: "list_all2 (\<lambda>g new. \<exists>seq. represents (snd g) seq new) (take i gs) (take i opss)"
    using assms(5) by (rule list_all2_takeI)
  have fits: "list_all (list_all (op_fits valid)) (take i opss)"
    using assms(6) by (auto simp: list_all_iff dest: in_set_takeD)
  have "length (concat (take i opss)) \<le> length (concat opss)"
    by (metis append_take_drop_id concat_append length_append le_add1)
  with assms(7) have "length ([] :: batch_op list) + length (concat (take i opss)) < 2 ^ 56" by simp
  from write_groups_ok [OF assms(1-4) gs fits this] obtain bs' db' where
    "write_groups file Sync (take i gs) db = Some (Status_OK, db')"
    "contents (lw_dest (dc_log db')) = fst (log_layout 32768 bs')" "numbered 1 bs' (take i opss)"
    by (auto simp: db_at_def)
  with numbered_unique [OF numbered_take [OF assms(8), of i]] assms(9) show ?thesis by auto
qed

lemma recovery_finish_repr:
  assumes "rec_repr user valid v adds m" "\<forall>tables m. WriteLevel0Table tables m = Status_OK"
  shows "\<exists>v' chunks. recovery_finish WriteLevel0Table v = Some v' \<and> rv_status v' = Status_OK \<and> rv_mem v' = None \<and>
    list_all2 (mem_repr user valid) (rv_tables v') chunks \<and> concat chunks = adds \<and> rv_max_sequence v' = m"
proof -
  obtain chunks rest where c: "list_all2 (mem_repr user valid) (rv_tables v) chunks" "concat chunks @ rest = adds"
    "case rv_mem v of None \<Rightarrow> rest = [] | Some m \<Rightarrow> mem_repr user valid m rest \<and> mt_refs m = 1"
    and st: "rv_status v = Status_OK" "rv_max_sequence v = m"
    using assms(1) by (auto simp: rec_repr_def)
  show ?thesis
  proof (cases "rv_mem v")
    case None
    with c st show ?thesis by (intro exI [of _ v] exI [of _ chunks]) (simp add: recovery_finish_def)
  next
    case (Some mem)
    let ?v = "v\<lparr>rv_tables := rv_tables v @ [mem], rv_status := Status_OK, rv_mem := None\<rparr>"
    have "recovery_finish WriteLevel0Table v = Some ?v"
      using Some c(3) st assms(2) by (simp add: recovery_finish_def MemTable_Unref_def Let_def)
    moreover have "list_all2 (mem_repr user valid) (rv_tables ?v) (chunks @ [rest])"
      using c Some by (simp add: list_all2_appendI)
    ultimately show ?thesis using c(2) st by (intro exI [of _ ?v] exI [of _ "chunks @ [rest]"]) simp
  qed
qed

lemma RecoverLogFile_cut:
  assumes "comparator_ok (ro_user_comparator opt) valid lt" "\<forall>tables m. WriteLevel0Table tables m = Status_OK"
    and "read_file sf remaining" "numbered 1 bs opss" "list_all (list_all (op_fits valid)) opss"
    and "length (concat opss) < 2 ^ 56" "n \<le> length (fst (log_layout 32768 bs))"
    and "remaining g = take n (fst (log_layout 32768 bs))"
  shows "\<exists>k v chunks. k \<le> length bs \<and> RecoverLogFile opt sf WriteLevel0Table g 0 = Some v \<and>
    rv_status v = Status_OK \<and> rv_mem v = None \<and>
    list_all2 (mem_repr (ro_user_comparator opt) valid) (rv_tables v) chunks \<and>
    concat chunks = additions 1 (concat (take k opss)) \<and>
    rv_max_sequence v = of_nat (length (concat (take k opss))) \<and>
    length (fst (log_layout 32768 (take k bs))) \<le> n \<and>
    (k < length bs \<longrightarrow> n < length (fst (log_layout 32768 (take (Suc k) bs))))"
proof -
  let ?v = "recovery_start g 0 :: 'a recovery" and ?D = "take n (fst (log_layout 32768 bs))"
  have "read_file.view remaining (rv_reader ?v) 0 ?D"
    using read_file.view_start [OF assms(3,8)] by (simp add: recovery_start_def)
  moreover have "fst (log_layout 0 bs) = ?D @ drop n (fst (log_layout 32768 bs))" by (simp add: log_layout_new_block)
  moreover have n: "length ?D = n" using assms(7) by simp
  moreover have "rec_repr (ro_user_comparator opt) valid ?v (additions 1 []) (of_nat (length ([] :: batch_op list)))"
    by (simp add: rec_repr_def recovery_start_def)
  ultimately obtain k v where k: "k \<le> length bs" "recover_loop opt sf WriteLevel0Table ?v = Some v"
    "rec_repr (ro_user_comparator opt) valid v (additions 1 (concat (take k opss))) (of_nat (length (concat (take k opss))))"
    "length (fst (log_layout 32768 (take k bs))) \<le> n"
    "k < length bs \<longrightarrow> n < length (fst (log_layout 32768 (take (Suc k) bs)))"
    using read_file.recover_loop_cut [OF assms(3,1,2), of ?v 0 ?D bs "drop n (fst (log_layout 32768 bs))" "[]" opss] assms(4-6)
    unfolding n log_layout_new_block by auto
  from recovery_finish_repr [OF k(3) assms(2)] k show ?thesis
    unfolding RecoverLogFile_def by (auto intro!: exI [of _ k])
qed

section \<open>Properties\<close>

text \<open>C1: crash safety: groups of writes go to a new database, each first to the log and then to
  the memory table, and after a crash the log is cut off at any byte. Then recovery returns without
  an error, for every size of the write buffer and with or without \<open>paranoid_checks\<close>, and the tables
  that it writes hold, in order, exactly the operations of the first \<open>k\<close> groups with their sequence
  numbers, of which the last one is reported. Groups are recovered whole or not at all, and the
  \<open>i\<close>th group is recovered exactly if the log that survived is as long as it was after this group,
  so that nothing that was synced is lost.\<close>

theorem crash_recovery:
  assumes "comparator_ok user valid lt" "append_file file contents good" "syncs contents good Sync"
    and "read_file sf remaining" "good f" "contents f = []"
    and "list_all2 (\<lambda>g new. \<exists>seq. represents (snd g) seq new) gs opss" "list_all (list_all (op_fits valid)) opss"
    and "length (concat opss) < 2 ^ 56"
    and "ro_user_comparator opt = user" "\<forall>tables m. WriteLevel0Table tables m = Status_OK"
  shows "\<exists>db db'. open_new user f = Some db \<and> write_groups file Sync gs db = Some (Status_OK, db') \<and>
    (\<forall>n g. n \<le> length (contents (lw_dest (dc_log db'))) \<and> remaining g = take n (contents (lw_dest (dc_log db'))) \<longrightarrow>
      (\<exists>k v chunks. k \<le> length gs \<and> RecoverLogFile opt sf WriteLevel0Table g 0 = Some v \<and>
        rv_status v = Status_OK \<and> rv_mem v = None \<and> list_all2 (mem_repr user valid) (rv_tables v) chunks \<and>
        concat chunks = additions 1 (concat (take k opss)) \<and>
        rv_max_sequence v = of_nat (length (concat (take k opss))) \<and>
        (\<forall>i dbi. i \<le> length gs \<and> write_groups file Sync (take i gs) db = Some (Status_OK, dbi) \<longrightarrow>
           (i \<le> k \<longleftrightarrow> length (contents (lw_dest (dc_log dbi))) \<le> n))))"
proof -
  obtain db where db: "open_new user f = Some db" "db_at user valid contents good db [] []"
    using open_new_db_at [of good f contents] assms(5,6) by blast
  have "length ([] :: batch_op list) + length (concat opss) < 2 ^ 56" using assms(9) by simp
  from write_groups_ok [OF assms(1-3) db(2) assms(7,8) this] obtain bs db' where
    db': "write_groups file Sync gs db = Some (Status_OK, db')"
    "contents (lw_dest (dc_log db')) = fst (log_layout 32768 bs)" "numbered 1 bs opss"
    by (auto simp: db_at_def)
  have len: "length gs = length bs" using list_all2_lengthD [OF assms(7)] numbered_length [OF db'(3)] by simp
  note log = write_groups_log [OF assms(1-3) db(2) assms(7-9) db'(3)]
  have whole: "i \<le> k \<longleftrightarrow> length (contents (lw_dest (dc_log dbi))) \<le> n"
    if "length (fst (log_layout 32768 (take k bs))) \<le> n"
      "k < length bs \<longrightarrow> n < length (fst (log_layout 32768 (take (Suc k) bs)))"
      "i \<le> length gs" "write_groups file Sync (take i gs) db = Some (Status_OK, dbi)" for n k i dbi
    using log [OF that(4)] that(1-3) len log_layout_mono [of i k 32768 bs] log_layout_mono [of "Suc k" i 32768 bs]
    by (cases "i \<le> k") auto
  have "\<exists>k v chunks. k \<le> length gs \<and> RecoverLogFile opt sf WriteLevel0Table g 0 = Some v \<and>
        rv_status v = Status_OK \<and> rv_mem v = None \<and> list_all2 (mem_repr user valid) (rv_tables v) chunks \<and>
        concat chunks = additions 1 (concat (take k opss)) \<and>
        rv_max_sequence v = of_nat (length (concat (take k opss))) \<and>
        (\<forall>i dbi. i \<le> length gs \<and> write_groups file Sync (take i gs) db = Some (Status_OK, dbi) \<longrightarrow>
           (i \<le> k \<longleftrightarrow> length (contents (lw_dest (dc_log dbi))) \<le> n))"
    if "n \<le> length (contents (lw_dest (dc_log db')))" "remaining g = take n (contents (lw_dest (dc_log db')))" for n g
    using RecoverLogFile_cut [OF assms(1) [folded assms(10)] assms(11,4) db'(3) assms(8,9), of n g] that whole
    unfolding db'(2) len assms(10) by metis
  with db(1) db'(1) show ?thesis by blast
qed

theorem crash_recovery_witness:
  "\<exists>b db db' k v chunks. Batch_Put WriteBatch_Clear [1] [2] = Some b \<and> open_new BytewiseComparator [] = Some db \<and>
     write_groups mem_writable (\<lambda>f. Some (Status_OK, f)) [(True, b), (False, b)] db = Some (Status_OK, db') \<and>
     RecoverLogFile \<lparr>ro_user_comparator = BytewiseComparator, ro_paranoid_checks = True, ro_write_buffer_size = 4194304\<rparr>
       mem_sequential (\<lambda>_ _. Status_OK) (lw_dest (dc_log db')) 0 = Some v \<and>
     rv_status v = Status_OK \<and> list_all2 (mem_repr BytewiseComparator (\<lambda>_. True)) (rv_tables v) chunks \<and>
     concat chunks = additions 1 (concat (take k [[Put_op [1] [2]], [Put_op [1] [2]]]))"
proof -
  let ?opt = "\<lparr>ro_user_comparator = BytewiseComparator, ro_paranoid_checks = True, ro_write_buffer_size = 4194304\<rparr>"
  let ?op = "Put_op [1] [2]"
  obtain b where b: "Batch_Put WriteBatch_Clear [1] [2] = Some b" "represents b 0 [?op]"
    using Put_represents [OF Clear_represents, of "[1]" "[2]"] by auto
  have s: "syncs (\<lambda>f. f) (\<lambda>_. True) (\<lambda>f. Some (Status_OK, f))" by (simp add: syncs_def)
  have r: "list_all2 (\<lambda>g new. \<exists>seq. represents (snd g) seq new) [(True, b), (False, b)] [[?op], [?op]]" using b(2) by auto
  have fits: "list_all (list_all (op_fits (\<lambda>_. True))) [[?op], [?op]]" "length (concat [[?op], [?op]]) < 2 ^ 56" by simp_all
  note crash = crash_recovery [OF bytewise.comparator_ok_axioms mem_append.append_file_axioms s mem_read.read_file_axioms
      TrueI refl r fits, of ?opt "\<lambda>_ _. Status_OK"]
  obtain db db' where db: "open_new BytewiseComparator [] = Some db"
    "write_groups mem_writable (\<lambda>f. Some (Status_OK, f)) [(True, b), (False, b)] db = Some (Status_OK, db')"
    "\<exists>k v chunks. RecoverLogFile ?opt mem_sequential (\<lambda>_ _. Status_OK) (lw_dest (dc_log db')) 0 = Some v \<and>
        rv_status v = Status_OK \<and> list_all2 (mem_repr BytewiseComparator (\<lambda>_. True)) (rv_tables v) chunks \<and>
        concat chunks = additions 1 (concat (take k [[?op], [?op]]))"
  proof (rule exE [OF crash], simp, simp, elim exE conjE, goal_cases)
    case (1 db db')
    from 1(4) [rule_format, of "length (lw_dest (dc_log db'))" "lw_dest (dc_log db')"] show ?case
      by (intro 1(1) [OF 1(2,3)]) (simp, blast)
  qed
  with b(1) show ?thesis by blast
qed

end
