(* ===== verification/Ldb_Block.thy ===== *)
theory Ldb_Block
  imports Ldb_Comparator Ldb_Status "HOL-Library.Monad_Syntax"
begin

text \<open>
  The blocks of a table file: \<open>table/block_builder.cc\<close>, which writes sorted entries with the common
  prefix of neighbouring keys left out, and \<open>table/block.cc\<close>, whose iterator reads them. \<open>None\<close> is
  a failed assertion, a read outside the block or a loop that does not end.
\<close>

section \<open>The builder\<close>

text \<open>The two options that the builder reads.\<close>

record block_options =
  bo_comparator :: comparator
  bo_block_restart_interval :: int

record block_builder =
  bb_buffer :: "u8 list"
  bb_restarts :: "u32 list"
  bb_counter :: int
  bb_finished :: bool
  bb_last_key :: slice

definition BlockBuilder_new :: "'o block_options_scheme \<Rightarrow> block_builder option" where
  "BlockBuilder_new opt =
     asserting (bo_block_restart_interval opt \<ge> 1)
       (Some \<lparr>bb_buffer = [], bb_restarts = [0], bb_counter = 0, bb_finished = False, bb_last_key = []\<rparr>)"

definition BlockBuilder_Reset :: "block_builder \<Rightarrow> block_builder" where
  "BlockBuilder_Reset b =
     b\<lparr>bb_buffer := [], bb_restarts := [0], bb_counter := 0, bb_finished := False, bb_last_key := []\<rparr>"

definition CurrentSizeEstimate :: "block_builder \<Rightarrow> nat" where
  "CurrentSizeEstimate b = length (bb_buffer b) + length (bb_restarts b) * 4 + 4"

definition BlockBuilder_Finish :: "block_builder \<Rightarrow> slice \<times> block_builder" where
  "BlockBuilder_Finish b =
     (let buffer = fold (\<lambda>r buffer. PutFixed32 buffer r) (bb_restarts b) (bb_buffer b);
          buffer = PutFixed32 buffer (of_nat (length (bb_restarts b)))
      in (buffer, b\<lparr>bb_buffer := buffer, bb_finished := True\<rparr>))"

text \<open>The loop over the bytes that two keys share.\<close>

function shared_loop :: "slice \<Rightarrow> slice \<Rightarrow> nat \<Rightarrow> nat" where
  "shared_loop last_key key shared =
     (if shared < min (length last_key) (length key) \<and> last_key ! shared = key ! shared
      then shared_loop last_key key (shared + 1) else shared)"
  by pat_completeness auto
termination
  by (relation "measure (\<lambda>(last_key, key, shared). length key - shared)") auto

declare shared_loop.simps [simp del]

definition BlockBuilder_Add :: "'o block_options_scheme \<Rightarrow> slice \<Rightarrow> slice \<Rightarrow> block_builder \<Rightarrow> block_builder option" where
  "BlockBuilder_Add opt key val b =
     asserting (\<not> bb_finished b \<and> bb_counter b \<le> bo_block_restart_interval opt \<and>
       (bb_buffer b = [] \<or> cmp_Compare (bo_comparator opt) key (bb_last_key b) > 0))
     (let (shared, b) =
            (if bb_counter b < bo_block_restart_interval opt then (shared_loop (bb_last_key b) key 0, b)
             else (0, b\<lparr>bb_restarts := bb_restarts b @ [of_nat (length (bb_buffer b))], bb_counter := 0\<rparr>));
          non_shared = length key - shared;
          buffer = PutVarint32 (bb_buffer b) (of_nat shared);
          buffer = PutVarint32 buffer (of_nat non_shared);
          buffer = PutVarint32 buffer (of_nat (length val));
          buffer = buffer @ drop shared key;
          buffer = buffer @ val;
          last_key = take shared (bb_last_key b) @ drop shared key
      in asserting (last_key = key)
        (Some (b\<lparr>bb_buffer := buffer, bb_last_key := last_key, bb_counter := bb_counter b + 1\<rparr>)))"

section \<open>The block\<close>

record block =
  bl_data :: slice
  bl_size :: nat
  bl_restart_offset :: u32

definition NumRestarts :: "block \<Rightarrow> u32 option" where
  "NumRestarts b = asserting (bl_size b \<ge> 4) (DecodeFixed32 (drop (bl_size b - 4) (bl_data b)))"

text \<open>The offset stays undefined when the contents are malformed; 0 stands for it, and nothing reads it then.\<close>

definition Block_new :: "slice \<Rightarrow> block option" where
  "Block_new contents =
     (let b = \<lparr>bl_data = contents, bl_size = length contents, bl_restart_offset = 0\<rparr> in
      if bl_size b < 4 then Some (b\<lparr>bl_size := 0\<rparr>)
      else let max_restarts_allowed = (bl_size b - 4) div 4 in do {
        n \<leftarrow> NumRestarts b;
        if unat n > max_restarts_allowed then Some (b\<lparr>bl_size := 0\<rparr>)
        else Some (b\<lparr>bl_restart_offset := of_nat (bl_size b - unat (1 + n) * 4)\<rparr>) })"

text \<open>\<open>DecodeEntry\<close>; pointers into the block are offsets. The result is the three lengths and the
  pointer behind them.\<close>

definition DecodeEntry :: "slice \<Rightarrow> nat \<Rightarrow> nat \<Rightarrow> (u32 \<times> u32 \<times> u32 \<times> nat) option" where
  "DecodeEntry data p limit =
     (let window = drop p (take limit data) in
      if length window < 3 then None
      else
        let shared = ucast (window ! 0) :: u32;
            non_shared = ucast (window ! 1) :: u32;
            value_length = ucast (window ! 2) :: u32
        in do {
        (shared, non_shared, value_length, rest) \<leftarrow>
          (if (shared OR non_shared OR value_length) < 128 then Some (shared, non_shared, value_length, drop 3 window)
           else do {
             (shared, rest) \<leftarrow> GetVarint32Ptr window;
             (non_shared, rest) \<leftarrow> GetVarint32Ptr rest;
             (value_length, rest) \<leftarrow> GetVarint32Ptr rest;
             Some (shared, non_shared, value_length, rest) });
        if (of_nat (length rest) :: u32) < non_shared + value_length then None
        else Some (shared, non_shared, value_length, limit - length rest) })"

text \<open>Reading the bytes of a slice of the block.\<close>

definition block_bytes :: "slice \<Rightarrow> nat \<Rightarrow> nat \<Rightarrow> slice option" where
  "block_bytes data off len = asserting (off + len \<le> length data) (Some (take len (drop off data)))"

section \<open>The iterator\<close>

text \<open>\<open>value_\<close> is an offset and a length; the first four fields never change.\<close>

record block_iter =
  bi_comparator :: comparator
  bi_data :: slice
  bi_restarts :: u32
  bi_num_restarts :: u32
  bi_current :: u32
  bi_restart_index :: u32
  bi_key :: slice
  bi_value :: "nat \<times> nat"
  bi_status :: status

definition BlockIter_new :: "comparator \<Rightarrow> slice \<Rightarrow> u32 \<Rightarrow> u32 \<Rightarrow> block_iter option" where
  "BlockIter_new c data restarts num_restarts =
     asserting (num_restarts > 0)
       (Some \<lparr>bi_comparator = c, bi_data = data, bi_restarts = restarts, bi_num_restarts = num_restarts,
              bi_current = restarts, bi_restart_index = num_restarts, bi_key = [], bi_value = (0, 0),
              bi_status = Status_OK\<rparr>)"

definition NextEntryOffset :: "block_iter \<Rightarrow> u32" where
  "NextEntryOffset it = of_nat (fst (bi_value it) + snd (bi_value it))"

definition GetRestartPoint :: "block_iter \<Rightarrow> u32 \<Rightarrow> u32 option" where
  "GetRestartPoint it index =
     asserting (index < bi_num_restarts it)
       (DecodeFixed32 (drop (unat (bi_restarts it) + unat index * 4) (bi_data it)))"

definition SeekToRestartPoint :: "u32 \<Rightarrow> block_iter \<Rightarrow> block_iter option" where
  "SeekToRestartPoint index it = do {
     offset \<leftarrow> GetRestartPoint it index;
     Some (it\<lparr>bi_key := [], bi_restart_index := index, bi_value := (unat offset, 0)\<rparr>) }"

definition BlockIter_Valid :: "block_iter \<Rightarrow> bool" where
  "BlockIter_Valid it \<longleftrightarrow> bi_current it < bi_restarts it"

definition BlockIter_key :: "block_iter \<Rightarrow> slice option" where
  "BlockIter_key it = asserting (BlockIter_Valid it) (Some (bi_key it))"

definition BlockIter_value :: "block_iter \<Rightarrow> slice option" where
  "BlockIter_value it = asserting (BlockIter_Valid it) (block_bytes (bi_data it) (fst (bi_value it)) (snd (bi_value it)))"

definition CorruptionError :: "block_iter \<Rightarrow> block_iter" where
  "CorruptionError it =
     it\<lparr>bi_current := bi_restarts it, bi_restart_index := bi_num_restarts it,
        bi_status := Corruption (bytes_of ''bad entry in block'') [], bi_key := [], bi_value := (0, 0)\<rparr>"

text \<open>The loop that finds the restart block of the entry at \<open>current\<close>.\<close>

partial_function (option) restart_loop :: "block_iter \<Rightarrow> u32 \<Rightarrow> u32 \<Rightarrow> u32 option" where
  "restart_loop it current restart_index =
     (if restart_index + 1 < bi_num_restarts it then
        Option.bind (GetRestartPoint it (restart_index + 1)) (\<lambda>r.
          if r < current then restart_loop it current (restart_index + 1) else Some restart_index)
      else Some restart_index)"

definition ParseNextKey :: "block_iter \<Rightarrow> (bool \<times> block_iter) option" where
  "ParseNextKey it =
     (let it = it\<lparr>bi_current := NextEntryOffset it\<rparr> in
      if bi_current it \<ge> bi_restarts it then
        Some (False, it\<lparr>bi_current := bi_restarts it, bi_restart_index := bi_num_restarts it\<rparr>)
      else
        (case DecodeEntry (bi_data it) (unat (bi_current it)) (unat (bi_restarts it)) of
           None \<Rightarrow> Some (False, CorruptionError it)
         | Some (shared, non_shared, value_length, p) \<Rightarrow>
             if length (bi_key it) < unat shared then Some (False, CorruptionError it)
             else do {
               delta \<leftarrow> block_bytes (bi_data it) p (unat non_shared);
               let key = take (unat shared) (bi_key it) @ delta;
               i \<leftarrow> restart_loop it (bi_current it) (bi_restart_index it);
               Some (True, it\<lparr>bi_key := key, bi_value := (p + unat non_shared, unat value_length),
                              bi_restart_index := i\<rparr>) }))"

definition BlockIter_Next :: "block_iter \<Rightarrow> block_iter option" where
  "BlockIter_Next it = asserting (BlockIter_Valid it) (map_option snd (ParseNextKey it))"

text \<open>The first loop of \<open>Prev\<close>; \<open>None\<close> inside means that there are no more entries.\<close>

partial_function (option) prev_restart_loop :: "block_iter \<Rightarrow> u32 \<Rightarrow> u32 \<Rightarrow> u32 option option" where
  "prev_restart_loop it original restart_index =
     Option.bind (GetRestartPoint it restart_index) (\<lambda>r.
       if r \<ge> original then
         if restart_index = 0 then Some None else prev_restart_loop it original (restart_index - 1)
       else Some (Some restart_index))"

text \<open>\<open>while (ParseNextKey() && NextEntryOffset() < bound)\<close>.\<close>

partial_function (option) skip_entries :: "u32 \<Rightarrow> block_iter \<Rightarrow> block_iter option" where
  "skip_entries bound it =
     Option.bind (ParseNextKey it) (\<lambda>(more, it).
       if more \<and> NextEntryOffset it < bound then skip_entries bound it else Some it)"

definition BlockIter_Prev :: "block_iter \<Rightarrow> block_iter option" where
  "BlockIter_Prev it =
     asserting (BlockIter_Valid it) (let original = bi_current it in do {
       r \<leftarrow> prev_restart_loop it original (bi_restart_index it);
       case r of
         None \<Rightarrow> Some (it\<lparr>bi_current := bi_restarts it, bi_restart_index := bi_num_restarts it\<rparr>)
       | Some restart_index \<Rightarrow> do {
           it \<leftarrow> SeekToRestartPoint restart_index it;
           skip_entries original it } })"

text \<open>The binary search of \<open>Seek\<close>; \<open>None\<close> inside means that a restart point is corrupted.\<close>

partial_function (option) seek_restart_loop :: "block_iter \<Rightarrow> slice \<Rightarrow> u32 \<Rightarrow> u32 \<Rightarrow> u32 option option" where
  "seek_restart_loop it target left right =
     (if left < right then
        let mid = (left + right + 1) div 2 in
        Option.bind (GetRestartPoint it mid) (\<lambda>region_offset.
          case DecodeEntry (bi_data it) (unat region_offset) (unat (bi_restarts it)) of
            None \<Rightarrow> Some None
          | Some (shared, non_shared, value_length, key_ptr) \<Rightarrow>
              if shared \<noteq> 0 then Some None
              else
                Option.bind (block_bytes (bi_data it) key_ptr (unat non_shared)) (\<lambda>mid_key.
                  if cmp_Compare (bi_comparator it) mid_key target < 0
                  then seek_restart_loop it target mid right
                  else seek_restart_loop it target left (mid - 1)))
      else Some (Some left))"

text \<open>The linear search of \<open>Seek\<close>.\<close>

partial_function (option) seek_linear_loop :: "slice \<Rightarrow> block_iter \<Rightarrow> block_iter option" where
  "seek_linear_loop target it =
     Option.bind (ParseNextKey it) (\<lambda>(more, it).
       if \<not> more then Some it
       else if cmp_Compare (bi_comparator it) (bi_key it) target \<ge> 0 then Some it
       else seek_linear_loop target it)"

definition BlockIter_Seek :: "slice \<Rightarrow> block_iter \<Rightarrow> block_iter option" where
  "BlockIter_Seek target it = do {
     r \<leftarrow> seek_restart_loop it target 0 (bi_num_restarts it - 1);
     case r of
       None \<Rightarrow> Some (CorruptionError it)
     | Some left \<Rightarrow> do {
         it \<leftarrow> SeekToRestartPoint left it;
         seek_linear_loop target it } }"

definition BlockIter_SeekToFirst :: "block_iter \<Rightarrow> block_iter option" where
  "BlockIter_SeekToFirst it = do {
     it \<leftarrow> SeekToRestartPoint 0 it;
     map_option snd (ParseNextKey it) }"

definition BlockIter_SeekToLast :: "block_iter \<Rightarrow> block_iter option" where
  "BlockIter_SeekToLast it = do {
     it \<leftarrow> SeekToRestartPoint (bi_num_restarts it - 1) it;
     skip_entries (bi_restarts it) it }"

text \<open>What \<open>NewIterator\<close> returns: an iterator that reports an error, one without entries, or one
  over the block.\<close>

datatype block_iterator = Error_iterator status | Empty_iterator | Entry_iterator block_iter

definition Block_NewIterator :: "comparator \<Rightarrow> block \<Rightarrow> block_iterator option" where
  "Block_NewIterator c b =
     (if bl_size b < 4 then Some (Error_iterator (Corruption (bytes_of ''bad block contents'') []))
      else do {
        num_restarts \<leftarrow> NumRestarts b;
        if num_restarts = 0 then Some Empty_iterator
        else map_option Entry_iterator (BlockIter_new c (bl_data b) (bl_restart_offset b) num_restarts) })"

end
