(* ===== verification/Ldb_Block_Correct.thy ===== *)
theory Ldb_Block_Correct
  imports Ldb_Block
begin

text \<open>
  The layout of a block as a function of its entries, and the proofs that the builder writes it and
  that the iterator moves over exactly these entries.
\<close>

section \<open>The layout\<close>

type_synonym entry = "slice \<times> slice"

lemma shared_loop_prefix:
  assumes "i \<le> length a" "i \<le> length b" "take i a = take i b"
  shows "shared_loop a b i \<le> length a \<and> shared_loop a b i \<le> length b \<and>
    take (shared_loop a b i) a = take (shared_loop a b i) b"
  using assms
proof (induction a b i rule: shared_loop.induct)
  case (1 a b i)
  show ?case
  proof (cases "i < min (length a) (length b) \<and> a ! i = b ! i")
    case True
    then have "take (i + 1) a = take (i + 1) b" using "1.prems" by (simp add: take_Suc_conv_app_nth)
    with True "1.IH" show ?thesis by (simp add: shared_loop.simps [of a b i])
  next
    case False
    with "1.prems" show ?thesis by (subst (1 2 3 4) shared_loop.simps) auto
  qed
qed

lemma shared_loop_0:
  "shared_loop a b 0 \<le> length a" "shared_loop a b 0 \<le> length b"
  "take (shared_loop a b 0) a = take (shared_loop a b 0) b"
  using shared_loop_prefix [of 0 a b] by simp_all

text \<open>An entry that shares \<open>s\<close> bytes with the key before it.\<close>

definition enc_entry :: "nat \<Rightarrow> entry \<Rightarrow> u8 list" where
  "enc_entry s e =
     EncodeVarint32 (of_nat s) @ EncodeVarint32 (of_nat (length (fst e) - s)) @ EncodeVarint32 (of_nat (length (snd e))) @
     drop s (fst e) @ snd e"

text \<open>Every \<open>n\<close>th entry is a restart point and shares nothing.\<close>

definition entry_shared :: "nat \<Rightarrow> entry list \<Rightarrow> nat \<Rightarrow> nat" where
  "entry_shared n es i = (if i mod n = 0 then 0 else shared_loop (fst (es ! (i - 1))) (fst (es ! i)) 0)"

definition entry_bytes :: "nat \<Rightarrow> entry list \<Rightarrow> nat \<Rightarrow> u8 list" where
  "entry_bytes n es i = enc_entry (entry_shared n es i) (es ! i)"

definition entries_from :: "nat \<Rightarrow> entry list \<Rightarrow> nat \<Rightarrow> nat \<Rightarrow> u8 list" where
  "entries_from n es i k = concat (map (entry_bytes n es) [i..<k])"

definition entry_offset :: "nat \<Rightarrow> entry list \<Rightarrow> nat \<Rightarrow> nat" where
  "entry_offset n es i = length (entries_from n es 0 i)"

definition restart_count :: "nat \<Rightarrow> entry list \<Rightarrow> nat" where
  "restart_count n es = (length es - 1) div n + 1"

definition restart_offsets :: "nat \<Rightarrow> entry list \<Rightarrow> u32 list" where
  "restart_offsets n es = map (\<lambda>r. of_nat (entry_offset n es (r * n))) [0..<restart_count n es]"

definition block_layout :: "nat \<Rightarrow> entry list \<Rightarrow> u8 list" where
  "block_layout n es =
     entries_from n es 0 (length es) @ concat (map EncodeFixed32 (restart_offsets n es)) @
     EncodeFixed32 (of_nat (restart_count n es))"

section \<open>The builder writes the layout\<close>

lemma nth_append_less: "i < length xs \<Longrightarrow> (xs @ ys) ! i = xs ! i"
  by (simp add: nth_append)

lemma entry_bytes_append: "i < length es \<Longrightarrow> entry_bytes n (es @ fs) i = entry_bytes n es i"
  by (simp add: entry_bytes_def entry_shared_def nth_append_less)

lemma entries_from_append: "k \<le> length es \<Longrightarrow> entries_from n (es @ fs) i k = entries_from n es i k"
  unfolding entries_from_def by (rule arg_cong [where f = concat]) (simp add: entry_bytes_append)

lemma entry_offset_append: "k \<le> length es \<Longrightarrow> entry_offset n (es @ fs) k = entry_offset n es k"
  by (simp add: entry_offset_def entries_from_append)

lemma entries_from_split: "i \<le> j \<Longrightarrow> j \<le> k \<Longrightarrow> entries_from n es i k = entries_from n es i j @ entries_from n es j k"
  unfolding entries_from_def by (metis concat_append le_add_diff_inverse map_append upt_add_eq_append)

lemma entries_from_same [simp]: "entries_from n es i i = []"
  by (simp add: entries_from_def)

lemma entries_from_Suc: "i < k \<Longrightarrow> entries_from n es i k = entry_bytes n es i @ entries_from n es (Suc i) k"
  by (simp add: entries_from_def upt_conv_Cons)

text \<open>The number of restart points grows with the entries 0, \<open>n\<close>, \<open>2 * n\<close> and so on.\<close>

lemma restart_count_snoc:
  assumes "0 < n"
  shows "restart_count n (es @ [e]) =
    (if es \<noteq> [] \<and> length es mod n = 0 then restart_count n es + 1 else restart_count n es)"
    "es \<noteq> [] \<Longrightarrow> length es mod n = 0 \<Longrightarrow> restart_count n es * n = length es"
proof -
  have *: "Suc l div n = (if Suc l mod n = 0 then Suc (l div n) else l div n)" for l
    using div_Suc [of l n] by simp
  show "restart_count n (es @ [e]) =
    (if es \<noteq> [] \<and> length es mod n = 0 then restart_count n es + 1 else restart_count n es)"
    using * [of "length es - 1"] by (cases es) (simp_all add: restart_count_def)
  show "es \<noteq> [] \<Longrightarrow> length es mod n = 0 \<Longrightarrow> restart_count n es * n = length es"
  proof -
    assume es: "es \<noteq> []" "length es mod n = 0"
    then have "restart_count n es = length es div n"
      using * [of "length es - 1"] by (cases es) (auto simp: restart_count_def)
    then show "restart_count n es * n = length es" using es(2) by (simp add: mod_eq_0_iff_dvd)
  qed
qed

lemma restart_before:
  assumes "0 < n" "r < restart_count n es"
  shows "r * n \<le> length es" "es \<noteq> [] \<Longrightarrow> r * n < length es"
proof -
  have "r \<le> (length es - 1) div n" using assms(2) by (simp add: restart_count_def)
  then have "r * n \<le> length es - 1" using assms(1) by (metis div_le_mono div_times_less_eq_dividend le_trans mult_le_mono1)
  then show "r * n \<le> length es" "es \<noteq> [] \<Longrightarrow> r * n < length es" by (auto simp: neq_Nil_conv)
qed

definition built :: "'o block_options_scheme \<Rightarrow> block_builder \<Rightarrow> entry list \<Rightarrow> bool" where
  "built opt b es \<longleftrightarrow>
     (let n = nat (bo_block_restart_interval opt) in
      bb_buffer b = entries_from n es 0 (length es) \<and> bb_restarts b = restart_offsets n es \<and> \<not> bb_finished b \<and>
      bb_last_key b = (if es = [] then [] else fst (last es)) \<and>
      bb_counter b = int (length es) - int ((restart_count n es - 1) * n))"

lemma built_new:
  assumes "bo_block_restart_interval opt \<ge> 1"
  shows "\<exists>b. BlockBuilder_new opt = Some b \<and> built opt b [] \<and> BlockBuilder_Reset b' = b"
  using assms
  by (simp add: BlockBuilder_new_def BlockBuilder_Reset_def built_def Let_def restart_offsets_def restart_count_def entry_offset_def)

lemma BlockBuilder_Add_built:
  assumes "bo_block_restart_interval opt \<ge> 1" "built opt b es"
    and "es = [] \<or> cmp_Compare (bo_comparator opt) key (fst (last es)) > 0"
  shows "\<exists>b'. BlockBuilder_Add opt key val b = Some b' \<and> built opt b' (es @ [(key, val)])"
proof -
  define n where "n = nat (bo_block_restart_interval opt)"
  have n: "0 < n" "bo_block_restart_interval opt = int n" using assms(1) by (simp_all add: n_def)
  let ?es = "es @ [(key, val)]" and ?l = "length es"
  note b = assms(2) [unfolded built_def Let_def, folded n_def]
  define restart where "restart \<longleftrightarrow> es \<noteq> [] \<and> ?l mod n = 0"
  have le: "(restart_count n es - 1) * n \<le> ?l" using restart_before(1) [OF n(1), of "restart_count n es - 1" es]
    by (simp add: restart_count_def)
  have count: "bb_counter b < int n \<longleftrightarrow> \<not> restart" "bb_counter b \<le> int n"
  proof -
    have "bb_counter b = (if es = [] then 0 else int ((?l - 1) mod n) + 1)"
    proof (cases es)
      case (Cons e es')
      have "int (length es') = int (length es' div n * n) + int (length es' mod n)"
        unfolding of_nat_add [symmetric] by simp
      with Cons b show ?thesis by (simp add: restart_count_def)
    qed (use b in \<open>simp add: restart_count_def\<close>)
    moreover define m where "m = (?l - 1) mod n"
    moreover have "m < n" using n(1) by (simp add: m_def)
    moreover have "es \<noteq> [] \<Longrightarrow> ?l mod n = (if Suc m = n then 0 else Suc m)"
      using mod_Suc [of "?l - 1" n] by (simp add: m_def)
    ultimately show "bb_counter b < int n \<longleftrightarrow> \<not> restart" "bb_counter b \<le> int n"
      by (auto simp: restart_def simp flip: m_def)
  qed
  have shared: "entry_shared n ?es ?l = (if restart then 0 else shared_loop (bb_last_key b) key 0)"
    using b shared_loop_0(1) [of "[]" key] by (auto simp: entry_shared_def restart_def nth_append_less last_conv_nth nth_append)
  have empty: "bb_buffer b = [] \<longleftrightarrow> es = []"
  proof -
    have "entry_bytes n es 0 \<noteq> []" for es by (simp add: entry_bytes_def enc_entry_def EncodeVarint32_bytes)
    then show ?thesis using b by (cases es) (simp_all add: entries_from_Suc)
  qed
  have "cmp_Compare (bo_comparator opt) key (bb_last_key b) > 0" if "es \<noteq> []"
    using assms(3) b that by simp
  with count(2) b empty have asserts: "\<not> bb_finished b \<and> bb_counter b \<le> bo_block_restart_interval opt \<and>
       (bb_buffer b = [] \<or> cmp_Compare (bo_comparator opt) key (bb_last_key b) > 0)" by (auto simp: n(2))
  let ?s = "entry_shared n ?es ?l"
  have buf: "entries_from n ?es 0 (Suc ?l) = bb_buffer b @ enc_entry ?s (key, val)"
    using b entries_from_split [of 0 ?l "Suc ?l" n ?es] by (simp add: entries_from_append entries_from_Suc entry_bytes_def)
  have last: "take ?s (bb_last_key b) @ drop ?s key = key"
    using shared_loop_0(3) [of "bb_last_key b" key] by (simp add: shared)
  define rs where "rs = (if restart then bb_restarts b @ [of_nat (length (bb_buffer b))] else bb_restarts b)"
  define cnt where "cnt = (if restart then 0 else bb_counter b)"
  have add: "BlockBuilder_Add opt key val b =
      Some (b\<lparr>bb_restarts := rs, bb_counter := cnt + 1, bb_buffer := entries_from n ?es 0 (length ?es), bb_last_key := key\<rparr>)"
  proof (cases restart)
    case True
    then show ?thesis using asserts count last
      by (simp add: BlockBuilder_Add_def n(2) shared buf rs_def cnt_def enc_entry_def PutVarint32_def)
  next
    case False
    then show ?thesis using asserts count last
      by (simp add: BlockBuilder_Add_def n(2) shared buf rs_def cnt_def enc_entry_def PutVarint32_def)
  qed
  have offsets: "r < restart_count n es \<Longrightarrow> entry_offset n ?es (r * n) = entry_offset n es (r * n)" for r
    using restart_before(1) [OF n(1)] by (simp add: entry_offset_append)
  have "rs = restart_offsets n ?es"
    using b restart_count_snoc [OF n(1), of es] offsets
    by (auto simp: rs_def restart_def restart_offsets_def entry_offset_append entry_offset_def entries_from_append)
  moreover have "cnt + 1 = int (length ?es) - int ((restart_count n ?es - 1) * n)"
    using b restart_count_snoc(1) [OF n(1), of es "(key, val)"] restart_count_snoc(2) [OF n(1), of es]
    by (cases restart) (simp_all add: cnt_def restart_def del: of_nat_mult split: if_splits)
  ultimately have "built opt (b\<lparr>bb_restarts := rs, bb_counter := cnt + 1, bb_buffer := entries_from n ?es 0 (length ?es),
      bb_last_key := key\<rparr>) ?es"
    using b by (simp add: built_def n_def Let_def)
  with add show ?thesis by blast
qed

section \<open>Parsing an entry\<close>

lemma u32_or_less_128: "(x OR y OR z :: u32) < 128 \<Longrightarrow> x < 128 \<and> y < 128 \<and> z < 128"
proof -
  assume less: "x OR y OR z < 128"
  have "x \<le> x OR y OR z" "y OR z \<le> x OR y OR z" "y \<le> y OR z" "z \<le> y OR z"
    by (simp_all add: le_word_or1 le_word_or2)
  with less show ?thesis by (meson order_le_less_trans)
qed

lemma first_byte_small:
  assumes "ucast ((EncodeVarint32 v @ rest) ! 0) < (128 :: u32)"
  shows "EncodeVarint32 v = [ucast v] \<and> v < 128"
proof (cases "unat v < 128")
  case True
  then show ?thesis by (simp add: EncodeVarint32_bytes word_less_nat_alt varint_bytes_small)
next
  case False
  then have "EncodeVarint32 v = of_nat (unat v mod 128 + 128) # varint_bytes (unat v div 128)"
    by (simp add: EncodeVarint32_bytes varint_bytes_large)
  moreover have "unat v mod 128 + 128 < 2 ^ 32" by (rule order_less_trans [of _ 256]) simp_all
  ultimately show ?thesis using assms
    by (simp add: word_less_nat_alt unsigned_ucast_eq unsigned_take_bit_eq take_bit_nat_eq_self)
qed

lemma decode_header:
  assumes "window = EncodeVarint32 a @ EncodeVarint32 b @ EncodeVarint32 c @ rest"
  shows "(if (ucast (window ! 0) OR ucast (window ! 1) OR ucast (window ! 2)) < (128 :: u32)
      then Some (ucast (window ! 0), ucast (window ! 1), ucast (window ! 2), drop 3 window)
      else do {
        (shared, rest) \<leftarrow> GetVarint32Ptr window;
        (non_shared, rest) \<leftarrow> GetVarint32Ptr rest;
        (value_length, rest) \<leftarrow> GetVarint32Ptr rest;
        Some (shared, non_shared, value_length, rest) }) = Some (a, b, c, rest)"
proof (cases "(ucast (window ! 0) OR ucast (window ! 1) OR ucast (window ! 2)) < (128 :: u32)")
  case True
  note small = u32_or_less_128 [OF this]
  have a: "EncodeVarint32 a = [ucast a]" "a < 128"
    using first_byte_small [of a "EncodeVarint32 b @ EncodeVarint32 c @ rest"] small assms by simp_all
  have b: "EncodeVarint32 b = [ucast b]" "b < 128"
    using first_byte_small [of b "EncodeVarint32 c @ rest"] small assms a by simp_all
  have c: "EncodeVarint32 c = [ucast c]" "c < 128"
    using first_byte_small [of c rest] small assms a b by simp_all
  have "ucast (ucast x :: u8) = x" if "x < 128" for x :: u32
    using that by (simp add: word_unat_eq_iff unsigned_ucast_eq unsigned_take_bit_eq word_less_nat_alt take_bit_nat_eq_self)
  with True a b c show ?thesis by (simp add: assms)
next
  case False
  then show ?thesis by (simp add: assms GetVarint32_def [symmetric])
qed

text \<open>Blocks whose offsets fit 32 bits.\<close>

definition block_fits :: "nat \<Rightarrow> entry list \<Rightarrow> bool" where
  "block_fits n es \<longleftrightarrow> 0 < n \<and> length (block_layout n es) < 2 ^ 32 \<and> (\<forall>e \<in> set es. length (fst e) < 2 ^ 32)"

lemma length_concat_EncodeFixed32 [simp]: "length (concat (map EncodeFixed32 rs)) = 4 * length rs"
  by (induction rs) simp_all

lemma length_restart_offsets [simp]: "length (restart_offsets n es) = restart_count n es"
  by (simp add: restart_offsets_def)

lemma length_layout: "length (block_layout n es) = entry_offset n es (length es) + 4 * restart_count n es + 4"
  by (simp add: block_layout_def entry_offset_def)

lemma entry_offset_split: "i \<le> k \<Longrightarrow> entry_offset n es k = entry_offset n es i + length (entries_from n es i k)"
  using entries_from_split [of 0 i k n es] by (simp add: entry_offset_def)

lemma entry_bytes_pos: "3 \<le> length (entry_bytes n es i)"
proof -
  have "0 < length (EncodeVarint32 v)" for v by (simp add: EncodeVarint32_bytes)
  from this [of "of_nat (entry_shared n es i)"] this [of "of_nat (length (fst (es ! i)) - entry_shared n es i)"]
    this [of "of_nat (length (snd (es ! i)))"]
  show ?thesis unfolding entry_bytes_def enc_entry_def length_append by linarith
qed

lemma entry_offset_less:
  assumes "i < k"
  shows "entry_offset n es i < entry_offset n es k"
proof -
  have "length (entries_from n es i k) = length (entry_bytes n es i) + length (entries_from n es (Suc i) k)"
    using assms by (simp add: entries_from_Suc)
  with entry_offset_split [of i k n es] entry_bytes_pos [of n es i] assms show ?thesis by linarith
qed

lemma entry_offset_le_iff [simp]: "entry_offset n es i \<le> entry_offset n es k \<longleftrightarrow> i \<le> k"
  using entry_offset_less [of i k n es] entry_offset_less [of k i n es] by (metis le_less linorder_not_less)

lemma entry_offset_less_iff [simp]: "entry_offset n es i < entry_offset n es k \<longleftrightarrow> i < k"
  by (metis entry_offset_le_iff linorder_not_less)

lemma take_layout: "take (entry_offset n es (length es)) (block_layout n es) = entries_from n es 0 (length es)"
  by (simp add: block_layout_def entry_offset_def)

lemma drop_entries: "i \<le> length es \<Longrightarrow> drop (entry_offset n es i) (entries_from n es 0 (length es)) = entries_from n es i (length es)"
  using entries_from_split [of 0 i "length es" n es] by (simp add: entry_offset_def)

lemma entry_shared_le:
  "entry_shared n es i \<le> length (fst (es ! i))"
  "i mod n \<noteq> 0 \<Longrightarrow> entry_shared n es i \<le> length (fst (es ! (i - 1)))"
  "i mod n \<noteq> 0 \<Longrightarrow> take (entry_shared n es i) (fst (es ! (i - 1))) = take (entry_shared n es i) (fst (es ! i))"
  using shared_loop_0 [of "fst (es ! (i - 1))" "fst (es ! i)"] by (simp_all add: entry_shared_def)

lemma DecodeEntry_layout:
  assumes "block_fits n es" "i < length es"
  shows "\<exists>p. DecodeEntry (block_layout n es) (entry_offset n es i) (entry_offset n es (length es)) =
      Some (of_nat (entry_shared n es i), of_nat (length (fst (es ! i)) - entry_shared n es i), of_nat (length (snd (es ! i))), p) \<and>
    block_bytes (block_layout n es) p (length (fst (es ! i)) - entry_shared n es i) =
      Some (drop (entry_shared n es i) (fst (es ! i))) \<and>
    block_bytes (block_layout n es) (p + (length (fst (es ! i)) - entry_shared n es i)) (length (snd (es ! i))) = Some (snd (es ! i)) \<and>
    p + (length (fst (es ! i)) - entry_shared n es i) + length (snd (es ! i)) = entry_offset n es (Suc i)"
proof -
  let ?s = "entry_shared n es i" and ?key = "fst (es ! i)" and ?val = "snd (es ! i)" and ?L = "length es"
  let ?data = "block_layout n es"
  define rest where "rest = drop ?s ?key @ ?val @ entries_from n es (Suc i) ?L"
  define hdr where "hdr = EncodeVarint32 (of_nat ?s) @ EncodeVarint32 (of_nat (length ?key - ?s)) @ EncodeVarint32 (of_nat (length ?val))"
  define p where "p = entry_offset n es i + length hdr"
  have window: "drop (entry_offset n es i) (take (entry_offset n es ?L) ?data) = hdr @ rest"
    using assms(2) by (simp add: take_layout drop_entries entries_from_Suc entry_bytes_def enc_entry_def hdr_def rest_def)
  have small: "length ?data < 2 ^ 32" using assms(1) by (simp add: block_fits_def)
  have offs: "entry_offset n es ?L = entry_offset n es i + length hdr + length rest"
    using entry_offset_split [of i ?L n es] assms(2)
    by (simp add: entries_from_Suc entry_bytes_def enc_entry_def hdr_def rest_def)
  have "length rest < 2 ^ 32" using small offs length_layout [of n es] by simp
  then have rest: "unat (of_nat (length rest) :: u32) = length rest" by (rule uint32_small)
  have sum: "of_nat (length ?key - ?s) + of_nat (length ?val) = (of_nat (length ?key - ?s + length ?val) :: u32)" by simp
  have "length ?key - ?s + length ?val \<le> length rest" by (simp add: rest_def)
  then have "\<not> (of_nat (length rest) :: u32) < of_nat (length ?key - ?s) + of_nat (length ?val)"
    unfolding sum using small offs length_layout [of n es] by (simp add: word_less_nat_alt rest uint32_small del: of_nat_add)
  moreover have "\<not> length (hdr @ rest) < 3"
    using entry_bytes_pos [of n es i] by (simp add: entry_bytes_def enc_entry_def hdr_def rest_def)
  ultimately have decode: "DecodeEntry ?data (entry_offset n es i) (entry_offset n es ?L) =
      Some (of_nat ?s, of_nat (length ?key - ?s), of_nat (length ?val), p)"
    unfolding DecodeEntry_def Let_def window
    using decode_header [of "hdr @ rest" "of_nat ?s" "of_nat (length ?key - ?s)" "of_nat (length ?val)" rest]
    by (simp add: hdr_def p_def offs)
  have data: "drop p ?data = rest @ drop (entry_offset n es ?L) ?data" "p + length rest \<le> length ?data"
  proof -
    let ?d = "entry_offset n es ?L - entry_offset n es i"
    have "drop (entry_offset n es i) ?data = take ?d (drop (entry_offset n es i) ?data) @ drop ?d (drop (entry_offset n es i) ?data)"
      by (rule append_take_drop_id [symmetric])
    also have "\<dots> = (hdr @ rest) @ drop (entry_offset n es ?L) ?data"
      using window offs by (simp add: drop_take ac_simps)
    finally have "drop (entry_offset n es i) ?data = (hdr @ rest) @ drop (entry_offset n es ?L) ?data" .
    then have "drop (length hdr) (drop (entry_offset n es i) ?data) = rest @ drop (entry_offset n es ?L) ?data" by simp
    then show "drop p ?data = rest @ drop (entry_offset n es ?L) ?data" by (simp add: p_def add.commute)
    show "p + length rest \<le> length ?data" using offs length_layout [of n es] by (simp add: p_def)
  qed
  show ?thesis
  proof (rule exI [of _ p], intro conjI)
    show "block_bytes ?data p (length ?key - ?s) = Some (drop ?s ?key)"
      using data by (simp add: block_bytes_def rest_def)
    have "drop (p + (length ?key - ?s)) ?data = drop (length ?key - ?s) (drop p ?data)" by (simp add: add.commute)
    then show "block_bytes ?data (p + (length ?key - ?s)) (length ?val) = Some ?val"
      using data by (simp add: block_bytes_def rest_def)
    show "p + (length ?key - ?s) + length ?val = entry_offset n es (Suc i)"
      using entry_offset_split [of i "Suc i" n es]
      by (simp add: entries_from_Suc entry_bytes_def enc_entry_def hdr_def p_def)
  qed (rule decode)
qed

section \<open>Restart points\<close>

lemma block_fits_small:
  assumes "block_fits n es"
  shows "k \<le> length es \<Longrightarrow> unat (of_nat (entry_offset n es k) :: u32) = entry_offset n es k"
    "r \<le> restart_count n es \<Longrightarrow> unat (of_nat r :: u32) = r"
    "restart_count n es < 2 ^ 30"
proof -
  have *: "entry_offset n es (length es) + 4 * restart_count n es + 4 < 2 ^ 32"
    using assms length_layout [of n es] by (simp add: block_fits_def)
  show "unat (of_nat (entry_offset n es k) :: u32) = entry_offset n es k" if "k \<le> length es"
  proof (rule uint32_small)
    have "entry_offset n es k \<le> entry_offset n es (length es)" using that by simp
    with * show "entry_offset n es k < 2 ^ 32" by linarith
  qed
  show "unat (of_nat r :: u32) = r" if "r \<le> restart_count n es"
    by (rule uint32_small) (use that * in linarith)
  show "restart_count n es < 2 ^ 30" using * by simp
qed

lemma restart_times_le:
  assumes "0 < n" "r < restart_count n es"
  shows "r * n \<le> length es"
  using restart_before(1) [OF assms] .

text \<open>The parts of an iterator that stay the same.\<close>

definition on_block :: "comparator \<Rightarrow> nat \<Rightarrow> entry list \<Rightarrow> block_iter \<Rightarrow> bool" where
  "on_block c n es it \<longleftrightarrow>
     bi_comparator it = c \<and> bi_data it = block_layout n es \<and> bi_restarts it = of_nat (entry_offset n es (length es)) \<and>
     bi_num_restarts it = of_nat (restart_count n es) \<and> bi_status it = Status_OK"

lemma DecodeFixed32_nth:
  assumes "r < length rs"
  shows "DecodeFixed32 (drop (4 * r) (concat (map EncodeFixed32 rs) @ rest)) = Some (rs ! r)"
  using assms
proof (induction rs arbitrary: r)
  case (Cons x rs)
  then show ?case by (cases r) simp_all
qed simp

lemma GetRestartPoint_layout:
  assumes "block_fits n es" "on_block c n es it" "r < restart_count n es"
  shows "GetRestartPoint it (of_nat r) = Some (of_nat (entry_offset n es (r * n)))"
proof -
  have "drop (entry_offset n es (length es)) (block_layout n es) =
      concat (map EncodeFixed32 (restart_offsets n es)) @ EncodeFixed32 (of_nat (restart_count n es))"
    by (simp add: block_layout_def entry_offset_def)
  then have "drop (entry_offset n es (length es) + 4 * r) (block_layout n es) =
      drop (4 * r) (concat (map EncodeFixed32 (restart_offsets n es)) @ EncodeFixed32 (of_nat (restart_count n es)))"
    by (metis add.commute drop_drop)
  moreover have "(of_nat r :: u32) < of_nat (restart_count n es)"
    using block_fits_small(2) [OF assms(1)] assms(3) by (simp add: word_less_nat_alt)
  ultimately show ?thesis
    using assms(2,3) block_fits_small(1) [OF assms(1), of "length es"] block_fits_small(2) [OF assms(1), of r]
      DecodeFixed32_nth [of r "restart_offsets n es"]
    by (simp add: GetRestartPoint_def on_block_def mult.commute [of r 4]) (simp add: restart_offsets_def)
qed

section \<open>Moving over the entries\<close>

text \<open>\<open>ahead it j r\<close>: the next entry to parse is \<open>j\<close>, and the restart index is \<open>r\<close>.\<close>

definition ahead :: "comparator \<Rightarrow> nat \<Rightarrow> entry list \<Rightarrow> block_iter \<Rightarrow> nat \<Rightarrow> nat \<Rightarrow> bool" where
  "ahead c n es it j r \<longleftrightarrow>
     on_block c n es it \<and> fst (bi_value it) + snd (bi_value it) = entry_offset n es j \<and>
     bi_restart_index it = of_nat r \<and> r < restart_count n es \<and> r * n \<le> j \<and> j \<le> length es \<and>
     (j < length es \<longrightarrow> entry_shared n es j \<le> length (bi_key it) \<and>
        take (entry_shared n es j) (bi_key it) = take (entry_shared n es j) (fst (es ! j)))"

text \<open>\<open>block_pos it i\<close>: the iterator is at the entry \<open>i\<close>, or behind the last one. An entry at a restart
  point still belongs to the restart block before it when it was reached from there.\<close>

definition block_pos :: "comparator \<Rightarrow> nat \<Rightarrow> entry list \<Rightarrow> block_iter \<Rightarrow> nat \<Rightarrow> bool" where
  "block_pos c n es it i \<longleftrightarrow>
     on_block c n es it \<and> i \<le> length es \<and> bi_current it = of_nat (entry_offset n es i) \<and>
     (i < length es \<longrightarrow>
        bi_key it = fst (es ! i) \<and> snd (bi_value it) = length (snd (es ! i)) \<and>
        block_bytes (block_layout n es) (fst (bi_value it)) (length (snd (es ! i))) = Some (snd (es ! i)) \<and>
        fst (bi_value it) + snd (bi_value it) = entry_offset n es (Suc i) \<and>
        (\<exists>r. bi_restart_index it = of_nat r \<and> r < restart_count n es \<and> r * n \<le> i \<and> i \<le> (r + 1) * n))"

lemma last_restart:
  assumes "0 < n" "j < length es" "r + 1 = restart_count n es"
  shows "j \<le> (r + 1) * n"
proof -
  have "j div n \<le> (length es - 1) div n" using assms(2) by (simp add: div_le_mono)
  then have "j div n < r + 1" using assms(3) by (simp add: restart_count_def)
  then show ?thesis using assms(1) by (metis div_less_iff_less_mult less_imp_le)
qed

lemma restart_loop_layout:
  assumes "block_fits n es" "on_block c n es it" "j < length es"
    and "r < restart_count n es" "r * n \<le> j"
  shows "\<exists>r'. restart_loop it (of_nat (entry_offset n es j)) (of_nat r) = Some (of_nat r') \<and>
    r' < restart_count n es \<and> r' * n \<le> j \<and> j \<le> (r' + 1) * n"
  using assms(4,5)
proof (induction "restart_count n es - r" arbitrary: r rule: less_induct)
  case less
  note small = block_fits_small [OF assms(1)]
  have n: "0 < n" using assms(1) by (simp add: block_fits_def)
  have num: "bi_num_restarts it = of_nat (restart_count n es)" using assms(2) by (simp add: on_block_def)
  have nxt: "(of_nat r + 1 :: u32) = of_nat (r + 1)" by simp
  have cond: "of_nat r + 1 < bi_num_restarts it \<longleftrightarrow> r + 1 < restart_count n es"
    unfolding num nxt using small(2) [of "r + 1"] small(2) [of "restart_count n es"] less.prems(1) by (simp add: word_less_nat_alt)
  show ?case
  proof (cases "r + 1 < restart_count n es")
    case False
    then show ?thesis using cond less.prems last_restart [OF n assms(3), of r]
      by (intro exI [of _ r]) (simp add: restart_loop.simps [of it])
  next
    case True
    have le: "(r + 1) * n \<le> length es" using restart_times_le [OF n True] .
    have point: "GetRestartPoint it (of_nat r + 1) = Some (of_nat (entry_offset n es ((r + 1) * n)))"
      using GetRestartPoint_layout [OF assms(1,2) True] unfolding nxt .
    have lt: "(of_nat (entry_offset n es ((r + 1) * n)) :: u32) < of_nat (entry_offset n es j) \<longleftrightarrow> (r + 1) * n < j"
      using small(1) [OF le] small(1) [of j] assms(3) by (simp add: word_less_nat_alt del: mult_Suc)
    show ?thesis
    proof (cases "(r + 1) * n < j")
      case step: True
      have "restart_loop it (of_nat (entry_offset n es j)) (of_nat r) = restart_loop it (of_nat (entry_offset n es j)) (of_nat (r + 1))"
        using True cond point lt step by (simp add: restart_loop.simps [of it _ "of_nat r"] add.commute [of "of_nat r :: u32" 1] del: mult_Suc)
      moreover have "restart_count n es - (r + 1) < restart_count n es - r" using True by simp
      ultimately show ?thesis using less.hyps [of "r + 1"] True step by simp
    next
      case False
      then show ?thesis using True cond point lt less.prems
        by (intro exI [of _ r]) (simp add: restart_loop.simps [of it _ "of_nat r"] del: mult_Suc)
    qed
  qed
qed

lemma ParseNextKey_layout:
  assumes "block_fits n es" "ahead c n es it j r"
  shows "\<exists>it'. ParseNextKey it = Some (j < length es, it') \<and> block_pos c n es it' j"
proof (cases "j < length es")
  case False
  then have "j = length es" using assms(2) by (simp add: ahead_def)
  with assms(2) show ?thesis
    by (auto simp: ParseNextKey_def Let_def NextEntryOffset_def ahead_def on_block_def block_pos_def)
next
  case True
  note small = block_fits_small [OF assms(1)]
  let ?it = "it\<lparr>bi_current := of_nat (entry_offset n es j)\<rparr>"
  let ?s = "entry_shared n es j" and ?key = "fst (es ! j)" and ?val = "snd (es ! j)"
  have it: "on_block c n es ?it" "NextEntryOffset it = of_nat (entry_offset n es j)" "r < restart_count n es" "r * n \<le> j"
    using assms(2) by (simp_all add: ahead_def on_block_def NextEntryOffset_def)
  obtain p where p: "DecodeEntry (block_layout n es) (entry_offset n es j) (entry_offset n es (length es)) =
      Some (of_nat ?s, of_nat (length ?key - ?s), of_nat (length ?val), p)"
    "block_bytes (block_layout n es) p (length ?key - ?s) = Some (drop ?s ?key)"
    "block_bytes (block_layout n es) (p + (length ?key - ?s)) (length ?val) = Some ?val"
    "p + (length ?key - ?s) + length ?val = entry_offset n es (Suc j)"
    using DecodeEntry_layout [OF assms(1) True] by blast
  obtain r' where r': "restart_loop ?it (of_nat (entry_offset n es j)) (of_nat r) = Some (of_nat r')"
    "r' < restart_count n es" "r' * n \<le> j" "j \<le> (r' + 1) * n"
    using restart_loop_layout [OF assms(1) it(1) True it(3,4)] by blast
  have "es ! j \<in> set es" using True by simp
  then have "length ?key < 2 ^ 32" using assms(1) unfolding block_fits_def by blast
  then have "?s < 2 ^ 32" "length ?key - ?s < 2 ^ 32" using entry_shared_le(1) [of n es j] by linarith+
  note key = this [THEN uint32_small]
  have "entry_offset n es (Suc j) \<le> entry_offset n es (length es)" using True by simp
  then have "length ?val < 2 ^ 32" using p(4) assms(1) length_layout [of n es] unfolding block_fits_def by linarith
  then have val: "unat (of_nat (length ?val) :: u32) = length ?val" by (rule uint32_small)
  have less: "\<not> (of_nat (entry_offset n es (length es)) :: u32) \<le> of_nat (entry_offset n es j)"
    using small(1) [of j] small(1) [of "length es"] True by (simp add: word_le_nat_alt)
  have shared: "\<not> length (bi_key it) < ?s" "take ?s (bi_key it) @ drop ?s ?key = ?key"
    using assms(2) True by (simp_all add: ahead_def)
  let ?res = "?it\<lparr>bi_key := ?key, bi_value := (p + (length ?key - ?s), length ?val), bi_restart_index := of_nat r'\<rparr>"
  have "ParseNextKey it = Some (True, ?res)"
    using assms(2) it less p(1,2) r'(1) key val shared small(1) [of j] small(1) [of "length es"] True
    by (simp add: ParseNextKey_def Let_def on_block_def ahead_def)
  moreover have "block_pos c n es ?res j"
    using it(1) p(3,4) r'(2-4) True by (auto simp: block_pos_def on_block_def intro!: exI [of _ r'])
  ultimately show ?thesis using True by auto
qed

lemma ahead_next:
  assumes "block_fits n es" "block_pos c n es it j" "j < length es"
  shows "\<exists>r. ahead c n es it (Suc j) r"
proof -
  obtain r where r: "bi_restart_index it = of_nat r" "r < restart_count n es" "r * n \<le> j"
    using assms(2,3) by (auto simp: block_pos_def)
  have key: "bi_key it = fst (es ! j)" using assms(2,3) by (simp add: block_pos_def)
  have "entry_shared n es (Suc j) \<le> length (bi_key it) \<and>
      take (entry_shared n es (Suc j)) (bi_key it) = take (entry_shared n es (Suc j)) (fst (es ! Suc j))"
  proof (cases "Suc j mod n = 0")
    case True
    then have "entry_shared n es (Suc j) = 0" by (simp add: entry_shared_def)
    then show ?thesis by simp
  next
    case False
    from entry_shared_le(2,3) [OF this, of es] show ?thesis by (simp add: key)
  qed
  then show ?thesis using r assms(2,3)
    by (intro exI [of _ r]) (auto simp: ahead_def block_pos_def)
qed

lemma SeekToRestartPoint_layout:
  assumes "block_fits n es" "on_block c n es it" "r < restart_count n es"
  shows "\<exists>it'. SeekToRestartPoint (of_nat r) it = Some it' \<and> ahead c n es it' (r * n) r"
proof -
  have n: "0 < n" using assms(1) by (simp add: block_fits_def)
  note le = restart_times_le [OF n assms(3)]
  show ?thesis
    using assms(2,3) GetRestartPoint_layout [OF assms] le block_fits_small(1) [OF assms(1) le]
    by (simp add: SeekToRestartPoint_def ahead_def on_block_def entry_shared_def)
qed

lemma skip_entries_layout:
  assumes "block_fits n es" "ahead c n es it j r" "j < i" "i \<le> length es"
  shows "\<exists>it'. skip_entries (of_nat (entry_offset n es i)) it = Some it' \<and> block_pos c n es it' (i - 1)"
  using assms(2,3)
proof (induction "i - j" arbitrary: it j r rule: less_induct)
  case less
  have j: "j < length es" using less.prems(2) assms(4) by simp
  from ParseNextKey_layout [OF assms(1) less.prems(1)] j obtain it1 where
    it1: "ParseNextKey it = Some (True, it1)" "block_pos c n es it1 j" by auto
  have "fst (bi_value it1) + snd (bi_value it1) = entry_offset n es (Suc j)" using it1(2) j by (simp add: block_pos_def)
  then have "NextEntryOffset it1 = of_nat (entry_offset n es (Suc j))" by (simp only: NextEntryOffset_def)
  then have lt: "NextEntryOffset it1 < of_nat (entry_offset n es i) \<longleftrightarrow> Suc j < i"
    using block_fits_small(1) [OF assms(1), of "Suc j"] block_fits_small(1) [OF assms(1), of i] j assms(4)
    by (simp add: word_less_nat_alt)
  show ?case
  proof (cases "Suc j < i")
    case True
    obtain r1 where "ahead c n es it1 (Suc j) r1" using ahead_next [OF assms(1) it1(2) j] by blast
    from less.hyps [OF _ this True] True have "\<exists>it'. skip_entries (of_nat (entry_offset n es i)) it1 = Some it' \<and> block_pos c n es it' (i - 1)"
      by simp
    then show ?thesis using it1(1) lt True by (simp add: skip_entries.simps [of _ it])
  next
    case False
    then have "i - 1 = j" using less.prems(2) by simp
    then show ?thesis using it1 lt False by (simp add: skip_entries.simps [of _ it])
  qed
qed

lemma SeekToFirst_layout:
  assumes "block_fits n es" "on_block c n es it"
  shows "\<exists>it'. BlockIter_SeekToFirst it = Some it' \<and> block_pos c n es it' 0"
proof -
  have "0 < restart_count n es" by (simp add: restart_count_def)
  from SeekToRestartPoint_layout [OF assms this] obtain it1 where
    it1: "SeekToRestartPoint 0 it = Some it1" "ahead c n es it1 0 0" by auto
  from ParseNextKey_layout [OF assms(1) it1(2)] it1(1) show ?thesis by (auto simp: BlockIter_SeekToFirst_def)
qed

lemma SeekToLast_layout:
  assumes "block_fits n es" "on_block c n es it"
  shows "\<exists>it'. BlockIter_SeekToLast it = Some it' \<and> block_pos c n es it' (length es - 1)"
proof -
  have n: "0 < n" using assms(1) by (simp add: block_fits_def)
  define r where "r = restart_count n es - 1"
  have r: "r < restart_count n es" "bi_num_restarts it - 1 = of_nat r"
    using assms(2) by (simp_all add: r_def on_block_def restart_count_def)
  from SeekToRestartPoint_layout [OF assms r(1)] obtain it1 where
    it1: "SeekToRestartPoint (of_nat r) it = Some it1" "ahead c n es it1 (r * n) r" by blast
  have end_offset: "bi_restarts it1 = of_nat (entry_offset n es (length es))" using it1(2) by (simp add: ahead_def on_block_def)
  show ?thesis
  proof (cases "es = []")
    case True
    with r(1) have "r * n = 0" by (simp add: restart_count_def)
    with it1(2) have "ahead c n es it1 0 r" by simp
    from ParseNextKey_layout [OF assms(1) this] True it1(1) r(2) show ?thesis
      by (auto simp: BlockIter_SeekToLast_def skip_entries.simps [of _ it1])
  next
    case False
    have "r * n < length es" by (rule restart_before(2) [OF n r(1) False])
    from skip_entries_layout [OF assms(1) it1(2) this] it1(1) r(2) end_offset show ?thesis
      by (auto simp: BlockIter_SeekToLast_def)
  qed
qed

lemma Valid_layout:
  assumes "block_fits n es" "block_pos c n es it i"
  shows "BlockIter_Valid it \<longleftrightarrow> i < length es"
  using assms block_fits_small(1) [OF assms(1), of i] block_fits_small(1) [OF assms(1), of "length es"]
  by (auto simp: BlockIter_Valid_def block_pos_def on_block_def word_less_nat_alt)

lemma Next_layout:
  assumes "block_fits n es" "block_pos c n es it i" "i < length es"
  shows "\<exists>it'. BlockIter_Next it = Some it' \<and> block_pos c n es it' (Suc i)"
proof -
  obtain r where "ahead c n es it (Suc i) r" using ahead_next [OF assms] by blast
  from ParseNextKey_layout [OF assms(1) this] Valid_layout [OF assms(1,2)] assms(3) show ?thesis
    by (auto simp: BlockIter_Next_def)
qed

lemma Prev_layout:
  assumes "block_fits n es" "block_pos c n es it i" "i < length es"
  shows "\<exists>it'. BlockIter_Prev it = Some it' \<and> block_pos c n es it' (if i = 0 then length es else i - 1)"
proof -
  note small = block_fits_small [OF assms(1)]
  have n: "0 < n" using assms(1) by (simp add: block_fits_def)
  obtain r where r: "bi_restart_index it = of_nat r" "r < restart_count n es" "r * n \<le> i" "i \<le> (r + 1) * n"
    and it: "on_block c n es it" "bi_current it = of_nat (entry_offset n es i)"
    using assms(2,3) by (auto simp: block_pos_def)
  have point: "prev_restart_loop it (bi_current it) (of_nat q) =
      (if i \<le> q * n then if q = 0 then Some None else prev_restart_loop it (bi_current it) (of_nat (q - 1)) else Some (Some (of_nat q)))"
    if "q < restart_count n es" for q
  proof -
    have le: "q * n \<le> length es" by (rule restart_times_le [OF n that])
    have "(of_nat (entry_offset n es (q * n)) :: u32) \<ge> of_nat (entry_offset n es i) \<longleftrightarrow> i \<le> q * n"
      using small(1) [OF le] small(1) [of i] assms(3) by (simp add: word_le_nat_alt)
    moreover have "(of_nat q :: u32) = 0 \<longleftrightarrow> q = 0" using small(2) [of q] that by (simp add: unat_eq_0 [symmetric])
    moreover have "q \<noteq> 0 \<Longrightarrow> (of_nat q - 1 :: u32) = of_nat (q - 1)" by simp
    ultimately show ?thesis
      using GetRestartPoint_layout [OF assms(1) it(1) that] it(2) by (simp add: prev_restart_loop.simps [of it _ "of_nat q"])
  qed
  show ?thesis
  proof (cases "i = 0")
    case True
    with r(3) n have "r = 0" by simp
    with True point [OF r(2)] r(1) have "prev_restart_loop it (bi_current it) (bi_restart_index it) = Some None" by simp
    with True it Valid_layout [OF assms(1,2)] assms(3) show ?thesis
      by (simp add: BlockIter_Prev_def Let_def block_pos_def on_block_def)
  next
    case False
    obtain q where q: "prev_restart_loop it (bi_current it) (bi_restart_index it) = Some (Some (of_nat q))"
      "q < restart_count n es" "q * n < i"
    proof (cases "r * n < i")
      case True
      with point [OF r(2)] r(1,2) that [of r] show thesis by simp
    next
      case at: False
      then have "r \<noteq> 0" "i = r * n" using r(3) False by (auto intro: ccontr)
      moreover then have "(r - 1) * n < i" using n by (simp add: diff_mult_distrib)
      ultimately show thesis using point [OF r(2)] point [of "r - 1"] r(1,2) that [of "r - 1"] by simp
    qed
    from SeekToRestartPoint_layout [OF assms(1) it(1) q(2)] obtain it1 where
      it1: "SeekToRestartPoint (of_nat q) it = Some it1" "ahead c n es it1 (q * n) q" by blast
    from skip_entries_layout [OF assms(1) it1(2) q(3)] assms(3) q(1) it1(1) it(2) False Valid_layout [OF assms(1,2)]
    show ?thesis by (auto simp: BlockIter_Prev_def Let_def)
  qed
qed

section \<open>Seeking\<close>

text \<open>The keys are sorted for the comparator.\<close>

definition below_target :: "comparator \<Rightarrow> slice \<Rightarrow> entry \<Rightarrow> bool" where
  "below_target c target e \<longleftrightarrow> cmp_Compare c (fst e) target < 0"

lemma DecodeEntry_restart:
  assumes "block_fits n es" "on_block c n es it" "r * n < length es"
  shows "\<exists>len p. DecodeEntry (bi_data it) (entry_offset n es (r * n)) (unat (bi_restarts it)) =
      Some (0, of_nat (length (fst (es ! (r * n)))), len, p) \<and>
    block_bytes (bi_data it) p (length (fst (es ! (r * n)))) = Some (fst (es ! (r * n)))"
proof -
  have "entry_shared n es (r * n) = 0" by (simp add: entry_shared_def)
  moreover have "bi_data it = block_layout n es" "unat (bi_restarts it) = entry_offset n es (length es)"
    using assms(2) block_fits_small(1) [OF assms(1), of "length es"] by (simp_all add: on_block_def)
  ultimately show ?thesis using DecodeEntry_layout [OF assms(1,3)] by auto
qed

lemma seek_restart_loop_layout:
  assumes "block_fits n es" "on_block c n es it"
    and "l \<le> r" "r < restart_count n es" "l = 0 \<or> below_target c target (es ! (l * n))"
  shows "\<exists>q. seek_restart_loop it target (of_nat l) (of_nat r) = Some (Some (of_nat q)) \<and> q < restart_count n es \<and>
    (q = 0 \<or> below_target c target (es ! (q * n)))"
  using assms(3-)
proof (induction "r - l" arbitrary: l r rule: less_induct)
  case less
  note small = block_fits_small [OF assms(1)]
  have n: "0 < n" using assms(1) by (simp add: block_fits_def)
  have lt: "(of_nat l :: u32) < of_nat r \<longleftrightarrow> l < r"
    using small(2) [of l] small(2) [of r] less.prems(1,2) by (simp add: word_less_nat_alt)
  show ?case
  proof (cases "l < r")
    case False
    then show ?thesis using lt less.prems by (intro exI [of _ l]) (simp add: seek_restart_loop.simps [of it])
  next
    case True
    define mid where "mid = (l + r + 1) div 2"
    have mid: "l < mid" "mid \<le> r" "0 < mid" using True by (auto simp: mid_def)
    have word_mid: "(of_nat l + of_nat r + 1) div 2 = (of_nat mid :: u32)"
    proof -
      have "l + r + 1 < 2 ^ 32" using less.prems(1,2) small(3) by simp
      then have "unat (of_nat (l + r + 1) :: u32) = l + r + 1" by (rule uint32_small)
      then have "unat ((of_nat (l + r + 1) :: u32) div 2) = mid" by (simp add: unat_div mid_def del: of_nat_add)
      moreover have "unat (of_nat mid :: u32) = mid" using small(2) [of mid] mid(2) less.prems(2) by simp
      ultimately have "(of_nat (l + r + 1) :: u32) div 2 = of_nat mid" by (metis word_unat_eq_iff)
      then show ?thesis by (simp add: ac_simps)
    qed
    have count: "mid < restart_count n es" using mid(2) less.prems(2) by simp
    then have "es \<noteq> []" using mid(3) by (auto simp: restart_count_def)
    then have inside: "mid * n < length es" by (rule restart_before(2) [OF n count])
    obtain len p where p: "DecodeEntry (bi_data it) (entry_offset n es (mid * n)) (unat (bi_restarts it)) =
        Some (0, of_nat (length (fst (es ! (mid * n)))), len, p)"
      "block_bytes (bi_data it) p (length (fst (es ! (mid * n)))) = Some (fst (es ! (mid * n)))"
      using DecodeEntry_restart [OF assms(1,2) inside] by blast
    have "es ! (mid * n) \<in> set es" using inside by simp
    then have "length (fst (es ! (mid * n))) < 2 ^ 32" using assms(1) unfolding block_fits_def by blast
    then have key: "unat (of_nat (length (fst (es ! (mid * n)))) :: u32) = length (fst (es ! (mid * n)))"
      by (rule uint32_small)
    have c: "bi_comparator it = c" using assms(2) by (simp add: on_block_def)
    have off: "unat (of_nat (entry_offset n es (mid * n)) :: u32) = entry_offset n es (mid * n)"
      using small(1) inside by simp
    have pred: "(of_nat mid - 1 :: u32) = of_nat (mid - 1)" using mid(3) by simp
    have step: "seek_restart_loop it target (of_nat l) (of_nat r) =
        (if below_target c target (es ! (mid * n)) then seek_restart_loop it target (of_nat mid) (of_nat r)
         else seek_restart_loop it target (of_nat l) (of_nat (mid - 1)))"
      using True lt p key off c GetRestartPoint_layout [OF assms(1,2) count]
      by (simp add: seek_restart_loop.simps [of it _ "of_nat l"] Let_def word_mid pred below_target_def del: of_nat_diff)
    show ?thesis
    proof (cases "below_target c target (es ! (mid * n))")
      case below: True
      from less.hyps [of r mid] mid below less.prems show ?thesis unfolding step by simp
    next
      case False
      from less.hyps [of "mid - 1" l] mid False less.prems show ?thesis unfolding step by simp
    qed
  qed
qed

lemma seek_linear_loop_layout:
  assumes "block_fits n es" "ahead c n es it j r" "\<forall>i < j. below_target c target (es ! i)"
  shows "\<exists>it'. seek_linear_loop target it = Some it' \<and>
    block_pos c n es it' (length (takeWhile (below_target c target) es))"
  using assms(2,3)
proof (induction "length es - j" arbitrary: it j r rule: less_induct)
  case less
  from ParseNextKey_layout [OF assms(1) less.prems(1)] obtain it1 where
    it1: "ParseNextKey it = Some (j < length es, it1)" "block_pos c n es it1 j" by blast
  have le: "j \<le> length es" using less.prems(1) by (simp add: ahead_def)
  show ?case
  proof (cases "j < length es")
    case False
    with le have "j = length es" by simp
    then have all: "takeWhile (below_target c target) es = es" using less.prems(2) by (simp add: takeWhile_eq_all_conv all_set_conv_all_nth)
    show ?thesis unfolding all using it1 \<open>j = length es\<close> by (simp add: seek_linear_loop.simps [of _ it])
  next
    case True
    then have key: "bi_key it1 = fst (es ! j)" "bi_comparator it1 = c"
      using it1(2) by (simp_all add: block_pos_def on_block_def)
    show ?thesis
    proof (cases "below_target c target (es ! j)")
      case below: True
      obtain r1 where "ahead c n es it1 (Suc j) r1" using ahead_next [OF assms(1) it1(2) True] by blast
      from less.hyps [OF _ this] True below less.prems(2) have
        "\<exists>it'. seek_linear_loop target it1 = Some it' \<and> block_pos c n es it' (length (takeWhile (below_target c target) es))"
        by (simp add: less_Suc_eq)
      with it1(1) True key below show ?thesis by (simp add: seek_linear_loop.simps [of _ it] below_target_def)
    next
      case False
      have "takeWhile (below_target c target) es = take j es"
        by (rule takeWhile_eq_take_P_nth) (use False less.prems(2) in simp_all)
      then have "length (takeWhile (below_target c target) es) = j" using True by simp
      with it1 True key False show ?thesis by (simp add: seek_linear_loop.simps [of _ it] below_target_def)
    qed
  qed
qed

context comparator_ok
begin

lemma below_target_sorted:
  assumes "sorted_wrt less (map fst es)" "list_all valid (map fst es)" "valid target"
    and "j < length es" "below_target c target (es ! j)" "i \<le> j"
  shows "below_target c target (es ! i)"
proof (cases "i = j")
  case False
  then have "i < j" using assms(6) by simp
  with assms(1,4) have "less (fst (es ! i)) (fst (es ! j))" by (simp add: sorted_wrt_iff_nth_less)
  moreover have "valid (fst (es ! j))" "valid (fst (es ! i))" using assms(2,4,6) by (simp_all add: list_all_length)
  ultimately show ?thesis
    using assms(3,5) compare_less less_trans by (auto simp: below_target_def)
qed (use assms in simp)

lemma Seek_layout:
  assumes "block_fits n es" "on_block c n es it"
    and "sorted_wrt less (map fst es)" "list_all valid (map fst es)" "valid target"
  shows "\<exists>it'. BlockIter_Seek target it = Some it' \<and>
    block_pos c n es it' (length (takeWhile (below_target c target) es))"
proof -
  have n: "0 < n" using assms(1) by (simp add: block_fits_def)
  define r where "r = restart_count n es - 1"
  have r: "r < restart_count n es" "bi_num_restarts it - 1 = of_nat r"
    using assms(2) by (simp_all add: r_def on_block_def restart_count_def)
  from seek_restart_loop_layout [OF assms(1,2), of 0 r target] r(1) obtain q where
    q: "seek_restart_loop it target 0 (of_nat r) = Some (Some (of_nat q))" "q < restart_count n es"
    "q = 0 \<or> below_target c target (es ! (q * n))" by auto
  from SeekToRestartPoint_layout [OF assms(1,2) q(2)] obtain it1 where
    it1: "SeekToRestartPoint (of_nat q) it = Some it1" "ahead c n es it1 (q * n) q" by blast
  have "\<forall>i < q * n. below_target c target (es ! i)"
  proof (cases "q = 0 \<or> es = []")
    case False
    then have "q * n < length es" using restart_before(2) [OF n q(2)] by blast
    with below_target_sorted [OF assms(3-5)] q(3) False show ?thesis by (metis less_imp_le)
  qed (use q(2) in \<open>auto simp: restart_count_def\<close>)
  from seek_linear_loop_layout [OF assms(1) it1(2) this] q(1) it1(1) r(2) show ?thesis
    by (simp add: BlockIter_Seek_def)
qed

end

section \<open>From the builder to the iterator\<close>

primrec BlockBuilder_Adds :: "'o block_options_scheme \<Rightarrow> entry list \<Rightarrow> block_builder \<Rightarrow> block_builder option" where
  "BlockBuilder_Adds opt [] b = Some b"
| "BlockBuilder_Adds opt (e # es) b = Option.bind (BlockBuilder_Add opt (fst e) (snd e) b) (BlockBuilder_Adds opt es)"

lemma PutFixed32_fold: "fold (\<lambda>r buffer. PutFixed32 buffer r) rs buffer = buffer @ concat (map EncodeFixed32 rs)"
  by (induction rs arbitrary: buffer) (simp_all add: PutFixed32_def)

lemma Finish_layout:
  assumes "built opt b es"
  shows "\<exists>b'. BlockBuilder_Finish b = (block_layout (nat (bo_block_restart_interval opt)) es, b') \<and>
    CurrentSizeEstimate b = length (block_layout (nat (bo_block_restart_interval opt)) es)"
  using assms
  by (simp add: BlockBuilder_Finish_def Let_def built_def PutFixed32_fold block_layout_def CurrentSizeEstimate_def)
    (simp add: PutFixed32_def)

lemma NewIterator_layout:
  assumes "block_fits n es"
  shows "\<exists>b it. Block_new (block_layout n es) = Some b \<and> Block_NewIterator c b = Some (Entry_iterator it) \<and>
    on_block c n es it"
proof -
  let ?data = "block_layout n es" and ?r = "restart_count n es"
  note small = block_fits_small [OF assms]
  have len: "length ?data = entry_offset n es (length es) + 4 * ?r + 4" by (rule length_layout)
  have "?data = (entries_from n es 0 (length es) @ concat (map EncodeFixed32 (restart_offsets n es))) @ EncodeFixed32 (of_nat ?r)"
    by (simp add: block_layout_def)
  then have "drop (length ?data - 4) ?data = EncodeFixed32 (of_nat ?r)"
    using len by (simp add: entry_offset_def)
  then have num: "DecodeFixed32 (drop (length ?data - 4) ?data) = Some (of_nat ?r)"
    using DecodeFixed32_Encode [of "of_nat ?r" "[]"] by simp
  have r: "unat (of_nat ?r :: u32) = ?r" using small(2) by simp
  have r1: "unat (1 + of_nat ?r :: u32) = 1 + ?r"
  proof -
    have "unat (of_nat (1 + ?r) :: u32) = 1 + ?r" by (rule uint32_small) (use small(3) in simp)
    then show ?thesis by simp
  qed
  have "0 < ?r" by (simp add: restart_count_def)
  then have pos: "(0 :: u32) < of_nat ?r" using r by (simp add: word_less_nat_alt)
  let ?b = "\<lparr>bl_data = ?data, bl_size = length ?data, bl_restart_offset = of_nat (length ?data - (1 + ?r) * 4)\<rparr>"
  have "length ?data - (1 + ?r) * 4 = entry_offset n es (length es)" using len by simp
  moreover have "?r \<le> (length ?data - 4) div 4" using len by simp
  ultimately have "Block_new ?data = Some (?b\<lparr>bl_restart_offset := of_nat (entry_offset n es (length es))\<rparr>)"
    using len num r r1 by (simp add: Block_new_def Let_def NumRestarts_def)
  then show ?thesis
    using len num pos r by (auto simp: Block_NewIterator_def NumRestarts_def BlockIter_new_def on_block_def word_neq_0_conv [symmetric])
qed

context comparator_ok
begin

lemma Adds_built:
  assumes "bo_comparator opt = c" "bo_block_restart_interval opt \<ge> 1" "built opt b fs"
    and "sorted_wrt less (map fst (fs @ es))" "list_all valid (map fst (fs @ es))"
  shows "\<exists>b'. BlockBuilder_Adds opt es b = Some b' \<and> built opt b' (fs @ es)"
  using assms(3-)
proof (induction es arbitrary: fs b)
  case (Cons e es)
  have "cmp_Compare (bo_comparator opt) (fst e) (fst (last fs)) > 0" if "fs \<noteq> []"
  proof -
    have "last fs \<in> set fs" using that by simp
    with Cons.prems(2,3) assms(1) compare_greater show ?thesis
      by (auto simp: sorted_wrt_append list_all_iff)
  qed
  with BlockBuilder_Add_built [OF assms(2) Cons.prems(1), of "fst e" "snd e"] obtain b1 where
    b1: "BlockBuilder_Add opt (fst e) (snd e) b = Some b1" "built opt b1 (fs @ [e])" by auto
  from Cons.IH [OF b1(2)] Cons.prems(2,3) b1(1) show ?case by simp
qed simp

end

section \<open>Properties\<close>

text \<open>C22: a block can be read back: when entries with ascending keys are added to a new builder, no
  assertion fails, \<open>Finish\<close> returns as many bytes as \<open>CurrentSizeEstimate\<close> promised, and the block
  made of them has an iterator that \<open>SeekToFirst\<close> puts at the first entry, \<open>SeekToLast\<close> at the last
  one, and \<open>Seek\<close> at the first entry whose key is not before the target, or behind the end. This
  holds for every restart interval and every comparator that keeps its contract.\<close>

theorem block_roundtrip:
  assumes "comparator_ok c valid lt" "bo_comparator opt = c" "bo_block_restart_interval opt \<ge> 1"
    and "sorted_wrt lt (map fst es)" "list_all valid (map fst es)"
    and "block_fits (nat (bo_block_restart_interval opt)) es" "valid target"
  shows "\<exists>b0 b b' contents blk it.
    BlockBuilder_new opt = Some b0 \<and> BlockBuilder_Adds opt es b0 = Some b \<and>
    BlockBuilder_Finish b = (contents, b') \<and> length contents = CurrentSizeEstimate b \<and>
    Block_new contents = Some blk \<and> Block_NewIterator c blk = Some (Entry_iterator it) \<and>
    (\<exists>it'. BlockIter_SeekToFirst it = Some it' \<and> block_pos c (nat (bo_block_restart_interval opt)) es it' 0) \<and>
    (\<exists>it'. BlockIter_SeekToLast it = Some it' \<and> block_pos c (nat (bo_block_restart_interval opt)) es it' (length es - 1)) \<and>
    (\<exists>it'. BlockIter_Seek target it = Some it' \<and>
      block_pos c (nat (bo_block_restart_interval opt)) es it'
        (length (takeWhile (\<lambda>e. cmp_Compare c (fst e) target < 0) es)))"
proof -
  let ?n = "nat (bo_block_restart_interval opt)"
  obtain b0 where b0: "BlockBuilder_new opt = Some b0" "built opt b0 []" using built_new [OF assms(3)] by blast
  from comparator_ok.Adds_built [OF assms(1-3) b0(2), of es] assms(4,5) obtain b where
    b: "BlockBuilder_Adds opt es b0 = Some b" "built opt b es" by auto
  obtain b' where b': "BlockBuilder_Finish b = (block_layout ?n es, b')" "CurrentSizeEstimate b = length (block_layout ?n es)"
    using Finish_layout [OF b(2)] by blast
  obtain blk it where it: "Block_new (block_layout ?n es) = Some blk" "Block_NewIterator c blk = Some (Entry_iterator it)"
    "on_block c ?n es it" using NewIterator_layout [OF assms(6)] by blast
  show ?thesis
    using b0(1) b(1) b' it(1,2) SeekToFirst_layout [OF assms(6) it(3)] SeekToLast_layout [OF assms(6) it(3)]
      comparator_ok.Seek_layout [OF assms(1,6) it(3) assms(4,5,7)]
    unfolding below_target_def by auto
qed

lemma sample_fits: "block_fits 16 [([1], [7]), ([1, 2], [8])]"
proof -
  have short: "length (EncodeVarint32 v) \<le> 5" for v
    using varint_bytes_length_32 [OF unat_u32_less [of v]] by (simp add: EncodeVarint32_bytes)
  have "length (enc_entry s e) \<le> 15 + length (fst e) + length (snd e)" for s e
    using short [of "of_nat s"] short [of "of_nat (length (fst e) - s)"] short [of "of_nat (length (snd e))"]
    unfolding enc_entry_def length_append length_drop by linarith
  from this [of "entry_shared 16 [([1], [7]), ([1, 2], [8])] 0" "([1], [7])"]
    this [of "entry_shared 16 [([1], [7]), ([1, 2], [8])] 1" "([1, 2], [8])"]
  show ?thesis
    by (simp add: block_fits_def length_layout entry_offset_def entries_from_def entry_bytes_def restart_count_def)
qed

theorem block_roundtrip_witness:
  "\<exists>b0 b b' contents blk it it'.
    BlockBuilder_new \<lparr>bo_comparator = BytewiseComparator, bo_block_restart_interval = 16\<rparr> = Some b0 \<and>
    BlockBuilder_Adds \<lparr>bo_comparator = BytewiseComparator, bo_block_restart_interval = 16\<rparr> [([1], [7]), ([1, 2], [8])] b0 = Some b \<and>
    BlockBuilder_Finish b = (contents, b') \<and> Block_new contents = Some blk \<and>
    Block_NewIterator BytewiseComparator blk = Some (Entry_iterator it) \<and>
    BlockIter_Seek [1, 1] it = Some it' \<and> block_pos BytewiseComparator 16 [([1], [7]), ([1, 2], [8])] it' 1"
proof -
  have "sorted_wrt bytes_less (map fst [([1 :: u8], [7 :: u8]), ([1, 2], [8])])" by simp
  moreover have "cmp_Compare BytewiseComparator [1] [1, 1] < 0" "\<not> cmp_Compare BytewiseComparator [1, 2] [1, 1] < 0"
    using bytewise.compare_less [of "[1]" "[1, 1]"] bytewise.compare_less [of "[1, 2]" "[1, 1]"] by simp_all
  ultimately show ?thesis
    using block_roundtrip [OF bytewise.comparator_ok_axioms, of
      "\<lparr>bo_comparator = BytewiseComparator, bo_block_restart_interval = 16\<rparr>" "[([1], [7]), ([1, 2], [8])]" "[1, 1]"]
      sample_fits by fastforce
qed

text \<open>C23: the iterator of a block moves over its entries: at a position it is valid unless this is
  the end, \<open>key\<close> and \<open>value\<close> are those of the entry, the status is OK, \<open>Next\<close> goes to the next
  position, and \<open>Prev\<close>, which has to go back to a restart point and parse from there, to the one
  before or, from the first entry, to the end.\<close>

theorem block_iterator_moves:
  assumes "block_fits n es" "block_pos c n es it i"
  shows "i \<le> length es \<and> (BlockIter_Valid it \<longleftrightarrow> i < length es) \<and> bi_status it = Status_OK \<and>
    (i < length es \<longrightarrow>
       BlockIter_key it = Some (fst (es ! i)) \<and> BlockIter_value it = Some (snd (es ! i)) \<and>
       (\<exists>it'. BlockIter_Next it = Some it' \<and> block_pos c n es it' (i + 1)) \<and>
       (\<exists>it'. BlockIter_Prev it = Some it' \<and> block_pos c n es it' (if i = 0 then length es else i - 1)))"
  using assms(2) Valid_layout [OF assms] Next_layout [OF assms] Prev_layout [OF assms]
  by (auto simp: block_pos_def on_block_def BlockIter_key_def BlockIter_value_def)

theorem block_iterator_moves_witness:
  "\<exists>b it it' it''. Block_new (block_layout 16 [([1], [7]), ([1, 2], [8])]) = Some b \<and>
    Block_NewIterator BytewiseComparator b = Some (Entry_iterator it) \<and> BlockIter_SeekToFirst it = Some it' \<and>
    BlockIter_key it' = Some [1] \<and> BlockIter_value it' = Some [7] \<and> BlockIter_Next it' = Some it'' \<and>
    BlockIter_key it'' = Some [1, 2] \<and> BlockIter_value it'' = Some [8]"
proof -
  let ?es = "[([1], [7]), ([1, 2], [8])] :: entry list"
  obtain b it where it: "Block_new (block_layout 16 ?es) = Some b"
    "Block_NewIterator BytewiseComparator b = Some (Entry_iterator it)" "on_block BytewiseComparator 16 ?es it"
    using NewIterator_layout [OF sample_fits] by blast
  obtain it' where it': "BlockIter_SeekToFirst it = Some it'" "block_pos BytewiseComparator 16 ?es it' 0"
    using SeekToFirst_layout [OF sample_fits it(3)] by blast
  from block_iterator_moves [OF sample_fits it'(2)] obtain it'' where
    first: "BlockIter_key it' = Some [1]" "BlockIter_value it' = Some [7]" "BlockIter_Next it' = Some it''"
    "block_pos BytewiseComparator 16 ?es it'' 1" by auto
  from block_iterator_moves [OF sample_fits this(4)] have "BlockIter_key it'' = Some [1, 2]" "BlockIter_value it'' = Some [8]"
    by simp_all
  with it(1,2) it'(1) first show ?thesis by blast
qed

text \<open>C24: a corrupted block can lead the iterator outside the block: \<open>DecodeEntry\<close> adds the two
  lengths in 32 bits, so a key length of \<open>2 ^ 32 - 1\<close> and a value length of 1 pass its check, and
  \<open>ParseNextKey\<close> then appends 4 GiB from a block of 15 bytes to the key.\<close>

definition overread_block :: slice where
  "overread_block = [0, 0xFF, 0xFF, 0xFF, 0xFF, 0x0F, 1] @ [0, 0, 0, 0] @ [1, 0, 0, 0]"

theorem block_entry_overreads:
  "\<exists>b it. Block_new overread_block = Some b \<and> Block_NewIterator c b = Some (Entry_iterator it) \<and>
     DecodeEntry overread_block 0 7 = Some (0, 0xFFFFFFFF, 1, 7) \<and> BlockIter_SeekToFirst it = None"
proof -
  have num: "DecodeFixed32 [1, 0, 0, 0] = Some 1" "DecodeFixed32 [0, 0, 0, 0, 1, 0, 0, 0] = Some 0"
    by (simp_all add: DecodeFixed32_def kLittleEndian_def le_value_def)
  have decode: "DecodeEntry overread_block 0 7 = Some (0, 0xFFFFFFFF, 1, 7)"
    by (simp add: DecodeEntry_def overread_block_def GetVarint32Ptr_def GetVarint32PtrFallback_def Let_def)
  let ?b = "\<lparr>bl_data = overread_block, bl_size = 15, bl_restart_offset = 7\<rparr>"
  have block: "Block_new overread_block = Some ?b"
    using num by (simp add: Block_new_def NumRestarts_def Let_def overread_block_def)
  obtain it where it: "BlockIter_new c overread_block 7 1 = Some it" "bi_data it = overread_block" "bi_restarts it = 7"
    "bi_num_restarts it = 1" by (simp add: BlockIter_new_def)
  have iter: "Block_NewIterator c ?b = Some (Entry_iterator it)"
    using num it(1) by (simp add: Block_NewIterator_def NumRestarts_def overread_block_def)
  have point: "GetRestartPoint it 0 = Some 0"
    using num it by (simp add: GetRestartPoint_def overread_block_def)
  have "block_bytes overread_block 7 0xFFFFFFFF = None" by (simp add: block_bytes_def overread_block_def)
  then have "BlockIter_SeekToFirst it = None"
    using decode point it by (simp add: BlockIter_SeekToFirst_def SeekToRestartPoint_def ParseNextKey_def Let_def NextEntryOffset_def)
  with block iter decode show ?thesis by blast
qed

end
