(* ===== verification/Ldb_Iterator.thy ===== *)
theory Ldb_Iterator
  imports Ldb_Block_Correct "HOL-Library.Multiset"
begin

text \<open>
  The interface \<open>Iterator\<close> of \<open>include/leveldb/iterator.h\<close> with its contract, the cleanup functions and
  the empty iterators of \<open>table/iterator.cc\<close>, and \<open>table/iterator_wrapper.h\<close>. The iterator of a block
  is shown to keep the contract.
\<close>

section \<open>The interface\<close>

text \<open>The virtual functions, on a state \<open>'s\<close> of the iterator and a state \<open>'w\<close> of what iterators share:
  the block cache and the files. \<open>None\<close> is a failed assertion.\<close>

record ('s, 'w) iterator =
  it_Valid :: "'s \<Rightarrow> bool"
  it_SeekToFirst :: "'s \<Rightarrow> 'w \<Rightarrow> ('s \<times> 'w) option"
  it_SeekToLast :: "'s \<Rightarrow> 'w \<Rightarrow> ('s \<times> 'w) option"
  it_Seek :: "slice \<Rightarrow> 's \<Rightarrow> 'w \<Rightarrow> ('s \<times> 'w) option"
  it_Next :: "'s \<Rightarrow> 'w \<Rightarrow> ('s \<times> 'w) option"
  it_Prev :: "'s \<Rightarrow> 'w \<Rightarrow> ('s \<times> 'w) option"
  it_key :: "'s \<Rightarrow> slice option"
  it_value :: "'s \<Rightarrow> slice option"
  it_status :: "'s \<Rightarrow> status option"
  it_delete :: "'s \<Rightarrow> 'w \<Rightarrow> 'w option"

text \<open>Where \<open>Seek\<close> goes: the number of entries with keys before the target.\<close>

definition seek_pos :: "comparator \<Rightarrow> slice \<Rightarrow> entry list \<Rightarrow> nat" where
  "seek_pos c target es = length (takeWhile (\<lambda>e. cmp_Compare c (fst e) target < 0) es)"

lemma seek_pos_le: "seek_pos c target es \<le> length es"
  by (simp add: seek_pos_def length_takeWhile_le)

lemma seek_pos_before: "i < seek_pos c target es \<Longrightarrow> cmp_Compare c (fst (es ! i)) target < 0"
  using nth_mem [of i "takeWhile (\<lambda>e. cmp_Compare c (fst e) target < 0) es"]
  by (auto simp: seek_pos_def takeWhile_nth dest: set_takeWhileD)

lemma seek_pos_not_before: "seek_pos c target es < length es \<Longrightarrow> \<not> cmp_Compare c (fst (es ! seek_pos c target es)) target < 0"
  using nth_length_takeWhile [of "\<lambda>e. cmp_Compare c (fst e) target < 0" es] by (simp add: seek_pos_def)

text \<open>An operation returned, the iterator is at a position, and the shared state is good for the handles
  that the iterator holds now and those of the others.\<close>

definition moved ::
  "('s \<Rightarrow> bool) \<Rightarrow> ('s \<Rightarrow> 'h multiset) \<Rightarrow> ('h multiset \<Rightarrow> 'w \<Rightarrow> bool) \<Rightarrow> 'h multiset \<Rightarrow> ('s \<times> 'w) option \<Rightarrow> bool" where
  "moved P held world others r \<longleftrightarrow> (\<exists>s w. r = Some (s, w) \<and> P s \<and> world (held s + others) w)"

lemma movedE:
  assumes "moved P held world others r"
  obtains s w where "r = Some (s, w)" "P s" "world (held s + others) w"
  using assms unfolding moved_def by blast

lemma movedI: "r = Some (s, w) \<Longrightarrow> P s \<Longrightarrow> world (held s + others) w \<Longrightarrow> moved P held world others r"
  unfolding moved_def by blast

text \<open>The contract: an iterator over the entries \<open>es\<close>. \<open>at s i\<close> says that the state is at position \<open>i\<close>, the
  last position being the end; \<open>good\<close> says only that it belongs to these entries. No operation fails an
  assertion, loses a handle of the cache or gives one back that it does not hold.\<close>

locale iterator_ok =
  fixes ops :: "('s, 'w) iterator"
    and c :: comparator
    and valid :: "slice \<Rightarrow> bool"
    and es :: "entry list"
    and good :: "'s \<Rightarrow> bool"
    and at :: "'s \<Rightarrow> nat \<Rightarrow> bool"
    and held :: "'s \<Rightarrow> 'h multiset"
    and world :: "'h multiset \<Rightarrow> 'w \<Rightarrow> bool"
  assumes at_good: "at s i \<Longrightarrow> good s \<and> i \<le> length es"
    and at_valid: "at s i \<Longrightarrow> it_Valid ops s \<longleftrightarrow> i < length es"
    and at_entry: "at s i \<Longrightarrow> i < length es \<Longrightarrow>
      it_key ops s = Some (fst (es ! i)) \<and> it_value ops s = Some (snd (es ! i))"
    and good_key: "good s \<Longrightarrow> it_Valid ops s \<Longrightarrow> it_key ops s \<noteq> None"
    and at_status: "good s \<Longrightarrow> it_status ops s = Some Status_OK"
    and to_first: "good s \<Longrightarrow> world (held s + H) w \<Longrightarrow> moved (\<lambda>s. at s 0) held world H (it_SeekToFirst ops s w)"
    and to_last: "good s \<Longrightarrow> world (held s + H) w \<Longrightarrow> moved (\<lambda>s. at s (length es - 1)) held world H (it_SeekToLast ops s w)"
    and to_target: "good s \<Longrightarrow> world (held s + H) w \<Longrightarrow> valid target \<Longrightarrow>
      moved (\<lambda>s. at s (seek_pos c target es)) held world H (it_Seek ops target s w)"
    and to_next: "at s i \<Longrightarrow> i < length es \<Longrightarrow> world (held s + H) w \<Longrightarrow>
      moved (\<lambda>s. at s (i + 1)) held world H (it_Next ops s w)"
    and to_prev: "at s i \<Longrightarrow> i < length es \<Longrightarrow> world (held s + H) w \<Longrightarrow>
      moved (\<lambda>s. at s (if i = 0 then length es else i - 1)) held world H (it_Prev ops s w)"
    and deleted: "good s \<Longrightarrow> world (held s + H) w \<Longrightarrow> \<exists>w'. it_delete ops s w = Some w' \<and> world H w'"

section \<open>Cleanup functions\<close>

text \<open>The list of the base class: its head, and behind it the functions registered later, newest first.\<close>

definition RegisterCleanup :: "'c \<Rightarrow> 'c list \<Rightarrow> 'c list" where
  "RegisterCleanup f cleanups = (case cleanups of [] \<Rightarrow> [f] | head # nodes \<Rightarrow> head # f # nodes)"

text \<open>The destructor of the base class.\<close>

primrec run_cleanups :: "('c \<Rightarrow> 'w \<Rightarrow> 'w option) \<Rightarrow> 'c list \<Rightarrow> 'w \<Rightarrow> 'w option" where
  "run_cleanups run [] w = Some w"
| "run_cleanups run (f # nodes) w = Option.bind (run f w) (run_cleanups run nodes)"

section \<open>Block iterators\<close>

text \<open>\<open>EmptyIterator\<close>, which \<open>NewEmptyIterator\<close> and \<open>NewErrorIterator\<close> make, and the iterator of a block.\<close>

definition iterator_Valid :: "block_iterator \<Rightarrow> bool" where
  "iterator_Valid s = (case s of Entry_iterator it \<Rightarrow> BlockIter_Valid it | _ \<Rightarrow> False)"

definition on_entries :: "(block_iter \<Rightarrow> block_iter option) \<Rightarrow> block_iterator option \<Rightarrow> block_iterator \<Rightarrow> 'w \<Rightarrow> (block_iterator \<times> 'w) option" where
  "on_entries f otherwise s w =
     (case s of
        Entry_iterator it \<Rightarrow> map_option (\<lambda>it. (Entry_iterator it, w)) (f it)
      | _ \<Rightarrow> map_option (\<lambda>s. (s, w)) otherwise)"

definition block_iterator_ops :: "(block_iterator, 'w) iterator" where
  "block_iterator_ops =
     \<lparr>it_Valid = iterator_Valid,
      it_SeekToFirst = (\<lambda>s. on_entries BlockIter_SeekToFirst (Some s) s),
      it_SeekToLast = (\<lambda>s. on_entries BlockIter_SeekToLast (Some s) s),
      it_Seek = (\<lambda>target s. on_entries (BlockIter_Seek target) (Some s) s),
      it_Next = on_entries BlockIter_Next None,
      it_Prev = on_entries BlockIter_Prev None,
      it_key = (\<lambda>s. case s of Entry_iterator it \<Rightarrow> BlockIter_key it | _ \<Rightarrow> None),
      it_value = (\<lambda>s. case s of Entry_iterator it \<Rightarrow> BlockIter_value it | _ \<Rightarrow> None),
      it_status = (\<lambda>s. case s of Entry_iterator it \<Rightarrow> Some (bi_status it) | Error_iterator st \<Rightarrow> Some st
                        | Empty_iterator \<Rightarrow> Some Status_OK),
      it_delete = (\<lambda>s w. Some w)\<rparr>"

section \<open>The iterator of a block keeps the contract\<close>

lemma seek_pos_below: "seek_pos c target es = length (takeWhile (below_target c target) es)"
  unfolding seek_pos_def by (rule arg_cong [where f = length], rule takeWhile_cong) (simp_all add: below_target_def)

lemma block_entry:
  assumes "block_fits n es" "block_pos c n es it i" "i < length es"
  shows "BlockIter_key it = Some (fst (es ! i)) \<and> BlockIter_value it = Some (snd (es ! i))"
  using assms(2,3) Valid_layout [OF assms(1,2)]
  by (auto simp: block_pos_def on_block_def BlockIter_key_def BlockIter_value_def)

lemma moved_entries:
  assumes "\<exists>it'. f it = Some it' \<and> P (Entry_iterator it')" "world H w"
  shows "moved P (\<lambda>_. {#}) world H (on_entries f r (Entry_iterator it) w)"
  using assms by (auto simp: moved_def on_entries_def)

context comparator_ok
begin

definition block_good :: "nat \<Rightarrow> entry list \<Rightarrow> block_iterator \<Rightarrow> bool" where
  "block_good n es s \<longleftrightarrow>
     (\<exists>it. s = Entry_iterator it \<and> on_block c n es it \<and> block_fits n es \<and> sorted_wrt less (map fst es) \<and> list_all valid (map fst es))"

definition block_at :: "nat \<Rightarrow> entry list \<Rightarrow> block_iterator \<Rightarrow> nat \<Rightarrow> bool" where
  "block_at n es s i \<longleftrightarrow>
     (\<exists>it. s = Entry_iterator it \<and> block_pos c n es it i \<and> block_fits n es \<and> sorted_wrt less (map fst es) \<and> list_all valid (map fst es))"

lemma block_pos_good: "block_pos c n es it i \<Longrightarrow> on_block c n es it \<and> i \<le> length es"
  by (simp add: block_pos_def)

lemma block_iterator_ok: "iterator_ok block_iterator_ops c valid es (block_good n es) (block_at n es) (\<lambda>_. {#}) world"
  for world :: "'h multiset \<Rightarrow> 'w \<Rightarrow> bool"
proof
  fix s i and w :: 'w and H :: "'h multiset"
  show "block_good n es s \<and> i \<le> length es" if "block_at n es s i"
    using that block_pos_good by (auto simp: block_at_def block_good_def)
  show "it_Valid block_iterator_ops s \<longleftrightarrow> i < length es" if "block_at n es s i"
    using that Valid_layout by (auto simp: block_at_def block_iterator_ops_def iterator_Valid_def)
  show "it_key block_iterator_ops s = Some (fst (es ! i)) \<and> it_value block_iterator_ops s = Some (snd (es ! i))"
    if "block_at n es s i" "i < length es"
    using that block_entry by (auto simp: block_at_def block_iterator_ops_def)
  show "it_key block_iterator_ops s \<noteq> None" if "block_good n es s" "it_Valid block_iterator_ops s"
    using that by (auto simp: block_good_def block_iterator_ops_def iterator_Valid_def BlockIter_key_def)
  show "it_status block_iterator_ops s = Some Status_OK" if "block_good n es s"
    using that by (auto simp: block_good_def block_iterator_ops_def on_block_def)
  show "\<exists>w'. it_delete block_iterator_ops s w = Some w' \<and> world H w'" if "world ({#} + H) w"
    using that by (simp add: block_iterator_ops_def)
next
  fix s i target and w :: 'w and H :: "'h multiset"
  assume w: "world ({#} + H) w"
  show "moved (\<lambda>s. block_at n es s 0) (\<lambda>_. {#}) world H (it_SeekToFirst block_iterator_ops s w)" if "block_good n es s"
    using that w SeekToFirst_layout [of n es c]
    by (fastforce simp: block_good_def block_at_def block_iterator_ops_def intro!: moved_entries)
  show "moved (\<lambda>s. block_at n es s (length es - 1)) (\<lambda>_. {#}) world H (it_SeekToLast block_iterator_ops s w)" if "block_good n es s"
    using that w SeekToLast_layout [of n es c]
    by (fastforce simp: block_good_def block_at_def block_iterator_ops_def intro!: moved_entries)
  show "moved (\<lambda>s. block_at n es s (seek_pos c target es)) (\<lambda>_. {#}) world H (it_Seek block_iterator_ops target s w)"
    if "block_good n es s" "valid target"
    using that w Seek_layout [of n es _ target]
    by (fastforce simp: block_good_def block_at_def block_iterator_ops_def seek_pos_below intro!: moved_entries)
  show "moved (\<lambda>s. block_at n es s (i + 1)) (\<lambda>_. {#}) world H (it_Next block_iterator_ops s w)"
    if "block_at n es s i" "i < length es"
    using that w Next_layout [of n es c]
    by (fastforce simp: block_at_def block_iterator_ops_def intro!: moved_entries)
  show "moved (\<lambda>s. block_at n es s (if i = 0 then length es else i - 1)) (\<lambda>_. {#}) world H (it_Prev block_iterator_ops s w)"
    if "block_at n es s i" "i < length es"
    using that w Prev_layout [of n es c]
    by (fastforce simp: block_at_def block_iterator_ops_def intro!: moved_entries)
qed

end

sublocale comparator_ok \<subseteq> block: iterator_ok block_iterator_ops c valid es "block_good n es" "block_at n es" "\<lambda>_. {#}" world
  for n es and world :: "'h multiset \<Rightarrow> 'w \<Rightarrow> bool"
  by (rule block_iterator_ok)

section \<open>The wrapper\<close>

text \<open>\<open>IteratorWrapper\<close> keeps what \<open>Valid\<close> and \<open>key\<close> of an iterator returned last.\<close>

record 's iterator_wrapper =
  iw_iter :: "'s option"
  iw_valid :: bool
  iw_key :: slice

definition IteratorWrapper :: "'s iterator_wrapper" where
  "IteratorWrapper = \<lparr>iw_iter = None, iw_valid = False, iw_key = []\<rparr>"

definition Wrapper_Update :: "('s, 'w) iterator \<Rightarrow> 's \<Rightarrow> 's iterator_wrapper \<Rightarrow> 's iterator_wrapper option" where
  "Wrapper_Update ops s iw =
     (let iw = iw\<lparr>iw_iter := Some s, iw_valid := it_Valid ops s\<rparr> in
      if iw_valid iw then map_option (\<lambda>key. iw\<lparr>iw_key := key\<rparr>) (it_key ops s) else Some iw)"

definition Wrapper_Set :: "('s, 'w) iterator \<Rightarrow> 's option \<Rightarrow> 's iterator_wrapper \<Rightarrow> 'w \<Rightarrow> ('s iterator_wrapper \<times> 'w) option" where
  "Wrapper_Set ops iter iw w = do {
     w \<leftarrow> (case iw_iter iw of None \<Rightarrow> Some w | Some s \<Rightarrow> it_delete ops s w);
     iw \<leftarrow> (case iter of
              None \<Rightarrow> Some (iw\<lparr>iw_iter := None, iw_valid := False\<rparr>)
            | Some s \<Rightarrow> Wrapper_Update ops s iw);
     Some (iw, w) }"

definition Wrapper_key :: "'s iterator_wrapper \<Rightarrow> slice option" where
  "Wrapper_key iw = asserting (iw_valid iw) (Some (iw_key iw))"

definition Wrapper_value :: "('s, 'w) iterator \<Rightarrow> 's iterator_wrapper \<Rightarrow> slice option" where
  "Wrapper_value ops iw = asserting (iw_valid iw) (Option.bind (iw_iter iw) (it_value ops))"

definition Wrapper_status :: "('s, 'w) iterator \<Rightarrow> 's iterator_wrapper \<Rightarrow> status option" where
  "Wrapper_status ops iw = Option.bind (iw_iter iw) (it_status ops)"

text \<open>The five moves: the operation, then \<open>Update\<close>.\<close>

definition Wrapper_move ::
  "('s, 'w) iterator \<Rightarrow> ('s \<Rightarrow> 'w \<Rightarrow> ('s \<times> 'w) option) \<Rightarrow> 's iterator_wrapper \<Rightarrow> 'w \<Rightarrow> ('s iterator_wrapper \<times> 'w) option" where
  "Wrapper_move ops move iw w = do {
     s \<leftarrow> iw_iter iw;
     (s, w) \<leftarrow> move s w;
     iw \<leftarrow> Wrapper_Update ops s iw;
     Some (iw, w) }"

definition Wrapper_delete :: "('s, 'w) iterator \<Rightarrow> 's iterator_wrapper \<Rightarrow> 'w \<Rightarrow> 'w option" where
  "Wrapper_delete ops iw w = (case iw_iter iw of None \<Rightarrow> Some w | Some s \<Rightarrow> it_delete ops s w)"

text \<open>A wrapper around an iterator at a position.\<close>

definition wrapped :: "('s \<Rightarrow> bool) \<Rightarrow> ('s, 'w) iterator \<Rightarrow> 's iterator_wrapper \<Rightarrow> bool" where
  "wrapped P ops iw \<longleftrightarrow>
     (\<exists>s. iw_iter iw = Some s \<and> P s \<and> iw_valid iw = it_Valid ops s \<and> (iw_valid iw \<longrightarrow> it_key ops s = Some (iw_key iw)))"

definition wrapper_held :: "('s \<Rightarrow> 'h multiset) \<Rightarrow> 's iterator_wrapper \<Rightarrow> 'h multiset" where
  "wrapper_held held iw = (case iw_iter iw of None \<Rightarrow> {#} | Some s \<Rightarrow> held s)"

lemma Update_wrapped:
  assumes "P s" "it_Valid ops s \<Longrightarrow> it_key ops s \<noteq> None"
  shows "\<exists>iw'. Wrapper_Update ops s iw = Some iw' \<and> wrapped P ops iw' \<and> wrapper_held held iw' = held s \<and> iw_iter iw' = Some s"
  using assms by (auto simp: Wrapper_Update_def wrapped_def wrapper_held_def Let_def)

lemma move_wrapped:
  assumes "wrapped Q ops iw" "\<And>s. Q s \<Longrightarrow> iw_iter iw = Some s \<Longrightarrow> moved P held world H (move s w)"
    and "\<And>s. P s \<Longrightarrow> it_Valid ops s \<Longrightarrow> it_key ops s \<noteq> None"
  shows "moved (wrapped P ops) (wrapper_held held) world H (Wrapper_move ops move iw w)"
proof -
  obtain s where s: "iw_iter iw = Some s" "Q s" using assms(1) by (auto simp: wrapped_def)
  from assms(2) [OF s(2,1)] obtain s' w' where m: "move s w = Some (s', w')" "P s'" "world (held s' + H) w'" by (rule movedE)
  from Update_wrapped [where P = P, OF m(2) assms(3) [OF m(2)], of iw held] obtain iw' where
    "Wrapper_Update ops s' iw = Some iw'" "wrapped P ops iw'" "wrapper_held held iw' = held s'" by blast
  with s(1) m show ?thesis by (auto simp: moved_def Wrapper_move_def)
qed

context iterator_ok
begin

lemma at_key: "at s i \<Longrightarrow> it_Valid ops s \<Longrightarrow> it_key ops s \<noteq> None"
  using at_good good_key by blast

lemma wrapped_at:
  assumes "wrapped (\<lambda>s. at s i) ops iw"
  shows "iw_valid iw \<longleftrightarrow> i < length es" "i < length es \<Longrightarrow> Wrapper_key iw = Some (fst (es ! i))"
    "i < length es \<Longrightarrow> Wrapper_value ops iw = Some (snd (es ! i))" "Wrapper_status ops iw = Some Status_OK"
    "i \<le> length es" "wrapped good ops iw"
proof -
  obtain s where s: "iw_iter iw = Some s" "at s i" "iw_valid iw = it_Valid ops s" "iw_valid iw \<longrightarrow> it_key ops s = Some (iw_key iw)"
    using assms by (auto simp: wrapped_def)
  then show "iw_valid iw \<longleftrightarrow> i < length es" "i < length es \<Longrightarrow> Wrapper_key iw = Some (fst (es ! i))"
    "i < length es \<Longrightarrow> Wrapper_value ops iw = Some (snd (es ! i))" "Wrapper_status ops iw = Some Status_OK"
    "i \<le> length es" "wrapped good ops iw"
    using at_valid [OF s(2)] at_entry [OF s(2)] at_good [OF s(2)] at_status
    by (auto simp: Wrapper_key_def Wrapper_value_def Wrapper_status_def wrapped_def)
qed

text \<open>The moves of a wrapper.\<close>

lemma wrapped_moves:
  assumes "wrapped good ops iw" "world (wrapper_held held iw + H) w"
  shows "moved (wrapped (\<lambda>s. at s 0) ops) (wrapper_held held) world H (Wrapper_move ops (it_SeekToFirst ops) iw w)"
    "moved (wrapped (\<lambda>s. at s (length es - 1)) ops) (wrapper_held held) world H (Wrapper_move ops (it_SeekToLast ops) iw w)"
    "valid target \<Longrightarrow>
       moved (wrapped (\<lambda>s. at s (seek_pos c target es)) ops) (wrapper_held held) world H (Wrapper_move ops (it_Seek ops target) iw w)"
  by (rule move_wrapped [OF assms(1)];
      use assms(2) to_first to_last to_target at_key in \<open>auto simp: wrapper_held_def simp del: One_nat_def\<close>)+

lemma wrapped_steps:
  assumes "wrapped (\<lambda>s. at s i) ops iw" "i < length es" "world (wrapper_held held iw + H) w"
  shows "moved (wrapped (\<lambda>s. at s (i + 1)) ops) (wrapper_held held) world H (Wrapper_move ops (it_Next ops) iw w)"
    "moved (wrapped (\<lambda>s. at s (if i = 0 then length es else i - 1)) ops) (wrapper_held held) world H
       (Wrapper_move ops (it_Prev ops) iw w)"
  by (rule move_wrapped [OF assms(1)];
      use assms(3) to_next [OF _ assms(2)] to_prev [OF _ assms(2)] at_key in \<open>simp add: wrapper_held_def del: One_nat_def\<close>)+

lemma wrapped_deleted:
  assumes "wrapped good ops iw" "world (wrapper_held held iw + H) w"
  shows "\<exists>w'. Wrapper_delete ops iw w = Some w' \<and> world H w'"
  using assms deleted by (auto simp: wrapped_def Wrapper_delete_def wrapper_held_def)

end

end
