(* ===== verification/Ldb_Two_Level.thy ===== *)
theory Ldb_Two_Level
  imports Ldb_Iterator
begin

text \<open>
  \<open>table/two_level_iterator.cc\<close>: an iterator over the entries of all the blocks that an index iterator
  names, for any two iterators that keep their contract; the result keeps it again.
\<close>

section \<open>The iterator\<close>

text \<open>The arguments of the constructor that do not change, the block function and the operations of the
  two iterators, are arguments of the functions below.\<close>

record ('i, 'd) two_level =
  tl_status :: status
  tl_index_iter :: "'i iterator_wrapper"
  tl_data_iter :: "'d iterator_wrapper"
  tl_data_block_handle :: slice

definition TwoLevelIterator :: "('i, 'w) iterator \<Rightarrow> 'i \<Rightarrow> 'w \<Rightarrow> (('i, 'd) two_level \<times> 'w) option" where
  "TwoLevelIterator iops index_iter w = do {
     (index, w) \<leftarrow> Wrapper_Set iops (Some index_iter) IteratorWrapper w;
     Some (\<lparr>tl_status = Status_OK, tl_index_iter = index, tl_data_iter = IteratorWrapper, tl_data_block_handle = []\<rparr>, w) }"

definition SaveError :: "status \<Rightarrow> ('i, 'd) two_level \<Rightarrow> ('i, 'd) two_level" where
  "SaveError s t = (if ok (tl_status t) \<and> \<not> ok s then t\<lparr>tl_status := s\<rparr> else t)"

definition SetDataIterator ::
  "('d, 'w) iterator \<Rightarrow> 'd option \<Rightarrow> ('i, 'd) two_level \<Rightarrow> 'w \<Rightarrow> (('i, 'd) two_level \<times> 'w) option" where
  "SetDataIterator dops data_iter t w = do {
     t \<leftarrow> (case iw_iter (tl_data_iter t) of
             None \<Rightarrow> Some t
           | Some _ \<Rightarrow> map_option (\<lambda>s. SaveError s t) (Wrapper_status dops (tl_data_iter t)));
     (data, w) \<leftarrow> Wrapper_Set dops data_iter (tl_data_iter t) w;
     Some (t\<lparr>tl_data_iter := data\<rparr>, w) }"

definition InitDataBlock ::
  "('i, 'w) iterator \<Rightarrow> ('d, 'w) iterator \<Rightarrow> (slice \<Rightarrow> 'w \<Rightarrow> ('d \<times> 'w) option) \<Rightarrow>
   ('i, 'd) two_level \<Rightarrow> 'w \<Rightarrow> (('i, 'd) two_level \<times> 'w) option" where
  "InitDataBlock iops dops block_function t w =
     (if \<not> iw_valid (tl_index_iter t) then SetDataIterator dops None t w
      else do {
        handle \<leftarrow> Wrapper_value iops (tl_index_iter t);
        if iw_iter (tl_data_iter t) \<noteq> None \<and> slice_compare handle (tl_data_block_handle t) = 0 then Some (t, w)
        else do {
          (iter, w) \<leftarrow> block_function handle w;
          SetDataIterator dops (Some iter) (t\<lparr>tl_data_block_handle := handle\<rparr>) w } })"

text \<open>The moves of the index iterator, and of the data iterator when there is one.\<close>

definition move_index ::
  "('i, 'w) iterator \<Rightarrow> ('i \<Rightarrow> 'w \<Rightarrow> ('i \<times> 'w) option) \<Rightarrow> ('i, 'd) two_level \<Rightarrow> 'w \<Rightarrow> (('i, 'd) two_level \<times> 'w) option" where
  "move_index iops move t w =
     map_option (\<lambda>(index, w). (t\<lparr>tl_index_iter := index\<rparr>, w)) (Wrapper_move iops move (tl_index_iter t) w)"

definition move_data ::
  "('d, 'w) iterator \<Rightarrow> ('d \<Rightarrow> 'w \<Rightarrow> ('d \<times> 'w) option) \<Rightarrow> ('i, 'd) two_level \<Rightarrow> 'w \<Rightarrow> (('i, 'd) two_level \<times> 'w) option" where
  "move_data dops move t w =
     map_option (\<lambda>(data, w). (t\<lparr>tl_data_iter := data\<rparr>, w)) (Wrapper_move dops move (tl_data_iter t) w)"

definition move_data_if_any ::
  "('d, 'w) iterator \<Rightarrow> ('d \<Rightarrow> 'w \<Rightarrow> ('d \<times> 'w) option) \<Rightarrow> ('i, 'd) two_level \<Rightarrow> 'w \<Rightarrow> (('i, 'd) two_level \<times> 'w) option" where
  "move_data_if_any dops move t w =
     (if iw_iter (tl_data_iter t) \<noteq> None then move_data dops move t w else Some (t, w))"

text \<open>The two loops that skip empty blocks; \<open>None\<close> also if they do not end.\<close>

partial_function (option) SkipEmptyDataBlocksForward ::
  "('i, 'w) iterator \<Rightarrow> ('d, 'w) iterator \<Rightarrow> (slice \<Rightarrow> 'w \<Rightarrow> ('d \<times> 'w) option) \<Rightarrow>
   ('i, 'd) two_level \<Rightarrow> 'w \<Rightarrow> (('i, 'd) two_level \<times> 'w) option" where
  "SkipEmptyDataBlocksForward iops dops block_function t w =
     (if iw_iter (tl_data_iter t) = None \<or> \<not> iw_valid (tl_data_iter t) then
        if \<not> iw_valid (tl_index_iter t) then SetDataIterator dops None t w
        else
          Option.bind (move_index iops (it_Next iops) t w) (\<lambda>(t, w).
          Option.bind (InitDataBlock iops dops block_function t w) (\<lambda>(t, w).
          Option.bind (move_data_if_any dops (it_SeekToFirst dops) t w) (\<lambda>(t, w).
          SkipEmptyDataBlocksForward iops dops block_function t w)))
      else Some (t, w))"

partial_function (option) SkipEmptyDataBlocksBackward ::
  "('i, 'w) iterator \<Rightarrow> ('d, 'w) iterator \<Rightarrow> (slice \<Rightarrow> 'w \<Rightarrow> ('d \<times> 'w) option) \<Rightarrow>
   ('i, 'd) two_level \<Rightarrow> 'w \<Rightarrow> (('i, 'd) two_level \<times> 'w) option" where
  "SkipEmptyDataBlocksBackward iops dops block_function t w =
     (if iw_iter (tl_data_iter t) = None \<or> \<not> iw_valid (tl_data_iter t) then
        if \<not> iw_valid (tl_index_iter t) then SetDataIterator dops None t w
        else
          Option.bind (move_index iops (it_Prev iops) t w) (\<lambda>(t, w).
          Option.bind (InitDataBlock iops dops block_function t w) (\<lambda>(t, w).
          Option.bind (move_data_if_any dops (it_SeekToLast dops) t w) (\<lambda>(t, w).
          SkipEmptyDataBlocksBackward iops dops block_function t w)))
      else Some (t, w))"

text \<open>The three seeks have the same shape.\<close>

definition TwoLevel_seek ::
  "('i, 'w) iterator \<Rightarrow> ('d, 'w) iterator \<Rightarrow> (slice \<Rightarrow> 'w \<Rightarrow> ('d \<times> 'w) option) \<Rightarrow>
   ('i \<Rightarrow> 'w \<Rightarrow> ('i \<times> 'w) option) \<Rightarrow> ('d \<Rightarrow> 'w \<Rightarrow> ('d \<times> 'w) option) \<Rightarrow>
   (('i, 'd) two_level \<Rightarrow> 'w \<Rightarrow> (('i, 'd) two_level \<times> 'w) option) \<Rightarrow>
   ('i, 'd) two_level \<Rightarrow> 'w \<Rightarrow> (('i, 'd) two_level \<times> 'w) option" where
  "TwoLevel_seek iops dops block_function seek_index seek_data skip t w = do {
     (t, w) \<leftarrow> move_index iops seek_index t w;
     (t, w) \<leftarrow> InitDataBlock iops dops block_function t w;
     (t, w) \<leftarrow> move_data_if_any dops seek_data t w;
     skip t w }"

definition TwoLevel_status :: "('i, 'w) iterator \<Rightarrow> ('d, 'w) iterator \<Rightarrow> ('i, 'd) two_level \<Rightarrow> status option" where
  "TwoLevel_status iops dops t = do {
     index_status \<leftarrow> Wrapper_status iops (tl_index_iter t);
     if \<not> ok index_status then Some index_status
     else if iw_iter (tl_data_iter t) \<noteq> None then do {
       data_status \<leftarrow> Wrapper_status dops (tl_data_iter t);
       Some (if \<not> ok data_status then data_status else tl_status t) }
     else Some (tl_status t) }"

text \<open>The members are destroyed in reverse order.\<close>

definition TwoLevel_delete :: "('i, 'w) iterator \<Rightarrow> ('d, 'w) iterator \<Rightarrow> ('i, 'd) two_level \<Rightarrow> 'w \<Rightarrow> 'w option" where
  "TwoLevel_delete iops dops t w =
     Option.bind (Wrapper_delete dops (tl_data_iter t) w) (Wrapper_delete iops (tl_index_iter t))"

definition two_level_ops ::
  "('i, 'w) iterator \<Rightarrow> ('d, 'w) iterator \<Rightarrow> (slice \<Rightarrow> 'w \<Rightarrow> ('d \<times> 'w) option) \<Rightarrow> (('i, 'd) two_level, 'w) iterator" where
  "two_level_ops iops dops block_function =
     (let forward = SkipEmptyDataBlocksForward iops dops block_function;
          backward = SkipEmptyDataBlocksBackward iops dops block_function
      in \<lparr>it_Valid = (\<lambda>t. iw_valid (tl_data_iter t)),
          it_SeekToFirst = TwoLevel_seek iops dops block_function (it_SeekToFirst iops) (it_SeekToFirst dops) forward,
          it_SeekToLast = TwoLevel_seek iops dops block_function (it_SeekToLast iops) (it_SeekToLast dops) backward,
          it_Seek = (\<lambda>target. TwoLevel_seek iops dops block_function (it_Seek iops target) (it_Seek dops target) forward),
          it_Next = (\<lambda>t w. asserting (iw_valid (tl_data_iter t))
            (Option.bind (move_data dops (it_Next dops) t w) (\<lambda>(t, w). forward t w))),
          it_Prev = (\<lambda>t w. asserting (iw_valid (tl_data_iter t))
            (Option.bind (move_data dops (it_Prev dops) t w) (\<lambda>(t, w). backward t w))),
          it_key = (\<lambda>t. asserting (iw_valid (tl_data_iter t)) (Wrapper_key (tl_data_iter t))),
          it_value = (\<lambda>t. asserting (iw_valid (tl_data_iter t)) (Wrapper_value dops (tl_data_iter t))),
          it_status = TwoLevel_status iops dops,
          it_delete = TwoLevel_delete iops dops\<rparr>)"

end
