(* ===== verification/Ldb_Filter.thy ===== *)
theory Ldb_Filter
  imports Ldb_Dbformat
begin

text \<open>
  Filters that say which keys a part of a table file cannot contain: the interface
  \<open>include/leveldb/filter_policy.h\<close> with its contract as a locale, the hash function and the Bloom
  filter of \<open>util/hash.cc\<close> and \<open>util/bloom.cc\<close>, the policy for internal keys of \<open>db/dbformat.cc\<close>, and
  the filter block of \<open>table/filter_block.cc\<close>. \<open>None\<close> is a failed assertion, an access outside an
  array, a shift by too many bits or a call with a negative number of keys.
\<close>

section \<open>The interface\<close>

record filter_policy =
  fp_Name :: string
  fp_CreateFilter :: "slice list \<Rightarrow> u8 list \<Rightarrow> u8 list option"
  fp_KeyMayMatch :: "slice \<Rightarrow> slice \<Rightarrow> bool option"

text \<open>The keys that \<open>CreateFilter\<close> may be given: \<open>n\<close> is an \<open>int\<close>, and the keys are in the order of the comparator,
  possibly with duplicates.\<close>

definition policy_keys :: "(slice \<Rightarrow> bool) \<Rightarrow> (slice \<Rightarrow> slice \<Rightarrow> bool) \<Rightarrow> slice list \<Rightarrow> bool" where
  "policy_keys valid lt keys \<longleftrightarrow>
     length keys < 2 ^ 31 \<and> list_all valid keys \<and> sorted_wrt (\<lambda>a b. \<not> lt b a) keys"

text \<open>A filter is appended, and it matches every key it was made from.\<close>

locale filter_policy_ok =
  fixes p :: filter_policy
    and valid :: "slice \<Rightarrow> bool"
    and lt :: "slice \<Rightarrow> slice \<Rightarrow> bool"
  assumes create: "policy_keys valid lt keys \<Longrightarrow>
      \<exists>f. fp_CreateFilter p keys dst = Some (dst @ f) \<and> (\<forall>key \<in> set keys. fp_KeyMayMatch p key f = Some True)"

text \<open>\<open>KeyMayMatch\<close> returns for other keys too, when it is asked about a filter that \<open>CreateFilter\<close> has
  made. The filter block also asks it about the empty string, which stands for a filter of no keys.\<close>

locale filter_policy_total = filter_policy_ok +
  assumes may_match: "valid key \<Longrightarrow> policy_keys valid lt keys \<Longrightarrow> fp_CreateFilter p keys dst = Some (dst @ f) \<Longrightarrow>
      fp_KeyMayMatch p key f \<noteq> None"
    and may_match_empty: "valid key \<Longrightarrow> fp_KeyMayMatch p key [] \<noteq> None"

section \<open>The hash function\<close>

text \<open>The loop over four bytes at a time; the second result is what is left.\<close>

function hash_loop :: "u8 list \<Rightarrow> u32 \<Rightarrow> (u32 \<times> u8 list) option" where
  "hash_loop data h =
     (if 4 \<le> length data then
        (case DecodeFixed32 data of
           None \<Rightarrow> None
         | Some w \<Rightarrow>
             let h = h + w;
                 h = h * 0xc6a4a793;
                 h = h XOR drop_bit 16 h
             in hash_loop (drop 4 data) h)
      else Some (h, data))"
  by pat_completeness auto
termination
  by (relation "measure (\<lambda>(data, h). length data)") auto

declare hash_loop.simps [simp del]

definition Hash :: "u8 list \<Rightarrow> u32 \<Rightarrow> u32 option" where
  "Hash data seed =
     (let m = 0xc6a4a793;
          r = 24;
          h = ucast (ucast seed XOR (of_nat (length data) * m :: u64)) :: u32
      in do {
        (h, data) \<leftarrow> hash_loop data h;
        let h = (if length data \<ge> 3 then h + push_bit 16 (ucast (data ! 2)) else h);
        let h = (if length data \<ge> 2 then h + push_bit 8 (ucast (data ! 1)) else h);
        Some (if length data \<ge> 1 then
                let h = h + ucast (data ! 0);
                    h = h * ucast m
                in h XOR drop_bit r h
              else h) })"

section \<open>The Bloom filter\<close>

definition BloomHash :: "slice \<Rightarrow> u32 option" where
  "BloomHash key = Hash key 0xbc9f1d34"

record bloom_policy =
  bp_bits_per_key :: nat
  bp_k :: nat

text \<open>The product with 0.69, rounded down, for a number of bits that is not negative; below 44 bits
  the product is no integer, and from 44 bits on the result is 30 in any case.\<close>

definition BloomFilterPolicy_new :: "nat \<Rightarrow> bloom_policy" where
  "BloomFilterPolicy_new bits_per_key =
     (let k = bits_per_key * 69 div 100;
          k = (if k < 1 then 1 else k);
          k = (if k > 30 then 30 else k)
      in \<lparr>bp_bits_per_key = bits_per_key, bp_k = k\<rparr>)"

text \<open>The inner loop of \<open>CreateFilter\<close>: \<open>array\<close> starts at \<open>(*dst)[init_size]\<close>.\<close>

primrec add_probes :: "nat \<Rightarrow> nat \<Rightarrow> u32 \<Rightarrow> u32 \<Rightarrow> u8 list \<Rightarrow> u8 list option" where
  "add_probes bits 0 delta h array = Some array"
| "add_probes bits (Suc k) delta h array =
     (let bitpos = unat h mod bits in
      asserting (bitpos div 8 < length array)
        (add_probes bits k delta (h + delta)
          (array[bitpos div 8 := array ! (bitpos div 8) OR push_bit (bitpos mod 8) 1])))"

definition add_key :: "nat \<Rightarrow> nat \<Rightarrow> slice \<Rightarrow> u8 list \<Rightarrow> u8 list option" where
  "add_key bits k key array = do {
     h \<leftarrow> BloomHash key;
     let delta = drop_bit 17 h OR push_bit 15 h;
     add_probes bits k delta h array }"

primrec add_keys :: "nat \<Rightarrow> nat \<Rightarrow> slice list \<Rightarrow> u8 list \<Rightarrow> u8 list option" where
  "add_keys bits k [] array = Some array"
| "add_keys bits k (key # keys) array = Option.bind (add_key bits k key array) (add_keys bits k keys)"

definition bloom_CreateFilter :: "bloom_policy \<Rightarrow> slice list \<Rightarrow> u8 list \<Rightarrow> u8 list option" where
  "bloom_CreateFilter p keys dst =
     (let bits = length keys * bp_bits_per_key p;
          bits = (if bits < 64 then 64 else bits);
          bytes = (bits + 7) div 8;
          bits = bytes * 8;
          dst' = dst @ replicate bytes 0 @ [of_nat (bp_k p)]
      in do {
        array \<leftarrow> add_keys bits (bp_k p) keys (drop (length dst) dst');
        Some (take (length dst) dst' @ array) })"

primrec match_probes :: "nat \<Rightarrow> nat \<Rightarrow> u32 \<Rightarrow> u32 \<Rightarrow> slice \<Rightarrow> bool option" where
  "match_probes bits 0 delta h array = Some True"
| "match_probes bits (Suc k) delta h array =
     (let bitpos = unat h mod bits in
      asserting (bitpos div 8 < length array)
        (if array ! (bitpos div 8) AND push_bit (bitpos mod 8) 1 = 0 then Some False
         else match_probes bits k delta (h + delta) array))"

text \<open>The number of probes is a \<open>char\<close>, which is signed, converted to \<open>size_t\<close>.\<close>

definition bloom_KeyMayMatch :: "slice \<Rightarrow> slice \<Rightarrow> bool option" where
  "bloom_KeyMayMatch key bloom_filter =
     (let len = length bloom_filter in
      if len < 2 then Some False
      else
        let bits = (len - 1) * 8;
            k = unat (scast (bloom_filter ! (len - 1)) :: u64)
        in if k > 30 then Some True
           else do {
             h \<leftarrow> BloomHash key;
             let delta = drop_bit 17 h OR push_bit 15 h;
             match_probes bits k delta h bloom_filter })"

definition NewBloomFilterPolicy :: "nat \<Rightarrow> filter_policy" where
  "NewBloomFilterPolicy bits_per_key =
     (let p = BloomFilterPolicy_new bits_per_key in
      \<lparr>fp_Name = ''leveldb.BuiltinBloomFilter2'', fp_CreateFilter = bloom_CreateFilter p,
       fp_KeyMayMatch = bloom_KeyMayMatch\<rparr>)"

section \<open>The policy for internal keys\<close>

definition InternalFilterPolicy :: "filter_policy \<Rightarrow> filter_policy" where
  "InternalFilterPolicy user =
     \<lparr>fp_Name = fp_Name user,
      fp_CreateFilter = (\<lambda>keys dst. do {
        mkey \<leftarrow> those (map ExtractUserKey keys);
        fp_CreateFilter user mkey dst }),
      fp_KeyMayMatch = (\<lambda>key f. do {
        user_key \<leftarrow> ExtractUserKey key;
        fp_KeyMayMatch user user_key f })\<rparr>"

section \<open>The filter block\<close>

definition kFilterBaseLg :: nat where
  "kFilterBaseLg = 11"

definition kFilterBase :: nat where
  "kFilterBase = 2 ^ kFilterBaseLg"

record filter_builder =
  fb_keys :: "u8 list"
  fb_start :: "nat list"
  fb_result :: "u8 list"
  fb_filter_offsets :: "u32 list"

definition FilterBlockBuilder :: filter_builder where
  "FilterBlockBuilder = \<lparr>fb_keys = [], fb_start = [], fb_result = [], fb_filter_offsets = []\<rparr>"

definition FilterBlock_AddKey :: "slice \<Rightarrow> filter_builder \<Rightarrow> filter_builder" where
  "FilterBlock_AddKey key b = b\<lparr>fb_start := fb_start b @ [length (fb_keys b)], fb_keys := fb_keys b @ key\<rparr>"

text \<open>The number of keys is converted to \<open>int\<close>, and the policy gets this many of the keys.\<close>

definition GenerateFilter :: "filter_policy \<Rightarrow> filter_builder \<Rightarrow> filter_builder option" where
  "GenerateFilter policy b =
     (let num_keys = length (fb_start b);
          offsets = fb_filter_offsets b @ [of_nat (length (fb_result b))]
      in if num_keys = 0 then Some (b\<lparr>fb_filter_offsets := offsets\<rparr>)
         else
           let start = fb_start b @ [length (fb_keys b)];
               tmp_keys = map (\<lambda>i. take (start ! (i + 1) - start ! i) (drop (start ! i) (fb_keys b))) [0..<num_keys];
               n = sint (of_nat num_keys :: u32)
           in do {
             result \<leftarrow> asserting (0 \<le> n) (fp_CreateFilter policy (take (nat n) tmp_keys) (fb_result b));
             Some \<lparr>fb_keys = [], fb_start = [], fb_result = result, fb_filter_offsets = offsets\<rparr> })"

partial_function (option) start_block_loop :: "filter_policy \<Rightarrow> nat \<Rightarrow> filter_builder \<Rightarrow> filter_builder option" where
  "start_block_loop policy filter_index b =
     (if filter_index > length (fb_filter_offsets b)
      then Option.bind (GenerateFilter policy b) (start_block_loop policy filter_index)
      else Some b)"

declare start_block_loop.simps [code]

definition FilterBlock_StartBlock :: "filter_policy \<Rightarrow> u64 \<Rightarrow> filter_builder \<Rightarrow> filter_builder option" where
  "FilterBlock_StartBlock policy block_offset b =
     (let filter_index = unat block_offset div kFilterBase in
      asserting (filter_index \<ge> length (fb_filter_offsets b)) (start_block_loop policy filter_index b))"

definition FilterBlock_Finish :: "filter_policy \<Rightarrow> filter_builder \<Rightarrow> (slice \<times> filter_builder) option" where
  "FilterBlock_Finish policy b = do {
     b \<leftarrow> (if fb_start b \<noteq> [] then GenerateFilter policy b else Some b);
     let array_offset = (of_nat (length (fb_result b)) :: u32);
     let result = fold (\<lambda>off result. PutFixed32 result off) (fb_filter_offsets b) (fb_result b);
     let result = PutFixed32 result array_offset;
     let result = result @ [of_nat kFilterBaseLg];
     Some (result, b\<lparr>fb_result := result\<rparr>) }"

text \<open>\<open>data_\<close> is the contents, or the null pointer after an early return, when \<open>num_\<close> is 0 and nothing
  is read; \<open>offset_\<close> is relative to it.\<close>

record filter_reader =
  fr_data :: slice
  fr_offset :: nat
  fr_num :: nat
  fr_base_lg :: u64

definition FilterBlockReader :: "slice \<Rightarrow> filter_reader option" where
  "FilterBlockReader contents =
     (let n = length contents;
          r = \<lparr>fr_data = [], fr_offset = 0, fr_num = 0, fr_base_lg = 0\<rparr>
      in if n < 5 then Some r
         else
           let r = r\<lparr>fr_base_lg := scast (contents ! (n - 1))\<rparr> in do {
             last_word \<leftarrow> DecodeFixed32 (drop (n - 5) contents);
             if unat last_word > n - 5 then Some r
             else Some (r\<lparr>fr_data := contents, fr_offset := unat last_word, fr_num := (n - 5 - unat last_word) div 4\<rparr>) })"

definition FilterBlock_KeyMayMatch :: "filter_policy \<Rightarrow> filter_reader \<Rightarrow> u64 \<Rightarrow> slice \<Rightarrow> bool option" where
  "FilterBlock_KeyMayMatch policy r block_offset key =
     asserting (fr_base_lg r < 64)
     (let index = unat (drop_bit (unat (fr_base_lg r)) block_offset) in
      if index < fr_num r then do {
        start \<leftarrow> DecodeFixed32 (drop (fr_offset r + index * 4) (fr_data r));
        limit \<leftarrow> DecodeFixed32 (drop (fr_offset r + index * 4 + 4) (fr_data r));
        if start \<le> limit \<and> unat limit \<le> fr_offset r then
          fp_KeyMayMatch policy key (take (unat (limit - start)) (drop (unat start) (fr_data r)))
        else if start = limit then Some False
        else Some True }
      else Some True)"

end
