(* ===== verification/Ldb_Filter_Correct.thy ===== *)
theory Ldb_Filter_Correct
  imports Ldb_Filter
begin

text \<open>
  Filters have no false negatives: the Bloom filter keeps the contract of a filter policy, the
  policy for internal keys keeps it when the user's policy does, and a filter block passes it on for
  every block of the table.
\<close>

section \<open>The hash function is total\<close>

lemma hash_loop_total: "\<exists>r. hash_loop data h = Some r"
proof (induction data h rule: hash_loop.induct)
  case (1 data h)
  then show ?case
    by (subst hash_loop.simps) (auto simp: Let_def DecodeFixed32_def kLittleEndian_def split: option.splits)
qed

lemma BloomHash_total: "\<exists>h. BloomHash key = Some h"
proof -
  obtain h rest where "hash_loop key (ucast (ucast (0xbc9f1d34 :: u32) XOR (of_nat (length key) * 0xc6a4a793 :: u64))) = Some (h, rest)"
    using hash_loop_total by fastforce
  then show ?thesis by (simp add: BloomHash_def Hash_def Let_def)
qed

section \<open>The bits of the filter\<close>

definition bit_set :: "u8 list \<Rightarrow> nat \<Rightarrow> bool" where
  "bit_set array i \<longleftrightarrow> bit (array ! (i div 8)) (i mod 8)"

lemma test_bit_u8: "b AND 2 ^ n = 0 \<longleftrightarrow> \<not> bit b n" for b :: u8
  by (rule and_exp_eq_0_iff_not_bit)

lemma bit_set_update:
  assumes "i div 8 < length array"
  shows "bit_set (array[i div 8 := array ! (i div 8) OR 2 ^ (i mod 8)]) q \<longleftrightarrow> q = i \<or> bit_set array q"
proof (cases "q div 8 = i div 8")
  case True
  then have "q = i \<longleftrightarrow> q mod 8 = i mod 8" by (metis div_mult_mod_eq)
  moreover have "q mod 8 < 8" by simp
  ultimately show ?thesis using True assms by (auto simp: bit_set_def bit_simps)
qed (auto simp: bit_set_def)

text \<open>The positions that are probed.\<close>

definition probes :: "nat \<Rightarrow> nat \<Rightarrow> u32 \<Rightarrow> u32 \<Rightarrow> nat set" where
  "probes bits k delta h = (\<lambda>j. unat (h + of_nat j * delta) mod bits) ` {..<k}"

lemma probes_Suc: "probes bits (Suc k) delta h = insert (unat h mod bits) (probes bits k delta (h + delta))"
proof -
  have "h + of_nat (Suc j) * delta = (h + delta) + of_nat j * delta" for j by (simp add: algebra_simps)
  then show ?thesis unfolding probes_def lessThan_Suc_eq_insert_0 by (simp add: image_image add.assoc del: of_nat_Suc)
qed

lemma probe_inside: "bits = 8 * bytes \<Longrightarrow> 0 < bytes \<Longrightarrow> bytes \<le> length array \<Longrightarrow> x mod bits div 8 < length array"
  by (metis less_mult_imp_div_less mod_less_divisor mult.commute nat_0_less_mult_iff order_less_le_trans zero_less_numeral)

lemma add_probes_sets:
  assumes "bits = 8 * bytes" "0 < bytes" "bytes < length array"
  shows "\<exists>array'. add_probes bits k delta h array = Some array' \<and> length array' = length array \<and>
    array' ! bytes = array ! bytes \<and> (\<forall>q. bit_set array' q \<longleftrightarrow> q \<in> probes bits k delta h \<or> bit_set array q)"
  using assms(3)
proof (induction k arbitrary: h array)
  case 0
  then show ?case by (simp add: probes_def)
next
  case (Suc k)
  let ?i = "unat h mod bits"
  let ?a = "array[?i div 8 := array ! (?i div 8) OR 2 ^ (?i mod 8)]"
  have inside: "?i div 8 < length array" by (rule probe_inside [OF assms(1,2)]) (use Suc.prems in simp)
  have "?i < bytes * 8" using assms(1,2) by (simp add: mult.commute)
  then have "?i div 8 < bytes" by (rule less_mult_imp_div_less)
  then have last: "?a ! bytes = array ! bytes" by simp
  from Suc.IH [of ?a "h + delta"] Suc.prems inside last show ?case
    by (auto simp: Let_def probes_Suc bit_set_update)
qed

lemma match_probes_iff:
  assumes "bits = 8 * bytes" "0 < bytes" "bytes \<le> length array"
  shows "match_probes bits k delta h array = Some (\<forall>q \<in> probes bits k delta h. bit_set array q)"
proof (induction k arbitrary: h)
  case 0
  then show ?case by (simp add: probes_def)
next
  case (Suc k)
  have "unat h mod bits div 8 < length array" by (rule probe_inside [OF assms])
  then show ?case using Suc
    by (auto simp: Let_def probes_Suc test_bit_u8 bit_set_def)
qed

definition key_probes :: "nat \<Rightarrow> nat \<Rightarrow> slice \<Rightarrow> nat set" where
  "key_probes bits k key = (let h = the (BloomHash key) in probes bits k (drop_bit 17 h OR push_bit 15 h) h)"

lemma add_keys_sets:
  assumes "bits = 8 * bytes" "0 < bytes" "bytes < length array"
  shows "\<exists>array'. add_keys bits k keys array = Some array' \<and> length array' = length array \<and>
    array' ! bytes = array ! bytes \<and>
    (\<forall>q. bit_set array' q \<longleftrightarrow> (\<exists>key \<in> set keys. q \<in> key_probes bits k key) \<or> bit_set array q)"
  using assms(3)
proof (induction keys arbitrary: array)
  case (Cons key keys)
  obtain h where h: "BloomHash key = Some h" using BloomHash_total by blast
  from add_probes_sets [OF assms(1,2) Cons.prems, of k "drop_bit 17 h OR push_bit 15 h" h] obtain a where
    a: "add_key bits k key array = Some a" "length a = length array" "a ! bytes = array ! bytes"
    "\<forall>q. bit_set a q \<longleftrightarrow> q \<in> key_probes bits k key \<or> bit_set array q"
    using h by (auto simp: add_key_def key_probes_def)
  from Cons.IH [of a] Cons.prems a show ?case by (auto simp: a(1))
qed simp

lemma bloom_k_bound: "bp_k (BloomFilterPolicy_new n) \<le> 30"
  by (simp add: BloomFilterPolicy_new_def Let_def)

lemma bloom_k_byte:
  assumes "k \<le> 30"
  shows "unat (scast (of_nat k :: u8) :: u64) = k"
proof -
  have "k \<in> set [0..<31]" using assms by simp
  then show ?thesis by (simp add: upt_rec) (elim disjE; simp)
qed

lemma bloom_matches:
  assumes "p = BloomFilterPolicy_new n"
  shows "\<exists>f. bloom_CreateFilter p keys dst = Some (dst @ f) \<and> (\<forall>key \<in> set keys. bloom_KeyMayMatch key f = Some True)"
proof -
  define bits0 where "bits0 = (if length keys * bp_bits_per_key p < 64 then 64 else length keys * bp_bits_per_key p)"
  define bytes where "bytes = (bits0 + 7) div 8"
  define k where "k = bp_k p"
  have "64 \<le> bits0" by (simp add: bits0_def)
  then have bytes: "0 < bytes" by (simp add: bytes_def div_greater_zero_iff)
  have k: "k \<le> 30" using bloom_k_bound by (simp add: k_def assms)
  let ?a = "replicate bytes 0 @ [of_nat k]"
  obtain f where f: "add_keys (bytes * 8) k keys ?a = Some f" "length f = bytes + 1" "f ! bytes = of_nat k"
    "\<forall>key \<in> set keys. \<forall>q \<in> key_probes (bytes * 8) k key. bit_set f q"
    using add_keys_sets [of "bytes * 8" bytes ?a k keys] bytes by (auto simp: nth_append)
  have create: "bloom_CreateFilter p keys dst = Some (dst @ f)"
    using f(1) by (simp add: bloom_CreateFilter_def Let_def bits0_def [symmetric] bytes_def [symmetric] k_def [symmetric])
  have "bloom_KeyMayMatch key f = Some True" if "key \<in> set keys" for key
  proof -
    obtain h where h: "BloomHash key = Some h" using BloomHash_total by blast
    have "match_probes (bytes * 8) k (drop_bit 17 h OR push_bit 15 h) h f = Some True"
      using match_probes_iff [of "bytes * 8" bytes f k "drop_bit 17 h OR push_bit 15 h" h] f(2,4) bytes h that
      by (auto simp: key_probes_def)
    then show ?thesis using f(2,3) k bytes h by (simp add: bloom_KeyMayMatch_def Let_def bloom_k_byte)
  qed
  with create show ?thesis by blast
qed

lemma bloom_KeyMayMatch_total: "bloom_KeyMayMatch key f \<noteq> None"
proof -
  obtain h where h: "BloomHash key = Some h" using BloomHash_total by blast
  show ?thesis
    using match_probes_iff [of "(length f - 1) * 8" "length f - 1" f] h
    by (auto simp: bloom_KeyMayMatch_def Let_def)
qed

lemma bloom_policy_total: "filter_policy_total (NewBloomFilterPolicy n) (\<lambda>_. True) lt"
  by unfold_locales (simp_all add: NewBloomFilterPolicy_def Let_def bloom_matches bloom_KeyMayMatch_total)

interpretation bloom: filter_policy_total "NewBloomFilterPolicy n" "\<lambda>_. True" lt for n lt
  by (rule bloom_policy_total)

section \<open>Keys for a filter\<close>

lemma policy_keys_Nil [simp]: "policy_keys valid lt []"
  by (simp add: policy_keys_def)

lemma policy_keys_append:
  "policy_keys valid lt (xs @ ys) \<Longrightarrow> policy_keys valid lt xs"
  "policy_keys valid lt (xs @ ys) \<Longrightarrow> policy_keys valid lt ys"
  by (simp_all add: policy_keys_def sorted_wrt_append)

lemma sint_keys_small: "n < 2 ^ 31 \<Longrightarrow> sint (of_nat n :: u32) = int n"
  by (simp add: sint_uint unsigned_of_nat signed_take_bit_int_eq_self take_bit_nat_eq_self)

section \<open>The policy for internal keys\<close>

definition internal_key_of :: "(slice \<Rightarrow> bool) \<Rightarrow> slice \<Rightarrow> bool" where
  "internal_key_of valid key \<longleftrightarrow> (\<exists>u. ExtractUserKey key = Some u \<and> valid u)"

abbreviation user_keys :: "slice list \<Rightarrow> slice list" where
  "user_keys keys \<equiv> map (\<lambda>key. the (ExtractUserKey key)) keys"

lemma those_ExtractUserKey:
  "list_all (internal_key_of valid) keys \<Longrightarrow>
     those (map ExtractUserKey keys) = Some (user_keys keys) \<and> list_all valid (user_keys keys) \<and>
       (\<forall>key \<in> set keys. ExtractUserKey key = Some (the (ExtractUserKey key)))"
  by (induction keys) (auto simp: internal_key_of_def)

lemma internal_CreateFilter:
  assumes "list_all (internal_key_of valid) keys"
  shows "fp_CreateFilter (InternalFilterPolicy p) keys dst = fp_CreateFilter p (user_keys keys) dst"
    "key \<in> set keys \<Longrightarrow> fp_KeyMayMatch (InternalFilterPolicy p) key f = fp_KeyMayMatch p (the (ExtractUserKey key)) f"
proof -
  show "fp_CreateFilter (InternalFilterPolicy p) keys dst = fp_CreateFilter p (user_keys keys) dst"
    using those_ExtractUserKey [OF assms] by (simp add: InternalFilterPolicy_def)
  show "fp_KeyMayMatch (InternalFilterPolicy p) key f = fp_KeyMayMatch p (the (ExtractUserKey key)) f" if "key \<in> set keys"
    using assms that by (auto simp: InternalFilterPolicy_def list_all_iff internal_key_of_def dest!: bspec)
qed

text \<open>The order of internal keys extends the order of the user keys.\<close>

lemma policy_keys_user:
  assumes "policy_keys (internal_key_of valid) ilt keys"
    and "\<And>a b u v. ExtractUserKey a = Some u \<Longrightarrow> ExtractUserKey b = Some v \<Longrightarrow> lt u v \<Longrightarrow> ilt a b"
  shows "policy_keys valid lt (user_keys keys)"
proof -
  have keys: "list_all (internal_key_of valid) keys" "sorted_wrt (\<lambda>a b. \<not> ilt b a) keys" "length keys < 2 ^ 31"
    using assms(1) by (simp_all add: policy_keys_def)
  have "\<not> lt (the (ExtractUserKey b)) (the (ExtractUserKey a))" if "a \<in> set keys" "b \<in> set keys" "\<not> ilt b a" for a b
    using those_ExtractUserKey [OF keys(1)] assms(2) that by blast
  then have "sorted_wrt (\<lambda>a b. \<not> lt (the (ExtractUserKey b)) (the (ExtractUserKey a))) keys"
    using keys(2) sorted_wrt_mono_rel [of keys "\<lambda>a b. \<not> ilt b a" "\<lambda>a b. \<not> lt (the (ExtractUserKey b)) (the (ExtractUserKey a))"]
    by blast
  with those_ExtractUserKey [OF keys(1)] keys(3) show ?thesis by (simp add: policy_keys_def sorted_wrt_map)
qed

context filter_policy_total
begin

lemma internal_policy_total:
  assumes "\<And>a b u v. ExtractUserKey a = Some u \<Longrightarrow> ExtractUserKey b = Some v \<Longrightarrow> lt u v \<Longrightarrow> ilt a b"
  shows "filter_policy_total (InternalFilterPolicy p) (internal_key_of valid) ilt"
proof (unfold_locales, goal_cases)
  case (1 keys dst)
  note keys = policy_keys_user [OF 1 assms]
  have "list_all (internal_key_of valid) keys" using 1 by (simp add: policy_keys_def)
  with create [OF keys, where dst = dst] show ?case by (auto simp: internal_CreateFilter)
next
  case (2 key keys dst f)
  note keys = policy_keys_user [OF 2(2) assms]
  have "fp_CreateFilter p (user_keys keys) dst = Some (dst @ f)"
    using 2(3) internal_CreateFilter(1) [of valid keys p dst] 2(2) by (simp add: policy_keys_def)
  with may_match [OF _ keys] 2(1) show ?case by (auto simp: InternalFilterPolicy_def internal_key_of_def)
next
  case (3 key)
  then show ?case using may_match_empty by (auto simp: InternalFilterPolicy_def internal_key_of_def)
qed

end

interpretation internal_bloom:
  filter_policy_total "InternalFilterPolicy (NewBloomFilterPolicy n)" "internal_key_of (\<lambda>_. True)" ilt for n ilt
  by (rule filter_policy_total.internal_policy_total [OF bloom_policy_total [where lt = "\<lambda>_ _. False"]]) simp

section \<open>Building the filter block\<close>

text \<open>\<open>gs\<close> are the keys of the filters that were generated, \<open>ks\<close> those that wait for the next one.\<close>

definition filter_made :: "filter_policy \<Rightarrow> (slice \<Rightarrow> bool) \<Rightarrow> (slice \<Rightarrow> slice \<Rightarrow> bool) \<Rightarrow> u8 list \<Rightarrow> slice list \<Rightarrow> bool" where
  "filter_made p valid lt f g \<longleftrightarrow>
     (if g = [] then f = [] else policy_keys valid lt g \<and> (\<exists>dst. fp_CreateFilter p g dst = Some (dst @ f))) \<and>
     (\<forall>key \<in> set g. fp_KeyMayMatch p key f = Some True)"

definition filters_ok ::
  "filter_policy \<Rightarrow> (slice \<Rightarrow> bool) \<Rightarrow> (slice \<Rightarrow> slice \<Rightarrow> bool) \<Rightarrow> u8 list list \<Rightarrow> slice list list \<Rightarrow> bool" where
  "filters_ok p valid lt fs gs \<longleftrightarrow> length fs = length gs \<and> (\<forall>i < length gs. filter_made p valid lt (fs ! i) (gs ! i))"

definition starts :: "'a list list \<Rightarrow> nat list" where
  "starts xs = map (\<lambda>i. length (concat (take i xs))) [0..<length xs]"

definition filter_repr ::
  "filter_policy \<Rightarrow> (slice \<Rightarrow> bool) \<Rightarrow> (slice \<Rightarrow> slice \<Rightarrow> bool) \<Rightarrow> filter_builder \<Rightarrow> slice list list \<Rightarrow> slice list \<Rightarrow> bool" where
  "filter_repr p valid lt b gs ks \<longleftrightarrow>
     fb_keys b = concat ks \<and> fb_start b = starts ks \<and>
     (\<exists>fs. fb_result b = concat fs \<and> fb_filter_offsets b = map of_nat (starts fs) \<and> filters_ok p valid lt fs gs)"

lemma length_starts [simp]: "length (starts xs) = length xs"
  by (simp add: starts_def)

lemma starts_Nil [simp]: "starts xs = [] \<longleftrightarrow> xs = []" "starts [] = []"
  by (simp_all add: starts_def)

lemma starts_snoc [simp]: "starts (xs @ [x]) = starts xs @ [length (concat xs)]"
  by (simp add: starts_def)

lemma starts_nth: "i < length xs \<Longrightarrow> starts xs ! i = length (concat (take i xs))"
  by (simp add: starts_def)

lemma concat_part: "i < length xs \<Longrightarrow> take (length (xs ! i)) (drop (length (concat (take i xs))) (concat xs)) = xs ! i"
  by (subst id_take_nth_drop [of i xs], simp, subst concat_append) simp

lemma length_concat_Suc: "i < length xs \<Longrightarrow> length (concat (take (Suc i) xs)) = length (concat (take i xs)) + length (xs ! i)"
  by (simp add: take_Suc_conv_app_nth)

lemma starts_end_nth: "i \<le> length xs \<Longrightarrow> (starts xs @ [length (concat xs)]) ! i = length (concat (take i xs))"
  by (cases "i = length xs") (simp_all add: nth_append starts_nth)

lemma filter_repr_new: "filter_repr p valid lt FilterBlockBuilder [] []"
  by (simp add: filter_repr_def FilterBlockBuilder_def filters_ok_def)

lemma filter_repr_AddKey: "filter_repr p valid lt b gs ks \<Longrightarrow> filter_repr p valid lt (FilterBlock_AddKey key b) gs (ks @ [key])"
  by (simp add: filter_repr_def FilterBlock_AddKey_def)

lemma filter_repr_AddKeys: "filter_repr p valid lt b gs ks \<Longrightarrow> filter_repr p valid lt (fold FilterBlock_AddKey keys b) gs (ks @ keys)"
  by (induction keys arbitrary: b ks) (use filter_repr_AddKey in fastforce)+

lemma filter_repr_length: "filter_repr p valid lt b gs ks \<Longrightarrow> length (fb_filter_offsets b) = length gs"
  by (auto simp: filter_repr_def filters_ok_def)

lemma filters_ok_snoc:
  "filters_ok p valid lt fs gs \<Longrightarrow> filter_made p valid lt f g \<Longrightarrow> filters_ok p valid lt (fs @ [f]) (gs @ [g])"
  by (auto simp: filters_ok_def nth_append less_Suc_eq)

context filter_policy_ok
begin

lemma GenerateFilter_repr:
  assumes "filter_repr p valid lt b gs ks" "policy_keys valid lt ks"
  shows "\<exists>b'. GenerateFilter p b = Some b' \<and> filter_repr p valid lt b' (gs @ [ks]) []"
proof -
  obtain fs where b: "fb_keys b = concat ks" "fb_start b = starts ks" "fb_result b = concat fs"
    "fb_filter_offsets b = map of_nat (starts fs)" "filters_ok p valid lt fs gs"
    using assms(1) by (auto simp: filter_repr_def)
  show ?thesis
  proof (cases ks)
    case Nil
    with b show ?thesis using filters_ok_snoc [OF b(5), of "[]" "[]"]
      by (auto simp: GenerateFilter_def Let_def filter_repr_def filter_made_def intro!: exI [of _ "fs @ [[]]"])
  next
    case (Cons k ks')
    have "map (\<lambda>i. take ((starts ks @ [length (concat ks)]) ! (i + 1) - (starts ks @ [length (concat ks)]) ! i)
        (drop ((starts ks @ [length (concat ks)]) ! i) (concat ks))) [0..<length ks] = map ((!) ks) [0..<length ks]"
      by (rule map_cong [OF refl]) (simp add: starts_end_nth length_concat_Suc concat_part)
    then have keys: "map (\<lambda>i. take ((starts ks @ [length (concat ks)]) ! (i + 1) - (starts ks @ [length (concat ks)]) ! i)
        (drop ((starts ks @ [length (concat ks)]) ! i) (concat ks))) [0..<length ks] = ks" by (simp add: map_nth)
    obtain f where f: "fp_CreateFilter p ks (concat fs) = Some (concat fs @ f)" "\<forall>key \<in> set ks. fp_KeyMayMatch p key f = Some True"
      using create [OF assms(2)] by blast
    then have made: "filter_made p valid lt f ks" using assms(2) Cons by (auto simp: filter_made_def)
    have "length ks < 2 ^ 31" using assms(2) by (simp add: policy_keys_def)
    then have n: "sint (of_nat (length ks) :: u32) = int (length ks)" by (rule sint_keys_small)
    have "GenerateFilter p b = Some \<lparr>fb_keys = [], fb_start = [], fb_result = concat fs @ f,
        fb_filter_offsets = map of_nat (starts fs) @ [of_nat (length (concat fs))]\<rparr>"
      using Cons f(1) unfolding GenerateFilter_def b Let_def length_starts keys n by simp
    then show ?thesis using filters_ok_snoc [OF b(5) made]
      by (auto simp: filter_repr_def intro!: exI [of _ "fs @ [f]"])
  qed
qed

end

text \<open>The keys of the filter number \<open>i\<close>, which may wait still.\<close>

definition assigned :: "slice list list \<Rightarrow> slice list \<Rightarrow> nat \<Rightarrow> slice list" where
  "assigned gs ks i = (if i < length gs then gs ! i else if i = length gs then ks else [])"

lemma assigned_generated: "assigned (gs @ [ks]) [] = assigned gs ks"
  by (auto simp: assigned_def fun_eq_iff nth_append)

lemma assigned_AddKeys: "assigned gs (ks @ keys) = (assigned gs ks)(length gs := assigned gs ks (length gs) @ keys)"
  by (auto simp: assigned_def fun_eq_iff)

text \<open>Blocks of the table: for every block its offset and its keys.\<close>

primrec build_filters :: "filter_policy \<Rightarrow> (u64 \<times> slice list) list \<Rightarrow> filter_builder \<Rightarrow> filter_builder option" where
  "build_filters p [] b = Some b"
| "build_filters p (blk # blks) b = do {
     b \<leftarrow> FilterBlock_StartBlock p (fst blk) b;
     build_filters p blks (fold FilterBlock_AddKey (snd blk) b) }"

text \<open>The keys that a filter is asked about.\<close>

definition keys_of_filter :: "(u64 \<times> slice list) list \<Rightarrow> nat \<Rightarrow> slice list" where
  "keys_of_filter blks i = concat (map snd (filter (\<lambda>blk. unat (fst blk) div kFilterBase = i) blks))"

context filter_policy_ok
begin

lemma start_block_loop_repr:
  assumes "filter_repr p valid lt b gs ks" "policy_keys valid lt ks" "length gs \<le> index"
  shows "\<exists>b' gs' ks'. start_block_loop p index b = Some b' \<and> filter_repr p valid lt b' gs' ks' \<and> (ks' = ks \<or> ks' = []) \<and>
    length gs' = index \<and> assigned gs' ks' = assigned gs ks"
  using assms
proof (induction "index - length gs" arbitrary: b gs ks rule: less_induct)
  case less
  note len = filter_repr_length [OF less.prems(1)]
  show ?case
  proof (cases "index > length gs")
    case True
    obtain b1 where b1: "GenerateFilter p b = Some b1" "filter_repr p valid lt b1 (gs @ [ks]) []"
      using GenerateFilter_repr [OF less.prems(1,2)] by blast
    from less.hyps [OF _ b1(2)] True have "\<exists>b' gs' ks'. start_block_loop p index b1 = Some b' \<and> filter_repr p valid lt b' gs' ks' \<and>
        (ks' = ks \<or> ks' = []) \<and> length gs' = index \<and> assigned gs' ks' = assigned gs ks"
      by (fastforce simp: assigned_generated)
    then show ?thesis using True b1(1) len by (simp add: start_block_loop.simps [of p index b])
  next
    case False
    then show ?thesis using less.prems len by (auto simp: start_block_loop.simps [of p index b])
  qed
qed

lemma build_filters_repr:
  assumes "filter_repr p valid lt b gs ks" "policy_keys valid lt (ks @ concat (map snd blks))"
    and "sorted_wrt (\<le>) (map fst blks)" "\<forall>blk \<in> set blks. length gs \<le> unat (fst blk) div kFilterBase"
  shows "\<exists>b' gs' ks'. build_filters p blks b = Some b' \<and> filter_repr p valid lt b' gs' ks' \<and> policy_keys valid lt ks' \<and>
    (\<forall>i. assigned gs' ks' i = assigned gs ks i @ keys_of_filter blks i)"
  using assms
proof (induction blks arbitrary: b gs ks)
  case Nil
  then show ?case by (auto simp: keys_of_filter_def)
next
  case (Cons blk blks)
  let ?index = "unat (fst blk) div kFilterBase"
  have "length gs \<le> ?index" using Cons.prems(4) by simp
  from start_block_loop_repr [OF Cons.prems(1) policy_keys_append(1) [OF Cons.prems(2)] this] obtain b1 gs1 ks1 where
    1: "start_block_loop p ?index b = Some b1" "filter_repr p valid lt b1 gs1 ks1" "ks1 = ks \<or> ks1 = []" "length gs1 = ?index"
      "assigned gs1 ks1 = assigned gs ks" by blast
  have 2: "filter_repr p valid lt (fold FilterBlock_AddKey (snd blk) b1) gs1 (ks1 @ snd blk)" using filter_repr_AddKeys [OF 1(2)] .
  have "policy_keys valid lt ((ks1 @ snd blk) @ concat (map snd blks))"
    using 1(3) Cons.prems(2) policy_keys_append(2) [of valid lt ks "concat (map snd (blk # blks))"] by auto
  moreover have "\<forall>blk' \<in> set blks. length gs1 \<le> unat (fst blk') div kFilterBase"
    using Cons.prems(3) 1(4) by (auto simp: word_le_nat_alt div_le_mono)
  ultimately obtain b' gs' ks' where 3: "build_filters p blks (fold FilterBlock_AddKey (snd blk) b1) = Some b'"
    "filter_repr p valid lt b' gs' ks'" "policy_keys valid lt ks'" "\<forall>i. assigned gs' ks' i = assigned gs1 (ks1 @ snd blk) i @ keys_of_filter blks i"
    using Cons.IH [OF 2] Cons.prems(3) by auto
  have "build_filters p (blk # blks) b = Some b'"
    using 1(1) 3(1) Cons.prems(4) filter_repr_length [OF Cons.prems(1)] by (simp add: FilterBlock_StartBlock_def Let_def)
  moreover have "assigned gs' ks' i = assigned gs ks i @ keys_of_filter (blk # blks) i" for i
    using 3(4) 1(4,5) by (simp add: assigned_AddKeys keys_of_filter_def)
  ultimately show ?case using 3(2,3) by blast
qed

end

section \<open>Reading the filter block\<close>

definition filter_layout :: "u8 list list \<Rightarrow> u8 list" where
  "filter_layout fs =
     concat fs @ concat (map EncodeFixed32 (map of_nat (starts fs))) @ EncodeFixed32 (of_nat (length (concat fs))) @ [11]"

lemma length_EncodeFixed32s [simp]: "length (concat (map EncodeFixed32 rs)) = 4 * length rs"
  by (induction rs) simp_all

lemma DecodeFixed32_array:
  assumes "i < length rs"
  shows "DecodeFixed32 (drop (4 * i) (concat (map EncodeFixed32 rs) @ rest)) = Some (rs ! i)"
  using assms
proof (induction rs arbitrary: i)
  case (Cons r rs)
  then show ?case by (cases i) simp_all
qed simp

lemma length_filter_layout: "length (filter_layout fs) = length (concat fs) + 4 * length fs + 5"
  by (simp add: filter_layout_def del: map_map)

lemma FilterBlockReader_layout:
  assumes "length (filter_layout fs) < 2 ^ 32"
  shows "FilterBlockReader (filter_layout fs) =
    Some \<lparr>fr_data = filter_layout fs, fr_offset = length (concat fs), fr_num = length fs, fr_base_lg = 11\<rparr>"
proof -
  let ?c = "filter_layout fs"
  have len: "length ?c - 5 = length (concat fs) + 4 * length fs" using length_filter_layout [of fs] by simp
  have "length (concat fs) < 2 ^ 32" using assms length_filter_layout [of fs] by simp
  then have off: "unat (of_nat (length (concat fs)) :: u32) = length (concat fs)" by (rule uint32_small)
  have "drop (length ?c - 5) ?c = EncodeFixed32 (of_nat (length (concat fs))) @ [11]"
    unfolding len by (simp add: filter_layout_def del: map_map)
  then have "DecodeFixed32 (drop (length ?c - 5) ?c) = Some (of_nat (length (concat fs)))" by simp
  moreover have "?c ! (length ?c - 1) = 11" by (simp add: length_filter_layout) (simp add: filter_layout_def nth_append del: map_map)
  ultimately show ?thesis using len off by (simp add: FilterBlockReader_def Let_def length_filter_layout)
qed

lemma filter_offset_read:
  assumes "i < length fs"
  shows "DecodeFixed32 (drop (length (concat fs) + i * 4) (filter_layout fs)) = Some (of_nat (length (concat (take i fs))))"
    "DecodeFixed32 (drop (length (concat fs) + i * 4 + 4) (filter_layout fs)) = Some (of_nat (length (concat (take (Suc i) fs))))"
proof -
  let ?rs = "map of_nat (starts fs) @ [of_nat (length (concat fs))] :: u32 list"
  have drop: "drop (length (concat fs) + k) (filter_layout fs) = drop k (concat (map EncodeFixed32 ?rs) @ [11])" for k
    by (simp add: filter_layout_def del: map_map)
  have nth: "?rs ! k = of_nat (length (concat (take k fs)))" if "k \<le> length fs" for k
    using starts_end_nth [OF that] that by (simp add: nth_append starts_nth split: if_splits)
  show "DecodeFixed32 (drop (length (concat fs) + i * 4) (filter_layout fs)) = Some (of_nat (length (concat (take i fs))))"
    using DecodeFixed32_array [of i ?rs "[11]"] nth [of i] assms unfolding drop by (simp add: mult.commute del: map_append map_map)
  have "length (concat fs) + i * 4 + 4 = length (concat fs) + 4 * Suc i" by simp
  then show "DecodeFixed32 (drop (length (concat fs) + i * 4 + 4) (filter_layout fs)) = Some (of_nat (length (concat (take (Suc i) fs))))"
    using DecodeFixed32_array [of "Suc i" ?rs "[11]"] nth [of "Suc i"] assms drop [of "4 * Suc i"]
    by (simp only: add.assoc length_append length_map length_starts) simp
qed

lemma KeyMayMatch_at:
  assumes "length (filter_layout fs) < 2 ^ 32" "FilterBlockReader (filter_layout fs) = Some r"
    and "unat (drop_bit 11 block_offset) < length fs"
  shows "FilterBlock_KeyMayMatch p r block_offset key = fp_KeyMayMatch p key (fs ! unat (drop_bit 11 block_offset))"
proof -
  define i where "i = unat (drop_bit 11 block_offset)"
  have fs: "i < length fs" using assms(3) by (simp add: i_def)
  have le: "length (concat (take k fs)) \<le> length (concat fs)" for k
    by (metis append_take_drop_id concat_append length_append le_add1)
  have "length (concat fs) < 2 ^ 32" using assms(1) length_filter_layout [of fs] by simp
  then have small: "unat (of_nat (length (concat (take k fs))) :: u32) = length (concat (take k fs))" for k
    using le [of k] by (intro uint32_small) linarith
  have r: "r = \<lparr>fr_data = filter_layout fs, fr_offset = length (concat fs), fr_num = length fs, fr_base_lg = 11\<rparr>"
    using FilterBlockReader_layout [OF assms(1)] assms(2) by simp
  let ?start = "of_nat (length (concat (take i fs))) :: u32" and ?limit = "of_nat (length (concat (take (Suc i) fs))) :: u32"
  have order: "?start \<le> ?limit" by (simp only: word_le_nat_alt small) (simp add: length_concat_Suc [OF fs])
  then have "unat (?limit - ?start) = length (fs ! i)"
    by (simp only: unat_sub small) (simp add: length_concat_Suc [OF fs])
  moreover have "take (length (fs ! i)) (drop (length (concat (take i fs))) (filter_layout fs)) = fs ! i"
    using concat_part [OF fs] le [of "Suc i"] length_concat_Suc [OF fs] by (simp add: filter_layout_def)
  ultimately show ?thesis
    using order small [of i] small [of "Suc i"] le [of "Suc i"] fs filter_offset_read [OF fs]
    by (simp add: FilterBlock_KeyMayMatch_def r Let_def i_def [symmetric])
qed

lemma KeyMayMatch_layout:
  assumes "filters_ok p valid lt fs gs" "length (filter_layout fs) < 2 ^ 32" "i < length gs" "key \<in> set (gs ! i)"
    and "unat block_offset div kFilterBase = i" "FilterBlockReader (filter_layout fs) = Some r"
  shows "FilterBlock_KeyMayMatch p r block_offset key = Some True"
proof -
  have index: "unat (drop_bit 11 block_offset) = i"
    using assms(5) by (simp add: unat_drop_bit_div kFilterBase_def kFilterBaseLg_def)
  have "i < length fs" "fp_KeyMayMatch p key (fs ! i) = Some True" using assms(1,3,4) by (simp_all add: filters_ok_def filter_made_def)
  then show ?thesis using KeyMayMatch_at [OF assms(2,6), of block_offset] by (simp add: index)
qed

text \<open>The reader can be asked about any key at any offset.\<close>

lemma KeyMayMatch_total:
  assumes "filter_policy_total p valid lt" "filters_ok p valid lt fs gs" "length (filter_layout fs) < 2 ^ 32" "valid key"
    and "FilterBlockReader (filter_layout fs) = Some r"
  shows "FilterBlock_KeyMayMatch p r block_offset key \<noteq> None"
proof -
  let ?i = "unat (drop_bit 11 block_offset)"
  have r: "r = \<lparr>fr_data = filter_layout fs, fr_offset = length (concat fs), fr_num = length fs, fr_base_lg = 11\<rparr>"
    using FilterBlockReader_layout [OF assms(3)] assms(5) by simp
  show ?thesis
  proof (cases "?i < length fs")
    case False
    then show ?thesis by (simp add: FilterBlock_KeyMayMatch_def r Let_def)
  next
    case True
    then have "filter_made p valid lt (fs ! ?i) (gs ! ?i)" using assms(2) by (simp add: filters_ok_def)
    then have "fp_KeyMayMatch p key (fs ! ?i) \<noteq> None"
      using filter_policy_total.may_match [OF assms(1,4)] filter_policy_total.may_match_empty [OF assms(1,4)]
      by (auto simp: filter_made_def split: if_splits)
    then show ?thesis using KeyMayMatch_at [OF assms(3,5) True] by simp
  qed
qed

lemma fold_PutFixed32: "fold (\<lambda>off result. PutFixed32 result off) rs result = result @ concat (map EncodeFixed32 rs)"
  by (induction rs arbitrary: result) (simp_all add: PutFixed32_def)

context filter_policy_ok
begin

lemma Finish_repr:
  assumes "filter_repr p valid lt b gs ks" "policy_keys valid lt ks"
  shows "\<exists>fs gs' b'. FilterBlock_Finish p b = Some (filter_layout fs, b') \<and> filters_ok p valid lt fs gs' \<and>
    (\<forall>i. assigned gs ks i = (if i < length gs' then gs' ! i else []))"
proof -
  obtain b1 gs1 where 1: "(if fb_start b \<noteq> [] then GenerateFilter p b else Some b) = Some b1" "filter_repr p valid lt b1 gs1 []"
    "assigned gs1 [] = assigned gs ks"
  proof (cases "ks = []")
    case True
    with assms(1) that [of b gs] show thesis by (simp add: filter_repr_def)
  next
    case False
    from GenerateFilter_repr [OF assms] obtain b1 where "GenerateFilter p b = Some b1" "filter_repr p valid lt b1 (gs @ [ks]) []" by blast
    with False assms(1) that [of b1 "gs @ [ks]"] show thesis by (simp add: filter_repr_def assigned_generated)
  qed
  obtain fs where fs: "fb_result b1 = concat fs" "fb_filter_offsets b1 = map of_nat (starts fs)" "filters_ok p valid lt fs gs1"
    using 1(2) by (auto simp: filter_repr_def)
  have layout: "PutFixed32 (fold (\<lambda>off result. PutFixed32 result off) (fb_filter_offsets b1) (fb_result b1))
      (of_nat (length (fb_result b1))) @ [of_nat kFilterBaseLg] = filter_layout fs"
    unfolding fold_PutFixed32 fs by (simp add: PutFixed32_def filter_layout_def kFilterBaseLg_def)
  have "FilterBlock_Finish p b = Some (filter_layout fs, b1\<lparr>fb_result := filter_layout fs\<rparr>)"
    unfolding FilterBlock_Finish_def 1(1) Option.bind.bind_lunit Let_def layout ..
  moreover have "assigned gs ks i = (if i < length gs1 then gs1 ! i else [])" for i
    unfolding 1(3) [symmetric] by (simp add: assigned_def)
  ultimately show ?thesis using fs(3) by blast
qed

end

section \<open>The whole block\<close>

context filter_policy_ok
begin

lemma filter_block_sound:
  assumes "policy_keys valid lt (concat (map snd blks))" "sorted_wrt (\<le>) (map fst blks)"
  shows "\<exists>b contents b'. build_filters p blks FilterBlockBuilder = Some b \<and> FilterBlock_Finish p b = Some (contents, b') \<and>
    (length contents < 2 ^ 32 \<longrightarrow>
      (\<exists>r. FilterBlockReader contents = Some r \<and>
        (\<forall>blk \<in> set blks. \<forall>key \<in> set (snd blk). FilterBlock_KeyMayMatch p r (fst blk) key = Some True) \<and>
        (filter_policy_total p valid lt \<longrightarrow> (\<forall>off key. valid key \<longrightarrow> FilterBlock_KeyMayMatch p r off key \<noteq> None))))"
proof -
  obtain b gs ks where b: "build_filters p blks FilterBlockBuilder = Some b" "filter_repr p valid lt b gs ks" "policy_keys valid lt ks"
    "\<forall>i. assigned gs ks i = assigned [] [] i @ keys_of_filter blks i"
    using build_filters_repr [OF filter_repr_new, of blks] assms by auto
  obtain fs gs' b' where f: "FilterBlock_Finish p b = Some (filter_layout fs, b')" "filters_ok p valid lt fs gs'"
    "\<forall>i. assigned gs ks i = (if i < length gs' then gs' ! i else [])"
    using Finish_repr [OF b(2,3)] by blast
  have "FilterBlock_KeyMayMatch p r (fst blk) key = Some True"
    if "length (filter_layout fs) < 2 ^ 32" "FilterBlockReader (filter_layout fs) = Some r" "blk \<in> set blks" "key \<in> set (snd blk)"
    for r blk key
  proof -
    let ?i = "unat (fst blk) div kFilterBase"
    have "snd blk \<in> set (map snd (filter (\<lambda>b. unat (fst b) div kFilterBase = ?i) blks))" using that(3) by force
    then have "key \<in> set (keys_of_filter blks ?i)" using that(4) unfolding keys_of_filter_def set_concat by blast
    then have "key \<in> set (assigned gs ks ?i)" using b(4) by simp
    then have "?i < length gs'" "key \<in> set (gs' ! ?i)" using f(3) by (auto split: if_splits)
    from KeyMayMatch_layout [OF f(2) that(1) this refl that(2)] show ?thesis .
  qed
  moreover note KeyMayMatch_total [OF _ f(2)]
  ultimately show ?thesis using b(1) f(1) FilterBlockReader_layout [of fs] by blast
qed

end

text \<open>Adding one key more, and one block more.\<close>

lemma build_filters_append:
  "build_filters p (xs @ ys) b = Option.bind (build_filters p xs b) (build_filters p ys)"
  by (induction xs arbitrary: b) (simp_all add: Option.bind_assoc)

lemma build_filters_key:
  "build_filters p (xs @ [(off, ks)]) b = Some b' \<Longrightarrow>
     build_filters p (xs @ [(off, ks @ [k])]) b = Some (FilterBlock_AddKey k b')"
  by (auto simp: build_filters_append bind_eq_Some_conv)

lemma build_filters_block:
  "build_filters p (xs @ [(off, [])]) b = Option.bind (build_filters p xs b) (FilterBlock_StartBlock p off)"
  by (cases "build_filters p xs b") (simp_all add: build_filters_append)

section \<open>The size of the block\<close>

text \<open>A policy whose filters take at most \<open>B\<close> bytes for every key, and \<open>B\<close> more.\<close>

definition policy_size :: "filter_policy \<Rightarrow> nat \<Rightarrow> bool" where
  "policy_size p B \<longleftrightarrow>
     (\<forall>keys dst r. fp_CreateFilter p keys dst = Some r \<longrightarrow> length r \<le> length dst + B * (length keys + 1))"

definition filter_size_ok :: "nat \<Rightarrow> nat \<Rightarrow> filter_builder \<Rightarrow> bool" where
  "filter_size_ok B keys b \<longleftrightarrow> length (fb_result b) + 2 * B * length (fb_start b) \<le> 2 * B * keys"

lemma GenerateFilter_size:
  assumes "policy_size p B" "GenerateFilter p b = Some b'" "filter_size_ok B keys b"
  shows "filter_size_ok B keys b'" "length (fb_filter_offsets b') = length (fb_filter_offsets b) + 1"
proof -
  have "length r \<le> length (fb_result b) + 2 * B * length (fb_start b)"
    if "fb_start b \<noteq> []" "fp_CreateFilter p ks (fb_result b) = Some r" "length ks \<le> length (fb_start b)" for ks r
  proof -
    have "length r \<le> length (fb_result b) + B * (length ks + 1)" using assms(1) that(2) unfolding policy_size_def by blast
    moreover have "B * (length ks + 1) \<le> B * (2 * length (fb_start b))"
      by (rule mult_le_mono2) (use that(1,3) in \<open>cases "fb_start b"; simp\<close>)
    ultimately show ?thesis by (simp add: mult.assoc mult.left_commute)
  qed
  note size = this
  show "filter_size_ok B keys b'" "length (fb_filter_offsets b') = length (fb_filter_offsets b) + 1"
  proof (atomize (full), cases "fb_start b = []")
    case True
    with assms(2,3) show "filter_size_ok B keys b' \<and> length (fb_filter_offsets b') = length (fb_filter_offsets b) + 1"
      by (auto simp: GenerateFilter_def filter_size_ok_def)
  next
    case False
    with assms(2) obtain n ks r where r: "fp_CreateFilter p (take n ks) (fb_result b) = Some r" "length ks = length (fb_start b)"
      "b' = \<lparr>fb_keys = [], fb_start = [], fb_result = r, fb_filter_offsets = fb_filter_offsets b @ [of_nat (length (fb_result b))]\<rparr>"
      by (fastforce simp: GenerateFilter_def Let_def bind_eq_Some_conv asserting_def split: if_splits)
    with size [OF False r(1)] assms(3)
    show "filter_size_ok B keys b' \<and> length (fb_filter_offsets b') = length (fb_filter_offsets b) + 1"
      by (simp add: filter_size_ok_def)
  qed
qed

lemma start_block_loop_size:
  assumes "policy_size p B" "start_block_loop p index b = Some b'" "filter_size_ok B keys b"
  shows "filter_size_ok B keys b' \<and> length (fb_filter_offsets b') \<le> max (length (fb_filter_offsets b)) index"
  using assms(2,3)
proof (induction "index - length (fb_filter_offsets b)" arbitrary: b rule: less_induct)
  case less
  show ?case
  proof (cases "index > length (fb_filter_offsets b)")
    case True
    with less.prems(1) obtain b1 where b1: "GenerateFilter p b = Some b1" "start_block_loop p index b1 = Some b'"
      by (auto simp: start_block_loop.simps [of p index b] bind_eq_Some_conv)
    note 1 = GenerateFilter_size [OF assms(1) b1(1) less.prems(2)]
    with less.hyps [OF _ b1(2) 1(1)] True show ?thesis by auto
  qed (use less.prems in \<open>auto simp: start_block_loop.simps [of p index b]\<close>)
qed

lemma filter_size_AddKeys:
  "filter_size_ok B keys b \<Longrightarrow>
     filter_size_ok B (keys + length ks) (fold FilterBlock_AddKey ks b) \<and>
     fb_filter_offsets (fold FilterBlock_AddKey ks b) = fb_filter_offsets b"
proof (induction ks arbitrary: keys b)
  case (Cons k ks)
  from Cons.prems have "filter_size_ok B (Suc keys) (FilterBlock_AddKey k b)"
    by (simp add: filter_size_ok_def FilterBlock_AddKey_def)
  from Cons.IH [OF this] show ?case by (simp add: FilterBlock_AddKey_def)
qed simp

lemma build_filters_size:
  assumes "policy_size p B"
  shows "build_filters p blks b = Some b' \<Longrightarrow> filter_size_ok B keys b \<Longrightarrow>
    \<forall>blk \<in> set blks. unat (fst blk) div kFilterBase \<le> last_filter \<Longrightarrow> length (fb_filter_offsets b) \<le> last_filter \<Longrightarrow>
    filter_size_ok B (keys + length (concat (map snd blks))) b' \<and> length (fb_filter_offsets b') \<le> last_filter"
proof (induction blks arbitrary: b keys)
  case (Cons blk blks)
  let ?index = "unat (fst blk) div kFilterBase"
  from Cons.prems(1) obtain b1 where b1: "start_block_loop p ?index b = Some b1"
    "build_filters p blks (fold FilterBlock_AddKey (snd blk) b1) = Some b'"
    by (auto simp: bind_eq_Some_conv FilterBlock_StartBlock_def Let_def asserting_def split: if_splits)
  from start_block_loop_size [OF assms b1(1) Cons.prems(2)] Cons.prems(3,4)
  have 1: "filter_size_ok B keys b1" "length (fb_filter_offsets b1) \<le> last_filter" by auto
  from Cons.IH [OF b1(2), of "keys + length (snd blk)"] filter_size_AddKeys [OF 1(1), of "snd blk"] 1(2) Cons.prems(3)
  show ?case by (simp add: add.assoc)
qed simp

lemma Finish_size:
  assumes "policy_size p B" "build_filters p blks FilterBlockBuilder = Some b" "FilterBlock_Finish p b = Some (contents, b')"
    and "\<forall>blk \<in> set blks. unat (fst blk) div kFilterBase \<le> last_filter"
  shows "length contents \<le> 2 * B * length (concat (map snd blks)) + 4 * last_filter + 9"
proof -
  have size: "filter_size_ok B (length (concat (map snd blks))) b" "length (fb_filter_offsets b) \<le> last_filter"
    using build_filters_size [OF assms(1,2) _ assms(4), of 0]
    by (simp_all add: filter_size_ok_def FilterBlockBuilder_def)
  obtain b1 where b1: "(if fb_start b \<noteq> [] then GenerateFilter p b else Some b) = Some b1"
    "contents = PutFixed32 (fold (\<lambda>off result. PutFixed32 result off) (fb_filter_offsets b1) (fb_result b1))
      (of_nat (length (fb_result b1))) @ [of_nat kFilterBaseLg]"
    using assms(3) unfolding FilterBlock_Finish_def by (auto simp: bind_eq_Some_conv Let_def simp del: if_splits)
  have "filter_size_ok B (length (concat (map snd blks))) b1 \<and> length (fb_filter_offsets b1) \<le> last_filter + 1"
    using b1(1) GenerateFilter_size [OF assms(1) _ size(1), of b1] size by (auto split: if_splits)
  then have "length (fb_result b1) \<le> 2 * B * length (concat (map snd blks))" "length (fb_filter_offsets b1) \<le> last_filter + 1"
    unfolding filter_size_ok_def using add_leD1 by blast+
  moreover have "length contents = length (fb_result b1) + 4 * length (fb_filter_offsets b1) + 5"
    unfolding b1(2) fold_PutFixed32 by (simp add: PutFixed32_def)
  ultimately show ?thesis by linarith
qed

lemma bloom_policy_size: "policy_size (NewBloomFilterPolicy n) (n + 10)"
proof -
  have probes: "length array' = length array" if "add_probes bits k delta h array = Some array'" for bits k delta h array array'
    using that by (induction k arbitrary: h array) (auto simp: Let_def asserting_def split: if_splits)
  have keys: "length array' = length array" if "add_keys bits k keys array = Some array'" for bits k keys array array'
    using that by (induction keys arbitrary: array) (auto simp: bind_eq_Some_conv add_key_def Let_def dest!: probes)
  have large: "(m * n + 7) div 8 + 1 \<le> (n + 10) * (m + 1)" for m
  proof -
    have "(x + 7) div 8 \<le> x + 1" for x :: nat by linarith
    from this [of "m * n"] show ?thesis by (simp add: algebra_simps)
  qed
  show ?thesis
    unfolding policy_size_def NewBloomFilterPolicy_def bloom_CreateFilter_def Let_def
    using large by (auto simp: BloomFilterPolicy_new_def Let_def bind_eq_Some_conv dest!: keys)
qed

lemma internal_policy_size: "policy_size p B \<Longrightarrow> policy_size (InternalFilterPolicy p) B"
proof -
  have "length us = length keys" if "those (map ExtractUserKey keys) = Some us" for keys us
    using that by (induction keys arbitrary: us) (auto simp: split: option.splits)
  then show "policy_size p B \<Longrightarrow> policy_size (InternalFilterPolicy p) B"
    by (fastforce simp: policy_size_def InternalFilterPolicy_def bind_eq_Some_conv)
qed

section \<open>Properties\<close>

text \<open>C25: the filter block has no false negatives: the blocks of a table are announced in the order of
  their offsets, and their keys, fewer than \<open>2 ^ 31\<close>, are added in the order of the comparator. Then no
  assertion fails, and for a reader of the finished block (if its size fits into 32 bits) every key may
  match at the offset of its block, whichever policy that keeps the documented contract is used, however
  many filters the distance between two blocks asks for, and wherever the offsets fall.\<close>

theorem filter_block_no_false_negative:
  assumes "filter_policy_ok p valid lt" "list_all (\<lambda>blk. list_all valid (snd blk)) blks"
    and "sorted_wrt (\<lambda>a b. \<not> lt b a) (concat (map snd blks))" "length (concat (map snd blks)) < 2 ^ 31"
    and "sorted_wrt (\<le>) (map fst blks)"
  shows "\<exists>b contents b'. build_filters p blks FilterBlockBuilder = Some b \<and> FilterBlock_Finish p b = Some (contents, b') \<and>
    (length contents < 2 ^ 32 \<longrightarrow>
      (\<exists>r. FilterBlockReader contents = Some r \<and>
        (\<forall>blk \<in> set blks. \<forall>key \<in> set (snd blk). FilterBlock_KeyMayMatch p r (fst blk) key = Some True)))"
proof -
  have "policy_keys valid lt (concat (map snd blks))" using assms(2-4) by (auto simp: policy_keys_def list_all_iff)
  from filter_policy_ok.filter_block_sound [OF assms(1) this assms(5)] show ?thesis by blast
qed

text \<open>A policy that keeps the first bytes of the keys.\<close>

definition first_bytes :: filter_policy where
  "first_bytes = \<lparr>fp_Name = ''first bytes'', fp_CreateFilter = (\<lambda>keys dst. Some (dst @ map (\<lambda>k. k ! 0) keys)),
     fp_KeyMayMatch = (\<lambda>key f. Some (key ! 0 \<in> set f))\<rparr>"

theorem filter_block_no_false_negative_witness:
  "\<exists>b contents b' r. build_filters first_bytes [(0, [[1], [2]]), (5000, [[3]])] FilterBlockBuilder = Some b \<and>
    FilterBlock_Finish first_bytes b = Some (contents, b') \<and> FilterBlockReader contents = Some r \<and>
    FilterBlock_KeyMayMatch first_bytes r 5000 [3] = Some True"
proof -
  have ok: "filter_policy_ok first_bytes (\<lambda>_. True) (\<lambda>a b. a ! 0 < b ! 0)" by unfold_locales (simp_all add: first_bytes_def)
  let ?blks = "[(0, [[1], [2]]), (5000, [[3]])] :: (u64 \<times> slice list) list"
  have "\<exists>b contents b'. build_filters first_bytes ?blks FilterBlockBuilder = Some b \<and>
      FilterBlock_Finish first_bytes b = Some (contents, b') \<and> length contents < 2 ^ 32"
    by (simp add: FilterBlock_StartBlock_def Let_def start_block_loop.simps FilterBlockBuilder_def FilterBlock_AddKey_def
        GenerateFilter_def FilterBlock_Finish_def first_bytes_def kFilterBase_def kFilterBaseLg_def PutFixed32_def)
  then show ?thesis using filter_block_no_false_negative [OF ok, of ?blks] by fastforce
qed

text \<open>C26: the Bloom filter has no false negatives, for every number of bits per key and every set of
  keys, and \<open>KeyMayMatch\<close> reads only inside the filter, on any bytes whatsoever; the policy for
  internal keys keeps both for any policy that has them, and asks it about the user key.\<close>

theorem bloom_no_false_negative:
  "(\<exists>f. fp_CreateFilter (NewBloomFilterPolicy n) keys dst = Some (dst @ f) \<and>
      (\<forall>key \<in> set keys. fp_KeyMayMatch (NewBloomFilterPolicy n) key f = Some True)) \<and>
   fp_KeyMayMatch (NewBloomFilterPolicy n) key bytes \<noteq> None \<and>
   (list_all (\<lambda>k. 8 \<le> length k) ikeys \<longrightarrow>
     (\<exists>f. fp_CreateFilter (InternalFilterPolicy (NewBloomFilterPolicy n)) ikeys dst = Some (dst @ f) \<and>
       (\<forall>ikey \<in> set ikeys. fp_KeyMayMatch (InternalFilterPolicy (NewBloomFilterPolicy n)) ikey f = Some True)))"
proof -
  have bloom: "\<exists>f. fp_CreateFilter (NewBloomFilterPolicy n) ks dst = Some (dst @ f) \<and>
      (\<forall>key \<in> set ks. fp_KeyMayMatch (NewBloomFilterPolicy n) key f = Some True)" for ks
    by (simp add: NewBloomFilterPolicy_def Let_def bloom_matches)
  have internal: "list_all (internal_key_of (\<lambda>_. True)) ikeys" if "list_all (\<lambda>k. 8 \<le> length k) ikeys"
    using that by (auto simp: list_all_iff internal_key_of_def ExtractUserKey_def)
  have "\<exists>f. fp_CreateFilter (InternalFilterPolicy (NewBloomFilterPolicy n)) ikeys dst = Some (dst @ f) \<and>
       (\<forall>ikey \<in> set ikeys. fp_KeyMayMatch (InternalFilterPolicy (NewBloomFilterPolicy n)) ikey f = Some True)"
    if "list_all (\<lambda>k. 8 \<le> length k) ikeys"
    using bloom [of "user_keys ikeys"] by (auto simp: internal_CreateFilter [OF internal [OF that]])
  moreover have "fp_KeyMayMatch (NewBloomFilterPolicy n) key bytes \<noteq> None"
    using bloom_KeyMayMatch_total by (simp add: NewBloomFilterPolicy_def Let_def)
  ultimately show ?thesis using bloom by blast
qed

theorem bloom_no_false_negative_witness:
  "\<exists>f. fp_CreateFilter (NewBloomFilterPolicy 10) [[1], [2, 3]] [9] = Some (9 # f) \<and>
     fp_KeyMayMatch (NewBloomFilterPolicy 10) [2, 3] f = Some True"
  using bloom_no_false_negative [of 10 "[[1], [2, 3]]" "[9]" "[]" "[]" "[replicate 8 0]"] by auto

end
