(* ===== verification/Ldb_Env_Random.thy ===== *)
theory Ldb_Env_Random
  imports Ldb_Env
begin

text \<open>
  Files that are read at any offset: the interface \<open>RandomAccessFile\<close> of
  \<open>include/leveldb/env.h\<close> with its contract, and the two implementations of \<open>util/env_posix.cc\<close>,
  over \<open>pread\<close> and over a mapped region, with the limiter that chooses between them.
\<close>

section \<open>The interface\<close>

text \<open>\<open>Read\<close> at an offset, of a number of bytes: the status, the result, and whether the result lies in
  the scratch buffer of the caller. \<open>None\<close> is an access outside the memory of the file.\<close>

record 'k random_access_file =
  raf_Read :: "u64 \<Rightarrow> u64 \<Rightarrow> 'k \<Rightarrow> ((status \<times> slice \<times> bool) \<times> 'k) option"

text \<open>A file with these contents that can be read inside of them.\<close>

locale random_file =
  fixes raf :: "'k random_access_file"
    and contents :: "u8 list"
    and ready :: "'k \<Rightarrow> bool"
  assumes pread: "ready k \<Longrightarrow> unat offset + unat n \<le> length contents \<Longrightarrow>
      \<exists>scratch k'. raf_Read raf offset n k =
        Some ((Status_OK, take (unat n) (drop (unat offset) contents), scratch), k') \<and> ready k'"

section \<open>The limiter\<close>

text \<open>The number of resources that are left; one thread at a time.\<close>

definition Limiter_Acquire :: "int \<Rightarrow> bool \<times> int" where
  "Limiter_Acquire acquires_allowed =
     (let old_acquires_allowed = acquires_allowed;
          acquires_allowed = acquires_allowed - 1
      in if old_acquires_allowed > 0 then (True, acquires_allowed)
         else (False, acquires_allowed + 1))"

definition Limiter_Release :: "int \<Rightarrow> int" where
  "Limiter_Release acquires_allowed = acquires_allowed + 1"

section \<open>Reading with \<open>pread\<close>\<close>

record posix_random =
  pr_has_permanent_fd :: bool
  pr_fd :: int
  pr_filename :: string

definition PosixRandomAccessFile :: "'k posix_sys \<Rightarrow> string \<Rightarrow> int \<Rightarrow> int \<times> 'k \<Rightarrow> posix_random \<times> int \<times> 'k" where
  "PosixRandomAccessFile sys filename fd = (\<lambda>(fd_limiter, k).
     let (has_permanent_fd, fd_limiter) = Limiter_Acquire fd_limiter;
         f = \<lparr>pr_has_permanent_fd = has_permanent_fd, pr_fd = (if has_permanent_fd then fd else -1), pr_filename = filename\<rparr>
     in if \<not> has_permanent_fd then let (_, k) = sys_close sys fd k in (f, fd_limiter, k)
        else (f, fd_limiter, k))"

definition random_delete :: "'k posix_sys \<Rightarrow> posix_random \<Rightarrow> int \<times> 'k \<Rightarrow> (int \<times> 'k) option" where
  "random_delete sys f = (\<lambda>(fd_limiter, k).
     if pr_has_permanent_fd f then
       asserting (pr_fd f \<noteq> -1) (let (_, k) = sys_close sys (pr_fd f) k in Some (Limiter_Release fd_limiter, k))
     else Some (fd_limiter, k))"

definition random_Read :: "'k posix_sys \<Rightarrow> posix_random \<Rightarrow> u64 \<Rightarrow> u64 \<Rightarrow> 'k \<Rightarrow> ((status \<times> slice \<times> bool) \<times> 'k) option" where
  "random_Read sys f offset n k =
     (case (if \<not> pr_has_permanent_fd f then sys_open sys (pr_filename f) k else (Inr (pr_fd f), k)) of
        (Inl errno, k) \<Rightarrow> Some ((PosixError sys (pr_filename f) errno, [], False), k)
      | (Inr fd, k) \<Rightarrow>
          asserting (fd \<noteq> -1)
          (let (read, k) = sys_pread sys fd (unat n) offset k;
               result = (case read of Inl errno \<Rightarrow> [] | Inr data \<Rightarrow> data);
               status = (case read of Inl errno \<Rightarrow> PosixError sys (pr_filename f) errno | Inr data \<Rightarrow> Status_OK)
           in if \<not> pr_has_permanent_fd f then
                asserting (fd \<noteq> pr_fd f) (let (_, k) = sys_close sys fd k in Some ((status, result, True), k))
              else Some ((status, result, True), k)))"

definition posix_random_file :: "'k posix_sys \<Rightarrow> posix_random \<Rightarrow> 'k random_access_file" where
  "posix_random_file sys f = \<lparr>raf_Read = random_Read sys f\<rparr>"

text \<open>The documented behaviour of \<open>pread(2)\<close> on a regular file that does not change, and of opening and
  closing it meanwhile.\<close>

locale posix_pread =
  fixes sys :: "'k posix_sys"
    and f :: posix_random
    and contents :: "u8 list"
    and ready :: "'k \<Rightarrow> bool"
  assumes permanent: "pr_fd f \<noteq> -1 \<longleftrightarrow> pr_has_permanent_fd f"
    and pread_call: "ready k \<Longrightarrow> unat off + n \<le> length contents \<Longrightarrow>
      \<exists>k'. sys_pread sys fd n off k = (Inr (take n (drop (unat off) contents)), k') \<and> ready k'"
    and open_call: "ready k \<Longrightarrow> \<exists>fd k'. sys_open sys (pr_filename f) k = (Inr fd, k') \<and> fd \<noteq> -1 \<and> ready k'"
    and close_call: "ready k \<Longrightarrow> ready (snd (sys_close sys fd k))"
begin

lemma random_Read_reads:
  assumes "ready k" "unat offset + unat n \<le> length contents"
  shows "\<exists>k'. random_Read sys f offset n k = Some ((Status_OK, take (unat n) (drop (unat offset) contents), True), k') \<and> ready k'"
proof (cases "pr_has_permanent_fd f")
  case True
  with permanent pread_call [OF assms, of "pr_fd f"] show ?thesis by (auto simp: random_Read_def)
next
  case False
  obtain fd k1 where 1: "sys_open sys (pr_filename f) k = (Inr fd, k1)" "fd \<noteq> -1" "ready k1"
    using open_call [OF assms(1)] by blast
  obtain k2 where 2: "sys_pread sys fd (unat n) offset k1 = (Inr (take (unat n) (drop (unat offset) contents)), k2)" "ready k2"
    using pread_call [OF 1(3) assms(2)] by blast
  obtain u k3 where 3: "sys_close sys fd k2 = (u, k3)" by fastforce
  have "pr_fd f = -1" using permanent False by simp
  with False 1 2 3 close_call [OF 2(2), of fd] show ?thesis by (simp add: random_Read_def)
qed

end

sublocale posix_pread \<subseteq> random: random_file "posix_random_file sys f" contents ready
  by unfold_locales (use random_Read_reads in \<open>fastforce simp: posix_random_file_def\<close>)

interpretation ram_pread: posix_pread ram_sys "\<lparr>pr_has_permanent_fd = p, pr_fd = (if p then 5 else -1), pr_filename = name\<rparr>"
    contents "\<lambda>k. rk_disk k = contents" for p name contents
  by unfold_locales (auto simp: ram_sys_def)

section \<open>Reading from a mapped region\<close>

text \<open>The region is \<open>mm_base\<close>, of \<open>length_\<close> bytes; a slice that leaves it is an error as soon as it is made.\<close>

record posix_mmap =
  mm_base :: "u8 list"
  mm_length :: u64
  mm_filename :: string

text \<open>The region that \<open>mmap\<close> returned for the file; it is as long as the file.\<close>

definition PosixMmapReadableFile :: "string \<Rightarrow> u8 list \<Rightarrow> posix_mmap" where
  "PosixMmapReadableFile filename bytes =
     (let size = of_nat (min (length bytes) (2 ^ 64 - 1))
      in \<lparr>mm_base = take (unat size) bytes, mm_length = size, mm_filename = filename\<rparr>)"

definition EINVAL :: int where "EINVAL = 22"

definition mmap_Read :: "'k posix_sys \<Rightarrow> posix_mmap \<Rightarrow> u64 \<Rightarrow> u64 \<Rightarrow> 'k \<Rightarrow> ((status \<times> slice \<times> bool) \<times> 'k) option" where
  "mmap_Read sys f offset n k =
     (if offset + n > mm_length f then Some ((PosixError sys (mm_filename f) EINVAL, [], False), k)
      else asserting (unat offset + unat n \<le> length (mm_base f))
        (Some ((Status_OK, take (unat n) (drop (unat offset) (mm_base f)), False), k)))"

definition posix_mmap_file :: "'k posix_sys \<Rightarrow> posix_mmap \<Rightarrow> 'k random_access_file" where
  "posix_mmap_file sys f = \<lparr>raf_Read = mmap_Read sys f\<rparr>"

lemma mmap_file_ok:
  assumes "length (mm_base f) = unat (mm_length f)"
  shows "random_file (posix_mmap_file sys f) (mm_base f) (\<lambda>_. True)"
proof
  fix offset n :: u64 and k
  assume le: "unat offset + unat n \<le> length (mm_base f)"
  then have "unat offset + unat n < 2 ^ 64" using unat_u64_less [of "mm_length f"] assms by linarith
  then have "unat (offset + n) = unat offset + unat n" by (simp add: unat_word_ariths)
  with le assms have "\<not> offset + n > mm_length f" by (simp add: word_less_nat_alt)
  with le show "\<exists>scratch k'. raf_Read (posix_mmap_file sys f) offset n k =
      Some ((Status_OK, take (unat n) (drop (unat offset) (mm_base f)), scratch), k') \<and> True"
    by (auto simp: posix_mmap_file_def mmap_Read_def)
qed

interpretation mapped: random_file "posix_mmap_file sys (PosixMmapReadableFile name bytes)"
    "take (2 ^ 64 - 1) bytes" "\<lambda>_. True" for sys name bytes
proof -
  let ?f = "PosixMmapReadableFile name bytes"
  have "unat (of_nat (min (length bytes) (2 ^ 64 - 1)) :: u64) = min (length bytes) (2 ^ 64 - 1)"
    by (rule uint64_small) simp
  then have "unat (mm_length ?f) = min (length bytes) (2 ^ 64 - 1)" by (simp only: PosixMmapReadableFile_def Let_def posix_mmap.simps)
  moreover from this have "mm_base ?f = take (2 ^ 64 - 1) bytes"
    by (simp only: PosixMmapReadableFile_def Let_def posix_mmap.simps) (simp add: min_def)
  ultimately show "random_file (posix_mmap_file sys ?f) (take (2 ^ 64 - 1) bytes) (\<lambda>_. True)"
    using mmap_file_ok [of ?f] by simp
qed

text \<open>The bounds check of the mapped file is on the sum of offset and length, which wraps: an offset
  just below \<open>2 ^ 64\<close>, as a corrupted index can give, makes it read in front of the region.\<close>

lemma mmap_Read_wraps:
  assumes "n \<noteq> 0" "length (mm_base f) < 2 ^ 63" "unat n < 2 ^ 63"
  shows "mmap_Read sys f (- n) n k = None"
proof -
  have "unat n \<noteq> 0" using assms(1) by (simp add: unat_eq_zero)
  then have "unat (of_nat (2 ^ 64 - unat n) :: u64) = 2 ^ 64 - unat n" by (intro uint64_small) simp
  moreover have "(of_nat (2 ^ 64 - unat n) :: u64) = of_nat (2 ^ 64) - of_nat (unat n)"
    by (rule of_nat_diff) (rule less_imp_le [OF unat_u64_less])
  then have "(of_nat (2 ^ 64 - unat n) :: u64) = - n" by simp
  ultimately have "unat (- n) + unat n = 2 ^ 64" using less_imp_le [OF unat_u64_less [of n]] by (metis le_add_diff_inverse2)
  with assms(2,3) show ?thesis by (simp add: mmap_Read_def)
qed

end
