(* ===== verification/Ldb_Format.thy ===== *)
theory Ldb_Format
  imports Ldb_Block_Correct Ldb_Filter_Correct Ldb_Env_Random Ldb_Crc32c
begin

text \<open>
  The frame of a table file: the options of \<open>include/leveldb/options.h\<close>, and \<open>table/format.cc\<close> with
  block handles, the footer, and the reading of a block with its trailer. The build has no Snappy,
  so \<open>port/port_stdcxx.h\<close> neither compresses nor uncompresses. \<open>None\<close> is a failed assertion or an access
  outside a buffer.
\<close>

section \<open>Options\<close>

datatype CompressionType = kNoCompression | kSnappyCompression

primrec compression_num :: "CompressionType \<Rightarrow> u8" where
  "compression_num kNoCompression = 0"
| "compression_num kSnappyCompression = 1"

text \<open>The options that tables read; they start with those of a block builder. The block cache is an
  argument of the operations that use it.\<close>

record options = block_options +
  op_paranoid_checks :: bool
  op_block_size :: nat
  op_compression :: CompressionType
  op_filter_policy :: "filter_policy option"

definition Options :: options where
  "Options =
     \<lparr>bo_comparator = BytewiseComparator, bo_block_restart_interval = 16, op_paranoid_checks = False,
      op_block_size = 4 * 1024, op_compression = kSnappyCompression, op_filter_policy = None\<rparr>"

record read_options =
  ro_verify_checksums :: bool
  ro_fill_cache :: bool

definition ReadOptions :: read_options where
  "ReadOptions = \<lparr>ro_verify_checksums = False, ro_fill_cache = True\<rparr>"

text \<open>The functions of the port for Snappy.\<close>

definition Snappy_Compress :: "slice \<Rightarrow> slice option" where
  "Snappy_Compress input = None"

definition Snappy_GetUncompressedLength :: "slice \<Rightarrow> nat option" where
  "Snappy_GetUncompressedLength input = None"

definition Snappy_Uncompress :: "slice \<Rightarrow> slice option" where
  "Snappy_Uncompress input = None"

section \<open>Block handles and the footer\<close>

record block_handle =
  bh_offset :: u64
  bh_size :: u64

definition BlockHandle :: block_handle where
  "BlockHandle = \<lparr>bh_offset = NOT 0, bh_size = NOT 0\<rparr>"

definition kMaxEncodedLength :: nat where
  "kMaxEncodedLength = 10 + 10"

definition BlockHandle_EncodeTo :: "block_handle \<Rightarrow> u8 list \<Rightarrow> u8 list option" where
  "BlockHandle_EncodeTo h dst =
     asserting (bh_offset h \<noteq> NOT 0 \<and> bh_size h \<noteq> NOT 0)
       (let dst = PutVarint64 dst (bh_offset h);
            dst = PutVarint64 dst (bh_size h)
        in Some dst)"

text \<open>The handle is only partly set when the status is not OK.\<close>

definition BlockHandle_DecodeFrom :: "block_handle \<Rightarrow> slice \<Rightarrow> status \<times> block_handle \<times> slice" where
  "BlockHandle_DecodeFrom h input =
     (case GetVarint64 input of
        None \<Rightarrow> (Corruption (bytes_of ''bad block handle'') [], h, input)
      | Some (offset, input) \<Rightarrow>
          (case GetVarint64 input of
             None \<Rightarrow> (Corruption (bytes_of ''bad block handle'') [], h\<lparr>bh_offset := offset\<rparr>, input)
           | Some (sz, input) \<Rightarrow> (Status_OK, h\<lparr>bh_offset := offset, bh_size := sz\<rparr>, input)))"

record footer =
  ft_metaindex_handle :: block_handle
  ft_index_handle :: block_handle

definition kEncodedLength :: nat where
  "kEncodedLength = 2 * kMaxEncodedLength + 8"

definition kTableMagicNumber :: u64 where
  "kTableMagicNumber = 0xdb4775248b80fb57"

text \<open>\<open>std::string::resize\<close>.\<close>

definition resize :: "u8 list \<Rightarrow> nat \<Rightarrow> u8 list" where
  "resize s n = take n s @ replicate (n - length s) 0"

definition Footer_EncodeTo :: "footer \<Rightarrow> u8 list \<Rightarrow> u8 list option" where
  "Footer_EncodeTo f dst =
     (let original_size = length dst in do {
        dst \<leftarrow> BlockHandle_EncodeTo (ft_metaindex_handle f) dst;
        dst \<leftarrow> BlockHandle_EncodeTo (ft_index_handle f) dst;
        let dst = resize dst (2 * kMaxEncodedLength);
        let dst = PutFixed32 dst (ucast (kTableMagicNumber AND 0xffffffff));
        let dst = PutFixed32 dst (ucast (drop_bit 32 kTableMagicNumber));
        asserting (length dst = original_size + kEncodedLength) (Some dst) })"

definition Footer_DecodeFrom :: "footer \<Rightarrow> slice \<Rightarrow> (status \<times> footer \<times> slice) option" where
  "Footer_DecodeFrom f input =
     (let magic_ptr = drop (kEncodedLength - 8) input in do {
        magic_lo \<leftarrow> DecodeFixed32 magic_ptr;
        magic_hi \<leftarrow> DecodeFixed32 (drop 4 magic_ptr);
        let magic = (push_bit 32 (ucast magic_hi) OR ucast magic_lo :: u64);
        if magic \<noteq> kTableMagicNumber
        then Some (Corruption (bytes_of ''not an sstable (bad magic number)'') [], f, input)
        else
          let (result, metaindex_handle, rest) = BlockHandle_DecodeFrom (ft_metaindex_handle f) input;
              f = f\<lparr>ft_metaindex_handle := metaindex_handle\<rparr>
          in if \<not> ok result then Some (result, f, rest)
             else
               let (result, index_handle, rest) = BlockHandle_DecodeFrom (ft_index_handle f) rest;
                   f = f\<lparr>ft_index_handle := index_handle\<rparr>
               in if \<not> ok result then Some (result, f, rest)
                  else Some (result, f, drop 8 magic_ptr) })"

section \<open>Reading a block\<close>

definition kBlockTrailerSize :: nat where
  "kBlockTrailerSize = 5"

record block_contents =
  bc_data :: slice
  bc_cachable :: bool
  bc_heap_allocated :: bool

text \<open>The size of the block is a \<open>size_t\<close>, which wraps when the size of the trailer is added.\<close>

definition ReadBlock ::
  "'k random_access_file \<Rightarrow> read_options \<Rightarrow> block_handle \<Rightarrow> 'k \<Rightarrow> ((status \<times> block_contents) \<times> 'k) option" where
  "ReadBlock raf opt handle k =
     (let result = \<lparr>bc_data = [], bc_cachable = False, bc_heap_allocated = False\<rparr>;
          n = bh_size handle
      in do {
        ((s, contents, in_buf), k) \<leftarrow> raf_Read raf (bh_offset handle) (n + of_nat kBlockTrailerSize) k;
        if \<not> ok s then Some ((s, result), k)
        else if of_nat (length contents) \<noteq> n + of_nat kBlockTrailerSize
        then Some ((Corruption (bytes_of ''truncated block read'') [], result), k)
        else do {
          mismatch \<leftarrow> (if ro_verify_checksums opt then do {
                         masked \<leftarrow> DecodeFixed32 (drop (unat (n + 1)) contents);
                         asserting (unat (n + 1) \<le> length contents)
                           (Some (crc32c_Value (take (unat (n + 1)) contents) \<noteq> Unmask masked)) }
                       else Some False);
          if mismatch then Some ((Corruption (bytes_of ''block checksum mismatch'') [], result), k)
          else asserting (unat n < length contents)
            (let data = take (unat n) contents; type = contents ! unat n in
             if type = compression_num kNoCompression then
               Some ((Status_OK, \<lparr>bc_data = data, bc_cachable = in_buf, bc_heap_allocated = in_buf\<rparr>), k)
             else if type = compression_num kSnappyCompression then
               (case Snappy_GetUncompressedLength data of
                  None \<Rightarrow> Some ((Corruption (bytes_of ''corrupted compressed block contents'') [], result), k)
                | Some ulength \<Rightarrow>
                    (case Snappy_Uncompress data of
                       None \<Rightarrow> Some ((Corruption (bytes_of ''corrupted compressed block contents'') [], result), k)
                     | Some ubuf \<Rightarrow>
                         Some ((Status_OK, \<lparr>bc_data = ubuf, bc_cachable = True, bc_heap_allocated = True\<rparr>), k)))
             else Some ((Corruption (bytes_of ''bad block type'') [], result), k)) } })"

section \<open>Handles and footers are read back\<close>

definition handle_set :: "block_handle \<Rightarrow> bool" where
  "handle_set h \<longleftrightarrow> bh_offset h \<noteq> NOT 0 \<and> bh_size h \<noteq> NOT 0"

lemma handle_set_small: "unat (bh_offset h) < 2 ^ 63 \<Longrightarrow> unat (bh_size h) < 2 ^ 63 \<Longrightarrow> handle_set h"
  by (auto simp: handle_set_def unsigned_minus_1_eq_mask mask_eq_exp_minus_1)

definition enc_handle :: "block_handle \<Rightarrow> u8 list" where
  "enc_handle h = EncodeVarint64 (bh_offset h) @ EncodeVarint64 (bh_size h)"

lemma BlockHandle_Encode: "handle_set h \<Longrightarrow> BlockHandle_EncodeTo h dst = Some (dst @ enc_handle h)"
  by (simp add: BlockHandle_EncodeTo_def handle_set_def enc_handle_def PutVarint64_def)

lemma BlockHandle_Decode [simp]: "BlockHandle_DecodeFrom h0 (enc_handle h @ rest) = (Status_OK, h, rest)"
  by (simp add: BlockHandle_DecodeFrom_def enc_handle_def)

lemma BlockHandle_Decode_Nil [simp]: "BlockHandle_DecodeFrom h0 (enc_handle h) = (Status_OK, h, [])"
  using BlockHandle_Decode [of h0 h "[]"] by simp

lemma length_EncodeVarint64: "length (EncodeVarint64 v) \<le> 10"
  using varint_bytes_length_64 [OF unat_u64_less [of v]] by (simp add: EncodeVarint64_bytes)

lemma length_enc_handle: "length (enc_handle h) \<le> 20"
  using length_EncodeVarint64 [of "bh_offset h"] length_EncodeVarint64 [of "bh_size h"] by (simp add: enc_handle_def)

definition enc_footer :: "footer \<Rightarrow> u8 list" where
  "enc_footer f =
     resize (enc_handle (ft_metaindex_handle f) @ enc_handle (ft_index_handle f)) 40 @
     EncodeFixed32 0x8b80fb57 @ EncodeFixed32 0xdb477524"

lemma resize_longer: "length s \<le> n \<Longrightarrow> resize s n = s @ replicate (n - length s) 0"
  by (simp add: resize_def)

lemma length_resize [simp]: "length (resize s n) = n"
  by (simp add: resize_def)

lemma length_enc_footer [simp]: "length (enc_footer f) = 48"
  by (simp add: enc_footer_def)

lemma magic_halves:
  "ucast (kTableMagicNumber AND 0xffffffff) = (0x8b80fb57 :: u32)"
  "ucast (drop_bit 32 kTableMagicNumber) = (0xdb477524 :: u32)"
  "push_bit 32 (ucast (0xdb477524 :: u32)) OR ucast (0x8b80fb57 :: u32) = kTableMagicNumber"
  by (simp_all add: kTableMagicNumber_def)

lemma Footer_Encode:
  assumes "handle_set (ft_metaindex_handle f)" "handle_set (ft_index_handle f)"
  shows "Footer_EncodeTo f [] = Some (enc_footer f)"
  using assms
  by (simp add: Footer_EncodeTo_def BlockHandle_Encode PutFixed32_def magic_halves enc_footer_def
      kMaxEncodedLength_def kEncodedLength_def)

lemma Footer_Decode: "Footer_DecodeFrom f0 (enc_footer f @ rest) = Some (Status_OK, f, rest)"
proof -
  let ?hs = "enc_handle (ft_metaindex_handle f) @ enc_handle (ft_index_handle f)"
  have "length ?hs \<le> 40" using length_enc_handle [of "ft_metaindex_handle f"] length_enc_handle [of "ft_index_handle f"] by simp
  then have pad: "resize ?hs 40 = enc_handle (ft_metaindex_handle f) @ enc_handle (ft_index_handle f) @ replicate (40 - length ?hs) 0"
    by (simp add: resize_longer)
  have "drop (kEncodedLength - 8) (enc_footer f @ rest) = EncodeFixed32 0x8b80fb57 @ EncodeFixed32 0xdb477524 @ rest"
    by (simp add: enc_footer_def kEncodedLength_def kMaxEncodedLength_def)
  moreover have "BlockHandle_DecodeFrom (ft_metaindex_handle f0) (enc_footer f @ rest) =
      (Status_OK, ft_metaindex_handle f, enc_handle (ft_index_handle f) @ replicate (40 - length ?hs) 0 @ drop 40 (enc_footer f @ rest))"
    using length_enc_handle [of "ft_metaindex_handle f"] length_enc_handle [of "ft_index_handle f"]
    by (simp add: enc_footer_def pad)
  ultimately show ?thesis
    by (simp add: Footer_DecodeFrom_def kTableMagicNumber_def Let_def ok_def Status_OK_def)
qed

section \<open>Stored blocks are read back\<close>

text \<open>The bytes of a block in the file, and a file that has them at the place of the handle.\<close>

definition stored_block :: "slice \<Rightarrow> u8 list" where
  "stored_block data =
     data @ [compression_num kNoCompression] @
     EncodeFixed32 (Mask (crc32c_Value (data @ [compression_num kNoCompression])))"

definition stored :: "u8 list \<Rightarrow> block_handle \<Rightarrow> slice \<Rightarrow> bool" where
  "stored bytes h data \<longleftrightarrow>
     (\<exists>before after. bytes = before @ stored_block data @ after \<and> unat (bh_offset h) = length before \<and>
       unat (bh_size h) = length data)"

lemma length_stored_block [simp]: "length (stored_block data) = length data + 5"
  by (simp add: stored_block_def)

lemma stored_append: "stored bytes h data \<Longrightarrow> stored (bytes @ rest) h data"
  unfolding stored_def by (metis append_assoc)

lemma stored_end:
  "unat (bh_offset h) = length bytes \<Longrightarrow> unat (bh_size h) = length data \<Longrightarrow> stored (bytes @ stored_block data) h data"
  unfolding stored_def by (metis append_Nil2)

context random_file
begin

lemma ReadBlock_stored:
  assumes "stored contents h data" "length contents < 2 ^ 64" "ready k"
  shows "\<exists>bc k'. ReadBlock raf opt h k = Some ((Status_OK, bc), k') \<and> bc_data bc = data \<and> ready k'"
proof -
  obtain before after where bytes: "contents = before @ stored_block data @ after" "unat (bh_offset h) = length before"
    "unat (bh_size h) = length data" using assms(1) by (auto simp: stored_def)
  have size: "bh_size h = of_nat (length data)" unfolding bytes(3) [symmetric] by simp
  have "length data + 5 < 2 ^ 64" using assms(2) by (simp add: bytes(1))
  then have n: "unat (bh_size h + 5) = length data + 5" "unat (bh_size h + 1) = length data + 1"
    using uint64_small [of "length data + 5"] uint64_small [of "length data + 1"] by (simp_all add: size add.commute)
  have "unat (bh_offset h) + unat (bh_size h + 5) \<le> length contents" using bytes by (simp add: n)
  from pread [OF assms(3) this] obtain scratch k' where
    read: "raf_Read raf (bh_offset h) (bh_size h + 5) k = Some ((Status_OK, stored_block data, scratch), k')" "ready k'"
    by (auto simp: n bytes)
  have "(of_nat (length data + 5) :: u64) = bh_size h + 5" by (simp add: size)
  moreover have "drop (length data + 1) (stored_block data) = EncodeFixed32 (Mask (crc32c_Value (data @ [0]))) @ []"
    by (simp add: stored_block_def)
  moreover have "take (length data + 1) (stored_block data) = data @ [0]" by (simp add: stored_block_def)
  moreover have "stored_block data ! length data = 0" "take (length data) (stored_block data) = data"
    by (simp_all add: stored_block_def)
  ultimately show ?thesis
    using read bytes(3)
    by (auto simp: ReadBlock_def Let_def kBlockTrailerSize_def n Unmask_Mask_inverse DecodeFixed32_Encode
        ok_def Status_OK_def simp del: append_Nil2)
qed

end

text \<open>The size of the trailer is added in 64 bits: for a handle of size \<open>2 ^ 64 - 5\<close> nothing is read, which
  passes as a complete read, and the type byte is looked for far outside the buffer.\<close>

lemma ReadBlock_size_wraps:
  assumes "random_file raf contents ready" "ready k" "bh_size h = - 5" "unat (bh_offset h) \<le> length contents"
  shows "ReadBlock raf opt h k = None"
proof -
  from random_file.pread [OF assms(1,2), of "bh_offset h" 0] assms(4) obtain scratch k' where
    "raf_Read raf (bh_offset h) 0 k = Some ((Status_OK, [], scratch), k')" by auto
  then show ?thesis using assms(3) by (simp add: ReadBlock_def Let_def kBlockTrailerSize_def ok_def Status_OK_def DecodeFixed32_def)
qed

end
