(* ===== verification/Ldb_Cache.thy ===== *)
theory Ldb_Cache
  imports Ldb_Coding "HOL-Library.Multiset"
begin

text \<open>
  The interface \<open>Cache\<close> of \<open>include/leveldb/cache.h\<close> with its contract.
\<close>

text \<open>\<open>None\<close> is a failed assertion or the use of a handle that does not exist any more. The capacity
  and the charges are in bytes.\<close>

record ('v, 'h, 'c) cache =
  ca_Insert :: "slice \<Rightarrow> 'v \<Rightarrow> u64 \<Rightarrow> 'c \<Rightarrow> ('h \<times> 'c) option"
  ca_Lookup :: "slice \<Rightarrow> 'c \<Rightarrow> ('h option \<times> 'c) option"
  ca_Release :: "'h \<Rightarrow> 'c \<Rightarrow> 'c option"
  ca_Value :: "'h \<Rightarrow> 'c \<Rightarrow> 'v option"
  ca_Erase :: "slice \<Rightarrow> 'c \<Rightarrow> 'c option"
  ca_NewId :: "'c \<Rightarrow> u64 \<times> 'c"

text \<open>\<open>holds P H c\<close>: what the cache has stored under a key satisfies \<open>P\<close>, and \<open>H\<close> are the handles, with
  their values, that its clients have not released. A handle that was returned stays good, with the
  same value, until it is released, whatever else happens to the cache; what \<open>Lookup\<close> finds was
  stored under that key.\<close>

locale cache_ok =
  fixes ops :: "('v, 'h, 'c) cache"
    and holds :: "(slice \<Rightarrow> 'v \<Rightarrow> bool) \<Rightarrow> ('h \<times> 'v) multiset \<Rightarrow> 'c \<Rightarrow> bool"
  assumes insert: "holds P H c \<Longrightarrow> P key v \<Longrightarrow>
      \<exists>h c'. ca_Insert ops key v charge c = Some (h, c') \<and> holds P (add_mset (h, v) H) c'"
    and lookup: "holds P H c \<Longrightarrow>
      \<exists>r c'. ca_Lookup ops key c = Some (r, c') \<and>
        (case r of None \<Rightarrow> holds P H c' | Some h \<Rightarrow> \<exists>v. P key v \<and> holds P (add_mset (h, v) H) c')"
    and release: "holds P (add_mset (h, v) H) c \<Longrightarrow> \<exists>c'. ca_Release ops h c = Some c' \<and> holds P H c'"
    and handle_value: "holds P H c \<Longrightarrow> (h, v) \<in># H \<Longrightarrow> ca_Value ops h c = Some v"
    and erase: "holds P H c \<Longrightarrow> \<exists>c'. ca_Erase ops key c = Some c' \<and> holds P H c'"
    and new_id: "holds P H c \<Longrightarrow> holds P H (snd (ca_NewId ops c))"
    and weaken: "holds P H c \<Longrightarrow> (\<And>key v. P key v \<Longrightarrow> Q key v) \<Longrightarrow> holds Q H c"

end
