(* ===== verification/Ldb_Table.thy ===== *)
theory Ldb_Table
  imports Ldb_Two_Level Ldb_Format Ldb_Cache
begin

text \<open>
  The reader of a table file, \<open>table/table.cc\<close>: opening a file, its filter, the blocks with or without
  a block cache, iterators and lookups. The file is any \<open>RandomAccessFile\<close>, the cache any \<open>Cache\<close>; their
  two states are the world that the iterators share.
\<close>

section \<open>Iterators with cleanup functions\<close>

text \<open>The functions registered are run after the destructor of the derived class.\<close>

definition with_cleanups :: "('s, 'w) iterator \<Rightarrow> ('f \<Rightarrow> 'w \<Rightarrow> 'w option) \<Rightarrow> ('s \<times> 'f list, 'w) iterator" where
  "with_cleanups ops run =
     (let lift = (\<lambda>move (s, cleanups) w. map_option (\<lambda>(s, w). ((s, cleanups), w)) (move s w)) in
      \<lparr>it_Valid = (\<lambda>(s, _). it_Valid ops s),
       it_SeekToFirst = lift (it_SeekToFirst ops),
       it_SeekToLast = lift (it_SeekToLast ops),
       it_Seek = (\<lambda>target. lift (it_Seek ops target)),
       it_Next = lift (it_Next ops),
       it_Prev = lift (it_Prev ops),
       it_key = (\<lambda>(s, _). it_key ops s),
       it_value = (\<lambda>(s, _). it_value ops s),
       it_status = (\<lambda>(s, _). it_status ops s),
       it_delete = (\<lambda>(s, cleanups) w. Option.bind (it_delete ops s w) (run_cleanups run cleanups))\<rparr>)"

text \<open>\<open>DeleteBlock\<close> frees the block; \<open>ReleaseBlock\<close> gives its handle back to the cache.\<close>

datatype 'h cleanup = DeleteBlock | ReleaseBlock 'h

definition run_cleanup :: "(block, 'h, 'c) cache option \<Rightarrow> 'h cleanup \<Rightarrow> 'k \<times> 'c \<Rightarrow> ('k \<times> 'c) option" where
  "run_cleanup block_cache f = (\<lambda>(k, c).
     (case f of
        DeleteBlock \<Rightarrow> Some (k, c)
      | ReleaseBlock h \<Rightarrow> do {
          cache \<leftarrow> block_cache;
          c \<leftarrow> ca_Release cache h c;
          Some (k, c) }))"

type_synonym 'h data_iterator = "block_iterator \<times> 'h cleanup list"

definition data_iterator_ops :: "(block, 'h, 'c) cache option \<Rightarrow> ('h data_iterator, 'k \<times> 'c) iterator" where
  "data_iterator_ops block_cache = with_cleanups block_iterator_ops (run_cleanup block_cache)"

section \<open>Opening a table\<close>

record table =
  ta_options :: options
  ta_cache_id :: u64
  ta_filter :: "filter_reader option"
  ta_filter_data :: "slice option"
  ta_metaindex_handle :: block_handle
  ta_index_block :: block

text \<open>The read options of \<open>Open\<close>, \<open>ReadMeta\<close> and \<open>ReadFilter\<close>.\<close>

definition open_read_options :: "options \<Rightarrow> read_options" where
  "open_read_options opt = (if op_paranoid_checks opt then ReadOptions\<lparr>ro_verify_checksums := True\<rparr> else ReadOptions)"

definition ReadFilter :: "'k random_access_file \<Rightarrow> slice \<Rightarrow> table \<Rightarrow> 'k \<Rightarrow> (table \<times> 'k) option" where
  "ReadFilter raf filter_handle_value t k =
     (let (s, filter_handle, v) = BlockHandle_DecodeFrom BlockHandle filter_handle_value in
      if \<not> ok s then Some (t, k)
      else do {
        ((s, block), k) \<leftarrow> ReadBlock raf (open_read_options (ta_options t)) filter_handle k;
        if \<not> ok s then Some (t, k)
        else do {
          let t = (if bc_heap_allocated block then t\<lparr>ta_filter_data := Some (bc_data block)\<rparr> else t);
          reader \<leftarrow> FilterBlockReader (bc_data block);
          Some (t\<lparr>ta_filter := Some reader\<rparr>, k) } })"

definition ReadMeta :: "'k random_access_file \<Rightarrow> footer \<Rightarrow> table \<Rightarrow> 'k \<Rightarrow> (table \<times> 'k) option" where
  "ReadMeta raf f t k =
     (case op_filter_policy (ta_options t) of
        None \<Rightarrow> Some (t, k)
      | Some policy \<Rightarrow> do {
          ((s, contents), k) \<leftarrow> ReadBlock raf (open_read_options (ta_options t)) (ft_metaindex_handle f) k;
          if \<not> ok s then Some (t, k)
          else do {
            meta \<leftarrow> Block_new (bc_data contents);
            iter \<leftarrow> Block_NewIterator BytewiseComparator meta;
            let key = bytes_of (''filter.'' @ fp_Name policy);
            (iter, k) \<leftarrow> it_Seek block_iterator_ops key iter k;
            found \<leftarrow> (if it_Valid (block_iterator_ops :: (block_iterator, 'k) iterator) iter
                      then map_option (\<lambda>k. k = key) (it_key (block_iterator_ops :: (block_iterator, 'k) iterator) iter)
                      else Some False);
            if found then do {
              filter_handle_value \<leftarrow> it_value (block_iterator_ops :: (block_iterator, 'k) iterator) iter;
              ReadFilter raf filter_handle_value t k }
            else Some (t, k) } })"

text \<open>\<open>Read\<close> may return less than a footer without an error; \<open>DecodeFrom\<close> then looks for the magic number
  outside of what was read.\<close>

definition Table_Open ::
  "(block, 'h, 'c) cache option \<Rightarrow> 'k random_access_file \<Rightarrow> options \<Rightarrow> u64 \<Rightarrow> 'k \<times> 'c \<Rightarrow>
   ((status \<times> table option) \<times> 'k \<times> 'c) option" where
  "Table_Open block_cache raf opt file_size = (\<lambda>(k, c).
     (if unat file_size < kEncodedLength
      then Some ((Corruption (bytes_of ''file is too short to be an sstable'') [], None), k, c)
      else do {
        ((s, footer_input, _), k) \<leftarrow> raf_Read raf (file_size - of_nat kEncodedLength) (of_nat kEncodedLength) k;
        if \<not> ok s then Some ((s, None), k, c)
        else do {
          (s, footer, _) \<leftarrow> Footer_DecodeFrom \<lparr>ft_metaindex_handle = BlockHandle, ft_index_handle = BlockHandle\<rparr> footer_input;
          if \<not> ok s then Some ((s, None), k, c)
          else do {
            ((s, index_block_contents), k) \<leftarrow> ReadBlock raf (open_read_options opt) (ft_index_handle footer) k;
            if \<not> ok s then Some ((s, None), k, c)
            else do {
              index_block \<leftarrow> Block_new (bc_data index_block_contents);
              let (cache_id, c) = (case block_cache of Some cache \<Rightarrow> ca_NewId cache c | None \<Rightarrow> (0, c));
              (t, k) \<leftarrow> ReadMeta raf footer
                \<lparr>ta_options = opt, ta_cache_id = cache_id, ta_filter = None, ta_filter_data = None,
                 ta_metaindex_handle = ft_metaindex_handle footer, ta_index_block = index_block\<rparr> k;
              Some ((s, Some t), k, c) } } } }))"

section \<open>Data blocks\<close>

definition block_cache_key :: "u64 \<Rightarrow> block_handle \<Rightarrow> slice" where
  "block_cache_key cache_id handle = EncodeFixed64 cache_id @ EncodeFixed64 (bh_offset handle)"

text \<open>Reading the block from the file; there is none when the status is not OK.\<close>

definition read_block ::
  "'k random_access_file \<Rightarrow> read_options \<Rightarrow> block_handle \<Rightarrow> 'k \<Rightarrow> ((status \<times> (block \<times> bool) option) \<times> 'k) option" where
  "read_block raf opt handle k = do {
     ((s, contents), k) \<leftarrow> ReadBlock raf opt handle k;
     if ok s then do {
       block \<leftarrow> Block_new (bc_data contents);
       Some ((s, Some (block, bc_cachable contents)), k) }
     else Some ((s, None), k) }"

text \<open>The block with its cache handle, if it is in the cache now.\<close>

definition cached_block ::
  "(block, 'h, 'c) cache \<Rightarrow> 'k random_access_file \<Rightarrow> table \<Rightarrow> read_options \<Rightarrow> block_handle \<Rightarrow> 'k \<times> 'c \<Rightarrow>
   ((status \<times> (block \<times> 'h option) option) \<times> 'k \<times> 'c) option" where
  "cached_block cache raf t opt handle = (\<lambda>(k, c).
     let key = block_cache_key (ta_cache_id t) handle in do {
       (cache_handle, c) \<leftarrow> ca_Lookup cache key c;
       (case cache_handle of
          Some h \<Rightarrow> do {
            block \<leftarrow> ca_Value cache h c;
            Some ((Status_OK, Some (block, Some h)), k, c) }
        | None \<Rightarrow> do {
            ((s, r), k) \<leftarrow> read_block raf opt handle k;
            (case r of
               None \<Rightarrow> Some ((s, None), k, c)
             | Some (block, cachable) \<Rightarrow>
                 if cachable \<and> ro_fill_cache opt then do {
                   (h, c) \<leftarrow> ca_Insert cache key block (of_nat (bl_size block)) c;
                   Some ((s, Some (block, Some h)), k, c) }
                 else Some ((s, Some (block, None)), k, c)) }) })"

definition BlockReader ::
  "(block, 'h, 'c) cache option \<Rightarrow> 'k random_access_file \<Rightarrow> table \<Rightarrow> read_options \<Rightarrow> slice \<Rightarrow> 'k \<times> 'c \<Rightarrow>
   ('h data_iterator \<times> 'k \<times> 'c) option" where
  "BlockReader block_cache raf t opt index_value = (\<lambda>(k, c).
     let (s, handle, input) = BlockHandle_DecodeFrom BlockHandle index_value in
     if \<not> ok s then Some ((Error_iterator s, []), k, c)
     else do {
       ((s, r), k, c) \<leftarrow>
         (case block_cache of
            Some cache \<Rightarrow> cached_block cache raf t opt handle (k, c)
          | None \<Rightarrow> do {
              ((s, r), k) \<leftarrow> read_block raf opt handle k;
              Some ((s, map_option (\<lambda>(block, _). (block, None)) r), k, c) });
       (case r of
          None \<Rightarrow> Some ((Error_iterator s, []), k, c)
        | Some (block, cache_handle) \<Rightarrow> do {
            iter \<leftarrow> Block_NewIterator (bo_comparator (ta_options t)) block;
            Some ((iter, RegisterCleanup (case cache_handle of None \<Rightarrow> DeleteBlock | Some h \<Rightarrow> ReleaseBlock h) []), k, c) }) })"

section \<open>Iterators and lookups\<close>

type_synonym 'h table_iterator = "(block_iterator, 'h data_iterator) two_level"

definition table_iterator_ops ::
  "(block, 'h, 'c) cache option \<Rightarrow> 'k random_access_file \<Rightarrow> table \<Rightarrow> read_options \<Rightarrow> ('h table_iterator, 'k \<times> 'c) iterator" where
  "table_iterator_ops block_cache raf t opt =
     two_level_ops block_iterator_ops (data_iterator_ops block_cache) (BlockReader block_cache raf t opt)"

definition Table_NewIterator :: "table \<Rightarrow> 'k \<times> 'c \<Rightarrow> ('h table_iterator \<times> 'k \<times> 'c) option" where
  "Table_NewIterator t w = do {
     index_iter \<leftarrow> Block_NewIterator (bo_comparator (ta_options t)) (ta_index_block t);
     TwoLevelIterator block_iterator_ops index_iter w }"

text \<open>Whether the filter rules the key out, for the block of an index entry. A filter block without a
  policy would be a call through a null pointer.\<close>

definition ruled_out :: "table \<Rightarrow> slice \<Rightarrow> slice \<Rightarrow> bool option" where
  "ruled_out t handle_value key =
     (case ta_filter t of
        None \<Rightarrow> Some False
      | Some reader \<Rightarrow>
          (let (s, handle, v) = BlockHandle_DecodeFrom BlockHandle handle_value in
           if ok s then do {
             policy \<leftarrow> op_filter_policy (ta_options t);
             map_option Not (FilterBlock_KeyMayMatch policy reader (bh_offset handle) key) }
           else Some False))"

text \<open>\<open>handle_result\<close> gets the entry found; \<open>arg\<close> is the state behind its first argument.\<close>

definition InternalGet ::
  "(block, 'h, 'c) cache option \<Rightarrow> 'k random_access_file \<Rightarrow> table \<Rightarrow> read_options \<Rightarrow> slice \<Rightarrow>
   (slice \<Rightarrow> slice \<Rightarrow> 'a \<Rightarrow> 'a option) \<Rightarrow> 'a \<Rightarrow> 'k \<times> 'c \<Rightarrow> ((status \<times> 'a) \<times> 'k \<times> 'c) option" where
  "InternalGet block_cache raf t opt key handle_result arg w =
     (let iops = (block_iterator_ops :: (block_iterator, 'k \<times> 'c) iterator);
          dops = data_iterator_ops block_cache
      in do {
        iiter \<leftarrow> Block_NewIterator (bo_comparator (ta_options t)) (ta_index_block t);
        (iiter, w) \<leftarrow> it_Seek iops key iiter w;
        ((s, arg), w) \<leftarrow>
          (if it_Valid iops iiter then do {
             handle_value \<leftarrow> it_value iops iiter;
             not_found \<leftarrow> ruled_out t handle_value key;
             if not_found then Some ((Status_OK, arg), w)
             else do {
               (block_iter, w) \<leftarrow> BlockReader block_cache raf t opt handle_value w;
               (block_iter, w) \<leftarrow> it_Seek dops key block_iter w;
               arg \<leftarrow> (if it_Valid dops block_iter then do {
                        found_key \<leftarrow> it_key dops block_iter;
                        found_value \<leftarrow> it_value dops block_iter;
                        handle_result found_key found_value arg }
                      else Some arg);
               s \<leftarrow> it_status dops block_iter;
               w \<leftarrow> it_delete dops block_iter w;
               Some ((s, arg), w) } }
           else Some ((Status_OK, arg), w));
        s \<leftarrow> (if ok s then it_status iops iiter else Some s);
        w \<leftarrow> it_delete iops iiter w;
        Some ((s, arg), w) })"

definition ApproximateOffsetOf :: "table \<Rightarrow> slice \<Rightarrow> u64 option" where
  "ApproximateOffsetOf t key =
     (let iops = (block_iterator_ops :: (block_iterator, unit) iterator) in do {
        index_iter \<leftarrow> Block_NewIterator (bo_comparator (ta_options t)) (ta_index_block t);
        (index_iter, _) \<leftarrow> it_Seek iops key index_iter ();
        if it_Valid iops index_iter then do {
          input \<leftarrow> it_value iops index_iter;
          let (s, handle, _) = BlockHandle_DecodeFrom BlockHandle input;
          Some (if ok s then bh_offset handle else bh_offset (ta_metaindex_handle t)) }
        else Some (bh_offset (ta_metaindex_handle t)) })"

end
