(* ===== verification/Ldb_Table_Builder.thy ===== *)
theory Ldb_Table_Builder
  imports Ldb_Format
begin

text \<open>
  The writer of a table file, \<open>table/table_builder.cc\<close>: data blocks, one index entry for every data
  block, whose key separates it from the next block, a filter block, a meta index with the place of
  the filter, the index block and the footer. The file is any \<open>WritableFile\<close>.
\<close>

text \<open>\<open>TableBuilder::Rep\<close>; the filter block has a policy of its own, from the options at its construction.\<close>

record 'f table_builder =
  tb_options :: options
  tb_index_block_options :: options
  tb_file :: 'f
  tb_offset :: u64
  tb_status :: status
  tb_data_block :: block_builder
  tb_index_block :: block_builder
  tb_last_key :: slice
  tb_num_entries :: int
  tb_closed :: bool
  tb_filter_block :: "(filter_policy \<times> filter_builder) option"
  tb_pending_index_entry :: bool
  tb_pending_handle :: block_handle

definition TableBuilder_new :: "options \<Rightarrow> 'f \<Rightarrow> 'f table_builder option" where
  "TableBuilder_new opt f = do {
     data_block \<leftarrow> BlockBuilder_new opt;
     index_block \<leftarrow> BlockBuilder_new (opt\<lparr>bo_block_restart_interval := 1\<rparr>);
     filter_block \<leftarrow>
       (case op_filter_policy opt of
          None \<Rightarrow> Some None
        | Some policy \<Rightarrow> map_option (\<lambda>fb. Some (policy, fb)) (FilterBlock_StartBlock policy 0 FilterBlockBuilder));
     Some \<lparr>tb_options = opt, tb_index_block_options = opt\<lparr>bo_block_restart_interval := 1\<rparr>, tb_file = f,
           tb_offset = 0, tb_status = Status_OK, tb_data_block = data_block, tb_index_block = index_block,
           tb_last_key = [], tb_num_entries = 0, tb_closed = False, tb_filter_block = filter_block,
           tb_pending_index_entry = False, tb_pending_handle = BlockHandle\<rparr> }"

text \<open>The destructor.\<close>

definition TableBuilder_delete :: "'f table_builder \<Rightarrow> unit option" where
  "TableBuilder_delete r = asserting (tb_closed r) (Some ())"

text \<open>\<open>same_comparator\<close> tells whether both options point to the same comparator.\<close>

definition ChangeOptions :: "bool \<Rightarrow> options \<Rightarrow> 'f table_builder \<Rightarrow> status \<times> 'f table_builder" where
  "ChangeOptions same_comparator opt r =
     (if \<not> same_comparator then (InvalidArgument (bytes_of ''changing comparator while building table'') [], r)
      else (Status_OK, r\<lparr>tb_options := opt, tb_index_block_options := opt\<lparr>bo_block_restart_interval := 1\<rparr>\<rparr>))"

definition TableBuilder_ok :: "'f table_builder \<Rightarrow> bool" where
  "TableBuilder_ok r = ok (tb_status r)"

definition WriteRawBlock ::
  "'f writable_file \<Rightarrow> slice \<Rightarrow> CompressionType \<Rightarrow> 'f table_builder \<Rightarrow> (block_handle \<times> 'f table_builder) option" where
  "WriteRawBlock dest block_contents type r =
     (let handle = \<lparr>bh_offset = tb_offset r, bh_size = of_nat (length block_contents)\<rparr> in do {
        (s, f) \<leftarrow> wf_Append dest block_contents (tb_file r);
        let r = r\<lparr>tb_status := s, tb_file := f\<rparr>;
        if ok (tb_status r) then
          let crc = crc32c_Value block_contents;
              crc = crc32c_Extend crc [compression_num type];
              trailer = compression_num type # EncodeFixed32 (Mask crc)
          in do {
            (s, f) \<leftarrow> wf_Append dest trailer (tb_file r);
            let r = r\<lparr>tb_status := s, tb_file := f\<rparr>;
            if ok (tb_status r)
            then Some (handle, r\<lparr>tb_offset := tb_offset r + of_nat (length block_contents) + of_nat kBlockTrailerSize\<rparr>)
            else Some (handle, r) }
        else Some (handle, r) })"

text \<open>The block builder is finished and reset.\<close>

definition WriteBlock ::
  "'f writable_file \<Rightarrow> block_builder \<Rightarrow> 'f table_builder \<Rightarrow> (block_handle \<times> block_builder \<times> 'f table_builder) option" where
  "WriteBlock dest block r =
     asserting (TableBuilder_ok r)
     (let (raw, block) = BlockBuilder_Finish block;
          (block_contents, type) =
            (case op_compression (tb_options r) of
               kNoCompression \<Rightarrow> (raw, kNoCompression)
             | kSnappyCompression \<Rightarrow>
                 (case Snappy_Compress raw of
                    Some compressed \<Rightarrow>
                      if length compressed < length raw - length raw div 8 then (compressed, kSnappyCompression)
                      else (raw, kNoCompression)
                  | None \<Rightarrow> (raw, kNoCompression)))
      in do {
        (handle, r) \<leftarrow> WriteRawBlock dest block_contents type r;
        Some (handle, BlockBuilder_Reset block, r) })"

definition TableBuilder_Flush :: "'f writable_file \<Rightarrow> 'f table_builder \<Rightarrow> 'f table_builder option" where
  "TableBuilder_Flush dest r =
     asserting (\<not> tb_closed r)
     (if \<not> TableBuilder_ok r then Some r
      else if bb_buffer (tb_data_block r) = [] then Some r
      else asserting (\<not> tb_pending_index_entry r) (do {
        (handle, data_block, r) \<leftarrow> WriteBlock dest (tb_data_block r) r;
        let r = r\<lparr>tb_data_block := data_block, tb_pending_handle := handle\<rparr>;
        r \<leftarrow> (if TableBuilder_ok r then do {
                let r = r\<lparr>tb_pending_index_entry := True\<rparr>;
                (s, f) \<leftarrow> wf_Flush dest (tb_file r);
                Some (r\<lparr>tb_status := s, tb_file := f\<rparr>) }
              else Some r);
        (case tb_filter_block r of
           None \<Rightarrow> Some r
         | Some (policy, fb) \<Rightarrow> do {
             fb \<leftarrow> FilterBlock_StartBlock policy (tb_offset r) fb;
             Some (r\<lparr>tb_filter_block := Some (policy, fb)\<rparr>) }) }))"

text \<open>The index entry of the block before, once the separator is known.\<close>

definition add_index_entry :: "slice \<Rightarrow> 'f table_builder \<Rightarrow> 'f table_builder option" where
  "add_index_entry sep r = do {
     handle_encoding \<leftarrow> BlockHandle_EncodeTo (tb_pending_handle r) [];
     index_block \<leftarrow> BlockBuilder_Add (tb_index_block_options r) sep handle_encoding (tb_index_block r);
     Some (r\<lparr>tb_last_key := sep, tb_index_block := index_block, tb_pending_index_entry := False\<rparr>) }"

definition TableBuilder_Add :: "'f writable_file \<Rightarrow> slice \<Rightarrow> slice \<Rightarrow> 'f table_builder \<Rightarrow> 'f table_builder option" where
  "TableBuilder_Add dest key val r =
     asserting (\<not> tb_closed r)
     (if \<not> TableBuilder_ok r then Some r
      else asserting (tb_num_entries r > 0 \<longrightarrow> cmp_Compare (bo_comparator (tb_options r)) key (tb_last_key r) > 0) (do {
        r \<leftarrow> (if tb_pending_index_entry r then
                asserting (bb_buffer (tb_data_block r) = [])
                (Option.bind (cmp_FindShortestSeparator (bo_comparator (tb_options r)) (tb_last_key r) key)
                  (\<lambda>sep. add_index_entry sep r))
              else Some r);
        let r = r\<lparr>tb_filter_block := map_option (map_prod id (FilterBlock_AddKey key)) (tb_filter_block r)\<rparr>;
        let r = r\<lparr>tb_last_key := key, tb_num_entries := tb_num_entries r + 1\<rparr>;
        data_block \<leftarrow> BlockBuilder_Add (tb_options r) key val (tb_data_block r);
        let r = r\<lparr>tb_data_block := data_block\<rparr>;
        let estimated_block_size = CurrentSizeEstimate (tb_data_block r);
        if estimated_block_size \<ge> op_block_size (tb_options r) then TableBuilder_Flush dest r else Some r }))"

text \<open>The four parts of \<open>Finish\<close>: an error in one of them skips those that follow. A null pointer stands
  where the options have lost the filter policy that the builder was made with.\<close>

definition finish_filter :: "'f writable_file \<Rightarrow> 'f table_builder \<Rightarrow> (block_handle \<times> 'f table_builder) option" where
  "finish_filter dest r =
     (case tb_filter_block r of
        Some (policy, fb) \<Rightarrow>
          if TableBuilder_ok r then do {
            (contents, fb) \<leftarrow> FilterBlock_Finish policy fb;
            WriteRawBlock dest contents kNoCompression (r\<lparr>tb_filter_block := Some (policy, fb)\<rparr>) }
          else Some (BlockHandle, r)
      | None \<Rightarrow> Some (BlockHandle, r))"

definition finish_metaindex ::
  "'f writable_file \<Rightarrow> block_handle \<Rightarrow> 'f table_builder \<Rightarrow> (block_handle \<times> 'f table_builder) option" where
  "finish_metaindex dest filter_block_handle r =
     (if TableBuilder_ok r then do {
        meta_index_block \<leftarrow> BlockBuilder_new (tb_options r);
        meta_index_block \<leftarrow>
          (case tb_filter_block r of
             Some _ \<Rightarrow> do {
               policy \<leftarrow> op_filter_policy (tb_options r);
               let key = bytes_of (''filter.'' @ fp_Name policy);
               handle_encoding \<leftarrow> BlockHandle_EncodeTo filter_block_handle [];
               BlockBuilder_Add (tb_options r) key handle_encoding meta_index_block }
           | None \<Rightarrow> Some meta_index_block);
        (handle, meta_index_block, r) \<leftarrow> WriteBlock dest meta_index_block r;
        Some (handle, r) }
      else Some (BlockHandle, r))"

definition finish_index :: "'f writable_file \<Rightarrow> 'f table_builder \<Rightarrow> (block_handle \<times> 'f table_builder) option" where
  "finish_index dest r =
     (if TableBuilder_ok r then do {
        r \<leftarrow> (if tb_pending_index_entry r then
                Option.bind (cmp_FindShortSuccessor (bo_comparator (tb_options r)) (tb_last_key r))
                  (\<lambda>succ. add_index_entry succ r)
              else Some r);
        (handle, index_block, r) \<leftarrow> WriteBlock dest (tb_index_block r) r;
        Some (handle, r\<lparr>tb_index_block := index_block\<rparr>) }
      else Some (BlockHandle, r))"

definition finish_footer ::
  "'f writable_file \<Rightarrow> block_handle \<Rightarrow> block_handle \<Rightarrow> 'f table_builder \<Rightarrow> 'f table_builder option" where
  "finish_footer dest metaindex_block_handle index_block_handle r =
     (if TableBuilder_ok r then do {
        footer_encoding \<leftarrow>
          Footer_EncodeTo \<lparr>ft_metaindex_handle = metaindex_block_handle, ft_index_handle = index_block_handle\<rparr> [];
        (s, f) \<leftarrow> wf_Append dest footer_encoding (tb_file r);
        let r = r\<lparr>tb_status := s, tb_file := f\<rparr>;
        if ok (tb_status r) then Some (r\<lparr>tb_offset := tb_offset r + of_nat (length footer_encoding)\<rparr>) else Some r }
      else Some r)"

definition TableBuilder_Finish :: "'f writable_file \<Rightarrow> 'f table_builder \<Rightarrow> (status \<times> 'f table_builder) option" where
  "TableBuilder_Finish dest r = do {
     r \<leftarrow> TableBuilder_Flush dest r;
     asserting (\<not> tb_closed r) (do {
       let r = r\<lparr>tb_closed := True\<rparr>;
       (filter_block_handle, r) \<leftarrow> finish_filter dest r;
       (metaindex_block_handle, r) \<leftarrow> finish_metaindex dest filter_block_handle r;
       (index_block_handle, r) \<leftarrow> finish_index dest r;
       r \<leftarrow> finish_footer dest metaindex_block_handle index_block_handle r;
       Some (tb_status r, r) }) }"

definition Abandon :: "'f table_builder \<Rightarrow> 'f table_builder option" where
  "Abandon r = asserting (\<not> tb_closed r) (Some (r\<lparr>tb_closed := True\<rparr>))"

definition NumEntries :: "'f table_builder \<Rightarrow> u64" where
  "NumEntries r = word_of_int (tb_num_entries r)"

definition FileSize :: "'f table_builder \<Rightarrow> u64" where
  "FileSize r = tb_offset r"

end
