(* ===== verification/Ldb_Table_Written.thy ===== *)
theory Ldb_Table_Written
  imports Ldb_Table_Builder
begin

text \<open>
  What the builder of a table leaves in the file: the layout of a table as a predicate on its bytes,
  and the proof that \<open>Add\<close> for ascending entries followed by \<open>Finish\<close> writes such a table, for every
  comparator, filter policy and file that keep their contracts.
\<close>

section \<open>The size of a block\<close>

text \<open>An upper bound of what an entry costs, in its data block and in the index.\<close>

definition entry_weight :: "entry \<Rightarrow> nat" where
  "entry_weight e = length (fst e) + length (snd e) + 100"

definition table_weight :: "entry list \<Rightarrow> nat" where
  "table_weight es = sum_list (map entry_weight es)"

lemma table_weight_simps [simp]:
  "table_weight [] = 0" "table_weight (e # es) = entry_weight e + table_weight es"
  "table_weight (es @ fs) = table_weight es + table_weight fs"
  by (simp_all add: table_weight_def)

lemma length_EncodeVarint32: "length (EncodeVarint32 v) \<le> 5"
  using varint_bytes_length_32 [OF unat_u32_less [of v]] by (simp add: EncodeVarint32_bytes)

lemma length_enc_entry: "length (enc_entry s e) \<le> length (fst e) + length (snd e) + 15"
  using length_EncodeVarint32 [of "of_nat s"] length_EncodeVarint32 [of "of_nat (length (fst e) - s)"]
    length_EncodeVarint32 [of "of_nat (length (snd e))"]
  unfolding enc_entry_def length_append length_drop by linarith

lemma length_entries_le: "k \<le> length es \<Longrightarrow> entry_offset n es k \<le> (\<Sum>e\<leftarrow>take k es. length (fst e) + length (snd e) + 15)"
proof (induction k)
  case (Suc k)
  then show ?case
    using entry_offset_split [of k "Suc k" n es] entries_from_Suc [of k "Suc k" n es]
      length_enc_entry [of "entry_shared n es k" "es ! k"]
    by (simp add: entry_bytes_def take_Suc_conv_app_nth)
qed (simp add: entry_offset_def)

lemma layout_weight: "length (block_layout n es) + 5 \<le> table_weight es + 13"
proof -
  have "(length es - 1) div n \<le> length es" by (rule order_trans [OF div_le_dividend]) simp
  moreover have "(\<Sum>e\<leftarrow>es. length (fst e) + length (snd e) + 15) + 4 * length es \<le> table_weight es"
    by (induction es) (simp_all add: entry_weight_def)
  ultimately show ?thesis using length_entries_le [of "length es" es n] by (simp add: length_layout restart_count_def)
qed

lemma table_weight_nonempty: "es \<noteq> [] \<Longrightarrow> 100 \<le> table_weight es"
  by (cases es) (simp_all add: entry_weight_def)

lemma layout_weight_nonempty: "es \<noteq> [] \<Longrightarrow> length (block_layout n es) + 5 \<le> table_weight es"
proof -
  assume "es \<noteq> []"
  then have "(length es - 1) div n + 1 \<le> length es"
    using div_le_dividend [of "length es - 1" n] by (cases es) auto
  moreover have "(\<Sum>e\<leftarrow>es. length (fst e) + length (snd e) + 15) + 13 * length es \<le> table_weight es"
    by (induction es) (simp_all add: entry_weight_def)
  moreover have "1 \<le> length es" using \<open>es \<noteq> []\<close> by (cases es) simp_all
  ultimately show ?thesis using length_entries_le [of "length es" es n] by (simp add: length_layout restart_count_def)
qed

lemma weight_member: "e \<in> set es \<Longrightarrow> entry_weight e \<le> table_weight es"
  by (induction es) auto

lemma block_fits_weight: "0 < n \<Longrightarrow> table_weight es < 2 ^ 31 \<Longrightarrow> block_fits n es"
  using layout_weight [of n es] weight_member [of _ es]
  by (fastforce simp: block_fits_def entry_weight_def)

section \<open>The layout of a table\<close>

text \<open>The data blocks of a table with their handles, and the keys of the index.\<close>

type_synonym parts = "(entry list \<times> block_handle) list"

definition index_entries :: "slice list \<Rightarrow> parts \<Rightarrow> entry list" where
  "index_entries seps parts = map (\<lambda>(sep, part). (sep, enc_handle (snd part))) (zip seps parts)"

definition part_entries :: "parts \<Rightarrow> entry list" where
  "part_entries parts = concat (map fst parts)"

text \<open>Every index key is not before the entries of its block, and before all that follow.\<close>

definition separated :: "(slice \<Rightarrow> slice \<Rightarrow> bool) \<Rightarrow> slice list \<Rightarrow> parts \<Rightarrow> entry list \<Rightarrow> bool" where
  "separated lt seps parts cur \<longleftrightarrow>
     (\<forall>i < length seps.
       (\<forall>e \<in> set (fst (parts ! i)). fst e = seps ! i \<or> lt (fst e) (seps ! i)) \<and>
       (\<forall>e \<in> set (part_entries (drop (Suc i) parts) @ cur). lt (seps ! i) (fst e)) \<and>
       length (seps ! i) \<le> length (fst (last (fst (parts ! i)))))"

definition filter_trace :: "parts \<Rightarrow> (u64 \<times> slice list) list" where
  "filter_trace parts = map (\<lambda>part. (bh_offset (snd part), map fst (fst part))) parts"

text \<open>A filter that may be asked about any key at the offset of its block.\<close>

definition filter_answers :: "filter_policy \<Rightarrow> (slice \<Rightarrow> bool) \<Rightarrow> filter_reader \<Rightarrow> parts \<Rightarrow> bool" where
  "filter_answers p fvalid r parts \<longleftrightarrow>
     (\<forall>part \<in> set parts. \<forall>e \<in> set (fst part). FilterBlock_KeyMayMatch p r (bh_offset (snd part)) (fst e) = Some True) \<and>
     (\<forall>off key. fvalid key \<longrightarrow> FilterBlock_KeyMayMatch p r off key \<noteq> None)"

definition filter_serves :: "filter_policy \<Rightarrow> (slice \<Rightarrow> bool) \<Rightarrow> slice \<Rightarrow> parts \<Rightarrow> bool" where
  "filter_serves p fvalid contents parts \<longleftrightarrow> (\<exists>r. FilterBlockReader contents = Some r \<and> filter_answers p fvalid r parts)"

definition meta_entries :: "filter_policy option \<Rightarrow> block_handle \<Rightarrow> entry list" where
  "meta_entries policy h =
     (case policy of None \<Rightarrow> [] | Some p \<Rightarrow> [(bytes_of (''filter.'' @ fp_Name p), enc_handle h)])"

definition table_file ::
  "(slice \<Rightarrow> bool) \<Rightarrow> (slice \<Rightarrow> bool) \<Rightarrow> (slice \<Rightarrow> slice \<Rightarrow> bool) \<Rightarrow> options \<Rightarrow> u8 list \<Rightarrow> slice list \<Rightarrow> parts \<Rightarrow> bool" where
  "table_file valid fvalid lt opt bytes seps parts \<longleftrightarrow>
     length bytes < 2 ^ 32 \<and> length seps = length parts \<and> separated lt seps parts [] \<and> list_all valid seps \<and>
     sorted_wrt (<) (map fst (filter_trace parts)) \<and>
     (\<forall>part \<in> set parts. fst part \<noteq> [] \<and> block_fits (nat (bo_block_restart_interval opt)) (fst part) \<and>
       stored bytes (snd part) (block_layout (nat (bo_block_restart_interval opt)) (fst part))) \<and>
     (\<exists>fh mh ih. block_fits 1 (index_entries seps parts) \<and> stored bytes ih (block_layout 1 (index_entries seps parts)) \<and>
       block_fits (nat (bo_block_restart_interval opt)) (meta_entries (op_filter_policy opt) fh) \<and>
       stored bytes mh (block_layout (nat (bo_block_restart_interval opt)) (meta_entries (op_filter_policy opt) fh)) \<and>
       (\<forall>p. op_filter_policy opt = Some p \<longrightarrow> (\<exists>contents. stored bytes fh contents \<and> filter_serves p fvalid contents parts)) \<and>
       (\<exists>before. bytes = before @ enc_footer \<lparr>ft_metaindex_handle = mh, ft_index_handle = ih\<rparr>))"

section \<open>Writing one block\<close>

lemma trailer_crc: "crc32c_Extend (crc32c_Value data) [b] = crc32c_Value (data @ [b])"
  by (simp add: crc32c_Extend_eq crc32c_Value_def crc32c_append)

context append_file
begin

lemma WriteRawBlock_writes:
  assumes "good (tb_file r)"
  shows "\<exists>f. WriteRawBlock wf data kNoCompression r =
      Some (\<lparr>bh_offset = tb_offset r, bh_size = of_nat (length data)\<rparr>,
        r\<lparr>tb_status := Status_OK, tb_file := f, tb_offset := tb_offset r + of_nat (length data) + 5\<rparr>) \<and>
    good f \<and> contents f = contents (tb_file r) @ stored_block data"
proof -
  obtain f1 where 1: "wf_Append wf data (tb_file r) = Some (Status_OK, f1)" "good f1" "contents f1 = contents (tb_file r) @ data"
    using append [OF assms] by blast
  let ?t = "compression_num kNoCompression # EncodeFixed32 (Mask (crc32c_Value (data @ [compression_num kNoCompression])))"
  obtain f2 where 2: "wf_Append wf ?t f1 = Some (Status_OK, f2)" "good f2" "contents f2 = contents f1 @ ?t"
    using append [OF 1(2)] by blast
  show ?thesis
    using 1 2 unfolding WriteRawBlock_def Let_def
    by (intro exI [of _ f2]) (simp add: trailer_crc ok_def Status_OK_def kBlockTrailerSize_def stored_block_def)
qed

lemma WriteBlock_writes:
  assumes "good (tb_file r)" "tb_status r = Status_OK" "built bopt b es" "bo_block_restart_interval bopt \<ge> 1"
  shows "\<exists>f b'. WriteBlock wf b r =
      Some (\<lparr>bh_offset = tb_offset r, bh_size = of_nat (length (block_layout (nat (bo_block_restart_interval bopt)) es))\<rparr>, b',
        r\<lparr>tb_status := Status_OK, tb_file := f,
          tb_offset := tb_offset r + of_nat (length (block_layout (nat (bo_block_restart_interval bopt)) es)) + 5\<rparr>) \<and>
    built bopt b' [] \<and> good f \<and> contents f = contents (tb_file r) @ stored_block (block_layout (nat (bo_block_restart_interval bopt)) es)"
proof -
  let ?data = "block_layout (nat (bo_block_restart_interval bopt)) es"
  obtain b1 where b1: "BlockBuilder_Finish b = (?data, b1)" using Finish_layout [OF assms(3)] by blast
  have "built bopt (BlockBuilder_Reset b1) []" using built_new [OF assms(4), of b1] by auto
  moreover have "TableBuilder_ok r" using assms(2) by (simp add: TableBuilder_ok_def ok_def Status_OK_def)
  ultimately show ?thesis
    using WriteRawBlock_writes [OF assms(1), of ?data] b1
    by (auto simp: WriteBlock_def Snappy_Compress_def split: CompressionType.splits)
qed

end

section \<open>The builder at work\<close>

lemma part_entries_simps [simp]:
  "part_entries [] = []" "part_entries (part # parts) = fst part @ part_entries parts"
  "part_entries (parts @ parts') = part_entries parts @ part_entries parts'"
  by (simp_all add: part_entries_def)

lemma index_entries_snoc:
  "length parts = Suc (length seps) \<Longrightarrow>
     index_entries (seps @ [sep]) parts = index_entries seps parts @ [(sep, enc_handle (snd (last parts)))]"
  by (cases parts rule: rev_cases) (simp_all add: index_entries_def zip_append2)

lemma index_entries_more: "length seps = length parts \<Longrightarrow> index_entries seps (parts @ [part]) = index_entries seps parts"
  by (simp add: index_entries_def zip_append2)

lemma separated_flush:
  assumes "separated lt seps parts cur" "length seps = length parts"
  shows "separated lt seps (parts @ [(cur, h)]) []"
  using assms by (auto simp: separated_def nth_append)

lemma unat_offset_add: "unat (off :: u64) + m + 5 < 2 ^ 64 \<Longrightarrow> unat (off + of_nat m + 5) = unat off + m + 5"
  using uint64_small [of "unat off + m + 5"] by simp

text \<open>The comparator, the file and the filter policy with their contracts, and the options.\<close>

locale table_writer = comparator_ok c valid less + append_file dest contents good
  for c valid less and dest :: "'f writable_file" and contents good +
  fixes opt :: options
    and fvalid :: "slice \<Rightarrow> bool"
    and B :: nat
  assumes opt: "bo_comparator opt = c" "bo_block_restart_interval opt \<ge> 1"
    and policy: "op_filter_policy opt = Some p \<Longrightarrow>
      filter_policy_total p fvalid less \<and> policy_size p B \<and> length (fp_Name p) < 2 ^ 20"
begin

definition filter_state :: "'f table_builder \<Rightarrow> (u64 \<times> slice list) list \<Rightarrow> bool" where
  "filter_state r trace \<longleftrightarrow>
     (case tb_filter_block r of
        None \<Rightarrow> op_filter_policy opt = None
      | Some (p, fb) \<Rightarrow> op_filter_policy opt = Some p \<and> build_filters p trace FilterBlockBuilder = Some fb)"

definition writing :: "slice list \<Rightarrow> parts \<Rightarrow> entry list \<Rightarrow> 'f table_builder \<Rightarrow> bool" where
  "writing seps parts cur r \<longleftrightarrow>
     tb_status r = Status_OK \<and> \<not> tb_closed r \<and> tb_options r = opt \<and>
     tb_index_block_options r = opt\<lparr>bo_block_restart_interval := 1\<rparr> \<and> good (tb_file r) \<and>
     built opt (tb_data_block r) cur \<and>
     built (opt\<lparr>bo_block_restart_interval := 1\<rparr>) (tb_index_block r) (index_entries seps parts) \<and>
     unat (tb_offset r) = length (contents (tb_file r)) \<and>
     length (contents (tb_file r)) \<le> table_weight (part_entries parts) \<and>
     sorted_wrt (<) (map fst (filter_trace parts) @ [tb_offset r]) \<and>
     (\<forall>part \<in> set parts. fst part \<noteq> [] \<and> block_fits (nat (bo_block_restart_interval opt)) (fst part) \<and>
       handle_set (snd part) \<and>
       stored (contents (tb_file r)) (snd part) (block_layout (nat (bo_block_restart_interval opt)) (fst part))) \<and>
     separated less seps parts cur \<and> list_all valid seps \<and>
     tb_num_entries r = int (length (part_entries parts @ cur)) \<and>
     (part_entries parts @ cur \<noteq> [] \<longrightarrow> tb_last_key r = fst (last (part_entries parts @ cur))) \<and>
     (if tb_pending_index_entry r
      then cur = [] \<and> length parts = Suc (length seps) \<and> tb_pending_handle r = snd (last parts)
      else length parts = length seps \<and> (cur = [] \<longrightarrow> parts = [])) \<and>
     filter_state r (filter_trace parts @ [(tb_offset r, map fst cur)])"

lemma interval_pos: "0 < nat (bo_block_restart_interval opt)"
  using opt(2) by simp

lemma filter_block:
  assumes "op_filter_policy opt = Some p" "policy_keys fvalid less (concat (map snd trace))" "sorted_wrt (\<le>) (map fst trace)"
  shows "\<exists>b contents b'. build_filters p trace FilterBlockBuilder = Some b \<and> FilterBlock_Finish p b = Some (contents, b') \<and>
    (length contents < 2 ^ 32 \<longrightarrow>
      (\<exists>r. FilterBlockReader contents = Some r \<and>
        (\<forall>blk \<in> set trace. \<forall>key \<in> set (snd blk). FilterBlock_KeyMayMatch p r (fst blk) key = Some True) \<and>
        (\<forall>off key. fvalid key \<longrightarrow> FilterBlock_KeyMayMatch p r off key \<noteq> None)))"
proof -
  have p: "filter_policy_total p fvalid less" using policy [OF assms(1)] by blast
  from filter_policy_ok.filter_block_sound [OF filter_policy_total.axioms(1) [OF p] assms(2,3)] p show ?thesis by blast
qed

text \<open>The keys of the trace are those of the parts.\<close>

lemma trace_keys:
  "concat (map snd (filter_trace parts @ [(off, ks)])) = map fst (part_entries parts) @ ks"
  by (simp add: filter_trace_def part_entries_def map_concat comp_def)

lemma filter_flush:
  assumes "filter_state r trace" "policy_keys fvalid less (concat (map snd trace))"
    and "sorted_wrt (\<le>) (map fst trace @ [off])"
  shows "\<exists>fb. (case tb_filter_block r of
        None \<Rightarrow> Some r
      | Some (policy, fb) \<Rightarrow> do {
          fb \<leftarrow> FilterBlock_StartBlock policy off fb;
          Some (r\<lparr>tb_filter_block := Some (policy, fb)\<rparr>) }) = Some (r\<lparr>tb_filter_block := fb\<rparr>) \<and>
    filter_state (r\<lparr>tb_filter_block := fb\<rparr>) (trace @ [(off, [])])"
proof (cases "tb_filter_block r")
  case None
  with assms(1) show ?thesis by (auto simp: filter_state_def intro!: exI [of _ None])
next
  case (Some pfb)
  obtain p fb where pfb: "pfb = (p, fb)" by fastforce
  from assms(1) Some pfb have p: "op_filter_policy opt = Some p" "build_filters p trace FilterBlockBuilder = Some fb"
    by (simp_all add: filter_state_def)
  from policy [OF p(1)] filter_block [OF p(1), of "trace @ [(off, [])]"] assms(2,3) p(2)
  obtain fb' where "FilterBlock_StartBlock p off fb = Some fb'" by (auto simp: build_filters_block)
  with Some pfb p show ?thesis by (auto simp: filter_state_def build_filters_block intro!: exI [of _ "Some (p, fb')"])
qed

lemma Flush_writes:
  assumes "writing seps parts cur r" "cur \<noteq> []" "table_weight (part_entries parts @ cur) < 2 ^ 30"
    and "policy_keys fvalid less (map fst (part_entries parts @ cur))"
  shows "\<exists>r' h. TableBuilder_Flush dest r = Some r' \<and> writing seps (parts @ [(cur, h)]) [] r'"
proof -
  let ?n = "nat (bo_block_restart_interval opt)"
  define data where "data = block_layout ?n cur"
  define h where "h = \<lparr>bh_offset = tb_offset r, bh_size = of_nat (length data)\<rparr>"
  define off where "off = tb_offset r + of_nat (length data) + 5"
  from assms(1,2) have w: "tb_status r = Status_OK" "\<not> tb_closed r" "good (tb_file r)" "built opt (tb_data_block r) cur"
    "unat (tb_offset r) = length (contents (tb_file r))" "length (contents (tb_file r)) \<le> table_weight (part_entries parts)"
    "\<not> tb_pending_index_entry r" "length parts = length seps" "tb_options r = opt"
    "filter_state r (filter_trace parts @ [(tb_offset r, map fst cur)])" "sorted_wrt (<) (map fst (filter_trace parts) @ [tb_offset r])"
    by (auto simp: writing_def split: if_splits)
  have data: "length data + 5 \<le> table_weight cur" unfolding data_def by (rule layout_weight_nonempty [OF assms(2)])
  have buffer: "bb_buffer (tb_data_block r) \<noteq> []"
    using w(4) assms(2) entry_offset_less_iff [of ?n cur 0 "length cur"]
    by (auto simp: built_def Let_def entry_offset_def)
  obtain f b where wb: "WriteBlock dest (tb_data_block r) r = Some (h, b, r\<lparr>tb_status := Status_OK, tb_file := f, tb_offset := off\<rparr>)"
    "built opt b []" "good f" "contents f = contents (tb_file r) @ stored_block data"
    using WriteBlock_writes [OF w(3,1,4) opt(2)] unfolding data_def h_def off_def by blast
  obtain f' where f': "wf_Flush dest f = Some (Status_OK, f')" "good f'" "contents f' = contents f" using flush [OF wb(3)] by blast
  have small: "unat (tb_offset r) + length data + 5 < 2 ^ 30" using data w(5,6) assms(3) by simp
  then have size: "unat (bh_size h) = length data" "unat off = length (contents f')"
    using w(5) uint64_small [of "length data"] unat_offset_add [of "tb_offset r" "length data"]
    by (simp_all add: wb(4) f'(3) h_def off_def)
  then have less: "tb_offset r < off" by (simp add: word_less_nat_alt wb(4) w(5) f'(3))
  define trace where "trace = filter_trace parts @ [(tb_offset r, map fst cur)]"
  define r1 where "r1 = r\<lparr>tb_offset := off, tb_data_block := b, tb_pending_handle := h, tb_pending_index_entry := True,
    tb_status := Status_OK, tb_file := f'\<rparr>"
  have "filter_state r1 trace" using w(10) by (simp add: filter_state_def r1_def trace_def)
  moreover have "policy_keys fvalid less (concat (map snd trace))"
    using assms(4) unfolding trace_def trace_keys by simp
  moreover have sorted: "sorted_wrt (<) (map fst trace @ [off])"
    using w(11) less by (auto simp: sorted_wrt_append trace_def)
  ultimately obtain fb where fb: "(case tb_filter_block r1 of
        None \<Rightarrow> Some r1
      | Some (policy, fb) \<Rightarrow> do {
          fb \<leftarrow> FilterBlock_StartBlock policy off fb;
          Some (r1\<lparr>tb_filter_block := Some (policy, fb)\<rparr>) }) = Some (r1\<lparr>tb_filter_block := fb\<rparr>)"
    "filter_state (r1\<lparr>tb_filter_block := fb\<rparr>) (trace @ [(off, [])])"
    using filter_flush [of r1 trace off] strict_sorted_imp_sorted [OF sorted] by blast
  have "TableBuilder_Flush dest r = (case tb_filter_block r1 of
        None \<Rightarrow> Some r1
      | Some (policy, fb) \<Rightarrow> do {
          fb \<leftarrow> FilterBlock_StartBlock policy off fb;
          Some (r1\<lparr>tb_filter_block := Some (policy, fb)\<rparr>) })"
    using w(1,2,7) buffer wb(1) f'(1)
    by (simp add: TableBuilder_Flush_def TableBuilder_ok_def ok_def Status_OK_def Let_def r1_def split: option.split)
  then have "TableBuilder_Flush dest r = Some (r1\<lparr>tb_filter_block := fb\<rparr>)" unfolding fb(1) .
  moreover have "writing seps (parts @ [(cur, h)]) [] (r1\<lparr>tb_filter_block := fb\<rparr>)"
  proof -
    have "stored (contents f') (snd part) (block_layout ?n (fst part))" if "part \<in> set parts" for part
      using that assms(1) stored_append by (simp add: f'(3) wb(4) writing_def)
    moreover have "stored (contents f') h data" unfolding f'(3) wb(4)
      by (rule stored_end) (use w(5) size in \<open>simp_all add: h_def\<close>)
    moreover have "block_fits ?n cur" by (rule block_fits_weight [OF interval_pos]) (use assms(3) in simp)
    moreover have "handle_set h" by (rule handle_set_small) (use small size(1) in \<open>simp_all add: h_def\<close>)
    moreover have "length (contents f') \<le> table_weight (part_entries (parts @ [(cur, h)]))"
      using w(6) data by (simp add: f'(3) wb(4))
    moreover have "filter_trace (parts @ [(cur, h)]) = trace" by (simp add: filter_trace_def trace_def h_def)
    ultimately show ?thesis
      using assms(1) w fb(2) sorted f' size(2) wb(2) separated_flush [of less seps parts cur h] assms(2)
      by (simp add: writing_def index_entries_more r1_def data_def)
  qed
  ultimately show ?thesis by blast
qed

lemma add_index_entry_writes:
  assumes "writing seps parts [] r" "tb_pending_index_entry r" "valid sep"
    and "\<forall>e \<in> set (fst (last parts)). fst e = sep \<or> less (fst e) sep"
  shows "\<exists>ib. add_index_entry sep r =
      Some (r\<lparr>tb_last_key := sep, tb_index_block := ib, tb_pending_index_entry := False\<rparr>) \<and>
    built (opt\<lparr>bo_block_restart_interval := 1\<rparr>) ib (index_entries (seps @ [sep]) parts)"
proof -
  from assms(1,2) have w: "length parts = Suc (length seps)" "tb_pending_handle r = snd (last parts)"
    "separated less seps parts []" "list_all valid seps" "tb_index_block_options r = opt\<lparr>bo_block_restart_interval := 1\<rparr>"
    "built (opt\<lparr>bo_block_restart_interval := 1\<rparr>) (tb_index_block r) (index_entries seps parts)"
    by (simp_all add: writing_def)
  obtain ps part where parts: "parts = ps @ [part]" "length ps = length seps" using w(1) by (cases parts rule: rev_cases) auto
  have part: "fst part \<noteq> []" "handle_set (snd part)" using assms(1) parts by (auto simp: writing_def)
  have index: "index_entries seps parts = [] \<or> cmp_Compare c sep (fst (last (index_entries seps parts))) > 0"
  proof (cases seps rule: rev_cases)
    case (snoc ss s)
    obtain e where e: "e \<in> set (fst part)" using part(1) by (cases "fst part") auto
    have "less s (fst e)" using w(3) e snoc parts by (auto simp: separated_def nth_append)
    moreover have "fst e = sep \<or> less (fst e) sep" using assms(4) e parts by simp
    ultimately have "less s sep" using less_trans by metis
    moreover have "fst (last (index_entries seps parts)) = s"
      using parts snoc by (cases ps rule: rev_cases) (simp_all add: index_entries_def zip_append2)
    ultimately show ?thesis using compare_greater [of sep s] assms(3) w(4) snoc by simp
  qed (simp add: index_entries_def)
  have "BlockHandle_EncodeTo (tb_pending_handle r) [] = Some (enc_handle (snd part))"
    using part(2) parts w(2) by (simp add: BlockHandle_Encode)
  then show ?thesis
    using BlockBuilder_Add_built [OF _ w(6), of sep "enc_handle (snd part)"] index w(1,5) parts opt(1)
    by (auto simp: add_index_entry_def index_entries_snoc)
qed

lemma separated_snoc:
  assumes "separated less seps parts []" "length parts = Suc (length seps)" "list_all valid seps"
    and "\<forall>e \<in> set (fst (last parts)). fst e = sep \<or> less (fst e) sep" "fst (last parts) \<noteq> []"
    and "length sep \<le> length (fst (last (fst (last parts))))" "less sep key"
  shows "separated less (seps @ [sep]) parts [(key, val)]"
proof -
  obtain ps part where parts: "parts = ps @ [part]" "length ps = length seps"
    using assms(2) by (cases parts rule: rev_cases) auto
  obtain e where e: "e \<in> set (fst part)" using assms(5) parts by (cases "fst part") auto
  have "less (seps ! i) key" if "i < length seps" for i
  proof -
    have "less (seps ! i) (fst e)" using assms(1) that e parts by (auto simp: separated_def)
    moreover have "fst e = sep \<or> less (fst e) sep" using assms(4) e parts by simp
    ultimately show ?thesis using less_trans assms(7) by metis
  qed
  then show ?thesis using assms parts by (auto simp: separated_def nth_append less_Suc_eq)
qed

lemma last_part_entries: "parts \<noteq> [] \<Longrightarrow> fst (last parts) \<noteq> [] \<Longrightarrow> last (part_entries parts) = last (fst (last parts))"
  by (cases parts rule: rev_cases) simp_all

text \<open>The index entry that waits is written when the next key is known.\<close>

lemma last_block_below:
  assumes "sorted_wrt less (map fst (part_entries parts @ es))" "parts \<noteq> []"
    and "sep = fst (last (fst (last parts))) \<or> less (fst (last (fst (last parts)))) sep"
  shows "\<forall>e \<in> set (fst (last parts)). fst e = sep \<or> less (fst e) sep"
proof
  fix e assume "e \<in> set (fst (last parts))"
  moreover have "sorted_wrt less (map fst (fst (last parts)))"
    using assms(1,2) by (cases parts rule: rev_cases) (auto simp: sorted_wrt_append)
  ultimately have "e = last (fst (last parts)) \<or> less (fst e) (fst (last (fst (last parts))))"
    by (cases "fst (last parts)" rule: rev_cases) (auto simp: sorted_wrt_append)
  with assms(3) show "fst e = sep \<or> less (fst e) sep"
    using less_trans [of "fst e" "fst (last (fst (last parts)))" sep] by auto
qed

lemma separator_written:
  assumes "writing seps parts cur r" "sorted_wrt less (map fst (part_entries parts @ cur @ [(key, val)]))"
    and "list_all valid (map fst (part_entries parts @ cur @ [(key, val)]))"
  shows "\<exists>seps' ib last_key. (if tb_pending_index_entry r then
          asserting (bb_buffer (tb_data_block r) = [])
          (Option.bind (cmp_FindShortestSeparator (bo_comparator (tb_options r)) (tb_last_key r) key)
            (\<lambda>sep. add_index_entry sep r))
        else Some r) = Some (r\<lparr>tb_last_key := last_key, tb_index_block := ib, tb_pending_index_entry := False\<rparr>) \<and>
      built (opt\<lparr>bo_block_restart_interval := 1\<rparr>) ib (index_entries seps' parts) \<and>
      separated less seps' parts (cur @ [(key, val)]) \<and> list_all valid seps' \<and> length seps' = length parts"
proof (cases "tb_pending_index_entry r")
  case True
  note inv = assms(1) [unfolded writing_def]
  from inv True have c: "cur = []" "length parts = Suc (length seps)" by (simp_all only: if_True)
  then have p: "parts \<noteq> []" by auto
  then have "fst (last parts) \<noteq> []" using inv last_in_set [of parts] by blast
  with p have "part_entries parts \<noteq> []" by (cases parts rule: rev_cases) simp_all
  with inv c p \<open>fst (last parts) \<noteq> []\<close> have w: "cur = []" "length parts = Suc (length seps)"
    "tb_last_key r = fst (last (part_entries parts))" "separated less seps parts []" "list_all valid seps"
    "tb_options r = opt" "built opt (tb_data_block r) []" "parts \<noteq> []" "fst (last parts) \<noteq> []"
    by simp_all
  let ?e = "last (fst (last parts))"
  have e: "?e \<in> set (part_entries parts)" "tb_last_key r = fst ?e"
    using w last_part_entries [OF w(8,9)] by (auto simp: part_entries_def intro!: bexI [of _ "last parts"])
  then have less: "less (fst ?e) key" "valid (fst ?e)" "valid key" using assms(2,3) by (auto simp: sorted_wrt_append list_all_iff)
  obtain sep where sep: "cmp_FindShortestSeparator c (fst ?e) key = Some sep" "valid sep" "sep = fst ?e \<or> less (fst ?e) sep"
    "less sep key" "length sep \<le> length (fst ?e)" using separator [OF less(2,3,1)] by blast
  note le = last_block_below [OF assms(2) w(8) sep(3)]
  have buffer: "bb_buffer (tb_data_block r) = []" using w(7) by (simp add: built_def Let_def)
  obtain ib where ib: "add_index_entry sep r = Some (r\<lparr>tb_last_key := sep, tb_index_block := ib, tb_pending_index_entry := False\<rparr>)"
    "built (opt\<lparr>bo_block_restart_interval := 1\<rparr>) ib (index_entries (seps @ [sep]) parts)"
    using add_index_entry_writes [OF assms(1) [unfolded w(1)] True sep(2) le] by blast
  have "separated less (seps @ [sep]) parts (cur @ [(key, val)])"
    using separated_snoc [OF w(4,2,5) le w(9) sep(5,4)] w(1) by simp
  with ib buffer True w(2,5,6) sep(1,2) e(2) opt(1) show ?thesis
    by (intro exI [of _ "seps @ [sep]"] exI [of _ ib] exI [of _ sep]) simp
next
  case False
  with assms(1) have w: "length parts = length seps" "cur = [] \<longrightarrow> parts = []" "separated less seps parts cur"
    "list_all valid seps" "built (opt\<lparr>bo_block_restart_interval := 1\<rparr>) (tb_index_block r) (index_entries seps parts)"
    by (auto simp: writing_def)
  have "less (seps ! i) key" if i: "i < length seps" for i
  proof -
    obtain e where e: "e \<in> set cur" using w(1,2) i by (cases cur) auto
    then have "less (seps ! i) (fst e)" "less (fst e) key" using w(3) i assms(2) by (auto simp: separated_def sorted_wrt_append)
    then show ?thesis by (rule less_trans)
  qed
  then have "separated less seps parts (cur @ [(key, val)])" using w(3) by (auto simp: separated_def)
  moreover have "r = r\<lparr>tb_last_key := tb_last_key r, tb_index_block := tb_index_block r, tb_pending_index_entry := False\<rparr>"
    using False by simp
  ultimately show ?thesis using False w by (metis (no_types))
qed

lemma filter_key:
  assumes "filter_state r (trace @ [(off, ks)])"
  shows "filter_state (r\<lparr>tb_filter_block := map_option (map_prod id (FilterBlock_AddKey key)) (tb_filter_block r)\<rparr>)
    (trace @ [(off, ks @ [key])])"
  using assms build_filters_key by (auto simp: filter_state_def split: option.splits)

lemma Add_writes:
  assumes "writing seps parts cur r" "sorted_wrt less (map fst (part_entries parts @ cur @ [(key, val)]))"
    and "list_all valid (map fst (part_entries parts @ cur @ [(key, val)]))"
    and "policy_keys fvalid less (map fst (part_entries parts @ cur @ [(key, val)]))"
    and "table_weight (part_entries parts @ cur @ [(key, val)]) < 2 ^ 30"
  shows "\<exists>r' seps' parts' cur'. TableBuilder_Add dest key val r = Some r' \<and> writing seps' parts' cur' r' \<and>
    part_entries parts' @ cur' = part_entries parts @ cur @ [(key, val)]"
proof -
  note inv = assms(1) [unfolded writing_def]
  obtain seps' ib lk where i: "(if tb_pending_index_entry r then
        asserting (bb_buffer (tb_data_block r) = [])
        (Option.bind (cmp_FindShortestSeparator (bo_comparator (tb_options r)) (tb_last_key r) key)
          (\<lambda>sep. add_index_entry sep r))
      else Some r) = Some (r\<lparr>tb_last_key := lk, tb_index_block := ib, tb_pending_index_entry := False\<rparr>)"
    "built (opt\<lparr>bo_block_restart_interval := 1\<rparr>) ib (index_entries seps' parts)"
    "separated less seps' parts (cur @ [(key, val)])" "list_all valid seps'" "length seps' = length parts"
    using separator_written [OF assms(1-3)] by blast
  have "cur = [] \<or> cmp_Compare (bo_comparator opt) key (fst (last cur)) > 0"
    using assms(2,3) opt(1) by (cases cur rule: rev_cases) (auto simp: sorted_wrt_append compare_greater)
  then obtain db where db: "BlockBuilder_Add opt key val (tb_data_block r) = Some db" "built opt db (cur @ [(key, val)])"
    using BlockBuilder_Add_built [OF opt(2)] inv by blast
  have order: "tb_num_entries r > 0 \<longrightarrow> cmp_Compare (bo_comparator (tb_options r)) key (tb_last_key r) > 0"
  proof
    assume "tb_num_entries r > 0"
    then have ne: "part_entries parts @ cur \<noteq> []" using inv by auto
    then have "last (part_entries parts @ cur) \<in> set (part_entries parts @ cur)" by (rule last_in_set)
    then have "less (fst (last (part_entries parts @ cur))) key" "valid (fst (last (part_entries parts @ cur)))" "valid key"
      using assms(2,3) unfolding append_assoc [symmetric] by (auto simp: sorted_wrt_append list_all_iff simp del: append_assoc)
    then show "cmp_Compare (bo_comparator (tb_options r)) key (tb_last_key r) > 0"
      using inv ne opt(1) by (simp add: compare_greater)
  qed
  define r1 where "r1 = r\<lparr>tb_index_block := ib, tb_pending_index_entry := False,
    tb_filter_block := map_option (map_prod id (FilterBlock_AddKey key)) (tb_filter_block r),
    tb_last_key := key, tb_num_entries := tb_num_entries r + 1, tb_data_block := db\<rparr>"
  have "filter_state r1 (filter_trace parts @ [(tb_offset r, map fst cur @ [key])])"
    using filter_key [of r "filter_trace parts" "tb_offset r" "map fst cur" key] inv
    by (simp add: filter_state_def r1_def)
  then have w: "writing seps' parts (cur @ [(key, val)]) r1"
    using inv i db(2) by (simp add: writing_def r1_def)
  have add: "TableBuilder_Add dest key val r =
      (if CurrentSizeEstimate db \<ge> op_block_size opt then TableBuilder_Flush dest r1 else Some r1)"
    using inv order i(1) db(1)
    by (simp add: TableBuilder_Add_def TableBuilder_ok_def ok_def Status_OK_def Let_def r1_def)
  show ?thesis
  proof (cases "CurrentSizeEstimate db \<ge> op_block_size opt")
    case True
    with Flush_writes [OF w] assms(4,5) add obtain r' h where
      "TableBuilder_Add dest key val r = Some r'" "writing seps' (parts @ [(cur @ [(key, val)], h)]) [] r'" by auto
    then show ?thesis by (intro exI [of _ r'] exI [of _ seps'] exI [of _ "parts @ [(cur @ [(key, val)], h)]"] exI [of _ "[]"]) simp
  next
    case False
    with add w show ?thesis by (intro exI [of _ r1] exI [of _ seps'] exI [of _ parts] exI [of _ "cur @ [(key, val)]"]) simp
  qed
qed

end

text \<open>Adding a list of entries.\<close>

primrec TableBuilder_Adds :: "'f writable_file \<Rightarrow> entry list \<Rightarrow> 'f table_builder \<Rightarrow> 'f table_builder option" where
  "TableBuilder_Adds dest [] r = Some r"
| "TableBuilder_Adds dest (e # es) r = Option.bind (TableBuilder_Add dest (fst e) (snd e) r) (TableBuilder_Adds dest es)"

context table_writer
begin

lemma new_writing:
  assumes "good f" "contents f = []"
  shows "\<exists>r. TableBuilder_new opt f = Some r \<and> writing [] [] [] r"
proof -
  let ?iopt = "opt\<lparr>bo_block_restart_interval := 1\<rparr>"
  obtain b where b: "BlockBuilder_new opt = Some b" "built opt b []" using built_new [OF opt(2)] by blast
  obtain ib where ib: "BlockBuilder_new ?iopt = Some ib" "built ?iopt ib []" using built_new [of ?iopt] by auto
  obtain fb where fb: "(case op_filter_policy opt of
        None \<Rightarrow> Some None
      | Some policy \<Rightarrow> map_option (\<lambda>fb. Some (policy, fb)) (FilterBlock_StartBlock policy 0 FilterBlockBuilder)) = Some fb"
    "case fb of None \<Rightarrow> op_filter_policy opt = None
      | Some (p, fb) \<Rightarrow> op_filter_policy opt = Some p \<and> build_filters p [(0, [])] FilterBlockBuilder = Some fb"
    by (cases "op_filter_policy opt")
      (auto simp: FilterBlock_StartBlock_def FilterBlockBuilder_def Let_def start_block_loop.simps)
  have "separated less [] [] []" by (simp add: separated_def)
  then show ?thesis
    using assms b ib fb by (cases fb) (auto simp: TableBuilder_new_def writing_def filter_state_def filter_trace_def index_entries_def)
qed

lemma Adds_writing:
  assumes "writing seps parts cur r" "sorted_wrt less (map fst (part_entries parts @ cur @ es))"
    and "list_all valid (map fst (part_entries parts @ cur @ es))"
    and "policy_keys fvalid less (map fst (part_entries parts @ cur @ es))"
    and "table_weight (part_entries parts @ cur @ es) < 2 ^ 30"
  shows "\<exists>r' seps' parts' cur'. TableBuilder_Adds dest es r = Some r' \<and> writing seps' parts' cur' r' \<and>
    part_entries parts' @ cur' = part_entries parts @ cur @ es"
  using assms
proof (induction es arbitrary: seps parts cur r)
  case Nil
  then show ?case by auto
next
  case (Cons e es)
  let ?upto = "part_entries parts @ cur @ [(fst e, snd e)]"
  have "sorted_wrt less (map fst ?upto)" "list_all valid (map fst ?upto)" "table_weight ?upto < 2 ^ 30"
    using Cons.prems(2,3,5) by (simp_all add: sorted_wrt_append)
  moreover have "policy_keys fvalid less (map fst ?upto)"
    using policy_keys_append(1) [of fvalid less "map fst ?upto" "map fst es"] Cons.prems(4) by simp
  ultimately obtain r1 seps1 parts1 cur1 where
    1: "TableBuilder_Add dest (fst e) (snd e) r = Some r1" "writing seps1 parts1 cur1 r1" "part_entries parts1 @ cur1 = ?upto"
    using Add_writes [OF Cons.prems(1), of "fst e" "snd e"] by blast
  then have "part_entries parts1 @ cur1 @ es = part_entries parts @ cur @ e # es" by (metis append_assoc append_Cons append_Nil prod.collapse)
  with Cons.IH [OF 1(2)] Cons.prems(2-5) 1(1) show ?case by auto
qed

definition file_at :: "'f table_builder \<Rightarrow> u8 list \<Rightarrow> bool" where
  "file_at r bytes \<longleftrightarrow>
     good (tb_file r) \<and> contents (tb_file r) = bytes \<and> unat (tb_offset r) = length bytes \<and> tb_status r = Status_OK"

lemma WriteRawBlock_at:
  assumes "file_at r bytes" "length bytes + length data < 2 ^ 33"
  shows "\<exists>h f off. WriteRawBlock dest data kNoCompression r =
      Some (h, r\<lparr>tb_status := Status_OK, tb_file := f, tb_offset := off\<rparr>) \<and>
    file_at (r\<lparr>tb_status := Status_OK, tb_file := f, tb_offset := off\<rparr>) (bytes @ stored_block data) \<and>
    stored (bytes @ stored_block data) h data \<and> handle_set h"
proof -
  let ?h = "\<lparr>bh_offset = tb_offset r, bh_size = of_nat (length data)\<rparr>"
  have "unat (tb_offset r) = length bytes" using assms(1) by (simp add: file_at_def)
  moreover have "unat (of_nat (length data) :: u64) = length data" by (rule uint64_small) (use assms(2) in simp)
  ultimately have "stored (bytes @ stored_block data) ?h data" "handle_set ?h"
    "unat (tb_offset r + of_nat (length data) + 5) = length (bytes @ stored_block data)"
    using assms(2) by (auto intro!: stored_end handle_set_small simp: unat_offset_add)
  with WriteRawBlock_writes [of r data] assms(1) show ?thesis by (auto simp: file_at_def)
qed

lemma WriteBlock_at:
  assumes "file_at r bytes" "built bopt b es" "bo_block_restart_interval bopt \<ge> 1"
    and "length bytes + length (block_layout (nat (bo_block_restart_interval bopt)) es) < 2 ^ 33"
  shows "\<exists>h b' f off. WriteBlock dest b r = Some (h, b', r\<lparr>tb_status := Status_OK, tb_file := f, tb_offset := off\<rparr>) \<and>
    file_at (r\<lparr>tb_status := Status_OK, tb_file := f, tb_offset := off\<rparr>)
      (bytes @ stored_block (block_layout (nat (bo_block_restart_interval bopt)) es)) \<and>
    stored (bytes @ stored_block (block_layout (nat (bo_block_restart_interval bopt)) es)) h
      (block_layout (nat (bo_block_restart_interval bopt)) es) \<and> handle_set h"
proof -
  obtain b1 where b1: "BlockBuilder_Finish b = (block_layout (nat (bo_block_restart_interval bopt)) es, b1)"
    using Finish_layout [OF assms(2)] by blast
  have "TableBuilder_ok r" using assms(1) by (simp add: file_at_def TableBuilder_ok_def ok_def Status_OK_def)
  with WriteRawBlock_at [OF assms(1,4)] b1 show ?thesis
    by (fastforce simp: WriteBlock_def Snappy_Compress_def split: CompressionType.splits)
qed

lemma finish_filter_writes:
  assumes "file_at r bytes" "length bytes < 2 ^ 30" "filter_state r (filter_trace parts @ [(tb_offset r, [])])"
    and "sorted_wrt (<) (map fst (filter_trace parts) @ [tb_offset r])"
    and "policy_keys fvalid less (map fst (part_entries parts))" "2 * B * length (part_entries parts) < 2 ^ 30"
  shows "\<exists>fh fb f off rest. finish_filter dest r =
      Some (fh, r\<lparr>tb_filter_block := fb, tb_status := Status_OK, tb_file := f, tb_offset := off\<rparr>) \<and>
    (fb = None \<longleftrightarrow> op_filter_policy opt = None) \<and> length rest < 2 ^ 30 + 2 ^ 22 + 20 \<and>
    file_at (r\<lparr>tb_filter_block := fb, tb_status := Status_OK, tb_file := f, tb_offset := off\<rparr>) (bytes @ rest) \<and>
    (\<forall>p. op_filter_policy opt = Some p \<longrightarrow>
      (\<exists>contents. stored (bytes @ rest) fh contents \<and> filter_serves p fvalid contents parts \<and> handle_set fh))"
proof (cases "tb_filter_block r")
  case None
  moreover from None have "op_filter_policy opt = None" using assms(3) by (simp add: filter_state_def)
  moreover have "r\<lparr>tb_filter_block := None, tb_status := Status_OK, tb_file := tb_file r, tb_offset := tb_offset r\<rparr> = r"
    using None assms(1) by (simp add: file_at_def)
  ultimately show ?thesis using assms(1)
    by (intro exI [of _ BlockHandle] exI [of _ None] exI [of _ "tb_file r"] exI [of _ "tb_offset r"] exI [of _ "[]"])
      (simp add: finish_filter_def)
next
  case (Some pfb)
  let ?trace = "filter_trace parts @ [(tb_offset r, [])]"
  obtain p fb where pfb: "pfb = (p, fb)" by fastforce
  from assms(3) Some pfb have p: "op_filter_policy opt = Some p" "build_filters p ?trace FilterBlockBuilder = Some fb"
    by (simp_all add: filter_state_def)
  have fvalid: "policy_keys fvalid less (concat (map snd ?trace))" using assms(5) unfolding trace_keys by simp
  have sorted: "sorted_wrt (\<le>) (map fst ?trace)" using strict_sorted_imp_sorted [OF assms(4)] by simp
  obtain fc fb' where fc: "FilterBlock_Finish p fb = Some (fc, fb')"
    "length fc < 2 ^ 32 \<longrightarrow> (\<exists>r. FilterBlockReader fc = Some r \<and>
      (\<forall>blk \<in> set ?trace. \<forall>key \<in> set (snd blk). FilterBlock_KeyMayMatch p r (fst blk) key = Some True) \<and>
      (\<forall>off key. fvalid key \<longrightarrow> FilterBlock_KeyMayMatch p r off key \<noteq> None))"
    using filter_block [OF p(1) fvalid sorted] p(2) by auto
  have "\<forall>blk \<in> set ?trace. unat (fst blk) div kFilterBase \<le> 2 ^ 20"
  proof
    fix blk assume "blk \<in> set ?trace"
    then have "fst blk \<le> tb_offset r" using assms(4) by (auto simp: sorted_wrt_append)
    then have "unat (fst blk) < 2 ^ 30" using assms(1,2) by (simp add: word_le_nat_alt file_at_def)
    then show "unat (fst blk) div kFilterBase \<le> 2 ^ 20" by (simp add: kFilterBase_def kFilterBaseLg_def)
  qed
  from Finish_size [OF _ p(2) fc(1) this] policy [OF p(1)]
  have "length fc \<le> 2 * B * length (concat (map snd ?trace)) + 4 * 2 ^ 20 + 9" by blast
  moreover have "concat (map snd ?trace) = map fst (part_entries parts)" unfolding trace_keys by simp
  ultimately have small: "length fc + 5 < 2 ^ 30 + 2 ^ 22 + 20" using assms(6) by simp
  have "file_at (r\<lparr>tb_filter_block := Some (p, fb')\<rparr>) bytes" using assms(1) by (simp add: file_at_def)
  from WriteRawBlock_at [OF this, of fc] small assms(2) obtain h f off where
    w: "WriteRawBlock dest fc kNoCompression (r\<lparr>tb_filter_block := Some (p, fb')\<rparr>) =
      Some (h, r\<lparr>tb_filter_block := Some (p, fb'), tb_status := Status_OK, tb_file := f, tb_offset := off\<rparr>)"
    "file_at (r\<lparr>tb_filter_block := Some (p, fb'), tb_status := Status_OK, tb_file := f, tb_offset := off\<rparr>) (bytes @ stored_block fc)"
    "stored (bytes @ stored_block fc) h fc" "handle_set h" by auto
  have "filter_serves p fvalid fc parts"
    using fc(2) small by (fastforce simp: filter_serves_def filter_answers_def filter_trace_def)
  moreover have "finish_filter dest r = Some (h, r\<lparr>tb_filter_block := Some (p, fb'), tb_status := Status_OK, tb_file := f, tb_offset := off\<rparr>)"
    using Some pfb fc(1) w(1) assms(1) by (simp add: finish_filter_def file_at_def TableBuilder_ok_def ok_def Status_OK_def)
  ultimately show ?thesis using p w small
    by (intro exI [of _ h] exI [of _ "Some (p, fb')"] exI [of _ f] exI [of _ off] exI [of _ "stored_block fc"]) auto
qed

lemma finish_metaindex_writes:
  assumes "file_at r bytes" "length bytes < 2 ^ 32" "tb_options r = opt"
    and "tb_filter_block r = None \<longleftrightarrow> op_filter_policy opt = None"
    and "op_filter_policy opt \<noteq> None \<longrightarrow> handle_set fh"
  shows "\<exists>h f off rest. finish_metaindex dest fh r = Some (h, r\<lparr>tb_status := Status_OK, tb_file := f, tb_offset := off\<rparr>) \<and>
    file_at (r\<lparr>tb_status := Status_OK, tb_file := f, tb_offset := off\<rparr>) (bytes @ rest) \<and> length rest < 2 ^ 21 \<and> handle_set h \<and>
    block_fits (nat (bo_block_restart_interval opt)) (meta_entries (op_filter_policy opt) fh) \<and>
    stored (bytes @ rest) h (block_layout (nat (bo_block_restart_interval opt)) (meta_entries (op_filter_policy opt) fh))"
proof -
  let ?es = "meta_entries (op_filter_policy opt) fh"
  obtain b0 where b0: "BlockBuilder_new opt = Some b0" "built opt b0 []" using built_new [OF opt(2)] by blast
  have weight: "table_weight ?es < 2 ^ 20 + 200"
  proof (cases "op_filter_policy opt")
    case (Some p)
    with policy [OF Some] length_enc_handle [of fh] show ?thesis by (simp add: meta_entries_def entry_weight_def)
  qed (simp add: meta_entries_def)
  have "\<exists>b. (case tb_filter_block r of
        Some _ \<Rightarrow> do {
          policy \<leftarrow> op_filter_policy opt;
          let key = bytes_of (''filter.'' @ fp_Name policy);
          handle_encoding \<leftarrow> BlockHandle_EncodeTo fh [];
          BlockBuilder_Add opt key handle_encoding b0 }
      | None \<Rightarrow> Some b0) = Some b \<and> built opt b ?es"
  proof (cases "op_filter_policy opt")
    case None
    with assms(4) b0(2) show ?thesis by (simp add: meta_entries_def)
  next
    case (Some p)
    then have "BlockHandle_EncodeTo fh [] = Some (enc_handle fh)" using assms(5) by (simp add: BlockHandle_Encode)
    with Some assms(4) BlockBuilder_Add_built [OF opt(2) b0(2), of "bytes_of (''filter.'' @ fp_Name p)" "enc_handle fh"]
    show ?thesis by (auto simp: meta_entries_def Let_def)
  qed
  then obtain b where b: "(case tb_filter_block r of
        Some _ \<Rightarrow> do {
          policy \<leftarrow> op_filter_policy opt;
          let key = bytes_of (''filter.'' @ fp_Name policy);
          handle_encoding \<leftarrow> BlockHandle_EncodeTo fh [];
          BlockBuilder_Add opt key handle_encoding b0 }
      | None \<Rightarrow> Some b0) = Some b" "built opt b ?es" by blast
  have size: "length (block_layout (nat (bo_block_restart_interval opt)) ?es) + 5 < 2 ^ 21"
    using layout_weight [of "nat (bo_block_restart_interval opt)" ?es] weight by simp
  then obtain h b' f off where w: "WriteBlock dest b r = Some (h, b', r\<lparr>tb_status := Status_OK, tb_file := f, tb_offset := off\<rparr>)"
    "file_at (r\<lparr>tb_status := Status_OK, tb_file := f, tb_offset := off\<rparr>)
      (bytes @ stored_block (block_layout (nat (bo_block_restart_interval opt)) ?es))"
    "stored (bytes @ stored_block (block_layout (nat (bo_block_restart_interval opt)) ?es)) h
      (block_layout (nat (bo_block_restart_interval opt)) ?es)" "handle_set h"
    using WriteBlock_at [OF assms(1) b(2) opt(2)] assms(2) by auto
  have "finish_metaindex dest fh r = Some (h, r\<lparr>tb_status := Status_OK, tb_file := f, tb_offset := off\<rparr>)"
    using assms(1) w(1) b(1) b0(1)
    unfolding finish_metaindex_def assms(3) by (simp add: file_at_def TableBuilder_ok_def ok_def Status_OK_def)
  moreover have "block_fits (nat (bo_block_restart_interval opt)) ?es"
    by (rule block_fits_weight [OF interval_pos]) (use weight in simp)
  ultimately show ?thesis using w(2-4) size
    by (intro exI [of _ h] exI [of _ f] exI [of _ off]
        exI [of _ "stored_block (block_layout (nat (bo_block_restart_interval opt)) ?es)"]) simp
qed

lemma index_weight:
  assumes "separated less seps parts []" "length seps = length parts" "\<forall>part \<in> set parts. fst part \<noteq> []"
  shows "5 * table_weight (index_entries seps parts) \<le> 6 * table_weight (part_entries parts)"
proof -
  have part: "length (seps ! i) + 100 \<le> table_weight (fst (parts ! i))" if "i < length parts" for i
  proof -
    have "fst (parts ! i) \<noteq> []" using assms(3) that by simp
    then have "entry_weight (last (fst (parts ! i))) \<le> table_weight (fst (parts ! i))" by (simp add: weight_member)
    moreover have "length (seps ! i) \<le> length (fst (last (fst (parts ! i))))"
      using assms(1,2) that by (simp add: separated_def)
    ultimately show ?thesis by (simp add: entry_weight_def)
  qed
  have "5 * table_weight (index_entries seps parts) = (\<Sum>i<length parts. 5 * entry_weight (index_entries seps parts ! i))"
    using assms(2) by (simp add: table_weight_def sum_list_sum_nth index_entries_def sum_distrib_left atLeast0LessThan)
  also have "\<dots> \<le> (\<Sum>i<length parts. 6 * table_weight (fst (parts ! i)))"
  proof (rule sum_mono)
    fix i assume "i \<in> {..<length parts}"
    with part [of i] assms(2) length_enc_handle [of "snd (parts ! i)"]
    show "5 * entry_weight (index_entries seps parts ! i) \<le> 6 * table_weight (fst (parts ! i))"
      by (simp add: index_entries_def entry_weight_def)
  qed
  also have "\<dots> = 6 * (\<Sum>part\<leftarrow>parts. table_weight (fst part))"
    by (simp add: sum_list_sum_nth sum_distrib_left atLeast0LessThan)
  also have "(\<Sum>part\<leftarrow>parts. table_weight (fst part)) = table_weight (part_entries parts)"
    by (induction parts) simp_all
  finally show ?thesis .
qed

lemma add_index_entry_other:
  assumes "add_index_entry sep r = Some (r\<lparr>tb_last_key := sep, tb_index_block := ib, tb_pending_index_entry := False\<rparr>)"
    and "tb_pending_handle r' = tb_pending_handle r" "tb_index_block_options r' = tb_index_block_options r"
    "tb_index_block r' = tb_index_block r"
  shows "add_index_entry sep r' = Some (r'\<lparr>tb_last_key := sep, tb_index_block := ib, tb_pending_index_entry := False\<rparr>)"
proof -
  from assms(1) obtain enc ib' where "BlockHandle_EncodeTo (tb_pending_handle r) [] = Some enc"
    "BlockBuilder_Add (tb_index_block_options r) sep enc (tb_index_block r) = Some ib'"
    "r\<lparr>tb_last_key := sep, tb_index_block := ib', tb_pending_index_entry := False\<rparr> =
      r\<lparr>tb_last_key := sep, tb_index_block := ib, tb_pending_index_entry := False\<rparr>"
    by (auto simp: add_index_entry_def bind_eq_Some_conv)
  then show ?thesis using assms(2-4) arg_cong [of _ _ tb_index_block] by (fastforce simp: add_index_entry_def)
qed

text \<open>The last index key is a successor of the last key of the table.\<close>

lemma successor_written:
  assumes "writing seps parts [] r1" "sorted_wrt less (map fst (part_entries parts))" "list_all valid (map fst (part_entries parts))"
    and "tb_pending_handle r = tb_pending_handle r1" "tb_index_block_options r = tb_index_block_options r1"
    "tb_index_block r = tb_index_block r1" "tb_last_key r = tb_last_key r1" "tb_options r = opt"
    "tb_pending_index_entry r = tb_pending_index_entry r1"
  shows "\<exists>seps' ib last_key. (if tb_pending_index_entry r then
          Option.bind (cmp_FindShortSuccessor (bo_comparator (tb_options r)) (tb_last_key r)) (\<lambda>succ. add_index_entry succ r)
        else Some r) = Some (r\<lparr>tb_last_key := last_key, tb_index_block := ib, tb_pending_index_entry := False\<rparr>) \<and>
      built (opt\<lparr>bo_block_restart_interval := 1\<rparr>) ib (index_entries seps' parts) \<and>
      separated less seps' parts [] \<and> list_all valid seps' \<and> length seps' = length parts"
proof (cases "tb_pending_index_entry r1")
  case True
  note inv = assms(1) [unfolded writing_def]
  from inv True have c: "length parts = Suc (length seps)" by simp
  then have p: "parts \<noteq> []" by auto
  then have q: "fst (last parts) \<noteq> []" using inv last_in_set [of parts] by blast
  let ?e = "last (fst (last parts))"
  from p q have "part_entries parts \<noteq> []" by (cases parts rule: rev_cases) simp_all
  then have e: "tb_last_key r1 = fst ?e" "?e \<in> set (part_entries parts)"
    using inv last_part_entries [OF p q] last_in_set [of "part_entries parts"] by simp_all
  then have "valid (fst ?e)" using assms(3) by (simp add: list_all_iff)
  then obtain sep where sep: "cmp_FindShortSuccessor c (fst ?e) = Some sep" "valid sep" "sep = fst ?e \<or> less (fst ?e) sep"
    "length sep \<le> length (fst ?e)" using successor by blast
  have le: "\<forall>e \<in> set (fst (last parts)). fst e = sep \<or> less (fst e) sep"
    using last_block_below [of parts "[]"] assms(2) p sep(3) by simp
  obtain ib where ib: "add_index_entry sep r1 = Some (r1\<lparr>tb_last_key := sep, tb_index_block := ib, tb_pending_index_entry := False\<rparr>)"
    "built (opt\<lparr>bo_block_restart_interval := 1\<rparr>) ib (index_entries (seps @ [sep]) parts)"
    using add_index_entry_writes [OF assms(1) True sep(2) le] by blast
  have "separated less seps parts []" using inv by simp
  then have "separated less (seps @ [sep]) parts []"
    using le sep(4) c p
    by (cases parts rule: rev_cases) (auto simp: separated_def nth_append less_Suc_eq)
  moreover have "list_all valid (seps @ [sep])" using inv sep(2) by simp
  ultimately show ?thesis using add_index_entry_other [OF ib(1) assms(4-6)] ib(2) True c sep(1) e(1) assms(7-9) opt(1)
    by (intro exI [of _ "seps @ [sep]"] exI [of _ ib] exI [of _ sep]) simp
next
  case False
  moreover have "r\<lparr>tb_last_key := tb_last_key r, tb_index_block := tb_index_block r, tb_pending_index_entry := False\<rparr> = r"
    using False assms(9) by simp
  moreover have "separated less seps parts []" "list_all valid seps" "length seps = length parts"
    "built (opt\<lparr>bo_block_restart_interval := 1\<rparr>) (tb_index_block r1) (index_entries seps parts)"
    using False assms(1) by (auto simp: writing_def)
  ultimately show ?thesis using assms(6,9)
    by (intro exI [of _ seps] exI [of _ "tb_index_block r"] exI [of _ "tb_last_key r"]) simp
qed

lemma finish_index_writes:
  assumes "writing seps parts [] r1" "sorted_wrt less (map fst (part_entries parts))" "list_all valid (map fst (part_entries parts))"
    and "tb_pending_handle r = tb_pending_handle r1" "tb_index_block_options r = tb_index_block_options r1"
    "tb_index_block r = tb_index_block r1" "tb_last_key r = tb_last_key r1" "tb_options r = opt"
    "tb_pending_index_entry r = tb_pending_index_entry r1"
    and "file_at r bytes" "length bytes < 2 ^ 32" "table_weight (part_entries parts) < 2 ^ 30"
  shows "\<exists>seps' h r' rest. finish_index dest r = Some (h, r') \<and> file_at r' (bytes @ rest) \<and>
    5 * length rest \<le> 6 * table_weight (part_entries parts) + 65 \<and> handle_set h \<and>
    separated less seps' parts [] \<and> list_all valid seps' \<and> length seps' = length parts \<and>
    block_fits 1 (index_entries seps' parts) \<and> stored (bytes @ rest) h (block_layout 1 (index_entries seps' parts))"
proof -
  let ?iopt = "opt\<lparr>bo_block_restart_interval := 1\<rparr>"
  obtain seps' ib lk where i: "(if tb_pending_index_entry r then
          Option.bind (cmp_FindShortSuccessor (bo_comparator (tb_options r)) (tb_last_key r)) (\<lambda>succ. add_index_entry succ r)
        else Some r) = Some (r\<lparr>tb_last_key := lk, tb_index_block := ib, tb_pending_index_entry := False\<rparr>)"
    "built ?iopt ib (index_entries seps' parts)" "separated less seps' parts []" "length seps' = length parts" "list_all valid seps'"
    using successor_written [OF assms(1-9)] by blast
  let ?r = "r\<lparr>tb_last_key := lk, tb_index_block := ib, tb_pending_index_entry := False\<rparr>"
  let ?data = "block_layout 1 (index_entries seps' parts)"
  have "\<forall>part \<in> set parts. fst part \<noteq> []" using assms(1) by (simp add: writing_def)
  from index_weight [OF i(3,4) this] have weight: "5 * table_weight (index_entries seps' parts) \<le> 6 * table_weight (part_entries parts)" .
  have size: "5 * (length ?data + 5) \<le> 6 * table_weight (part_entries parts) + 65"
    using weight layout_weight [of 1 "index_entries seps' parts"] by simp
  have "file_at ?r bytes" using assms(10) by (simp add: file_at_def)
  moreover have "length bytes + length (block_layout (nat (bo_block_restart_interval ?iopt)) (index_entries seps' parts)) < 2 ^ 33"
    using size assms(11,12) by simp
  ultimately obtain h b' f off where w: "WriteBlock dest ib ?r = Some (h, b', ?r\<lparr>tb_status := Status_OK, tb_file := f, tb_offset := off\<rparr>)"
    "file_at (?r\<lparr>tb_status := Status_OK, tb_file := f, tb_offset := off\<rparr>) (bytes @ stored_block ?data)"
    "stored (bytes @ stored_block ?data) h ?data" "handle_set h"
    using WriteBlock_at [of ?r bytes ?iopt ib "index_entries seps' parts"] i(2) by auto
  have "finish_index dest r = Some (h, ?r\<lparr>tb_status := Status_OK, tb_file := f, tb_offset := off, tb_index_block := b'\<rparr>)"
    using assms(10) w(1) i(1) by (simp add: finish_index_def file_at_def TableBuilder_ok_def ok_def Status_OK_def)
  moreover have "file_at (?r\<lparr>tb_status := Status_OK, tb_file := f, tb_offset := off, tb_index_block := b'\<rparr>) (bytes @ stored_block ?data)"
    using w(2) by (simp add: file_at_def)
  moreover have "block_fits 1 (index_entries seps' parts)"
    by (rule block_fits_weight) (use weight assms(12) in simp_all)
  ultimately show ?thesis using w(3,4) size i(3-5) by fastforce
qed

lemma finish_footer_writes:
  assumes "file_at r bytes" "handle_set mh" "handle_set ih" "length bytes < 2 ^ 33"
  shows "\<exists>r'. finish_footer dest mh ih r = Some r' \<and>
    file_at r' (bytes @ enc_footer \<lparr>ft_metaindex_handle = mh, ft_index_handle = ih\<rparr>)"
proof -
  let ?f = "\<lparr>ft_metaindex_handle = mh, ft_index_handle = ih\<rparr>"
  obtain f where f: "wf_Append dest (enc_footer ?f) (tb_file r) = Some (Status_OK, f)" "good f"
    "contents f = contents (tb_file r) @ enc_footer ?f"
    using append assms(1) by (auto simp: file_at_def)
  have "unat (tb_offset r + 48) = length bytes + 48"
    using unat_offset_add [of "tb_offset r" 43] assms(1,4) by (simp add: file_at_def add.commute)
  then show ?thesis
    using f assms(1) Footer_Encode [of ?f] assms(2,3)
    by (simp add: finish_footer_def file_at_def TableBuilder_ok_def ok_def Status_OK_def)
qed

lemma Flush_rest:
  assumes "writing seps parts cur r" "table_weight (part_entries parts @ cur) < 2 ^ 30"
    and "policy_keys fvalid less (map fst (part_entries parts @ cur))"
  shows "\<exists>r' parts'. TableBuilder_Flush dest r = Some r' \<and> writing seps parts' [] r' \<and> part_entries parts' = part_entries parts @ cur"
proof (cases "cur = []")
  case True
  with assms(1) have "TableBuilder_Flush dest r = Some r"
    by (simp add: TableBuilder_Flush_def writing_def TableBuilder_ok_def ok_def Status_OK_def built_def Let_def)
  with True assms(1) show ?thesis by auto
next
  case False
  from Flush_writes [OF assms(1) this assms(2,3)] obtain r' h where
    "TableBuilder_Flush dest r = Some r'" "writing seps (parts @ [(cur, h)]) [] r'" by blast
  then show ?thesis by (intro exI [of _ r'] exI [of _ "parts @ [(cur, h)]"]) simp
qed

lemma Finish_writes:
  assumes "writing seps parts cur r" "sorted_wrt less (map fst (part_entries parts @ cur))"
    and "list_all valid (map fst (part_entries parts @ cur))" "policy_keys fvalid less (map fst (part_entries parts @ cur))"
    and "table_weight (part_entries parts @ cur) < 2 ^ 30" "2 * B * length (part_entries parts @ cur) < 2 ^ 30"
  shows "\<exists>r' bytes seps' parts'. TableBuilder_Finish dest r = Some (Status_OK, r') \<and> file_at r' bytes \<and>
    part_entries parts' = part_entries parts @ cur \<and> table_file valid fvalid less opt bytes seps' parts'"
proof -
  obtain r1 parts1 where 1: "TableBuilder_Flush dest r = Some r1" "writing seps parts1 [] r1" "part_entries parts1 = part_entries parts @ cur"
    using Flush_rest [OF assms(1,5,4)] by blast
  note inv = 1(2) [unfolded writing_def]
  let ?bytes = "contents (tb_file r1)"
  define rc where "rc = r1\<lparr>tb_closed := True\<rparr>"
  have 2: "file_at rc ?bytes" "length ?bytes < 2 ^ 30"
    using inv assms(5) 1(3) by (simp_all add: file_at_def rc_def)
  have a: "filter_state rc (filter_trace parts1 @ [(tb_offset rc, [])])"
    using inv by (simp add: filter_state_def rc_def)
  have b: "sorted_wrt (<) (map fst (filter_trace parts1) @ [tb_offset rc])" using inv by (simp add: rc_def)
  have c: "policy_keys fvalid less (map fst (part_entries parts1))" "2 * B * length (part_entries parts1) < 2 ^ 30"
    using assms(4,6) by (simp_all add: 1(3))
  from finish_filter_writes [OF 2 a b c] obtain fh fb f2 off2 rest2 where
    3: "finish_filter dest rc =
        Some (fh, rc\<lparr>tb_filter_block := fb, tb_status := Status_OK, tb_file := f2, tb_offset := off2\<rparr>)"
      "fb = None \<longleftrightarrow> op_filter_policy opt = None" "length rest2 < 2 ^ 30 + 2 ^ 22 + 20"
      "file_at (rc\<lparr>tb_filter_block := fb, tb_status := Status_OK, tb_file := f2, tb_offset := off2\<rparr>) (?bytes @ rest2)"
      "\<forall>p. op_filter_policy opt = Some p \<longrightarrow>
        (\<exists>contents. stored (?bytes @ rest2) fh contents \<and> filter_serves p fvalid contents parts1 \<and> handle_set fh)"
    by (elim exE conjE) (rule that)
  define r2 where "r2 = rc\<lparr>tb_filter_block := fb, tb_status := Status_OK, tb_file := f2, tb_offset := off2\<rparr>"
  have d: "op_filter_policy opt \<noteq> None \<longrightarrow> handle_set fh" using 3(5) by auto
  have e: "length (?bytes @ rest2) < 2 ^ 32" using 2(2) 3(3) by simp
  have f: "tb_options r2 = opt" "tb_filter_block r2 = None \<longleftrightarrow> op_filter_policy opt = None"
    using inv 3(2) by (simp_all add: r2_def rc_def)
  from finish_metaindex_writes [OF 3(4) [folded r2_def] e f d, unfolded append_assoc] obtain mh f3 off3 rest3 where
    4: "finish_metaindex dest fh r2 = Some (mh, r2\<lparr>tb_status := Status_OK, tb_file := f3, tb_offset := off3\<rparr>)"
      "file_at (r2\<lparr>tb_status := Status_OK, tb_file := f3, tb_offset := off3\<rparr>) (?bytes @ rest2 @ rest3)"
      "length rest3 < 2 ^ 21" "handle_set mh"
      "block_fits (nat (bo_block_restart_interval opt)) (meta_entries (op_filter_policy opt) fh)"
      "stored (?bytes @ rest2 @ rest3) mh (block_layout (nat (bo_block_restart_interval opt)) (meta_entries (op_filter_policy opt) fh))"
    by (elim exE conjE) (rule that)
  let ?r3 = "r2\<lparr>tb_status := Status_OK, tb_file := f3, tb_offset := off3\<rparr>"
  have g: "length (?bytes @ rest2 @ rest3) < 2 ^ 32" using 2(2) 3(3) 4(3) by simp
  have h: "sorted_wrt less (map fst (part_entries parts1))" "list_all valid (map fst (part_entries parts1))"
    "table_weight (part_entries parts1) < 2 ^ 30" using assms(2,3,5) by (simp_all add: 1(3))
  have i: "tb_pending_handle ?r3 = tb_pending_handle r1" "tb_index_block_options ?r3 = tb_index_block_options r1"
    "tb_index_block ?r3 = tb_index_block r1" "tb_last_key ?r3 = tb_last_key r1" "tb_options ?r3 = opt"
    "tb_pending_index_entry ?r3 = tb_pending_index_entry r1"
    using inv by (simp_all add: r2_def rc_def)
  from finish_index_writes [OF 1(2) h(1,2) i 4(2) g h(3), unfolded append_assoc] obtain seps' ih r4 rest4 where
    5: "finish_index dest ?r3 = Some (ih, r4)" "file_at r4 (?bytes @ rest2 @ rest3 @ rest4)"
      "5 * length rest4 \<le> 6 * table_weight (part_entries parts1) + 65" "handle_set ih"
      "separated less seps' parts1 []" "list_all valid seps'" "length seps' = length parts1"
      "block_fits 1 (index_entries seps' parts1)" "stored (?bytes @ rest2 @ rest3 @ rest4) ih (block_layout 1 (index_entries seps' parts1))"
    by (elim exE conjE) (rule that)
  have len: "length (?bytes @ rest2 @ rest3 @ rest4) + 48 < 2 ^ 32"
  proof -
    have "5 * length (?bytes @ rest2 @ rest3 @ rest4) + 240 < 5 * 2 ^ 32"
      using 2(2) 3(3) 4(3) 5(3) assms(5) 1(3) by simp
    then show ?thesis by simp
  qed
  then obtain r5 where 6: "finish_footer dest mh ih r4 = Some r5"
    "file_at r5 ((?bytes @ rest2 @ rest3 @ rest4) @ enc_footer \<lparr>ft_metaindex_handle = mh, ft_index_handle = ih\<rparr>)"
    using finish_footer_writes [OF 5(2) 4(4) 5(4)] by auto
  let ?footer = "enc_footer \<lparr>ft_metaindex_handle = mh, ft_index_handle = ih\<rparr>"
  let ?all = "(?bytes @ rest2 @ rest3 @ rest4) @ ?footer"
  have "TableBuilder_Finish dest r = Some (Status_OK, r5)"
    using 1(1) inv 3(1) 4(1) 5(1) 6 by (simp add: TableBuilder_Finish_def r2_def rc_def file_at_def)
  moreover have "table_file valid fvalid less opt ?all seps' parts1"
  proof -
    have data: "fst part \<noteq> [] \<and> block_fits (nat (bo_block_restart_interval opt)) (fst part) \<and>
        stored ?all (snd part) (block_layout (nat (bo_block_restart_interval opt)) (fst part))" if "part \<in> set parts1" for part
      using inv that stored_append [of ?bytes _ _ "rest2 @ rest3 @ rest4 @ ?footer"] by simp
    have meta: "stored ?all mh (block_layout (nat (bo_block_restart_interval opt)) (meta_entries (op_filter_policy opt) fh))"
      using stored_append [OF 4(6), of "rest4 @ ?footer"] by simp
    have index: "stored ?all ih (block_layout 1 (index_entries seps' parts1))" using stored_append [OF 5(9), of ?footer] by simp
    have serves: "\<exists>contents. stored ?all fh contents \<and> filter_serves p fvalid contents parts1" if "op_filter_policy opt = Some p" for p
      using 3(5) that stored_append [of "?bytes @ rest2" fh _ "rest3 @ rest4 @ ?footer"] by auto
    have "length ?all < 2 ^ 32" using len by simp
    moreover have "sorted_wrt (<) (map fst (filter_trace parts1))" using b by (simp add: sorted_wrt_append)
    ultimately show ?thesis using data meta index serves 4(5) 5(5-8) unfolding table_file_def by blast
  qed
  ultimately show ?thesis using 6(2) 1(3) by blast
qed

end

section \<open>A table from beginning to end\<close>

context table_writer
begin

lemma table_written:
  assumes "good f" "contents f = []" "sorted_wrt less (map fst es)" "list_all valid (map fst es)" "list_all fvalid (map fst es)"
    and "table_weight es < 2 ^ 30" "2 * B * length es < 2 ^ 30"
  shows "\<exists>r0 r r' seps parts. TableBuilder_new opt f = Some r0 \<and> TableBuilder_Adds dest es r0 = Some r \<and>
    TableBuilder_Finish dest r = Some (Status_OK, r') \<and> good (tb_file r') \<and>
    unat (FileSize r') = length (contents (tb_file r')) \<and>
    part_entries parts = es \<and> table_file valid fvalid less opt (contents (tb_file r')) seps parts"
proof -
  obtain r0 where 0: "TableBuilder_new opt f = Some r0" "writing [] [] [] r0" using new_writing [OF assms(1,2)] by blast
  have "\<not> less b a" if "valid a" "less a b" for a b using less_asym [OF that] .
  then have "sorted_wrt (\<lambda>a b. \<not> less b a) (map fst es)"
    using assms(3,4) sorted_wrt_mono_rel [of "map fst es" less "\<lambda>a b. \<not> less b a"] by (auto simp: list_all_iff)
  moreover have "length es \<le> table_weight es" by (induction es) (simp_all add: entry_weight_def)
  ultimately have keys: "policy_keys fvalid less (map fst es)" using assms(5,6) by (simp add: policy_keys_def)
  from Adds_writing [OF 0(2), of es] keys assms(3,4,6) obtain r seps parts cur where
    1: "TableBuilder_Adds dest es r0 = Some r" "writing seps parts cur r" "part_entries parts @ cur = es" by auto
  from Finish_writes [OF 1(2)] keys assms(3,4,6,7) 1(3) obtain r' bytes seps' parts' where
    2: "TableBuilder_Finish dest r = Some (Status_OK, r')" "file_at r' bytes" "part_entries parts' = es"
      "table_file valid fvalid less opt bytes seps' parts'" by auto
  with 0(1) 1(1) show ?thesis unfolding file_at_def FileSize_def by blast
qed

end

end
