(* ===== verification/Ldb_Two_Level_Correct.thy ===== *)
theory Ldb_Two_Level_Correct
  imports Ldb_Two_Level
begin

text \<open>
  The two-level iterator keeps the contract of an iterator over the entries of all blocks, when the
  index iterator keeps it for the index, the iterator of every block keeps it for that block, and the
  keys of the index separate the blocks.
\<close>

section \<open>Positions in a list of blocks\<close>

definition block_offset :: "'a list list \<Rightarrow> nat \<Rightarrow> nat" where
  "block_offset blocks i = length (concat (take i blocks))"

lemma block_offset_simps [simp]:
  "block_offset blocks 0 = 0" "block_offset blocks (length blocks) = length (concat blocks)"
  by (simp_all add: block_offset_def)

lemma block_offset_Suc: "i < length blocks \<Longrightarrow> block_offset blocks (Suc i) = block_offset blocks i + length (blocks ! i)"
  by (simp add: block_offset_def take_Suc_conv_app_nth)

lemma concat_split: "i < length blocks \<Longrightarrow> concat blocks = concat (take i blocks) @ blocks ! i @ concat (drop (Suc i) blocks)"
  by (subst id_take_nth_drop [of i blocks]) simp_all

lemma block_offset_end: "i < length blocks \<Longrightarrow> block_offset blocks i + length (blocks ! i) \<le> length (concat blocks)"
  using concat_split [of i blocks] by (simp add: block_offset_def)

lemma concat_nth_block:
  "i < length blocks \<Longrightarrow> j < length (blocks ! i) \<Longrightarrow> concat blocks ! (block_offset blocks i + j) = blocks ! i ! j"
  by (subst concat_split [of i blocks]) (simp_all add: block_offset_def nth_append)

lemma takeWhile_blocks:
  assumes "i < length blocks" "\<forall>xs \<in> set (take i blocks). \<forall>x \<in> set xs. P x"
    and "\<forall>xs \<in> set (drop (Suc i) blocks). \<forall>x \<in> set xs. \<not> P x"
  shows "length (takeWhile P (concat blocks)) = block_offset blocks i + length (takeWhile P (blocks ! i))"
proof -
  have front: "takeWhile P (concat (take i blocks)) = concat (take i blocks)" using assms(2) by (auto simp: takeWhile_eq_all_conv)
  have rest: "takeWhile P (concat (drop (Suc i) blocks)) = []"
  proof (cases "concat (drop (Suc i) blocks)")
    case (Cons a as)
    have "a \<in> set (concat (drop (Suc i) blocks))" unfolding Cons by simp
    then have "\<not> P a" using assms(3) by auto
    then show ?thesis unfolding Cons by simp
  next
    case Nil
    show ?thesis unfolding Nil by simp
  qed
  have "takeWhile P (concat blocks) = concat (take i blocks) @ takeWhile P (blocks ! i @ concat (drop (Suc i) blocks))"
    by (subst concat_split [OF assms(1)], subst takeWhile_append2) (use assms(2) in auto)
  moreover have "takeWhile P (blocks ! i @ concat (drop (Suc i) blocks)) = takeWhile P (blocks ! i)"
  proof (cases "\<forall>x \<in> set (blocks ! i). P x")
    case True
    then have all: "takeWhile P (blocks ! i) = blocks ! i" by (simp add: takeWhile_eq_all_conv)
    show ?thesis unfolding all using True rest by (subst takeWhile_append2) auto
  qed (auto simp: takeWhile_append1)
  ultimately show ?thesis by (simp add: block_offset_def)
qed

section \<open>The contract\<close>

text \<open>The block function turns a handle of the index into an iterator over the entries \<open>G\<close> of that block.\<close>

locale two_level_parts = index: iterator_ok iops c valid idx igood iat iheld world
  for iops :: "('i, 'w) iterator" and c valid idx igood iat and iheld :: "'i \<Rightarrow> 'h multiset" and world +
  fixes dops :: "('d, 'w) iterator"
    and block_function :: "slice \<Rightarrow> 'w \<Rightarrow> ('d \<times> 'w) option"
    and G :: "slice \<Rightarrow> entry list"
    and dgood :: "slice \<Rightarrow> 'd \<Rightarrow> bool"
    and dat :: "slice \<Rightarrow> 'd \<Rightarrow> nat \<Rightarrow> bool"
    and dheld :: "'d \<Rightarrow> 'h multiset"
  assumes data: "h \<in> snd ` set idx \<Longrightarrow> iterator_ok dops c valid (G h) (dgood h) (dat h) dheld world"
    and block_reader: "h \<in> snd ` set idx \<Longrightarrow> world H w \<Longrightarrow> moved (dgood h) dheld world H (block_function h w)"
    and before_target: "valid target \<Longrightarrow> i < length idx \<Longrightarrow> cmp_Compare c (fst (idx ! i)) target < 0 \<Longrightarrow>
      e \<in> set (G (snd (idx ! i))) \<Longrightarrow> cmp_Compare c (fst e) target < 0"
    and after_target: "valid target \<Longrightarrow> i < j \<Longrightarrow> j < length idx \<Longrightarrow> \<not> cmp_Compare c (fst (idx ! i)) target < 0 \<Longrightarrow>
      e \<in> set (G (snd (idx ! j))) \<Longrightarrow> \<not> cmp_Compare c (fst e) target < 0"
begin

definition blocks :: "entry list list" where
  "blocks = map (\<lambda>(sep, h). G h) idx"

definition all_entries :: "entry list" where
  "all_entries = concat blocks"

definition handle_of :: "nat \<Rightarrow> slice" where
  "handle_of i = snd (idx ! i)"

definition data_null :: "('i, 'd) two_level \<Rightarrow> bool" where
  "data_null t \<longleftrightarrow> iw_iter (tl_data_iter t) = None \<and> \<not> iw_valid (tl_data_iter t)"

definition data_good :: "('i, 'd) two_level \<Rightarrow> bool" where
  "data_good t \<longleftrightarrow> data_null t \<or>
     (tl_data_block_handle t \<in> snd ` set idx \<and> wrapped (dgood (tl_data_block_handle t)) dops (tl_data_iter t))"

definition data_at :: "('i, 'd) two_level \<Rightarrow> nat \<Rightarrow> nat \<Rightarrow> bool" where
  "data_at t i j \<longleftrightarrow> tl_data_block_handle t = handle_of i \<and> wrapped (\<lambda>d. dat (handle_of i) d j) dops (tl_data_iter t)"

definition index_at :: "('i, 'd) two_level \<Rightarrow> nat \<Rightarrow> bool" where
  "index_at t i \<longleftrightarrow> tl_status t = Status_OK \<and> wrapped (\<lambda>s. iat s i) iops (tl_index_iter t)"

text \<open>At entry \<open>j\<close> of block \<open>i\<close>, or at the end of the index without a data iterator.\<close>

definition both_at :: "nat \<Rightarrow> nat \<Rightarrow> ('i, 'd) two_level \<Rightarrow> bool" where
  "both_at i j t \<longleftrightarrow> index_at t i \<and> (if i < length idx then data_at t i j else j = 0 \<and> data_null t)"

definition tl_good :: "('i, 'd) two_level \<Rightarrow> bool" where
  "tl_good t \<longleftrightarrow> tl_status t = Status_OK \<and> wrapped igood iops (tl_index_iter t) \<and> data_good t"

definition tl_at :: "('i, 'd) two_level \<Rightarrow> nat \<Rightarrow> bool" where
  "tl_at t k \<longleftrightarrow> (\<exists>i j. both_at i j t \<and> k = block_offset blocks i + j \<and> (i < length idx \<longrightarrow> j < length (blocks ! i)))"

definition tl_held :: "('i, 'd) two_level \<Rightarrow> 'h multiset" where
  "tl_held t = wrapper_held iheld (tl_index_iter t) + wrapper_held dheld (tl_data_iter t)"

lemma length_blocks [simp]: "length blocks = length idx"
  by (simp add: blocks_def)

lemma handle_in: "i < length idx \<Longrightarrow> handle_of i \<in> snd ` set idx"
  by (simp add: handle_of_def)

lemma blocks_nth: "i < length idx \<Longrightarrow> blocks ! i = G (handle_of i)"
  by (simp add: blocks_def handle_of_def split: prod.split)

lemmas data_i = data [OF handle_in]

section \<open>The parts of a move\<close>

lemma move_index_to:
  assumes "moved (wrapped P iops) (wrapper_held iheld) world (wrapper_held dheld (tl_data_iter t) + H)
      (Wrapper_move iops move (tl_index_iter t) w)"
    and "tl_status t = Status_OK" "data_good t"
  shows "moved (\<lambda>t'. tl_status t' = Status_OK \<and> wrapped P iops (tl_index_iter t') \<and> data_good t') tl_held world H
    (move_index iops move t w)"
proof -
  from assms(1) obtain iw w' where m: "Wrapper_move iops move (tl_index_iter t) w = Some (iw, w')" "wrapped P iops iw"
    "world (wrapper_held iheld iw + (wrapper_held dheld (tl_data_iter t) + H)) w'" by (rule movedE)
  show ?thesis
    by (rule movedI [where s = "t\<lparr>tl_index_iter := iw\<rparr>" and w = w'])
      (use m assms(2,3) in \<open>simp_all add: move_index_def tl_held_def data_good_def data_null_def add.assoc\<close>)
qed

text \<open>The old data iterator has no error and is deleted.\<close>

lemma old_data:
  assumes "data_good t" "world (tl_held t + H) w"
  shows "\<exists>w'. (case iw_iter (tl_data_iter t) of None \<Rightarrow> Some w | Some s \<Rightarrow> it_delete dops s w) = Some w' \<and>
      world (wrapper_held iheld (tl_index_iter t) + H) w'"
    "(case iw_iter (tl_data_iter t) of
        None \<Rightarrow> Some t'
      | Some _ \<Rightarrow> map_option (\<lambda>s. SaveError s t') (Wrapper_status dops (tl_data_iter t))) = Some t'"
proof -
  let ?h = "tl_data_block_handle t"
  have w: "world (wrapper_held dheld (tl_data_iter t) + (wrapper_held iheld (tl_index_iter t) + H)) w"
    using assms(2) by (simp add: tl_held_def add.assoc add.left_commute)
  consider (null) "data_null t" | (some) "?h \<in> snd ` set idx" "wrapped (dgood ?h) dops (tl_data_iter t)"
    using assms(1) by (auto simp: data_good_def)
  then have "(\<exists>w'. (case iw_iter (tl_data_iter t) of None \<Rightarrow> Some w | Some s \<Rightarrow> it_delete dops s w) = Some w' \<and>
        world (wrapper_held iheld (tl_index_iter t) + H) w') \<and>
      (case iw_iter (tl_data_iter t) of
        None \<Rightarrow> Some t'
      | Some _ \<Rightarrow> map_option (\<lambda>s. SaveError s t') (Wrapper_status dops (tl_data_iter t))) = Some t'"
  proof cases
    case null
    then show ?thesis using w by (simp add: data_null_def wrapper_held_def)
  next
    case some
    then obtain d where d: "iw_iter (tl_data_iter t) = Some d" "dgood ?h d" by (auto simp: wrapped_def)
    have "it_status dops d = Some Status_OK" by (rule iterator_ok.at_status [OF data [OF some(1)] d(2)])
    then have "map_option (\<lambda>s. SaveError s t') (Wrapper_status dops (tl_data_iter t)) = Some t'"
      using d(1) by (simp add: Wrapper_status_def SaveError_def ok_def Status_OK_def)
    moreover have "\<exists>w'. it_delete dops d w = Some w' \<and> world (wrapper_held iheld (tl_index_iter t) + H) w'"
      by (rule iterator_ok.deleted [OF data [OF some(1)] d(2)]) (use w d(1) in \<open>simp add: wrapper_held_def\<close>)
    ultimately show ?thesis using d(1) by simp
  qed
  then show "\<exists>w'. (case iw_iter (tl_data_iter t) of None \<Rightarrow> Some w | Some s \<Rightarrow> it_delete dops s w) = Some w' \<and>
      world (wrapper_held iheld (tl_index_iter t) + H) w'"
    "(case iw_iter (tl_data_iter t) of
        None \<Rightarrow> Some t'
      | Some _ \<Rightarrow> map_option (\<lambda>s. SaveError s t') (Wrapper_status dops (tl_data_iter t))) = Some t'"
    by blast+
qed

lemma SetDataIterator_None:
  assumes "data_good t" "world (tl_held t + H) w"
  shows "moved (\<lambda>t'. tl_status t' = tl_status t \<and> tl_index_iter t' = tl_index_iter t \<and> data_null t') tl_held world H
    (SetDataIterator dops None t w)"
proof -
  from old_data [OF assms] obtain w' where w': "(case iw_iter (tl_data_iter t) of None \<Rightarrow> Some w | Some s \<Rightarrow> it_delete dops s w) = Some w'"
    "world (wrapper_held iheld (tl_index_iter t) + H) w'" by blast
  have "SetDataIterator dops None t w = Some (t\<lparr>tl_data_iter := tl_data_iter t\<lparr>iw_iter := None, iw_valid := False\<rparr>\<rparr>, w')"
    unfolding SetDataIterator_def old_data(2) [OF assms] Option.bind.bind_lunit Wrapper_Set_def w'(1) by simp
  then show ?thesis by (rule movedI) (use w'(2) in \<open>simp_all add: data_null_def tl_held_def wrapper_held_def\<close>)
qed

lemma SetDataIterator_Some:
  assumes "data_good t" "world (tl_held t + (dheld d + H)) w" "h \<in> snd ` set idx" "dgood h d"
  shows "moved (\<lambda>t'. tl_status t' = tl_status t \<and> tl_index_iter t' = tl_index_iter t \<and>
      tl_data_block_handle t' = h \<and> wrapped (dgood h) dops (tl_data_iter t')) tl_held world H
    (SetDataIterator dops (Some d) (t\<lparr>tl_data_block_handle := h\<rparr>) w)"
proof -
  let ?t = "t\<lparr>tl_data_block_handle := h\<rparr>"
  from old_data(1) [OF assms(1,2)] obtain w' where w': "(case iw_iter (tl_data_iter t) of None \<Rightarrow> Some w | Some s \<Rightarrow> it_delete dops s w) = Some w'"
    "world (wrapper_held iheld (tl_index_iter t) + (dheld d + H)) w'" by blast
  from Update_wrapped [where P = "dgood h", OF assms(4) iterator_ok.good_key [OF data [OF assms(3)] assms(4)], of "tl_data_iter t" dheld]
  obtain iw where iw: "Wrapper_Update dops d (tl_data_iter t) = Some iw" "wrapped (dgood h) dops iw" "wrapper_held dheld iw = dheld d" by blast
  have same: "tl_data_iter ?t = tl_data_iter t" by simp
  have "SetDataIterator dops (Some d) ?t w = Some (?t\<lparr>tl_data_iter := iw\<rparr>, w')"
    unfolding SetDataIterator_def same old_data(2) [OF assms(1,2)] Option.bind.bind_lunit Wrapper_Set_def w'(1)
    by (simp add: iw(1))
  then show ?thesis by (rule movedI) (use w'(2) iw in \<open>simp_all add: tl_held_def add.assoc\<close>)
qed

lemma wrapped_mono: "wrapped P ops iw \<Longrightarrow> (\<And>s. P s \<Longrightarrow> Q s) \<Longrightarrow> wrapped Q ops iw"
  by (auto simp: wrapped_def)

lemma data_at_good: "i < length idx \<Longrightarrow> data_at t i j \<Longrightarrow> data_good t"
  unfolding data_at_def data_good_def using handle_in data_i iterator_ok.at_good wrapped_mono by metis

lemma index_at_valid: "index_at t i \<Longrightarrow> (iw_valid (tl_index_iter t) \<longleftrightarrow> i < length idx) \<and> i \<le> length idx \<and>
    wrapped igood iops (tl_index_iter t)"
  unfolding index_at_def using index.wrapped_at by blast

text \<open>\<open>InitDataBlock\<close> makes an iterator for the block of the index position, or keeps the one it has.\<close>

lemma InitDataBlock_to:
  assumes "index_at t i" "data_good t" "world (tl_held t + H) w"
  shows "moved (\<lambda>t'. index_at t' i \<and>
      (if i < length idx then tl_data_block_handle t' = handle_of i \<and> wrapped (dgood (handle_of i)) dops (tl_data_iter t')
       else data_null t')) tl_held world H (InitDataBlock iops dops block_function t w)"
proof (cases "i < length idx")
  case False
  then have invalid: "\<not> iw_valid (tl_index_iter t)" using index_at_valid [OF assms(1)] by simp
  from SetDataIterator_None [OF assms(2,3)] obtain t' w' where "SetDataIterator dops None t w = Some (t', w')"
    "tl_status t' = tl_status t \<and> tl_index_iter t' = tl_index_iter t \<and> data_null t'" "world (tl_held t' + H) w'" by (rule movedE)
  then show ?thesis
    using invalid False assms(1) by (intro movedI [where s = t' and w = w']) (simp_all add: InitDataBlock_def index_at_def)
next
  case True
  note in_idx = handle_in [OF True]
  have index: "iw_valid (tl_index_iter t)" "Wrapper_value iops (tl_index_iter t) = Some (handle_of i)"
    using assms(1) True index.wrapped_at [of i "tl_index_iter t"] by (simp_all add: index_at_def handle_of_def)
  show ?thesis
  proof (cases "iw_iter (tl_data_iter t) \<noteq> None \<and> handle_of i = tl_data_block_handle t")
    case same: True
    then have "wrapped (dgood (handle_of i)) dops (tl_data_iter t)" using assms(2) by (auto simp: data_good_def data_null_def)
    then show ?thesis
      using same index True assms(1,3) by (intro movedI [where s = t and w = w]) (simp_all add: InitDataBlock_def)
  next
    case other: False
    from block_reader [OF in_idx assms(3)] obtain d w1 where
      d: "block_function (handle_of i) w = Some (d, w1)" "dgood (handle_of i) d" "world (dheld d + (tl_held t + H)) w1" by (rule movedE)
    have "world (tl_held t + (dheld d + H)) w1" using d(3) by (simp add: add.left_commute)
    from SetDataIterator_Some [OF assms(2) this in_idx d(2)] obtain t' w' where
      t': "SetDataIterator dops (Some d) (t\<lparr>tl_data_block_handle := handle_of i\<rparr>) w1 = Some (t', w')"
      "tl_status t' = tl_status t \<and> tl_index_iter t' = tl_index_iter t \<and> tl_data_block_handle t' = handle_of i \<and>
        wrapped (dgood (handle_of i)) dops (tl_data_iter t')" "world (tl_held t' + H) w'" by (rule movedE)
    have "InitDataBlock iops dops block_function t w = Some (t', w')"
      using index other d(1) t'(1) by (auto simp: InitDataBlock_def)
    then show ?thesis by (rule movedI) (use t'(2,3) True assms(1) in \<open>simp_all add: index_at_def\<close>)
  qed
qed

text \<open>A move of the data iterator.\<close>

lemma move_data_to:
  assumes "moved (wrapped P dops) (wrapper_held dheld) world (wrapper_held iheld (tl_index_iter t) + H)
      (Wrapper_move dops move (tl_data_iter t) w)"
  shows "moved (\<lambda>t'. tl_status t' = tl_status t \<and> tl_index_iter t' = tl_index_iter t \<and>
      tl_data_block_handle t' = tl_data_block_handle t \<and> wrapped P dops (tl_data_iter t')) tl_held world H (move_data dops move t w)"
proof -
  from assms obtain iw w' where m: "Wrapper_move dops move (tl_data_iter t) w = Some (iw, w')" "wrapped P dops iw"
    "world (wrapper_held dheld iw + (wrapper_held iheld (tl_index_iter t) + H)) w'" by (rule movedE)
  show ?thesis
    by (rule movedI [where s = "t\<lparr>tl_data_iter := iw\<rparr>" and w = w'])
      (use m in \<open>simp_all add: move_data_def tl_held_def add.assoc add.left_commute\<close>)
qed

text \<open>After \<open>InitDataBlock\<close> the data iterator is moved to a position \<open>pos\<close> of its block.\<close>

lemma init_and_move:
  assumes "index_at t i" "data_good t" "world (tl_held t + H) w"
    and "\<And>iw w H. i < length idx \<Longrightarrow> wrapped (dgood (handle_of i)) dops iw \<Longrightarrow> world (wrapper_held dheld iw + H) w \<Longrightarrow>
      moved (wrapped (\<lambda>d. dat (handle_of i) d pos) dops) (wrapper_held dheld) world H (Wrapper_move dops move iw w)"
    and "\<not> i < length idx \<Longrightarrow> pos = 0"
  shows "moved (both_at i pos) tl_held world H
    (Option.bind (InitDataBlock iops dops block_function t w) (\<lambda>(t, w). move_data_if_any dops move t w))"
proof -
  from InitDataBlock_to [OF assms(1-3)] obtain t1 w1 where 1: "InitDataBlock iops dops block_function t w = Some (t1, w1)"
    "index_at t1 i \<and> (if i < length idx then tl_data_block_handle t1 = handle_of i \<and> wrapped (dgood (handle_of i)) dops (tl_data_iter t1)
       else data_null t1)" "world (tl_held t1 + H) w1" by (rule movedE)
  show ?thesis
  proof (cases "i < length idx")
    case True
    have "world (wrapper_held dheld (tl_data_iter t1) + (wrapper_held iheld (tl_index_iter t1) + H)) w1"
      using 1(3) by (simp add: tl_held_def add.assoc add.left_commute)
    with True 1(2) have "moved (wrapped (\<lambda>d. dat (handle_of i) d pos) dops) (wrapper_held dheld) world
        (wrapper_held iheld (tl_index_iter t1) + H) (Wrapper_move dops move (tl_data_iter t1) w1)" by (intro assms(4)) simp_all
    from move_data_to [OF this] obtain t2 w2 where 2: "move_data dops move t1 w1 = Some (t2, w2)"
      "tl_status t2 = tl_status t1 \<and> tl_index_iter t2 = tl_index_iter t1 \<and> tl_data_block_handle t2 = tl_data_block_handle t1 \<and>
        wrapped (\<lambda>d. dat (handle_of i) d pos) dops (tl_data_iter t2)" "world (tl_held t2 + H) w2" by (rule movedE)
    have "iw_iter (tl_data_iter t1) \<noteq> None" using 1(2) True by (auto simp: wrapped_def)
    with 1(1) 2(1) have "Option.bind (InitDataBlock iops dops block_function t w) (\<lambda>(t, w). move_data_if_any dops move t w) = Some (t2, w2)"
      by (simp add: move_data_if_any_def)
    then show ?thesis by (rule movedI) (use 1(2) 2(2,3) True in \<open>simp_all add: both_at_def index_at_def data_at_def\<close>)
  next
    case False
    with 1(1,2) have "Option.bind (InitDataBlock iops dops block_function t w) (\<lambda>(t, w). move_data_if_any dops move t w) = Some (t1, w1)"
      by (simp add: move_data_if_any_def data_null_def)
    then show ?thesis by (rule movedI) (use 1(2,3) False assms(5) in \<open>simp_all add: both_at_def\<close>)
  qed
qed

section \<open>The loops\<close>

lemma both_at_valid:
  assumes "both_at i j t" "i < length idx"
  shows "iw_iter (tl_data_iter t) \<noteq> None" "iw_valid (tl_data_iter t) \<longleftrightarrow> j < length (blocks ! i)" "j \<le> length (blocks ! i)"
    "data_good t" "iw_valid (tl_index_iter t)"
proof -
  from assms have at: "data_at t i j" "index_at t i" by (simp_all add: both_at_def)
  then show "iw_iter (tl_data_iter t) \<noteq> None" by (auto simp: data_at_def wrapped_def)
  show "iw_valid (tl_data_iter t) \<longleftrightarrow> j < length (blocks ! i)" "j \<le> length (blocks ! i)"
    using iterator_ok.wrapped_at(1,5) [OF data_i [OF assms(2)]] at(1) by (auto simp: data_at_def blocks_nth [OF assms(2)])
  show "data_good t" by (rule data_at_good [OF assms(2) at(1)])
  show "iw_valid (tl_index_iter t)" using index_at_valid [OF at(2)] assms(2) by simp
qed

lemma both_at_end: "both_at i j t \<Longrightarrow> \<not> i < length idx \<Longrightarrow> i = length idx \<and> j = 0 \<and> data_null t \<and> \<not> iw_valid (tl_index_iter t)"
  using index_at_valid [of t i] by (auto simp: both_at_def)

lemma both_at_index: "both_at i j t \<Longrightarrow> index_at t i \<and> wrapped (\<lambda>s. iat s i) iops (tl_index_iter t) \<and> tl_status t = Status_OK"
  by (simp add: both_at_def index_at_def)

text \<open>The index moves to the next or the previous block.\<close>

lemma index_step:
  assumes "both_at i j t" "i < length idx" "world (tl_held t + H) w"
  shows "moved (\<lambda>t'. index_at t' (i + 1) \<and> data_good t') tl_held world H (move_index iops (it_Next iops) t w)"
    "moved (\<lambda>t'. index_at t' (if i = 0 then length idx else i - 1) \<and> data_good t') tl_held world H (move_index iops (it_Prev iops) t w)"
proof -
  have "world (wrapper_held iheld (tl_index_iter t) + (wrapper_held dheld (tl_data_iter t) + H)) w"
    using assms(3) by (simp add: tl_held_def add.assoc)
  note steps = index.wrapped_steps [OF _ assms(2) this]
  have t: "wrapped (\<lambda>s. iat s i) iops (tl_index_iter t)" "tl_status t = Status_OK" "data_good t"
    using both_at_index [OF assms(1)] both_at_valid [OF assms(1,2)] by simp_all
  show "moved (\<lambda>t'. index_at t' (i + 1) \<and> data_good t') tl_held world H (move_index iops (it_Next iops) t w)"
    using move_index_to [OF steps(1) [OF t(1)] t(2,3)] by (simp add: index_at_def conj_assoc)
  show "moved (\<lambda>t'. index_at t' (if i = 0 then length idx else i - 1) \<and> data_good t') tl_held world H (move_index iops (it_Prev iops) t w)"
    using move_index_to [OF steps(2) [OF t(1)] t(2,3)] by (simp add: index_at_def conj_assoc)
qed

lemma data_moves:
  assumes "i < length idx" "wrapped (dgood (handle_of i)) dops iw" "world (wrapper_held dheld iw + H) w"
  shows "moved (wrapped (\<lambda>d. dat (handle_of i) d 0) dops) (wrapper_held dheld) world H (Wrapper_move dops (it_SeekToFirst dops) iw w)"
    "moved (wrapped (\<lambda>d. dat (handle_of i) d (length (blocks ! i) - 1)) dops) (wrapper_held dheld) world H
       (Wrapper_move dops (it_SeekToLast dops) iw w)"
    "valid target \<Longrightarrow> moved (wrapped (\<lambda>d. dat (handle_of i) d (seek_pos c target (blocks ! i))) dops) (wrapper_held dheld) world H
       (Wrapper_move dops (it_Seek dops target) iw w)"
  using iterator_ok.wrapped_moves [OF data_i [OF assms(1)] assms(2,3)] by (simp_all add: blocks_nth [OF assms(1)])

lemma tl_at_end: "index_at t (length idx) \<Longrightarrow> data_null t \<Longrightarrow> tl_at t (length all_entries)"
  unfolding tl_at_def by (rule exI [of _ "length idx"], rule exI [of _ 0])
    (use block_offset_simps(2) [of blocks] in \<open>simp add: both_at_def all_entries_def\<close>)

lemma no_more_blocks:
  assumes "both_at i j t" "\<not> i < length idx" "world (tl_held t + H) w"
  shows "moved (\<lambda>t'. tl_at t' (length all_entries)) tl_held world H (SetDataIterator dops None t w)"
proof -
  note e = both_at_end [OF assms(1,2)]
  then have "data_good t" by (simp add: data_good_def)
  from SetDataIterator_None [OF this assms(3)] obtain t' w' where 1: "SetDataIterator dops None t w = Some (t', w')"
    "tl_status t' = tl_status t \<and> tl_index_iter t' = tl_index_iter t \<and> data_null t'" "world (tl_held t' + H) w'" by (rule movedE)
  then have "index_at t' (length idx)" using both_at_index [OF assms(1)] e by (simp add: index_at_def)
  with 1 show ?thesis using tl_at_end by (intro movedI [where s = t' and w = w']) simp_all
qed

lemma skip_forward:
  assumes "both_at i j t" "world (tl_held t + H) w"
  shows "moved (\<lambda>t'. tl_at t' (block_offset blocks i + j)) tl_held world H (SkipEmptyDataBlocksForward iops dops block_function t w)"
  using assms
proof (induction "length idx - i" arbitrary: i j t w rule: less_induct)
  case less
  note b = less.prems(1)
  show ?case
  proof (cases "i < length idx")
    case False
    note e = both_at_end [OF b False]
    then have "SkipEmptyDataBlocksForward iops dops block_function t w = SetDataIterator dops None t w"
      by (subst SkipEmptyDataBlocksForward.simps) (simp add: data_null_def)
    moreover have "block_offset blocks i + j = length all_entries"
      using e block_offset_simps(2) [of blocks] by (simp add: all_entries_def)
    ultimately show ?thesis using no_more_blocks [OF b False less.prems(2)] by simp
  next
    case True
    note v = both_at_valid [OF b True]
    show ?thesis
    proof (cases "j < length (blocks ! i)")
      case at_entry: True
      have "SkipEmptyDataBlocksForward iops dops block_function t w = Some (t, w)"
        by (subst SkipEmptyDataBlocksForward.simps) (use v at_entry in auto)
      then show ?thesis by (rule movedI) (use b at_entry less.prems(2) in \<open>auto simp: tl_at_def\<close>)
    next
      case False
      from index_step(1) [OF b True less.prems(2)] obtain t1 w1 where 1: "move_index iops (it_Next iops) t w = Some (t1, w1)"
        "index_at t1 (i + 1) \<and> data_good t1" "world (tl_held t1 + H) w1" by (rule movedE)
      from init_and_move [of t1 "i + 1" H w1 0 "it_SeekToFirst dops"] data_moves(1) 1(2,3) obtain t2 w2 where
        2: "Option.bind (InitDataBlock iops dops block_function t1 w1) (\<lambda>(t, w). move_data_if_any dops (it_SeekToFirst dops) t w) = Some (t2, w2)"
          "both_at (i + 1) 0 t2" "world (tl_held t2 + H) w2" by (auto elim!: movedE)
      have "SkipEmptyDataBlocksForward iops dops block_function t w = SkipEmptyDataBlocksForward iops dops block_function t2 w2"
        by (subst SkipEmptyDataBlocksForward.simps) (use v False 1(1) 2(1) in \<open>auto simp: bind_eq_Some_conv\<close>)
      moreover have "block_offset blocks (i + 1) = block_offset blocks i + j"
        using True False v(3) by (simp add: block_offset_Suc)
      ultimately show ?thesis using less.hyps [OF _ 2(2,3)] True by simp
    qed
  qed
qed

lemma skip_backward:
  assumes "both_at i j t" "world (tl_held t + H) w"
  shows "moved (\<lambda>t'. tl_at t' (if i < length idx \<and> j < length (blocks ! i) then block_offset blocks i + j
      else if i < length idx \<and> block_offset blocks i \<noteq> 0 then block_offset blocks i - 1 else length all_entries))
    tl_held world H (SkipEmptyDataBlocksBackward iops dops block_function t w)"
  using assms
proof (induction "if i < length idx then Suc i else 0" arbitrary: i j t w rule: less_induct)
  case less
  note b = less.prems(1)
  show ?case
  proof (cases "i < length idx")
    case False
    then have "SkipEmptyDataBlocksBackward iops dops block_function t w = SetDataIterator dops None t w"
      using both_at_end [OF b False] by (subst SkipEmptyDataBlocksBackward.simps) (simp add: data_null_def)
    then show ?thesis using no_more_blocks [OF b False less.prems(2)] False by simp
  next
    case True
    note v = both_at_valid [OF b True]
    show ?thesis
    proof (cases "j < length (blocks ! i)")
      case at_entry: True
      have "SkipEmptyDataBlocksBackward iops dops block_function t w = Some (t, w)"
        by (subst SkipEmptyDataBlocksBackward.simps) (use v at_entry in auto)
      then show ?thesis by (rule movedI) (use b at_entry True less.prems(2) in \<open>auto simp: tl_at_def\<close>)
    next
      case False
      let ?i = "if i = 0 then length idx else i - 1"
      let ?j = "if i = 0 then 0 else length (blocks ! (i - 1)) - 1"
      from index_step(2) [OF b True less.prems(2)] obtain t1 w1 where 1: "move_index iops (it_Prev iops) t w = Some (t1, w1)"
        "index_at t1 ?i \<and> data_good t1" "world (tl_held t1 + H) w1" by (rule movedE)
      have "moved (both_at ?i ?j) tl_held world H
          (Option.bind (InitDataBlock iops dops block_function t1 w1) (\<lambda>(t, w). move_data_if_any dops (it_SeekToLast dops) t w))"
        by (rule init_and_move) (use 1(2,3) data_moves(2) [of "i - 1"] True in \<open>auto split: if_splits\<close>)
      then obtain t2 w2 where
        2: "Option.bind (InitDataBlock iops dops block_function t1 w1) (\<lambda>(t, w). move_data_if_any dops (it_SeekToLast dops) t w) = Some (t2, w2)"
          "both_at ?i ?j t2" "world (tl_held t2 + H) w2" by (rule movedE)
      have step: "SkipEmptyDataBlocksBackward iops dops block_function t w = SkipEmptyDataBlocksBackward iops dops block_function t2 w2"
        by (subst SkipEmptyDataBlocksBackward.simps) (use v False 1(1) 2(1) in \<open>auto simp: bind_eq_Some_conv\<close>)
      have pos: "(if ?i < length idx \<and> ?j < length (blocks ! ?i) then block_offset blocks ?i + ?j
          else if ?i < length idx \<and> block_offset blocks ?i \<noteq> 0 then block_offset blocks ?i - 1 else length all_entries) =
        (if block_offset blocks i \<noteq> 0 then block_offset blocks i - 1 else length all_entries)"
        using True block_offset_Suc [of "i - 1" blocks] by (cases i) (auto simp: Suc_leI)
      from step less.hyps [OF _ 2(2,3)] True False show ?thesis unfolding pos by simp
    qed
  qed
qed

section \<open>The contract is kept\<close>

lemma tl_at_cases:
  assumes "tl_at t k" "k < length all_entries"
  obtains i j where "both_at i j t" "i < length idx" "j < length (blocks ! i)" "k = block_offset blocks i + j"
proof -
  from assms(1) obtain i j where ij: "both_at i j t" "k = block_offset blocks i + j" "i < length idx \<longrightarrow> j < length (blocks ! i)"
    by (auto simp: tl_at_def)
  have "i < length idx"
  proof (rule ccontr)
    assume "\<not> i < length idx"
    then have "k = length all_entries"
      using both_at_end [OF ij(1)] ij(2) block_offset_simps(2) [of blocks] by (simp add: all_entries_def)
    with assms(2) show False by simp
  qed
  with ij that show thesis by blast
qed

lemma tl_at_good:
  assumes "tl_at t k"
  shows "tl_good t" "k \<le> length all_entries" "iw_valid (tl_data_iter t) \<longleftrightarrow> k < length all_entries"
proof -
  from assms obtain i j where ij: "both_at i j t" "k = block_offset blocks i + j" "i < length idx \<longrightarrow> j < length (blocks ! i)"
    by (auto simp: tl_at_def)
  have index: "wrapped igood iops (tl_index_iter t)" "tl_status t = Status_OK"
    using both_at_index [OF ij(1)] index.wrapped_at(6) by blast+
  have "tl_good t \<and> k \<le> length all_entries \<and> (iw_valid (tl_data_iter t) \<longleftrightarrow> k < length all_entries)"
  proof (cases "i < length idx")
    case True
    then show ?thesis
      using index ij both_at_valid [OF ij(1) True] block_offset_end [of i blocks] by (simp add: tl_good_def all_entries_def)
  next
    case False
    then show ?thesis
      using index ij(2) both_at_end [OF ij(1)] block_offset_simps(2) [of blocks]
      by (simp add: tl_good_def data_good_def data_null_def all_entries_def)
  qed
  then show "tl_good t" "k \<le> length all_entries" "iw_valid (tl_data_iter t) \<longleftrightarrow> k < length all_entries" by blast+
qed

lemma tl_entry:
  assumes "tl_at t k" "k < length all_entries"
  shows "Wrapper_key (tl_data_iter t) = Some (fst (all_entries ! k)) \<and> Wrapper_value dops (tl_data_iter t) = Some (snd (all_entries ! k))"
proof -
  from assms obtain i j where ij: "both_at i j t" "i < length idx" "j < length (blocks ! i)" "k = block_offset blocks i + j"
    by (rule tl_at_cases)
  have "all_entries ! k = G (handle_of i) ! j"
    using ij concat_nth_block [of i blocks j] by (simp add: all_entries_def blocks_nth)
  moreover have "wrapped (\<lambda>d. dat (handle_of i) d j) dops (tl_data_iter t)" using ij(1,2) by (simp add: both_at_def data_at_def)
  ultimately show ?thesis
    using iterator_ok.wrapped_at(2,3) [OF data_i [OF ij(2)]] ij(2,3) by (simp add: blocks_nth)
qed

lemma tl_status_ok:
  assumes "tl_good t"
  shows "TwoLevel_status iops dops t = Some Status_OK"
proof -
  have index: "Wrapper_status iops (tl_index_iter t) = Some Status_OK"
    using assms index.at_status by (auto simp: tl_good_def wrapped_def Wrapper_status_def)
  have "Wrapper_status dops (tl_data_iter t) = Some Status_OK" if "iw_iter (tl_data_iter t) \<noteq> None"
  proof -
    from that assms have d: "tl_data_block_handle t \<in> snd ` set idx" "wrapped (dgood (tl_data_block_handle t)) dops (tl_data_iter t)"
      by (auto simp: tl_good_def data_good_def data_null_def)
    then show ?thesis using iterator_ok.at_status [OF data [OF d(1)]] by (auto simp: wrapped_def Wrapper_status_def)
  qed
  with index assms show ?thesis by (auto simp: TwoLevel_status_def tl_good_def)
qed

lemma tl_deleted:
  assumes "tl_good t" "world (tl_held t + H) w"
  shows "\<exists>w'. TwoLevel_delete iops dops t w = Some w' \<and> world H w'"
proof -
  from assms(1) have good: "data_good t" "wrapped igood iops (tl_index_iter t)" by (simp_all add: tl_good_def)
  from old_data(1) [OF good(1) assms(2)] obtain w1 where 1: "Wrapper_delete dops (tl_data_iter t) w = Some w1"
    "world (wrapper_held iheld (tl_index_iter t) + H) w1" by (auto simp: Wrapper_delete_def)
  from index.wrapped_deleted [OF good(2) 1(2)] 1(1) show ?thesis by (auto simp: TwoLevel_delete_def)
qed

text \<open>The three seeks: the index is moved to block \<open>i\<close>, the data iterator to \<open>pos\<close> in it.\<close>

lemma TwoLevel_seek_to:
  assumes "tl_good t" "world (tl_held t + H) w"
    and "\<And>iw w H. wrapped igood iops iw \<Longrightarrow> world (wrapper_held iheld iw + H) w \<Longrightarrow>
      moved (wrapped (\<lambda>s. iat s i) iops) (wrapper_held iheld) world H (Wrapper_move iops seek_index iw w)"
    and "\<And>iw w H. i < length idx \<Longrightarrow> wrapped (dgood (handle_of i)) dops iw \<Longrightarrow> world (wrapper_held dheld iw + H) w \<Longrightarrow>
      moved (wrapped (\<lambda>d. dat (handle_of i) d pos) dops) (wrapper_held dheld) world H (Wrapper_move dops seek_data iw w)"
    and "\<not> i < length idx \<Longrightarrow> pos = 0"
    and "\<And>t w. both_at i pos t \<Longrightarrow> world (tl_held t + H) w \<Longrightarrow> moved P tl_held world H (skip t w)"
  shows "moved P tl_held world H (TwoLevel_seek iops dops block_function seek_index seek_data skip t w)"
proof -
  have good: "wrapped igood iops (tl_index_iter t)" "tl_status t = Status_OK" "data_good t"
    using assms(1) by (simp_all add: tl_good_def)
  have "moved (wrapped (\<lambda>s. iat s i) iops) (wrapper_held iheld) world (wrapper_held dheld (tl_data_iter t) + H)
      (Wrapper_move iops seek_index (tl_index_iter t) w)"
    by (rule assms(3) [OF good(1)]) (use assms(2) in \<open>simp add: tl_held_def add.assoc\<close>)
  from move_index_to [OF this good(2,3)] obtain t1 w1 where 1: "move_index iops seek_index t w = Some (t1, w1)"
    "index_at t1 i" "data_good t1" "world (tl_held t1 + H) w1" by (auto simp: index_at_def elim!: movedE)
  from init_and_move [OF 1(2,3,4) assms(4,5)] obtain t2 w2 where
    2: "Option.bind (InitDataBlock iops dops block_function t1 w1) (\<lambda>(t, w). move_data_if_any dops seek_data t w) = Some (t2, w2)"
      "both_at i pos t2" "world (tl_held t2 + H) w2" by (auto elim!: movedE)
  have "TwoLevel_seek iops dops block_function seek_index seek_data skip t w = skip t2 w2"
    using 1(1) 2(1) by (auto simp: TwoLevel_seek_def bind_eq_Some_conv)
  with assms(6) [OF 2(2,3)] show ?thesis by simp
qed

lemma seek_pos_all:
  assumes "valid target"
  shows "seek_pos c target all_entries = block_offset blocks (seek_pos c target idx) +
    (if seek_pos c target idx < length idx then seek_pos c target (blocks ! seek_pos c target idx) else 0)"
proof -
  define before where "before = (\<lambda>e :: entry. cmp_Compare c (fst e) target < 0)"
  define i where "i = length (takeWhile before idx)"
  have i: "seek_pos c target idx = i" by (simp add: seek_pos_def i_def before_def)
  have front: "\<forall>xs \<in> set (take i blocks). \<forall>x \<in> set xs. before x"
  proof (intro ballI)
    fix xs x assume xs: "xs \<in> set (take i blocks)" and x: "x \<in> set xs"
    then obtain n where n: "n < i" "n < length idx" "xs = blocks ! n" by (auto simp: in_set_conv_nth)
    have "before (idx ! n)"
      using n(1) nth_mem [of n "takeWhile before idx"] set_takeWhileD [of _ before idx] takeWhile_nth [of n before idx] by (auto simp: i_def)
    then show "before x"
      using before_target [OF assms n(2)] x n(2,3) by (simp add: before_def blocks_nth handle_of_def)
  qed
  show ?thesis
  proof (cases "i < length idx")
    case True
    then have at: "\<not> before (idx ! i)" using nth_length_takeWhile [of before idx] by (simp add: i_def)
    have behind: "\<forall>xs \<in> set (drop (Suc i) blocks). \<forall>x \<in> set xs. \<not> before x"
    proof (intro ballI)
      fix xs x assume xs: "xs \<in> set (drop (Suc i) blocks)" and x: "x \<in> set xs"
      then obtain m where "m < length (drop (Suc i) blocks)" "xs = drop (Suc i) blocks ! m" by (auto simp: in_set_conv_nth)
      then have "i < Suc i + m" "Suc i + m < length idx" "xs = blocks ! (Suc i + m)" by simp_all
      then show "\<not> before x"
        using after_target [OF assms, of i "Suc i + m"] at x by (simp add: before_def blocks_nth handle_of_def)
    qed
    show ?thesis
      using takeWhile_blocks [of i blocks before] True front behind i by (simp add: seek_pos_def all_entries_def before_def)
  next
    case False
    then have "i = length idx" using length_takeWhile_le [of before idx] by (simp add: i_def)
    then have "\<forall>e \<in> set all_entries. before e" using front by (auto simp: all_entries_def)
    then have "length (takeWhile before all_entries) = length all_entries"
      by (subst iffD2 [OF takeWhile_eq_all_conv]) auto
    then show ?thesis
      using i \<open>i = length idx\<close> block_offset_simps(2) [of blocks] by (simp add: seek_pos_def all_entries_def before_def)
  qed
qed

lemma last_offset:
  assumes "idx \<noteq> []"
  shows "length all_entries = block_offset blocks (length idx - 1) + length (blocks ! (length idx - 1))"
  using assms block_offset_Suc [of "length idx - 1" blocks] block_offset_simps(2) [of blocks] by (simp add: all_entries_def)

lemma tl_step:
  assumes "both_at i j t" "i < length idx" "j < length (blocks ! i)" "world (tl_held t + H) w"
  shows "moved (both_at i (j + 1)) tl_held world H (move_data dops (it_Next dops) t w)"
    "moved (both_at i (if j = 0 then length (blocks ! i) else j - 1)) tl_held world H (move_data dops (it_Prev dops) t w)"
proof -
  have at: "index_at t i" "data_at t i j" using assms(1,2) by (simp_all add: both_at_def)
  have "world (wrapper_held dheld (tl_data_iter t) + (wrapper_held iheld (tl_index_iter t) + H)) w"
    using assms(4) by (simp add: tl_held_def add.assoc add.left_commute)
  note steps = iterator_ok.wrapped_steps [OF data_i [OF assms(2)] _ _ this, of j]
  have both: "moved (both_at i k) tl_held world H r"
    if "moved (\<lambda>t'. tl_status t' = tl_status t \<and> tl_index_iter t' = tl_index_iter t \<and>
      tl_data_block_handle t' = tl_data_block_handle t \<and> wrapped (\<lambda>d. dat (handle_of i) d k) dops (tl_data_iter t')) tl_held world H r" for k r
    using that at assms(2) by (auto simp: both_at_def index_at_def data_at_def elim!: movedE intro!: movedI)
  show "moved (both_at i (j + 1)) tl_held world H (move_data dops (it_Next dops) t w)"
    by (rule both, rule move_data_to) (use steps(1) at(2) assms(2,3) in \<open>simp add: data_at_def blocks_nth\<close>)
  show "moved (both_at i (if j = 0 then length (blocks ! i) else j - 1)) tl_held world H (move_data dops (it_Prev dops) t w)"
    by (rule both, rule move_data_to, cases j) (use steps(2) at(2) assms(2,3) in \<open>simp_all add: data_at_def blocks_nth\<close>)
qed

text \<open>The main theorem.\<close>

lemma tl_seeks:
  assumes "tl_good t" "world (tl_held t + H) w"
  shows "moved (\<lambda>t. tl_at t 0) tl_held world H (it_SeekToFirst (two_level_ops iops dops block_function) t w)"
    "moved (\<lambda>t. tl_at t (length all_entries - 1)) tl_held world H (it_SeekToLast (two_level_ops iops dops block_function) t w)"
    "valid target \<Longrightarrow>
      moved (\<lambda>t. tl_at t (seek_pos c target all_entries)) tl_held world H (it_Seek (two_level_ops iops dops block_function) target t w)"
proof -
  show "moved (\<lambda>t. tl_at t 0) tl_held world H (it_SeekToFirst (two_level_ops iops dops block_function) t w)"
    unfolding two_level_ops_def Let_def iterator.simps
    by (rule TwoLevel_seek_to [where i = 0 and pos = 0, OF assms index.wrapped_moves(1) data_moves(1)])
      (use skip_forward [of 0 0] in simp_all)
  show "moved (\<lambda>t. tl_at t (length all_entries - 1)) tl_held world H (it_SeekToLast (two_level_ops iops dops block_function) t w)"
    unfolding two_level_ops_def Let_def iterator.simps
  proof (rule TwoLevel_seek_to [where i = "length idx - 1" and
        pos = "if idx = [] then 0 else length (blocks ! (length idx - 1)) - 1", OF assms index.wrapped_moves(2)])
    fix t w assume t: "both_at (length idx - 1) (if idx = [] then 0 else length (blocks ! (length idx - 1)) - 1) t"
      and w: "world (tl_held t + H) w"
    show "moved (\<lambda>t. tl_at t (length all_entries - 1)) tl_held world H (SkipEmptyDataBlocksBackward iops dops block_function t w)"
    proof (cases "idx = []")
      case True
      then have "all_entries = []" unfolding all_entries_def blocks_def by simp
      then show ?thesis using skip_backward [OF t w] True by simp
    next
      case False
      then show ?thesis using skip_backward [OF t w] last_offset [OF False]
        by (cases "blocks ! (length idx - 1) = []"; cases "block_offset blocks (length idx - 1) = 0") (simp_all add: Suc_leI)
    qed
  qed (use data_moves(2) in auto)
  show "moved (\<lambda>t. tl_at t (seek_pos c target all_entries)) tl_held world H (it_Seek (two_level_ops iops dops block_function) target t w)"
    if "valid target"
    unfolding two_level_ops_def Let_def iterator.simps
    by (rule TwoLevel_seek_to [where i = "seek_pos c target idx" and
          pos = "if seek_pos c target idx < length idx then seek_pos c target (blocks ! seek_pos c target idx) else 0",
          OF assms index.wrapped_moves(3) [OF _ _ that]])
      (use data_moves(3) [OF _ _ _ that] skip_forward [of "seek_pos c target idx"] seek_pos_all [OF that] in \<open>auto split: if_splits\<close>)
qed

lemma tl_steps:
  assumes "tl_at t k" "k < length all_entries" "world (tl_held t + H) w"
  shows "moved (\<lambda>t. tl_at t (k + 1)) tl_held world H (it_Next (two_level_ops iops dops block_function) t w)"
    "moved (\<lambda>t. tl_at t (if k = 0 then length all_entries else k - 1)) tl_held world H (it_Prev (two_level_ops iops dops block_function) t w)"
proof -
  from assms(1,2) obtain i j where ij: "both_at i j t" "i < length idx" "j < length (blocks ! i)" "k = block_offset blocks i + j"
    by (rule tl_at_cases)
  have v: "iw_valid (tl_data_iter t)" using tl_at_good(3) [OF assms(1)] assms(2) by simp
  from tl_step(1) [OF ij(1-3) assms(3)] obtain t1 w1 where 1: "move_data dops (it_Next dops) t w = Some (t1, w1)"
    "both_at i (j + 1) t1" "world (tl_held t1 + H) w1" by (rule movedE)
  show "moved (\<lambda>t. tl_at t (k + 1)) tl_held world H (it_Next (two_level_ops iops dops block_function) t w)"
    using skip_forward [OF 1(2,3)] v 1(1) ij(4) by (simp add: two_level_ops_def Let_def asserting_def)
  from tl_step(2) [OF ij(1-3) assms(3)] obtain t2 w2 where 2: "move_data dops (it_Prev dops) t w = Some (t2, w2)"
    "both_at i (if j = 0 then length (blocks ! i) else j - 1) t2" "world (tl_held t2 + H) w2" by (rule movedE)
  show "moved (\<lambda>t. tl_at t (if k = 0 then length all_entries else k - 1)) tl_held world H
      (it_Prev (two_level_ops iops dops block_function) t w)"
    using skip_backward [OF 2(2,3)] v 2(1) ij(2,3,4) by (cases j; cases "block_offset blocks i = 0") (simp_all add: two_level_ops_def Let_def asserting_def)
qed

lemma two_level_ok:
  "iterator_ok (two_level_ops iops dops block_function) c valid all_entries tl_good tl_at tl_held world"
proof
  fix t k and w :: 'w and H :: "'h multiset"
  show "tl_good t \<and> k \<le> length all_entries" if "tl_at t k" using tl_at_good [OF that] by simp
  show "it_Valid (two_level_ops iops dops block_function) t \<longleftrightarrow> k < length all_entries" if "tl_at t k"
    using tl_at_good [OF that] by (simp add: two_level_ops_def Let_def)
  show "it_key (two_level_ops iops dops block_function) t = Some (fst (all_entries ! k)) \<and>
      it_value (two_level_ops iops dops block_function) t = Some (snd (all_entries ! k))"
    if "tl_at t k" "k < length all_entries"
    using tl_entry [OF that] tl_at_good [OF that(1)] that(2) by (simp add: two_level_ops_def Let_def asserting_def)
  show "it_key (two_level_ops iops dops block_function) t \<noteq> None"
    if "tl_good t" "it_Valid (two_level_ops iops dops block_function) t"
    using that by (simp add: two_level_ops_def Let_def asserting_def Wrapper_key_def)
  show "it_status (two_level_ops iops dops block_function) t = Some Status_OK" if "tl_good t"
    using tl_status_ok [OF that] by (simp add: two_level_ops_def Let_def)
  show "\<exists>w'. it_delete (two_level_ops iops dops block_function) t w = Some w' \<and> world H w'"
    if "tl_good t" "world (tl_held t + H) w"
    using tl_deleted [OF that] by (simp add: two_level_ops_def Let_def)
qed (fact tl_seeks tl_steps)+

lemma TwoLevelIterator_good:
  assumes "igood s" "world (iheld s + H) w"
  shows "moved tl_good tl_held world H (TwoLevelIterator iops s w)"
proof -
  from Update_wrapped [where P = igood and held = iheld, OF assms(1) index.good_key [OF assms(1)], of IteratorWrapper] obtain iw where
    "Wrapper_Update iops s IteratorWrapper = Some iw" "wrapped igood iops iw" "wrapper_held iheld iw = iheld s" by blast
  with assms(2) show ?thesis
    by (auto simp: moved_def TwoLevelIterator_def Wrapper_Set_def IteratorWrapper_def tl_good_def data_good_def data_null_def
        tl_held_def wrapper_held_def)
qed

end

end
