(* ===== verification/Ldb_Table_Correct.thy ===== *)
theory Ldb_Table_Correct
  imports Ldb_Table Ldb_Table_Written Ldb_Two_Level_Correct
begin

text \<open>
  A table file that the builder has written can be opened, with or without a block cache; the iterator
  of the table keeps the contract of an iterator over all entries, and a lookup finds every key.
\<close>

section \<open>Iterators with one cleanup function\<close>

text \<open>The handles that an iterator over a block holds, with the block they stand for.\<close>

definition iterator_block :: "block_iterator \<Rightarrow> block" where
  "iterator_block s = (case s of Entry_iterator it \<Rightarrow> the (Block_new (bi_data it)) | _ \<Rightarrow> undefined)"

definition cleanup_held :: "block \<Rightarrow> 'h cleanup \<Rightarrow> ('h \<times> block) multiset" where
  "cleanup_held b f = (case f of DeleteBlock \<Rightarrow> {#} | ReleaseBlock h \<Rightarrow> {#(h, b)#})"

definition data_held :: "'h data_iterator \<Rightarrow> ('h \<times> block) multiset" where
  "data_held = (\<lambda>(s, cleanups). \<Sum>f \<in># mset cleanups. cleanup_held (iterator_block s) f)"

text \<open>The shared state: the file can be read, and the cache has these clients.\<close>

definition table_world ::
  "(block, 'h, 'c) cache option \<Rightarrow> ((slice \<Rightarrow> block \<Rightarrow> bool) \<Rightarrow> ('h \<times> block) multiset \<Rightarrow> 'c \<Rightarrow> bool) \<Rightarrow>
   (slice \<Rightarrow> block \<Rightarrow> bool) \<Rightarrow> ('k \<Rightarrow> bool) \<Rightarrow> ('h \<times> block) multiset \<Rightarrow> 'k \<times> 'c \<Rightarrow> bool" where
  "table_world block_cache holds P ready H = (\<lambda>(k, c).
     ready k \<and> (case block_cache of None \<Rightarrow> H = {#} | Some cache \<Rightarrow> cache_ok cache holds \<and> holds P H c))"

lemma run_cleanup_world:
  assumes "table_world block_cache holds P ready (cleanup_held b f + H) w"
  shows "\<exists>w'. run_cleanup block_cache f w = Some w' \<and> table_world block_cache holds P ready H w'"
proof (cases f)
  case DeleteBlock
  then show ?thesis using assms by (cases w) (simp add: run_cleanup_def cleanup_held_def)
next
  case (ReleaseBlock h)
  obtain k c where w: "w = (k, c)" by fastforce
  obtain cache where cache: "block_cache = Some cache"
    using assms ReleaseBlock w by (cases block_cache) (auto simp: table_world_def cleanup_held_def)
  then have c: "cache_ok cache holds" "ready k" "holds P (add_mset (h, b) H) c"
    using assms ReleaseBlock w by (simp_all add: table_world_def cleanup_held_def)
  from cache_ok.release [OF c(1,3)] obtain c' where "ca_Release cache h c = Some c'" "holds P H c'" by blast
  then show ?thesis
    using ReleaseBlock w cache c(1,2) by (simp add: run_cleanup_def table_world_def)
qed

context comparator_ok
begin

definition data_iter_good :: "nat \<Rightarrow> entry list \<Rightarrow> 'h data_iterator \<Rightarrow> bool" where
  "data_iter_good n es = (\<lambda>(s, cleanups). block_good n es s \<and> (\<exists>f. cleanups = [f]))"

definition data_iter_at :: "nat \<Rightarrow> entry list \<Rightarrow> 'h data_iterator \<Rightarrow> nat \<Rightarrow> bool" where
  "data_iter_at n es = (\<lambda>(s, cleanups) i. block_at n es s i \<and> (\<exists>f. cleanups = [f]))"

lemma iterator_block_good: "block_good n es s \<Longrightarrow> iterator_block s = the (Block_new (block_layout n es))"
  by (auto simp: block_good_def on_block_def iterator_block_def)

lemma block_at_good: "block_at n es s i \<Longrightarrow> block_good n es s"
  using block.at_good by blast

lemma lift_moved:
  assumes "\<And>world' :: ('h \<times> block) multiset \<Rightarrow> 'w \<Rightarrow> bool. world' ({#} + H) w \<Longrightarrow> moved P (\<lambda>_. {#}) world' H (move s w)"
    and "\<And>s. P s \<Longrightarrow> block_good n es s" and "world (data_held (s, [f]) + H) w" "block_good n es s"
  shows "moved (\<lambda>(s, cleanups). P s \<and> (\<exists>f. cleanups = [f])) data_held world H
    (map_option (\<lambda>(s, w). ((s, [f]), w)) (move s w))"
proof -
  let ?b = "the (Block_new (block_layout n es))"
  have held: "data_held (s, [f]) = cleanup_held ?b f" if "block_good n es s" for s
    by (simp add: data_held_def iterator_block_good [OF that])
  have "world (cleanup_held ?b f + ({#} + H)) w" using assms(3) held [OF assms(4)] by simp
  from assms(1) [of "\<lambda>H. world (cleanup_held ?b f + H)", OF this] obtain s' w' where
    m: "move s w = Some (s', w')" "P s'" "world (cleanup_held ?b f + ({#} + H)) w'" by (rule movedE)
  then show ?thesis using held [OF assms(2) [OF m(2)]] by (intro movedI [where s = "(s', [f])" and w = w']) simp_all
qed

lemma data_iterator_ok:
  "iterator_ok (data_iterator_ops block_cache) c valid es (data_iter_good n es) (data_iter_at n es) data_held
    (table_world block_cache holds P ready)"
  for block_cache :: "(block, 'h, 'c) cache option" and ready :: "'k \<Rightarrow> bool"
proof
  fix si :: "'h data_iterator" and i and w :: "'k \<times> 'c" and H :: "('h \<times> block) multiset"
  obtain s cleanups where si: "si = (s, cleanups)" by fastforce
  let ?ops = "data_iterator_ops block_cache :: ('h data_iterator, 'k \<times> 'c) iterator"
  show "data_iter_good n es si \<and> i \<le> length es" if "data_iter_at n es si i"
    using that block.at_good si by (auto simp: data_iter_at_def data_iter_good_def)
  show "it_Valid ?ops si \<longleftrightarrow> i < length es" if "data_iter_at n es si i"
    using that block.at_valid si by (auto simp: data_iter_at_def data_iterator_ops_def with_cleanups_def Let_def)
  show "it_key ?ops si = Some (fst (es ! i)) \<and> it_value ?ops si = Some (snd (es ! i))"
    if "data_iter_at n es si i" "i < length es"
    using that block.at_entry si by (auto simp: data_iter_at_def data_iterator_ops_def with_cleanups_def Let_def)
  show "it_key ?ops si \<noteq> None" if "data_iter_good n es si" "it_Valid ?ops si"
    using that block.good_key si by (auto simp: data_iter_good_def data_iterator_ops_def with_cleanups_def Let_def)
  show "it_status ?ops si = Some Status_OK" if "data_iter_good n es si"
    using that block.at_status si by (auto simp: data_iter_good_def data_iterator_ops_def with_cleanups_def Let_def)
  show "\<exists>w'. it_delete ?ops si w = Some w' \<and> table_world block_cache holds P ready H w'"
    if good: "data_iter_good n es si" "table_world block_cache holds P ready (data_held si + H) w"
  proof -
    obtain f where f: "cleanups = [f]" "block_good n es s" using good(1) si by (auto simp: data_iter_good_def)
    then show ?thesis
      using good(2) si run_cleanup_world [of block_cache holds P ready "iterator_block s" f H w]
      by (auto simp: data_held_def data_iterator_ops_def with_cleanups_def block_iterator_ops_def Let_def)
  qed
next
  fix si :: "'h data_iterator" and i target and w :: "'k \<times> 'c" and H :: "('h \<times> block) multiset"
  obtain s cleanups where si: "si = (s, cleanups)" by fastforce
  let ?ops = "data_iterator_ops block_cache :: ('h data_iterator, 'k \<times> 'c) iterator"
  assume w: "table_world block_cache holds P ready (data_held si + H) w"
  have at: "(\<lambda>si. data_iter_at n es si j) = (\<lambda>(s, cleanups). block_at n es s j \<and> (\<exists>f. cleanups = [f]))" for j :: nat
    by (auto simp: data_iter_at_def)
  show "moved (\<lambda>s. data_iter_at n es s 0) data_held (table_world block_cache holds P ready) H (it_SeekToFirst ?ops si w)"
    if "data_iter_good n es si"
    using that w lift_moved [OF block.to_first block_at_good] unfolding si at
    by (auto simp: data_iter_good_def data_iterator_ops_def with_cleanups_def Let_def)
  show "moved (\<lambda>s. data_iter_at n es s (length es - 1)) data_held (table_world block_cache holds P ready) H (it_SeekToLast ?ops si w)"
    if "data_iter_good n es si"
    using that w lift_moved [OF block.to_last block_at_good] unfolding si at
    by (auto simp: data_iter_good_def data_iterator_ops_def with_cleanups_def Let_def)
  show "moved (\<lambda>s. data_iter_at n es s (seek_pos c target es)) data_held (table_world block_cache holds P ready) H (it_Seek ?ops target si w)"
    if "data_iter_good n es si" "valid target"
    using that w lift_moved [OF block.to_target block_at_good] unfolding si at
    by (auto simp: data_iter_good_def data_iterator_ops_def with_cleanups_def Let_def)
  show "moved (\<lambda>s. data_iter_at n es s (i + 1)) data_held (table_world block_cache holds P ready) H (it_Next ?ops si w)"
    if step: "data_iter_at n es si i" "i < length es"
  proof -
    obtain f where f: "cleanups = [f]" "block_at n es s i" using step(1) si by (auto simp: data_iter_at_def)
    have "moved (\<lambda>(s, cleanups). block_at n es s (i + 1) \<and> (\<exists>f. cleanups = [f])) data_held
        (table_world block_cache holds P ready) H (map_option (\<lambda>(s, w). ((s, [f]), w)) (it_Next block_iterator_ops s w))"
      by (rule lift_moved [where n = n and es = es], rule block.to_next [OF f(2) step(2)], assumption)
        (use w si f(1) block_at_good f(2) in auto)
    then show ?thesis
      unfolding at si f(1) by (simp add: data_iterator_ops_def with_cleanups_def Let_def del: One_nat_def)
  qed
  show "moved (\<lambda>s. data_iter_at n es s (if i = 0 then length es else i - 1)) data_held (table_world block_cache holds P ready) H
      (it_Prev ?ops si w)"
    if step: "data_iter_at n es si i" "i < length es"
  proof -
    obtain f where f: "cleanups = [f]" "block_at n es s i" using step(1) si by (auto simp: data_iter_at_def)
    have "moved (\<lambda>(s, cleanups). block_at n es s (if i = 0 then length es else i - 1) \<and> (\<exists>f. cleanups = [f])) data_held
        (table_world block_cache holds P ready) H (map_option (\<lambda>(s, w). ((s, [f]), w)) (it_Prev block_iterator_ops s w))"
      by (rule lift_moved [where n = n and es = es], rule block.to_prev [OF f(2) step(2)], assumption)
        (use w si f(1) block_at_good f(2) in auto)
    then show ?thesis
      unfolding at si f(1) by (simp add: data_iterator_ops_def with_cleanups_def Let_def del: One_nat_def)
  qed
qed

end

section \<open>A table that can be read\<close>

text \<open>The bytes are those of a table file, and the file is read at any place.\<close>

locale readable_table = comparator_ok c valid less + random_file raf contents ready
  for c valid less and raf :: "'k random_access_file" and contents ready +
  fixes opt :: options and fvalid :: "slice \<Rightarrow> bool" and seps :: "slice list" and parts :: parts
  assumes cmp: "bo_comparator opt = c"
    and file_layout: "table_file valid fvalid less opt contents seps parts"
    and sorted: "sorted_wrt less (map fst (part_entries parts))"
    and keys: "list_all valid (map fst (part_entries parts))"
begin

abbreviation interval :: nat where
  "interval \<equiv> nat (bo_block_restart_interval opt)"

abbreviation idx :: "entry list" where
  "idx \<equiv> index_entries seps parts"

lemma length_seps: "length seps = length parts"
  using file_layout by (simp add: table_file_def)

lemma idx_nth: "i < length parts \<Longrightarrow> idx ! i = (seps ! i, enc_handle (snd (parts ! i)))"
  by (simp add: index_entries_def length_seps)

lemma length_idx [simp]: "length idx = length parts"
  by (simp add: index_entries_def length_seps)

lemma part_facts:
  assumes "part \<in> set parts"
  shows "fst part \<noteq> []" "block_fits interval (fst part)" "stored contents (snd part) (block_layout interval (fst part))"
    "sorted_wrt less (map fst (fst part))" "list_all valid (map fst (fst part))"
proof -
  show "fst part \<noteq> []" "block_fits interval (fst part)" "stored contents (snd part) (block_layout interval (fst part))"
    using file_layout assms by (simp_all add: table_file_def)
  from assms obtain ps qs where "parts = ps @ part # qs" by (metis in_set_conv_decomp)
  then have es: "part_entries parts = part_entries ps @ fst part @ part_entries qs" by (simp add: part_entries_def)
  show "sorted_wrt less (map fst (fst part))" "list_all valid (map fst (fst part))"
    using sorted keys by (simp_all add: es sorted_wrt_append)
qed

lemma part_valid: "part \<in> set parts \<Longrightarrow> e \<in> set (fst part) \<Longrightarrow> valid (fst e)"
  using part_facts(5) by (auto simp: list_all_iff)

lemma sep_facts:
  assumes "i < length parts"
  shows "valid (seps ! i)" "e \<in> set (fst (parts ! i)) \<Longrightarrow> fst e = seps ! i \<or> less (fst e) (seps ! i)"
    "i < j \<Longrightarrow> j < length parts \<Longrightarrow> e \<in> set (fst (parts ! j)) \<Longrightarrow> less (seps ! i) (fst e)"
proof -
  have sep: "separated less seps parts []" "list_all valid seps" using file_layout by (simp_all add: table_file_def)
  show "valid (seps ! i)" using sep(2) assms length_seps by (simp add: list_all_length)
  show "fst e = seps ! i \<or> less (fst e) (seps ! i)" if "e \<in> set (fst (parts ! i))"
    using sep(1) assms length_seps that by (simp add: separated_def)
  show "less (seps ! i) (fst e)" if "i < j" "j < length parts" "e \<in> set (fst (parts ! j))"
  proof -
    have "parts ! j \<in> set (drop (Suc i) parts)"
      unfolding in_set_conv_nth by (rule exI [of _ "j - Suc i"]) (use that in simp)
    then have "e \<in> set (part_entries (drop (Suc i) parts))" using that(3) by (auto simp: part_entries_def)
    then show ?thesis using sep(1) assms length_seps by (simp add: separated_def)
  qed
qed

lemma seps_sorted: "sorted_wrt less seps"
  unfolding sorted_wrt_iff_nth_less
proof (intro allI impI)
  fix i j assume ij: "i < j" "j < length seps"
  then have j: "j < length parts" "i < length parts" using length_seps by simp_all
  then have "fst (parts ! j) \<noteq> []" using part_facts(1) by simp
  then have e: "last (fst (parts ! j)) \<in> set (fst (parts ! j))" by simp
  from sep_facts(2) [OF j(1) e] sep_facts(3) [OF j(2) ij(1) j(1) e]
  show "less (seps ! i) (seps ! j)" using less_trans [of "seps ! i" "fst (last (fst (parts ! j)))" "seps ! j"] by auto
qed

lemma idx_good: "sorted_wrt less (map fst idx)" "list_all valid (map fst idx)" "block_fits 1 idx"
proof -
  have "map fst idx = seps"
    by (rule nth_equalityI) (simp_all add: idx_nth length_seps)
  then show "sorted_wrt less (map fst idx)" "list_all valid (map fst idx)"
    using seps_sorted file_layout by (simp_all add: table_file_def)
  show "block_fits 1 idx" using file_layout by (auto simp: table_file_def)
qed

lemma new_block:
  assumes "block_fits m es" "sorted_wrt less (map fst es)" "list_all valid (map fst es)"
  shows "\<exists>b s. Block_new (block_layout m es) = Some b \<and> Block_NewIterator c b = Some s \<and> block_good m es s"
  using NewIterator_layout [OF assms(1), of c] assms by (auto simp: block_good_def)

lemmas part_block = new_block [OF part_facts(2,4,5)]
lemmas index_block = new_block [OF idx_good(3,1,2)]

text \<open>Different blocks are at different offsets.\<close>

lemma offsets_distinct:
  assumes "part \<in> set parts" "part' \<in> set parts" "bh_offset (snd part) = bh_offset (snd part')"
  shows "part = part'"
proof -
  have "map fst (filter_trace parts) = map (\<lambda>part. bh_offset (snd part)) parts" by (simp add: filter_trace_def)
  moreover have "sorted_wrt (<) (map fst (filter_trace parts))" using file_layout by (simp add: table_file_def)
  ultimately have "distinct (map (\<lambda>part. bh_offset (snd part)) parts)" using strict_sorted_iff by metis
  then show ?thesis using assms by (auto simp: distinct_map inj_on_def)
qed

section \<open>Reading a data block\<close>

definition entries_at :: "slice \<Rightarrow> entry list" where
  "entries_at h = (case find (\<lambda>part. enc_handle (snd part) = h) parts of Some part \<Rightarrow> fst part | None \<Rightarrow> [])"

lemma enc_handle_inject:
  assumes "enc_handle h = enc_handle h'"
  shows "h = h'"
proof -
  have "BlockHandle_DecodeFrom BlockHandle (enc_handle h) = BlockHandle_DecodeFrom BlockHandle (enc_handle h')"
    by (simp only: assms)
  then show ?thesis by simp
qed

lemma entries_at_part:
  assumes "part \<in> set parts"
  shows "entries_at (enc_handle (snd part)) = fst part"
proof -
  have "find (\<lambda>p. enc_handle (snd p) = enc_handle (snd part)) parts \<noteq> None"
    using assms unfolding find_None_iff by blast
  then obtain part' where f: "find (\<lambda>p. enc_handle (snd p) = enc_handle (snd part)) parts = Some part'" by blast
  then have "part' \<in> set parts" "snd part' = snd part" using enc_handle_inject by (auto simp: find_Some_iff)
  then have "part' = part" using offsets_distinct [OF _ assms] by simp
  with f show ?thesis by (simp add: entries_at_def)
qed

text \<open>What the cache may have under the keys of this table.\<close>

definition caches :: "u64 \<Rightarrow> (slice \<Rightarrow> block \<Rightarrow> bool) \<Rightarrow> bool" where
  "caches cache_id P \<longleftrightarrow>
     (\<forall>part \<in> set parts. \<forall>b. P (block_cache_key cache_id (snd part)) b \<longleftrightarrow> Block_new (block_layout interval (fst part)) = Some b)"

text \<open>A fresh cache id: the blocks of this table may be stored under its keys.\<close>

definition with_blocks :: "u64 \<Rightarrow> (slice \<Rightarrow> block \<Rightarrow> bool) \<Rightarrow> slice \<Rightarrow> block \<Rightarrow> bool" where
  "with_blocks cache_id P key b \<longleftrightarrow> P key b \<or>
     (\<exists>part \<in> set parts. key = block_cache_key cache_id (snd part) \<and> Block_new (block_layout interval (fst part)) = Some b)"

lemma block_cache_key_inject: "block_cache_key cache_id h = block_cache_key cache_id h' \<Longrightarrow> bh_offset h = bh_offset h'"
  using DecodeFixed64_Encode [of "bh_offset h" "[]"] DecodeFixed64_Encode [of "bh_offset h'" "[]"] by (simp add: block_cache_key_def)

lemma caches_with_blocks:
  assumes "\<forall>key b. P key b \<longrightarrow> take 8 key \<noteq> EncodeFixed64 cache_id"
  shows "caches cache_id (with_blocks cache_id P)"
proof -
  have "take 8 (block_cache_key cache_id h) = EncodeFixed64 cache_id" for h by (simp add: block_cache_key_def)
  then have "\<not> P (block_cache_key cache_id h) b" for h b using assms by blast
  moreover have "part' = part" if "part \<in> set parts" "part' \<in> set parts"
    "block_cache_key cache_id (snd part') = block_cache_key cache_id (snd part)" for part part'
    by (rule offsets_distinct [OF that(2,1) block_cache_key_inject [OF that(3)]])
  ultimately show ?thesis unfolding caches_def with_blocks_def by metis
qed

lemma contents_small: "length contents < 2 ^ 64"
  using file_layout by (simp add: table_file_def)

lemma read_block_part:
  assumes "part \<in> set parts" "ready k" "Block_new (block_layout interval (fst part)) = Some b"
  shows "\<exists>cachable k'. read_block raf ropt (snd part) k = Some ((Status_OK, Some (b, cachable)), k') \<and> ready k'"
  using ReadBlock_stored [OF part_facts(3) [OF assms(1)] contents_small assms(2), of ropt] assms(3)
  by (auto simp: read_block_def ok_def Status_OK_def)

lemma cached_block_part:
  assumes "part \<in> set parts" "ready k" "Block_new (block_layout interval (fst part)) = Some b"
    and "cache_ok cache holds" "holds P H cs" "caches (ta_cache_id t) P"
  shows "\<exists>r k' cs'. cached_block cache raf t ropt (snd part) (k, cs) = Some ((Status_OK, Some (b, r)), k', cs') \<and> ready k' \<and>
    holds P ((case r of None \<Rightarrow> {#} | Some h \<Rightarrow> {#(h, b)#}) + H) cs'"
proof -
  let ?key = "block_cache_key (ta_cache_id t) (snd part)"
  have P: "P ?key v \<longleftrightarrow> v = b" for v using assms(1,3,6) by (auto simp: caches_def)
  from cache_ok.lookup [OF assms(4,5), of ?key] obtain r c1 where 1: "ca_Lookup cache ?key cs = Some (r, c1)"
    "case r of None \<Rightarrow> holds P H c1 | Some h \<Rightarrow> \<exists>v. P ?key v \<and> holds P (add_mset (h, v) H) c1" by blast
  show ?thesis
  proof (cases r)
    case (Some h)
    with 1(2) have "holds P (add_mset (h, b) H) c1" by (simp add: P)
    moreover from cache_ok.handle_value [OF assms(4) this, of h b] have "ca_Value cache h c1 = Some b" by simp
    ultimately show ?thesis using 1(1) Some assms(2) by (auto simp: cached_block_def intro!: exI [of _ "Some h"])
  next
    case None
    then have holds: "holds P H c1" using 1(2) by simp
    obtain cachable k' where read: "read_block raf ropt (snd part) k = Some ((Status_OK, Some (b, cachable)), k')" "ready k'"
      using read_block_part [OF assms(1-3)] by blast
    show ?thesis
    proof (cases "cachable \<and> ro_fill_cache ropt")
      case True
      from cache_ok.insert [OF assms(4) holds, of ?key b "of_nat (bl_size b)"] P obtain h c2 where
        "ca_Insert cache ?key b (of_nat (bl_size b)) c1 = Some (h, c2)" "holds P (add_mset (h, b) H) c2" by auto
      then show ?thesis using 1(1) None read True by (intro exI [of _ "Some h"]) (simp add: cached_block_def)
    next
      case False
      then show ?thesis using 1(1) None read holds by (intro exI [of _ None]) (auto simp: cached_block_def)
    qed
  qed
qed

lemma BlockReader_moves:
  assumes "ta_options t = opt" "part \<in> set parts" "caches (ta_cache_id t) P" "table_world block_cache holds P ready H w"
  shows "moved (data_iter_good interval (fst part)) data_held (table_world block_cache holds P ready) H
    (BlockReader block_cache raf t ropt (enc_handle (snd part)) w)"
proof -
  obtain k cs where w: "w = (k, cs)" by fastforce
  then have k: "ready k" using assms(4) by (simp add: table_world_def)
  obtain b s where b: "Block_new (block_layout interval (fst part)) = Some b" "Block_NewIterator (bo_comparator opt) b = Some s"
    "block_good interval (fst part) s" using part_block [OF assms(2,2,2)] cmp by blast
  have "\<exists>r k' cs'. (case block_cache of
      Some cache \<Rightarrow> cached_block cache raf t ropt (snd part) (k, cs)
    | None \<Rightarrow> do {
        ((s, r), k) \<leftarrow> read_block raf ropt (snd part) k;
        Some ((s, map_option (\<lambda>(block, _). (block, None)) r), k, cs) }) = Some ((Status_OK, Some (b, r)), k', cs') \<and>
      table_world block_cache holds P ready (cleanup_held b (case r of None \<Rightarrow> DeleteBlock | Some h \<Rightarrow> ReleaseBlock h) + H) (k', cs')"
  proof (cases block_cache)
    case None
    with assms(4) w read_block_part [OF assms(2) k b(1), of ropt] show ?thesis
      by (auto simp: table_world_def cleanup_held_def)
  next
    case (Some cache)
    then have "cache_ok cache holds" "holds P H cs" using assms(4) w by (simp_all add: table_world_def)
    from cached_block_part [OF assms(2) k b(1) this assms(3), of ropt] Some \<open>cache_ok cache holds\<close> show ?thesis
      by (fastforce simp: table_world_def cleanup_held_def split: option.split)
  qed
  then obtain r k' cs' where r: "(case block_cache of
      Some cache \<Rightarrow> cached_block cache raf t ropt (snd part) (k, cs)
    | None \<Rightarrow> do {
        ((s, r), k) \<leftarrow> read_block raf ropt (snd part) k;
        Some ((s, map_option (\<lambda>(block, _). (block, None)) r), k, cs) }) = Some ((Status_OK, Some (b, r)), k', cs')"
    "table_world block_cache holds P ready (cleanup_held b (case r of None \<Rightarrow> DeleteBlock | Some h \<Rightarrow> ReleaseBlock h) + H) (k', cs')"
    by blast
  let ?f = "case r of None \<Rightarrow> DeleteBlock | Some h \<Rightarrow> ReleaseBlock h"
  have held: "data_held (s, [?f]) = cleanup_held b ?f"
    using iterator_block_good [OF b(3)] b(1) by (simp add: data_held_def)
  have "BlockReader block_cache raf t ropt (enc_handle (snd part)) w = Some ((s, [?f]), k', cs')"
    unfolding BlockReader_def w using r(1) b(2) assms(1) by (simp add: ok_def Status_OK_def RegisterCleanup_def)
  then show ?thesis
    by (rule movedI) (use b(3) r(2) held in \<open>simp_all add: data_iter_good_def\<close>)
qed

section \<open>The iterator of a table\<close>

lemma idx_handles: "h \<in> snd ` set idx \<Longrightarrow> \<exists>part \<in> set parts. h = enc_handle (snd part)"
  by (fastforce simp: index_entries_def dest: set_zip_rightD)

lemma table_parts:
  assumes "ta_options t = opt" "caches (ta_cache_id t) P"
  shows "two_level_parts block_iterator_ops c valid idx (block_good 1 idx) (block_at 1 idx) (\<lambda>_. {#})
    (table_world block_cache holds P ready) (data_iterator_ops block_cache) (BlockReader block_cache raf t ropt) entries_at
    (\<lambda>h. data_iter_good interval (entries_at h)) (\<lambda>h. data_iter_at interval (entries_at h)) data_held"
proof (intro two_level_parts.intro two_level_parts_axioms.intro block_iterator_ok data_iterator_ok)
  fix H w h assume h: "h \<in> snd ` set idx" and w: "table_world block_cache holds P ready H w"
  from idx_handles [OF h] obtain part where part: "part \<in> set parts" "h = enc_handle (snd part)" by blast
  show "moved (data_iter_good interval (entries_at h)) data_held (table_world block_cache holds P ready) H
      (BlockReader block_cache raf t ropt h w)"
    using BlockReader_moves [OF assms(1) part(1) assms(2) w] entries_at_part [OF part(1)] part(2) by simp
next
  fix target i e
  assume i: "valid target" "i < length idx" "cmp_Compare c (fst (idx ! i)) target < 0" "e \<in> set (entries_at (snd (idx ! i)))"
  then have p: "i < length parts" "less (seps ! i) target" "e \<in> set (fst (parts ! i))" "valid (fst e)"
    using compare_less [of "seps ! i" target] sep_facts(1) [of i] entries_at_part [of "parts ! i"] part_valid [of "parts ! i" e]
    by (simp_all add: idx_nth)
  then have "less (fst e) target" using sep_facts(2) [OF p(1,3)] less_trans [of "fst e" "seps ! i" target] by auto
  then show "cmp_Compare c (fst e) target < 0" using compare_less [OF p(4) i(1)] by simp
next
  fix target i j e
  assume i: "valid target" "i < j" "j < length idx" "\<not> cmp_Compare c (fst (idx ! i)) target < 0" "e \<in> set (entries_at (snd (idx ! j)))"
  then have p: "i < length parts" "j < length parts" "\<not> less (seps ! i) target" "e \<in> set (fst (parts ! j))" "valid (fst e)"
    using compare_less [of "seps ! i" target] sep_facts(1) [of i] entries_at_part [of "parts ! j"] part_valid [of "parts ! j" e]
    by (simp_all add: idx_nth)
  then have "\<not> less (fst e) target" using sep_facts(3) [OF p(1) i(2) p(2,4)] less_trans [of "seps ! i" "fst e" target] by auto
  then show "\<not> cmp_Compare c (fst e) target < 0" using compare_less [OF p(5) i(1)] by simp
qed

lemma table_entries: "concat (map (\<lambda>(sep, h). entries_at h) idx) = part_entries parts"
proof -
  have "map (\<lambda>(sep, h). entries_at h) idx = map fst parts"
    by (rule nth_equalityI) (simp_all add: idx_nth entries_at_part)
  then show ?thesis by (simp add: part_entries_def)
qed

definition table_opened :: "table \<Rightarrow> bool" where
  "table_opened t \<longleftrightarrow>
     ta_options t = opt \<and> Block_new (block_layout 1 idx) = Some (ta_index_block t) \<and>
     (case ta_filter t of
        None \<Rightarrow> op_filter_policy opt = None
      | Some r \<Rightarrow> \<exists>p. op_filter_policy opt = Some p \<and> filter_answers p fvalid r parts)"

lemma index_iterator:
  assumes "table_opened t"
  shows "\<exists>s. Block_NewIterator (bo_comparator (ta_options t)) (ta_index_block t) = Some s \<and> block_good 1 idx s"
  using index_block assms cmp by (auto simp: table_opened_def)

text \<open>The iterator of an opened table is an iterator over all entries.\<close>

lemma table_iterator:
  assumes "table_opened t" "caches (ta_cache_id t) P"
  shows "\<exists>good at held.
    iterator_ok (table_iterator_ops block_cache raf t ropt) c valid (part_entries parts) good at held (table_world block_cache holds P ready) \<and>
    (\<forall>H w. table_world block_cache holds P ready H w \<longrightarrow>
      moved good held (table_world block_cache holds P ready) H (Table_NewIterator t w))"
proof -
  have "ta_options t = opt" using assms(1) by (simp add: table_opened_def)
  note parts = table_parts [OF this assms(2), where block_cache = block_cache and holds = holds and ropt = ropt]
  have "two_level_parts.all_entries idx entries_at = part_entries parts"
    unfolding two_level_parts.all_entries_def [OF parts] two_level_parts.blocks_def [OF parts] by (rule table_entries)
  note ok = two_level_parts.two_level_ok [OF parts, folded table_iterator_ops_def, unfolded this]
  obtain s where s: "Block_NewIterator (bo_comparator (ta_options t)) (ta_index_block t) = Some s" "block_good 1 idx s"
    using index_iterator [OF assms(1)] by blast
  show ?thesis
    by (intro exI conjI allI impI, rule ok)
      (use s two_level_parts.TwoLevelIterator_good [OF parts s(2)] in \<open>simp add: Table_NewIterator_def\<close>)
qed

section \<open>Lookups\<close>

lemma ruled_out_part:
  assumes "table_opened t" "part \<in> set parts" "op_filter_policy opt \<noteq> None \<Longrightarrow> fvalid key"
  shows "\<exists>out. ruled_out t (enc_handle (snd part)) key = Some out \<and> (out \<longrightarrow> key \<notin> fst ` set (fst part))"
proof (cases "ta_filter t")
  case None
  then show ?thesis by (intro exI [of _ False]) (simp add: ruled_out_def)
next
  case (Some r)
  then obtain p where p: "op_filter_policy opt = Some p" "op_filter_policy (ta_options t) = Some p" "filter_answers p fvalid r parts"
    using assms(1) by (auto simp: table_opened_def)
  then obtain m where m: "FilterBlock_KeyMayMatch p r (bh_offset (snd part)) key = Some m"
    using assms(3) unfolding filter_answers_def by blast
  then have "\<not> m \<longrightarrow> key \<notin> fst ` set (fst part)" using p(3) assms(2) by (fastforce simp: filter_answers_def)
  with m p(2) Some show ?thesis by (simp add: ruled_out_def ok_def Status_OK_def)
qed

lemma key_in_block:
  assumes "valid key" "key \<in> fst ` set (part_entries parts)"
  shows "seek_pos c key idx < length parts" "key \<in> fst ` set (fst (parts ! seek_pos c key idx))"
proof -
  let ?i = "seek_pos c key idx"
  from assms(2) obtain part e where "part \<in> set parts" and e: "e \<in> set (fst part)" "fst e = key"
    by (auto simp: part_entries_def)
  then obtain m where m: "m < length parts" "e \<in> set (fst (parts ! m))" "fst e = key" by (auto simp: in_set_conv_nth [of part])
  have "\<not> m < ?i"
  proof
    assume "m < ?i"
    then have "less (seps ! m) key"
      using seek_pos_before [of m c key idx] compare_less [OF sep_facts(1) [OF m(1)] assms(1)] m(1) by (simp add: idx_nth)
    then show False
      using sep_facts(2) [OF m(1,2)] less_trans [of key "seps ! m" key] less_irrefl [OF assms(1)] m(3) by auto
  qed
  moreover have "\<not> ?i < m"
  proof
    assume less: "?i < m"
    then have i: "?i < length parts" using m(1) by simp
    then have "\<not> less (seps ! ?i) key"
      using seek_pos_not_before [of c key idx] compare_less [OF sep_facts(1) [OF i] assms(1)] by (simp add: idx_nth)
    then show False using sep_facts(3) [OF i less m(1,2)] m(3) by simp
  qed
  ultimately have "m = ?i" by simp
  with m show "?i < length parts" "key \<in> fst ` set (fst (parts ! ?i))" by (auto simp: image_iff)
qed

lemma seek_in_block:
  fixes t :: table
  assumes "valid key" "ta_options t = opt" "caches (ta_cache_id t) P" "seek_pos c key idx < length parts"
    and "seek_pos c key (fst (parts ! seek_pos c key idx)) < length (fst (parts ! seek_pos c key idx))"
  shows "seek_pos c key (part_entries parts) < length (part_entries parts)"
    "part_entries parts ! seek_pos c key (part_entries parts) =
      fst (parts ! seek_pos c key idx) ! seek_pos c key (fst (parts ! seek_pos c key idx))"
proof -
  let ?i = "seek_pos c key idx" and ?blocks = "map fst parts"
  note parts = table_parts [OF assms(2,3), where block_cache = None and holds = undefined and ropt = ReadOptions]
  have blocks: "two_level_parts.blocks idx entries_at = ?blocks"
    unfolding two_level_parts.blocks_def [OF parts] by (rule nth_equalityI) (simp_all add: idx_nth entries_at_part)
  have all: "part_entries parts = concat ?blocks" by (simp add: part_entries_def)
  have pos: "seek_pos c key (part_entries parts) = block_offset ?blocks ?i + seek_pos c key (fst (parts ! ?i))"
    using two_level_parts.seek_pos_all [OF parts assms(1)] assms(4)
    unfolding two_level_parts.all_entries_def [OF parts] blocks all by simp
  show "seek_pos c key (part_entries parts) < length (part_entries parts)"
    unfolding pos unfolding all using block_offset_end [of ?i ?blocks] assms(4,5) by simp
  show "part_entries parts ! seek_pos c key (part_entries parts) = fst (parts ! ?i) ! seek_pos c key (fst (parts ! ?i))"
    unfolding pos unfolding all using concat_nth_block [of ?i ?blocks] assms(4,5) by simp
qed

lemma past_block:
  assumes "valid key" "part \<in> set parts" "\<not> seek_pos c key (fst part) < length (fst part)"
  shows "key \<notin> fst ` set (fst part)"
proof
  assume "key \<in> fst ` set (fst part)"
  then obtain m where m: "m < length (fst part)" "fst (fst part ! m) = key" by (auto simp: in_set_conv_nth)
  then have "cmp_Compare c key key < 0" using seek_pos_before [of m c key "fst part"] assms(3) by simp
  then show False using compare_less [OF assms(1,1)] less_irrefl [OF assms(1)] by simp
qed

text \<open>The block of the index entry is asked.\<close>

lemma ask_block:
  assumes "table_opened t" "caches (ta_cache_id t) P" "valid key" "table_world block_cache holds P ready H w"
    and "\<And>k v a. handle_result k v a \<noteq> None" and "part \<in> set parts"
  defines "dops \<equiv> (data_iterator_ops block_cache :: ('h data_iterator, 'k \<times> 'c) iterator)"
  shows "\<exists>s1 w1 s2 w2 arg' w'. BlockReader block_cache raf t ropt (enc_handle (snd part)) w = Some (s1, w1) \<and>
    it_Seek dops key s1 w1 = Some (s2, w2) \<and> it_status dops s2 = Some Status_OK \<and>
    (let i = seek_pos c key (fst part) in
      it_Valid dops s2 = (i < length (fst part)) \<and>
      (i < length (fst part) \<longrightarrow> it_key dops s2 = Some (fst (fst part ! i)) \<and> it_value dops s2 = Some (snd (fst part ! i)) \<and>
        handle_result (fst (fst part ! i)) (snd (fst part ! i)) arg = Some arg')) \<and>
    it_delete dops s2 w2 = Some w' \<and> table_world block_cache holds P ready H w'"
proof -
  let ?i = "seek_pos c key (fst part)" and ?world = "table_world block_cache holds P ready"
  note ok = data_iterator_ok [of block_cache "fst part" interval holds P ready, folded dops_def]
  have "ta_options t = opt" using assms(1) by (simp add: table_opened_def)
  from BlockReader_moves [OF this assms(6,2,4)] obtain s1 w1 where
    1: "BlockReader block_cache raf t ropt (enc_handle (snd part)) w = Some (s1, w1)" "data_iter_good interval (fst part) s1"
      "?world (data_held s1 + H) w1" by (rule movedE)
  from iterator_ok.to_target [OF ok 1(2,3) assms(3)] obtain s2 w2 where
    2: "it_Seek dops key s1 w1 = Some (s2, w2)" "data_iter_at interval (fst part) s2 ?i" "?world (data_held s2 + H) w2" by (rule movedE)
  have good: "data_iter_good interval (fst part) s2" using iterator_ok.at_good [OF ok 2(2)] by simp
  from iterator_ok.deleted [OF ok good 2(3)] obtain w' where 3: "it_delete dops s2 w2 = Some w'" "?world H w'" by blast
  obtain arg' where "handle_result (fst (fst part ! ?i)) (snd (fst part ! ?i)) arg = Some arg'" using assms(5) by blast
  with 1(1) 2(1) 3 iterator_ok.at_status [OF ok good] iterator_ok.at_valid [OF ok 2(2)] iterator_ok.at_entry [OF ok 2(2)]
  show ?thesis by (intro exI [of _ s1] exI [of _ w1] exI [of _ s2] exI [of _ w2] exI [of _ arg'] exI [of _ w']) (simp add: Let_def)
qed

text \<open>The entry that a lookup may find: the first one that is not before the key.\<close>

lemma InternalGet_finds:
  fixes block_cache :: "(block, 'h, 'c) cache option"
  assumes "table_opened t" "caches (ta_cache_id t) P" "valid key" "table_world block_cache holds P ready H w"
    and "\<And>k v a. handle_result k v a \<noteq> None" "op_filter_policy opt \<noteq> None \<Longrightarrow> fvalid key"
  shows "\<exists>arg' w'. InternalGet block_cache raf t ropt key handle_result arg w = Some ((Status_OK, arg'), w') \<and>
    table_world block_cache holds P ready H w' \<and>
    (let i = seek_pos c key (part_entries parts) in
      (i < length (part_entries parts) \<and>
        handle_result (fst (part_entries parts ! i)) (snd (part_entries parts ! i)) arg = Some arg') \<or>
      (arg' = arg \<and> key \<notin> fst ` set (part_entries parts)))"
proof -
  let ?iops = "block_iterator_ops :: (block_iterator, 'k \<times> 'c) iterator" and ?world = "table_world block_cache holds P ready"
  let ?i = "seek_pos c key idx"
  obtain s where s: "Block_NewIterator (bo_comparator (ta_options t)) (ta_index_block t) = Some s" "block_good 1 idx s"
    using index_iterator [OF assms(1)] by blast
  from block.to_target [OF s(2) _ assms(3), of ?world H w] assms(4) obtain s1 w1 where
    1: "it_Seek ?iops key s w = Some (s1, w1)" "block_at 1 idx s1 ?i" "?world H w1" by (auto elim: movedE)
  have good: "it_status ?iops s1 = Some Status_OK" using block.at_good [OF 1(2)] block.at_status by blast
  have valid: "it_Valid ?iops s1 \<longleftrightarrow> ?i < length parts" using block.at_valid [OF 1(2)] by simp
  have delete: "it_delete ?iops s1 w = Some w" for w by (simp add: block_iterator_ops_def)
  show ?thesis
  proof (cases "?i < length parts")
    case False
    then have "key \<notin> fst ` set (part_entries parts)" using key_in_block [OF assms(3)] by blast
    then show ?thesis using s(1) 1(1,3) good valid delete False
      by (intro exI [of _ arg] exI [of _ w1]) (simp add: InternalGet_def Let_def ok_def Status_OK_def)
  next
    case True
    then have part: "parts ! ?i \<in> set parts" by simp
    have handle: "it_value ?iops s1 = Some (enc_handle (snd (parts ! ?i)))"
      using True by (simp add: block.at_entry [OF 1(2)] idx_nth)
    obtain out where out: "ruled_out t (enc_handle (snd (parts ! ?i))) key = Some out"
      "out \<longrightarrow> key \<notin> fst ` set (fst (parts ! ?i))" using ruled_out_part [OF assms(1) part assms(6)] by blast
    show ?thesis
    proof (cases out)
      case filtered: True
      then have "key \<notin> fst ` set (part_entries parts)" using key_in_block [OF assms(3)] out(2) by blast
      then show ?thesis using s(1) 1(1,3) good valid delete True handle out(1) filtered
        by (intro exI [of _ arg] exI [of _ w1]) (simp add: InternalGet_def Let_def ok_def Status_OK_def)
    next
      case asked: False
      let ?j = "seek_pos c key (fst (parts ! ?i))" and ?dops = "data_iterator_ops block_cache :: ('h data_iterator, 'k \<times> 'c) iterator"
      from ask_block [where handle_result = handle_result and ropt = ropt and arg = arg, OF assms(1,2,3) 1(3) assms(5) part] obtain s2 w2 s3 w3 arg' w' where
        2: "BlockReader block_cache raf t ropt (enc_handle (snd (parts ! ?i))) w1 = Some (s2, w2)"
          "it_Seek ?dops key s2 w2 = Some (s3, w3)" "it_status ?dops s3 = Some Status_OK"
          "it_Valid ?dops s3 \<longleftrightarrow> ?j < length (fst (parts ! ?i))"
          "?j < length (fst (parts ! ?i)) \<Longrightarrow> it_key ?dops s3 = Some (fst (fst (parts ! ?i) ! ?j)) \<and>
             it_value ?dops s3 = Some (snd (fst (parts ! ?i) ! ?j)) \<and>
             handle_result (fst (fst (parts ! ?i) ! ?j)) (snd (fst (parts ! ?i) ! ?j)) arg = Some arg'"
          "it_delete ?dops s3 w3 = Some w'" "?world H w'"
        unfolding Let_def by (elim exE conjE) (rule that; blast)
      note get = s(1) 1(1) good valid delete True handle out(1) asked 2
      show ?thesis
      proof (cases "?j < length (fst (parts ! ?i))")
        case at: True
        have "ta_options t = opt" using assms(1) by (simp add: table_opened_def)
        note entry = seek_in_block [OF assms(3) this assms(2) True at]
        from get at have "InternalGet block_cache raf t ropt key handle_result arg w = Some ((Status_OK, arg'), w')"
          by (simp add: InternalGet_def Let_def ok_def Status_OK_def)
        with 2(5) [OF at] 2(7) entry show ?thesis by (simp add: Let_def)
      next
        case past: False
        then have "key \<notin> fst ` set (part_entries parts)"
          using past_block [OF assms(3) part] key_in_block [OF assms(3)] by blast
        moreover from get past have "InternalGet block_cache raf t ropt key handle_result arg w = Some ((Status_OK, arg), w')"
          by (simp add: InternalGet_def Let_def ok_def Status_OK_def)
        ultimately show ?thesis using 2(7) by simp
      qed
    qed
  qed
qed

section \<open>Opening\<close>

lemma ReadFilter_reads:
  assumes "stored contents fh fc" "FilterBlockReader fc = Some r" "ready k"
  shows "\<exists>fd k'. ReadFilter raf (enc_handle fh) t k = Some (t\<lparr>ta_filter_data := fd, ta_filter := Some r\<rparr>, k') \<and> ready k'"
proof -
  obtain bc k' where read: "ReadBlock raf (open_read_options (ta_options t)) fh k = Some ((Status_OK, bc), k')" "bc_data bc = fc" "ready k'"
    using ReadBlock_stored [OF assms(1) contents_small assms(3)] by blast
  have "t\<lparr>ta_filter_data := ta_filter_data t\<rparr> = t" by simp
  with read assms(2) show ?thesis
    by (intro exI [of _ "if bc_heap_allocated bc then Some fc else ta_filter_data t"] exI [of _ k'])
      (simp add: ReadFilter_def ok_def Status_OK_def)
qed

lemma ReadMeta_reads:
  assumes "op_filter_policy (ta_options t) = Some p" "ready k" "block_fits n (meta_entries (Some p) fh)"
    and "stored contents (ft_metaindex_handle f) (block_layout n (meta_entries (Some p) fh))"
    and "stored contents fh fc" "FilterBlockReader fc = Some r"
  shows "\<exists>fd k'. ReadMeta raf f t k = Some (t\<lparr>ta_filter_data := fd, ta_filter := Some r\<rparr>, k') \<and> ready k'"
proof -
  let ?es = "meta_entries (Some p) fh" and ?key = "bytes_of (''filter.'' @ fp_Name p)"
  let ?ops = "block_iterator_ops :: (block_iterator, 'k) iterator"
  have es: "?es = [(?key, enc_handle fh)]" by (simp add: meta_entries_def)
  obtain bc k1 where read: "ReadBlock raf (open_read_options (ta_options t)) (ft_metaindex_handle f) k = Some ((Status_OK, bc), k1)"
    "bc_data bc = block_layout n ?es" "ready k1" using ReadBlock_stored [OF assms(4) contents_small assms(2)] by blast
  obtain b it where b: "Block_new (block_layout n ?es) = Some b" "Block_NewIterator BytewiseComparator b = Some (Entry_iterator it)"
    "on_block BytewiseComparator n ?es it" using NewIterator_layout [OF assms(3)] by blast
  then have "bytewise.block_good n ?es (Entry_iterator it)" using assms(3) by (simp add: bytewise.block_good_def es)
  from bytewise.block.to_target [OF this, where world = "\<lambda>_ :: unit multiset. ready" and H = "{#}" and target = ?key and w = k1] read(3)
  obtain s k2 where s: "it_Seek ?ops ?key (Entry_iterator it) k1 = Some (s, k2)"
    "bytewise.block_at n ?es s (seek_pos BytewiseComparator ?key ?es)" "ready k2" by (auto elim: movedE)
  have pos: "seek_pos BytewiseComparator ?key ?es = 0"
    using bytewise.compare_less [of ?key ?key] bytewise.less_irrefl [of ?key] by (simp add: es seek_pos_def)
  have entry: "it_Valid ?ops s" "it_key ?ops s = Some ?key" "it_value ?ops s = Some (enc_handle fh)"
    using bytewise.block.at_valid [OF s(2) [unfolded pos]] by (simp_all add: bytewise.block.at_entry [OF s(2) [unfolded pos]] es)
  from ReadFilter_reads [OF assms(5,6) s(3), of t] obtain fd k3 where
    "ReadFilter raf (enc_handle fh) t k2 = Some (t\<lparr>ta_filter_data := fd, ta_filter := Some r\<rparr>, k3)" "ready k3" by blast
  with read b(1,2) s(1) entry assms(1) show ?thesis
    by (intro exI [of _ fd] exI [of _ k3]) (simp add: ReadMeta_def ok_def Status_OK_def)
qed

lemma Open_opens:
  assumes "unat file_size = length contents" "table_world block_cache holds P ready H (k, cs)"
  shows "\<exists>t k' cs'. Table_Open block_cache raf opt file_size (k, cs) = Some ((Status_OK, Some t), k', cs') \<and> table_opened t \<and>
    (ta_cache_id t, cs') = (case block_cache of Some cache \<Rightarrow> ca_NewId cache cs | None \<Rightarrow> (0, cs)) \<and>
    table_world block_cache holds P ready H (k', cs')"
proof -
  from file_layout obtain fh mh ih before where l: "stored contents ih (block_layout 1 idx)"
    "block_fits interval (meta_entries (op_filter_policy opt) fh)"
    "stored contents mh (block_layout interval (meta_entries (op_filter_policy opt) fh))"
    "\<forall>p. op_filter_policy opt = Some p \<longrightarrow> (\<exists>fc. stored contents fh fc \<and> filter_serves p fvalid fc parts)"
    "contents = before @ enc_footer \<lparr>ft_metaindex_handle = mh, ft_index_handle = ih\<rparr>"
    unfolding table_file_def by blast
  let ?footer = "\<lparr>ft_metaindex_handle = mh, ft_index_handle = ih\<rparr>"
  have k: "ready k" using assms(2) by (simp add: table_world_def)
  have size: "unat file_size = length before + 48" using l(5) assms(1) by simp
  then have off: "unat (file_size - of_nat kEncodedLength) = length before" "unat (of_nat kEncodedLength :: u64) = 48"
    by (simp_all add: unat_sub word_le_nat_alt kEncodedLength_def kMaxEncodedLength_def)
  then have "unat (file_size - of_nat kEncodedLength) + unat (of_nat kEncodedLength :: u64) \<le> length contents" using l(5) by simp
  from pread [OF k this] obtain scratch k1 where
    1: "raf_Read raf (file_size - of_nat kEncodedLength) (of_nat kEncodedLength) k = Some ((Status_OK, enc_footer ?footer, scratch), k1)"
      "ready k1" unfolding off by (auto simp: l(5))
  have 2: "Footer_DecodeFrom \<lparr>ft_metaindex_handle = BlockHandle, ft_index_handle = BlockHandle\<rparr> (enc_footer ?footer) =
      Some (Status_OK, ?footer, [])"
    using Footer_Decode [of _ ?footer "[]"] by simp
  obtain bc k2 where 3: "ReadBlock raf (open_read_options opt) ih k1 = Some ((Status_OK, bc), k2)" "bc_data bc = block_layout 1 idx"
    "ready k2" using ReadBlock_stored [OF l(1) contents_small 1(2)] by blast
  obtain ib where 4: "Block_new (block_layout 1 idx) = Some ib" using index_block by blast
  obtain id cs' where 5: "(case block_cache of Some cache \<Rightarrow> ca_NewId cache cs | None \<Rightarrow> (0, cs)) = (id, cs')" by fastforce
  define t where "t = \<lparr>ta_options = opt, ta_cache_id = id, ta_filter = None, ta_filter_data = None,
    ta_metaindex_handle = mh, ta_index_block = ib\<rparr>"
  have open_ok: "Table_Open block_cache raf opt file_size (k, cs) =
      map_option (\<lambda>(t, k). ((Status_OK, Some t), k, cs')) (ReadMeta raf ?footer t k2)"
    using size 1(1) 2 3(1,2) 4 5
    by (simp add: Table_Open_def t_def kEncodedLength_def kMaxEncodedLength_def ok_def Status_OK_def)
      (simp add: map_option_bind [symmetric] option.case_eq_if Option.bind_map_option map_conv_bind_option split_def comp_def)
  have world: "table_world block_cache holds P ready H (k', cs')" if "ready k'" for k'
  proof (cases block_cache)
    case None
    then show ?thesis using assms(2) that by (simp add: table_world_def)
  next
    case (Some cache)
    then have "cache_ok cache holds" "holds P H cs" using assms(2) by (simp_all add: table_world_def)
    moreover have "cs' = snd (ca_NewId cache cs)" using 5 Some by simp
    ultimately show ?thesis using that Some cache_ok.new_id by (simp add: table_world_def)
  qed
  show ?thesis
  proof (cases "op_filter_policy opt")
    case None
    then have "ReadMeta raf ?footer t k2 = Some (t, k2)" "table_opened t"
      using 4 by (simp_all add: ReadMeta_def t_def table_opened_def)
    with open_ok world [OF 3(3)] 5 show ?thesis by (simp add: t_def)
  next
    case (Some p)
    with l(4) obtain fc r where r: "stored contents fh fc" "FilterBlockReader fc = Some r" "filter_answers p fvalid r parts"
      unfolding filter_serves_def by blast
    have "\<exists>fd k'. ReadMeta raf ?footer t k2 = Some (t\<lparr>ta_filter_data := fd, ta_filter := Some r\<rparr>, k') \<and> ready k'"
      by (rule ReadMeta_reads [OF _ 3(3) _ _ r(1,2)]) (use l(2,3) Some in \<open>simp_all add: t_def\<close>)
    then obtain fd k' where m: "ReadMeta raf ?footer t k2 = Some (t\<lparr>ta_filter_data := fd, ta_filter := Some r\<rparr>, k')" "ready k'" by blast
    have "table_opened (t\<lparr>ta_filter_data := fd, ta_filter := Some r\<rparr>)"
      using 4 Some r(3) by (auto simp: table_opened_def t_def)
    with open_ok m(1) world [OF m(2)] 5 show ?thesis by (simp add: t_def)
  qed
qed

end

end
