(* ===== verification/Ldb_Cache_LRU.thy ===== *)
theory Ldb_Cache_LRU
  imports Ldb_Cache Ldb_Filter
begin

text \<open>
  \<open>util/cache.cc\<close>: the sharded LRU cache with its hash table. Entries are shared between the cache and
  the clients that hold handles, so they lie in a store of their own, under addresses; an access to an
  entry that has been freed is \<open>None\<close>, like a failed assertion. A doubly linked list is the list of its
  entries, from \<open>next\<close> to \<open>prev\<close> of the dummy head, and a chain of the hash table the list along \<open>next_hash\<close>.
\<close>

section \<open>Entries\<close>

text \<open>The number of references is a \<open>uint32_t\<close>, here a natural number, like the length and the number of
  elements of a hash table below: \<open>Ldb_Cache_Props\<close> shows that all of them stay far below \<open>2 ^ 32\<close> in every run of
  less than \<open>2 ^ 31\<close> calls.\<close>

record 'v lru_handle =
  lh_value :: 'v
  lh_charge :: u64
  lh_in_cache :: bool
  lh_refs :: nat
  lh_hash :: u32
  lh_key :: slice

text \<open>The store, the next free address, and the calls of the deleters so far.\<close>

record 'v lru_store =
  st_handles :: "nat \<Rightarrow> 'v lru_handle option"
  st_next :: nat
  st_deleted :: "(slice \<times> 'v) list"

section \<open>The hash table\<close>

record handle_table =
  ht_length :: nat
  ht_elems :: nat
  ht_list :: "nat list list"

text \<open>The slot that \<open>FindPointer\<close> returns, as the number of entries in front of it in its chain.\<close>

primrec find_in_chain :: "(nat \<Rightarrow> 'v lru_handle option) \<Rightarrow> slice \<Rightarrow> u32 \<Rightarrow> nat list \<Rightarrow> nat option" where
  "find_in_chain m key hash [] = Some 0"
| "find_in_chain m key hash (e # es) = do {
     h \<leftarrow> m e;
     if lh_hash h \<noteq> hash \<or> key \<noteq> lh_key h then map_option Suc (find_in_chain m key hash es)
     else Some 0 }"

definition bucket :: "handle_table \<Rightarrow> u32 \<Rightarrow> nat" where
  "bucket t hash = unat (hash AND of_nat (ht_length t - 1))"

definition FindPointer :: "(nat \<Rightarrow> 'v lru_handle option) \<Rightarrow> slice \<Rightarrow> u32 \<Rightarrow> handle_table \<Rightarrow> (nat \<times> nat list \<times> nat) option" where
  "FindPointer m key hash t =
     (let b = bucket t hash in
      asserting (b < length (ht_list t))
        (map_option (\<lambda>n. (b, ht_list t ! b, n)) (find_in_chain m key hash (ht_list t ! b))))"

text \<open>The pointer in the slot.\<close>

definition at_slot :: "nat list \<Rightarrow> nat \<Rightarrow> nat option" where
  "at_slot chain n = (if n < length chain then Some (chain ! n) else None)"

definition HandleTable_Lookup :: "(nat \<Rightarrow> 'v lru_handle option) \<Rightarrow> slice \<Rightarrow> u32 \<Rightarrow> handle_table \<Rightarrow> nat option option" where
  "HandleTable_Lookup m key hash t = map_option (\<lambda>(b, chain, n). at_slot chain n) (FindPointer m key hash t)"

text \<open>The smallest power of two, from 4 on, with a place for every element; the length is never 0, since
  it starts at 4 and there are at most \<open>2 ^ 31\<close> elements.\<close>

function new_length_loop :: "nat \<Rightarrow> nat \<Rightarrow> nat" where
  "new_length_loop elems new_length =
     (if new_length < elems \<and> 0 < new_length then new_length_loop elems (new_length * 2) else new_length)"
  by pat_completeness auto
termination
  by (relation "measure (\<lambda>(elems, new_length). elems - new_length)") auto

declare new_length_loop.simps [simp del]

text \<open>The loop of \<open>Resize\<close> over one chain: every entry is put in front of its new chain.\<close>

primrec move_chain :: "(nat \<Rightarrow> 'v lru_handle option) \<Rightarrow> nat \<Rightarrow> nat list \<Rightarrow> nat list list \<Rightarrow> nat list list option" where
  "move_chain m new_length [] new_list = Some new_list"
| "move_chain m new_length (e # es) new_list = do {
     h \<leftarrow> m e;
     let b = unat (lh_hash h AND of_nat (new_length - 1));
     asserting (b < length new_list) (move_chain m new_length es (new_list[b := e # new_list ! b])) }"

primrec move_chains :: "(nat \<Rightarrow> 'v lru_handle option) \<Rightarrow> nat \<Rightarrow> nat list list \<Rightarrow> nat list list \<Rightarrow> nat list list option" where
  "move_chains m new_length [] new_list = Some new_list"
| "move_chains m new_length (chain # rest) new_list =
     Option.bind (move_chain m new_length chain new_list) (move_chains m new_length rest)"

definition Resize :: "(nat \<Rightarrow> 'v lru_handle option) \<Rightarrow> handle_table \<Rightarrow> handle_table option" where
  "Resize m t =
     (let new_length = new_length_loop (ht_elems t) 4 in do {
        new_list \<leftarrow> move_chains m new_length (ht_list t) (replicate new_length []);
        asserting (ht_elems t = length (concat (ht_list t)))
          (Some (t\<lparr>ht_list := new_list, ht_length := new_length\<rparr>)) })"

definition HandleTable :: "handle_table option" where
  "HandleTable = Resize (\<lambda>_. None :: unit lru_handle option) \<lparr>ht_length = 0, ht_elems = 0, ht_list = []\<rparr>"

definition HandleTable_Insert :: "(nat \<Rightarrow> 'v lru_handle option) \<Rightarrow> nat \<Rightarrow> handle_table \<Rightarrow> (nat option \<times> handle_table) option" where
  "HandleTable_Insert m e t = do {
     h \<leftarrow> m e;
     (b, chain, n) \<leftarrow> FindPointer m (lh_key h) (lh_hash h) t;
     let old = at_slot chain n;
     let chain = (if old = None then chain @ [e] else chain[n := e]);
     let t = t\<lparr>ht_list := (ht_list t)[b := chain]\<rparr>;
     t \<leftarrow> (if old = None then
             let t = t\<lparr>ht_elems := ht_elems t + 1\<rparr> in
             if ht_elems t > ht_length t then Resize m t else Some t
           else Some t);
     Some (old, t) }"

definition HandleTable_Remove ::
  "(nat \<Rightarrow> 'v lru_handle option) \<Rightarrow> slice \<Rightarrow> u32 \<Rightarrow> handle_table \<Rightarrow> (nat option \<times> handle_table) option" where
  "HandleTable_Remove m key hash t = do {
     (b, chain, n) \<leftarrow> FindPointer m key hash t;
     let result = at_slot chain n;
     Some (result,
       if result \<noteq> None
       then t\<lparr>ht_list := (ht_list t)[b := take n chain @ drop (Suc n) chain], ht_elems := ht_elems t - 1\<rparr>
       else t) }"

section \<open>One shard\<close>

record lru_cache =
  lc_capacity :: u64
  lc_usage :: u64
  lc_lru :: "nat list"
  lc_in_use :: "nat list"
  lc_table :: handle_table

definition LRUCache :: "lru_cache option" where
  "LRUCache = map_option (\<lambda>t. \<lparr>lc_capacity = 0, lc_usage = 0, lc_lru = [], lc_in_use = [], lc_table = t\<rparr>) HandleTable"

definition SetCapacity :: "u64 \<Rightarrow> lru_cache \<Rightarrow> lru_cache" where
  "SetCapacity capacity c = c\<lparr>lc_capacity := capacity\<rparr>"

text \<open>The entry is unlinked from the list it is in.\<close>

definition LRU_Remove :: "nat \<Rightarrow> lru_cache \<Rightarrow> lru_cache option" where
  "LRU_Remove e c =
     asserting (e \<in> set (lc_lru c) \<union> set (lc_in_use c))
       (Some (c\<lparr>lc_lru := remove1 e (lc_lru c), lc_in_use := remove1 e (lc_in_use c)\<rparr>))"

definition LRU_Append_lru :: "nat \<Rightarrow> lru_cache \<Rightarrow> lru_cache" where
  "LRU_Append_lru e c = c\<lparr>lc_lru := lc_lru c @ [e]\<rparr>"

definition LRU_Append_in_use :: "nat \<Rightarrow> lru_cache \<Rightarrow> lru_cache" where
  "LRU_Append_in_use e c = c\<lparr>lc_in_use := lc_in_use c @ [e]\<rparr>"

type_synonym 'v shard_state = "'v lru_store \<times> lru_cache"

definition set_handle :: "nat \<Rightarrow> 'v lru_handle \<Rightarrow> 'v lru_store \<Rightarrow> 'v lru_store" where
  "set_handle e h s = s\<lparr>st_handles := (st_handles s)(e := Some h)\<rparr>"

definition LRU_Ref :: "nat \<Rightarrow> 'v shard_state \<Rightarrow> 'v shard_state option" where
  "LRU_Ref e = (\<lambda>(s, c). do {
     h \<leftarrow> st_handles s e;
     c \<leftarrow> (if lh_refs h = 1 \<and> lh_in_cache h then map_option (LRU_Append_in_use e) (LRU_Remove e c) else Some c);
     Some (set_handle e (h\<lparr>lh_refs := lh_refs h + 1\<rparr>) s, c) })"

definition LRU_Unref :: "nat \<Rightarrow> 'v shard_state \<Rightarrow> 'v shard_state option" where
  "LRU_Unref e = (\<lambda>(s, c). do {
     h \<leftarrow> st_handles s e;
     asserting (lh_refs h > 0)
     (let h = h\<lparr>lh_refs := lh_refs h - 1\<rparr> in
      if lh_refs h = 0 then
        asserting (\<not> lh_in_cache h)
          (Some (s\<lparr>st_handles := (st_handles s)(e := None), st_deleted := st_deleted s @ [(lh_key h, lh_value h)]\<rparr>, c))
      else if lh_in_cache h \<and> lh_refs h = 1 then do {
        c \<leftarrow> map_option (LRU_Append_lru e) (LRU_Remove e c);
        Some (set_handle e h s, c) }
      else Some (set_handle e h s, c)) })"

definition FinishErase :: "nat option \<Rightarrow> 'v shard_state \<Rightarrow> (bool \<times> 'v shard_state) option" where
  "FinishErase r sc =
     (case r of
        None \<Rightarrow> Some (False, sc)
      | Some e \<Rightarrow>
          (case sc of (s, c) \<Rightarrow> do {
             h \<leftarrow> st_handles s e;
             asserting (lh_in_cache h) (do {
               c \<leftarrow> LRU_Remove e c;
               sc \<leftarrow> LRU_Unref e (set_handle e (h\<lparr>lh_in_cache := False\<rparr>) s, c\<lparr>lc_usage := lc_usage c - lh_charge h\<rparr>);
               Some (True, sc) }) }))"

definition LRU_Lookup :: "slice \<Rightarrow> u32 \<Rightarrow> 'v shard_state \<Rightarrow> (nat option \<times> 'v shard_state) option" where
  "LRU_Lookup key hash = (\<lambda>(s, c). do {
     r \<leftarrow> HandleTable_Lookup (st_handles s) key hash (lc_table c);
     (case r of
        None \<Rightarrow> Some (None, s, c)
      | Some e \<Rightarrow> map_option (Pair (Some e)) (LRU_Ref e (s, c))) })"

definition LRU_Release :: "nat \<Rightarrow> 'v shard_state \<Rightarrow> 'v shard_state option" where
  "LRU_Release e = LRU_Unref e"

text \<open>The entry with this key leaves the table and the cache.\<close>

definition remove_key :: "slice \<Rightarrow> u32 \<Rightarrow> 'v shard_state \<Rightarrow> (bool \<times> 'v shard_state) option" where
  "remove_key key hash = (\<lambda>(s, c). do {
     (r, t) \<leftarrow> HandleTable_Remove (st_handles s) key hash (lc_table c);
     FinishErase r (s, c\<lparr>lc_table := t\<rparr>) })"

definition LRU_Erase :: "slice \<Rightarrow> u32 \<Rightarrow> 'v shard_state \<Rightarrow> 'v shard_state option" where
  "LRU_Erase key hash sc = map_option snd (remove_key key hash sc)"

text \<open>One round of the loops of \<open>Insert\<close> and \<open>Prune\<close>, which drop the oldest entry of the LRU list.\<close>

definition drop_oldest :: "'v shard_state \<Rightarrow> 'v shard_state option" where
  "drop_oldest = (\<lambda>(s, c). do {
     h \<leftarrow> st_handles s (hd (lc_lru c));
     asserting (lh_refs h = 1) (do {
       (erased, sc) \<leftarrow> remove_key (lh_key h) (lh_hash h) (s, c);
       asserting erased (Some sc) }) })"

partial_function (option) evict_loop :: "'v shard_state \<Rightarrow> 'v shard_state option" where
  "evict_loop sc =
     (if lc_usage (snd sc) > lc_capacity (snd sc) \<and> lc_lru (snd sc) \<noteq> [] then Option.bind (drop_oldest sc) evict_loop
      else Some sc)"

partial_function (option) LRU_Prune :: "'v shard_state \<Rightarrow> 'v shard_state option" where
  "LRU_Prune sc =
     (if lc_lru (snd sc) \<noteq> [] then Option.bind (drop_oldest sc) LRU_Prune else Some sc)"

definition LRU_Insert :: "slice \<Rightarrow> u32 \<Rightarrow> 'v \<Rightarrow> u64 \<Rightarrow> 'v shard_state \<Rightarrow> (nat \<times> 'v shard_state) option" where
  "LRU_Insert key hash val charge = (\<lambda>(s, c).
     let e = st_next s;
         s = s\<lparr>st_next := Suc e\<rparr>;
         h = \<lparr>lh_value = val, lh_charge = charge, lh_in_cache = False, lh_refs = 1, lh_hash = hash, lh_key = key\<rparr>
     in do {
       (s, c) \<leftarrow>
         (if lc_capacity c > 0 then
            let s = set_handle e (h\<lparr>lh_refs := lh_refs h + 1, lh_in_cache := True\<rparr>) s;
                c = LRU_Append_in_use e c;
                c = c\<lparr>lc_usage := lc_usage c + charge\<rparr>
            in do {
              (old, t) \<leftarrow> HandleTable_Insert (st_handles s) e (lc_table c);
              map_option snd (FinishErase old (s, c\<lparr>lc_table := t\<rparr>)) }
          else Some (set_handle e h s, c));
       map_option (Pair e) (evict_loop (s, c)) })"

text \<open>The destructor.\<close>

primrec drop_all :: "nat list \<Rightarrow> 'v shard_state \<Rightarrow> 'v shard_state option" where
  "drop_all [] sc = Some sc"
| "drop_all (e # es) sc =
     (case sc of (s, c) \<Rightarrow> do {
        h \<leftarrow> st_handles s e;
        asserting (lh_in_cache h \<and> lh_refs h = 1) (do {
          sc \<leftarrow> LRU_Unref e (set_handle e (h\<lparr>lh_in_cache := False\<rparr>) s, c);
          drop_all es sc }) })"

definition LRU_delete :: "'v shard_state \<Rightarrow> 'v shard_state option" where
  "LRU_delete = (\<lambda>(s, c). asserting (lc_in_use c = []) (drop_all (lc_lru c) (s, c)))"

section \<open>The sharded cache\<close>

definition kNumShardBits :: nat where "kNumShardBits = 4"

definition kNumShards :: nat where "kNumShards = 2 ^ kNumShardBits"

record 'v sharded_cache =
  sc_store :: "'v lru_store"
  sc_shards :: "lru_cache list"
  sc_last_id :: u64

definition HashSlice :: "slice \<Rightarrow> u32 option" where
  "HashSlice s = Hash s 0"

definition Shard :: "u32 \<Rightarrow> nat" where
  "Shard hash = unat (drop_bit (32 - kNumShardBits) hash)"

definition ShardedLRUCache :: "u64 \<Rightarrow> 'v sharded_cache option" where
  "ShardedLRUCache capacity =
     (let per_shard = (capacity + (of_nat kNumShards - 1)) div of_nat kNumShards in
      map_option (\<lambda>c. \<lparr>sc_store = \<lparr>st_handles = (\<lambda>_. None), st_next = 0, st_deleted = []\<rparr>,
          sc_shards = replicate kNumShards (SetCapacity per_shard c), sc_last_id = 0\<rparr>) LRUCache)"

text \<open>An operation on the shard of a hash value.\<close>

definition on_shard :: "u32 \<Rightarrow> ('v shard_state \<Rightarrow> ('r \<times> 'v shard_state) option) \<Rightarrow> 'v sharded_cache \<Rightarrow> ('r \<times> 'v sharded_cache) option" where
  "on_shard hash f s =
     asserting (Shard hash < length (sc_shards s))
       (map_option (\<lambda>(r, store, c). (r, s\<lparr>sc_store := store, sc_shards := (sc_shards s)[Shard hash := c]\<rparr>))
         (f (sc_store s, sc_shards s ! Shard hash)))"

definition Cache_Insert :: "slice \<Rightarrow> 'v \<Rightarrow> u64 \<Rightarrow> 'v sharded_cache \<Rightarrow> (nat \<times> 'v sharded_cache) option" where
  "Cache_Insert key val charge s = do {
     hash \<leftarrow> HashSlice key;
     on_shard hash (LRU_Insert key hash val charge) s }"

definition Cache_Lookup :: "slice \<Rightarrow> 'v sharded_cache \<Rightarrow> (nat option \<times> 'v sharded_cache) option" where
  "Cache_Lookup key s = do {
     hash \<leftarrow> HashSlice key;
     on_shard hash (LRU_Lookup key hash) s }"

definition Cache_Release :: "nat \<Rightarrow> 'v sharded_cache \<Rightarrow> 'v sharded_cache option" where
  "Cache_Release e s = do {
     h \<leftarrow> st_handles (sc_store s) e;
     map_option snd (on_shard (lh_hash h) (\<lambda>sc. map_option (Pair ()) (LRU_Release e sc)) s) }"

definition Cache_Erase :: "slice \<Rightarrow> 'v sharded_cache \<Rightarrow> 'v sharded_cache option" where
  "Cache_Erase key s = do {
     hash \<leftarrow> HashSlice key;
     map_option snd (on_shard hash (\<lambda>sc. map_option (Pair ()) (LRU_Erase key hash sc)) s) }"

definition Cache_Value :: "nat \<Rightarrow> 'v sharded_cache \<Rightarrow> 'v option" where
  "Cache_Value e s = map_option lh_value (st_handles (sc_store s) e)"

definition Cache_NewId :: "'v sharded_cache \<Rightarrow> u64 \<times> 'v sharded_cache" where
  "Cache_NewId s = (let s = s\<lparr>sc_last_id := sc_last_id s + 1\<rparr> in (sc_last_id s, s))"

text \<open>The loops over the shards.\<close>

primrec prune_shards :: "lru_cache list \<Rightarrow> 'v lru_store \<Rightarrow> ('v lru_store \<times> lru_cache list) option" where
  "prune_shards [] s = Some (s, [])"
| "prune_shards (c # cs) s = do {
     (s, c) \<leftarrow> LRU_Prune (s, c);
     (s, cs) \<leftarrow> prune_shards cs s;
     Some (s, c # cs) }"

definition Cache_Prune :: "'v sharded_cache \<Rightarrow> 'v sharded_cache option" where
  "Cache_Prune s = map_option (\<lambda>(store, cs). s\<lparr>sc_store := store, sc_shards := cs\<rparr>) (prune_shards (sc_shards s) (sc_store s))"

definition TotalCharge :: "'v sharded_cache \<Rightarrow> u64" where
  "TotalCharge s = fold (\<lambda>c total. total + lc_usage c) (sc_shards s) 0"

definition lru_cache_ops :: "('v, nat, 'v sharded_cache) cache" where
  "lru_cache_ops =
     \<lparr>ca_Insert = Cache_Insert, ca_Lookup = Cache_Lookup, ca_Release = Cache_Release, ca_Value = Cache_Value,
      ca_Erase = Cache_Erase, ca_NewId = Cache_NewId\<rparr>"

end
