(* ===== verification/Ldb_Cache_LRU_Correct.thy ===== *)
theory Ldb_Cache_LRU_Correct
  imports Ldb_Cache_LRU Ldb_Filter_Correct
begin

text \<open>
  The sharded LRU cache keeps the contract of a cache: an entry is freed exactly when neither the cache
  nor a client refers to it, and what is found under a key was stored under it.
\<close>

section \<open>The hash table\<close>

definition has_key :: "(nat \<Rightarrow> 'v lru_handle option) \<Rightarrow> nat \<Rightarrow> slice \<Rightarrow> u32 \<Rightarrow> bool" where
  "has_key m e key hash \<longleftrightarrow> (\<exists>h. m e = Some h \<and> lh_key h = key \<and> lh_hash h = hash)"

lemma has_key_unique: "has_key m e key hash \<Longrightarrow> has_key m e key' hash' \<Longrightarrow> key = key' \<and> hash = hash'"
  by (auto simp: has_key_def)

text \<open>A table with the entries \<open>S\<close>, no two of them with the same key.\<close>

definition chains_ok :: "(nat \<Rightarrow> 'v lru_handle option) \<Rightarrow> nat \<Rightarrow> nat list list \<Rightarrow> bool" where
  "chains_ok m len xss \<longleftrightarrow>
     (\<forall>b < length xss. \<forall>e \<in> set (xss ! b). \<exists>h. m e = Some h \<and> unat (lh_hash h AND of_nat (len - 1)) = b)"

definition table_ok :: "(nat \<Rightarrow> 'v lru_handle option) \<Rightarrow> nat set \<Rightarrow> handle_table \<Rightarrow> bool" where
  "table_ok m S t \<longleftrightarrow>
     0 < ht_length t \<and> length (ht_list t) = ht_length t \<and> mset (concat (ht_list t)) = mset_set S \<and> finite S \<and>
     ht_elems t = card S \<and> chains_ok m (ht_length t) (ht_list t) \<and>
     (\<forall>e \<in> S. \<forall>e' \<in> S. \<forall>key hash. has_key m e key hash \<and> has_key m e' key hash \<longrightarrow> e = e')"

lemma bucket_less: "0 < len \<Longrightarrow> unat (hash AND of_nat (len - 1) :: u32) < len"
proof -
  assume "0 < len"
  have "unat (hash AND of_nat (len - 1) :: u32) \<le> unat (of_nat (len - 1) :: u32)"
    by (simp add: word_le_nat_alt [symmetric] word_and_le1)
  also have "\<dots> \<le> len - 1" by (simp add: unat_of_nat)
  finally show ?thesis using \<open>0 < len\<close> by simp
qed

lemma find_in_chain_total:
  assumes "\<forall>e \<in> set es. m e \<noteq> None"
  shows "\<exists>n. find_in_chain m key hash es = Some n \<and> n \<le> length es \<and>
    (n < length es \<longrightarrow> has_key m (es ! n) key hash) \<and> (n = length es \<longrightarrow> (\<forall>e \<in> set es. \<not> has_key m e key hash))"
  using assms
proof (induction es)
  case (Cons e es)
  then obtain h where h: "m e = Some h" by auto
  show ?case
  proof (cases "lh_hash h \<noteq> hash \<or> key \<noteq> lh_key h")
    case True
    with Cons h show ?thesis by (fastforce simp: has_key_def)
  next
    case False
    with h show ?thesis by (auto simp: has_key_def)
  qed
qed simp

lemma mset_set_in:
  assumes "mset xs = mset_set S" "finite S"
  shows "set xs = S" "length xs = card S" "distinct xs"
proof -
  show "set xs = S" using assms by (metis finite_set_mset_mset_set set_mset_mset)
  show "length xs = card S" using assms by (metis size_mset size_mset_set)
  with \<open>set xs = S\<close> show "distinct xs" by (simp add: card_distinct)
qed

lemma mset_concat_update:
  assumes "b < length xss"
  shows "mset (concat (xss[b := ys])) + mset (xss ! b) = mset (concat xss) + mset ys"
proof -
  have "mset (concat xss) = mset (concat (take b xss @ xss ! b # drop (Suc b) xss))"
    using id_take_nth_drop [OF assms] by simp
  then show ?thesis using assms by (simp add: upd_conv_take_nth_drop)
qed

lemma mset_exchange:
  assumes "L + C = M + U" "U + x = C + (y :: 'a multiset)"
  shows "L + x = M + y"
proof -
  have "(L + x) + C = (L + C) + x" by (simp only: ac_simps)
  also have "\<dots> = M + (U + x)" by (simp only: assms(1) add.assoc)
  also have "\<dots> = (M + y) + C" by (simp only: assms(2) ac_simps)
  finally show ?thesis by (rule add_right_imp_eq)
qed

text \<open>The slot of a key: its entry, if there is one, and no other.\<close>

lemma FindPointer_slot:
  assumes "table_ok m S t"
  shows "\<exists>b chain n. FindPointer m key hash t = Some (b, chain, n) \<and> b < length (ht_list t) \<and> chain = ht_list t ! b \<and> n \<le> length chain \<and>
    b = unat (hash AND of_nat (ht_length t - 1)) \<and>
    (case at_slot chain n of None \<Rightarrow> n = length chain \<and> (\<forall>e \<in> S. \<not> has_key m e key hash)
     | Some e \<Rightarrow> e \<in> S \<and> e \<in> set chain \<and> has_key m e key hash)"
proof -
  let ?b = "unat (hash AND of_nat (ht_length t - 1))"
  from assms have t: "0 < ht_length t" "length (ht_list t) = ht_length t" "mset (concat (ht_list t)) = mset_set S" "finite S"
    "chains_ok m (ht_length t) (ht_list t)" by (simp_all add: table_ok_def)
  have b: "?b < length (ht_list t)" using bucket_less [OF t(1)] t(2) by simp
  let ?chain = "ht_list t ! ?b"
  have S: "S = set (concat (ht_list t))" using mset_set_in(1) [OF t(3,4)] by simp
  have "\<forall>e \<in> set ?chain. m e \<noteq> None" using t(5) b by (fastforce simp: chains_ok_def)
  from find_in_chain_total [OF this, of key hash] obtain n where n: "find_in_chain m key hash ?chain = Some n" "n \<le> length ?chain"
    "n < length ?chain \<longrightarrow> has_key m (?chain ! n) key hash" "n = length ?chain \<longrightarrow> (\<forall>e \<in> set ?chain. \<not> has_key m e key hash)"
    by blast
  have elsewhere: "e \<in> set ?chain" if e: "e \<in> S" "has_key m e key hash" for e
  proof -
    obtain xs where "xs \<in> set (ht_list t)" "e \<in> set xs" using e(1) by (auto simp: S)
    then obtain i where "i < length (ht_list t)" "e \<in> set (ht_list t ! i)" by (auto simp: in_set_conv_nth [of xs])
    with t(5) e(2) have "i = ?b" by (fastforce simp: chains_ok_def has_key_def)
    with \<open>e \<in> set (ht_list t ! i)\<close> show ?thesis by simp
  qed
  have in_S: "e \<in> S" if "e \<in> set ?chain" for e using that nth_mem [OF b] unfolding S set_concat by blast
  have "?chain ! n \<in> S \<and> ?chain ! n \<in> set ?chain" if "n < length ?chain" using that in_S by simp
  with n b elsewhere show ?thesis
    by (intro exI [of _ ?b] exI [of _ ?chain] exI [of _ n]) (auto simp: FindPointer_def bucket_def at_slot_def Let_def)
qed

lemma HandleTable_Lookup_finds:
  assumes "table_ok m S t"
  shows "\<exists>r. HandleTable_Lookup m key hash t = Some r \<and>
    (case r of None \<Rightarrow> \<forall>e \<in> S. \<not> has_key m e key hash | Some e \<Rightarrow> e \<in> S \<and> has_key m e key hash)"
  using FindPointer_slot [OF assms, of key hash] by (auto simp: HandleTable_Lookup_def split: option.splits)

text \<open>Changing one chain.\<close>

lemma chains_ok_update:
  assumes "chains_ok m len xss" "b < length xss" "\<forall>e \<in> set ys. \<exists>h. m e = Some h \<and> unat (lh_hash h AND of_nat (len - 1)) = b"
  shows "chains_ok m len (xss[b := ys])"
  using assms by (auto simp: chains_ok_def nth_list_update)

lemma HandleTable_Remove_removes:
  assumes "table_ok m S t"
  shows "\<exists>r t'. HandleTable_Remove m key hash t = Some (r, t') \<and> table_ok m (S - set_option r) t' \<and>
    (case r of None \<Rightarrow> \<forall>e \<in> S. \<not> has_key m e key hash | Some e \<Rightarrow> e \<in> S \<and> has_key m e key hash)"
proof -
  from FindPointer_slot [OF assms, of key hash] obtain b n where f: "FindPointer m key hash t = Some (b, ht_list t ! b, n)"
    "b < length (ht_list t)" "n \<le> length (ht_list t ! b)"
    "case at_slot (ht_list t ! b) n of None \<Rightarrow> n = length (ht_list t ! b) \<and> (\<forall>e \<in> S. \<not> has_key m e key hash)
     | Some e \<Rightarrow> e \<in> S \<and> e \<in> set (ht_list t ! b) \<and> has_key m e key hash" by blast
  let ?chain = "ht_list t ! b"
  show ?thesis
  proof (cases "at_slot ?chain n")
    case None
    with f assms show ?thesis by (auto simp: HandleTable_Remove_def Let_def)
  next
    case (Some e)
    then have n: "n < length ?chain" "?chain ! n = e" by (auto simp: at_slot_def split: if_splits)
    let ?rest = "take n ?chain @ drop (Suc n) ?chain"
    let ?t = "t\<lparr>ht_list := (ht_list t)[b := ?rest], ht_elems := ht_elems t - 1\<rparr>"
    have e: "e \<in> S" "has_key m e key hash" using f(4) Some by simp_all
    from assms have t: "0 < ht_length t" "length (ht_list t) = ht_length t" "mset (concat (ht_list t)) = mset_set S" "finite S"
      "ht_elems t = card S" "chains_ok m (ht_length t) (ht_list t)"
      "\<forall>e \<in> S. \<forall>e' \<in> S. \<forall>key hash. has_key m e key hash \<and> has_key m e' key hash \<longrightarrow> e = e'" by (simp_all add: table_ok_def)
    have "mset ?chain = add_mset e (mset ?rest)"
      using id_take_nth_drop [OF n(1)] n(2) by (metis mset_append mset.simps(2) union_mset_add_mset_right)
    then have "mset (concat (ht_list ?t)) + {#e#} = mset_set S"
      using mset_concat_update [OF f(2), of ?rest] t(3) by simp
    moreover have "mset_set (S - {e}) = mset_set S - {#e#}" using e(1) t(4) by (simp add: mset_set_Diff)
    ultimately have "mset (concat (ht_list ?t)) = mset_set (S - {e})" by (metis add_diff_cancel_right')
    moreover have "chains_ok m (ht_length t) (ht_list ?t)"
    proof -
      have "\<forall>e \<in> set ?rest. \<exists>h. m e = Some h \<and> unat (lh_hash h AND of_nat (ht_length t - 1)) = b"
        using t(6) f(2) by (auto simp: chains_ok_def dest: in_set_takeD in_set_dropD)
      then show ?thesis using chains_ok_update [OF t(6) f(2)] by simp
    qed
    ultimately have "table_ok m (S - {e}) ?t" using t e(1) by (simp add: table_ok_def)
    with f(1) Some e show ?thesis by (auto simp: HandleTable_Remove_def Let_def)
  qed
qed

text \<open>\<open>Resize\<close> keeps the entries.\<close>

lemma new_length_loop_ge: "n \<le> new_length_loop elems n"
proof (induction elems n rule: new_length_loop.induct)
  case (1 elems n)
  then show ?case by (subst new_length_loop.simps) auto
qed

lemma move_chain_moves:
  assumes "\<forall>e \<in> set es. m e \<noteq> None" "0 < len" "length new_list = len" "chains_ok m len new_list"
  shows "\<exists>new_list'. move_chain m len es new_list = Some new_list' \<and> length new_list' = len \<and> chains_ok m len new_list' \<and>
    mset (concat new_list') = mset (concat new_list) + mset es"
  using assms
proof (induction es arbitrary: new_list)
  case (Cons e es)
  then obtain h where h: "m e = Some h" by auto
  let ?b = "unat (lh_hash h AND of_nat (len - 1))"
  have b: "?b < length new_list" using bucket_less [OF Cons.prems(2)] Cons.prems(3) by simp
  let ?new = "new_list[?b := e # new_list ! ?b]"
  have "\<forall>x \<in> set (e # new_list ! ?b). \<exists>h. m x = Some h \<and> unat (lh_hash h AND of_nat (len - 1)) = ?b"
    using Cons.prems(4) b h by (auto simp: chains_ok_def)
  then have "chains_ok m len ?new" by (rule chains_ok_update [OF Cons.prems(4) b])
  with Cons.IH [of ?new] Cons.prems obtain new_list' where
    "move_chain m len es ?new = Some new_list'" "length new_list' = len" "chains_ok m len new_list'"
    "mset (concat new_list') = mset (concat ?new) + mset es" by auto
  moreover have "mset (concat ?new) = add_mset e (mset (concat new_list))"
    using mset_concat_update [OF b, of "e # new_list ! ?b"] by simp
  ultimately show ?case using h b by (auto simp: Let_def)
qed simp

lemma move_chains_moves:
  assumes "\<forall>e \<in> set (concat old_list). m e \<noteq> None" "0 < len" "length new_list = len" "chains_ok m len new_list"
  shows "\<exists>new_list'. move_chains m len old_list new_list = Some new_list' \<and> length new_list' = len \<and> chains_ok m len new_list' \<and>
    mset (concat new_list') = mset (concat new_list) + mset (concat old_list)"
  using assms
proof (induction old_list arbitrary: new_list)
  case (Cons chain old_list)
  from move_chain_moves [of chain m len new_list] Cons.prems obtain new1 where
    1: "move_chain m len chain new_list = Some new1" "length new1 = len" "chains_ok m len new1"
      "mset (concat new1) = mset (concat new_list) + mset chain" by auto
  from Cons.IH [of new1] Cons.prems 1 show ?case by auto
qed simp

lemma chains_ok_Nil: "chains_ok m len (replicate n [])"
  by (simp add: chains_ok_def)

lemma concat_replicate_Nil: "concat (replicate n []) = []"
  by (induction n) simp_all

lemma Resize_ok:
  assumes "\<forall>e \<in> set (concat (ht_list t)). m e \<noteq> None" "mset (concat (ht_list t)) = mset_set S" "finite S" "ht_elems t = card S"
    and "\<forall>e \<in> S. \<forall>e' \<in> S. \<forall>key hash. has_key m e key hash \<and> has_key m e' key hash \<longrightarrow> e = e'"
  shows "\<exists>t'. Resize m t = Some t' \<and> table_ok m S t'"
proof -
  let ?len = "new_length_loop (ht_elems t) 4"
  have len: "0 < ?len" using new_length_loop_ge [of 4 "ht_elems t"] by simp
  from move_chains_moves [OF assms(1) len, of "replicate ?len []"] obtain new_list where
    "move_chains m ?len (ht_list t) (replicate ?len []) = Some new_list" "length new_list = ?len" "chains_ok m ?len new_list"
    "mset (concat new_list) = mset (concat (ht_list t))" by (auto simp: chains_ok_Nil concat_replicate_Nil)
  moreover have "length (concat (ht_list t)) = ht_elems t" using mset_set_in(2) [OF assms(2,3)] assms(4) by simp
  ultimately show ?thesis using assms len by (simp add: Resize_def Let_def table_ok_def)
qed

lemma HandleTable_empty: "\<exists>t. HandleTable = Some t \<and> table_ok m {} t"
proof -
  have "\<exists>t'. Resize (\<lambda>_. None :: unit lru_handle option) \<lparr>ht_length = 0, ht_elems = 0, ht_list = []\<rparr> = Some t' \<and>
      table_ok (\<lambda>_. None :: unit lru_handle option) {} t'"
    by (rule Resize_ok) simp_all
  moreover have "table_ok m {} t" if "table_ok (\<lambda>_. None :: unit lru_handle option) {} t" for t
    using that by (fastforce simp: table_ok_def chains_ok_def dest: nth_mem)
  ultimately show ?thesis unfolding HandleTable_def by blast
qed

lemma HandleTable_Insert_inserts:
  assumes "table_ok m S t" "e \<notin> S" "m e = Some h"
  shows "\<exists>old t'. HandleTable_Insert m e t = Some (old, t') \<and> table_ok m (insert e (S - set_option old)) t' \<and>
    (case old of None \<Rightarrow> True | Some e' \<Rightarrow> e' \<in> S)"
proof -
  let ?key = "lh_key h" and ?hash = "lh_hash h"
  from FindPointer_slot [OF assms(1), of ?key ?hash] obtain b n where f: "FindPointer m ?key ?hash t = Some (b, ht_list t ! b, n)"
    "b < length (ht_list t)" "n \<le> length (ht_list t ! b)" "b = unat (?hash AND of_nat (ht_length t - 1))"
    "case at_slot (ht_list t ! b) n of None \<Rightarrow> n = length (ht_list t ! b) \<and> (\<forall>e \<in> S. \<not> has_key m e ?key ?hash)
     | Some e \<Rightarrow> e \<in> S \<and> e \<in> set (ht_list t ! b) \<and> has_key m e ?key ?hash" by blast
  let ?chain = "ht_list t ! b" and ?old = "at_slot (ht_list t ! b) n"
  from assms have t: "0 < ht_length t" "length (ht_list t) = ht_length t" "mset (concat (ht_list t)) = mset_set S" "finite S"
    "ht_elems t = card S" "chains_ok m (ht_length t) (ht_list t)" by (simp_all add: table_ok_def)
  have unique_S: "x = y" if "x \<in> S" "y \<in> S" "has_key m x key hash" "has_key m y key hash" for x y key hash
    using assms(1) that unfolding table_ok_def by blast
  have key: "has_key m e key hash \<longleftrightarrow> key = ?key \<and> hash = ?hash" for key hash using assms(3) by (auto simp: has_key_def)
  have others: "\<not> has_key m x ?key ?hash" if "x \<in> S - set_option ?old" for x
  proof (cases ?old)
    case None
    with that f(5) show ?thesis by simp
  next
    case (Some e')
    with f(5) have "e' \<in> S" "has_key m e' ?key ?hash" by simp_all
    with unique_S [of x e' ?key ?hash] that Some show ?thesis by auto
  qed
  let ?S = "insert e (S - set_option ?old)"
  have unique: "\<forall>x \<in> ?S. \<forall>y \<in> ?S. \<forall>key hash. has_key m x key hash \<and> has_key m y key hash \<longrightarrow> x = y"
  proof (intro ballI allI impI)
    fix x y key hash assume x: "x \<in> ?S" and y: "y \<in> ?S" and h: "has_key m x key hash \<and> has_key m y key hash"
    show "x = y"
    proof (cases "x = e \<or> y = e")
      case True
      then have "key = ?key" "hash = ?hash" using h key by blast+
      with True h others x y show ?thesis by blast
    next
      case False
      with x y h unique_S [of x y key hash] show ?thesis by blast
    qed
  qed
  let ?chain' = "if ?old = None then ?chain @ [e] else ?chain[n := e]"
  let ?list = "(ht_list t)[b := ?chain']"
  have chain: "\<forall>x \<in> set ?chain. \<exists>h. m x = Some h \<and> unat (lh_hash h AND of_nat (ht_length t - 1)) = b"
    using t(6) f(2) by (auto simp: chains_ok_def)
  then have "\<forall>x \<in> set ?chain'. \<exists>h. m x = Some h \<and> unat (lh_hash h AND of_nat (ht_length t - 1)) = b"
    using assms(3) f(4) by (auto dest: set_update_subset_insert [THEN subsetD] split: if_splits)
  then have chains: "chains_ok m (ht_length t) ?list" by (rule chains_ok_update [OF t(6) f(2)])
  have mset: "mset (concat ?list) + mset ?chain = mset_set S + mset ?chain'"
    using mset_concat_update [OF f(2), of ?chain'] t(3) by simp
  show ?thesis
  proof (cases ?old)
    case None
    then have "mset (concat ?list) = mset_set ?S" using mset t(4) assms(2) by simp
    moreover have "card ?S = card S + 1" using None t(4) assms(2) by simp
    ultimately have ok: "table_ok m ?S (t\<lparr>ht_list := ?list, ht_elems := ht_elems t + 1\<rparr>)"
      using t unique chains None by (simp add: table_ok_def)
    show ?thesis
    proof (cases "ht_elems t + 1 > ht_length t")
      case True
      have "\<forall>x \<in> set (concat ?list). m x \<noteq> None" using chains by (fastforce simp: chains_ok_def in_set_conv_nth)
      then have "\<exists>t'. Resize m (t\<lparr>ht_list := ?list, ht_elems := ht_elems t + 1\<rparr>) = Some t' \<and> table_ok m ?S t'"
        using ok by (intro Resize_ok) (simp_all add: table_ok_def)
      with True None assms(3) f(1) show ?thesis by (auto simp: HandleTable_Insert_def Let_def)
    next
      case False
      with ok None assms(3) f(1) show ?thesis by (auto simp: HandleTable_Insert_def Let_def)
    qed
  next
    case (Some e')
    then have n: "n < length ?chain" "?chain ! n = e'" and e': "e' \<in> S" using f(5) by (auto simp: at_slot_def split: if_splits)
    have "mset (?chain[n := e]) + {#e'#} = mset ?chain + {#e#}"
      using n by (simp add: mset_update) (metis add_mset_add_single insert_DiffM nth_mem set_mset_mset)
    from mset_exchange [OF _ this, of "mset (concat ?list)" "mset_set S"] mset Some
    have "mset (concat ?list) + {#e'#} = mset_set S + {#e#}" by simp
    moreover have "mset_set S = mset_set (S - {e'}) + {#e'#}" using e' t(4) by (simp add: mset_set.remove)
    ultimately have "mset (concat ?list) + {#e'#} = (mset_set (S - {e'}) + {#e#}) + {#e'#}" by (simp add: ac_simps)
    then have "mset (concat ?list) = mset_set (S - {e'}) + {#e#}" by (rule add_right_imp_eq)
    then have "mset (concat ?list) = mset_set ?S" using Some t(4) assms(2) by simp
    moreover have "card ?S = card S" using Some t(4) assms(2) card.remove [OF t(4) e'] by simp
    ultimately have "table_ok m ?S (t\<lparr>ht_list := ?list\<rparr>)" unfolding table_ok_def
      by (intro conjI unique; use t chains in simp)
    with Some e' assms(3) f(1) show ?thesis by (auto simp: HandleTable_Insert_def Let_def)
  qed
qed

text \<open>A table depends only on the keys and hashes of its entries.\<close>

definition same_entry :: "'v lru_handle \<Rightarrow> 'v lru_handle \<Rightarrow> bool" where
  "same_entry h h' \<longleftrightarrow> lh_key h' = lh_key h \<and> lh_hash h' = lh_hash h \<and> lh_value h' = lh_value h \<and> lh_charge h' = lh_charge h"

lemma same_entry_refl [simp]: "same_entry h h"
  by (simp add: same_entry_def)

lemma same_entry_trans: "same_entry h h' \<Longrightarrow> same_entry h' h'' \<Longrightarrow> same_entry h h''"
  by (simp add: same_entry_def)

lemma table_ok_cong:
  assumes "table_ok m S t" "\<And>e. e \<in> S \<Longrightarrow> \<exists>h h'. m e = Some h \<and> m' e = Some h' \<and> same_entry h h'"
  shows "table_ok m' S t"
proof -
  have key: "has_key m' e key hash \<longleftrightarrow> has_key m e key hash" if "e \<in> S" for e key hash
    using assms(2) [OF that] by (auto simp: has_key_def same_entry_def)
  have S: "set (concat (ht_list t)) = S" using assms(1) mset_set_in(1) [of "concat (ht_list t)" S] unfolding table_ok_def by blast
  have "\<exists>h. m' e = Some h \<and> unat (lh_hash h AND of_nat (ht_length t - 1)) = b" if i: "b < length (ht_list t)" "e \<in> set (ht_list t ! b)" for b e
  proof -
    have "e \<in> S" using i(2) nth_mem [OF i(1)] unfolding S [symmetric] set_concat by blast
    moreover obtain h where "m e = Some h" "unat (lh_hash h AND of_nat (ht_length t - 1)) = b"
      using assms(1) i unfolding table_ok_def chains_ok_def by blast
    ultimately show ?thesis using assms(2) [of e] by (auto simp: same_entry_def)
  qed
  then have "chains_ok m' (ht_length t) (ht_list t)" by (simp add: chains_ok_def)
  moreover have "\<forall>e \<in> S. \<forall>e' \<in> S. \<forall>key hash. has_key m' e key hash \<and> has_key m' e' key hash \<longrightarrow> e = e'"
    using assms(1) key by (simp add: table_ok_def)
  ultimately show ?thesis using assms(1) by (simp add: table_ok_def)
qed

section \<open>One shard\<close>

text \<open>\<open>D\<close> are the entries of a shard, \<open>R\<close> counts the handles that clients hold.\<close>

definition cached :: "(nat \<Rightarrow> 'v lru_handle option) \<Rightarrow> nat set \<Rightarrow> nat set" where
  "cached m D = {e \<in> D. \<exists>h. m e = Some h \<and> lh_in_cache h}"

definition entry_ok :: "(slice \<Rightarrow> 'v \<Rightarrow> bool) \<Rightarrow> (nat \<Rightarrow> nat) \<Rightarrow> (nat \<Rightarrow> 'v lru_handle option) \<Rightarrow> nat \<Rightarrow> bool" where
  "entry_ok P R m e \<longleftrightarrow>
     (\<exists>h. m e = Some h \<and> P (lh_key h) (lh_value h) \<and> lh_refs h = R e + (if lh_in_cache h then 1 else 0) \<and> 0 < lh_refs h)"

definition charge_of :: "(nat \<Rightarrow> 'v lru_handle option) \<Rightarrow> nat \<Rightarrow> u64" where
  "charge_of m e = (case m e of None \<Rightarrow> 0 | Some h \<Rightarrow> lh_charge h)"

definition lists_ok :: "(nat \<Rightarrow> nat) \<Rightarrow> (nat \<Rightarrow> 'v lru_handle option) \<Rightarrow> nat set \<Rightarrow> lru_cache \<Rightarrow> bool" where
  "lists_ok R m D c \<longleftrightarrow>
     distinct (lc_lru c @ lc_in_use c) \<and> set (lc_lru c) = {e \<in> cached m D. R e = 0} \<and>
     set (lc_in_use c) = {e \<in> cached m D. R e \<noteq> 0} \<and>
     lc_usage c = (\<Sum>e\<leftarrow>lc_lru c @ lc_in_use c. charge_of m e)"

definition shard_rest :: "(slice \<Rightarrow> 'v \<Rightarrow> bool) \<Rightarrow> (nat \<Rightarrow> nat) \<Rightarrow> nat set \<Rightarrow> 'v shard_state \<Rightarrow> bool" where
  "shard_rest P R D = (\<lambda>(s, c). (\<forall>e \<in> D. entry_ok P R (st_handles s) e) \<and> lists_ok R (st_handles s) D c)"

definition shard_ok :: "(slice \<Rightarrow> 'v \<Rightarrow> bool) \<Rightarrow> (nat \<Rightarrow> nat) \<Rightarrow> nat set \<Rightarrow> 'v shard_state \<Rightarrow> bool" where
  "shard_ok P R D = (\<lambda>(s, c). shard_rest P R D (s, c) \<and> table_ok (st_handles s) (cached (st_handles s) D) (lc_table c))"

text \<open>What an operation on a shard may do to the store: free entries of the shard that have no client.\<close>

definition alive :: "nat set \<Rightarrow> 'v lru_store \<Rightarrow> nat set" where
  "alive D s = {e \<in> D. st_handles s e \<noteq> None}"

definition stepped :: "nat set \<Rightarrow> 'v lru_store \<Rightarrow> 'v lru_store \<Rightarrow> bool" where
  "stepped D s s' \<longleftrightarrow>
     st_next s' = st_next s \<and> (\<forall>e. e \<notin> D \<longrightarrow> st_handles s' e = st_handles s e) \<and>
     (\<forall>e \<in> D. \<forall>h'. st_handles s' e = Some h' \<longrightarrow> (\<exists>h. st_handles s e = Some h \<and> same_entry h h'))"

definition shard_step :: "(slice \<Rightarrow> 'v \<Rightarrow> bool) \<Rightarrow> (nat \<Rightarrow> nat) \<Rightarrow> nat set \<Rightarrow> 'v shard_state \<Rightarrow> 'v shard_state \<Rightarrow> bool" where
  "shard_step P R D sc sc' \<longleftrightarrow>
     shard_ok P R (alive D (fst sc')) sc' \<and> stepped D (fst sc) (fst sc') \<and>
     (\<forall>e \<in> D. R e \<noteq> 0 \<longrightarrow> st_handles (fst sc') e \<noteq> None) \<and> lc_capacity (snd sc') = lc_capacity (snd sc)"

lemma stepped_refl [simp]: "stepped D s s"
  by (auto simp: stepped_def)

lemma stepped_trans:
  assumes "stepped D s s'" "stepped (alive D s') s' s''"
  shows "stepped D s s''"
  unfolding stepped_def
proof (intro conjI allI ballI impI)
  show "st_next s'' = st_next s" using assms by (simp add: stepped_def)
  show "st_handles s'' e = st_handles s e" if "e \<notin> D" for e
    using assms that by (simp add: stepped_def alive_def)
  show "\<exists>h. st_handles s e = Some h \<and> same_entry h h'" if e: "e \<in> D" "st_handles s'' e = Some h'" for e h'
  proof (cases "st_handles s' e")
    case None
    then have "e \<notin> alive D s'" by (simp add: alive_def)
    with assms(2) None e show ?thesis by (auto simp: stepped_def)
  next
    case (Some h1)
    then have "e \<in> alive D s'" using e by (simp add: alive_def)
    with assms(2) Some e have "same_entry h1 h'" by (auto simp: stepped_def)
    moreover obtain h where "st_handles s e = Some h" "same_entry h h1" using assms(1) e(1) Some unfolding stepped_def by blast
    ultimately show ?thesis using same_entry_trans by blast
  qed
qed

lemma alive_alive: "stepped (alive D s') s' s'' \<Longrightarrow> alive (alive D s') s'' = alive D s''"
  by (auto simp: alive_def stepped_def)

lemma shard_step_trans:
  assumes "shard_step P R D sc sc'" "shard_step P R (alive D (fst sc')) sc' sc''"
  shows "shard_step P R D sc sc''"
proof -
  have steps: "stepped D (fst sc) (fst sc')" "stepped (alive D (fst sc')) (fst sc') (fst sc'')"
    using assms by (simp_all add: shard_step_def)
  have "st_handles (fst sc'') e \<noteq> None" if "e \<in> D" "R e \<noteq> 0" for e
    using assms that by (auto simp: shard_step_def alive_def)
  then show ?thesis
    using assms stepped_trans [OF steps] alive_alive [OF steps(2)] by (simp add: shard_step_def)
qed

lemma shard_step_refl: "shard_ok P R D sc \<Longrightarrow> shard_step P R D sc sc"
proof -
  assume ok: "shard_ok P R D sc"
  then have "alive D (fst sc) = D" "\<forall>e \<in> D. st_handles (fst sc) e \<noteq> None"
    by (auto simp: shard_ok_def shard_rest_def entry_ok_def alive_def)
  with ok show ?thesis by (simp add: shard_step_def)
qed

text \<open>An entry of the store is replaced by another one with the same key.\<close>

lemma charge_of_upd: "m e = Some h \<Longrightarrow> same_entry h h' \<Longrightarrow> charge_of (m(e := Some h')) = charge_of m"
  by (auto simp: charge_of_def same_entry_def)

lemma stepped_set: "e \<in> D \<Longrightarrow> st_handles s e = Some h \<Longrightarrow> same_entry h h' \<Longrightarrow> stepped D s (set_handle e h' s)"
  by (auto simp: stepped_def set_handle_def)

lemma cached_upd:
  assumes "e \<in> D" "m e = Some h"
  shows "cached (m(e := Some h')) D = (if lh_in_cache h' then insert e (cached m D) else cached m D - {e})"
  using assms by (auto simp: cached_def)

lemma table_ok_upd:
  assumes "table_ok m S t" "m e = Some h" "same_entry h h'" "\<And>x. x \<in> S \<Longrightarrow> m x \<noteq> None"
  shows "table_ok (m(e := Some h')) S t"
proof (rule table_ok_cong [OF assms(1)])
  fix x assume "x \<in> S"
  then obtain hx where "m x = Some hx" using assms(4) by blast
  then show "\<exists>h1 h2. m x = Some h1 \<and> (m(e := Some h')) x = Some h2 \<and> same_entry h1 h2"
    using assms(2,3) by (cases "x = e") auto
qed

lemma cached_some: "e \<in> cached m D \<Longrightarrow> m e \<noteq> None"
  by (auto simp: cached_def)

text \<open>The four ways in which an entry changes: it gets or loses a reference, and moves between the lists
  or does not.\<close>

lemma lists_ok_other:
  assumes "lists_ok R m D c" "e \<in> D" "m e = Some h" "same_entry h h'" "lh_in_cache h' = lh_in_cache h"
    and "lh_in_cache h \<Longrightarrow> (n = 0 \<longleftrightarrow> R e = 0)"
  shows "lists_ok (R(e := n)) (m(e := Some h')) D c"
proof -
  have cached: "cached (m(e := Some h')) D = cached m D" using assms(2,3,5) by (auto simp: cached_def)
  have key: "((R(e := n)) x = 0) = (R x = 0)" if "x \<in> cached m D" for x
    using assms(3,6) that by (auto simp: cached_def)
  have sets: "{x \<in> cached m D. (R(e := n)) x = 0} = {x \<in> cached m D. R x = 0}"
    "{x \<in> cached m D. (R(e := n)) x \<noteq> 0} = {x \<in> cached m D. R x \<noteq> 0}"
    by (intro Collect_cong conj_cong refl; simp only: key)+
  have charge: "charge_of (m(e := Some h')) = charge_of m" using charge_of_upd [of m e h h'] assms(3,4) by simp
  show ?thesis using assms(1) unfolding lists_ok_def cached sets charge .
qed

lemma lists_ok_table: "lists_ok R m D (c\<lparr>lc_table := t\<rparr>) \<longleftrightarrow> lists_ok R m D c"
  by (simp add: lists_ok_def)

lemma entries_ok_upd:
  assumes "\<forall>x \<in> D. entry_ok P R m x" "m e = Some h" "e \<in> D" "same_entry h h'"
    and "lh_refs h' = n + (if lh_in_cache h' then 1 else 0)" "0 < lh_refs h'"
  shows "\<forall>x \<in> D. entry_ok P (R(e := n)) (m(e := Some h')) x"
  using assms by (auto simp: entry_ok_def same_entry_def)

lemma LRU_Ref_refs:
  assumes "shard_ok P R D (s, c)" "e \<in> D"
  shows "\<exists>sc'. LRU_Ref e (s, c) = Some sc' \<and> shard_step P (R(e := R e + 1)) D (s, c) sc'"
proof -
  let ?m = "st_handles s" and ?R = "R(e := R e + 1)"
  from assms have ok: "\<forall>x \<in> D. entry_ok P R ?m x" "lists_ok R ?m D c" "table_ok ?m (cached ?m D) (lc_table c)"
    by (simp_all add: shard_ok_def shard_rest_def)
  then obtain h where h: "?m e = Some h" "lh_refs h = R e + (if lh_in_cache h then 1 else 0)" "0 < lh_refs h"
    using assms(2) by (auto simp: entry_ok_def)
  let ?h = "h\<lparr>lh_refs := lh_refs h + 1\<rparr>"
  have same: "same_entry h ?h" by (simp add: same_entry_def)
  have entries: "\<forall>x \<in> D. entry_ok P ?R (?m(e := Some ?h)) x"
    by (rule entries_ok_upd [OF ok(1) h(1) assms(2) same]) (use h in auto)
  have cached: "cached (?m(e := Some ?h)) D = cached ?m D" using h(1) assms(2) by (auto simp: cached_def)
  have table: "table_ok (?m(e := Some ?h)) (cached ?m D) (lc_table c)"
    using table_ok_upd [of ?m _ _ e h ?h] ok(3) h(1) same cached_some [of _ ?m D] by blast
  have alive: "alive D (set_handle e ?h s) = D" "\<forall>x \<in> D. st_handles (set_handle e ?h s) x \<noteq> None"
    using entries by (auto simp: alive_def set_handle_def entry_ok_def)
  have step: "shard_step P ?R D (s, c) (set_handle e ?h s, c')"
    if "lists_ok ?R (?m(e := Some ?h)) D c'" "lc_table c' = lc_table c" "lc_capacity c' = lc_capacity c" for c'
    using that entries cached table alive stepped_set [OF assms(2) h(1) same]
    by (simp add: shard_step_def shard_ok_def shard_rest_def) (simp add: set_handle_def)
  show ?thesis
  proof (cases "lh_refs h = 1 \<and> lh_in_cache h")
    case True
    then have e: "R e = 0" "e \<in> cached ?m D" using h assms(2) by (auto simp: cached_def)
    then have "e \<in> set (lc_lru c)" using ok(2) by (simp add: lists_ok_def)
    let ?c = "c\<lparr>lc_lru := remove1 e (lc_lru c), lc_in_use := lc_in_use c @ [e]\<rparr>"
    have "e \<notin> set (lc_in_use c)" using ok(2) e by (simp add: lists_ok_def)
    then have "LRU_Remove e c = Some (c\<lparr>lc_lru := remove1 e (lc_lru c)\<rparr>)"
      using \<open>e \<in> set (lc_lru c)\<close> by (simp add: LRU_Remove_def remove1_idem)
    moreover have "lists_ok ?R (?m(e := Some ?h)) D ?c"
    proof -
      have "(\<Sum>x\<leftarrow>lc_lru c. charge_of ?m x) = charge_of ?m e + (\<Sum>x\<leftarrow>remove1 e (lc_lru c). charge_of ?m x)"
        by (rule sum_list_map_remove1 [OF \<open>e \<in> set (lc_lru c)\<close>])
      then show ?thesis
        using ok(2) e charge_of_upd [of ?m e h ?h] h(1) same cached by (auto simp: lists_ok_def distinct_remove1)
    qed
    ultimately show ?thesis using step [of ?c] True h(1)
      by (simp add: LRU_Ref_def LRU_Append_in_use_def)
  next
    case False
    have "lists_ok ?R (?m(e := Some ?h)) D c"
      by (rule lists_ok_other [OF ok(2) assms(2) h(1) same]) (use False h in auto)
    with step [of c] False h(1) show ?thesis by (auto simp: LRU_Ref_def)
  qed
qed

text \<open>An entry that is not in the cache loses a reference, and is freed with the last one.\<close>

lemma Unref_uncached:
  assumes "e \<in> D" "st_handles s e = Some h" "\<not> lh_in_cache h" "lh_refs h = Suc n" "P (lh_key h) (lh_value h)"
    and "\<forall>x \<in> D - {e}. entry_ok P R (st_handles s) x" "lists_ok R (st_handles s) D c"
    and "table_ok (st_handles s) (cached (st_handles s) D) (lc_table c)"
  shows "\<exists>s'. LRU_Unref e (s, c) = Some (s', c) \<and> shard_step P (R(e := n)) D (s, c) (s', c)"
proof (cases n)
  case (Suc k)
  let ?h = "h\<lparr>lh_refs := n\<rparr>" and ?m = "st_handles s"
  have same: "same_entry h ?h" by (simp add: same_entry_def)
  have "lists_ok (R(e := n)) (?m(e := Some ?h)) D c"
    by (rule lists_ok_other [OF assms(7,1,2) same]) (use assms(3) in simp_all)
  moreover have "cached (?m(e := Some ?h)) D = cached ?m D" using assms(2,3) by (auto simp: cached_def)
  moreover have "table_ok (?m(e := Some ?h)) (cached ?m D) (lc_table c)"
    using table_ok_upd [of ?m _ _ e h ?h] assms(2,8) same cached_some [of _ ?m D] by blast
  moreover have entries: "\<forall>x \<in> D. entry_ok P (R(e := n)) (?m(e := Some ?h)) x"
    using assms(3,5,6) Suc by (auto simp: entry_ok_def)
  moreover have "alive D (set_handle e ?h s) = D" "\<forall>x \<in> D. st_handles (set_handle e ?h s) x \<noteq> None"
    using entries by (auto simp: alive_def set_handle_def entry_ok_def)
  ultimately have "shard_step P (R(e := n)) D (s, c) (set_handle e ?h s, c)"
    using stepped_set [of e D s h ?h] assms(1,2) same by (simp add: shard_step_def shard_ok_def shard_rest_def) (simp add: set_handle_def)
  with assms(2,3,4) Suc show ?thesis by (auto simp: LRU_Unref_def Let_def)
next
  case 0
  let ?m = "st_handles s" and ?R = "R(e := n)"
  let ?s = "s\<lparr>st_handles := ?m(e := None), st_deleted := st_deleted s @ [(lh_key h, lh_value h)]\<rparr>"
  have alive: "alive D ?s = D - {e}"
    using assms(6) by (auto simp: alive_def entry_ok_def)
  have e: "e \<notin> cached ?m D" using assms(2,3) by (simp add: cached_def)
  have cached: "cached (?m(e := None)) (D - {e}) = cached ?m D" using assms(2,3) by (auto simp: cached_def)
  have sets: "{x \<in> cached ?m D. ?R x = 0} = {x \<in> cached ?m D. R x = 0}" "{x \<in> cached ?m D. ?R x \<noteq> 0} = {x \<in> cached ?m D. R x \<noteq> 0}"
    using e by (auto split: if_splits)
  have lists: "set (lc_lru c @ lc_in_use c) \<subseteq> cached ?m D" using assms(7) by (auto simp: lists_ok_def)
  have charge: "map (charge_of (?m(e := None))) (lc_lru c @ lc_in_use c) = map (charge_of ?m) (lc_lru c @ lc_in_use c)"
    by (rule map_cong [OF refl]) (use e lists in \<open>auto simp: charge_of_def\<close>)
  have "lists_ok ?R (?m(e := None)) (D - {e}) c"
    using assms(7) unfolding lists_ok_def cached sets charge .
  moreover have "table_ok (?m(e := None)) (cached ?m D) (lc_table c)"
  proof (rule table_ok_cong [OF assms(8)])
    fix x assume "x \<in> cached ?m D"
    with e show "\<exists>h h'. ?m x = Some h \<and> (?m(e := None)) x = Some h' \<and> same_entry h h'" by (auto simp: cached_def)
  qed
  moreover have "\<forall>x \<in> D - {e}. entry_ok P ?R (?m(e := None)) x" using assms(6) by (auto simp: entry_ok_def)
  moreover have "stepped D s ?s" using assms(1) by (auto simp: stepped_def)
  moreover have "\<forall>x \<in> D. ?R x \<noteq> 0 \<longrightarrow> st_handles ?s x \<noteq> None" using assms(6) 0 by (auto simp: entry_ok_def)
  ultimately have "shard_step P ?R D (s, c) (?s, c)"
    using cached alive by (simp add: shard_step_def shard_ok_def shard_rest_def)
  with assms(2,3,4) 0 show ?thesis by (auto simp: LRU_Unref_def Let_def)
qed

lemma LRU_Unref_unrefs:
  assumes "shard_ok P R D (s, c)" "e \<in> D" "R e \<noteq> 0"
  shows "\<exists>sc'. LRU_Unref e (s, c) = Some sc' \<and> shard_step P (R(e := R e - 1)) D (s, c) sc'"
proof -
  let ?m = "st_handles s" and ?R = "R(e := R e - 1)"
  from assms have ok: "\<forall>x \<in> D. entry_ok P R ?m x" "lists_ok R ?m D c" "table_ok ?m (cached ?m D) (lc_table c)"
    by (simp_all add: shard_ok_def shard_rest_def)
  then obtain h where h: "?m e = Some h" "lh_refs h = R e + (if lh_in_cache h then 1 else 0)" "P (lh_key h) (lh_value h)"
    using assms(2) by (auto simp: entry_ok_def)
  show ?thesis
  proof (cases "lh_in_cache h")
    case False
    with h(2) assms(3) have "lh_refs h = Suc (R e - 1)" by simp
    from Unref_uncached [where P = P and R = R and c = c, OF assms(2) h(1) False this h(3) _ ok(2,3)] ok(1)
    show ?thesis by blast
  next
    case True
    let ?h = "h\<lparr>lh_refs := R e\<rparr>"
    have same: "same_entry h ?h" by (simp add: same_entry_def)
    have entries: "\<forall>x \<in> D. entry_ok P ?R (?m(e := Some ?h)) x"
      by (rule entries_ok_upd [OF ok(1) h(1) assms(2) same]) (use True assms(3) in auto)
    have cached: "cached (?m(e := Some ?h)) D = cached ?m D" using h(1) assms(2) by (auto simp: cached_def)
    have table: "table_ok (?m(e := Some ?h)) (cached ?m D) (lc_table c)"
      using table_ok_upd [of ?m _ _ e h ?h] ok(3) h(1) same cached_some [of _ ?m D] by blast
    have alive: "alive D (set_handle e ?h s) = D" "\<forall>x \<in> D. st_handles (set_handle e ?h s) x \<noteq> None"
      using entries by (auto simp: alive_def set_handle_def entry_ok_def)
    have step: "shard_step P ?R D (s, c) (set_handle e ?h s, c')"
      if "lists_ok ?R (?m(e := Some ?h)) D c'" "lc_table c' = lc_table c" "lc_capacity c' = lc_capacity c" for c'
      using that entries cached table alive stepped_set [of e D s h ?h] assms(2) h(1) same
      by (simp add: shard_step_def shard_ok_def shard_rest_def) (simp add: set_handle_def)
    show ?thesis
    proof (cases "R e = 1")
      case one: True
      have e: "e \<in> cached ?m D" using h(1) True assms(2) by (simp add: cached_def)
      then have in_use: "e \<in> set (lc_in_use c)" "e \<notin> set (lc_lru c)" using ok(2) assms(3) by (simp_all add: lists_ok_def)
      let ?c = "c\<lparr>lc_in_use := remove1 e (lc_in_use c), lc_lru := lc_lru c @ [e]\<rparr>"
      have "lists_ok ?R (?m(e := Some ?h)) D ?c"
      proof -
        have "(\<Sum>x\<leftarrow>lc_in_use c. charge_of ?m x) = charge_of ?m e + (\<Sum>x\<leftarrow>remove1 e (lc_in_use c). charge_of ?m x)"
          by (rule sum_list_map_remove1 [OF in_use(1)])
        then show ?thesis
          using ok(2) e one charge_of_upd [of ?m e h ?h] h(1) same cached by (auto simp: lists_ok_def distinct_remove1)
      qed
      with step [of ?c] True one h(1,2) in_use show ?thesis
        by (simp add: LRU_Unref_def Let_def LRU_Remove_def LRU_Append_lru_def remove1_idem)
    next
      case False
      have "lists_ok ?R (?m(e := Some ?h)) D c"
        by (rule lists_ok_other [OF ok(2) assms(2) h(1) same]) (use False assms(3) in auto)
      with step [of c] True False h(1,2) assms(3) show ?thesis by (auto simp: LRU_Unref_def Let_def)
    qed
  qed
qed

text \<open>\<open>FinishErase\<close>, after the entry has left the hash table.\<close>

lemma FinishErase_erases:
  assumes "shard_rest P R D (s, c)" "e \<in> cached (st_handles s) D"
    and "table_ok (st_handles s) (cached (st_handles s) D - {e}) (lc_table c)"
  shows "\<exists>s' c'. FinishErase (Some e) (s, c) = Some (True, s', c') \<and> shard_step P R D (s, c) (s', c') \<and>
    lc_lru c' = remove1 e (lc_lru c)"
proof -
  let ?m = "st_handles s"
  from assms(1) have ok: "\<forall>x \<in> D. entry_ok P R ?m x" "lists_ok R ?m D c" by (simp_all add: shard_rest_def)
  have e: "e \<in> D" using assms(2) by (simp add: cached_def)
  obtain h where h: "?m e = Some h" "lh_in_cache h" "lh_refs h = Suc (R e)" "P (lh_key h) (lh_value h)"
    using assms(2) ok(1) by (fastforce simp: cached_def entry_ok_def)
  let ?h = "h\<lparr>lh_in_cache := False\<rparr>"
  let ?s = "set_handle e ?h s"
  let ?c = "c\<lparr>lc_lru := remove1 e (lc_lru c), lc_in_use := remove1 e (lc_in_use c), lc_usage := lc_usage c - lh_charge h\<rparr>"
  have same: "same_entry h ?h" by (simp add: same_entry_def)
  have m: "st_handles ?s = ?m(e := Some ?h)" by (simp add: set_handle_def)
  have cached: "cached (st_handles ?s) D = cached ?m D - {e}" unfolding m using h(1) e by (auto simp: cached_def)
  have in_lists: "e \<in> set (lc_lru c @ lc_in_use c)" using ok(2) assms(2) by (auto simp: lists_ok_def)
  have charge: "charge_of (st_handles ?s) = charge_of ?m" unfolding m using charge_of_upd [of ?m e h ?h] h(1) same by simp
  have "lists_ok R (st_handles ?s) D ?c"
  proof -
    have d: "distinct (lc_lru c @ lc_in_use c)" using ok(2) unfolding lists_ok_def by blast
    then have split: "remove1 e (lc_lru c) @ remove1 e (lc_in_use c) = remove1 e (lc_lru c @ lc_in_use c)"
      using in_lists by (auto simp: remove1_append remove1_idem disjoint_iff)
    have "charge_of ?m e = lh_charge h" using h(1) by (simp add: charge_of_def)
    then have "lc_usage c = lh_charge h + (\<Sum>x\<leftarrow>remove1 e (lc_lru c @ lc_in_use c). charge_of ?m x)"
      using ok(2) sum_list_map_remove1 [OF in_lists, of "charge_of ?m"] unfolding lists_ok_def by simp
    then show ?thesis
      using ok(2) d split unfolding lists_ok_def cached charge by (auto simp: distinct_remove1)
  qed
  moreover have "table_ok (st_handles ?s) (cached (st_handles ?s) D) (lc_table ?c)"
    using table_ok_upd [of ?m "cached ?m D - {e}" "lc_table c" e h ?h] assms(3) h(1) same cached_some [of _ ?m D]
    unfolding cached unfolding m by auto
  moreover have "\<forall>x \<in> D - {e}. entry_ok P R (st_handles ?s) x" using ok(1) by (auto simp: entry_ok_def set_handle_def)
  moreover have "st_handles ?s e = Some ?h" by (simp add: m)
  ultimately obtain s' where s': "LRU_Unref e (?s, ?c) = Some (s', ?c)" "shard_step P (R(e := R e)) D (?s, ?c) (s', ?c)"
    using Unref_uncached [of e D ?s ?h "R e" P R ?c] e h(3,4) by auto
  have "shard_step P R D (s, c) (s', ?c)"
  proof -
    have "alive D ?s = D" using ok(1) by (auto simp: alive_def set_handle_def entry_ok_def)
    then have "stepped D s s'"
      using stepped_trans [OF stepped_set [of e D s h ?h]] e h(1) same s'(2) by (simp add: shard_step_def)
    then show ?thesis using s'(2) by (simp add: shard_step_def)
  qed
  moreover have "FinishErase (Some e) (s, c) = Some (True, s', ?c)"
    using h(1,2) in_lists s'(1) by (simp add: FinishErase_def LRU_Remove_def)
  ultimately show ?thesis by auto
qed

lemma remove_key_removes:
  assumes "shard_ok P R D (s, c)"
  shows "\<exists>b s' c'. remove_key key hash (s, c) = Some (b, s', c') \<and> shard_step P R D (s, c) (s', c') \<and>
    (\<forall>e \<in> cached (st_handles s) D. has_key (st_handles s) e key hash \<longrightarrow> b \<and> lc_lru c' = remove1 e (lc_lru c))"
proof -
  let ?m = "st_handles s"
  from assms have ok: "shard_rest P R D (s, c)" "table_ok ?m (cached ?m D) (lc_table c)" by (simp_all add: shard_ok_def)
  from HandleTable_Remove_removes [OF ok(2), of key hash] obtain r t where r: "HandleTable_Remove ?m key hash (lc_table c) = Some (r, t)"
    "table_ok ?m (cached ?m D - set_option r) t"
    "case r of None \<Rightarrow> \<forall>e \<in> cached ?m D. \<not> has_key ?m e key hash | Some e \<Rightarrow> e \<in> cached ?m D \<and> has_key ?m e key hash" by blast
  have rest: "shard_rest P R D (s, c\<lparr>lc_table := t\<rparr>)" using ok(1) by (simp add: shard_rest_def lists_ok_table)
  show ?thesis
  proof (cases r)
    case None
    then have "shard_ok P R D (s, c\<lparr>lc_table := t\<rparr>)" using rest r(2) by (simp add: shard_ok_def)
    from shard_step_refl [OF this] have "shard_step P R D (s, c) (s, c\<lparr>lc_table := t\<rparr>)" by (simp add: shard_step_def)
    with None r(1,3) show ?thesis by (auto simp: remove_key_def FinishErase_def)
  next
    case (Some e)
    with r(2,3) have e: "e \<in> cached ?m D" "has_key ?m e key hash" "table_ok ?m (cached ?m D - {e}) (lc_table (c\<lparr>lc_table := t\<rparr>))"
      by simp_all
    from FinishErase_erases [OF rest e(1,3)] obtain s' c' where f: "FinishErase (Some e) (s, c\<lparr>lc_table := t\<rparr>) = Some (True, s', c')"
      "shard_step P R D (s, c\<lparr>lc_table := t\<rparr>) (s', c')" "lc_lru c' = remove1 e (lc_lru c)" by auto
    have unique: "x = e" if "x \<in> cached ?m D" "has_key ?m x key hash" for x
      using ok(2) that e(1,2) unfolding table_ok_def by blast
    have "shard_step P R D (s, c) (s', c')" using f(2) by (simp add: shard_step_def)
    with f r(1) Some unique show ?thesis by (auto simp: remove_key_def)
  qed
qed

lemma drop_oldest_drops:
  assumes "shard_ok P R D (s, c)" "lc_lru c \<noteq> []"
  shows "\<exists>s' c'. drop_oldest (s, c) = Some (s', c') \<and> shard_step P R D (s, c) (s', c') \<and> lc_lru c' = tl (lc_lru c)"
proof -
  let ?e = "hd (lc_lru c)" and ?m = "st_handles s"
  have "?e \<in> set (lc_lru c)" using assms(2) by simp
  then have e: "?e \<in> cached ?m D" "R ?e = 0" using assms(1) by (simp_all add: shard_ok_def shard_rest_def lists_ok_def)
  then obtain h where h: "?m ?e = Some h" "lh_in_cache h" "lh_refs h = 1"
    using assms(1) by (fastforce simp: shard_ok_def shard_rest_def cached_def entry_ok_def)
  then have "has_key ?m ?e (lh_key h) (lh_hash h)" by (simp add: has_key_def)
  with remove_key_removes [OF assms(1), of "lh_key h" "lh_hash h"] e(1) obtain s' c' where
    "remove_key (lh_key h) (lh_hash h) (s, c) = Some (True, s', c')" "shard_step P R D (s, c) (s', c')" "lc_lru c' = remove1 ?e (lc_lru c)"
    by auto
  with h assms(2) show ?thesis by (cases "lc_lru c") (auto simp: drop_oldest_def)
qed

lemma shard_step_ok: "shard_step P R D sc sc' \<Longrightarrow> shard_ok P R (alive D (fst sc')) sc'"
  by (simp add: shard_step_def)

text \<open>What leaves the cache is the entry that is asked for; the entries in use stay.\<close>

lemma Unref_in_use:
  "LRU_Unref x (s, c) = Some (s', c') \<Longrightarrow> e \<noteq> x \<Longrightarrow> e \<in> set (lc_in_use c) \<Longrightarrow> e \<in> set (lc_in_use c')"
  by (auto simp: LRU_Unref_def LRU_Remove_def LRU_Append_lru_def Let_def asserting_def bind_eq_Some_conv split: if_splits)

lemma FinishErase_in_use:
  assumes "FinishErase r (s, c) = Some (b, s', c')" "r \<noteq> Some e" "e \<in> set (lc_in_use c)"
  shows "e \<in> set (lc_in_use c')"
proof (cases r)
  case None
  with assms show ?thesis by (simp add: FinishErase_def)
next
  case (Some x)
  with assms obtain h where u: "LRU_Unref x (set_handle x (h\<lparr>lh_in_cache := False\<rparr>) s,
      c\<lparr>lc_lru := remove1 x (lc_lru c), lc_in_use := remove1 x (lc_in_use c), lc_usage := lc_usage c - lh_charge h\<rparr>) = Some (s', c')"
    by (auto simp: FinishErase_def LRU_Remove_def asserting_def bind_eq_Some_conv split: if_splits)
  have "e \<noteq> x" using assms(2) Some by blast
  with Unref_in_use [OF u] assms(3) show ?thesis by simp
qed

lemma drop_oldest_in_use:
  assumes "shard_ok P R D (s, c)" "lc_lru c \<noteq> []" "drop_oldest (s, c) = Some (s', c')" "e \<in> set (lc_in_use c)"
  shows "e \<in> set (lc_in_use c')"
proof -
  let ?x = "hd (lc_lru c)" and ?m = "st_handles s"
  have "?x \<in> set (lc_lru c)" using assms(2) by simp
  then have x: "?x \<in> cached ?m D" "e \<noteq> ?x" and table: "table_ok ?m (cached ?m D) (lc_table c)"
    using assms(1,4) by (auto simp: shard_ok_def shard_rest_def lists_ok_def)
  from assms(3) obtain h b where h: "?m ?x = Some h" "remove_key (lh_key h) (lh_hash h) (s, c) = Some (b, s', c')"
    by (auto simp: drop_oldest_def asserting_def bind_eq_Some_conv split: if_splits)
  from HandleTable_Remove_removes [OF table, of "lh_key h" "lh_hash h"] obtain r t where
    r: "HandleTable_Remove ?m (lh_key h) (lh_hash h) (lc_table c) = Some (r, t)"
      "case r of None \<Rightarrow> True | Some y \<Rightarrow> y \<in> cached ?m D \<and> has_key ?m y (lh_key h) (lh_hash h)"
    by (auto split: option.splits)
  have "has_key ?m ?x (lh_key h) (lh_hash h)" using h(1) by (simp add: has_key_def)
  then have "r \<noteq> Some e" using table r(2) x unfolding table_ok_def by (auto split: option.splits)
  moreover from h(2) r(1) have "FinishErase r (s, c\<lparr>lc_table := t\<rparr>) = Some (b, s', c')" by (simp add: remove_key_def)
  ultimately show ?thesis using FinishErase_in_use assms(4) by fastforce
qed

text \<open>The loops end; after \<open>evict_loop\<close> the usage is within the capacity or every entry is in use.\<close>

lemma evict_loop_ends:
  assumes "shard_ok P R D (s, c)"
  shows "\<exists>s' c'. evict_loop (s, c) = Some (s', c') \<and> shard_step P R D (s, c) (s', c') \<and>
    (lc_usage c' \<le> lc_capacity c' \<or> lc_lru c' = [])"
  using assms
proof (induction "length (lc_lru c)" arbitrary: D s c)
  case 0
  then show ?case using shard_step_refl [OF 0(2)] by (subst evict_loop.simps) auto
next
  case (Suc n)
  show ?case
  proof (cases "lc_usage c > lc_capacity c")
    case True
    from Suc(2) have "lc_lru c \<noteq> []" by auto
    with drop_oldest_drops [OF Suc(3)] obtain s1 c1 where 1: "drop_oldest (s, c) = Some (s1, c1)" "shard_step P R D (s, c) (s1, c1)"
      "lc_lru c1 = tl (lc_lru c)" by blast
    have "n = length (lc_lru c1)" "shard_ok P R (alive D s1) (s1, c1)" using Suc(2) 1(3) shard_step_ok [OF 1(2)] by simp_all
    from Suc(1) [OF this] obtain s' c' where
      2: "evict_loop (s1, c1) = Some (s', c')" "shard_step P R (alive D s1) (s1, c1) (s', c')"
        "lc_usage c' \<le> lc_capacity c' \<or> lc_lru c' = []" by auto
    have "evict_loop (s, c) = Some (s', c')"
      using True \<open>lc_lru c \<noteq> []\<close> 1(1) 2(1) by (subst evict_loop.simps) simp
    with shard_step_trans [OF 1(2)] 2(2,3) show ?thesis by auto
  next
    case False
    then show ?thesis using shard_step_refl [OF Suc(3)] by (subst evict_loop.simps) (auto simp: not_less)
  qed
qed

lemma LRU_Prune_ends:
  assumes "shard_ok P R D (s, c)"
  shows "\<exists>s' c'. LRU_Prune (s, c) = Some (s', c') \<and> shard_step P R D (s, c) (s', c') \<and> lc_lru c' = []"
  using assms
proof (induction "length (lc_lru c)" arbitrary: D s c)
  case 0
  then show ?case using shard_step_refl [OF 0(2)] by (subst LRU_Prune.simps) auto
next
  case (Suc n)
  then have "lc_lru c \<noteq> []" by auto
  with drop_oldest_drops [OF Suc(3)] obtain s1 c1 where 1: "drop_oldest (s, c) = Some (s1, c1)" "shard_step P R D (s, c) (s1, c1)"
    "lc_lru c1 = tl (lc_lru c)" by blast
  have "n = length (lc_lru c1)" "shard_ok P R (alive D s1) (s1, c1)" using Suc(2) 1(3) shard_step_ok [OF 1(2)] by simp_all
  from Suc(1) [OF this] obtain s' c' where
    2: "LRU_Prune (s1, c1) = Some (s', c')" "shard_step P R (alive D s1) (s1, c1) (s', c')" "lc_lru c' = []" by auto
  have "LRU_Prune (s, c) = Some (s', c')"
    using \<open>lc_lru c \<noteq> []\<close> 1(1) 2(1) by (subst LRU_Prune.simps) simp
  with shard_step_trans [OF 1(2)] 2(2,3) show ?case by auto
qed

section \<open>Lookup and insertion\<close>

lemma LRU_Lookup_finds:
  assumes "shard_ok P R D (s, c)"
  shows "\<exists>r s' c'. LRU_Lookup key hash (s, c) = Some (r, s', c') \<and>
    (case r of
       None \<Rightarrow> s' = s \<and> c' = c \<and> (\<forall>e \<in> cached (st_handles s) D. \<not> has_key (st_handles s) e key hash)
     | Some e \<Rightarrow> e \<in> D \<and> has_key (st_handles s) e key hash \<and> shard_step P (R(e := R e + 1)) D (s, c) (s', c'))"
proof -
  from assms have "table_ok (st_handles s) (cached (st_handles s) D) (lc_table c)" by (simp add: shard_ok_def)
  from HandleTable_Lookup_finds [OF this, of key hash] obtain r where r: "HandleTable_Lookup (st_handles s) key hash (lc_table c) = Some r"
    "case r of None \<Rightarrow> \<forall>e \<in> cached (st_handles s) D. \<not> has_key (st_handles s) e key hash
     | Some e \<Rightarrow> e \<in> cached (st_handles s) D \<and> has_key (st_handles s) e key hash" by blast
  show ?thesis
  proof (cases r)
    case None
    with r show ?thesis by (auto simp: LRU_Lookup_def)
  next
    case (Some e)
    then have e: "e \<in> D" "has_key (st_handles s) e key hash" using r(2) by (simp_all add: cached_def)
    with LRU_Ref_refs [OF assms e(1)] r(1) Some show ?thesis
      by (auto simp: LRU_Lookup_def intro!: exI [of _ "Some e"])
  qed
qed

text \<open>Insertion gives the store a new entry.\<close>

definition fresh_store :: "'v lru_handle \<Rightarrow> 'v lru_store \<Rightarrow> 'v lru_store" where
  "fresh_store h s = set_handle (st_next s) h (s\<lparr>st_next := Suc (st_next s)\<rparr>)"

lemma fresh_entries:
  assumes "\<forall>x \<in> D. entry_ok P R (st_handles s) x" "st_next s \<notin> D" "P (lh_key h) (lh_value h)"
    and "lh_refs h = 1 + (if lh_in_cache h then 1 else 0)"
  shows "\<forall>x \<in> insert (st_next s) D. entry_ok P (R(st_next s := 1)) (st_handles (fresh_store h s)) x"
  using assms by (auto simp: entry_ok_def fresh_store_def set_handle_def)

lemma fresh_cached:
  assumes "st_next s \<notin> D"
  shows "cached (st_handles (fresh_store h s)) (insert (st_next s) D) =
    (if lh_in_cache h then insert (st_next s) (cached (st_handles s) D) else cached (st_handles s) D)"
  using assms by (auto simp: cached_def fresh_store_def set_handle_def)

lemma fresh_table:
  assumes "table_ok (st_handles s) (cached (st_handles s) D) t" "st_next s \<notin> D"
  shows "table_ok (st_handles (fresh_store h s)) (cached (st_handles s) D) t"
  by (rule table_ok_cong [OF assms(1)]) (use assms(2) in \<open>auto simp: cached_def fresh_store_def set_handle_def\<close>)

lemma fresh_lists:
  assumes "lists_ok R (st_handles s) D c" "st_next s \<notin> D"
  shows "\<not> lh_in_cache h \<Longrightarrow> lists_ok (R(st_next s := 1)) (st_handles (fresh_store h s)) (insert (st_next s) D) c"
    "lh_in_cache h \<Longrightarrow> lists_ok (R(st_next s := 1)) (st_handles (fresh_store h s)) (insert (st_next s) D)
      (c\<lparr>lc_in_use := lc_in_use c @ [st_next s], lc_usage := lc_usage c + lh_charge h\<rparr>)"
proof -
  let ?e = "st_next s" and ?m = "st_handles s" and ?m' = "st_handles (fresh_store h s)"
  have new: "?e \<notin> cached ?m D" using assms(2) by (simp add: cached_def)
  have listed: "x \<in> cached ?m D" if "x \<in> set (lc_lru c @ lc_in_use c)" for x using that assms(1) by (auto simp: lists_ok_def)
  have same: "charge_of ?m' x = charge_of ?m x" if "x \<in> cached ?m D" for x
    using that new by (auto simp: charge_of_def fresh_store_def set_handle_def)
  have charge: "(\<Sum>x\<leftarrow>lc_lru c. charge_of ?m' x) = (\<Sum>x\<leftarrow>lc_lru c. charge_of ?m x)"
    "(\<Sum>x\<leftarrow>lc_in_use c. charge_of ?m' x) = (\<Sum>x\<leftarrow>lc_in_use c. charge_of ?m x)"
    by (intro arg_cong [where f = sum_list] map_cong refl same listed; simp)+
  have self: "charge_of ?m' ?e = lh_charge h" by (simp add: charge_of_def fresh_store_def set_handle_def)
  have old: "distinct (lc_lru c @ lc_in_use c)" "set (lc_lru c) = {x \<in> cached ?m D. R x = 0}" "set (lc_in_use c) = {x \<in> cached ?m D. R x \<noteq> 0}"
    "lc_usage c = (\<Sum>x\<leftarrow>lc_lru c @ lc_in_use c. charge_of ?m x)" using assms(1) unfolding lists_ok_def by blast+
  show "lists_ok (R(?e := 1)) ?m' (insert ?e D) c" if "\<not> lh_in_cache h"
    using that old new fresh_cached [OF assms(2), of h] charge by (auto simp: lists_ok_def split: if_splits)
  show "lists_ok (R(?e := 1)) ?m' (insert ?e D) (c\<lparr>lc_in_use := lc_in_use c @ [?e], lc_usage := lc_usage c + lh_charge h\<rparr>)" if "lh_in_cache h"
    using that old new fresh_cached [OF assms(2), of h] charge self by (auto simp: lists_ok_def split: if_splits)
qed

lemma evict_loop_in_use:
  assumes "shard_ok P R D (s, c)" "evict_loop (s, c) = Some (s', c')" "e \<in> set (lc_in_use c)"
  shows "e \<in> set (lc_in_use c')"
  using assms
proof (induction "length (lc_lru c)" arbitrary: D s c)
  case 0
  then show ?case by (simp add: evict_loop.simps)
next
  case (Suc n)
  show ?case
  proof (cases "lc_usage c > lc_capacity c")
    case True
    from Suc(2) have ne: "lc_lru c \<noteq> []" by auto
    with drop_oldest_drops [OF Suc(3)] obtain s1 c1 where 1: "drop_oldest (s, c) = Some (s1, c1)" "shard_step P R D (s, c) (s1, c1)"
      "lc_lru c1 = tl (lc_lru c)" by blast
    have "evict_loop (s1, c1) = Some (s', c')" using Suc(4) True ne 1(1) by (simp add: evict_loop.simps [of "(s, c)"])
    with Suc(1) [OF _ shard_step_ok [OF 1(2), unfolded fst_conv] _ drop_oldest_in_use [OF Suc(3) ne 1(1) Suc(5)]] Suc(2) 1(3)
    show ?thesis by simp
  next
    case False
    then show ?thesis using Suc(4,5) by (simp add: evict_loop.simps [of "(s, c)"])
  qed
qed

lemma LRU_Insert_inserts:
  fixes hash :: u32 and charge :: u64
  assumes "shard_ok P R D (s, c)" "st_next s \<notin> D" "P key val"
  defines "h \<equiv> \<lparr>lh_value = val, lh_charge = charge, lh_in_cache = lc_capacity c > 0,
    lh_refs = (if lc_capacity c > 0 then 2 else 1), lh_hash = hash, lh_key = key\<rparr>"
  shows "\<exists>s1 c1 s' c'. LRU_Insert key hash val charge (s, c) = Some (st_next s, s', c') \<and> s1 = fresh_store h s \<and>
    lc_capacity c1 = lc_capacity c \<and>
    shard_step P (R(st_next s := 1)) (insert (st_next s) D) (s1, c1) (s', c') \<and> (lc_usage c' \<le> lc_capacity c' \<or> lc_lru c' = []) \<and>
    (0 < lc_capacity c \<longrightarrow> st_next s \<in> set (lc_in_use c'))"
proof -
  let ?e = "st_next s" and ?R = "R(st_next s := 1)" and ?D = "insert (st_next s) D" and ?s = "fresh_store h s"
  from assms(1) have ok: "\<forall>x \<in> D. entry_ok P R (st_handles s) x" "lists_ok R (st_handles s) D c"
    "table_ok (st_handles s) (cached (st_handles s) D) (lc_table c)" by (simp_all add: shard_ok_def shard_rest_def)
  have entries: "\<forall>x \<in> ?D. entry_ok P ?R (st_handles ?s) x"
    by (rule fresh_entries [OF ok(1) assms(2)]) (use assms(3) in \<open>simp_all add: h_def\<close>)
  show ?thesis
  proof (cases "lc_capacity c > 0")
    case False
    then have "shard_ok P ?R ?D (?s, c)"
      using entries fresh_lists(1) [OF ok(2) assms(2), of h] fresh_table [OF ok(3) assms(2), of h] fresh_cached [OF assms(2), of h]
      by (simp add: shard_ok_def shard_rest_def h_def)
    from evict_loop_ends [OF this] obtain s' c' where l: "evict_loop (?s, c) = Some (s', c')" "shard_step P ?R ?D (?s, c) (s', c')"
      "lc_usage c' \<le> lc_capacity c' \<or> lc_lru c' = []" by blast
    have "LRU_Insert key hash val charge (s, c) = Some (?e, s', c')"
      using False l(1) by (simp add: LRU_Insert_def Let_def fresh_store_def h_def)
    with l(2,3) False show ?thesis by blast
  next
    case True
    let ?c = "c\<lparr>lc_in_use := lc_in_use c @ [?e], lc_usage := lc_usage c + charge\<rparr>"
    have cached: "cached (st_handles ?s) ?D = insert ?e (cached (st_handles s) D)"
      using fresh_cached [OF assms(2), of h] True by (simp add: h_def)
    have lists: "lists_ok ?R (st_handles ?s) ?D ?c"
      using fresh_lists(2) [OF ok(2) assms(2), of h] True by (simp add: h_def)
    have new: "?e \<notin> cached (st_handles s) D" "st_handles ?s ?e = Some h"
      using assms(2) by (simp_all add: cached_def fresh_store_def set_handle_def)
    from HandleTable_Insert_inserts [OF fresh_table [OF ok(3) assms(2)] new] obtain old t where t:
      "HandleTable_Insert (st_handles ?s) ?e (lc_table c) = Some (old, t)"
      "table_ok (st_handles ?s) (insert ?e (cached (st_handles s) D - set_option old)) t"
      "case old of None \<Rightarrow> True | Some e' \<Rightarrow> e' \<in> cached (st_handles s) D" by blast
    let ?c1 = "?c\<lparr>lc_table := t\<rparr>"
    have rest: "shard_rest P ?R ?D (?s, ?c1)" using entries lists unfolding shard_rest_def prod.case lists_ok_table by blast
    have old: "\<exists>b s2 c2. FinishErase old (?s, ?c1) = Some (b, s2, c2) \<and> shard_step P ?R ?D (?s, ?c1) (s2, c2)"
    proof (cases old)
      case None
      then have "shard_ok P ?R ?D (?s, ?c1)" using rest t(2) cached by (simp add: shard_ok_def)
      with None shard_step_refl show ?thesis by (auto simp: FinishErase_def)
    next
      case (Some e')
      then have "e' \<in> cached (st_handles ?s) ?D" "cached (st_handles ?s) ?D - {e'} = insert ?e (cached (st_handles s) D - {e'})"
        using t(3) cached new(1) by auto
      with t(2) Some FinishErase_erases [OF rest, of e'] show ?thesis by auto
    qed
    from old obtain b s2 c2 where f: "FinishErase old (?s, ?c1) = Some (b, s2, c2)" "shard_step P ?R ?D (?s, ?c1) (s2, c2)" by blast
    have "old \<noteq> Some ?e" using t(3) new(1) by auto
    with FinishErase_in_use [OF f(1), of ?e] have "?e \<in> set (lc_in_use c2)" by simp
    from evict_loop_ends [OF shard_step_ok [OF f(2)]] obtain s' c' where l: "evict_loop (s2, c2) = Some (s', c')"
      "shard_step P ?R (alive ?D s2) (s2, c2) (s', c')" "lc_usage c' \<le> lc_capacity c' \<or> lc_lru c' = []" by auto
    have "LRU_Insert key hash val charge (s, c) = Some (?e, s', c')"
      using True t(1) f(1) l(1)
      by (simp add: LRU_Insert_def Let_def fresh_store_def h_def LRU_Append_in_use_def numeral_2_eq_2)
    moreover have "shard_step P ?R ?D (?s, ?c1) (s', c')" using shard_step_trans [OF f(2)] l(2) by simp
    moreover have "lc_capacity ?c1 = lc_capacity c" by simp
    moreover have "?e \<in> set (lc_in_use c')"
      using evict_loop_in_use [OF shard_step_ok [OF f(2), unfolded fst_conv] l(1)] \<open>?e \<in> set (lc_in_use c2)\<close> .
    ultimately show ?thesis using l(3) by blast
  qed
qed

section \<open>The shards together\<close>

definition shard_entries :: "(nat \<Rightarrow> 'v lru_handle option) \<Rightarrow> nat \<Rightarrow> nat set" where
  "shard_entries m i = {e. \<exists>h. m e = Some h \<and> Shard (lh_hash h) = i}"

definition handles_of :: "(nat \<times> 'v) multiset \<Rightarrow> nat \<Rightarrow> nat" where
  "handles_of H e = count (image_mset fst H) e"

text \<open>The store is good for the handles \<open>H\<close> of the clients.\<close>

definition store_ok :: "(nat \<times> 'v) multiset \<Rightarrow> 'v lru_store \<Rightarrow> bool" where
  "store_ok H s \<longleftrightarrow>
     (\<forall>e. st_next s \<le> e \<longrightarrow> st_handles s e = None) \<and>
     (\<forall>(e, v) \<in># H. \<exists>h. st_handles s e = Some h \<and> lh_value h = v)"

definition lru_holds :: "(slice \<Rightarrow> 'v \<Rightarrow> bool) \<Rightarrow> (nat \<times> 'v) multiset \<Rightarrow> 'v sharded_cache \<Rightarrow> bool" where
  "lru_holds P H sc \<longleftrightarrow>
     length (sc_shards sc) = kNumShards \<and> store_ok H (sc_store sc) \<and>
     (\<forall>i < kNumShards.
       shard_ok P (handles_of H) (shard_entries (st_handles (sc_store sc)) i) (sc_store sc, sc_shards sc ! i))"

lemma Shard_less: "Shard hash < kNumShards"
proof -
  have "unat hash < 16 * 2 ^ 28" using unsigned_less [of hash] by simp
  then show ?thesis by (simp add: Shard_def kNumShards_def kNumShardBits_def unat_drop_bit_div less_mult_imp_div_less)
qed

lemma HashSlice_total: "\<exists>h. HashSlice s = Some h"
proof -
  obtain r where "hash_loop s (ucast (ucast (0 :: u32) XOR (of_nat (length s) * 0xc6a4a793 :: u64))) = Some r" using hash_loop_total by blast
  then show ?thesis by (cases r) (simp add: HashSlice_def Hash_def Let_def)
qed

lemma shard_ok_cong:
  assumes "shard_ok P R D (s, c)" "\<And>e. e \<in> D \<Longrightarrow> st_handles s' e = st_handles s e" "\<And>e. e \<in> D \<Longrightarrow> R' e = R e"
  shows "shard_ok P R' D (s', c)"
proof -
  have cached: "cached (st_handles s') D = cached (st_handles s) D" using assms(2) by (auto simp: cached_def)
  have in_D: "e \<in> D" if "e \<in> cached (st_handles s) D" for e using that by (simp add: cached_def)
  have sets: "{e \<in> cached (st_handles s) D. R' e = 0} = {e \<in> cached (st_handles s) D. R e = 0}"
    "{e \<in> cached (st_handles s) D. R' e \<noteq> 0} = {e \<in> cached (st_handles s) D. R e \<noteq> 0}" using assms(3) in_D by auto
  have lists: "lists_ok R (st_handles s) D c" using assms(1) by (simp add: shard_ok_def shard_rest_def)
  then have "e \<in> D" if "e \<in> set (lc_lru c @ lc_in_use c)" for e using that in_D by (auto simp: lists_ok_def)
  then have charge: "(\<Sum>e\<leftarrow>lc_lru c @ lc_in_use c. charge_of (st_handles s') e) = (\<Sum>e\<leftarrow>lc_lru c @ lc_in_use c. charge_of (st_handles s) e)"
    by (intro arg_cong [where f = sum_list] map_cong refl) (simp add: charge_of_def assms(2))
  have "lists_ok R' (st_handles s') D c" using lists unfolding lists_ok_def cached sets charge .
  moreover have "table_ok (st_handles s') (cached (st_handles s) D) (lc_table c)"
  proof (rule table_ok_cong)
    show "table_ok (st_handles s) (cached (st_handles s) D) (lc_table c)" using assms(1) by (simp add: shard_ok_def)
    show "\<exists>h h'. st_handles s e = Some h \<and> st_handles s' e = Some h' \<and> same_entry h h'" if "e \<in> cached (st_handles s) D" for e
      using that assms(2) [OF in_D [OF that]] by (auto simp: cached_def)
  qed
  moreover have "\<forall>e \<in> D. entry_ok P R' (st_handles s') e"
    using assms by (simp add: shard_ok_def shard_rest_def entry_ok_def)
  ultimately show ?thesis by (simp add: shard_ok_def shard_rest_def cached)
qed

lemma alive_shard:
  assumes "stepped (shard_entries (st_handles s) i) s s'"
  shows "alive (shard_entries (st_handles s) i) s' = shard_entries (st_handles s') i"
    "j \<noteq> i \<Longrightarrow> shard_entries (st_handles s') j = shard_entries (st_handles s) j"
proof -
  let ?D = "shard_entries (st_handles s) i"
  have old: "\<exists>h. st_handles s e = Some h \<and> same_entry h h'" if "st_handles s' e = Some h'" for e h'
    using assms that by (cases "e \<in> ?D") (auto simp: stepped_def)
  have shard: "Shard (lh_hash h') = Shard (lh_hash h)" if "same_entry h h'" for h h' :: "'a lru_handle"
    using that by (simp add: same_entry_def)
  show "alive ?D s' = shard_entries (st_handles s') i"
  proof (intro set_eqI iffI)
    fix e assume "e \<in> alive ?D s'"
    then obtain h' where "e \<in> ?D" "st_handles s' e = Some h'" by (auto simp: alive_def)
    with old [of e h'] shard show "e \<in> shard_entries (st_handles s') i" by (auto simp: shard_entries_def)
  next
    fix e assume "e \<in> shard_entries (st_handles s') i"
    then obtain h' where "st_handles s' e = Some h'" "Shard (lh_hash h') = i" by (auto simp: shard_entries_def)
    with old [of e h'] shard show "e \<in> alive ?D s'" by (auto simp: alive_def shard_entries_def)
  qed
  show "shard_entries (st_handles s') j = shard_entries (st_handles s) j" if "j \<noteq> i"
  proof (intro set_eqI iffI)
    fix e assume "e \<in> shard_entries (st_handles s') j"
    then obtain h' where "st_handles s' e = Some h'" "Shard (lh_hash h') = j" by (auto simp: shard_entries_def)
    with old [of e h'] shard show "e \<in> shard_entries (st_handles s) j" by (auto simp: shard_entries_def)
  next
    fix e assume e: "e \<in> shard_entries (st_handles s) j"
    then have "e \<notin> ?D" using that by (auto simp: shard_entries_def)
    with assms have "st_handles s' e = st_handles s e" by (simp add: stepped_def)
    with e show "e \<in> shard_entries (st_handles s') j" by (simp add: shard_entries_def)
  qed
qed

text \<open>A step of one shard leaves the others alone.\<close>

lemma shards_step:
  assumes "length cs = n" "i < n" "\<And>j. j < n \<Longrightarrow> j \<noteq> i \<Longrightarrow> shard_ok P R (shard_entries (st_handles s) j) (s, cs ! j)"
    and "shard_step P R' (shard_entries (st_handles s) i) (s, c) (s', c')"
    and "\<And>e. e \<notin> shard_entries (st_handles s) i \<Longrightarrow> R' e = R e"
  shows "\<forall>j < n. shard_ok P R' (shard_entries (st_handles s') j) (s', cs[i := c'] ! j)"
proof (intro allI impI)
  fix j assume j: "j < n"
  have step: "stepped (shard_entries (st_handles s) i) s s'" using assms(4) by (simp add: shard_step_def)
  show "shard_ok P R' (shard_entries (st_handles s') j) (s', cs[i := c'] ! j)"
  proof (cases "j = i")
    case True
    then show ?thesis using shard_step_ok [OF assms(4)] alive_shard(1) [OF step] assms(1,2) by simp
  next
    case False
    have "shard_ok P R' (shard_entries (st_handles s) j) (s', cs ! j)"
    proof (rule shard_ok_cong [OF assms(3) [OF j False]])
      fix e assume "e \<in> shard_entries (st_handles s) j"
      then have "e \<notin> shard_entries (st_handles s) i" using False by (auto simp: shard_entries_def)
      then show "st_handles s' e = st_handles s e" "R' e = R e" using step assms(5) by (simp_all add: stepped_def)
    qed
    then show ?thesis using alive_shard(2) [OF step False] False by simp
  qed
qed

lemma store_step:
  assumes "store_ok H s" "shard_step P (handles_of H') (shard_entries (st_handles s) i) (s, c) (s', c')"
    and "\<And>e v. (e, v) \<in># H' \<Longrightarrow> \<exists>h. st_handles s e = Some h \<and> lh_value h = v"
  shows "store_ok H' s'"
proof -
  let ?D = "shard_entries (st_handles s) i"
  have step: "stepped ?D s s'" and kept: "\<And>e. e \<in> ?D \<Longrightarrow> handles_of H' e \<noteq> 0 \<Longrightarrow> st_handles s' e \<noteq> None"
    using assms(2) by (simp_all add: shard_step_def)
  have "\<exists>h. st_handles s' e = Some h \<and> lh_value h = v" if e: "(e, v) \<in># H'" for e v
  proof -
    from assms(3) [OF e] obtain h where h: "st_handles s e = Some h" "lh_value h = v" by blast
    have "handles_of H' e \<noteq> 0" using e by (force simp: handles_of_def)
    show ?thesis
    proof (cases "e \<in> ?D")
      case True
      with kept \<open>handles_of H' e \<noteq> 0\<close> obtain h' where "st_handles s' e = Some h'" by blast
      moreover from this step True h have "same_entry h h'" by (auto simp: stepped_def)
      ultimately show ?thesis using h(2) by (simp add: same_entry_def)
    next
      case False
      with step h show ?thesis by (simp add: stepped_def)
    qed
  qed
  moreover have "st_handles s' e = None" if "st_next s' \<le> e" for e
  proof -
    have "st_handles s e = None" using that assms(1) step by (simp add: store_ok_def stepped_def)
    then have "e \<notin> ?D" by (simp add: shard_entries_def)
    with step \<open>st_handles s e = None\<close> show ?thesis by (simp add: stepped_def)
  qed
  ultimately show ?thesis by (auto simp: store_ok_def)
qed

lemma lru_step:
  assumes "lru_holds P H sc" "i < kNumShards"
    and "shard_step P (handles_of H') (shard_entries (st_handles (sc_store sc)) i) (sc_store sc, sc_shards sc ! i) (s', c')"
    and "\<And>e v. (e, v) \<in># H' \<Longrightarrow> \<exists>h. st_handles (sc_store sc) e = Some h \<and> lh_value h = v"
    and "\<And>e. e \<notin> shard_entries (st_handles (sc_store sc)) i \<Longrightarrow> handles_of H' e = handles_of H e"
  shows "lru_holds P H' (sc\<lparr>sc_store := s', sc_shards := (sc_shards sc)[i := c']\<rparr>)"
proof -
  from assms(1) have ok: "length (sc_shards sc) = kNumShards" "store_ok H (sc_store sc)"
    "\<And>j. j < kNumShards \<Longrightarrow>
      shard_ok P (handles_of H) (shard_entries (st_handles (sc_store sc)) j) (sc_store sc, sc_shards sc ! j)"
    by (simp_all add: lru_holds_def)
  from shards_step [OF ok(1) assms(2) ok(3) assms(3,5)] store_step [OF ok(2) assms(3,4)] ok(1) show ?thesis
    by (simp add: lru_holds_def)
qed

section \<open>The contract\<close>

lemma handles_of_empty [simp]: "handles_of {#} = (\<lambda>_. 0)"
  by (simp add: handles_of_def fun_eq_iff)

lemma handles_of_add: "handles_of (add_mset (e, v) H) = (handles_of H)(e := handles_of H e + 1)"
  by (auto simp: handles_of_def)

lemma lru_value:
  assumes "lru_holds P H sc" "(e, v) \<in># H"
  shows "\<exists>h. st_handles (sc_store sc) e = Some h \<and> lh_value h = v"
  using assms by (auto simp: lru_holds_def store_ok_def)

lemma lru_shard: "lru_holds P H sc \<Longrightarrow> i < kNumShards \<Longrightarrow>
    shard_ok P (handles_of H) (shard_entries (st_handles (sc_store sc)) i) (sc_store sc, sc_shards sc ! i)"
  by (simp add: lru_holds_def)

lemma lru_on_shard:
  assumes "lru_holds P H sc" "f (sc_store sc, sc_shards sc ! Shard hash) = Some (r, s', c')"
  shows "on_shard hash f sc = Some (r, sc\<lparr>sc_store := s', sc_shards := (sc_shards sc)[Shard hash := c']\<rparr>)"
  using assms Shard_less [of hash] by (simp add: on_shard_def lru_holds_def)

lemma Cache_Lookup_finds:
  assumes "lru_holds P H sc"
  shows "\<exists>r sc'. Cache_Lookup key sc = Some (r, sc') \<and>
    (case r of None \<Rightarrow> lru_holds P H sc' | Some e \<Rightarrow> \<exists>v. P key v \<and> lru_holds P (add_mset (e, v) H) sc')"
proof -
  obtain hash where hash: "HashSlice key = Some hash" using HashSlice_total by blast
  let ?i = "Shard hash" and ?m = "st_handles (sc_store sc)"
  note shard = lru_shard [OF assms Shard_less [of hash]]
  from LRU_Lookup_finds [OF shard, of key hash] obtain r s' c' where
    l: "LRU_Lookup key hash (sc_store sc, sc_shards sc ! ?i) = Some (r, s', c')"
      "case r of None \<Rightarrow> s' = sc_store sc \<and> c' = sc_shards sc ! ?i \<and> (\<forall>e \<in> cached ?m (shard_entries ?m ?i). \<not> has_key ?m e key hash)
       | Some e \<Rightarrow> e \<in> shard_entries ?m ?i \<and> has_key ?m e key hash \<and>
           shard_step P ((handles_of H)(e := handles_of H e + 1)) (shard_entries ?m ?i) (sc_store sc, sc_shards sc ! ?i) (s', c')" by blast
  have c: "Cache_Lookup key sc = Some (r, sc\<lparr>sc_store := s', sc_shards := (sc_shards sc)[?i := c']\<rparr>)"
    using lru_on_shard [where f = "LRU_Lookup key hash" and hash = hash, OF assms l(1)] hash by (simp add: Cache_Lookup_def)
  show ?thesis
  proof (cases r)
    case None
    then have "sc\<lparr>sc_store := s', sc_shards := (sc_shards sc)[?i := c']\<rparr> = sc" using l(2) by simp
    with c None assms show ?thesis by auto
  next
    case (Some e)
    then have e: "e \<in> shard_entries ?m ?i" "has_key ?m e key hash"
      "shard_step P ((handles_of H)(e := handles_of H e + 1)) (shard_entries ?m ?i) (sc_store sc, sc_shards sc ! ?i) (s', c')"
      using l(2) by simp_all
    then obtain h where h: "?m e = Some h" "lh_key h = key" by (auto simp: has_key_def)
    then have "P key (lh_value h)" using shard e(1) by (fastforce simp: shard_ok_def shard_rest_def entry_ok_def)
    moreover have "lru_holds P (add_mset (e, lh_value h) H) (sc\<lparr>sc_store := s', sc_shards := (sc_shards sc)[?i := c']\<rparr>)"
    proof (rule lru_step [OF assms Shard_less])
      show "shard_step P (handles_of (add_mset (e, lh_value h) H)) (shard_entries ?m ?i) (sc_store sc, sc_shards sc ! ?i) (s', c')"
        using e(3) by (simp add: handles_of_add)
      show "\<exists>h. ?m x = Some h \<and> lh_value h = v" if "(x, v) \<in># add_mset (e, lh_value h) H" for x v
        using that h(1) lru_value [OF assms] by auto
      show "handles_of (add_mset (e, lh_value h) H) x = handles_of H x" if "x \<notin> shard_entries ?m ?i" for x
        using that e(1) by (auto simp: handles_of_add)
    qed
    ultimately show ?thesis using c Some by auto
  qed
qed

lemma Cache_Release_releases:
  assumes "lru_holds P (add_mset (e, v) H) sc"
  shows "\<exists>sc'. Cache_Release e sc = Some sc' \<and> lru_holds P H sc'"
proof -
  let ?m = "st_handles (sc_store sc)" and ?R = "handles_of (add_mset (e, v) H)"
  obtain h where h: "?m e = Some h" using lru_value [OF assms, of e v] by auto
  let ?i = "Shard (lh_hash h)"
  note shard = lru_shard [OF assms Shard_less [of "lh_hash h"]]
  have e: "e \<in> shard_entries ?m ?i" "?R e \<noteq> 0" using h by (auto simp: shard_entries_def handles_of_add)
  have R: "?R(e := ?R e - 1) = handles_of H" by (auto simp: handles_of_add)
  from LRU_Unref_unrefs [OF shard e] obtain s' c' where
    u: "LRU_Unref e (sc_store sc, sc_shards sc ! ?i) = Some (s', c')"
      "shard_step P (handles_of H) (shard_entries ?m ?i) (sc_store sc, sc_shards sc ! ?i) (s', c')" unfolding R by auto
  have "lru_holds P H (sc\<lparr>sc_store := s', sc_shards := (sc_shards sc)[?i := c']\<rparr>)"
  proof (rule lru_step [OF assms Shard_less u(2)])
    show "\<exists>h. ?m x = Some h \<and> lh_value h = w" if "(x, w) \<in># H" for x w using that lru_value [OF assms, of x w] by simp
    show "handles_of H x = ?R x" if "x \<notin> shard_entries ?m ?i" for x using that e(1) by (auto simp: handles_of_add)
  qed
  moreover have "on_shard (lh_hash h) (\<lambda>sc. map_option (Pair ()) (LRU_Release e sc)) sc =
      Some ((), sc\<lparr>sc_store := s', sc_shards := (sc_shards sc)[?i := c']\<rparr>)"
    by (rule lru_on_shard [OF assms]) (simp add: LRU_Release_def u(1))
  ultimately show ?thesis using h by (simp add: Cache_Release_def)
qed

lemma Cache_Erase_erases:
  assumes "lru_holds P H sc"
  shows "\<exists>sc'. Cache_Erase key sc = Some sc' \<and> lru_holds P H sc'"
proof -
  obtain hash where hash: "HashSlice key = Some hash" using HashSlice_total by blast
  let ?i = "Shard hash" and ?m = "st_handles (sc_store sc)"
  from remove_key_removes [OF lru_shard [OF assms Shard_less [of hash]], of key hash] obtain b s' c' where
    r: "remove_key key hash (sc_store sc, sc_shards sc ! ?i) = Some (b, s', c')"
      "shard_step P (handles_of H) (shard_entries ?m ?i) (sc_store sc, sc_shards sc ! ?i) (s', c')" by blast
  have "lru_holds P H (sc\<lparr>sc_store := s', sc_shards := (sc_shards sc)[?i := c']\<rparr>)"
    by (rule lru_step [OF assms Shard_less r(2)]) (use lru_value [OF assms] in auto)
  moreover have "on_shard hash (\<lambda>sc. map_option (Pair ()) (LRU_Erase key hash sc)) sc =
      Some ((), sc\<lparr>sc_store := s', sc_shards := (sc_shards sc)[?i := c']\<rparr>)"
    by (rule lru_on_shard [OF assms]) (simp add: LRU_Erase_def r(1))
  ultimately show ?thesis using hash by (simp add: Cache_Erase_def)
qed

text \<open>Insertion: the new entry is in the shard of its hash value.\<close>

lemma fresh_shard_entries:
  assumes "st_handles s (st_next s) = None"
  shows "shard_entries (st_handles (fresh_store h s)) i =
    (if Shard (lh_hash h) = i then insert (st_next s) (shard_entries (st_handles s) i) else shard_entries (st_handles s) i)"
  using assms by (auto simp: shard_entries_def fresh_store_def set_handle_def)

lemma Cache_Insert_inserts:
  assumes "lru_holds P H sc" "P key v"
  shows "\<exists>e hash c' sc'. Cache_Insert key v charge sc = Some (e, sc') \<and> lru_holds P (add_mset (e, v) H) sc' \<and>
    HashSlice key = Some hash \<and> sc_shards sc' ! Shard hash = c' \<and> (lc_usage c' \<le> lc_capacity c' \<or> lc_lru c' = []) \<and>
    has_key (st_handles (sc_store sc')) e key hash \<and> (0 < lc_capacity (sc_shards sc ! Shard hash) \<longrightarrow> e \<in> set (lc_in_use c'))"
proof -
  obtain hash where hash: "HashSlice key = Some hash" using HashSlice_total by blast
  let ?i = "Shard hash" and ?s = "sc_store sc" and ?m = "st_handles (sc_store sc)" and ?e = "st_next (sc_store sc)"
  have len: "length (sc_shards sc) = kNumShards" and store: "store_ok H ?s" using assms(1) by (simp_all add: lru_holds_def)
  have new: "?m ?e = None" using store by (simp add: store_ok_def)
  then have "?e \<notin> shard_entries ?m ?i" by (simp add: shard_entries_def)
  from LRU_Insert_inserts [where hash = hash and charge = charge, OF lru_shard [OF assms(1) Shard_less] this assms(2)]
  obtain h c1 s' c' where
    l: "LRU_Insert key hash v charge (?s, sc_shards sc ! ?i) = Some (?e, s', c')"
      "shard_step P ((handles_of H)(?e := 1)) (insert ?e (shard_entries ?m ?i)) (fresh_store h ?s, c1) (s', c')"
      "lc_usage c' \<le> lc_capacity c' \<or> lc_lru c' = []" "0 < lc_capacity (sc_shards sc ! ?i) \<longrightarrow> ?e \<in> set (lc_in_use c')"
    and h: "lh_hash h = hash" "lh_value h = v" "lh_key h = key"
    by auto
  let ?H = "add_mset (?e, v) H"
  have zero: "handles_of H ?e = 0"
    using store new by (fastforce simp: store_ok_def handles_of_def count_eq_zero_iff)
  then have R: "(handles_of H)(?e := 1) = handles_of ?H" by (simp add: handles_of_add)
  note entries = fresh_shard_entries [OF new, of h]
  have step: "shard_step P (handles_of ?H) (shard_entries (st_handles (fresh_store h ?s)) ?i) (fresh_store h ?s, c1) (s', c')"
    using l(2) unfolding R entries h by simp
  have key: "has_key (st_handles s') ?e key hash"
  proof -
    have "st_handles s' ?e \<noteq> None" "stepped (insert ?e (shard_entries ?m ?i)) (fresh_store h ?s) s'"
      using l(2) by (simp_all add: shard_step_def)
    then obtain h' where "st_handles s' ?e = Some h'" "same_entry h h'" by (fastforce simp: stepped_def fresh_store_def set_handle_def)
    then show ?thesis using h by (simp add: has_key_def same_entry_def)
  qed
  have others: "shard_ok P (handles_of H) (shard_entries (st_handles (fresh_store h ?s)) j) (fresh_store h ?s, sc_shards sc ! j)"
    if "j < kNumShards" "j \<noteq> ?i" for j
  proof -
    have "shard_ok P (handles_of H) (shard_entries ?m j) (fresh_store h ?s, sc_shards sc ! j)"
    proof (rule shard_ok_cong [OF lru_shard [OF assms(1) that(1)] _ refl])
      fix x assume "x \<in> shard_entries ?m j"
      then have "x \<noteq> ?e" using new by (auto simp: shard_entries_def)
      then show "st_handles (fresh_store h ?s) x = ?m x" by (simp add: fresh_store_def set_handle_def)
    qed
    then show ?thesis using that(2) h(1) by (simp add: entries)
  qed
  have same: "handles_of ?H x = handles_of H x" if "x \<notin> shard_entries (st_handles (fresh_store h ?s)) ?i" for x
    using that h(1) by (auto simp: entries handles_of_add)
  have "store_ok H (fresh_store h ?s)"
  proof -
    have "\<exists>h'. st_handles (fresh_store h ?s) x = Some h' \<and> lh_value h' = w" if "(x, w) \<in># H" for x w
      using lru_value [OF assms(1) that] new by (cases "x = ?e") (auto simp: fresh_store_def set_handle_def)
    then show ?thesis using store by (auto simp: store_ok_def fresh_store_def set_handle_def)
  qed
  moreover have "\<exists>h'. st_handles (fresh_store h ?s) x = Some h' \<and> lh_value h' = w" if "(x, w) \<in># ?H" for x w
    using that calculation h(2) by (auto simp: store_ok_def fresh_store_def set_handle_def)
  ultimately have "store_ok ?H s'" by (rule store_step [OF _ step])
  then have "lru_holds P ?H (sc\<lparr>sc_store := s', sc_shards := (sc_shards sc)[?i := c']\<rparr>)"
    using shards_step [OF len Shard_less others step same] len by (simp add: lru_holds_def)
  moreover have "Cache_Insert key v charge sc = Some (?e, sc\<lparr>sc_store := s', sc_shards := (sc_shards sc)[?i := c']\<rparr>)"
    using lru_on_shard [where f = "LRU_Insert key hash v charge" and hash = hash, OF assms(1) l(1)] hash by (simp add: Cache_Insert_def)
  ultimately show ?thesis using hash l(3,4) key len Shard_less [of hash] by fastforce
qed

text \<open>What was inserted last is found.\<close>

lemma Cache_Lookup_inserted:
  assumes "lru_holds P (add_mset (e, v) H) sc" "HashSlice key = Some hash" "has_key (st_handles (sc_store sc)) e key hash"
    and "e \<in> set (lc_in_use (sc_shards sc ! Shard hash))"
  shows "\<exists>sc'. Cache_Lookup key sc = Some (Some e, sc') \<and> Cache_Value e sc' = Some v"
proof -
  let ?i = "Shard hash" and ?m = "st_handles (sc_store sc)"
  let ?c = "sc_shards sc ! ?i" and ?S = "cached ?m (shard_entries ?m ?i)"
  from lru_shard [OF assms(1) Shard_less] have ok: "table_ok ?m ?S (lc_table ?c)" "set (lc_in_use ?c) \<subseteq> ?S"
    by (auto simp: shard_ok_def shard_rest_def lists_ok_def)
  from HandleTable_Lookup_finds [OF ok(1), of key hash] obtain r where
    r: "HandleTable_Lookup ?m key hash (lc_table ?c) = Some r"
      "case r of None \<Rightarrow> \<forall>x \<in> ?S. \<not> has_key ?m x key hash | Some x \<Rightarrow> x \<in> ?S \<and> has_key ?m x key hash" by blast
  have e: "e \<in> ?S" using assms(4) ok(2) by blast
  then have "r = Some e" using r(2) ok(1) assms(3) unfolding table_ok_def by (auto split: option.splits)
  moreover from Cache_Lookup_finds [OF assms(1), of key] obtain r' sc' where
    l: "Cache_Lookup key sc = Some (r', sc')"
      "case r' of None \<Rightarrow> lru_holds P (add_mset (e, v) H) sc'
       | Some x \<Rightarrow> \<exists>w. P key w \<and> lru_holds P (add_mset (x, w) (add_mset (e, v) H)) sc'" by blast
  ultimately have "r' = Some e"
    using r(1) assms(2) by (auto simp: Cache_Lookup_def on_shard_def LRU_Lookup_def asserting_def split: if_splits)
  with l show ?thesis using lru_value [where e = e and v = v and sc = sc'] by (fastforce simp: Cache_Value_def)
qed

lemma entry_ok_mono: "entry_ok P R m e \<Longrightarrow> (\<And>key v. P key v \<Longrightarrow> Q key v) \<Longrightarrow> entry_ok Q R m e"
  unfolding entry_ok_def by blast

lemma shard_ok_mono: "shard_ok P R D sc \<Longrightarrow> (\<And>key v. P key v \<Longrightarrow> Q key v) \<Longrightarrow> shard_ok Q R D sc"
  using entry_ok_mono [of P R _ _ Q] by (cases sc) (simp add: shard_ok_def shard_rest_def)

interpretation lru: cache_ok "lru_cache_ops :: ('v, nat, 'v sharded_cache) cache" lru_holds
proof
  fix P Q :: "slice \<Rightarrow> 'v \<Rightarrow> bool" and H and c :: "'v sharded_cache" and key e v and charge
  note ops = lru_cache_ops_def cache.simps
  show "\<exists>h c'. ca_Insert lru_cache_ops key v charge c = Some (h, c') \<and> lru_holds P (add_mset (h, v) H) c'"
    if "lru_holds P H c" "P key v" using Cache_Insert_inserts [OF that, of charge] unfolding ops by blast
  show "\<exists>r c'. ca_Lookup lru_cache_ops key c = Some (r, c') \<and>
      (case r of None \<Rightarrow> lru_holds P H c' | Some h \<Rightarrow> \<exists>v. P key v \<and> lru_holds P (add_mset (h, v) H) c')"
    if "lru_holds P H c" using Cache_Lookup_finds [OF that] unfolding ops .
  show "\<exists>c'. ca_Release lru_cache_ops e c = Some c' \<and> lru_holds P H c'" if "lru_holds P (add_mset (e, v) H) c"
    using Cache_Release_releases [OF that] unfolding ops .
  show "ca_Value lru_cache_ops c' x = Some w" if "lru_holds P H x" "(c', w) \<in># H" for c' w x
    using lru_value [OF that] by (auto simp: ops Cache_Value_def)
  show "\<exists>c'. ca_Erase lru_cache_ops key c = Some c' \<and> lru_holds P H c'" if "lru_holds P H c"
    using Cache_Erase_erases [OF that] unfolding ops .
  show "lru_holds P H (snd (ca_NewId lru_cache_ops c))" if "lru_holds P H c"
    using that by (simp add: ops Cache_NewId_def Let_def lru_holds_def)
  show "lru_holds Q H c" if "lru_holds P H c" "\<And>key v. P key v \<Longrightarrow> Q key v"
    using that(1) shard_ok_mono [of P _ _ _ Q] that(2) by (simp add: lru_holds_def)
qed

text \<open>A new cache holds nothing.\<close>

lemma LRUCache_empty: "\<exists>c. LRUCache = Some c \<and> (\<forall>capacity s. shard_ok P (\<lambda>_. 0) {} (s, SetCapacity capacity c))"
proof -
  obtain t where t: "HandleTable = Some t" using HandleTable_empty by blast
  have empty: "table_ok m {} t" for m :: "nat \<Rightarrow> 'a lru_handle option"
  proof -
    from HandleTable_empty [where m = m] obtain t' where t': "HandleTable = Some t'" "table_ok m {} t'" by blast
    have "Some t' = Some t" by (rule trans [OF sym [OF t'(1)] t])
    then have "t' = t" by (rule option.inject [THEN iffD1])
    with t'(2) show ?thesis by simp
  qed
  show ?thesis
    using t by (auto simp: LRUCache_def SetCapacity_def shard_ok_def shard_rest_def lists_ok_def cached_def empty)
qed

lemma new_cache_holds: "\<exists>sc. ShardedLRUCache capacity = Some sc \<and> lru_holds P {#} sc"
proof -
  obtain c where c: "LRUCache = Some c" "\<And>capacity s. shard_ok P (\<lambda>_. 0) {} (s, SetCapacity capacity c)"
    using LRUCache_empty [of P] by auto
  have zero: "handles_of {#} = (\<lambda>_. 0)" by (simp add: fun_eq_iff)
  have empty: "shard_entries (\<lambda>_. None) i = {}" for i by (simp add: shard_entries_def)
  show ?thesis
    unfolding ShardedLRUCache_def Let_def c(1) option.map
    by (rule exI, rule conjI, rule refl) (simp add: lru_holds_def store_ok_def c(2) empty zero)
qed

lemma new_cache_ok: "ShardedLRUCache capacity = Some sc \<Longrightarrow> lru_holds P {#} sc"
  using new_cache_holds [of capacity P] by auto

end
