(* ===== verification/Ldb_Table_Props.thy ===== *)
theory Ldb_Table_Props
  imports Ldb_Table_Correct Ldb_Cache_LRU_Correct
begin

text \<open>
  Tables in the setting of the library: the builder writes through the POSIX file with the Bloom filter
  policy, and what it wrote is read with \<open>pread\<close>, with the LRU cache or without a cache; and the
  properties of tables.
\<close>

section \<open>Writing a table to a POSIX file\<close>

definition bloom_options :: "nat \<Rightarrow> options" where
  "bloom_options bits = Options\<lparr>op_filter_policy := Some (NewBloomFilterPolicy bits)\<rparr>"

lemma bloom_name: "fp_Name (NewBloomFilterPolicy bits) = ''leveldb.BuiltinBloomFilter2''"
  by (simp add: NewBloomFilterPolicy_def Let_def)

interpretation posix_table: table_writer BytewiseComparator "\<lambda>_. True" bytes_less "posix_writable_file ram_sys"
    "ram_write.written_data" "ram_write.usable fd" "bloom_options bits" "\<lambda>_. True" "bits + 10" for fd bits
  by unfold_locales
    (auto simp: bloom_options_def Options_def bloom_policy_total bloom_policy_size bloom_name)

text \<open>What the builder writes for these entries, with the separators of the index and the data blocks;
  entries that it does not accept are left out.\<close>

definition accepted :: "nat \<Rightarrow> entry list \<Rightarrow> entry list" where
  "accepted bits es =
     (if sorted_wrt bytes_less (map fst es) \<and> table_weight es < 2 ^ 30 \<and> 2 * (bits + 10) * length es < 2 ^ 30 then es else [])"

definition written_table :: "nat \<Rightarrow> entry list \<Rightarrow> u8 list \<times> slice list \<times> parts" where
  "written_table bits es = (SOME (bytes, seps, parts).
     part_entries parts = accepted bits es \<and> table_file (\<lambda>_. True) (\<lambda>_. True) bytes_less (bloom_options bits) bytes seps parts)"

definition new_posix_file :: "posix_writable \<times> ram_kernel" where
  "new_posix_file = (PosixWritableFile ''a/000005.ldb'' 3, \<lparr>rk_disk = [], rk_pos = 0, rk_interrupts = 2\<rparr>)"

lemma new_posix_file: "ram_write.usable 3 new_posix_file" "ram_write.written_data new_posix_file = []"
  by (simp_all add: new_posix_file_def ram_write.usable_def ram_write.written_data_def writable_inv_def PosixWritableFile_def)

lemma written_table:
  "part_entries (snd (snd (written_table bits es))) = accepted bits es"
  "table_file (\<lambda>_. True) (\<lambda>_. True) bytes_less (bloom_options bits) (fst (written_table bits es))
     (fst (snd (written_table bits es))) (snd (snd (written_table bits es)))"
proof -
  let ?P = "\<lambda>(bytes, seps, parts). part_entries parts = accepted bits es \<and>
    table_file (\<lambda>_. True) (\<lambda>_. True) bytes_less (bloom_options bits) bytes seps parts"
  have "sorted_wrt bytes_less (map fst (accepted bits es))" "table_weight (accepted bits es) < 2 ^ 30"
    "2 * (bits + 10) * length (accepted bits es) < 2 ^ 30" by (simp_all add: accepted_def)
  with posix_table.table_written [OF new_posix_file, of "accepted bits es" bits] have "\<exists>t. ?P t" by (fastforce simp: list_all_iff)
  then have "?P (written_table bits es)" unfolding written_table_def by (rule someI_ex)
  then show "part_entries (snd (snd (written_table bits es))) = accepted bits es"
    "table_file (\<lambda>_. True) (\<lambda>_. True) bytes_less (bloom_options bits) (fst (written_table bits es))
     (fst (snd (written_table bits es))) (snd (snd (written_table bits es)))" by (auto simp: split_def)
qed

text \<open>The file is opened with \<open>pread\<close>, with a permanent descriptor or without one.\<close>

abbreviation pread_file :: "bool \<Rightarrow> string \<Rightarrow> ram_kernel random_access_file" where
  "pread_file p name \<equiv> posix_random_file ram_sys \<lparr>pr_has_permanent_fd = p, pr_fd = (if p then 5 else -1), pr_filename = name\<rparr>"

interpretation written: readable_table BytewiseComparator "\<lambda>_. True" bytes_less "pread_file p name" "fst (written_table bits es)"
    "\<lambda>k. rk_disk k = fst (written_table bits es)" "bloom_options bits" "\<lambda>_. True" "fst (snd (written_table bits es))"
    "snd (snd (written_table bits es))" for p name bits es
proof (unfold_locales)
  show "bo_comparator (bloom_options bits) = BytewiseComparator" by (simp add: bloom_options_def Options_def)
  show "table_file (\<lambda>_. True) (\<lambda>_. True) bytes_less (bloom_options bits) (fst (written_table bits es)) (fst (snd (written_table bits es)))
    (snd (snd (written_table bits es)))" by (rule written_table)
  show "sorted_wrt bytes_less (map fst (part_entries (snd (snd (written_table bits es)))))"
    unfolding written_table(1) by (simp add: accepted_def)
  show "list_all (\<lambda>_. True) (map fst (part_entries (snd (snd (written_table bits es)))))" by (simp add: list_all_iff)
qed

text \<open>The two levels of such a table, opened with the LRU cache, for any cache id and any read options.\<close>

interpretation levels: two_level_parts block_iterator_ops BytewiseComparator "\<lambda>_. True"
    "index_entries (fst (snd (written_table bits es))) (snd (snd (written_table bits es)))"
    "bytewise.block_good 1 (index_entries (fst (snd (written_table bits es))) (snd (snd (written_table bits es))))"
    "bytewise.block_at 1 (index_entries (fst (snd (written_table bits es))) (snd (snd (written_table bits es))))" "\<lambda>_. {#}"
    "table_world (Some lru_cache_ops) lru_holds (written.with_blocks bits es id (\<lambda>_ _. False)) (\<lambda>k. rk_disk k = fst (written_table bits es))"
    "data_iterator_ops (Some lru_cache_ops)"
    "BlockReader (Some lru_cache_ops) (pread_file p name) (t\<lparr>ta_options := bloom_options bits, ta_cache_id := id\<rparr>) ropt"
    "written.entries_at bits es"
    "\<lambda>h. bytewise.data_iter_good (nat (bo_block_restart_interval (bloom_options bits))) (written.entries_at bits es h)"
    "\<lambda>h. bytewise.data_iter_at (nat (bo_block_restart_interval (bloom_options bits))) (written.entries_at bits es h)" data_held
  for p name bits es id t ropt
  by (rule written.table_parts) (simp_all add: written.caches_with_blocks)

section \<open>From the writer to the reader\<close>

text \<open>The entry that a search in sorted entries ends at.\<close>

lemma seek_pos_present:
  assumes "comparator_ok c valid lt" "sorted_wrt lt (map fst es)" "list_all valid (map fst es)" "map_of es key = Some v"
  shows "seek_pos c key es < length es" "es ! seek_pos c key es = (key, v)"
proof -
  let ?i = "seek_pos c key es"
  note order = comparator_ok.compare_less [OF assms(1)] comparator_ok.less_trans [OF assms(1)] comparator_ok.less_irrefl [OF assms(1)]
  obtain m where m: "m < length es" "es ! m = (key, v)" using map_of_SomeD [OF assms(4)] by (auto simp: in_set_conv_nth)
  have valid: "valid (fst (es ! j))" if "j < length es" for j using assms(3) that by (simp add: list_all_length)
  have key: "valid key" using valid [OF m(1)] m(2) by simp
  have "\<not> m < ?i" using seek_pos_before [of m c key es] order(1) [OF key key] order(3) [OF key] m(2) by auto
  moreover have "\<not> ?i < m"
  proof
    assume less: "?i < m"
    then have "lt (fst (es ! ?i)) key" using sorted_wrt_nth_less [OF assms(2), of ?i m] m by simp
    with seek_pos_not_before [of c key es] order(1) [OF valid key, of ?i] less m(1) show False by simp
  qed
  ultimately have "?i = m" by simp
  with m show "?i < length es" "es ! ?i = (key, v)" by simp_all
qed

lemma seek_pos_after:
  assumes "comparator_ok c valid lt" "list_all valid (map fst es)" "valid key" "key \<notin> fst ` set es" "seek_pos c key es < length es"
  shows "lt key (fst (es ! seek_pos c key es))"
proof -
  let ?k = "fst (es ! seek_pos c key es)"
  have k: "valid ?k" "?k \<noteq> key" using assms(2,4) nth_mem [OF assms(5)] by (auto simp: list_all_iff image_iff)
  moreover have "\<not> lt ?k key" using seek_pos_not_before [OF assms(5)] comparator_ok.compare_less [OF assms(1) k(1) assms(3)] by simp
  ultimately show ?thesis using comparator_ok.less_linear [OF assms(1) k(1) assms(3)] by blast
qed

text \<open>A table that was built, in a file that can be read at any place.\<close>

lemma built_readable:
  assumes "table_writer c valid lt dest contents good opt fvalid B" "good f" "contents f = []"
    and "sorted_wrt lt (map fst es)" "list_all valid (map fst es)" "list_all fvalid (map fst es)"
    and "table_weight es < 2 ^ 30" "2 * B * length es < 2 ^ 30"
    and "TableBuilder_new opt f = Some r0" "TableBuilder_Adds dest es r0 = Some r" "TableBuilder_Finish dest r = Some (st, r')"
    and "random_file raf (contents (tb_file r')) ready"
  shows "\<exists>seps parts. readable_table c valid lt raf (contents (tb_file r')) ready opt fvalid seps parts \<and> part_entries parts = es \<and>
    unat (FileSize r') = length (contents (tb_file r'))"
proof -
  from table_writer.table_written [OF assms(1-8)] assms(9-11) obtain seps parts where
    w: "unat (FileSize r') = length (contents (tb_file r'))" "part_entries parts = es"
      "table_file valid fvalid lt opt (contents (tb_file r')) seps parts" by auto
  have "comparator_ok c valid lt" "bo_comparator opt = c"
    using assms(1) by (simp_all add: table_writer_def table_writer_axioms_def)
  then have "readable_table c valid lt raf (contents (tb_file r')) ready opt fvalid seps parts"
    using assms(4,5,12) w(2,3) by (intro readable_table.intro readable_table_axioms.intro) simp_all
  with w(1,2) show ?thesis by blast
qed

text \<open>The id that \<open>Open\<close> takes is new: nothing in the cache has a key that starts with it.\<close>

definition fresh_id :: "('v, 'h, 'c) cache option \<Rightarrow> (slice \<Rightarrow> 'v \<Rightarrow> bool) \<Rightarrow> 'c \<Rightarrow> bool" where
  "fresh_id block_cache P cs \<longleftrightarrow>
     (case block_cache of None \<Rightarrow> True
      | Some cache \<Rightarrow> \<forall>key v. P key v \<longrightarrow> take 8 key \<noteq> EncodeFixed64 (fst (ca_NewId cache cs)))"

lemma open_readable:
  fixes block_cache :: "(block, 'h, 'c) cache option"
  assumes "readable_table c valid lt raf contents ready opt fvalid seps parts" "unat file_size = length contents"
    and "table_world block_cache holds P ready H (k, cs)" "fresh_id block_cache P cs"
  shows "\<exists>t w P'. Table_Open block_cache raf opt file_size (k, cs) = Some ((Status_OK, Some t), w) \<and>
    readable_table.table_opened opt fvalid seps parts t \<and> readable_table.caches opt parts (ta_cache_id t) P' \<and>
    (\<forall>key b. take 8 key \<noteq> EncodeFixed64 (ta_cache_id t) \<longrightarrow> P' key b = P key b) \<and> table_world block_cache holds P' ready H w"
proof -
  from readable_table.Open_opens [OF assms(1,2,3)] obtain t k' cs' where
    t: "Table_Open block_cache raf opt file_size (k, cs) = Some ((Status_OK, Some t), k', cs')" "readable_table.table_opened opt fvalid seps parts t"
      "(ta_cache_id t, cs') = (case block_cache of Some cache \<Rightarrow> ca_NewId cache cs | None \<Rightarrow> (0, cs))"
      "table_world block_cache holds P ready H (k', cs')" by blast
  define w where w: "w = (k', cs')"
  let ?id = "ta_cache_id t"
  let ?B = "readable_table.with_blocks opt parts ?id (\<lambda>_ _. False)"
  let ?P = "\<lambda>key b. if take 8 key = EncodeFixed64 ?id then ?B key b else P key b"
  have key: "take 8 (block_cache_key ?id h) = EncodeFixed64 ?id" for h by (simp add: block_cache_key_def)
  have "readable_table.caches opt parts ?id ?B" by (rule readable_table.caches_with_blocks [OF assms(1)]) simp
  then have "readable_table.caches opt parts ?id ?P" by (simp add: readable_table.caches_def [OF assms(1)] key)
  moreover have "table_world block_cache holds ?P ready H w"
  proof (cases block_cache)
    case None
    then show ?thesis using t(4) by (simp add: table_world_def w)
  next
    case (Some cache)
    have "?id = fst (ca_NewId cache cs)" using t(3) Some by (metis fst_conv option.case(2))
    then have "P key b \<Longrightarrow> ?P key b" for key b using assms(4) Some by (auto simp: fresh_id_def)
    moreover have "cache_ok cache holds" "holds P H cs'" "ready k'" using t(4) Some by (simp_all add: table_world_def w)
    ultimately have "holds ?P H cs'" using cache_ok.weaken [of cache holds P H cs' ?P] by blast
    with Some t(4) show ?thesis by (simp add: table_world_def w)
  qed
  ultimately show ?thesis using t(1,2) w by (intro exI [of _ t] exI [of _ w] exI [of _ ?P]) simp
qed

section \<open>Properties\<close>

text \<open>C13: the table builder writes a table: for keys in ascending order (and sizes within the bounds of
  32-bit offsets) a new builder, \<open>Add\<close> of every entry and \<open>Finish\<close> return without a failed assertion and with
  status OK, for every comparator, filter policy and file that keep their contracts. The reported file
  size is the number of bytes written, and these bytes are a table of exactly these entries: the data
  blocks, the filter block, the metaindex block, the index block with a separator for every data block, each with
  type byte and masked checksum, and the footer with the two handles.\<close>

theorem TableBuilder_writes:
  assumes "table_writer c valid lt dest contents good opt fvalid B" "good f" "contents f = []"
    and "sorted_wrt lt (map fst es)" "list_all valid (map fst es)" "list_all fvalid (map fst es)"
    and "table_weight es < 2 ^ 30" "2 * B * length es < 2 ^ 30"
  shows "\<exists>r0 r r' seps parts. TableBuilder_new opt f = Some r0 \<and> TableBuilder_Adds dest es r0 = Some r \<and>
    TableBuilder_Finish dest r = Some (Status_OK, r') \<and> good (tb_file r') \<and>
    unat (FileSize r') = length (contents (tb_file r')) \<and>
    part_entries parts = es \<and> table_file valid fvalid lt opt (contents (tb_file r')) seps parts"
  by (rule table_writer.table_written [OF assms])

text \<open>The entries of the example.\<close>

definition sample_entries :: "entry list" where
  "sample_entries = [([1], [10, 11]), ([1, 2], [20]), ([3], [])]"

lemma sample_ok:
  "sorted_wrt bytes_less (map fst sample_entries)" "table_weight sample_entries < 2 ^ 30"
  "2 * (10 + 10) * length sample_entries < 2 ^ 30" "list_all (\<lambda>_. True) (map fst sample_entries)"
  by (simp_all add: sample_entries_def table_weight_def entry_weight_def)

lemma sample_built:
  "\<exists>r0 r r'. TableBuilder_new (bloom_options 10) new_posix_file = Some r0 \<and>
     TableBuilder_Adds (posix_writable_file ram_sys) sample_entries r0 = Some r \<and>
     TableBuilder_Finish (posix_writable_file ram_sys) r = Some (Status_OK, r')"
  using posix_table.table_written [OF new_posix_file sample_ok(1,4,4,2,3)] by blast

definition disk_with :: "(posix_writable \<times> ram_kernel) table_builder \<Rightarrow> ram_kernel" where
  "disk_with r = \<lparr>rk_disk = ram_write.written_data (tb_file r), rk_pos = 0, rk_interrupts = 0\<rparr>"

lemma sample_world:
  "lru_holds P {#} cache \<Longrightarrow>
     table_world (Some lru_cache_ops) lru_holds P (\<lambda>k. rk_disk k = ram_write.written_data (tb_file r)) {#} (disk_with r, cache)"
  by (simp add: table_world_def disk_with_def lru.cache_ok_axioms)

lemma sample_fresh: "fresh_id block_cache (\<lambda>_ _. False) cs"
  by (simp add: fresh_id_def split: option.split)

theorem TableBuilder_writes_witness:
  "\<exists>r0 r r'. TableBuilder_new (bloom_options 10) new_posix_file = Some r0 \<and>
     TableBuilder_Adds (posix_writable_file ram_sys) sample_entries r0 = Some r \<and>
     TableBuilder_Finish (posix_writable_file ram_sys) r = Some (Status_OK, r') \<and>
     unat (FileSize r') = length (ram_write.written_data (tb_file r'))"
  using TableBuilder_writes [OF posix_table.table_writer_axioms new_posix_file sample_ok(1,4,4,2,3)] by blast

text \<open>C14: what the builder wrote is read back: \<open>Open\<close> on a file with these bytes, with the size that the builder
  reported, succeeds for any block cache that keeps its contract (or none) and takes a new id; the
  iterator that \<open>NewIterator\<close> makes (a two-level iterator over the index and the data blocks, which are
  read and cached on the way) behaves in every call as an iterator over exactly the entries that
  were added: first, last, seek, next and previous give the right positions, keys and values, the status is OK, and
  the iterator releases every cache handle it took.\<close>

theorem Table_reads_back:
  fixes block_cache :: "(block, 'h, 'c) cache option" and ready :: "'k \<Rightarrow> bool"
  assumes "table_writer c valid lt dest contents good opt fvalid B" "good f" "contents f = []"
    and "sorted_wrt lt (map fst es)" "list_all valid (map fst es)" "list_all fvalid (map fst es)"
    and "table_weight es < 2 ^ 30" "2 * B * length es < 2 ^ 30"
    and "TableBuilder_new opt f = Some r0" "TableBuilder_Adds dest es r0 = Some r" "TableBuilder_Finish dest r = Some (st, r')"
    and "random_file raf (contents (tb_file r')) ready"
    and "table_world block_cache holds P ready H (k, cs)" "fresh_id block_cache P cs"
  shows "\<exists>t w P'. Table_Open block_cache raf opt (FileSize r') (k, cs) = Some ((Status_OK, Some t), w) \<and>
    (\<forall>key b. take 8 key \<noteq> EncodeFixed64 (ta_cache_id t) \<longrightarrow> P' key b = P key b) \<and>
    table_world block_cache holds P' ready H w \<and>
    (\<exists>good at held. iterator_ok (table_iterator_ops block_cache raf t ropt) c valid es good at held (table_world block_cache holds P' ready) \<and>
      (\<forall>H w. table_world block_cache holds P' ready H w \<longrightarrow>
        moved good held (table_world block_cache holds P' ready) H (Table_NewIterator t w)))"
proof -
  from built_readable [OF assms(1-12)] obtain seps parts where
    r: "readable_table c valid lt raf (contents (tb_file r')) ready opt fvalid seps parts" and es: "part_entries parts = es"
      and size: "unat (FileSize r') = length (contents (tb_file r'))" by auto
  from open_readable [OF r size assms(13,14)] obtain t w P' where
    t: "Table_Open block_cache raf opt (FileSize r') (k, cs) = Some ((Status_OK, Some t), w)"
      "readable_table.table_opened opt fvalid seps parts t" "readable_table.caches opt parts (ta_cache_id t) P'"
      "\<forall>key b. take 8 key \<noteq> EncodeFixed64 (ta_cache_id t) \<longrightarrow> P' key b = P key b" "table_world block_cache holds P' ready H w" by blast
  show ?thesis
    using t(1,4,5) readable_table.table_iterator [OF r t(2,3), where block_cache = block_cache and holds = holds and ropt = ropt, unfolded es]
    by (intro exI [of _ t] exI [of _ w] exI [of _ P']) simp
qed

theorem Table_reads_back_witness:
  "\<exists>r0 r r' cache t w P. TableBuilder_new (bloom_options 10) new_posix_file = Some r0 \<and>
     TableBuilder_Adds (posix_writable_file ram_sys) sample_entries r0 = Some r \<and>
     TableBuilder_Finish (posix_writable_file ram_sys) r = Some (Status_OK, r') \<and> ShardedLRUCache 8388608 = Some cache \<and>
     Table_Open (Some lru_cache_ops) (pread_file True ''a/000005.ldb'') (bloom_options 10) (FileSize r') (disk_with r', cache) =
       Some ((Status_OK, Some t), w) \<and>
     (\<exists>good at held. iterator_ok (table_iterator_ops (Some lru_cache_ops) (pread_file True ''a/000005.ldb'') t ReadOptions)
        BytewiseComparator (\<lambda>_. True) sample_entries good at held
        (table_world (Some lru_cache_ops) lru_holds P (\<lambda>k. rk_disk k = ram_write.written_data (tb_file r'))))"
proof -
  obtain r0 r r' where b: "TableBuilder_new (bloom_options 10) new_posix_file = Some r0"
    "TableBuilder_Adds (posix_writable_file ram_sys) sample_entries r0 = Some r"
    "TableBuilder_Finish (posix_writable_file ram_sys) r = Some (Status_OK, r')" using sample_built by blast
  obtain cache where cache: "ShardedLRUCache 8388608 = Some (cache :: block sharded_cache)"
    "lru_holds (\<lambda>_ _. False) {#} cache" using new_cache_holds by blast
  from Table_reads_back [OF posix_table.table_writer_axioms new_posix_file sample_ok(1,4,4,2,3) b
      ram_pread.random.random_file_axioms [where p = True and name = "''a/000005.ldb''"]
      sample_world [OF cache(2)] sample_fresh, where ropt = ReadOptions] b cache(1)
  show ?thesis by (elim exE conjE) (intro exI conjI; assumption)
qed

text \<open>C15: lookups in a table that was built: \<open>InternalGet\<close> with a key of the table hands exactly this key and its
  value to the callback, whatever the index, the filter and the cache do; with another key the callback
  is not called or gets an entry with a greater key. The status is OK, and all cache handles are
  released.\<close>

theorem Table_lookup:
  fixes block_cache :: "(block, 'h, 'c) cache option" and ready :: "'k \<Rightarrow> bool"
  assumes "table_writer c valid lt dest contents good opt fvalid B" "good f" "contents f = []"
    and "sorted_wrt lt (map fst es)" "list_all valid (map fst es)" "list_all fvalid (map fst es)"
    and "table_weight es < 2 ^ 30" "2 * B * length es < 2 ^ 30"
    and "TableBuilder_new opt f = Some r0" "TableBuilder_Adds dest es r0 = Some r" "TableBuilder_Finish dest r = Some (st, r')"
    and "random_file raf (contents (tb_file r')) ready"
    and "table_world block_cache holds P ready H (k, cs)" "fresh_id block_cache P cs"
    and "valid key" "op_filter_policy opt \<noteq> None \<Longrightarrow> fvalid key" "\<And>k v a. handle_result k v a \<noteq> None"
  shows "\<exists>t w arg' w' P'. Table_Open block_cache raf opt (FileSize r') (k, cs) = Some ((Status_OK, Some t), w) \<and>
    InternalGet block_cache raf t ropt key handle_result arg w = Some ((Status_OK, arg'), w') \<and>
    table_world block_cache holds P' ready H w' \<and>
    (case map_of es key of
       Some v \<Rightarrow> handle_result key v arg = Some arg'
     | None \<Rightarrow> arg' = arg \<or> (\<exists>(k, v) \<in> set es. lt key k \<and> handle_result k v arg = Some arg'))"
proof -
  from built_readable [OF assms(1-12)] obtain seps parts where
    r: "readable_table c valid lt raf (contents (tb_file r')) ready opt fvalid seps parts" and es: "part_entries parts = es"
      and size: "unat (FileSize r') = length (contents (tb_file r'))" by auto
  from open_readable [OF r size assms(13,14)] obtain t w P' where
    t: "Table_Open block_cache raf opt (FileSize r') (k, cs) = Some ((Status_OK, Some t), w)"
      "readable_table.table_opened opt fvalid seps parts t" "readable_table.caches opt parts (ta_cache_id t) P'"
      "table_world block_cache holds P' ready H w" by blast
  have order: "comparator_ok c valid lt" using assms(1) by (simp add: table_writer_def)
  let ?i = "seek_pos c key es"
  from readable_table.InternalGet_finds [OF r t(2,3) assms(15) t(4), of handle_result ropt arg, OF assms(17,16)] obtain arg' w' where
    g: "InternalGet block_cache raf t ropt key handle_result arg w = Some ((Status_OK, arg'), w')"
      "table_world block_cache holds P' ready H w'"
      "(?i < length es \<and> handle_result (fst (es ! ?i)) (snd (es ! ?i)) arg = Some arg') \<or> (arg' = arg \<and> key \<notin> fst ` set es)"
    unfolding es Let_def by blast
  have "case map_of es key of Some v \<Rightarrow> handle_result key v arg = Some arg'
     | None \<Rightarrow> arg' = arg \<or> (\<exists>(k, v) \<in> set es. lt key k \<and> handle_result k v arg = Some arg')"
  proof (cases "map_of es key")
    case None
    then have absent: "key \<notin> fst ` set es" by (simp add: map_of_eq_None_iff)
    have "lt key (fst (es ! ?i))" if "?i < length es"
      using seek_pos_after [OF order assms(5,15) absent that] .
    moreover have "(fst (es ! ?i), snd (es ! ?i)) \<in> set es" if "?i < length es" using that by simp
    ultimately show ?thesis using g(3) None by (simp only: option.case) blast
  next
    case (Some v)
    with seek_pos_present [OF order assms(4,5) Some] g(3) map_of_SomeD [OF Some] show ?thesis by force
  qed
  with t(1) g(1,2) show ?thesis by blast
qed

theorem Table_lookup_witness:
  "\<exists>r0 r r' cache t w w'. TableBuilder_new (bloom_options 10) new_posix_file = Some r0 \<and>
     TableBuilder_Adds (posix_writable_file ram_sys) sample_entries r0 = Some r \<and>
     TableBuilder_Finish (posix_writable_file ram_sys) r = Some (Status_OK, r') \<and> ShardedLRUCache 8388608 = Some cache \<and>
     Table_Open (Some lru_cache_ops) (pread_file False ''a/000005.ldb'') (bloom_options 10) (FileSize r') (disk_with r', cache) =
       Some ((Status_OK, Some t), w) \<and>
     InternalGet (Some lru_cache_ops) (pread_file False ''a/000005.ldb'') t ReadOptions [1, 2] (\<lambda>k v _. Some (Some (k, v))) None w =
       Some ((Status_OK, Some ([1, 2], [20])), w')"
proof -
  obtain r0 r r' where b: "TableBuilder_new (bloom_options 10) new_posix_file = Some r0"
    "TableBuilder_Adds (posix_writable_file ram_sys) sample_entries r0 = Some r"
    "TableBuilder_Finish (posix_writable_file ram_sys) r = Some (Status_OK, r')" using sample_built by blast
  obtain cache where cache: "ShardedLRUCache 8388608 = Some (cache :: block sharded_cache)"
    "lru_holds (\<lambda>_ _. False) {#} cache" using new_cache_holds by blast
  have "map_of sample_entries [1, 2] = Some [20]" by (simp add: sample_entries_def)
  with Table_lookup [OF posix_table.table_writer_axioms new_posix_file sample_ok(1,4,4,2,3) b
      ram_pread.random.random_file_axioms [where p = False and name = "''a/000005.ldb''"]
      sample_world [OF cache(2)] sample_fresh,
      where key = "[1, 2]" and handle_result = "\<lambda>k v _. Some (Some (k, v))" and arg = None and ropt = ReadOptions] b cache(1)
  show ?thesis by auto
qed

end
