(* ===== verification/Ldb_Cache_Props.thy ===== *)
theory Ldb_Cache_Props
  imports Ldb_Cache_LRU_Correct
begin

text \<open>
  The properties of the block cache: what clients that keep to its interface can rely on, in every
  order of their calls.
\<close>

section \<open>Counters\<close>

text \<open>Every insertion takes one new address.\<close>

lemma bind_SomeE: "Option.bind x f = Some y \<Longrightarrow> (\<And>z. x = Some z \<Longrightarrow> f z = Some y \<Longrightarrow> R) \<Longrightarrow> R"
  by (cases x) auto

lemma Ref_next: "LRU_Ref e (s, c) = Some (s', c') \<Longrightarrow> st_next s' = st_next s"
  by (auto simp: LRU_Ref_def set_handle_def split: if_splits elim!: bind_SomeE)

lemma Unref_next: "LRU_Unref e (s, c) = Some (s', c') \<Longrightarrow> st_next s' = st_next s"
  by (auto simp: LRU_Unref_def set_handle_def asserting_def Let_def split: if_splits elim!: bind_SomeE)

lemma FinishErase_next: "FinishErase r (s, c) = Some (b, s', c') \<Longrightarrow> st_next s' = st_next s"
  by (auto simp: FinishErase_def set_handle_def asserting_def split: if_splits option.splits elim!: bind_SomeE dest!: Unref_next)

lemma remove_key_next: "remove_key key hash (s, c) = Some (b, s', c') \<Longrightarrow> st_next s' = st_next s"
  by (auto simp: remove_key_def elim!: bind_SomeE dest: FinishErase_next)

lemma drop_oldest_next: "drop_oldest (s, c) = Some (s', c') \<Longrightarrow> st_next s' = st_next s"
  by (auto simp: drop_oldest_def asserting_def split: if_splits elim!: bind_SomeE dest!: remove_key_next)

lemma evict_loop_next:
  assumes "evict_loop sc = Some sc'" shows "st_next (fst sc') = st_next (fst sc)"
proof (rule evict_loop.raw_induct [OF _ assms])
  fix f and sc sc' :: "'a shard_state"
  assume f: "\<And>sc sc'. f sc = Some sc' \<Longrightarrow> st_next (fst sc') = st_next (fst sc)"
    and loop: "(if lc_usage (snd sc) > lc_capacity (snd sc) \<and> lc_lru (snd sc) \<noteq> [] then Option.bind (drop_oldest sc) f else Some sc) = Some sc'"
  show "st_next (fst sc') = st_next (fst sc)"
  proof (cases "lc_usage (snd sc) > lc_capacity (snd sc) \<and> lc_lru (snd sc) \<noteq> []")
    case True
    with loop obtain sc1 where "drop_oldest sc = Some sc1" "f sc1 = Some sc'" by (auto elim: bind_SomeE)
    with f [of sc1 sc'] drop_oldest_next [of "fst sc" "snd sc" "fst sc1" "snd sc1"] show ?thesis by simp
  next
    case False
    with loop show ?thesis by auto
  qed
qed

lemma Lookup_next: "LRU_Lookup key hash (s, c) = Some (r, s', c') \<Longrightarrow> st_next s' = st_next s"
  by (auto simp: LRU_Lookup_def split: option.splits elim!: bind_SomeE dest!: Ref_next)

lemma Insert_next: "LRU_Insert key hash v charge (s, c) = Some (e, s', c') \<Longrightarrow> st_next s' = Suc (st_next s)"
  by (auto simp: LRU_Insert_def Let_def set_handle_def split: if_splits elim!: bind_SomeE dest!: evict_loop_next FinishErase_next)

lemma on_shard_next:
  assumes "on_shard hash f sc = Some (r, sc')" "\<And>s c r s' c'. f (s, c) = Some (r, s', c') \<Longrightarrow> st_next s' = g (st_next s)"
  shows "st_next (sc_store sc') = g (st_next (sc_store sc))"
  using assms(1) by (auto simp: on_shard_def asserting_def split: if_splits dest: assms(2))

lemma Cache_Insert_next: "Cache_Insert key v charge sc = Some (e, sc') \<Longrightarrow> st_next (sc_store sc') = Suc (st_next (sc_store sc))"
  unfolding Cache_Insert_def by (elim bind_SomeE, erule on_shard_next) (rule Insert_next)

lemma Cache_Lookup_next: "Cache_Lookup key sc = Some (r, sc') \<Longrightarrow> st_next (sc_store sc') = st_next (sc_store sc)"
  unfolding Cache_Lookup_def by (elim bind_SomeE, erule on_shard_next) (rule Lookup_next)

lemma Cache_Release_next: "Cache_Release e sc = Some sc' \<Longrightarrow> st_next (sc_store sc') = st_next (sc_store sc)"
  by (auto simp: Cache_Release_def LRU_Release_def elim!: bind_SomeE on_shard_next dest!: Unref_next)

lemma Cache_Erase_next: "Cache_Erase key sc = Some sc' \<Longrightarrow> st_next (sc_store sc') = st_next (sc_store sc)"
  by (auto simp: Cache_Erase_def LRU_Erase_def elim!: bind_SomeE on_shard_next dest!: remove_key_next)

text \<open>The counters of the code are 32 bits wide; they do not wrap as long as there are fewer than
  \<open>2 ^ 31\<close> calls.\<close>

lemma handles_of_le: "handles_of H e \<le> size H"
  by (metis count_le_size handles_of_def size_image_mset)

lemma lru_counters:
  assumes "lru_holds P H sc"
  shows "st_handles (sc_store sc) e = Some h \<Longrightarrow> lh_refs h \<le> size H + 1"
    "i < kNumShards \<Longrightarrow> ht_elems (lc_table (sc_shards sc ! i)) \<le> st_next (sc_store sc)"
proof -
  let ?s = "sc_store sc"
  show "lh_refs h \<le> size H + 1" if "st_handles ?s e = Some h"
  proof -
    have "e \<in> shard_entries (st_handles ?s) (Shard (lh_hash h))" using that by (simp add: shard_entries_def)
    with lru_shard [OF assms Shard_less [of "lh_hash h"]] have "entry_ok P (handles_of H) (st_handles ?s) e"
      by (simp add: shard_ok_def shard_rest_def)
    with that handles_of_le [of H e] show ?thesis by (auto simp: entry_ok_def split: if_splits)
  qed
  show "ht_elems (lc_table (sc_shards sc ! i)) \<le> st_next ?s" if "i < kNumShards"
  proof -
    let ?S = "cached (st_handles ?s) (shard_entries (st_handles ?s) i)"
    have "ht_elems (lc_table (sc_shards sc ! i)) = card ?S"
      using lru_shard [OF assms that] by (simp add: shard_ok_def table_ok_def)
    moreover have "e < st_next ?s" if "e \<in> ?S" for e
    proof (rule ccontr)
      assume "\<not> e < st_next ?s"
      with assms have "st_handles ?s e = None" by (simp add: lru_holds_def store_ok_def)
      with that show False by (simp add: cached_def)
    qed
    then have "card ?S \<le> card {..<st_next ?s}" by (intro card_mono) auto
    ultimately show ?thesis by simp
  qed
qed
section \<open>Sequences of calls\<close>

text \<open>The calls of all clients, one after the other, as the lock of a shard orders them. \<open>I\<close> are the pairs of key and
  value that were inserted so far, \<open>H\<close> the handles that the clients hold and have not released, each
  with the value it was given for; \<open>n\<close> is the number of calls.\<close>

inductive cache_run :: "u64 \<Rightarrow> nat \<Rightarrow> (slice \<times> 'v) set \<Rightarrow> (nat \<times> 'v) multiset \<Rightarrow> 'v sharded_cache \<Rightarrow> bool" for capacity where
  start: "ShardedLRUCache capacity = Some sc \<Longrightarrow> cache_run capacity 0 {} {#} sc"
| insertion: "cache_run capacity n I H sc \<Longrightarrow> Cache_Insert key v charge sc = Some (e, sc') \<Longrightarrow>
    cache_run capacity (Suc n) (insert (key, v) I) (add_mset (e, v) H) sc'"
| miss: "cache_run capacity n I H sc \<Longrightarrow> Cache_Lookup key sc = Some (None, sc') \<Longrightarrow> cache_run capacity (Suc n) I H sc'"
| hit: "cache_run capacity n I H sc \<Longrightarrow> Cache_Lookup key sc = Some (Some e, sc') \<Longrightarrow> Cache_Value e sc' = Some v \<Longrightarrow>
    cache_run capacity (Suc n) I (add_mset (e, v) H) sc'"
| release: "cache_run capacity n I (add_mset (e, v) H) sc \<Longrightarrow> Cache_Release e sc = Some sc' \<Longrightarrow> cache_run capacity (Suc n) I H sc'"
| erasure: "cache_run capacity n I H sc \<Longrightarrow> Cache_Erase key sc = Some sc' \<Longrightarrow> cache_run capacity (Suc n) I H sc'"
| new_id: "cache_run capacity n I H sc \<Longrightarrow> cache_run capacity (Suc n) I H (snd (Cache_NewId sc))"

lemma lookup_value:
  assumes "lru_holds P (add_mset (e, v) H) sc" shows "Cache_Value e sc = Some v"
  using lru_value [OF assms, of e v] by (auto simp: Cache_Value_def)

lemma cache_run_holds: "cache_run capacity n I H sc \<Longrightarrow> lru_holds (\<lambda>key v. (key, v) \<in> I) H sc"
proof (induction rule: cache_run.induct)
  case (start sc)
  from new_cache_ok [OF this] show ?case .
next
  case (insertion n I H sc key v charge e sc')
  then have "lru_holds (\<lambda>k w. (k, w) \<in> insert (key, v) I) H sc" using lru.weaken by (metis (mono_tags, lifting) insertI2)
  from Cache_Insert_inserts [OF this, of key v charge] insertion(2) show ?case by auto
next
  case (miss n I H sc key sc')
  from Cache_Lookup_finds [OF miss(3), of key] miss(2) show ?case by simp
next
  case (hit n I H sc key e sc' v)
  from Cache_Lookup_finds [OF hit(4), of key] hit(2) obtain w where "lru_holds (\<lambda>key v. (key, v) \<in> I) (add_mset (e, w) H) sc'" by auto
  moreover from lookup_value [OF this] hit(3) have "w = v" by simp
  ultimately show ?case by simp
next
  case (release n I e v H sc sc')
  from Cache_Release_releases [OF release(3)] release(2) show ?case by simp
next
  case (erasure n I H sc key sc')
  from Cache_Erase_erases [OF erasure(3), of key] erasure(2) show ?case by simp
next
  case (new_id n I H sc)
  from lru.new_id [OF new_id(2)] show ?case by (simp add: lru_cache_ops_def)
qed

lemma cache_run_counts: "cache_run capacity n I H sc \<Longrightarrow> size H \<le> n \<and> st_next (sc_store sc) \<le> n"
proof (induction rule: cache_run.induct)
  case (start sc)
  then show ?case by (auto simp: ShardedLRUCache_def)
qed (auto simp: Cache_NewId_def Let_def dest!: Cache_Insert_next Cache_Lookup_next Cache_Release_next Cache_Erase_next)

lemma cache_run_fits:
  assumes "cache_run capacity n I H sc" "n < 2 ^ 31"
  shows "(\<forall>e h. st_handles (sc_store sc) e = Some h \<longrightarrow> lh_refs h \<le> 2 ^ 31) \<and>
    (\<forall>i < kNumShards. ht_elems (lc_table (sc_shards sc ! i)) < 2 ^ 31)"
proof (intro conjI allI impI)
  note counts = cache_run_counts [OF assms(1)]
  show "lh_refs h \<le> 2 ^ 31" if "st_handles (sc_store sc) e = Some h" for e h
    using lru_counters(1) [OF cache_run_holds [OF assms(1)] that] counts assms(2) by linarith
  show "ht_elems (lc_table (sc_shards sc ! i)) < 2 ^ 31" if "i < kNumShards" for i
    using lru_counters(2) [OF cache_run_holds [OF assms(1)] that] counts assms(2) by linarith
qed

lemma cache_run_serves:
  assumes "cache_run capacity n I H sc"
  shows "(\<exists>e sc'. Cache_Insert key v charge sc = Some (e, sc')) \<and>
    (\<exists>r sc'. Cache_Lookup key sc = Some (r, sc') \<and>
      (case r of None \<Rightarrow> True | Some e \<Rightarrow> \<exists>w. (key, w) \<in> I \<and> Cache_Value e sc' = Some w)) \<and>
    (\<forall>(e, w) \<in># H. Cache_Value e sc = Some w \<and> (\<exists>sc'. Cache_Release e sc = Some sc')) \<and>
    (\<exists>sc'. Cache_Erase key sc = Some sc')"
proof (intro conjI ballI, goal_cases)
  note holds = cache_run_holds [OF assms]
  case 1
  have "lru_holds (\<lambda>k w. (k, w) \<in> I \<or> (k, w) = (key, v)) H sc" by (rule lru.weaken [OF holds]) simp
  from Cache_Insert_inserts [OF this, of key v charge] show ?case by blast
next
  case 2
  from Cache_Lookup_finds [OF cache_run_holds [OF assms], of key] show ?case
    by (fastforce split: option.splits dest: lookup_value)
next
  case (3 p)
  obtain e w where p: "p = (e, w)" by fastforce
  with 3 obtain H' where "H = add_mset (e, w) H'" by (metis mset_add)
  with cache_run_holds [OF assms] have "lru_holds (\<lambda>key v. (key, v) \<in> I) (add_mset (e, w) H') sc" by simp
  from lookup_value [OF this] Cache_Release_releases [OF this] p show ?case by auto
next
  case 4
  from Cache_Erase_erases [OF cache_run_holds [OF assms]] show ?case by blast
qed

section \<open>Properties\<close>

text \<open>C28: the LRU cache is safe for its clients: after any sequence of \<open>Insert\<close>, \<open>Lookup\<close>, \<open>Release\<close>, \<open>Erase\<close> and
  \<open>NewId\<close> in which only handles that are held are released, no assertion fails in the next call; a
  lookup returns nothing or an entry whose value was inserted under this key; and an entry that is held
  still has its value, whatever was inserted, evicted or erased meanwhile. This is for less than \<open>2 ^ 31\<close> calls,
  so that the 32-bit counters (references of an entry, elements of a table), which the model has as natural
  numbers, do not wrap.\<close>

theorem cache_clients_safe:
  assumes "cache_run capacity n I H sc" "n < 2 ^ 31"
  shows "(\<forall>e h. st_handles (sc_store sc) e = Some h \<longrightarrow> lh_refs h \<le> 2 ^ 31) \<and>
    (\<forall>i < kNumShards. ht_elems (lc_table (sc_shards sc ! i)) < 2 ^ 31) \<and>
    (\<exists>e sc'. Cache_Insert key v charge sc = Some (e, sc')) \<and>
    (\<exists>r sc'. Cache_Lookup key sc = Some (r, sc') \<and>
      (case r of None \<Rightarrow> True | Some e \<Rightarrow> \<exists>w. (key, w) \<in> I \<and> Cache_Value e sc' = Some w)) \<and>
    (\<forall>(e, w) \<in># H. Cache_Value e sc = Some w \<and> (\<exists>sc'. Cache_Release e sc = Some sc')) \<and>
    (\<exists>sc'. Cache_Erase key sc = Some sc')"
  using cache_run_fits [OF assms] cache_run_serves [OF assms(1)] by blast

lemma zero_bound: "(0 :: nat) < 2 ^ 31"
  by simp

theorem cache_clients_safe_witness:
  "\<exists>e sc sc'. ShardedLRUCache 64 = Some sc \<and> Cache_Insert [1] (7 :: nat) 3 sc = Some (e, sc') \<and>
     Cache_Value e sc' = Some 7 \<and> (\<exists>sc''. Cache_Release e sc' = Some sc'')"
proof -
  obtain sc where sc: "ShardedLRUCache 64 = Some (sc :: nat sharded_cache)" using new_cache_holds by blast
  note run = cache_run.start [OF sc]
  from cache_clients_safe [OF run zero_bound, where key = "[1]" and v = 7 and charge = 3] obtain e sc' where i: "Cache_Insert [1] 7 3 sc = Some (e, sc')" by blast
  have "Cache_Value e sc' = Some 7 \<and> (\<exists>sc''. Cache_Release e sc' = Some sc'')"
    using cache_clients_safe [OF cache_run.insertion [OF run i]] by simp
  with sc i show ?thesis by blast
qed




end
