(* ===== verification/Spec2Isabelle.thy ===== *)
theory Spec2Isabelle
  imports Base64 Pb_Wire Pb_Encode_Props Pb_Decode_Props Ldb_Skiplist_Readers Ldb_Recovery Ldb_Table_Props Ldb_Cache_Props
    Ldb_Block_Correct Ldb_Filter_Correct
begin

text \<open>
  Verification of the C and C++ code of this repository. The application itself
  (\<open>src/Code/MyIVR\<close>) is written in Swift; the native code it is linked with lies in
  \<open>src/Code/Pods\<close>, and three parts of it do their own data handling. They are independent of each
  other.

  \<^bold>\<open>1. nanopb\<close> (\<open>Pods/nanopb\<close>): protocol buffer messages, with which GoogleDataTransport and
  FirebaseCoreDiagnostics encode their reports. A message type is a table of field descriptors, a
  message is a C struct, and a stream is a callback with a state.

    \<^item> \<open>Pb_Prelude\<close>, \<open>Pb_Types\<close>: machine words, the result type \<open>outcome\<close> (a call returned true,
      returned false, or ran into undefined behaviour), \<open>pb.h\<close> with its descriptor macros.
    \<^item> \<open>C_Memory\<close>: the memory with the structs; every access outside a live object is an error.
    \<^item> \<open>Pb_Istream\<close>, \<open>Pb_Decode_Wire\<close>, \<open>Pb_Ostream\<close>: the streams and the wire level of
      \<open>pb_decode.c\<close> and \<open>pb_encode.c\<close>. \<open>Pb_Varint\<close> is the wire format as a specification,
      \<open>Pb_Decode_Wire_Correct\<close> and \<open>Pb_Encode_Wire_Correct\<close> relate the code to it over the
      interfaces \<open>byte_supplier\<close> and \<open>byte_sink\<close>, and \<open>Pb_Wire\<close> has the round trips.
    \<^item> \<open>Pb_Common\<close>: the field iterator of \<open>pb_common.c\<close>.
    \<^item> \<open>Pb_Encode\<close>: \<open>pb_encode.c\<close>; \<open>Pb_Encode_Spec\<close> gives the bytes of a message without a stream,
      \<open>Pb_Encode_Correct\<close> proves the refinement once for every sink, \<open>Pb_Encode_Props\<close> concludes.
    \<^item> \<open>Pb_Decode\<close>: \<open>pb_decode.c\<close>; \<open>Pb_Safe_Reader\<close>, \<open>Pb_Decode_Safe\<close> and \<open>Pb_Decode_Total\<close> prove
      that the decoder of static messages stays inside its struct and its input on every input.

  \<^bold>\<open>2. fbase64.c\<close> (\<open>Pods/FirebaseDatabase\<close>, SocketRocket): the base-64 coder of the websocket
  handshake, in \<open>Base64\<close>, against the encoding of RFC 1521.

  \<^bold>\<open>3. leveldb\<close> (\<open>Pods/leveldb-library\<close>): the store on which FirebaseDatabase keeps its offline data.
  A write goes through a batch, the log and the memory table; the layers below are used by those
  above.

    \<^item> \<open>Ldb_Coding\<close> (\<open>util/coding\<close>, \<open>slice.h\<close>), \<open>Ldb_Crc32c\<close> (\<open>util/crc32c\<close>), \<open>Ldb_Status\<close>,
      \<open>Ldb_Random\<close>, \<open>Ldb_Arena\<close>: numbers and strings in bytes, the checksum, the result type, the
      random numbers, the allocator.
    \<^item> \<open>Ldb_Comparator\<close>, \<open>Ldb_Dbformat\<close>: comparators, with their contract as the locale
      \<open>comparator_ok\<close>, and internal keys; the comparator of internal keys is a \<open>comparator_ok\<close> again.
    \<^item> \<open>Ldb_Env\<close>, \<open>Ldb_Env_Random\<close>: files, with the contracts \<open>append_file\<close>, \<open>read_file\<close> and
      \<open>random_file\<close> of a client and \<open>posix_write\<close>, \<open>posix_read\<close> and \<open>posix_pread\<close> of the system calls;
      sublocales show that \<open>util/env_posix.cc\<close> gives the former from the latter.
    \<^item> \<open>Ldb_Log\<close>, \<open>Ldb_Log_Correct\<close>, \<open>Ldb_Log_Props\<close>: the write-ahead log, writer and reader, against
      the layout of \<open>log_format.h\<close>.
    \<^item> \<open>Ldb_Write_Batch\<close>: batches of updates as lists of operations.
    \<^item> \<open>Ldb_Skiplist\<close>, \<open>Ldb_Skiplist_Correct\<close>, \<open>Ldb_Skiplist_Readers\<close>: the skip list as a heap of
      nodes, as a sorted list, and under the eyes of concurrent readers.
    \<^item> \<open>Ldb_Memtable\<close>: the memory table, as the history of its additions.
    \<^item> \<open>Ldb_Block\<close>, \<open>Ldb_Block_Correct\<close>: blocks of entries (\<open>table/block_builder\<close>, \<open>table/block\<close>), against
      their layout with shared prefixes and restart points.
    \<^item> \<open>Ldb_Filter\<close>, \<open>Ldb_Filter_Correct\<close>: filter policies (\<open>util/bloom\<close>, \<open>util/hash\<close>, the wrapper of
      \<open>db/dbformat\<close>) and \<open>table/filter_block\<close>, with the contract of \<open>filter_policy.h\<close> as \<open>filter_policy_ok\<close>.
    \<^item> \<open>Ldb_Iterator\<close>, \<open>Ldb_Two_Level\<close>, \<open>Ldb_Two_Level_Correct\<close>: the interface of iterators with its
      contract \<open>iterator_ok\<close>, and the two-level iterator, which keeps it when its two parts do.
    \<^item> \<open>Ldb_Cache\<close>, \<open>Ldb_Cache_LRU\<close>, \<open>Ldb_Cache_LRU_Correct\<close>, \<open>Ldb_Cache_Props\<close>: the interface of caches with
      its contract \<open>cache_ok\<close>, and the sharded LRU cache of \<open>util/cache.cc\<close>, with every entry on a heap.
    \<^item> \<open>Ldb_Format\<close>, \<open>Ldb_Table_Builder\<close>, \<open>Ldb_Table\<close>: table files, from \<open>table/format\<close>,
      \<open>table/table_builder\<close> and \<open>table/table\<close>. \<open>Ldb_Table_Written\<close> says what a table file is and proves
      that the builder writes one, \<open>Ldb_Table_Correct\<close> that the reader reads one, over any file, filter
      policy and block cache that keep their contracts; \<open>Ldb_Table_Props\<close> puts the two together and
      interprets them with the POSIX files, the Bloom filter and the LRU cache.
    \<^item> \<open>Ldb_Db\<close>, \<open>Ldb_Db_Read\<close>, \<open>Ldb_Recovery\<close>: group commit, reads at a snapshot and the recovery of
      the log, from \<open>db/db_impl.cc\<close>. The last two compose the layers from the log to the memory
      table: what a crash leaves of the writes, and what a read sees of them.

  \<^bold>\<open>Correspondence.\<close> A definition has the name of the function it models (with the class in front
  where the name would clash). A struct or class is a record with a field for every member the code
  reads; \<open>u8\<close>, \<open>u32\<close> and \<open>u64\<close> are machine words with wrap-around; a pointer into memory is an
  \<open>addr\<close> in nanopb, a node index in the skip list and a byte list from the pointed-to byte on in
  the parsers of leveldb. A failed assertion, an access outside an object or a loop that does not
  end is \<open>Stuck\<close> or \<open>None\<close>, so every theorem that gives a result also shows their absence.

  \<^bold>\<open>Bounds and fuel.\<close> \<open>pb_encode\<close>, \<open>pb_decode\<close>, \<open>pb_release\<close> and the proto3 check recurse through
  submessages, which C bounds by its stack only; their models take the depth left as a number, and
  the theorems ask for the nesting depth of the message type. The loops of the log, the skip list
  searches, the flushes of a file and the recovery are \<open>partial_function\<close>s or \<open>function\<close>s with a
  termination proof; that they return is part of what is proved. Where leveldb's format has a limit,
  it appears as a hypothesis: slices below 4 GiB, fewer than \<open>2 ^ 31\<close> operations in a batch,
  sequence numbers below \<open>2 ^ 56\<close>, logs below \<open>2 ^ 64\<close> bytes when they are reopened, blocks below
  \<open>2 ^ 32\<close> bytes and tables whose entries weigh less than \<open>2 ^ 30\<close> (so that every 32-bit offset of a
  block and of the filters fits), less than \<open>2 ^ 31\<close> keys in a filter (the code passes their number
  as an \<open>int\<close>), and requests of an arena below \<open>2 ^ 63\<close> bytes (its sums are in \<open>size_t\<close> and wrap). The
  counters of the LRU cache are natural numbers; \<open>Ldb_Cache_Props\<close> shows that less than \<open>2 ^ 31\<close> calls
  keep them in the 32 bits of the code. Other sizes that the code keeps in \<open>size_t\<close> and that count
  objects in memory are natural numbers.

  \<^bold>\<open>Concurrency.\<close> The readers of \<open>Ldb_Skiplist_Readers\<close> interleave with the single stores of a
  writer, and every store is seen as soon as it is made; the code reaches this effect with
  acquire loads and release stores of the links. The mutex of the database and the handing over of
  the writer queue are not modelled as such: a group is written by one writer at a time.

  \<^bold>\<open>Parameters.\<close> The callbacks and extension decoders of nanopb's user, \<open>malloc\<close>, the system calls,
  \<open>Sync\<close>, \<open>WriteLevel0Table\<close> and \<open>Version::Get\<close> are parameters of the definitions that call them. The contract of
  \<open>Version::Get\<close> is that of a lookup by internal key: it answers from the entries whose sequence
  numbers the lookup key sees.

  \<^bold>\<open>Not modelled.\<close> The generated message descriptors (tables of data), \<open>pb_encode_negative_varint\<close>
  (compiled out), and of leveldb the version set, the table cache, compactions, the merging and
  the database iterators, and the parts of \<open>env_posix.cc\<close> for opening files, threads, locks and directories.
  Of \<open>RecoverLogFile\<close> the opening of the file and the reuse of the last log are left out, of \<open>DBImpl::Get\<close> the
  read statistics.
  The Objective-C pods and the Swift application only call this code.
\<close>

end
